(* ===== verification/Prelude.thy ===== *)
theory Prelude
  imports Main "HOL-Library.Word"
begin

text \<open>
  Shared vocabulary of the development: the integer conventions of the C++ sources, the
  sequence container operations they use, and the loop rules every component proof rests on.

  \<^item> \<open>for (i = 0; i < n; ++i)\<close> over a state is \<open>fold step [0..<n] s\<close>, and
    \<open>fold_upt_invariant\<close> is its loop rule;
  \<^item> \<open>c_div\<close> is integer division rounding towards zero, as in C++;
  \<^item> \<open>u32_sub\<close> is subtraction on \<open>uint32_t\<close>, with the wrap-around written out;
  \<^item> \<open>vec_resize\<close> is \<open>std::vector::resize\<close>.
\<close>

named_theorems cell_simps \<open>effect of one operation on the fields of a cell array\<close>
named_theorems wf_intros \<open>preservation of a component's invariant\<close>

type_synonym u32 = "32 word"
type_synonym u64 = "64 word"
type_synonym u8 = "8 word"

type_synonym llama_pos = int
type_synonym llama_token = int

subsection \<open>Integers\<close>

definition c_div :: "int \<Rightarrow> int \<Rightarrow> int" where
  "c_div a b = sgn a * sgn b * (\<bar>a\<bar> div \<bar>b\<bar>)"

lemma c_div_nonneg [simp]: "0 \<le> a \<Longrightarrow> 0 < b \<Longrightarrow> c_div a b = a div b"
  by (cases "a = 0") (auto simp: c_div_def)

lemma c_div_bounds: "0 \<le> a \<Longrightarrow> 0 < b \<Longrightarrow> 0 \<le> c_div a b \<and> c_div a b \<le> a"
  using zdiv_mono2 [of a 1 b] by (simp add: pos_imp_zdiv_nonneg_iff)

definition u32_sub :: "nat \<Rightarrow> nat \<Rightarrow> nat" where
  "u32_sub a b = (a + 2 ^ 32 - b) mod 2 ^ 32"

lemma u32_sub_le [simp]: "b \<le> a \<Longrightarrow> a < 2 ^ 32 \<Longrightarrow> u32_sub a b = a - b"
proof -
  assume "b \<le> a" "a < 2 ^ 32"
  then have "a + 2 ^ 32 - b = (a - b) + 2 ^ 32" by simp
  then have "u32_sub a b = (a - b) mod 2 ^ 32"
    by (simp only: u32_sub_def mod_add_self2)
  also have "\<dots> = a - b"
    by (rule mod_less) (use \<open>a < 2 ^ 32\<close> in linarith)
  finally show ?thesis .
qed

definition ggml_pad :: "nat \<Rightarrow> nat \<Rightarrow> nat" where
  \<comment> \<open>the macro \<open>GGML_PAD(x, n) = (x + n - 1) & ~(n - 1)\<close>\<close>
  "ggml_pad x n = nat (and (int x + int n - 1) (not (int n - 1)))"

lemma ggml_pad_pow2:
  "ggml_pad x (2 ^ k) = (x + 2 ^ k - 1) div 2 ^ k * 2 ^ k"
proof -
  have "and a (not (2 ^ k - 1)) = a div 2 ^ k * 2 ^ k" for a :: int
    by (simp flip: mask_eq_exp_minus_1 drop_bit_eq_div push_bit_eq_mult
        add: bit_eq_iff bit_simps) (auto simp: bit_simps)
  moreover have "int x + 2 ^ k - 1 = int (x + 2 ^ k - 1)"
  proof -
    have "int x + int m - 1 = int (x + m - 1)" if "0 < m" for m using that by simp
    from this [of "2 ^ k"] show ?thesis by simp
  qed
  ultimately have "ggml_pad x (2 ^ k) = nat (int (x + 2 ^ k - 1) div 2 ^ k * 2 ^ k)"
    by (simp add: ggml_pad_def)
  also have "\<dots> = nat (int ((x + 2 ^ k - 1) div 2 ^ k * 2 ^ k))"
    by (simp only: of_nat_mult zdiv_int of_nat_power of_nat_numeral)
  finally show ?thesis by (simp only: nat_int)
qed

lemma ggml_pad_ge: "x \<le> ggml_pad x (2 ^ k)"
proof -
  have "x \<le> x + m - 1 - (x + m - 1) mod m" if "0 < m" for m :: nat
    using mod_less_divisor [OF that, of "x + m - 1"] by linarith
  from this [of "2 ^ k"] have "x \<le> x + 2 ^ k - 1 - (x + 2 ^ k - 1) mod 2 ^ k" by simp
  then show ?thesis by (simp add: ggml_pad_pow2 minus_mod_eq_div_mult)
qed

definition INT32_MAX :: int where "INT32_MAX = 2147483647"

subsection \<open>Containers\<close>

definition vec_resize :: "nat \<Rightarrow> 'a \<Rightarrow> 'a list \<Rightarrow> 'a list" where
  "vec_resize n d xs = take n xs @ replicate (n - length xs) d"

lemma length_vec_resize [simp]: "length (vec_resize n d xs) = n"
  by (simp add: vec_resize_def)

lemma vec_resize_nth:
  "i < n \<Longrightarrow> vec_resize n d xs ! i = (if i < length xs then xs ! i else d)"
  by (auto simp: vec_resize_def nth_append)

lemma nth_upd: "xs[i := x] ! j = (if i = j \<and> i < length xs then x else xs ! j)"
  by (cases "i < length xs") (auto simp: list_update_beyond)

lemma find_upt_unique:
  "P s \<Longrightarrow> s < n \<Longrightarrow> (\<And>t. t < n \<Longrightarrow> P t \<Longrightarrow> t = s) \<Longrightarrow> find P [0..<n] = Some s"
proof -
  assume s: "P s" "s < n" and u: "\<And>t. t < n \<Longrightarrow> P t \<Longrightarrow> t = s"
  show ?thesis
  proof (cases "find P [0..<n]")
    case None then show ?thesis using s by (auto simp: find_None_iff)
  next
    case (Some t)
    then have "t < n" "P t" by (auto simp: find_Some_iff)
    then show ?thesis using u Some by simp
  qed
qed

lemma find_append_upt:
  "find P ([0..<n] @ [n]) = (case find P [0..<n] of None \<Rightarrow> (if P n then Some n else None) | Some i \<Rightarrow> Some i)"
proof -
  have "find P (xs @ ys) = (case find P xs of None \<Rightarrow> find P ys | Some i \<Rightarrow> Some i)" for xs ys :: "nat list"
    by (induction xs) auto
  then show ?thesis by (simp split: option.split)
qed

subsection \<open>Loops\<close>

lemma fold_upt_Suc [simp]: "m \<le> n \<Longrightarrow> fold f [m..<Suc n] s = f n (fold f [m..<n] s)"
  by simp

lemma fold_upt_invariant:
  assumes "P 0 s" and "\<And>i s. i < n \<Longrightarrow> P i s \<Longrightarrow> P (Suc i) (f i s)"
  shows "P n (fold f [0..<n] s)"
  using assms by (induction n) auto

lemma fold_invariant_all:
  assumes "P s" and "\<And>x s. x \<in> set xs \<Longrightarrow> P s \<Longrightarrow> P (f x s)"
  shows "P (fold f xs s)"
  using assms by (induction xs arbitrary: s) auto

subsection \<open>Loops that may fail\<close>

fun fold_opt :: "('a \<Rightarrow> 's \<Rightarrow> 's option) \<Rightarrow> 'a list \<Rightarrow> 's \<Rightarrow> 's option" where
  \<comment> \<open>a loop whose body may abort or throw\<close>
  "fold_opt f [] s = Some s"
| "fold_opt f (x # xs) s = (case f x s of None \<Rightarrow> None | Some s' \<Rightarrow> fold_opt f xs s')"

lemma fold_opt_append: "fold_opt f (xs @ ys) s = Option.bind (fold_opt f xs s) (fold_opt f ys)"
  by (induction xs arbitrary: s) (auto split: option.split)

lemma fold_opt_upt_invariant:
  assumes "P 0 s" and "\<And>i s. i < n \<Longrightarrow> P i s \<Longrightarrow> \<exists>s'. f i s = Some s' \<and> P (Suc i) s'"
  shows "\<exists>s'. fold_opt f [0..<n] s = Some s' \<and> P n s'"
  using assms(2)
proof (induction n)
  case 0 then show ?case using assms(1) by simp
next
  case (Suc n)
  then obtain s' where "fold_opt f [0..<n] s = Some s'" "P n s'" by auto
  moreover obtain s'' where "f n s' = Some s''" "P (Suc n) s''" using Suc.prems [OF _ calculation(2)] by auto
  ultimately show ?case by (simp add: fold_opt_append)
qed

lemma fold_opt_keeps:
  assumes "fold_opt f xs s = Some s'" "P s" and "\<And>x s s'. x \<in> set xs \<Longrightarrow> P s \<Longrightarrow> f x s = Some s' \<Longrightarrow> P s'"
  shows "P s'"
  using assms
proof (induction xs arbitrary: s)
  case (Cons x xs)
  then obtain u where u: "f x s = Some u" "fold_opt f xs u = Some s'" by (auto split: option.splits)
  have "P u" by (rule Cons.prems(3) [OF _ Cons.prems(2) u(1)]) simp
  then show ?case by (rule Cons.IH [OF u(2)]) (use Cons.prems(3) in auto)
qed simp

end
