(* ===== verification/KvCells.thy ===== *)
theory KvCells
  imports Prelude
begin

text \<open>
  The cell metadata of a KV cache: the class \<open>llama_kv_cells\<close> of \<open>src/llama-kv-cells.h\<close>.

  The class keeps four parallel vectors (\<open>pos\<close>, \<open>ext\<close>, \<open>shift\<close>, \<open>seq\<close>) and two
  derived indexes: the set \<open>used\<close> of non-empty cells and, for every sequence, the set
  \<open>seq_pos\<close> of (position, cell) pairs. The record \<open>kv_cells\<close> has the same fields; a
  \<open>std::bitset\<close> is the set of its members, the array \<open>seq_pos\<close> a function of the index.
  The invariant \<open>cells_wf\<close> says that the indexes describe the vectors. Every operation
  keeps it where its \<open>assert\<close>s hold (the assertions are compiled out of release builds,
  so they are hypotheses here and not branches).
\<close>

definition LLAMA_MAX_SEQ :: nat where "LLAMA_MAX_SEQ = 256"

definition LLAMA_TOKEN_NULL :: llama_token where "LLAMA_TOKEN_NULL = -1"

subsection \<open>State\<close>

record kv_cell_ext =
  ext_x :: llama_pos
  ext_y :: llama_pos
  ext_tok :: llama_token

definition ext_default :: kv_cell_ext where
  "ext_default = \<lparr>ext_x = 0, ext_y = 0, ext_tok = LLAMA_TOKEN_NULL\<rparr>"

definition is_2d_gt :: "kv_cell_ext \<Rightarrow> llama_pos \<Rightarrow> llama_pos \<Rightarrow> bool" where
  "is_2d_gt e ox oy \<longleftrightarrow> ext_y e > oy \<or> (ext_y e = oy \<and> ext_x e > ox)"

record kv_cells =
  kv_has_shift :: bool
  kv_used :: "nat set"
  kv_pos :: "llama_pos list"
  kv_ext :: "kv_cell_ext list"
  kv_shift :: "llama_pos list"
  kv_seq :: "nat set list"
  kv_seq_pos :: "nat \<Rightarrow> (llama_pos \<times> nat) set"

subsection \<open>The index helpers\<close>

definition seq_pos_dec :: "nat \<Rightarrow> nat \<Rightarrow> kv_cells \<Rightarrow> kv_cells" where
  "seq_pos_dec s i c =
     c\<lparr>kv_seq_pos := (kv_seq_pos c)(s := kv_seq_pos c s - {(kv_pos c ! i, i)})\<rparr>"

definition seq_pos_inc :: "nat \<Rightarrow> nat \<Rightarrow> kv_cells \<Rightarrow> kv_cells" where
  "seq_pos_inc s i c =
     c\<lparr>kv_seq_pos := (kv_seq_pos c)(s := insert (kv_pos c ! i, i) (kv_seq_pos c s))\<rparr>"

definition seq_pos_rm :: "nat \<Rightarrow> kv_cells \<Rightarrow> kv_cells" where
  "seq_pos_rm i c =
     c\<lparr>kv_seq_pos := (\<lambda>s. if s < LLAMA_MAX_SEQ \<and> s \<in> kv_seq c ! i
        then kv_seq_pos c s - {(kv_pos c ! i, i)} else kv_seq_pos c s)\<rparr>"

definition seq_pos_add :: "nat \<Rightarrow> kv_cells \<Rightarrow> kv_cells" where
  "seq_pos_add i c =
     c\<lparr>kv_seq_pos := (\<lambda>s. if s < LLAMA_MAX_SEQ \<and> s \<in> kv_seq c ! i
        then insert (kv_pos c ! i, i) (kv_seq_pos c s) else kv_seq_pos c s)\<rparr>"

subsection \<open>Whole-array operations\<close>

definition cells_size :: "kv_cells \<Rightarrow> nat" where
  "cells_size c = length (kv_pos c)"

definition cells_reset :: "kv_cells \<Rightarrow> kv_cells" where
  "cells_reset c = \<lparr>kv_has_shift = False, kv_used = {},
     kv_pos = map (\<lambda>_. -1) (kv_pos c), kv_ext = map (\<lambda>_. ext_default) (kv_ext c),
     kv_shift = map (\<lambda>_. 0) (kv_shift c), kv_seq = map (\<lambda>_. {}) (kv_seq c),
     kv_seq_pos = (\<lambda>_. {})\<rparr>"

definition cells_reset_shift :: "kv_cells \<Rightarrow> kv_cells" where
  "cells_reset_shift c = c\<lparr>kv_has_shift := False, kv_shift := map (\<lambda>_. 0) (kv_shift c)\<rparr>"

definition cells_resize :: "kv_cells \<Rightarrow> nat \<Rightarrow> kv_cells" where
  "cells_resize c n = cells_reset
     (c\<lparr>kv_pos := vec_resize n 0 (kv_pos c), kv_ext := vec_resize n ext_default (kv_ext c),
        kv_shift := vec_resize n 0 (kv_shift c), kv_seq := vec_resize n {} (kv_seq c)\<rparr>)"

definition cells_empty :: kv_cells where
  \<comment> \<open>a default-constructed object\<close>
  "cells_empty = \<lparr>kv_has_shift = False, kv_used = {}, kv_pos = [], kv_ext = [],
     kv_shift = [], kv_seq = [], kv_seq_pos = (\<lambda>_. {})\<rparr>"

subsection \<open>Queries\<close>

definition cells_is_empty :: "kv_cells \<Rightarrow> nat \<Rightarrow> bool" where
  "cells_is_empty c i \<longleftrightarrow> kv_pos c ! i = -1"

definition cells_get_used :: "kv_cells \<Rightarrow> nat" where
  "cells_get_used c = card (kv_used c)"

definition cells_used_min :: "kv_cells \<Rightarrow> nat" where
  "cells_used_min c = (if kv_used c = {} then 0 else Min (kv_used c))"

definition cells_used_max_p1 :: "kv_cells \<Rightarrow> nat" where
  "cells_used_max_p1 c = (if kv_used c = {} then 0 else Max (kv_used c) + 1)"

definition cells_seq_count :: "kv_cells \<Rightarrow> nat \<Rightarrow> nat" where
  "cells_seq_count c i = card (kv_seq c ! i)"

definition cells_seq_has :: "kv_cells \<Rightarrow> nat \<Rightarrow> nat \<Rightarrow> bool" where
  "cells_seq_has c i s \<longleftrightarrow> s \<in> kv_seq c ! i"

definition cells_seq_get :: "kv_cells \<Rightarrow> nat \<Rightarrow> int" where
  "cells_seq_get c i =
     (case find (\<lambda>s. s \<in> kv_seq c ! i) [0..<LLAMA_MAX_SEQ] of None \<Rightarrow> -1 | Some s \<Rightarrow> int s)"

definition cells_seq_pos_min :: "kv_cells \<Rightarrow> nat \<Rightarrow> llama_pos" where
  "cells_seq_pos_min c s = (if kv_seq_pos c s = {} then -1 else Min (fst ` kv_seq_pos c s))"

definition cells_seq_pos_max :: "kv_cells \<Rightarrow> nat \<Rightarrow> llama_pos" where
  "cells_seq_pos_max c s = (if kv_seq_pos c s = {} then -1 else Max (fst ` kv_seq_pos c s))"

definition cells_seq_pos_tok_le :: "kv_cells \<Rightarrow> nat \<Rightarrow> llama_pos \<Rightarrow> llama_token" where
  \<comment> \<open>the last entry, in the order of pairs, that is not above (p, UINT32_MAX)\<close>
  "cells_seq_pos_tok_le c s p =
     (let below = Set.filter (\<lambda>e. fst e \<le> p) (kv_seq_pos c s) in
      if below = {} then LLAMA_TOKEN_NULL
      else let q = Max (fst ` below);
               i = Max (snd ` Set.filter (\<lambda>e. fst e = q) below)
           in ext_tok (kv_ext c ! i))"

definition cells_pos_in :: "kv_cells \<Rightarrow> nat \<Rightarrow> llama_pos \<Rightarrow> llama_pos \<Rightarrow> bool" where
  "cells_pos_in c i p0 p1 \<longleftrightarrow> kv_pos c ! i \<ge> p0 \<and> kv_pos c ! i < p1"

subsection \<open>Operations on one cell\<close>

definition cells_rm :: "nat \<Rightarrow> kv_cells \<Rightarrow> kv_cells" where
  "cells_rm i c =
     (let c = seq_pos_rm i c in
      c\<lparr>kv_seq := (kv_seq c)[i := {}], kv_pos := (kv_pos c)[i := -1],
        kv_ext := (kv_ext c)[i := ext_default], kv_shift := (kv_shift c)[i := 0],
        kv_used := kv_used c - {i}\<rparr>)"

definition cells_seq_rm :: "nat \<Rightarrow> nat \<Rightarrow> kv_cells \<Rightarrow> kv_cells \<times> bool" where
  "cells_seq_rm i s c =
     (let c = c\<lparr>kv_seq := (kv_seq c)[i := kv_seq c ! i - {s}]\<rparr>;
          c = seq_pos_dec s i c
      in if kv_seq c ! i = {}
         then (c\<lparr>kv_pos := (kv_pos c)[i := -1], kv_ext := (kv_ext c)[i := ext_default],
                 kv_shift := (kv_shift c)[i := 0], kv_used := kv_used c - {i}\<rparr>, True)
         else (c, False))"

definition cells_seq_keep :: "nat \<Rightarrow> nat \<Rightarrow> kv_cells \<Rightarrow> kv_cells \<times> bool" where
  "cells_seq_keep i s c =
     (if s \<in> kv_seq c ! i then
        (let c = seq_pos_rm i c;
             c = c\<lparr>kv_seq := (kv_seq c)[i := {}]\<rparr>;
             c = c\<lparr>kv_seq := (kv_seq c)[i := insert s (kv_seq c ! i)]\<rparr>
         in (seq_pos_inc s i c, False))
      else if kv_seq c ! i \<noteq> {} then
        (let c = seq_pos_rm i c in
         (c\<lparr>kv_seq := (kv_seq c)[i := {}], kv_pos := (kv_pos c)[i := -1],
            kv_ext := (kv_ext c)[i := ext_default], kv_shift := (kv_shift c)[i := 0],
            kv_used := kv_used c - {i}\<rparr>, True))
      else (c, False))"

definition cells_seq_add :: "nat \<Rightarrow> nat \<Rightarrow> kv_cells \<Rightarrow> kv_cells" where
  "cells_seq_add i s c =
     seq_pos_inc s i (c\<lparr>kv_seq := (kv_seq c)[i := insert s (kv_seq c ! i)]\<rparr>)"

definition cells_pos_set :: "nat \<Rightarrow> llama_pos \<Rightarrow> kv_cells \<Rightarrow> kv_cells" where
  "cells_pos_set i p c = c\<lparr>kv_pos := (kv_pos c)[i := p], kv_used := insert i (kv_used c)\<rparr>"

definition cells_ext_set :: "nat \<Rightarrow> kv_cell_ext \<Rightarrow> kv_cells \<Rightarrow> kv_cells" where
  "cells_ext_set i e c = c\<lparr>kv_ext := (kv_ext c)[i := e]\<rparr>"

definition cells_pos_add :: "nat \<Rightarrow> llama_pos \<Rightarrow> kv_cells \<Rightarrow> kv_cells \<times> bool" where
  "cells_pos_add i d c =
     (let c = seq_pos_rm i c;
          c = c\<lparr>kv_pos := (kv_pos c)[i := kv_pos c ! i + d],
                kv_shift := (kv_shift c)[i := kv_shift c ! i + d], kv_has_shift := True\<rparr>
      in if kv_pos c ! i < 0
         then (c\<lparr>kv_seq := (kv_seq c)[i := {}], kv_pos := (kv_pos c)[i := -1],
                 kv_shift := (kv_shift c)[i := 0], kv_used := kv_used c - {i}\<rparr>, True)
         else (seq_pos_add i c, False))"

definition cells_pos_div :: "nat \<Rightarrow> int \<Rightarrow> kv_cells \<Rightarrow> kv_cells" where
  "cells_pos_div i d c =
     (let p_old = kv_pos c ! i;
          c = seq_pos_rm i c;
          c = c\<lparr>kv_pos := (kv_pos c)[i := c_div (kv_pos c ! i) d]\<rparr>;
          c = c\<lparr>kv_shift := (kv_shift c)[i := kv_shift c ! i + (p_old - kv_pos c ! i)]\<rparr>;
          c = seq_pos_add i c
      in c\<lparr>kv_has_shift := True\<rparr>)"

subsection \<open>Saving and restoring cells\<close>

definition cells_cp_idxs :: "kv_cells \<Rightarrow> nat list \<Rightarrow> kv_cells" where
  "cells_cp_idxs c idxs =
     (let res = cells_resize cells_empty (length idxs) in
      fold (\<lambda>j res. let idx = idxs ! j in
        res\<lparr>kv_pos := (kv_pos res)[j := kv_pos c ! idx], kv_ext := (kv_ext res)[j := kv_ext c ! idx],
            kv_seq := (kv_seq res)[j := kv_seq c ! idx]\<rparr>) [0..<length idxs] res)"

definition cells_cp :: "kv_cells \<Rightarrow> nat \<Rightarrow> nat \<Rightarrow> kv_cells" where
  "cells_cp c i n =
     (let res = cells_resize cells_empty n in
      fold (\<lambda>j res. let idx = i + j in
        res\<lparr>kv_pos := (kv_pos res)[j := kv_pos c ! idx], kv_ext := (kv_ext res)[j := kv_ext c ! idx],
            kv_seq := (kv_seq res)[j := kv_seq c ! idx]\<rparr>) [0..<n] res)"

definition cells_set1 :: "nat \<Rightarrow> kv_cells \<Rightarrow> nat \<Rightarrow> kv_cells \<Rightarrow> kv_cells" where
  \<comment> \<open>the loop body both overloads of \<open>set\<close> share: cell \<open>idx\<close> takes the state of cell \<open>j\<close>\<close>
  "cells_set1 idx other j c =
     (let c = (if kv_pos c ! idx = -1 \<and> kv_pos other ! j \<noteq> -1
               then c\<lparr>kv_used := insert idx (kv_used c)\<rparr> else c);
          c = (if kv_pos c ! idx \<noteq> -1 \<and> kv_pos other ! j = -1
               then c\<lparr>kv_used := kv_used c - {idx}\<rparr> else c);
          c = (if kv_pos c ! idx \<noteq> -1 then seq_pos_rm idx c else c);
          c = c\<lparr>kv_pos := (kv_pos c)[idx := kv_pos other ! j],
                kv_ext := (kv_ext c)[idx := kv_ext other ! j],
                kv_seq := (kv_seq c)[idx := kv_seq other ! j]\<rparr>
      in if kv_pos c ! idx \<noteq> -1 then seq_pos_add idx c else c)"

definition cells_set :: "nat \<Rightarrow> kv_cells \<Rightarrow> kv_cells \<Rightarrow> kv_cells" where
  "cells_set i other c = fold (\<lambda>j. cells_set1 (i + j) other j) [0..<length (kv_pos other)] c"

definition cells_set_idxs :: "nat list \<Rightarrow> kv_cells \<Rightarrow> kv_cells \<Rightarrow> kv_cells" where
  "cells_set_idxs idxs other c =
     fold (\<lambda>j. cells_set1 (idxs ! j) other j) [0..<length (kv_pos other)] c"

subsection \<open>The invariant\<close>

definition cells_wf :: "kv_cells \<Rightarrow> bool" where
  "cells_wf c \<longleftrightarrow>
     length (kv_ext c) = length (kv_pos c) \<and>
     length (kv_shift c) = length (kv_pos c) \<and>
     length (kv_seq c) = length (kv_pos c) \<and>
     kv_used c = {i. i < length (kv_pos c) \<and> kv_pos c ! i \<noteq> -1} \<and>
     (\<forall>i < length (kv_pos c). -1 \<le> kv_pos c ! i \<and> kv_seq c ! i \<subseteq> {..<LLAMA_MAX_SEQ} \<and>
        (kv_pos c ! i = -1 \<longrightarrow> kv_seq c ! i = {})) \<and>
     (\<forall>s p i. (p, i) \<in> kv_seq_pos c s \<longleftrightarrow>
        i < length (kv_pos c) \<and> s \<in> kv_seq c ! i \<and> p = kv_pos c ! i)"

lemma cells_wfD:
  assumes "cells_wf c"
  shows "length (kv_ext c) = length (kv_pos c)" "length (kv_shift c) = length (kv_pos c)"
    "length (kv_seq c) = length (kv_pos c)"
    "kv_used c = {i. i < length (kv_pos c) \<and> kv_pos c ! i \<noteq> -1}"
    "\<And>s p i. (p, i) \<in> kv_seq_pos c s \<longleftrightarrow>
       i < length (kv_pos c) \<and> s \<in> kv_seq c ! i \<and> p = kv_pos c ! i"
  using assms unfolding cells_wf_def by blast+

lemma cells_wf_cellD:
  assumes "cells_wf c" "i < length (kv_pos c)"
  shows "-1 \<le> kv_pos c ! i" "kv_seq c ! i \<subseteq> {..<LLAMA_MAX_SEQ}"
    "s \<in> kv_seq c ! i \<Longrightarrow> s < LLAMA_MAX_SEQ" "s \<in> kv_seq c ! i \<Longrightarrow> kv_pos c ! i \<noteq> -1"
    "s \<in> kv_seq c ! i \<Longrightarrow> 0 \<le> kv_pos c ! i"
    "kv_pos c ! i = -1 \<Longrightarrow> kv_seq c ! i = {}" "finite (kv_seq c ! i)"
proof -
  have *: "-1 \<le> kv_pos c ! i" "kv_seq c ! i \<subseteq> {..<LLAMA_MAX_SEQ}"
    "kv_pos c ! i = -1 \<longrightarrow> kv_seq c ! i = {}"
    using assms unfolding cells_wf_def by blast+
  show "-1 \<le> kv_pos c ! i" "kv_seq c ! i \<subseteq> {..<LLAMA_MAX_SEQ}"
    "s \<in> kv_seq c ! i \<Longrightarrow> s < LLAMA_MAX_SEQ" "s \<in> kv_seq c ! i \<Longrightarrow> kv_pos c ! i \<noteq> -1"
    "kv_pos c ! i = -1 \<Longrightarrow> kv_seq c ! i = {}" "finite (kv_seq c ! i)"
    using * by (auto intro: finite_subset)
  show "0 \<le> kv_pos c ! i" if "s \<in> kv_seq c ! i"
  proof -
    have "kv_pos c ! i \<noteq> -1" using * that by auto
    with *(1) show ?thesis by linarith
  qed
qed

lemma cells_wf_seq_pos_eq:
  "cells_wf c \<Longrightarrow>
     kv_seq_pos c s = (\<lambda>i. (kv_pos c ! i, i)) ` {i. i < length (kv_pos c) \<and> s \<in> kv_seq c ! i}"
  using cells_wfD(5) by fastforce

lemma finite_kv_seq_pos [simp]: "cells_wf c \<Longrightarrow> finite (kv_seq_pos c s)"
  by (simp add: cells_wf_seq_pos_eq)

text \<open>
  Every operation replaces the position and the sequence set of one cell and repairs the
  two indexes. This is the one place where the repair is shown right.
\<close>

lemma cells_wf_update:
  assumes "cells_wf c" "i < length (kv_pos c)"
    and "kv_pos c' = (kv_pos c)[i := p]" "kv_seq c' = (kv_seq c)[i := S]"
    and "length (kv_ext c') = length (kv_pos c)" "length (kv_shift c') = length (kv_pos c)"
    and "kv_used c' = (if p = -1 then kv_used c - {i} else insert i (kv_used c))"
    and "\<And>s. kv_seq_pos c' s = (kv_seq_pos c s - {(kv_pos c ! i, i)}) \<union> (if s \<in> S then {(p, i)} else {})"
    and "-1 \<le> p" "S \<subseteq> {..<LLAMA_MAX_SEQ}" "p = -1 \<Longrightarrow> S = {}"
  shows "cells_wf c'"
proof -
  note wf = cells_wfD [OF assms(1)]
  have used: "kv_used c' = {j. j < length (kv_pos c') \<and> kv_pos c' ! j \<noteq> -1}"
    using assms(2,3,7) wf(4) by (auto simp: nth_list_update)
  have seqs: "(q, j) \<in> kv_seq_pos c' s \<longleftrightarrow>
      j < length (kv_pos c') \<and> s \<in> kv_seq c' ! j \<and> q = kv_pos c' ! j" for s q j
    by (cases "j = i") (use assms(2-4) in \<open>auto simp: assms(8) wf(3,5)\<close>)
  have cell: "-1 \<le> kv_pos c' ! j \<and> kv_seq c' ! j \<subseteq> {..<LLAMA_MAX_SEQ} \<and>
      (kv_pos c' ! j = -1 \<longrightarrow> kv_seq c' ! j = {})" if "j < length (kv_pos c')" for j
  proof (cases "j = i")
    case True then show ?thesis using assms(2-4,9-11) wf(3) by simp
  next
    case False then show ?thesis
      using that assms(2-4) wf(3) cells_wf_cellD(1,2,6) [OF assms(1), of j] by simp
  qed
  show ?thesis
    unfolding cells_wf_def using used seqs cell wf(3) assms(3-6) by simp
qed

lemma cells_wf_reset [wf_intros]:
  assumes "cells_wf c" shows "cells_wf (cells_reset c)"
  using cells_wfD(1-3) [OF assms] by (auto simp: cells_wf_def cells_reset_def)

lemma cells_wf_resize [wf_intros]: "cells_wf (cells_resize c n)"
  by (auto simp: cells_wf_def cells_resize_def cells_reset_def)

lemma cells_wf_empty [wf_intros]: "cells_wf cells_empty"
  by (simp add: cells_wf_def cells_empty_def)

lemma cells_wf_reset_shift [wf_intros]: "cells_wf c \<Longrightarrow> cells_wf (cells_reset_shift c)"
  by (simp add: cells_wf_def cells_reset_shift_def)

lemma cells_wf_ext_set [wf_intros]: "cells_wf c \<Longrightarrow> cells_wf (cells_ext_set i e c)"
  by (simp add: cells_wf_def cells_ext_set_def)

lemma cells_wf_rm [wf_intros]:
  assumes "cells_wf c" "i < length (kv_pos c)"
  shows "cells_wf (cells_rm i c)"
  by (rule cells_wf_update [OF assms, where p = "-1" and S = "{}"])
    (use cells_wfD [OF assms(1)] cells_wf_cellD(3) [OF assms]
     in \<open>auto simp: cells_rm_def seq_pos_rm_def\<close>)

lemma cells_wf_seq_rm [wf_intros]:
  assumes "cells_wf c" "i < length (kv_pos c)" "s \<in> kv_seq c ! i"
  shows "cells_wf (fst (cells_seq_rm i s c))"
proof -
  note d = cells_wfD [OF assms(1)] cells_wf_cellD [OF assms(1,2)]
  show ?thesis
  proof (cases "kv_seq c ! i - {s} = {}")
    case True
    then have [simp]: "kv_seq c ! i = {s}" using assms(3) by blast
    show ?thesis
      by (rule cells_wf_update [OF assms(1,2), where p = "-1" and S = "{}"])
        (use d assms(2,3) in \<open>auto simp: cells_seq_rm_def seq_pos_dec_def Let_def\<close>)
  next
    case False
    show ?thesis
      by (rule cells_wf_update [OF assms(1,2), where p = "kv_pos c ! i" and S = "kv_seq c ! i - {s}"])
        (use False d assms(2,3) in \<open>auto simp: cells_seq_rm_def seq_pos_dec_def Let_def\<close>)
  qed
qed

lemma cells_wf_seq_keep [wf_intros]:
  assumes "cells_wf c" "i < length (kv_pos c)"
  shows "cells_wf (fst (cells_seq_keep i s c))"
proof -
  note d = cells_wfD [OF assms(1)] cells_wf_cellD [OF assms]
  consider (keep) "s \<in> kv_seq c ! i" | (drop) "s \<notin> kv_seq c ! i" "kv_seq c ! i \<noteq> {}"
    | (none) "kv_seq c ! i = {}" by blast
  then show ?thesis
  proof cases
    case keep
    show ?thesis
      by (rule cells_wf_update [OF assms, where p = "kv_pos c ! i" and S = "{s}"])
        (use keep d assms(2) in \<open>auto simp: cells_seq_keep_def seq_pos_rm_def seq_pos_inc_def Let_def\<close>)
  next
    case drop
    show ?thesis
      by (rule cells_wf_update [OF assms, where p = "-1" and S = "{}"])
        (use drop d assms(2) in \<open>auto simp: cells_seq_keep_def seq_pos_rm_def Let_def\<close>)
  next
    case none then show ?thesis using assms by (simp add: cells_seq_keep_def)
  qed
qed

lemma cells_wf_seq_add [wf_intros]:
  assumes "cells_wf c" "i < length (kv_pos c)" "kv_pos c ! i \<noteq> -1" "s < LLAMA_MAX_SEQ"
  shows "cells_wf (cells_seq_add i s c)"
  by (rule cells_wf_update [OF assms(1,2), where p = "kv_pos c ! i" and S = "insert s (kv_seq c ! i)"])
    (use assms cells_wfD [OF assms(1)] cells_wf_cellD [OF assms(1,2)]
     in \<open>auto simp: cells_seq_add_def seq_pos_inc_def\<close>)

lemma cells_wf_pos_set [wf_intros]:
  assumes "cells_wf c" "i < length (kv_pos c)" "kv_pos c ! i = -1" "0 \<le> p"
  shows "cells_wf (cells_pos_set i p c)"
  by (rule cells_wf_update [OF assms(1,2), where p = p and S = "{}"])
    (use assms cells_wfD [OF assms(1)] cells_wf_cellD(6) [OF assms(1,2,3)] list_update_id [of "kv_seq c" i]
     in \<open>auto simp: cells_pos_set_def\<close>)

lemma cells_wf_pos_add [wf_intros]:
  assumes "cells_wf c" "i < length (kv_pos c)" "kv_pos c ! i \<noteq> -1"
  shows "cells_wf (fst (cells_pos_add i d c))"
proof -
  note f = cells_wfD [OF assms(1)] cells_wf_cellD [OF assms(1,2)]
  show ?thesis
  proof (cases "kv_pos c ! i + d < 0")
    case True
    show ?thesis
      by (rule cells_wf_update [OF assms(1,2), where p = "-1" and S = "{}"])
        (use True f assms(2,3) in \<open>auto simp: cells_pos_add_def seq_pos_rm_def Let_def\<close>)
  next
    case False
    show ?thesis
      by (rule cells_wf_update [OF assms(1,2), where p = "kv_pos c ! i + d" and S = "kv_seq c ! i"])
        (use False f assms(2,3) in
         \<open>auto simp: cells_pos_add_def seq_pos_rm_def seq_pos_add_def Let_def\<close>)
  qed
qed

lemma cells_wf_pos_div [wf_intros]:
  assumes "cells_wf c" "i < length (kv_pos c)" "kv_pos c ! i \<noteq> -1" "0 < d"
  shows "cells_wf (cells_pos_div i d c)"
proof -
  note f = cells_wfD [OF assms(1)] cells_wf_cellD [OF assms(1,2)]
  have p: "0 \<le> kv_pos c ! i" using f(6) assms(3) by linarith
  have q: "0 \<le> c_div (kv_pos c ! i) d" using c_div_bounds [OF p assms(4)] by simp
  show ?thesis
    by (rule cells_wf_update [OF assms(1,2), where p = "c_div (kv_pos c ! i) d" and S = "kv_seq c ! i"])
      (use q f assms(2,3) in
       \<open>auto simp: cells_pos_div_def seq_pos_rm_def seq_pos_add_def Let_def simp del: c_div_nonneg\<close>)
qed

text \<open>Copies of cells carry no \<open>used\<close> or \<open>seq_pos\<close> index; only the vectors matter.\<close>

definition cells_data_ok :: "kv_cells \<Rightarrow> bool" where
  "cells_data_ok c \<longleftrightarrow>
     length (kv_ext c) = length (kv_pos c) \<and> length (kv_seq c) = length (kv_pos c) \<and>
     (\<forall>i < length (kv_pos c). -1 \<le> kv_pos c ! i \<and> kv_seq c ! i \<subseteq> {..<LLAMA_MAX_SEQ} \<and>
        (kv_pos c ! i = -1 \<longrightarrow> kv_seq c ! i = {}))"

lemma cells_wf_data_ok: "cells_wf c \<Longrightarrow> cells_data_ok c"
  unfolding cells_data_ok_def cells_wf_def by blast

lemma cells_wf_set1 [wf_intros]:
  assumes "cells_wf c" "cells_data_ok other" "idx < length (kv_pos c)" "j < length (kv_pos other)"
  shows "cells_wf (cells_set1 idx other j c)"
proof -
  have o: "-1 \<le> kv_pos other ! j" "kv_seq other ! j \<subseteq> {..<LLAMA_MAX_SEQ}"
    "kv_pos other ! j = -1 \<Longrightarrow> kv_seq other ! j = {}"
    using assms(2,4) unfolding cells_data_ok_def by blast+
  note f = cells_wfD [OF assms(1)] cells_wf_cellD [OF assms(1,3)]
  show ?thesis
    by (rule cells_wf_update [OF assms(1,3), where p = "kv_pos other ! j" and S = "kv_seq other ! j"])
      (use o f assms(3) in
       \<open>auto simp: cells_set1_def seq_pos_rm_def seq_pos_add_def Let_def\<close>)
qed

subsection \<open>The abstract cell array\<close>

text \<open>
  What a client sees of cell \<open>i\<close>: nothing when it is empty, else its position, pending
  shift, extra data and sequences. The lemmas \<open>cells_view_*\<close> refine every operation of the
  class by an operation on this view.
\<close>

record abs_cell =
  cell_pos :: llama_pos
  cell_shift :: llama_pos
  cell_ext :: kv_cell_ext
  cell_seq :: "nat set"

definition cells_view :: "kv_cells \<Rightarrow> nat \<Rightarrow> abs_cell option" where
  "cells_view c i =
     (if kv_pos c ! i = -1 then None
      else Some \<lparr>cell_pos = kv_pos c ! i, cell_shift = kv_shift c ! i,
                 cell_ext = kv_ext c ! i, cell_seq = kv_seq c ! i\<rparr>)"

definition cell_drop_seq :: "nat \<Rightarrow> abs_cell \<Rightarrow> abs_cell option" where
  "cell_drop_seq s k =
     (if cell_seq k - {s} = {} then None else Some (k\<lparr>cell_seq := cell_seq k - {s}\<rparr>))"

definition cell_move :: "llama_pos \<Rightarrow> abs_cell \<Rightarrow> abs_cell option" where
  "cell_move d k =
     (if cell_pos k + d < 0 then None
      else Some (k\<lparr>cell_pos := cell_pos k + d, cell_shift := cell_shift k + d\<rparr>))"

definition cell_scale :: "int \<Rightarrow> abs_cell \<Rightarrow> abs_cell" where
  "cell_scale d k =
     k\<lparr>cell_pos := c_div (cell_pos k) d, cell_shift := cell_shift k + (cell_pos k - c_div (cell_pos k) d)\<rparr>"

lemma cells_length [cell_simps]:
  "length (kv_pos (cells_rm i c)) = length (kv_pos c)"
  "length (kv_pos (fst (cells_seq_rm i s c))) = length (kv_pos c)"
  "length (kv_pos (fst (cells_seq_keep i s c))) = length (kv_pos c)"
  "length (kv_pos (cells_seq_add i s c)) = length (kv_pos c)"
  "length (kv_pos (cells_pos_set i p c)) = length (kv_pos c)"
  "length (kv_pos (cells_ext_set i e c)) = length (kv_pos c)"
  "length (kv_pos (fst (cells_pos_add i d c))) = length (kv_pos c)"
  "length (kv_pos (cells_pos_div i t c)) = length (kv_pos c)"
  "length (kv_pos (cells_set1 i other j c)) = length (kv_pos c)"
  "length (kv_pos (cells_reset c)) = length (kv_pos c)"
  "length (kv_pos (cells_reset_shift c)) = length (kv_pos c)"
  by (simp_all add: cells_rm_def cells_seq_rm_def cells_seq_keep_def cells_seq_add_def
      cells_pos_set_def cells_ext_set_def cells_pos_add_def cells_pos_div_def cells_set1_def
      cells_reset_def cells_reset_shift_def seq_pos_rm_def seq_pos_add_def seq_pos_inc_def
      seq_pos_dec_def Let_def)

lemmas cells_defs = cells_rm_def cells_seq_rm_def cells_seq_keep_def cells_seq_add_def
  cells_pos_set_def cells_ext_set_def cells_pos_add_def cells_pos_div_def cells_set1_def
  seq_pos_rm_def seq_pos_add_def seq_pos_inc_def seq_pos_dec_def

lemma cells_view_rm [cell_simps]:
  assumes "cells_wf c" "i < length (kv_pos c)"
  shows "cells_view (cells_rm i c) j = (if j = i then None else cells_view c j)"
  using cells_wfD(1-3) [OF assms(1)] assms(2) by (simp add: cells_view_def cells_defs nth_upd)

lemma cells_view_seq_rm [cell_simps]:
  assumes "cells_wf c" "i < length (kv_pos c)" "s \<in> kv_seq c ! i"
  shows "cells_view (fst (cells_seq_rm i s c)) j =
    (if j = i then Option.bind (cells_view c i) (cell_drop_seq s) else cells_view c j)"
    "snd (cells_seq_rm i s c) \<longleftrightarrow> Option.bind (cells_view c i) (cell_drop_seq s) = None"
  using cells_wfD(1-3) [OF assms(1)] cells_wf_cellD(4) [OF assms] assms(2)
  by (simp_all add: cells_view_def cells_defs nth_upd cell_drop_seq_def Let_def)

definition cell_keep_seq :: "nat \<Rightarrow> abs_cell \<Rightarrow> abs_cell option" where
  "cell_keep_seq s k =
     (if s \<in> cell_seq k then Some (k\<lparr>cell_seq := {s}\<rparr>)
      else if cell_seq k \<noteq> {} then None else Some k)"

lemma cells_view_seq_keep [cell_simps]:
  assumes "cells_wf c" "i < length (kv_pos c)"
  shows "cells_view (fst (cells_seq_keep i s c)) j =
    (if j = i then Option.bind (cells_view c i) (cell_keep_seq s) else cells_view c j)"
    "snd (cells_seq_keep i s c) \<longleftrightarrow>
       cells_view c i \<noteq> None \<and> Option.bind (cells_view c i) (cell_keep_seq s) = None"
  using cells_wfD(1-3) [OF assms(1)] cells_wf_cellD(4,6) [OF assms] assms(2)
  by (auto simp add: cells_view_def cells_defs nth_upd cell_keep_seq_def Let_def)

lemma cells_view_seq_add [cell_simps]:
  assumes "cells_wf c" "i < length (kv_pos c)" "kv_pos c ! i \<noteq> -1"
  shows "cells_view (cells_seq_add i s c) j =
    (if j = i then map_option (\<lambda>k. k\<lparr>cell_seq := insert s (cell_seq k)\<rparr>) (cells_view c i)
     else cells_view c j)"
  using cells_wfD(1-3) [OF assms(1)] assms(2,3) by (simp add: cells_view_def cells_defs nth_upd)

lemma cells_view_pos_set [cell_simps]:
  assumes "cells_wf c" "i < length (kv_pos c)" "kv_pos c ! i = -1" "p \<noteq> -1"
  shows "cells_view (cells_pos_set i p c) j =
    (if j = i then Some \<lparr>cell_pos = p, cell_shift = kv_shift c ! i, cell_ext = kv_ext c ! i, cell_seq = {}\<rparr>
     else cells_view c j)"
  using cells_wfD(1-3) [OF assms(1)] cells_wf_cellD(6) [OF assms(1,2,3)] assms(2,4)
  by (simp add: cells_view_def cells_defs nth_upd)

lemma cells_view_ext_set [cell_simps]:
  assumes "cells_wf c" "i < length (kv_pos c)"
  shows "cells_view (cells_ext_set i e c) j =
    (if j = i then map_option (\<lambda>k. k\<lparr>cell_ext := e\<rparr>) (cells_view c i) else cells_view c j)"
  using cells_wfD(1-3) [OF assms(1)] assms(2) by (simp add: cells_view_def cells_defs nth_upd)

lemma cells_view_pos_add [cell_simps]:
  assumes "cells_wf c" "i < length (kv_pos c)" "kv_pos c ! i \<noteq> -1"
  shows "cells_view (fst (cells_pos_add i d c)) j =
    (if j = i then Option.bind (cells_view c i) (cell_move d) else cells_view c j)"
    "snd (cells_pos_add i d c) \<longleftrightarrow> Option.bind (cells_view c i) (cell_move d) = None"
  using cells_wfD(1-3) [OF assms(1)] assms(2,3)
  by (auto simp add: cells_view_def cells_defs nth_upd cell_move_def Let_def)

lemma cells_view_pos_div [cell_simps]:
  assumes "cells_wf c" "i < length (kv_pos c)" "kv_pos c ! i \<noteq> -1" "0 < d"
  shows "cells_view (cells_pos_div i d c) j =
    (if j = i then map_option (cell_scale d) (cells_view c i) else cells_view c j)"
proof -
  have "0 \<le> kv_pos c ! i" using cells_wf_cellD(1) [OF assms(1,2)] assms(3) by linarith
  then have "c_div (kv_pos c ! i) d \<noteq> -1" using c_div_bounds assms(4) by fastforce
  then show ?thesis
    using cells_wfD(1-3) [OF assms(1)] assms(2,3)
    by (simp add: cells_view_def cells_defs nth_upd cell_scale_def Let_def)
qed

lemma cells_view_set1 [cell_simps]:
  assumes "cells_wf c" "i < length (kv_pos c)"
  shows "cells_view (cells_set1 i other j c) k =
    (if k = i then map_option (\<lambda>v. v\<lparr>cell_shift := kv_shift c ! i\<rparr>) (cells_view other j)
     else cells_view c k)"
  using cells_wfD(1-3) [OF assms(1)] assms(2) by (simp add: cells_view_def cells_defs nth_upd Let_def)

lemma cells_view_reset [cell_simps]:
  "i < length (kv_pos c) \<Longrightarrow> cells_view (cells_reset c) i = None"
  by (simp add: cells_view_def cells_reset_def)

text \<open>The view determines everything the queries of the class return.\<close>

definition cell_has_seq :: "nat \<Rightarrow> abs_cell option \<Rightarrow> bool" where
  "cell_has_seq s v \<longleftrightarrow> (case v of None \<Rightarrow> False | Some k \<Rightarrow> s \<in> cell_seq k)"

lemma cells_is_empty_view: "cells_is_empty c i \<longleftrightarrow> cells_view c i = None"
  by (simp add: cells_is_empty_def cells_view_def)

lemma cells_seq_has_view:
  "cells_wf c \<Longrightarrow> i < length (kv_pos c) \<Longrightarrow> cells_seq_has c i s \<longleftrightarrow> cell_has_seq s (cells_view c i)"
  using cells_wf_cellD(4) by (auto simp: cells_seq_has_def cell_has_seq_def cells_view_def)

definition cell_pos_in :: "llama_pos \<Rightarrow> llama_pos \<Rightarrow> abs_cell option \<Rightarrow> bool" where
  "cell_pos_in p0 p1 v \<longleftrightarrow> (case v of None \<Rightarrow> False | Some k \<Rightarrow> p0 \<le> cell_pos k \<and> cell_pos k < p1)"

lemma cells_pos_in_view:
  "0 \<le> p0 \<Longrightarrow> cells_pos_in c i p0 p1 \<longleftrightarrow> cell_pos_in p0 p1 (cells_view c i)"
  by (auto simp: cells_pos_in_def cell_pos_in_def cells_view_def)

subsection \<open>What the index queries return\<close>

definition seq_positions :: "kv_cells \<Rightarrow> nat \<Rightarrow> llama_pos set" where
  "seq_positions c s = (!) (kv_pos c) ` {i. i < length (kv_pos c) \<and> s \<in> kv_seq c ! i}"

lemma fst_kv_seq_pos:
  assumes "cells_wf c" shows "fst ` kv_seq_pos c s = seq_positions c s"
  by (simp add: cells_wf_seq_pos_eq [OF assms] seq_positions_def image_image)

lemma seq_positions_view:
  "cells_wf c \<Longrightarrow> p \<in> seq_positions c s \<longleftrightarrow>
     (\<exists>i k. i < length (kv_pos c) \<and> cells_view c i = Some k \<and> s \<in> cell_seq k \<and> p = cell_pos k)"
  using cells_wf_cellD(4) by (force simp: seq_positions_def cells_view_def)

lemma finite_seq_positions: "cells_wf c \<Longrightarrow> finite (seq_positions c s)"
  by (metis fst_kv_seq_pos finite_kv_seq_pos finite_imageI)

lemma seq_positions_nonneg: "cells_wf c \<Longrightarrow> p \<in> seq_positions c s \<Longrightarrow> 0 \<le> p"
  using cells_wf_cellD(5) by (auto simp: seq_positions_def)

lemma kv_seq_pos_empty_iff: "cells_wf c \<Longrightarrow> kv_seq_pos c s = {} \<longleftrightarrow> seq_positions c s = {}"
  by (metis fst_kv_seq_pos image_is_empty)

lemma cells_seq_pos_min_eq:
  "cells_wf c \<Longrightarrow>
     cells_seq_pos_min c s = (if seq_positions c s = {} then -1 else Min (seq_positions c s))"
  by (simp add: cells_seq_pos_min_def kv_seq_pos_empty_iff fst_kv_seq_pos)

lemma cells_seq_pos_max_eq:
  "cells_wf c \<Longrightarrow>
     cells_seq_pos_max c s = (if seq_positions c s = {} then -1 else Max (seq_positions c s))"
  by (simp add: cells_seq_pos_max_def kv_seq_pos_empty_iff fst_kv_seq_pos)

lemma cells_seq_pos_le_max: "cells_wf c \<Longrightarrow> p \<in> seq_positions c s \<Longrightarrow> p \<le> cells_seq_pos_max c s"
  by (auto simp: cells_seq_pos_max_eq finite_seq_positions)

lemma cells_seq_pos_min_le: "cells_wf c \<Longrightarrow> p \<in> seq_positions c s \<Longrightarrow> cells_seq_pos_min c s \<le> p"
  by (auto simp: cells_seq_pos_min_eq finite_seq_positions)

text \<open>
  The token of the nearest position at or before \<open>p\<close>: of the cells of the sequence at such
  a position, one with the largest position, and among those the one of largest index.
\<close>

definition tok_before :: "kv_cells \<Rightarrow> nat \<Rightarrow> llama_pos \<Rightarrow> nat \<Rightarrow> bool" where
  "tok_before c s p i \<longleftrightarrow> i < length (kv_pos c) \<and> s \<in> kv_seq c ! i \<and> kv_pos c ! i \<le> p"

lemma cells_seq_pos_tok_le_none:
  assumes "cells_wf c" "\<And>i. \<not> tok_before c s p i"
  shows "cells_seq_pos_tok_le c s p = LLAMA_TOKEN_NULL"
  using assms by (auto simp: cells_seq_pos_tok_le_def cells_wf_seq_pos_eq tok_before_def Let_def)

lemma cells_seq_pos_tok_le_some:
  assumes wf: "cells_wf c" and i: "tok_before c s p i"
    and best: "\<And>j. tok_before c s p j \<Longrightarrow>
      kv_pos c ! j < kv_pos c ! i \<or> (kv_pos c ! j = kv_pos c ! i \<and> j \<le> i)"
  shows "cells_seq_pos_tok_le c s p = ext_tok (kv_ext c ! i)"
proof -
  let ?B = "{e \<in> kv_seq_pos c s. fst e \<le> p}"
  have B: "?B = (\<lambda>i. (kv_pos c ! i, i)) ` {i. tok_before c s p i}"
    by (auto simp: cells_wf_seq_pos_eq [OF wf] tok_before_def)
  have fin: "finite (Collect (tok_before c s p))"
    by (rule finite_subset [of _ "{..<length (kv_pos c)}"]) (auto simp: tok_before_def)
  have q: "Max (fst ` ?B) = kv_pos c ! i"
    unfolding B image_image fst_conv
  proof (rule Max_eqI)
    show "y \<le> kv_pos c ! i" if "y \<in> (!) (kv_pos c) ` Collect (tok_before c s p)" for y
      using that best by force
  qed (use fin i in auto)
  have "Max (snd ` {e \<in> ?B. fst e = kv_pos c ! i}) = i"
    unfolding B
  proof (rule Max_eqI)
    show "i \<in> snd ` {e \<in> (\<lambda>i. (kv_pos c ! i, i)) ` Collect (tok_before c s p). fst e = kv_pos c ! i}"
      using i by (intro image_eqI [of _ _ "(kv_pos c ! i, i)"]) auto
  qed (use fin best in \<open>auto, force\<close>)
  then show ?thesis
    using i q by (auto simp: cells_seq_pos_tok_le_def Let_def B)
qed

lemma cells_seq_get_unique:
  assumes "cells_wf c" "i < length (kv_pos c)" "cells_seq_count c i = 1"
  shows "\<exists>s < LLAMA_MAX_SEQ. kv_seq c ! i = {s} \<and> cells_seq_get c i = int s"
proof -
  obtain s where s: "kv_seq c ! i = {s}"
    using assms(3) by (auto simp: cells_seq_count_def card_1_singleton_iff)
  then have lt: "s < LLAMA_MAX_SEQ" using cells_wf_cellD(3) [OF assms(1,2)] by simp
  have "find (\<lambda>t. t \<in> kv_seq c ! i) [0..<LLAMA_MAX_SEQ] = Some s"
    by (rule find_upt_unique) (simp_all add: s lt)
  then show ?thesis using s lt by (simp add: cells_seq_get_def)
qed

lemma cells_used_iff:
  "cells_wf c \<Longrightarrow> i \<in> kv_used c \<longleftrightarrow> i < length (kv_pos c) \<and> cells_view c i \<noteq> None"
  by (simp add: cells_wfD(4) cells_view_def)

lemma finite_kv_used: "cells_wf c \<Longrightarrow> finite (kv_used c)"
  by (simp add: cells_wfD(4))

lemma cells_used_max_p1_bound:
  assumes "cells_wf c"
  shows "cells_used_max_p1 c \<le> length (kv_pos c)"
    and "\<And>i. cells_used_max_p1 c \<le> i \<Longrightarrow> i < length (kv_pos c) \<Longrightarrow> cells_view c i = None"
proof -
  show "cells_used_max_p1 c \<le> length (kv_pos c)"
    using Max_in [OF finite_kv_used [OF assms]] cells_used_iff [OF assms]
    by (auto simp: cells_used_max_p1_def Suc_le_eq)
  show "cells_view c i = None" if "cells_used_max_p1 c \<le> i" "i < length (kv_pos c)" for i
  proof (rule ccontr)
    assume "cells_view c i \<noteq> None"
    then have "i \<in> kv_used c" using that(2) cells_used_iff [OF assms] by simp
    then show False
      using that(1) Max_ge [OF finite_kv_used [OF assms], of i]
      by (auto simp: cells_used_max_p1_def split: if_splits)
  qed
qed

lemma cells_get_used_view:
  "cells_wf c \<Longrightarrow> cells_get_used c = card {i. i < length (kv_pos c) \<and> cells_view c i \<noteq> None}"
  by (auto simp: cells_get_used_def cells_used_iff intro: arg_cong [where f = card])

end
