(* ===== verification/CellLoop.thy ===== *)
theory CellLoop
  imports KvCells
begin

text \<open>
  The sequence operations of the KV cache all have one shape: a loop over the cells of a
  stream that changes cell \<open>i\<close> in step \<open>i\<close> and remembers the first cell it freed. The
  locale \<open>cellwise_loop\<close> is the contract between such a loop and the cell array: what the
  body does to the view of its own cell, and that it leaves the others alone. What the whole
  loop does is proved once, here.
\<close>

locale cellwise_map =
  fixes wf :: "'c \<Rightarrow> bool"
    and len :: "'c \<Rightarrow> nat"
    and view :: "'c \<Rightarrow> nat \<Rightarrow> 'v"
    and body :: "nat \<Rightarrow> 'c \<Rightarrow> 'c"
    and trans :: "'v \<Rightarrow> 'v"
  assumes body_wf: "wf c \<Longrightarrow> i < len c \<Longrightarrow> wf (body i c)"
    and body_len: "wf c \<Longrightarrow> i < len c \<Longrightarrow> len (body i c) = len c"
    and body_view: "wf c \<Longrightarrow> i < len c \<Longrightarrow>
      view (body i c) j = (if j = i then trans (view c i) else view c j)"
begin

abbreviation run :: "'c \<Rightarrow> 'c" where
  "run c \<equiv> fold body [0..<len c] c"

lemma run_prefix:
  assumes "wf c" "n \<le> len c"
  shows "wf (fold body [0..<n] c) \<and> len (fold body [0..<n] c) = len c \<and>
    (\<forall>j. view (fold body [0..<n] c) j = (if j < n then trans (view c j) else view c j))"
  using assms(2)
proof (induction n)
  case 0 then show ?case using assms(1) by simp
next
  case (Suc n)
  then show ?case by (auto simp: body_wf body_len body_view)
qed

lemma run_wf: "wf c \<Longrightarrow> wf (run c)"
  and run_len: "wf c \<Longrightarrow> len (run c) = len c"
  and run_view: "wf c \<Longrightarrow> view (run c) j = (if j < len c then trans (view c j) else view c j)"
  using run_prefix [of c "len c"] by auto

end

text \<open>The loops that also return the first cell they freed (\<open>new_head\<close>, or the size).\<close>

locale cellwise_loop = cellwise_map +
  fixes mark :: "'a \<Rightarrow> nat"
    and frees :: "'b \<Rightarrow> bool"
  assumes body_mark: "wf c \<Longrightarrow> i < len c \<Longrightarrow>
      mark (body i c) = (if frees (view c i) \<and> mark c = len c then i else mark c)"
begin

lemma run_mark_prefix:
  assumes "wf c" "mark c = len c" "n \<le> len c"
  shows "mark (fold body [0..<n] c) =
    (case find (\<lambda>i. frees (view c i)) [0..<n] of None \<Rightarrow> len c | Some i \<Rightarrow> i)"
  using assms(3)
proof (induction n)
  case 0 then show ?case using assms(2) by simp
next
  case (Suc n)
  let ?d = "fold body [0..<n] c"
  have d: "wf ?d" "len ?d = len c" "view ?d n = view c n"
    using run_prefix [OF assms(1), of n] Suc.prems by auto
  show ?case
  proof (cases "find (\<lambda>i. frees (view c i)) [0..<n]")
    case None
    then have "mark ?d = len c" using Suc by simp
    with None show ?thesis
      using d Suc.prems body_mark [of ?d n] by (auto simp: find_append_upt)
  next
    case (Some i)
    then have "i < n" by (auto simp: find_Some_iff)
    then have "mark ?d \<noteq> len c" "mark ?d = i" using Suc Some by simp_all
    with Some show ?thesis
      using d Suc.prems body_mark [of ?d n] by (auto simp: find_append_upt)
  qed
qed

lemma run_mark:
  "wf c \<Longrightarrow> mark c = len c \<Longrightarrow>
     mark (run c) = (case find (\<lambda>i. frees (view c i)) [0..<len c] of None \<Rightarrow> len c | Some i \<Rightarrow> i)"
  by (rule run_mark_prefix) simp_all

lemma run_mark_le: "wf c \<Longrightarrow> mark c = len c \<Longrightarrow> mark (run c) \<le> len c"
  by (auto simp: run_mark find_Some_iff split: option.split)

lemma run_mark_freed:
  assumes "wf c" "mark c = len c" "mark (run c) \<noteq> len c"
  shows "mark (run c) < len c" "frees (view c (mark (run c)))"
    "\<And>i. i < mark (run c) \<Longrightarrow> \<not> frees (view c i)"
proof -
  obtain i where "find (\<lambda>i. frees (view c i)) [0..<len c] = Some i" "mark (run c) = i"
    using assms(3) run_mark [OF assms(1,2)] by (cases "find (\<lambda>i. frees (view c i)) [0..<len c]") auto
  then show "mark (run c) < len c" "frees (view c (mark (run c)))"
    "\<And>i. i < mark (run c) \<Longrightarrow> \<not> frees (view c i)"
    by (auto simp: find_Some_iff)
qed

end

end
