(* ===== verification/KvCache.thy ===== *)
theory KvCache
  imports CellLoop
begin

text \<open>
  The unified KV cache, \<open>llama_kv_cache\<close> of \<open>src/llama-kv-cache.cpp\<close>: the sequence
  operations on its cells (\<open>clear\<close>, \<open>seq_rm\<close>, \<open>seq_cp\<close>, \<open>seq_keep\<close>, \<open>seq_add\<close>, \<open>seq_div\<close>,
  \<open>seq_pos_min\<close>, \<open>seq_pos_max\<close>) and what each does to every cell and sequence.

  A cache holds one cell array and one search head per stream, and maps sequences to
  streams. \<open>GGML_ASSERT\<close> aborts in every build: an operation that may abort returns an
  option, \<open>None\<close> for the abort. Tensor data and device buffers are not part of the model;
  the pending stream copies (\<open>sc_info\<close>) are, as the list the next update would apply.
\<close>

datatype swa_type = SWA_TYPE_NONE | SWA_TYPE_STANDARD | SWA_TYPE_CHUNKED | SWA_TYPE_SYMMETRIC

fun is_masked_swa :: "nat \<Rightarrow> swa_type \<Rightarrow> llama_pos \<Rightarrow> llama_pos \<Rightarrow> bool" where
  "is_masked_swa n_swa SWA_TYPE_NONE p0 p1 = False"
| "is_masked_swa n_swa SWA_TYPE_STANDARD p0 p1 = (p1 - p0 \<ge> int n_swa)"
| "is_masked_swa n_swa SWA_TYPE_CHUNKED p0 p1 =
     (let pos_chunk_start = (p1 div int n_swa) * int n_swa in p0 < pos_chunk_start)"
| "is_masked_swa n_swa SWA_TYPE_SYMMETRIC p0 p1 =
     (let half_n_swa = c_div (int n_swa) 2; pos_diff = p1 - p0
      in pos_diff < - half_n_swa \<or> pos_diff > half_n_swa)"

record stream_copy_info =
  ssrc :: "nat list"
  sdst :: "nat list"

record kv_cache =
  kc_n_stream :: nat
  kc_n_pad :: nat
  kc_n_swa :: nat
  kc_swa_type :: swa_type
  kc_n_pos_per_embd :: nat
  kc_ple_n_heads :: nat
  kc_ple_image_token_id :: llama_token
  kc_ple_eos_token_id :: llama_token
  kc_other :: bool \<comment> \<open>the cells belong to another cache\<close>
  kc_heads :: "nat list"
  kc_cells :: "kv_cells list"
  kc_seq_to_stream :: "nat list"
  kc_sc_info :: stream_copy_info

definition kvc_new :: "bool \<Rightarrow> nat \<Rightarrow> nat \<Rightarrow> kv_cache \<Rightarrow> kv_cache" where
  \<comment> \<open>the constructor of a cache that owns its cells; the other settings are given\<close>
  "kvc_new unified kv_size n_seq_max settings =
     (let n_stream = (if unified then 1 else n_seq_max);
          sts = vec_resize LLAMA_MAX_SEQ 0 [];
          sts = (if n_stream > 1
                 then fold (\<lambda>s xs. xs[s := s]) [0..<n_stream] (vec_resize n_stream 0 sts) else sts)
      in settings\<lparr>kc_n_stream := n_stream, kc_other := False,
           kc_heads := replicate n_stream 0,
           kc_cells := map (\<lambda>c. cells_resize c kv_size) (replicate n_stream cells_empty),
           kc_seq_to_stream := sts, kc_sc_info := \<lparr>ssrc = [], sdst = []\<rparr>\<rparr>)"

definition seq_ok :: "kv_cache \<Rightarrow> int \<Rightarrow> bool" where
  "seq_ok kc s \<longleftrightarrow> 0 \<le> s \<and> nat s < length (kc_seq_to_stream kc)"

definition stream_of :: "kv_cache \<Rightarrow> nat \<Rightarrow> nat" where
  "stream_of kc s = kc_seq_to_stream kc ! s"

definition cells_of :: "kv_cache \<Rightarrow> nat \<Rightarrow> kv_cells" where
  "cells_of kc s = kc_cells kc ! stream_of kc s"

definition clip_p0 :: "llama_pos \<Rightarrow> llama_pos" where
  "clip_p0 p0 = (if p0 < 0 then 0 else p0)"

definition clip_p1 :: "llama_pos \<Rightarrow> llama_pos" where
  "clip_p1 p1 = (if p1 < 0 then INT32_MAX else p1)"

subsection \<open>Operations\<close>

definition kvc_clear :: "kv_cache \<Rightarrow> kv_cache" where
  "kvc_clear kc = fold (\<lambda>s kc.
     kc\<lparr>kc_cells := (kc_cells kc)[s := cells_reset (kc_cells kc ! s)],
        kc_heads := (kc_heads kc)[s := 0]\<rparr>) [0..<kc_n_stream kc] kc"

definition seq_rm_body :: "nat \<Rightarrow> llama_pos \<Rightarrow> llama_pos \<Rightarrow> nat \<Rightarrow> kv_cells \<times> nat \<Rightarrow> kv_cells \<times> nat" where
  "seq_rm_body s p0 p1 i = (\<lambda>(c, new_head).
     if \<not> cells_pos_in c i p0 p1 then (c, new_head)
     else if cells_seq_has c i s then
       (case cells_seq_rm i s c of (c', freed) \<Rightarrow>
          (c', if freed \<and> new_head = cells_size c' then i else new_head))
     else (c, new_head))"

definition rm_body :: "llama_pos \<Rightarrow> llama_pos \<Rightarrow> nat \<Rightarrow> kv_cells \<times> nat \<Rightarrow> kv_cells \<times> nat" where
  "rm_body p0 p1 i = (\<lambda>(c, new_head).
     if \<not> cells_pos_in c i p0 p1 then (c, new_head)
     else (cells_rm i c, if new_head = cells_size c then i else new_head))"

definition set_head_min :: "nat \<Rightarrow> nat \<Rightarrow> nat \<Rightarrow> nat" where
  \<comment> \<open>if we freed up a slot, set head to it so searching can start there\<close>
  "set_head_min n new_head head = (if new_head \<noteq> n \<and> new_head < head then new_head else head)"

definition loop_stream :: "(nat \<Rightarrow> kv_cells \<times> nat \<Rightarrow> kv_cells \<times> nat) \<Rightarrow> (nat \<Rightarrow> nat \<Rightarrow> nat \<Rightarrow> nat) \<Rightarrow>
    nat \<Rightarrow> kv_cache \<Rightarrow> kv_cache" where
  \<comment> \<open>one pass over the cells of stream \<open>t\<close>, then the update of its head\<close>
  "loop_stream body upd t kc =
     (let c = kc_cells kc ! t; n = cells_size c;
          (c', new_head) = fold body [0..<n] (c, n)
      in kc\<lparr>kc_cells := (kc_cells kc)[t := c'],
            kc_heads := (kc_heads kc)[t := upd n new_head (kc_heads kc ! t)]\<rparr>)"

definition kvc_seq_rm :: "int \<Rightarrow> llama_pos \<Rightarrow> llama_pos \<Rightarrow> kv_cache \<Rightarrow> (kv_cache \<times> bool) option" where
  "kvc_seq_rm seq_id p0 p1 kc =
     (if kc_other kc then Some (kc, True)
      else if \<not> (seq_id = -1 \<or> seq_ok kc seq_id) then None
      else let p0 = clip_p0 p0; p1 = clip_p1 p1 in
        if seq_id \<ge> 0 then
          Some (loop_stream (seq_rm_body (nat seq_id) p0 p1) set_head_min (stream_of kc (nat seq_id)) kc, True)
        else Some (fold (loop_stream (rm_body p0 p1) set_head_min) [0..<kc_n_stream kc] kc, True))"

definition seq_cp_body :: "nat \<Rightarrow> nat \<Rightarrow> llama_pos \<Rightarrow> llama_pos \<Rightarrow> nat \<Rightarrow> kv_cells \<Rightarrow> kv_cells" where
  "seq_cp_body src dst p0 p1 i c =
     (if \<not> cells_pos_in c i p0 p1 then c
      else if cells_seq_has c i src then cells_seq_add i dst c else c)"

definition seq_cp_stream_body :: "nat \<Rightarrow> nat \<Rightarrow> kv_cells \<Rightarrow> nat \<Rightarrow> kv_cells \<Rightarrow> kv_cells" where
  "seq_cp_stream_body src dst c0 i c1 =
     (if cells_seq_has c0 i src then
        (let pos = kv_pos c0 ! i; shift = kv_shift c0 ! i; ext = kv_ext c0 ! i;
             pos = (if shift \<noteq> 0 then pos - shift else pos);
             c1 = cells_pos_set i pos c1;
             c1 = cells_seq_add i dst c1;
             c1 = (if shift \<noteq> 0 then fst (cells_pos_add i shift c1) else c1)
         in cells_ext_set i ext c1)
      else c1)"

definition kvc_get_size :: "kv_cache \<Rightarrow> nat" where
  "kvc_get_size kc = cells_size (kc_cells kc ! (kc_seq_to_stream kc ! 0))"

definition kvc_seq_cp :: "int \<Rightarrow> int \<Rightarrow> llama_pos \<Rightarrow> llama_pos \<Rightarrow> kv_cache \<Rightarrow> kv_cache option" where
  "kvc_seq_cp src dst p0 p1 kc =
     (if kc_other kc then Some kc
      else if \<not> seq_ok kc src \<or> \<not> seq_ok kc dst then None
      else let s0 = stream_of kc (nat src); s1 = stream_of kc (nat dst) in
        if s0 = s1 then
          (let c = kc_cells kc ! s0 in
           if src = dst then Some kc
           else let p0 = clip_p0 p0; p1 = clip_p1 p1;
                    c' = fold (seq_cp_body (nat src) (nat dst) p0 p1) [0..<cells_size c] c
                in Some (kc\<lparr>kc_cells := (kc_cells kc)[s0 := c']\<rparr>))
        else if (p0 > 0 \<and> p0 + 1 < int (kvc_get_size kc)) \<or> (p1 > 0 \<and> p1 + 1 < int (kvc_get_size kc))
        then None
        else let kc = kc\<lparr>kc_sc_info := \<lparr>ssrc = ssrc (kc_sc_info kc) @ [s0], sdst = sdst (kc_sc_info kc) @ [s1]\<rparr>\<rparr>;
                 c0 = kc_cells kc ! s0;
                 c1 = fold (seq_cp_stream_body (nat src) (nat dst) c0) [0..<cells_size c0]
                        (cells_reset (kc_cells kc ! s1))
             in Some (kc\<lparr>kc_cells := (kc_cells kc)[s1 := c1],
                         kc_heads := (kc_heads kc)[s1 := kc_heads kc ! s0]\<rparr>))"

definition seq_keep_body :: "nat \<Rightarrow> nat \<Rightarrow> kv_cells \<times> nat \<Rightarrow> kv_cells \<times> nat" where
  "seq_keep_body s i = (\<lambda>(c, new_head).
     case cells_seq_keep i s c of (c', freed) \<Rightarrow>
       (c', if freed \<and> new_head = cells_size c' then i else new_head))"

definition kvc_seq_keep :: "int \<Rightarrow> kv_cache \<Rightarrow> kv_cache option" where
  "kvc_seq_keep seq_id kc =
     (if kc_other kc then Some kc
      else if \<not> seq_ok kc seq_id then None
      else Some (loop_stream (seq_keep_body (nat seq_id)) set_head_min (stream_of kc (nat seq_id)) kc))"

definition seq_add_body :: "nat \<Rightarrow> llama_pos \<Rightarrow> llama_pos \<Rightarrow> llama_pos \<Rightarrow>
    nat \<Rightarrow> kv_cells \<times> nat \<Rightarrow> kv_cells \<times> nat" where
  "seq_add_body s p0 p1 shift i = (\<lambda>(c, new_head).
     if \<not> cells_pos_in c i p0 p1 then (c, new_head)
     else if cells_seq_has c i s then
       (case cells_pos_add i shift c of (c', freed) \<Rightarrow>
          (c', if freed \<and> new_head = cells_size c' then i else new_head))
     else (c, new_head))"

definition kvc_seq_add :: "int \<Rightarrow> llama_pos \<Rightarrow> llama_pos \<Rightarrow> llama_pos \<Rightarrow> kv_cache \<Rightarrow> kv_cache option" where
  "kvc_seq_add seq_id p0 p1 shift kc =
     (if kc_other kc then Some kc
      else if \<not> seq_ok kc seq_id then None
      else if kc_n_pos_per_embd kc \<noteq> 1 then None
      else if shift = 0 then Some kc
      else let p0 = clip_p0 p0; p1 = clip_p1 p1 in
        if p0 = p1 then Some kc
        else Some (loop_stream (seq_add_body (nat seq_id) p0 p1 shift)
               (\<lambda>n new_head head. if new_head \<noteq> n then new_head else 0)
               (stream_of kc (nat seq_id)) kc))"

definition seq_div_body :: "nat \<Rightarrow> llama_pos \<Rightarrow> llama_pos \<Rightarrow> int \<Rightarrow> nat \<Rightarrow> kv_cells \<Rightarrow> kv_cells" where
  "seq_div_body s p0 p1 d i c =
     (if \<not> cells_pos_in c i p0 p1 then c
      else if cells_seq_has c i s then cells_pos_div i d c else c)"

definition kvc_seq_div :: "int \<Rightarrow> llama_pos \<Rightarrow> llama_pos \<Rightarrow> int \<Rightarrow> kv_cache \<Rightarrow> kv_cache option" where
  "kvc_seq_div seq_id p0 p1 d kc =
     (if kc_other kc then Some kc
      else if \<not> seq_ok kc seq_id then None
      else if kc_n_pos_per_embd kc \<noteq> 1 then None
      else if d = 1 then Some kc
      else let p0 = clip_p0 p0; p1 = clip_p1 p1; t = stream_of kc (nat seq_id); c = kc_cells kc ! t in
        if p0 = p1 then Some kc
        else Some (kc\<lparr>kc_cells := (kc_cells kc)[t :=
               fold (seq_div_body (nat seq_id) p0 p1 d) [0..<cells_size c] c]\<rparr>))"

fun kvc_seq_pos_min :: "kv_cache \<Rightarrow> kv_cache list \<Rightarrow> int \<Rightarrow> llama_pos option" where
  \<comment> \<open>the second argument is the chain of caches reached through \<open>other\<close>\<close>
  "kvc_seq_pos_min kc (o' # os) s = kvc_seq_pos_min o' os s"
| "kvc_seq_pos_min kc [] s =
     (if seq_ok kc s then Some (cells_seq_pos_min (cells_of kc (nat s)) (nat s)) else None)"

fun kvc_seq_pos_max :: "kv_cache \<Rightarrow> kv_cache list \<Rightarrow> int \<Rightarrow> llama_pos option" where
  "kvc_seq_pos_max kc (o' # os) s = kvc_seq_pos_max o' os s"
| "kvc_seq_pos_max kc [] s =
     (if seq_ok kc s then Some (cells_seq_pos_max (cells_of kc (nat s)) (nat s)) else None)"

definition kvc_get_has_shift :: "kv_cache \<Rightarrow> bool" where
  "kvc_get_has_shift kc = fold (\<lambda>s r. r \<or> kv_has_shift (kc_cells kc ! s)) [0..<kc_n_stream kc] False"

definition kvc_get_n_kv :: "kv_cache \<Rightarrow> nat list \<Rightarrow> nat" where
  \<comment> \<open>the argument is \<open>sinfo.strm\<close>\<close>
  "kvc_get_n_kv kc strm =
     (let n_pad_cur = max (kc_n_pad kc) 256 in
      fold (\<lambda>t result. let c = kc_cells kc ! t;
              padded = ggml_pad (cells_used_max_p1 c) n_pad_cur
            in max (min (cells_size c) (max n_pad_cur padded)) result) strm 0)"

subsection \<open>The loops as cellwise loops\<close>

abbreviation loop_wf :: "kv_cells \<times> nat \<Rightarrow> bool" where "loop_wf \<equiv> \<lambda>(c, h). cells_wf c"
abbreviation loop_len :: "kv_cells \<times> nat \<Rightarrow> nat" where "loop_len \<equiv> \<lambda>(c, h). cells_size c"
abbreviation loop_view :: "kv_cells \<times> nat \<Rightarrow> nat \<Rightarrow> abs_cell option" where
  "loop_view \<equiv> \<lambda>(c, h). cells_view c"

definition seq_rm_trans :: "nat \<Rightarrow> llama_pos \<Rightarrow> llama_pos \<Rightarrow> abs_cell option \<Rightarrow> abs_cell option" where
  "seq_rm_trans s p0 p1 v =
     (if cell_pos_in p0 p1 v \<and> cell_has_seq s v then Option.bind v (cell_drop_seq s) else v)"

definition rm_trans :: "llama_pos \<Rightarrow> llama_pos \<Rightarrow> abs_cell option \<Rightarrow> abs_cell option" where
  "rm_trans p0 p1 v = (if cell_pos_in p0 p1 v then None else v)"

definition seq_keep_trans :: "nat \<Rightarrow> abs_cell option \<Rightarrow> abs_cell option" where
  "seq_keep_trans s v = Option.bind v (cell_keep_seq s)"

definition seq_add_trans :: "nat \<Rightarrow> llama_pos \<Rightarrow> llama_pos \<Rightarrow> llama_pos \<Rightarrow> abs_cell option \<Rightarrow> abs_cell option" where
  "seq_add_trans s p0 p1 d v =
     (if cell_pos_in p0 p1 v \<and> cell_has_seq s v then Option.bind v (cell_move d) else v)"

definition seq_cp_trans :: "nat \<Rightarrow> nat \<Rightarrow> llama_pos \<Rightarrow> llama_pos \<Rightarrow> abs_cell option \<Rightarrow> abs_cell option" where
  "seq_cp_trans src dst p0 p1 v =
     (if cell_pos_in p0 p1 v \<and> cell_has_seq src v
      then map_option (\<lambda>k. k\<lparr>cell_seq := insert dst (cell_seq k)\<rparr>) v else v)"

definition seq_div_trans :: "nat \<Rightarrow> llama_pos \<Rightarrow> llama_pos \<Rightarrow> int \<Rightarrow> abs_cell option \<Rightarrow> abs_cell option" where
  "seq_div_trans s p0 p1 d v =
     (if cell_pos_in p0 p1 v \<and> cell_has_seq s v then map_option (cell_scale d) v else v)"

text \<open>The guards of the loop bodies, read off the view of the cell.\<close>

lemma clip_p0_nonneg [simp]: "0 \<le> clip_p0 p" by (simp add: clip_p0_def)

lemma guard_pos [cell_simps]: "cells_pos_in c i (clip_p0 p0) p1 \<longleftrightarrow> cell_pos_in (clip_p0 p0) p1 (cells_view c i)"
  by (rule cells_pos_in_view) simp

lemma guard_seq_cell:
  "cells_wf c \<Longrightarrow> i < length (kv_pos c) \<Longrightarrow> cell_has_seq s (cells_view c i) \<longleftrightarrow> s \<in> kv_seq c ! i"
  using cells_seq_has_view by (simp add: cells_seq_has_def)

lemma view_not_empty: "cells_view c i \<noteq> None \<longleftrightarrow> kv_pos c ! i \<noteq> -1"
  by (simp add: cells_view_def)

lemma cell_pos_in_Some: "cell_pos_in p0 p1 v \<Longrightarrow> v \<noteq> None"
  by (cases v) (auto simp: cell_pos_in_def)

lemmas body_simps = cell_simps guard_seq_cell cells_seq_has_view cells_size_def wf_intros view_not_empty split_beta

subsection \<open>The cache as a whole\<close>

definition kvc_view :: "kv_cache \<Rightarrow> nat \<Rightarrow> nat \<Rightarrow> abs_cell option" where
  "kvc_view kc t = cells_view (kc_cells kc ! t)"

definition kvc_wf :: "kv_cache \<Rightarrow> bool" where
  \<comment> \<open>every stream has a well-formed cell array of the same size and a head inside it, and a
    cell only holds sequences of the stream it belongs to\<close>
  "kvc_wf kc \<longleftrightarrow>
     0 < kc_n_stream kc \<and> length (kc_cells kc) = kc_n_stream kc \<and> length (kc_heads kc) = kc_n_stream kc \<and>
     length (kc_seq_to_stream kc) \<le> LLAMA_MAX_SEQ \<and> 0 < length (kc_seq_to_stream kc) \<and>
     (\<forall>s < length (kc_seq_to_stream kc). stream_of kc s < kc_n_stream kc) \<and>
     (\<forall>t < kc_n_stream kc. cells_wf (kc_cells kc ! t) \<and>
        cells_size (kc_cells kc ! t) = kvc_get_size kc \<and> kc_heads kc ! t \<le> kvc_get_size kc \<and>
        (\<forall>i < kvc_get_size kc. \<forall>s. cell_has_seq s (kvc_view kc t i) \<longrightarrow>
           s < length (kc_seq_to_stream kc) \<and> stream_of kc s = t))"

lemma kvc_wfD:
  assumes "kvc_wf kc"
  shows "0 < kc_n_stream kc" "length (kc_cells kc) = kc_n_stream kc" "length (kc_heads kc) = kc_n_stream kc"
    "length (kc_seq_to_stream kc) \<le> LLAMA_MAX_SEQ" "0 < length (kc_seq_to_stream kc)"
    "\<And>s. s < length (kc_seq_to_stream kc) \<Longrightarrow> stream_of kc s < kc_n_stream kc"
    "\<And>t. t < kc_n_stream kc \<Longrightarrow> cells_wf (kc_cells kc ! t)"
    "\<And>t. t < kc_n_stream kc \<Longrightarrow> cells_size (kc_cells kc ! t) = kvc_get_size kc"
    "\<And>t. t < kc_n_stream kc \<Longrightarrow> kc_heads kc ! t \<le> kvc_get_size kc"
    "\<And>t i s. t < kc_n_stream kc \<Longrightarrow> i < kvc_get_size kc \<Longrightarrow> cell_has_seq s (kvc_view kc t i) \<Longrightarrow>
       s < length (kc_seq_to_stream kc) \<and> stream_of kc s = t"
  using assms unfolding kvc_wf_def by blast+

text \<open>
  Every operation changes the cells and the head of one stream at a time; \<open>kvc_put\<close> is that
  update, and \<open>kvc_wf_put\<close> what it takes to keep the invariant.
\<close>

definition kvc_put :: "nat \<Rightarrow> kv_cells \<Rightarrow> nat \<Rightarrow> kv_cache \<Rightarrow> kv_cache" where
  "kvc_put t c h kc = kc\<lparr>kc_cells := (kc_cells kc)[t := c], kc_heads := (kc_heads kc)[t := h]\<rparr>"

lemma kvc_put_simps [simp]:
  "kc_n_stream (kvc_put t c h kc) = kc_n_stream kc"
  "kc_seq_to_stream (kvc_put t c h kc) = kc_seq_to_stream kc"
  "kc_other (kvc_put t c h kc) = kc_other kc"
  "kc_sc_info (kvc_put t c h kc) = kc_sc_info kc"
  "stream_of (kvc_put t c h kc) s = stream_of kc s"
  "seq_ok (kvc_put t c h kc) q = seq_ok kc q"
  "kc_heads (kvc_put t c h kc) = (kc_heads kc)[t := h]"
  "kc_cells (kvc_put t c h kc) = (kc_cells kc)[t := c]"
  by (simp_all add: kvc_put_def stream_of_def seq_ok_def)

lemma kvc_put_size:
  "kvc_wf kc \<Longrightarrow> t < kc_n_stream kc \<Longrightarrow> cells_size c = kvc_get_size kc \<Longrightarrow>
     kvc_get_size (kvc_put t c h kc) = kvc_get_size kc"
  using kvc_wfD(2) [of kc] by (simp add: kvc_get_size_def nth_upd)

lemma kvc_put_view:
  "kvc_wf kc \<Longrightarrow> t < kc_n_stream kc \<Longrightarrow>
     kvc_view (kvc_put t c h kc) u i = (if u = t then cells_view c i else kvc_view kc u i)"
  using kvc_wfD(2) [of kc] by (simp add: kvc_view_def nth_upd)

lemma kvc_wf_put:
  assumes "kvc_wf kc" "t < kc_n_stream kc" "cells_wf c" "cells_size c = kvc_get_size kc" "h \<le> kvc_get_size kc"
    and "\<And>i s. i < kvc_get_size kc \<Longrightarrow> cell_has_seq s (cells_view c i) \<Longrightarrow>
      s < length (kc_seq_to_stream kc) \<and> stream_of kc s = t"
  shows "kvc_wf (kvc_put t c h kc)"
proof -
  note d = kvc_wfD [OF assms(1)]
  show ?thesis
    unfolding kvc_wf_def kvc_put_size [OF assms(1,2,4)] kvc_put_view [OF assms(1,2)]
    using d assms(2-6) by (auto simp: nth_upd)
qed

definition kvc_positions :: "kv_cache \<Rightarrow> nat \<Rightarrow> llama_pos set" where
  \<comment> \<open>the positions the cache holds for a sequence\<close>
  "kvc_positions kc s = seq_positions (cells_of kc s) s"

lemma kvc_positions_view:
  assumes "kvc_wf kc" "s < length (kc_seq_to_stream kc)"
  shows "p \<in> kvc_positions kc s \<longleftrightarrow>
    (\<exists>i < kvc_get_size kc. \<exists>k. kvc_view kc (stream_of kc s) i = Some k \<and> s \<in> cell_seq k \<and> p = cell_pos k)"
  using kvc_wfD(6-8) [OF assms(1)] assms(2) seq_positions_view [of "cells_of kc s" p s]
  by (auto simp: kvc_positions_def cells_of_def kvc_view_def cells_size_def)

subsection \<open>One pass over the cells of a stream\<close>

locale stream_loop = cellwise_loop loop_wf loop_len loop_view body trans snd frees
  for body :: "nat \<Rightarrow> kv_cells \<times> nat \<Rightarrow> kv_cells \<times> nat"
    and trans :: "abs_cell option \<Rightarrow> abs_cell option" and frees :: "abs_cell option \<Rightarrow> bool" +
  assumes shrinks: "cell_has_seq s (trans v) \<Longrightarrow> cell_has_seq s v"
begin

abbreviation new_head :: "kv_cells \<Rightarrow> nat" where
  "new_head c \<equiv> snd (run (c, cells_size c))"

lemma loop_stream_put:
  "loop_stream body upd t kc =
     kvc_put t (fst (run (kc_cells kc ! t, cells_size (kc_cells kc ! t))))
       (upd (cells_size (kc_cells kc ! t)) (new_head (kc_cells kc ! t)) (kc_heads kc ! t)) kc"
  by (simp add: loop_stream_def kvc_put_def Let_def split_beta)

lemma cells_run:
  assumes "cells_wf c"
  shows "cells_wf (fst (run (c, cells_size c)))" "cells_size (fst (run (c, cells_size c))) = cells_size c"
    "i < cells_size c \<Longrightarrow> cells_view (fst (run (c, cells_size c))) i = trans (cells_view c i)"
    "new_head c = (case find (\<lambda>i. frees (cells_view c i)) [0..<cells_size c] of None \<Rightarrow> cells_size c | Some i \<Rightarrow> i)"
    "new_head c \<le> cells_size c"
  using run_wf [of "(c, cells_size c)"] run_len [of "(c, cells_size c)"] run_view [of "(c, cells_size c)" i]
    run_mark [of "(c, cells_size c)"] run_mark_le [of "(c, cells_size c)"] assms
  by (auto simp: split_beta)

lemma stream_effect:
  fixes upd :: "nat \<Rightarrow> nat \<Rightarrow> nat \<Rightarrow> nat" and kc :: kv_cache
  assumes "kvc_wf kc" "t < kc_n_stream kc"
    and "\<And>n m h. m \<le> n \<Longrightarrow> h \<le> n \<Longrightarrow> upd n m h \<le> n"
  defines "kc' \<equiv> loop_stream body upd t kc"
  shows "kvc_wf kc'" "kc_n_stream kc' = kc_n_stream kc" "kc_seq_to_stream kc' = kc_seq_to_stream kc"
    "kc_other kc' = kc_other kc" "kvc_get_size kc' = kvc_get_size kc"
    "\<And>u i. i < kvc_get_size kc \<Longrightarrow>
       kvc_view kc' u i = (if u = t then trans (kvc_view kc t i) else kvc_view kc u i)"
    "kc_heads kc' = (kc_heads kc)[t := upd (kvc_get_size kc) (new_head (kc_cells kc ! t)) (kc_heads kc ! t)]"
proof -
  note d = kvc_wfD [OF assms(1)]
  note r = cells_run [OF d(7) [OF assms(2)]]
  note sz = d(8) [OF assms(2)]
  show wf': "kvc_wf kc'"
    unfolding kc'_def loop_stream_put
    by (rule kvc_wf_put [OF assms(1,2) r(1)])
      (use r sz d(9,10) assms(2) shrinks in \<open>auto simp: kvc_view_def intro!: assms(3)\<close>)
  show "kvc_get_size kc' = kvc_get_size kc"
    unfolding kc'_def loop_stream_put by (rule kvc_put_size [OF assms(1,2)]) (use r(2) sz in simp)
  show "kvc_view kc' u i = (if u = t then trans (kvc_view kc t i) else kvc_view kc u i)"
    if "i < kvc_get_size kc" for u i
    using that unfolding kc'_def loop_stream_put
    using r(3) [of i] by (simp add: kvc_put_view [OF assms(1,2)] sz) (simp add: kvc_view_def)
  show "kc_heads kc' = (kc_heads kc)[t := upd (kvc_get_size kc) (new_head (kc_cells kc ! t)) (kc_heads kc ! t)]"
    by (simp add: kc'_def loop_stream_put sz)
qed (simp_all add: kc'_def loop_stream_put)

end

lemma cell_has_seq_bind:
  "cell_has_seq s (Option.bind v f) \<longleftrightarrow> (\<exists>k k'. v = Some k \<and> f k = Some k' \<and> s \<in> cell_seq k')"
  by (cases v) (auto simp: cell_has_seq_def split: option.splits)

lemma trans_shrinks:
  "cell_has_seq u (seq_rm_trans s p0 p1 v) \<Longrightarrow> cell_has_seq u v"
  "cell_has_seq u (rm_trans p0 p1 v) \<Longrightarrow> cell_has_seq u v"
  "cell_has_seq u (seq_keep_trans s v) \<Longrightarrow> cell_has_seq u v"
  "cell_has_seq u (seq_add_trans s p0 p1 d v) \<Longrightarrow> cell_has_seq u v"
  by (auto simp: seq_rm_trans_def rm_trans_def seq_keep_trans_def seq_add_trans_def cell_has_seq_bind
      cell_drop_seq_def cell_keep_seq_def cell_move_def split: if_splits)
    (auto simp: cell_has_seq_def)

lemma guard_not_empty: "cell_pos_in p0 p1 (cells_view c i) \<Longrightarrow> kv_pos c ! i \<noteq> -1"
  using cell_pos_in_Some view_not_empty by blast

interpretation seq_rm_loop: stream_loop "seq_rm_body s (clip_p0 p0) p1" "seq_rm_trans s (clip_p0 p0) p1"
  "\<lambda>v. cell_pos_in (clip_p0 p0) p1 v \<and> cell_has_seq s v \<and> Option.bind v (cell_drop_seq s) = None"
  for s p0 p1
  by unfold_locales
    (auto simp: seq_rm_body_def body_simps dest: trans_shrinks, auto simp: seq_rm_trans_def guard_seq_cell)

interpretation rm_loop: stream_loop "rm_body (clip_p0 p0) p1" "rm_trans (clip_p0 p0) p1"
  "cell_pos_in (clip_p0 p0) p1" for p0 p1
  by unfold_locales (auto simp: rm_body_def body_simps dest: trans_shrinks, auto simp: rm_trans_def)

interpretation seq_keep_loop: stream_loop "seq_keep_body s" "seq_keep_trans s"
  "\<lambda>v. v \<noteq> None \<and> Option.bind v (cell_keep_seq s) = None" for s
  by unfold_locales (auto simp: seq_keep_body_def body_simps dest: trans_shrinks, auto simp: seq_keep_trans_def)

interpretation seq_add_loop: stream_loop "seq_add_body s (clip_p0 p0) p1 d" "seq_add_trans s (clip_p0 p0) p1 d"
  "\<lambda>v. cell_pos_in (clip_p0 p0) p1 v \<and> cell_has_seq s v \<and> Option.bind v (cell_move d) = None"
  for s p0 p1 d
  by unfold_locales
    (auto simp: seq_add_body_def body_simps guard_not_empty dest: trans_shrinks, auto simp: seq_add_trans_def guard_seq_cell)

subsection \<open>The effect of every operation\<close>

definition kvc_frame :: "kv_cache \<Rightarrow> kv_cache \<Rightarrow> bool" where
  \<comment> \<open>what no sequence operation changes\<close>
  "kvc_frame kc kc' \<longleftrightarrow> kc_n_stream kc' = kc_n_stream kc \<and> kc_seq_to_stream kc' = kc_seq_to_stream kc \<and>
     kc_other kc' = kc_other kc \<and> kvc_get_size kc' = kvc_get_size kc"

lemma kvc_frame_refl [simp]: "kvc_frame kc kc"
  by (simp add: kvc_frame_def)

lemma kvc_frame_trans: "kvc_frame a b \<Longrightarrow> kvc_frame b c \<Longrightarrow> kvc_frame a c"
  by (simp add: kvc_frame_def)

lemma kvc_frameD:
  assumes "kvc_frame kc kc'"
  shows "kc_n_stream kc' = kc_n_stream kc" "kc_seq_to_stream kc' = kc_seq_to_stream kc"
    "kc_other kc' = kc_other kc" "kvc_get_size kc' = kvc_get_size kc" "stream_of kc' s = stream_of kc s"
    "seq_ok kc' q = seq_ok kc q"
  using assms by (simp_all add: kvc_frame_def stream_of_def seq_ok_def)

lemma kvc_frame_put:
  "kvc_wf kc \<Longrightarrow> t < kc_n_stream kc \<Longrightarrow> cells_size c = kvc_get_size kc \<Longrightarrow> kvc_frame kc (kvc_put t c h kc)"
  by (simp add: kvc_frame_def kvc_put_size)

context stream_loop begin

lemma stream_frame:
  assumes "kvc_wf kc" "t < kc_n_stream kc" "\<And>n m h. m \<le> n \<Longrightarrow> h \<le> n \<Longrightarrow> upd n m h \<le> n"
  shows "kvc_frame kc (loop_stream body upd t kc)"
  unfolding kvc_frame_def using stream_effect(2-5) [of kc t upd, OF assms] by blast

end

lemma set_head_min_le: "m \<le> n \<Longrightarrow> h \<le> n \<Longrightarrow> set_head_min n m h \<le> n"
  by (simp add: set_head_min_def)

lemma seq_okD: "seq_ok kc (int s) \<longleftrightarrow> s < length (kc_seq_to_stream kc)" "seq_ok kc q \<Longrightarrow> 0 \<le> q"
  by (auto simp: seq_ok_def)

lemma kvc_seq_rm_one:
  assumes "kvc_wf kc" "\<not> kc_other kc" "s < length (kc_seq_to_stream kc)"
  obtains kc' where "kvc_seq_rm (int s) p0 p1 kc = Some (kc', True)" "kvc_wf kc'" "kvc_frame kc kc'"
    "\<And>t i. i < kvc_get_size kc \<Longrightarrow> kvc_view kc' t i =
       (if t = stream_of kc s then seq_rm_trans s (clip_p0 p0) (clip_p1 p1) (kvc_view kc t i) else kvc_view kc t i)"
proof
  note t = kvc_wfD(6) [OF assms(1,3)]
  let ?kc = "loop_stream (seq_rm_body s (clip_p0 p0) (clip_p1 p1)) set_head_min (stream_of kc s) kc"
  show "kvc_seq_rm (int s) p0 p1 kc = Some (?kc, True)"
    using assms(2,3) by (simp add: kvc_seq_rm_def seq_okD Let_def)
  show "kvc_frame kc ?kc"
    by (rule seq_rm_loop.stream_frame [OF assms(1) t set_head_min_le])
qed (simp_all add: seq_rm_loop.stream_effect(1,6) [OF assms(1) kvc_wfD(6) [OF assms(1,3)] set_head_min_le])

lemma kvc_seq_rm_all:
  assumes "kvc_wf kc" "\<not> kc_other kc"
  obtains kc' where "kvc_seq_rm (-1) p0 p1 kc = Some (kc', True)" "kvc_wf kc'" "kvc_frame kc kc'"
    "\<And>t i. t < kc_n_stream kc \<Longrightarrow> i < kvc_get_size kc \<Longrightarrow>
       kvc_view kc' t i = rm_trans (clip_p0 p0) (clip_p1 p1) (kvc_view kc t i)"
proof -
  let ?step = "loop_stream (rm_body (clip_p0 p0) (clip_p1 p1)) set_head_min"
  let ?P = "\<lambda>n kc'. kvc_wf kc' \<and> kvc_frame kc kc' \<and> (\<forall>t i. i < kvc_get_size kc \<longrightarrow>
    kvc_view kc' t i = (if t < n then rm_trans (clip_p0 p0) (clip_p1 p1) (kvc_view kc t i) else kvc_view kc t i))"
  have "?P (kc_n_stream kc) (fold ?step [0..<kc_n_stream kc] kc)"
  proof (rule fold_upt_invariant)
    show "?P 0 kc" using assms(1) by simp
  next
    fix t kc' assume t: "t < kc_n_stream kc" and P: "?P t kc'"
    have f: "kvc_frame kc kc'" using P by blast
    then have t': "t < kc_n_stream kc'" using t kvc_frameD(1) by simp
    have "kvc_wf (?step t kc')" "kvc_frame kc' (?step t kc')"
      using P by (blast intro: rm_loop.stream_effect(1) [OF _ t'] rm_loop.stream_frame [OF _ t'] set_head_min_le)+
    moreover have "kvc_view (?step t kc') u i =
        (if u = t then rm_trans (clip_p0 p0) (clip_p1 p1) (kvc_view kc' t i) else kvc_view kc' u i)"
      if "i < kvc_get_size kc" for u i
      using that P by (intro rm_loop.stream_effect(6) [OF _ t' set_head_min_le]) (simp_all add: kvc_frameD [OF f])
    ultimately show "?P (Suc t) (?step t kc')"
      using P by (auto intro: kvc_frame_trans simp: less_Suc_eq)
  qed
  then show thesis
    using assms(2) by (intro that) (auto simp: kvc_seq_rm_def Let_def)
qed

lemma kvc_seq_keep_effect:
  assumes "kvc_wf kc" "\<not> kc_other kc" "s < length (kc_seq_to_stream kc)"
  obtains kc' where "kvc_seq_keep (int s) kc = Some kc'" "kvc_wf kc'" "kvc_frame kc kc'"
    "\<And>t i. i < kvc_get_size kc \<Longrightarrow> kvc_view kc' t i =
       (if t = stream_of kc s then seq_keep_trans s (kvc_view kc t i) else kvc_view kc t i)"
proof
  note t = kvc_wfD(6) [OF assms(1,3)]
  let ?kc = "loop_stream (seq_keep_body s) set_head_min (stream_of kc s) kc"
  show "kvc_seq_keep (int s) kc = Some ?kc"
    using assms(2,3) by (simp add: kvc_seq_keep_def seq_okD)
  show "kvc_frame kc ?kc"
    by (rule seq_keep_loop.stream_frame [OF assms(1) t set_head_min_le])
qed (simp_all add: seq_keep_loop.stream_effect(1,6) [OF assms(1) kvc_wfD(6) [OF assms(1,3)] set_head_min_le])

lemma kvc_seq_add_effect:
  assumes "kvc_wf kc" "\<not> kc_other kc" "s < length (kc_seq_to_stream kc)" "kc_n_pos_per_embd kc = 1"
    and "d \<noteq> 0" "clip_p0 p0 \<noteq> clip_p1 p1"
  obtains kc' where "kvc_seq_add (int s) p0 p1 d kc = Some kc'" "kvc_wf kc'" "kvc_frame kc kc'"
    "\<And>t i. i < kvc_get_size kc \<Longrightarrow> kvc_view kc' t i =
       (if t = stream_of kc s then seq_add_trans s (clip_p0 p0) (clip_p1 p1) d (kvc_view kc t i) else kvc_view kc t i)"
proof
  note t = kvc_wfD(6) [OF assms(1,3)]
  let ?upd = "\<lambda>n new_head head :: nat. if new_head \<noteq> n then new_head else 0"
  have upd: "?upd n m h \<le> n" if "m \<le> n" "h \<le> n" for n m h using that by simp
  let ?kc = "loop_stream (seq_add_body s (clip_p0 p0) (clip_p1 p1) d) ?upd (stream_of kc s) kc"
  show "kvc_seq_add (int s) p0 p1 d kc = Some ?kc"
    using assms(2-6) by (simp add: kvc_seq_add_def seq_okD Let_def)
  show "kvc_frame kc ?kc" by (rule seq_add_loop.stream_frame [OF assms(1) t upd])
  show "kvc_wf ?kc" by (rule seq_add_loop.stream_effect(1) [OF assms(1) t upd])
  show "kvc_view ?kc u i = (if u = stream_of kc s
      then seq_add_trans s (clip_p0 p0) (clip_p1 p1) d (kvc_view kc u i) else kvc_view kc u i)"
    if "i < kvc_get_size kc" for u i
    using seq_add_loop.stream_effect(6) [OF assms(1) t upd that] by simp
qed


text \<open>Copying and scaling a sequence touch the cells of one stream, and no head.\<close>

lemma cp_guard: "dst < LLAMA_MAX_SEQ \<Longrightarrow> cellwise_map cells_wf cells_size cells_view
    (seq_cp_body src dst (clip_p0 p0) p1) (seq_cp_trans src dst (clip_p0 p0) p1)"
  by unfold_locales
    (auto simp: seq_cp_body_def body_simps guard_not_empty, auto simp: seq_cp_trans_def guard_seq_cell)

interpretation seq_cp_loop: cellwise_map cells_wf cells_size cells_view
  "seq_cp_body src (dst mod LLAMA_MAX_SEQ) (clip_p0 p0) p1"
  "seq_cp_trans src (dst mod LLAMA_MAX_SEQ) (clip_p0 p0) p1" for src dst p0 p1
  by (rule cp_guard) (simp add: LLAMA_MAX_SEQ_def)

interpretation seq_div_loop: cellwise_map cells_wf cells_size cells_view
  "seq_div_body s (clip_p0 p0) p1 (int (Suc d))" "seq_div_trans s (clip_p0 p0) p1 (int (Suc d))" for s p0 p1 d
  by unfold_locales
    (auto simp: seq_div_body_def body_simps guard_not_empty simp del: of_nat_Suc,
     auto simp: seq_div_trans_def guard_seq_cell simp del: of_nat_Suc)

lemma kvc_put_same_head: "kc\<lparr>kc_cells := (kc_cells kc)[t := c]\<rparr> = kvc_put t c (kc_heads kc ! t) kc"
  by (simp add: kvc_put_def)

lemma map_insert_has_seq:
  "cell_has_seq u (seq_cp_trans s d p0 p1 v) \<longleftrightarrow>
     cell_has_seq u v \<or> (u = d \<and> cell_has_seq s v \<and> cell_pos_in p0 p1 v)"
  by (cases v) (auto simp: seq_cp_trans_def cell_has_seq_def cell_pos_in_def)

lemma div_has_seq: "cell_has_seq u (seq_div_trans s p0 p1 d v) \<longleftrightarrow> cell_has_seq u v"
  by (cases v) (auto simp: seq_div_trans_def cell_has_seq_def cell_scale_def)

lemma kvc_seq_cp_same_stream:
  assumes "kvc_wf kc" "\<not> kc_other kc" "s < length (kc_seq_to_stream kc)" "d < length (kc_seq_to_stream kc)"
    and "stream_of kc s = stream_of kc d" "s \<noteq> d"
  obtains kc' where "kvc_seq_cp (int s) (int d) p0 p1 kc = Some kc'" "kvc_wf kc'" "kvc_frame kc kc'"
    "\<And>t i. i < kvc_get_size kc \<Longrightarrow> kvc_view kc' t i =
       (if t = stream_of kc s then seq_cp_trans s d (clip_p0 p0) (clip_p1 p1) (kvc_view kc t i) else kvc_view kc t i)"
proof
  let ?t = "stream_of kc s" and ?c = "kc_cells kc ! stream_of kc s"
  let ?c' = "fold (seq_cp_body s d (clip_p0 p0) (clip_p1 p1)) [0..<cells_size ?c] ?c"
  note w = kvc_wfD [OF assms(1)]
  note t = w(6) [OF assms(3)]
  have d: "d mod LLAMA_MAX_SEQ = d" using assms(4) w(4) by simp
  note run = seq_cp_loop.run_wf [OF w(7) [OF t], of s d p0 "clip_p1 p1", unfolded d]
    seq_cp_loop.run_len [OF w(7) [OF t], of s d p0 "clip_p1 p1", unfolded d w(8) [OF t]]
    seq_cp_loop.run_view [OF w(7) [OF t], of s d p0 "clip_p1 p1", unfolded d w(8) [OF t]]
  let ?kc = "kvc_put ?t ?c' (kc_heads kc ! ?t) kc"
  show "kvc_seq_cp (int s) (int d) p0 p1 kc = Some ?kc"
    using assms by (simp add: kvc_seq_cp_def seq_okD Let_def kvc_put_same_head)
  show "kvc_wf ?kc"
    by (rule kvc_wf_put [OF assms(1) t run(1)])
      (use run w(8-10) t assms in \<open>auto simp: kvc_view_def map_insert_has_seq\<close>)
  show "kvc_frame kc ?kc" by (rule kvc_frame_put [OF assms(1) t]) (use run(2) w(8) [OF t] in simp)
  show "kvc_view ?kc u i = (if u = ?t
      then seq_cp_trans s d (clip_p0 p0) (clip_p1 p1) (kvc_view kc u i) else kvc_view kc u i)"
    if "i < kvc_get_size kc" for u i
    using that run(3) w(8) [OF t] by (simp add: kvc_put_view [OF assms(1) t]) (simp add: kvc_view_def)
qed

lemma kvc_seq_div_effect:
  assumes "kvc_wf kc" "\<not> kc_other kc" "s < length (kc_seq_to_stream kc)" "kc_n_pos_per_embd kc = 1"
    and "1 < d" "clip_p0 p0 \<noteq> clip_p1 p1"
  obtains kc' where "kvc_seq_div (int s) p0 p1 d kc = Some kc'" "kvc_wf kc'" "kvc_frame kc kc'"
    "\<And>t i. i < kvc_get_size kc \<Longrightarrow> kvc_view kc' t i =
       (if t = stream_of kc s then seq_div_trans s (clip_p0 p0) (clip_p1 p1) d (kvc_view kc t i) else kvc_view kc t i)"
proof
  let ?t = "stream_of kc s" and ?c = "kc_cells kc ! stream_of kc s"
  let ?c' = "fold (seq_div_body s (clip_p0 p0) (clip_p1 p1) d) [0..<cells_size ?c] ?c"
  note w = kvc_wfD [OF assms(1)]
  note t = w(6) [OF assms(3)]
  have d: "int (Suc (nat (d - 1))) = d" using assms(5) by simp
  note run = seq_div_loop.run_wf [OF w(7) [OF t], of s p0 "clip_p1 p1" "nat (d - 1)", unfolded d]
    seq_div_loop.run_len [OF w(7) [OF t], of s p0 "clip_p1 p1" "nat (d - 1)", unfolded d w(8) [OF t]]
    seq_div_loop.run_view [OF w(7) [OF t], of s p0 "clip_p1 p1" "nat (d - 1)", unfolded d w(8) [OF t]]
  let ?kc = "kvc_put ?t ?c' (kc_heads kc ! ?t) kc"
  show "kvc_seq_div (int s) p0 p1 d kc = Some ?kc"
    using assms by (simp add: kvc_seq_div_def seq_okD Let_def kvc_put_same_head)
  show "kvc_wf ?kc"
    by (rule kvc_wf_put [OF assms(1) t run(1)])
      (use run w(8-10) t assms in \<open>auto simp: kvc_view_def div_has_seq\<close>)
  show "kvc_frame kc ?kc" by (rule kvc_frame_put [OF assms(1) t]) (use run(2) w(8) [OF t] in simp)
  show "kvc_view ?kc u i = (if u = ?t
      then seq_div_trans s (clip_p0 p0) (clip_p1 p1) d (kvc_view kc u i) else kvc_view kc u i)"
    if "i < kvc_get_size kc" for u i
    using that run(3) w(8) [OF t] by (simp add: kvc_put_view [OF assms(1) t]) (simp add: kvc_view_def)
qed

subsection \<open>Copying a sequence to another stream\<close>

text \<open>
  A cell the source sequence owns is re-created at the position it had before its pending
  shift, and shifted again; what the destination sees is the cell with one sequence.
\<close>

definition cp_stream_view :: "abs_cell option \<Rightarrow> nat \<Rightarrow> nat \<Rightarrow> abs_cell option" where
  "cp_stream_view v src dst =
     (if cell_has_seq src v then map_option (\<lambda>k. k\<lparr>cell_seq := {dst}\<rparr>) v else None)"

lemma seq_cp_stream_fields:
  assumes "cells_wf c1" "i < length (kv_pos c1)" "kv_pos c1 ! i = -1" "kv_shift c1 ! i = 0"
    and "s \<in> kv_seq c0 ! i" "0 \<le> kv_pos c0 ! i" "d < LLAMA_MAX_SEQ"
  shows "kv_pos (seq_cp_stream_body s d c0 i c1) = (kv_pos c1)[i := kv_pos c0 ! i]"
    "kv_shift (seq_cp_stream_body s d c0 i c1) = (kv_shift c1)[i := kv_shift c0 ! i]"
    "kv_ext (seq_cp_stream_body s d c0 i c1) = (kv_ext c1)[i := kv_ext c0 ! i]"
    "kv_seq (seq_cp_stream_body s d c0 i c1) = (kv_seq c1)[i := {d}]"
    "kv_used (seq_cp_stream_body s d c0 i c1) = insert i (kv_used c1)"
    "kv_seq_pos (seq_cp_stream_body s d c0 i c1) u = kv_seq_pos c1 u \<union> (if u = d then {(kv_pos c0 ! i, i)} else {})"
proof -
  note f = cells_wfD [OF assms(1)]
  have [simp]: "kv_seq c1 ! i = {}" "(kv_shift c1)[i := 0] = kv_shift c1"
    using cells_wf_cellD(6) [OF assms(1-3)] list_update_id [of "kv_shift c1" i] assms(4) by simp_all
  have [simp]: "i < length (kv_seq c1)" "i < length (kv_shift c1)" "i < length (kv_ext c1)"
    using f(1-3) assms(2) by simp_all
  have "(q, i) \<notin> kv_seq_pos c1 u" for q u using f(5) by simp
  then have [simp]: "kv_seq_pos c1 u - {(q, i)} = kv_seq_pos c1 u" for q u by blast
  note u = seq_cp_stream_body_def cells_seq_has_def cells_pos_set_def cells_seq_add_def seq_pos_inc_def
    cells_ext_set_def cells_pos_add_def seq_pos_rm_def seq_pos_add_def Let_def
  show "kv_pos (seq_cp_stream_body s d c0 i c1) = (kv_pos c1)[i := kv_pos c0 ! i]"
    "kv_shift (seq_cp_stream_body s d c0 i c1) = (kv_shift c1)[i := kv_shift c0 ! i]"
    "kv_ext (seq_cp_stream_body s d c0 i c1) = (kv_ext c1)[i := kv_ext c0 ! i]"
    "kv_seq (seq_cp_stream_body s d c0 i c1) = (kv_seq c1)[i := {d}]"
    "kv_used (seq_cp_stream_body s d c0 i c1) = insert i (kv_used c1)"
    "kv_seq_pos (seq_cp_stream_body s d c0 i c1) u = kv_seq_pos c1 u \<union> (if u = d then {(kv_pos c0 ! i, i)} else {})"
    using assms(2-7) by (simp_all add: u insert_Diff_if)
qed

lemma seq_cp_stream_step:
  assumes "cells_wf c0" "cells_wf c1" "length (kv_pos c1) = length (kv_pos c0)" "i < length (kv_pos c0)"
    and "kv_pos c1 ! i = -1" "kv_shift c1 ! i = 0" "d < LLAMA_MAX_SEQ"
  shows "cells_wf (seq_cp_stream_body s d c0 i c1)"
    "length (kv_pos (seq_cp_stream_body s d c0 i c1)) = length (kv_pos c0)"
    "cells_view (seq_cp_stream_body s d c0 i c1) j =
       (if j = i then cp_stream_view (cells_view c0 i) s d else cells_view c1 j)"
    "j \<noteq> i \<Longrightarrow> kv_shift (seq_cp_stream_body s d c0 i c1) ! j = kv_shift c1 ! j \<and>
       kv_pos (seq_cp_stream_body s d c0 i c1) ! j = kv_pos c1 ! j"
proof -
  have i: "i < length (kv_pos c1)" using assms(3,4) by simp
  note f = cells_wfD [OF assms(2)] and g = guard_seq_cell [OF assms(1,4), of s]
  have no: "seq_cp_stream_body s d c0 i c1 = c1" if "s \<notin> kv_seq c0 ! i"
    using that by (simp add: seq_cp_stream_body_def cells_seq_has_def)
  have p: "0 \<le> kv_pos c0 ! i" "kv_pos c0 ! i \<noteq> -1" if "s \<in> kv_seq c0 ! i"
    using cells_wf_cellD(4,5) [OF assms(1,4) that] by auto
  note yes = seq_cp_stream_fields [OF assms(2) i assms(5,6) _ p(1) assms(7)]
  have nin: "(kv_pos c1 ! i, i) \<notin> kv_seq_pos c1 u" for u
    using f(5) cells_wf_cellD(6) [OF assms(2) i assms(5)] by simp
  show "cells_wf (seq_cp_stream_body s d c0 i c1)"
  proof (cases "s \<in> kv_seq c0 ! i")
    case True
    show ?thesis
      by (rule cells_wf_update [OF assms(2) i, of _ "kv_pos c0 ! i" "{d}"])
        (use p [OF True] yes [OF True True] f(1-3) assms(7) nin in auto)
  qed (simp add: no assms(2))
  show "length (kv_pos (seq_cp_stream_body s d c0 i c1)) = length (kv_pos c0)"
    using assms(3) no yes(1) by (cases "s \<in> kv_seq c0 ! i") auto
  show "cells_view (seq_cp_stream_body s d c0 i c1) j =
       (if j = i then cp_stream_view (cells_view c0 i) s d else cells_view c1 j)"
    using no yes(1-4) p f(1-3) g i assms(5)
    by (cases "s \<in> kv_seq c0 ! i") (auto simp: cells_view_def cp_stream_view_def nth_upd)
  show "kv_shift (seq_cp_stream_body s d c0 i c1) ! j = kv_shift c1 ! j \<and>
       kv_pos (seq_cp_stream_body s d c0 i c1) ! j = kv_pos c1 ! j" if "j \<noteq> i"
    using no yes(1,2) that by (cases "s \<in> kv_seq c0 ! i") auto
qed

lemma seq_cp_stream_loop:
  fixes s :: nat
  assumes "cells_wf c0" "cells_wf c1" "cells_size c1 = cells_size c0" "d < LLAMA_MAX_SEQ"
  defines "c \<equiv> (fold (seq_cp_stream_body s d c0) [0..<cells_size c0] (cells_reset c1))"
  shows "cells_wf c" "cells_size c = cells_size c0"
    "i < cells_size c0 \<Longrightarrow> cells_view c i = cp_stream_view (cells_view c0 i) s d"
proof -
  let ?n = "cells_size c0"
  let ?P = "\<lambda>n c. cells_wf c \<and> length (kv_pos c) = ?n \<and>
    (\<forall>j < n. cells_view c j = cp_stream_view (cells_view c0 j) s d) \<and>
    (\<forall>j < ?n. n \<le> j \<longrightarrow> kv_pos c ! j = -1 \<and> kv_shift c ! j = 0)"
  have "?P ?n c"
    unfolding c_def
  proof (rule fold_upt_invariant [where P = ?P])
    show "?P 0 (cells_reset c1)"
      using assms(3) cells_wfD(2) [OF assms(2)] cells_wf_reset [OF assms(2)]
      by (simp add: cell_simps cells_size_def) (simp add: cells_reset_def)
  next
    fix i e assume i: "i < ?n" and P: "?P i e"
    note step = seq_cp_stream_step [OF assms(1), where ?c1.0 = e and i = i and d = d and s = s]
    have "kv_pos e ! i = -1" "kv_shift e ! i = 0" "cells_wf e" "length (kv_pos e) = length (kv_pos c0)"
      using P i by (auto simp: cells_size_def)
    note step = step [OF this(3,4) _ this(1,2) assms(4)]
    show "?P (Suc i) (seq_cp_stream_body s d c0 i e)"
      using step P i by (auto simp: cells_size_def less_Suc_eq)
  qed
  then show "cells_wf c" "cells_size c = ?n"
    "i < ?n \<Longrightarrow> cells_view c i = cp_stream_view (cells_view c0 i) s d"
    by (simp_all add: cells_size_def)
qed


lemma kvc_seq_cp_cross_stream:
  assumes "kvc_wf kc" "\<not> kc_other kc" "s < length (kc_seq_to_stream kc)" "d < length (kc_seq_to_stream kc)"
    and "stream_of kc s \<noteq> stream_of kc d"
    and "p0 \<le> 0 \<or> int (kvc_get_size kc) \<le> p0 + 1" "p1 \<le> 0 \<or> int (kvc_get_size kc) \<le> p1 + 1"
  obtains kc' where "kvc_seq_cp (int s) (int d) p0 p1 kc = Some kc'" "kvc_wf kc'" "kvc_frame kc kc'"
    "\<And>t i. i < kvc_get_size kc \<Longrightarrow> kvc_view kc' t i =
       (if t = stream_of kc d then cp_stream_view (kvc_view kc (stream_of kc s) i) s d else kvc_view kc t i)"
    "kc_sc_info kc' = \<lparr>ssrc = ssrc (kc_sc_info kc) @ [stream_of kc s],
       sdst = sdst (kc_sc_info kc) @ [stream_of kc d]\<rparr>"
    "kc_heads kc' ! stream_of kc d = kc_heads kc ! stream_of kc s"
proof
  let ?s = "stream_of kc s" and ?t = "stream_of kc d"
  let ?kc = "kc\<lparr>kc_sc_info := \<lparr>ssrc = ssrc (kc_sc_info kc) @ [?s], sdst = sdst (kc_sc_info kc) @ [?t]\<rparr>\<rparr>"
  let ?from = "kc_cells kc ! ?s" and ?to = "kc_cells kc ! ?t"
  let ?new = "fold (seq_cp_stream_body s d ?from) [0..<cells_size ?from] (cells_reset ?to)"
  let ?kd = "kvc_put ?t ?new (kc_heads kc ! ?s) ?kc"
  note w = kvc_wfD [OF assms(1)]
  note st = w(6) [OF assms(3)] w(6) [OF assms(4)]
  have d: "d < LLAMA_MAX_SEQ" using assms(4) w(4) by simp
  have sz: "kvc_get_size ?kc = kvc_get_size kc" "kvc_view ?kc = kvc_view kc" "stream_of ?kc = stream_of kc"
    by (simp_all add: kvc_get_size_def kvc_view_def stream_of_def fun_eq_iff)
  have wf: "kvc_wf ?kc" using assms(1) by (simp add: kvc_wf_def sz)
  have len: "cells_size ?to = cells_size ?from" using st by (simp add: w(8))
  note run = seq_cp_stream_loop [OF w(7) [OF st(1)] w(7) [OF st(2)] len d]
  have t: "?t < kc_n_stream ?kc" using st by simp
  have csz: "cells_size ?new = kvc_get_size ?kc" using trans [OF run(2) [of s] w(8) [OF st(1)]] unfolding sz .
  show "kvc_seq_cp (int s) (int d) p0 p1 kc = Some ?kd"
    using assms(2-7) by (auto simp: kvc_seq_cp_def seq_okD Let_def kvc_put_def)
  have only: "cell_has_seq u (cp_stream_view v s d) \<Longrightarrow> u = d" for v u
    by (cases v) (auto simp: cp_stream_view_def cell_has_seq_def split: if_splits)
  have "kc_heads kc ! ?s \<le> kvc_get_size kc" by (rule w(9) [OF st(1)])
  then show "kvc_wf ?kd"
    using run(1,3) assms(4) w(8) [OF st(1)]
    by (intro kvc_wf_put [OF wf t _ csz]) (auto simp: sz dest!: only)
  show "kvc_frame kc ?kd"
    using kvc_frame_put [OF wf t csz, of "kc_heads kc ! ?s"] sz(1) by (simp add: kvc_frame_def)
  show "kvc_view ?kd u i = (if u = ?t then cp_stream_view (kvc_view kc ?s i) s d else kvc_view kc u i)"
    if "i < kvc_get_size kc" for u i
    using that run(3) [of i] w(8) [OF st(1)] by (simp add: kvc_put_view [OF wf t] sz) (simp add: kvc_view_def)
  show "kc_heads ?kd ! ?t = kc_heads kc ! ?s" using st w(3) by simp
qed simp

subsection \<open>The initial cache, and clearing\<close>

lemma fold_update_id:
  "n \<le> length xs \<Longrightarrow> fold (\<lambda>s xs. xs[s := f s]) [0..<n] xs = map f [0..<n] @ drop n xs"
proof (induction n)
  case (Suc n)
  then have "drop n xs = xs ! n # drop (Suc n) xs" by (simp add: Cons_nth_drop_Suc)
  with Suc show ?case by (simp add: list_update_append)
qed simp

lemma kvc_wf_new:
  assumes "unified \<or> n_seq_max \<le> LLAMA_MAX_SEQ" "0 < n_seq_max"
  shows "kvc_wf (kvc_new unified n_cells n_seq_max settings)"
    "t < kc_n_stream (kvc_new unified n_cells n_seq_max settings) \<Longrightarrow> i < n_cells \<Longrightarrow>
       kvc_view (kvc_new unified n_cells n_seq_max settings) t i = None"
proof -
  let ?n = "if unified then 1 else n_seq_max" and ?kc = "kvc_new unified n_cells n_seq_max settings"
  let ?sts = "if ?n > 1 then [0..<?n] else replicate LLAMA_MAX_SEQ 0"
  have len: "length (kv_pos (cells_resize cells_empty n_cells)) = n_cells"
    by (simp add: cells_resize_def cells_reset_def)
  have none: "cells_view (cells_resize cells_empty n_cells) i = None" if "i < n_cells" for i
    using that by (simp add: cells_view_def cells_resize_def cells_reset_def)
  have *: "kc_n_stream ?kc = ?n" "kc_cells ?kc = replicate ?n (cells_resize cells_empty n_cells)"
    "kc_heads ?kc = replicate ?n 0" "kc_seq_to_stream ?kc = ?sts"
    by (simp_all add: kvc_new_def Let_def map_replicate_const fold_update_id [where f = id, simplified])
      (simp add: vec_resize_def)
  have g: "kvc_get_size ?kc = n_cells"
    using assms(2) by (simp add: kvc_get_size_def * cells_size_def len LLAMA_MAX_SEQ_def)
  have empty: "kvc_view ?kc t i = None" if "t < ?n" "i < n_cells" for t i
    using that unfolding kvc_view_def * by (simp add: none del: replicate_Suc)
  then show "t < kc_n_stream ?kc \<Longrightarrow> i < n_cells \<Longrightarrow> kvc_view ?kc t i = None"
    unfolding * by blast
  show "kvc_wf ?kc"
    unfolding kvc_wf_def g stream_of_def * using assms empty
    by (simp add: cells_wf_resize cells_size_def len cell_has_seq_def del: replicate_Suc)
      (auto simp: LLAMA_MAX_SEQ_def)
qed

lemma kvc_clear_effect:
  assumes "kvc_wf kc"
  shows "kvc_wf (kvc_clear kc)" "kvc_frame kc (kvc_clear kc)"
    "t < kc_n_stream kc \<Longrightarrow> i < kvc_get_size kc \<Longrightarrow> kvc_view (kvc_clear kc) t i = None"
    "t < kc_n_stream kc \<Longrightarrow> kc_heads (kvc_clear kc) ! t = 0"
proof -
  let ?P = "\<lambda>n kc'. kvc_wf kc' \<and> kvc_frame kc kc' \<and>
    (\<forall>t < n. kc_heads kc' ! t = 0 \<and> (\<forall>i < kvc_get_size kc. kvc_view kc' t i = None))"
  have "?P (kc_n_stream kc) (kvc_clear kc)"
    unfolding kvc_clear_def
  proof (rule fold_upt_invariant [where P = ?P])
    show "?P 0 kc" using assms by simp
  next
    fix t kc' assume t: "t < kc_n_stream kc" and P: "?P t kc'"
    then have f: "kvc_frame kc kc'" and wf: "kvc_wf kc'" by blast+
    note fr = kvc_frameD [OF f]
    have t': "t < kc_n_stream kc'" using t fr(1) by simp
    note w = kvc_wfD [OF wf]
    let ?c = "cells_reset (kc_cells kc' ! t)"
    have put: "kc'\<lparr>kc_cells := (kc_cells kc')[t := ?c], kc_heads := (kc_heads kc')[t := 0]\<rparr> = kvc_put t ?c 0 kc'"
      by (simp add: kvc_put_def)
    have sz: "cells_size ?c = kvc_get_size kc'" using w(8) [OF t'] by (simp add: cells_size_def cell_simps)
    have none: "i < kvc_get_size kc' \<Longrightarrow> cells_view ?c i = None" for i
      using w(8) [OF t'] by (intro cells_view_reset) (simp add: cells_size_def)
    have "kvc_wf (kvc_put t ?c 0 kc')"
      by (rule kvc_wf_put [OF wf t' cells_wf_reset sz]) (use w(7) t' none in \<open>auto simp: cell_has_seq_def\<close>)
    moreover have "kvc_frame kc (kvc_put t ?c 0 kc')"
      by (rule kvc_frame_trans [OF f kvc_frame_put [OF wf t' sz]])
    ultimately show "?P (Suc t) (kc'\<lparr>kc_cells := (kc_cells kc')[t := ?c], kc_heads := (kc_heads kc')[t := 0]\<rparr>)"
      unfolding put using P none fr(4) t' w(3) by (auto simp: kvc_put_view [OF wf t'] less_Suc_eq nth_upd)
  qed
  then show "kvc_wf (kvc_clear kc)" "kvc_frame kc (kvc_clear kc)"
    "t < kc_n_stream kc \<Longrightarrow> i < kvc_get_size kc \<Longrightarrow> kvc_view (kvc_clear kc) t i = None"
    "t < kc_n_stream kc \<Longrightarrow> kc_heads (kvc_clear kc) ! t = 0"
    by auto
qed

subsection \<open>A small cache\<close>

text \<open>The examples of this theory use a cache of four cells in which sequence 0 holds the positions
  5 and 6 and sequence 1 shares the first of these cells.\<close>

definition demo_settings :: kv_cache where
  "demo_settings = \<lparr>kc_n_stream = 1, kc_n_pad = 1, kc_n_swa = 0, kc_swa_type = SWA_TYPE_NONE,
     kc_n_pos_per_embd = 1, kc_ple_n_heads = 0, kc_ple_image_token_id = -1, kc_ple_eos_token_id = -1,
     kc_other = False, kc_heads = [], kc_cells = [], kc_seq_to_stream = [], kc_sc_info = \<lparr>ssrc = [], sdst = []\<rparr>\<rparr>"

definition demo_cells :: kv_cells where
  "demo_cells = cells_seq_add 1 0 (cells_pos_set 1 6 (cells_seq_add 0 1 (cells_seq_add 0 0
     (cells_pos_set 0 5 (cells_resize cells_empty 4)))))"

definition demo_kc :: kv_cache where
  "demo_kc = kvc_put 0 demo_cells 2 (kvc_new True 4 2 demo_settings)"

lemma four_cells: "cells_resize cells_empty 4 = \<lparr>kv_has_shift = False, kv_used = {}, kv_pos = [-1, -1, -1, -1],
   kv_ext = [ext_default, ext_default, ext_default, ext_default], kv_shift = [0, 0, 0, 0],
   kv_seq = [{}, {}, {}, {}], kv_seq_pos = \<lambda>_. {}\<rparr>"
  by (simp add: cells_resize_def cells_reset_def cells_empty_def vec_resize_def numeral_eq_Suc)

lemma cells_build_fields:
  "kv_pos (cells_pos_set i p c) = (kv_pos c)[i := p]" "kv_pos (cells_seq_add i u c) = kv_pos c"
  "kv_seq (cells_pos_set i p c) = kv_seq c" "kv_seq (cells_seq_add i u c) = (kv_seq c)[i := insert u (kv_seq c ! i)]"
  "kv_shift (cells_pos_set i p c) = kv_shift c" "kv_shift (cells_seq_add i u c) = kv_shift c"
  "kv_ext (cells_pos_set i p c) = kv_ext c" "kv_ext (cells_seq_add i u c) = kv_ext c"
  by (simp_all add: cells_pos_set_def cells_seq_add_def seq_pos_inc_def)

lemma demo_cells_fields:
  "kv_pos demo_cells = [5, 6, -1, -1]" "kv_seq demo_cells = [{0, 1}, {0}, {}, {}]"
  "kv_shift demo_cells = [0, 0, 0, 0]" "kv_ext demo_cells = [ext_default, ext_default, ext_default, ext_default]"
  by (simp_all add: demo_cells_def cells_build_fields four_cells insert_commute)

lemma demo_view:
  "cells_view demo_cells 0 = Some \<lparr>cell_pos = 5, cell_shift = 0, cell_ext = ext_default, cell_seq = {0, 1}\<rparr>"
  "cells_view demo_cells 1 = Some \<lparr>cell_pos = 6, cell_shift = 0, cell_ext = ext_default, cell_seq = {0}\<rparr>"
  "cells_view demo_cells 2 = None" "cells_view demo_cells 3 = None"
  by (simp_all add: cells_view_def demo_cells_fields)

lemma less_4: "i < (4::nat) \<longleftrightarrow> i = 0 \<or> i = 1 \<or> i = 2 \<or> i = 3"
  by auto

lemma demo_cells_wf: "cells_wf demo_cells"
proof -
  let ?c0 = "cells_resize cells_empty 4"
  let ?c1 = "cells_pos_set 0 5 ?c0"
  let ?c2 = "cells_seq_add 0 1 (cells_seq_add 0 0 ?c1)"
  have f: "kv_pos ?c0 = [-1, -1, -1, -1]" by (simp add: four_cells)
  have p: "kv_pos ?c1 = [5, -1, -1, -1]" by (simp add: cells_pos_set_def f)
  have a: "kv_pos (cells_seq_add i s c) = kv_pos c" for i s c by (simp add: cells_seq_add_def seq_pos_inc_def)
  have q: "kv_pos (cells_pos_set 1 6 ?c2) = [5, 6, -1, -1]" by (simp add: cells_pos_set_def a f)
  have 1: "cells_wf ?c1" by (intro wf_intros) (simp_all add: f)
  have 2: "cells_wf ?c2" by (intro wf_intros 1) (simp_all add: a p LLAMA_MAX_SEQ_def)
  have "cells_wf (cells_pos_set 1 6 ?c2)" by (intro wf_intros 2) (simp_all add: a p)
  then show ?thesis unfolding demo_cells_def by (intro wf_intros) (simp_all add: a f cells_pos_set_def LLAMA_MAX_SEQ_def)
qed

lemma demo_kc_wf: "kvc_wf demo_kc" "\<not> kc_other demo_kc" "length (kc_seq_to_stream demo_kc) = 256"
  "s < 256 \<Longrightarrow> stream_of demo_kc s = 0" "kvc_get_size demo_kc = 4"
proof -
  let ?kc = "kvc_new True 4 2 demo_settings"
  have wf: "kvc_wf ?kc" by (rule kvc_wf_new) simp_all
  have s: "length (kc_seq_to_stream ?kc) = 256" "s < 256 \<Longrightarrow> stream_of ?kc s = 0" for s
    by (simp_all add: kvc_new_def Let_def stream_of_def vec_resize_def LLAMA_MAX_SEQ_def)
  have g: "kvc_get_size ?kc = 4" "kc_n_stream ?kc = 1"
    using s(2) [of 0] by (simp_all add: kvc_get_size_def kvc_new_def cells_size_def cells_resize_def cells_reset_def
        Let_def vec_resize_def LLAMA_MAX_SEQ_def)
  show "s < 256 \<Longrightarrow> stream_of demo_kc s = 0" using s by (simp add: demo_kc_def)
  show "length (kc_seq_to_stream demo_kc) = 256" "\<not> kc_other demo_kc"
    using s by (simp_all add: demo_kc_def kvc_new_def Let_def)
  have sz: "cells_size demo_cells = kvc_get_size ?kc" by (simp add: cells_size_def demo_cells_fields g)
  show "kvc_get_size demo_kc = 4" unfolding demo_kc_def
    by (subst kvc_put_size [OF wf _ sz]) (simp_all add: g)
  have "cell_has_seq u (cells_view demo_cells i) \<Longrightarrow> i < 4 \<Longrightarrow> u < 256" for u i
    by (auto simp: less_4 cell_has_seq_def demo_view [simplified])
  then show "kvc_wf demo_kc" unfolding demo_kc_def
    by (intro kvc_wf_put [OF wf _ demo_cells_wf sz]) (auto simp: g s)
qed


lemma demo_positions: "kvc_positions demo_kc 0 = {5, 6}" "kvc_positions demo_kc 1 = {5}"
proof -
  have "kc_cells demo_kc = [demo_cells]"
    by (simp add: demo_kc_def kvc_new_def)
  then have *: "kvc_positions demo_kc s = seq_positions demo_cells s" if "s < 256" for s
    using that by (simp add: kvc_positions_def cells_of_def demo_kc_wf)
  have "{i. i < 4 \<and> 0 \<in> kv_seq demo_cells ! i} = {0, 1}" "{i. i < 4 \<and> 1 \<in> kv_seq demo_cells ! i} = {0}"
    by (auto simp: less_4 demo_cells_fields)
  moreover have "length (kv_pos demo_cells) = 4" by (simp add: demo_cells_fields)
  ultimately have "seq_positions demo_cells 0 = (!) (kv_pos demo_cells) ` {0, 1}"
    "seq_positions demo_cells 1 = (!) (kv_pos demo_cells) ` {0}"
    by (simp_all only: seq_positions_def)
  with * show "kvc_positions demo_kc 0 = {5, 6}" "kvc_positions demo_kc 1 = {5}"
    by (simp_all add: demo_cells_fields)
qed

subsection \<open>What the operations do to sequences\<close>

definition at_pos :: "nat \<Rightarrow> llama_pos \<Rightarrow> abs_cell option \<Rightarrow> bool" where
  \<comment> \<open>the cell holds position \<open>p\<close> for sequence \<open>u\<close>\<close>
  "at_pos u p v \<longleftrightarrow> (\<exists>k. v = Some k \<and> u \<in> cell_seq k \<and> p = cell_pos k)"

lemma positions_at:
  assumes "kvc_wf kc" "u < length (kc_seq_to_stream kc)"
  shows "p \<in> kvc_positions kc u \<longleftrightarrow> (\<exists>i < kvc_get_size kc. at_pos u p (kvc_view kc (stream_of kc u) i))"
  by (simp add: kvc_positions_view [OF assms] at_pos_def)

lemma positions_after:
  assumes "kvc_wf kc'" "kvc_frame kc kc'" "u < length (kc_seq_to_stream kc)"
  shows "p \<in> kvc_positions kc' u \<longleftrightarrow> (\<exists>i < kvc_get_size kc. at_pos u p (kvc_view kc' (stream_of kc u) i))"
  using positions_at [OF assms(1), of u] kvc_frameD [OF assms(2)] assms(3) by simp

lemma at_pos_if: "at_pos u p (if b then v else w) \<longleftrightarrow> (if b then at_pos u p v else at_pos u p w)"
  by simp

lemma at_pos_trans:
  "at_pos u p (seq_rm_trans s p0 p1 v) \<longleftrightarrow> at_pos u p v \<and> \<not> (u = s \<and> p0 \<le> p \<and> p < p1)"
  "at_pos u p (seq_keep_trans s v) \<longleftrightarrow> u = s \<and> at_pos u p v"
  "at_pos u p (seq_cp_trans s d p0 p1 v) \<longleftrightarrow> at_pos u p v \<or> (u = d \<and> at_pos s p v \<and> p0 \<le> p \<and> p < p1)"
  "at_pos u p (cp_stream_view v s d) \<longleftrightarrow> u = d \<and> at_pos s p v"
  by (cases v; auto simp: at_pos_def seq_rm_trans_def seq_keep_trans_def seq_cp_trans_def cp_stream_view_def
      cell_pos_in_def cell_has_seq_def cell_drop_seq_def cell_keep_seq_def)+

text \<open>C32. \<open>seq_rm\<close> on a sequence removes exactly the positions of the range from it (a negative
  bound is open), leaves every other sequence its positions, keeps the invariant and reports
  success.\<close>

theorem kvc_seq_rm_positions:
  assumes "kvc_wf kc" "\<not> kc_other kc" "s < length (kc_seq_to_stream kc)"
  shows "\<exists>kc'. kvc_seq_rm (int s) p0 p1 kc = Some (kc', True) \<and> kvc_wf kc' \<and>
    (\<forall>u < length (kc_seq_to_stream kc). kvc_positions kc' u =
       (if u = s then {p \<in> kvc_positions kc s. \<not> (clip_p0 p0 \<le> p \<and> p < clip_p1 p1)} else kvc_positions kc u))"
proof -
  obtain kc' where k: "kvc_seq_rm (int s) p0 p1 kc = Some (kc', True)" "kvc_wf kc'" "kvc_frame kc kc'"
    "\<And>t i. i < kvc_get_size kc \<Longrightarrow> kvc_view kc' t i =
       (if t = stream_of kc s then seq_rm_trans s (clip_p0 p0) (clip_p1 p1) (kvc_view kc t i) else kvc_view kc t i)"
    using kvc_seq_rm_one [OF assms] by blast
  have "kvc_positions kc' u = (if u = s then {p \<in> kvc_positions kc s. \<not> (clip_p0 p0 \<le> p \<and> p < clip_p1 p1)}
      else kvc_positions kc u)" if u: "u < length (kc_seq_to_stream kc)" for u
    using k(4) by (auto simp: set_eq_iff positions_after [OF k(2,3) u] at_pos_if at_pos_trans positions_at [OF assms(1)] assms(3) u cong: conj_cong)
  with k(1,2) show ?thesis by blast
qed

theorem kvc_seq_rm_positions_witness:
  "\<exists>kc'. kvc_seq_rm 0 6 (-1) demo_kc = Some (kc', True) \<and> kvc_wf kc' \<and>
     kvc_positions kc' 0 = {5} \<and> kvc_positions kc' 1 = {5}"
proof -
  obtain kc' where "kvc_seq_rm (int 0) 6 (-1) demo_kc = Some (kc', True)" "kvc_wf kc'"
    and p: "\<And>u. u < 256 \<Longrightarrow> kvc_positions kc' u =
       (if u = 0 then {p \<in> kvc_positions demo_kc 0. \<not> (clip_p0 6 \<le> p \<and> p < clip_p1 (-1))} else kvc_positions demo_kc u)"
    using kvc_seq_rm_positions [OF demo_kc_wf(1,2), of 0 6 "-1"] by (auto simp: demo_kc_wf(3))
  moreover have "kvc_positions kc' 0 = {5}" "kvc_positions kc' 1 = {5}"
    using p [of 0] p [of 1] by (auto simp: demo_positions [simplified] clip_p0_def clip_p1_def INT32_MAX_def)
  ultimately show ?thesis by (intro exI [of _ kc']) simp
qed

text \<open>C36. \<open>seq_keep\<close> keeps the positions of its sequence and empties every other sequence of the
  same stream; the sequences of the other streams are not touched, although the interface
  says that all tokens outside the sequence are removed.\<close>

theorem kvc_seq_keep_positions:
  assumes "kvc_wf kc" "\<not> kc_other kc" "s < length (kc_seq_to_stream kc)"
  shows "\<exists>kc'. kvc_seq_keep (int s) kc = Some kc' \<and> kvc_wf kc' \<and>
    (\<forall>u < length (kc_seq_to_stream kc). kvc_positions kc' u =
       (if u \<noteq> s \<and> stream_of kc u = stream_of kc s then {} else kvc_positions kc u))"
proof -
  obtain kc' where k: "kvc_seq_keep (int s) kc = Some kc'" "kvc_wf kc'" "kvc_frame kc kc'"
    "\<And>t i. i < kvc_get_size kc \<Longrightarrow> kvc_view kc' t i =
       (if t = stream_of kc s then seq_keep_trans s (kvc_view kc t i) else kvc_view kc t i)"
    using kvc_seq_keep_effect [OF assms] by blast
  have "kvc_positions kc' u = (if u \<noteq> s \<and> stream_of kc u = stream_of kc s then {} else kvc_positions kc u)"
    if u: "u < length (kc_seq_to_stream kc)" for u
    using k(4) by (auto simp: set_eq_iff positions_after [OF k(2,3) u] at_pos_if at_pos_trans positions_at [OF assms(1)] assms(3) u cong: conj_cong)
  with k(1,2) show ?thesis by blast
qed

theorem kvc_seq_keep_positions_witness:
  "\<exists>kc'. kvc_seq_keep 1 demo_kc = Some kc' \<and> kvc_wf kc' \<and>
     kvc_positions kc' 0 = {} \<and> kvc_positions kc' 1 = {5}"
proof -
  obtain kc' where "kvc_seq_keep (int 1) demo_kc = Some kc'" "kvc_wf kc'"
    and p: "\<And>u. u < 256 \<Longrightarrow> kvc_positions kc' u =
       (if u \<noteq> 1 \<and> stream_of demo_kc u = stream_of demo_kc 1 then {} else kvc_positions demo_kc u)"
    using kvc_seq_keep_positions [OF demo_kc_wf(1,2), of 1] by (auto simp: demo_kc_wf(3))
  moreover have "kvc_positions kc' 0 = {}" "kvc_positions kc' 1 = {5}"
    using p [of 0] p [of 1] by (simp_all add: demo_positions [simplified] demo_kc_wf)
  ultimately show ?thesis by (intro exI [of _ kc']) simp
qed

text \<open>C33. \<open>seq_cp\<close> within a stream adds to the destination exactly the source's positions in the
  range, and changes no other sequence; across streams (full copies only) the destination's
  stream ends up holding exactly the source's positions, under the destination, with the
  copy of the buffers queued.\<close>

theorem kvc_seq_cp_positions:
  assumes "kvc_wf kc" "\<not> kc_other kc" "s < length (kc_seq_to_stream kc)" "d < length (kc_seq_to_stream kc)" "s \<noteq> d"
    and "stream_of kc s \<noteq> stream_of kc d \<Longrightarrow> p0 \<le> 0 \<and> p1 \<le> 0"
  shows "\<exists>kc'. kvc_seq_cp (int s) (int d) p0 p1 kc = Some kc' \<and> kvc_wf kc' \<and>
    (\<forall>u < length (kc_seq_to_stream kc). kvc_positions kc' u =
      (if stream_of kc s = stream_of kc d
       then (if u = d then kvc_positions kc d \<union> {p \<in> kvc_positions kc s. clip_p0 p0 \<le> p \<and> p < clip_p1 p1}
             else kvc_positions kc u)
       else (if u = d then kvc_positions kc s
             else if stream_of kc u = stream_of kc d then {} else kvc_positions kc u)))"
proof (cases "stream_of kc s = stream_of kc d")
  case True
  obtain kc' where k: "kvc_seq_cp (int s) (int d) p0 p1 kc = Some kc'" "kvc_wf kc'" "kvc_frame kc kc'"
    "\<And>t i. i < kvc_get_size kc \<Longrightarrow> kvc_view kc' t i =
       (if t = stream_of kc s then seq_cp_trans s d (clip_p0 p0) (clip_p1 p1) (kvc_view kc t i) else kvc_view kc t i)"
    by (rule kvc_seq_cp_same_stream [OF assms(1-4) True assms(5), of p0 p1]) iprover
  have "kvc_positions kc' u = (if u = d then kvc_positions kc d \<union> {p \<in> kvc_positions kc s. clip_p0 p0 \<le> p \<and> p < clip_p1 p1}
      else kvc_positions kc u)" if u: "u < length (kc_seq_to_stream kc)" for u
    using k(4) by (auto simp: set_eq_iff positions_after [OF k(2,3) u] at_pos_if at_pos_trans positions_at [OF assms(1)] assms(3,4) u True cong: conj_cong)
  with k(1,2) True show ?thesis by (intro exI [of _ kc']) simp
next
  case False
  have full: "p0 \<le> 0 \<or> int (kvc_get_size kc) \<le> p0 + 1" "p1 \<le> 0 \<or> int (kvc_get_size kc) \<le> p1 + 1"
    using assms(6) [OF False] by simp_all
  obtain kc' where k: "kvc_seq_cp (int s) (int d) p0 p1 kc = Some kc'" "kvc_wf kc'" "kvc_frame kc kc'"
    "\<And>t i. i < kvc_get_size kc \<Longrightarrow> kvc_view kc' t i =
       (if t = stream_of kc d then cp_stream_view (kvc_view kc (stream_of kc s) i) s d else kvc_view kc t i)"
    by (rule kvc_seq_cp_cross_stream [OF assms(1-4) False full]) iprover
  have "kvc_positions kc' u = (if u = d then kvc_positions kc s
      else if stream_of kc u = stream_of kc d then {} else kvc_positions kc u)"
    if u: "u < length (kc_seq_to_stream kc)" for u
    using k(4) by (auto simp: set_eq_iff positions_after [OF k(2,3) u] at_pos_if at_pos_trans positions_at [OF assms(1)] assms(3,4) u cong: conj_cong)
  with k(1,2) False show ?thesis by (intro exI [of _ kc']) simp
qed

theorem kvc_seq_cp_positions_witness:
  "\<exists>kc'. kvc_seq_cp 0 2 6 (-1) demo_kc = Some kc' \<and> kvc_wf kc' \<and>
     kvc_positions kc' 0 = {5, 6} \<and> 6 \<in> kvc_positions kc' 2"
proof -
  obtain kc' where "kvc_seq_cp (int 0) (int 2) 6 (-1) demo_kc = Some kc'" "kvc_wf kc'"
    and p: "\<And>u. u < 256 \<Longrightarrow> kvc_positions kc' u =
       (if u = 2 then kvc_positions demo_kc 2 \<union> {p \<in> kvc_positions demo_kc 0. clip_p0 6 \<le> p \<and> p < clip_p1 (-1)}
        else kvc_positions demo_kc u)"
    using kvc_seq_cp_positions [OF demo_kc_wf(1,2), of 0 2 6 "-1"] by (auto simp: demo_kc_wf(3,4))
  moreover have "kvc_positions kc' 0 = {5, 6}" "6 \<in> kvc_positions kc' 2"
    using p [of 0] p [of 2] by (simp_all add: demo_positions [simplified] clip_p0_def clip_p1_def INT32_MAX_def)
  ultimately show ?thesis by (intro exI [of _ kc']) simp
qed

lemma add_at_pos:
  "at_pos s p (seq_add_trans s p0 p1 d v) \<longleftrightarrow>
     (at_pos s p v \<and> \<not> (p0 \<le> p \<and> p < p1)) \<or> (0 \<le> p \<and> at_pos s (p - d) v \<and> p0 \<le> p - d \<and> p - d < p1)"
  by (cases v) (auto simp: at_pos_def seq_add_trans_def cell_pos_in_def cell_has_seq_def cell_move_def)

lemma seq_add_cell:
  "seq_add_trans s p0 p1 d v = (case v of None \<Rightarrow> None | Some k \<Rightarrow>
     if s \<in> cell_seq k \<and> p0 \<le> cell_pos k \<and> cell_pos k < p1
     then (if cell_pos k + d < 0 then None else Some (k\<lparr>cell_pos := cell_pos k + d, cell_shift := cell_shift k + d\<rparr>))
     else Some k)"
  by (cases v) (auto simp: seq_add_trans_def cell_pos_in_def cell_has_seq_def cell_move_def)

lemma add_other_pos:
  "u \<noteq> s \<Longrightarrow> \<forall>k. v = Some k \<longrightarrow> u \<in> cell_seq k \<longrightarrow> s \<in> cell_seq k \<longrightarrow> \<not> (p0 \<le> cell_pos k \<and> cell_pos k < p1) \<Longrightarrow>
     at_pos u p (seq_add_trans s p0 p1 d v) \<longleftrightarrow> at_pos u p v"
  by (cases v) (auto simp: at_pos_def seq_add_trans_def cell_pos_in_def cell_has_seq_def cell_move_def)

text \<open>C34. \<open>seq_add\<close> moves exactly the positions of the range by \<open>d\<close> and drops those that would
  become negative. The cells it changes are those of the stream of the sequence that hold the
  sequence at a position of the range: such a cell moves by \<open>d\<close>, with \<open>d\<close> added to the shift
  that the next K-shift applies, or is emptied; every other cell of every stream keeps position,
  shift, extension and sequences. A sequence of the same stream that shares no cell of the range with
  the moved one, and every sequence of another stream, keeps its positions.\<close>

theorem kvc_seq_add_positions:
  assumes "kvc_wf kc" "\<not> kc_other kc" "s < length (kc_seq_to_stream kc)" "kc_n_pos_per_embd kc = 1"
    and "d \<noteq> 0" "clip_p0 p0 \<noteq> clip_p1 p1"
  shows "\<exists>kc'. kvc_seq_add (int s) p0 p1 d kc = Some kc' \<and> kvc_wf kc' \<and>
    kvc_positions kc' s = {p \<in> kvc_positions kc s. \<not> (clip_p0 p0 \<le> p \<and> p < clip_p1 p1)} \<union>
      {p + d |p. p \<in> kvc_positions kc s \<and> clip_p0 p0 \<le> p \<and> p < clip_p1 p1 \<and> 0 \<le> p + d} \<and>
    (\<forall>t < kc_n_stream kc. \<forall>i < kvc_get_size kc. kvc_view kc' t i = (case kvc_view kc t i of None \<Rightarrow> None | Some k \<Rightarrow>
       if t = stream_of kc s \<and> s \<in> cell_seq k \<and> clip_p0 p0 \<le> cell_pos k \<and> cell_pos k < clip_p1 p1
       then (if cell_pos k + d < 0 then None else Some (k\<lparr>cell_pos := cell_pos k + d, cell_shift := cell_shift k + d\<rparr>))
       else Some k)) \<and>
    (\<forall>u < length (kc_seq_to_stream kc). u \<noteq> s \<longrightarrow>
       (stream_of kc u = stream_of kc s \<longrightarrow> (\<forall>i < kvc_get_size kc. \<forall>k. kvc_view kc (stream_of kc s) i = Some k \<longrightarrow>
          u \<in> cell_seq k \<longrightarrow> s \<in> cell_seq k \<longrightarrow> \<not> (clip_p0 p0 \<le> cell_pos k \<and> cell_pos k < clip_p1 p1))) \<longrightarrow>
       kvc_positions kc' u = kvc_positions kc u)"
proof -
  obtain kc' where k: "kvc_seq_add (int s) p0 p1 d kc = Some kc'" "kvc_wf kc'" "kvc_frame kc kc'"
    "\<And>t i. i < kvc_get_size kc \<Longrightarrow> kvc_view kc' t i =
       (if t = stream_of kc s then seq_add_trans s (clip_p0 p0) (clip_p1 p1) d (kvc_view kc t i) else kvc_view kc t i)"
    by (rule kvc_seq_add_effect [OF assms]) iprover
  have at: "p \<in> kvc_positions kc' s \<longleftrightarrow> (p \<in> kvc_positions kc s \<and> \<not> (clip_p0 p0 \<le> p \<and> p < clip_p1 p1)) \<or>
      (0 \<le> p \<and> p - d \<in> kvc_positions kc s \<and> clip_p0 p0 \<le> p - d \<and> p - d < clip_p1 p1)" for p
    using k(4) by (auto simp: positions_after [OF k(2,3) assms(3)] add_at_pos
        positions_at [OF assms(1,3)] cong: conj_cong)
  have "p \<in> kvc_positions kc' s \<longleftrightarrow> p \<in> {p \<in> kvc_positions kc s. \<not> (clip_p0 p0 \<le> p \<and> p < clip_p1 p1)} \<union>
      {p + d |p. p \<in> kvc_positions kc s \<and> clip_p0 p0 \<le> p \<and> p < clip_p1 p1 \<and> 0 \<le> p + d}" for p
    unfolding at by (auto intro: exI [of _ "p - d"])
  then have pos: "kvc_positions kc' s = {p \<in> kvc_positions kc s. \<not> (clip_p0 p0 \<le> p \<and> p < clip_p1 p1)} \<union>
      {p + d |p. p \<in> kvc_positions kc s \<and> clip_p0 p0 \<le> p \<and> p < clip_p1 p1 \<and> 0 \<le> p + d}"
    by (rule set_eqI)
  have cells: "kvc_view kc' t i = (case kvc_view kc t i of None \<Rightarrow> None | Some k \<Rightarrow>
       if t = stream_of kc s \<and> s \<in> cell_seq k \<and> clip_p0 p0 \<le> cell_pos k \<and> cell_pos k < clip_p1 p1
       then (if cell_pos k + d < 0 then None else Some (k\<lparr>cell_pos := cell_pos k + d, cell_shift := cell_shift k + d\<rparr>))
       else Some k)" if "i < kvc_get_size kc" for t i
    unfolding k(4) [OF that] seq_add_cell by (auto split: option.splits)
  have others: "kvc_positions kc' u = kvc_positions kc u" if u: "u < length (kc_seq_to_stream kc)" "u \<noteq> s"
    and apart: "stream_of kc u = stream_of kc s \<longrightarrow> (\<forall>i < kvc_get_size kc. \<forall>k. kvc_view kc (stream_of kc s) i = Some k \<longrightarrow>
       u \<in> cell_seq k \<longrightarrow> s \<in> cell_seq k \<longrightarrow> \<not> (clip_p0 p0 \<le> cell_pos k \<and> cell_pos k < clip_p1 p1))" for u
  proof -
    have "at_pos u p (kvc_view kc' (stream_of kc u) i) \<longleftrightarrow> at_pos u p (kvc_view kc (stream_of kc u) i)"
      if i: "i < kvc_get_size kc" for p i
      unfolding k(4) [OF i] using apart i by (auto intro!: add_other_pos [OF u(2)])
    then show ?thesis by (auto simp: set_eq_iff positions_after [OF k(2,3) u(1)] positions_at [OF assms(1) u(1)])
  qed
  show ?thesis using k(1,2) pos cells others by blast
qed

theorem kvc_seq_add_positions_witness:
  "\<exists>kc'. kvc_seq_add 0 6 (-1) 3 demo_kc = Some kc' \<and> kvc_wf kc' \<and> kvc_positions kc' 0 = {5, 9} \<and>
     kvc_positions kc' 1 = {5}"
proof -
  have "kc_n_pos_per_embd demo_kc = 1" by (simp add: demo_kc_def kvc_new_def demo_settings_def Let_def kvc_put_def)
  note T = kvc_seq_add_positions [OF demo_kc_wf(1,2) _ this, of 0 3 6 "-1"]
  have c: "clip_p0 6 = 6" "clip_p1 (-1) = INT32_MAX" by (simp_all add: clip_p0_def clip_p1_def)
  have apart: "\<forall>i < kvc_get_size demo_kc. \<forall>k. kvc_view demo_kc (stream_of demo_kc 0) i = Some k \<longrightarrow>
          1 \<in> cell_seq k \<longrightarrow> 0 \<in> cell_seq k \<longrightarrow> \<not> (6 \<le> cell_pos k \<and> cell_pos k < INT32_MAX)"
  proof (intro allI impI notI)
    fix i k assume "i < kvc_get_size demo_kc" "kvc_view demo_kc (stream_of demo_kc 0) i = Some k" "1 \<in> cell_seq k"
      "6 \<le> cell_pos k \<and> cell_pos k < INT32_MAX"
    moreover have "stream_of demo_kc 1 = stream_of demo_kc 0" by (simp add: demo_kc_wf(4))
    ultimately have "cell_pos k \<in> kvc_positions demo_kc 1"
      using kvc_positions_view [OF demo_kc_wf(1), of 1 "cell_pos k"] by (auto simp: demo_kc_wf(3))
    then show False using \<open>6 \<le> cell_pos k \<and> cell_pos k < INT32_MAX\<close> by (simp add: demo_positions(2) [simplified])
  qed
  obtain kc' where "kvc_seq_add (int 0) 6 (-1) 3 demo_kc = Some kc'" "kvc_wf kc'"
    and p: "kvc_positions kc' 0 = {p \<in> kvc_positions demo_kc 0. \<not> (clip_p0 6 \<le> p \<and> p < clip_p1 (-1))} \<union>
      {p + 3 |p. p \<in> kvc_positions demo_kc 0 \<and> clip_p0 6 \<le> p \<and> p < clip_p1 (-1) \<and> 0 \<le> p + 3}"
    and u: "kvc_positions kc' 1 = kvc_positions demo_kc 1"
    using T apart demo_kc_wf(3) unfolding c by (auto simp: INT32_MAX_def)
  moreover have "kvc_positions kc' 0 = {5, 9}"
    unfolding p by (auto simp: demo_positions clip_p0_def clip_p1_def INT32_MAX_def)
  ultimately show ?thesis by (intro exI [of _ kc']) (simp add: demo_positions [simplified])
qed

text \<open>\<open>seq_div\<close> records its shift with the opposite sign of \<open>seq_add\<close>: a cell of the range
  gets position \<open>p / d\<close>, and it is the position plus (not minus) the pending shift that stays
  the same. The K-shift that follows rotates such a cell away from its new position.\<close>

theorem kvc_seq_div_shift_sign:
  assumes "kvc_wf kc" "\<not> kc_other kc" "s < length (kc_seq_to_stream kc)" "kc_n_pos_per_embd kc = 1"
    and "1 < d" "clip_p0 p0 \<noteq> clip_p1 p1"
    and "i < kvc_get_size kc" "kvc_view kc (stream_of kc s) i = Some k" "s \<in> cell_seq k"
    and "clip_p0 p0 \<le> cell_pos k" "cell_pos k < clip_p1 p1"
  shows "\<exists>kc' k'. kvc_seq_div (int s) p0 p1 d kc = Some kc' \<and> kvc_wf kc' \<and>
    kvc_view kc' (stream_of kc s) i = Some k' \<and> cell_pos k' = cell_pos k div d \<and>
    cell_pos k' + cell_shift k' = cell_pos k + cell_shift k \<and>
    (0 < cell_pos k \<longrightarrow> cell_pos k' - cell_shift k' \<noteq> cell_pos k - cell_shift k)"
proof -
  obtain kc' where kc: "kvc_seq_div (int s) p0 p1 d kc = Some kc'" "kvc_wf kc'"
    "\<And>t i. i < kvc_get_size kc \<Longrightarrow> kvc_view kc' t i =
       (if t = stream_of kc s then seq_div_trans s (clip_p0 p0) (clip_p1 p1) d (kvc_view kc t i) else kvc_view kc t i)"
    by (rule kvc_seq_div_effect [OF assms(1-6)]) iprover
  have "0 \<le> cell_pos k" using assms(10) clip_p0_nonneg [of p0] by linarith
  then have "c_div (cell_pos k) d = cell_pos k div d" "0 < cell_pos k \<Longrightarrow> cell_pos k div d < cell_pos k"
    using assms(5) int_div_less_self by auto
  then show ?thesis
    using kc(1,2) kc(3) [OF assms(7), of "stream_of kc s"] assms(8-11)
    by (intro exI [of _ kc'] exI [of _ "cell_scale d k"])
      (auto simp: seq_div_trans_def cell_pos_in_def cell_has_seq_def cell_scale_def)
qed

theorem kvc_seq_div_shift_sign_witness:
  "\<exists>kc' k'. kvc_seq_div 0 0 (-1) 2 demo_kc = Some kc' \<and> kvc_view kc' 0 1 = Some k' \<and>
     cell_pos k' = 3 \<and> cell_shift k' = 3"
proof -
  have "kc_n_pos_per_embd demo_kc = 1" "kc_cells demo_kc = [demo_cells]"
    by (simp_all add: demo_kc_def kvc_new_def demo_settings_def Let_def kvc_put_def)
  moreover from this have v: "kvc_view demo_kc 0 1 =
      Some \<lparr>cell_pos = 6, cell_shift = 0, cell_ext = ext_default, cell_seq = {0}\<rparr>"
    unfolding kvc_view_def by (simp only: nth_Cons_0 demo_view)
  ultimately show ?thesis
    using kvc_seq_div_shift_sign [OF demo_kc_wf(1,2), of 0 2 0 "-1" 1]
    by (auto simp: demo_kc_wf(3-5) clip_p0_def clip_p1_def INT32_MAX_def)
qed

text \<open>\<open>seq_rm\<close> without a sequence empties exactly the cells of the range, in every stream, and
  leaves the other cells as they are.\<close>

theorem kvc_seq_rm_all_cells:
  assumes "kvc_wf kc" "\<not> kc_other kc"
  shows "\<exists>kc'. kvc_seq_rm (-1) p0 p1 kc = Some (kc', True) \<and> kvc_wf kc' \<and>
    (\<forall>t < kc_n_stream kc. \<forall>i < kvc_get_size kc.
       kvc_view kc' t i = (if cell_pos_in (clip_p0 p0) (clip_p1 p1) (kvc_view kc t i) then None else kvc_view kc t i))"
  by (rule kvc_seq_rm_all [OF assms, of p0 p1]) (auto simp: rm_trans_def)

theorem kvc_seq_rm_all_cells_witness:
  "\<exists>kc'. kvc_seq_rm (-1) 6 (-1) demo_kc = Some (kc', True) \<and> kvc_view kc' 0 0 \<noteq> None \<and> kvc_view kc' 0 1 = None"
proof -
  have c: "kc_cells demo_kc = [demo_cells]" "kc_n_stream demo_kc = 1"
    by (simp_all add: demo_kc_def kvc_new_def)
  have "kvc_view demo_kc 0 i = cells_view demo_cells i" for i by (simp add: kvc_view_def c)
  then show ?thesis
    using kvc_seq_rm_all_cells [OF demo_kc_wf(1,2), of 6 "-1"]
    by (auto simp: demo_kc_wf(5) c demo_view [simplified] cell_pos_in_def clip_p0_def clip_p1_def INT32_MAX_def)
qed

lemma kvc_seq_pos_max_eq:
  assumes "kvc_wf kc" "s < length (kc_seq_to_stream kc)"
  shows "kvc_seq_pos_max kc [] (int s) =
    Some (if kvc_positions kc s = {} then -1 else Max (kvc_positions kc s))"
    "kvc_seq_pos_min kc [] (int s) =
    Some (if kvc_positions kc s = {} then -1 else Min (kvc_positions kc s))"
  using cells_seq_pos_max_eq cells_seq_pos_min_eq kvc_wfD(6,7) [OF assms(1)] assms(2)
  by (simp_all add: seq_okD kvc_positions_def cells_of_def)

lemma finite_kvc_positions: "kvc_wf kc \<Longrightarrow> s < length (kc_seq_to_stream kc) \<Longrightarrow> finite (kvc_positions kc s)"
  using finite_seq_positions kvc_wfD(6,7) by (simp add: kvc_positions_def cells_of_def)

lemma kvc_get_n_kv_fold:
  "fold (\<lambda>t r. max (f t) r) ts (r0 :: nat) = Max (insert r0 (f ` set ts))"
proof (induction ts arbitrary: r0)
  case (Cons t ts)
  then show ?case by (cases "ts = []") (auto simp: max.assoc max.left_commute)
qed simp

text \<open>The number of cells the attention graph looks at, \<open>get_n_kv\<close>, is bounded by the size of
  the cache and leaves out no occupied cell of a stream in use.\<close>

theorem kvc_get_n_kv_covers:
  assumes "kvc_wf kc" "set strm \<subseteq> {..<kc_n_stream kc}" "kc_n_pad kc = 2 ^ k"
  shows "kvc_get_n_kv kc strm \<le> kvc_get_size kc \<and>
    (\<forall>t \<in> set strm. \<forall>i < kvc_get_size kc. kvc_view kc t i \<noteq> None \<longrightarrow> i < kvc_get_n_kv kc strm)"
proof -
  note w = kvc_wfD [OF assms(1)]
  have "max (2 ^ a) (2 ^ b) = (2 ^ max a b :: nat)" for a b :: nat
    by (cases "a \<le> b") (simp_all add: max_def power_increasing_iff)
  note this [of k 8]
  then have pad: "max (kc_n_pad kc) 256 = 2 ^ (max k 8)" by (simp add: assms(3))
  let ?n = "\<lambda>t. min (kvc_get_size kc) (max (2 ^ (max k 8)) (ggml_pad (cells_used_max_p1 (kc_cells kc ! t)) (2 ^ (max k 8))))"
  have "kvc_get_n_kv kc strm = fold (\<lambda>t r. max (?n t) r) strm 0"
    unfolding kvc_get_n_kv_def Let_def pad
    by (rule fold_cong) (use assms(2) w(8) in \<open>auto simp: fun_eq_iff\<close>)
  then have n: "kvc_get_n_kv kc strm = Max (insert 0 (?n ` set strm))"
    by (simp add: kvc_get_n_kv_fold)
  have "i < kvc_get_n_kv kc strm"
    if t: "t \<in> set strm" and i: "i < kvc_get_size kc" "kvc_view kc t i \<noteq> None" for t i
  proof -
    have "i < cells_used_max_p1 (kc_cells kc ! t)"
      using cells_used_max_p1_bound(2) [of "kc_cells kc ! t" i] w(7,8) [of t] t assms(2) i
      by (force simp: kvc_view_def cells_size_def)
    also have "\<dots> \<le> ggml_pad (cells_used_max_p1 (kc_cells kc ! t)) (2 ^ (max k 8))" by (rule ggml_pad_ge)
    finally have "i < ?n t" using i(1) by simp
    also have "?n t \<le> Max (insert 0 (?n ` set strm))" using t by (intro Max_ge) auto
    finally show ?thesis by (simp only: n)
  qed
  then show ?thesis by (auto simp: n)
qed

theorem kvc_get_n_kv_covers_witness:
  "kvc_get_n_kv demo_kc [0] \<le> 4 \<and> 1 < kvc_get_n_kv demo_kc [0]"
proof -
  have s: "kc_n_pad demo_kc = 2 ^ 0" "kc_n_stream demo_kc = 1" "kc_cells demo_kc = [demo_cells]"
    by (simp_all add: demo_kc_def kvc_new_def demo_settings_def Let_def kvc_put_def)
  then have v: "kvc_view demo_kc 0 1 \<noteq> None"
    unfolding kvc_view_def by (simp only: nth_Cons_0 demo_view) simp
  then show ?thesis
    using kvc_get_n_kv_covers [OF demo_kc_wf(1), of "[0]" 0] s(1,2) by (auto simp: demo_kc_wf(5))
qed

end
