(* ===== verification/Ubatch.thy ===== *)
theory Ubatch
  imports Prelude
begin

text \<open>
  The unit of work of the decoder, \<open>llama_ubatch\<close> of \<open>src/llama-batch.h\<close>: the tokens of a
  micro-batch with their positions and sequences. The pointers of the struct are lists here;
  \<open>token\<close> and \<open>embd\<close> may be null, which is \<open>None\<close>; the numbers of an embedding are only
  copied and are kept as 32-bit patterns. \<open>ub_batch_idxs\<close> is the field of the owned data that
  says which token of the batch each token of the micro-batch is.
\<close>

record llama_ubatch =
  ub_equal_seqs :: bool
  ub_n_tokens :: nat
  ub_n_seq_tokens :: nat
  ub_n_seqs :: nat
  ub_n_seqs_unq :: nat
  ub_n_pos :: nat
  ub_token :: "llama_token list option"
  ub_pos :: "llama_pos list"
  ub_n_seq_id :: "int list"
  ub_seq_id :: "int list list"
  ub_seq_id_unq :: "int list"
  ub_seq_idx :: "int list"
  ub_output :: "int list"
  ub_embd :: "u32 list option"
  ub_batch_idxs :: "nat list"

definition is_pos_2d :: "llama_ubatch \<Rightarrow> bool" where
  "is_pos_2d ub \<longleftrightarrow> ub_n_pos ub \<ge> 3"

end
