(* ===== verification/KvSlot.thy ===== *)
theory KvSlot
  imports KvCache Ubatch
begin

text \<open>
  Placing a micro-batch in the KV cache (\<open>src/llama-kv-cache.cpp\<close>): \<open>find_slot\<close> searches the
  ring of cells of every stream for room, \<open>apply_ubatch\<close> writes the tokens into the slot that
  was found, and \<open>prepare\<close> does both for a list of micro-batches and then restores the cells.

  The search is a \<open>while (true)\<close> loop of the source and a partial function here; that it
  always returns is a theorem. \<open>None\<close> stands for an abort by \<open>GGML_ASSERT\<close> (or for a loop that
  does not end); the empty slot, with which the source reports that there is no room, is a value.
\<close>

record slot_info =
  si_s0 :: nat
  si_s1 :: nat
  si_strm :: "nat list"
  si_idxs :: "nat list list"

definition slot_empty :: slot_info where
  "slot_empty = \<lparr>si_s0 = 0, si_s1 = 0, si_strm = [], si_idxs = []\<rparr>"

definition slot_is_empty :: "slot_info \<Rightarrow> bool" where
  "slot_is_empty si \<longleftrightarrow> si_idxs si = []"

definition slot_size :: "slot_info \<Rightarrow> nat option" where
  "slot_size si = (if length (si_idxs si) \<noteq> length (si_strm si) \<or> si_idxs si = [] then None
     else Some (length (si_idxs si ! 0)))"

definition slot_n_stream :: "slot_info \<Rightarrow> nat" where
  "slot_n_stream si = length (si_strm si)"

subsection \<open>Searching the ring\<close>

definition cell_can_use :: "nat \<Rightarrow> swa_type \<Rightarrow> kv_cells \<Rightarrow> nat \<Rightarrow> bool" where
  "cell_can_use n_swa swa c idx =
     (if cells_is_empty c idx then True
      else if cells_seq_count c idx = 1 then
        is_masked_swa n_swa swa (kv_pos c ! idx) (cells_seq_pos_max c (nat (cells_seq_get c idx)) + 1)
      else False)"

fun slot_test :: "(nat \<Rightarrow> bool) \<Rightarrow> bool \<Rightarrow> nat \<Rightarrow> nat \<Rightarrow> nat \<Rightarrow> nat list \<Rightarrow> nat \<times> nat \<times> nat list" where
  \<comment> \<open>the inner loop, \<open>n\<close> cells left to test\<close>
  "slot_test use cont 0 head n_tested idxs = (head, n_tested, idxs)"
| "slot_test use cont (Suc n) head n_tested idxs =
     (if use head then slot_test use cont n (head + 1) (n_tested + 1) (idxs @ [head])
      else if cont then (head + 1, n_tested + 1, idxs)
      else slot_test use cont n (head + 1) (n_tested + 1) idxs)"

partial_function (option) slot_search ::
  "(nat \<Rightarrow> bool) \<Rightarrow> bool \<Rightarrow> nat \<Rightarrow> nat \<Rightarrow> nat \<Rightarrow> nat \<Rightarrow> nat list \<Rightarrow> nat list option option" where
  "slot_search use cont size_c n_tokens head n_tested idxs =
     (let n_test = (if cont then n_tokens else 1) in
      if head + n_test > size_c
      then slot_search use cont size_c n_tokens 0 (n_tested + (size_c - head)) idxs
      else case slot_test use cont n_test head n_tested idxs of
        (head, n_tested, idxs) \<Rightarrow>
          if length idxs = n_tokens then Some (Some idxs)
          else let idxs = (if cont then [] else idxs) in
            if n_tested \<ge> size_c then Some None
            else slot_search use cont size_c n_tokens head n_tested idxs)"

declare slot_search.simps [code]

definition find_slot_cells :: "nat \<Rightarrow> swa_type \<Rightarrow> bool \<Rightarrow> nat \<Rightarrow> kv_cells \<Rightarrow> nat \<Rightarrow> nat list option option" where
  \<comment> \<open>the search for one sequence, in the cells of its stream; \<open>Some None\<close> when there is no room\<close>
  "find_slot_cells n_swa swa cont n_tokens c head =
     (let head_cur = (if head > cells_get_used c + 2 * n_tokens then 0 else head) in
      if n_tokens > cells_size c then Some None
      else case slot_search (cell_can_use n_swa swa c) cont (cells_size c) n_tokens head_cur 0 [] of
        None \<Rightarrow> None
      | Some None \<Rightarrow> Some None
      | Some (Some idxs) \<Rightarrow> if length idxs < n_tokens then Some None else Some (Some idxs))"

fun find_slot_go :: "kv_cache \<Rightarrow> llama_ubatch \<Rightarrow> bool \<Rightarrow> nat \<Rightarrow> nat list \<Rightarrow> slot_info \<Rightarrow> slot_info option" where
  \<comment> \<open>the loop over the sequences of the micro-batch\<close>
  "find_slot_go kc ub cont n_tokens [] res = Some res"
| "find_slot_go kc ub cont n_tokens (s # ss) res =
     (let seq_id = ub_seq_id_unq ub ! s in
      if kc_n_stream kc > 1 \<and>
         \<not> (ub_n_seq_id ub ! (s * n_tokens) = 1 \<and> ub_seq_id ub ! (s * n_tokens) ! 0 = seq_id) then None
      else let t = stream_of kc (nat seq_id);
               res = res\<lparr>si_s0 := min (si_s0 res) t, si_s1 := max (si_s1 res) t,
                         si_strm := (si_strm res)[s := t]\<rparr>
        in case find_slot_cells (kc_n_swa kc) (kc_swa_type kc) cont n_tokens (kc_cells kc ! t) (kc_heads kc ! t) of
             None \<Rightarrow> None
           | Some None \<Rightarrow> Some slot_empty
           | Some (Some idxs) \<Rightarrow>
               find_slot_go kc ub cont n_tokens ss (res\<lparr>si_idxs := (si_idxs res)[s := idxs]\<rparr>))"

definition kvc_find_slot :: "kv_cache \<Rightarrow> llama_ubatch \<Rightarrow> bool \<Rightarrow> slot_info option" where
  "kvc_find_slot kc ub cont =
     (if kc_n_stream kc > 1 \<and> ub_n_tokens ub mod ub_n_seqs_unq ub \<noteq> 0 then None
      else let n_seqs = (if kc_n_stream kc > 1 then ub_n_seqs_unq ub else 1);
               n_tokens = (if kc_n_stream kc > 1 then ub_n_tokens ub div n_seqs else ub_n_tokens ub)
        in find_slot_go kc ub cont n_tokens [0..<n_seqs]
             \<lparr>si_s0 = LLAMA_MAX_SEQ, si_s1 = 0, si_strm = replicate n_seqs 0, si_idxs = replicate n_seqs []\<rparr>)"

subsection \<open>Writing a micro-batch into a slot\<close>

definition ubatch_ext :: "kv_cache \<Rightarrow> llama_ubatch \<Rightarrow> nat \<Rightarrow> kv_cell_ext" where
  "ubatch_ext kc ub i =
     (let e = ext_default;
          e = (if is_pos_2d ub then e\<lparr>ext_x := ub_pos ub ! (i + ub_n_tokens ub * 2),
                                      ext_y := ub_pos ub ! (i + ub_n_tokens ub)\<rparr> else e)
      in case ub_token ub of
           Some tok \<Rightarrow> e\<lparr>ext_tok := tok ! i\<rparr>
         | None \<Rightarrow> if kc_ple_n_heads kc > 0
             then e\<lparr>ext_tok := (if kc_ple_image_token_id kc \<noteq> 0 then kc_ple_image_token_id kc
                               else kc_ple_eos_token_id kc)\<rparr>
             else e)"

definition place_token :: "kv_cache \<Rightarrow> llama_ubatch \<Rightarrow> nat \<Rightarrow> nat \<Rightarrow> kv_cells \<times> llama_pos list \<Rightarrow>
    kv_cells \<times> llama_pos list" where
  \<comment> \<open>token \<open>i\<close> goes to cell \<open>idx\<close>; the second component is \<open>seq_pos_max_rm\<close>\<close>
  "place_token kc ub i idx = (\<lambda>(c, rm).
     let (c, rm) = (if \<not> cells_is_empty c idx then
            (let seq_id = nat (cells_seq_get c idx); pos = kv_pos c ! idx
             in (cells_rm idx c, rm[seq_id := max (rm ! seq_id) pos]))
          else (c, rm));
         c = cells_pos_set idx (ub_pos ub ! i) c;
         c = (if is_pos_2d ub \<or> ub_token ub \<noteq> None \<or> kc_ple_n_heads kc > 0
              then cells_ext_set idx (ubatch_ext kc ub i) c else c);
         c = fold (\<lambda>k. cells_seq_add idx (nat (ub_seq_id ub ! i ! k))) [0..<nat (ub_n_seq_id ub ! i)] c
     in (c, rm))"

definition place_stream :: "slot_info \<Rightarrow> nat \<Rightarrow> llama_ubatch \<Rightarrow> nat \<Rightarrow> kv_cache \<times> llama_pos list \<Rightarrow>
    kv_cache \<times> llama_pos list" where
  \<comment> \<open>the tokens of the \<open>s\<close>-th stream of the slot\<close>
  "place_stream si n ub s = (\<lambda>(kc, rm).
     let t = si_strm si ! s;
         (c, rm) = fold (\<lambda>ii. place_token kc ub (s * n + ii) (si_idxs si ! s ! ii)) [0..<n] (kc_cells kc ! t, rm)
     in (kc\<lparr>kc_cells := (kc_cells kc)[t := c]\<rparr>, rm))"

definition purge_seq :: "llama_pos list \<Rightarrow> nat \<Rightarrow> kv_cache option \<Rightarrow> kv_cache option" where
  "purge_seq rm s kc_opt = (case kc_opt of None \<Rightarrow> None | Some kc \<Rightarrow>
     if rm ! s = -1 then Some kc
     else if \<not> s < length (kc_seq_to_stream kc) then None
     else let c = cells_of kc s in
       if cells_seq_pos_min c s \<le> rm ! s
       then map_option fst (kvc_seq_rm (int s) (cells_seq_pos_min c s) (rm ! s + 1) kc)
       else Some kc)"

definition kvc_apply_ubatch :: "slot_info \<Rightarrow> llama_ubatch \<Rightarrow> kv_cache \<Rightarrow> kv_cache option" where
  "kvc_apply_ubatch si ub kc =
     (if kc_other kc then Some kc
      else if slot_n_stream si = 0 then Some kc
      else case slot_size si of None \<Rightarrow> None
      | Some n \<Rightarrow>
        (let (kc, rm) = fold (place_stream si n ub) [0..<slot_n_stream si] (kc, replicate LLAMA_MAX_SEQ (-1))
         in case fold (purge_seq rm) [0..<LLAMA_MAX_SEQ] (Some kc) of
              None \<Rightarrow> None
            | Some kc \<Rightarrow> Some (fold (\<lambda>s kc. kc\<lparr>kc_heads := (kc_heads kc)[si_strm si ! s := last (si_idxs si ! s) + 1]\<rparr>)
                [0..<slot_n_stream si] kc)))"

subsection \<open>Preparing a list of micro-batches\<close>

record prep_state =
  ps_sinfo :: slot_info
  ps_heads_old :: "nat list"
  ps_cells :: "kv_cells list"

fun prepare_go :: "llama_ubatch list \<Rightarrow> kv_cache \<Rightarrow> slot_info list \<Rightarrow> prep_state list \<Rightarrow>
    (kv_cache \<times> slot_info list \<times> prep_state list \<times> bool) option" where
  \<comment> \<open>\<open>states\<close> is the recovery stack, its top first\<close>
  "prepare_go [] kc res states = Some (kc, res, states, True)"
| "prepare_go (ub # ubs) kc res states =
     (case kvc_find_slot kc ub False of None \<Rightarrow> None
      | Some si \<Rightarrow>
          if slot_is_empty si then Some (kc, res, states, False)
          else let st = \<lparr>ps_sinfo = si, ps_heads_old = kc_heads kc,
                 ps_cells = map (\<lambda>s. cells_cp_idxs (kc_cells kc ! (si_strm si ! s)) (si_idxs si ! s)) [0..<slot_n_stream si]\<rparr>
            in case kvc_apply_ubatch si ub kc of None \<Rightarrow> None
               | Some kc \<Rightarrow> prepare_go ubs kc (res @ [si]) (st # states))"

definition restore_stream :: "prep_state \<Rightarrow> nat \<Rightarrow> kv_cache \<Rightarrow> kv_cache" where
  "restore_stream st s kc =
     (let t = si_strm (ps_sinfo st) ! s in
      kc\<lparr>kc_cells := (kc_cells kc)[t := cells_set_idxs (si_idxs (ps_sinfo st) ! s) (ps_cells st ! s) (kc_cells kc ! t)],
         kc_heads := (kc_heads kc)[t := ps_heads_old st ! s]\<rparr>)"

definition restore_state :: "prep_state \<Rightarrow> kv_cache \<Rightarrow> kv_cache" where
  "restore_state st kc = fold (restore_stream st) [0..<slot_n_stream (ps_sinfo st)] kc"

definition kvc_prepare :: "llama_ubatch list \<Rightarrow> kv_cache \<Rightarrow> (kv_cache \<times> slot_info list) option" where
  "kvc_prepare ubs kc =
     (case prepare_go ubs kc [] [] of None \<Rightarrow> None
      | Some (kc, res, states, success) \<Rightarrow>
          if states = [] \<and> success then None
          else Some (fold restore_state states kc, if success then res else []))"

subsection \<open>Indices handed to the graph\<close>

definition set_input_k_idxs :: "kv_cache \<Rightarrow> llama_ubatch \<Rightarrow> slot_info \<Rightarrow> nat list \<Rightarrow> nat list option" where
  \<comment> \<open>the last argument is the tensor's data\<close>
  "set_input_k_idxs kc ub si data = (case slot_size si of None \<Rightarrow> None | Some n \<Rightarrow>
     if ub_n_tokens ub \<noteq> n * slot_n_stream si then None
     else Some (fold (\<lambda>s data. let offs = si_strm si ! s * kvc_get_size kc in
            fold (\<lambda>i data. data[s * n + i := offs + si_idxs si ! s ! i]) [0..<n] data)
          [0..<slot_n_stream si] data))"

definition set_input_v_idxs :: "bool \<Rightarrow> nat \<Rightarrow> kv_cache \<Rightarrow> llama_ubatch \<Rightarrow> slot_info \<Rightarrow> nat list \<Rightarrow> nat list option" where
  \<comment> \<open>\<open>v_trans\<close>: the V cache is transposed; \<open>n_embd\<close> is \<open>n_embd_v_gqa_max\<close>\<close>
  "set_input_v_idxs v_trans n_embd kc ub si data = (case slot_size si of None \<Rightarrow> None | Some n \<Rightarrow>
     if ub_n_tokens ub \<noteq> n * slot_n_stream si then None
     else if \<not> v_trans then
       Some (fold (\<lambda>s data. let offs = si_strm si ! s * kvc_get_size kc in
            fold (\<lambda>i data. data[s * n + i := offs + si_idxs si ! s ! i]) [0..<n] data)
          [0..<slot_n_stream si] data)
     else let kv_size = kvc_get_size kc in
       Some (fold (\<lambda>s data. let offs = si_strm si ! s * kv_size * n_embd in
            fold (\<lambda>i data. fold (\<lambda>j data.
                data[s * n * n_embd + i * n_embd + j := offs + j * kv_size + si_idxs si ! s ! i])
              [0..<n_embd] data) [0..<n] data)
          [0..<slot_n_stream si] data))"

definition set_input_k_shift :: "kv_cache \<Rightarrow> int list \<Rightarrow> int list" where
  "set_input_k_shift kc data =
     fold (\<lambda>s data. let c = kc_cells kc ! s in
         fold (\<lambda>i data. data[s * cells_size c + i := (if cells_is_empty c i then 0 else kv_shift c ! i)])
           [0..<cells_size c] data)
       [0..<kc_n_stream kc] data"

subsection \<open>What the search returns\<close>

text \<open>
  The order in which a search that starts at \<open>h\<close> visits the \<open>N\<close> cells of the ring.
\<close>

definition ring_from :: "nat \<Rightarrow> nat \<Rightarrow> nat list" where
  "ring_from N h = [h..<N] @ [0..<h]"

lemma set_ring_from: "h \<le> N \<Longrightarrow> set (ring_from N h) = {..<N}" "distinct (ring_from N h)"
  by (auto simp: ring_from_def)

lemma slot_test_single: "slot_test use False 1 h t xs = (h + 1, t + 1, if use h then xs @ [h] else xs)"
  by (simp add: numeral_eq_Suc)

lemma slot_test_cont:
  "(\<exists>j. h \<le> j \<and> j < h + n \<and> \<not> use j \<and> slot_test use True n h t xs = (j + 1, t + (j + 1 - h), xs @ [h..<j])) \<or>
   ((\<forall>k < n. use (h + k)) \<and> slot_test use True n h t xs = (h + n, t + n, xs @ [h..<h + n]))"
proof (induction n arbitrary: h t xs)
  case (Suc n)
  show ?case
  proof (cases "use h")
    case True
    consider (fail) j where "Suc h \<le> j" "j < Suc h + n" "\<not> use j"
        "slot_test use True n (Suc h) (Suc t) (xs @ [h]) = (j + 1, Suc t + (j + 1 - Suc h), (xs @ [h]) @ [Suc h..<j])"
      | (ok) "\<forall>k < n. use (Suc h + k)"
        "slot_test use True n (Suc h) (Suc t) (xs @ [h]) = (Suc h + n, Suc t + n, (xs @ [h]) @ [Suc h..<Suc h + n])"
      using Suc [of "Suc h" "Suc t" "xs @ [h]"] by blast
    then show ?thesis
    proof cases
      case fail
      then have "[h..<j] = h # [Suc h..<j]" by (simp add: upt_conv_Cons)
      with fail True show ?thesis by (intro disjI1 exI [of _ j]) auto
    next
      case ok
      have "[h..<Suc (h + n)] = h # [Suc h..<Suc (h + n)]" by (rule upt_conv_Cons) simp
      moreover have "\<forall>k < Suc n. use (h + k)"
        using ok(1) True by (auto simp: less_Suc_eq_0_disj)
      ultimately show ?thesis using ok(2) True by (intro disjI2) (simp del: upt_Suc)
    qed
  qed auto
qed simp

lemma slot_search_step:
  "h + (if cont then n else 1) \<le> N \<Longrightarrow> slot_search use cont N n h t xs =
     (case slot_test use cont (if cont then n else 1) h t xs of (h, t, xs) \<Rightarrow>
        if length xs = n then Some (Some xs)
        else if t \<ge> N then Some None else slot_search use cont N n h t (if cont then [] else xs))"
  by (subst slot_search.simps) (auto simp: Let_def split: prod.split)

lemma slot_search_step_single:
  "h < N \<Longrightarrow> slot_search use False N n h t xs =
     (let ys = (if use h then xs @ [h] else xs) in
      if length ys = n then Some (Some ys) else if N \<le> Suc t then Some None
      else slot_search use False N n (Suc h) (Suc t) ys)"
  using slot_search_step [of h False n N use t xs] by (simp add: Let_def numeral_eq_Suc)

lemma slot_search_step_cont:
  "h + n \<le> N \<Longrightarrow> slot_search use True N n h t [] =
     (case slot_test use True n h t [] of (h, t, xs) \<Rightarrow>
        if length xs = n then Some (Some xs)
        else if t \<ge> N then Some None else slot_search use True N n h t [])"
  by (subst slot_search.simps) (auto simp: Let_def split: prod.split)

lemma slot_search_wrap:
  "N < h + (if cont then n else 1) \<Longrightarrow> slot_search use cont N n h t xs =
     slot_search use cont N n 0 (t + (N - h)) xs"
  by (subst slot_search.simps) (simp add: Let_def)

subsubsection \<open>Scattered slots\<close>

definition first_n :: "nat \<Rightarrow> nat list \<Rightarrow> nat list option" where
  "first_n n xs = (if n \<le> length xs then Some (take n xs) else None)"

lemma search_single_phase:
  assumes "h < e" "e \<le> N" "t + (e - h) = N" "length xs < n"
  shows "slot_search use False N n h t xs = Some (first_n n (xs @ filter use [h..<e]))"
  using assms
proof (induction "e - h" arbitrary: h t xs)
  case (Suc d)
  have upt: "[h..<e] = h # [Suc h..<e]" using Suc by (simp add: upt_conv_Cons)
  note step = slot_search_step_single [of h N use n t xs]
  have hN: "h < N" using Suc(3,4) by linarith
  let ?ys = "if use h then xs @ [h] else xs"
  show ?case
  proof (cases "length ?ys = n")
    case True
    then show ?thesis using Suc(6) by (auto simp: step [OF hN] Let_def upt first_n_def split: if_splits)
  next
    case False
    then have l: "length ?ys < n" using Suc(6) by (auto split: if_splits)
    show ?thesis
    proof (cases "Suc h < e")
      case True
      have "slot_search use False N n (Suc h) (Suc t) ?ys = Some (first_n n (?ys @ filter use [Suc h..<e]))"
        using Suc(2-5) True l by (intro Suc(1)) simp_all
      moreover have "\<not> Suc t \<ge> N" using Suc(3-5) True by linarith
      ultimately show ?thesis using False by (simp add: step [OF hN] Let_def upt)
    next
      case False
      then have "Suc t \<ge> N" "[Suc h..<e] = []" using Suc(3-5) by simp_all
      then show ?thesis using l \<open>length ?ys \<noteq> n\<close> by (auto simp: step [OF hN] Let_def upt first_n_def)
    qed
  qed
qed simp

lemma search_single_first:
  assumes "h \<le> N" "0 < h0" "h0 \<le> h" "t = h - h0" "length xs < n"
  shows "slot_search use False N n h t xs = Some (first_n n (xs @ filter use ([h..<N] @ [0..<h0])))"
  using assms
proof (induction "N - h" arbitrary: h t xs)
  case 0
  then show ?case
    using slot_search_wrap [of N h False n use t xs] search_single_phase [of 0 h0 N "N - h0" xs n use] by simp
next
  case (Suc d)
  have upt: "[h..<N] = h # [Suc h..<N]" using Suc by (simp add: upt_conv_Cons)
  let ?ys = "if use h then xs @ [h] else xs"
  have "h < N" "\<not> N \<le> Suc t" using Suc(2-6) by linarith+
  then have step: "slot_search use False N n h t xs = (if length ?ys = n then Some (Some ?ys)
      else slot_search use False N n (Suc h) (Suc t) ?ys)"
    using slot_search_step_single [of h N use n t xs] by (simp add: Let_def)
  show ?case
  proof (cases "length ?ys = n")
    case True
    then show ?thesis using Suc(7) by (auto simp: step upt first_n_def split: if_splits)
  next
    case False
    then have l: "length ?ys < n" using Suc(7) by (auto split: if_splits)
    have "slot_search use False N n (Suc h) (Suc t) ?ys = Some (first_n n (?ys @ filter use ([Suc h..<N] @ [0..<h0])))"
      using Suc(2-6) l by (intro Suc(1)) auto
    then show ?thesis using False by (simp add: step upt)
  qed
qed

lemma slot_search_scattered:
  assumes "h \<le> N" "0 < n" "n \<le> N"
  shows "slot_search use False N n h 0 [] = Some (first_n n (filter use (ring_from N h)))"
proof (cases "h = 0")
  case True
  then show ?thesis
    using search_single_phase [of 0 N N 0 "[]" n use] assms by (simp add: ring_from_def)
next
  case False
  then show ?thesis
    using search_single_first [of h N h 0 "[]" n use] assms by (simp add: ring_from_def)
qed

subsubsection \<open>Contiguous slots\<close>

definition window_ok :: "(nat \<Rightarrow> bool) \<Rightarrow> nat \<Rightarrow> nat \<Rightarrow> nat \<Rightarrow> bool" where
  "window_ok use N n i \<longleftrightarrow> i + n \<le> N \<and> (\<forall>k < n. use (i + k))"

definition first_window :: "(nat \<Rightarrow> bool) \<Rightarrow> nat \<Rightarrow> nat \<Rightarrow> nat list \<Rightarrow> nat list option" where
  "first_window use N n is = map_option (\<lambda>i. [i..<i + n]) (find (window_ok use N n) is)"

lemma first_window_simps [simp]:
  "first_window use N n [] = None"
  "first_window use N n (i # is) = (if window_ok use N n i then Some [i..<i + n] else first_window use N n is)"
  by (simp_all add: first_window_def)

lemma first_window_skip:
  "(\<And>i. i \<in> set is \<Longrightarrow> \<not> window_ok use N n i) \<Longrightarrow> first_window use N n (is @ js) = first_window use N n js"
  by (induction "is") auto

lemma window_blocked: "\<not> use j \<Longrightarrow> i \<le> j \<Longrightarrow> j < i + n \<Longrightarrow> \<not> window_ok use N n i"
  unfolding window_ok_def by (metis le_add_diff_inverse nat_add_left_cancel_less)

lemma first_window_blocked:
  assumes "\<not> use j" "h \<le> j" "j < h + n" "j < e"
  shows "first_window use N n ([h..<e] @ js) = first_window use N n ([Suc j..<e] @ js)"
proof -
  have "[h..<e] = [h..<Suc j] @ [Suc j..<e]"
    using upt_add_eq_append [of h "Suc j" "e - Suc j"] assms by simp
  moreover have "first_window use N n ([h..<Suc j] @ [Suc j..<e] @ js) = first_window use N n ([Suc j..<e] @ js)"
    by (rule first_window_skip) (use window_blocked [of use j] assms(1-3) in auto)
  ultimately show ?thesis by (simp only: append_assoc)
qed

lemma search_cont_step:
  assumes "h + n \<le> N" "0 < n"
  obtains "window_ok use N n h" "slot_search use True N n h t [] = Some (Some [h..<h + n])"
  | j where "h \<le> j" "j < h + n" "\<not> use j" "slot_search use True N n h t [] =
      (if t + (j + 1 - h) \<ge> N then Some None else slot_search use True N n (j + 1) (t + (j + 1 - h)) [])"
proof -
  note s = slot_search_step_cont [OF assms(1), of use t]
  consider j where "h \<le> j" "j < h + n" "\<not> use j" "slot_test use True n h t [] = (j + 1, t + (j + 1 - h), [h..<j])"
    | "\<forall>k < n. use (h + k)" "slot_test use True n h t [] = (h + n, t + n, [h..<h + n])"
    using slot_test_cont [of h n use t "[]"] by auto
  then show thesis
  proof cases
    case (1 j)
    then have "j - h \<noteq> n" by simp
    with 1 show thesis using s by (intro that(2) [of j]) simp_all
  next
    case 2
    then show thesis using s assms by (intro that(1)) (simp_all add: window_ok_def)
  qed
qed

lemma search_cont_retest:
  assumes "\<not> window_ok use N n 0" "0 < n" "n \<le> N" "N \<le> t"
  shows "slot_search use True N n 0 t [] = Some None"
  by (rule search_cont_step [of 0 n N use t]) (use assms in auto)

lemma search_cont_second:
  assumes "h < h0" "h0 \<le> N" "t + (h0 - h) = N" "0 < n" "n \<le> N" "h = 0 \<or> \<not> window_ok use N n 0"
  shows "slot_search use True N n h t [] = Some (first_window use N n [h..<h0])"
  using assms
proof (induction "h0 - h" arbitrary: h t rule: less_induct)
  case less
  show ?case
  proof (cases "h + n \<le> N")
    case False
    then have "first_window use N n ([h..<h0] @ []) = first_window use N n []"
      by (intro first_window_skip) (auto simp: window_ok_def)
    moreover have "h \<noteq> 0" using False less(6) by auto
    ultimately show ?thesis
      using less(2-7) False slot_search_wrap [of N h True n use t "[]"] search_cont_retest [of use N n "t + (N - h)"]
      by simp
  next
    case True
    then show ?thesis
    proof (rule search_cont_step [OF _ less(5), of h N use t])
      assume w: "window_ok use N n h" "slot_search use True N n h t [] = Some (Some [h..<h + n])"
      then show ?thesis using less(2) by (simp add: upt_conv_Cons)
    next
      fix j assume j: "h \<le> j" "j < h + n" "\<not> use j"
        and eq: "slot_search use True N n h t [] =
          (if t + (j + 1 - h) \<ge> N then Some None else slot_search use True N n (j + 1) (t + (j + 1 - h)) [])"
      have blocked: "\<not> window_ok use N n i" if "h \<le> i" "i \<le> j" for i
        using window_blocked [of use j i n N] j that by simp
      show ?thesis
      proof (cases "j + 1 < h0")
        case True
        have "first_window use N n [h..<h0] = first_window use N n [Suc j..<h0]"
          using first_window_blocked [of use j h n h0 N "[]"] j True by simp
        moreover have "h = 0 \<longrightarrow> \<not> window_ok use N n 0" using blocked by auto
        ultimately show ?thesis
          using less(1) [of "j + 1" "t + (j + 1 - h)"] less(2-7) j True by (auto simp: eq)
      next
        case False
        then have "first_window use N n ([h..<h0] @ []) = first_window use N n []"
          using blocked by (intro first_window_skip) auto
        moreover have "N \<le> t + (j + 1 - h)" using False less(2,4) j(1) by linarith
        ultimately show ?thesis by (simp add: eq)
      qed
    qed
  qed
qed

lemma search_cont_first:
  assumes "h0 \<le> h" "h \<le> N" "0 < h0" "t = h - h0" "0 < n" "n \<le> N"
  shows "slot_search use True N n h t [] = Some (first_window use N n ([h..<N] @ [0..<h0]))"
  using assms
proof (induction "N - h" arbitrary: h t rule: less_induct)
  case less
  show ?case
  proof (cases "h + n \<le> N")
    case False
    then have "first_window use N n ([h..<N] @ [0..<h0]) = first_window use N n [0..<h0]"
      by (intro first_window_skip) (auto simp: window_ok_def)
    then show ?thesis
      using less(2-7) False slot_search_wrap [of N h True n use t "[]"]
        search_cont_second [of 0 h0 N "t + (N - h)" n use] by simp
  next
    case True
    then show ?thesis
    proof (rule search_cont_step [OF _ less(6), of h N use t])
      assume w: "window_ok use N n h" "slot_search use True N n h t [] = Some (Some [h..<h + n])"
      then show ?thesis using True less(6) by (simp add: upt_conv_Cons)
    next
      fix j assume j: "h \<le> j" "j < h + n" "\<not> use j"
        and eq: "slot_search use True N n h t [] =
          (if t + (j + 1 - h) \<ge> N then Some None else slot_search use True N n (j + 1) (t + (j + 1 - h)) [])"
      have "first_window use N n ([h..<N] @ [0..<h0]) = first_window use N n ([Suc j..<N] @ [0..<h0])"
        using j True by (intro first_window_blocked) simp_all
      moreover have "t + (j + 1 - h) = Suc j - h0" "\<not> N \<le> Suc j - h0"
        using less(2-7) j True by linarith+
      moreover have "slot_search use True N n (j + 1) (Suc j - h0) [] = Some (first_window use N n ([j + 1..<N] @ [0..<h0]))"
        using less(2-7) j True by (intro less(1)) simp_all
      ultimately show ?thesis by (simp only: eq) simp
    qed
  qed
qed

lemma slot_search_contiguous:
  assumes "h \<le> N" "0 < n" "n \<le> N"
  shows "slot_search use True N n h 0 [] = Some (first_window use N n (ring_from N h))"
proof (cases "h = 0")
  case True
  then show ?thesis using search_cont_second [of 0 N N 0 n use] assms by (simp add: ring_from_def)
next
  case False
  then show ?thesis using search_cont_first [of h h N 0 n use] assms by (simp add: ring_from_def)
qed

subsection \<open>The slot that is found\<close>

definition search_start :: "kv_cells \<Rightarrow> nat \<Rightarrow> nat \<Rightarrow> nat" where
  "search_start c n head = (if head > cells_get_used c + 2 * n then 0 else head)"

definition slot_choice :: "nat \<Rightarrow> swa_type \<Rightarrow> bool \<Rightarrow> nat \<Rightarrow> kv_cells \<Rightarrow> nat \<Rightarrow> nat list option" where
  \<comment> \<open>specification of the search: the first \<open>n\<close> usable cells of the ring, or the first window\<close>
  "slot_choice n_swa swa cont n c head =
     (let ring = ring_from (cells_size c) (search_start c n head); use = cell_can_use n_swa swa c in
      if cells_size c < n then None
      else if cont then first_window use (cells_size c) n ring else first_n n (filter use ring))"

lemma first_window_len: "first_window use N n is = Some xs \<Longrightarrow> length xs = n"
  by (auto simp: first_window_def)

lemma first_n_len: "first_n n ys = Some xs \<Longrightarrow> length xs = n"
  by (auto simp: first_n_def split: if_splits)

lemma find_slot_cells_eq:
  assumes "head \<le> cells_size c" "0 < n"
  shows "find_slot_cells n_swa swa cont n c head = Some (slot_choice n_swa swa cont n c head)"
proof -
  have "search_start c n head \<le> cells_size c" using assms(1) by (simp add: search_start_def)
  then show ?thesis
    using assms slot_search_contiguous [of "search_start c n head" "cells_size c" n "cell_can_use n_swa swa c"]
      slot_search_scattered [of "search_start c n head" "cells_size c" n "cell_can_use n_swa swa c"]
    by (cases cont) (auto simp: find_slot_cells_def slot_choice_def search_start_def Let_def
        dest: first_window_len first_n_len split: option.split)
qed

lemma first_n_some:
  "first_n n (filter use (ring_from N h)) = Some xs \<Longrightarrow> h \<le> N \<Longrightarrow>
     length xs = n \<and> distinct xs \<and> (\<forall>i \<in> set xs. i < N \<and> use i)"
  using set_ring_from(1) [of h N] set_ring_from(2) [of N h] set_take_subset [of n "filter use (ring_from N h)"]
  by (auto simp: first_n_def intro!: distinct_take split: if_splits)

lemma first_window_some:
  "first_window use N n is = Some xs \<Longrightarrow>
     \<exists>i. xs = [i..<i + n] \<and> i + n \<le> N \<and> (\<forall>k < n. use (i + k))"
  by (auto simp: first_window_def window_ok_def find_Some_iff)

lemma slot_choice_some:
  assumes "slot_choice n_swa swa cont n c head = Some xs" "head \<le> cells_size c"
  shows "length xs = n" "distinct xs" "\<And>i. i \<in> set xs \<Longrightarrow> i < cells_size c \<and> cell_can_use n_swa swa c i"
    "cont \<Longrightarrow> \<exists>i. xs = [i..<i + n]"
proof -
  have s: "search_start c n head \<le> cells_size c" using assms(2) by (simp add: search_start_def)
  have "length xs = n \<and> distinct xs \<and> (\<forall>i \<in> set xs. i < cells_size c \<and> cell_can_use n_swa swa c i) \<and>
      (cont \<longrightarrow> (\<exists>i. xs = [i..<i + n]))"
  proof (cases cont)
    case True
    then obtain i where "xs = [i..<i + n]" "i + n \<le> cells_size c"
        "\<forall>k < n. cell_can_use n_swa swa c (i + k)"
      using assms(1) first_window_some by (fastforce simp: slot_choice_def Let_def split: if_splits)
    then show ?thesis by (auto simp: nat_le_iff_add)
  next
    case False
    then show ?thesis
      using assms(1) first_n_some [OF _ s] by (auto simp: slot_choice_def Let_def split: if_splits)
  qed
  then show "length xs = n" "distinct xs" "\<And>i. i \<in> set xs \<Longrightarrow> i < cells_size c \<and> cell_can_use n_swa swa c i"
    "cont \<Longrightarrow> \<exists>i. xs = [i..<i + n]" by auto
qed

lemma slot_choice_none:
  assumes "slot_choice n_swa swa False n c head = None" "head \<le> cells_size c"
  shows "card {i. i < cells_size c \<and> cell_can_use n_swa swa c i} < n"
proof -
  let ?use = "cell_can_use n_swa swa c" and ?h = "search_start c n head"
  have h: "?h \<le> cells_size c" using assms(2) by (simp add: search_start_def)
  have "{i. i < cells_size c \<and> ?use i} = set (filter ?use (ring_from (cells_size c) ?h))"
    using set_ring_from(1) [OF h] by auto
  then have "card {i. i < cells_size c \<and> ?use i} = length (filter ?use (ring_from (cells_size c) ?h))"
    using distinct_card [OF distinct_filter [OF set_ring_from(2)]] by simp
  moreover have "card {i. i < cells_size c \<and> ?use i} \<le> cells_size c"
    using card_mono [of "{..<cells_size c}" "{i. i < cells_size c \<and> ?use i}"] by auto
  ultimately show ?thesis
    using assms(1) by (auto simp: slot_choice_def Let_def first_n_def split: if_splits)
qed

subsection \<open>Well-formed micro-batches\<close>

definition ub_n_slots :: "kv_cache \<Rightarrow> llama_ubatch \<Rightarrow> nat" where
  "ub_n_slots kc ub = (if kc_n_stream kc > 1 then ub_n_seqs_unq ub else 1)"

definition ub_per_slot :: "kv_cache \<Rightarrow> llama_ubatch \<Rightarrow> nat" where
  "ub_per_slot kc ub = (if kc_n_stream kc > 1 then ub_n_tokens ub div ub_n_seqs_unq ub else ub_n_tokens ub)"

definition ub_seqs :: "llama_ubatch \<Rightarrow> nat \<Rightarrow> nat set" where
  "ub_seqs ub i = nat ` set (ub_seq_id ub ! i)"

definition ub_ok :: "kv_cache \<Rightarrow> llama_ubatch \<Rightarrow> bool" where
  \<comment> \<open>what the batch splitter hands to the cache: tokens with positions and sequences the cache
     knows; with several streams, as many tokens for each sequence, one sequence per stream\<close>
  "ub_ok kc ub \<longleftrightarrow> 0 < ub_n_tokens ub \<and> 0 < ub_n_seqs_unq ub \<and>
     (\<forall>s < ub_n_seqs_unq ub. seq_ok kc (ub_seq_id_unq ub ! s)) \<and>
     (\<forall>i < ub_n_tokens ub. 0 \<le> ub_pos ub ! i \<and> ub_seq_id ub ! i \<noteq> [] \<and>
        ub_n_seq_id ub ! i = int (length (ub_seq_id ub ! i)) \<and> (\<forall>q \<in> set (ub_seq_id ub ! i). seq_ok kc q)) \<and>
     (kc_n_stream kc > 1 \<longrightarrow> ub_n_seqs_unq ub dvd ub_n_tokens ub \<and>
        (\<forall>s < ub_n_seqs_unq ub. \<forall>s' < ub_n_seqs_unq ub.
           stream_of kc (nat (ub_seq_id_unq ub ! s)) = stream_of kc (nat (ub_seq_id_unq ub ! s')) \<longrightarrow> s = s') \<and>
        (\<forall>i < ub_n_tokens ub. ub_seq_id ub ! i = [ub_seq_id_unq ub ! (i div ub_per_slot kc ub)]))"

lemma ub_okD:
  assumes "ub_ok kc ub"
  shows "0 < ub_n_tokens ub" "0 < ub_n_seqs_unq ub"
    "\<And>s. s < ub_n_seqs_unq ub \<Longrightarrow> seq_ok kc (ub_seq_id_unq ub ! s)"
    "\<And>i. i < ub_n_tokens ub \<Longrightarrow> 0 \<le> ub_pos ub ! i \<and> ub_seq_id ub ! i \<noteq> []"
    "\<And>i. i < ub_n_tokens ub \<Longrightarrow> ub_n_seq_id ub ! i = int (length (ub_seq_id ub ! i))"
    "\<And>i q. i < ub_n_tokens ub \<Longrightarrow> q \<in> set (ub_seq_id ub ! i) \<Longrightarrow> seq_ok kc q"
    "kc_n_stream kc > 1 \<Longrightarrow> ub_n_seqs_unq ub dvd ub_n_tokens ub"
    "\<And>s s'. kc_n_stream kc > 1 \<Longrightarrow> s < ub_n_seqs_unq ub \<Longrightarrow> s' < ub_n_seqs_unq ub \<Longrightarrow>
       stream_of kc (nat (ub_seq_id_unq ub ! s)) = stream_of kc (nat (ub_seq_id_unq ub ! s')) \<Longrightarrow> s = s'"
    "\<And>i. kc_n_stream kc > 1 \<Longrightarrow> i < ub_n_tokens ub \<Longrightarrow>
       ub_seq_id ub ! i = [ub_seq_id_unq ub ! (i div ub_per_slot kc ub)]"
  using assms unfolding ub_ok_def by blast+

lemma ub_slots_mult:
  assumes "ub_ok kc ub"
  shows "ub_n_slots kc ub * ub_per_slot kc ub = ub_n_tokens ub" "0 < ub_per_slot kc ub" "0 < ub_n_slots kc ub"
  using ub_okD(1,2,7) [OF assms] by (auto simp: ub_n_slots_def ub_per_slot_def div_greater_zero_iff dest: dvd_imp_le)

definition ub_stream :: "kv_cache \<Rightarrow> llama_ubatch \<Rightarrow> nat \<Rightarrow> nat" where
  "ub_stream kc ub s = stream_of kc (nat (ub_seq_id_unq ub ! s))"

lemma ub_token_index:
  assumes "ub_ok kc ub" "s < ub_n_slots kc ub" "ii < ub_per_slot kc ub"
  shows "s * ub_per_slot kc ub + ii < ub_n_tokens ub" "(s * ub_per_slot kc ub + ii) div ub_per_slot kc ub = s"
proof -
  have "s * ub_per_slot kc ub + ii < Suc s * ub_per_slot kc ub" using assms(3) by simp
  also have "\<dots> \<le> ub_n_slots kc ub * ub_per_slot kc ub" using assms(2) by (intro mult_le_mono1) simp
  finally show "s * ub_per_slot kc ub + ii < ub_n_tokens ub" by (simp add: ub_slots_mult [OF assms(1)])
  show "(s * ub_per_slot kc ub + ii) div ub_per_slot kc ub = s" using assms(3) by simp
qed

lemma ub_stream_lt:
  assumes "kvc_wf kc" "ub_ok kc ub" "s < ub_n_slots kc ub"
  shows "ub_stream kc ub s < kc_n_stream kc" "s < ub_n_seqs_unq ub"
proof -
  show s: "s < ub_n_seqs_unq ub" using assms(3) ub_okD(2) [OF assms(2)] by (simp add: ub_n_slots_def split: if_splits)
  then have "seq_ok kc (ub_seq_id_unq ub ! s)" by (rule ub_okD(3) [OF assms(2)])
  then show "ub_stream kc ub s < kc_n_stream kc"
    unfolding ub_stream_def by (intro kvc_wfD(6) [OF assms(1)]) (auto simp: seq_ok_def)
qed

lemma ub_stream_inj:
  assumes "ub_ok kc ub" "s < ub_n_slots kc ub" "s' < ub_n_slots kc ub" "ub_stream kc ub s = ub_stream kc ub s'"
  shows "s = s'"
  using assms ub_okD(8) [OF assms(1), of s s'] by (auto simp: ub_n_slots_def ub_stream_def split: if_splits)

lemma ub_token_stream:
  \<comment> \<open>the sequences of a token live in the stream its slot is in\<close>
  assumes "kvc_wf kc" "ub_ok kc ub" "s < ub_n_slots kc ub" "ii < ub_per_slot kc ub"
    and "q \<in> ub_seqs ub (s * ub_per_slot kc ub + ii)"
  shows "q < length (kc_seq_to_stream kc)" "stream_of kc q = ub_stream kc ub s"
proof -
  let ?i = "s * ub_per_slot kc ub + ii"
  note i = ub_token_index [OF assms(2-4)]
  obtain q' where q': "q' \<in> set (ub_seq_id ub ! ?i)" "q = nat q'" using assms(5) by (auto simp: ub_seqs_def)
  have "seq_ok kc q'" using ub_okD(6) [OF assms(2) i(1) q'(1)] .
  then show l: "q < length (kc_seq_to_stream kc)" by (simp add: seq_ok_def q'(2))
  show "stream_of kc q = ub_stream kc ub s"
  proof (cases "kc_n_stream kc > 1")
    case True
    then show ?thesis using q' ub_okD(9) [OF assms(2) True i(1)] i(2) by (simp add: ub_stream_def)
  next
    case False
    then have "kc_n_stream kc = 1" using kvc_wfD(1) [OF assms(1)] by simp
    then show ?thesis using kvc_wfD(6) [OF assms(1) l] ub_stream_lt(1) [OF assms(1-3)] by simp
  qed
qed

definition seq_choice :: "kv_cache \<Rightarrow> llama_ubatch \<Rightarrow> bool \<Rightarrow> nat \<Rightarrow> nat list option" where
  \<comment> \<open>the cells for the tokens of the \<open>s\<close>-th sequence of the micro-batch\<close>
  "seq_choice kc ub cont s = slot_choice (kc_n_swa kc) (kc_swa_type kc) cont (ub_per_slot kc ub)
     (kc_cells kc ! ub_stream kc ub s) (kc_heads kc ! ub_stream kc ub s)"

definition go_post :: "kv_cache \<Rightarrow> llama_ubatch \<Rightarrow> bool \<Rightarrow> slot_info \<Rightarrow> bool" where
  "go_post kc ub cont si' \<longleftrightarrow> ((\<exists>s < ub_n_slots kc ub. seq_choice kc ub cont s = None) \<and> si' = slot_empty) \<or>
     (length (si_strm si') = ub_n_slots kc ub \<and> length (si_idxs si') = ub_n_slots kc ub \<and>
      (\<forall>s < ub_n_slots kc ub. si_strm si' ! s = ub_stream kc ub s \<and> seq_choice kc ub cont s = Some (si_idxs si' ! s)))"

lemma find_slot_go_eq:
  assumes "kvc_wf kc" "ub_ok kc ub" "k \<le> ub_n_slots kc ub"
    and "length (si_strm si) = ub_n_slots kc ub" "length (si_idxs si) = ub_n_slots kc ub"
    and "\<And>s. s < k \<Longrightarrow> si_strm si ! s = ub_stream kc ub s \<and> seq_choice kc ub cont s = Some (si_idxs si ! s)"
  shows "\<exists>si'. find_slot_go kc ub cont (ub_per_slot kc ub) [k..<ub_n_slots kc ub] si = Some si' \<and>
    go_post kc ub cont si'"
  using assms(3-6)
proof (induction "ub_n_slots kc ub - k" arbitrary: k si)
  case 0
  then have "[k..<ub_n_slots kc ub] = []" "\<And>s. s < ub_n_slots kc ub \<Longrightarrow> seq_choice kc ub cont s \<noteq> None" by auto
  with 0 show ?case by (auto simp: go_post_def)
next
  case (Suc d)
  let ?n = "ub_per_slot kc ub" and ?t = "ub_stream kc ub k" and ?N = "ub_n_slots kc ub"
  have k: "k < ?N" using Suc(2) by linarith
  note t = ub_stream_lt [OF assms(1,2) k]
  have no_abort: "kc_n_stream kc > 1 \<Longrightarrow> ub_n_seq_id ub ! (k * ?n) = 1 \<and> ub_seq_id ub ! (k * ?n) ! 0 = ub_seq_id_unq ub ! k"
    using ub_token_index [OF assms(2) k, of 0] ub_slots_mult(2) [OF assms(2)]
      ub_okD(5) [OF assms(2), of "k * ?n"] ub_okD(9) [OF assms(2), of "k * ?n"] by simp
  have cells: "find_slot_cells (kc_n_swa kc) (kc_swa_type kc) cont ?n (kc_cells kc ! ?t) (kc_heads kc ! ?t)
      = Some (seq_choice kc ub cont k)"
    unfolding seq_choice_def
    by (rule find_slot_cells_eq) (use kvc_wfD(8,9) [OF assms(1) t(1)] ub_slots_mult(2) [OF assms(2)] in auto)
  let ?si = "si\<lparr>si_s0 := min (si_s0 si) ?t, si_s1 := max (si_s1 si) ?t, si_strm := (si_strm si)[k := ?t]\<rparr>"
  have step: "find_slot_go kc ub cont ?n [k..<?N] si = (case seq_choice kc ub cont k of None \<Rightarrow> Some slot_empty
      | Some idxs \<Rightarrow> find_slot_go kc ub cont ?n [Suc k..<?N] (?si\<lparr>si_idxs := (si_idxs ?si)[k := idxs]\<rparr>))"
    using k no_abort cells by (auto simp: upt_conv_Cons Let_def ub_stream_def [symmetric] split: option.split)
  show ?case
  proof (cases "seq_choice kc ub cont k")
    case None
    then show ?thesis using k step by (auto simp: go_post_def)
  next
    case (Some idxs)
    let ?sj = "?si\<lparr>si_idxs := (si_idxs ?si)[k := idxs]\<rparr>"
    have "s < Suc k \<Longrightarrow> si_strm ?sj ! s = ub_stream kc ub s \<and> seq_choice kc ub cont s = Some (si_idxs ?sj ! s)" for s
      using Suc(4-6) k Some by (cases "s = k") auto
    then show ?thesis
      using Suc(1) [of "Suc k" ?sj] Suc(2,4,5) k step Some by simp
  qed
qed

definition slot_ok :: "kv_cache \<Rightarrow> llama_ubatch \<Rightarrow> slot_info \<Rightarrow> bool" where
  \<comment> \<open>the slot has a usable cell of its own for every token, in the stream of the token's sequence\<close>
  "slot_ok kc ub si \<longleftrightarrow> length (si_strm si) = ub_n_slots kc ub \<and> length (si_idxs si) = ub_n_slots kc ub \<and>
     (\<forall>s < ub_n_slots kc ub. si_strm si ! s = ub_stream kc ub s \<and> length (si_idxs si ! s) = ub_per_slot kc ub \<and>
        distinct (si_idxs si ! s) \<and> (\<forall>i \<in> set (si_idxs si ! s). i < kvc_get_size kc \<and>
          cell_can_use (kc_n_swa kc) (kc_swa_type kc) (kc_cells kc ! ub_stream kc ub s) i))"

lemma kvc_find_slot_eq:
  assumes "kvc_wf kc" "ub_ok kc ub"
  obtains si where "kvc_find_slot kc ub cont = Some si"
    "si = slot_empty \<Longrightarrow> \<exists>s < ub_n_slots kc ub. seq_choice kc ub cont s = None"
    "si \<noteq> slot_empty \<Longrightarrow> slot_ok kc ub si \<and> \<not> slot_is_empty si \<and>
       (\<forall>s < ub_n_slots kc ub. seq_choice kc ub cont s = Some (si_idxs si ! s))"
proof -
  let ?N = "ub_n_slots kc ub"
  let ?si = "\<lparr>si_s0 = LLAMA_MAX_SEQ, si_s1 = 0, si_strm = replicate ?N 0, si_idxs = replicate ?N []\<rparr>"
  have start: "kvc_find_slot kc ub cont = find_slot_go kc ub cont (ub_per_slot kc ub) [0..<?N] ?si"
    using ub_okD(7) [OF assms(2)]
    by (auto simp: kvc_find_slot_def ub_n_slots_def ub_per_slot_def Let_def dvd_eq_mod_eq_0)
  obtain si' where si': "find_slot_go kc ub cont (ub_per_slot kc ub) [0..<?N] ?si = Some si'"
    "go_post kc ub cont si'"
    using find_slot_go_eq [OF assms le0, of ?si cont] by (simp only: slot_info.simps length_replicate not_less_zero) blast
  have N: "0 < ?N" by (rule ub_slots_mult(3) [OF assms(2)])
  show thesis
  proof (rule that [of si'])
    show "\<exists>s < ?N. seq_choice kc ub cont s = None" if "si' = slot_empty"
    proof -
      have "length (si_idxs si') \<noteq> ?N" using that N by (simp add: slot_empty_def)
      then show ?thesis using si'(2) unfolding go_post_def by blast
    qed
    assume "si' \<noteq> slot_empty"
    then have s: "length (si_strm si') = ?N" "length (si_idxs si') = ?N"
      "\<And>s. s < ?N \<Longrightarrow> si_strm si' ! s = ub_stream kc ub s"
      "\<And>s. s < ?N \<Longrightarrow> seq_choice kc ub cont s = Some (si_idxs si' ! s)"
      using si'(2) unfolding go_post_def by blast+
    have "length (si_idxs si' ! s) = ub_per_slot kc ub \<and> distinct (si_idxs si' ! s) \<and>
        (\<forall>i \<in> set (si_idxs si' ! s). i < kvc_get_size kc \<and>
           cell_can_use (kc_n_swa kc) (kc_swa_type kc) (kc_cells kc ! ub_stream kc ub s) i)" if "s < ?N" for s
    proof -
      note t = ub_stream_lt(1) [OF assms that]
      note w = kvc_wfD(8,9) [OF assms(1) t]
      show ?thesis
        using slot_choice_some(1-3) [OF s(4) [OF that, unfolded seq_choice_def]] w by auto
    qed
    then show "slot_ok kc ub si' \<and> \<not> slot_is_empty si' \<and> (\<forall>s < ?N. seq_choice kc ub cont s = Some (si_idxs si' ! s))"
      using s N by (auto simp: slot_ok_def slot_is_empty_def)
  qed (simp add: start si'(1))
qed

text \<open>C2. \<open>find_slot\<close> always returns. A slot it returns has, for every token, a usable cell of its own
  in the stream of the token's sequence (in one run of cells when a contiguous slot is asked for);
  a scattered search reports no room only when some stream has fewer usable cells than tokens.\<close>

theorem kvc_find_slot_correct:
  assumes "kvc_wf kc" "ub_ok kc ub"
  shows "\<exists>si. kvc_find_slot kc ub cont = Some si \<and>
    (if slot_is_empty si
     then \<not> cont \<longrightarrow> (\<exists>s < ub_n_slots kc ub. card {i. i < kvc_get_size kc \<and>
            cell_can_use (kc_n_swa kc) (kc_swa_type kc) (kc_cells kc ! ub_stream kc ub s) i} < ub_per_slot kc ub)
     else slot_ok kc ub si \<and> (cont \<longrightarrow> (\<forall>s < ub_n_slots kc ub. \<exists>i. si_idxs si ! s = [i..<i + ub_per_slot kc ub])))"
proof -
  obtain si where si: "kvc_find_slot kc ub cont = Some si"
    "si = slot_empty \<Longrightarrow> \<exists>s < ub_n_slots kc ub. seq_choice kc ub cont s = None"
    "si \<noteq> slot_empty \<Longrightarrow> slot_ok kc ub si \<and> \<not> slot_is_empty si \<and>
       (\<forall>s < ub_n_slots kc ub. seq_choice kc ub cont s = Some (si_idxs si ! s))"
    by (rule kvc_find_slot_eq [OF assms, of cont]) iprover
  have w: "cells_size (kc_cells kc ! ub_stream kc ub s) = kvc_get_size kc"
    "kc_heads kc ! ub_stream kc ub s \<le> cells_size (kc_cells kc ! ub_stream kc ub s)" if "s < ub_n_slots kc ub" for s
    using kvc_wfD(8,9) [OF assms(1) ub_stream_lt(1) [OF assms that]] by simp_all
  have none: "card {i. i < kvc_get_size kc \<and>
      cell_can_use (kc_n_swa kc) (kc_swa_type kc) (kc_cells kc ! ub_stream kc ub s) i} < ub_per_slot kc ub"
    if "s < ub_n_slots kc ub" "seq_choice kc ub False s = None" for s
    using slot_choice_none [OF that(2) [unfolded seq_choice_def] w(2) [OF that(1)]] w(1) [OF that(1)] by simp
  have cont: "\<exists>i. si_idxs si ! s = [i..<i + ub_per_slot kc ub]"
    if "si \<noteq> slot_empty" "cont" "s < ub_n_slots kc ub" for s
    using slot_choice_some(4) [OF _ w(2) [OF that(3)]] si(3) [OF that(1)] that(2,3) by (auto simp: seq_choice_def)
  show ?thesis
    using si none cont by (intro exI [of _ si]) (cases "si = slot_empty", auto simp: slot_is_empty_def slot_empty_def)
qed

subsection \<open>Placing tokens\<close>

definition writes_ext :: "kv_cache \<Rightarrow> llama_ubatch \<Rightarrow> bool" where
  "writes_ext kc ub \<longleftrightarrow> is_pos_2d ub \<or> ub_token ub \<noteq> None \<or> kc_ple_n_heads kc > 0"

definition placed :: "kv_cache \<Rightarrow> llama_ubatch \<Rightarrow> nat \<Rightarrow> abs_cell option \<Rightarrow> bool" where
  \<comment> \<open>the cell holds token \<open>i\<close> of the micro-batch\<close>
  "placed kc ub i v \<longleftrightarrow> (\<exists>k. v = Some k \<and> cell_pos k = ub_pos ub ! i \<and> cell_seq k = ub_seqs ub i \<and>
     (writes_ext kc ub \<longrightarrow> cell_ext k = ubatch_ext kc ub i))"

lemma seq_add_loop:
  assumes "cells_wf c" "idx < length (kv_pos c)" "kv_pos c ! idx \<noteq> -1" "\<And>k. k < n \<Longrightarrow> f k < LLAMA_MAX_SEQ"
  defines "c' \<equiv> (fold (\<lambda>k. cells_seq_add idx (f k)) [0..<n] c)"
  shows "cells_wf c'" "kv_pos c' = kv_pos c" "kv_shift c' = kv_shift c"
    "cells_view c' j = (if j = idx
       then map_option (\<lambda>k. k\<lparr>cell_seq := cell_seq k \<union> f ` {..<n}\<rparr>) (cells_view c idx) else cells_view c j)"
proof -
  let ?P = "\<lambda>n c'. cells_wf c' \<and> kv_pos c' = kv_pos c \<and> kv_shift c' = kv_shift c \<and> (\<forall>j. cells_view c' j = (if j = idx
       then map_option (\<lambda>k. k\<lparr>cell_seq := cell_seq k \<union> f ` {..<n}\<rparr>) (cells_view c idx) else cells_view c j))"
  have "?P n c'"
    unfolding c'_def
  proof (rule fold_upt_invariant [where P = ?P])
    show "?P 0 c" using assms(1) by (cases "cells_view c idx") auto
  next
    fix k e assume k: "k < n" and P: "?P k e"
    then have e: "cells_wf e" "idx < length (kv_pos e)" "kv_pos e ! idx \<noteq> -1" using assms(2,3) by auto
    have "cells_wf (cells_seq_add idx (f k) e)" by (rule cells_wf_seq_add [OF e assms(4) [OF k]])
    moreover have "cells_view (cells_seq_add idx (f k) e) j = (if j = idx
        then map_option (\<lambda>k'. k'\<lparr>cell_seq := cell_seq k' \<union> f ` {..<Suc k}\<rparr>) (cells_view c idx) else cells_view c j)" for j
      using P by (cases "cells_view c idx") (auto simp: cells_view_seq_add [OF e] lessThan_Suc)
    ultimately show "?P (Suc k) (cells_seq_add idx (f k) e)"
      using P by (simp add: cells_build_fields)
  qed
  then show "cells_wf c'" "kv_pos c' = kv_pos c" "kv_shift c' = kv_shift c"
    "cells_view c' j = (if j = idx
       then map_option (\<lambda>k. k\<lparr>cell_seq := cell_seq k \<union> f ` {..<n}\<rparr>) (cells_view c idx) else cells_view c j)"
    by blast+
qed

definition rm_update :: "kv_cells \<Rightarrow> nat \<Rightarrow> llama_pos list \<Rightarrow> llama_pos list" where
  "rm_update c idx rm = (if cells_is_empty c idx then rm
     else rm[nat (cells_seq_get c idx) := max (rm ! nat (cells_seq_get c idx)) (kv_pos c ! idx)])"

lemma place_token_effect:
  fixes kc :: kv_cache and rm :: "llama_pos list"
  assumes "cells_wf c" "idx < length (kv_pos c)" "0 \<le> ub_pos ub ! i"
    and "ub_n_seq_id ub ! i = int (length (ub_seq_id ub ! i))" "\<And>q. q \<in> ub_seqs ub i \<Longrightarrow> q < LLAMA_MAX_SEQ"
  defines "r \<equiv> place_token kc ub i idx (c, rm)"
  shows "cells_wf (fst r)" "length (kv_pos (fst r)) = length (kv_pos c)" "snd r = rm_update c idx rm"
    "placed kc ub i (cells_view (fst r) idx)" "j \<noteq> idx \<Longrightarrow> cells_view (fst r) j = cells_view c j"
    "(\<And>j. j < length (kv_pos c) \<Longrightarrow> kv_shift c ! j = 0) \<Longrightarrow> j < length (kv_pos c) \<Longrightarrow> kv_shift (fst r) ! j = 0"
proof -
  note w = cells_wfD(1-3) [OF assms(1)]
  define c1 where "c1 = (if cells_is_empty c idx then c else cells_rm idx c)"
  have c1: "cells_wf c1" "length (kv_pos c1) = length (kv_pos c)" "kv_pos c1 ! idx = -1"
    using assms(1,2) by (auto simp: c1_def cells_wf_rm cells_is_empty_def cell_simps) (simp add: cells_defs)
  have v1: "j \<noteq> idx \<Longrightarrow> cells_view c1 j = cells_view c j" for j
    using assms(1,2) by (simp add: c1_def cell_simps)
  define c2 where "c2 = cells_pos_set idx (ub_pos ub ! i) c1"
  have i1: "idx < length (kv_pos c1)" using assms(2) c1(2) by simp
  have p: "ub_pos ub ! i \<noteq> -1" using assms(3) by simp
  have c2: "cells_wf c2" "length (kv_pos c2) = length (kv_pos c)"
    unfolding c2_def using cells_wf_pos_set [OF c1(1) i1 c1(3) assms(3)] c1(2) by (simp_all add: cell_simps)
  have v2: "cells_view c2 j = (if j = idx then Some \<lparr>cell_pos = ub_pos ub ! i, cell_shift = kv_shift c1 ! idx,
      cell_ext = kv_ext c1 ! idx, cell_seq = {}\<rparr> else cells_view c1 j)" for j
    unfolding c2_def by (rule cells_view_pos_set [OF c1(1) i1 c1(3) p])
  define c3 where "c3 = (if writes_ext kc ub then cells_ext_set idx (ubatch_ext kc ub i) c2 else c2)"
  have i2: "idx < length (kv_pos c2)" using assms(2) c2(2) by simp
  have c3: "cells_wf c3" "kv_pos c3 = kv_pos c2"
    using c2(1) by (auto simp: c3_def cells_wf_ext_set) (simp add: cells_ext_set_def)
  have v3: "cells_view c3 j = (if j = idx then Some \<lparr>cell_pos = ub_pos ub ! i, cell_shift = kv_shift c1 ! idx,
      cell_ext = (if writes_ext kc ub then ubatch_ext kc ub i else kv_ext c1 ! idx), cell_seq = {}\<rparr> else cells_view c1 j)" for j
    by (simp add: c3_def cells_view_ext_set [OF c2(1) i2] v2)
  have i3: "idx < length (kv_pos c3)" "kv_pos c3 ! idx \<noteq> -1"
    using i2 c3(2) c1(2) p assms(2) by (auto simp: c2_def cells_pos_set_def)
  let ?f = "\<lambda>k. nat (ub_seq_id ub ! i ! k)"
  have f: "k < length (ub_seq_id ub ! i) \<Longrightarrow> ?f k < LLAMA_MAX_SEQ" for k
    using assms(5) by (force simp: ub_seqs_def)
  note fin = seq_add_loop [OF c3(1) i3 f]
  have r: "r = (fold (\<lambda>k. cells_seq_add idx (?f k)) [0..<length (ub_seq_id ub ! i)] c3, rm_update c idx rm)"
    by (auto simp: r_def place_token_def c3_def c2_def c1_def writes_ext_def rm_update_def Let_def assms(4))
  have img: "?f ` {..<length (ub_seq_id ub ! i)} = ub_seqs ub i"
    unfolding ub_seqs_def set_conv_nth by auto
  show "cells_wf (fst r)" "snd r = rm_update c idx rm" "length (kv_pos (fst r)) = length (kv_pos c)"
    using fin(1,2) c3(2) c2(2) by (simp_all add: r)
  show "placed kc ub i (cells_view (fst r) idx)"
    using fin(4) [where j = idx] by (simp add: r v3 img placed_def)
  show "j \<noteq> idx \<Longrightarrow> cells_view (fst r) j = cells_view c j"
    using fin(4) [where j = j] by (simp add: r v3 v1)
  have s1: "kv_shift c1 ! j = 0" if "\<And>j. j < length (kv_pos c) \<Longrightarrow> kv_shift c ! j = 0" "j < length (kv_pos c)" for j
    using that w by (auto simp: c1_def cells_defs nth_upd)
  have "kv_shift (fst r) = kv_shift c1"
    by (auto simp: r fin(3)) (simp add: c3_def c2_def cells_pos_set_def cells_ext_set_def)
  then show "(\<And>j. j < length (kv_pos c) \<Longrightarrow> kv_shift c ! j = 0) \<Longrightarrow> j < length (kv_pos c) \<Longrightarrow> kv_shift (fst r) ! j = 0"
    using s1 by simp
qed

lemma cells_view_eqD:
  assumes "cells_view c j = cells_view c' j"
  shows "cells_is_empty c j = cells_is_empty c' j"
    "\<not> cells_is_empty c j \<Longrightarrow> cells_seq_get c j = cells_seq_get c' j \<and> kv_pos c ! j = kv_pos c' ! j"
  using assms by (auto simp: cells_view_def cells_is_empty_def cells_seq_get_def split: if_splits)

lemma rm_update_cong: "cells_view c j = cells_view c' j \<Longrightarrow> rm_update c j rm = rm_update c' j rm"
  using cells_view_eqD [of c j c'] by (auto simp: rm_update_def)

definition toks_ok :: "llama_ubatch \<Rightarrow> nat \<Rightarrow> nat \<Rightarrow> bool" where
  "toks_ok ub base n \<longleftrightarrow> (\<forall>ii < n. 0 \<le> ub_pos ub ! (base + ii) \<and>
     ub_n_seq_id ub ! (base + ii) = int (length (ub_seq_id ub ! (base + ii))) \<and>
     (\<forall>q \<in> ub_seqs ub (base + ii). q < LLAMA_MAX_SEQ))"

lemma place_loop:
  fixes kc :: kv_cache and rm :: "llama_pos list" and base :: nat
  assumes "cells_wf c" "distinct xs" "n \<le> length xs" "set xs \<subseteq> {..<length (kv_pos c)}" "toks_ok ub base n"
  defines "r \<equiv> (fold (\<lambda>ii. place_token kc ub (base + ii) (xs ! ii)) [0..<n] (c, rm))"
  shows "cells_wf (fst r)" "length (kv_pos (fst r)) = length (kv_pos c)"
    "snd r = fold (\<lambda>ii. rm_update c (xs ! ii)) [0..<n] rm"
    "\<And>ii. ii < n \<Longrightarrow> placed kc ub (base + ii) (cells_view (fst r) (xs ! ii))"
    "\<And>j. j \<notin> (!) xs ` {..<n} \<Longrightarrow> cells_view (fst r) j = cells_view c j"
    "\<And>j. (\<And>j. j < length (kv_pos c) \<Longrightarrow> kv_shift c ! j = 0) \<Longrightarrow> j < length (kv_pos c) \<Longrightarrow> kv_shift (fst r) ! j = 0"
proof -
  let ?P = "\<lambda>n r. cells_wf (fst r) \<and> length (kv_pos (fst r)) = length (kv_pos c) \<and>
    snd r = fold (\<lambda>ii. rm_update c (xs ! ii)) [0..<n] rm \<and>
    (\<forall>ii < n. placed kc ub (base + ii) (cells_view (fst r) (xs ! ii))) \<and>
    (\<forall>j. j \<notin> (!) xs ` {..<n} \<longrightarrow> cells_view (fst r) j = cells_view c j) \<and>
    ((\<forall>j < length (kv_pos c). kv_shift c ! j = 0) \<longrightarrow> (\<forall>j < length (kv_pos c). kv_shift (fst r) ! j = 0))"
  have "?P n r"
    unfolding r_def
  proof (rule fold_upt_invariant [where P = ?P])
    show "?P 0 (c, rm)" using assms(1) by simp
  next
    fix ii r assume ii: "ii < n" and P: "?P ii r"
    obtain e q where r: "r = (e, q)" by (cases r)
    have e: "cells_wf e" "xs ! ii < length (kv_pos e)" "length (kv_pos e) = length (kv_pos c)"
      using P r ii assms(3,4) by (auto simp: subset_iff)
    note t = place_token_effect [OF e(1,2), where ub = ub and i = "base + ii" and kc = kc and rm = q]
    have "0 \<le> ub_pos ub ! (base + ii)" "ub_n_seq_id ub ! (base + ii) = int (length (ub_seq_id ub ! (base + ii)))"
      "\<And>q. q \<in> ub_seqs ub (base + ii) \<Longrightarrow> q < LLAMA_MAX_SEQ"
      using assms(5) ii by (auto simp: toks_ok_def)
    note t = t [OF this]
    have new: "xs ! ii \<notin> (!) xs ` {..<ii}"
      using assms(2,3) ii by (auto simp: nth_eq_iff_index_eq)
    have q: "snd (place_token kc ub (base + ii) (xs ! ii) (e, q)) = fold (\<lambda>ii. rm_update c (xs ! ii)) [0..<Suc ii] rm"
      using t(3) P r rm_update_cong [of e "xs ! ii" c] new by simp
    have old: "xs ! jj \<noteq> xs ! ii" if "jj < ii" for jj using that new by (metis image_eqI lessThan_iff)
    show "?P (Suc ii) (place_token kc ub (base + ii) (xs ! ii) r)"
      unfolding r using t q P r e(3) old by (auto simp: less_Suc_eq lessThan_Suc)
  qed
  then show "cells_wf (fst r)" "length (kv_pos (fst r)) = length (kv_pos c)"
    "snd r = fold (\<lambda>ii. rm_update c (xs ! ii)) [0..<n] rm"
    "\<And>ii. ii < n \<Longrightarrow> placed kc ub (base + ii) (cells_view (fst r) (xs ! ii))"
    "\<And>j. j \<notin> (!) xs ` {..<n} \<Longrightarrow> cells_view (fst r) j = cells_view c j"
    "\<And>j. (\<And>j. j < length (kv_pos c) \<Longrightarrow> kv_shift c ! j = 0) \<Longrightarrow> j < length (kv_pos c) \<Longrightarrow> kv_shift (fst r) ! j = 0"
    by blast+
qed

text \<open>
  What \<open>seq_pos_max_rm\<close> records: for every sequence the largest position it loses.
\<close>

lemma can_use_occupied:
  assumes "cells_wf c" "j < length (kv_pos c)" "cell_can_use n_swa swa c j" "\<not> cells_is_empty c j"
  obtains q where "q < LLAMA_MAX_SEQ" "cells_seq_get c j = int q" "kv_seq c ! j = {q}"
    "is_masked_swa n_swa swa (kv_pos c ! j) (cells_seq_pos_max c q + 1)"
proof -
  have "cells_seq_count c j = 1" using assms(3,4) by (auto simp: cell_can_use_def split: if_splits)
  then obtain q where "q < LLAMA_MAX_SEQ" "kv_seq c ! j = {q}" "cells_seq_get c j = int q"
    using cells_seq_get_unique [OF assms(1,2)] by blast
  then show thesis using assms(3,4) by (intro that) (auto simp: cell_can_use_def split: if_splits)
qed

lemma rm_update_nth:
  assumes "cells_wf c" "j < length (kv_pos c)" "cell_can_use n_swa swa c j" "length rm = LLAMA_MAX_SEQ" "q < LLAMA_MAX_SEQ"
  shows "rm_update c j rm ! q = Max (insert (rm ! q) {p. at_pos q p (cells_view c j)})"
    "length (rm_update c j rm) = LLAMA_MAX_SEQ"
proof -
  show "length (rm_update c j rm) = LLAMA_MAX_SEQ" using assms(4) by (simp add: rm_update_def)
  show "rm_update c j rm ! q = Max (insert (rm ! q) {p. at_pos q p (cells_view c j)})"
  proof (cases "cells_is_empty c j")
    case True
    then show ?thesis by (simp add: rm_update_def at_pos_def cells_is_empty_view)
  next
    case False
    obtain r where r: "r < LLAMA_MAX_SEQ" "cells_seq_get c j = int r" "kv_seq c ! j = {r}"
      using can_use_occupied [OF assms(1-3) False] by blast
    have "{p. at_pos q p (cells_view c j)} = (if q = r then {kv_pos c ! j} else {})"
      using False r(3) by (auto simp: at_pos_def cells_view_def cells_is_empty_def)
    then show ?thesis using False r assms(4,5) by (auto simp: rm_update_def max.commute)
  qed
qed

lemma finite_at_pos: "finite {p. at_pos q p v}"
  by (cases v) (auto simp: at_pos_def)

lemma rm_fold_nth:
  assumes "cells_wf c" "\<forall>j \<in> set xs. j < length (kv_pos c) \<and> cell_can_use n_swa swa c j"
    and "length rm = LLAMA_MAX_SEQ" "q < LLAMA_MAX_SEQ" "n \<le> length xs"
  defines "r \<equiv> fold (\<lambda>ii. rm_update c (xs ! ii)) [0..<n] rm"
  shows "length r = LLAMA_MAX_SEQ"
    "r ! q = Max (insert (rm ! q) {p. \<exists>j \<in> (!) xs ` {..<n}. at_pos q p (cells_view c j)})"
proof -
  let ?S = "\<lambda>n. {p. \<exists>j \<in> (!) xs ` {..<n}. at_pos q p (cells_view c j)}"
  have fin: "finite (?S n)" for n
  proof -
    have "?S n = (\<Union>ii<n. {p. at_pos q p (cells_view c (xs ! ii))})" by auto
    then show ?thesis by (simp add: finite_at_pos)
  qed
  let ?P = "\<lambda>n r. length r = LLAMA_MAX_SEQ \<and> r ! q = Max (insert (rm ! q) (?S n))"
  have "?P n r"
    unfolding r_def
  proof (rule fold_upt_invariant [where P = ?P])
    show "?P 0 rm" using assms(3) by simp
  next
    fix ii r assume ii: "ii < n" and P: "?P ii r"
    then have j: "xs ! ii \<in> set xs" using assms(5) by simp
    note u = rm_update_nth [OF assms(1) _ _ _ assms(4), of "xs ! ii" n_swa swa r]
    have S: "?S (Suc ii) = {p. at_pos q p (cells_view c (xs ! ii))} \<union> ?S ii"
      by (auto simp: lessThan_Suc)
    have "Max (insert (Max (insert a B)) A) = Max (insert a (A \<union> B))" if "finite A" "finite B" for a :: int and A B
      using that by (cases "A = {}"; cases "B = {}") (auto simp: Max_Un max.commute max.left_commute max.assoc)
    then show "?P (Suc ii) (rm_update c (xs ! ii) r)"
      using u assms(2) j P unfolding S by (simp add: fin finite_at_pos)
  qed
  then show "length r = LLAMA_MAX_SEQ" "r ! q = Max (insert (rm ! q) (?S n))" by blast+
qed

lemma slot_okD:
  assumes "slot_ok kc ub si" "s < ub_n_slots kc ub"
  shows "si_strm si ! s = ub_stream kc ub s" "length (si_idxs si ! s) = ub_per_slot kc ub" "distinct (si_idxs si ! s)"
    "\<And>j. j \<in> set (si_idxs si ! s) \<Longrightarrow> j < kvc_get_size kc \<and>
       cell_can_use (kc_n_swa kc) (kc_swa_type kc) (kc_cells kc ! ub_stream kc ub s) j"
  using assms unfolding slot_ok_def by blast+

lemma max_insert_merge:
  "finite A \<Longrightarrow> finite B \<Longrightarrow> Max (insert (Max (insert a B)) A) = Max (insert (a :: int) (B \<union> A))"
  by (cases "A = {}"; cases "B = {}") (auto simp: Max_Un max.commute max.left_commute max.assoc)

lemma placed_cells [simp]: "placed (kc\<lparr>kc_cells := cs\<rparr>) ub i v = placed kc ub i v"
proof -
  have "ubatch_ext (kc\<lparr>kc_cells := cs\<rparr>) ub i = ubatch_ext kc ub i"
    by (cases "ub_token ub") (simp_all add: ubatch_ext_def Let_def)
  moreover have "writes_ext (kc\<lparr>kc_cells := cs\<rparr>) ub = writes_ext kc ub" by (simp add: writes_ext_def)
  ultimately show ?thesis by (simp only: placed_def)
qed

definition overwritten :: "kv_cache \<Rightarrow> slot_info \<Rightarrow> nat \<Rightarrow> nat \<Rightarrow> llama_pos set" where
  \<comment> \<open>the positions sequence \<open>q\<close> holds in the cells of the first \<open>n\<close> streams of the slot\<close>
  "overwritten kc si n q = {p. \<exists>s < n. \<exists>j \<in> set (si_idxs si ! s). at_pos q p (kvc_view kc (si_strm si ! s) j)}"

definition no_shift :: "kv_cache \<Rightarrow> bool" where
  "no_shift kc \<longleftrightarrow> (\<forall>t < kc_n_stream kc. \<forall>j < kvc_get_size kc. kv_shift (kc_cells kc ! t) ! j = 0)"

definition placed_upto :: "kv_cache \<Rightarrow> llama_ubatch \<Rightarrow> slot_info \<Rightarrow> nat \<Rightarrow> kv_cache \<Rightarrow> bool" where
  \<comment> \<open>\<open>kc'\<close> is \<open>kc\<close> with the tokens of the first \<open>n\<close> streams of the slot in place\<close>
  "placed_upto kc ub si n kc' \<longleftrightarrow> kvc_wf kc' \<and> (\<exists>cs. kc' = kc\<lparr>kc_cells := cs\<rparr>) \<and> kvc_frame kc kc' \<and>
     (\<forall>t. t \<notin> (!) (si_strm si) ` {..<n} \<longrightarrow> kc_cells kc' ! t = kc_cells kc ! t) \<and>
     (\<forall>s < n. \<forall>ii < ub_per_slot kc ub.
        placed kc ub (s * ub_per_slot kc ub + ii) (kvc_view kc' (si_strm si ! s) (si_idxs si ! s ! ii))) \<and>
     (\<forall>s < n. \<forall>j. j \<notin> set (si_idxs si ! s) \<longrightarrow> kvc_view kc' (si_strm si ! s) j = kvc_view kc (si_strm si ! s) j) \<and>
     (no_shift kc \<longrightarrow> no_shift kc')"

lemma overwritten_Suc:
  "overwritten kc si (Suc n) q =
     overwritten kc si n q \<union> {p. \<exists>j \<in> set (si_idxs si ! n). at_pos q p (kvc_view kc (si_strm si ! n) j)}"
  by (auto simp: overwritten_def less_Suc_eq)

lemma finite_overwritten: "n \<le> length (si_idxs si) \<Longrightarrow> finite (overwritten kc si n q)"
proof -
  have "overwritten kc si n q = (\<Union>s<n. \<Union>j \<in> set (si_idxs si ! s). {p. at_pos q p (kvc_view kc (si_strm si ! s) j)})"
    by (auto simp: overwritten_def)
  then show ?thesis by (simp add: finite_at_pos)
qed

lemma place_stream_step:
  assumes "kvc_wf kc" "ub_ok kc ub" "slot_ok kc ub si" "s < ub_n_slots kc ub" "placed_upto kc ub si s kc'"
    and "length rm = LLAMA_MAX_SEQ" "\<And>q. q < LLAMA_MAX_SEQ \<Longrightarrow> rm ! q = Max (insert (-1) (overwritten kc si s q))"
  defines "r \<equiv> place_stream si (ub_per_slot kc ub) ub s (kc', rm)"
  shows "placed_upto kc ub si (Suc s) (fst r)" "length (snd r) = LLAMA_MAX_SEQ"
    "\<And>q. q < LLAMA_MAX_SEQ \<Longrightarrow> snd r ! q = Max (insert (-1) (overwritten kc si (Suc s) q))"
proof -
  let ?n = "ub_per_slot kc ub" and ?t = "ub_stream kc ub s" and ?xs = "si_idxs si ! s"
  note sl = slot_okD [OF assms(3,4)] and t = ub_stream_lt(1) [OF assms(1,2,4)]
  have P: "kvc_wf kc'" "kvc_frame kc kc'" using assms(5) by (auto simp: placed_upto_def)
  obtain cs where cs: "kc' = kc\<lparr>kc_cells := cs\<rparr>" using assms(5) by (auto simp: placed_upto_def)
  have strm: "si_strm si ! s' = ub_stream kc ub s'" if "s' < ub_n_slots kc ub" for s'
    using slot_okD(1) [OF assms(3) that] .
  have fresh: "?t \<notin> (!) (si_strm si) ` {..<s}"
  proof
    assume "?t \<in> (!) (si_strm si) ` {..<s}"
    then obtain s' where "s' < s" "si_strm si ! s' = ?t" by auto
    then show False using ub_stream_inj [OF assms(2) _ assms(4), of s'] strm [of s'] assms(4) by simp
  qed
  then have c: "kc_cells kc' ! ?t = kc_cells kc ! ?t" using assms(5) by (auto simp: placed_upto_def)
  let ?c = "kc_cells kc ! ?t"
  note w = kvc_wfD [OF assms(1)]
  have len: "length (kv_pos ?c) = kvc_get_size kc" using w(8) [OF t] by (simp add: cells_size_def)
  have idx: "set ?xs \<subseteq> {..<length (kv_pos ?c)}" using sl(4) len by auto
  have tok: "toks_ok ub (s * ?n) ?n"
    unfolding toks_ok_def
  proof (intro allI impI)
    fix ii assume ii: "ii < ?n"
    note i = ub_token_index(1) [OF assms(2,4) ii]
    show "0 \<le> ub_pos ub ! (s * ?n + ii) \<and>
        ub_n_seq_id ub ! (s * ?n + ii) = int (length (ub_seq_id ub ! (s * ?n + ii))) \<and>
        (\<forall>q \<in> ub_seqs ub (s * ?n + ii). q < LLAMA_MAX_SEQ)"
      using ub_okD(4,5) [OF assms(2) i] ub_token_stream(1) [OF assms(1,2,4) ii] w(4) by (meson less_le_trans)
  qed
  have ext: "placed kc' ub = placed kc ub"
    by (simp add: cs fun_eq_iff)
  have n_len: "?n \<le> length ?xs" using sl(2) by simp
  note pl = place_loop [OF w(7) [OF t] sl(3) n_len idx tok, where kc = kc' and rm = rm, unfolded ext]
  let ?r = "fold (\<lambda>ii. place_token kc' ub (s * ?n + ii) (?xs ! ii)) [0..<?n] (?c, rm)"
  have heads: "kc_heads kc' = kc_heads kc" using cs by simp
  have r: "r = (kvc_put ?t (fst ?r) (kc_heads kc ! ?t) kc', snd ?r)"
    by (simp add: r_def place_stream_def strm [OF assms(4)] c Let_def split_beta kvc_put_same_head heads)
  have img: "(!) ?xs ` {..<?n} = set ?xs" using sl(2) by (auto simp: set_conv_nth)
  note pl = pl [unfolded img]
  note fr = kvc_frameD [OF P(2)]
  have t': "?t < kc_n_stream kc'" using t fr(1) by simp
  have size: "cells_size (fst ?r) = kvc_get_size kc'" using pl(2) len fr(4) by (simp add: cells_size_def)
  have seqs: "u < length (kc_seq_to_stream kc') \<and> stream_of kc' u = ?t"
    if "i < kvc_get_size kc'" "cell_has_seq u (cells_view (fst ?r) i)" for i u
  proof (cases "i \<in> set ?xs")
    case True
    then obtain ii where ii: "ii < ?n" "i = ?xs ! ii" using sl(2) by (auto simp: set_conv_nth)
    obtain k where k: "cells_view (fst ?r) i = Some k" "cell_seq k = ub_seqs ub (s * ?n + ii)"
      using pl(4) [OF ii(1)] unfolding placed_def ii(2) by blast
    have "u \<in> ub_seqs ub (s * ?n + ii)"
      using that(2) unfolding k(1) cell_has_seq_def option.case k(2) .
    then show ?thesis using ub_token_stream [OF assms(1,2,4) ii(1)] fr by simp
  next
    case False
    then have "cells_view (fst ?r) i = kvc_view kc ?t i" unfolding kvc_view_def by (rule pl(5))
    then have "cell_has_seq u (kvc_view kc ?t i)" "i < kvc_get_size kc" using that fr(4) by simp_all
    from w(10) [OF t this(2,1)] show ?thesis by (simp add: fr)
  qed
  have wf': "kvc_wf (fst r)"
    unfolding r fst_conv
    by (rule kvc_wf_put [OF P(1) t' pl(1) size _ seqs]) (use w(9) [OF t] fr in simp)
  have fr': "kvc_frame kc (fst r)"
    unfolding r fst_conv by (rule kvc_frame_trans [OF P(2) kvc_frame_put [OF P(1) t' size]])
  have view: "kvc_view (fst r) u i = (if u = ?t then cells_view (fst ?r) i else kvc_view kc' u i)" for u i
    unfolding r fst_conv by (rule kvc_put_view [OF P(1) t'])
  have ns: "no_shift (fst r)" if "no_shift kc"
  proof -
    have "no_shift kc'" using assms(5) that by (simp add: placed_upto_def)
    then show ?thesis
      using pl(6) that t len fr kvc_frameD(4,1) [OF fr'] kvc_wfD(2) [OF P(1)]
      by (auto simp: no_shift_def r nth_upd)
  qed
  have cells': "kc_cells (fst r) ! u = kc_cells kc ! u" if "u \<notin> (!) (si_strm si) ` {..<Suc s}" for u
    using that assms(5) strm [OF assms(4)] by (auto simp: r lessThan_Suc nth_upd placed_upto_def)
  have old_strm: "si_strm si ! s' \<noteq> ?t" if "s' < s" for s' using fresh that by (metis image_eqI lessThan_iff)
  show "placed_upto kc ub si (Suc s) (fst r)"
    unfolding placed_upto_def
  proof (intro conjI)
    have "fst r = kc\<lparr>kc_cells := (kc_cells kc')[?t := fst ?r]\<rparr>" by (simp add: r kvc_put_def cs)
    then show "\<exists>cs. fst r = kc\<lparr>kc_cells := cs\<rparr>" by (rule exI)
    show "\<forall>s' < Suc s. \<forall>ii < ?n. placed kc ub (s' * ?n + ii) (kvc_view (fst r) (si_strm si ! s') (si_idxs si ! s' ! ii))"
      using assms(5) pl(4) old_strm strm [OF assms(4)] by (auto simp: view less_Suc_eq placed_upto_def)
    show "\<forall>s' < Suc s. \<forall>j. j \<notin> set (si_idxs si ! s') \<longrightarrow>
        kvc_view (fst r) (si_strm si ! s') j = kvc_view kc (si_strm si ! s') j"
      using assms(5) pl(5) old_strm strm [OF assms(4)]
      by (auto simp: view less_Suc_eq placed_upto_def kvc_view_def [of kc])
  qed (use wf' fr' ns cells' in auto)
  have use: "\<forall>j \<in> set ?xs. j < length (kv_pos ?c) \<and> cell_can_use (kc_n_swa kc) (kc_swa_type kc) ?c j"
    using sl(4) len by simp
  note rm = rm_fold_nth [OF w(7) [OF t] use assms(6) _ n_len, unfolded img]
  show "length (snd r) = LLAMA_MAX_SEQ" using rm(1) [of 0] by (simp add: r pl(3) LLAMA_MAX_SEQ_def)
  show "snd r ! q = Max (insert (-1) (overwritten kc si (Suc s) q))" if q: "q < LLAMA_MAX_SEQ" for q
  proof -
    let ?A = "{p. \<exists>j \<in> set ?xs. at_pos q p (cells_view ?c j)}"
    have "?A = (\<Union>j \<in> set ?xs. {p. at_pos q p (cells_view ?c j)})" by auto
    then have finA: "finite ?A" by (simp add: finite_at_pos)
    have "overwritten kc si (Suc s) q = overwritten kc si s q \<union> ?A"
      unfolding overwritten_Suc strm [OF assms(4)] kvc_view_def ..
    moreover have "finite (overwritten kc si s q)"
      using assms(3,4) by (intro finite_overwritten) (simp add: slot_ok_def)
    ultimately show ?thesis
      using rm(2) [OF q] assms(7) [OF q] finA by (simp add: r pl(3) max_insert_merge)
  qed
qed

lemma place_all:
  assumes "kvc_wf kc" "ub_ok kc ub" "slot_ok kc ub si"
  obtains kc' rm where
    "fold (place_stream si (ub_per_slot kc ub) ub) [0..<ub_n_slots kc ub] (kc, replicate LLAMA_MAX_SEQ (-1)) = (kc', rm)"
    "placed_upto kc ub si (ub_n_slots kc ub) kc'" "length rm = LLAMA_MAX_SEQ"
    "\<And>q. q < LLAMA_MAX_SEQ \<Longrightarrow> rm ! q = Max (insert (-1) (overwritten kc si (ub_n_slots kc ub) q))"
proof -
  let ?P = "\<lambda>s r. placed_upto kc ub si s (fst r) \<and> length (snd r) = LLAMA_MAX_SEQ \<and>
    (\<forall>q < LLAMA_MAX_SEQ. snd r ! q = Max (insert (-1) (overwritten kc si s q)))"
  let ?r = "fold (place_stream si (ub_per_slot kc ub) ub) [0..<ub_n_slots kc ub] (kc, replicate LLAMA_MAX_SEQ (-1))"
  have "?P (ub_n_slots kc ub) ?r"
  proof (rule fold_upt_invariant [where P = ?P])
    have "\<exists>cs. kc = kc\<lparr>kc_cells := cs\<rparr>" by (rule exI [of _ "kc_cells kc"]) simp
    then show "?P 0 (kc, replicate LLAMA_MAX_SEQ (-1))"
      using assms(1) by (simp add: placed_upto_def overwritten_def)
  next
    fix s r assume s: "s < ub_n_slots kc ub" and P: "?P s r"
    obtain kc' rm where r: "r = (kc', rm)" by (cases r)
    have "placed_upto kc ub si s kc'" "length rm = LLAMA_MAX_SEQ"
      "\<And>q. q < LLAMA_MAX_SEQ \<Longrightarrow> rm ! q = Max (insert (-1) (overwritten kc si s q))"
      using P r by auto
    note st = place_stream_step [OF assms s this]
    show "?P (Suc s) (place_stream si (ub_per_slot kc ub) ub s r)"
      unfolding r using st by blast
  qed
  then show thesis by (intro that [of "fst ?r" "snd ?r"]) auto
qed

subsection \<open>Purging what SWA gave up\<close>

lemma seq_pos_min_bound:
  "kvc_wf kc \<Longrightarrow> s < length (kc_seq_to_stream kc) \<Longrightarrow> p \<in> kvc_positions kc s \<Longrightarrow>
     cells_seq_pos_min (cells_of kc s) s \<le> p \<and> 0 \<le> p"
  using cells_seq_pos_min_le [of "cells_of kc s" p s] seq_positions_nonneg [of "cells_of kc s" p s] kvc_wfD(6,7) [of kc]
  by (simp add: kvc_positions_def cells_of_def)

lemma purge_step:
  assumes "kvc_wf kc" "\<not> kc_other kc" "rm ! s \<noteq> -1 \<Longrightarrow> s < length (kc_seq_to_stream kc) \<and> 0 \<le> rm ! s"
  obtains kc' where "purge_seq rm s (Some kc) = Some kc'" "kvc_wf kc'" "kvc_frame kc kc'"
    "rm ! s = -1 \<Longrightarrow> kc' = kc"
    "\<And>u. u < length (kc_seq_to_stream kc) \<Longrightarrow>
       kvc_positions kc' u = {p \<in> kvc_positions kc u. u = s \<longrightarrow> rm ! s < p}"
    "\<And>t i k. i < kvc_get_size kc \<Longrightarrow> kvc_view kc t i = Some k \<Longrightarrow> s \<in> cell_seq k \<longrightarrow> rm ! s < cell_pos k \<Longrightarrow>
       kvc_view kc' t i = Some k"
proof (cases "rm ! s = -1")
  case True
  have "{p \<in> kvc_positions kc u. u = s \<longrightarrow> rm ! s < p} = kvc_positions kc u" if "u < length (kc_seq_to_stream kc)" for u
    using seq_pos_min_bound [OF assms(1) that] True by fastforce
  then show thesis using True assms(1) by (intro that [of kc]) (auto simp: purge_seq_def)
next
  case False
  then have s: "s < length (kc_seq_to_stream kc)" and m: "0 \<le> rm ! s" using assms(3) by auto
  let ?p0 = "cells_seq_pos_min (cells_of kc s) s" and ?p1 = "rm ! s + 1"
  show thesis
  proof (cases "?p0 \<le> rm ! s")
    case noop: False
    have "{p \<in> kvc_positions kc u. u = s \<longrightarrow> rm ! s < p} = kvc_positions kc u" if "u < length (kc_seq_to_stream kc)" for u
      using seq_pos_min_bound [OF assms(1) that] noop by fastforce
    then show thesis using False noop s assms(1) by (intro that [of kc]) (auto simp: purge_seq_def Let_def)
  next
    case True
    obtain kc' where k: "kvc_seq_rm (int s) ?p0 ?p1 kc = Some (kc', True)" "kvc_wf kc'" "kvc_frame kc kc'"
      "\<And>t i. i < kvc_get_size kc \<Longrightarrow> kvc_view kc' t i =
         (if t = stream_of kc s then seq_rm_trans s (clip_p0 ?p0) (clip_p1 ?p1) (kvc_view kc t i) else kvc_view kc t i)"
      by (rule kvc_seq_rm_one [OF assms(1,2) s, of ?p0 ?p1]) iprover
    have p1: "clip_p1 ?p1 = ?p1" using m by (simp add: clip_p1_def)
    have pos: "kvc_positions kc' u = {p \<in> kvc_positions kc u. u = s \<longrightarrow> rm ! s < p}"
      if u: "u < length (kc_seq_to_stream kc)" for u
    proof -
      have "kvc_positions kc' u = {p \<in> kvc_positions kc u. \<not> (u = s \<and> clip_p0 ?p0 \<le> p \<and> p < ?p1)}"
        using k(4) by (auto simp: set_eq_iff positions_after [OF k(2,3) u] at_pos_if at_pos_trans
            positions_at [OF assms(1) u] p1 cong: conj_cong)
      also have "\<dots> = {p \<in> kvc_positions kc u. u = s \<longrightarrow> rm ! s < p}"
        using seq_pos_min_bound [OF assms(1) s] by (auto simp: clip_p0_def)
      finally show ?thesis .
    qed
    have view: "kvc_view kc' t i = Some k" if "i < kvc_get_size kc" "kvc_view kc t i = Some k"
        "s \<in> cell_seq k \<longrightarrow> rm ! s < cell_pos k" for t i k
      using k(4) [OF that(1), of t] that(2,3) by (auto simp: seq_rm_trans_def cell_pos_in_def cell_has_seq_def p1)
    show thesis
      using False True s k(1-3) pos view by (intro that [of kc']) (auto simp: purge_seq_def Let_def)
  qed
qed

lemma purge_all:
  assumes "kvc_wf kc" "\<not> kc_other kc"
    and "\<And>s. s < n \<Longrightarrow> rm ! s \<noteq> -1 \<Longrightarrow> s < length (kc_seq_to_stream kc) \<and> 0 \<le> rm ! s"
  obtains kc' where "fold (purge_seq rm) [0..<n] (Some kc) = Some kc'" "kvc_wf kc'" "kvc_frame kc kc'"
    "(\<And>s. s < n \<Longrightarrow> rm ! s = -1) \<Longrightarrow> kc' = kc"
    "\<And>u. u < length (kc_seq_to_stream kc) \<Longrightarrow> kvc_positions kc' u = {p \<in> kvc_positions kc u. u < n \<longrightarrow> rm ! u < p}"
    "\<And>t i k. i < kvc_get_size kc \<Longrightarrow> kvc_view kc t i = Some k \<Longrightarrow> \<forall>u \<in> cell_seq k. u < n \<longrightarrow> rm ! u < cell_pos k \<Longrightarrow>
       kvc_view kc' t i = Some k"
proof -
  let ?P = "\<lambda>n k. \<exists>kc'. k = Some kc' \<and> kvc_wf kc' \<and> kvc_frame kc kc' \<and>
    ((\<forall>s < n. rm ! s = -1) \<longrightarrow> kc' = kc) \<and>
    (\<forall>u < length (kc_seq_to_stream kc). kvc_positions kc' u = {p \<in> kvc_positions kc u. u < n \<longrightarrow> rm ! u < p}) \<and>
    (\<forall>t. \<forall>i < kvc_get_size kc. \<forall>k. kvc_view kc t i = Some k \<longrightarrow> (\<forall>u \<in> cell_seq k. u < n \<longrightarrow> rm ! u < cell_pos k) \<longrightarrow>
       kvc_view kc' t i = Some k)"
  have "?P n (fold (purge_seq rm) [0..<n] (Some kc))"
  proof (rule fold_upt_invariant [where P = ?P])
    show "?P 0 (Some kc)" using assms(1) by auto
  next
    fix s k assume s: "s < n" and "?P s k"
    then obtain kc1 where k: "k = Some kc1" "kvc_wf kc1" "kvc_frame kc kc1"
      "(\<forall>s' < s. rm ! s' = -1) \<longrightarrow> kc1 = kc"
      "\<forall>u < length (kc_seq_to_stream kc). kvc_positions kc1 u = {p \<in> kvc_positions kc u. u < s \<longrightarrow> rm ! u < p}"
      "\<forall>t. \<forall>i < kvc_get_size kc. \<forall>k. kvc_view kc t i = Some k \<longrightarrow> (\<forall>u \<in> cell_seq k. u < s \<longrightarrow> rm ! u < cell_pos k) \<longrightarrow>
         kvc_view kc1 t i = Some k" by blast
    note f = kvc_frameD [OF k(3)]
    have a: "\<not> kc_other kc1" "rm ! s \<noteq> -1 \<Longrightarrow> s < length (kc_seq_to_stream kc1) \<and> 0 \<le> rm ! s"
      using assms(2) assms(3) [OF s] f by auto
    obtain kc2 where st: "purge_seq rm s (Some kc1) = Some kc2" "kvc_wf kc2" "kvc_frame kc1 kc2"
      "rm ! s = -1 \<Longrightarrow> kc2 = kc1"
      "\<And>u. u < length (kc_seq_to_stream kc1) \<Longrightarrow>
         kvc_positions kc2 u = {p \<in> kvc_positions kc1 u. u = s \<longrightarrow> rm ! s < p}"
      "\<And>t i k. i < kvc_get_size kc1 \<Longrightarrow> kvc_view kc1 t i = Some k \<Longrightarrow> s \<in> cell_seq k \<longrightarrow> rm ! s < cell_pos k \<Longrightarrow>
         kvc_view kc2 t i = Some k" by (rule purge_step [OF k(2) a]) iprover+
    show "?P (Suc s) (purge_seq rm s k)"
    proof (intro exI [of _ kc2] conjI)
      show "kvc_frame kc kc2" by (rule kvc_frame_trans [OF k(3) st(3)])
      show "(\<forall>s' < Suc s. rm ! s' = -1) \<longrightarrow> kc2 = kc" using k(4) st(4) by (simp add: less_Suc_eq)
      show "\<forall>u < length (kc_seq_to_stream kc). kvc_positions kc2 u = {p \<in> kvc_positions kc u. u < Suc s \<longrightarrow> rm ! u < p}"
        using k(5) st(5) f(2) by (auto simp: less_Suc_eq)
      show "\<forall>t. \<forall>i < kvc_get_size kc. \<forall>k. kvc_view kc t i = Some k \<longrightarrow>
          (\<forall>u \<in> cell_seq k. u < Suc s \<longrightarrow> rm ! u < cell_pos k) \<longrightarrow> kvc_view kc2 t i = Some k"
        using k(6) st(6) f(4) by (simp add: less_Suc_eq)
    qed (use k(1) st(1,2) in auto)
  qed
  then obtain kc' where "fold (purge_seq rm) [0..<n] (Some kc) = Some kc'" "kvc_wf kc'" "kvc_frame kc kc'"
    "(\<forall>s < n. rm ! s = -1) \<longrightarrow> kc' = kc"
    "\<forall>u < length (kc_seq_to_stream kc). kvc_positions kc' u = {p \<in> kvc_positions kc u. u < n \<longrightarrow> rm ! u < p}"
    "\<forall>t. \<forall>i < kvc_get_size kc. \<forall>k. kvc_view kc t i = Some k \<longrightarrow> (\<forall>u \<in> cell_seq k. u < n \<longrightarrow> rm ! u < cell_pos k) \<longrightarrow>
       kvc_view kc' t i = Some k" by blast
  then show thesis by (intro that [of kc']) blast+
qed

subsection \<open>Moving the heads\<close>

definition move_heads :: "slot_info \<Rightarrow> nat \<Rightarrow> kv_cache \<Rightarrow> kv_cache" where
  "move_heads si n kc = fold (\<lambda>s kc. kc\<lparr>kc_heads := (kc_heads kc)[si_strm si ! s := last (si_idxs si ! s) + 1]\<rparr>) [0..<n] kc"

lemma move_heads_effect:
  assumes "kvc_wf kc" "\<forall>s < n. si_strm si ! s < kc_n_stream kc \<and> last (si_idxs si ! s) < kvc_get_size kc"
  shows "kvc_wf (move_heads si n kc)" "kvc_frame kc (move_heads si n kc)" "kvc_view (move_heads si n kc) = kvc_view kc"
    "kc_cells (move_heads si n kc) = kc_cells kc"
proof -
  let ?P = "\<lambda>n kc'. kvc_wf kc' \<and> kvc_frame kc kc' \<and> kc_cells kc' = kc_cells kc"
  have "?P n (move_heads si n kc)"
    unfolding move_heads_def
  proof (rule fold_upt_invariant [where P = ?P])
    show "?P 0 kc" using assms(1) by simp
  next
    fix s kc' assume s: "s < n" and P: "?P s kc'"
    then have P': "kvc_wf kc'" "kvc_frame kc kc'" "kc_cells kc' = kc_cells kc" by auto
    let ?t = "si_strm si ! s" and ?h = "last (si_idxs si ! s) + 1"
    note f = kvc_frameD [OF P'(2)]
    have t: "?t < kc_n_stream kc'" "?h \<le> kvc_get_size kc'" using assms(2) s f(1,4) by auto
    have put: "kc'\<lparr>kc_heads := (kc_heads kc')[?t := ?h]\<rparr> = kvc_put ?t (kc_cells kc' ! ?t) ?h kc'"
      by (simp add: kvc_put_def list_update_id)
    note w = kvc_wfD [OF P'(1)]
    have "kvc_wf (kvc_put ?t (kc_cells kc' ! ?t) ?h kc')"
      by (rule kvc_wf_put [OF P'(1) t(1) w(7) [OF t(1)] w(8) [OF t(1)] t(2)])
        (use w(10) [OF t(1)] in \<open>auto simp: kvc_view_def\<close>)
    moreover have "kvc_frame kc (kvc_put ?t (kc_cells kc' ! ?t) ?h kc')"
      by (rule kvc_frame_trans [OF P'(2) kvc_frame_put [OF P'(1) t(1) w(8) [OF t(1)]]])
    ultimately show "?P (Suc s) (kc'\<lparr>kc_heads := (kc_heads kc')[?t := ?h]\<rparr>)"
      unfolding put using P'(3) by (simp add: list_update_id)
  qed
  then show "kvc_wf (move_heads si n kc)" "kvc_frame kc (move_heads si n kc)"
    "kc_cells (move_heads si n kc) = kc_cells kc" "kvc_view (move_heads si n kc) = kvc_view kc"
    by (auto simp: kvc_view_def fun_eq_iff)
qed

subsection \<open>The effect of \<open>apply_ubatch\<close>\<close>

definition ub_appends :: "kv_cache \<Rightarrow> llama_ubatch \<Rightarrow> bool" where
  \<comment> \<open>every token comes after all the positions its sequences already have\<close>
  "ub_appends kc ub \<longleftrightarrow>
     (\<forall>i < ub_n_tokens ub. \<forall>q \<in> ub_seqs ub i. \<forall>p \<in> kvc_positions kc q. p < ub_pos ub ! i)"

definition ub_new :: "llama_ubatch \<Rightarrow> nat \<Rightarrow> llama_pos set" where
  "ub_new ub q = {ub_pos ub ! i |i. i < ub_n_tokens ub \<and> q \<in> ub_seqs ub i}"

lemma ub_token_decomp:
  assumes "ub_ok kc ub" "i < ub_n_tokens ub"
  obtains s ii where "s < ub_n_slots kc ub" "ii < ub_per_slot kc ub" "i = s * ub_per_slot kc ub + ii"
proof
  note m = ub_slots_mult [OF assms(1)]
  show "i div ub_per_slot kc ub < ub_n_slots kc ub" using assms(2) m by (simp add: less_mult_imp_div_less)
  show "i mod ub_per_slot kc ub < ub_per_slot kc ub" using m(2) by simp
qed (rule div_mult_mod_eq [symmetric])

lemma overwritten_in_positions:
  assumes "kvc_wf kc" "ub_ok kc ub" "slot_ok kc ub si" "p \<in> overwritten kc si (ub_n_slots kc ub) q"
  shows "q < length (kc_seq_to_stream kc)" "p \<in> kvc_positions kc q"
    "is_masked_swa (kc_n_swa kc) (kc_swa_type kc) p (Max (kvc_positions kc q) + 1)"
proof -
  obtain s j where s: "s < ub_n_slots kc ub" "j \<in> set (si_idxs si ! s)" "at_pos q p (kvc_view kc (si_strm si ! s) j)"
    using assms(4) by (auto simp: overwritten_def)
  note sl = slot_okD [OF assms(3) s(1)] and t = ub_stream_lt(1) [OF assms(1,2) s(1)]
  let ?t = "ub_stream kc ub s"
  have at: "at_pos q p (kvc_view kc ?t j)" using s(3) sl(1) by simp
  then have "cell_has_seq q (kvc_view kc ?t j)" by (auto simp: at_pos_def cell_has_seq_def)
  then have q: "q < length (kc_seq_to_stream kc)" "stream_of kc q = ?t"
    using kvc_wfD(10) [OF assms(1) t] sl(4) [OF s(2)] by auto
  show "q < length (kc_seq_to_stream kc)" by (rule q)
  show pq: "p \<in> kvc_positions kc q"
    using at sl(4) [OF s(2)] q by (auto simp: positions_at [OF assms(1) q(1)])
  let ?c = "kc_cells kc ! ?t"
  have j: "j < length (kv_pos ?c)" using sl(4) [OF s(2)] kvc_wfD(8) [OF assms(1) t] by (simp add: cells_size_def)
  have ne: "\<not> cells_is_empty ?c j" using at by (auto simp: at_pos_def kvc_view_def cells_is_empty_view)
  obtain r where r: "kv_seq ?c ! j = {r}"
      "is_masked_swa (kc_n_swa kc) (kc_swa_type kc) (kv_pos ?c ! j) (cells_seq_pos_max ?c r + 1)"
    using can_use_occupied [OF kvc_wfD(7) [OF assms(1) t] j _ ne] sl(4) [OF s(2)] by blast
  have "r = q" "kv_pos ?c ! j = p"
    using at r(1) ne by (auto simp: at_pos_def kvc_view_def cells_view_def split: if_splits)
  moreover have "cells_seq_pos_max ?c q = Max (kvc_positions kc q)"
    using pq cells_seq_pos_max_eq [OF kvc_wfD(7) [OF assms(1) t]] q(2)
    by (auto simp: kvc_positions_def cells_of_def)
  ultimately show "is_masked_swa (kc_n_swa kc) (kc_swa_type kc) p (Max (kvc_positions kc q) + 1)"
    using r(2) by simp
qed

lemma placed_positions:
  assumes "kvc_wf kc" "ub_ok kc ub" "slot_ok kc ub si" "placed_upto kc ub si (ub_n_slots kc ub) kc'"
    and q: "q < length (kc_seq_to_stream kc)"
  shows "p \<in> kvc_positions kc' q \<longleftrightarrow> p \<in> ub_new ub q \<or>
    (\<exists>j < kvc_get_size kc. (\<forall>s < ub_n_slots kc ub. ub_stream kc ub s = stream_of kc q \<longrightarrow> j \<notin> set (si_idxs si ! s)) \<and>
       at_pos q p (kvc_view kc (stream_of kc q) j))"
proof -
  let ?N = "ub_n_slots kc ub" and ?n = "ub_per_slot kc ub" and ?t = "stream_of kc q"
  have P: "kvc_wf kc'" "kvc_frame kc kc'" using assms(4) by (auto simp: placed_upto_def)
  have strm: "si_strm si ! s = ub_stream kc ub s" if "s < ?N" for s using slot_okD(1) [OF assms(3) that] .
  have new: "placed kc ub (s * ?n + ii) (kvc_view kc' (ub_stream kc ub s) (si_idxs si ! s ! ii))"
    if "s < ?N" "ii < ?n" for s ii using assms(4) that strm [OF that(1)] unfolding placed_upto_def by metis
  have same: "kvc_view kc' ?t j = kvc_view kc ?t j"
    if "\<And>s. s < ?N \<Longrightarrow> ub_stream kc ub s = ?t \<Longrightarrow> j \<notin> set (si_idxs si ! s)" for j
  proof (cases "\<exists>s < ?N. ub_stream kc ub s = ?t")
    case True
    then obtain s where s: "s < ?N" "ub_stream kc ub s = ?t" by blast
    have "\<forall>s < ?N. \<forall>j. j \<notin> set (si_idxs si ! s) \<longrightarrow> kvc_view kc' (si_strm si ! s) j = kvc_view kc (si_strm si ! s) j"
      using assms(4) unfolding placed_upto_def by blast
    then have "kvc_view kc' (si_strm si ! s) j = kvc_view kc (si_strm si ! s) j" using s(1) that [OF s] by blast
    then show ?thesis using s(2) strm [OF s(1)] by simp
  next
    case False
    then have "?t \<notin> (!) (si_strm si) ` {..<?N}" using strm by auto
    then show ?thesis using assms(4) by (simp add: placed_upto_def kvc_view_def)
  qed
  have at_new: "at_pos q p (kvc_view kc' (ub_stream kc ub s) (si_idxs si ! s ! ii)) \<longleftrightarrow>
      q \<in> ub_seqs ub (s * ?n + ii) \<and> p = ub_pos ub ! (s * ?n + ii)" if s: "s < ?N" "ii < ?n" for s ii
  proof -
    obtain k where "kvc_view kc' (ub_stream kc ub s) (si_idxs si ! s ! ii) = Some k"
        "cell_pos k = ub_pos ub ! (s * ?n + ii)" "cell_seq k = ub_seqs ub (s * ?n + ii)"
      using new [OF s] unfolding placed_def by blast
    then show ?thesis by (auto simp: at_pos_def)
  qed
  show ?thesis
    unfolding positions_after [OF P q]
  proof
    assume "\<exists>j < kvc_get_size kc. at_pos q p (kvc_view kc' ?t j)"
    then obtain j where j: "j < kvc_get_size kc" "at_pos q p (kvc_view kc' ?t j)" by blast
    show "p \<in> ub_new ub q \<or> (\<exists>j < kvc_get_size kc. (\<forall>s < ?N. ub_stream kc ub s = ?t \<longrightarrow> j \<notin> set (si_idxs si ! s)) \<and>
        at_pos q p (kvc_view kc ?t j))"
    proof (cases "\<exists>s < ?N. ub_stream kc ub s = ?t \<and> j \<in> set (si_idxs si ! s)")
      case True
      then obtain s where s: "s < ?N" "ub_stream kc ub s = ?t" "j \<in> set (si_idxs si ! s)" by blast
      then obtain ii where ii: "ii < ?n" "j = si_idxs si ! s ! ii"
        using slot_okD(2) [OF assms(3) s(1)] by (auto simp: in_set_conv_nth)
      have "q \<in> ub_seqs ub (s * ?n + ii)" "p = ub_pos ub ! (s * ?n + ii)"
        using at_new [OF s(1) ii(1)] j(2) s(2) ii(2) by auto
      then show ?thesis using ub_token_index(1) [OF assms(2) s(1) ii(1)] unfolding ub_new_def by blast
    next
      case False
      then show ?thesis using j same [of j] by metis
    qed
  next
    assume "p \<in> ub_new ub q \<or> (\<exists>j < kvc_get_size kc. (\<forall>s < ?N. ub_stream kc ub s = ?t \<longrightarrow> j \<notin> set (si_idxs si ! s)) \<and>
        at_pos q p (kvc_view kc ?t j))"
    then show "\<exists>j < kvc_get_size kc. at_pos q p (kvc_view kc' ?t j)"
    proof
      assume "p \<in> ub_new ub q"
      then obtain i where i: "i < ub_n_tokens ub" "q \<in> ub_seqs ub i" "p = ub_pos ub ! i" by (auto simp: ub_new_def)
      obtain s ii where s: "s < ?N" "ii < ?n" "i = s * ?n + ii" by (rule ub_token_decomp [OF assms(2) i(1)])
      have "?t = ub_stream kc ub s" using ub_token_stream(2) [OF assms(1,2) s(1,2)] i(2) s(3) by simp
      moreover have "si_idxs si ! s ! ii < kvc_get_size kc"
        using slot_okD(2,4) [OF assms(3) s(1)] s(2) by simp
      ultimately show ?thesis using at_new [OF s(1,2)] i s(3) by auto
    qed (use same in metis)
  qed
qed

lemma apply_ubatch_effect:
  assumes "kvc_wf kc" "\<not> kc_other kc" "ub_ok kc ub" "slot_ok kc ub si" "ub_appends kc ub"
  obtains kc' where "kvc_apply_ubatch si ub kc = Some kc'" "kvc_wf kc'" "kvc_frame kc kc'"
    "\<And>s ii. s < ub_n_slots kc ub \<Longrightarrow> ii < ub_per_slot kc ub \<Longrightarrow>
       placed kc ub (s * ub_per_slot kc ub + ii) (kvc_view kc' (ub_stream kc ub s) (si_idxs si ! s ! ii))"
    "\<And>q. q < length (kc_seq_to_stream kc) \<Longrightarrow> kvc_positions kc' q =
       ub_new ub q \<union> {p \<in> kvc_positions kc q. \<forall>o' \<in> overwritten kc si (ub_n_slots kc ub) q. o' < p}"
proof -
  let ?N = "ub_n_slots kc ub" and ?n = "ub_per_slot kc ub"
  obtain kc1 rm where p: "fold (place_stream si ?n ub) [0..<?N] (kc, replicate LLAMA_MAX_SEQ (-1)) = (kc1, rm)"
    "placed_upto kc ub si ?N kc1" "length rm = LLAMA_MAX_SEQ"
    "\<And>q. q < LLAMA_MAX_SEQ \<Longrightarrow> rm ! q = Max (insert (-1) (overwritten kc si ?N q))"
    by (rule place_all [OF assms(1,3,4)]) iprover
  have P: "kvc_wf kc1" "kvc_frame kc kc1" using p(2) by (auto simp: placed_upto_def)
  note f1 = kvc_frameD [OF P(2)]
  have lens: "length (si_strm si) = ?N" "length (si_idxs si) = ?N" using assms(4) by (auto simp: slot_ok_def)
  note N = ub_slots_mult [OF assms(3)]
  have fin: "finite (overwritten kc si ?N q)" for q by (rule finite_overwritten) (simp add: lens)
  note ow = overwritten_in_positions [OF assms(1,3,4)]
  have rm: "rm ! q < p \<longleftrightarrow> (\<forall>o' \<in> overwritten kc si ?N q. o' < p)" if "q < LLAMA_MAX_SEQ" "0 \<le> p" for q p
    unfolding p(4) [OF that(1)] using fin [of q] that(2) by (subst Max_less_iff) auto
  have rm_seq: "s < length (kc_seq_to_stream kc1) \<and> 0 \<le> rm ! s" if "s < LLAMA_MAX_SEQ" "rm ! s \<noteq> -1" for s
  proof -
    have "rm ! s \<in> insert (-1) (overwritten kc si ?N s)" unfolding p(4) [OF that(1)] using fin [of s] by (intro Max_in) auto
    then have o': "rm ! s \<in> overwritten kc si ?N s" using that(2) by blast
    then show ?thesis using ow(1,2) [OF o'] seq_pos_min_bound [OF assms(1)] f1(2) by simp
  qed
  have other1: "\<not> kc_other kc1" using f1(3) assms(2) by simp
  obtain kc2 where g: "fold (purge_seq rm) [0..<LLAMA_MAX_SEQ] (Some kc1) = Some kc2" "kvc_wf kc2" "kvc_frame kc1 kc2"
    "\<And>u. u < length (kc_seq_to_stream kc1) \<Longrightarrow>
       kvc_positions kc2 u = {p \<in> kvc_positions kc1 u. u < LLAMA_MAX_SEQ \<longrightarrow> rm ! u < p}"
    "\<And>t i k. i < kvc_get_size kc1 \<Longrightarrow> kvc_view kc1 t i = Some k \<Longrightarrow>
       \<forall>u \<in> cell_seq k. u < LLAMA_MAX_SEQ \<longrightarrow> rm ! u < cell_pos k \<Longrightarrow> kvc_view kc2 t i = Some k"
    by (rule purge_all [OF P(1) other1 rm_seq]) iprover+
  note f2 = kvc_frameD [OF kvc_frame_trans [OF P(2) g(3)]]
  have "si_strm si ! s < kc_n_stream kc2 \<and> last (si_idxs si ! s) < kvc_get_size kc2" if "s < ?N" for s
    using slot_okD [OF assms(4) that] ub_stream_lt(1) [OF assms(1,3) that] N(2) f2 last_in_set [of "si_idxs si ! s"]
    by (cases "si_idxs si ! s") auto
  then have last: "\<forall>s < ?N. si_strm si ! s < kc_n_stream kc2 \<and> last (si_idxs si ! s) < kvc_get_size kc2" by blast
  let ?kc' = "move_heads si ?N kc2"
  note h = move_heads_effect [OF g(2) last]
  show thesis
  proof (rule that [of ?kc'])
    have "slot_size si = Some ?n" "slot_n_stream si = ?N" "slot_n_stream si \<noteq> 0"
      using lens N(3) slot_okD(2) [OF assms(4) N(3)] by (auto simp: slot_size_def slot_n_stream_def)
    then show "kvc_apply_ubatch si ub kc = Some ?kc'"
      using assms(2) by (simp add: kvc_apply_ubatch_def p(1) g(1) move_heads_def)
    show "kvc_wf ?kc'" "kvc_frame kc ?kc'"
      using h(1) kvc_frame_trans [OF kvc_frame_trans [OF P(2) g(3)] h(2)] by blast+
    have new_gt: "\<forall>o' \<in> overwritten kc si ?N q. o' < ub_pos ub ! i" if "i < ub_n_tokens ub" "q \<in> ub_seqs ub i" for i q
      using ow(2) assms(5) that unfolding ub_appends_def by blast
    show "placed kc ub (s * ?n + ii) (kvc_view ?kc' (ub_stream kc ub s) (si_idxs si ! s ! ii))"
      if s: "s < ?N" "ii < ?n" for s ii
    proof -
      note i = ub_token_index(1) [OF assms(3) s]
      have "placed kc ub (s * ?n + ii) (kvc_view kc1 (ub_stream kc ub s) (si_idxs si ! s ! ii))"
        using p(2) s slot_okD(1) [OF assms(4) s(1)] unfolding placed_upto_def by metis
      then obtain k where k: "kvc_view kc1 (ub_stream kc ub s) (si_idxs si ! s ! ii) = Some k"
          "cell_pos k = ub_pos ub ! (s * ?n + ii)" "cell_seq k = ub_seqs ub (s * ?n + ii)"
          "writes_ext kc ub \<longrightarrow> cell_ext k = ubatch_ext kc ub (s * ?n + ii)"
        unfolding placed_def by blast
      have "\<forall>u \<in> cell_seq k. u < LLAMA_MAX_SEQ \<longrightarrow> rm ! u < cell_pos k"
        using rm new_gt [OF i] k(2,3) ub_okD(4) [OF assms(3) i] by simp
      moreover have "si_idxs si ! s ! ii < kvc_get_size kc1"
        using slot_okD(2,4) [OF assms(4) s(1)] s(2) f1(4) by simp
      ultimately have "kvc_view kc2 (ub_stream kc ub s) (si_idxs si ! s ! ii) = Some k" using g(5) k(1) by blast
      then show ?thesis unfolding h(3) placed_def using k by simp
    qed
    show "kvc_positions ?kc' q = ub_new ub q \<union> {p \<in> kvc_positions kc q. \<forall>o' \<in> overwritten kc si ?N q. o' < p}"
      if q: "q < length (kc_seq_to_stream kc)" for q
    proof -
      have qm: "q < LLAMA_MAX_SEQ" using q kvc_wfD(4) [OF assms(1)] by simp
      have pos2: "kvc_positions ?kc' q = kvc_positions kc2 q"
        using h(4) kvc_frameD(5) [OF h(2)] by (simp add: kvc_positions_def cells_of_def)
      have nonneg: "0 \<le> p" if "p \<in> kvc_positions kc1 q" for p
        using seq_pos_min_bound [OF P(1), of q p] q f1(2) that by simp
      have "p \<in> kvc_positions kc2 q \<longleftrightarrow> p \<in> kvc_positions kc1 q \<and> (\<forall>o' \<in> overwritten kc si ?N q. o' < p)" for p
        using g(4) [of q] q f1(2) qm rm [OF qm] nonneg by auto
      moreover have "p \<in> kvc_positions kc1 q \<and> (\<forall>o' \<in> overwritten kc si ?N q. o' < p) \<longleftrightarrow>
          p \<in> ub_new ub q \<or> (p \<in> kvc_positions kc q \<and> (\<forall>o' \<in> overwritten kc si ?N q. o' < p))" for p
      proof -
        have "\<forall>s < ?N. ub_stream kc ub s = stream_of kc q \<longrightarrow> j \<notin> set (si_idxs si ! s)"
          if j: "at_pos q p (kvc_view kc (stream_of kc q) j)" "\<forall>o' \<in> overwritten kc si ?N q. o' < p" for j
        proof (intro allI impI notI)
          fix s assume s: "s < ?N" "ub_stream kc ub s = stream_of kc q" "j \<in> set (si_idxs si ! s)"
          have "at_pos q p (kvc_view kc (si_strm si ! s) j)" using j(1) slot_okD(1) [OF assms(4) s(1)] s(2) by simp
          then have "p \<in> overwritten kc si ?N q" using s(1,3) unfolding overwritten_def by blast
          then show False using j(2) by blast
        qed
        then show ?thesis
          unfolding placed_positions [OF assms(1,3,4) p(2) q] positions_at [OF assms(1) q]
          using new_gt unfolding ub_new_def by blast
      qed
      ultimately show ?thesis unfolding pos2 by (auto simp: set_eq_iff)
    qed
  qed
qed

text \<open>C7. \<open>apply_ubatch\<close> on a slot that \<open>find_slot\<close> accepts, for tokens that continue their sequences,
  puts every token into its cell with its position, sequences and extra data; afterwards each
  sequence has exactly the new positions and those old ones that lie above everything that was
  overwritten, and what was overwritten was outside the attention window.\<close>

theorem kvc_apply_ubatch_correct:
  assumes "kvc_wf kc" "\<not> kc_other kc" "ub_ok kc ub" "slot_ok kc ub si" "ub_appends kc ub"
  shows "\<exists>kc'. kvc_apply_ubatch si ub kc = Some kc' \<and> kvc_wf kc' \<and>
    (\<forall>s < ub_n_slots kc ub. \<forall>ii < ub_per_slot kc ub.
       placed kc ub (s * ub_per_slot kc ub + ii) (kvc_view kc' (ub_stream kc ub s) (si_idxs si ! s ! ii))) \<and>
    (\<forall>q < length (kc_seq_to_stream kc). kvc_positions kc' q = ub_new ub q \<union>
       {p \<in> kvc_positions kc q. \<forall>o' \<in> overwritten kc si (ub_n_slots kc ub) q. o' < p}) \<and>
    (\<forall>q. \<forall>o' \<in> overwritten kc si (ub_n_slots kc ub) q.
       is_masked_swa (kc_n_swa kc) (kc_swa_type kc) o' (Max (kvc_positions kc q) + 1))"
  by (rule apply_ubatch_effect [OF assms])
    (use overwritten_in_positions(3) [OF assms(1,3,4)] in blast)

definition gap_free :: "llama_pos set \<Rightarrow> bool" where
  "gap_free S \<longleftrightarrow> (\<forall>a \<in> S. \<forall>b \<in> S. {a..b} \<subseteq> S)"

text \<open>C16. The invariant the purge in \<open>apply_ubatch\<close> is for: when the old positions of a sequence with
  the new ones have no gap, the positions the cache holds afterwards have no gap either.\<close>

theorem kvc_apply_ubatch_gap_free:
  assumes "kvc_wf kc" "\<not> kc_other kc" "ub_ok kc ub" "slot_ok kc ub si" "ub_appends kc ub"
    and "q < length (kc_seq_to_stream kc)" "gap_free (kvc_positions kc q \<union> ub_new ub q)"
  shows "\<exists>kc'. kvc_apply_ubatch si ub kc = Some kc' \<and> gap_free (kvc_positions kc' q)"
proof -
  let ?O = "overwritten kc si (ub_n_slots kc ub) q"
  obtain kc' where k: "kvc_apply_ubatch si ub kc = Some kc'"
    "\<And>q. q < length (kc_seq_to_stream kc) \<Longrightarrow> kvc_positions kc' q =
       ub_new ub q \<union> {p \<in> kvc_positions kc q. \<forall>o' \<in> overwritten kc si (ub_n_slots kc ub) q. o' < p}"
    by (rule apply_ubatch_effect [OF assms(1-5)]) iprover
  have new: "p < n" if "p \<in> kvc_positions kc q" "n \<in> ub_new ub q" for p n
    using assms(5) that unfolding ub_appends_def ub_new_def by blast
  have "gap_free (ub_new ub q \<union> {p \<in> kvc_positions kc q. \<forall>o' \<in> ?O. o' < p})"
    unfolding gap_free_def
  proof (intro ballI subsetI)
    fix a b p
    assume a: "a \<in> ub_new ub q \<union> {p \<in> kvc_positions kc q. \<forall>o' \<in> ?O. o' < p}"
      and b: "b \<in> ub_new ub q \<union> {p \<in> kvc_positions kc q. \<forall>o' \<in> ?O. o' < p}" and p: "p \<in> {a..b}"
    have "p \<in> kvc_positions kc q \<union> ub_new ub q"
      using assms(7) a b p unfolding gap_free_def by blast
    moreover have "\<forall>o' \<in> ?O. o' < p" if "p \<in> kvc_positions kc q"
    proof -
      have "a \<notin> ub_new ub q" using new [OF that, of a] p by auto
      then show ?thesis using a p by fastforce
    qed
    ultimately show "p \<in> ub_new ub q \<union> {p \<in> kvc_positions kc q. \<forall>o' \<in> ?O. o' < p}" by blast
  qed
  then show ?thesis using k assms(6) by (intro exI [of _ kc']) simp
qed

subsection \<open>Preparing is restoring\<close>

lemma cells_cp_idxs_fields:
  "kv_pos (cells_cp_idxs c xs) = map ((!) (kv_pos c)) xs"
  "kv_ext (cells_cp_idxs c xs) = map ((!) (kv_ext c)) xs"
  "kv_seq (cells_cp_idxs c xs) = map ((!) (kv_seq c)) xs"
proof -
  let ?r0 = "cells_resize cells_empty (length xs)"
  let ?P = "\<lambda>n r. kv_pos r = map ((!) (kv_pos c)) (take n xs) @ drop n (kv_pos ?r0) \<and>
    kv_ext r = map ((!) (kv_ext c)) (take n xs) @ drop n (kv_ext ?r0) \<and>
    kv_seq r = map ((!) (kv_seq c)) (take n xs) @ drop n (kv_seq ?r0)"
  have len: "length (kv_pos ?r0) = length xs" "length (kv_ext ?r0) = length xs" "length (kv_seq ?r0) = length xs"
    by (simp_all add: cells_resize_def cells_reset_def)
  have upd: "(map f (take n xs) @ drop n ys)[n := f (xs ! n)] = map f (take (Suc n) xs) @ drop (Suc n) ys"
    if "n < length xs" "length ys = length xs" for f :: "nat \<Rightarrow> 'z" and n and ys :: "'z list"
    using that by (simp add: list_update_append take_Suc_conv_app_nth Cons_nth_drop_Suc [symmetric])
  have "?P (length xs) (cells_cp_idxs c xs)"
    unfolding cells_cp_idxs_def Let_def
    by (rule fold_upt_invariant [where P = ?P]) (simp_all add: upd len)
  then show "kv_pos (cells_cp_idxs c xs) = map ((!) (kv_pos c)) xs"
    "kv_ext (cells_cp_idxs c xs) = map ((!) (kv_ext c)) xs"
    "kv_seq (cells_cp_idxs c xs) = map ((!) (kv_seq c)) xs" by (simp_all add: len)
qed

lemma cells_cp_idxs_ok:
  assumes "cells_wf c" "set xs \<subseteq> {..<length (kv_pos c)}"
  shows "cells_data_ok (cells_cp_idxs c xs)"
proof -
  have "xs ! i < length (kv_pos c)" if "i < length xs" for i using assms(2) nth_mem [OF that] by auto
  then show ?thesis
    using cells_wf_cellD(1,2,6) [OF assms(1)] by (simp add: cells_data_ok_def cells_cp_idxs_fields)
qed

lemma cells_set_idxs_effect:
  assumes "cells_wf c" "distinct xs" "set xs \<subseteq> {..<length (kv_pos c)}" "cells_data_ok other"
    and "length (kv_pos other) = length xs"
  shows "cells_wf (cells_set_idxs xs other c)" "length (kv_pos (cells_set_idxs xs other c)) = length (kv_pos c)"
    "j \<notin> set xs \<Longrightarrow> cells_view (cells_set_idxs xs other c) j = cells_view c j"
    "k < length xs \<Longrightarrow> cells_view (cells_set_idxs xs other c) (xs ! k) =
       map_option (\<lambda>v. v\<lparr>cell_shift := kv_shift c ! (xs ! k)\<rparr>) (cells_view other k)"
proof -
  let ?P = "\<lambda>n r. cells_wf r \<and> length (kv_pos r) = length (kv_pos c) \<and> kv_shift r = kv_shift c \<and>
    (\<forall>j. j \<notin> (!) xs ` {..<n} \<longrightarrow> cells_view r j = cells_view c j) \<and>
    (\<forall>k < n. cells_view r (xs ! k) = map_option (\<lambda>v. v\<lparr>cell_shift := kv_shift c ! (xs ! k)\<rparr>) (cells_view other k))"
  have "?P (length xs) (cells_set_idxs xs other c)"
    unfolding cells_set_idxs_def assms(5)
  proof (rule fold_upt_invariant [where P = ?P])
    show "?P 0 c" using assms(1) by simp
  next
    fix k r assume k: "k < length xs" and P: "?P k r"
    then have r: "cells_wf r" "xs ! k < length (kv_pos r)" "k < length (kv_pos other)"
      using assms(3,5) nth_mem [OF k] by (auto simp: subset_iff)
    note w = cells_wf_set1 [OF r(1) assms(4) r(2,3)]
    have sh: "kv_shift (cells_set1 (xs ! k) other k r) = kv_shift r"
      by (simp add: cells_set1_def seq_pos_rm_def seq_pos_add_def Let_def)
    have old: "xs ! k' \<noteq> xs ! k" if "k' < k" for k' using that k assms(2) by (simp add: nth_eq_iff_index_eq)
    show "?P (Suc k) (cells_set1 (xs ! k) other k r)"
      using w P sh old
      by (auto simp: cells_length cells_view_set1 [OF r(1,2)] lessThan_Suc less_Suc_eq)
  qed
  then have P: "?P (length xs) (cells_set_idxs xs other c)" .
  have img: "(!) xs ` {..<length xs} = set xs" by (auto simp: set_conv_nth)
  show "cells_wf (cells_set_idxs xs other c)" "length (kv_pos (cells_set_idxs xs other c)) = length (kv_pos c)"
    "j \<notin> set xs \<Longrightarrow> cells_view (cells_set_idxs xs other c) j = cells_view c j"
    "k < length xs \<Longrightarrow> cells_view (cells_set_idxs xs other c) (xs ! k) =
       map_option (\<lambda>v. v\<lparr>cell_shift := kv_shift c ! (xs ! k)\<rparr>) (cells_view other k)"
    using P unfolding img by blast+
qed

lemma restore_cells:
  \<comment> \<open>cells that were empty are empty again\<close>
  assumes "cells_wf c0" "cells_wf c" "length (kv_pos c) = length (kv_pos c0)" "distinct xs"
    and "set xs \<subseteq> {..<length (kv_pos c0)}" "\<And>j. j \<in> set xs \<Longrightarrow> cells_is_empty c0 j"
    and "\<And>j. j \<notin> set xs \<Longrightarrow> cells_view c j = cells_view c0 j"
  shows "cells_wf (cells_set_idxs xs (cells_cp_idxs c0 xs) c)"
    "length (kv_pos (cells_set_idxs xs (cells_cp_idxs c0 xs) c)) = length (kv_pos c0)"
    "cells_view (cells_set_idxs xs (cells_cp_idxs c0 xs) c) j = cells_view c0 j"
proof -
  have len: "length (kv_pos (cells_cp_idxs c0 xs)) = length xs" by (simp add: cells_cp_idxs_fields)
  note e = cells_set_idxs_effect [OF assms(2,4) _ cells_cp_idxs_ok [OF assms(1,5)] len, unfolded assms(3), OF assms(5)]
  show "cells_wf (cells_set_idxs xs (cells_cp_idxs c0 xs) c)"
    "length (kv_pos (cells_set_idxs xs (cells_cp_idxs c0 xs) c)) = length (kv_pos c0)"
    using e(1,2) by simp_all
  show "cells_view (cells_set_idxs xs (cells_cp_idxs c0 xs) c) j = cells_view c0 j"
  proof (cases "j \<in> set xs")
    case True
    then obtain k where k: "k < length xs" "j = xs ! k" by (auto simp: in_set_conv_nth)
    have "cells_view (cells_cp_idxs c0 xs) k = None"
      using assms(6) [OF True] k by (simp add: cells_view_def cells_cp_idxs_fields cells_is_empty_def)
    then show ?thesis using e(4) [OF k(1)] assms(6) [OF True] k(2) by (simp add: cells_is_empty_view)
  qed (use e(3) assms(7) in simp)
qed

lemma ub_slots_le:
  assumes "kvc_wf kc" "ub_ok kc ub"
  shows "ub_n_slots kc ub \<le> kc_n_stream kc"
proof -
  have "inj_on (ub_stream kc ub) {..<ub_n_slots kc ub}"
    using ub_stream_inj [OF assms(2)] by (auto intro: inj_onI)
  moreover have "ub_stream kc ub ` {..<ub_n_slots kc ub} \<subseteq> {..<kc_n_stream kc}"
    using ub_stream_lt(1) [OF assms] by auto
  ultimately have "card {..<ub_n_slots kc ub} \<le> card {..<kc_n_stream kc}"
    by (rule card_inj_on_le) simp
  then show ?thesis by simp
qed

definition slot_free :: "kv_cache \<Rightarrow> llama_ubatch \<Rightarrow> slot_info \<Rightarrow> bool" where
  "slot_free kc ub si \<longleftrightarrow> (\<forall>s < ub_n_slots kc ub. \<forall>j \<in> set (si_idxs si ! s). kvc_view kc (ub_stream kc ub s) j = None)"

lemma slot_free_no_swa:
  assumes "slot_ok kc ub si" "kc_swa_type kc = SWA_TYPE_NONE"
  shows "slot_free kc ub si"
proof -
  have "kvc_view kc (ub_stream kc ub s) j = None" if "s < ub_n_slots kc ub" "j \<in> set (si_idxs si ! s)" for s j
    using slot_okD(4) [OF assms(1) that] assms(2)
    by (auto simp: cell_can_use_def kvc_view_def cells_is_empty_view split: if_splits)
  then show ?thesis by (simp add: slot_free_def)
qed

lemma apply_ubatch_free:
  assumes "kvc_wf kc" "\<not> kc_other kc" "ub_ok kc ub" "slot_ok kc ub si" "slot_free kc ub si"
  obtains kc1 where "kvc_apply_ubatch si ub kc = Some (move_heads si (ub_n_slots kc ub) kc1)"
    "placed_upto kc ub si (ub_n_slots kc ub) kc1" "kvc_wf (move_heads si (ub_n_slots kc ub) kc1)"
proof -
  let ?N = "ub_n_slots kc ub" and ?n = "ub_per_slot kc ub"
  obtain kc1 rm where p: "fold (place_stream si ?n ub) [0..<?N] (kc, replicate LLAMA_MAX_SEQ (-1)) = (kc1, rm)"
    "placed_upto kc ub si ?N kc1" "length rm = LLAMA_MAX_SEQ"
    "\<And>q. q < LLAMA_MAX_SEQ \<Longrightarrow> rm ! q = Max (insert (-1) (overwritten kc si ?N q))"
    by (rule place_all [OF assms(1,3,4)]) iprover
  have P: "kvc_wf kc1" "kvc_frame kc kc1" using p(2) by (auto simp: placed_upto_def)
  have lens: "length (si_strm si) = ?N" "length (si_idxs si) = ?N" using assms(4) by (auto simp: slot_ok_def)
  note N = ub_slots_mult [OF assms(3)]
  have "overwritten kc si ?N q = {}" for q
  proof -
    have "\<not> at_pos q p (kvc_view kc (si_strm si ! s) j)" if "s < ?N" "j \<in> set (si_idxs si ! s)" for p s j
      using assms(5) slot_okD(1) [OF assms(4) that(1)] that by (simp add: slot_free_def at_pos_def)
    then show ?thesis unfolding overwritten_def by blast
  qed
  then have rm: "rm ! q = -1" if "q < LLAMA_MAX_SEQ" for q using p(4) [OF that] by simp
  have "fold (purge_seq rm) [0..<n] (Some kc1) = Some kc1" if "n \<le> LLAMA_MAX_SEQ" for n
    using that rm by (induction n) (auto simp: purge_seq_def)
  then have g: "fold (purge_seq rm) [0..<LLAMA_MAX_SEQ] (Some kc1) = Some kc1" by blast
  have "slot_size si = Some ?n" "slot_n_stream si = ?N" "slot_n_stream si \<noteq> 0"
    using lens N(3) slot_okD(2) [OF assms(4) N(3)] by (auto simp: slot_size_def slot_n_stream_def)
  then have ap: "kvc_apply_ubatch si ub kc = Some (move_heads si ?N kc1)"
    using assms(2) by (simp add: kvc_apply_ubatch_def p(1) g move_heads_def)
  have "si_strm si ! s < kc_n_stream kc1 \<and> last (si_idxs si ! s) < kvc_get_size kc1" if "s < ?N" for s
    using slot_okD [OF assms(4) that] ub_stream_lt(1) [OF assms(1,3) that] N(2) kvc_frameD [OF P(2)]
      last_in_set [of "si_idxs si ! s"]
    by (cases "si_idxs si ! s") auto
  then have "kvc_wf (move_heads si ?N kc1)" by (intro move_heads_effect(1) [OF P(1)]) blast
  with ap p(2) show thesis by (rule that)
qed

definition saved_state :: "kv_cache \<Rightarrow> slot_info \<Rightarrow> prep_state" where
  "saved_state kc si = \<lparr>ps_sinfo = si, ps_heads_old = kc_heads kc,
     ps_cells = map (\<lambda>s. cells_cp_idxs (kc_cells kc ! (si_strm si ! s)) (si_idxs si ! s)) [0..<slot_n_stream si]\<rparr>"

lemma restore_state_effect:
  assumes "kvc_wf kc" "ub_ok kc ub" "slot_ok kc ub si" "slot_free kc ub si"
    and "kvc_wf kc'" "kvc_frame kc kc'"
    and out: "\<And>t j. t < kc_n_stream kc \<Longrightarrow> \<forall>s < ub_n_slots kc ub. ub_stream kc ub s = t \<longrightarrow> j \<notin> set (si_idxs si ! s) \<Longrightarrow>
      kvc_view kc' t j = kvc_view kc t j"
  defines "kc'' \<equiv> restore_state (saved_state kc si) kc'"
  shows "kvc_wf kc''" "kvc_frame kc kc''" "\<And>t j. t < kc_n_stream kc \<Longrightarrow> kvc_view kc'' t j = kvc_view kc t j"
    "\<And>s. s < ub_n_slots kc ub \<Longrightarrow> kc_heads kc'' ! ub_stream kc ub s = kc_heads kc ! s"
proof -
  let ?N = "ub_n_slots kc ub"
  have lens: "slot_n_stream si = ?N" using assms(3) by (auto simp: slot_ok_def slot_n_stream_def)
  let ?P = "\<lambda>n k. kvc_wf k \<and> kvc_frame kc k \<and>
    (\<forall>t < kc_n_stream kc. t \<notin> ub_stream kc ub ` {..<n} \<longrightarrow> kvc_view k t = kvc_view kc' t) \<and>
    (\<forall>s < n. kvc_view k (ub_stream kc ub s) = kvc_view kc (ub_stream kc ub s) \<and>
       kc_heads k ! ub_stream kc ub s = kc_heads kc ! s)"
  have "?P ?N kc''"
    unfolding kc''_def restore_state_def saved_state_def prep_state.simps lens
  proof (rule fold_upt_invariant [where P = ?P])
    show "?P 0 kc'" using assms(5,6) by simp
  next
    fix s k assume s: "s < ?N" and P: "?P s k"
    then have k: "kvc_wf k" "kvc_frame kc k" by blast+
    let ?t = "ub_stream kc ub s" and ?xs = "si_idxs si ! s"
    note sl = slot_okD [OF assms(3) s] and t = ub_stream_lt(1) [OF assms(1,2) s]
    note f = kvc_frameD [OF k(2)] and w = kvc_wfD [OF assms(1)] and wk = kvc_wfD [OF k(1)]
    have tk: "?t < kc_n_stream k" using t f(1) by simp
    have fresh: "?t \<notin> ub_stream kc ub ` {..<s}"
    proof
      assume "?t \<in> ub_stream kc ub ` {..<s}"
      then obtain s' where "s' < s" "ub_stream kc ub s' = ?t" by auto
      then show False using ub_stream_inj [OF assms(2) _ s, of s'] s by simp
    qed
    let ?orig = "kc_cells kc ! ?t" and ?cur = "kc_cells k ! ?t"
    have len: "length (kv_pos ?orig) = kvc_get_size kc" "length (kv_pos ?cur) = length (kv_pos ?orig)"
      using w(8) [OF t] wk(8) [OF tk] f(4) by (simp_all add: cells_size_def)
    have sub: "set ?xs \<subseteq> {..<length (kv_pos ?orig)}" using sl(4) len(1) by auto
    have empty: "cells_is_empty ?orig j" if "j \<in> set ?xs" for j
      using assms(4) s that by (simp add: slot_free_def cells_is_empty_view kvc_view_def)
    have "kvc_view k ?t = kvc_view kc' ?t" using P t fresh by blast
    moreover have "kvc_view kc' ?t j = kvc_view kc ?t j" if "j \<notin> set ?xs" for j
      using out [OF t] ub_stream_inj [OF assms(2) _ s] that by blast
    ultimately have keep: "cells_view ?cur j = cells_view ?orig j" if "j \<notin> set ?xs" for j
      using that by (simp add: kvc_view_def fun_eq_iff)
    note r = restore_cells [OF w(7) [OF t] wk(7) [OF tk] len(2) sl(3) sub empty keep]
    let ?new = "cells_set_idxs ?xs (cells_cp_idxs ?orig ?xs) ?cur"
    have size: "cells_size ?new = kvc_get_size k" using r(2) len f(4) by (simp add: cells_size_def)
    have "s < kc_n_stream kc" using s ub_slots_le [OF assms(1,2)] by simp
    then have head: "kc_heads kc ! s \<le> kvc_get_size k" using w(9) f(4) by simp
    let ?st = "\<lparr>ps_sinfo = si, ps_heads_old = kc_heads kc,
      ps_cells = map (\<lambda>s. cells_cp_idxs (kc_cells kc ! (si_strm si ! s)) (si_idxs si ! s)) [0..<?N]\<rparr>"
    have put: "restore_stream ?st s k = kvc_put ?t ?new (kc_heads kc ! s) k"
      using s sl(1) by (simp add: restore_stream_def kvc_put_def Let_def)
    have "kvc_wf (kvc_put ?t ?new (kc_heads kc ! s) k)"
      by (rule kvc_wf_put [OF k(1) tk r(1) size head])
        (use r(3) w(10) [OF t] f in \<open>auto simp: kvc_view_def\<close>)
    moreover have "kvc_frame kc (kvc_put ?t ?new (kc_heads kc ! s) k)"
      by (rule kvc_frame_trans [OF k(2) kvc_frame_put [OF k(1) tk size]])
    moreover have view: "kvc_view (kvc_put ?t ?new (kc_heads kc ! s) k) u = (if u = ?t then kvc_view kc ?t else kvc_view k u)" for u
      using r(3) by (auto simp: fun_eq_iff kvc_put_view [OF k(1) tk]) (simp_all add: kvc_view_def)
    moreover have "ub_stream kc ub s' \<noteq> ?t" "?t \<noteq> ub_stream kc ub s'" if "s' < s" for s'
      using fresh that by (metis image_eqI lessThan_iff)+
    ultimately show "?P (Suc s) (restore_stream ?st s k)"
      unfolding put using P tk wk(3) by (auto simp: less_Suc_eq lessThan_Suc view)
  qed
  then have P: "?P ?N kc''" .
  show "kvc_wf kc''" "kvc_frame kc kc''" using P by blast+
  show "kvc_view kc'' t j = kvc_view kc t j" if "t < kc_n_stream kc" for t j
  proof (cases "t \<in> ub_stream kc ub ` {..<?N}")
    case True then show ?thesis using P by auto
  next
    case False
    then have "kvc_view kc'' t = kvc_view kc' t" using P that by blast
    moreover have "kvc_view kc' t j = kvc_view kc t j" using False by (intro out [OF that]) auto
    ultimately show ?thesis by simp
  qed
  show "kc_heads kc'' ! ub_stream kc ub s = kc_heads kc ! s" if "s < ?N" for s using P that by blast
qed

lemma ub_ok_frame: "kvc_frame kc kc' \<Longrightarrow> ub_ok kc' ub = ub_ok kc ub"
  by (simp add: ub_ok_def kvc_frameD ub_per_slot_def)

lemma move_heads_simps [simp]: "kc_swa_type (move_heads si n kc) = kc_swa_type kc"
  unfolding move_heads_def by (rule fold_upt_invariant [where P = "\<lambda>_ k. kc_swa_type k = kc_swa_type kc"]) simp_all

lemma prepare_step:
  assumes "kvc_wf kc" "\<not> kc_other kc" "kc_swa_type kc = SWA_TYPE_NONE" "ub_ok kc ub"
    and "kvc_find_slot kc ub False = Some si" "slot_ok kc ub si" "\<not> slot_is_empty si"
  obtains kc1 where "\<And>ubs res states. prepare_go (ub # ubs) kc res states =
      prepare_go ubs kc1 (res @ [si]) (saved_state kc si # states)"
    "kvc_wf kc1" "kvc_frame kc kc1" "kc_swa_type kc1 = SWA_TYPE_NONE"
    "\<And>kc'. kvc_wf kc' \<Longrightarrow> kvc_frame kc kc' \<Longrightarrow>
       \<forall>t < kc_n_stream kc. \<forall>j. kvc_view kc' t j = kvc_view kc1 t j \<Longrightarrow>
       kvc_wf (restore_state (saved_state kc si) kc') \<and> kvc_frame kc (restore_state (saved_state kc si) kc') \<and>
       (\<forall>t < kc_n_stream kc. \<forall>j. kvc_view (restore_state (saved_state kc si) kc') t j = kvc_view kc t j) \<and>
       (\<forall>s < ub_n_slots kc ub. kc_heads (restore_state (saved_state kc si) kc') ! ub_stream kc ub s = kc_heads kc ! s)"
proof -
  let ?N = "ub_n_slots kc ub"
  note free = slot_free_no_swa [OF assms(6,3)]
  obtain kc1 where k: "kvc_apply_ubatch si ub kc = Some (move_heads si ?N kc1)"
    "placed_upto kc ub si ?N kc1" "kvc_wf (move_heads si ?N kc1)"
    by (rule apply_ubatch_free [OF assms(1,2,4,6) free]) iprover
  have P: "kvc_wf kc1" "kvc_frame kc kc1" using k(2) by (auto simp: placed_upto_def)
  have last: "\<forall>s < ?N. si_strm si ! s < kc_n_stream kc1 \<and> last (si_idxs si ! s) < kvc_get_size kc1"
  proof (intro allI impI)
    fix s assume s: "s < ?N"
    have "si_idxs si ! s \<noteq> []" using slot_okD(2) [OF assms(6) s] ub_slots_mult(2) [OF assms(4)] by auto
    then show "si_strm si ! s < kc_n_stream kc1 \<and> last (si_idxs si ! s) < kvc_get_size kc1"
      using slot_okD(1,4) [OF assms(6) s] ub_stream_lt(1) [OF assms(1,4) s] kvc_frameD [OF P(2)] last_in_set by simp
  qed
  note h = move_heads_effect [OF P(1) last]
  obtain cs where cs: "kc1 = kc\<lparr>kc_cells := cs\<rparr>" using k(2) by (auto simp: placed_upto_def)
  have outside: "kvc_view kc1 t j = kvc_view kc t j"
    if t: "t < kc_n_stream kc" and j: "\<forall>s < ?N. ub_stream kc ub s = t \<longrightarrow> j \<notin> set (si_idxs si ! s)" for t j
  proof (cases "\<exists>s < ?N. ub_stream kc ub s = t")
    case True
    then obtain s where s: "s < ?N" "ub_stream kc ub s = t" by blast
    have "\<forall>s < ?N. \<forall>j. j \<notin> set (si_idxs si ! s) \<longrightarrow> kvc_view kc1 (si_strm si ! s) j = kvc_view kc (si_strm si ! s) j"
      using k(2) unfolding placed_upto_def by blast
    then have "kvc_view kc1 (si_strm si ! s) j = kvc_view kc (si_strm si ! s) j" using s j by blast
    then show ?thesis using slot_okD(1) [OF assms(6) s(1)] s(2) by simp
  next
    case False
    then have "t \<notin> (!) (si_strm si) ` {..<?N}" using slot_okD(1) [OF assms(6)] by auto
    then show ?thesis using k(2) by (simp add: placed_upto_def kvc_view_def)
  qed
  show thesis
  proof (rule that [of "move_heads si ?N kc1"])
    show "prepare_go (ub # ubs) kc res states =
        prepare_go ubs (move_heads si ?N kc1) (res @ [si]) (saved_state kc si # states)" for ubs res states
      using assms(5,7) k(1) by (simp add: Let_def saved_state_def)
    show "kvc_wf (move_heads si ?N kc1)" by (rule k(3))
    show "kvc_frame kc (move_heads si ?N kc1)" by (rule kvc_frame_trans [OF P(2) h(2)])
    show "kc_swa_type (move_heads si ?N kc1) = SWA_TYPE_NONE" using assms(3) by (simp add: cs)
    fix kc' assume kc': "kvc_wf kc'" "kvc_frame kc kc'"
      "\<forall>t < kc_n_stream kc. \<forall>j. kvc_view kc' t j = kvc_view (move_heads si ?N kc1) t j"
    have out: "kvc_view kc' t j = kvc_view kc t j"
      if "t < kc_n_stream kc" "\<forall>s < ?N. ub_stream kc ub s = t \<longrightarrow> j \<notin> set (si_idxs si ! s)" for t j
      using kc'(3) outside [OF that] that(1) by (simp add: h(3))
    note r = restore_state_effect [OF assms(1,4,6) free kc'(1,2) out]
    show "kvc_wf (restore_state (saved_state kc si) kc') \<and> kvc_frame kc (restore_state (saved_state kc si) kc') \<and>
       (\<forall>t < kc_n_stream kc. \<forall>j. kvc_view (restore_state (saved_state kc si) kc') t j = kvc_view kc t j) \<and>
       (\<forall>s < ?N. kc_heads (restore_state (saved_state kc si) kc') ! ub_stream kc ub s = kc_heads kc ! s)"
      using r by blast
  qed
qed

lemma find_slot_cases:
  assumes "kvc_wf kc" "ub_ok kc ub"
  obtains "kvc_find_slot kc ub False = Some slot_empty"
  | si where "kvc_find_slot kc ub False = Some si" "slot_ok kc ub si" "\<not> slot_is_empty si"
proof -
  obtain si where si: "kvc_find_slot kc ub False = Some si"
    "si \<noteq> slot_empty \<Longrightarrow> slot_ok kc ub si \<and> \<not> slot_is_empty si \<and>
       (\<forall>s < ub_n_slots kc ub. seq_choice kc ub False s = Some (si_idxs si ! s))"
    by (rule kvc_find_slot_eq [OF assms, of False]) iprover
  then show thesis using that by blast
qed

lemma prepare_go_restores:
  assumes "kvc_wf kc" "\<not> kc_other kc" "kc_swa_type kc = SWA_TYPE_NONE" "\<forall>ub \<in> set ubs. ub_ok kc ub"
  shows "\<exists>kf res' new ok. prepare_go ubs kc res states = Some (kf, res @ res', new @ states, ok) \<and>
    (ok \<longrightarrow> length res' = length ubs \<and> length new = length ubs) \<and>
    kvc_wf (fold restore_state new kf) \<and> kvc_frame kc (fold restore_state new kf) \<and>
    (\<forall>t < kc_n_stream kc. \<forall>j. kvc_view (fold restore_state new kf) t j = kvc_view kc t j)"
  using assms
proof (induction ubs arbitrary: kc res states)
  case (Cons ub ubs)
  have ub: "ub_ok kc ub" using Cons.prems(4) by simp
  show ?case
  proof (rule find_slot_cases [OF Cons.prems(1) ub])
    assume "kvc_find_slot kc ub False = Some slot_empty"
    then have "prepare_go (ub # ubs) kc res states = Some (kc, res @ [], [] @ states, False)"
      by (simp add: slot_is_empty_def slot_empty_def)
    then show ?thesis using Cons.prems(1) by fastforce
  next
    fix si assume si: "kvc_find_slot kc ub False = Some si" "slot_ok kc ub si" "\<not> slot_is_empty si"
    obtain kc1 where k: "\<And>ubs res states. prepare_go (ub # ubs) kc res states =
        prepare_go ubs kc1 (res @ [si]) (saved_state kc si # states)"
      "kvc_wf kc1" "kvc_frame kc kc1" "kc_swa_type kc1 = SWA_TYPE_NONE"
      "\<And>kc'. kvc_wf kc' \<Longrightarrow> kvc_frame kc kc' \<Longrightarrow>
         \<forall>t < kc_n_stream kc. \<forall>j. kvc_view kc' t j = kvc_view kc1 t j \<Longrightarrow>
         kvc_wf (restore_state (saved_state kc si) kc') \<and> kvc_frame kc (restore_state (saved_state kc si) kc') \<and>
         (\<forall>t < kc_n_stream kc. \<forall>j. kvc_view (restore_state (saved_state kc si) kc') t j = kvc_view kc t j) \<and>
         (\<forall>s < ub_n_slots kc ub. kc_heads (restore_state (saved_state kc si) kc') ! ub_stream kc ub s = kc_heads kc ! s)"
      by (rule prepare_step [OF Cons.prems(1-3) ub si]) iprover
    note f = kvc_frameD [OF k(3)]
    have ubs: "\<forall>ub \<in> set ubs. ub_ok kc1 ub" using Cons.prems(4) ub_ok_frame [OF k(3)] by simp
    have other: "\<not> kc_other kc1" using Cons.prems(2) f(3) by simp
    obtain kf res' new ok where g: "prepare_go ubs kc1 (res @ [si]) (saved_state kc si # states) =
        Some (kf, (res @ [si]) @ res', new @ saved_state kc si # states, ok)"
      "ok \<longrightarrow> length res' = length ubs \<and> length new = length ubs"
      "kvc_wf (fold restore_state new kf)" "kvc_frame kc1 (fold restore_state new kf)"
      "\<forall>t < kc_n_stream kc1. \<forall>j. kvc_view (fold restore_state new kf) t j = kvc_view kc1 t j"
      using Cons.IH [OF k(2) other k(4) ubs, of "res @ [si]" "saved_state kc si # states"] by blast
    have "prepare_go (ub # ubs) kc res states =
        Some (kf, res @ (si # res'), (new @ [saved_state kc si]) @ states, ok)"
      using k(1) g(1) by simp
    moreover have "ok \<longrightarrow> length (si # res') = length (ub # ubs) \<and> length (new @ [saved_state kc si]) = length (ub # ubs)"
      using g(2) by simp
    moreover have "fold restore_state (new @ [saved_state kc si]) kf = restore_state (saved_state kc si) (fold restore_state new kf)"
      by simp
    moreover have "\<forall>t < kc_n_stream kc. \<forall>j. kvc_view (fold restore_state new kf) t j = kvc_view kc1 t j"
      using g(5) f(1) by simp
    then have "kvc_wf (restore_state (saved_state kc si) (fold restore_state new kf)) \<and>
       kvc_frame kc (restore_state (saved_state kc si) (fold restore_state new kf)) \<and>
       (\<forall>t < kc_n_stream kc. \<forall>j. kvc_view (restore_state (saved_state kc si) (fold restore_state new kf)) t j = kvc_view kc t j)"
      using k(5) [OF g(3) kvc_frame_trans [OF k(3) g(4)]] by blast
    ultimately show ?thesis by metis
  qed
qed (auto intro!: exI [of _ kc])

lemma prepare_restores:
  assumes "kvc_wf kc" "\<not> kc_other kc" "kc_swa_type kc = SWA_TYPE_NONE" "\<forall>ub \<in> set ubs. ub_ok kc ub" "ubs \<noteq> []"
  shows "\<exists>kc' res. kvc_prepare ubs kc = Some (kc', res) \<and> kvc_wf kc' \<and> (res = [] \<or> length res = length ubs) \<and>
    (\<forall>t < kc_n_stream kc. \<forall>i. kvc_view kc' t i = kvc_view kc t i)"
proof -
  obtain kf res' new ok where g: "prepare_go ubs kc [] [] = Some (kf, [] @ res', new @ [], ok)"
    "ok \<longrightarrow> length res' = length ubs \<and> length new = length ubs"
    "kvc_wf (fold restore_state new kf)"
    "\<forall>t < kc_n_stream kc. \<forall>j. kvc_view (fold restore_state new kf) t j = kvc_view kc t j"
    using prepare_go_restores [OF assms(1-4), of "[]" "[]"] by blast
  have "\<not> (new = [] \<and> ok)" using g(2) assms(5) by auto
  then have "kvc_prepare ubs kc = Some (fold restore_state new kf, if ok then res' else [])"
    using g(1) by (auto simp: kvc_prepare_def)
  then show ?thesis using g(2-4) by auto
qed

text \<open>C20. \<open>prepare\<close> on a cache without a sliding window returns, finds a slot for every micro-batch or
  for none, and leaves every cell of every stream as it was, whatever it wrote in between.\<close>

theorem kvc_prepare_restores:
  assumes "kvc_wf kc" "\<not> kc_other kc" "kc_swa_type kc = SWA_TYPE_NONE" "\<forall>ub \<in> set ubs. ub_ok kc ub" "ubs \<noteq> []"
  shows "\<exists>kc' res. kvc_prepare ubs kc = Some (kc', res) \<and> kvc_wf kc' \<and> (res = [] \<or> length res = length ubs) \<and>
    (\<forall>t < kc_n_stream kc. \<forall>i. kvc_view kc' t i = kvc_view kc t i)"
  by (rule prepare_restores [OF assms])

text \<open>\<open>prepare\<close> does not restore the search heads: the head of the \<open>s\<close>-th stream of the slot gets
  the old head of stream number \<open>s\<close>, which is another stream's unless the slot starts at the
  first stream.\<close>

theorem kvc_prepare_heads:
  assumes "kvc_wf kc" "\<not> kc_other kc" "kc_swa_type kc = SWA_TYPE_NONE" "ub_ok kc ub"
    and "kvc_prepare [ub] kc = Some (kc', [si])" "s < ub_n_slots kc ub"
  shows "kc_heads kc' ! ub_stream kc ub s = kc_heads kc ! s"
proof (rule find_slot_cases [OF assms(1,4)])
  assume "kvc_find_slot kc ub False = Some slot_empty"
  then show ?thesis using assms(5) by (simp add: kvc_prepare_def slot_is_empty_def slot_empty_def)
next
  fix si' assume si: "kvc_find_slot kc ub False = Some si'" "slot_ok kc ub si'" "\<not> slot_is_empty si'"
  obtain kc1 where k: "\<And>ubs res states. prepare_go (ub # ubs) kc res states =
      prepare_go ubs kc1 (res @ [si']) (saved_state kc si' # states)"
    "kvc_wf kc1" "kvc_frame kc kc1"
    "\<And>kc'. kvc_wf kc' \<Longrightarrow> kvc_frame kc kc' \<Longrightarrow>
       \<forall>t < kc_n_stream kc. \<forall>j. kvc_view kc' t j = kvc_view kc1 t j \<Longrightarrow>
       kvc_wf (restore_state (saved_state kc si') kc') \<and> kvc_frame kc (restore_state (saved_state kc si') kc') \<and>
       (\<forall>t < kc_n_stream kc. \<forall>j. kvc_view (restore_state (saved_state kc si') kc') t j = kvc_view kc t j) \<and>
       (\<forall>s < ub_n_slots kc ub. kc_heads (restore_state (saved_state kc si') kc') ! ub_stream kc ub s = kc_heads kc ! s)"
    by (rule prepare_step [OF assms(1-4) si]) iprover
  have "prepare_go [ub] kc [] [] = Some (kc1, [si'], [saved_state kc si'], True)" unfolding k(1) by simp
  then have "kc' = restore_state (saved_state kc si') kc1"
    using assms(5) by (auto simp del: prepare_go.simps simp add: kvc_prepare_def)
  then show ?thesis using k(4) [OF k(2,3)] assms(6) by blast
qed

definition demo_ub :: "nat \<Rightarrow> llama_ubatch" where
  \<comment> \<open>two tokens of sequence \<open>q\<close>, at the positions 7 and 8\<close>
  "demo_ub q = \<lparr>ub_equal_seqs = True, ub_n_tokens = 2, ub_n_seq_tokens = 2, ub_n_seqs = 1, ub_n_seqs_unq = 1,
     ub_n_pos = 1, ub_token = Some [11, 12], ub_pos = [7, 8], ub_n_seq_id = [1, 1], ub_seq_id = [[int q], [int q]],
     ub_seq_id_unq = [int q], ub_seq_idx = [0], ub_output = [0, 1], ub_embd = None,
     ub_batch_idxs = [0, 1]\<rparr>"

definition demo_slot :: slot_info where
  "demo_slot = \<lparr>si_s0 = 0, si_s1 = 0, si_strm = [0], si_idxs = [[2, 3]]\<rparr>"

lemma less_2: "i < (2::nat) \<longleftrightarrow> i = 0 \<or> i = 1"
  by auto

lemma demo_kc_fields: "kc_n_stream demo_kc = 1" "kc_cells demo_kc = [demo_cells]" "kc_swa_type demo_kc = SWA_TYPE_NONE"
  by (simp_all add: demo_kc_def kvc_new_def demo_settings_def kvc_put_def Let_def)

lemma demo_ub_ok: "ub_ok demo_kc (demo_ub 0)" "ub_n_slots demo_kc (demo_ub 0) = 1"
  "ub_per_slot demo_kc (demo_ub 0) = 2" "ub_stream demo_kc (demo_ub 0) 0 = 0" "ub_n_tokens (demo_ub q) = 2"
  "ub_seqs (demo_ub q) 0 = {q}" "ub_seqs (demo_ub q) 1 = {q}" "ub_pos (demo_ub q) = [7, 8]"
  by (auto simp: ub_ok_def demo_ub_def less_2 seq_ok_def demo_kc_wf(3,4) demo_kc_fields ub_n_slots_def ub_per_slot_def
      ub_stream_def ub_seqs_def)

lemma demo_slot_ok: "slot_ok demo_kc (demo_ub 0) demo_slot"
  by (auto simp: slot_ok_def demo_slot_def demo_ub_ok demo_kc_wf(5) demo_kc_fields cell_can_use_def
      cells_is_empty_view demo_view)

lemma demo_appends: "ub_appends demo_kc (demo_ub 0)"
  by (auto simp: ub_appends_def demo_ub_ok less_2 demo_positions demo_ub_ok [simplified])

lemma demo_new: "ub_new (demo_ub 0) 0 = {7, 8}"
proof -
  have "7 \<in> ub_new (demo_ub 0) 0" "8 \<in> ub_new (demo_ub 0) 0"
    unfolding ub_new_def mem_Collect_eq by (rule exI [of _ 0], simp add: demo_ub_ok) (rule exI [of _ 1], simp add: demo_ub_ok [simplified])
  moreover have "ub_new (demo_ub 0) 0 \<subseteq> {7, 8}" by (auto simp: ub_new_def demo_ub_ok less_2)
  ultimately show ?thesis by blast
qed

theorem kvc_find_slot_correct_witness:
  "\<exists>si. kvc_find_slot demo_kc (demo_ub 0) False = Some si \<and> \<not> slot_is_empty si \<and> slot_ok demo_kc (demo_ub 0) si"
proof -
  let ?U = "{i. i < kvc_get_size demo_kc \<and> cell_can_use (kc_n_swa demo_kc) (kc_swa_type demo_kc)
    (kc_cells demo_kc ! ub_stream demo_kc (demo_ub 0) 0) i}"
  have "{2, 3} \<subseteq> ?U"
    by (auto simp: demo_kc_wf(5) demo_kc_fields demo_ub_ok cell_can_use_def cells_is_empty_view demo_view)
  then have "card {2, 3 :: nat} \<le> card ?U" by (intro card_mono) auto
  then have "\<not> card ?U < 2" by simp
  then show ?thesis
    using kvc_find_slot_correct [OF demo_kc_wf(1) demo_ub_ok(1), of False]
    by (auto simp: demo_ub_ok split: if_splits)
qed

theorem kvc_apply_ubatch_correct_witness:
  "\<exists>kc'. kvc_apply_ubatch demo_slot (demo_ub 0) demo_kc = Some kc' \<and> kvc_positions kc' 0 = {5, 6, 7, 8}"
proof -
  have "overwritten demo_kc demo_slot 1 0 = {}"
    by (simp add: overwritten_def demo_slot_def at_pos_def kvc_view_def demo_kc_fields demo_view)
  then show ?thesis
    using kvc_apply_ubatch_correct [OF demo_kc_wf(1,2) demo_ub_ok(1) demo_slot_ok demo_appends]
    by (auto simp: demo_ub_ok(2) demo_kc_wf(3) demo_new demo_positions insert_commute)
qed

theorem kvc_apply_ubatch_gap_free_witness:
  "\<exists>kc'. kvc_apply_ubatch demo_slot (demo_ub 0) demo_kc = Some kc' \<and> gap_free (kvc_positions kc' 0)"
proof (rule kvc_apply_ubatch_gap_free [OF demo_kc_wf(1,2) demo_ub_ok(1) demo_slot_ok demo_appends])
  show "gap_free (kvc_positions demo_kc 0 \<union> ub_new (demo_ub 0) 0)"
    by (auto simp: gap_free_def demo_positions demo_new)
qed (simp add: demo_kc_wf)

theorem kvc_prepare_restores_witness:
  "\<exists>kc' res. kvc_prepare [demo_ub 0, demo_ub 0] demo_kc = Some (kc', res) \<and> (res = [] \<or> length res = 2) \<and>
     kvc_view kc' 0 2 = None"
  using kvc_prepare_restores [OF demo_kc_wf(1,2), of "[demo_ub 0, demo_ub 0]"]
  by (auto simp: demo_kc_fields demo_ub_ok kvc_view_def demo_view)

text \<open>Two streams with heads 0 and 2; the micro-batch is for the second sequence only.\<close>

definition demo2_kc :: kv_cache where
  "demo2_kc = kvc_put 1 (cells_resize cells_empty 4) 2 (kvc_new False 4 2 demo_settings)"

lemma demo2_kc_wf: "kvc_wf demo2_kc" "\<not> kc_other demo2_kc" "kc_heads demo2_kc = [0, 2]" "kc_n_stream demo2_kc = 2"
  "kc_swa_type demo2_kc = SWA_TYPE_NONE" "kc_seq_to_stream demo2_kc = [0, 1]"
  "kvc_get_size demo2_kc = 4" "kc_cells demo2_kc = [cells_resize cells_empty 4, cells_resize cells_empty 4]"
proof -
  let ?kc = "kvc_new False 4 2 demo_settings"
  have f: "kc_heads ?kc = [0, 0]" "kc_n_stream ?kc = 2" "kc_cells ?kc = [cells_resize cells_empty 4, cells_resize cells_empty 4]"
    "kc_seq_to_stream ?kc = [0, 1]" "kc_swa_type ?kc = SWA_TYPE_NONE" "\<not> kc_other ?kc"
    by (simp_all add: kvc_new_def Let_def numeral_eq_Suc vec_resize_def demo_settings_def LLAMA_MAX_SEQ_def)
  have wf: "kvc_wf ?kc" by (rule kvc_wf_new) (simp_all add: LLAMA_MAX_SEQ_def)
  have size: "kvc_get_size ?kc = 4" by (simp add: kvc_get_size_def f cells_size_def four_cells)
  have none: "cells_view (cells_resize cells_empty 4) i = None" if "i < 4" for i
    using that by (auto simp: cells_view_def four_cells less_4)
  show "kvc_wf demo2_kc" unfolding demo2_kc_def
    by (rule kvc_wf_put [OF wf]) (auto simp: f size cells_wf_resize [of cells_empty 4, unfolded four_cells] cells_size_def four_cells none [unfolded four_cells] cell_has_seq_def)
  show "\<not> kc_other demo2_kc" "kc_heads demo2_kc = [0, 2]" "kc_n_stream demo2_kc = 2"
    "kc_swa_type demo2_kc = SWA_TYPE_NONE" "kc_seq_to_stream demo2_kc = [0, 1]"
    "kc_cells demo2_kc = [cells_resize cells_empty 4, cells_resize cells_empty 4]"
    using f by (simp_all add: demo2_kc_def kvc_put_def)
  then show "kvc_get_size demo2_kc = 4" by (simp add: kvc_get_size_def cells_size_def four_cells)
qed

lemma demo2_ub_ok: "ub_ok demo2_kc (demo_ub 1)" "ub_n_slots demo2_kc (demo_ub 1) = 1" "ub_stream demo2_kc (demo_ub 1) 0 = 1"
  by (auto simp: ub_ok_def demo_ub_def less_2 seq_ok_def demo2_kc_wf ub_n_slots_def ub_per_slot_def ub_stream_def stream_of_def)


lemma prepare_one_some:
  assumes "kvc_wf kc" "\<not> kc_other kc" "kc_swa_type kc = SWA_TYPE_NONE" "ub_ok kc ub"
    and room: "\<And>s. s < ub_n_slots kc ub \<Longrightarrow> ub_per_slot kc ub \<le> card {i. i < kvc_get_size kc \<and>
      cell_can_use (kc_n_swa kc) SWA_TYPE_NONE (kc_cells kc ! ub_stream kc ub s) i}"
  shows "\<exists>kc' si. kvc_prepare [ub] kc = Some (kc', [si])"
proof -
  obtain si where si: "kvc_find_slot kc ub False = Some si"
    "si = slot_empty \<Longrightarrow> \<exists>s < ub_n_slots kc ub. seq_choice kc ub False s = None"
    "si \<noteq> slot_empty \<Longrightarrow> slot_ok kc ub si \<and> \<not> slot_is_empty si \<and>
       (\<forall>s < ub_n_slots kc ub. seq_choice kc ub False s = Some (si_idxs si ! s))"
    by (rule kvc_find_slot_eq [OF assms(1,4), of False]) iprover
  have "seq_choice kc ub False s \<noteq> None" if "s < ub_n_slots kc ub" for s
  proof
    assume "seq_choice kc ub False s = None"
    note slot_choice_none [OF this [unfolded seq_choice_def]]
    then show False
      using room [OF that] assms(3) kvc_wfD(8,9) [OF assms(1) ub_stream_lt(1) [OF assms(1,4) that]] by simp
  qed
  then have "slot_ok kc ub si" "\<not> slot_is_empty si" using si(2,3) by blast+
  note s = si(1) this
  obtain kc1 where "\<And>ubs res states. prepare_go (ub # ubs) kc res states =
      prepare_go ubs kc1 (res @ [si]) (saved_state kc si # states)"
    by (rule prepare_step [OF assms(1-4) s]) iprover
  then have "prepare_go [ub] kc [] [] = Some (kc1, [si], [saved_state kc si], True)" by simp
  then show ?thesis by (simp del: prepare_go.simps add: kvc_prepare_def)
qed

theorem kvc_prepare_heads_witness:
  "\<exists>kc' si. kvc_prepare [demo_ub 1] demo2_kc = Some (kc', [si]) \<and> kc_heads demo2_kc ! 1 = 2 \<and> kc_heads kc' ! 1 = 0"
proof -
  have "{i. i < kvc_get_size demo2_kc \<and> cell_can_use (kc_n_swa demo2_kc) SWA_TYPE_NONE
      (kc_cells demo2_kc ! ub_stream demo2_kc (demo_ub 1) 0) i} = {0, 1, 2, 3}"
    by (auto simp: demo2_kc_wf demo2_ub_ok [simplified] cell_can_use_def cells_is_empty_def four_cells less_4)
  then have "ub_per_slot demo2_kc (demo_ub 1) \<le> card {i. i < kvc_get_size demo2_kc \<and> cell_can_use (kc_n_swa demo2_kc)
      SWA_TYPE_NONE (kc_cells demo2_kc ! ub_stream demo2_kc (demo_ub 1) 0) i}"
    by (simp add: ub_per_slot_def demo2_kc_wf demo_ub_def)
  then obtain kc' si where p: "kvc_prepare [demo_ub 1] demo2_kc = Some (kc', [si])"
    using prepare_one_some [OF demo2_kc_wf(1,2,5) demo2_ub_ok(1)] by (auto simp: demo2_ub_ok(2) [simplified])
  then have "kc_heads kc' ! 1 = 0"
    using kvc_prepare_heads [OF demo2_kc_wf(1,2,5) demo2_ub_ok(1) p, of 0] by (simp add: demo2_ub_ok [simplified] demo2_kc_wf(3))
  with p show ?thesis by (simp add: demo2_kc_wf(3))
qed

subsection \<open>The indices of the slot\<close>

lemma fold_rows:
  \<comment> \<open>a nested loop that fills row after row\<close>
  assumes "m * n \<le> length data"
  shows "length (fold (\<lambda>s data. fold (\<lambda>i data. data[s * n + i := f s i]) [0..<n] data) [0..<m] data) = length data"
    "s < m \<Longrightarrow> i < n \<Longrightarrow>
       fold (\<lambda>s data. fold (\<lambda>i data. data[s * n + i := f s i]) [0..<n] data) [0..<m] data ! (s * n + i) = f s i"
proof -
  let ?row = "\<lambda>s data. fold (\<lambda>i data. data[s * n + i := f s i]) [0..<n] data"
  have row: "length (?row s d) = length d \<and>
      (\<forall>k < length d. ?row s d ! k = (if s * n \<le> k \<and> k < s * n + n then f s (k - s * n) else d ! k))" for s d
  proof -
    let ?P = "\<lambda>i e. length e = length d \<and>
      (\<forall>k < length d. e ! k = (if s * n \<le> k \<and> k < s * n + i then f s (k - s * n) else d ! k))"
    show ?thesis
      by (rule fold_upt_invariant [where P = ?P]) (auto simp: nth_upd)
  qed
  let ?Q = "\<lambda>m e. length e = length data \<and> (\<forall>s < m. \<forall>i < n. s * n + i < length data \<longrightarrow> e ! (s * n + i) = f s i)"
  have Q: "?Q m (fold ?row [0..<m] data)"
  proof (rule fold_upt_invariant [where P = ?Q])
    fix s e assume s: "s < m" and Q: "?Q s e"
    have "\<not> s * n \<le> s' * n + i" if "s' < s" "i < n" for s' i
    proof -
      have "s' * n + i < Suc s' * n" using that(2) by simp
      also have "\<dots> \<le> s * n" using that(1) by (intro mult_le_mono1) simp
      finally show ?thesis by simp
    qed
    then show "?Q (Suc s) (?row s e)" using Q row [of s e] by (auto simp: less_Suc_eq)
  qed simp
  have "s * n + i < m * n" if "s < m" "i < n" for s i
  proof -
    have "s * n + i < Suc s * n" using that(2) by simp
    also have "\<dots> \<le> m * n" using that(1) by (intro mult_le_mono1) simp
    finally show ?thesis .
  qed
  then show "length (fold ?row [0..<m] data) = length data"
    "s < m \<Longrightarrow> i < n \<Longrightarrow> fold ?row [0..<m] data ! (s * n + i) = f s i"
    using Q assms less_le_trans by blast+
qed

text \<open>The indices \<open>set_input_k_idxs\<close> hands to the graph are in bounds and name, for every token, the
  row of the token's cell in the tensor of all streams; no two tokens share a row.\<close>

theorem set_input_k_idxs_correct:
  assumes "kvc_wf kc" "ub_ok kc ub" "slot_ok kc ub si" "length data = ub_n_tokens ub"
  shows "\<exists>rows. set_input_k_idxs kc ub si data = Some rows \<and> length rows = ub_n_tokens ub \<and> distinct rows \<and>
    (\<forall>r \<in> set rows. r < kc_n_stream kc * kvc_get_size kc) \<and>
    (\<forall>s < ub_n_slots kc ub. \<forall>ii < ub_per_slot kc ub. rows ! (s * ub_per_slot kc ub + ii) div kvc_get_size kc = ub_stream kc ub s \<and>
       rows ! (s * ub_per_slot kc ub + ii) mod kvc_get_size kc = si_idxs si ! s ! ii)"
proof -
  let ?N = "ub_n_slots kc ub" and ?n = "ub_per_slot kc ub" and ?z = "kvc_get_size kc"
  note m = ub_slots_mult [OF assms(2)]
  have lens: "length (si_strm si) = ?N" "length (si_idxs si) = ?N" using assms(3) by (auto simp: slot_ok_def)
  have si: "slot_size si = Some ?n" "slot_n_stream si = ?N"
    using lens m(3) slot_okD(2) [OF assms(3) m(3)] by (auto simp: slot_size_def slot_n_stream_def)
  let ?f = "\<lambda>s i. si_strm si ! s * ?z + si_idxs si ! s ! i"
  let ?rows = "fold (\<lambda>s data. fold (\<lambda>i data. data[s * ?n + i := ?f s i]) [0..<?n] data) [0..<?N] data"
  have ex: "set_input_k_idxs kc ub si data = Some ?rows"
    by (simp add: set_input_k_idxs_def si m(1) mult.commute Let_def)
  note rows = fold_rows [where m = ?N and n = ?n and data = data and f = ?f, unfolded assms(4) m(1), OF order_refl]
  have cell: "si_idxs si ! s ! ii < ?z" "si_strm si ! s = ub_stream kc ub s" if "s < ?N" "ii < ?n" for s ii
    using slot_okD(1,2,4) [OF assms(3) that(1)] that(2) by simp_all
  have dm: "?rows ! (s * ?n + ii) div ?z = ub_stream kc ub s \<and> ?rows ! (s * ?n + ii) mod ?z = si_idxs si ! s ! ii"
    if "s < ?N" "ii < ?n" for s ii
    using rows(2) [OF that] cell [OF that] by simp
  have dist: "distinct ?rows"
    unfolding distinct_conv_nth rows(1)
  proof (intro allI impI)
    fix a b assume ab: "a < ub_n_tokens ub" "b < ub_n_tokens ub" "a \<noteq> b"
    obtain s ii where a: "s < ?N" "ii < ?n" "a = s * ?n + ii" by (rule ub_token_decomp [OF assms(2) ab(1)])
    obtain t jj where b: "t < ?N" "jj < ?n" "b = t * ?n + jj" by (rule ub_token_decomp [OF assms(2) ab(2)])
    show "?rows ! a \<noteq> ?rows ! b"
    proof
      assume "?rows ! a = ?rows ! b"
      then have "ub_stream kc ub s = ub_stream kc ub t" "si_idxs si ! s ! ii = si_idxs si ! t ! jj"
        using dm [OF a(1,2)] dm [OF b(1,2)] a(3) b(3) by simp_all
      moreover from this have "s = t" using ub_stream_inj [OF assms(2)] a(1) b(1) by blast
      ultimately show False
        using slot_okD(2,3) [OF assms(3) a(1)] a b ab(3) by (simp add: nth_eq_iff_index_eq)
    qed
  qed
  have "r < kc_n_stream kc * ?z" if r: "r \<in> set ?rows" for r
  proof -
    obtain a where "a < length ?rows" "r = ?rows ! a" using r unfolding in_set_conv_nth by blast
    then have a: "a < ub_n_tokens ub" "r = ?rows ! a" unfolding rows(1) by blast+
    obtain s ii where s: "s < ?N" "ii < ?n" "a = s * ?n + ii" by (rule ub_token_decomp [OF assms(2) a(1)])
    have "r < Suc (ub_stream kc ub s) * ?z" using rows(2) [OF s(1,2)] cell [OF s(1,2)] a(2) s(3) by simp
    also have "\<dots> \<le> kc_n_stream kc * ?z" using ub_stream_lt(1) [OF assms(1,2) s(1)] by (intro mult_le_mono1) simp
    finally show ?thesis .
  qed
  then show ?thesis using ex rows(1) dist dm by (intro exI [of _ ?rows]) blast
qed

theorem set_input_k_idxs_correct_witness:
  "\<exists>rows. set_input_k_idxs demo_kc (demo_ub 0) demo_slot [0, 0] = Some rows \<and> rows ! 0 mod 4 = 2 \<and> rows ! 1 mod 4 = 3"
  using set_input_k_idxs_correct [OF demo_kc_wf(1) demo_ub_ok(1) demo_slot_ok, of "[0, 0]"]
  by (auto simp: demo_ub_ok demo_kc_wf(5) demo_slot_def less_2)

lemma apply_ubatch_wf:
  assumes "kvc_wf kc" "\<not> kc_other kc" "ub_ok kc ub" "slot_ok kc ub si" "kvc_apply_ubatch si ub kc = Some kc'"
  shows "kvc_wf kc'"
proof -
  let ?N = "ub_n_slots kc ub" and ?n = "ub_per_slot kc ub"
  obtain kc1 rm where p: "fold (place_stream si ?n ub) [0..<?N] (kc, replicate LLAMA_MAX_SEQ (-1)) = (kc1, rm)"
    "placed_upto kc ub si ?N kc1" "length rm = LLAMA_MAX_SEQ"
    "\<And>q. q < LLAMA_MAX_SEQ \<Longrightarrow> rm ! q = Max (insert (-1) (overwritten kc si ?N q))"
    by (rule place_all [OF assms(1,3,4)]) iprover
  have P: "kvc_wf kc1" "kvc_frame kc kc1" using p(2) by (auto simp: placed_upto_def)
  note f1 = kvc_frameD [OF P(2)]
  have lens: "length (si_strm si) = ?N" "length (si_idxs si) = ?N" using assms(4) by (auto simp: slot_ok_def)
  note N = ub_slots_mult [OF assms(3)]
  have fin: "finite (overwritten kc si ?N q)" for q by (rule finite_overwritten) (simp add: lens)
  note ow = overwritten_in_positions [OF assms(1,3,4)]
  have rm_seq: "s < length (kc_seq_to_stream kc1) \<and> 0 \<le> rm ! s" if "s < LLAMA_MAX_SEQ" "rm ! s \<noteq> -1" for s
  proof -
    have "rm ! s \<in> insert (-1) (overwritten kc si ?N s)" unfolding p(4) [OF that(1)] using fin [of s] by (intro Max_in) auto
    then have o': "rm ! s \<in> overwritten kc si ?N s" using that(2) by blast
    then show ?thesis using ow(1,2) [OF o'] seq_pos_min_bound [OF assms(1)] f1(2) by simp
  qed
  have other1: "\<not> kc_other kc1" using f1(3) assms(2) by simp
  obtain kc2 where g: "fold (purge_seq rm) [0..<LLAMA_MAX_SEQ] (Some kc1) = Some kc2" "kvc_wf kc2" "kvc_frame kc1 kc2"
    by (rule purge_all [OF P(1) other1 rm_seq]) iprover+
  note f2 = kvc_frameD [OF kvc_frame_trans [OF P(2) g(3)]]
  have "si_strm si ! s < kc_n_stream kc2 \<and> last (si_idxs si ! s) < kvc_get_size kc2" if "s < ?N" for s
    using slot_okD [OF assms(4) that] ub_stream_lt(1) [OF assms(1,3) that] N(2) f2 last_in_set [of "si_idxs si ! s"]
    by (cases "si_idxs si ! s") auto
  then have last: "\<forall>s < ?N. si_strm si ! s < kc_n_stream kc2 \<and> last (si_idxs si ! s) < kvc_get_size kc2" by blast
  have "slot_size si = Some ?n" "slot_n_stream si = ?N" "slot_n_stream si \<noteq> 0"
    using lens N(3) slot_okD(2) [OF assms(4) N(3)] by (auto simp: slot_size_def slot_n_stream_def)
  then have "kc' = move_heads si ?N kc2"
    using assms(2,5) by (simp add: kvc_apply_ubatch_def p(1) g(1) move_heads_def)
  then show ?thesis using move_heads_effect(1) [OF g(2) last] by simp
qed

end
