(* ===== verification/KvMachine.thy ===== *)
theory KvMachine
  imports KvSlot
begin

text \<open>
  The KV cache as a state machine: a cache is built by the constructor and changed by any
  sequence of the operations of \<open>llama_memory_i\<close> and of micro-batches being placed. Every
  state that can be reached is well-formed, so what the other theories prove of well-formed
  caches holds of every cache a program can have.
\<close>

datatype kv_op =
    OpClear
  | OpSeqRm int llama_pos llama_pos
  | OpSeqCp int int llama_pos llama_pos
  | OpSeqKeep int
  | OpSeqAdd int llama_pos llama_pos llama_pos
  | OpSeqDiv int llama_pos llama_pos int
  | OpPlace llama_ubatch

fun kvc_exec :: "kv_op \<Rightarrow> kv_cache \<Rightarrow> kv_cache option" where
  "kvc_exec OpClear kc = Some (kvc_clear kc)"
| "kvc_exec (OpSeqRm s p0 p1) kc = map_option fst (kvc_seq_rm s p0 p1 kc)"
| "kvc_exec (OpSeqCp s d p0 p1) kc = kvc_seq_cp s d p0 p1 kc"
| "kvc_exec (OpSeqKeep s) kc = kvc_seq_keep s kc"
| "kvc_exec (OpSeqAdd s p0 p1 d) kc = kvc_seq_add s p0 p1 d kc"
| "kvc_exec (OpSeqDiv s p0 p1 d) kc = kvc_seq_div s p0 p1 d kc"
| "kvc_exec (OpPlace ub) kc = (case kvc_find_slot kc ub False of None \<Rightarrow> None
     | Some si \<Rightarrow> if slot_is_empty si then Some kc else kvc_apply_ubatch si ub kc)"

fun op_ok :: "kv_op \<Rightarrow> kv_cache \<Rightarrow> bool" where
  \<comment> \<open>what the callers guarantee: a positive divisor, a well-formed micro-batch\<close>
  "op_ok (OpSeqDiv s p0 p1 d) kc = (0 < d)"
| "op_ok (OpPlace ub) kc = ub_ok kc ub"
| "op_ok _ kc = True"

inductive kvc_reachable :: "kv_cache \<Rightarrow> bool" where
  init: "unified \<or> n_seq_max \<le> LLAMA_MAX_SEQ \<Longrightarrow> 0 < n_seq_max \<Longrightarrow>
    kvc_reachable (kvc_new unified n_cells n_seq_max settings)"
| step: "kvc_reachable kc \<Longrightarrow> op_ok oper kc \<Longrightarrow> kvc_exec oper kc = Some kc' \<Longrightarrow> kvc_reachable kc'"

inductive_cases kvc_reachableE: "kvc_reachable kc"

lemma seq_rm_wf:
  assumes "kvc_wf kc" "kvc_seq_rm s p0 p1 kc = Some (kc', b)"
  shows "kvc_wf kc'"
proof (cases "kc_other kc")
  case True then show ?thesis using assms by (simp add: kvc_seq_rm_def)
next
  case False
  show ?thesis
  proof (cases "0 \<le> s")
    case True
    then have s: "nat s < length (kc_seq_to_stream kc)" "int (nat s) = s"
      using assms(2) False by (auto simp: kvc_seq_rm_def seq_ok_def split: if_splits)
    obtain kc1 where "kvc_seq_rm (int (nat s)) p0 p1 kc = Some (kc1, True)" "kvc_wf kc1"
      by (rule kvc_seq_rm_one [OF assms(1) False s(1), of p0 p1]) iprover
    then show ?thesis using assms(2) s(2) by simp
  next
    case neg: False
    then have s: "s = -1" using assms(2) False by (auto simp: kvc_seq_rm_def seq_ok_def split: if_splits)
    obtain kc1 where "kvc_seq_rm (-1) p0 p1 kc = Some (kc1, True)" "kvc_wf kc1"
      by (rule kvc_seq_rm_all [OF assms(1) False, of p0 p1]) iprover
    then show ?thesis using assms(2) s by simp
  qed
qed

lemma seq_keep_wf:
  assumes "kvc_wf kc" "kvc_seq_keep s kc = Some kc'"
  shows "kvc_wf kc'"
proof (cases "kc_other kc")
  case True then show ?thesis using assms by (simp add: kvc_seq_keep_def)
next
  case False
  then have s: "nat s < length (kc_seq_to_stream kc)" "int (nat s) = s"
    using assms(2) by (auto simp: kvc_seq_keep_def seq_ok_def split: if_splits)
  obtain kc1 where "kvc_seq_keep (int (nat s)) kc = Some kc1" "kvc_wf kc1"
    by (rule kvc_seq_keep_effect [OF assms(1) False s(1)]) iprover
  then show ?thesis using assms(2) s(2) by simp
qed

lemma seq_add_wf:
  assumes "kvc_wf kc" "kvc_seq_add s p0 p1 d kc = Some kc'"
  shows "kvc_wf kc'"
proof (cases "kc_other kc \<or> d = 0 \<or> clip_p0 p0 = clip_p1 p1")
  case True then show ?thesis using assms by (auto simp: kvc_seq_add_def Let_def split: if_splits)
next
  case False
  then have s: "nat s < length (kc_seq_to_stream kc)" "int (nat s) = s" "kc_n_pos_per_embd kc = 1"
    using assms(2) by (auto simp: kvc_seq_add_def seq_ok_def Let_def split: if_splits)
  have nt: "\<not> kc_other kc" "d \<noteq> 0" "clip_p0 p0 \<noteq> clip_p1 p1" using False by auto
  obtain kc1 where "kvc_seq_add (int (nat s)) p0 p1 d kc = Some kc1" "kvc_wf kc1"
    by (rule kvc_seq_add_effect [OF assms(1) nt(1) s(1,3) nt(2,3)]) iprover
  then show ?thesis using assms(2) s(2) by simp
qed

lemma seq_div_wf:
  assumes "kvc_wf kc" "kvc_seq_div s p0 p1 d kc = Some kc'" "0 < d"
  shows "kvc_wf kc'"
proof (cases "kc_other kc \<or> d = 1 \<or> clip_p0 p0 = clip_p1 p1")
  case True then show ?thesis using assms by (auto simp: kvc_seq_div_def Let_def split: if_splits)
next
  case False
  then have s: "nat s < length (kc_seq_to_stream kc)" "int (nat s) = s" "kc_n_pos_per_embd kc = 1"
    using assms(2) by (auto simp: kvc_seq_div_def seq_ok_def Let_def split: if_splits)
  have nt: "\<not> kc_other kc" "1 < d" "clip_p0 p0 \<noteq> clip_p1 p1" using False assms(3) by auto
  obtain kc1 where "kvc_seq_div (int (nat s)) p0 p1 d kc = Some kc1" "kvc_wf kc1"
    by (rule kvc_seq_div_effect [OF assms(1) nt(1) s(1,3) nt(2,3)]) iprover
  then show ?thesis using assms(2) s(2) by simp
qed

lemma seq_cp_wf:
  assumes "kvc_wf kc" "kvc_seq_cp s d p0 p1 kc = Some kc'"
  shows "kvc_wf kc'"
proof (cases "kc_other kc \<or> nat s = nat d")
  case True
  then have "kc_other kc \<or> s = d" using assms(2) by (auto simp: kvc_seq_cp_def Let_def seq_ok_def split: if_splits)
  then show ?thesis using assms by (auto simp: kvc_seq_cp_def Let_def split: if_splits)
next
  case False
  then have s: "nat s < length (kc_seq_to_stream kc)" "nat d < length (kc_seq_to_stream kc)" "int (nat s) = s" "int (nat d) = d"
    using assms(2) by (auto simp: kvc_seq_cp_def seq_ok_def Let_def split: if_splits)
  have nt: "\<not> kc_other kc" "nat s \<noteq> nat d" "s \<noteq> d" using False by auto
  show ?thesis
  proof (cases "stream_of kc (nat s) = stream_of kc (nat d)")
    case True
    obtain kc1 where "kvc_seq_cp (int (nat s)) (int (nat d)) p0 p1 kc = Some kc1" "kvc_wf kc1"
      by (rule kvc_seq_cp_same_stream [OF assms(1) nt(1) s(1,2) True nt(2), of p0 p1]) iprover
    then show ?thesis using assms(2) s(3,4) by simp
  next
    case diff: False
    then have full: "p0 \<le> 0 \<or> int (kvc_get_size kc) \<le> p0 + 1" "p1 \<le> 0 \<or> int (kvc_get_size kc) \<le> p1 + 1"
      using assms(2) nt s(3,4) by (auto simp: kvc_seq_cp_def Let_def split: if_splits)
    obtain kc1 where "kvc_seq_cp (int (nat s)) (int (nat d)) p0 p1 kc = Some kc1" "kvc_wf kc1"
      by (rule kvc_seq_cp_cross_stream [OF assms(1) nt(1) s(1,2) diff full]) iprover
    then show ?thesis using assms(2) s(3,4) by simp
  qed
qed

lemma place_wf:
  assumes "kvc_wf kc" "ub_ok kc ub" "kvc_exec (OpPlace ub) kc = Some kc'"
  shows "kvc_wf kc'"
proof (rule find_slot_cases [OF assms(1,2)])
  assume "kvc_find_slot kc ub False = Some slot_empty"
  then show ?thesis using assms by (simp add: slot_is_empty_def slot_empty_def)
next
  fix si assume si: "kvc_find_slot kc ub False = Some si" "slot_ok kc ub si" "\<not> slot_is_empty si"
  then have ap: "kvc_apply_ubatch si ub kc = Some kc'" using assms(3) by simp
  show ?thesis
  proof (cases "kc_other kc")
    case True then show ?thesis using ap assms(1) by (simp add: kvc_apply_ubatch_def)
  next
    case False
    show ?thesis by (rule apply_ubatch_wf [OF assms(1) False assms(2) si(2) ap])
  qed
qed

lemma kvc_exec_wf:
  assumes "kvc_wf kc" "op_ok oper kc" "kvc_exec oper kc = Some kc'"
  shows "kvc_wf kc'"
proof (cases oper)
  case OpClear
  then show ?thesis using assms(3) kvc_clear_effect(1) [OF assms(1)] by simp
next
  case (OpPlace ub)
  then show ?thesis using assms(2,3) place_wf [OF assms(1), of ub] by simp
next
  case (OpSeqRm s p0 p1)
  then obtain b where "kvc_seq_rm s p0 p1 kc = Some (kc', b)" using assms(3) by auto
  then show ?thesis by (rule seq_rm_wf [OF assms(1)])
next
  case (OpSeqCp s d p0 p1)
  then have "kvc_seq_cp s d p0 p1 kc = Some kc'" using assms(3) by simp
  then show ?thesis by (rule seq_cp_wf [OF assms(1)])
next
  case (OpSeqKeep s)
  then have "kvc_seq_keep s kc = Some kc'" using assms(3) by simp
  then show ?thesis by (rule seq_keep_wf [OF assms(1)])
next
  case (OpSeqAdd s p0 p1 d)
  then have "kvc_seq_add s p0 p1 d kc = Some kc'" using assms(3) by simp
  then show ?thesis by (rule seq_add_wf [OF assms(1)])
next
  case (OpSeqDiv s p0 p1 d)
  then have "kvc_seq_div s p0 p1 d kc = Some kc'" "0 < d" using assms(2,3) by auto
  then show ?thesis by (rule seq_div_wf [OF assms(1)])
qed

lemma kvc_reachable_wf: "kvc_reachable kc \<Longrightarrow> kvc_wf kc"
  by (induction rule: kvc_reachable.induct) (auto intro: kvc_wf_new kvc_exec_wf)

text \<open>C22. In every reachable cache, whatever operations led to it, \<open>seq_pos_min\<close> and \<open>seq_pos_max\<close> of a
  sequence are the least and the greatest position of the cells that hold it (or -1), and no
  cell holds a sequence of another stream: the indexes never go stale.\<close>

theorem kvc_reachable_indexes:
  assumes "kvc_reachable kc"
  shows "kvc_wf kc \<and> (\<forall>s < length (kc_seq_to_stream kc).
     finite (kvc_positions kc s) \<and>
     kvc_seq_pos_min kc [] (int s) = Some (if kvc_positions kc s = {} then -1 else Min (kvc_positions kc s)) \<and>
     kvc_seq_pos_max kc [] (int s) = Some (if kvc_positions kc s = {} then -1 else Max (kvc_positions kc s)) \<and>
     (\<forall>t < kc_n_stream kc. \<forall>i < kvc_get_size kc. cell_has_seq s (kvc_view kc t i) \<longrightarrow> stream_of kc s = t))"
  using kvc_reachable_wf [OF assms] kvc_seq_pos_max_eq finite_kvc_positions kvc_wfD(10) by blast

theorem kvc_reachable_indexes_witness:
  "kvc_reachable (kvc_clear (kvc_new True 4 2 demo_settings)) \<and>
   kvc_wf (kvc_clear (kvc_new True 4 2 demo_settings))"
proof -
  have "kvc_reachable (kvc_new True 4 2 demo_settings)" by (rule kvc_reachable.init) simp_all
  then have r: "kvc_reachable (kvc_clear (kvc_new True 4 2 demo_settings))"
    by (rule kvc_reachable.step [where oper = OpClear]) simp_all
  show ?thesis using r kvc_reachable_indexes [OF r] by blast
qed

end
