(* ===== verification/KqMask.thy ===== *)
theory KqMask
  imports KvMachine
begin

text \<open>
  The attention mask and the token history that the KV cache hands to the compute graph:
  \<open>set_input_kq_mask\<close> and \<open>get_prev_tokens\<close> of \<open>src/llama-kv-cache.cpp\<close>.

  The mask has one row per token and one column per cell. For the second and later tokens of a
  sequence the code copies the row of the first one and looks again only at the cells it
  recorded on the way. The flags of the C++ template parameters are fields of \<open>mask_args\<close>.
  \<open>set_input_kq_mask_correct\<close> shows the result to be the mask of the definition.
\<close>

subsection \<open>The code\<close>

datatype non_causal_type = NON_CAUSAL_TYPE_ALL | NON_CAUSAL_TYPE_SWA_ONLY | NON_CAUSAL_TYPE_SWA_FULL

datatype mask_val = MaskKeep | MaskDrop | MaskBias int
  \<comment> \<open>what is written to a cell of the mask: 0, minus infinity, or a bias before the cast\<close>

record mask_args =
  ma_non_causal_type :: non_causal_type
  ma_causal :: bool
  ma_swa :: bool
  ma_is_2d :: bool
  ma_alibi :: bool
  ma_n_kv :: nat
  ma_n_stream :: nat
  ma_n_tps :: nat

definition batch_pos_min :: "llama_ubatch \<Rightarrow> llama_pos list" where
  "batch_pos_min ub = fold (\<lambda>i m. let seq_id = nat (ub_seq_id ub ! i ! 0)
       in m[seq_id := min (m ! seq_id) (ub_pos ub ! i)]) [0..<ub_n_tokens ub] (replicate LLAMA_MAX_SEQ INT32_MAX)"

definition mask_recorded :: "kv_cache \<Rightarrow> llama_pos \<Rightarrow> llama_pos \<Rightarrow> bool" where
  "mask_recorded kc pmin p0 \<longleftrightarrow> p0 + int (kc_n_swa kc + 32) \<ge> pmin"

definition mask_value :: "mask_args \<Rightarrow> kv_cache \<Rightarrow> llama_ubatch \<Rightarrow> llama_pos \<Rightarrow> kv_cells \<Rightarrow> nat \<Rightarrow> nat \<Rightarrow> nat \<Rightarrow> mask_val" where
  \<comment> \<open>what the body of the inner loop writes for token \<open>i\<close> of sequence \<open>q\<close> and cell \<open>j\<close>\<close>
  "mask_value a kc ub pmin c q i j =
     (let p1 = ub_pos ub ! i;
          p1_x = (if ma_is_2d a then ub_pos ub ! (i + ub_n_tokens ub * 2) else 0);
          p1_y = (if ma_is_2d a then ub_pos ub ! (i + ub_n_tokens ub) else 0) in
      if cells_is_empty c j then MaskDrop
      else if \<not> cells_seq_has c j q then MaskDrop
      else let p0 = kv_pos c ! j in
        if ma_causal a \<and> p0 > p1 then MaskDrop
        else if ma_causal a \<and> ma_is_2d a \<and> p0 = p1 \<and> is_2d_gt (kv_ext c ! j) p1_x p1_y then MaskDrop
        else let in_span = (\<not> ma_causal a \<and> ma_non_causal_type a = NON_CAUSAL_TYPE_SWA_FULL \<and> p0 \<ge> pmin) in
          if ma_swa a \<and> \<not> in_span \<and> is_masked_swa (kc_n_swa kc) (kc_swa_type kc) p0 p1 then MaskDrop
          else if ma_alibi a then MaskBias (- \<bar>p0 - p1\<bar>) else MaskKeep)"

definition mask_cell :: "mask_args \<Rightarrow> kv_cache \<Rightarrow> llama_ubatch \<Rightarrow> llama_pos \<Rightarrow> kv_cells \<Rightarrow> nat \<Rightarrow> nat \<Rightarrow> bool \<Rightarrow>
    nat \<Rightarrow> mask_val list \<times> nat list \<Rightarrow> mask_val list \<times> nat list" where
  \<comment> \<open>the body of the inner loop: the mask and the recorded cells of the sequence\<close>
  "mask_cell a kc ub pmin c q i prev j = (\<lambda>(data, idxs).
     (data[ma_n_kv a * i + j := mask_value a kc ub pmin c q i j],
      if \<not> ma_alibi a \<and> \<not> prev \<and> \<not> cells_is_empty c j \<and> cells_seq_has c j q \<and>
         mask_recorded kc pmin (kv_pos c ! j)
      then idxs @ [j] else idxs))"

definition copy_row :: "nat \<Rightarrow> nat \<Rightarrow> nat \<Rightarrow> 'a list \<Rightarrow> 'a list" where
  \<comment> \<open>\<open>std::copy\<close> of \<open>n\<close> entries\<close>
  "copy_row n src dst data = fold (\<lambda>k d. d[dst + k := d ! (src + k)]) [0..<n] data"

record mask_state =
  ms_data :: "mask_val list"
  ms_srct :: "nat \<rightharpoonup> nat"
  ms_idxs :: "nat \<Rightarrow> nat list"

definition mask_token :: "mask_args \<Rightarrow> kv_cache \<Rightarrow> llama_ubatch \<Rightarrow> nat \<Rightarrow> nat \<Rightarrow> mask_state \<Rightarrow> mask_state option" where
  \<comment> \<open>one row of the mask: token \<open>ii\<close> of stream \<open>s\<close>\<close>
  "mask_token a kc ub s ii st =
     (let i = s * ma_n_tps a + ii;
          q = nat (ub_seq_id ub ! i ! 0);
          t = kc_seq_to_stream kc ! q in
      if \<not> t < length (kc_cells kc) then None
      else let c = kc_cells kc ! t;
               pmin = batch_pos_min ub ! q;
               idst = ma_n_kv a * i;
               (st, prev) = (if ma_alibi a then (st, False)
                 else case ms_srct st q of
                   Some srct \<Rightarrow> (st\<lparr>ms_data := copy_row (ma_n_kv a) (ma_n_kv a * srct) idst (ms_data st)\<rparr>, True)
                 | None \<Rightarrow> (st\<lparr>ms_idxs := (ms_idxs st)(q := []), ms_srct := (ms_srct st)(q \<mapsto> i)\<rparr>, False));
               js = (if \<not> ma_alibi a \<and> prev then take (ma_n_kv a) (ms_idxs st q) else [0..<ma_n_kv a]);
               (data, idxs) = fold (mask_cell a kc ub pmin c q i prev) js (ms_data st, ms_idxs st q)
           in Some (st\<lparr>ms_data := data, ms_idxs := (ms_idxs st)(q := idxs)\<rparr>))"

definition set_input_kq_mask_impl :: "mask_args \<Rightarrow> kv_cache \<Rightarrow> llama_ubatch \<Rightarrow> mask_val list \<Rightarrow> mask_val list option" where
  "set_input_kq_mask_impl a kc ub data =
     fold_opt (\<lambda>s data. map_option ms_data
         (fold_opt (mask_token a kc ub s) [0..<ma_n_tps a] \<lparr>ms_data = data, ms_srct = Map.empty, ms_idxs = (\<lambda>_. [])\<rparr>))
       [0..<ma_n_stream a] data"

definition set_input_kq_mask :: "non_causal_type \<Rightarrow> bool \<Rightarrow> nat \<Rightarrow> nat \<Rightarrow> kv_cache \<Rightarrow> llama_ubatch \<Rightarrow> bool \<Rightarrow>
    mask_val list \<Rightarrow> mask_val list option" where
  \<comment> \<open>the model's \<open>non_causal_type\<close> and \<open>use_alibi\<close>, and the two dimensions of the tensor\<close>
  "set_input_kq_mask nct use_alibi n_kv n_stream kc ub causal_attn data =
     (if ub_n_tokens ub mod n_stream \<noteq> 0 then None
      else let n_tps = ub_n_tokens ub div n_stream;
               causal = (if \<not> causal_attn \<and> nct = NON_CAUSAL_TYPE_SWA_ONLY
                         then kc_swa_type kc = SWA_TYPE_NONE else causal_attn)
        in set_input_kq_mask_impl
             \<lparr>ma_non_causal_type = nct, ma_causal = causal, ma_swa = (kc_swa_type kc \<noteq> SWA_TYPE_NONE),
              ma_is_2d = is_pos_2d ub, ma_alibi = use_alibi, ma_n_kv = n_kv, ma_n_stream = n_stream,
              ma_n_tps = n_tps\<rparr> kc ub data)"

subsection \<open>What the mask means\<close>

definition ub_first_seq :: "llama_ubatch \<Rightarrow> nat \<Rightarrow> nat" where
  "ub_first_seq ub i = nat (ub_seq_id ub ! i ! 0)"

definition ub_seq_start :: "llama_ubatch \<Rightarrow> nat \<Rightarrow> llama_pos" where
  \<comment> \<open>the first position of a sequence in the micro-batch\<close>
  "ub_seq_start ub q = Min {ub_pos ub ! i |i. i < ub_n_tokens ub \<and> ub_first_seq ub i = q}"

definition not_after :: "llama_ubatch \<Rightarrow> nat \<Rightarrow> abs_cell \<Rightarrow> bool" where
  \<comment> \<open>causality, in the order of positions; tokens of one image are ordered by row and column\<close>
  "not_after ub i k \<longleftrightarrow> cell_pos k < ub_pos ub ! i \<or> (cell_pos k = ub_pos ub ! i \<and>
     (is_pos_2d ub \<longrightarrow> \<not> is_2d_gt (cell_ext k) (ub_pos ub ! (i + ub_n_tokens ub * 2)) (ub_pos ub ! (i + ub_n_tokens ub))))"

definition attends :: "non_causal_type \<Rightarrow> kv_cache \<Rightarrow> llama_ubatch \<Rightarrow> bool \<Rightarrow> nat \<Rightarrow> abs_cell \<Rightarrow> bool" where
  \<comment> \<open>may token \<open>i\<close> attend to this cell\<close>
  "attends nct kc ub causal i k \<longleftrightarrow>
     ub_first_seq ub i \<in> cell_seq k \<and> (causal \<longrightarrow> not_after ub i k) \<and>
     (is_masked_swa (kc_n_swa kc) (kc_swa_type kc) (cell_pos k) (ub_pos ub ! i) \<longrightarrow>
        \<not> causal \<and> nct = NON_CAUSAL_TYPE_SWA_FULL \<and> ub_seq_start ub (ub_first_seq ub i) \<le> cell_pos k)"

definition attn_causal :: "non_causal_type \<Rightarrow> kv_cache \<Rightarrow> bool \<Rightarrow> bool" where
  "attn_causal nct kc causal_attn \<longleftrightarrow>
     causal_attn \<or> (nct = NON_CAUSAL_TYPE_SWA_ONLY \<and> kc_swa_type kc = SWA_TYPE_NONE)"

definition kq_mask_at :: "non_causal_type \<Rightarrow> bool \<Rightarrow> kv_cache \<Rightarrow> llama_ubatch \<Rightarrow> bool \<Rightarrow> nat \<Rightarrow> nat \<Rightarrow> mask_val" where
  "kq_mask_at nct alibi kc ub causal i j =
     (case kvc_view kc (stream_of kc (ub_first_seq ub i)) j of
        None \<Rightarrow> MaskDrop
      | Some k \<Rightarrow> if attends nct kc ub causal i k
          then (if alibi then MaskBias (- \<bar>cell_pos k - ub_pos ub ! i\<bar>) else MaskKeep) else MaskDrop)"

subsection \<open>Rows of the mask\<close>

lemma fold_row_nth:
  "fold (\<lambda>j d. d[off + j := v j]) js d ! x =
     (if off \<le> x \<and> x - off \<in> set js \<and> x < length d then v (x - off) else d ! x)"
  "length (fold (\<lambda>j d. d[off + j := v j]) js d) = length d"
proof (induction js arbitrary: d)
  case (Cons j js)
  { case 1 show ?case by (simp add: Cons.IH nth_upd) auto }
  { case 2 show ?case by (simp add: Cons.IH) }
qed simp_all

lemma copy_row_effect:
  assumes "src + n \<le> dst" "dst + n \<le> length data"
  shows "copy_row n src dst data ! x = (if dst \<le> x \<and> x < dst + n then data ! (src + (x - dst)) else data ! x)"
    "length (copy_row n src dst data) = length data"
proof -
  have "length (fold (\<lambda>k d. d[dst + k := d ! (src + k)]) [0..<m] data) = length data \<and>
      (\<forall>x. fold (\<lambda>k d. d[dst + k := d ! (src + k)]) [0..<m] data ! x =
        (if dst \<le> x \<and> x < dst + m then data ! (src + (x - dst)) else data ! x))" if "m \<le> n" for m
    using that
  proof (induction m)
    case (Suc m)
    then show ?case using assms by (auto simp: nth_upd)
  qed auto
  from this [of n] show "copy_row n src dst data ! x =
      (if dst \<le> x \<and> x < dst + n then data ! (src + (x - dst)) else data ! x)"
    "length (copy_row n src dst data) = length data" by (simp_all add: copy_row_def)
qed

definition recorded_cell :: "kv_cache \<Rightarrow> llama_pos \<Rightarrow> kv_cells \<Rightarrow> nat \<Rightarrow> nat \<Rightarrow> bool" where
  "recorded_cell kc pmin c q j \<longleftrightarrow> \<not> cells_is_empty c j \<and> cells_seq_has c j q \<and> mask_recorded kc pmin (kv_pos c ! j)"

lemma fold_mask_cell:
  "fold (mask_cell a kc ub pmin c q i prev) js (data, idxs) =
     (fold (\<lambda>j d. d[ma_n_kv a * i + j := mask_value a kc ub pmin c q i j]) js data,
      idxs @ (if \<not> ma_alibi a \<and> \<not> prev then filter (recorded_cell kc pmin c q) js else []))"
  by (induction js arbitrary: data idxs) (auto simp: mask_cell_def recorded_cell_def)

lemma batch_pos_min_eq:
  assumes "\<forall>i < ub_n_tokens ub. ub_first_seq ub i < LLAMA_MAX_SEQ" "q < LLAMA_MAX_SEQ"
    and "i < ub_n_tokens ub" "ub_first_seq ub i = q" "ub_pos ub ! i \<le> INT32_MAX"
  shows "batch_pos_min ub ! q = ub_seq_start ub q"
proof -
  let ?S = "\<lambda>n. {ub_pos ub ! i |i. i < n \<and> ub_first_seq ub i = q}"
  let ?f = "\<lambda>i m. let s = nat (ub_seq_id ub ! i ! 0) in m[s := min (m ! s) (ub_pos ub ! i)]"
  have fin: "finite (?S n)" for n by (rule finite_subset [of _ "(!) (ub_pos ub) ` {..<n}"]) auto
  have "length (fold ?f [0..<n] (replicate LLAMA_MAX_SEQ INT32_MAX)) = LLAMA_MAX_SEQ \<and>
      fold ?f [0..<n] (replicate LLAMA_MAX_SEQ INT32_MAX) ! q = Min (insert INT32_MAX (?S n))"
    if "n \<le> ub_n_tokens ub" for n
    using that
  proof (induction n)
    case 0 then show ?case using assms(2) by simp
  next
    case (Suc n)
    have S: "?S (Suc n) = (if ub_first_seq ub n = q then insert (ub_pos ub ! n) (?S n) else ?S n)"
      by (auto simp: less_Suc_eq)
    show ?case
    proof (cases "ub_first_seq ub n = q")
      case True
      have "insert INT32_MAX (?S (Suc n)) = insert (ub_pos ub ! n) (insert INT32_MAX (?S n))"
        unfolding S using True by auto
      then have "Min (insert INT32_MAX (?S (Suc n))) = min (ub_pos ub ! n) (Min (insert INT32_MAX (?S n)))"
        using fin [of n] by simp
      then show ?thesis using Suc True assms(2) by (simp add: ub_first_seq_def Let_def min.commute)
    next
      case False
      then show ?thesis using Suc unfolding S by (simp add: ub_first_seq_def Let_def)
    qed
  qed
  from this [of "ub_n_tokens ub"] have "batch_pos_min ub ! q = Min (insert INT32_MAX (?S (ub_n_tokens ub)))"
    by (simp add: batch_pos_min_def)
  also have "\<dots> = Min (?S (ub_n_tokens ub))"
  proof -
    have ne: "?S (ub_n_tokens ub) \<noteq> {}" using assms(3,4) by blast
    have "Min (?S (ub_n_tokens ub)) \<le> ub_pos ub ! i" using assms(3,4) fin by (intro Min_le) auto
    then show ?thesis unfolding Min_insert [OF fin ne] using assms(5) by (intro min_absorb2) (rule order_trans)
  qed
  finally show ?thesis by (simp add: ub_seq_start_def)
qed

subsection \<open>Rows that may be reused\<close>

lemma swa_far:
  assumes "p0 + int (n + 32) < p1" "p0 + int (n + 32) < p2" "0 \<le> p0"
  shows "is_masked_swa n t p0 p1 = is_masked_swa n t p0 p2"
proof (cases t)
  case SWA_TYPE_CHUNKED
  have "p0 < p div int n * int n" if "p0 + int (n + 32) < p" "n > 0" for p
  proof -
    have "p - p mod int n = p div int n * int n" by (simp add: minus_mod_eq_div_mult)
    moreover have "p mod int n < int n" using that(2) by simp
    ultimately show ?thesis using that(1) by linarith
  qed
  then show ?thesis using SWA_TYPE_CHUNKED assms by (cases "n = 0") auto
qed (use assms in \<open>auto simp: Let_def\<close>)

lemma attends_far:
  assumes "ub_first_seq ub i = ub_first_seq ub i'" "0 \<le> cell_pos k"
    and "i < ub_n_tokens ub" "i' < ub_n_tokens ub"
    and "\<not> mask_recorded kc (ub_seq_start ub (ub_first_seq ub i)) (cell_pos k)"
  shows "attends nct kc ub causal i k = attends nct kc ub causal i' k"
proof -
  let ?q = "ub_first_seq ub i"
  have fin: "finite {ub_pos ub ! i |i. i < ub_n_tokens ub \<and> ub_first_seq ub i = ?q}"
    by (rule finite_subset [of _ "(!) (ub_pos ub) ` {..<ub_n_tokens ub}"]) auto
  have le: "ub_seq_start ub ?q \<le> ub_pos ub ! i" "ub_seq_start ub ?q \<le> ub_pos ub ! i'"
    unfolding ub_seq_start_def using assms(1,3,4) by (auto intro!: Min_le fin)
  have far: "cell_pos k + int (kc_n_swa kc + 32) < ub_seq_start ub ?q"
    using assms(5) by (simp add: mask_recorded_def)
  then have before: "cell_pos k < ub_pos ub ! i" "cell_pos k < ub_pos ub ! i'" "cell_pos k < ub_seq_start ub ?q"
    using le by linarith+
  have "is_masked_swa (kc_n_swa kc) (kc_swa_type kc) (cell_pos k) (ub_pos ub ! i) =
      is_masked_swa (kc_n_swa kc) (kc_swa_type kc) (cell_pos k) (ub_pos ub ! i')"
    by (rule swa_far) (use far le assms(2) in auto)
  then show ?thesis using assms(1) before by (auto simp: attends_def not_after_def)
qed

subsection \<open>The whole mask\<close>

definition args_ok :: "mask_args \<Rightarrow> kv_cache \<Rightarrow> llama_ubatch \<Rightarrow> bool" where
  "args_ok a kc ub \<longleftrightarrow> kvc_wf kc \<and> ub_ok kc ub \<and> (\<forall>i < ub_n_tokens ub. ub_pos ub ! i \<le> INT32_MAX) \<and>
     ma_is_2d a = is_pos_2d ub \<and> ma_swa a = (kc_swa_type kc \<noteq> SWA_TYPE_NONE) \<and>
     ma_n_kv a \<le> kvc_get_size kc \<and> ma_n_stream a * ma_n_tps a = ub_n_tokens ub"

abbreviation row_cells :: "kv_cache \<Rightarrow> nat \<Rightarrow> kv_cells" where
  "row_cells kc q \<equiv> kc_cells kc ! stream_of kc q"

lemma first_seq_ok:
  assumes "kvc_wf kc" "ub_ok kc ub" "i < ub_n_tokens ub"
  shows "ub_first_seq ub i < length (kc_seq_to_stream kc)" "stream_of kc (ub_first_seq ub i) < kc_n_stream kc"
    "ub_first_seq ub i < LLAMA_MAX_SEQ"
proof -
  have "ub_seq_id ub ! i ! 0 \<in> set (ub_seq_id ub ! i)" using ub_okD(4) [OF assms(2,3)] by (cases "ub_seq_id ub ! i") auto
  then show q: "ub_first_seq ub i < length (kc_seq_to_stream kc)"
    using ub_okD(6) [OF assms(2,3)] by (simp add: seq_ok_def ub_first_seq_def)
  then show "stream_of kc (ub_first_seq ub i) < kc_n_stream kc" by (rule kvc_wfD(6) [OF assms(1)])
  show "ub_first_seq ub i < LLAMA_MAX_SEQ" using q kvc_wfD(4) [OF assms(1)] by simp
qed

lemma mask_value_eq:
  assumes "args_ok a kc ub" "q = ub_first_seq ub i"
  shows "mask_value a kc ub (ub_seq_start ub q) (row_cells kc q) q i j =
    kq_mask_at (ma_non_causal_type a) (ma_alibi a) kc ub (ma_causal a) i j"
proof (cases "kv_pos (row_cells kc q) ! j = -1")
  case True
  then show ?thesis
    by (simp add: mask_value_def kq_mask_at_def kvc_view_def cells_view_def cells_is_empty_def assms(2) [symmetric])
next
  case False
  have "is_masked_swa (kc_n_swa kc) (kc_swa_type kc) p p' \<Longrightarrow> ma_swa a" for p p'
    using assms(1) by (cases "kc_swa_type kc") (auto simp: args_ok_def)
  moreover have "ma_is_2d a = is_pos_2d ub" using assms(1) by (simp add: args_ok_def)
  ultimately show ?thesis
    using False
    by (auto simp: mask_value_def kq_mask_at_def kvc_view_def cells_view_def cells_is_empty_def assms(2) [symmetric]
        Let_def attends_def not_after_def cells_seq_has_def)
qed

definition row_done :: "mask_args \<Rightarrow> kv_cache \<Rightarrow> llama_ubatch \<Rightarrow> mask_val list \<Rightarrow> nat \<Rightarrow> bool" where
  "row_done a kc ub data i \<longleftrightarrow> (\<forall>j < ma_n_kv a. data ! (ma_n_kv a * i + j) =
     kq_mask_at (ma_non_causal_type a) (ma_alibi a) kc ub (ma_causal a) i j)"

definition reuse_list :: "mask_args \<Rightarrow> kv_cache \<Rightarrow> llama_ubatch \<Rightarrow> nat \<Rightarrow> nat list" where
  "reuse_list a kc ub q = filter (recorded_cell kc (ub_seq_start ub q) (row_cells kc q) q) [0..<ma_n_kv a]"

definition mask_inv :: "mask_args \<Rightarrow> kv_cache \<Rightarrow> llama_ubatch \<Rightarrow> nat \<Rightarrow> mask_state \<Rightarrow> bool" where
  "mask_inv a kc ub m st \<longleftrightarrow> length (ms_data st) = ma_n_kv a * ub_n_tokens ub \<and>
     (\<forall>i < m. row_done a kc ub (ms_data st) i) \<and>
     (\<forall>q r. ms_srct st q = Some r \<longrightarrow> r < m \<and> ub_first_seq ub r = q \<and> ms_idxs st q = reuse_list a kc ub q)"

lemma row_index:
  assumes "i < n" "j < (k :: nat)" shows "k * i + j < k * n"
proof -
  have "k * i + j < k * Suc i" using assms(2) by simp
  also have "\<dots> \<le> k * n" using assms(1) by (intro mult_le_mono2) simp
  finally show ?thesis .
qed

lemma row_done_other:
  assumes "row_done a kc ub d i'" "i' < i" "\<And>x. x < ma_n_kv a * i \<Longrightarrow> d' ! x = d ! x"
  shows "row_done a kc ub d' i'"
  unfolding row_done_def
proof (intro allI impI)
  fix j assume j: "j < ma_n_kv a"
  have "ma_n_kv a * i' + j < ma_n_kv a * i" by (rule row_index [OF assms(2) j])
  then show "d' ! (ma_n_kv a * i' + j) = kq_mask_at (ma_non_causal_type a) (ma_alibi a) kc ub (ma_causal a) i' j"
    using assms(1,3) j by (simp add: row_done_def)
qed

lemma row_fresh:
  \<comment> \<open>a row computed in full\<close>
  assumes "args_ok a kc ub" "i < ub_n_tokens ub" "length d = ma_n_kv a * ub_n_tokens ub" "q = ub_first_seq ub i"
  shows "row_done a kc ub (fold (\<lambda>j d. d[ma_n_kv a * i + j :=
     mask_value a kc ub (ub_seq_start ub q) (row_cells kc q) q i j]) [0..<ma_n_kv a] d) i"
  unfolding row_done_def using row_index [OF assms(2)] assms(3) mask_value_eq [OF assms(1,4)]
  by (simp add: fold_row_nth)

lemma row_reused:
  \<comment> \<open>a row copied from a row of the same sequence, with the recorded cells updated\<close>
  assumes "args_ok a kc ub" "i < ub_n_tokens ub" "length d = ma_n_kv a * ub_n_tokens ub" "q = ub_first_seq ub i"
    and "r < i" "ub_first_seq ub r = q" "row_done a kc ub d r" "\<not> ma_alibi a"
  shows "row_done a kc ub (fold (\<lambda>j d. d[ma_n_kv a * i + j :=
     mask_value a kc ub (ub_seq_start ub q) (row_cells kc q) q i j]) (reuse_list a kc ub q)
       (copy_row (ma_n_kv a) (ma_n_kv a * r) (ma_n_kv a * i) d)) i"
  unfolding row_done_def
proof (intro allI impI)
  fix j assume j: "j < ma_n_kv a"
  let ?n = "ma_n_kv a" and ?at = "kq_mask_at (ma_non_causal_type a) (ma_alibi a) kc ub (ma_causal a)"
  let ?d1 = "copy_row ?n (?n * r) (?n * i) d"
  have "?n * Suc r \<le> ?n * i" "?n * Suc i \<le> ?n * ub_n_tokens ub" using assms(2,5) by (intro mult_le_mono2; simp)+
  then have b: "?n * r + ?n \<le> ?n * i" "?n * i + ?n \<le> length d" using assms(3) by (simp_all add: algebra_simps)
  note c = copy_row_effect [OF b]
  have lt: "?n * i + j < length ?d1" using b(2) j c(2) by simp
  show "fold (\<lambda>j d. d[?n * i + j := mask_value a kc ub (ub_seq_start ub q) (row_cells kc q) q i j]) (reuse_list a kc ub q) ?d1
      ! (?n * i + j) = ?at i j"
  proof (cases "j \<in> set (reuse_list a kc ub q)")
    case True
    then show ?thesis using lt mask_value_eq [OF assms(1,4)] by (simp add: fold_row_nth)
  next
    case False
    have "?d1 ! (?n * i + j) = d ! (?n * r + j)" using c(1) [of "?n * i + j"] j by simp
    also have "\<dots> = ?at r j" using assms(7) j by (simp add: row_done_def)
    also have "\<dots> = ?at i j"
    proof (cases "kvc_view kc (stream_of kc q) j")
      case None then show ?thesis using assms(4,6) by (simp add: kq_mask_at_def)
    next
      case (Some k)
      have k: "\<not> cells_is_empty (row_cells kc q) j" "cell_pos k = kv_pos (row_cells kc q) ! j" "cell_seq k = kv_seq (row_cells kc q) ! j"
        using Some by (auto simp: kvc_view_def cells_view_def cells_is_empty_def split: if_splits)
      show ?thesis
      proof (cases "q \<in> cell_seq k")
        case True
        have wf: "kvc_wf kc" "ub_ok kc ub" "j < kvc_get_size kc" using assms(1) j by (auto simp: args_ok_def)
        note t = first_seq_ok(2) [OF wf(1,2) assms(2)]
        have "j < length (kv_pos (row_cells kc q))" using kvc_wfD(8) [OF wf(1) t] wf(3) assms(4) by (simp add: cells_size_def)
        then have "0 \<le> cell_pos k"
          using cells_wf_cellD(5) [OF kvc_wfD(7) [OF wf(1) t], of j q] True k(2,3) assms(4) by simp
        moreover have "\<not> mask_recorded kc (ub_seq_start ub q) (cell_pos k)"
          using False j True k by (auto simp: reuse_list_def recorded_cell_def cells_seq_has_def)
        ultimately have "attends (ma_non_causal_type a) kc ub (ma_causal a) r k = attends (ma_non_causal_type a) kc ub (ma_causal a) i k"
          using assms(2,4,5,6) by (intro attends_far) auto
        then show ?thesis using Some assms(4,6,8) by (simp add: kq_mask_at_def)
      qed (use Some assms(4,6) in \<open>simp add: kq_mask_at_def attends_def\<close>)
    qed
    finally show ?thesis using False by (simp add: fold_row_nth)
  qed
qed

lemma fold_row_before: "x < off \<Longrightarrow> fold (\<lambda>j d. d[off + j := v j]) js d ! x = d ! x"
  by (simp add: fold_row_nth)

lemma mask_token_step:
  assumes "args_ok a kc ub" "mask_inv a kc ub (s * ma_n_tps a + ii) st" "s * ma_n_tps a + ii < ub_n_tokens ub"
  shows "\<exists>st'. mask_token a kc ub s ii st = Some st' \<and> mask_inv a kc ub (Suc (s * ma_n_tps a + ii)) st'"
proof -
  let ?i = "s * ma_n_tps a + ii" and ?n = "ma_n_kv a"
  define q where "q = ub_first_seq ub ?i"
  have wf: "kvc_wf kc" "ub_ok kc ub" "ub_pos ub ! ?i \<le> INT32_MAX" using assms(1,3) by (auto simp: args_ok_def)
  note f = first_seq_ok [OF wf(1,2)]
  have t: "stream_of kc q < length (kc_cells kc)" using f(2) [OF assms(3)] kvc_wfD(2) [OF wf(1)] by (simp add: q_def)
  have pmin: "batch_pos_min ub ! q = ub_seq_start ub q"
    by (rule batch_pos_min_eq [OF _ _ assms(3) q_def [symmetric] wf(3)]) (use f(3) assms(3) in \<open>auto simp: q_def\<close>)
  have inv: "length (ms_data st) = ?n * ub_n_tokens ub" "\<And>i. i < ?i \<Longrightarrow> row_done a kc ub (ms_data st) i"
    "\<And>q r. ms_srct st q = Some r \<Longrightarrow> r < ?i \<and> ub_first_seq ub r = q \<and> ms_idxs st q = reuse_list a kc ub q"
    using assms(2) unfolding mask_inv_def by blast+
  let ?v = "mask_value a kc ub (ub_seq_start ub q) (row_cells kc q) q ?i"
  let ?fresh = "fold (\<lambda>j d. d[?n * ?i + j := ?v j]) [0..<?n] (ms_data st)"
  have fresh: "row_done a kc ub ?fresh ?i" by (rule row_fresh [OF assms(1,3) inv(1) q_def])
  have done': "\<forall>i < Suc ?i. row_done a kc ub d i"
    if "row_done a kc ub d ?i" "\<And>x. x < ?n * ?i \<Longrightarrow> d ! x = ms_data st ! x" for d
    using that(1) row_done_other [OF inv(2) _ that(2)] by (auto simp: less_Suc_eq)
  have srct: "r < Suc ?i \<and> ub_first_seq ub r = u \<and> ms_idxs st u = reuse_list a kc ub u" if "ms_srct st u = Some r" for u r
    using inv(3) [OF that] by simp
  note simps = mask_token_def ub_first_seq_def [symmetric] q_def [symmetric] stream_of_def [symmetric] pmin t
    fold_mask_cell Let_def
  consider (alibi) "ma_alibi a" | (first) "\<not> ma_alibi a" "ms_srct st q = None"
    | (reuse) r where "\<not> ma_alibi a" "ms_srct st q = Some r" by (cases "ms_srct st q") auto
  then show ?thesis
  proof cases
    case alibi
    have "mask_token a kc ub s ii st = Some (st\<lparr>ms_data := ?fresh, ms_idxs := (ms_idxs st)(q := ms_idxs st q)\<rparr>)"
      using alibi by (simp add: simps)
    moreover have "mask_inv a kc ub (Suc ?i) (st\<lparr>ms_data := ?fresh, ms_idxs := (ms_idxs st)(q := ms_idxs st q)\<rparr>)"
      unfolding mask_inv_def using done' [OF fresh fold_row_before] inv(1) srct by (simp add: fold_row_nth(2))
    ultimately show ?thesis by blast
  next
    case first
    let ?st = "st\<lparr>ms_data := ?fresh, ms_srct := (ms_srct st)(q \<mapsto> ?i), ms_idxs := (ms_idxs st)(q := reuse_list a kc ub q)\<rparr>"
    have "mask_token a kc ub s ii st = Some ?st" using first by (simp add: simps reuse_list_def)
    moreover have "mask_inv a kc ub (Suc ?i) ?st"
      unfolding mask_inv_def using done' [OF fresh fold_row_before] inv(1) srct by (simp add: fold_row_nth(2) q_def)
    ultimately show ?thesis by blast
  next
    case reuse
    note r = inv(3) [OF reuse(2)]
    let ?d = "fold (\<lambda>j d. d[?n * ?i + j := ?v j]) (reuse_list a kc ub q)
        (copy_row ?n (?n * r) (?n * ?i) (ms_data st))"
    have len: "length (reuse_list a kc ub q) \<le> ?n" unfolding reuse_list_def using length_filter_le [of _ "[0..<?n]"] by simp
    let ?st = "st\<lparr>ms_data := ?d, ms_idxs := (ms_idxs st)(q := ms_idxs st q)\<rparr>"
    have "mask_token a kc ub s ii st = Some ?st" using reuse r len by (simp add: simps)
    moreover have row: "row_done a kc ub ?d ?i"
      by (rule row_reused [OF assms(1,3) inv(1) q_def]) (use r reuse(1) inv(2) in auto)
    have "?n * Suc r \<le> ?n * ?i" "?n * Suc ?i \<le> ?n * ub_n_tokens ub" using r assms(3) by (intro mult_le_mono2; simp)+
    then have b: "?n * r + ?n \<le> ?n * ?i" "?n * ?i + ?n \<le> length (ms_data st)" using inv(1) by (simp_all add: algebra_simps)
    have before: "?d ! x = ms_data st ! x" if "x < ?n * ?i" for x
      using that copy_row_effect(1) [OF b] by (simp add: fold_row_before)
    have "mask_inv a kc ub (Suc ?i) ?st"
      unfolding mask_inv_def using done' [OF row before] inv(1) srct copy_row_effect(2) [OF b] by (simp add: fold_row_nth(2))
    ultimately show ?thesis by blast
  qed
qed

lemma set_input_kq_mask_impl_correct:
  assumes "args_ok a kc ub" "length data = ma_n_kv a * ub_n_tokens ub"
  shows "\<exists>mask. set_input_kq_mask_impl a kc ub data = Some mask \<and> length mask = ma_n_kv a * ub_n_tokens ub \<and>
    (\<forall>i < ub_n_tokens ub. row_done a kc ub mask i)"
proof -
  let ?P = "\<lambda>s d. length d = ma_n_kv a * ub_n_tokens ub \<and> (\<forall>i < s * ma_n_tps a. row_done a kc ub d i)"
  have n: "ma_n_stream a * ma_n_tps a = ub_n_tokens ub" using assms(1) by (simp add: args_ok_def)
  have "\<exists>d. set_input_kq_mask_impl a kc ub data = Some d \<and> ?P (ma_n_stream a) d"
    unfolding set_input_kq_mask_impl_def
  proof (rule fold_opt_upt_invariant [where P = ?P])
    show "?P 0 data" using assms(2) by simp
    fix s d assume s: "s < ma_n_stream a" "?P s d"
    have in_range: "s * ma_n_tps a + ii < ub_n_tokens ub" if "ii < ma_n_tps a" for ii
      using row_index [OF s(1) that] n by (simp add: mult.commute)
    have "\<exists>st. fold_opt (mask_token a kc ub s) [0..<ma_n_tps a] \<lparr>ms_data = d, ms_srct = Map.empty, ms_idxs = (\<lambda>_. [])\<rparr> = Some st \<and>
        mask_inv a kc ub (s * ma_n_tps a + ma_n_tps a) st"
    proof (rule fold_opt_upt_invariant [where P = "\<lambda>ii. mask_inv a kc ub (s * ma_n_tps a + ii)"])
      show "mask_inv a kc ub (s * ma_n_tps a + 0) \<lparr>ms_data = d, ms_srct = Map.empty, ms_idxs = (\<lambda>_. [])\<rparr>"
        using s(2) by (simp add: mask_inv_def)
      fix ii st assume "ii < ma_n_tps a" "mask_inv a kc ub (s * ma_n_tps a + ii) st"
      then show "\<exists>st'. mask_token a kc ub s ii st = Some st' \<and> mask_inv a kc ub (s * ma_n_tps a + Suc ii) st'"
        using mask_token_step [OF assms(1)] in_range by simp
    qed
    then show "\<exists>d'. map_option ms_data (fold_opt (mask_token a kc ub s) [0..<ma_n_tps a]
        \<lparr>ms_data = d, ms_srct = Map.empty, ms_idxs = (\<lambda>_. [])\<rparr>) = Some d' \<and> ?P (Suc s) d'"
      by (auto simp: mask_inv_def algebra_simps)
  qed
  then show ?thesis using n by auto
qed

text \<open>C24. The attention mask that \<open>set_input_kq_mask\<close> computes, where a row of a sequence is copied from an
  earlier row and only the recorded cells are looked at again, is the mask of the definition,
  cell by cell: what a token attends to is decided by its sequence, by causality and by the
  attention window.\<close>

theorem set_input_kq_mask_correct:
  assumes "kvc_wf kc" "ub_ok kc ub" "\<forall>i < ub_n_tokens ub. ub_pos ub ! i \<le> INT32_MAX"
    and "n_kv \<le> kvc_get_size kc" "n_stream dvd ub_n_tokens ub" "length data = n_kv * ub_n_tokens ub"
  shows "\<exists>mask. set_input_kq_mask nct alibi n_kv n_stream kc ub causal_attn data = Some mask \<and>
    length mask = n_kv * ub_n_tokens ub \<and>
    (\<forall>i < ub_n_tokens ub. \<forall>j < n_kv. mask ! (n_kv * i + j) =
       kq_mask_at nct alibi kc ub (attn_causal nct kc causal_attn) i j)"
proof -
  let ?a = "\<lparr>ma_non_causal_type = nct, ma_causal = attn_causal nct kc causal_attn, ma_swa = (kc_swa_type kc \<noteq> SWA_TYPE_NONE),
    ma_is_2d = is_pos_2d ub, ma_alibi = alibi, ma_n_kv = n_kv, ma_n_stream = n_stream, ma_n_tps = ub_n_tokens ub div n_stream\<rparr>"
  have "n_stream * (ub_n_tokens ub div n_stream) = ub_n_tokens ub" using assms(5) by simp
  then have ok: "args_ok ?a kc ub" using assms(1-4) by (simp add: args_ok_def)
  have "set_input_kq_mask nct alibi n_kv n_stream kc ub causal_attn data = set_input_kq_mask_impl ?a kc ub data"
    using assms(5) by (auto simp: set_input_kq_mask_def attn_causal_def Let_def)
  then show ?thesis using set_input_kq_mask_impl_correct [OF ok, of data] assms(6) by (simp add: row_done_def)
qed

theorem set_input_kq_mask_correct_witness:
  "\<exists>mask. set_input_kq_mask NON_CAUSAL_TYPE_ALL False 4 1 demo_kc (demo_ub 0) True (replicate 8 MaskDrop) = Some mask \<and>
     length mask = 8"
proof -
  have "kvc_get_size demo_kc = 4" "kvc_wf demo_kc" using demo_kc_wf by simp_all
  then show ?thesis
    using set_input_kq_mask_correct [OF demo_kc_wf(1) demo_ub_ok(1), of 4 1 "replicate 8 MaskDrop" NON_CAUSAL_TYPE_ALL False True]
    by (auto simp: demo_ub_def INT32_MAX_def less_2)
qed

subsection \<open>The tokens before a token\<close>

definition prev_order :: "llama_ubatch \<Rightarrow> nat list \<times> (nat \<Rightarrow> nat list)" where
  \<comment> \<open>\<open>ord\<close> and \<open>seq_idx\<close>: the index of each token among the tokens of its sequence, and those tokens\<close>
  "prev_order ub = fold (\<lambda>i (ord, seq_idx).
       let q = nat (ub_seq_id ub ! i ! 0); v = seq_idx q
       in (ord[i := length v], seq_idx(q := v @ [i])))
     [0..<ub_n_tokens ub] (replicate (ub_n_tokens ub) 0, \<lambda>_. [])"

definition prev_pos :: "llama_ubatch \<Rightarrow> nat \<Rightarrow> nat \<Rightarrow> llama_pos" where
  \<comment> \<open>the position looked up for the token \<open>d\<close> before token \<open>i\<close>\<close>
  "prev_pos ub i d =
     (case ub_token ub of
        None \<Rightarrow> (let (ord, seq_idx) = prev_order ub;
                      v = seq_idx (nat (ub_seq_id ub ! i ! 0));
                      k = int (ord ! i) - int d
                  in if k \<ge> 0 then ub_pos ub ! (v ! nat k) else ub_pos ub ! (v ! 0) + k)
      | Some _ \<Rightarrow> ub_pos ub ! i - int d)"

definition get_prev_tokens :: "kv_cache \<Rightarrow> llama_ubatch \<Rightarrow> nat \<Rightarrow> llama_token list" where
  "get_prev_tokens kc ub n =
     (let res = replicate (ub_n_tokens ub * n) LLAMA_TOKEN_NULL in
      if n = 0 then res
      else fold (\<lambda>i res. let q = nat (ub_seq_id ub ! i ! 0) in
             fold (\<lambda>j res. let p = prev_pos ub i (n - j) in
                 if p < 0 then res
                 else res[i * n + j := cells_seq_pos_tok_le (cells_of kc q) q p]) [0..<n] res)
           [0..<ub_n_tokens ub] res)"

definition tokens_of_seq :: "llama_ubatch \<Rightarrow> nat \<Rightarrow> nat list" where
  "tokens_of_seq ub q = filter (\<lambda>i. ub_first_seq ub i = q) [0..<ub_n_tokens ub]"

lemma prev_order_eq:
  "i < ub_n_tokens ub \<Longrightarrow>
     fst (prev_order ub) ! i = length (filter (\<lambda>i'. ub_first_seq ub i' = ub_first_seq ub i) [0..<i]) \<and>
     snd (prev_order ub) q = tokens_of_seq ub q"
proof -
  define f where "f = (\<lambda>i (ord :: nat list, seq_idx). let q = nat (ub_seq_id ub ! i ! 0); v = seq_idx q
       in (ord[i := length v], seq_idx(q := v @ [i])))"
  have f: "f i (ord, idx) = (ord[i := length (idx (ub_first_seq ub i))], idx(ub_first_seq ub i := idx (ub_first_seq ub i) @ [i]))" for i ord idx
    by (simp add: f_def Let_def ub_first_seq_def)
  let ?g = "\<lambda>n. fold f [0..<n] (replicate (ub_n_tokens ub) 0, \<lambda>_. [])"
  have "length (fst (?g n)) = ub_n_tokens ub \<and>
      (\<forall>q. snd (?g n) q = filter (\<lambda>i. ub_first_seq ub i = q) [0..<n]) \<and>
      (\<forall>i < n. fst (?g n) ! i = length (filter (\<lambda>i'. ub_first_seq ub i' = ub_first_seq ub i) [0..<i]))"
    if "n \<le> ub_n_tokens ub" for n
    using that
  proof (induction n)
    case (Suc n)
    obtain ord idx where g: "?g n = (ord, idx)" by (cases "?g n")
    show ?case using Suc g by (auto simp: f less_Suc_eq nth_list_update)
  qed simp
  then show "i < ub_n_tokens ub \<Longrightarrow> ?thesis" by (auto simp: prev_order_def tokens_of_seq_def f_def [symmetric])
qed

definition history_pos :: "llama_ubatch \<Rightarrow> nat \<Rightarrow> nat \<Rightarrow> llama_pos" where
  \<comment> \<open>where the token \<open>d\<close> before token \<open>i\<close> is: one position per token in a text batch; in a batch
     of embeddings, which may repeat a position, the tokens of the sequence are counted back,
     and positions only before the first of them\<close>
  "history_pos ub i d =
     (if ub_token ub \<noteq> None then ub_pos ub ! i - int d
      else let v = tokens_of_seq ub (ub_first_seq ub i);
               k = length (filter (\<lambda>i'. i' < i) v)
           in if d \<le> k then ub_pos ub ! (v ! (k - d)) else ub_pos ub ! hd v - int (d - k))"

definition nearest_token :: "kv_cache \<Rightarrow> nat \<Rightarrow> llama_pos \<Rightarrow> llama_token \<Rightarrow> bool" where
  \<comment> \<open>the token of a cell of the sequence at the last position that is not after \<open>p\<close>\<close>
  "nearest_token kc q p tok \<longleftrightarrow>
     (let ps = {p' \<in> kvc_positions kc q. p' \<le> p} in
      if ps = {} then tok = LLAMA_TOKEN_NULL
      else \<exists>i < kvc_get_size kc. \<exists>k. kvc_view kc (stream_of kc q) i = Some k \<and> q \<in> cell_seq k \<and>
             cell_pos k = Max ps \<and> ext_tok (cell_ext k) = tok)"

lemma prev_pos_eq:
  assumes "i < ub_n_tokens ub"
  shows "prev_pos ub i d = history_pos ub i d"
proof (cases "ub_token ub")
  case None
  let ?q = "ub_first_seq ub i"
  have "filter (\<lambda>i'. i' < i) (tokens_of_seq ub ?q) = filter (\<lambda>i'. ub_first_seq ub i' = ?q) [0..<i]"
  proof -
    have "filter (\<lambda>i'. i' < i) [0..<ub_n_tokens ub] = [0..<i]"
    proof -
      have "[0..<ub_n_tokens ub] = [0..<i] @ [i..<ub_n_tokens ub]"
        using assms upt_add_eq_append [of 0 i "ub_n_tokens ub - i"] by simp
      then show ?thesis by (simp only: filter_append) (simp add: filter_empty_conv)
    qed
    then have "filter (\<lambda>i'. ub_first_seq ub i' = ?q) (filter (\<lambda>i'. i' < i) [0..<ub_n_tokens ub]) =
        filter (\<lambda>i'. ub_first_seq ub i' = ?q) [0..<i]" by simp
    then show ?thesis unfolding tokens_of_seq_def by (simp only: filter_filter conj_commute)
  qed
  then have k: "fst (prev_order ub) ! i = length (filter (\<lambda>i'. i' < i) (tokens_of_seq ub ?q))"
    using prev_order_eq [OF assms] by simp
  have "tokens_of_seq ub ?q \<noteq> []" using assms by (auto simp: tokens_of_seq_def filter_empty_conv)
  then have hd: "tokens_of_seq ub ?q ! 0 = hd (tokens_of_seq ub ?q)" by (simp add: hd_conv_nth)
  have idx: "snd (prev_order ub) ?q = tokens_of_seq ub ?q" using prev_order_eq [OF assms] by simp
  have p: "prev_pos ub i d = (let v = snd (prev_order ub) ?q; k = int (fst (prev_order ub) ! i) - int d
      in if k \<ge> 0 then ub_pos ub ! (v ! nat k) else ub_pos ub ! (v ! 0) + k)"
    using None by (simp add: prev_pos_def case_prod_unfold Let_def ub_first_seq_def)
  show ?thesis
    unfolding p idx k using None hd by (simp add: history_pos_def Let_def nat_minus_as_int)
qed (simp add: prev_pos_def history_pos_def)

lemma seq_pos_tok_le_nearest:
  assumes "kvc_wf kc" "q < length (kc_seq_to_stream kc)"
  shows "nearest_token kc q p (cells_seq_pos_tok_le (cells_of kc q) q p)"
proof -
  let ?c = "cells_of kc q"
  have t: "stream_of kc q < kc_n_stream kc" by (rule kvc_wfD(6) [OF assms])
  have wf: "cells_wf ?c" "length (kv_pos ?c) = kvc_get_size kc"
    using kvc_wfD(7,8) [OF assms(1) t] by (simp_all add: cells_of_def cells_size_def)
  let ?below = "Set.filter (\<lambda>e. fst e \<le> p) (kv_seq_pos ?c q)"
  have fin: "finite ?below" by (rule finite_subset [OF _ finite_kv_seq_pos [OF wf(1), of q]]) auto
  have ps: "{p' \<in> kvc_positions kc q. p' \<le> p} = fst ` ?below"
    by (force simp: kvc_positions_def seq_positions_def cells_wf_seq_pos_eq [OF wf(1)] image_iff)
  show ?thesis
  proof (cases "?below = {}")
    case True
    then show ?thesis by (simp add: nearest_token_def cells_seq_pos_tok_le_def ps)
  next
    case False
    let ?m = "Max (fst ` ?below)" let ?S = "Set.filter (\<lambda>e. fst e = ?m) ?below"
    have "?m \<in> fst ` ?below" using fin False by (intro Max_in) auto
    then have ne: "?S \<noteq> {}" by auto
    define m where "m = ?m"
    define x where "x = Max (snd ` ?S)"
    have "x \<in> snd ` ?S" unfolding x_def using fin ne by (intro Max_in finite_imageI finite_subset [OF _ fin]) auto
    then obtain e where e: "x = snd e" "e \<in> ?S" by (rule imageE)
    then have "fst e = m" "e \<in> kv_seq_pos ?c q" by (auto simp: m_def)
    then have "(m, x) \<in> kv_seq_pos ?c q" unfolding e(1) by (metis prod.collapse)
    then have i: "x < length (kv_pos ?c)" "q \<in> kv_seq ?c ! x" "m = kv_pos ?c ! x"
      using cells_wfD(5) [OF wf(1)] by blast+
    have tok: "cells_seq_pos_tok_le ?c q p = ext_tok (kv_ext ?c ! x)"
      unfolding cells_seq_pos_tok_le_def Let_def x_def using False by (simp only: if_False)
    have "kvc_view kc (stream_of kc q) x = Some \<lparr>cell_pos = m, cell_shift = kv_shift ?c ! x,
        cell_ext = kv_ext ?c ! x, cell_seq = kv_seq ?c ! x\<rparr>"
      using cells_wf_cellD(4) [OF wf(1) i(1) i(2)] i(3) by (simp add: kvc_view_def cells_of_def cells_view_def)
    then show ?thesis
      unfolding nearest_token_def Let_def ps tok m_def [symmetric] using False i wf(2) by auto
  qed
qed

lemma fold_rows_cond:
  \<comment> \<open>a matrix filled entry by entry, entries without a value left alone\<close>
  assumes "length res = N * n" "\<And>x. x < N * n \<Longrightarrow> res ! x = d"
  shows "length (fold (\<lambda>i. fold (\<lambda>j res. if C i j then res else res[i * n + j := v i j]) [0..<n]) [0..<N] res) = N * n"
    "i < N \<Longrightarrow> j < n \<Longrightarrow>
       fold (\<lambda>i. fold (\<lambda>j res. if C i j then res else res[i * n + j := v i j]) [0..<n]) [0..<N] res ! (i * n + j) =
       (if C i j then d else v i j)"
proof -
  let ?row = "\<lambda>i m. fold (\<lambda>j res. if C i j then res else res[i * n + j := v i j]) [0..<m]"
  have row: "length (?row i m r) = length r \<and>
      (\<forall>x. ?row i m r ! x = (if \<exists>j < m. x = i * n + j \<and> \<not> C i j \<and> x < length r then v i (x - i * n) else r ! x))" for i m r
  proof (induction m)
    case (Suc m)
    let ?r = "?row i m r"
    have len: "length ?r = length r" using Suc by blast
    have old: "?r ! x = (if \<exists>j < m. x = i * n + j \<and> \<not> C i j \<and> x < length r then v i (x - i * n) else r ! x)" for x
      using Suc by blast
    have step: "?row i (Suc m) r = (if C i m then ?r else ?r[i * n + m := v i m])" by simp
    have "?row i (Suc m) r ! x = (if \<exists>j < Suc m. x = i * n + j \<and> \<not> C i j \<and> x < length r then v i (x - i * n) else r ! x)" for x
    proof (cases "x = i * n + m \<and> \<not> C i m \<and> x < length r")
      case True then show ?thesis unfolding step using len by auto
    next
      case False
      then have "?row i (Suc m) r ! x = ?r ! x" unfolding step using len by (auto simp: nth_upd)
      moreover have "(\<exists>j < Suc m. x = i * n + j \<and> \<not> C i j \<and> x < length r) \<longleftrightarrow> (\<exists>j < m. x = i * n + j \<and> \<not> C i j \<and> x < length r)"
        using False by (auto simp: less_Suc_eq)
      ultimately show ?thesis using old by simp
    qed
    moreover have "length (?row i (Suc m) r) = length r" unfolding step using len by simp
    ultimately show ?case by blast
  qed simp
  let ?all = "\<lambda>M. fold (\<lambda>i. ?row i n) [0..<M] res"
  have "length (?all M) = N * n \<and> (\<forall>i < N. \<forall>j < n. ?all M ! (i * n + j) = (if i < M \<and> \<not> C i j then v i j else d))" if "M \<le> N" for M
    using that
  proof (induction M)
    case 0 then show ?case using assms row_index [of _ N _ n] by (simp add: mult.commute)
  next
    case (Suc M)
    have eq: "i * n + j = M * n + j' \<longleftrightarrow> i = M \<and> j = j'" if "j < n" "j' < n" for i j j'
    proof
      assume e: "i * n + j = M * n + j'"
      have "(i * n + j) div n = i" "(M * n + j') div n = M" using that by simp_all
      then show "i = M \<and> j = j'" using e by simp
    qed simp
    have "?all (Suc M) ! (i * n + j) = (if i < Suc M \<and> \<not> C i j then v i j else d)" if "i < N" "j < n" for i j
    proof -
      have lt: "i * n + j < N * n" using row_index [OF that] by (simp add: mult.commute)
      show ?thesis
        using Suc that row [of M n "?all M"] eq [OF that(2)] lt by (auto simp: less_Suc_eq)
    qed
    then show ?case using Suc row [of M n "?all M"] by simp
  qed
  from this [of N] show "length (?all N) = N * n"
    "i < N \<Longrightarrow> j < n \<Longrightarrow> ?all N ! (i * n + j) = (if C i j then d else v i j)" by auto
qed

text \<open>\<open>get_prev_tokens\<close> gives, for every token of a micro-batch and every distance up to \<open>n\<close>, the token of
  the cell that is nearest at or before the position of that predecessor, or no token where the
  history does not reach that far.\<close>

theorem get_prev_tokens_correct:
  assumes "kvc_wf kc" "ub_ok kc ub" "i < ub_n_tokens ub" "0 < d" "d \<le> n"
  shows "length (get_prev_tokens kc ub n) = ub_n_tokens ub * n \<and>
    (if history_pos ub i d < 0 then get_prev_tokens kc ub n ! (i * n + (n - d)) = LLAMA_TOKEN_NULL
     else nearest_token kc (ub_first_seq ub i) (history_pos ub i d) (get_prev_tokens kc ub n ! (i * n + (n - d))))"
proof -
  let ?v = "\<lambda>i j. cells_seq_pos_tok_le (cells_of kc (ub_first_seq ub i)) (ub_first_seq ub i) (prev_pos ub i (n - j))"
  have g: "get_prev_tokens kc ub n = fold (\<lambda>i. fold (\<lambda>j res. if prev_pos ub i (n - j) < 0 then res else res[i * n + j := ?v i j]) [0..<n])
      [0..<ub_n_tokens ub] (replicate (ub_n_tokens ub * n) LLAMA_TOKEN_NULL)"
    using assms(4,5) unfolding get_prev_tokens_def Let_def ub_first_seq_def by simp
  note fr = fold_rows_cond [where res = "replicate (ub_n_tokens ub * n) LLAMA_TOKEN_NULL" and N = "ub_n_tokens ub" and n = n
      and d = LLAMA_TOKEN_NULL and C = "\<lambda>i j. prev_pos ub i (n - j) < 0" and v = ?v, simplified]
  have "n - d < n" "n - (n - d) = d" using assms(4,5) by auto
  then show ?thesis
    unfolding g using fr(1) fr(2) [OF assms(3), of "n - d"] prev_pos_eq [OF assms(3), of d]
      seq_pos_tok_le_nearest [OF assms(1) first_seq_ok(1) [OF assms(1-3)], of "history_pos ub i d"] by simp
qed

theorem get_prev_tokens_correct_witness:
  "nearest_token demo_kc 0 6 (get_prev_tokens demo_kc (demo_ub 0) 2 ! 1)"
proof -
  have "history_pos (demo_ub 0) 0 1 = 6" "ub_first_seq (demo_ub 0) 0 = 0"
    by (simp_all add: history_pos_def demo_ub_def ub_first_seq_def)
  then show ?thesis
    using get_prev_tokens_correct [OF demo_kc_wf(1) demo_ub_ok(1), of 0 1 2] demo_ub_ok(5) by simp
qed

end
