(* ===== verification/Batch.thy ===== *)
theory Batch
  imports Ubatch KvCells
begin

text \<open>
  Sanitizing and splitting a batch: the class \<open>llama_batch_allocr\<close> of \<open>src/llama-batch.cpp\<close>.

  \<open>init\<close> validates the input of the caller, fills in what is missing and checks the positions
  against the memory; the three \<open>split\<close> methods then take micro-batches out of the batch until
  every token is used. A pointer of the C struct that may be null is an option. \<open>None\<close> as the
  result of an operation is an abort (\<open>GGML_ASSERT\<close>) or the dereference of a null pointer.
  The debug output is not part of the model.
\<close>

subsection \<open>State\<close>

record llama_batch =
  b_n_tokens :: int
  b_token :: "llama_token list option"
  b_embd :: "u32 list option"
  b_pos :: "llama_pos list option"
  b_n_seq_id :: "int list option"
  b_seq_id :: "int list list option"
  b_logits :: "int list option"

record memory_pos =
  \<comment> \<open>what the splitter asks of a memory module, \<open>llama_memory_i\<close>\<close>
  mem_seq_pos_min :: "nat \<Rightarrow> llama_pos"
  mem_seq_pos_max :: "nat \<Rightarrow> llama_pos"

record batch_allocr =
  ba_n_pos_per_embd :: nat
  ba_batch :: llama_batch
  ba_n_embd :: nat
  ba_n_seq_max :: nat
  ba_n_outputs :: nat
  ba_seq_id_unq :: "int list"
  ba_seq_idx :: "int list"
  ba_has_cpl :: bool
  ba_seq_pos :: "nat \<Rightarrow> llama_pos set"
  ba_seq_cpl :: "nat \<Rightarrow> nat \<Rightarrow> bool"
  ba_seq_set :: "nat set list"
  ba_seq_set_map :: "nat set \<Rightarrow> nat list"
  ba_out_ids :: "nat list"
  ba_n_used :: nat
  ba_used :: "bool list"

definition batch_empty :: llama_batch where
  "batch_empty = \<lparr>b_n_tokens = 0, b_token = None, b_embd = None, b_pos = None, b_n_seq_id = None,
     b_seq_id = None, b_logits = None\<rparr>"

definition batch_n :: "batch_allocr \<Rightarrow> nat" where
  "batch_n al = nat (b_n_tokens (ba_batch al))"

definition allocr_new :: "nat \<Rightarrow> batch_allocr" where
  "allocr_new n_pos_per_embd = \<lparr>ba_n_pos_per_embd = n_pos_per_embd, ba_batch = batch_empty, ba_n_embd = 0,
     ba_n_seq_max = 0, ba_n_outputs = 0, ba_seq_id_unq = [], ba_seq_idx = replicate LLAMA_MAX_SEQ (-1),
     ba_has_cpl = False, ba_seq_pos = (\<lambda>_. {}), ba_seq_cpl = (\<lambda>_ _. False), ba_seq_set = [],
     ba_seq_set_map = (\<lambda>_. []), ba_out_ids = [], ba_n_used = 0, ba_used = []\<rparr>"

definition allocr_clear :: "batch_allocr \<Rightarrow> batch_allocr" where
  "allocr_clear al = al\<lparr>ba_n_outputs := 0, ba_batch := batch_empty, ba_seq_id_unq := [],
     ba_seq_pos := (\<lambda>_. {}), ba_seq_cpl := (\<lambda>_ _. False), ba_seq_set := [], ba_seq_set_map := (\<lambda>_. []),
     ba_seq_idx := map (\<lambda>_. -1) (ba_seq_idx al)\<rparr>"

definition split_reset :: "batch_allocr \<Rightarrow> batch_allocr" where
  "split_reset al = al\<lparr>ba_out_ids := [], ba_n_used := 0, ba_used := replicate (batch_n al) False\<rparr>"

definition allocr_seq_pos_min :: "batch_allocr \<Rightarrow> nat \<Rightarrow> llama_pos" where
  "allocr_seq_pos_min al s = (if ba_seq_pos al s = {} then -1 else Min (ba_seq_pos al s))"

definition allocr_seq_pos_max :: "batch_allocr \<Rightarrow> nat \<Rightarrow> llama_pos" where
  "allocr_seq_pos_max al s = (if ba_seq_pos al s = {} then -1 else Max (ba_seq_pos al s))"

subsection \<open>Validating and filling in a batch\<close>

definition b_seqs :: "llama_batch \<Rightarrow> nat \<Rightarrow> int list" where
  \<comment> \<open>the sequences of token \<open>i\<close>: \<open>seq_id[i][s]\<close> for \<open>s < n_seq_id[i]\<close>\<close>
  "b_seqs b i = map (\<lambda>s. the (b_seq_id b) ! i ! s) [0..<nat (the (b_n_seq_id b) ! i)]"

definition batch_tokens_ok :: "int \<Rightarrow> llama_batch \<Rightarrow> bool" where
  "batch_tokens_ok n_vocab b = (case b_token b of None \<Rightarrow> True
     | Some ts \<Rightarrow> list_all (\<lambda>i. \<not> (ts ! i < 0 \<or> ts ! i \<ge> n_vocab)) [0..<nat (b_n_tokens b)])"

definition batch_seqs_ok :: "nat \<Rightarrow> llama_batch \<Rightarrow> bool" where
  "batch_seqs_ok n_seq_max b = (case b_seq_id b of None \<Rightarrow> True
     | Some _ \<Rightarrow> list_all (\<lambda>i. list_all (\<lambda>s. \<not> (s < 0 \<or> s \<ge> int n_seq_max)) (b_seqs b i)) [0..<nat (b_n_tokens b)])"

definition fill_seqs :: "llama_batch \<Rightarrow> llama_batch" where
  \<comment> \<open>the default is one sequence per token, number 0\<close>
  "fill_seqs b =
     (let n = nat (b_n_tokens b);
          b = (case b_n_seq_id b of None \<Rightarrow> b\<lparr>b_n_seq_id := Some (replicate n 1)\<rparr> | Some _ \<Rightarrow> b)
      in case b_seq_id b of None \<Rightarrow> b\<lparr>b_seq_id := Some (replicate n [0])\<rparr> | Some _ \<Rightarrow> b)"

definition next_pos :: "memory_pos option \<Rightarrow> nat \<Rightarrow> llama_pos" where
  "next_pos mem s = (case mem of None \<Rightarrow> 0 | Some m \<Rightarrow> mem_seq_pos_max m s + 1)"

definition gen_pos :: "llama_batch \<Rightarrow> nat \<Rightarrow> (nat \<Rightarrow> llama_pos) \<times> llama_pos list \<Rightarrow> (nat \<Rightarrow> llama_pos) \<times> llama_pos list" where
  \<comment> \<open>the position of token \<open>i\<close>, and where its sequences go on\<close>
  "gen_pos b i = (\<lambda>(p0, pos).
     let p = p0 (nat (the (b_seq_id b) ! i ! 0))
     in (fold (\<lambda>s p0. p0(nat s := p + 1)) (b_seqs b i) p0, pos @ [p]))"

definition fill_pos :: "memory_pos option \<Rightarrow> llama_batch \<Rightarrow> llama_batch" where
  "fill_pos mem b = (case b_pos b of
       None \<Rightarrow> b\<lparr>b_pos := Some (snd (fold (gen_pos b) [0..<nat (b_n_tokens b)] (next_pos mem, [])))\<rparr>
     | Some _ \<Rightarrow> b)"

definition fill_logits :: "bool \<Rightarrow> llama_batch \<Rightarrow> llama_batch" where
  "fill_logits output_all b =
     (let n = nat (b_n_tokens b) in
      case b_logits b of
        None \<Rightarrow> b\<lparr>b_logits := Some (if output_all then replicate n 1 else (replicate n 0)[n - 1 := 1])\<rparr>
      | Some ls \<Rightarrow>
          if output_all \<and> list_ex (\<lambda>i. ls ! i = 0) [0..<n]
          then b\<lparr>b_logits := Some (replicate n 1)\<rparr> else b)"

subsection \<open>What is computed about a batch\<close>

definition count_outputs :: "batch_allocr \<Rightarrow> batch_allocr" where
  "count_outputs al = al\<lparr>ba_n_outputs := ba_n_outputs al +
     length (filter (\<lambda>i. the (b_logits (ba_batch al)) ! i \<noteq> 0) [0..<batch_n al])\<rparr>"

definition couple_seq :: "llama_batch \<Rightarrow> nat \<Rightarrow> nat \<Rightarrow> batch_allocr \<Rightarrow> batch_allocr" where
  \<comment> \<open>the \<open>k\<close>-th sequence of token \<open>i\<close>\<close>
  "couple_seq b i k al =
     (let s0 = nat (the (b_seq_id b) ! i ! 0);
          s1 = nat (the (b_seq_id b) ! i ! k);
          al = al\<lparr>ba_seq_pos := (ba_seq_pos al)(s1 := insert (the (b_pos b) ! i) (ba_seq_pos al s1))\<rparr>
      in if k > 0
         then al\<lparr>ba_seq_cpl := (ba_seq_cpl al)(s1 := (ba_seq_cpl al s1)(s0 := True)), ba_has_cpl := True\<rparr>
         else al)"

definition couple_seqs :: "batch_allocr \<Rightarrow> batch_allocr" where
  "couple_seqs al =
     (let b = ba_batch al in
      fold (\<lambda>i. fold (couple_seq b i) [0..<nat (the (b_n_seq_id b) ! i)]) [0..<batch_n al] (al\<lparr>ba_has_cpl := False\<rparr>))"

definition unq_index :: "nat \<Rightarrow> nat set \<Rightarrow> int list \<Rightarrow> int list \<times> int list" where
  \<comment> \<open>the members of a set of sequences in order, and the index of each among them\<close>
  "unq_index n_seq_max S idx =
     fold (\<lambda>s (idx, unq). if s \<in> S then (idx[s := int (length unq)], unq @ [int s]) else (idx, unq))
       [0..<n_seq_max] (idx, [])"

definition seq_sets :: "batch_allocr \<Rightarrow> batch_allocr" where
  "seq_sets al =
     (let b = ba_batch al;
          cur = (\<lambda>i. nat ` set (b_seqs b i));
          al = fold (\<lambda>i al. al\<lparr>ba_seq_set := ba_seq_set al @ [cur i],
                 ba_seq_set_map := (ba_seq_set_map al)(cur i := ba_seq_set_map al (cur i) @ [i])\<rparr>) [0..<batch_n al] al;
          (idx, unq) = unq_index (ba_n_seq_max al) (\<Union>i < batch_n al. cur i) (ba_seq_idx al)
      in al\<lparr>ba_seq_idx := idx, ba_seq_id_unq := ba_seq_id_unq al @ unq\<rparr>)"

subsection \<open>Consistency checks\<close>

definition positions_ok :: "memory_pos option \<Rightarrow> batch_allocr \<Rightarrow> nat \<Rightarrow> bool" where
  \<comment> \<open>the positions of sequence \<open>s\<close> in the batch go on where the memory ends\<close>
  "positions_ok mem al s =
     (if ba_seq_pos al s = {} then True
      else let p0 = (case mem of None \<Rightarrow> -1 | Some m \<Rightarrow> mem_seq_pos_max m s) in
        if ba_n_pos_per_embd al > 1
        then (if b_token (ba_batch al) \<noteq> None then \<not> (p0 \<ge> 0 \<and> p0 \<ge> allocr_seq_pos_min al s)
              else \<not> (p0 \<ge> 0 \<and> p0 > allocr_seq_pos_min al s))
        else (if p0 \<ge> 0 \<and> allocr_seq_pos_min al s \<noteq> p0 + 1 then False
              else \<not> allocr_seq_pos_max al s - allocr_seq_pos_min al s + 1 > int (card (ba_seq_pos al s))))"

definition coupled_ok :: "memory_pos option \<Rightarrow> batch_allocr \<Rightarrow> bool" where
  "coupled_ok mem al = (case mem of None \<Rightarrow> True
     | Some m \<Rightarrow> list_all (\<lambda>s0. list_all (\<lambda>s1. ba_seq_cpl al s0 s1 \<longrightarrow>
           mem_seq_pos_min m s0 = mem_seq_pos_min m s1 \<and> mem_seq_pos_max m s0 = mem_seq_pos_max m s1)
         [0..<ba_n_seq_max al]) [0..<ba_n_seq_max al])"

definition check_seq :: "batch_allocr \<Rightarrow> nat \<Rightarrow> int \<Rightarrow> (nat \<Rightarrow> nat set) \<times> (nat \<Rightarrow> llama_pos) \<Rightarrow>
    ((nat \<Rightarrow> nat set) \<times> (nat \<Rightarrow> llama_pos)) option" where
  \<comment> \<open>token \<open>i\<close> against the sets and the position its sequence has had so far\<close>
  "check_seq al i seq_id = (\<lambda>(cur_set, cur_pos).
     let s = nat seq_id; pos = the (b_pos (ba_batch al)) ! i;
         cur_set = cur_set(s := cur_set s \<inter> ba_seq_set al ! i)
     in if cur_set s = {} then None
        else if pos < cur_pos s then None
        else Some (cur_set, cur_pos(s := pos)))"

definition order_ok :: "batch_allocr \<Rightarrow> bool" where
  "order_ok al \<longleftrightarrow>
     fold_opt (\<lambda>i. fold_opt (check_seq al i) (b_seqs (ba_batch al) i)) [0..<batch_n al]
       (\<lambda>_. {..<LLAMA_MAX_SEQ}, \<lambda>_. -1) \<noteq> None"

definition allocr_init :: "int \<Rightarrow> memory_pos option \<Rightarrow> llama_batch \<Rightarrow> nat \<Rightarrow> nat \<Rightarrow> bool \<Rightarrow> batch_allocr \<Rightarrow>
    (batch_allocr \<times> bool) option" where
  \<comment> \<open>\<open>n_vocab\<close> is \<open>vocab.n_tokens()\<close>\<close>
  "allocr_init n_vocab mem inp n_embd n_seq_max output_all al =
     (let al = (allocr_clear al)\<lparr>ba_batch := inp\<rparr> in
      if \<not> b_n_tokens inp > 0 then None
      else if n_seq_max > LLAMA_MAX_SEQ then Some (al, False)
      else if \<not> batch_tokens_ok n_vocab inp then Some (al, False)
      else if b_seq_id inp \<noteq> None \<and> b_n_seq_id inp = None then None
      else if \<not> batch_seqs_ok n_seq_max inp then Some (al, False)
      else let b = fill_logits output_all (fill_pos mem (fill_seqs inp));
               al = al\<lparr>ba_batch := b, ba_n_embd := n_embd, ba_n_seq_max := n_seq_max\<rparr>;
               al = seq_sets (couple_seqs (count_outputs al))
        in if \<not> list_all (positions_ok mem al) [0..<n_seq_max] then Some (al, False)
           else if \<not> coupled_ok mem al then Some (al, False)
           else if \<not> order_ok al then Some (al, False)
           else Some (split_reset al, True))"

subsection \<open>Taking tokens out of the batch\<close>

definition use_token :: "nat \<Rightarrow> batch_allocr \<Rightarrow> batch_allocr" where
  "use_token i al = al\<lparr>ba_used := (ba_used al)[i := True], ba_n_used := ba_n_used al + 1\<rparr>"

definition unuse_token :: "nat \<Rightarrow> batch_allocr \<Rightarrow> batch_allocr" where
  "unuse_token i al = al\<lparr>ba_used := (ba_used al)[i := False], ba_n_used := ba_n_used al - 1\<rparr>"

definition ubatch_none :: llama_ubatch where
  \<comment> \<open>a value-initialized micro-batch\<close>
  "ubatch_none = \<lparr>ub_equal_seqs = False, ub_n_tokens = 0, ub_n_seq_tokens = 0, ub_n_seqs = 0, ub_n_seqs_unq = 0,
     ub_n_pos = 0, ub_token = None, ub_pos = [], ub_n_seq_id = [], ub_seq_id = [], ub_seq_id_unq = [],
     ub_seq_idx = [], ub_output = [], ub_embd = None, ub_batch_idxs = []\<rparr>"

definition ubatch_add :: "nat list \<Rightarrow> nat \<Rightarrow> bool \<Rightarrow> batch_allocr \<Rightarrow> batch_allocr \<times> llama_ubatch" where
  "ubatch_add idxs n_seqs equal_seqs al =
     (let b = ba_batch al;
          n_tokens = length idxs;
          src_off = (\<lambda>j. if b_token b \<noteq> None then 0 else j * nat (b_n_tokens b));
          output = map (\<lambda>i. the (b_logits b) ! i) idxs;
          seq_ids = map (b_seqs b) idxs;
          (seq_idx, seq_id_unq) = unq_index (ba_n_seq_max al) (nat ` set (concat seq_ids)) (replicate LLAMA_MAX_SEQ (-1))
      in (al\<lparr>ba_out_ids := ba_out_ids al @ filter (\<lambda>i. the (b_logits b) ! i \<noteq> 0) idxs\<rparr>,
          \<lparr>ub_equal_seqs = equal_seqs, ub_n_tokens = n_tokens, ub_n_seq_tokens = n_tokens div n_seqs,
           ub_n_seqs = n_seqs, ub_n_seqs_unq = length seq_id_unq, ub_n_pos = ba_n_pos_per_embd al,
           ub_token = map_option (\<lambda>ts. map (\<lambda>i. ts ! i) idxs) (b_token b),
           ub_pos = concat (map (\<lambda>j. map (\<lambda>i. the (b_pos b) ! (src_off j + i)) idxs) [0..<ba_n_pos_per_embd al]),
           ub_n_seq_id = map (\<lambda>i. the (b_n_seq_id b) ! i) idxs, ub_seq_id = seq_ids,
           ub_seq_id_unq = seq_id_unq, ub_seq_idx = seq_idx, ub_output = output,
           ub_embd = map_option (\<lambda>es. concat (map (\<lambda>i. take (ba_n_embd al) (drop (i * ba_n_embd al) es)) idxs)) (b_embd b),
           ub_batch_idxs = idxs\<rparr>))"

definition first_unused :: "bool list \<Rightarrow> nat" where
  "first_unused used = length (takeWhile (\<lambda>u. u) used)"

function simple_go :: "nat \<Rightarrow> nat \<Rightarrow> nat list \<Rightarrow> batch_allocr \<Rightarrow> nat list \<times> batch_allocr" where
  "simple_go n_ubatch cur_idx idxs al =
     (let idxs = idxs @ [cur_idx]; al = use_token cur_idx al; cur_idx = cur_idx + 1 in
      if cur_idx \<ge> length (ba_used al) then (idxs, al)
      else if length idxs \<ge> n_ubatch then (idxs, al)
      else simple_go n_ubatch cur_idx idxs al)"
  by pat_completeness auto
termination
  by (relation "measure (\<lambda>(n, cur, idxs, al). length (ba_used al) - cur)") (auto simp: use_token_def)

declare simple_go.simps [simp del]

definition split_simple :: "nat \<Rightarrow> batch_allocr \<Rightarrow> batch_allocr \<times> llama_ubatch" where
  "split_simple n_ubatch al =
     (let cur_idx = first_unused (ba_used al) in
      if cur_idx \<ge> length (ba_used al) then (al, ubatch_none)
      else case simple_go n_ubatch cur_idx [] al of (idxs, al) \<Rightarrow> ubatch_add idxs (length idxs) False al)"

function next_subset :: "batch_allocr \<Rightarrow> nat set \<Rightarrow> nat \<Rightarrow> nat" where
  \<comment> \<open>the next unused token whose sequences are among those of \<open>cur_seq_set\<close>\<close>
  "next_subset al cur_seq_set cur_idx =
     (let cur_idx = cur_idx + 1 in
      if cur_idx < batch_n al \<and> (ba_used al ! cur_idx \<or> cur_seq_set \<inter> ba_seq_set al ! cur_idx \<noteq> ba_seq_set al ! cur_idx)
      then next_subset al cur_seq_set cur_idx else cur_idx)"
  by pat_completeness auto
termination by (relation "measure (\<lambda>(al, S, cur). batch_n al - cur)") auto

declare next_subset.simps [simp del]

lemma next_subset_gt: "cur_idx < next_subset al S cur_idx"
proof (induction al S cur_idx rule: next_subset.induct)
  case (1 al S cur_idx)
  show ?case by (subst next_subset.simps) (use 1 in \<open>auto simp: Let_def intro: Suc_lessD\<close>)
qed

lemma batch_n_use [simp]: "batch_n (use_token i al) = batch_n al"
  by (simp add: batch_n_def use_token_def)

function seq_go :: "nat \<Rightarrow> nat set \<Rightarrow> nat \<Rightarrow> nat list \<Rightarrow> batch_allocr \<Rightarrow> nat list \<times> batch_allocr" where
  "seq_go n_ubatch cur_seq_set cur_idx idxs al =
     (let idxs = idxs @ [cur_idx]; al = use_token cur_idx al in
      if length idxs \<ge> n_ubatch then (idxs, al)
      else let cur_idx = next_subset al cur_seq_set cur_idx in
        \<comment> \<open>the index never exceeds the number of tokens: the source tests for equality\<close>
        if cur_idx \<ge> batch_n al then (idxs, al)
        else seq_go n_ubatch (ba_seq_set al ! cur_idx) cur_idx idxs al)"
  by pat_completeness auto
termination
proof (relation "measure (\<lambda>(n, S, cur, idxs, al). batch_n al - cur)")
  fix n_ubatch S cur_idx idxs and al :: batch_allocr and x xa xb
  assume "xa = use_token cur_idx al" "xb = next_subset xa S cur_idx" "\<not> batch_n xa \<le> xb"
  then show "((n_ubatch, ba_seq_set xa ! xb, xb, x, xa), n_ubatch, S, cur_idx, idxs, al)
      \<in> measure (\<lambda>(n, S, cur, idxs, al). batch_n al - cur)"
    using next_subset_gt [of cur_idx xa S] by simp
qed simp

declare seq_go.simps [simp del]

definition split_seq :: "nat \<Rightarrow> batch_allocr \<Rightarrow> batch_allocr \<times> llama_ubatch" where
  "split_seq n_ubatch al =
     (let cur_idx = first_unused (ba_used al) in
      if cur_idx \<ge> length (ba_used al) then (al, ubatch_none)
      else case seq_go n_ubatch (ba_seq_set al ! cur_idx) cur_idx [] al of (idxs, al) \<Rightarrow> ubatch_add idxs 1 True al)"

subsection \<open>Splitting into sequences of equal length\<close>

fun collect_sets :: "batch_allocr \<Rightarrow> nat \<Rightarrow> bool \<Rightarrow> nat \<Rightarrow> nat list \<Rightarrow> nat set list \<Rightarrow> int \<Rightarrow> nat set list" where
  \<comment> \<open>the disjoint sequence sets of the unused tokens, in the order of their first token\<close>
  "collect_sets al n_ubatch sequential max_seq_sets [] sets last_seq_id = sets"
| "collect_sets al n_ubatch sequential max_seq_sets (i # is) sets last_seq_id =
     (if ba_used al ! i then collect_sets al n_ubatch sequential max_seq_sets is sets last_seq_id
      else let seq_id0 = the (b_seq_id (ba_batch al)) ! i ! 0;
               add = (\<not> list_ex (\<lambda>S. S \<inter> ba_seq_set al ! i \<noteq> {}) sets);
               add = (if sequential then add \<and> (sets = [] \<or> seq_id0 = last_seq_id + 1) else add)
        in if add
           then let sets = sets @ [ba_seq_set al ! i]
                in if length sets > n_ubatch \<or> (max_seq_sets \<noteq> 0 \<and> length sets \<ge> max_seq_sets) then sets
                   else collect_sets al n_ubatch sequential max_seq_sets is sets seq_id0
           else collect_sets al n_ubatch sequential max_seq_sets is sets last_seq_id)"

record equal_state =
  eq_cur :: "nat list"        \<comment> \<open>\<open>cur_idx\<close>: how far each sequence set has been read\<close>
  eq_idxs :: "nat list list"  \<comment> \<open>\<open>idxs_per_seq\<close>\<close>
  eq_al :: batch_allocr

definition set_start :: "batch_allocr \<Rightarrow> nat set \<Rightarrow> nat" where
  "set_start al S = length (takeWhile (\<lambda>i. ba_used al ! i) (ba_seq_set_map al S))"

definition take_one :: "nat set list \<Rightarrow> nat \<Rightarrow> equal_state \<Rightarrow> equal_state" where
  \<comment> \<open>the next token of the \<open>s\<close>-th set\<close>
  "take_one sets s st =
     (let idx = ba_seq_set_map (eq_al st) (sets ! s) ! (eq_cur st ! s)
      in st\<lparr>eq_idxs := (eq_idxs st)[s := eq_idxs st ! s @ [idx]], eq_al := use_token idx (eq_al st),
            eq_cur := (eq_cur st)[s := eq_cur st ! s + 1]\<rparr>)"

definition can_expand :: "nat set list \<Rightarrow> equal_state \<Rightarrow> bool" where
  "can_expand sets st = list_all (\<lambda>s. eq_cur st ! s < length (ba_seq_set_map (eq_al st) (sets ! s))) [0..<length sets]"

lemma take_one_simps [simp]:
  "ba_seq_set_map (eq_al (take_one sets s st)) = ba_seq_set_map (eq_al st)"
  "length (eq_cur (take_one sets s st)) = length (eq_cur st)"
  "length (eq_idxs (take_one sets s st)) = length (eq_idxs st)"
  "eq_cur (take_one sets s st) = (eq_cur st)[s := eq_cur st ! s + 1]"
  by (simp_all add: take_one_def use_token_def Let_def)

lemma take_all_simps [simp]:
  "ba_seq_set_map (eq_al (fold (take_one sets) ss st)) = ba_seq_set_map (eq_al st)"
  "length (eq_cur (fold (take_one sets) ss st)) = length (eq_cur st)"
  by (induction ss arbitrary: st) auto

lemma take_all_cur:
  "n \<le> length (eq_cur st) \<Longrightarrow> eq_cur (fold (take_one sets) [0..<n] st) ! s =
     (if s < n then eq_cur st ! s + 1 else eq_cur st ! s)"
  by (induction n) (auto simp: nth_upd less_Suc_eq)

function equal_go :: "nat \<Rightarrow> nat set list \<Rightarrow> equal_state \<Rightarrow> equal_state" where
  \<comment> \<open>one more token of every set, while every set has one and there is room;
     the caller has left when there are no sets\<close>
  "equal_go n_ubatch sets st =
     (if sets = [] \<or> length (eq_cur st) < length sets \<or> \<not> can_expand sets st then st
      else let st = fold (take_one sets) [0..<length sets] st in
        if (length (eq_idxs st ! 0) + 1) * length sets > n_ubatch then st
        else equal_go n_ubatch sets st)"
  by pat_completeness auto
termination
proof (relation "measure (\<lambda>(n, sets, st). length (ba_seq_set_map (eq_al st) (sets ! 0)) - eq_cur st ! 0)")
  fix n_ubatch sets st x
  assume a: "\<not> (sets = [] \<or> length (eq_cur st) < length sets \<or> \<not> can_expand sets st)"
    and x: "x = fold (take_one sets) [0..<length sets] st"
  have "0 \<in> set [0..<length sets]" using a by simp
  then have "eq_cur st ! 0 < length (ba_seq_set_map (eq_al st) (sets ! 0))"
    using a unfolding can_expand_def list_all_iff by blast
  moreover have "eq_cur x ! 0 = eq_cur st ! 0 + 1" unfolding x by (subst take_all_cur) (use a in auto)
  ultimately show "((n_ubatch, sets, x), n_ubatch, sets, st)
      \<in> measure (\<lambda>(n, sets, st). length (ba_seq_set_map (eq_al st) (sets ! 0)) - eq_cur st ! 0)"
    unfolding x by simp
qed simp

declare equal_go.simps [simp del]

definition n_remaining :: "nat set list \<Rightarrow> equal_state \<Rightarrow> nat \<Rightarrow> nat" where
  "n_remaining sets st s = length (ba_seq_set_map (eq_al st) (sets ! s)) - eq_cur st ! s"

definition give_back :: "equal_state \<Rightarrow> equal_state" where
  \<comment> \<open>drop the last token of the first set\<close>
  "give_back st = st\<lparr>eq_al := unuse_token (last (eq_idxs st ! 0)) (eq_al st),
     eq_idxs := (eq_idxs st)[0 := butlast (eq_idxs st ! 0)], eq_cur := (eq_cur st)[0 := eq_cur st ! 0 - 1]\<rparr>"

function truncate_first :: "nat \<Rightarrow> nat set list \<Rightarrow> equal_state \<Rightarrow> equal_state" where
  \<comment> \<open>stops when there is nothing to give back, which the caller excludes\<close>
  "truncate_first n_keep_tail sets st =
     (if n_remaining sets st 0 < n_keep_tail \<and> eq_idxs st \<noteq> [] \<and> eq_idxs st ! 0 \<noteq> []
      then truncate_first n_keep_tail sets (give_back st) else st)"
  by pat_completeness auto
termination
  by (relation "measure (\<lambda>(n, sets, st). length (eq_idxs st ! 0))") (auto simp: give_back_def)

declare truncate_first.simps [simp del]

definition keep_tail :: "nat \<Rightarrow> nat \<Rightarrow> nat set list \<Rightarrow> equal_state \<Rightarrow> equal_state \<times> nat" where
  \<comment> \<open>the state and the number of sets that stay in this micro-batch\<close>
  "keep_tail n_ubatch n_keep_tail sets st =
     (let n_keep = length (takeWhile (\<lambda>s. \<not> (n_remaining sets st s \<noteq> 0 \<and> n_remaining sets st s < n_keep_tail)) [0..<length sets]);
          (st, n_keep) =
            (if n_keep = 0
             then (if length (eq_idxs st ! 0) + n_remaining sets st 0 \<le> n_ubatch
                   then (take_one sets 0 ^^ n_remaining sets st 0) st
                   else truncate_first n_keep_tail sets st, 1)
             else (st, n_keep))
      in (st\<lparr>eq_al := fold unuse_token (concat (drop n_keep (eq_idxs st))) (eq_al st)\<rparr>, n_keep))"

definition split_equal :: "nat \<Rightarrow> bool \<Rightarrow> nat \<Rightarrow> nat \<Rightarrow> batch_allocr \<Rightarrow> (batch_allocr \<times> llama_ubatch) option" where
  "split_equal n_ubatch sequential n_keep_tail max_seq_sets al =
     (if sequential \<and> ba_has_cpl al then Some (al, ubatch_none)
      else let sets = collect_sets al n_ubatch sequential max_seq_sets [0..<batch_n al] [] (-1) in
        if sets = [] then Some (al, ubatch_none)
        else let st = equal_go n_ubatch sets \<lparr>eq_cur = map (set_start al) sets,
                   eq_idxs = replicate (length sets) [], eq_al = al\<rparr> in
          if n_keep_tail > 0 \<and> \<not> n_ubatch > n_keep_tail then None
          else let (st, n_seqs) = (if n_keep_tail > 0 then keep_tail n_ubatch n_keep_tail sets st else (st, length sets));
                   idxs = concat (take n_seqs (eq_idxs st))
            in Some (ubatch_add idxs n_seqs True (eq_al st)))"

subsection \<open>Splitting a whole batch\<close>

partial_function (option) drain :: "(batch_allocr \<Rightarrow> (batch_allocr \<times> llama_ubatch) option) \<Rightarrow> batch_allocr \<Rightarrow>
    llama_ubatch list \<Rightarrow> (batch_allocr \<times> llama_ubatch list) option" where
  \<comment> \<open>the loop of the \<open>init_batch\<close> methods: split until an empty micro-batch comes out\<close>
  "drain split al ubatches =
     (case split al of None \<Rightarrow> None
      | Some (al, ub) \<Rightarrow>
          if ub_n_tokens ub = 0 then Some (al, ubatches) else drain split al (ubatches @ [ub]))"

definition split_batch :: "(batch_allocr \<Rightarrow> (batch_allocr \<times> llama_ubatch) option) \<Rightarrow> batch_allocr \<Rightarrow>
    (batch_allocr \<times> llama_ubatch list option) option" where
  \<comment> \<open>\<open>Some (al, None)\<close> when no suitable split was found\<close>
  "split_batch split al =
     (case drain split (split_reset al) [] of None \<Rightarrow> None
      | Some (al, ubatches) \<Rightarrow>
          if ba_n_used al < batch_n al then Some (al, None) else Some (al, Some ubatches))"

definition ubatch_reserve :: "nat \<Rightarrow> nat \<Rightarrow> batch_allocr \<Rightarrow> batch_allocr \<times> llama_ubatch" where
  "ubatch_reserve n_seq_tokens n_seqs al =
     (let n_tokens = n_seq_tokens * n_seqs;
          al = split_reset (allocr_clear al)
      in (al, \<lparr>ub_equal_seqs = True, ub_n_tokens = n_tokens, ub_n_seq_tokens = n_seq_tokens, ub_n_seqs = n_seqs,
           ub_n_seqs_unq = n_seqs, ub_n_pos = ba_n_pos_per_embd al, ub_token = Some (replicate n_tokens 0),
           ub_pos = replicate (n_tokens * ba_n_pos_per_embd al) 0, ub_n_seq_id = replicate n_tokens 0,
           ub_seq_id = replicate n_tokens [], ub_seq_id_unq = map int [0..<n_seqs],
           ub_seq_idx = fold (\<lambda>s idx. idx[s := int s]) [0..<n_seqs] (replicate LLAMA_MAX_SEQ (-1)),
           ub_output = replicate n_tokens 0, ub_embd = None, ub_batch_idxs = []\<rparr>))"

subsection \<open>What a split takes\<close>

definition unused :: "batch_allocr \<Rightarrow> nat set" where
  "unused al = {i. i < batch_n al \<and> \<not> ba_used al ! i}"

definition allocr_wf :: "batch_allocr \<Rightarrow> bool" where
  "allocr_wf al \<longleftrightarrow> length (ba_seq_set al) = batch_n al \<and> length (ba_used al) = batch_n al \<and>
     (\<forall>S. ba_seq_set_map al S = filter (\<lambda>i. ba_seq_set al ! i = S) [0..<batch_n al]) \<and>
     (\<forall>i < batch_n al. ba_seq_set al ! i = nat ` set (b_seqs (ba_batch al) i) \<and> ba_seq_set al ! i \<noteq> {}) \<and>
     ba_n_used al + card (unused al) = batch_n al"

lemma allocr_wfD:
  assumes "allocr_wf al"
  shows "length (ba_seq_set al) = batch_n al" "length (ba_used al) = batch_n al"
    "ba_seq_set_map al S = filter (\<lambda>i. ba_seq_set al ! i = S) [0..<batch_n al]"
    "i < batch_n al \<Longrightarrow> ba_seq_set al ! i = nat ` set (b_seqs (ba_batch al) i)"
    "i < batch_n al \<Longrightarrow> ba_seq_set al ! i \<noteq> {}"
    "ba_n_used al + card (unused al) = batch_n al"
  using assms unfolding allocr_wf_def by blast+

lemma finite_unused [simp]: "finite (unused al)"
  by (rule finite_subset [of _ "{..<batch_n al}"]) (auto simp: unused_def)

definition same_batch :: "batch_allocr \<Rightarrow> batch_allocr \<Rightarrow> bool" where
  \<comment> \<open>equal up to what has been taken out\<close>
  "same_batch al al' \<longleftrightarrow> al'\<lparr>ba_out_ids := [], ba_n_used := 0, ba_used := []\<rparr> = al\<lparr>ba_out_ids := [], ba_n_used := 0, ba_used := []\<rparr>"

lemma same_batchD:
  assumes "same_batch al al'"
  shows "ba_batch al' = ba_batch al" "ba_seq_set al' = ba_seq_set al" "ba_seq_set_map al' = ba_seq_set_map al"
    "ba_n_pos_per_embd al' = ba_n_pos_per_embd al" "ba_n_embd al' = ba_n_embd al" "ba_n_seq_max al' = ba_n_seq_max al"
    "ba_has_cpl al' = ba_has_cpl al" "batch_n al' = batch_n al"
  using assms by (cases al; cases al'; simp add: same_batch_def batch_n_def)+

lemma same_batch_refl [simp]: "same_batch al al" by (simp add: same_batch_def)

lemma same_batch_trans: "same_batch al al' \<Longrightarrow> same_batch al' al'' \<Longrightarrow> same_batch al al''"
  by (simp add: same_batch_def)

lemma same_batch_upd [simp]:
  "same_batch al (use_token i al)" "same_batch al (unuse_token i al)" "same_batch al (al\<lparr>ba_out_ids := os\<rparr>)"
  "same_batch al (split_reset al)"
  by (simp_all add: same_batch_def use_token_def unuse_token_def split_reset_def)

definition took :: "batch_allocr \<Rightarrow> nat set \<Rightarrow> batch_allocr \<Rightarrow> bool" where
  "took al A al' \<longleftrightarrow> same_batch al al' \<and> allocr_wf al' \<and> A \<subseteq> unused al \<and> unused al' = unused al - A"

lemma tookD:
  assumes "took al A al'"
  shows "same_batch al al'" "allocr_wf al'" "A \<subseteq> unused al" "unused al' = unused al - A"
  using assms unfolding took_def by blast+

lemma took_none: "allocr_wf al \<Longrightarrow> took al {} al"
  by (simp add: took_def)

lemma allocr_wf_used:
  \<comment> \<open>one bit of \<open>used\<close> and its count\<close>
  assumes "allocr_wf al" "same_batch al al'" "length (ba_used al') = batch_n al"
    "ba_n_used al' + card (unused al') = batch_n al"
  shows "allocr_wf al'"
  using assms(1,3,4) unfolding allocr_wf_def same_batchD [OF assms(2)] by blast

lemma took_use:
  assumes "took al A al'" "i \<in> unused al'"
  shows "took al (insert i A) (use_token i al')"
proof -
  note d = tookD [OF assms(1)]
  have s: "same_batch al al'" by (rule d)
  have i: "i < batch_n al'" using assms(2) by (simp add: unused_def)
  have u: "unused (use_token i al') = unused al' - {i}"
    using allocr_wfD(2) [OF d(2)] i by (auto simp: unused_def use_token_def batch_n_def nth_list_update)
  have "card (unused al') > 0" using assms(2) by (auto simp: card_gt_0_iff)
  then have "ba_n_used (use_token i al') + card (unused (use_token i al')) = batch_n al'"
    using allocr_wfD(6) [OF d(2)] assms(2) unfolding u by (simp add: card_Diff_singleton use_token_def)
  then have "allocr_wf (use_token i al')"
    by (rule allocr_wf_used [OF d(2) same_batch_upd(1), rotated]) (simp add: use_token_def allocr_wfD(2) [OF d(2)])
  then show ?thesis
    unfolding took_def using same_batch_trans [OF s same_batch_upd(1)] d(3,4) u assms(2) by auto
qed

lemma took_unuse:
  assumes "took al A al'" "i \<in> A"
  shows "took al (A - {i}) (unuse_token i al')"
proof -
  note d = tookD [OF assms(1)]
  have i: "i < batch_n al'" "i \<notin> unused al'" using assms(2) d(3,4) same_batchD(8) [OF d(1)] by (auto simp: unused_def)
  then have used: "ba_used al' ! i" by (simp add: unused_def)
  have u: "unused (unuse_token i al') = insert i (unused al')"
    using allocr_wfD(2) [OF d(2)] i by (auto simp: unused_def unuse_token_def batch_n_def nth_list_update)
  have "ba_n_used al' > 0"
  proof -
    have "unused al' \<subset> {..<batch_n al'}" using i by (auto simp: unused_def)
    then have "card (unused al') < card {..<batch_n al'}" by (intro psubset_card_mono) auto
    then show ?thesis using allocr_wfD(6) [OF d(2)] by simp
  qed
  then have "ba_n_used (unuse_token i al') + card (unused (unuse_token i al')) = batch_n al'"
    using allocr_wfD(6) [OF d(2)] i(2) unfolding u by (simp add: unuse_token_def)
  then have "allocr_wf (unuse_token i al')"
    by (rule allocr_wf_used [OF d(2) same_batch_upd(2), rotated]) (simp add: unuse_token_def allocr_wfD(2) [OF d(2)])
  then show ?thesis
    unfolding took_def using same_batch_trans [OF d(1) same_batch_upd(2)] d(3,4) u assms(2) by auto
qed

lemma took_unuse_all:
  "took al A al' \<Longrightarrow> set xs \<subseteq> A \<Longrightarrow> distinct xs \<Longrightarrow> took al (A - set xs) (fold unuse_token xs al')"
proof (induction xs arbitrary: A al')
  case (Cons x xs)
  have "took al (A - {x} - set xs) (fold unuse_token xs (unuse_token x al'))"
    by (rule Cons.IH [OF took_unuse [OF Cons.prems(1)]]) (use Cons.prems in auto)
  moreover have "A - {x} - set xs = A - set (x # xs)" by auto
  ultimately show ?case by simp
qed simp

lemma took_out_ids:
  assumes "took al A al'" shows "took al A (al'\<lparr>ba_out_ids := os\<rparr>)"
proof -
  note d = tookD [OF assms]
  have u: "unused (al'\<lparr>ba_out_ids := os\<rparr>) = unused al'" by (simp add: unused_def batch_n_def)
  have "allocr_wf (al'\<lparr>ba_out_ids := os\<rparr>)"
    by (rule allocr_wf_used [OF d(2)]) (use allocr_wfD [OF d(2)] u in \<open>auto simp: batch_n_def\<close>)
  then show ?thesis unfolding took_def using d u same_batch_trans [OF d(1) same_batch_upd(3)] by simp
qed

lemma took_trans:
  assumes "took al A al'" "took al' B al''"
  shows "took al (A \<union> B) al''" "A \<inter> B = {}"
  using assms same_batch_trans unfolding took_def by blast+

lemma split_reset_wf:
  assumes "allocr_wf al"
  shows "allocr_wf (split_reset al)" "unused (split_reset al) = {..<batch_n al}" "batch_n (split_reset al) = batch_n al"
proof -
  show u: "unused (split_reset al) = {..<batch_n al}" "batch_n (split_reset al) = batch_n al"
    by (auto simp: unused_def split_reset_def batch_n_def)
  show "allocr_wf (split_reset al)"
    by (rule allocr_wf_used [OF assms same_batch_upd(4)]) (use u in \<open>auto simp: split_reset_def\<close>)
qed

lemma first_unused_spec:
  assumes "allocr_wf al"
  shows "first_unused (ba_used al) < length (ba_used al) \<Longrightarrow> first_unused (ba_used al) \<in> unused al"
    "length (ba_used al) \<le> first_unused (ba_used al) \<Longrightarrow> unused al = {}"
    "i < first_unused (ba_used al) \<Longrightarrow> i \<notin> unused al"
proof -
  let ?k = "length (takeWhile (\<lambda>u. u) (ba_used al))"
  note l = allocr_wfD(2) [OF assms]
  show "first_unused (ba_used al) < length (ba_used al) \<Longrightarrow> first_unused (ba_used al) \<in> unused al"
    using nth_length_takeWhile [of "\<lambda>u. u" "ba_used al"] l by (simp add: first_unused_def unused_def)
  have below: "ba_used al ! i" if "i < ?k" for i
  proof -
    have "takeWhile (\<lambda>u. u) (ba_used al) ! i \<in> set (takeWhile (\<lambda>u. u) (ba_used al))" using that by simp
    then show ?thesis using takeWhile_nth [OF that] by (auto dest: set_takeWhileD)
  qed
  then show "i < first_unused (ba_used al) \<Longrightarrow> i \<notin> unused al" by (simp add: first_unused_def unused_def)
  show "length (ba_used al) \<le> first_unused (ba_used al) \<Longrightarrow> unused al = {}"
    using below l by (auto simp: first_unused_def unused_def)
qed

subsection \<open>The contract of a splitter\<close>

definition made_by :: "batch_allocr \<Rightarrow> nat \<Rightarrow> bool \<Rightarrow> llama_ubatch \<Rightarrow> bool" where
  \<comment> \<open>the micro-batch is what \<open>ubatch_add\<close> makes of its tokens\<close>
  "made_by al n_seqs equal_seqs ub \<longleftrightarrow> ub = snd (ubatch_add (ub_batch_idxs ub) n_seqs equal_seqs al)"

lemma ubatch_add_out: "fst (ubatch_add idxs n eq al) = al\<lparr>ba_out_ids := ba_out_ids al @ filter (\<lambda>i. the (b_logits (ba_batch al)) ! i \<noteq> 0) idxs\<rparr>"
  by (simp add: ubatch_add_def case_prod_unfold Let_def)

lemma ubatch_add_idxs [simp]:
  "ub_batch_idxs (snd (ubatch_add idxs n eq al)) = idxs" "ub_n_tokens (snd (ubatch_add idxs n eq al)) = length idxs"
  by (simp_all add: ubatch_add_def case_prod_unfold Let_def)

lemma ubatch_add_same: "same_batch al al' \<Longrightarrow> snd (ubatch_add idxs n eq al') = snd (ubatch_add idxs n eq al)"
  using same_batchD [of al al'] by (simp add: ubatch_add_def case_prod_unfold Let_def)

lemma made_by_same: "same_batch al al' \<Longrightarrow> made_by al' n eq ub = made_by al n eq ub"
  by (simp add: made_by_def ubatch_add_same)

lemma took_add:
  assumes "took al (set idxs) al1"
  shows "took al (set idxs) (fst (ubatch_add idxs n eq al1))" "made_by al n eq (snd (ubatch_add idxs n eq al1))"
  unfolding ubatch_add_out using took_out_ids [OF assms] ubatch_add_same [OF tookD(1) [OF assms]]
  by (simp_all add: made_by_def)

locale splitter =
  fixes split :: "batch_allocr \<Rightarrow> (batch_allocr \<times> llama_ubatch) option"
    and inv :: "batch_allocr \<Rightarrow> bool"
    and good :: "batch_allocr \<Rightarrow> llama_ubatch \<Rightarrow> bool"
  assumes inv_wf: "inv al \<Longrightarrow> allocr_wf al"
    and good_same: "same_batch al al' \<Longrightarrow> good al' ub = good al ub"
    and split_some: "inv al \<Longrightarrow> unused al \<noteq> {} \<Longrightarrow> \<exists>al' ub. split al = Some (al', ub) \<and> inv al' \<and>
      took al (set (ub_batch_idxs ub)) al' \<and> distinct (ub_batch_idxs ub) \<and> ub_batch_idxs ub \<noteq> [] \<and>
      ub_n_tokens ub = length (ub_batch_idxs ub) \<and> good al ub"
    and split_none: "inv al \<Longrightarrow> unused al = {} \<Longrightarrow> \<exists>ub. split al = Some (al, ub) \<and> ub_n_tokens ub = 0"
begin

lemma drain_all:
  "inv al \<Longrightarrow> \<exists>al' ubs. drain split al acc = Some (al', acc @ ubs) \<and> inv al' \<and> same_batch al al' \<and> unused al' = {} \<and>
     distinct (concat (map ub_batch_idxs ubs)) \<and> set (concat (map ub_batch_idxs ubs)) = unused al \<and>
     (\<forall>ub \<in> set ubs. good al ub \<and> ub_batch_idxs ub \<noteq> [] \<and> ub_n_tokens ub = length (ub_batch_idxs ub))"
proof (induction "card (unused al)" arbitrary: al acc rule: less_induct)
  case less
  show ?case
  proof (cases "unused al = {}")
    case True
    obtain ub where "split al = Some (al, ub)" "ub_n_tokens ub = 0" using split_none [OF less.prems True] by blast
    then show ?thesis using less.prems True by (subst drain.simps) auto
  next
    case False
    obtain al1 ub where s: "split al = Some (al1, ub)" "inv al1" "took al (set (ub_batch_idxs ub)) al1"
      "distinct (ub_batch_idxs ub)" "ub_batch_idxs ub \<noteq> []" "ub_n_tokens ub = length (ub_batch_idxs ub)" "good al ub"
      using split_some [OF less.prems False] by blast
    note d = tookD [OF s(3)]
    have "unused al1 \<subset> unused al" using d(3,4) s(5) by (cases "ub_batch_idxs ub") auto
    then have "card (unused al1) < card (unused al)" by (intro psubset_card_mono) auto
    then obtain al' ubs where r: "drain split al1 (acc @ [ub]) = Some (al', acc @ [ub] @ ubs)" "inv al'" "same_batch al1 al'"
      "unused al' = {}" "distinct (concat (map ub_batch_idxs ubs))" "set (concat (map ub_batch_idxs ubs)) = unused al1"
      "\<forall>ub \<in> set ubs. good al1 ub \<and> ub_batch_idxs ub \<noteq> [] \<and> ub_n_tokens ub = length (ub_batch_idxs ub)"
      using less.hyps [of al1 "acc @ [ub]"] s(2) by auto
    have "drain split al acc = Some (al', acc @ ub # ubs)"
      using s(1,5,6) r(1) by (subst drain.simps) simp
    moreover have "same_batch al al'" using same_batch_trans [OF d(1) r(3)] .
    moreover have "distinct (concat (map ub_batch_idxs (ub # ubs)))" using s(4) r(5,6) d(4) by auto
    moreover have "set (concat (map ub_batch_idxs (ub # ubs))) = unused al" using r(6) d(3,4) by auto
    moreover have "\<forall>u \<in> set (ub # ubs). good al u \<and> ub_batch_idxs u \<noteq> [] \<and> ub_n_tokens u = length (ub_batch_idxs u)"
      using r(7) s(5-7) good_same [OF d(1)] by simp
    ultimately show ?thesis using r(2,4) by blast
  qed
qed

lemma split_batch_all:
  assumes "inv (split_reset al)"
  shows "\<exists>al' ubs. split_batch split al = Some (al', Some ubs) \<and> ba_n_used al' = batch_n al \<and>
    distinct (concat (map ub_batch_idxs ubs)) \<and> set (concat (map ub_batch_idxs ubs)) = {..<batch_n al} \<and>
    (\<forall>ub \<in> set ubs. good al ub \<and> ub_batch_idxs ub \<noteq> [] \<and> ub_n_tokens ub = length (ub_batch_idxs ub))"
proof -
  obtain al' ubs where r: "drain split (split_reset al) [] = Some (al', ubs)" "inv al'" "same_batch (split_reset al) al'"
    "unused al' = {}" "distinct (concat (map ub_batch_idxs ubs))" "set (concat (map ub_batch_idxs ubs)) = unused (split_reset al)"
    "\<forall>ub \<in> set ubs. good (split_reset al) ub \<and> ub_batch_idxs ub \<noteq> [] \<and> ub_n_tokens ub = length (ub_batch_idxs ub)"
    using drain_all [OF assms, of "[]"] by auto
  have "unused (split_reset al) = {..<batch_n al}" by (auto simp: unused_def split_reset_def batch_n_def)
  moreover have "batch_n al' = batch_n al" using same_batchD(8) [OF same_batch_trans [OF same_batch_upd(4) r(3)]] .
  moreover have "ba_n_used al' = batch_n al'" using allocr_wfD(6) [OF inv_wf [OF r(2)]] r(4) by simp
  ultimately show ?thesis using r good_same [OF same_batch_upd(4)] by (auto simp: split_batch_def)
qed

end

subsection \<open>The simple split\<close>

definition used_prefix :: "batch_allocr \<Rightarrow> bool" where
  \<comment> \<open>the used tokens are the first ones\<close>
  "used_prefix al \<longleftrightarrow> (\<exists>k. unused al = {k..<batch_n al})"

lemma simple_go_effect:
  assumes "took al (set idxs) al1" "idxs = [k..<cur]" "k \<le> cur" "cur < batch_n al" "unused al = {k..<batch_n al}"
  shows "\<exists>m al2. simple_go n_ubatch cur idxs al1 = ([k..<m], al2) \<and> cur < m \<and> m \<le> batch_n al \<and>
    took al {k..<m} al2 \<and> (m < batch_n al \<longrightarrow> n_ubatch \<le> m - k) \<and> (m - k \<le> n_ubatch \<or> m = Suc cur)"
  using assms
proof (induction n_ubatch cur idxs al1 rule: simple_go.induct)
  case (1 n_ubatch cur idxs al1)
  note d = tookD [OF "1.prems"(1)]
  have "cur \<in> unused al1" using d(4) "1.prems" by auto
  then have t: "took al (insert cur (set idxs)) (use_token cur al1)" by (rule took_use [OF "1.prems"(1)])
  have idxs: "idxs @ [cur] = [k..<Suc cur]" "insert cur (set idxs) = {k..<Suc cur}" using "1.prems"(2,3) by auto
  have len: "length (ba_used (use_token cur al1)) = batch_n al"
    using allocr_wfD(2) [OF d(2)] same_batchD(8) [OF d(1)] by (simp add: use_token_def)
  show ?case
  proof (cases "Suc cur \<ge> batch_n al \<or> length (idxs @ [cur]) \<ge> n_ubatch")
    case True
    have "simple_go n_ubatch cur idxs al1 = (idxs @ [cur], use_token cur al1)"
      by (subst simple_go.simps) (use True len in \<open>auto simp: Let_def\<close>)
    moreover have "Suc cur < batch_n al \<longrightarrow> n_ubatch \<le> Suc cur - k" using True "1.prems"(2,3) by auto
    ultimately show ?thesis unfolding idxs using t "1.prems"(4) by (intro exI [of _ "Suc cur"]) (simp add: idxs(2))
  next
    case False
    have "simple_go n_ubatch cur idxs al1 = simple_go n_ubatch (Suc cur) (idxs @ [cur]) (use_token cur al1)"
      by (subst simple_go.simps) (use False len in \<open>auto simp: Let_def\<close>)
    moreover have "\<exists>m al2. simple_go n_ubatch (cur + 1) (idxs @ [cur]) (use_token cur al1) = ([k..<m], al2) \<and> cur + 1 < m \<and>
        m \<le> batch_n al \<and> took al {k..<m} al2 \<and> (m < batch_n al \<longrightarrow> n_ubatch \<le> m - k) \<and> (m - k \<le> n_ubatch \<or> m = Suc (cur + 1))"
      by (rule "1.IH" [OF refl refl refl]) (use False len t idxs "1.prems"(3,5) in auto)
    moreover have "m - k \<le> n_ubatch" if "m = Suc (Suc cur)" for m
      using that False idxs(1) "1.prems"(2,3) by auto
    ultimately show ?thesis by (auto intro: Suc_lessD)
  qed
qed

definition simple_good :: "nat \<Rightarrow> batch_allocr \<Rightarrow> llama_ubatch \<Rightarrow> bool" where
  \<comment> \<open>consecutive tokens of the batch, as many as fit\<close>
  "simple_good n_ubatch al ub \<longleftrightarrow> made_by al (length (ub_batch_idxs ub)) False ub \<and>
     (\<exists>k m. ub_batch_idxs ub = [k..<m] \<and> m \<le> batch_n al \<and> (m - k \<le> n_ubatch \<or> m = Suc k) \<and> (m < batch_n al \<longrightarrow> n_ubatch \<le> m - k))"

lemma split_simple_some:
  assumes "allocr_wf al" "used_prefix al" "unused al \<noteq> {}"
  shows "\<exists>al' ub. split_simple n_ubatch al = (al', ub) \<and> allocr_wf al' \<and> used_prefix al' \<and>
      took al (set (ub_batch_idxs ub)) al' \<and> distinct (ub_batch_idxs ub) \<and> ub_batch_idxs ub \<noteq> [] \<and>
      ub_n_tokens ub = length (ub_batch_idxs ub) \<and> simple_good n_ubatch al ub"
proof -
  let ?cur = "first_unused (ba_used al)"
  note f = first_unused_spec [OF assms(1)] and l = allocr_wfD(2) [OF assms(1)]
  obtain k where k: "unused al = {k..<batch_n al}" using assms(2) by (auto simp: used_prefix_def)
  have lt: "?cur < batch_n al" using f(2) assms(3) l by force
  have "?cur = k"
  proof -
    have "k \<le> ?cur" using f(1) lt l k by auto
    moreover have "k \<in> unused al" using assms(3) k by auto
    ultimately show ?thesis using f(3) [of k] by (cases "k < ?cur") auto
  qed
  obtain m al2 where m: "simple_go n_ubatch ?cur [] al = ([k..<m], al2)" "k < m" "m \<le> batch_n al" "took al {k..<m} al2"
    "m < batch_n al \<longrightarrow> n_ubatch \<le> m - k" "m - k \<le> n_ubatch \<or> m = Suc k"
    using simple_go_effect [of al "[]" al k k n_ubatch] took_none [OF assms(1)] lt k \<open>?cur = k\<close> by auto
  let ?r = "ubatch_add [k..<m] (length [k..<m]) False al2"
  have t: "took al (set [k..<m]) al2" using m(4) by simp
  note a = took_add [OF t, of "length [k..<m]" False]
  have "split_simple n_ubatch al = ?r" using lt l m(1) by (simp add: split_simple_def Let_def)
  moreover have "simple_good n_ubatch al (snd ?r)" using a(2) m unfolding simple_good_def by auto
  moreover have "used_prefix (fst ?r)"
    unfolding used_prefix_def using tookD(4) [OF a(1)] same_batchD(8) [OF tookD(1) [OF a(1)]] k m(2,3)
    by (intro exI [of _ m]) auto
  ultimately show ?thesis using a(1) tookD(2) [OF a(1)] m(2) by (intro exI [of _ "fst ?r"] exI [of _ "snd ?r"]) auto
qed

lemma split_simple_none:
  assumes "allocr_wf al" "unused al = {}"
  shows "split_simple n_ubatch al = (al, ubatch_none)"
  using first_unused_spec(1) [OF assms(1)] assms(2) by (force simp: split_simple_def Let_def)

interpretation simple: splitter "\<lambda>al. Some (split_simple n_ubatch al)" "\<lambda>al. allocr_wf al \<and> used_prefix al"
  "simple_good n_ubatch" for n_ubatch
proof
  show "simple_good n_ubatch al' ub = simple_good n_ubatch al ub" if "same_batch al al'" for al al' ub
    using made_by_same [OF that] same_batchD(8) [OF that] by (simp add: simple_good_def)
  show "\<exists>al' ub. Some (split_simple n_ubatch al) = Some (al', ub) \<and> (allocr_wf al' \<and> used_prefix al') \<and>
      took al (set (ub_batch_idxs ub)) al' \<and> distinct (ub_batch_idxs ub) \<and> ub_batch_idxs ub \<noteq> [] \<and>
      ub_n_tokens ub = length (ub_batch_idxs ub) \<and> simple_good n_ubatch al ub"
    if "allocr_wf al \<and> used_prefix al" "unused al \<noteq> {}" for al
    using split_simple_some [of al n_ubatch] that by blast
qed (use split_simple_none in \<open>auto simp: ubatch_none_def\<close>)

subsection \<open>The split by sequence\<close>

lemma next_subset_spec:
  assumes "cur < batch_n al" "m = next_subset al S cur"
  shows "m \<le> batch_n al" "m < batch_n al \<Longrightarrow> m \<in> unused al \<and> ba_seq_set al ! m \<subseteq> S"
  using assms
proof (atomize (full), induction al S cur rule: next_subset.induct)
  case (1 al S cur)
  let ?skip = "Suc cur < batch_n al \<and> (ba_used al ! Suc cur \<or> S \<inter> ba_seq_set al ! Suc cur \<noteq> ba_seq_set al ! Suc cur)"
  have eq: "next_subset al S cur = (if ?skip then next_subset al S (Suc cur) else Suc cur)"
    by (subst next_subset.simps) (simp add: Let_def)
  show ?case
  proof (cases ?skip)
    case True
    then show ?thesis using "1.IH" [OF refl] "1.prems"(2) eq by simp
  next
    case False
    have "m = Suc cur" unfolding "1.prems"(2) by (rule trans [OF eq if_not_P [OF False]])
    then show ?thesis using "1.prems"(1) False by (auto simp: unused_def)
  qed
qed

definition seq_good :: "nat \<Rightarrow> batch_allocr \<Rightarrow> llama_ubatch \<Rightarrow> bool" where
  \<comment> \<open>tokens in the order of the batch, each of a subset of the sequences of the one before\<close>
  "seq_good n_ubatch al ub \<longleftrightarrow> made_by al 1 True ub \<and> (length (ub_batch_idxs ub) \<le> n_ubatch \<or> length (ub_batch_idxs ub) = 1) \<and>
     sorted_wrt (<) (ub_batch_idxs ub) \<and>
     sorted_wrt (\<lambda>i j. ba_seq_set al ! j \<subseteq> ba_seq_set al ! i) (ub_batch_idxs ub)"

definition seq_chain :: "batch_allocr \<Rightarrow> nat \<Rightarrow> nat list \<Rightarrow> bool" where
  "seq_chain al cur idxs \<longleftrightarrow> sorted_wrt (<) (idxs @ [cur]) \<and>
     sorted_wrt (\<lambda>i j. ba_seq_set al ! j \<subseteq> ba_seq_set al ! i) (idxs @ [cur])"

lemma seq_go_effect:
  assumes "took al (set idxs) al1" "cur \<in> unused al1" "S = ba_seq_set al ! cur" "seq_chain al cur idxs"
  shows "\<exists>cur' is al2. seq_go n_ubatch S cur idxs al1 = (is @ [cur'], al2) \<and> seq_chain al cur' is \<and>
    took al (set (is @ [cur'])) al2 \<and> (length is + 1 \<le> n_ubatch \<or> is = idxs)"
  using assms
proof (induction n_ubatch S cur idxs al1 rule: seq_go.induct)
  case (1 n_ubatch S cur idxs al1)
  note d = tookD [OF "1.prems"(1)] and s = same_batchD [OF tookD(1) [OF "1.prems"(1)]]
  let ?al = "use_token cur al1"
  have t: "took al (set (idxs @ [cur])) ?al" using took_use [OF "1.prems"(1,2)] by simp
  note s' = same_batchD [OF tookD(1) [OF t]]
  have cur: "cur < batch_n ?al" using "1.prems"(2) by (simp add: unused_def)
  define m where "m = next_subset ?al S cur"
  note ns = next_subset_spec [OF cur m_def]
  have gt: "cur < m" unfolding m_def by (rule next_subset_gt)
  show ?case
  proof (cases "length (idxs @ [cur]) \<ge> n_ubatch \<or> m \<ge> batch_n ?al")
    case True
    have "seq_go n_ubatch S cur idxs al1 = (idxs @ [cur], ?al)"
      by (subst seq_go.simps) (use True in \<open>auto simp: Let_def m_def\<close>)
    then show ?thesis using t "1.prems"(4) by blast
  next
    case False
    have m: "m \<in> unused ?al" "ba_seq_set al ! m \<subseteq> S" using ns(2) False s'(2) by auto
    have chain: "seq_chain al m (idxs @ [cur])"
      using "1.prems"(3,4) gt m(2) unfolding seq_chain_def
      by (auto simp: sorted_wrt_append dest: less_trans) blast
    have "seq_go n_ubatch S cur idxs al1 = seq_go n_ubatch (ba_seq_set ?al ! m) m (idxs @ [cur]) ?al"
      by (subst seq_go.simps) (use False in \<open>auto simp: Let_def m_def\<close>)
    moreover have "\<exists>cur' is al2. seq_go n_ubatch (ba_seq_set ?al ! m) m (idxs @ [cur]) ?al = (is @ [cur'], al2) \<and> seq_chain al cur' is \<and>
        took al (set (is @ [cur'])) al2 \<and> (length is + 1 \<le> n_ubatch \<or> is = idxs @ [cur])"
      by (rule "1.IH" [OF refl refl _ m_def]) (use False t m chain s'(2) in auto)
    moreover have "length is + 1 \<le> n_ubatch" if "is = idxs @ [cur]" for "is" using that False by simp
    ultimately show ?thesis by metis
  qed
qed

lemma split_seq_some:
  assumes "allocr_wf al" "unused al \<noteq> {}"
  shows "\<exists>al' ub. split_seq n_ubatch al = (al', ub) \<and> allocr_wf al' \<and>
      took al (set (ub_batch_idxs ub)) al' \<and> distinct (ub_batch_idxs ub) \<and> ub_batch_idxs ub \<noteq> [] \<and>
      ub_n_tokens ub = length (ub_batch_idxs ub) \<and> seq_good n_ubatch al ub"
proof -
  let ?cur = "first_unused (ba_used al)"
  note f = first_unused_spec [OF assms(1)] and l = allocr_wfD(2) [OF assms(1)]
  have lt: "?cur < batch_n al" using f(2) assms(2) l by force
  then have cur: "?cur \<in> unused al" using f(1) l by simp
  have "seq_chain al ?cur []" by (simp add: seq_chain_def)
  then obtain cur' "is" al2 where g: "seq_go n_ubatch (ba_seq_set al ! ?cur) ?cur [] al = (is @ [cur'], al2)"
    "seq_chain al cur' is" "took al (set (is @ [cur'])) al2" "length is + 1 \<le> n_ubatch \<or> is = []"
    using seq_go_effect [of al "[]" al ?cur _ n_ubatch] took_none [OF assms(1)] cur by auto
  let ?r = "ubatch_add (is @ [cur']) 1 True al2"
  note a = took_add [OF g(3), of 1 True]
  have "split_seq n_ubatch al = ?r" using lt l g(1) by (simp add: split_seq_def Let_def)
  moreover have srt: "sorted_wrt (<) (is @ [cur'])" using g(2) by (simp add: seq_chain_def)
  moreover have "seq_good n_ubatch al (snd ?r)" using a(2) g(2,4) unfolding seq_good_def seq_chain_def by auto
  moreover have "distinct (is @ [cur'])" using srt strict_sorted_iff by blast
  ultimately show ?thesis using a(1) tookD(2) [OF a(1)] by (intro exI [of _ "fst ?r"] exI [of _ "snd ?r"]) auto
qed

lemma split_seq_none:
  assumes "allocr_wf al" "unused al = {}"
  shows "split_seq n_ubatch al = (al, ubatch_none)"
  using first_unused_spec(1) [OF assms(1)] assms(2) by (force simp: split_seq_def Let_def)

interpretation seq: splitter "\<lambda>al. Some (split_seq n_ubatch al)" allocr_wf "seq_good n_ubatch" for n_ubatch
proof
  show "seq_good n_ubatch al' ub = seq_good n_ubatch al ub" if "same_batch al al'" for al al' ub
    using made_by_same [OF that] same_batchD(2) [OF that] by (simp add: seq_good_def)
  show "\<exists>al' ub. Some (split_seq n_ubatch al) = Some (al', ub) \<and> allocr_wf al' \<and>
      took al (set (ub_batch_idxs ub)) al' \<and> distinct (ub_batch_idxs ub) \<and> ub_batch_idxs ub \<noteq> [] \<and>
      ub_n_tokens ub = length (ub_batch_idxs ub) \<and> seq_good n_ubatch al ub"
    if "allocr_wf al" "unused al \<noteq> {}" for al
    using split_seq_some [of al n_ubatch] that by blast
qed (use split_seq_none in \<open>auto simp: ubatch_none_def\<close>)

subsection \<open>The sets of an equal split\<close>

lemma collect_sets_spec:
  assumes "allocr_wf al" "sets' = collect_sets al n_ubatch sequential max_sets is sets lst"
    and "set is \<subseteq> {..<batch_n al}" "length sets \<le> n_ubatch" "max_sets = 0 \<or> length sets < max_sets"
    and "\<forall>S \<in> set sets. \<exists>i \<in> unused al. S = ba_seq_set al ! i"
    and "\<And>k k'. k < k' \<Longrightarrow> k' < length sets \<Longrightarrow> sets ! k \<inter> sets ! k' = {}"
  shows "(\<forall>S \<in> set sets'. \<exists>i \<in> unused al. S = ba_seq_set al ! i) \<and>
    (\<forall>k k'. k < k' \<longrightarrow> k' < length sets' \<longrightarrow> sets' ! k \<inter> sets' ! k' = {}) \<and>
    length sets' \<le> Suc n_ubatch \<and> (max_sets = 0 \<or> length sets' \<le> max_sets) \<and>
    (sets' = [] \<longrightarrow> sets = [] \<and> set is \<inter> unused al = {})"
  using assms(2-)
proof (induction al n_ubatch sequential max_sets "is" sets lst rule: collect_sets.induct)
  case (1 al n_ubatch sequential max_sets sets lst)
  then show ?case by auto
next
  case (2 al n_ubatch sequential max_sets i "is" sets lst)
  have i: "i < batch_n al" using "2.prems"(2) by simp
  show ?case
  proof (cases "ba_used al ! i")
    case True
    then show ?thesis using "2.IH"(1) [OF True] "2.prems" by (simp add: unused_def)
  next
    case False
    then have iu: "i \<in> unused al" using i by (simp add: unused_def)
    let ?id = "the (b_seq_id (ba_batch al)) ! i ! 0"
    let ?add = "\<not> list_ex (\<lambda>S. S \<inter> ba_seq_set al ! i \<noteq> {}) sets"
    let ?add' = "if sequential then ?add \<and> (sets = [] \<or> ?id = lst + 1) else ?add"
    let ?sets = "sets @ [ba_seq_set al ! i]"
    have ne: "?sets \<noteq> []" by simp
    have mem: "\<forall>S \<in> set ?sets. \<exists>i \<in> unused al. S = ba_seq_set al ! i" using "2.prems"(5) iu by auto
    show ?thesis
    proof (cases "?add'")
      case add: True
      then have disj: "sets ! k \<inter> ba_seq_set al ! i = {}" if "k < length sets" for k
        using that by (auto simp: list_ex_iff split: if_splits dest: nth_mem)
      have dis: "?sets ! k \<inter> ?sets ! k' = {}" if "k < k'" "k' < length ?sets" for k k'
        using that "2.prems"(6) [of k k'] disj [of k] by (auto simp: nth_append less_Suc_eq)
      show ?thesis
      proof (cases "length ?sets > n_ubatch \<or> (max_sets \<noteq> 0 \<and> length ?sets \<ge> max_sets)")
        case True
        have "sets' = ?sets"
          unfolding "2.prems"(1) collect_sets.simps(2) Let_def if_not_P [OF False] if_P [OF add] if_P [OF True] by (rule refl)
        then show ?thesis using mem dis "2.prems"(3,4) by auto
      next
        case go: False
        have eq: "sets' = collect_sets al n_ubatch sequential max_sets is ?sets ?id"
          unfolding "2.prems"(1) collect_sets.simps(2) Let_def if_not_P [OF False] if_P [OF add] if_not_P [OF go] by (rule refl)
        have b: "set is \<subseteq> {..<batch_n al}" "length ?sets \<le> n_ubatch" "max_sets = 0 \<or> length ?sets < max_sets"
          using "2.prems"(2) go by auto
        note ih = "2.IH"(2) [OF False refl refl refl add refl go eq b mem dis]
        have "sets' \<noteq> []" using ih by blast
        then show ?thesis using ih by blast
      qed
    next
      case skip: False
      have eq: "sets' = collect_sets al n_ubatch sequential max_sets is sets lst"
        unfolding "2.prems"(1) collect_sets.simps(2) Let_def if_not_P [OF False] if_not_P [OF skip] by (rule refl)
      have "sets \<noteq> []" using skip by (auto split: if_splits)
      then show ?thesis using "2.IH"(3) [OF False refl refl refl skip eq] "2.prems"(2-) by auto
    qed
  qed
qed

subsection \<open>Reading the sets of an equal split\<close>

definition set_prefix :: "batch_allocr \<Rightarrow> bool" where
  \<comment> \<open>of the tokens of one sequence set, the used ones come first\<close>
  "set_prefix al \<longleftrightarrow> (\<forall>i j. i < j \<longrightarrow> j < batch_n al \<longrightarrow> ba_seq_set al ! i = ba_seq_set al ! j \<longrightarrow>
     i \<in> unused al \<longrightarrow> j \<in> unused al)"

definition rest :: "batch_allocr \<Rightarrow> nat set \<Rightarrow> nat list" where
  \<comment> \<open>the tokens of a set that are left\<close>
  "rest al S = filter (\<lambda>i. i \<in> unused al \<and> ba_seq_set al ! i = S) [0..<batch_n al]"

lemma dropWhile_filter:
  "sorted_wrt (<) xs \<Longrightarrow> (\<And>i j. i \<in> set xs \<Longrightarrow> j \<in> set xs \<Longrightarrow> i < j \<Longrightarrow> P j \<Longrightarrow> P i) \<Longrightarrow>
     dropWhile P xs = filter (\<lambda>x. \<not> P x) (xs :: nat list)"
proof (induction xs)
  case (Cons x xs)
  show ?case
  proof (cases "P x")
    case True then show ?thesis using Cons by auto
  next
    case False
    then have "\<not> P y" if "y \<in> set xs" for y using Cons.prems(1) Cons.prems(2) [of x y] that by auto
    then show ?thesis using False by simp
  qed
qed simp

lemma rest_drop:
  assumes "allocr_wf al" "set_prefix al"
  shows "drop (set_start al S) (ba_seq_set_map al S) = rest al S"
    "set_start al S + length (rest al S) = length (ba_seq_set_map al S)"
proof -
  let ?m = "ba_seq_set_map al S"
  have m: "?m = filter (\<lambda>i. ba_seq_set al ! i = S) [0..<batch_n al]" by (rule allocr_wfD(3) [OF assms(1)])
  have "drop (set_start al S) ?m = dropWhile (\<lambda>i. ba_used al ! i) ?m"
    by (simp add: set_start_def dropWhile_eq_drop)
  also have "\<dots> = filter (\<lambda>i. \<not> ba_used al ! i) ?m"
  proof (rule dropWhile_filter)
    show "sorted_wrt (<) ?m" unfolding m by (simp add: sorted_wrt_filter)
    show "ba_used al ! i" if "i \<in> set ?m" "j \<in> set ?m" "i < j" "ba_used al ! j" for i j
    proof (rule ccontr)
      assume "\<not> ba_used al ! i"
      then have "i \<in> unused al" using that(1) by (simp add: m unused_def)
      then have "j \<in> unused al" using assms(2) that(1-3) unfolding set_prefix_def by (auto simp: m)
      then show False using that(4) by (simp add: unused_def)
    qed
  qed
  also have "\<dots> = rest al S" unfolding m rest_def by (auto simp: unused_def intro!: filter_cong)
  finally show r: "drop (set_start al S) ?m = rest al S" .
  have "set_start al S \<le> length ?m" by (simp add: set_start_def length_takeWhile_le)
  then show "set_start al S + length (rest al S) = length ?m" unfolding r [symmetric] by simp
qed

definition sets_ok :: "batch_allocr \<Rightarrow> nat set list \<Rightarrow> bool" where
  "sets_ok al sets \<longleftrightarrow> (\<forall>S \<in> set sets. \<exists>i \<in> unused al. S = ba_seq_set al ! i) \<and>
     (\<forall>k k'. k < k' \<longrightarrow> k' < length sets \<longrightarrow> sets ! k \<inter> sets ! k' = {})"

lemma rest_simps [simp]: "distinct (rest al S)" "set (rest al S) = {i \<in> unused al. ba_seq_set al ! i = S}"
  by (auto simp: rest_def unused_def)

lemma rest_disjoint:
  assumes "allocr_wf al" "sets_ok al sets" "k < length sets" "k' < length sets" "k \<noteq> k'"
  shows "set (rest al (sets ! k)) \<inter> set (rest al (sets ! k')) = {}"
proof -
  have "sets ! k \<inter> sets ! k' = {}" using assms(2-5) unfolding sets_ok_def by (metis Int_commute nat_neq_iff)
  moreover have "sets ! k \<noteq> {}"
    using assms(2,3) allocr_wfD(5) [OF assms(1)] unfolding sets_ok_def by (metis nth_mem unused_def mem_Collect_eq)
  ultimately show ?thesis by auto
qed

lemma rest_nonempty: "sets_ok al sets \<Longrightarrow> k < length sets \<Longrightarrow> rest al (sets ! k) \<noteq> []"
  unfolding sets_ok_def by (metis (mono_tags, lifting) empty_iff empty_set mem_Collect_eq nth_mem rest_simps(2))

definition read_of :: "batch_allocr \<Rightarrow> nat set list \<Rightarrow> (nat \<Rightarrow> nat) \<Rightarrow> nat \<Rightarrow> nat list" where
  "read_of al sets ms k = take (ms k) (rest al (sets ! k))"

definition eq_inv :: "batch_allocr \<Rightarrow> nat set list \<Rightarrow> (nat \<Rightarrow> nat) \<Rightarrow> equal_state \<Rightarrow> bool" where
  \<comment> \<open>\<open>ms k\<close> tokens of the \<open>k\<close>-th set have been read\<close>
  "eq_inv al sets ms st \<longleftrightarrow> length (eq_cur st) = length sets \<and> length (eq_idxs st) = length sets \<and>
     (\<forall>k < length sets. ms k \<le> length (rest al (sets ! k)) \<and> eq_cur st ! k = set_start al (sets ! k) + ms k \<and>
        eq_idxs st ! k = read_of al sets ms k) \<and>
     took al (\<Union>k < length sets. set (read_of al sets ms k)) (eq_al st)"

lemma eq_invD:
  assumes "eq_inv al sets ms st"
  shows "length (eq_cur st) = length sets" "length (eq_idxs st) = length sets"
    "k < length sets \<Longrightarrow> ms k \<le> length (rest al (sets ! k))"
    "k < length sets \<Longrightarrow> eq_cur st ! k = set_start al (sets ! k) + ms k"
    "k < length sets \<Longrightarrow> eq_idxs st ! k = read_of al sets ms k"
    "took al (\<Union>k < length sets. set (read_of al sets ms k)) (eq_al st)"
  using assms unfolding eq_inv_def by blast+

lemma take_one_inv:
  assumes wf: "allocr_wf al" "set_prefix al" "sets_ok al sets"
    and "eq_inv al sets ms st" "k < length sets" "ms k < length (rest al (sets ! k))"
  shows "eq_inv al sets (ms(k := ms k + 1)) (take_one sets k st)"
proof -
  note d = eq_invD [OF assms(4)]
  let ?r = "rest al (sets ! k)"
  let ?i = "?r ! ms k"
  have smap: "ba_seq_set_map (eq_al st) = ba_seq_set_map al" using same_batchD(3) [OF tookD(1) [OF d(6)]] .
  have idx: "ba_seq_set_map (eq_al st) (sets ! k) ! (eq_cur st ! k) = ?i"
    unfolding smap d(4) [OF assms(5)] rest_drop(1) [OF wf(1,2), symmetric]
    using rest_drop(2) [OF wf(1,2), of "sets ! k"] assms(6) by (subst nth_drop) auto
  have take: "take (Suc (ms k)) ?r = take (ms k) ?r @ [?i]" using assms(6) by (rule take_Suc_conv_app_nth)
  have new: "?i \<notin> set (read_of al sets ms k')" if "k' < length sets" for k'
  proof (cases "k' = k")
    case True
    have "distinct (take (ms k) ?r @ [?i])" unfolding take [symmetric] by simp
    then show ?thesis using True by (simp add: read_of_def)
  next
    case False
    have "?i \<in> set ?r" using assms(6) by (rule nth_mem)
    then show ?thesis
      using rest_disjoint [OF wf(1,3) assms(5) that] False set_take_subset [of "ms k'" "rest al (sets ! k')"]
      by (auto simp: read_of_def)
  qed
  have "?i \<in> unused al" using nth_mem [OF assms(6)] by simp
  then have unus: "?i \<in> unused (eq_al st)" using tookD(4) [OF d(6)] new by auto
  have U: "(\<Union>k' < length sets. set (read_of al sets (ms(k := ms k + 1)) k')) =
      insert ?i (\<Union>k' < length sets. set (read_of al sets ms k'))"
  proof -
    have rk: "set (read_of al sets (ms(k := ms k + 1)) k') = (if k' = k then insert ?i (set (read_of al sets ms k)) else set (read_of al sets ms k'))" for k'
      using take by (auto simp: read_of_def)
    show ?thesis unfolding rk using assms(5) by (auto split: if_splits)
  qed
  show ?thesis
    unfolding eq_inv_def U using took_use [OF d(6) unus] d(1-5) assms(5,6) take idx
    by (auto simp: take_one_def Let_def read_of_def nth_list_update)
qed

lemma take_row_inv:
  assumes wf: "allocr_wf al" "set_prefix al" "sets_ok al sets"
    and "eq_inv al sets (\<lambda>_. m) st" "\<And>k. k < length sets \<Longrightarrow> m < length (rest al (sets ! k))"
  shows "eq_inv al sets (\<lambda>_. Suc m) (fold (take_one sets) [0..<length sets] st)"
proof -
  have "eq_inv al sets (\<lambda>k. if k < n then Suc m else m) (fold (take_one sets) [0..<n] st)" if "n \<le> length sets" for n
    using that
  proof (induction n)
    case (Suc n)
    have "eq_inv al sets ((\<lambda>k. if k < n then Suc m else m)(n := Suc m)) (take_one sets n (fold (take_one sets) [0..<n] st))"
      using take_one_inv [OF wf, of "\<lambda>k. if k < n then Suc m else m" "fold (take_one sets) [0..<n] st" n] Suc assms(5) by simp
    moreover have "(\<lambda>k. if k < n then Suc m else m)(n := Suc m) = (\<lambda>k. if k < Suc n then Suc m else m)"
      by (auto simp: fun_eq_iff less_Suc_eq)
    ultimately show ?case by simp
  qed (use assms(4) in simp)
  from this [of "length sets"] show ?thesis by (simp add: eq_inv_def read_of_def)
qed

lemma n_remaining_eq:
  assumes wf: "allocr_wf al" "set_prefix al" "sets_ok al sets"
    and "eq_inv al sets ms st" "k < length sets"
  shows "n_remaining sets st k = length (rest al (sets ! k)) - ms k"
  using eq_invD(4) [OF assms(4,5)] rest_drop(2) [OF wf(1,2), of "sets ! k"]
    same_batchD(3) [OF tookD(1) [OF eq_invD(6) [OF assms(4)]]]
  by (simp add: n_remaining_def)

lemma can_expand_eq:
  assumes wf: "allocr_wf al" "set_prefix al" "sets_ok al sets"
    and "eq_inv al sets ms st"
  shows "can_expand sets st \<longleftrightarrow> (\<forall>k < length sets. ms k < length (rest al (sets ! k)))"
proof -
  have "eq_cur st ! k < length (ba_seq_set_map (eq_al st) (sets ! k)) \<longleftrightarrow> ms k < length (rest al (sets ! k))"
    if "k < length sets" for k
    using eq_invD(4) [OF assms(4) that] rest_drop(2) [OF wf(1,2), of "sets ! k"]
      same_batchD(3) [OF tookD(1) [OF eq_invD(6) [OF assms(4)]]] by auto
  then show ?thesis by (auto simp: can_expand_def list_all_iff)
qed

lemma equal_go_effect:
  assumes wf: "allocr_wf al" "set_prefix al" "sets_ok al sets"
    and "eq_inv al sets (\<lambda>_. m) st" "sets \<noteq> []"
  shows "\<exists>M. eq_inv al sets (\<lambda>_. M) (equal_go n_ubatch sets st) \<and> m \<le> M \<and>
    ((\<forall>k < length sets. m < length (rest al (sets ! k))) \<longrightarrow> m < M) \<and> (M \<le> Suc m \<or> M * length sets \<le> n_ubatch) \<and>
    ((\<exists>k < length sets. M = length (rest al (sets ! k))) \<or> n_ubatch < (M + 1) * length sets)"
  using assms(4,5)
proof (induction "length (rest al (sets ! 0)) - m" arbitrary: m st rule: less_induct)
  case less
  note ce = can_expand_eq [OF wf less.prems(1)] and d = eq_invD [OF less.prems(1)]
  show ?case
  proof (cases "can_expand sets st")
    case False
    then have "equal_go n_ubatch sets st = st" by (subst equal_go.simps) simp
    moreover have "\<exists>k < length sets. m = length (rest al (sets ! k))" using False ce d(3) by (meson le_neq_implies_less)
    ultimately show ?thesis using less.prems(1) False ce by (intro exI [of _ m]) auto
  next
    case True
    let ?st = "fold (take_one sets) [0..<length sets] st"
    have inv: "eq_inv al sets (\<lambda>_. Suc m) ?st" by (rule take_row_inv [OF wf less.prems(1)]) (use True ce in blast)
    have len: "length (eq_idxs ?st ! 0) = Suc m"
      using eq_invD(3,5) [OF inv, of 0] less.prems(2) by (simp add: read_of_def)
    show ?thesis
    proof (cases "(length (eq_idxs ?st ! 0) + 1) * length sets > n_ubatch")
      case stop: True
      have "equal_go n_ubatch sets st = ?st" by (subst equal_go.simps) (use True stop less.prems(2) d(1) in \<open>simp add: Let_def\<close>)
      then show ?thesis using inv stop len by (intro exI [of _ "Suc m"]) auto
    next
      case go: False
      have eq: "equal_go n_ubatch sets st = equal_go n_ubatch sets ?st"
        by (subst equal_go.simps) (use True go less.prems(2) d(1) in \<open>simp add: Let_def\<close>)
      have "length (rest al (sets ! 0)) - Suc m < length (rest al (sets ! 0)) - m" using True ce less.prems(2) by auto
      from less.hyps [OF this inv less.prems(2)] obtain M where M:
        "eq_inv al sets (\<lambda>_. M) (equal_go n_ubatch sets ?st)" "Suc m \<le> M" "M \<le> Suc (Suc m) \<or> M * length sets \<le> n_ubatch"
        "(\<exists>k < length sets. M = length (rest al (sets ! k))) \<or> n_ubatch < (M + 1) * length sets" by blast
      have "M * length sets \<le> n_ubatch" if "M \<le> Suc (Suc m)"
      proof -
        have "M * length sets \<le> Suc (Suc m) * length sets" using that by (rule mult_le_mono1)
        then show ?thesis using go len by simp
      qed
      then show ?thesis unfolding eq using M by (intro exI [of _ M]) auto
    qed
  qed
qed

lemma give_back_inv:
  assumes wf: "allocr_wf al" "set_prefix al" "sets_ok al sets"
    and "eq_inv al sets ms st" "sets \<noteq> []" "0 < ms 0"
  shows "eq_inv al sets (ms(0 := ms 0 - 1)) (give_back st)"
proof -
  note d = eq_invD [OF assms(4)]
  have k: "0 < length sets" using assms(5) by simp
  let ?r = "rest al (sets ! 0)"
  let ?i = "?r ! (ms 0 - 1)"
  have lt: "ms 0 - 1 < length ?r" using d(3) [OF k] assms(6) by simp
  have take: "take (ms 0) ?r = take (ms 0 - 1) ?r @ [?i]" using take_Suc_conv_app_nth [OF lt] assms(6) by simp
  have l: "last (eq_idxs st ! 0) = ?i" "butlast (eq_idxs st ! 0) = take (ms 0 - 1) ?r"
    unfolding d(5) [OF k] read_of_def take by simp_all
  have other: "?i \<notin> set (read_of al sets ms k')" if "k' < length sets" "k' \<noteq> 0" for k'
    using rest_disjoint [OF wf(1,3) k that(1)] that(2) nth_mem [OF lt] set_take_subset [of "ms k'" "rest al (sets ! k')"]
    by (auto simp: read_of_def)
  have self: "?i \<notin> set (take (ms 0 - 1) ?r)"
  proof -
    have "distinct (take (ms 0 - 1) ?r @ [?i])" unfolding take [symmetric] by simp
    then show ?thesis by simp
  qed
  have mem: "?i \<in> (\<Union>k < length sets. set (read_of al sets ms k))" using k take by (intro UN_I [of 0]) (simp_all add: read_of_def)
  have U: "(\<Union>k' < length sets. set (read_of al sets (ms(0 := ms 0 - 1)) k')) = (\<Union>k' < length sets. set (read_of al sets ms k')) - {?i}"
  proof -
    have r0: "set (read_of al sets (ms(0 := ms 0 - 1)) k') = set (read_of al sets ms k') - {?i}" if "k' < length sets" for k'
      using take self other [OF that] by (cases "k' = 0") (auto simp: read_of_def)
    then show ?thesis by auto
  qed
  show ?thesis
    unfolding eq_inv_def U using took_unuse [OF d(6) mem] d(1-5) k l less_imp_le [OF lt] assms(6)
    by (auto simp: give_back_def read_of_def nth_list_update)
qed

lemma take_first_all:
  assumes wf: "allocr_wf al" "set_prefix al" "sets_ok al sets"
    and "eq_inv al sets ms st" "sets \<noteq> []" "ms 0 + n \<le> length (rest al (sets ! 0))"
  shows "eq_inv al sets (ms(0 := ms 0 + n)) ((take_one sets 0 ^^ n) st)"
  using assms(6)
proof (induction n)
  case (Suc n)
  have inv: "eq_inv al sets (ms(0 := ms 0 + n)) ((take_one sets 0 ^^ n) st)" by (rule Suc.IH) (use Suc.prems in simp)
  have "eq_inv al sets ((ms(0 := ms 0 + n))(0 := (ms(0 := ms 0 + n)) 0 + 1)) (take_one sets 0 ((take_one sets 0 ^^ n) st))"
    by (rule take_one_inv [OF wf inv]) (use Suc.prems assms(5) in auto)
  then show ?case by (simp only: fun_upd_upd fun_upd_same funpow.simps o_apply add_Suc_right add_0_right One_nat_def)
qed (use assms(4) in simp)

lemma truncate_first_effect:
  assumes wf: "allocr_wf al" "set_prefix al" "sets_ok al sets"
    and "eq_inv al sets ms st" "sets \<noteq> []" "n_keep_tail < length (rest al (sets ! 0))"
    and "ms 0 = length (rest al (sets ! 0)) - n_keep_tail + x"
  shows "eq_inv al sets (ms(0 := length (rest al (sets ! 0)) - n_keep_tail)) (truncate_first n_keep_tail sets st)"
  using assms(4,7)
proof (induction x arbitrary: ms st)
  case 0
  have "\<not> n_remaining sets st 0 < n_keep_tail"
    using n_remaining_eq [OF wf 0(1), of 0] 0(2) assms(5,6) by simp
  then have "truncate_first n_keep_tail sets st = st" by (subst truncate_first.simps) simp
  moreover have "ms(0 := length (rest al (sets ! 0)) - n_keep_tail) = ms" using 0(2) by auto
  ultimately show ?case using 0(1) by simp
next
  case (Suc x)
  note d = eq_invD [OF Suc.prems(1)]
  have k: "0 < length sets" using assms(5) by simp
  have "n_remaining sets st 0 < n_keep_tail"
    using n_remaining_eq [OF wf Suc.prems(1) k] Suc.prems(2) d(3) [OF k] assms(6) by simp
  moreover have "eq_idxs st \<noteq> []" using d(2) k by auto
  moreover have "length (eq_idxs st ! 0) = ms 0" using d(3,5) [OF k] by (simp add: read_of_def)
  then have "eq_idxs st ! 0 \<noteq> []" using Suc.prems(2) by auto
  ultimately have eq: "truncate_first n_keep_tail sets st = truncate_first n_keep_tail sets (give_back st)"
    by (subst truncate_first.simps) simp
  have "eq_inv al sets (ms(0 := ms 0 - 1)) (give_back st)"
    by (rule give_back_inv [OF wf Suc.prems(1) assms(5)]) (use Suc.prems(2) in simp)
  then have "eq_inv al sets ((ms(0 := ms 0 - 1))(0 := length (rest al (sets ! 0)) - n_keep_tail)) (truncate_first n_keep_tail sets (give_back st))"
    by (rule Suc.IH) (use Suc.prems(2) in simp)
  then show ?case unfolding eq by (simp only: fun_upd_upd)
qed

definition kept :: "batch_allocr \<Rightarrow> nat set list \<Rightarrow> (nat \<Rightarrow> nat) \<Rightarrow> nat \<Rightarrow> equal_state \<Rightarrow> bool" where
  \<comment> \<open>the state before the micro-batch is made: the first \<open>n\<close> sets with \<open>ms k\<close> tokens each\<close>
  "kept al sets ms n st \<longleftrightarrow> 0 < n \<and> n \<le> length sets \<and> n \<le> length (eq_idxs st) \<and>
     (\<forall>k < n. 0 < ms k \<and> ms k \<le> length (rest al (sets ! k)) \<and> eq_idxs st ! k = read_of al sets ms k) \<and>
     took al (\<Union>k < n. set (read_of al sets ms k)) (eq_al st)"

lemma concat_take_nth: "n \<le> length xss \<Longrightarrow> concat (take n xss) = concat (map ((!) xss) [0..<n])"
  by (rule arg_cong [where f = concat]) (rule nth_equalityI, auto)

lemma defer_rest:
  \<comment> \<open>the tokens of the sets from \<open>n\<close> on go back\<close>
  assumes wf: "allocr_wf al" "set_prefix al" "sets_ok al sets"
    and "eq_inv al sets ms st" "0 < n" "n \<le> length sets" "\<And>k. k < n \<Longrightarrow> 0 < ms k"
  shows "kept al sets ms n (st\<lparr>eq_al := fold unuse_token (concat (drop n (eq_idxs st))) (eq_al st)\<rparr>)"
proof -
  note d = eq_invD [OF assms(4)]
  let ?R = "read_of al sets ms"
  have dis: "set (?R k) \<inter> set (?R k') = {}" if "k < length sets" "k' < length sets" "k \<noteq> k'" for k k'
    using rest_disjoint [OF wf(1,3) that] set_take_subset [of "ms k" "rest al (sets ! k)"]
      set_take_subset [of "ms k'" "rest al (sets ! k')"] unfolding read_of_def by blast
  have nth: "eq_idxs st ! k = ?R k" if "k < length sets" for k using d(5) that by simp
  have dr: "drop n (eq_idxs st) = map ?R [n..<length sets]"
    using d(2) nth by (intro nth_equalityI) auto
  have set_dr: "set (concat (drop n (eq_idxs st))) = (\<Union>k \<in> {n..<length sets}. set (?R k))" unfolding dr by simp
  have dist0: "distinct (concat (map ?R ks))" if "distinct ks" "set ks \<subseteq> {..<length sets}" for ks
    using that
  proof (induction ks)
    case (Cons k ks)
    have "set (?R k) \<inter> set (?R k') = {}" if "k' \<in> set ks" for k' using dis [of k k'] Cons.prems that by auto
    then show ?case using Cons by (auto simp: read_of_def)
  qed simp
  have dist: "distinct (concat (map ?R [m..<length sets]))" for m by (rule dist0) auto
  have "took al ((\<Union>k < length sets. set (?R k)) - set (concat (drop n (eq_idxs st))))
      (fold unuse_token (concat (drop n (eq_idxs st))) (eq_al st))"
    by (rule took_unuse_all [OF d(6)]) (use dist [of n] in \<open>auto simp: set_dr dr\<close>)
  moreover have "(\<Union>k < length sets. set (?R k)) - set (concat (drop n (eq_idxs st))) = (\<Union>k < n. set (?R k))"
  proof -
    have split: "{..<length sets} = {..<n} \<union> {n..<length sets}" using assms(6) by auto
    have "(\<Union>k < n. set (?R k)) \<inter> (\<Union>k \<in> {n..<length sets}. set (?R k)) = {}"
    proof -
      have "set (?R k) \<inter> set (?R k') = {}" if "k < n" "k' \<in> {n..<length sets}" for k k'
        using dis [of k k'] that assms(6) by auto
      then show ?thesis by blast
    qed
    then show ?thesis unfolding set_dr split by blast
  qed
  ultimately show ?thesis unfolding kept_def using d(2,3,5) assms(5-7) by auto
qed

lemma keep_tail_effect:
  assumes wf: "allocr_wf al" "set_prefix al" "sets_ok al sets"
    and "eq_inv al sets (\<lambda>_. M) st" "sets \<noteq> []" "0 < M" "0 < n_keep_tail" "n_keep_tail < n_ubatch"
    and "M = 1 \<or> M * length sets \<le> n_ubatch"
  shows "\<exists>st' n ms. keep_tail n_ubatch n_keep_tail sets st = (st', n) \<and> kept al sets ms n st' \<and>
    (\<forall>k < n. length (rest al (sets ! k)) = ms k \<or> n_keep_tail \<le> length (rest al (sets ! k)) - ms k) \<and>
    (\<forall>k < n. ms k = ms 0) \<and> (n * ms 0 \<le> n_ubatch \<or> (ms 0 = 1 \<and> M = 1))"
proof -
  note d = eq_invD [OF assms(4)]
  have k0: "0 < length sets" using assms(5) by simp
  let ?len = "\<lambda>k. length (rest al (sets ! k))"
  have rem: "n_remaining sets st k = ?len k - M" if "k < length sets" for k by (rule n_remaining_eq [OF wf assms(4) that])
  let ?P = "\<lambda>s. \<not> (n_remaining sets st s \<noteq> 0 \<and> n_remaining sets st s < n_keep_tail)"
  let ?n = "length (takeWhile ?P [0..<length sets])"
  have Mle: "M \<le> ?len k" if "k < length sets" for k using d(3) that by simp
  have Mu: "M \<le> n_ubatch" using assms(6,8,9) k0 by (cases "length sets") auto
  show ?thesis
  proof (cases "?n = 0")
    case False
    have le: "?n \<le> length sets" using length_takeWhile_le [of ?P "[0..<length sets]"] by simp
    have P: "?P k" if "k < ?n" for k
    proof -
      have "takeWhile ?P [0..<length sets] ! k = k" using takeWhile_nth [OF that] that le by simp
      then have "k \<in> set (takeWhile ?P [0..<length sets])" using nth_mem [OF that] by simp
      then show ?thesis by (rule set_takeWhileD [THEN conjunct2])
    qed
    let ?st' = "st\<lparr>eq_al := fold unuse_token (concat (drop ?n (eq_idxs st))) (eq_al st)\<rparr>"
    have kt: "keep_tail n_ubatch n_keep_tail sets st = (?st', ?n)" using False by (simp add: keep_tail_def Let_def)
    have kp: "kept al sets (\<lambda>_. M) ?n ?st'" by (rule defer_rest [OF wf assms(4)]) (use False le assms(6) in auto)
    have tail: "?len k = M \<or> n_keep_tail \<le> ?len k - M" if "k < ?n" for k
      using P [OF that] rem [of k] Mle [of k] that le by auto
    have "?n * M \<le> n_ubatch \<or> (M = 1 \<and> M = 1)"
    proof (cases "M = 1")
      case False
      have "?n * M \<le> length sets * M" using le by (rule mult_le_mono1)
      also have "\<dots> \<le> n_ubatch" using assms(9) False by (simp add: mult.commute)
      finally show ?thesis ..
    qed simp
    then show ?thesis using kt kp tail by (intro exI [of _ ?st'] exI [of _ ?n] exI [of _ "\<lambda>_. M"]) simp
  next
    case True
    have "takeWhile ?P [0..<length sets] = []" using True by simp
    then have "\<not> ?P 0" using k0 by (simp add: upt_conv_Cons split: if_splits)
    then have r0: "0 < ?len 0 - M" "?len 0 - M < n_keep_tail" using rem [OF k0] by auto
    have len0: "length (eq_idxs st ! 0) = M" using d(5) [OF k0] Mle [OF k0] by (simp add: read_of_def)
    show ?thesis
    proof (cases "M + (?len 0 - M) \<le> n_ubatch")
      case ext: True
      let ?st1 = "(take_one sets 0 ^^ (?len 0 - M)) st"
      let ?ms = "(\<lambda>_. M)(0 := ?len 0)"
      have inv: "eq_inv al sets ?ms ?st1"
        using take_first_all [OF wf assms(4,5), of "?len 0 - M"] Mle [OF k0] by simp
      let ?st' = "?st1\<lparr>eq_al := fold unuse_token (concat (drop 1 (eq_idxs ?st1))) (eq_al ?st1)\<rparr>"
      have kt: "keep_tail n_ubatch n_keep_tail sets st = (?st', 1)"
        using True ext rem [OF k0] len0 by (simp add: keep_tail_def Let_def)
      have kp: "kept al sets ?ms 1 ?st'" by (rule defer_rest [OF wf inv]) (use k0 r0 in \<open>auto simp: Suc_le_eq\<close>)
      show ?thesis using kt kp ext Mle [OF k0] by (intro exI [of _ ?st'] exI [of _ 1] exI [of _ ?ms]) simp
    next
      case trunc: False
      let ?st1 = "truncate_first n_keep_tail sets st"
      let ?ms = "(\<lambda>_. M)(0 := ?len 0 - n_keep_tail)"
      have big: "n_keep_tail < ?len 0" using trunc assms(8) Mle [OF k0] by simp
      have inv: "eq_inv al sets ?ms ?st1"
        by (rule truncate_first_effect [OF wf assms(4,5) big, where x = "M - (?len 0 - n_keep_tail)"]) (use r0 in simp)
      let ?st' = "?st1\<lparr>eq_al := fold unuse_token (concat (drop 1 (eq_idxs ?st1))) (eq_al ?st1)\<rparr>"
      have kt: "keep_tail n_ubatch n_keep_tail sets st = (?st', 1)"
        using True trunc rem [OF k0] len0 by (simp add: keep_tail_def Let_def)
      have kp: "kept al sets ?ms 1 ?st'" by (rule defer_rest [OF wf inv]) (use k0 big in \<open>auto simp: Suc_le_eq\<close>)
      have "?len 0 - n_keep_tail \<le> M" using r0 by simp
      then show ?thesis using kt kp big Mu by (intro exI [of _ ?st'] exI [of _ 1] exI [of _ ?ms]) simp
    qed
  qed
qed

subsection \<open>The equal split\<close>

definition singles :: "batch_allocr \<Rightarrow> bool" where
  \<comment> \<open>every token has one sequence\<close>
  "singles al \<longleftrightarrow> (\<forall>i < batch_n al. \<exists>q. b_seqs (ba_batch al) i = [int q])"

definition equal_blocks :: "nat \<Rightarrow> nat \<Rightarrow> batch_allocr \<Rightarrow> llama_ubatch \<Rightarrow> nat list list \<Rightarrow> nat \<Rightarrow> bool" where
  \<comment> \<open>\<open>len\<close> tokens of each of several disjoint sequence sets, one set after the other, each in the order of the batch\<close>
  "equal_blocks n_ubatch max_seq_sets al ub blocks len \<longleftrightarrow>
     ub_batch_idxs ub = concat blocks \<and> blocks \<noteq> [] \<and> 0 < len \<and> made_by al (length blocks) True ub \<and>
     (\<forall>bl \<in> set blocks. length bl = len \<and> sorted_wrt (<) bl \<and> (\<forall>i \<in> set bl. \<forall>j \<in> set bl. ba_seq_set al ! i = ba_seq_set al ! j)) \<and>
     (\<forall>k k'. k < k' \<longrightarrow> k' < length blocks \<longrightarrow>
        (\<forall>i \<in> set (blocks ! k). \<forall>j \<in> set (blocks ! k'). ba_seq_set al ! i \<inter> ba_seq_set al ! j = {})) \<and>
     (length blocks * len \<le> n_ubatch \<or> (len = 1 \<and> length blocks = Suc n_ubatch)) \<and>
     (max_seq_sets = 0 \<or> length blocks \<le> max_seq_sets)"

definition equal_good :: "nat \<Rightarrow> bool \<Rightarrow> nat \<Rightarrow> batch_allocr \<Rightarrow> llama_ubatch \<Rightarrow> bool" where
  \<comment> \<open>a sequential split has one sequence per set, and they are consecutive\<close>
  "equal_good n_ubatch sequential max_seq_sets al ub \<longleftrightarrow> (\<exists>blocks len.
     equal_blocks n_ubatch max_seq_sets al ub blocks len \<and>
     (sequential \<longrightarrow> (\<exists>q. \<forall>k < length blocks. \<forall>i \<in> set (blocks ! k). b_seqs (ba_batch al) i = [int (q + k)])))"

definition tail_kept :: "nat \<Rightarrow> batch_allocr \<Rightarrow> batch_allocr \<Rightarrow> llama_ubatch \<Rightarrow> bool" where
  \<comment> \<open>of a sequence set in the micro-batch nothing or at least \<open>n\<close> tokens are left\<close>
  "tail_kept n al al' ub \<longleftrightarrow> (\<forall>i \<in> set (ub_batch_idxs ub).
     rest al' (ba_seq_set al ! i) = [] \<or> n \<le> length (rest al' (ba_seq_set al ! i)))"

lemma kept_rest:
  \<comment> \<open>what is left of each set afterwards\<close>
  assumes wf: "allocr_wf al" "set_prefix al" "sets_ok al sets" and "kept al sets ms n st"
  shows "k < n \<Longrightarrow> rest (eq_al st) (sets ! k) = drop (ms k) (rest al (sets ! k))"
    "set_prefix (eq_al st)"
proof -
  have K: "0 < n" "n \<le> length sets" "\<And>k. k < n \<Longrightarrow> ms k \<le> length (rest al (sets ! k))"
    "took al (\<Union>k < n. set (read_of al sets ms k)) (eq_al st)" using assms(4) unfolding kept_def by blast+
  note d = tookD [OF K(4)] and s = same_batchD [OF tookD(1) [OF K(4)]]
  have gone: "i \<in> unused (eq_al st) \<longleftrightarrow> i \<in> set (drop (ms k) (rest al (sets ! k)))"
    if "k < n" "i \<in> unused al" "ba_seq_set al ! i = sets ! k" for i k
  proof -
    let ?r = "rest al (sets ! k)"
    have ir: "i \<in> set ?r" using that by simp
    have "i \<notin> set (read_of al sets ms k')" if "k' < n" "k' \<noteq> k" for k'
      using rest_disjoint [OF wf(1,3), of k k'] that \<open>k < n\<close> K(2) ir set_take_subset [of "ms k'" "rest al (sets ! k')"]
      unfolding read_of_def by fastforce
    then have "i \<in> unused (eq_al st) \<longleftrightarrow> i \<notin> set (take (ms k) ?r)"
      using d(4) that by (auto simp: read_of_def)
    moreover have "set (take (ms k) ?r) \<inter> set (drop (ms k) ?r) = {}" by (rule set_take_disj_set_drop_if_distinct) simp_all
    moreover have "set ?r = set (take (ms k) ?r) \<union> set (drop (ms k) ?r)" by (metis append_take_drop_id set_append)
    ultimately show ?thesis using ir by blast
  qed
  show "rest (eq_al st) (sets ! k) = drop (ms k) (rest al (sets ! k))" if k: "k < n"
  proof (rule sorted_distinct_set_unique)
    show "sorted (rest (eq_al st) (sets ! k))" "distinct (rest (eq_al st) (sets ! k))"
      by (auto simp: rest_def intro: sorted_wrt_filter)
    show "sorted (drop (ms k) (rest al (sets ! k)))" by (intro sorted_wrt_drop) (auto simp: rest_def intro: sorted_wrt_filter)
    show "distinct (drop (ms k) (rest al (sets ! k)))" by (rule distinct_drop) simp
    show "set (rest (eq_al st) (sets ! k)) = set (drop (ms k) (rest al (sets ! k)))"
      using gone [OF k] d(4) s(2) set_drop_subset [of "ms k" "rest al (sets ! k)"] by auto
  qed
  show "set_prefix (eq_al st)"
    unfolding set_prefix_def
  proof (intro allI impI)
    fix i j assume a: "i < j" "j < batch_n (eq_al st)" "ba_seq_set (eq_al st) ! i = ba_seq_set (eq_al st) ! j" "i \<in> unused (eq_al st)"
    have iu: "i \<in> unused al" using a(4) d(4) by blast
    have ju: "j \<in> unused al" using wf(2) iu a(1-3) s(2,8) unfolding set_prefix_def by metis
    have same: "ba_seq_set al ! i = ba_seq_set al ! j" using a(3) s(2) by simp
    show "j \<in> unused (eq_al st)"
    proof (cases "\<exists>k < n. ba_seq_set al ! j = sets ! k")
      case True
      then obtain k where k: "k < n" "ba_seq_set al ! j = sets ! k" by blast
      let ?r = "rest al (sets ! k)"
      have id: "i \<in> set (drop (ms k) ?r)" using gone [OF k(1) iu] same k(2) a(4) by simp
      have jr: "j \<in> set ?r" using ju k(2) by simp
      have "j \<notin> set (take (ms k) ?r)"
      proof
        assume "j \<in> set (take (ms k) ?r)"
        moreover have "sorted_wrt (<) (take (ms k) ?r @ drop (ms k) ?r)" by (simp add: rest_def sorted_wrt_filter)
        ultimately have "j < i" using id unfolding sorted_wrt_append by blast
        then show False using a(1) by simp
      qed
      then have "j \<in> set (drop (ms k) ?r)" using jr by (metis UnE append_take_drop_id set_append)
      then show ?thesis using gone [OF k(1) ju k(2)] by simp
    next
      case False
      have "j \<notin> set (read_of al sets ms k)" if "k < n" for k
        using False that set_take_subset [of "ms k" "rest al (sets ! k)"] unfolding read_of_def by auto
      then show ?thesis using ju d(4) by blast
    qed
  qed
qed

lemma single_seq:
  assumes "allocr_wf al" "singles al" "i < batch_n al"
  obtains q where "b_seqs (ba_batch al) i = [int q]" "ba_seq_set al ! i = {q}" "the (b_seq_id (ba_batch al)) ! i ! 0 = int q"
proof -
  obtain q where q: "b_seqs (ba_batch al) i = [int q]" using assms(2,3) by (auto simp: singles_def)
  have "length (b_seqs (ba_batch al) i) = nat (the (b_n_seq_id (ba_batch al)) ! i)" by (simp add: b_seqs_def)
  then have "0 < nat (the (b_n_seq_id (ba_batch al)) ! i)" using q by simp
  then have "b_seqs (ba_batch al) i ! 0 = the (b_seq_id (ba_batch al)) ! i ! 0" unfolding b_seqs_def by simp
  then have "the (b_seq_id (ba_batch al)) ! i ! 0 = int q" using q by simp
  moreover have "ba_seq_set al ! i = {q}" using allocr_wfD(4) [OF assms(1,3)] q by simp
  ultimately show thesis using that q by blast
qed

lemma collect_sets_seq:
  assumes "allocr_wf al" "singles al" "set is \<subseteq> {..<batch_n al}"
    and "sets = map (\<lambda>q. {q}) [q0..<q0 + length sets]" "sets \<noteq> [] \<Longrightarrow> lst = int (q0 + length sets) - 1"
  shows "\<exists>q. collect_sets al n_ubatch True max_sets is sets lst =
    map (\<lambda>q. {q}) [q..<q + length (collect_sets al n_ubatch True max_sets is sets lst)]"
  using assms(3-)
proof (induction "is" arbitrary: sets lst q0)
  case (Cons i "is")
  have i: "i < batch_n al" using Cons.prems(1) by simp
  obtain q where q: "ba_seq_set al ! i = {q}" "the (b_seq_id (ba_batch al)) ! i ! 0 = int q"
    by (rule single_seq [OF assms(1,2) i])
  have sub: "set is \<subseteq> {..<batch_n al}" using Cons.prems(1) by simp
  let ?c = "sets = [] \<or> int q = lst + 1"
  let ?add = "\<not> list_ex (\<lambda>S. S \<inter> {q} \<noteq> {}) sets \<and> ?c"
  let ?sets = "sets @ [{q}]"
  show ?case
  proof (cases "ba_used al ! i \<or> \<not> ?add")
    case True
    then have "collect_sets al n_ubatch True max_sets (i # is) sets lst = collect_sets al n_ubatch True max_sets is sets lst"
      by (auto simp: q Let_def)
    then show ?thesis using Cons.IH [OF sub Cons.prems(2,3)] by simp
  next
    case False
    have next': "\<exists>q1. ?sets = map (\<lambda>q. {q}) [q1..<q1 + length ?sets] \<and> int q = int (q1 + length ?sets) - 1"
    proof (cases "sets = []")
      case True then show ?thesis by (intro exI [of _ q]) simp
    next
      case ne: False
      then have "q = q0 + length sets" using False Cons.prems(3) by auto
      then show ?thesis using Cons.prems(2) by (intro exI [of _ q0]) simp
    qed
    then obtain q1 where q1: "?sets = map (\<lambda>q. {q}) [q1..<q1 + length ?sets]" "int q = int (q1 + length ?sets) - 1" by blast
    show ?thesis
    proof (cases "length ?sets > n_ubatch \<or> (max_sets \<noteq> 0 \<and> length ?sets \<ge> max_sets)")
      case True
      then have "collect_sets al n_ubatch True max_sets (i # is) sets lst = ?sets" using False by (auto simp: q Let_def)
      then show ?thesis using q1(1) by metis
    next
      case go: False
      then have "collect_sets al n_ubatch True max_sets (i # is) sets lst = collect_sets al n_ubatch True max_sets is ?sets (int q)"
        using False by (auto simp: q Let_def)
      then show ?thesis using Cons.IH [OF sub q1] by simp
    qed
  qed
qed auto

lemma kept_ubatch:
  assumes wf: "allocr_wf al" "set_prefix al" "sets_ok al sets"
    and "kept al sets ms n st" "\<forall>k < n. ms k = ms 0"
    and "n * ms 0 \<le> n_ubatch \<or> (ms 0 = 1 \<and> n = Suc n_ubatch)" "max_sets = 0 \<or> n \<le> max_sets"
    and "sequential \<longrightarrow> singles al \<and> (\<exists>q. sets = map (\<lambda>q. {q}) [q..<q + length sets])"
    and "r = ubatch_add (concat (take n (eq_idxs st))) n True (eq_al st)"
  shows "took al (set (ub_batch_idxs (snd r))) (fst r)" "distinct (ub_batch_idxs (snd r))" "ub_batch_idxs (snd r) \<noteq> []"
    "ub_n_tokens (snd r) = length (ub_batch_idxs (snd r))" "equal_good n_ubatch sequential max_sets al (snd r)" "set_prefix (fst r)"
    "\<And>k. k < n \<Longrightarrow> rest (fst r) (sets ! k) = drop (ms k) (rest al (sets ! k))"
    "\<And>i. i \<in> set (ub_batch_idxs (snd r)) \<Longrightarrow> \<exists>k < n. ba_seq_set al ! i = sets ! k"
proof -
  have K: "0 < n" "n \<le> length sets" "n \<le> length (eq_idxs st)"
    "\<And>k. k < n \<Longrightarrow> 0 < ms k \<and> ms k \<le> length (rest al (sets ! k)) \<and> eq_idxs st ! k = read_of al sets ms k"
    "took al (\<Union>k < n. set (read_of al sets ms k)) (eq_al st)" using assms(4) unfolding kept_def by blast+
  let ?R = "read_of al sets ms" and ?bl = "map (read_of al sets ms) [0..<n]"
  have c: "concat (take n (eq_idxs st)) = concat ?bl"
    unfolding concat_take_nth [OF K(3)] using K(4) by (intro arg_cong [where f = concat]) auto
  have memR: "i \<in> unused al \<and> ba_seq_set al ! i = sets ! k" if "i \<in> set (?R k)" for i k
  proof -
    have "i \<in> set (rest al (sets ! k))" using that unfolding read_of_def by (rule in_set_takeD)
    then show ?thesis by simp
  qed
  have lenR: "length (?R k) = ms 0" if "k < n" for k
  proof -
    have "ms k \<le> length (rest al (sets ! k))" using K(4) [OF that] by blast
    then have "length (?R k) = ms k" by (simp add: read_of_def)
    then show ?thesis using assms(5) that by metis
  qed
  have dis: "set (?R k) \<inter> set (?R k') = {}" if "k < n" "k' < n" "k \<noteq> k'" for k k'
  proof -
    have "k < length sets" "k' < length sets" using that K(2) by auto
    then show ?thesis
      using rest_disjoint [OF wf(1,3) _ _ that(3)] set_take_subset [of "ms k" "rest al (sets ! k)"]
        set_take_subset [of "ms k'" "rest al (sets ! k')"] unfolding read_of_def by blast
  qed
  have dist: "distinct (concat ?bl)"
  proof -
    have "distinct (concat (map ?R ks))" if "distinct ks" "set ks \<subseteq> {..<n}" for ks
      using that
    proof (induction ks)
      case (Cons k ks)
      have "set (?R k) \<inter> set (?R k') = {}" if "k' \<in> set ks" for k' using dis [of k k'] Cons.prems that by auto
      then show ?case using Cons by (auto simp: read_of_def)
    qed simp
    then show ?thesis by (simp add: lessThan_atLeast0)
  qed
  have sets: "set (concat ?bl) = (\<Union>k < n. set (?R k))" by auto
  have t: "took al (set (concat ?bl)) (eq_al st)" using K(5) unfolding sets .
  note a = took_add [OF t, of n True]
  have r: "r = ubatch_add (concat ?bl) n True (eq_al st)" using assms(9) c by simp
  show tk: "took al (set (ub_batch_idxs (snd r))) (fst r)" using a(1) unfolding r by simp
  show "distinct (ub_batch_idxs (snd r))" "ub_n_tokens (snd r) = length (ub_batch_idxs (snd r))" using dist unfolding r by simp_all
  have "length (?R 0) \<noteq> 0" using lenR [OF K(1)] K(4) [OF K(1)] by simp
  then show "ub_batch_idxs (snd r) \<noteq> []" unfolding r using K(1) by (auto simp: upt_conv_Cons)
  have srt: "sorted_wrt (<) (?R k)" for k unfolding read_of_def rest_def by (intro sorted_wrt_take sorted_wrt_filter) simp
  have sd: "sets ! k \<inter> sets ! k' = {}" if "k < k'" "k' < n" for k k'
    using wf(3) that K(2) unfolding sets_ok_def by (meson less_le_trans)
  show "equal_good n_ubatch sequential max_sets al (snd r)"
    unfolding equal_good_def equal_blocks_def
  proof (intro exI [of _ ?bl] exI [of _ "ms 0"] conjI)
    show "ub_batch_idxs (snd r) = concat ?bl" unfolding r by simp
    show "?bl \<noteq> []" "0 < ms 0" using K(1) K(4) [OF K(1)] by auto
    show "made_by al (length ?bl) True (snd r)" using a(2) unfolding r by simp
    show "\<forall>bl \<in> set ?bl. length bl = ms 0 \<and> sorted_wrt (<) bl \<and> (\<forall>i \<in> set bl. \<forall>j \<in> set bl. ba_seq_set al ! i = ba_seq_set al ! j)"
      using lenR srt memR by auto
    show "\<forall>k k'. k < k' \<longrightarrow> k' < length ?bl \<longrightarrow>
        (\<forall>i \<in> set (?bl ! k). \<forall>j \<in> set (?bl ! k'). ba_seq_set al ! i \<inter> ba_seq_set al ! j = {})"
      using memR sd by auto
    show "sequential \<longrightarrow> (\<exists>q. \<forall>k < length ?bl. \<forall>i \<in> set (?bl ! k). b_seqs (ba_batch al) i = [int (q + k)])"
    proof
      assume sequential
      then obtain q where q: "singles al" "sets = map (\<lambda>q. {q}) [q..<q + length sets]" using assms(8) by blast
      have "b_seqs (ba_batch al) i = [int (q + k)]" if k: "k < n" "i \<in> set (?R k)" for k i
      proof -
        have iu: "i < batch_n al" using memR [OF k(2)] by (simp add: unused_def)
        obtain q' where q': "b_seqs (ba_batch al) i = [int q']" "ba_seq_set al ! i = {q'}" by (rule single_seq [OF wf(1) q(1) iu])
        have "k < length sets" using k(1) K(2) by simp
        then have "sets ! k = {q + k}" by (subst q(2)) simp
        then show ?thesis using memR [OF k(2)] q' by simp
      qed
      then show "\<exists>q. \<forall>k < length ?bl. \<forall>i \<in> set (?bl ! k). b_seqs (ba_batch al) i = [int (q + k)]" by auto
    qed
  qed (use assms(6,7) in auto)
  have s1: "same_batch (eq_al st) (fst r)" unfolding r ubatch_add_out by simp
  have u: "unused (fst r) = unused (eq_al st)" unfolding r ubatch_add_out by (simp add: unused_def batch_n_def)
  have eqr: "rest (fst r) S = rest (eq_al st) S" for S unfolding rest_def u same_batchD(2,8) [OF s1] by (rule refl)
  show "rest (fst r) (sets ! k) = drop (ms k) (rest al (sets ! k))" if "k < n" for k
    unfolding eqr by (rule kept_rest(1) [OF wf assms(4) that])
  show "set_prefix (fst r)"
    using kept_rest(2) [OF wf assms(4)] unfolding set_prefix_def u same_batchD(2,8) [OF s1] .
  show "\<exists>k < n. ba_seq_set al ! i = sets ! k" if "i \<in> set (ub_batch_idxs (snd r))" for i
    using that memR unfolding r by auto
qed

lemma split_equal_some:
  assumes wf: "allocr_wf al" "set_prefix al"
    and "unused al \<noteq> {}" "sequential \<longrightarrow> \<not> ba_has_cpl al \<and> singles al" "n_keep_tail < n_ubatch \<or> n_keep_tail = 0"
  shows "\<exists>al' ub. split_equal n_ubatch sequential n_keep_tail max_sets al = Some (al', ub) \<and> set_prefix al' \<and>
    took al (set (ub_batch_idxs ub)) al' \<and> distinct (ub_batch_idxs ub) \<and> ub_batch_idxs ub \<noteq> [] \<and>
    ub_n_tokens ub = length (ub_batch_idxs ub) \<and> equal_good n_ubatch sequential max_sets al ub \<and> tail_kept n_keep_tail al al' ub"
proof -
  define sets where "sets = collect_sets al n_ubatch sequential max_sets [0..<batch_n al] [] (-1)"
  have cs: "(\<forall>S \<in> set sets. \<exists>i \<in> unused al. S = ba_seq_set al ! i) \<and>
    (\<forall>k k'. k < k' \<longrightarrow> k' < length sets \<longrightarrow> sets ! k \<inter> sets ! k' = {}) \<and>
    length sets \<le> Suc n_ubatch \<and> (max_sets = 0 \<or> length sets \<le> max_sets) \<and>
    (sets = [] \<longrightarrow> set [0..<batch_n al] \<inter> unused al = {})"
  proof -
    have p: "set [0..<batch_n al] \<subseteq> {..<batch_n al}" "length ([] :: nat set list) \<le> n_ubatch"
      "max_sets = 0 \<or> length ([] :: nat set list) < max_sets"
      "\<forall>S \<in> set []. \<exists>i \<in> unused al. S = ba_seq_set al ! i"
      "\<And>k k'. k < k' \<Longrightarrow> k' < length ([] :: nat set list) \<Longrightarrow> ([] :: nat set list) ! k \<inter> [] ! k' = {}" by auto
    show ?thesis using collect_sets_spec [OF wf(1) sets_def p] by blast
  qed
  have ne: "sets \<noteq> []" using cs assms(3) by (auto simp: unused_def)
  have so: "sets_ok al sets" using cs unfolding sets_ok_def by blast
  note w = wf so
  let ?st0 = "\<lparr>eq_cur = map (set_start al) sets, eq_idxs = replicate (length sets) [], eq_al = al\<rparr>"
  define st where "st = equal_go n_ubatch sets ?st0"
  have "eq_inv al sets (\<lambda>_. 0) ?st0" using took_none [OF wf(1)] by (simp add: eq_inv_def read_of_def)
  from equal_go_effect [OF w this ne, of n_ubatch] obtain M where M: "eq_inv al sets (\<lambda>_. M) st"
    "(\<forall>k < length sets. 0 < length (rest al (sets ! k))) \<longrightarrow> 0 < M" "M \<le> Suc 0 \<or> M * length sets \<le> n_ubatch"
    unfolding st_def by blast
  have M0: "0 < M" using M(2) rest_nonempty [OF so] by blast
  have M1: "M = 1 \<or> M * length sets \<le> n_ubatch" using M(3) M0 by auto
  have "length sets \<le> Suc n_ubatch" using cs by blast
  then have bound: "M * length sets \<le> n_ubatch \<or> (M = 1 \<and> length sets = Suc n_ubatch)"
    using M1 by (cases "length sets \<le> n_ubatch") auto
  have seq: "\<not> (sequential \<and> ba_has_cpl al)" using assms(4) by blast
  obtain st' n ms where k: "(if n_keep_tail > 0 then keep_tail n_ubatch n_keep_tail sets st else (st, length sets)) = (st', n)"
    "kept al sets ms n st'" "\<forall>k < n. ms k = ms 0" "n * ms 0 \<le> n_ubatch \<or> (ms 0 = 1 \<and> n = Suc n_ubatch)"
    "\<forall>k < n. length (rest al (sets ! k)) = ms k \<or> n_keep_tail \<le> length (rest al (sets ! k)) - ms k"
  proof (cases "n_keep_tail > 0")
    case False
    have "kept al sets (\<lambda>_. M) (length sets) (st\<lparr>eq_al := fold unuse_token (concat (drop (length sets) (eq_idxs st))) (eq_al st)\<rparr>)"
      by (rule defer_rest [OF w M(1)]) (use ne M0 in auto)
    then have "kept al sets (\<lambda>_. M) (length sets) st" using eq_invD(2) [OF M(1)] by simp
    then show ?thesis using that [of st "length sets" "\<lambda>_. M"] False bound by (simp add: mult.commute)
  next
    case True
    then have lt: "n_keep_tail < n_ubatch" using assms(5) by simp
    obtain st' n ms where kt: "keep_tail n_ubatch n_keep_tail sets st = (st', n)" "kept al sets ms n st'"
      "\<forall>k < n. length (rest al (sets ! k)) = ms k \<or> n_keep_tail \<le> length (rest al (sets ! k)) - ms k"
      "\<forall>k < n. ms k = ms 0" "n * ms 0 \<le> n_ubatch \<or> (ms 0 = 1 \<and> M = 1)"
      using keep_tail_effect [OF w M(1) ne M0 True lt M1] by blast
    have "n \<le> length sets" using kt(2) by (simp add: kept_def)
    moreover have "length sets \<le> Suc n_ubatch" using cs by blast
    ultimately have b: "n * ms 0 \<le> n_ubatch \<or> (ms 0 = 1 \<and> n = Suc n_ubatch)"
      using kt(5) by (cases "n \<le> n_ubatch") auto
    have "(if n_keep_tail > 0 then keep_tail n_ubatch n_keep_tail sets st else (st, length sets)) = (st', n)"
      using kt(1) True by simp
    then show ?thesis using that kt(2-4) b by blast
  qed
  have "n \<le> length sets" using k(2) by (simp add: kept_def)
  then have mx: "max_sets = 0 \<or> n \<le> max_sets" using cs by auto
  have sq: "sequential \<longrightarrow> singles al \<and> (\<exists>q. sets = map (\<lambda>q. {q}) [q..<q + length sets])"
  proof
    assume s: sequential
    have "\<exists>q. sets = map (\<lambda>q. {q}) [q..<q + length sets]"
      using collect_sets_seq [OF wf(1), of "[0..<batch_n al]" "[]" 0 "-1" n_ubatch max_sets] s assms(4)
      unfolding sets_def by (simp add: lessThan_atLeast0)
    then show "singles al \<and> (\<exists>q. sets = map (\<lambda>q. {q}) [q..<q + length sets])" using assms(4) s by blast
  qed
  define r where "r = ubatch_add (concat (take n (eq_idxs st'))) n True (eq_al st')"
  note u = kept_ubatch [OF w k(2,3,4) mx sq r_def]
  have "split_equal n_ubatch sequential n_keep_tail max_sets al = Some r"
  proof -
    have "\<not> (n_keep_tail > 0 \<and> \<not> n_ubatch > n_keep_tail)" using assms(5) by auto
    then show ?thesis
      unfolding split_equal_def if_not_P [OF seq] Let_def sets_def [symmetric] if_not_P [OF ne]
        st_def [symmetric] k(1) r_def by simp
  qed
  moreover have "tail_kept n_keep_tail al (fst r) (snd r)"
    unfolding tail_kept_def
  proof
    fix i assume "i \<in> set (ub_batch_idxs (snd r))"
    then obtain q where q: "q < n" "ba_seq_set al ! i = sets ! q" using u(8) by blast
    have "rest (fst r) (ba_seq_set al ! i) = drop (ms q) (rest al (sets ! q))" using u(7) [OF q(1)] q(2) by simp
    then show "rest (fst r) (ba_seq_set al ! i) = [] \<or> n_keep_tail \<le> length (rest (fst r) (ba_seq_set al ! i))"
      using k(5) q(1) by auto
  qed
  ultimately show ?thesis using u(1-6) by (intro exI [of _ "fst r"] exI [of _ "snd r"]) simp
qed

lemma split_equal_none:
  assumes "allocr_wf al" "unused al = {}"
  shows "split_equal n_ubatch sequential n_keep_tail max_sets al = Some (al, ubatch_none)"
proof -
  have c: "collect_sets al n_ubatch sequential max_sets is [] l = []" if "set is \<subseteq> {..<batch_n al}" for "is" l
    using that assms(2) by (induction "is") (auto simp: unused_def)
  have "collect_sets al n_ubatch sequential max_sets [0..<batch_n al] [] (-1) = []" by (rule c) auto
  then show ?thesis by (simp add: split_equal_def)
qed

definition equal_ready :: "nat \<Rightarrow> bool \<Rightarrow> nat \<Rightarrow> batch_allocr \<Rightarrow> bool" where
  \<comment> \<open>when an equal split can go on\<close>
  "equal_ready n_ubatch sequential n_keep_tail al \<longleftrightarrow> allocr_wf al \<and> set_prefix al \<and>
     (sequential \<longrightarrow> \<not> ba_has_cpl al \<and> singles al) \<and> (n_keep_tail < n_ubatch \<or> n_keep_tail = 0)"

interpretation equal: splitter "split_equal n_ubatch sequential n_keep_tail max_sets" "equal_ready n_ubatch sequential n_keep_tail"
  "equal_good n_ubatch sequential max_sets" for n_ubatch sequential n_keep_tail max_sets
proof
  show "allocr_wf al" if "equal_ready n_ubatch sequential n_keep_tail al" for al using that by (simp add: equal_ready_def)
  show "equal_good n_ubatch sequential max_sets al' ub = equal_good n_ubatch sequential max_sets al ub" if "same_batch al al'" for al al' ub
    using made_by_same [OF that] same_batchD(1,2) [OF that] by (simp add: equal_good_def equal_blocks_def)
  show "\<exists>al' ub. split_equal n_ubatch sequential n_keep_tail max_sets al = Some (al', ub) \<and> equal_ready n_ubatch sequential n_keep_tail al' \<and>
      took al (set (ub_batch_idxs ub)) al' \<and> distinct (ub_batch_idxs ub) \<and> ub_batch_idxs ub \<noteq> [] \<and>
      ub_n_tokens ub = length (ub_batch_idxs ub) \<and> equal_good n_ubatch sequential max_sets al ub"
    if ready: "equal_ready n_ubatch sequential n_keep_tail al" and un: "unused al \<noteq> {}" for al
  proof -
    have a: "allocr_wf al" "set_prefix al" "sequential \<longrightarrow> \<not> ba_has_cpl al \<and> singles al" "n_keep_tail < n_ubatch \<or> n_keep_tail = 0"
      using ready by (auto simp: equal_ready_def)
    obtain al' ub where s: "split_equal n_ubatch sequential n_keep_tail max_sets al = Some (al', ub)" "set_prefix al'"
      "took al (set (ub_batch_idxs ub)) al'" "distinct (ub_batch_idxs ub)" "ub_batch_idxs ub \<noteq> []"
      "ub_n_tokens ub = length (ub_batch_idxs ub)" "equal_good n_ubatch sequential max_sets al ub"
      using split_equal_some [OF a(1,2) un a(3,4), of max_sets] by blast
    have "singles al' = singles al" using same_batchD(1,8) [OF tookD(1) [OF s(3)]] by (simp add: singles_def)
    then have "equal_ready n_ubatch sequential n_keep_tail al'"
      using a(3,4) s(2) tookD(2) [OF s(3)] same_batchD(7) [OF tookD(1) [OF s(3)]] by (simp add: equal_ready_def)
    then show ?thesis using s by blast
  qed
  show "\<exists>ub. split_equal n_ubatch sequential n_keep_tail max_sets al = Some (al, ub) \<and> ub_n_tokens ub = 0"
    if "equal_ready n_ubatch sequential n_keep_tail al" "unused al = {}" for al
    using split_equal_none [of al] that by (auto simp: equal_ready_def ubatch_none_def)
qed

end
