(* ===== verification/BatchInit.thy ===== *)
theory BatchInit
  imports Batch
begin

text \<open>
  What \<open>llama_batch_allocr::init\<close> guarantees: the splitters can start, every token has valid
  sequences, and the positions of every sequence continue what the memory holds.
\<close>

definition llama_batch_get_one :: "llama_token list \<Rightarrow> int \<Rightarrow> llama_batch" where
  "llama_batch_get_one tokens n_tokens = \<lparr>b_n_tokens = n_tokens, b_token = Some tokens, b_embd = None, b_pos = None,
     b_n_seq_id = None, b_seq_id = None, b_logits = None\<rparr>"

subsection \<open>The stages of \<open>init\<close>\<close>

definition inp_ok :: "llama_batch \<Rightarrow> bool" where
  \<comment> \<open>what the caller has to see to: the numbers of sequences come with the sequences, and are positive\<close>
  "inp_ok b \<longleftrightarrow> (b_n_seq_id b = None \<longleftrightarrow> b_seq_id b = None) \<and>
     (\<forall>ns. b_n_seq_id b = Some ns \<longrightarrow> (\<forall>i < nat (b_n_tokens b). 0 < ns ! i))"

definition filled :: "memory_pos option \<Rightarrow> bool \<Rightarrow> llama_batch \<Rightarrow> llama_batch" where
  "filled mem output_all inp = fill_logits output_all (fill_pos mem (fill_seqs inp))"

lemma filled_simps [simp]:
  "b_n_tokens (filled mem oa inp) = b_n_tokens inp" "b_token (filled mem oa inp) = b_token inp"
  "b_embd (filled mem oa inp) = b_embd inp"
  "b_n_seq_id (filled mem oa inp) = b_n_seq_id (fill_seqs inp)" "b_seq_id (filled mem oa inp) = b_seq_id (fill_seqs inp)"
  "b_pos (filled mem oa inp) = b_pos (fill_pos mem (fill_seqs inp))"
  by (auto simp: filled_def fill_logits_def fill_pos_def fill_seqs_def Let_def split: option.splits)

lemma b_seqs_filled [simp]: "b_seqs (filled mem oa inp) i = b_seqs (fill_seqs inp) i"
  by (simp add: b_seqs_def)

lemma fill_seqs_seqs:
  assumes "inp_ok inp" "i < nat (b_n_tokens inp)" "batch_seqs_ok n_seq_max inp" "0 < n_seq_max"
  shows "b_seqs (fill_seqs inp) i \<noteq> []" "q \<in> set (b_seqs (fill_seqs inp) i) \<Longrightarrow> 0 \<le> q \<and> q < int n_seq_max"
    "the (b_n_seq_id (fill_seqs inp)) ! i = int (length (b_seqs (fill_seqs inp) i))"
proof (atomize (full), cases "b_seq_id inp")
  case None
  then have "b_n_seq_id inp = None" using assms(1) by (simp add: inp_ok_def)
  then have "b_seqs (fill_seqs inp) i = [0]" using None assms(2) by (simp add: b_seqs_def fill_seqs_def Let_def)
  moreover have "the (b_n_seq_id (fill_seqs inp)) ! i = 1" using None \<open>b_n_seq_id inp = None\<close> assms(2) by (simp add: fill_seqs_def Let_def)
  ultimately show "b_seqs (fill_seqs inp) i \<noteq> [] \<and> (q \<in> set (b_seqs (fill_seqs inp) i) \<longrightarrow> 0 \<le> q \<and> q < int n_seq_max) \<and>
      the (b_n_seq_id (fill_seqs inp)) ! i = int (length (b_seqs (fill_seqs inp) i))"
    using assms(4) by simp
next
  case (Some qs)
  then obtain ns where ns: "b_n_seq_id inp = Some ns" using assms(1) by (auto simp: inp_ok_def)
  have f: "fill_seqs inp = inp" using Some ns by (simp add: fill_seqs_def)
  have "0 < ns ! i" using assms(1,2) ns by (simp add: inp_ok_def)
  moreover have ids: "\<And>s. s < nat (ns ! i) \<Longrightarrow> 0 \<le> qs ! i ! s \<and> qs ! i ! s < int n_seq_max"
  proof -
    have "\<forall>s \<in> set (b_seqs inp i). \<not> (s < 0 \<or> s \<ge> int n_seq_max)"
      using assms(2,3) Some unfolding batch_seqs_ok_def list_all_iff by auto
    then show "s < nat (ns ! i) \<Longrightarrow> 0 \<le> qs ! i ! s \<and> qs ! i ! s < int n_seq_max" for s
      using Some ns by (force simp: b_seqs_def)
  qed
  ultimately show "b_seqs (fill_seqs inp) i \<noteq> [] \<and> (q \<in> set (b_seqs (fill_seqs inp) i) \<longrightarrow> 0 \<le> q \<and> q < int n_seq_max) \<and>
      the (b_n_seq_id (fill_seqs inp)) ! i = int (length (b_seqs (fill_seqs inp) i))"
    unfolding f using assms(2,3) Some ns ids by (auto simp: b_seqs_def)
qed

lemma couple_seq_fields [simp]:
  "ba_batch (couple_seq b i k al) = ba_batch al" "ba_seq_set (couple_seq b i k al) = ba_seq_set al"
  "ba_seq_set_map (couple_seq b i k al) = ba_seq_set_map al" "ba_n_seq_max (couple_seq b i k al) = ba_n_seq_max al"
  "ba_n_pos_per_embd (couple_seq b i k al) = ba_n_pos_per_embd al" "ba_n_embd (couple_seq b i k al) = ba_n_embd al"
  "ba_has_cpl (couple_seq b i k al) = (ba_has_cpl al \<or> 0 < k)"
  by (simp_all add: couple_seq_def Let_def)

lemma couple_fold_fields [simp]:
  "ba_batch (fold (couple_seq b i) ks al) = ba_batch al" "ba_seq_set (fold (couple_seq b i) ks al) = ba_seq_set al"
  "ba_seq_set_map (fold (couple_seq b i) ks al) = ba_seq_set_map al" "ba_n_seq_max (fold (couple_seq b i) ks al) = ba_n_seq_max al"
  "ba_n_pos_per_embd (fold (couple_seq b i) ks al) = ba_n_pos_per_embd al" "ba_n_embd (fold (couple_seq b i) ks al) = ba_n_embd al"
  "ba_has_cpl (fold (couple_seq b i) ks al) = (ba_has_cpl al \<or> (\<exists>k \<in> set ks. 0 < k))"
  by (induction ks arbitrary: al) auto

lemma couple_fold_pos:
  "ba_seq_pos (fold (couple_seq b i) ks al) s =
     (if \<exists>k \<in> set ks. nat (the (b_seq_id b) ! i ! k) = s then insert (the (b_pos b) ! i) (ba_seq_pos al s) else ba_seq_pos al s)"
  by (induction ks arbitrary: al) (auto simp: couple_seq_def Let_def)

lemma couple_seqs_fields:
  "ba_batch (couple_seqs al) = ba_batch al" "ba_seq_set (couple_seqs al) = ba_seq_set al"
  "ba_seq_set_map (couple_seqs al) = ba_seq_set_map al" "ba_n_seq_max (couple_seqs al) = ba_n_seq_max al"
  "ba_n_pos_per_embd (couple_seqs al) = ba_n_pos_per_embd al" "ba_n_embd (couple_seqs al) = ba_n_embd al"
  "ba_has_cpl (couple_seqs al) \<longleftrightarrow> (\<exists>i < batch_n al. 1 < length (b_seqs (ba_batch al) i))"
  "ba_seq_pos (couple_seqs al) s = ba_seq_pos al s \<union>
     {the (b_pos (ba_batch al)) ! i |i. i < batch_n al \<and> s \<in> nat ` set (b_seqs (ba_batch al) i)}"
proof -
  let ?b = "ba_batch al"
  let ?ks = "\<lambda>i. [0..<nat (the (b_n_seq_id ?b) ! i)]"
  let ?f = "\<lambda>n. fold (\<lambda>i. fold (couple_seq ?b i) (?ks i)) [0..<n] (al\<lparr>ba_has_cpl := False\<rparr>)"
  have fields: "ba_batch (?f n) = ?b \<and> ba_seq_set (?f n) = ba_seq_set al \<and> ba_seq_set_map (?f n) = ba_seq_set_map al \<and>
      ba_n_seq_max (?f n) = ba_n_seq_max al \<and> ba_n_pos_per_embd (?f n) = ba_n_pos_per_embd al \<and> ba_n_embd (?f n) = ba_n_embd al" for n
    by (induction n) simp_all
  then show "ba_batch (couple_seqs al) = ?b" "ba_seq_set (couple_seqs al) = ba_seq_set al"
    "ba_seq_set_map (couple_seqs al) = ba_seq_set_map al" "ba_n_seq_max (couple_seqs al) = ba_n_seq_max al"
    "ba_n_pos_per_embd (couple_seqs al) = ba_n_pos_per_embd al" "ba_n_embd (couple_seqs al) = ba_n_embd al"
    by (simp_all add: couple_seqs_def Let_def)
  have cpl: "ba_has_cpl (?f n) \<longleftrightarrow> (\<exists>i < n. 1 < length (b_seqs ?b i))" for n
  proof (induction n)
    case (Suc n)
    have "(\<exists>k \<in> set (?ks n). 0 < k) \<longleftrightarrow> 1 < length (b_seqs ?b n)"
      by (auto simp: b_seqs_def intro: bexI [of _ 1])
    then show ?case using Suc by (auto simp: less_Suc_eq)
  qed simp
  then show "ba_has_cpl (couple_seqs al) \<longleftrightarrow> (\<exists>i < batch_n al. 1 < length (b_seqs ?b i))"
    by (simp add: couple_seqs_def Let_def)
  have "ba_seq_pos (?f n) s = ba_seq_pos al s \<union> {the (b_pos ?b) ! i |i. i < n \<and> s \<in> nat ` set (b_seqs ?b i)}" for n
  proof (induction n)
    case (Suc n)
    have "(\<exists>k \<in> set (?ks n). nat (the (b_seq_id ?b) ! n ! k) = s) \<longleftrightarrow> s \<in> nat ` set (b_seqs ?b n)"
      by (auto simp: b_seqs_def image_iff)
    then show ?case using Suc by (auto simp: couple_fold_pos less_Suc_eq)
  qed simp
  then show "ba_seq_pos (couple_seqs al) s = ba_seq_pos al s \<union>
      {the (b_pos ?b) ! i |i. i < batch_n al \<and> s \<in> nat ` set (b_seqs ?b i)}"
    by (simp add: couple_seqs_def Let_def)
qed

lemma seq_sets_fields:
  assumes "ba_seq_set al = []" "ba_seq_set_map al = (\<lambda>_. [])"
  shows "ba_batch (seq_sets al) = ba_batch al" "ba_n_seq_max (seq_sets al) = ba_n_seq_max al"
    "ba_n_pos_per_embd (seq_sets al) = ba_n_pos_per_embd al" "ba_n_embd (seq_sets al) = ba_n_embd al"
    "ba_has_cpl (seq_sets al) = ba_has_cpl al" "ba_seq_pos (seq_sets al) = ba_seq_pos al"
    "ba_seq_set (seq_sets al) = map (\<lambda>i. nat ` set (b_seqs (ba_batch al) i)) [0..<batch_n al]"
    "ba_seq_set_map (seq_sets al) S = filter (\<lambda>i. nat ` set (b_seqs (ba_batch al) i) = S) [0..<batch_n al]"
proof -
  let ?cur = "\<lambda>i. nat ` set (b_seqs (ba_batch al) i)"
  define step where "step = (\<lambda>i (al :: batch_allocr). al\<lparr>ba_seq_set := ba_seq_set al @ [?cur i],
      ba_seq_set_map := (ba_seq_set_map al)(?cur i := ba_seq_set_map al (?cur i) @ [i])\<rparr>)"
  let ?f = "\<lambda>n. fold step [0..<n] al"
  have f: "ba_batch (?f n) = ba_batch al \<and> ba_n_seq_max (?f n) = ba_n_seq_max al \<and> ba_n_pos_per_embd (?f n) = ba_n_pos_per_embd al \<and>
      ba_n_embd (?f n) = ba_n_embd al \<and> ba_has_cpl (?f n) = ba_has_cpl al \<and> ba_seq_pos (?f n) = ba_seq_pos al \<and>
      ba_seq_set (?f n) = map ?cur [0..<n] \<and> (\<forall>S. ba_seq_set_map (?f n) S = filter (\<lambda>i. ?cur i = S) [0..<n])" for n
    by (induction n) (use assms in \<open>auto simp: step_def\<close>)
  have bn: "batch_n (?f n) = batch_n al" for n using f [of n] by (simp add: batch_n_def)
  have eq: "seq_sets al = (let (idx, unq) = unq_index (ba_n_seq_max (?f (batch_n al))) (\<Union>i < batch_n al. ?cur i) (ba_seq_idx (?f (batch_n al)))
      in (?f (batch_n al))\<lparr>ba_seq_idx := idx, ba_seq_id_unq := ba_seq_id_unq (?f (batch_n al)) @ unq\<rparr>)"
    unfolding seq_sets_def Let_def step_def [symmetric] bn by (rule refl)
  show "ba_batch (seq_sets al) = ba_batch al" "ba_n_seq_max (seq_sets al) = ba_n_seq_max al"
    "ba_n_pos_per_embd (seq_sets al) = ba_n_pos_per_embd al" "ba_n_embd (seq_sets al) = ba_n_embd al"
    "ba_has_cpl (seq_sets al) = ba_has_cpl al" "ba_seq_pos (seq_sets al) = ba_seq_pos al"
    "ba_seq_set (seq_sets al) = map ?cur [0..<batch_n al]"
    "ba_seq_set_map (seq_sets al) S = filter (\<lambda>i. ?cur i = S) [0..<batch_n al]"
    unfolding eq using f [of "batch_n al"] by (simp_all add: case_prod_unfold Let_def)
qed

subsection \<open>The order of positions\<close>

lemma fold_opt_snoc: "fold_opt f (xs @ [x]) s = Option.bind (fold_opt f xs s) (f x)"
proof -
  have "fold_opt f [x] = f x" by (rule ext) (simp split: option.split)
  then show ?thesis by (simp add: fold_opt_append)
qed

lemma check_seqs:
  assumes "ba_seq_set al ! i = nat ` set qs'" "set qs \<subseteq> set qs'" "\<And>q. q \<in> nat ` set qs \<Longrightarrow> q \<in> cs q"
  shows "fold_opt (check_seq al i) qs (cs, cp) =
    (if \<forall>q \<in> nat ` set qs. cp q \<le> the (b_pos (ba_batch al)) ! i
     then Some (\<lambda>s. if s \<in> nat ` set qs then cs s \<inter> ba_seq_set al ! i else cs s,
                \<lambda>s. if s \<in> nat ` set qs then the (b_pos (ba_batch al)) ! i else cp s)
     else None)"
  using assms(2,3)
proof (induction qs arbitrary: cs cp)
  case (Cons q qs)
  let ?s = "nat q" and ?p = "the (b_pos (ba_batch al)) ! i"
  let ?cs = "cs(?s := cs ?s \<inter> ba_seq_set al ! i)" and ?cp = "cp(?s := ?p)"
  have "?s \<in> cs ?s \<inter> ba_seq_set al ! i" using Cons.prems assms(1) by auto
  then have ne: "cs ?s \<inter> ba_seq_set al ! i \<noteq> {}" by blast
  have c: "check_seq al i q (cs, cp) = (if ?p < cp ?s then None else Some (?cs, ?cp))"
    using ne by (simp add: check_seq_def Let_def)
  show ?case
  proof (cases "?p < cp ?s")
    case True then show ?thesis using c by auto
  next
    case False
    have "fold_opt (check_seq al i) qs (?cs, ?cp) =
      (if \<forall>q \<in> nat ` set qs. ?cp q \<le> ?p
       then Some (\<lambda>s. if s \<in> nat ` set qs then ?cs s \<inter> ba_seq_set al ! i else ?cs s,
                  \<lambda>s. if s \<in> nat ` set qs then ?p else ?cp s)
       else None)"
      by (rule Cons.IH) (use Cons.prems assms(1) in auto)
    moreover have "(\<forall>q \<in> nat ` set qs. ?cp q \<le> ?p) \<longleftrightarrow> (\<forall>x \<in> nat ` set (q # qs). cp x \<le> ?p)" using False by auto
    moreover have "(\<lambda>s. if s \<in> nat ` set qs then ?cs s \<inter> ba_seq_set al ! i else ?cs s) =
        (\<lambda>s. if s \<in> nat ` set (q # qs) then cs s \<inter> ba_seq_set al ! i else cs s)" by (auto simp: fun_eq_iff)
    moreover have "(\<lambda>s. if s \<in> nat ` set qs then ?p else ?cp s) = (\<lambda>s. if s \<in> nat ` set (q # qs) then ?p else cp s)"
      by (auto simp: fun_eq_iff)
    ultimately show ?thesis using c False by simp
  qed
qed simp

definition seqs_sorted :: "batch_allocr \<Rightarrow> nat \<Rightarrow> bool" where
  \<comment> \<open>the positions of the first \<open>n\<close> tokens: none below -1, none before an earlier one of the same sequence\<close>
  "seqs_sorted al n \<longleftrightarrow> (\<forall>i < n. -1 \<le> the (b_pos (ba_batch al)) ! i) \<and>
     (\<forall>i j. i < j \<longrightarrow> j < n \<longrightarrow> ba_seq_set al ! i \<inter> ba_seq_set al ! j \<noteq> {} \<longrightarrow>
        the (b_pos (ba_batch al)) ! i \<le> the (b_pos (ba_batch al)) ! j)"

lemma order_ok_eq:
  assumes "allocr_wf al" "\<And>i. i < batch_n al \<Longrightarrow> ba_seq_set al ! i \<subseteq> {..<LLAMA_MAX_SEQ}"
  shows "order_ok al \<longleftrightarrow> seqs_sorted al (batch_n al)"
proof -
  let ?p = "\<lambda>i. the (b_pos (ba_batch al)) ! i" and ?S = "\<lambda>i. ba_seq_set al ! i"
  let ?f = "\<lambda>n. fold_opt (\<lambda>i. fold_opt (check_seq al i) (b_seqs (ba_batch al) i)) [0..<n] (\<lambda>_. {..<LLAMA_MAX_SEQ}, \<lambda>_. -1)"
  define last_pos where "last_pos = (\<lambda>n q. Max (insert (-1) {?p i |i. i < n \<and> q \<in> ?S i}))"
  have fin: "finite {?p i |i. i < n \<and> q \<in> ?S i}" for n q
    by (rule finite_subset [of _ "?p ` {..<n}"]) auto
  have step: "last_pos (Suc n) q = (if q \<in> ?S n then max (?p n) (last_pos n q) else last_pos n q)" for n q
  proof (cases "q \<in> ?S n")
    case True
    then have "{?p i |i. i < Suc n \<and> q \<in> ?S i} = insert (?p n) {?p i |i. i < n \<and> q \<in> ?S i}" by (auto simp: less_Suc_eq)
    then have "insert (-1) {?p i |i. i < Suc n \<and> q \<in> ?S i} = insert (?p n) (insert (-1) {?p i |i. i < n \<and> q \<in> ?S i})" by auto
    then show ?thesis using True fin [of n q] by (simp add: last_pos_def)
  next
    case False
    then have "{?p i |i. i < Suc n \<and> q \<in> ?S i} = {?p i |i. i < n \<and> q \<in> ?S i}" by (auto simp: less_Suc_eq)
    then show ?thesis using False by (simp add: last_pos_def)
  qed
  have le_iff: "last_pos n q \<le> x \<longleftrightarrow> -1 \<le> x \<and> (\<forall>i < n. q \<in> ?S i \<longrightarrow> ?p i \<le> x)" for n q x
    unfolding last_pos_def using fin [of n q] by (subst Max_le_iff) auto
  have ne: "?S i \<noteq> {}" if "i < batch_n al" for i using allocr_wfD(5) [OF assms(1) that] .
  have "if seqs_sorted al n then \<exists>cs. ?f n = Some (cs, last_pos n) \<and> (\<forall>q < LLAMA_MAX_SEQ. q \<in> cs q) else ?f n = None"
    if "n \<le> batch_n al" for n
    using that
  proof (induction n)
    case 0 show ?case by (simp add: seqs_sorted_def last_pos_def)
  next
    case (Suc n)
    have n: "n < batch_n al" using Suc.prems by simp
    have snoc: "?f (Suc n) = Option.bind (?f n) (fold_opt (check_seq al n) (b_seqs (ba_batch al) n))"
      by (simp add: fold_opt_snoc)
    have srt: "seqs_sorted al (Suc n) \<longleftrightarrow> seqs_sorted al n \<and> (\<forall>q \<in> ?S n. last_pos n q \<le> ?p n)"
    proof
      assume L: "seqs_sorted al (Suc n)"
      have "seqs_sorted al n" using L unfolding seqs_sorted_def by (meson less_SucI)
      moreover have "-1 \<le> ?p n" using L unfolding seqs_sorted_def by blast
      moreover have "?p i \<le> ?p n" if "i < n" "q \<in> ?S i" "q \<in> ?S n" for i q
        using L that unfolding seqs_sorted_def by blast
      ultimately show "seqs_sorted al n \<and> (\<forall>q \<in> ?S n. last_pos n q \<le> ?p n)" unfolding le_iff by blast
    next
      assume R: "seqs_sorted al n \<and> (\<forall>q \<in> ?S n. last_pos n q \<le> ?p n)"
      then have new: "-1 \<le> ?p n" "\<And>i. i < n \<Longrightarrow> ?S i \<inter> ?S n \<noteq> {} \<Longrightarrow> ?p i \<le> ?p n"
        unfolding le_iff using ne [OF n] by blast+
      have old: "\<And>i. i < n \<Longrightarrow> -1 \<le> ?p i" "\<And>i j. i < j \<Longrightarrow> j < n \<Longrightarrow> ?S i \<inter> ?S j \<noteq> {} \<Longrightarrow> ?p i \<le> ?p j"
        using R unfolding seqs_sorted_def by blast+
      show "seqs_sorted al (Suc n)" unfolding seqs_sorted_def using new old by (metis less_Suc_eq)
    qed
    show ?case
    proof (cases "seqs_sorted al n")
      case False then show ?thesis using Suc snoc srt by simp
    next
      case True
      then obtain cs where cs: "?f n = Some (cs, last_pos n)" "\<forall>q < LLAMA_MAX_SEQ. q \<in> cs q" using Suc by auto
      have Sn: "?S n = nat ` set (b_seqs (ba_batch al) n)" by (rule allocr_wfD(4) [OF assms(1) n])
      have "fold_opt (check_seq al n) (b_seqs (ba_batch al) n) (cs, last_pos n) =
        (if \<forall>q \<in> ?S n. last_pos n q \<le> ?p n
         then Some (\<lambda>s. if s \<in> ?S n then cs s \<inter> ?S n else cs s, \<lambda>s. if s \<in> ?S n then ?p n else last_pos n s)
         else None)"
        by (subst check_seqs [OF Sn]) (use cs(2) assms(2) [OF n] in \<open>auto simp: Sn\<close>)
      moreover have "(\<lambda>s. if s \<in> ?S n then ?p n else last_pos n s) = last_pos (Suc n)" if "\<forall>q \<in> ?S n. last_pos n q \<le> ?p n"
        using that step by (auto simp: fun_eq_iff max_def)
      ultimately show ?thesis using snoc cs srt True by auto
    qed
  qed
  from this [of "batch_n al"] show ?thesis unfolding order_ok_def by (simp split: if_splits) blast
qed

subsection \<open>When \<open>init\<close> accepts a batch\<close>

definition init_state :: "memory_pos option \<Rightarrow> llama_batch \<Rightarrow> nat \<Rightarrow> nat \<Rightarrow> bool \<Rightarrow> batch_allocr \<Rightarrow> batch_allocr" where
  \<comment> \<open>everything \<open>init\<close> has computed when the consistency checks start\<close>
  "init_state mem inp n_embd n_seq_max output_all al = seq_sets (couple_seqs (count_outputs
     ((allocr_clear al)\<lparr>ba_batch := filled mem output_all inp, ba_n_embd := n_embd, ba_n_seq_max := n_seq_max\<rparr>)))"

lemma couple_fold_cpl:
  "ba_seq_cpl (fold (couple_seq b i) ks al) s1 s0 \<longleftrightarrow> ba_seq_cpl al s1 s0 \<or>
     (\<exists>k \<in> set ks. 0 < k \<and> nat (the (b_seq_id b) ! i ! k) = s1 \<and> nat (the (b_seq_id b) ! i ! 0) = s0)"
  by (induction ks arbitrary: al) (auto simp: couple_seq_def Let_def)

lemma couple_seqs_cpl:
  "ba_seq_cpl (couple_seqs al) s1 s0 \<longleftrightarrow> ba_seq_cpl al s1 s0 \<or>
     (\<exists>i < batch_n al. \<exists>k. 0 < k \<and> k < length (b_seqs (ba_batch al) i) \<and>
        nat (b_seqs (ba_batch al) i ! k) = s1 \<and> nat (b_seqs (ba_batch al) i ! 0) = s0)"
proof -
  let ?b = "ba_batch al"
  let ?ks = "\<lambda>i. [0..<nat (the (b_n_seq_id ?b) ! i)]"
  let ?f = "\<lambda>n. fold (\<lambda>i. fold (couple_seq ?b i) (?ks i)) [0..<n] (al\<lparr>ba_has_cpl := False\<rparr>)"
  have "ba_seq_cpl (?f n) s1 s0 \<longleftrightarrow> ba_seq_cpl al s1 s0 \<or> (\<exists>i < n. \<exists>k. 0 < k \<and> k < length (b_seqs ?b i) \<and>
        nat (b_seqs ?b i ! k) = s1 \<and> nat (b_seqs ?b i ! 0) = s0)" for n
  proof (induction n)
    case (Suc n)
    have "(\<exists>k \<in> set (?ks n). 0 < k \<and> nat (the (b_seq_id ?b) ! n ! k) = s1 \<and> nat (the (b_seq_id ?b) ! n ! 0) = s0) \<longleftrightarrow>
      (\<exists>k. 0 < k \<and> k < length (b_seqs ?b n) \<and> nat (b_seqs ?b n ! k) = s1 \<and> nat (b_seqs ?b n ! 0) = s0)"
      by (auto simp: b_seqs_def)
    then show ?case using Suc by (auto simp: couple_fold_cpl less_Suc_eq)
  qed simp
  then show ?thesis by (simp add: couple_seqs_def Let_def)
qed

lemma seq_sets_cpl: "ba_seq_cpl (seq_sets al) = ba_seq_cpl al"
proof -
  define step where "step = (\<lambda>i (a :: batch_allocr). a\<lparr>ba_seq_set := ba_seq_set a @ [nat ` set (b_seqs (ba_batch al) i)],
      ba_seq_set_map := (ba_seq_set_map a)(nat ` set (b_seqs (ba_batch al) i) :=
        ba_seq_set_map a (nat ` set (b_seqs (ba_batch al) i)) @ [i])\<rparr>)"
  have "ba_seq_cpl (fold step is a) = ba_seq_cpl a" for "is" a
    by (induction "is" arbitrary: a) (simp_all add: step_def)
  then show ?thesis unfolding seq_sets_def Let_def step_def [symmetric] by (simp add: case_prod_unfold)
qed

lemma init_state_fields:
  fixes mem inp n_embd n_seq_max output_all al
  defines "b \<equiv> filled mem output_all inp" and "st \<equiv> init_state mem inp n_embd n_seq_max output_all al"
  shows "ba_batch st = b" "batch_n st = nat (b_n_tokens inp)" "ba_n_seq_max st = n_seq_max"
    "ba_n_pos_per_embd st = ba_n_pos_per_embd al"
    "ba_seq_set st = map (\<lambda>i. nat ` set (b_seqs b i)) [0..<nat (b_n_tokens inp)]"
    "ba_seq_set_map st S = filter (\<lambda>i. nat ` set (b_seqs b i) = S) [0..<nat (b_n_tokens inp)]"
    "ba_seq_pos st s = {the (b_pos b) ! i |i. i < nat (b_n_tokens inp) \<and> s \<in> nat ` set (b_seqs b i)}"
    "ba_has_cpl st \<longleftrightarrow> (\<exists>i < nat (b_n_tokens inp). 1 < length (b_seqs b i))"
    "ba_seq_cpl st s1 s0 \<longleftrightarrow> (\<exists>i < nat (b_n_tokens inp). \<exists>k. 0 < k \<and> k < length (b_seqs b i) \<and>
        nat (b_seqs b i ! k) = s1 \<and> nat (b_seqs b i ! 0) = s0)"
proof -
  define al1 where "al1 = count_outputs ((allocr_clear al)\<lparr>ba_batch := b, ba_n_embd := n_embd, ba_n_seq_max := n_seq_max\<rparr>)"
  have st: "st = seq_sets (couple_seqs al1)" by (simp add: st_def init_state_def al1_def b_def)
  have c1: "ba_batch al1 = b" "ba_n_seq_max al1 = n_seq_max" "ba_n_pos_per_embd al1 = ba_n_pos_per_embd al"
    "ba_seq_set al1 = []" "ba_seq_set_map al1 = (\<lambda>_. [])" "ba_seq_pos al1 = (\<lambda>_. {})" "ba_seq_cpl al1 = (\<lambda>_ _. False)"
    by (simp_all add: al1_def count_outputs_def allocr_clear_def)
  note cf = couple_seqs_fields [of al1]
  have e: "ba_seq_set (couple_seqs al1) = []" "ba_seq_set_map (couple_seqs al1) = (\<lambda>_. [])" using cf(2,3) c1(4,5) by simp_all
  note sf = seq_sets_fields [OF e]
  have bn: "batch_n (couple_seqs al1) = nat (b_n_tokens inp)" "batch_n al1 = nat (b_n_tokens inp)"
    using cf(1) c1(1) by (simp_all add: batch_n_def b_def)
  show "ba_batch st = b" "batch_n st = nat (b_n_tokens inp)" "ba_n_seq_max st = n_seq_max"
    "ba_n_pos_per_embd st = ba_n_pos_per_embd al"
    using sf(1-3) cf(1,4,5) c1 by (simp_all add: st batch_n_def b_def)
  show "ba_seq_set st = map (\<lambda>i. nat ` set (b_seqs b i)) [0..<nat (b_n_tokens inp)]"
    "ba_seq_set_map st S = filter (\<lambda>i. nat ` set (b_seqs b i) = S) [0..<nat (b_n_tokens inp)]"
    using sf(7,8) cf(1) c1(1) bn by (simp_all add: st)
  show "ba_seq_pos st s = {the (b_pos b) ! i |i. i < nat (b_n_tokens inp) \<and> s \<in> nat ` set (b_seqs b i)}"
    using sf(6) cf(8) [of s] c1(1,6) bn by (simp add: st)
  show "ba_has_cpl st \<longleftrightarrow> (\<exists>i < nat (b_n_tokens inp). 1 < length (b_seqs b i))"
    using sf(5) cf(7) c1(1) bn by (simp add: st)
  show "ba_seq_cpl st s1 s0 \<longleftrightarrow> (\<exists>i < nat (b_n_tokens inp). \<exists>k. 0 < k \<and> k < length (b_seqs b i) \<and>
        nat (b_seqs b i ! k) = s1 \<and> nat (b_seqs b i ! 0) = s0)"
    using couple_seqs_cpl [of al1 s1 s0] c1(1,7) bn by (simp add: st seq_sets_cpl)
qed

subsection \<open>What success means\<close>

definition init_pos :: "memory_pos option \<Rightarrow> nat \<Rightarrow> llama_pos" where
  \<comment> \<open>the last position of a sequence in the memory\<close>
  "init_pos mem s = (case mem of None \<Rightarrow> -1 | Some m \<Rightarrow> mem_seq_pos_max m s)"

definition ready :: "memory_pos option \<Rightarrow> llama_batch \<Rightarrow> nat \<Rightarrow> bool \<Rightarrow> batch_allocr \<Rightarrow> batch_allocr \<Rightarrow> bool" where
  \<comment> \<open>the state a successful \<open>init\<close> leaves\<close>
  "ready mem inp n_seq_max output_all al al' \<longleftrightarrow> allocr_wf al' \<and> unused al' = {..<batch_n al'} \<and>
     ba_batch al' = filled mem output_all inp \<and> ba_n_seq_max al' = n_seq_max \<and>
     ba_n_pos_per_embd al' = ba_n_pos_per_embd al \<and>
     (\<forall>i < batch_n al'. \<forall>q \<in> set (b_seqs (ba_batch al') i). 0 \<le> q \<and> q < int n_seq_max) \<and>
     (\<forall>i < batch_n al'. the (b_n_seq_id (ba_batch al')) ! i = int (length (b_seqs (ba_batch al') i))) \<and>
     (\<not> ba_has_cpl al' \<longrightarrow> singles al') \<and>
     (\<forall>s. ba_seq_pos al' s = {the (b_pos (ba_batch al')) ! i |i. i < batch_n al' \<and> s \<in> ba_seq_set al' ! i}) \<and>
     seqs_sorted al' (batch_n al') \<and> (\<forall>s < n_seq_max. positions_ok mem al' s)"

lemma positions_ok_cong:
  "ba_seq_pos al' = ba_seq_pos al \<Longrightarrow> ba_n_pos_per_embd al' = ba_n_pos_per_embd al \<Longrightarrow> ba_batch al' = ba_batch al \<Longrightarrow>
     positions_ok mem al' s = positions_ok mem al s"
  by (simp add: positions_ok_def allocr_seq_pos_min_def allocr_seq_pos_max_def)

lemma allocr_init_eq:
  "allocr_init n_vocab mem inp n_embd n_seq_max output_all al =
     (let al0 = (allocr_clear al)\<lparr>ba_batch := inp\<rparr>; st = init_state mem inp n_embd n_seq_max output_all al in
      if \<not> b_n_tokens inp > 0 then None
      else if n_seq_max > LLAMA_MAX_SEQ then Some (al0, False)
      else if \<not> batch_tokens_ok n_vocab inp then Some (al0, False)
      else if b_seq_id inp \<noteq> None \<and> b_n_seq_id inp = None then None
      else if \<not> batch_seqs_ok n_seq_max inp then Some (al0, False)
      else if list_all (positions_ok mem st) [0..<n_seq_max] \<and> coupled_ok mem st \<and> order_ok st
      then Some (split_reset st, True) else Some (st, False))"
  by (simp add: allocr_init_def Let_def init_state_def filled_def)

lemma init_seqs:
  assumes "inp_ok inp" "batch_seqs_ok n_seq_max inp" "0 < n_seq_max" "i < nat (b_n_tokens inp)"
  shows "b_seqs (filled mem output_all inp) i \<noteq> []"
    "q \<in> set (b_seqs (filled mem output_all inp) i) \<Longrightarrow> 0 \<le> q \<and> q < int n_seq_max"
    "the (b_n_seq_id (filled mem output_all inp)) ! i = int (length (b_seqs (filled mem output_all inp) i))"
  using fill_seqs_seqs [OF assms(1,4,2,3)] by simp_all

lemma init_state_wf:
  fixes mem inp n_embd n_seq_max output_all al
  defines "st \<equiv> init_state mem inp n_embd n_seq_max output_all al"
  assumes "inp_ok inp" "batch_seqs_ok n_seq_max inp" "0 < n_seq_max"
  shows "allocr_wf (split_reset st)"
    "i < nat (b_n_tokens inp) \<Longrightarrow> ba_seq_set st ! i \<subseteq> {..<n_seq_max}"
    "n_seq_max \<le> LLAMA_MAX_SEQ \<Longrightarrow> order_ok st \<longleftrightarrow> seqs_sorted st (nat (b_n_tokens inp))"
proof -
  note f = init_state_fields [of mem inp n_embd n_seq_max output_all al, folded st_def]
  note seqs = init_seqs [OF assms(2-4)]
  have all: "unused (split_reset st) = {..<nat (b_n_tokens inp)}" by (auto simp: split_reset_def batch_n_def f unused_def)
  show wf: "allocr_wf (split_reset st)"
    unfolding allocr_wf_def all using seqs(1) by (auto simp: split_reset_def batch_n_def f simp del: b_seqs_filled intro!: filter_cong)
  show sub: "i < nat (b_n_tokens inp) \<Longrightarrow> ba_seq_set st ! i \<subseteq> {..<n_seq_max}" for i
    using seqs(2) [of i] by (force simp: f simp del: b_seqs_filled)
  assume le: "n_seq_max \<le> LLAMA_MAX_SEQ"
  let ?r = "split_reset st"
  have r: "ba_batch ?r = ba_batch st" "batch_n ?r = nat (b_n_tokens inp)" "ba_seq_set ?r = ba_seq_set st"
    by (simp_all add: split_reset_def batch_n_def f)
  have "check_seq ?r = check_seq st" by (intro ext) (simp add: check_seq_def split_reset_def)
  then have "order_ok ?r = order_ok st" unfolding order_ok_def r by (simp add: f(2))
  moreover have "ba_seq_set ?r ! i \<subseteq> {..<LLAMA_MAX_SEQ}" if "i < batch_n ?r" for i
    using sub that le unfolding r by fastforce
  ultimately show "order_ok st \<longleftrightarrow> seqs_sorted st (nat (b_n_tokens inp))"
    using order_ok_eq [OF wf] by (simp add: seqs_sorted_def r)
qed

lemma allocr_init_ready:
  assumes "allocr_init n_vocab mem inp n_embd n_seq_max output_all al = Some (al', True)" "inp_ok inp" "0 < n_seq_max"
  shows "ready mem inp n_seq_max output_all al al'" "0 < b_n_tokens inp" "n_seq_max \<le> LLAMA_MAX_SEQ"
    "batch_tokens_ok n_vocab inp"
proof -
  define st where "st = init_state mem inp n_embd n_seq_max output_all al"
  have g: "b_n_tokens inp > 0" "n_seq_max \<le> LLAMA_MAX_SEQ" "batch_tokens_ok n_vocab inp" "batch_seqs_ok n_seq_max inp"
    "list_all (positions_ok mem st) [0..<n_seq_max]" "order_ok st" "al' = split_reset st"
    using assms(1) unfolding allocr_init_eq Let_def st_def [symmetric] by (auto split: if_splits)
  show "0 < b_n_tokens inp" "n_seq_max \<le> LLAMA_MAX_SEQ" "batch_tokens_ok n_vocab inp" using g by auto
  note f = init_state_fields [of mem inp n_embd n_seq_max output_all al, folded st_def]
  note seqs = init_seqs [OF assms(2) g(4) assms(3)]
  note w = init_state_wf [OF assms(2) g(4) assms(3), where mem = mem and n_embd = n_embd and output_all = output_all and al = al, folded st_def]
  let ?b = "filled mem output_all inp" and ?n = "nat (b_n_tokens inp)" and ?r = "split_reset st"
  have r: "ba_batch ?r = ?b" "batch_n ?r = ?n" "ba_seq_set ?r = ba_seq_set st"
    "ba_n_seq_max ?r = n_seq_max" "ba_n_pos_per_embd ?r = ba_n_pos_per_embd al" "ba_has_cpl ?r = ba_has_cpl st" "ba_seq_pos ?r = ba_seq_pos st"
    "unused ?r = {..<?n}"
    by (auto simp: split_reset_def batch_n_def f unused_def)
  have srt: "seqs_sorted ?r (batch_n ?r)" using w(3) [OF g(2)] g(6) by (simp add: seqs_sorted_def r f(1))
  have one: "singles ?r" if "\<not> ba_has_cpl ?r"
    unfolding singles_def r
  proof (intro allI impI)
    fix i assume i: "i < ?n"
    have "length (b_seqs ?b i) = 1" using that i seqs(1) [OF i] f(8) unfolding r by (metis One_nat_def length_0_conv less_one linorder_neqE_nat)
    then obtain q where "b_seqs ?b i = [q]" by (auto simp: length_Suc_conv)
    then show "\<exists>q. b_seqs ?b i = [int q]" using seqs(2) [OF i] by (intro exI [of _ "nat q"]) simp
  qed
  have pk: "positions_ok mem ?r s" if "s < n_seq_max" for s
    using g(5) that positions_ok_cong [of ?r st mem s] by (simp add: r f list_all_iff)
  have sp: "ba_seq_pos ?r s = {the (b_pos ?b) ! i |i. i < ?n \<and> s \<in> ba_seq_set ?r ! i}" for s
    unfolding r(7) f(7) r(3) f(5) by auto
  show "ready mem inp n_seq_max output_all al al'"
    unfolding ready_def g(7) using w(1) r one srt pk sp seqs by (simp del: filled_simps b_seqs_filled)
qed

subsection \<open>The batches that \<open>init\<close> accepts\<close>

definition batch_positions :: "llama_batch \<Rightarrow> nat \<Rightarrow> llama_pos set" where
  \<comment> \<open>the positions a batch has for a sequence\<close>
  "batch_positions b s = {the (b_pos b) ! i |i. i < nat (b_n_tokens b) \<and> int s \<in> set (b_seqs b i)}"

definition continues :: "memory_pos option \<Rightarrow> nat \<Rightarrow> llama_batch \<Rightarrow> nat \<Rightarrow> bool" where
  \<comment> \<open>a batch goes on with sequence \<open>s\<close> without a gap; with several positions per token it only must not go back\<close>
  "continues mem n_pos b s \<longleftrightarrow>
     (let P = batch_positions b s; p0 = init_pos mem s in
      P = {} \<or>
      (if n_pos > 1 then p0 < 0 \<or> (if b_token b \<noteq> None then p0 < Min P else p0 \<le> Min P)
       else (p0 < 0 \<or> Min P = p0 + 1) \<and> P = {Min P..Max P}))"

definition coupled_alike :: "memory_pos option \<Rightarrow> llama_batch \<Rightarrow> bool" where
  \<comment> \<open>the sequences of one token have the same first and last position in the memory\<close>
  "coupled_alike mem b \<longleftrightarrow> (\<forall>m i. mem = Some m \<longrightarrow> i < nat (b_n_tokens b) \<longrightarrow> (\<forall>q \<in> set (b_seqs b i).
     mem_seq_pos_min m (nat q) = mem_seq_pos_min m (nat (hd (b_seqs b i))) \<and>
     mem_seq_pos_max m (nat q) = mem_seq_pos_max m (nat (hd (b_seqs b i)))))"

definition in_order :: "llama_batch \<Rightarrow> bool" where
  \<comment> \<open>no position is below -1, and the positions of a sequence do not decrease\<close>
  "in_order b \<longleftrightarrow> (\<forall>i < nat (b_n_tokens b). -1 \<le> the (b_pos b) ! i) \<and>
     (\<forall>i j. i < j \<longrightarrow> j < nat (b_n_tokens b) \<longrightarrow> set (b_seqs b i) \<inter> set (b_seqs b j) \<noteq> {} \<longrightarrow> the (b_pos b) ! i \<le> the (b_pos b) ! j)"

definition accepted :: "int \<Rightarrow> memory_pos option \<Rightarrow> llama_batch \<Rightarrow> nat \<Rightarrow> nat \<Rightarrow> bool" where
  "accepted n_vocab mem b n_pos n_seq_max \<longleftrightarrow>
     (\<forall>ts. b_token b = Some ts \<longrightarrow> (\<forall>i < nat (b_n_tokens b). 0 \<le> ts ! i \<and> ts ! i < n_vocab)) \<and>
     (\<forall>i < nat (b_n_tokens b). \<forall>q \<in> set (b_seqs b i). 0 \<le> q \<and> q < int n_seq_max) \<and>
     (\<forall>s < n_seq_max. continues mem n_pos b s) \<and> coupled_alike mem b \<and> in_order b"

lemma interval_card:
  fixes P :: "int set"
  assumes "finite P" "P \<noteq> {}"
  shows "P = {Min P..Max P} \<longleftrightarrow> \<not> Max P - Min P + 1 > int (card P)"
proof -
  have sub: "P \<subseteq> {Min P..Max P}" using assms by auto
  have c: "int (card {Min P..Max P}) = Max P - Min P + 1"
    using Min_le_iff [OF assms] Max_ge [OF assms(1) Min_in [OF assms]] by simp
  show ?thesis
  proof
    assume "P = {Min P..Max P}" then have "card P = card {Min P..Max P}" by (rule arg_cong)
    then show "\<not> Max P - Min P + 1 > int (card P)" using c by linarith
  next
    assume "\<not> Max P - Min P + 1 > int (card P)"
    then have "card {Min P..Max P} \<le> card P" using c by linarith
    then show "P = {Min P..Max P}" using card_seteq [OF _ sub] by blast
  qed
qed

lemma finite_batch_positions [simp]: "finite (batch_positions b s)"
  unfolding batch_positions_def by (rule finite_subset [of _ "(!) (the (b_pos b)) ` {..<nat (b_n_tokens b)}"]) auto

lemma positions_ok_continues:
  assumes "ba_seq_pos al s = batch_positions (ba_batch al) s"
  shows "positions_ok mem al s \<longleftrightarrow> continues mem (ba_n_pos_per_embd al) (ba_batch al) s"
proof (cases "batch_positions (ba_batch al) s = {}")
  case False
  have p0: "init_pos mem s = (case mem of None \<Rightarrow> -1 | Some m \<Rightarrow> mem_seq_pos_max m s)" by (simp add: init_pos_def)
  let ?P = "batch_positions (ba_batch al) s"
  obtain mn mx n where m: "Min ?P = mn" "Max ?P = mx" "int (card ?P) = n" by blast
  obtain iv where iv: "(?P = {mn..mx}) = iv" by blast
  have ic: "iv \<longleftrightarrow> \<not> mx - mn + 1 > n" using interval_card [OF finite_batch_positions False] unfolding m iv .
  show ?thesis
    unfolding positions_ok_def continues_def Let_def p0 [symmetric] allocr_seq_pos_min_def allocr_seq_pos_max_def assms m iv ic
    using False by auto
qed (simp add: positions_ok_def continues_def assms Let_def)

lemma accepted_stages:
  fixes mem inp n_embd n_seq_max output_all al
  defines "st \<equiv> init_state mem inp n_embd n_seq_max output_all al" and "b \<equiv> filled mem output_all inp"
  assumes "inp_ok inp" "0 < n_seq_max" "n_seq_max \<le> LLAMA_MAX_SEQ" "batch_seqs_ok n_seq_max inp"
  shows "list_all (positions_ok mem st) [0..<n_seq_max] \<longleftrightarrow> (\<forall>s < n_seq_max. continues mem (ba_n_pos_per_embd al) b s)"
    "coupled_ok mem st \<longleftrightarrow> coupled_alike mem b" "order_ok st \<longleftrightarrow> in_order b"
proof -
  note f = init_state_fields [where mem = mem and inp = inp and n_embd = n_embd and n_seq_max = n_seq_max and output_all = output_all and al = al, folded st_def b_def]
  let ?n = "nat (b_n_tokens inp)"
  have bn: "b_n_tokens b = b_n_tokens inp" by (simp add: b_def)
  have seqs: "b_seqs b i \<noteq> []" "\<And>q. q \<in> set (b_seqs b i) \<Longrightarrow> 0 \<le> q \<and> q < int n_seq_max" if "i < ?n" for i
    using init_seqs [OF assms(3,6,4) that, where mem = mem and output_all = output_all, folded b_def] by blast+
  have mem_iff: "s \<in> nat ` set (b_seqs b i) \<longleftrightarrow> int s \<in> set (b_seqs b i)" if "i < ?n" for i s
    using seqs(2) [OF that] by (force simp: image_iff)
  have sp: "ba_seq_pos st s = batch_positions (ba_batch st) s" for s
    unfolding f(1,7) batch_positions_def bn using mem_iff by blast
  show "list_all (positions_ok mem st) [0..<n_seq_max] \<longleftrightarrow> (\<forall>s < n_seq_max. continues mem (ba_n_pos_per_embd al) b s)"
    using positions_ok_continues [OF sp] by (auto simp: f(1,4) list_all_iff)
  have "seqs_sorted st ?n \<longleftrightarrow> in_order b"
  proof -
    have "ba_seq_set st ! i \<inter> ba_seq_set st ! j = {} \<longleftrightarrow> set (b_seqs b i) \<inter> set (b_seqs b j) = {}" if "i < ?n" "j < ?n" for i j
    proof -
      have "nat ` set (b_seqs b i) \<inter> nat ` set (b_seqs b j) = nat ` (set (b_seqs b i) \<inter> set (b_seqs b j))"
        by (rule inj_on_image_Int [symmetric, of _ "{0..}"]) (use seqs(2) that in \<open>auto simp: inj_on_def\<close>)
      then show ?thesis using that by (simp add: f(5))
    qed
    then have "(ba_seq_set st ! i \<inter> ba_seq_set st ! j \<noteq> {}) = (set (b_seqs b i) \<inter> set (b_seqs b j) \<noteq> {})" if "i < j" "j < ?n" for i j
      using that less_trans by blast
    then show ?thesis unfolding seqs_sorted_def in_order_def f(1) bn by meson
  qed
  then show "order_ok st \<longleftrightarrow> in_order b"
    using init_state_wf(3) [OF assms(3,6,4,5), where mem = mem and n_embd = n_embd and output_all = output_all and al = al, folded st_def] by blast
  show "coupled_ok mem st \<longleftrightarrow> coupled_alike mem b"
  proof (cases mem)
    case (Some m)
    let ?eq = "\<lambda>s0 s1. mem_seq_pos_min m s0 = mem_seq_pos_min m s1 \<and> mem_seq_pos_max m s0 = mem_seq_pos_max m s1"
    have "coupled_ok mem st \<longleftrightarrow> (\<forall>s0 < n_seq_max. \<forall>s1 < n_seq_max. ba_seq_cpl st s0 s1 \<longrightarrow> ?eq s0 s1)"
      by (auto simp: Some coupled_ok_def f(3) list_all_iff)
    also have "\<dots> \<longleftrightarrow> (\<forall>i < ?n. \<forall>k. 0 < k \<longrightarrow> k < length (b_seqs b i) \<longrightarrow> ?eq (nat (b_seqs b i ! k)) (nat (b_seqs b i ! 0)))"
    proof -
      have lt: "nat (b_seqs b i ! k) < n_seq_max" if "i < ?n" "k < length (b_seqs b i)" for i k
        using seqs(2) [OF that(1) nth_mem [OF that(2)]] by linarith
      then have "nat (b_seqs b i ! k) < n_seq_max \<and> nat (b_seqs b i ! 0) < n_seq_max" if "i < ?n" "k < length (b_seqs b i)" for i k
        using that seqs(1) [OF that(1)] by (metis length_greater_0_conv)
      then show ?thesis unfolding f(9) by blast
    qed
    also have "\<dots> \<longleftrightarrow> coupled_alike mem b"
    proof -
      have "(\<forall>k. 0 < k \<longrightarrow> k < length (b_seqs b i) \<longrightarrow> ?eq (nat (b_seqs b i ! k)) (nat (b_seqs b i ! 0))) \<longleftrightarrow>
        (\<forall>q \<in> set (b_seqs b i). ?eq (nat q) (nat (hd (b_seqs b i))))" if "i < ?n" for i
        using seqs(1) [OF that] by (auto simp: all_set_conv_all_nth hd_conv_nth) (metis gr0I)+
      then show ?thesis unfolding coupled_alike_def Some bn by blast
    qed
    finally show ?thesis .
  qed (simp add: coupled_ok_def coupled_alike_def)
qed

lemma allocr_init_iff:
  assumes "inp_ok inp" "0 < n_seq_max"
  shows "allocr_init n_vocab mem inp n_embd n_seq_max output_all al = None \<longleftrightarrow> b_n_tokens inp \<le> 0"
    "(\<exists>al'. allocr_init n_vocab mem inp n_embd n_seq_max output_all al = Some (al', True)) \<longleftrightarrow>
       0 < b_n_tokens inp \<and> n_seq_max \<le> LLAMA_MAX_SEQ \<and>
       accepted n_vocab mem (filled mem output_all inp) (ba_n_pos_per_embd al) n_seq_max"
proof -
  have seq: "b_seq_id inp \<noteq> None \<longrightarrow> b_n_seq_id inp \<noteq> None" using assms(1) by (auto simp: inp_ok_def)
  then show "allocr_init n_vocab mem inp n_embd n_seq_max output_all al = None \<longleftrightarrow> b_n_tokens inp \<le> 0"
    unfolding allocr_init_eq Let_def by (auto split: if_splits)
  have tok: "batch_tokens_ok n_vocab inp \<longleftrightarrow>
      (\<forall>ts. b_token inp = Some ts \<longrightarrow> (\<forall>i < nat (b_n_tokens inp). 0 \<le> ts ! i \<and> ts ! i < n_vocab))"
    by (auto simp: batch_tokens_ok_def list_all_iff not_le not_less split: option.splits)
  have ids: "batch_seqs_ok n_seq_max inp \<longleftrightarrow>
      (\<forall>i < nat (b_n_tokens inp). \<forall>q \<in> set (b_seqs (filled mem output_all inp) i). 0 \<le> q \<and> q < int n_seq_max)"
  proof
    assume "batch_seqs_ok n_seq_max inp"
    then show "\<forall>i < nat (b_n_tokens inp). \<forall>q \<in> set (b_seqs (filled mem output_all inp) i). 0 \<le> q \<and> q < int n_seq_max"
      using init_seqs(2) [OF assms(1) _ assms(2)] by blast
  next
    assume R: "\<forall>i < nat (b_n_tokens inp). \<forall>q \<in> set (b_seqs (filled mem output_all inp) i). 0 \<le> q \<and> q < int n_seq_max"
    have "fill_seqs inp = inp" if "b_seq_id inp \<noteq> None" using that seq by (auto simp: fill_seqs_def)
    then show "batch_seqs_ok n_seq_max inp"
      using R by (auto simp: batch_seqs_ok_def list_all_iff not_le not_less split: option.splits)
  qed
  note st = accepted_stages [OF assms, where mem = mem and n_embd = n_embd and output_all = output_all and al = al]
  have sq: "(b_seq_id inp \<noteq> None \<and> b_n_seq_id inp = None) = False" using seq by blast
  let ?st = "init_state mem inp n_embd n_seq_max output_all al"
  let ?late = "list_all (positions_ok mem ?st) [0..<n_seq_max] \<and> coupled_ok mem ?st \<and> order_ok ?st"
  let ?acc = "accepted n_vocab mem (filled mem output_all inp) (ba_n_pos_per_embd al) n_seq_max"
  let ?early = "n_seq_max \<le> LLAMA_MAX_SEQ \<and> batch_tokens_ok n_vocab inp \<and> batch_seqs_ok n_seq_max inp"
  have acc: "?acc \<longleftrightarrow> batch_tokens_ok n_vocab inp \<and> batch_seqs_ok n_seq_max inp \<and> ?late"
    if "n_seq_max \<le> LLAMA_MAX_SEQ"
    using st [OF that] unfolding accepted_def tok ids filled_simps(1,2) by blast
  have "(\<exists>al'. allocr_init n_vocab mem inp n_embd n_seq_max output_all al = Some (al', True)) \<longleftrightarrow>
      0 < b_n_tokens inp \<and> ?early \<and> ?late"
  proof (cases "0 < b_n_tokens inp \<and> ?early")
    case True
    then have "allocr_init n_vocab mem inp n_embd n_seq_max output_all al =
        (if ?late then Some (split_reset ?st, True) else Some (?st, False))"
      unfolding allocr_init_eq Let_def sq if_False by (simp only: not_less [symmetric]) simp
    then show ?thesis using True by simp
  next
    case False
    then show ?thesis unfolding allocr_init_eq Let_def sq if_False by (simp only: not_less [symmetric] split: if_split) blast
  qed
  then show "(\<exists>al'. allocr_init n_vocab mem inp n_embd n_seq_max output_all al = Some (al', True)) \<longleftrightarrow>
       0 < b_n_tokens inp \<and> n_seq_max \<le> LLAMA_MAX_SEQ \<and> ?acc"
    using acc by blast
qed

text \<open>C23. \<open>init\<close> aborts on an empty batch only; it accepts exactly the batches with valid tokens and
  sequences whose positions, given or generated, continue what the memory holds, where the
  sequences that share a token are at the same point, and no sequence goes back. The sets of
  sequences of successive tokens play no part.\<close>

theorem allocr_init_accepts:
  assumes "inp_ok inp" "0 < n_seq_max"
  shows "(allocr_init n_vocab mem inp n_embd n_seq_max output_all al = None \<longleftrightarrow> b_n_tokens inp \<le> 0) \<and>
    ((\<exists>al'. allocr_init n_vocab mem inp n_embd n_seq_max output_all al = Some (al', True)) \<longleftrightarrow>
       0 < b_n_tokens inp \<and> n_seq_max \<le> LLAMA_MAX_SEQ \<and>
       accepted n_vocab mem (filled mem output_all inp) (ba_n_pos_per_embd al) n_seq_max)"
  using allocr_init_iff [OF assms] by blast

subsection \<open>A batch from \<open>llama_batch_get_one\<close>\<close>

lemma gen_pos_single:
  assumes "\<And>i. i < n \<Longrightarrow> b_seqs b i = [0] \<and> the (b_seq_id b) ! i ! 0 = 0" "p0 0 = p"
  shows "snd (fold (gen_pos b) [0..<n] (p0, [])) = map (\<lambda>i. p + int i) [0..<n] \<and>
    fst (fold (gen_pos b) [0..<n] (p0, [])) 0 = p + int n"
  using assms
proof (induction n)
  case (Suc n)
  have IH: "snd (fold (gen_pos b) [0..<n] (p0, [])) = map (\<lambda>i. p + int i) [0..<n] \<and>
      fst (fold (gen_pos b) [0..<n] (p0, [])) 0 = p + int n"
    by (rule Suc.IH) (use Suc.prems in auto)
  obtain q ps where f: "fold (gen_pos b) [0..<n] (p0, []) = (q, ps)" by fastforce
  have "gen_pos b n (q, ps) = (q(0 := q 0 + 1), ps @ [q 0])" using Suc.prems(1) [of n] by (simp add: gen_pos_def Let_def)
  then show ?case using IH f by simp
qed simp

lemma get_one_filled:
  fixes mem tokens n output_all
  defines "b \<equiv> filled mem output_all (llama_batch_get_one tokens (int n))"
  assumes "0 < n"
  shows "b_n_tokens b = int n" "i < n \<Longrightarrow> b_seqs b i = [0]"
    "b_pos b = Some (map (\<lambda>i. init_pos mem 0 + 1 + int i) [0..<n])"
    "b_logits b = Some (map (\<lambda>i. if output_all \<or> Suc i = n then 1 else 0) [0..<n])"
proof -
  let ?inp = "llama_batch_get_one tokens (int n)"
  have fs: "b_n_seq_id (fill_seqs ?inp) = Some (replicate n 1)" "b_seq_id (fill_seqs ?inp) = Some (replicate n [0])"
    "b_pos (fill_seqs ?inp) = None" "b_n_tokens (fill_seqs ?inp) = int n" "b_logits (fill_seqs ?inp) = None"
    by (simp_all add: fill_seqs_def llama_batch_get_one_def Let_def)
  have seqs: "b_seqs (fill_seqs ?inp) i = [0]" if "i < n" for i using that by (simp add: b_seqs_def fs)
  show "b_n_tokens b = int n" by (simp add: b_def llama_batch_get_one_def)
  show "i < n \<Longrightarrow> b_seqs b i = [0]" using seqs by (simp add: b_def)
  have "next_pos mem 0 = init_pos mem 0 + 1" by (simp add: next_pos_def init_pos_def split: option.split)
  then have "snd (fold (gen_pos (fill_seqs ?inp)) [0..<n] (next_pos mem, [])) = map (\<lambda>i. init_pos mem 0 + 1 + int i) [0..<n]"
    using gen_pos_single [of n "fill_seqs ?inp" "next_pos mem"] seqs fs(2) by simp
  then show "b_pos b = Some (map (\<lambda>i. init_pos mem 0 + 1 + int i) [0..<n])"
    by (simp add: b_def fill_pos_def fs)
  have "(replicate n (0 :: int))[n - Suc 0 := 1] = map (\<lambda>i. if Suc i = n then 1 else 0) [0..<n]"
    using assms(2) by (auto simp: list_eq_iff_nth_eq nth_list_update)
  moreover have "map (\<lambda>i. 1 :: int) [0..<n] = replicate n 1" by (simp add: map_replicate_const)
  ultimately show "b_logits b = Some (map (\<lambda>i. if output_all \<or> Suc i = n then 1 else 0) [0..<n])"
    by (simp add: b_def filled_def fill_logits_def fill_pos_def fs Let_def)
qed

lemma get_one_init:
  assumes "0 < n" "n \<le> length tokens" "\<forall>t \<in> set tokens. 0 \<le> t \<and> t < n_vocab" "0 < n_seq_max" "n_seq_max \<le> LLAMA_MAX_SEQ"
    and "-1 \<le> init_pos mem 0"
  shows "\<exists>al'. allocr_init n_vocab mem (llama_batch_get_one tokens (int n)) n_embd n_seq_max output_all al = Some (al', True)"
proof -
  let ?inp = "llama_batch_get_one tokens (int n)" and ?b = "filled mem output_all (llama_batch_get_one tokens (int n))"
  note f = get_one_filled [OF assms(1), where mem = mem and output_all = output_all and tokens = tokens]
  have ok: "inp_ok ?inp" by (simp add: inp_ok_def llama_batch_get_one_def)
  let ?p = "init_pos mem 0 + 1"
  have sp: "batch_positions ?b s = (if s = 0 then {?p..?p + int n - 1} else {})" for s
  proof -
    have "{?p + int i |i. i < n} = {?p..?p + int n - 1}"
    proof (intro set_eqI iffI)
      fix x assume "x \<in> {?p..?p + int n - 1}"
      then have "x = ?p + int (nat (x - ?p)) \<and> nat (x - ?p) < n" by auto
      then show "x \<in> {?p + int i |i. i < n}" by blast
    qed auto
    moreover have "batch_positions ?b s = (if s = 0 then {?p + int i |i. i < n} else {})"
    proof -
      have "i < nat (b_n_tokens ?b) \<and> int s \<in> set (b_seqs ?b i) \<longleftrightarrow> i < n \<and> s = 0" for i using f(1,2) by auto
      then have "batch_positions ?b s = {the (b_pos ?b) ! i |i. i < n \<and> s = 0}" unfolding batch_positions_def by simp
      also have "\<dots> = {?p + int i |i. i < n \<and> s = 0}" unfolding f(3) by force
      finally show ?thesis by simp
    qed
    ultimately show ?thesis by simp
  qed
  have "continues mem (ba_n_pos_per_embd al) ?b s" for s
  proof (cases "s = 0")
    case True
    have "Min {?p..?p + int n - 1} = ?p" by (rule Min_eqI) (use assms(1) in auto)
    moreover have "Max {?p..?p + int n - 1} = ?p + int n - 1" by (rule Max_eqI) (use assms(1) in auto)
    moreover have "b_token ?b \<noteq> None" by (simp add: llama_batch_get_one_def)
    ultimately show ?thesis using True by (simp add: continues_def sp Let_def del: filled_simps)
  qed (simp add: continues_def sp Let_def)
  moreover have "coupled_alike mem ?b" using f by (auto simp: coupled_alike_def)
  moreover have "in_order ?b" using f assms(6) by (auto simp: in_order_def)
  moreover have "b_token ?b = Some tokens" by (simp add: llama_batch_get_one_def)
  ultimately have "accepted n_vocab mem ?b (ba_n_pos_per_embd al) n_seq_max"
    using f(1,2) assms(2,3,4) by (auto simp: accepted_def simp del: filled_simps b_seqs_filled)
  moreover have "b_n_tokens ?inp = int n" by (simp add: llama_batch_get_one_def)
  ultimately show ?thesis using allocr_init_iff(2) [OF ok assms(4)] assms(1,5) by auto
qed

text \<open>A batch from \<open>llama_batch_get_one\<close> with valid tokens is always accepted: it continues
  sequence 0 after the last position of the memory, and asks for the logits of the last token.\<close>

theorem get_one_accepted:
  assumes "0 < n" "n \<le> length tokens" "\<forall>t \<in> set tokens. 0 \<le> t \<and> t < n_vocab" "0 < n_seq_max" "n_seq_max \<le> LLAMA_MAX_SEQ"
    and "-1 \<le> init_pos mem 0"
  shows "\<exists>al'. allocr_init n_vocab mem (llama_batch_get_one tokens (int n)) n_embd n_seq_max False al = Some (al', True) \<and>
    (\<forall>i < n. b_seqs (ba_batch al') i = [0] \<and> the (b_pos (ba_batch al')) ! i = init_pos mem 0 + 1 + int i \<and>
       (the (b_logits (ba_batch al')) ! i \<noteq> 0 \<longleftrightarrow> Suc i = n))"
proof -
  obtain al' where i: "allocr_init n_vocab mem (llama_batch_get_one tokens (int n)) n_embd n_seq_max False al = Some (al', True)"
    using get_one_init [OF assms, of n_embd False al] by blast
  have ok: "inp_ok (llama_batch_get_one tokens (int n))" by (simp add: inp_ok_def llama_batch_get_one_def)
  have "ba_batch al' = filled mem False (llama_batch_get_one tokens (int n))"
    using allocr_init_ready(1) [OF i ok assms(4)] unfolding ready_def by blast
  then show ?thesis using i get_one_filled [OF assms(1), where mem = mem and output_all = False and tokens = tokens] by auto
qed

definition demo_batch :: llama_batch where
  "demo_batch = llama_batch_get_one [3, 4] (int 2)"

theorem get_one_accepted_witness:
  "\<exists>al'. allocr_init 10 None demo_batch 8 1 False (allocr_new 1) = Some (al', True) \<and> the (b_pos (ba_batch al')) ! 1 = 1"
  using get_one_accepted [of 2 "[3, 4]" 10 1 None 8 "allocr_new 1"]
  by (auto simp: demo_batch_def LLAMA_MAX_SEQ_def init_pos_def)

theorem allocr_init_accepts_witness:
  "((\<exists>al'. allocr_init 10 None demo_batch 8 1 False (allocr_new 1) = Some (al', True)) \<longleftrightarrow>
     accepted 10 None (filled None False demo_batch) 1 1) \<and>
   allocr_init 10 None batch_empty 8 1 False (allocr_new 1) = None"
  using allocr_init_accepts [of demo_batch 1 10 None 8 False "allocr_new 1"]
    allocr_init_accepts [of batch_empty 1 10 None 8 False "allocr_new 1"]
  by (auto simp: demo_batch_def inp_ok_def llama_batch_get_one_def allocr_new_def LLAMA_MAX_SEQ_def batch_empty_def)

end
