(* ===== verification/KvContext.thy ===== *)
theory KvContext
  imports KvSlot
begin

text \<open>
  What a prepared batch is used for: \<open>llama_kv_cache_context\<close> of \<open>src/llama-kv-cache.cpp\<close>, the
  object \<open>init_batch\<close> returns, which \<open>llama_context::decode\<close> steps through by \<open>apply\<close> and \<open>next\<close>.
  The lemmas count the cells that the micro-batches need in every stream: \<open>prepare\<close> finds slots
  exactly when every stream has enough empty cells, and the slots it returns can then be filled
  one after the other.
\<close>

subsection \<open>Stepping through a prepared batch\<close>

record kv_context =
  ctx_i_cur :: nat
  ctx_sinfos :: "slot_info list"
  ctx_ubatches :: "llama_ubatch list"
  ctx_n_kv :: nat

definition kv_context_new :: "slot_info list \<Rightarrow> llama_ubatch list \<Rightarrow> kv_context" where
  "kv_context_new sinfos ubatches =
     \<lparr>ctx_i_cur = 0, ctx_sinfos = sinfos, ctx_ubatches = ubatches, ctx_n_kv = 0\<rparr>"

definition ctx_next :: "kv_context \<Rightarrow> kv_context \<times> bool" where
  "ctx_next ctx =
     (let ctx = ctx\<lparr>ctx_i_cur := ctx_i_cur ctx + 1\<rparr> in
      if ctx_i_cur ctx \<ge> length (ctx_ubatches ctx) then (ctx, False) else (ctx, True))"

definition ctx_apply :: "(kv_cache \<Rightarrow> kv_cache option) \<Rightarrow> kv_context \<Rightarrow> kv_cache \<Rightarrow> (kv_context \<times> kv_cache) option" where
  \<comment> \<open>the first argument is \<open>kv->update\<close>, which runs graphs; a slot or micro-batch that is not there is \<open>None\<close>\<close>
  "ctx_apply update ctx kc =
     (if ctx_ubatches ctx = [] then map_option (Pair ctx) (update kc)
      else if ctx_i_cur ctx \<ge> length (ctx_ubatches ctx) \<or> ctx_i_cur ctx \<ge> length (ctx_sinfos ctx) then None
      else case kvc_apply_ubatch (ctx_sinfos ctx ! ctx_i_cur ctx) (ctx_ubatches ctx ! ctx_i_cur ctx) kc of
             None \<Rightarrow> None
           | Some kc \<Rightarrow> Some (ctx\<lparr>ctx_n_kv := kvc_get_n_kv kc (si_strm (ctx_sinfos ctx ! ctx_i_cur ctx))\<rparr>, kc))"

function ctx_run :: "(kv_cache \<Rightarrow> kv_cache option) \<Rightarrow> kv_context \<Rightarrow> kv_cache \<Rightarrow> (kv_context \<times> kv_cache) option" where
  \<comment> \<open>\<open>do { mctx->apply(); } while (mctx->next());\<close>\<close>
  "ctx_run update ctx kc =
     (case ctx_apply update ctx kc of None \<Rightarrow> None
      | Some (ctx', kc) \<Rightarrow>
          (case ctx_next ctx' of (ctx'', again) \<Rightarrow> if again then ctx_run update ctx'' kc else Some (ctx'', kc)))"
  by pat_completeness auto

lemma ctx_apply_fields:
  "ctx_apply update ctx kc = Some (ctx', kc') \<Longrightarrow> ctx_i_cur ctx' = ctx_i_cur ctx \<and> ctx_ubatches ctx' = ctx_ubatches ctx"
  by (auto simp: ctx_apply_def split: if_splits option.splits)

termination ctx_run
  by (relation "measure (\<lambda>(_, ctx, _). length (ctx_ubatches ctx) - ctx_i_cur ctx)")
    (auto simp: ctx_next_def Let_def split: if_splits dest: ctx_apply_fields [OF sym] ctx_apply_fields)

declare ctx_run.simps [simp del]

fun place_slots :: "(slot_info \<times> llama_ubatch) list \<Rightarrow> kv_cache \<Rightarrow> kv_cache option" where
  "place_slots [] kc = Some kc"
| "place_slots ((si, ub) # ps) kc = Option.bind (kvc_apply_ubatch si ub kc) (place_slots ps)"

lemma ctx_run_from:
  assumes "length (ctx_sinfos ctx) = length (ctx_ubatches ctx)" "ctx_i_cur ctx < length (ctx_ubatches ctx)"
    and "place_slots (drop (ctx_i_cur ctx) (zip (ctx_sinfos ctx) (ctx_ubatches ctx))) kc = Some kf"
  shows "\<exists>ctx'. ctx_run update ctx kc = Some (ctx', kf) \<and> ctx_i_cur ctx' = length (ctx_ubatches ctx)"
  using assms
proof (induction update ctx kc rule: ctx_run.induct)
  case (1 update ctx kc)
  let ?i = "ctx_i_cur ctx" and ?z = "zip (ctx_sinfos ctx) (ctx_ubatches ctx)"
  let ?si = "ctx_sinfos ctx ! ?i" and ?ub = "ctx_ubatches ctx ! ?i"
  have i: "?i < length ?z" using 1(2,3) by simp
  have "drop ?i ?z = (?si, ?ub) # drop (Suc ?i) ?z" using Cons_nth_drop_Suc [OF i] 1(2,3) by simp
  then obtain kc1 where kc1: "kvc_apply_ubatch ?si ?ub kc = Some kc1" "place_slots (drop (Suc ?i) ?z) kc1 = Some kf"
    using 1(4) by (auto split: Option.bind_splits)
  let ?c1 = "ctx\<lparr>ctx_n_kv := kvc_get_n_kv kc1 (si_strm ?si)\<rparr>" and ?c2 = "ctx\<lparr>ctx_n_kv := kvc_get_n_kv kc1 (si_strm ?si), ctx_i_cur := Suc ?i\<rparr>"
  have ap: "ctx_apply update ctx kc = Some (?c1, kc1)" using 1(2,3) kc1(1) by (auto simp: ctx_apply_def)
  have nx: "ctx_next ?c1 = (?c2, Suc ?i < length (ctx_ubatches ctx))" by (simp add: ctx_next_def Let_def)
  show ?case
  proof (cases "Suc ?i < length (ctx_ubatches ctx)")
    case True
    then have "\<exists>ctx'. ctx_run update ?c2 kc1 = Some (ctx', kf) \<and> ctx_i_cur ctx' = length (ctx_ubatches ?c2)"
      using 1(1) [OF ap refl nx [symmetric] True] 1(2) kc1(2) by simp
    then show ?thesis using True by (subst ctx_run.simps) (simp add: ap nx)
  next
    case False
    then have "drop (Suc ?i) ?z = []" by simp
    then have "kf = kc1" using kc1(2) by simp
    then show ?thesis using False 1(3) by (subst ctx_run.simps) (simp add: ap nx)
  qed
qed

subsection \<open>Counting empty cells\<close>

definition free_cells :: "kv_cache \<Rightarrow> nat \<Rightarrow> nat set" where
  "free_cells kc t = {i. i < kvc_get_size kc \<and> kvc_view kc t i = None}"

definition ub_need :: "kv_cache \<Rightarrow> llama_ubatch \<Rightarrow> nat \<Rightarrow> nat" where
  \<comment> \<open>the tokens of the micro-batch that go to stream \<open>t\<close>\<close>
  "ub_need kc ub t = (if \<exists>s < ub_n_slots kc ub. ub_stream kc ub s = t then ub_per_slot kc ub else 0)"

lemma finite_free_cells [simp]: "finite (free_cells kc t)"
  by (simp add: free_cells_def)

lemma ub_need_frame: "kvc_frame kc kc' \<Longrightarrow> ub_need kc' ub t = ub_need kc ub t"
proof -
  assume f: "kvc_frame kc kc'"
  have "ub_n_slots kc' ub = ub_n_slots kc ub" "ub_per_slot kc' ub = ub_per_slot kc ub" "ub_stream kc' ub = ub_stream kc ub"
    by (simp_all add: fun_eq_iff ub_per_slot_def ub_n_slots_def ub_stream_def kvc_frameD [OF f])
  then show ?thesis by (simp only: ub_need_def)
qed

lemma no_slot_no_room:
  assumes "kvc_wf kc" "ub_ok kc ub" "kvc_find_slot kc ub False = Some slot_empty"
  shows "\<exists>s < ub_n_slots kc ub. card {i. i < kvc_get_size kc \<and>
     cell_can_use (kc_n_swa kc) (kc_swa_type kc) (kc_cells kc ! ub_stream kc ub s) i} < ub_per_slot kc ub"
proof -
  obtain s where s: "s < ub_n_slots kc ub" "seq_choice kc ub False s = None"
    using kvc_find_slot_eq [OF assms(1,2), of False] assms(3) by (metis option.inject)
  note t = ub_stream_lt(1) [OF assms(1,2) s(1)]
  show ?thesis
    using slot_choice_none [OF s(2) [unfolded seq_choice_def]] kvc_wfD(8,9) [OF assms(1) t] s(1) by auto
qed

lemma no_slot_no_cells:
  assumes "kvc_wf kc" "kc_swa_type kc = SWA_TYPE_NONE" "ub_ok kc ub" "kvc_find_slot kc ub False = Some slot_empty"
  shows "\<exists>t < kc_n_stream kc. card (free_cells kc t) < ub_need kc ub t"
proof -
  obtain s where s: "s < ub_n_slots kc ub" "card {i. i < kvc_get_size kc \<and>
     cell_can_use (kc_n_swa kc) (kc_swa_type kc) (kc_cells kc ! ub_stream kc ub s) i} < ub_per_slot kc ub"
    using no_slot_no_room [OF assms(1,3,4)] by blast
  have "{i. i < kvc_get_size kc \<and> cell_can_use (kc_n_swa kc) (kc_swa_type kc) (kc_cells kc ! ub_stream kc ub s) i} =
      free_cells kc (ub_stream kc ub s)"
    using assms(2) by (auto simp: free_cells_def cell_can_use_def kvc_view_def cells_is_empty_view split: if_splits)
  then show ?thesis using s ub_stream_lt(1) [OF assms(1,3) s(1)] by (auto simp: ub_need_def)
qed

lemma apply_free_slot:
  \<comment> \<open>a slot of a cache without a window: nothing is overwritten\<close>
  assumes "kvc_wf kc" "\<not> kc_other kc" "kc_swa_type kc = SWA_TYPE_NONE" "ub_ok kc ub" "slot_ok kc ub si"
  obtains kc1 where "kvc_apply_ubatch si ub kc = Some kc1" "kvc_wf kc1" "kvc_frame kc kc1" "kc_swa_type kc1 = SWA_TYPE_NONE"
    "\<And>t. t < kc_n_stream kc \<Longrightarrow> free_cells kc1 t = free_cells kc t - (\<Union>s \<in> {s. s < ub_n_slots kc ub \<and> ub_stream kc ub s = t}. set (si_idxs si ! s))"
    "\<And>t. t < kc_n_stream kc \<Longrightarrow> card (free_cells kc1 t) + ub_need kc ub t = card (free_cells kc t)"
    "\<And>t j k. t < kc_n_stream kc \<Longrightarrow> kvc_view kc t j = Some k \<Longrightarrow> kvc_view kc1 t j = Some k"
    "\<And>q. q < length (kc_seq_to_stream kc) \<Longrightarrow> kvc_positions kc1 q = kvc_positions kc q \<union> ub_new ub q"
proof -
  let ?N = "ub_n_slots kc ub" and ?n = "ub_per_slot kc ub"
  note free = slot_free_no_swa [OF assms(5,3)]
  obtain kc0 where k: "kvc_apply_ubatch si ub kc = Some (move_heads si ?N kc0)"
    "placed_upto kc ub si ?N kc0" "kvc_wf (move_heads si ?N kc0)"
    by (rule apply_ubatch_free [OF assms(1,2,4,5) free]) iprover
  let ?kc1 = "move_heads si ?N kc0"
  have P: "kvc_wf kc0" "kvc_frame kc kc0" using k(2) by (auto simp: placed_upto_def)
  have last: "\<forall>s < ?N. si_strm si ! s < kc_n_stream kc0 \<and> last (si_idxs si ! s) < kvc_get_size kc0"
  proof (intro allI impI)
    fix s assume s: "s < ?N"
    have "si_idxs si ! s \<noteq> []" using slot_okD(2) [OF assms(5) s] ub_slots_mult(2) [OF assms(4)] by auto
    then show "si_strm si ! s < kc_n_stream kc0 \<and> last (si_idxs si ! s) < kvc_get_size kc0"
      using slot_okD(1,4) [OF assms(5) s] ub_stream_lt(1) [OF assms(1,4) s] kvc_frameD [OF P(2)] last_in_set by simp
  qed
  note h = move_heads_effect [OF P(1) last]
  have fr: "kvc_frame kc ?kc1" by (rule kvc_frame_trans [OF P(2) h(2)])
  let ?slot = "\<lambda>t. \<Union>s \<in> {s. s < ?N \<and> ub_stream kc ub s = t}. set (si_idxs si ! s)"
  have outside: "kvc_view kc0 t j = kvc_view kc t j" if t: "t < kc_n_stream kc" and j: "j \<notin> ?slot t" for t j
  proof (cases "\<exists>s < ?N. ub_stream kc ub s = t")
    case True
    then obtain s where s: "s < ?N" "ub_stream kc ub s = t" by blast
    have "\<forall>s < ?N. \<forall>j. j \<notin> set (si_idxs si ! s) \<longrightarrow> kvc_view kc0 (si_strm si ! s) j = kvc_view kc (si_strm si ! s) j"
      using k(2) unfolding placed_upto_def by blast
    then have "kvc_view kc0 (si_strm si ! s) j = kvc_view kc (si_strm si ! s) j" using s j by blast
    then show ?thesis using slot_okD(1) [OF assms(5) s(1)] s(2) by simp
  next
    case False
    then have "t \<notin> (!) (si_strm si) ` {..<?N}" using slot_okD(1) [OF assms(5)] by auto
    then show ?thesis using k(2) by (simp add: placed_upto_def kvc_view_def)
  qed
  have inside: "kvc_view kc0 t j \<noteq> None" "kvc_view kc t j = None" "j < kvc_get_size kc" if j: "j \<in> ?slot t" for t j
  proof -
    obtain s where s: "s < ?N" "ub_stream kc ub s = t" "j \<in> set (si_idxs si ! s)" using j by blast
    obtain ii where ii: "ii < ?n" "j = si_idxs si ! s ! ii"
      using s(3) slot_okD(2) [OF assms(5) s(1)] by (auto simp: in_set_conv_nth)
    have "\<forall>s < ?N. \<forall>ii < ?n. placed kc ub (s * ?n + ii) (kvc_view kc0 (si_strm si ! s) (si_idxs si ! s ! ii))"
      using k(2) unfolding placed_upto_def by blast
    then have "placed kc ub (s * ?n + ii) (kvc_view kc0 (si_strm si ! s) (si_idxs si ! s ! ii))" using s(1) ii(1) by blast
    then show "kvc_view kc0 t j \<noteq> None" using slot_okD(1) [OF assms(5) s(1)] s(2) ii(2) by (auto simp: placed_def)
    show "kvc_view kc t j = None" using free s by (auto simp: slot_free_def)
    show "j < kvc_get_size kc" using slot_okD(4) [OF assms(5) s(1,3)] by blast
  qed
  have fc: "free_cells ?kc1 t = free_cells kc t - ?slot t" if t: "t < kc_n_stream kc" for t
  proof (rule set_eqI)
    fix i
    show "i \<in> free_cells ?kc1 t \<longleftrightarrow> i \<in> free_cells kc t - ?slot t"
      using outside [OF t, of i] inside [of i t] kvc_frameD(4) [OF fr]
      by (cases "i \<in> ?slot t") (simp_all only: free_cells_def h(3) mem_Collect_eq Diff_iff simp_thms)
  qed
  have slot: "?slot t \<subseteq> free_cells kc t" for t using inside(2,3) [of _ t] by (auto simp: free_cells_def)
  have card: "card (?slot t) = ub_need kc ub t" for t
  proof (cases "\<exists>s < ?N. ub_stream kc ub s = t")
    case True
    then obtain s where s: "s < ?N" "ub_stream kc ub s = t" by blast
    then have "{s. s < ?N \<and> ub_stream kc ub s = t} = {s}" using ub_stream_inj [OF assms(4)] by auto
    then have "card (?slot t) = ?n" using slot_okD(2,3) [OF assms(5) s(1)] by (simp add: distinct_card)
    then show ?thesis using True by (simp add: ub_need_def)
  next
    case False
    then have "?slot t = {}" by blast
    then show ?thesis using False by (simp only: ub_need_def if_False card.empty)
  qed
  show thesis
  proof (rule that [OF k(1,3) fr _ fc])
    show "kc_swa_type ?kc1 = SWA_TYPE_NONE" using k(2) assms(3) by (auto simp: placed_upto_def)
    show "card (free_cells ?kc1 t) + ub_need kc ub t = card (free_cells kc t)" if t: "t < kc_n_stream kc" for t
    proof -
      have "card (free_cells kc t - ?slot t) = card (free_cells kc t) - card (?slot t)"
        by (rule card_Diff_subset [OF finite_subset [OF slot finite_free_cells] slot])
      then show ?thesis using card_mono [OF finite_free_cells slot, of t] card [of t] unfolding fc [OF t] by linarith
    qed
    show "kvc_view ?kc1 t j = Some a" if "t < kc_n_stream kc" "kvc_view kc t j = Some a" for t j a
      using outside [OF that(1)] inside(2) [of j t] that(2) unfolding h(3) by (cases "j \<in> ?slot t") auto
    show "kvc_positions ?kc1 q = kvc_positions kc q \<union> ub_new ub q" if q: "q < length (kc_seq_to_stream kc)" for q
    proof -
      have "p \<in> kvc_positions ?kc1 q \<longleftrightarrow> p \<in> kvc_positions kc q \<union> ub_new ub q" for p
      proof -
        have same: "p \<in> kvc_positions ?kc1 q \<longleftrightarrow> p \<in> kvc_positions kc0 q"
          using positions_after [OF k(3) fr q] positions_after [OF P q] unfolding h(3) by simp
        have "j \<notin> set (si_idxs si ! s)" if "at_pos q p (kvc_view kc (stream_of kc q) j)" "s < ?N" "ub_stream kc ub s = stream_of kc q" for s j
        proof
          assume "j \<in> set (si_idxs si ! s)"
          then have "j \<in> ?slot (stream_of kc q)" using that by blast
          then show False using inside(2) that(1) by (simp add: at_pos_def)
        qed
        then show ?thesis
          unfolding same placed_positions [OF assms(1,4,5) k(2) q] Un_iff positions_at [OF assms(1) q] by auto
      qed
      then show ?thesis by (rule set_eqI)
    qed
  qed simp_all
qed

lemma slot_ok_free:
  assumes "kc_swa_type kc = SWA_TYPE_NONE" "kc_swa_type kc' = SWA_TYPE_NONE" "kvc_frame kc kc'" "kvc_wf kc" "ub_ok kc ub"
    and "\<And>t. t < kc_n_stream kc \<Longrightarrow> free_cells kc' t = free_cells kc t" "slot_ok kc ub si"
  shows "slot_ok kc' ub si"
proof -
  have f: "ub_n_slots kc' ub = ub_n_slots kc ub" "ub_per_slot kc' ub = ub_per_slot kc ub" "ub_stream kc' ub = ub_stream kc ub"
    by (simp_all add: fun_eq_iff ub_per_slot_def ub_n_slots_def ub_stream_def kvc_frameD [OF assms(3)])
  have use: "i < kvc_get_size k \<and> cell_can_use (kc_n_swa k) (kc_swa_type k) (kc_cells k ! t) i \<longleftrightarrow> i \<in> free_cells k t"
    if "kc_swa_type k = SWA_TYPE_NONE" for k t i
    using that by (auto simp: free_cells_def cell_can_use_def kvc_view_def cells_is_empty_view split: if_splits)
  show ?thesis
    using assms(7) assms(6) [OF ub_stream_lt(1) [OF assms(4,5)]]
    unfolding slot_ok_def f use [OF assms(1)] use [OF assms(2)] by simp
qed

subsection \<open>What prepare promises\<close>

definition slots_work :: "kv_cache \<Rightarrow> llama_ubatch list \<Rightarrow> slot_info list \<Rightarrow> bool" where
  \<comment> \<open>every cache with the same empty cells takes the micro-batches, one after the other, and keeps what it had\<close>
  "slots_work kc ubs sinfos \<longleftrightarrow> length sinfos = length ubs \<and>
     (\<forall>kb. kvc_wf kb \<longrightarrow> kvc_frame kc kb \<longrightarrow> kc_swa_type kb = SWA_TYPE_NONE \<longrightarrow>
        (\<forall>t < kc_n_stream kc. free_cells kb t = free_cells kc t) \<longrightarrow>
        (\<exists>kf. place_slots (zip sinfos ubs) kb = Some kf \<and> kvc_wf kf \<and> kvc_frame kb kf \<and>
           (\<forall>t < kc_n_stream kc. \<forall>j k. kvc_view kb t j = Some k \<longrightarrow> kvc_view kf t j = Some k) \<and>
           (\<forall>q < length (kc_seq_to_stream kc). kvc_positions kf q = kvc_positions kb q \<union> (\<Union>ub \<in> set ubs. ub_new ub q))))"

lemma slots_work_Cons:
  assumes "kvc_wf kc" "\<not> kc_other kc" "kc_swa_type kc = SWA_TYPE_NONE" "ub_ok kc ub" "slot_ok kc ub si"
    and "kvc_apply_ubatch si ub kc = Some kc1" "slots_work kc1 ubs sinfos"
  shows "slots_work kc (ub # ubs) (si # sinfos)"
proof -
  obtain kc1' where k: "kvc_apply_ubatch si ub kc = Some kc1'" "kvc_frame kc kc1'"
    "\<And>t. t < kc_n_stream kc \<Longrightarrow> free_cells kc1' t = free_cells kc t - (\<Union>s \<in> {s. s < ub_n_slots kc ub \<and> ub_stream kc ub s = t}. set (si_idxs si ! s))"
    by (rule apply_free_slot [OF assms(1-5)]) iprover
  have eq: "kc1' = kc1" using k(1) assms(6) by simp
  note k = k [unfolded eq] and f1 = kvc_frameD [OF k(2) [unfolded eq]]
  show ?thesis
    unfolding slots_work_def
  proof (intro conjI allI impI)
    show "length (si # sinfos) = length (ub # ubs)" using assms(7) by (simp add: slots_work_def)
    fix kb assume b: "kvc_wf kb" "kvc_frame kc kb" "kc_swa_type kb = SWA_TYPE_NONE" "\<forall>t < kc_n_stream kc. free_cells kb t = free_cells kc t"
    note f = kvc_frameD [OF b(2)]
    have s: "slot_ok kb ub si" using slot_ok_free [OF assms(3) b(3,2) assms(1,4) _ assms(5)] b(4) by blast
    have o: "\<not> kc_other kb" "ub_ok kb ub" using f(3) assms(2,4) ub_ok_frame [OF b(2)] by simp_all
    obtain kb1 where kb1: "kvc_apply_ubatch si ub kb = Some kb1" "kvc_wf kb1" "kvc_frame kb kb1" "kc_swa_type kb1 = SWA_TYPE_NONE"
      "\<And>t. t < kc_n_stream kb \<Longrightarrow> free_cells kb1 t = free_cells kb t - (\<Union>s \<in> {s. s < ub_n_slots kb ub \<and> ub_stream kb ub s = t}. set (si_idxs si ! s))"
      "\<And>t j k. t < kc_n_stream kb \<Longrightarrow> kvc_view kb t j = Some k \<Longrightarrow> kvc_view kb1 t j = Some k"
      "\<And>q. q < length (kc_seq_to_stream kb) \<Longrightarrow> kvc_positions kb1 q = kvc_positions kb q \<union> ub_new ub q"
      by (rule apply_free_slot [OF b(1) o(1) b(3) o(2) s]) iprover
    have fr: "kvc_frame kc1 kb1"
      using k(2) b(2) kb1(3) by (simp add: kvc_frame_def)
    have "ub_n_slots kb ub = ub_n_slots kc ub" "ub_stream kb ub = ub_stream kc ub"
      by (simp_all add: fun_eq_iff ub_n_slots_def ub_stream_def f)
    then have free: "\<forall>t < kc_n_stream kc1. free_cells kb1 t = free_cells kc1 t"
      using k(3) kb1(5) b(4) f(1) f1(1) by simp
    obtain kf where kf: "place_slots (zip sinfos ubs) kb1 = Some kf" "kvc_wf kf" "kvc_frame kb1 kf"
      "\<forall>t < kc_n_stream kc1. \<forall>j k. kvc_view kb1 t j = Some k \<longrightarrow> kvc_view kf t j = Some k"
      "\<forall>q < length (kc_seq_to_stream kc1). kvc_positions kf q = kvc_positions kb1 q \<union> (\<Union>ub \<in> set ubs. ub_new ub q)"
      using assms(7) kb1(2,4) fr free unfolding slots_work_def by blast
    have "\<forall>q < length (kc_seq_to_stream kc). kvc_positions kf q = kvc_positions kb q \<union> (\<Union>ub \<in> set (ub # ubs). ub_new ub q)"
      using kf(5) kb1(7) f(2) f1(2) by auto
    moreover have "\<forall>t < kc_n_stream kc. \<forall>j k. kvc_view kb t j = Some k \<longrightarrow> kvc_view kf t j = Some k"
      using kf(4) kb1(6) f(1) f1(1) by simp
    moreover have "place_slots (zip (si # sinfos) (ub # ubs)) kb = Some kf" using kb1(1) kf(1) by simp
    ultimately show "\<exists>kf. place_slots (zip (si # sinfos) (ub # ubs)) kb = Some kf \<and> kvc_wf kf \<and> kvc_frame kb kf \<and>
           (\<forall>t < kc_n_stream kc. \<forall>j k. kvc_view kb t j = Some k \<longrightarrow> kvc_view kf t j = Some k) \<and>
           (\<forall>q < length (kc_seq_to_stream kc). kvc_positions kf q = kvc_positions kb q \<union> (\<Union>ub \<in> set (ub # ubs). ub_new ub q))"
      using kf(2) kvc_frame_trans [OF kb1(3) kf(3)] by blast
  qed
qed

lemma slots_work_Nil: "slots_work kc [] []"
  unfolding slots_work_def by auto

lemma prepare_go_slots:
  assumes "kvc_wf kc" "\<not> kc_other kc" "kc_swa_type kc = SWA_TYPE_NONE" "\<forall>ub \<in> set ubs. ub_ok kc ub"
  shows "\<exists>kf res' states' ok. prepare_go ubs kc res states = Some (kf, res @ res', states', ok) \<and>
    (ok \<longleftrightarrow> (\<forall>t < kc_n_stream kc. (\<Sum>ub \<leftarrow> ubs. ub_need kc ub t) \<le> card (free_cells kc t))) \<and>
    (ok \<longrightarrow> slots_work kc ubs res') \<and> kc_swa_type kf = SWA_TYPE_NONE"
  using assms
proof (induction ubs arbitrary: kc res states)
  case Nil
  then show ?case
    by (intro exI [of _ kc] exI [of _ "[]"] exI [of _ states] exI [of _ True]) (simp add: slots_work_Nil Nil)
next
  case (Cons ub ubs)
  have ub: "ub_ok kc ub" using Cons.prems(4) by simp
  show ?case
  proof (rule find_slot_cases [OF Cons.prems(1) ub])
    assume none: "kvc_find_slot kc ub False = Some slot_empty"
    then have "prepare_go (ub # ubs) kc res states = Some (kc, res @ [], states, False)"
      by (simp add: slot_is_empty_def slot_empty_def)
    moreover obtain t where "t < kc_n_stream kc" "card (free_cells kc t) < ub_need kc ub t"
      using no_slot_no_cells [OF Cons.prems(1,3) ub none] by blast
    then have "\<not> (\<forall>t < kc_n_stream kc. (\<Sum>ub \<leftarrow> ub # ubs. ub_need kc ub t) \<le> card (free_cells kc t))" by fastforce
    ultimately show ?thesis using Cons.prems(3) by blast
  next
    fix si assume si: "kvc_find_slot kc ub False = Some si" "slot_ok kc ub si" "\<not> slot_is_empty si"
    obtain kc1 where k: "kvc_apply_ubatch si ub kc = Some kc1" "kvc_wf kc1" "kvc_frame kc kc1" "kc_swa_type kc1 = SWA_TYPE_NONE"
      "\<And>t. t < kc_n_stream kc \<Longrightarrow> card (free_cells kc1 t) + ub_need kc ub t = card (free_cells kc t)"
      by (rule apply_free_slot [OF Cons.prems(1-3) ub si(2)]) iprover
    note f = kvc_frameD [OF k(3)]
    have ubs: "\<forall>ub \<in> set ubs. ub_ok kc1 ub" using Cons.prems(4) ub_ok_frame [OF k(3)] by simp
    have other: "\<not> kc_other kc1" using Cons.prems(2) f(3) by simp
    obtain st where go: "prepare_go (ub # ubs) kc res states = prepare_go ubs kc1 (res @ [si]) (st # states)"
      using si(1,3) k(1) by (simp add: Let_def)
    obtain kf res' states' ok where g: "prepare_go ubs kc1 (res @ [si]) (st # states) = Some (kf, (res @ [si]) @ res', states', ok)"
      "ok \<longleftrightarrow> (\<forall>t < kc_n_stream kc1. (\<Sum>ub \<leftarrow> ubs. ub_need kc1 ub t) \<le> card (free_cells kc1 t))"
      "ok \<longrightarrow> slots_work kc1 ubs res'" "kc_swa_type kf = SWA_TYPE_NONE"
      using Cons.IH [OF k(2) other k(4) ubs, of "res @ [si]" "st # states"] by blast
    have "(\<Sum>ub \<leftarrow> ubs. ub_need kc1 ub t) \<le> card (free_cells kc1 t) \<longleftrightarrow> (\<Sum>ub \<leftarrow> ub # ubs. ub_need kc ub t) \<le> card (free_cells kc t)"
      if "t < kc_n_stream kc" for t
      using k(5) [OF that] by (simp add: ub_need_frame [OF k(3)] add.commute [of _ "ub_need kc ub t"] flip: k(5) [OF that])
    then have "ok \<longleftrightarrow> (\<forall>t < kc_n_stream kc. (\<Sum>ub \<leftarrow> ub # ubs. ub_need kc ub t) \<le> card (free_cells kc t))"
      using g(2) f(1) by simp
    moreover have "ok \<longrightarrow> slots_work kc (ub # ubs) (si # res')"
      using g(3) slots_work_Cons [OF Cons.prems(1-3) ub si(2) k(1)] by blast
    moreover have "prepare_go (ub # ubs) kc res states = Some (kf, res @ (si # res'), states', ok)" using go g(1) by simp
    ultimately show ?thesis using g(4) by blast
  qed
qed

lemma restore_states_swa [simp]: "kc_swa_type (fold restore_state states kc) = kc_swa_type kc"
proof -
  have "kc_swa_type (fold (restore_stream st) xs kc) = kc_swa_type kc" for st xs kc
    by (induction xs arbitrary: kc) (simp_all add: restore_stream_def Let_def)
  then show ?thesis by (induction states arbitrary: kc) (simp_all add: restore_state_def)
qed

lemma prepare_slots:
  assumes "kvc_wf kc" "\<not> kc_other kc" "kc_swa_type kc = SWA_TYPE_NONE" "\<forall>ub \<in> set ubs. ub_ok kc ub" "ubs \<noteq> []"
  obtains kc' res where "kvc_prepare ubs kc = Some (kc', res)" "kvc_wf kc'" "kvc_frame kc kc'" "kc_swa_type kc' = SWA_TYPE_NONE"
    "\<forall>t < kc_n_stream kc. \<forall>i. kvc_view kc' t i = kvc_view kc t i"
    "if \<forall>t < kc_n_stream kc. (\<Sum>ub \<leftarrow> ubs. ub_need kc ub t) \<le> card (free_cells kc t) then slots_work kc ubs res else res = []"
proof -
  obtain kf res' states' ok where g: "prepare_go ubs kc [] [] = Some (kf, [] @ res', states', ok)"
    "ok \<longleftrightarrow> (\<forall>t < kc_n_stream kc. (\<Sum>ub \<leftarrow> ubs. ub_need kc ub t) \<le> card (free_cells kc t))" "ok \<longrightarrow> slots_work kc ubs res'"
    "kc_swa_type kf = SWA_TYPE_NONE"
    using prepare_go_slots [OF assms(1-4), of "[]" "[]"] by blast
  have r: "ok \<longrightarrow> length states' = length ubs" "kvc_wf (fold restore_state states' kf)" "kvc_frame kc (fold restore_state states' kf)"
    "\<forall>t < kc_n_stream kc. \<forall>j. kvc_view (fold restore_state states' kf) t j = kvc_view kc t j"
    using prepare_go_restores [OF assms(1-4), of "[]" "[]"] g(1) by auto
  have "\<not> (states' = [] \<and> ok)" using r(1) assms(5) by auto
  then have "kvc_prepare ubs kc = Some (fold restore_state states' kf, if ok then res' else [])"
    using g(1) by (auto simp: kvc_prepare_def)
  then show thesis by (rule that) (use r g in auto)
qed

lemma slots_work_run:
  assumes "slots_work kc ubs sinfos" "ubs \<noteq> []" "kvc_wf kb" "kvc_frame kc kb" "kc_swa_type kb = SWA_TYPE_NONE"
    and "\<forall>t < kc_n_stream kc. \<forall>j. kvc_view kb t j = kvc_view kc t j"
  shows "\<exists>ctx kf. ctx_run update (kv_context_new sinfos ubs) kb = Some (ctx, kf) \<and> ctx_i_cur ctx = length ubs \<and> kvc_wf kf \<and>
    (\<forall>t < kc_n_stream kc. \<forall>j k. kvc_view kb t j = Some k \<longrightarrow> kvc_view kf t j = Some k) \<and>
    (\<forall>q < length (kc_seq_to_stream kc). kvc_positions kf q = kvc_positions kb q \<union> (\<Union>ub \<in> set ubs. ub_new ub q))"
proof -
  have "\<forall>t < kc_n_stream kc. free_cells kb t = free_cells kc t"
    using assms(6) kvc_frameD(4) [OF assms(4)] by (simp add: free_cells_def)
  then obtain kf where kf: "place_slots (zip sinfos ubs) kb = Some kf" "kvc_wf kf" 
      "\<forall>t < kc_n_stream kc. \<forall>j k. kvc_view kb t j = Some k \<longrightarrow> kvc_view kf t j = Some k"
      "\<forall>q < length (kc_seq_to_stream kc). kvc_positions kf q = kvc_positions kb q \<union> (\<Union>ub \<in> set ubs. ub_new ub q)"
    using assms(1,3-5) unfolding slots_work_def by blast
  let ?ctx = "kv_context_new sinfos ubs"
  have "\<exists>ctx'. ctx_run update ?ctx kb = Some (ctx', kf) \<and> ctx_i_cur ctx' = length (ctx_ubatches ?ctx)"
    by (rule ctx_run_from) (use assms(1,2) kf(1) in \<open>simp_all add: kv_context_new_def slots_work_def\<close>)
  then show ?thesis using kf(2-4) by (auto simp: kv_context_new_def)
qed

end
