(* ===== verification/BatchCache.thy ===== *)
theory BatchCache
  imports BatchInit KvContext
begin

text \<open>
  The batch splitter and the memory modules together. The locale \<open>memory_view\<close> is what \<open>init\<close>
  relies on when it asks a memory for the last position of a sequence; the KV cache provides
  it. The micro-batches that the cache's \<open>init_batch\<close> splits off are the well-formed ones that
  \<open>find_slot\<close> and \<open>apply_ubatch\<close> expect.
\<close>

subsection \<open>What a memory module promises\<close>

locale memory_view =
  fixes inv :: "'m \<Rightarrow> bool" and mem :: "'m \<Rightarrow> memory_pos" and held :: "'m \<Rightarrow> nat \<Rightarrow> llama_pos set" and n_seq :: "'m \<Rightarrow> nat"
  assumes finite_held: "inv m \<Longrightarrow> s < n_seq m \<Longrightarrow> finite (held m s)"
    and held_nonneg: "inv m \<Longrightarrow> s < n_seq m \<Longrightarrow> p \<in> held m s \<Longrightarrow> 0 \<le> p"
    and pos_max_held: "inv m \<Longrightarrow> s < n_seq m \<Longrightarrow> mem_seq_pos_max (mem m) s = (if held m s = {} then -1 else Max (held m s))"
begin

lemma init_appends:
  assumes "inv m" "allocr_init n_vocab (Some (mem m)) inp n_embd n_seq_max output_all al = Some (al', True)"
    and "inp_ok inp" "0 < n_seq_max" "n_seq_max \<le> n_seq m" "ba_n_pos_per_embd al \<le> 1 \<or> b_token inp \<noteq> None"
    and i: "i < batch_n al'" "s \<in> ba_seq_set al' ! i" "p \<in> held m s"
  shows "p < the (b_pos (ba_batch al')) ! i"
proof -
  note r = allocr_init_ready(1) [OF assms(2-4)]
  have R: "allocr_wf al'" "ba_n_pos_per_embd al' = ba_n_pos_per_embd al" "ba_batch al' = filled (Some (mem m)) output_all inp"
    "ba_seq_pos al' s = {the (b_pos (ba_batch al')) ! i |i. i < batch_n al' \<and> s \<in> ba_seq_set al' ! i}"
    using r unfolding ready_def by blast+
  have "s \<in> nat ` set (b_seqs (ba_batch al') i)" using i(2) allocr_wfD(4) [OF R(1) i(1)] by simp
  moreover have "\<forall>q \<in> set (b_seqs (ba_batch al') i). 0 \<le> q \<and> q < int n_seq_max" using r i(1) unfolding ready_def by blast
  ultimately have s: "s < n_seq_max" by auto
  then have ok: "positions_ok (Some (mem m)) al' s" using r unfolding ready_def by blast
  let ?P = "ba_seq_pos al' s"
  have pi: "the (b_pos (ba_batch al')) ! i \<in> ?P" unfolding R(4) using i(1,2) by blast
  have fin: "finite ?P" unfolding R(4) by (rule finite_subset [of _ "(!) (the (b_pos (ba_batch al'))) ` {..<batch_n al'}"]) auto
  have min: "allocr_seq_pos_min al' s = Min ?P" using pi by (auto simp: allocr_seq_pos_min_def)
  have sn: "s < n_seq m" using s assms(5) by simp
  have mx: "mem_seq_pos_max (mem m) s = Max (held m s)" using pos_max_held [OF assms(1) sn] i(3) by auto
  have pm: "p \<le> Max (held m s)" "0 \<le> p" using finite_held [OF assms(1) sn] held_nonneg [OF assms(1) sn] i(3) by auto
  have "Max (held m s) < Min ?P"
    using ok pi pm assms(6) R(2,3) unfolding positions_ok_def Let_def option.case min mx by (auto split: if_splits)
  also have "Min ?P \<le> the (b_pos (ba_batch al')) ! i" using pi fin by simp
  finally show ?thesis using pm by simp
qed

end

definition kvc_memory :: "kv_cache \<Rightarrow> memory_pos" where
  "kvc_memory kc = \<lparr>mem_seq_pos_min = (\<lambda>s. the (kvc_seq_pos_min kc [] (int s))),
     mem_seq_pos_max = (\<lambda>s. the (kvc_seq_pos_max kc [] (int s)))\<rparr>"

interpretation kv: memory_view kvc_wf kvc_memory kvc_positions "\<lambda>kc. length (kc_seq_to_stream kc)"
proof
  show "finite (kvc_positions m s)" if "kvc_wf m" "s < length (kc_seq_to_stream m)" for m s
    using finite_kvc_positions that by blast
  show "0 \<le> p" if "kvc_wf m" "s < length (kc_seq_to_stream m)" "p \<in> kvc_positions m s" for m s p
    using seq_pos_min_bound that by blast
  show "mem_seq_pos_max (kvc_memory m) s = (if kvc_positions m s = {} then -1 else Max (kvc_positions m s))"
    if "kvc_wf m" "s < length (kc_seq_to_stream m)" for m s
    using kvc_seq_pos_max_eq that by (simp add: kvc_memory_def)
qed

subsection \<open>From the batch to the cache\<close>

lemma unq_index_snd: "snd (unq_index N S idx) = map int (filter (\<lambda>s. s \<in> S) [0..<N])"
proof -
  have "snd (fold (\<lambda>s (idx, unq). if s \<in> S then (idx[s := int (length unq)], unq @ [int s]) else (idx, unq)) [0..<N] (idx, [])) =
      map int (filter (\<lambda>s. s \<in> S) [0..<N])"
    by (induction N) (auto simp: case_prod_unfold)
  then show ?thesis by (simp add: unq_index_def)
qed

lemma made_by_fields:
  assumes "made_by al n eq ub" "0 < ba_n_pos_per_embd al"
  shows "ub_n_tokens ub = length (ub_batch_idxs ub)"
    "k < length (ub_batch_idxs ub) \<Longrightarrow> ub_pos ub ! k = the (b_pos (ba_batch al)) ! (ub_batch_idxs ub ! k)"
    "k < length (ub_batch_idxs ub) \<Longrightarrow> ub_n_seq_id ub ! k = the (b_n_seq_id (ba_batch al)) ! (ub_batch_idxs ub ! k)"
    "k < length (ub_batch_idxs ub) \<Longrightarrow> ub_seq_id ub ! k = b_seqs (ba_batch al) (ub_batch_idxs ub ! k)"
    "ub_token ub = map_option (\<lambda>ts. map ((!) ts) (ub_batch_idxs ub)) (b_token (ba_batch al))"
    "ub_seq_id_unq ub = map int (filter (\<lambda>s. s \<in> (\<Union>i \<in> set (ub_batch_idxs ub). nat ` set (b_seqs (ba_batch al) i))) [0..<ba_n_seq_max al])"
    "ub_n_seqs_unq ub = length (ub_seq_id_unq ub)"
proof -
  obtain idxs where idxs: "ub_batch_idxs ub = idxs" "ub = snd (ubatch_add idxs n eq al)" using assms(1) by (auto simp: made_by_def)
  show "ub_n_tokens ub = length (ub_batch_idxs ub)" using idxs by simp
  show "k < length (ub_batch_idxs ub) \<Longrightarrow> ub_n_seq_id ub ! k = the (b_n_seq_id (ba_batch al)) ! (ub_batch_idxs ub ! k)"
    "k < length (ub_batch_idxs ub) \<Longrightarrow> ub_seq_id ub ! k = b_seqs (ba_batch al) (ub_batch_idxs ub ! k)"
    "ub_token ub = map_option (\<lambda>ts. map ((!) ts) (ub_batch_idxs ub)) (b_token (ba_batch al))"
    "ub_n_seqs_unq ub = length (ub_seq_id_unq ub)"
    unfolding idxs by (simp_all add: ubatch_add_def case_prod_unfold Let_def)
  have "nat ` set (concat (map (b_seqs (ba_batch al)) idxs)) = (\<Union>i \<in> set idxs. nat ` set (b_seqs (ba_batch al) i))" by auto
  then show "ub_seq_id_unq ub = map int (filter (\<lambda>s. s \<in> (\<Union>i \<in> set (ub_batch_idxs ub). nat ` set (b_seqs (ba_batch al) i))) [0..<ba_n_seq_max al])"
    unfolding idxs by (simp add: ubatch_add_def case_prod_unfold Let_def unq_index_snd)
  show "ub_pos ub ! k = the (b_pos (ba_batch al)) ! (ub_batch_idxs ub ! k)" if "k < length (ub_batch_idxs ub)"
  proof -
    have "[0..<ba_n_pos_per_embd al] = 0 # [1..<ba_n_pos_per_embd al]" using assms(2) by (simp add: upt_conv_Cons)
    then show ?thesis using that unfolding idxs by (simp add: ubatch_add_def case_prod_unfold Let_def nth_append)
  qed
qed

definition batch_for :: "kv_cache \<Rightarrow> batch_allocr \<Rightarrow> bool" where
  \<comment> \<open>the tokens of the batch are ones the cache can take\<close>
  "batch_for kc al \<longleftrightarrow> 0 < ba_n_pos_per_embd al \<and> ba_n_seq_max al \<le> length (kc_seq_to_stream kc) \<and>
     (\<forall>i < batch_n al. 0 \<le> the (b_pos (ba_batch al)) ! i \<and>
        the (b_n_seq_id (ba_batch al)) ! i = int (length (b_seqs (ba_batch al) i)) \<and>
        (\<forall>q \<in> set (b_seqs (ba_batch al) i). 0 \<le> q \<and> q < int (ba_n_seq_max al))) \<and>
     (kc_n_stream kc > 1 \<longrightarrow> (\<forall>s < ba_n_seq_max al. \<forall>s' < ba_n_seq_max al. stream_of kc s = stream_of kc s' \<longrightarrow> s = s'))"

lemma ubatch_common:
  \<comment> \<open>what holds of a micro-batch however it was split off\<close>
  assumes "allocr_wf al" "batch_for kc al" "made_by al n eq ub" "ub_batch_idxs ub \<noteq> []" "set (ub_batch_idxs ub) \<subseteq> {..<batch_n al}"
  shows "0 < ub_n_tokens ub" "0 < ub_n_seqs_unq ub" "\<forall>s < ub_n_seqs_unq ub. seq_ok kc (ub_seq_id_unq ub ! s) \<and> ub_seq_id_unq ub ! s < int (ba_n_seq_max al)"
    "\<forall>k < ub_n_tokens ub. 0 \<le> ub_pos ub ! k \<and> ub_seq_id ub ! k \<noteq> [] \<and>
        ub_n_seq_id ub ! k = int (length (ub_seq_id ub ! k)) \<and> (\<forall>q \<in> set (ub_seq_id ub ! k). seq_ok kc q)"
proof -
  have f: "0 < ba_n_pos_per_embd al" using assms(2) by (simp add: batch_for_def)
  note m = made_by_fields [OF assms(3) f]
  show "0 < ub_n_tokens ub" using m(1) assms(4) by simp
  have seqs: "0 \<le> q \<and> q < int (ba_n_seq_max al)" if "i < batch_n al" "q \<in> set (b_seqs (ba_batch al) i)" for i q
    using assms(2) that unfolding batch_for_def by blast
  have len: "ba_n_seq_max al \<le> length (kc_seq_to_stream kc)" using assms(2) by (simp add: batch_for_def)
  have ne: "b_seqs (ba_batch al) i \<noteq> []" if "i < batch_n al" for i
    using allocr_wfD(4,5) [OF assms(1) that] by auto
  obtain i where i: "i \<in> set (ub_batch_idxs ub)" "i < batch_n al" using assms(4,5) by (cases "ub_batch_idxs ub") auto
  obtain q where q: "q \<in> set (b_seqs (ba_batch al) i)" using ne [OF i(2)] by (cases "b_seqs (ba_batch al) i") auto
  have "nat q \<in> set (filter (\<lambda>s. s \<in> (\<Union>i \<in> set (ub_batch_idxs ub). nat ` set (b_seqs (ba_batch al) i))) [0..<ba_n_seq_max al])"
    using i q seqs [OF i(2) q] by auto
  then show "0 < ub_n_seqs_unq ub" unfolding m(7) m(6) by (metis length_greater_0_conv length_map list.set(1) empty_iff)
  show "\<forall>s < ub_n_seqs_unq ub. seq_ok kc (ub_seq_id_unq ub ! s) \<and> ub_seq_id_unq ub ! s < int (ba_n_seq_max al)"
  proof (intro allI impI)
    fix s assume "s < ub_n_seqs_unq ub"
    then have "ub_seq_id_unq ub ! s \<in> set (ub_seq_id_unq ub)" unfolding m(7) by (rule nth_mem)
    then obtain q where "ub_seq_id_unq ub ! s = int q" "q < ba_n_seq_max al" unfolding m(6) by auto
    then show "seq_ok kc (ub_seq_id_unq ub ! s) \<and> ub_seq_id_unq ub ! s < int (ba_n_seq_max al)" using len by (simp add: seq_ok_def)
  qed
  show "\<forall>k < ub_n_tokens ub. 0 \<le> ub_pos ub ! k \<and> ub_seq_id ub ! k \<noteq> [] \<and>
        ub_n_seq_id ub ! k = int (length (ub_seq_id ub ! k)) \<and> (\<forall>q \<in> set (ub_seq_id ub ! k). seq_ok kc q)"
  proof (intro allI impI)
    fix k assume k: "k < ub_n_tokens ub"
    then have k': "k < length (ub_batch_idxs ub)" using m(1) by simp
    let ?i = "ub_batch_idxs ub ! k"
    have i: "?i < batch_n al" using nth_mem [OF k'] assms(5) by blast
    have "0 \<le> the (b_pos (ba_batch al)) ! ?i \<and> the (b_n_seq_id (ba_batch al)) ! ?i = int (length (b_seqs (ba_batch al) ?i))"
      using assms(2) i unfolding batch_for_def by blast
    moreover have "\<forall>q \<in> set (b_seqs (ba_batch al) ?i). seq_ok kc q"
    proof
      fix q assume "q \<in> set (b_seqs (ba_batch al) ?i)"
      from seqs [OF i this] show "seq_ok kc q" using len by (auto simp: seq_ok_def)
    qed
    ultimately show "0 \<le> ub_pos ub ! k \<and> ub_seq_id ub ! k \<noteq> [] \<and>
        ub_n_seq_id ub ! k = int (length (ub_seq_id ub ! k)) \<and> (\<forall>q \<in> set (ub_seq_id ub ! k). seq_ok kc q)"
      unfolding m(2-4) [OF k'] using ne [OF i] by simp
  qed
qed

lemma ubatch_simple_ok:
  assumes "allocr_wf al" "batch_for kc al" "made_by al n eq ub" "ub_batch_idxs ub \<noteq> []" "set (ub_batch_idxs ub) \<subseteq> {..<batch_n al}"
    and "\<not> kc_n_stream kc > 1"
  shows "ub_ok kc ub"
  using ubatch_common [OF assms(1-5)] assms(6) unfolding ub_ok_def by simp

lemma nth_concat_equal:
  "\<forall>bl \<in> set bls. length bl = len \<Longrightarrow> x < length bls * len \<Longrightarrow> concat bls ! x = bls ! (x div len) ! (x mod len)"
proof (induction bls arbitrary: x)
  case (Cons bl bls)
  show ?case
  proof (cases "x < len")
    case True then show ?thesis using Cons.prems(1) by (simp add: nth_append)
  next
    case False
    have len: "0 < len" using Cons.prems(2) by (cases len) auto
    have "concat bls ! (x - len) = bls ! ((x - len) div len) ! ((x - len) mod len)"
      by (rule Cons.IH) (use Cons.prems False in auto)
    moreover have "x div len = Suc ((x - len) div len)" "(x - len) mod len = x mod len"
      using False len by (simp_all add: le_div_geq le_mod_geq)
    ultimately show ?thesis using Cons.prems(1) False by (simp add: nth_append)
  qed
qed simp

lemma length_concat_equal: "\<forall>bl \<in> set bls. length bl = len \<Longrightarrow> length (concat bls) = length bls * len"
  by (induction bls) auto

lemma filter_interval:
  assumes "\<And>s. s \<in> S \<longleftrightarrow> q \<le> s \<and> s < q + n" "q + n \<le> N"
  shows "filter (\<lambda>s. s \<in> S) [0..<N] = [q..<q + n]"
proof (rule sorted_distinct_set_unique)
  show "sorted (filter (\<lambda>s. s \<in> S) [0..<N])" by (intro sorted_wrt_filter) simp
  show "set (filter (\<lambda>s. s \<in> S) [0..<N]) = set [q..<q + n]"
    unfolding set_filter assms(1) using assms(2) by auto
qed auto

lemma ubatch_equal_ok:
  assumes "allocr_wf al" "batch_for kc al" "equal_good n_ubatch True max_sets al ub" "set (ub_batch_idxs ub) \<subseteq> {..<batch_n al}"
  shows "ub_ok kc ub"
proof -
  obtain blocks len q where B: "equal_blocks n_ubatch max_sets al ub blocks len"
    "\<forall>k < length blocks. \<forall>i \<in> set (blocks ! k). b_seqs (ba_batch al) i = [int (q + k)]"
    using assms(3) unfolding equal_good_def by blast
  have b: "ub_batch_idxs ub = concat blocks" "blocks \<noteq> []" "0 < len" "made_by al (length blocks) True ub"
    "\<forall>bl \<in> set blocks. length bl = len \<and> sorted_wrt (<) bl \<and> (\<forall>i \<in> set bl. \<forall>j \<in> set bl. ba_seq_set al ! i = ba_seq_set al ! j)"
    using B(1) unfolding equal_blocks_def by iprover+
  have bl: "\<forall>bl \<in> set blocks. length bl = len" using b(5) by blast
  let ?n = "length blocks"
  have f: "0 < ba_n_pos_per_embd al" using assms(2) by (simp add: batch_for_def)
  note m = made_by_fields [OF b(4) f]
  have idxs_ne: "ub_batch_idxs ub \<noteq> []"
  proof -
    have "0 < length (concat blocks)" unfolding length_concat_equal [OF bl] using b(2,3) by simp
    then show ?thesis unfolding b(1) by auto
  qed
  note c = ubatch_common [OF assms(1,2) b(4) idxs_ne assms(4)]
  have n: "ub_n_tokens ub = ?n * len" unfolding m(1) b(1) by (rule length_concat_equal [OF bl])
  have at: "b_seqs (ba_batch al) (ub_batch_idxs ub ! x) = [int (q + x div len)]" if x: "x < ?n * len" for x
  proof -
    have k: "x div len < ?n" using x by (simp add: less_mult_imp_div_less)
    have "length (blocks ! (x div len)) = len" using bl nth_mem [OF k] by blast
    then have "blocks ! (x div len) ! (x mod len) \<in> set (blocks ! (x div len))" using b(3) by (intro nth_mem) simp
    then show ?thesis unfolding b(1) nth_concat_equal [OF bl x] using B(2) k by blast
  qed
  let ?S = "\<Union>i \<in> set (ub_batch_idxs ub). nat ` set (b_seqs (ba_batch al) i)"
  have S: "s \<in> ?S \<longleftrightarrow> q \<le> s \<and> s < q + ?n" for s
  proof
    assume "s \<in> ?S"
    then obtain x where x: "x < length (ub_batch_idxs ub)" "s \<in> nat ` set (b_seqs (ba_batch al) (ub_batch_idxs ub ! x))"
    proof -
      obtain i where "i \<in> set (ub_batch_idxs ub)" "s \<in> nat ` set (b_seqs (ba_batch al) i)" using \<open>s \<in> ?S\<close> by blast
      then show thesis using that unfolding in_set_conv_nth by blast
    qed
    have "x < ?n * len" using x(1) n m(1) by simp
    then show "q \<le> s \<and> s < q + ?n" using x(2) at [of x] less_mult_imp_div_less [of x ?n len] by auto
  next
    assume s: "q \<le> s \<and> s < q + ?n"
    let ?x = "(s - q) * len"
    have x: "?x < ?n * len" using s b(3) by auto
    have "?x div len = s - q" using b(3) by simp
    then have "s \<in> nat ` set (b_seqs (ba_batch al) (ub_batch_idxs ub ! ?x))" using at [OF x] s by simp
    moreover have "ub_batch_idxs ub ! ?x \<in> set (ub_batch_idxs ub)" using x n m(1) by (intro nth_mem) simp
    ultimately show "s \<in> ?S" by blast
  qed
  have "q + ?n - 1 \<in> ?S" unfolding S using b(2) by (cases blocks) auto
  then have "q + ?n - 1 < ba_n_seq_max al" using assms(2,4) unfolding batch_for_def by force
  then have le: "q + ?n \<le> ba_n_seq_max al" by linarith
  have unq: "ub_seq_id_unq ub = map int [q..<q + ?n]" unfolding m(6) filter_interval [OF S le] by (rule refl)
  then have nu: "ub_n_seqs_unq ub = ?n" unfolding m(7) by simp
  have unq_at: "ub_seq_id_unq ub ! s = int (q + s)" if "s < ?n" for s using that unfolding unq by simp
  have per: "ub_per_slot kc ub = len" if "kc_n_stream kc > 1" using that b(2) by (simp add: ub_per_slot_def n nu)
  have seqs: "ub_seq_id ub ! x = [ub_seq_id_unq ub ! (x div ub_per_slot kc ub)]" if "kc_n_stream kc > 1" "x < ub_n_tokens ub" for x
  proof -
    have x: "x < ?n * len" "x < length (ub_batch_idxs ub)" using that(2) n m(1) by auto
    show ?thesis unfolding m(4) [OF x(2)] at [OF x(1)] per [OF that(1)]
      using unq_at [of "x div len"] x(1) by (simp add: less_mult_imp_div_less)
  qed
  have inj: "s = s'" if "kc_n_stream kc > 1" "s < ub_n_seqs_unq ub" "s' < ub_n_seqs_unq ub"
    "stream_of kc (nat (ub_seq_id_unq ub ! s)) = stream_of kc (nat (ub_seq_id_unq ub ! s'))" for s s'
  proof -
    have ss: "s < ?n" "s' < ?n" using that(2,3) nu by auto
    have "stream_of kc (q + s) = stream_of kc (q + s')" using that(4) unfolding unq_at [OF ss(1)] unq_at [OF ss(2)] nat_int .
    then have "q + s = q + s'" using assms(2) that(1) ss le unfolding batch_for_def by (meson add_less_mono1 less_le_trans nat_add_left_cancel_less)
    then show ?thesis by simp
  qed
  show ?thesis
    unfolding ub_ok_def
  proof (intro conjI impI)
    show "0 < ub_n_tokens ub" "0 < ub_n_seqs_unq ub" by (rule c)+
    show "\<forall>s < ub_n_seqs_unq ub. seq_ok kc (ub_seq_id_unq ub ! s)" using c(3) by blast
    show "\<forall>i < ub_n_tokens ub. 0 \<le> ub_pos ub ! i \<and> ub_seq_id ub ! i \<noteq> [] \<and>
        ub_n_seq_id ub ! i = int (length (ub_seq_id ub ! i)) \<and> (\<forall>q \<in> set (ub_seq_id ub ! i). seq_ok kc q)" by (rule c)
    show "ub_n_seqs_unq ub dvd ub_n_tokens ub" unfolding nu n by simp
    show "\<forall>s < ub_n_seqs_unq ub. \<forall>s' < ub_n_seqs_unq ub.
        stream_of kc (nat (ub_seq_id_unq ub ! s)) = stream_of kc (nat (ub_seq_id_unq ub ! s')) \<longrightarrow> s = s'"
      if "kc_n_stream kc > 1" using inj [OF that] by blast
    show "\<forall>i < ub_n_tokens ub. ub_seq_id ub ! i = [ub_seq_id_unq ub ! (i div ub_per_slot kc ub)]"
      if "kc_n_stream kc > 1" using seqs [OF that] by blast
  qed
qed

subsection \<open>The \<open>init_batch\<close> methods\<close>

definition kvc_split :: "kv_cache \<Rightarrow> nat \<Rightarrow> batch_allocr \<Rightarrow> (batch_allocr \<times> llama_ubatch) option" where
  \<comment> \<open>the split the KV cache asks for\<close>
  "kvc_split kc n_ubatch al =
     (if kc_n_stream kc = 1 then Some (split_simple n_ubatch al) else split_equal n_ubatch True 0 0 al)"

definition kvc_init_batch :: "nat \<Rightarrow> batch_allocr \<Rightarrow> kv_cache \<Rightarrow>
    (batch_allocr \<times> kv_cache \<times> (slot_info list \<times> llama_ubatch list) option) option" where
  \<comment> \<open>no result: the context with the status \<open>LLAMA_MEMORY_STATUS_FAILED_PREPARE\<close>\<close>
  "kvc_init_batch n_ubatch al kc =
     (case split_batch (kvc_split kc n_ubatch) al of
        None \<Rightarrow> None
      | Some (al, None) \<Rightarrow> Some (al, kc, None)
      | Some (al, Some ubatches) \<Rightarrow>
          (case kvc_prepare ubatches kc of
             None \<Rightarrow> None
           | Some (kc, sinfos) \<Rightarrow> Some (al, kc, if sinfos = [] then None else Some (sinfos, ubatches))))"

definition recurrent_split :: "nat \<Rightarrow> bool \<Rightarrow> nat \<Rightarrow> batch_allocr \<Rightarrow> (batch_allocr \<times> llama_ubatch) option" where
  \<comment> \<open>the split a recurrent memory asks for\<close>
  "recurrent_split n_rs_seq embd_all n_ubatch al =
     (if embd_all then Some (split_seq n_ubatch al)
      else split_equal n_ubatch True (if n_rs_seq > 0 then n_rs_seq + 1 else 0) 0 al)"

definition splits_once :: "batch_allocr \<Rightarrow> llama_ubatch list \<Rightarrow> bool" where
  \<comment> \<open>every token of the batch is in exactly one micro-batch\<close>
  "splits_once al ubs \<longleftrightarrow> distinct (concat (map ub_batch_idxs ubs)) \<and> set (concat (map ub_batch_idxs ubs)) = {..<batch_n al}"

lemma splits_once_D:
  assumes "splits_once al ubs" "ub \<in> set ubs"
  shows "set (ub_batch_idxs ub) \<subseteq> {..<batch_n al}"
  using assms unfolding splits_once_def by auto

definition split_ok :: "(llama_ubatch \<Rightarrow> bool) \<Rightarrow> (batch_allocr \<Rightarrow> (batch_allocr \<times> llama_ubatch) option) \<Rightarrow> batch_allocr \<Rightarrow> bool" where
  \<comment> \<open>the split of the whole batch succeeds, with micro-batches that are all good\<close>
  "split_ok good split al \<longleftrightarrow> (\<exists>al' ubs. split_batch split al = Some (al', Some ubs) \<and> splits_once al ubs \<and>
     (\<forall>ub \<in> set ubs. good ub \<and> ub_batch_idxs ub \<noteq> [] \<and> ub_n_tokens ub = length (ub_batch_idxs ub)))"

lemma split_okI:
  assumes "\<exists>al' ubs. split_batch split al = Some (al', Some ubs) \<and> ba_n_used al' = batch_n al \<and>
    distinct (concat (map ub_batch_idxs ubs)) \<and> set (concat (map ub_batch_idxs ubs)) = {..<batch_n al} \<and>
    (\<forall>ub \<in> set ubs. good ub \<and> ub_batch_idxs ub \<noteq> [] \<and> ub_n_tokens ub = length (ub_batch_idxs ub))"
  shows "split_ok good split al"
  using assms unfolding split_ok_def splits_once_def by iprover

lemma split_okE:
  assumes "split_ok good split al"
  obtains al' ubs where "split_batch split al = Some (al', Some ubs)" "splits_once al ubs"
    "\<And>ub. ub \<in> set ubs \<Longrightarrow> good ub" "\<And>ub. ub \<in> set ubs \<Longrightarrow> ub_batch_idxs ub \<noteq> []"
    "\<And>ub. ub \<in> set ubs \<Longrightarrow> ub_n_tokens ub = length (ub_batch_idxs ub)"
    "\<And>ub. ub \<in> set ubs \<Longrightarrow> set (ub_batch_idxs ub) \<subseteq> {..<batch_n al}"
proof -
  from assms obtain al' ubs where s: "split_batch split al = Some (al', Some ubs)" "splits_once al ubs"
    "\<forall>ub \<in> set ubs. good ub \<and> ub_batch_idxs ub \<noteq> [] \<and> ub_n_tokens ub = length (ub_batch_idxs ub)"
    unfolding split_ok_def by iprover
  show thesis by (rule that [OF s(1,2)]) (use s(3) splits_once_D [OF s(2)] in auto)
qed

lemma split_ok_simple: "allocr_wf al \<Longrightarrow> split_ok (simple_good n_ubatch al) (\<lambda>al. Some (split_simple n_ubatch al)) al"
  by (rule split_okI, rule simple.split_batch_all)
    (auto simp: split_reset_wf used_prefix_def intro!: exI [of _ 0])

lemma split_ok_seq: "allocr_wf al \<Longrightarrow> split_ok (seq_good n_ubatch al) (\<lambda>al. Some (split_seq n_ubatch al)) al"
  by (rule split_okI, rule seq.split_batch_all) (rule split_reset_wf(1))

lemma split_ok_equal:
  assumes "allocr_wf al" "sequential \<longrightarrow> \<not> ba_has_cpl al \<and> singles al" "n_keep_tail < n_ubatch \<or> n_keep_tail = 0"
  shows "split_ok (equal_good n_ubatch sequential max_sets al) (split_equal n_ubatch sequential n_keep_tail max_sets) al"
proof (rule split_okI, rule equal.split_batch_all)
  have "set_prefix (split_reset al)" using split_reset_wf(2,3) [OF assms(1)] by (simp add: set_prefix_def)
  moreover have "sequential \<longrightarrow> singles (split_reset al) \<and> \<not> ba_has_cpl (split_reset al)"
    using assms(2) same_batchD(1,7,8) [OF same_batch_upd(4) [of al]] by (simp add: singles_def)
  ultimately show "equal_ready n_ubatch sequential n_keep_tail (split_reset al)"
    using split_reset_wf(1) [OF assms(1)] assms(3) by (simp add: equal_ready_def)
qed

definition ub_fits :: "kv_cache \<Rightarrow> nat \<Rightarrow> batch_allocr \<Rightarrow> llama_ubatch \<Rightarrow> bool" where
  \<comment> \<open>the micro-batch is good for the cache, made of the batch, and as small as asked for, or has one token too many\<close>
  "ub_fits kc n_ubatch al ub \<longleftrightarrow> ub_ok kc ub \<and> (\<exists>n eq. made_by al n eq ub) \<and>
     (ub_n_tokens ub \<le> n_ubatch \<or> ub_n_tokens ub = Suc n_ubatch)"

lemma simple_fits:
  assumes "allocr_wf al" "batch_for kc al" "kc_n_stream kc = 1" "simple_good n_ubatch al ub" "ub_batch_idxs ub \<noteq> []"
    and "ub_n_tokens ub = length (ub_batch_idxs ub)" "set (ub_batch_idxs ub) \<subseteq> {..<batch_n al}"
  shows "ub_fits kc n_ubatch al ub"
proof -
  obtain k m where g: "made_by al (length (ub_batch_idxs ub)) False ub" "ub_batch_idxs ub = [k..<m]"
    "m - k \<le> n_ubatch \<or> m = Suc k"
    using assms(4) unfolding simple_good_def by iprover
  have "ub_ok kc ub" by (rule ubatch_simple_ok [OF assms(1,2) g(1) assms(5,7)]) (use assms(3) in simp)
  moreover have "ub_n_tokens ub = m - k" using assms(6) g(2) by simp
  then have "ub_n_tokens ub \<le> n_ubatch \<or> ub_n_tokens ub = Suc n_ubatch" using g(3) by (cases n_ubatch) auto
  ultimately show ?thesis unfolding ub_fits_def using g(1) by blast
qed

lemma equal_fits:
  assumes "allocr_wf al" "batch_for kc al" "equal_good n_ubatch True 0 al ub"
    and "ub_n_tokens ub = length (ub_batch_idxs ub)" "set (ub_batch_idxs ub) \<subseteq> {..<batch_n al}"
  shows "ub_fits kc n_ubatch al ub"
proof -
  obtain blocks len where b: "equal_blocks n_ubatch 0 al ub blocks len" using assms(3) unfolding equal_good_def by iprover
  have bb: "ub_batch_idxs ub = concat blocks" "made_by al (length blocks) True ub"
    "\<forall>bl \<in> set blocks. length bl = len \<and> sorted_wrt (<) bl \<and> (\<forall>i \<in> set bl. \<forall>j \<in> set bl. ba_seq_set al ! i = ba_seq_set al ! j)"
    "length blocks * len \<le> n_ubatch \<or> (len = 1 \<and> length blocks = Suc n_ubatch)"
    using b unfolding equal_blocks_def by iprover+
  have "ub_n_tokens ub = length blocks * len" unfolding assms(4) bb(1) using bb(3) by (intro length_concat_equal) blast
  then have "ub_n_tokens ub \<le> n_ubatch \<or> ub_n_tokens ub = Suc n_ubatch" using bb(4) by auto
  moreover have "ub_ok kc ub" by (rule ubatch_equal_ok [OF assms(1-3,5)])
  ultimately show ?thesis unfolding ub_fits_def using bb(2) by blast
qed

lemma kvc_split_all:
  assumes wf: "allocr_wf al" "batch_for kc al" and st: "kc_n_stream kc = 1 \<or> (\<not> ba_has_cpl al \<and> singles al)"
  shows "split_ok (ub_fits kc n_ubatch al) (kvc_split kc n_ubatch) al"
proof (cases "kc_n_stream kc = 1")
  case True
  have eq: "kvc_split kc n_ubatch = (\<lambda>al. Some (split_simple n_ubatch al))" using True by (simp add: kvc_split_def fun_eq_iff)
  show ?thesis unfolding eq
  proof (rule split_okE [OF split_ok_simple [OF wf(1), of n_ubatch]])
    fix al' ubs assume s: "split_batch (\<lambda>al. Some (split_simple n_ubatch al)) al = Some (al', Some ubs)" "splits_once al ubs"
      "\<And>ub. ub \<in> set ubs \<Longrightarrow> simple_good n_ubatch al ub" "\<And>ub. ub \<in> set ubs \<Longrightarrow> ub_batch_idxs ub \<noteq> []"
      "\<And>ub. ub \<in> set ubs \<Longrightarrow> ub_n_tokens ub = length (ub_batch_idxs ub)"
      "\<And>ub. ub \<in> set ubs \<Longrightarrow> set (ub_batch_idxs ub) \<subseteq> {..<batch_n al}"
    have "ub_fits kc n_ubatch al ub" if "ub \<in> set ubs" for ub using simple_fits [OF wf True] s(3-6) that by blast
    then show "split_ok (ub_fits kc n_ubatch al) (\<lambda>al. Some (split_simple n_ubatch al)) al"
      unfolding split_ok_def using s(1,2,4,5) by blast
  qed
next
  case False
  have eq: "kvc_split kc n_ubatch = split_equal n_ubatch True 0 0" using False by (simp add: kvc_split_def fun_eq_iff)
  have "split_ok (equal_good n_ubatch True 0 al) (split_equal n_ubatch True 0 0) al"
    by (rule split_ok_equal [OF wf(1)]) (use st False in auto)
  then show ?thesis unfolding eq
  proof (rule split_okE)
    fix al' ubs assume s: "split_batch (split_equal n_ubatch True 0 0) al = Some (al', Some ubs)" "splits_once al ubs"
      "\<And>ub. ub \<in> set ubs \<Longrightarrow> equal_good n_ubatch True 0 al ub" "\<And>ub. ub \<in> set ubs \<Longrightarrow> ub_batch_idxs ub \<noteq> []"
      "\<And>ub. ub \<in> set ubs \<Longrightarrow> ub_n_tokens ub = length (ub_batch_idxs ub)"
      "\<And>ub. ub \<in> set ubs \<Longrightarrow> set (ub_batch_idxs ub) \<subseteq> {..<batch_n al}"
    have "ub_fits kc n_ubatch al ub" if "ub \<in> set ubs" for ub using equal_fits [OF wf] s(3,5,6) that by blast
    then show "split_ok (ub_fits kc n_ubatch al) (split_equal n_ubatch True 0 0) al"
      unfolding split_ok_def using s(1,2,4,5) by blast
  qed
qed

lemma kvc_split_coupled:
  assumes "allocr_wf al" "0 < batch_n al" "kc_n_stream kc \<noteq> 1" "ba_has_cpl al"
  shows "split_batch (kvc_split kc n_ubatch) al = Some (split_reset al, None)"
proof -
  have "kvc_split kc n_ubatch (split_reset al) = Some (split_reset al, ubatch_none)"
    using assms(3,4) same_batchD(7) [OF same_batch_upd(4) [of al]] by (simp add: kvc_split_def split_equal_def)
  then have "drain (kvc_split kc n_ubatch) (split_reset al) [] = Some (split_reset al, [])"
    by (subst drain.simps) (simp add: ubatch_none_def)
  then show ?thesis using assms(2) by (simp add: split_batch_def split_reset_def batch_n_def)
qed

lemma made_by_appends:
  assumes "allocr_wf al" "0 < ba_n_pos_per_embd al" "made_by al n eq ub" "set (ub_batch_idxs ub) \<subseteq> {..<batch_n al}"
    and "\<And>i s p. i < batch_n al \<Longrightarrow> s \<in> ba_seq_set al ! i \<Longrightarrow> p \<in> kvc_positions kc s \<Longrightarrow> p < the (b_pos (ba_batch al)) ! i"
  shows "ub_appends kc ub"
  unfolding ub_appends_def
proof (intro allI impI ballI)
  fix k q p assume k: "k < ub_n_tokens ub" "q \<in> ub_seqs ub k" "p \<in> kvc_positions kc q"
  note m = made_by_fields [OF assms(3,2)]
  have k': "k < length (ub_batch_idxs ub)" using k(1) m(1) by simp
  have i: "ub_batch_idxs ub ! k < batch_n al" using nth_mem [OF k'] assms(4) by blast
  have "q \<in> ba_seq_set al ! (ub_batch_idxs ub ! k)"
    using k(2) m(4) [OF k'] allocr_wfD(4) [OF assms(1) i] by (simp add: ub_seqs_def)
  then show "p < ub_pos ub ! k" using assms(5) [OF i _ k(3)] m(2) [OF k'] by simp
qed

subsection \<open>How many cells a batch needs\<close>

definition batch_need :: "kv_cache \<Rightarrow> batch_allocr \<Rightarrow> nat \<Rightarrow> nat" where
  \<comment> \<open>the tokens of the batch that go to stream \<open>t\<close>\<close>
  "batch_need kc al t = card {i. i < batch_n al \<and> (\<exists>q \<in> ba_seq_set al ! i. stream_of kc q = t)}"

definition batch_new :: "batch_allocr \<Rightarrow> nat \<Rightarrow> llama_pos set" where
  \<comment> \<open>the positions of the batch for sequence \<open>q\<close>\<close>
  "batch_new al q = {the (b_pos (ba_batch al)) ! i |i. i < batch_n al \<and> q \<in> ba_seq_set al ! i}"

lemma sum_card_parts:
  "distinct (concat xss) \<Longrightarrow> (\<Sum>xs \<leftarrow> xss. card {i \<in> set xs. P i}) = card {i \<in> set (concat xss). P i}"
proof (induction xss)
  case (Cons xs xss)
  have "{i \<in> set (concat (xs # xss)). P i} = {i \<in> set xs. P i} \<union> {i \<in> set (concat xss). P i}" by auto
  moreover have "{i \<in> set xs. P i} \<inter> {i \<in> set (concat xss). P i} = {}" using Cons.prems by auto
  ultimately have "card {i \<in> set (concat (xs # xss)). P i} = card {i \<in> set xs. P i} + card {i \<in> set (concat xss). P i}"
    by (simp only: card_Un_disjoint finite_set finite_Collect_conjI disjI1 Collect_mem_eq)
  then show ?case using Cons by simp
qed simp

lemma made_by_seqs:
  assumes "allocr_wf al" "0 < ba_n_pos_per_embd al" "made_by al n eq ub" "set (ub_batch_idxs ub) \<subseteq> {..<batch_n al}" "k < ub_n_tokens ub"
  shows "ub_seqs ub k = ba_seq_set al ! (ub_batch_idxs ub ! k)" "ub_pos ub ! k = the (b_pos (ba_batch al)) ! (ub_batch_idxs ub ! k)"
    "k < length (ub_batch_idxs ub)"
proof -
  note m = made_by_fields [OF assms(3,2)]
  show k: "k < length (ub_batch_idxs ub)" using assms(5) m(1) by simp
  then have "ub_batch_idxs ub ! k < batch_n al" using nth_mem [OF k] assms(4) by blast
  then show "ub_seqs ub k = ba_seq_set al ! (ub_batch_idxs ub ! k)"
    using m(4) [OF k] allocr_wfD(4) [OF assms(1)] by (simp add: ub_seqs_def)
  show "ub_pos ub ! k = the (b_pos (ba_batch al)) ! (ub_batch_idxs ub ! k)" by (rule m(2) [OF k])
qed

lemma ub_need_card:
  assumes "kvc_wf kc" "ub_ok kc ub"
  shows "ub_need kc ub t = card {k. k < ub_n_tokens ub \<and> (\<exists>q \<in> ub_seqs ub k. stream_of kc q = t)}"
proof -
  let ?N = "ub_n_slots kc ub" and ?n = "ub_per_slot kc ub"
  note mult = ub_slots_mult [OF assms(2)]
  have at: "(\<exists>q \<in> ub_seqs ub (s * ?n + ii). stream_of kc q = t) \<longleftrightarrow> ub_stream kc ub s = t" if "s < ?N" "ii < ?n" for s ii
  proof -
    have "ub_seqs ub (s * ?n + ii) \<noteq> {}" using ub_okD(4) [OF assms(2) ub_token_index(1) [OF assms(2) that]] by (simp add: ub_seqs_def)
    then obtain q0 where "q0 \<in> ub_seqs ub (s * ?n + ii)" by blast
    moreover have "stream_of kc q = ub_stream kc ub s" if "q \<in> ub_seqs ub (s * ?n + ii)" for q
      by (rule ub_token_stream(2) [OF assms \<open>s < ?N\<close> \<open>ii < ?n\<close> that])
    ultimately show ?thesis by (auto simp: Bex_def)
  qed
  let ?T = "{k. k < ub_n_tokens ub \<and> (\<exists>q \<in> ub_seqs ub k. stream_of kc q = t)}"
  show ?thesis
  proof (cases "\<exists>s < ?N. ub_stream kc ub s = t")
    case True
    then obtain s where s: "s < ?N" "ub_stream kc ub s = t" by blast
    have "?T = (\<lambda>ii. s * ?n + ii) ` {..<?n}"
    proof (intro set_eqI iffI)
      fix k assume k: "k \<in> ?T"
      obtain s' ii where d: "s' < ?N" "ii < ?n" "k = s' * ?n + ii"
        by (rule ub_token_decomp [OF assms(2), of k]) (use k in auto)
      then have "ub_stream kc ub s' = t" using k at [OF d(1,2)] by simp
      then have "s' = s" using ub_stream_inj [OF assms(2) d(1) s(1)] s(2) by simp
      then show "k \<in> (\<lambda>ii. s * ?n + ii) ` {..<?n}" using d by blast
    next
      fix k assume "k \<in> (\<lambda>ii. s * ?n + ii) ` {..<?n}"
      then obtain ii where "ii < ?n" "k = s * ?n + ii" by blast
      then show "k \<in> ?T" using at [OF s(1)] s(2) ub_token_index(1) [OF assms(2) s(1)] by simp
    qed
    moreover have "card ((\<lambda>ii. s * ?n + ii) ` {..<?n}) = ?n" by (subst card_image) (simp_all add: inj_on_def)
    ultimately show ?thesis using True by (simp add: ub_need_def)
  next
    case False
    have "?T = {}"
    proof (rule equals0I)
      fix k assume k: "k \<in> ?T"
      obtain s' ii where d: "s' < ?N" "ii < ?n" "k = s' * ?n + ii"
        by (rule ub_token_decomp [OF assms(2), of k]) (use k in auto)
      then show False using k at [OF d(1,2)] False by auto
    qed
    then show ?thesis using False by (simp only: ub_need_def if_False card.empty)
  qed
qed

lemma ub_need_batch:
  assumes "kvc_wf kc" "ub_ok kc ub" "allocr_wf al" "0 < ba_n_pos_per_embd al" "made_by al n eq ub"
    and "set (ub_batch_idxs ub) \<subseteq> {..<batch_n al}" "distinct (ub_batch_idxs ub)"
  shows "ub_need kc ub t = card {i \<in> set (ub_batch_idxs ub). \<exists>q \<in> ba_seq_set al ! i. stream_of kc q = t}"
proof -
  let ?I = "ub_batch_idxs ub"
  have n: "ub_n_tokens ub = length ?I" by (rule made_by_fields(1) [OF assms(5,4)])
  have "{i \<in> set ?I. \<exists>q \<in> ba_seq_set al ! i. stream_of kc q = t} =
      (!) ?I ` {k. k < ub_n_tokens ub \<and> (\<exists>q \<in> ub_seqs ub k. stream_of kc q = t)}"
    using made_by_seqs(1) [OF assms(3-6)] n by (auto simp: set_conv_nth image_iff)
  moreover have "inj_on ((!) ?I) {k. k < ub_n_tokens ub \<and> (\<exists>q \<in> ub_seqs ub k. stream_of kc q = t)}"
    using assms(7) n by (auto simp: inj_on_def nth_eq_iff_index_eq)
  ultimately show ?thesis unfolding ub_need_card [OF assms(1,2)] by (simp add: card_image)
qed

lemma batch_need_sum:
  assumes "kvc_wf kc" "allocr_wf al" "0 < ba_n_pos_per_embd al" "splits_once al ubs"
    and "\<forall>ub \<in> set ubs. ub_ok kc ub \<and> (\<exists>n eq. made_by al n eq ub)"
  shows "(\<Sum>ub \<leftarrow> ubs. ub_need kc ub t) = batch_need kc al t" "(\<Union>ub \<in> set ubs. ub_new ub q) = batch_new al q"
proof -
  have d: "distinct (concat (map ub_batch_idxs ubs))" "set (concat (map ub_batch_idxs ubs)) = {..<batch_n al}"
    using assms(4) unfolding splits_once_def by blast+
  have "ub_need kc ub t = card {i \<in> set (ub_batch_idxs ub). \<exists>q \<in> ba_seq_set al ! i. stream_of kc q = t}" if ub: "ub \<in> set ubs" for ub
  proof -
    obtain n eq where m: "made_by al n eq ub" using assms(5) ub by blast
    have "distinct (ub_batch_idxs ub)" using d(1) ub by (auto simp: distinct_concat_iff)
    then show ?thesis using ub_need_batch [OF assms(1) _ assms(2,3) m splits_once_D [OF assms(4) ub]] assms(5) ub by blast
  qed
  then have "(\<Sum>ub \<leftarrow> ubs. ub_need kc ub t) =
      (\<Sum>ub \<leftarrow> ubs. card {i \<in> set (ub_batch_idxs ub). \<exists>q \<in> ba_seq_set al ! i. stream_of kc q = t})"
    by (intro arg_cong [where f = sum_list] map_cong) auto
  also have "\<dots> = card {i \<in> set (concat (map ub_batch_idxs ubs)). \<exists>q \<in> ba_seq_set al ! i. stream_of kc q = t}"
    using sum_card_parts [OF d(1)] by (simp add: comp_def)
  also have "\<dots> = batch_need kc al t" unfolding d(2) batch_need_def by (rule arg_cong [where f = card]) auto
  finally show "(\<Sum>ub \<leftarrow> ubs. ub_need kc ub t) = batch_need kc al t" .
  have "ub_new ub q = {the (b_pos (ba_batch al)) ! i |i. i \<in> set (ub_batch_idxs ub) \<and> q \<in> ba_seq_set al ! i}" if ub: "ub \<in> set ubs" for ub
  proof -
    obtain n eq where m: "made_by al n eq ub" using assms(5) ub by blast
    have n: "ub_n_tokens ub = length (ub_batch_idxs ub)" by (rule made_by_fields(1) [OF m assms(3)])
    note k = made_by_seqs [OF assms(2,3) m splits_once_D [OF assms(4) ub]]
    show ?thesis
    proof (intro set_eqI iffI)
      fix p assume "p \<in> ub_new ub q"
      then obtain i where "i < ub_n_tokens ub" "q \<in> ub_seqs ub i" "p = ub_pos ub ! i" unfolding ub_new_def by blast
      then show "p \<in> {the (b_pos (ba_batch al)) ! i |i. i \<in> set (ub_batch_idxs ub) \<and> q \<in> ba_seq_set al ! i}"
        using k [of i] nth_mem [of i "ub_batch_idxs ub"] by auto
    next
      fix p assume "p \<in> {the (b_pos (ba_batch al)) ! i |i. i \<in> set (ub_batch_idxs ub) \<and> q \<in> ba_seq_set al ! i}"
      then obtain i where i: "i \<in> set (ub_batch_idxs ub)" "q \<in> ba_seq_set al ! i" "p = the (b_pos (ba_batch al)) ! i" by blast
      then obtain j where "j < ub_n_tokens ub" "ub_batch_idxs ub ! j = i" unfolding n by (auto simp: in_set_conv_nth)
      then show "p \<in> ub_new ub q" using k(1,2) [of j] i(2,3) unfolding ub_new_def by (intro CollectI exI [of _ j]) simp
    qed
  qed
  then have "(\<Union>ub \<in> set ubs. ub_new ub q) =
      (\<Union>ub \<in> set ubs. {the (b_pos (ba_batch al)) ! i |i. i \<in> set (ub_batch_idxs ub) \<and> q \<in> ba_seq_set al ! i})" by simp
  also have "\<dots> = {the (b_pos (ba_batch al)) ! i |i. i \<in> set (concat (map ub_batch_idxs ubs)) \<and> q \<in> ba_seq_set al ! i}" by auto
  also have "\<dots> = batch_new al q" unfolding d(2) batch_new_def by simp
  finally show "(\<Union>ub \<in> set ubs. ub_new ub q) = batch_new al q" .
qed




subsection \<open>The split of a recurrent memory\<close>

lemma recurrent_split_all:
  assumes "allocr_wf al" "embd_all \<or> (\<not> ba_has_cpl al \<and> singles al)" "n_rs_seq = 0 \<or> n_rs_seq + 1 < n_ubatch"
  shows "split_ok (\<lambda>ub. if embd_all then seq_good n_ubatch al ub else equal_good n_ubatch True 0 al ub)
    (recurrent_split n_rs_seq embd_all n_ubatch) al"
proof (cases embd_all)
  case True
  then have "recurrent_split n_rs_seq embd_all n_ubatch = (\<lambda>al. Some (split_seq n_ubatch al))"
    by (simp add: recurrent_split_def fun_eq_iff)
  then show ?thesis using True split_ok_seq [OF assms(1), of n_ubatch] by simp
next
  case False
  let ?keep = "if n_rs_seq > 0 then n_rs_seq + 1 else 0"
  have "recurrent_split n_rs_seq embd_all n_ubatch = split_equal n_ubatch True ?keep 0"
    using False by (simp add: recurrent_split_def fun_eq_iff)
  moreover have "split_ok (equal_good n_ubatch True 0 al) (split_equal n_ubatch True ?keep 0) al"
    by (rule split_ok_equal [OF assms(1)]) (use False assms(2,3) in auto)
  ultimately show ?thesis using False by simp
qed

text \<open>C28. A recurrent memory's split of a batch of single sequences (or any batch, when all tokens are
  output) ends, takes every token exactly once, and every micro-batch is of the kind asked for:
  the tokens of ever smaller sets of sequences, or equally many tokens of consecutive sequences.\<close>

theorem recurrent_split_sound:
  assumes "allocr_wf al" "embd_all \<or> (\<not> ba_has_cpl al \<and> singles al)" "n_rs_seq = 0 \<or> n_rs_seq + 1 < n_ubatch"
  shows "\<exists>al' ubs. split_batch (recurrent_split n_rs_seq embd_all n_ubatch) al = Some (al', Some ubs) \<and> splits_once al ubs \<and>
    (\<forall>ub \<in> set ubs. if embd_all then seq_good n_ubatch al ub else equal_good n_ubatch True 0 al ub)"
  using recurrent_split_all [OF assms] unfolding split_ok_def by blast

lemma ready_unused:
  assumes "allocr_init n_vocab mem inp n_embd n_seq_max output_all al = Some (al', True)" "inp_ok inp" "0 < n_seq_max"
  shows "allocr_wf al'" "unused al' = {..<nat (b_n_tokens inp)}" "set_prefix al'" "batch_n al' = nat (b_n_tokens inp)"
    "\<not> ba_has_cpl al' \<longrightarrow> singles al'" "ba_n_pos_per_embd al' = ba_n_pos_per_embd al"
    "ba_batch al' = filled mem output_all inp"
proof -
  have r: "allocr_wf al'" "unused al' = {..<batch_n al'}" "ba_batch al' = filled mem output_all inp" "\<not> ba_has_cpl al' \<longrightarrow> singles al'"
    "ba_n_pos_per_embd al' = ba_n_pos_per_embd al"
    using allocr_init_ready(1) [OF assms] unfolding ready_def by iprover+
  show "allocr_wf al'" "\<not> ba_has_cpl al' \<longrightarrow> singles al'" "ba_n_pos_per_embd al' = ba_n_pos_per_embd al"
    "ba_batch al' = filled mem output_all inp" by fact+
  show n: "batch_n al' = nat (b_n_tokens inp)" unfolding batch_n_def r(3) by simp
  show "unused al' = {..<nat (b_n_tokens inp)}" "set_prefix al'" using r(2) n by (simp_all add: set_prefix_def)
qed

lemma init_has_cpl:
  assumes "allocr_init n_vocab mem inp n_embd n_seq_max output_all al = Some (al', True)" "inp_ok inp"
  shows "ba_has_cpl al' \<longleftrightarrow> (\<exists>i < nat (b_n_tokens inp). 1 < length (b_seqs (filled mem output_all inp) i))"
proof -
  have "al' = split_reset (init_state mem inp n_embd n_seq_max output_all al)"
    using assms(1) unfolding allocr_init_eq Let_def by (auto split: if_splits)
  then show ?thesis using init_state_fields(8) [of mem inp n_embd n_seq_max output_all al] by (simp add: split_reset_def)
qed

lemma demo_batch_init:
  "\<exists>al'. allocr_init 10 None demo_batch 8 1 False (allocr_new 1) = Some (al', True) \<and> allocr_wf al' \<and> unused al' = {..<2} \<and> set_prefix al'"
proof -
  obtain al' where i: "allocr_init 10 None demo_batch 8 1 False (allocr_new 1) = Some (al', True)"
    using get_one_init [of 2 "[3, 4]" 10 1 None 8 False "allocr_new 1"]
    by (auto simp: demo_batch_def LLAMA_MAX_SEQ_def init_pos_def)
  have ok: "inp_ok demo_batch" "nat (b_n_tokens demo_batch) = 2" by (simp_all add: inp_ok_def demo_batch_def llama_batch_get_one_def)
  show ?thesis using ready_unused [OF i ok(1)] i ok(2) by auto
qed

theorem recurrent_split_sound_witness:
  "\<exists>al al' ubs. unused al = {..<2} \<and> split_batch (recurrent_split 1 True 4) al = Some (al', Some ubs) \<and> splits_once al ubs"
proof -
  obtain al where "allocr_wf al" "unused al = {..<2}" using demo_batch_init by blast
  then show ?thesis using recurrent_split_sound [of al True 1 4] by auto
qed

text \<open>C35. The splits for a memory with rollback snapshots never leave a short tail: of every
  sequence set in the micro-batch either no token is left or at least \<open>n_keep_tail\<close> are.\<close>

theorem split_equal_keeps_tail:
  assumes "allocr_wf al" "set_prefix al" "unused al \<noteq> {}" "sequential \<longrightarrow> \<not> ba_has_cpl al \<and> singles al" "n_keep_tail < n_ubatch"
  shows "\<exists>al' ub. split_equal n_ubatch sequential n_keep_tail max_sets al = Some (al', ub) \<and>
    0 < ub_n_tokens ub \<and> unused al' = unused al - set (ub_batch_idxs ub) \<and> equal_good n_ubatch sequential max_sets al ub \<and>
    (\<forall>i \<in> set (ub_batch_idxs ub). rest al' (ba_seq_set al ! i) = [] \<or> n_keep_tail \<le> length (rest al' (ba_seq_set al ! i)))"
proof -
  obtain al' ub where s: "split_equal n_ubatch sequential n_keep_tail max_sets al = Some (al', ub)"
    "took al (set (ub_batch_idxs ub)) al'" "ub_batch_idxs ub \<noteq> []" "ub_n_tokens ub = length (ub_batch_idxs ub)"
    "equal_good n_ubatch sequential max_sets al ub" "tail_kept n_keep_tail al al' ub"
    using split_equal_some [OF assms(1-4), of n_keep_tail n_ubatch max_sets] assms(5) by iprover
  then show ?thesis unfolding tail_kept_def using tookD(4) [OF s(2)] by auto
qed

theorem split_equal_keeps_tail_witness:
  "\<exists>al al' ub. unused al = {..<2} \<and> split_equal 4 False 2 0 al = Some (al', ub) \<and> 0 < ub_n_tokens ub"
proof -
  obtain al where "allocr_wf al" "unused al = {..<2}" "set_prefix al" using demo_batch_init by blast
  moreover have "0 \<in> ({..<2} :: nat set)" by simp
  then have "({..<2} :: nat set) \<noteq> {}" by blast
  ultimately show ?thesis using split_equal_keeps_tail [of al False 2 4 0] by (metis (no_types) numeral_less_iff semiring_norm(76) semiring_norm(78))
qed

text \<open>A recurrent memory with rollback snapshots aborts on a batch when the micro-batch is not
  larger than the tail it has to keep together.\<close>

theorem recurrent_split_aborts:
  assumes "allocr_wf al" "0 < batch_n al" "\<not> ba_has_cpl al" "0 < n_rs_seq" "n_ubatch \<le> n_rs_seq + 1"
  shows "split_batch (recurrent_split n_rs_seq False n_ubatch) al = None"
proof -
  let ?al = "split_reset al"
  have b: "batch_n ?al = batch_n al" "ba_has_cpl ?al = ba_has_cpl al" by (simp_all add: split_reset_def batch_n_def)
  have u: "\<not> ba_used ?al ! 0" using assms(2) by (simp add: split_reset_def)
  have grow: "length sets \<le> length (collect_sets al n True m is sets l)" for al n m "is" sets l
    by (induction "is" arbitrary: sets l) (auto simp: Let_def, (metis Suc_leD length_append_singleton)+)
  have "[0..<batch_n ?al] = 0 # [Suc 0..<batch_n ?al]" using assms(2) b by (simp add: upt_conv_Cons)
  then have "collect_sets ?al n_ubatch True 0 [0..<batch_n ?al] [] (-1) \<noteq> []"
  proof -
    have "collect_sets ?al n_ubatch True 0 [Suc 0..<batch_n ?al] [ba_seq_set ?al ! 0] l \<noteq> []" for l
      using grow [of "[ba_seq_set ?al ! 0]" ?al n_ubatch 0 "[Suc 0..<batch_n ?al]" l] by auto
    then show ?thesis using u \<open>[0..<batch_n ?al] = 0 # [Suc 0..<batch_n ?al]\<close> by (auto simp: Let_def)
  qed
  then have "recurrent_split n_rs_seq False n_ubatch ?al = None"
    using assms(3-5) b(2) by (simp add: recurrent_split_def split_equal_def)
  then have "drain (recurrent_split n_rs_seq False n_ubatch) ?al [] = None" by (subst drain.simps) simp
  then show ?thesis by (simp add: split_batch_def)
qed

theorem recurrent_split_aborts_witness:
  "\<exists>al. unused al = {..<2} \<and> split_batch (recurrent_split 1 False 2) al = None"
proof -
  obtain al where i: "allocr_init 10 None demo_batch 8 1 False (allocr_new 1) = Some (al, True)" "allocr_wf al" "unused al = {..<2}"
    using demo_batch_init by blast
  have ok: "inp_ok demo_batch" "b_n_tokens demo_batch = 2" by (simp_all add: inp_ok_def demo_batch_def llama_batch_get_one_def)
  have b: "ba_batch al = filled None False demo_batch" "batch_n al = 2" using ready_unused(4,7) [OF i(1) ok(1)] ok(2) by auto
  have "b_seqs (ba_batch al) k = [0]" if "k < 2" for k
    using get_one_filled(2) [of 2 k None False "[3, 4]"] that unfolding b(1) demo_batch_def by simp
  then have "\<forall>k < batch_n al. length (b_seqs (ba_batch al) k) = 1" using b(2) by simp
  moreover have "ba_has_cpl al \<longleftrightarrow> (\<exists>k < batch_n al. 1 < length (b_seqs (ba_batch al) k))"
    using init_has_cpl [OF i(1) ok(1)] b(2) ok(2) unfolding b(1) by simp
  ultimately have "\<not> ba_has_cpl al" by auto
  then show ?thesis using recurrent_split_aborts [of al 1 2] i b(2) by auto
qed

definition two_seqs :: batch_allocr where
  "two_seqs = (allocr_new 1)\<lparr>ba_batch := \<lparr>b_n_tokens = 2, b_token = Some [3, 4], b_embd = None, b_pos = Some [0, 0],
     b_n_seq_id = Some [1, 1], b_seq_id = Some [[0], [1]], b_logits = Some [0, 1]\<rparr>, ba_n_seq_max := 2,
     ba_seq_set := [{0}, {1}], ba_seq_set_map := (\<lambda>_. [])({0} := [0], {1} := [1]), ba_used := [False, False]\<rparr>"

lemma two_seqs_fields:
  "batch_n two_seqs = 2" "ba_used two_seqs = [False, False]" "ba_seq_set two_seqs = [{0}, {1}]" "\<not> ba_has_cpl two_seqs"
  "ba_seq_set_map two_seqs = (\<lambda>_. [])({0} := [0], {1} := [1])" "the (b_seq_id (ba_batch two_seqs)) = [[0], [1]]"
  "the (b_n_seq_id (ba_batch two_seqs)) = [1, 1]" "ba_n_used two_seqs = 0" "[0..<2] = [0, 1 :: nat]"
  by (simp_all add: two_seqs_def allocr_new_def batch_n_def upt_rec)

lemma two_seqs_wf: "allocr_wf two_seqs" "singles two_seqs"
proof -
  have lt: "i < 2 \<longleftrightarrow> i = 0 \<or> i = 1" for i :: nat by auto
  have u: "unused two_seqs = {0, 1}" unfolding unused_def two_seqs_fields(1,2) lt by auto
  have q: "b_seqs (ba_batch two_seqs) 0 = [0]" "b_seqs (ba_batch two_seqs) 1 = [1]"
    by (simp_all add: b_seqs_def two_seqs_fields)
  have "ba_seq_set_map two_seqs S = filter (\<lambda>i. ba_seq_set two_seqs ! i = S) [0..<batch_n two_seqs]" for S
    unfolding two_seqs_fields by auto
  then show "allocr_wf two_seqs"
    unfolding allocr_wf_def u two_seqs_fields(1) lt using q by (simp add: two_seqs_fields)
  have "b_seqs (ba_batch two_seqs) 0 = [int 0]" "b_seqs (ba_batch two_seqs) 1 = [int 1]" using q by simp_all
  then show "singles two_seqs" unfolding singles_def two_seqs_fields(1) lt by blast
qed

text \<open>An equal split of tokens of more sequences than \<open>n_ubatch\<close> gives a micro-batch of one token too
  many: the sequence sets are counted after the next one is taken.\<close>

theorem split_equal_one_too_many:
  "allocr_wf two_seqs \<and> (\<exists>al' ub. split_equal 1 True 0 0 two_seqs = Some (al', ub) \<and> ub_n_tokens ub = 2 \<and> ub_batch_idxs ub = [0, 1])"
proof -
  note f = two_seqs_fields
  have c: "collect_sets two_seqs 1 True 0 [0..<batch_n two_seqs] [] (-1) = [{0}, {1}]"
    unfolding f(1,9) by (simp add: f(2,3,6))
  let ?st = "\<lparr>eq_cur = map (set_start two_seqs) [{0}, {1}], eq_idxs = replicate 2 [], eq_al = two_seqs\<rparr>"
  have st: "set_start two_seqs {0} = 0" "set_start two_seqs {1} = 0" unfolding set_start_def f(2,5) by (simp_all add: nth_Cons' del: One_nat_def)
  have g: "eq_idxs (equal_go 1 [{0}, {1}] ?st) = [[0], [1]]"
    by (subst equal_go.simps) (simp add: can_expand_def take_one_def Let_def st st(2) [simplified] f(1-8) use_token_def numeral_2_eq_2)
  obtain al' ub where u: "ubatch_add [0, 1] 2 True (eq_al (equal_go 1 [{0}, {1}] ?st)) = (al', ub)" by fastforce
  have "split_equal 1 True 0 0 two_seqs = Some (al', ub)"
    unfolding split_equal_def c using f(4) g u by (simp add: Let_def numeral_2_eq_2)
  moreover have "ub_n_tokens ub = 2 \<and> ub_batch_idxs ub = [0, 1]"
    using ubatch_add_idxs [of "[0, 1]" 2 True "eq_al (equal_go 1 [{0}, {1}] ?st)"] unfolding u by simp
  ultimately show ?thesis using two_seqs_wf by blast
qed

definition partial_sets :: llama_batch where
  \<comment> \<open>the batch that the comment in \<open>init\<close> gives as invalid\<close>
  "partial_sets = \<lparr>b_n_tokens = 3, b_token = Some [3, 4, 5], b_embd = None, b_pos = Some [0, 1, 1],
     b_n_seq_id = Some [3, 2, 2], b_seq_id = Some [[0, 1, 2], [0, 1], [1, 2]], b_logits = Some [0, 0, 1]\<rparr>"

text \<open>\<open>init\<close> accepts the batch its comment gives as an example of an invalid one, with tokens
  of the sequences 0, 1 and 2, then 0 and 1, then 1 and 2.\<close>

theorem init_accepts_partial_sets:
  "\<exists>al'. allocr_init 10 None partial_sets 8 3 False (allocr_new 1) = Some (al', True)"
proof -
  have n: "i < 3 \<longleftrightarrow> i = 0 \<or> i = 1 \<or> i = 2" for i :: nat by auto
  have ids: "[0..<3] = [0, 1, 2 :: nat]" "[0..<2] = [0, 1 :: nat]" by (simp_all add: upt_rec)
  have f: "filled None False partial_sets = partial_sets"
    by (simp add: filled_def partial_sets_def fill_seqs_def fill_pos_def fill_logits_def)
  have b: "b_seqs partial_sets 0 = [0, 1, 2]" "b_seqs partial_sets 1 = [0, 1]" "b_seqs partial_sets 2 = [1, 2]"
    by (simp_all add: b_seqs_def partial_sets_def ids)
  have pos: "b_n_tokens partial_sets = 3" "the (b_pos partial_sets) = [0, 1, 1]" "b_token partial_sets = Some [3, 4, 5]"
    by (simp_all add: partial_sets_def)
  have E: "(\<exists>i < 3. P i) \<longleftrightarrow> P 0 \<or> P 1 \<or> P 2" for P :: "nat \<Rightarrow> bool" using n by auto
  have sp: "batch_positions partial_sets s = (if s < 3 then {0..1} else {})" for s
  proof -
    have "batch_positions partial_sets s = {p. \<exists>i < 3. p = [0, 1, 1] ! i \<and> int s \<in> set (b_seqs partial_sets i)}"
      unfolding batch_positions_def pos by auto
    also have "\<dots> = {p. (p = 0 \<and> int s \<in> {0, 1, 2}) \<or> (p = 1 \<and> int s \<in> {0, 1}) \<or> (p = 1 \<and> int s \<in> {1, 2})}"
      unfolding E b by simp
    also have "\<dots> = (if s < 3 then {0..1} else {})"
    proof -
      have "{0..1} = {0, 1 :: int}" by auto
      then show ?thesis by auto
    qed
    finally show ?thesis .
  qed
  have mm: "Min {0..1 :: int} = 0" "Max {0..1 :: int} = 1" by (rule Min_eqI Max_eqI; auto)+
  have "continues None 1 partial_sets s" for s
    by (simp add: continues_def sp Let_def init_pos_def mm)
  moreover have "in_order partial_sets"
  proof -
    have "\<forall>i j. i < j \<longrightarrow> j < 3 \<longrightarrow> [0, 1, 1 :: int] ! i \<le> [0, 1, 1] ! j" by (auto simp: n less_Suc_eq numeral_2_eq_2)
    then show ?thesis unfolding in_order_def pos by (auto simp: n)
  qed
  moreover have "coupled_alike None partial_sets" by (simp add: coupled_alike_def)
  ultimately have "accepted 10 None partial_sets 1 3" using b by (auto simp: accepted_def pos n)
  moreover have "inp_ok partial_sets" by (auto simp: inp_ok_def partial_sets_def n)
  ultimately show ?thesis
    using allocr_init_iff(2) [of partial_sets 3 10 None 8 False "allocr_new 1"] f by (simp add: allocr_new_def LLAMA_MAX_SEQ_def pos)
qed

end
