(* ===== verification/Recurrent.thy ===== *)
theory Recurrent
  imports BatchCache begin

text \<open>
  The memory of recurrent models, \<open>src/llama-memory-recurrent.cpp\<close>: a cell holds the state of a
  whole sequence, or of several sequences that still share it. Cell number \<open>q\<close> also records, in
  \<open>tail\<close>, which cell has the state of sequence \<open>q\<close>. The tensors are not part of the model: \<open>src\<close>
  and \<open>src0\<close> say which row a state is in, which is all the code decides about them.
\<close>

subsection \<open>State\<close>

record mem_cell =
  rc_pos :: llama_pos
  rc_src :: int
  rc_src0 :: int
  rc_tail :: int
  rc_seq :: "int set"

record rs_memory =
  rm_head :: nat
  rm_used :: nat
  rm_n_rs_seq :: nat
  rm_rs_idx :: "nat list"
  rm_n :: nat
  rm_rs_z :: int
  rm_cells :: "mem_cell list"
  rm_n_seq_max :: nat

definition rs_size :: "rs_memory \<Rightarrow> nat" where
  "rs_size m = length (rm_cells m)"

definition mem_cell_new :: mem_cell where
  "mem_cell_new = \<lparr>rc_pos = -1, rc_src = -1, rc_src0 = -1, rc_tail = -1, rc_seq = {}\<rparr>"

definition rs_new :: "nat \<Rightarrow> nat \<Rightarrow> nat \<Rightarrow> rs_memory" where
  "rs_new mem_size n_seq_max n_rs_seq = \<lparr>rm_head = 0, rm_used = 0, rm_n_rs_seq = n_rs_seq,
     rm_rs_idx = replicate n_seq_max 0, rm_n = 0, rm_rs_z = -1, rm_cells = replicate mem_size mem_cell_new,
     rm_n_seq_max = n_seq_max\<rparr>"

definition rs_cell :: "rs_memory \<Rightarrow> nat \<Rightarrow> mem_cell" where
  "rs_cell m i = rm_cells m ! i"

definition rs_upd :: "nat \<Rightarrow> (mem_cell \<Rightarrow> mem_cell) \<Rightarrow> rs_memory \<Rightarrow> rs_memory" where
  "rs_upd i f m = m\<lparr>rm_cells := (rm_cells m)[i := f (rm_cells m ! i)]\<rparr>"

definition rc_free :: "mem_cell \<Rightarrow> mem_cell" where
  \<comment> \<open>what happens to a cell that has lost its last sequence\<close>
  "rc_free c = c\<lparr>rc_pos := -1, rc_src := -1\<rparr>"

definition rs_end :: "llama_pos \<Rightarrow> llama_pos" where
  "rs_end p1 = (if p1 < 0 then INT32_MAX else p1)"

subsection \<open>Sequence operations\<close>

definition rs_clear :: "rs_memory \<Rightarrow> rs_memory" where
  "rs_clear m = m\<lparr>rm_cells := map (\<lambda>c. c\<lparr>rc_pos := -1, rc_seq := {}, rc_src := -1, rc_tail := -1\<rparr>) (rm_cells m),
     rm_head := 0, rm_used := 0, rm_rs_idx := map (\<lambda>_. 0) (rm_rs_idx m)\<rparr>"

definition set_rs_idx :: "int \<Rightarrow> nat \<Rightarrow> rs_memory \<Rightarrow> rs_memory option" where
  "set_rs_idx seq_id idx m =
     (if seq_id < 0 then Some (m\<lparr>rm_rs_idx := map (\<lambda>_. 0) (rm_rs_idx m)\<rparr>)
      else if nat seq_id < rm_n_seq_max m \<and> idx \<le> rm_n_rs_seq m
      then Some (m\<lparr>rm_rs_idx := (rm_rs_idx m)[nat seq_id := idx]\<rparr>) else None)"

definition rs_move_head :: "nat \<Rightarrow> rs_memory \<Rightarrow> rs_memory" where
  "rs_move_head new_head m = (if new_head \<noteq> rs_size m \<and> new_head < rm_head m then m\<lparr>rm_head := new_head\<rparr> else m)"

definition rs_rm_cell :: "int \<Rightarrow> llama_pos \<Rightarrow> llama_pos \<Rightarrow> nat \<Rightarrow> rs_memory \<times> nat \<Rightarrow> rs_memory \<times> nat" where
  "rs_rm_cell seq_id p0 p1 i = (\<lambda>(m, new_head).
     let c = rs_cell m i in
     if rc_pos c \<ge> p0 \<and> rc_pos c < p1 \<and> (seq_id < 0 \<or> seq_id \<in> rc_seq c)
     then let S = (if seq_id < 0 then {} else rc_seq c - {seq_id});
              m = rs_upd i (\<lambda>c. c\<lparr>rc_seq := S\<rparr>) m
       in if S = {}
          then (rs_upd i rc_free (if rc_pos c \<ge> 0 then m\<lparr>rm_used := u32_sub (rm_used m) 1\<rparr> else m),
                if new_head = rs_size m then i else new_head)
          else (m, new_head)
     else (m, new_head))"

definition rs_rm_loop :: "int \<Rightarrow> llama_pos \<Rightarrow> llama_pos \<Rightarrow> rs_memory \<Rightarrow> rs_memory" where
  "rs_rm_loop seq_id p0 p1 m =
     (case fold (rs_rm_cell seq_id p0 p1) [0..<rs_size m] (m, rs_size m) of (m, new_head) \<Rightarrow> rs_move_head new_head m)"

definition rs_seq_rm :: "int \<Rightarrow> llama_pos \<Rightarrow> llama_pos \<Rightarrow> rs_memory \<Rightarrow> (rs_memory \<times> bool) option" where
  \<comment> \<open>\<open>None\<close>: a failed assertion of \<open>set_rs_idx\<close>\<close>
  "rs_seq_rm seq_id p0 p1 m =
     (let p0 = max p0 0; p1 = rs_end p1 in
      if nat (seq_id mod 2 ^ 32) \<ge> rm_n_seq_max m then Some (m, False)
      else case (if p0 = 0 \<and> p1 = INT32_MAX then set_rs_idx seq_id 0 m else Some m) of
        None \<Rightarrow> None
      | Some m \<Rightarrow>
          if seq_id \<ge> int (rs_size m) then Some (m, False)
          else if 0 \<le> seq_id
          then let tail_id = rc_tail (rs_cell m (nat seq_id)) in
            if tail_id \<ge> 0
            then let c = rs_cell m (nat tail_id) in
              if 0 < p0 \<and> p0 \<le> rc_pos c \<and> p1 > rc_pos c
              then let rollback = rc_pos c - (p0 - 1);
                       pending = (rm_rs_idx m ! nat seq_id \<noteq> 0)
                in if \<not> pending \<and> rollback \<ge> 1 \<and> rollback \<le> int (rm_n_rs_seq m)
                   then map_option (\<lambda>m. (rs_upd (nat tail_id) (\<lambda>c. c\<lparr>rc_pos := p0 - 1\<rparr>) m, True))
                          (set_rs_idx seq_id (nat rollback) m)
                   else Some (m, False)
              else Some (rs_rm_loop seq_id p0 p1
                     (if p0 \<le> rc_pos c \<and> rc_pos c < p1 then rs_upd (nat seq_id) (\<lambda>c. c\<lparr>rc_tail := -1\<rparr>) m else m), True)
            else Some (rs_rm_loop seq_id p0 p1 m, True)
          else if p0 \<noteq> p1 \<and> (p0 \<noteq> 0 \<or> p1 \<noteq> INT32_MAX) then Some (m, False)
          else Some (rs_rm_loop seq_id p0 p1 m, True))"

definition rs_drop :: "int \<Rightarrow> rs_memory \<Rightarrow> rs_memory" where
  \<comment> \<open>take a sequence out of the cell that has it\<close>
  "rs_drop q m =
     (let tail_id = rc_tail (rs_cell m (nat q)) in
      if tail_id \<ge> 0
      then let m = rs_upd (nat tail_id) (\<lambda>c. c\<lparr>rc_seq := rc_seq c - {q}\<rparr>) m;
               m = rs_upd (nat q) (\<lambda>c. c\<lparr>rc_tail := -1\<rparr>) m
        in if rc_seq (rs_cell m (nat tail_id)) = {}
           then (rs_upd (nat tail_id) rc_free m)\<lparr>rm_used := u32_sub (rm_used m) 1\<rparr> else m
      else m)"

definition rs_seq_cp :: "int \<Rightarrow> int \<Rightarrow> llama_pos \<Rightarrow> llama_pos \<Rightarrow> rs_memory \<Rightarrow> rs_memory" where
  \<comment> \<open>the range is not looked at\<close>
  "rs_seq_cp src dst p0 p1 m =
     (if src = dst then m
      else if nat (dst mod 2 ^ 32) < rs_size m \<and> nat (src mod 2 ^ 32) < rs_size m
      then let m = rs_drop dst m; tail_src = rc_tail (rs_cell m (nat src)) in
        if tail_src \<ge> 0
        then rs_upd (nat dst) (\<lambda>c. c\<lparr>rc_tail := tail_src\<rparr>)
               (rs_upd (nat tail_src) (\<lambda>c. c\<lparr>rc_seq := insert dst (rc_seq c)\<rparr>) m)
        else m
      else m)"

definition rs_keep_cell :: "int \<Rightarrow> nat \<Rightarrow> rs_memory \<times> nat \<Rightarrow> rs_memory \<times> nat" where
  "rs_keep_cell seq_id i = (\<lambda>(m, new_head).
     let m = (if int i \<noteq> seq_id then rs_upd i (\<lambda>c. c\<lparr>rc_tail := -1\<rparr>) m else m) in
     if seq_id \<notin> rc_seq (rs_cell m i)
     then (rs_upd i (\<lambda>c. (rc_free c)\<lparr>rc_seq := {}\<rparr>)
             (if rc_pos (rs_cell m i) \<ge> 0 then m\<lparr>rm_used := u32_sub (rm_used m) 1\<rparr> else m),
           if new_head = rs_size m then i else new_head)
     else (rs_upd i (\<lambda>c. c\<lparr>rc_seq := {seq_id}\<rparr>) m, new_head))"

definition rs_seq_keep :: "int \<Rightarrow> rs_memory \<Rightarrow> rs_memory" where
  "rs_seq_keep seq_id m =
     (case fold (rs_keep_cell seq_id) [0..<rs_size m] (m, rs_size m) of (m, new_head) \<Rightarrow> rs_move_head new_head m)"

definition rs_on_pos :: "int \<Rightarrow> llama_pos \<Rightarrow> llama_pos \<Rightarrow> (llama_pos \<Rightarrow> llama_pos) \<Rightarrow> rs_memory \<Rightarrow> rs_memory" where
  \<comment> \<open>change the position of a sequence if it is in the range\<close>
  "rs_on_pos seq_id p0 p1 f m =
     (let p0 = max p0 0; p1 = rs_end p1 in
      if p0 = p1 then m
      else if 0 \<le> seq_id \<and> seq_id < int (rs_size m)
      then let tail_id = rc_tail (rs_cell m (nat seq_id)) in
        if tail_id \<ge> 0 \<and> seq_id \<in> rc_seq (rs_cell m (nat tail_id)) \<and>
           p0 \<le> rc_pos (rs_cell m (nat tail_id)) \<and> rc_pos (rs_cell m (nat tail_id)) < p1
        then rs_upd (nat tail_id) (\<lambda>c. c\<lparr>rc_pos := f (rc_pos c)\<rparr>) m
        else m
      else m)"

definition rs_seq_add :: "int \<Rightarrow> llama_pos \<Rightarrow> llama_pos \<Rightarrow> llama_pos \<Rightarrow> rs_memory \<Rightarrow> rs_memory" where
  "rs_seq_add seq_id p0 p1 shift m = (if shift = 0 then m else rs_on_pos seq_id p0 p1 (\<lambda>p. p + shift) m)"

definition rs_seq_div :: "int \<Rightarrow> llama_pos \<Rightarrow> llama_pos \<Rightarrow> int \<Rightarrow> rs_memory \<Rightarrow> rs_memory" where
  \<comment> \<open>for \<open>d \<noteq> 0\<close>\<close>
  "rs_seq_div seq_id p0 p1 d m = (if d = 1 then m else rs_on_pos seq_id p0 p1 (\<lambda>p. c_div p d) m)"

definition rs_seq_pos_min :: "rs_memory \<Rightarrow> int \<Rightarrow> llama_pos" where
  "rs_seq_pos_min m q =
     (let result = fold (\<lambda>i r. if q \<in> rc_seq (rs_cell m i) then min r (rc_pos (rs_cell m i)) else r) [0..<rs_size m] INT32_MAX
      in if result = INT32_MAX then -1 else result)"

definition rs_seq_pos_max :: "rs_memory \<Rightarrow> int \<Rightarrow> llama_pos" where
  "rs_seq_pos_max m q =
     fold (\<lambda>i r. if q \<in> rc_seq (rs_cell m i) then max r (rc_pos (rs_cell m i)) else r) [0..<rs_size m] (-1)"

subsection \<open>Placing a micro-batch\<close>

definition set_ids :: "llama_ubatch \<Rightarrow> nat \<Rightarrow> int list" where
  \<comment> \<open>the sequences of the \<open>s\<close>-th sequence set: those of its first token\<close>
  "set_ids ub s = (let i = s * ub_n_seq_tokens ub in map (\<lambda>j. ub_seq_id ub ! i ! j) [0..<nat (ub_n_seq_id ub ! i)])"

fun rs_unshare :: "int list \<Rightarrow> nat \<Rightarrow> rs_memory \<Rightarrow> rs_memory \<times> bool" where
  \<comment> \<open>the sequences of one set, from the \<open>j\<close>-th on: all but the first give up their cell\<close>
  "rs_unshare [] j m = (m, True)"
| "rs_unshare (q # qs) j m =
     (if q < 0 \<or> q \<ge> int (rs_size m) then (m, False)
      else rs_unshare qs (j + 1) (if j > 0 then rs_drop q m else m))"

fun rs_unshare_all :: "llama_ubatch \<Rightarrow> nat list \<Rightarrow> rs_memory \<Rightarrow> rs_memory \<times> bool" where
  "rs_unshare_all ub [] m = (m, True)"
| "rs_unshare_all ub (s # ss) m =
     (case rs_unshare (set_ids ub s) 0 m of (m, ok) \<Rightarrow> if ok then rs_unshare_all ub ss m else (m, False))"

fun rs_probe :: "rs_memory \<Rightarrow> nat \<Rightarrow> nat \<Rightarrow> nat" where
  \<comment> \<open>the first empty cell from \<open>next\<close> on, in at most \<open>k\<close> steps\<close>
  "rs_probe m next 0 = next"
| "rs_probe m next (Suc k) =
     (let next = (if next \<ge> rs_size m then next - rs_size m else next) in
      if rc_seq (rs_cell m next) = {} then next else rs_probe m (next + 1) k)"

fun rs_probe_next :: "rs_memory \<Rightarrow> nat \<Rightarrow> nat \<Rightarrow> nat" where
  \<comment> \<open>the first empty cell after \<open>next\<close>\<close>
  "rs_probe_next m next 0 = next"
| "rs_probe_next m next (Suc k) =
     (let next = next + 1; next = (if next \<ge> rs_size m then next - rs_size m else next) in
      if rc_seq (rs_cell m next) = {} then next else rs_probe_next m next k)"

record assign_state =
  as_m :: rs_memory
  as_next :: nat
  as_min :: int
  as_max :: int

definition rs_take_cell :: "int \<Rightarrow> nat \<Rightarrow> rs_memory \<Rightarrow> rs_memory option" where
  \<comment> \<open>the empty cell \<open>e\<close> becomes the cell of sequence \<open>q\<close>, with the state it had\<close>
  "rs_take_cell q e m =
     (if e \<ge> rs_size m \<or> rc_seq (rs_cell m e) \<noteq> {} then None
      else let tail = rc_tail (rs_cell m (nat q)) in
        if tail \<ge> 0
        then let orig = rs_cell m (nat tail);
                 m = rs_upd e (\<lambda>c. c\<lparr>rc_pos := rc_pos orig, rc_src := rc_src orig\<rparr>) m;
                 m = rs_upd (nat tail) (\<lambda>c. c\<lparr>rc_seq := rc_seq c - {q}\<rparr>) m;
                 m = rs_upd e (\<lambda>c. c\<lparr>rc_seq := insert q (rc_seq c)\<rparr>) m
          in if rc_seq (rs_cell m (nat tail)) = {} then None
             else Some (rs_upd (nat q) (\<lambda>c. c\<lparr>rc_tail := int e\<rparr>) m)
        else Some (rs_upd (nat q) (\<lambda>c. c\<lparr>rc_tail := int e\<rparr>) m))"

definition rs_owns :: "rs_memory \<Rightarrow> int \<Rightarrow> bool option" where
  \<comment> \<open>does the sequence have a cell of its own\<close>
  "rs_owns m q =
     (let tail = rc_tail (rs_cell m (nat q)) in
      if tail \<ge> 0
      then (if q \<in> rc_seq (rs_cell m (nat tail)) then Some (card (rc_seq (rs_cell m (nat tail))) = 1) else None)
      else Some False)"

definition rs_assign :: "llama_ubatch \<Rightarrow> nat \<Rightarrow> assign_state \<Rightarrow> assign_state option" where
  "rs_assign ub s st =
     (let q = hd (set_ids ub s) in
      case rs_owns (as_m st) q of
        None \<Rightarrow> None
      | Some has_cell \<Rightarrow>
          (case (if has_cell then Some st
                 else map_option (\<lambda>m. st\<lparr>as_m := m, as_next :=
                        (if s + 1 < ub_n_seqs ub then rs_probe_next m (as_next st) (rs_size m) else as_next st)\<rparr>)
                      (rs_take_cell q (as_next st) (as_m st))) of
             None \<Rightarrow> None
           | Some st \<Rightarrow>
               let tail = rc_tail (rs_cell (as_m st) (nat q))
               in Some (st\<lparr>as_min := min (as_min st) tail, as_max := max (as_max st) tail\<rparr>)))"

definition rs_swap :: "nat \<Rightarrow> nat \<Rightarrow> rs_memory \<Rightarrow> rs_memory" where
  \<comment> \<open>exchange two cells, and the tails that point to them\<close>
  "rs_swap dst src m =
     (let d = rs_cell m dst; s = rs_cell m src;
          m = rs_upd dst (\<lambda>c. c\<lparr>rc_pos := rc_pos s, rc_src := rc_src s, rc_seq := rc_seq s\<rparr>) m;
          m = rs_upd src (\<lambda>c. c\<lparr>rc_pos := rc_pos d, rc_src := rc_src d, rc_seq := rc_seq d\<rparr>) m
      in m\<lparr>rm_cells := map (\<lambda>c. c\<lparr>rc_tail := if rc_tail c = int src then int dst
             else if rc_tail c = int dst then int src else rc_tail c\<rparr>) (rm_cells m)\<rparr>)"

definition rs_gather :: "llama_ubatch \<Rightarrow> nat \<Rightarrow> nat \<Rightarrow> rs_memory \<Rightarrow> rs_memory" where
  "rs_gather ub mn s m =
     (let dst = s + mn; src = nat (rc_tail (rs_cell m (nat (hd (set_ids ub s))))) in
      if dst \<noteq> src then rs_swap dst src m else m)"

definition rs_place :: "llama_ubatch \<Rightarrow> nat \<Rightarrow> nat \<Rightarrow> rs_memory \<Rightarrow> rs_memory" where
  \<comment> \<open>the cell of a set gets the last position and the sequences\<close>
  "rs_place ub mn s m =
     (let i = s * ub_n_seq_tokens ub; cell_id = s + mn;
          m = rs_upd cell_id (\<lambda>c. c\<lparr>rc_pos := ub_pos ub ! (i + ub_n_seq_tokens ub - 1), rc_seq := {}\<rparr>) m
      in fold (\<lambda>q m. rs_upd (nat q) (\<lambda>c. c\<lparr>rc_tail := int cell_id\<rparr>)
                 (rs_upd cell_id (\<lambda>c. c\<lparr>rc_seq := insert q (rc_seq c)\<rparr>) m)) (set_ids ub s) m)"

definition refcount :: "rs_memory \<Rightarrow> nat \<Rightarrow> nat" where
  "refcount m i = length (filter (\<lambda>c. rc_src c = int i) (rm_cells m))"

definition rs_stage :: "int \<Rightarrow> nat \<Rightarrow> rs_memory \<Rightarrow> rs_memory option" where
  \<comment> \<open>keep the row a state comes from in \<open>src0\<close>; from now on the state is in its own row\<close>
  "rs_stage rs_z i m =
     (if rc_src (rs_cell m i) < 0 \<and> rs_z < 0 then None
      else Some (rs_upd i (\<lambda>c. c\<lparr>rc_src0 := if rc_src c < 0 then rs_z else rc_src c, rc_src := int i\<rparr>) m))"

definition rs_find_slot :: "llama_ubatch \<Rightarrow> rs_memory \<Rightarrow> (rs_memory \<times> bool) option" where
  \<comment> \<open>\<open>None\<close>: a failed assertion\<close>
  "rs_find_slot ub m =
     (let n_seqs = ub_n_seqs ub;
          m = (if rm_head m > rm_used m + 2 * n_seqs then m\<lparr>rm_head := 0\<rparr> else m)
      in if \<not> ub_equal_seqs ub then None
      else case rs_unshare_all ub [0..<n_seqs] m of (m, ok) \<Rightarrow>
        if \<not> ok then Some (m, False)
        else case fold_opt (rs_assign ub) [0..<n_seqs]
                \<lparr>as_m = m, as_next = rs_probe m (rm_head m) (rs_size m), as_min = int (rs_size m) - 1, as_max = 0\<rparr> of
          None \<Rightarrow> None
        | Some st \<Rightarrow>
            let mn = nat (as_min st); mx = nat (as_max st);
                m = fold (rs_gather ub mn) [0..<n_seqs] (as_m st);
                m = fold (rs_place ub mn) [0..<n_seqs] m;
                rs_z = (case find (\<lambda>i. refcount m i = 0) [mn..<mx + 1] of None \<Rightarrow> -1 | Some i \<Rightarrow> int i);
                m = m\<lparr>rm_rs_z := rs_z\<rparr>
            in case fold_opt (rs_stage rs_z) [mn..<mx + 1] m of
                 None \<Rightarrow> None
               | Some m \<Rightarrow>
                   let n = nat ((int mx - int mn + 1) mod 2 ^ 32);
                       m = m\<lparr>rm_head := mn, rm_n := n,
                         rm_used := length (filter (\<lambda>c. rc_seq c \<noteq> {}) (rm_cells m))\<rparr>
                   in Some (m, n \<ge> n_seqs))"

fun rs_place_all :: "llama_ubatch list \<Rightarrow> rs_memory \<Rightarrow> (rs_memory \<times> bool) option" where
  "rs_place_all [] m = Some (m, True)"
| "rs_place_all (ub # ubs) m =
     (case rs_find_slot ub m of None \<Rightarrow> None | Some (m, ok) \<Rightarrow> if ok then rs_place_all ubs m else Some (m, False))"

definition rs_prepare :: "llama_ubatch list \<Rightarrow> rs_memory \<Rightarrow> (rs_memory \<times> bool) option" where
  "rs_prepare ubatches m =
     map_option (\<lambda>(m', success). (m'\<lparr>rm_cells := rm_cells m, rm_used := rm_used m, rm_head := rm_head m\<rparr>, success))
       (rs_place_all ubatches m)"

definition rs_init_batch :: "nat \<Rightarrow> bool \<Rightarrow> batch_allocr \<Rightarrow> rs_memory \<Rightarrow>
    (batch_allocr \<times> rs_memory \<times> llama_ubatch list option) option" where
  "rs_init_batch n_ubatch embd_all al m =
     (case split_batch (recurrent_split (rm_n_rs_seq m) embd_all n_ubatch) al of
        None \<Rightarrow> None
      | Some (al, None) \<Rightarrow> Some (al, m, None)
      | Some (al, Some ubatches) \<Rightarrow>
          map_option (\<lambda>(m, ok). (al, m, if ok then Some ubatches else None)) (rs_prepare ubatches m))"

definition rs_s_copy :: "nat \<Rightarrow> rs_memory \<Rightarrow> rs_memory \<times> int" where
  \<comment> \<open>the row that the \<open>i\<close>-th cell of the batch is read from; a pending rollback is used up\<close>
  "rs_s_copy i m =
     (let c = rs_cell m (i + rm_head m) in
      if rm_n_rs_seq m = 0 then (m, rc_src0 c)
      else if rc_seq c \<noteq> {} \<and> 0 \<le> Min (rc_seq c) \<and> nat (Min (rc_seq c)) < length (rm_rs_idx m)
      then let q = nat (Min (rc_seq c)); idx = rm_rs_idx m ! q
        in (m\<lparr>rm_rs_idx := (rm_rs_idx m)[q := 0]\<rparr>, int (idx * rs_size m) + rc_src0 c)
      else (m, rc_src0 c))"

subsection \<open>The invariant\<close>

lemma rs_upd_simps [simp]:
  "rs_size (rs_upd i f m) = rs_size m" "rm_head (rs_upd i f m) = rm_head m" "rm_used (rs_upd i f m) = rm_used m"
  "rm_n_rs_seq (rs_upd i f m) = rm_n_rs_seq m" "rm_rs_idx (rs_upd i f m) = rm_rs_idx m" "rm_n_seq_max (rs_upd i f m) = rm_n_seq_max m"
  "rm_n (rs_upd i f m) = rm_n m" "rm_rs_z (rs_upd i f m) = rm_rs_z m"
  "rs_cell (rs_upd i f m) j = (if i = j \<and> i < rs_size m then f (rs_cell m i) else rs_cell m j)"
  by (auto simp: rs_upd_def rs_size_def rs_cell_def nth_upd)

lemma rs_field_simps [simp]:
  "rs_size (m\<lparr>rm_used := u\<rparr>) = rs_size m" "rs_cell (m\<lparr>rm_used := u\<rparr>) = rs_cell m"
  "rs_size (m\<lparr>rm_head := h\<rparr>) = rs_size m" "rs_cell (m\<lparr>rm_head := h\<rparr>) = rs_cell m"
  "rs_size (m\<lparr>rm_rs_idx := r\<rparr>) = rs_size m" "rs_cell (m\<lparr>rm_rs_idx := r\<rparr>) = rs_cell m"
  "rs_size (m\<lparr>rm_n := k\<rparr>) = rs_size m" "rs_cell (m\<lparr>rm_n := k\<rparr>) = rs_cell m"
  "rs_size (m\<lparr>rm_rs_z := z\<rparr>) = rs_size m" "rs_cell (m\<lparr>rm_rs_z := z\<rparr>) = rs_cell m"
  by (simp_all add: rs_size_def rs_cell_def fun_eq_iff)

lemma rc_free_simps [simp]:
  "rc_pos (rc_free c) = -1" "rc_src (rc_free c) = -1" "rc_tail (rc_free c) = rc_tail c" "rc_seq (rc_free c) = rc_seq c"
  "rc_src0 (rc_free c) = rc_src0 c"
  by (simp_all add: rc_free_def)

definition rs_tail :: "rs_memory \<Rightarrow> nat \<Rightarrow> int" where
  "rs_tail m q = rc_tail (rs_cell m q)"

definition rs_occ :: "rs_memory \<Rightarrow> nat \<Rightarrow> nat set" where
  \<comment> \<open>the sequences whose tail is cell \<open>i\<close>\<close>
  "rs_occ m i = {q. q < rs_size m \<and> rs_tail m q = int i}"

definition rs_busy :: "rs_memory \<Rightarrow> nat set" where
  "rs_busy m = {i. i < rs_size m \<and> rc_seq (rs_cell m i) \<noteq> {}}"

definition rs_wf :: "rs_memory \<Rightarrow> bool" where
  \<comment> \<open>the sequences of a cell are those whose tail it is; a cell has a position if it has a sequence\<close>
  "rs_wf m \<longleftrightarrow> length (rm_rs_idx m) = rm_n_seq_max m \<and> rs_size m < 2 ^ 31 \<and> rm_head m \<le> rs_size m \<and>
     (\<forall>q < rs_size m. -1 \<le> rs_tail m q \<and> rs_tail m q < int (rs_size m)) \<and>
     (\<forall>i < rs_size m. rc_seq (rs_cell m i) = int ` rs_occ m i) \<and>
     (\<forall>i < rs_size m. rc_src (rs_cell m i) \<in> {-1, int i}) \<and>
     (\<forall>i < rs_size m. if rc_seq (rs_cell m i) = {} then rc_pos (rs_cell m i) = -1 else 0 \<le> rc_pos (rs_cell m i)) \<and>
     rm_used m = card (rs_busy m)"

lemma rs_wfD:
  assumes "rs_wf m"
  shows "length (rm_rs_idx m) = rm_n_seq_max m" "rs_size m < 2 ^ 31" "rm_head m \<le> rs_size m"
    "q < rs_size m \<Longrightarrow> -1 \<le> rs_tail m q" "q < rs_size m \<Longrightarrow> rs_tail m q < int (rs_size m)"
    "i < rs_size m \<Longrightarrow> rc_seq (rs_cell m i) = int ` rs_occ m i"
    "i < rs_size m \<Longrightarrow> rc_src (rs_cell m i) = -1 \<or> rc_src (rs_cell m i) = int i"
    "i < rs_size m \<Longrightarrow> rc_seq (rs_cell m i) = {} \<Longrightarrow> rc_pos (rs_cell m i) = -1"
    "i < rs_size m \<Longrightarrow> rc_seq (rs_cell m i) \<noteq> {} \<Longrightarrow> 0 \<le> rc_pos (rs_cell m i)"
    "rm_used m = card (rs_busy m)"
  using assms unfolding rs_wf_def by (auto split: if_splits)

definition rs_last :: "rs_memory \<Rightarrow> nat \<Rightarrow> llama_pos option" where
  \<comment> \<open>what the memory is for: the last position of each sequence\<close>
  "rs_last m q = (if q < rs_size m \<and> 0 \<le> rs_tail m q then Some (rc_pos (rs_cell m (nat (rs_tail m q)))) else None)"

lemma finite_rs_busy [simp]: "finite (rs_busy m)"
  by (rule finite_subset [of _ "{..<rs_size m}"]) (auto simp: rs_busy_def)

lemma rs_busy_less: "rs_wf m \<Longrightarrow> card (rs_busy m) < 2 ^ 32"
proof -
  assume wf: "rs_wf m"
  have "card (rs_busy m) \<le> card {..<rs_size m}" by (rule card_mono) (auto simp: rs_busy_def)
  then show ?thesis using rs_wfD(2) [OF wf] by simp
qed

lemma rs_tail_cell:
  assumes "rs_wf m" "q < rs_size m" "0 \<le> rs_tail m q"
  shows "nat (rs_tail m q) < rs_size m" "int q \<in> rc_seq (rs_cell m (nat (rs_tail m q)))"
    "q \<in> rs_occ m (nat (rs_tail m q))" "0 \<le> rc_pos (rs_cell m (nat (rs_tail m q)))"
proof -
  show t: "nat (rs_tail m q) < rs_size m" using rs_wfD(5) [OF assms(1,2)] assms(3) by linarith
  show o: "q \<in> rs_occ m (nat (rs_tail m q))" using assms by (simp add: rs_occ_def)
  then show "int q \<in> rc_seq (rs_cell m (nat (rs_tail m q)))" using rs_wfD(6) [OF assms(1) t] by simp
  then show "0 \<le> rc_pos (rs_cell m (nat (rs_tail m q)))" using rs_wfD(9) [OF assms(1) t] by auto
qed

lemma rs_seq_tail:
  assumes "rs_wf m" "i < rs_size m" "q \<in> rc_seq (rs_cell m i)"
  shows "0 \<le> q" "nat q < rs_size m" "rs_tail m (nat q) = int i"
  using assms rs_wfD(6) [OF assms(1,2)] by (auto simp: rs_occ_def)

text \<open>A sequence is taken out of its cell.\<close>

lemma rs_drop_effect:
  assumes "rs_wf m" "q < rs_size m"
  shows "rs_wf (rs_drop (int q) m)" "rs_size (rs_drop (int q) m) = rs_size m" "rm_head (rs_drop (int q) m) = rm_head m"
    "rm_n_rs_seq (rs_drop (int q) m) = rm_n_rs_seq m" "rm_rs_idx (rs_drop (int q) m) = rm_rs_idx m"
    "rm_n_seq_max (rs_drop (int q) m) = rm_n_seq_max m"
    "rs_tail (rs_drop (int q) m) q' = (if q' = q then -1 else rs_tail m q')"
    "i < rs_size m \<Longrightarrow> rc_seq (rs_cell (rs_drop (int q) m) i) = rc_seq (rs_cell m i) - {int q}"
    "i < rs_size m \<Longrightarrow> rc_seq (rs_cell (rs_drop (int q) m) i) \<noteq> {} \<Longrightarrow>
       rc_pos (rs_cell (rs_drop (int q) m) i) = rc_pos (rs_cell m i) \<and> rc_src (rs_cell (rs_drop (int q) m) i) = rc_src (rs_cell m i)"
    "i < rs_size m \<Longrightarrow> rc_src (rs_cell (rs_drop (int q) m) i) \<in> {-1, rc_src (rs_cell m i)}"
proof -
  let ?t = "rs_tail m q" and ?m' = "rs_drop (int q) m"
  note w = rs_wfD [OF assms(1)]
  show fields: "rs_size ?m' = rs_size m" "rm_head ?m' = rm_head m"
    "rm_n_rs_seq ?m' = rm_n_rs_seq m" "rm_rs_idx ?m' = rm_rs_idx m" "rm_n_seq_max ?m' = rm_n_seq_max m"
    by (simp_all add: rs_drop_def Let_def)
  have tail: "rs_tail ?m' q' = (if q' = q then -1 else rs_tail m q')" for q'
    using assms(2) w(4) [of q] by (auto simp: rs_drop_def rs_tail_def Let_def)
  then show "rs_tail ?m' q' = (if q' = q then -1 else rs_tail m q')" .
  have at: "0 \<le> ?t \<Longrightarrow> nat ?t < rs_size m" using rs_tail_cell(1) [OF assms] .
  have seq: "rc_seq (rs_cell ?m' i) = rc_seq (rs_cell m i) - {int q}" if i: "i < rs_size m" for i
  proof -
    have "int q \<in> rc_seq (rs_cell m i) \<longleftrightarrow> ?t = int i" using w(6) [OF i] assms(2) by (auto simp: rs_occ_def)
    then show ?thesis using at i by (auto simp: rs_drop_def Let_def rs_tail_def)
  qed
  then show "i < rs_size m \<Longrightarrow> rc_seq (rs_cell ?m' i) = rc_seq (rs_cell m i) - {int q}" .
  have keep: "rc_pos (rs_cell ?m' i) = rc_pos (rs_cell m i) \<and> rc_src (rs_cell ?m' i) = rc_src (rs_cell m i)"
    if "i < rs_size m" "rc_seq (rs_cell ?m' i) \<noteq> {}" for i
    using that by (auto simp: rs_drop_def Let_def rs_tail_def split: if_splits)
  then show "i < rs_size m \<Longrightarrow> rc_seq (rs_cell ?m' i) \<noteq> {} \<Longrightarrow>
      rc_pos (rs_cell ?m' i) = rc_pos (rs_cell m i) \<and> rc_src (rs_cell ?m' i) = rc_src (rs_cell m i)" .
  show src: "i < rs_size m \<Longrightarrow> rc_src (rs_cell ?m' i) \<in> {-1, rc_src (rs_cell m i)}" for i
    by (auto simp: rs_drop_def Let_def)
  have pos: "rc_pos (rs_cell ?m' i) = -1" if i: "i < rs_size m" and e: "rc_seq (rs_cell ?m' i) = {}" for i
  proof (cases "rc_seq (rs_cell m i) = {}")
    case True
    then have "?t \<noteq> int i" using w(6) [OF i] assms(2) by (auto simp: rs_occ_def)
    then show ?thesis using w(8) [OF i True] i by (auto simp: rs_drop_def Let_def rs_tail_def split: if_splits)
  next
    case False
    then have "rc_seq (rs_cell m i) = {int q}" using seq [OF i] e by blast
    moreover from this have "?t = int i" using rs_seq_tail(3) [OF assms(1) i, of "int q"] by simp
    ultimately show ?thesis using i by (auto simp: rs_drop_def Let_def rs_tail_def)
  qed
  have busy: "rs_busy ?m' = (if 0 \<le> ?t \<and> rc_seq (rs_cell m (nat ?t)) = {int q} then rs_busy m - {nat ?t} else rs_busy m)"
  proof -
    have mem: "i \<in> rs_busy ?m' \<longleftrightarrow> i \<in> rs_busy m \<and> rc_seq (rs_cell m i) \<noteq> {int q}" for i
      using seq [of i] by (auto simp: rs_busy_def fields)
    have t: "?t = int i" if "i < rs_size m" "rc_seq (rs_cell m i) = {int q}" for i
      using rs_seq_tail(3) [OF assms(1) that(1), of "int q"] that(2) by simp
    show ?thesis
    proof (cases "0 \<le> ?t \<and> rc_seq (rs_cell m (nat ?t)) = {int q}")
      case True
      then have "rc_seq (rs_cell m i) = {int q} \<longleftrightarrow> i = nat ?t" if "i < rs_size m" for i using t [OF that] by auto
      then show ?thesis using True mem by (auto simp: rs_busy_def)
    next
      case False
      then have "rc_seq (rs_cell m i) \<noteq> {int q}" if "i < rs_size m" for i using t [OF that] by (metis nat_int of_nat_0_le_iff)
      then have "rs_busy ?m' = rs_busy m" using mem by (auto simp: rs_busy_def)
      then show ?thesis using False by auto
    qed
  qed
  have used: "rm_used ?m' = card (rs_busy ?m')"
  proof (cases "0 \<le> ?t \<and> rc_seq (rs_cell m (nat ?t)) = {int q}")
    case True
    then have "nat ?t \<in> rs_busy m" using at by (simp add: rs_busy_def)
    then have "0 < card (rs_busy m)" by (auto simp: card_gt_0_iff)
    moreover obtain t where t: "?t = int t" using True nonneg_int_cases by blast
    then have "rc_tail (rs_cell m q) = int t" "rc_seq (rs_cell m t) = {int q}" "t < rs_size m"
      using True at by (simp_all add: rs_tail_def)
    then have "rm_used ?m' = u32_sub (rm_used m) 1" using assms(2) by (simp add: rs_drop_def Let_def)
    moreover have "card (rs_busy ?m') = card (rs_busy m) - 1"
      unfolding busy if_P [OF True] using \<open>nat ?t \<in> rs_busy m\<close> by simp
    ultimately show ?thesis using w(10) rs_busy_less [OF assms(1)] by simp
  next
    case False
    have "rm_used ?m' = rm_used m"
    proof (cases "0 \<le> ?t")
      case True
      obtain t where t: "?t = int t" using True nonneg_int_cases by blast
      then have "rc_tail (rs_cell m q) = int t" "rc_seq (rs_cell m t) - {int q} \<noteq> {}" "t < rs_size m"
        using False True at rs_tail_cell(2) [OF assms True] by (auto simp: rs_tail_def)
      then show ?thesis using assms(2) by (auto simp: rs_drop_def Let_def)
    qed (auto simp: rs_drop_def Let_def rs_tail_def)
    then show ?thesis using w(10) unfolding busy if_not_P [OF False] by simp
  qed
  have occ: "rs_occ ?m' i = rs_occ m i - {q}" if "i < rs_size m" for i
    using tail by (auto simp: rs_occ_def fields)
  show "rs_wf ?m'"
    unfolding rs_wf_def fields
  proof (intro conjI allI impI)
    show "rc_seq (rs_cell ?m' i) = int ` rs_occ ?m' i" if "i < rs_size m" for i
      using seq [OF that] occ [OF that] w(6) [OF that] by auto
    show "rc_src (rs_cell ?m' i) \<in> {-1, int i}" if "i < rs_size m" for i
      using src [OF that] w(7) [OF that] by auto
    show "if rc_seq (rs_cell ?m' i) = {} then rc_pos (rs_cell ?m' i) = -1 else 0 \<le> rc_pos (rs_cell ?m' i)"
      if i: "i < rs_size m" for i
    proof (cases "rc_seq (rs_cell ?m' i) = {}")
      case False
      then have "rc_seq (rs_cell m i) \<noteq> {}" using seq [OF i] by auto
      then show ?thesis using False keep [OF i False] w(9) [OF i] by simp
    qed (use pos [OF i] in simp)
  qed (use w tail used in auto)
qed

subsection \<open>The sequence operations\<close>

lemma fold_upt_only:
  assumes "t < n" "\<And>i. i < n \<Longrightarrow> i \<noteq> t \<Longrightarrow> f i s = s" "\<And>i. i < n \<Longrightarrow> i \<noteq> t \<Longrightarrow> f i (f t s) = f t s"
  shows "fold f [0..<n] s = f t s"
proof -
  have "fold f [0..<k] s = (if k \<le> t then s else f t s)" if "k \<le> n" for k
    using that
  proof (induction k)
    case (Suc k)
    then show ?case using assms(2) [of k] assms(3) [of k] by (cases "k = t") auto
  qed simp
  from this [of n] show ?thesis using assms(1) by simp
qed

lemma fold_upt_id: "(\<And>i. i < n \<Longrightarrow> f i s = s) \<Longrightarrow> fold f [0..<n] s = s"
  by (induction n) auto

lemma rs_wf_head: "rs_wf m \<Longrightarrow> h \<le> rs_size m \<Longrightarrow> rs_wf (m\<lparr>rm_head := h\<rparr>)"
  unfolding rs_wf_def by (simp add: rs_tail_def rs_occ_def rs_busy_def)

lemma rs_wf_move_head: "rs_wf m \<Longrightarrow> rs_wf (rs_move_head h m)"
  using rs_wf_head [of m h] rs_wfD(3) [of m] by (auto simp: rs_move_head_def)

lemma rs_wf_rs_idx: "rs_wf m \<Longrightarrow> length r = rm_n_seq_max m \<Longrightarrow> rs_wf (m\<lparr>rm_rs_idx := r\<rparr>)"
  unfolding rs_wf_def by (simp add: rs_tail_def rs_occ_def rs_busy_def)

lemma rs_move_head_simps [simp]:
  "rs_cell (rs_move_head h m) = rs_cell m" "rs_size (rs_move_head h m) = rs_size m" "rm_rs_idx (rs_move_head h m) = rm_rs_idx m"
  "rm_n_rs_seq (rs_move_head h m) = rm_n_rs_seq m" "rs_tail (rs_move_head h m) = rs_tail m" "rs_last (rs_move_head h m) = rs_last m"
  by (simp_all add: rs_move_head_def rs_tail_def rs_last_def fun_eq_iff)

lemma rs_last_cong: "rs_size m' = rs_size m \<Longrightarrow> rs_cell m' = rs_cell m \<Longrightarrow> rs_last m' = rs_last m"
  by (simp add: rs_last_def rs_tail_def fun_eq_iff)

lemma rs_last_drop:
  assumes "rs_wf m" "q < rs_size m"
  shows "rs_last (rs_drop (int q) m) = (rs_last m)(q := None)"
proof
  fix u
  note d = rs_drop_effect [OF assms]
  show "rs_last (rs_drop (int q) m) u = ((rs_last m)(q := None)) u"
  proof (cases "u \<noteq> q \<and> u < rs_size m \<and> 0 \<le> rs_tail m u")
    case True
    let ?i = "nat (rs_tail m u)"
    note c = rs_tail_cell [OF assms(1), of u]
    have i: "?i < rs_size m" "int u \<in> rc_seq (rs_cell m ?i)" using c True by blast+
    then have "rc_seq (rs_cell (rs_drop (int q) m) ?i) \<noteq> {}" using d(8) [OF i(1)] True by force
    then show ?thesis using d(7) d(9) [OF i(1)] True by (simp add: rs_last_def d(2))
  qed (use d(2,7) in \<open>auto simp: rs_last_def\<close>)
qed

lemma rs_rm_loop_none:
  assumes "rs_wf m" "q < rs_size m" "\<And>p. rs_last m q = Some p \<Longrightarrow> p < p0 \<or> p1 \<le> p"
  shows "rs_rm_loop (int q) p0 p1 m = m"
proof -
  have "rs_rm_cell (int q) p0 p1 i (m, h) = (m, h)" if i: "i < rs_size m" for i h
  proof (cases "int q \<in> rc_seq (rs_cell m i)")
    case True
    then have "rs_tail m q = int i" using rs_seq_tail(3) [OF assms(1) i True] by simp
    then show ?thesis using assms(2) assms(3) [of "rc_pos (rs_cell m i)"] by (auto simp: rs_rm_cell_def rs_last_def Let_def)
  qed (simp add: rs_rm_cell_def Let_def)
  then have "fold (rs_rm_cell (int q) p0 p1) [0..<rs_size m] (m, rs_size m) = (m, rs_size m)"
    by (intro fold_upt_id) simp
  then show ?thesis by (simp add: rs_rm_loop_def rs_move_head_def)
qed

lemma rs_rm_loop_some:
  assumes "rs_wf m" "q < rs_size m" "rs_last m q = Some p" "p0 \<le> p" "p < p1"
  shows "\<exists>h. rs_rm_loop (int q) p0 p1 (rs_upd q (\<lambda>c. c\<lparr>rc_tail := -1\<rparr>) m) = rs_move_head h (rs_drop (int q) m)"
proof -
  have t0: "0 \<le> rs_tail m q" using assms(3) by (simp add: rs_last_def split: if_splits)
  then obtain t where t: "rs_tail m q = int t" using nonneg_int_cases by blast
  note c = rs_tail_cell [OF assms(1,2) t0, unfolded t nat_int]
  let ?m = "rs_upd q (\<lambda>c. c\<lparr>rc_tail := -1\<rparr>) m" and ?f = "rs_rm_cell (int q) p0 p1"
  have pos: "rc_pos (rs_cell m t) = p" using assms(3) t by (simp add: rs_last_def split: if_splits)
  have cell: "rc_pos (rs_cell ?m i) = rc_pos (rs_cell m i)" "rc_seq (rs_cell ?m i) = rc_seq (rs_cell m i)" for i by simp_all
  have only: "int q \<notin> rc_seq (rs_cell m i)" if "i < rs_size m" "i \<noteq> t" for i
    using rs_seq_tail(3) [OF assms(1) that(1), of "int q"] that(2) t by auto
  have id: "?f i (?m, h) = (?m, h)" if "i < rs_size m" "i \<noteq> t" for i h
    using only [OF that] by (auto simp: rs_rm_cell_def Let_def)
  let ?S = "rc_seq (rs_cell m t) - {int q}"
  have tl: "rc_tail (rs_cell m q) = int t" using t by (simp add: rs_tail_def)
  define h where "h = (if ?S = {} then t else rs_size m)"
  have at: "?f t (?m, rs_size m) = (rs_drop (int q) m, h)"
  proof -
    have eq: "rs_upd t (\<lambda>c. c\<lparr>rc_seq := ?S\<rparr>) ?m = rs_upd q (\<lambda>c. c\<lparr>rc_tail := -1\<rparr>) (rs_upd t (\<lambda>c. c\<lparr>rc_seq := rc_seq c - {int q}\<rparr>) m)"
      using c(1) assms(2) by (simp add: rs_upd_def rs_cell_def rs_size_def list_eq_iff_nth_eq nth_upd)
    have d: "rs_drop (int q) m = (let m' = rs_upd q (\<lambda>c. c\<lparr>rc_tail := -1\<rparr>) (rs_upd t (\<lambda>c. c\<lparr>rc_seq := rc_seq c - {int q}\<rparr>) m)
        in if ?S = {} then (rs_upd t rc_free m')\<lparr>rm_used := u32_sub (rm_used m) 1\<rparr> else m')"
      using c(1) assms(2) by (auto simp: rs_drop_def Let_def tl)
    have u: "rs_upd t rc_free (m'\<lparr>rm_used := x\<rparr>) = (rs_upd t rc_free m')\<lparr>rm_used := x\<rparr>" for m' x by (simp add: rs_upd_def)
    have ge: "0 \<le> p" "p0 \<le> p" "p < p1" using c(4) pos assms(4,5) by simp_all
    show ?thesis
      unfolding rs_rm_cell_def case_prod_conv Let_def cell pos
      using ge c(2) by (auto simp: d Let_def u h_def eq)
  qed
  have after: "?f i (rs_drop (int q) m, h) = (rs_drop (int q) m, h)" if "i < rs_size m" for i
    using rs_drop_effect(8) [OF assms(1,2) that] by (simp add: rs_rm_cell_def Let_def)
  have "fold ?f [0..<rs_size m] (?m, rs_size m) = ?f t (?m, rs_size m)"
    by (rule fold_upt_only [OF c(1)]) (use id after at in auto)
  then show ?thesis using at by (auto simp: rs_rm_loop_def)
qed

lemma rs_rm_rollback_last:
  assumes "rs_wf m" "q < rs_size m" "0 \<le> rs_tail m q"
  shows "rs_last (rs_upd (nat (rs_tail m q)) (\<lambda>c. c\<lparr>rc_pos := x\<rparr>) m) =
    (\<lambda>u. if u < rs_size m \<and> rs_tail m u = rs_tail m q then Some x else rs_last m u)"
proof -
  have tail: "rs_tail (rs_upd (nat (rs_tail m q)) (\<lambda>c. c\<lparr>rc_pos := x\<rparr>) m) u = rs_tail m u" for u
    by (simp add: rs_tail_def)
  have t: "nat (rs_tail m q) < rs_size m" using rs_tail_cell(1) [OF assms] .
  show ?thesis unfolding rs_last_def tail fun_eq_iff using t assms(3) by auto
qed

lemma rs_wf_set_pos:
  assumes "rs_wf m" "i < rs_size m" "rc_seq (rs_cell m i) \<noteq> {}" "0 \<le> x"
  shows "rs_wf (rs_upd i (\<lambda>c. c\<lparr>rc_pos := x\<rparr>) m)"
proof -
  let ?m = "rs_upd i (\<lambda>c. c\<lparr>rc_pos := x\<rparr>) m"
  have s: "rs_tail ?m = rs_tail m" "rs_occ ?m = rs_occ m" "rs_busy ?m = rs_busy m" "rs_size ?m = rs_size m"
    by (auto simp: rs_tail_def rs_occ_def rs_busy_def fun_eq_iff split: if_splits)
  have p: "if rc_seq (rs_cell ?m k) = {} then rc_pos (rs_cell ?m k) = -1 else 0 \<le> rc_pos (rs_cell ?m k)" if "k < rs_size m" for k
    using rs_wfD(8,9) [OF assms(1) that] assms(2-4) by auto
  have c: "rc_seq (rs_cell ?m k) = rc_seq (rs_cell m k)" "rc_src (rs_cell ?m k) = rc_src (rs_cell m k)" for k by simp_all
  show ?thesis unfolding rs_wf_def s
  proof (intro conjI allI impI)
    show "if rc_seq (rs_cell ?m k) = {} then rc_pos (rs_cell ?m k) = -1 else 0 \<le> rc_pos (rs_cell ?m k)" if "k < rs_size m" for k
      by (rule p [OF that])
  qed (use rs_wfD [OF assms(1)] in \<open>auto simp: c simp del: rs_upd_simps(9)\<close>)
qed

lemma rs_last_shared: "rs_wf m \<Longrightarrow> rs_last m q = Some p \<Longrightarrow> q < rs_size m \<and> 0 \<le> rs_tail m q \<and> 0 \<le> p \<and>
    rc_pos (rs_cell m (nat (rs_tail m q))) = p"
  using rs_tail_cell(4) [of m q] by (auto simp: rs_last_def split: if_splits)

lemma rs_seq_rm_effect:
  assumes "rs_wf m" "q < rs_size m" "q < rm_n_seq_max m" "rm_n_seq_max m < 2 ^ 31"
  shows "\<exists>m' ok. rs_seq_rm (int q) p0 p1 m = Some (m', ok) \<and> rs_wf m' \<and>
    (case rs_last m q of
       None \<Rightarrow> ok \<and> rs_last m' = rs_last m
     | Some p \<Rightarrow>
         if p < max p0 0 \<or> rs_end p1 \<le> p then ok \<and> rs_last m' = rs_last m
         else if p0 \<le> 0 then ok \<and> rs_last m' = (rs_last m)(q := None)
         else if rm_rs_idx m ! q = 0 \<and> p - p0 < int (rm_n_rs_seq m)
         then ok \<and> rm_rs_idx m' = (rm_rs_idx m)[q := nat (p - p0 + 1)] \<and>
           rs_last m' = (\<lambda>u. if u < rs_size m \<and> rs_tail m u = rs_tail m q then Some (p0 - 1) else rs_last m u)
         else \<not> ok \<and> m' = m)"
proof -
  let ?p0 = "max p0 0" and ?p1 = "rs_end p1" and ?all = "max p0 0 = 0 \<and> rs_end p1 = INT32_MAX"
  define m1 where "m1 = (if ?all then m\<lparr>rm_rs_idx := (rm_rs_idx m)[q := 0]\<rparr> else m)"
  have m1: "rs_size m1 = rs_size m" "rs_cell m1 = rs_cell m" "rs_tail m1 = rs_tail m" "rs_last m1 = rs_last m" "rm_n_rs_seq m1 = rm_n_rs_seq m"
    "rm_n_seq_max m1 = rm_n_seq_max m"
    by (auto simp: m1_def rs_tail_def rs_last_def fun_eq_iff)
  have w1: "rs_wf m1" using rs_wf_rs_idx [OF assms(1)] rs_wfD(1) [OF assms(1)] assms(1) by (simp add: m1_def)
  have q: "nat (int q mod 2 ^ 32) = q" "\<not> int q \<ge> int (rs_size m1)" using assms(2-4) by (simp_all add: m1)
  have start: "(if ?p0 = 0 \<and> ?p1 = INT32_MAX then set_rs_idx (int q) 0 m else Some m) = Some m1"
    using assms(3) by (simp add: set_rs_idx_def m1_def)
  have tail: "rc_tail (rs_cell m1 q) = rs_tail m q" by (simp add: m1 rs_tail_def)
  show ?thesis
  proof (cases "rs_last m q")
    case None
    then have "\<not> 0 \<le> rs_tail m q" using assms(2) by (auto simp: rs_last_def split: if_splits)
    then have "rs_seq_rm (int q) p0 p1 m = Some (rs_rm_loop (int q) ?p0 ?p1 m1, True)"
      using q start assms(3) tail by (simp add: rs_seq_rm_def Let_def)
    also have "rs_rm_loop (int q) ?p0 ?p1 m1 = m1"
      by (rule rs_rm_loop_none [OF w1]) (use None assms(2) m1 in auto)
    finally show ?thesis using None w1 m1(4) by auto
  next
    case (Some p)
    note c = rs_last_shared [OF assms(1) Some]
    let ?t = "nat (rs_tail m q)"
    have pos: "rc_pos (rs_cell m1 ?t) = p" using c by (simp add: m1)
    have e: "rs_seq_rm (int q) p0 p1 m =
      (if 0 < ?p0 \<and> ?p0 \<le> p \<and> ?p1 > p
       then if rm_rs_idx m1 ! q = 0 \<and> p - (?p0 - 1) \<ge> 1 \<and> p - (?p0 - 1) \<le> int (rm_n_rs_seq m)
            then map_option (\<lambda>m. (rs_upd ?t (\<lambda>c. c\<lparr>rc_pos := ?p0 - 1\<rparr>) m, True)) (set_rs_idx (int q) (nat (p - (?p0 - 1))) m1)
            else Some (m1, False)
       else Some (rs_rm_loop (int q) ?p0 ?p1
              (if ?p0 \<le> p \<and> p < ?p1 then rs_upd q (\<lambda>c. c\<lparr>rc_tail := -1\<rparr>) m1 else m1), True))"
      unfolding rs_seq_rm_def Let_def start using q assms(3) tail pos c m1(5) by simp
    consider (out) "p < ?p0 \<or> ?p1 \<le> p" | (all) "p0 \<le> 0" "?p0 \<le> p" "p < ?p1" | (roll) "0 < p0" "p0 \<le> p" "p < ?p1" by linarith
    then show ?thesis
    proof cases
      case out
      have "rs_rm_loop (int q) ?p0 ?p1 m1 = m1"
        by (rule rs_rm_loop_none [OF w1]) (use Some out assms(2) m1 in auto)
      then have "rs_seq_rm (int q) p0 p1 m = Some (m1, True)" using out unfolding e by auto
      then show ?thesis using Some out w1 m1(4) by auto
    next
      case all
      have l: "rs_last m1 q = Some p" "q < rs_size m1" using Some assms(2) m1 by simp_all
      obtain h where h: "rs_rm_loop (int q) ?p0 ?p1 (rs_upd q (\<lambda>c. c\<lparr>rc_tail := -1\<rparr>) m1) = rs_move_head h (rs_drop (int q) m1)"
        using rs_rm_loop_some [OF w1 l(2,1) all(2,3)] by blast
      then have "rs_seq_rm (int q) p0 p1 m = Some (rs_move_head h (rs_drop (int q) m1), True)" using all unfolding e by simp
      moreover have "rs_wf (rs_move_head h (rs_drop (int q) m1))"
        by (rule rs_wf_move_head [OF rs_drop_effect(1) [OF w1 l(2)]])
      moreover have "rs_last (rs_move_head h (rs_drop (int q) m1)) = (rs_last m)(q := None)"
        using rs_last_drop [OF w1 l(2)] m1(4) by simp
      ultimately show ?thesis using Some all by auto
    next
      case roll
      have eqm: "m1 = m" using roll(1) by (simp add: m1_def)
      let ?r = "nat (p - p0 + 1)"
      have r: "p - (?p0 - 1) = p - p0 + 1" using roll by simp
      show ?thesis
      proof (cases "rm_rs_idx m ! q = 0 \<and> p - p0 < int (rm_n_rs_seq m)")
        case True
        let ?m2 = "m\<lparr>rm_rs_idx := (rm_rs_idx m)[q := ?r]\<rparr>"
        have w2: "rs_wf ?m2" using rs_wf_rs_idx [OF assms(1)] rs_wfD(1) [OF assms(1)] by simp
        have s: "rs_seq_rm (int q) p0 p1 m = Some (rs_upd ?t (\<lambda>c. c\<lparr>rc_pos := p0 - 1\<rparr>) ?m2, True)"
          using roll True assms(3) unfolding e eqm r by (simp add: set_rs_idx_def nat_le_iff)
        have t2: "rs_tail ?m2 = rs_tail m" "rs_last ?m2 = rs_last m" by (auto simp: rs_tail_def rs_last_def fun_eq_iff)
        note tc = rs_tail_cell [OF assms(1,2)]
        have "rs_wf (rs_upd ?t (\<lambda>c. c\<lparr>rc_pos := p0 - 1\<rparr>) ?m2)"
          by (rule rs_wf_set_pos [OF w2]) (use tc c roll in auto)
        moreover have "rs_last (rs_upd ?t (\<lambda>c. c\<lparr>rc_pos := p0 - 1\<rparr>) ?m2) =
            (\<lambda>u. if u < rs_size m \<and> rs_tail m u = rs_tail m q then Some (p0 - 1) else rs_last m u)"
          using rs_rm_rollback_last [OF w2, of q "p0 - 1"] assms(2) c unfolding t2 by simp
        ultimately show ?thesis using s Some roll True by auto
      next
        case False
        then have "rs_seq_rm (int q) p0 p1 m = Some (m, False)" using roll unfolding e eqm r by auto
        then show ?thesis using Some roll False assms(1)
          by (intro exI [of _ m] exI [of _ False]) simp
      qed
    qed
  qed
qed

text \<open>C27. \<open>seq_rm\<close> of a recurrent memory removes a sequence only as a whole: when the range starts at
  0 and has its last position. A range that starts later is a rollback, possible once and over
  at most \<open>n_rs_seq\<close> positions, and then moves every sequence that shares the cell. Otherwise a
  range with the last position is refused. Any other range removes nothing and true is returned: \<open>include/llama.h\<close>
  says that the tokens of \<open>[p0, p1)\<close> are removed, and that false is returned when a partial sequence cannot be removed,
  so for a range below the last position the code differs from its documentation.\<close>

theorem rs_seq_rm_correct:
  assumes "rs_wf m" "q < rs_size m" "q < rm_n_seq_max m" "rm_n_seq_max m < 2 ^ 31"
  shows "\<exists>m' ok. rs_seq_rm (int q) p0 p1 m = Some (m', ok) \<and> rs_wf m' \<and>
    (case rs_last m q of
       None \<Rightarrow> ok \<and> rs_last m' = rs_last m
     | Some p \<Rightarrow>
         if p < max p0 0 \<or> rs_end p1 \<le> p then ok \<and> rs_last m' = rs_last m
         else if p0 \<le> 0 then ok \<and> rs_last m' = (rs_last m)(q := None)
         else if rm_rs_idx m ! q = 0 \<and> p - p0 < int (rm_n_rs_seq m)
         then ok \<and> rm_rs_idx m' = (rm_rs_idx m)[q := nat (p - p0 + 1)] \<and>
           rs_last m' = (\<lambda>u. if u < rs_size m \<and> rs_tail m u = rs_tail m q then Some (p0 - 1) else rs_last m u)
         else \<not> ok \<and> m' = m)"
  by (rule rs_seq_rm_effect [OF assms])

text \<open>Copying, keeping, moving and scaling.\<close>

lemma rs_cp_effect:
  assumes "rs_wf m" "q < rs_size m" "d < rs_size m" "q \<noteq> d"
  shows "rs_wf (rs_seq_cp (int q) (int d) p0 p1 m) \<and> rs_last (rs_seq_cp (int q) (int d) p0 p1 m) = (rs_last m)(d := rs_last m q) \<and>
    rs_size (rs_seq_cp (int q) (int d) p0 p1 m) = rs_size m"
proof -
  let ?m1 = "rs_drop (int d) m"
  note dr = rs_drop_effect [OF assms(1,3)]
  have n: "nat (int q mod 2 ^ 32) = q" "nat (int d mod 2 ^ 32) = d" "d < rs_size m" "q < rs_size m"
    using assms(2,3) rs_wfD(2) [OF assms(1)] by simp_all
  have tq: "rc_tail (rs_cell ?m1 q) = rs_tail m q" using dr(7) [of q] assms(4) by (simp add: rs_tail_def)
  have l1: "rs_last ?m1 = (rs_last m)(d := None)" by (rule rs_last_drop [OF assms(1,3)])
  show ?thesis
  proof (cases "0 \<le> rs_tail m q")
    case False
    then have "rs_seq_cp (int q) (int d) p0 p1 m = ?m1" using n assms(4) tq by (simp add: rs_seq_cp_def Let_def)
    moreover have "rs_last m q = None" using False by (simp add: rs_last_def)
    ultimately show ?thesis using l1 dr(1,2) by simp
  next
    case True
    then obtain t where t: "rs_tail m q = int t" using nonneg_int_cases by blast
    note w1 = dr(1) and w = rs_wfD [OF dr(1), unfolded dr(2)]
    have t1: "rs_tail ?m1 q = int t" using t tq by (simp add: rs_tail_def)
    note c = rs_tail_cell [OF w1, of q, unfolded dr(2) t1 nat_int, OF n(4) of_nat_0_le_iff]
    let ?m2 = "rs_upd d (\<lambda>c. c\<lparr>rc_tail := int t\<rparr>) (rs_upd t (\<lambda>c. c\<lparr>rc_seq := insert (int d) (rc_seq c)\<rparr>) ?m1)"
    have e: "rs_seq_cp (int q) (int d) p0 p1 m = ?m2" using n assms(4) tq t by (simp add: rs_seq_cp_def Let_def)
    have tail: "rs_tail ?m2 u = (if u = d then int t else rs_tail ?m1 u)" for u
      using n dr(2) by (auto simp: rs_tail_def)
    have seq: "rc_seq (rs_cell ?m2 i) = (if i = t then insert (int d) (rc_seq (rs_cell ?m1 i)) else rc_seq (rs_cell ?m1 i))"
      "rc_pos (rs_cell ?m2 i) = rc_pos (rs_cell ?m1 i)" "rc_src (rs_cell ?m2 i) = rc_src (rs_cell ?m1 i)" if "i < rs_size m" for i
      using c(1) that dr(2) by auto
    have dn: "rs_tail ?m1 d = -1" using dr(7) [of d] by simp
    have occ: "rs_occ ?m2 i = (if i = t then insert d (rs_occ ?m1 i) else rs_occ ?m1 i)" for i
      using dn n by (auto simp: rs_occ_def tail dr(2))
    have busy: "rs_busy ?m2 = rs_busy ?m1" using c(1,2) seq(1) by (auto simp: rs_busy_def dr(2))
    have sz: "rs_size ?m2 = rs_size m" using dr(2) by simp
    have used: "rm_used ?m2 = rm_used ?m1" by simp
    have wf2: "rs_wf ?m2"
      unfolding rs_wf_def sz
    proof (intro conjI allI impI)
      show "rc_seq (rs_cell ?m2 i) = int ` rs_occ ?m2 i" if "i < rs_size m" for i
        using seq(1) [OF that] occ [of i] w(6) [OF that] by auto
      show "rc_src (rs_cell ?m2 i) \<in> {-1, int i}" if "i < rs_size m" for i using seq(3) [OF that] w(7) [OF that] by auto
      show "if rc_seq (rs_cell ?m2 i) = {} then rc_pos (rs_cell ?m2 i) = -1 else 0 \<le> rc_pos (rs_cell ?m2 i)"
        if "i < rs_size m" for i
        using seq [OF that] w(8,9) [OF that] c(2,4) by (cases "i = t") (auto simp del: rs_upd_simps(9))
      show "rm_used ?m2 = card (rs_busy ?m2)" using busy w(10) used by simp
      show "-1 \<le> rs_tail ?m2 u" if "u < rs_size m" for u using tail [of u] w(4) [OF that] by simp
      show "rs_tail ?m2 u < int (rs_size m)" if "u < rs_size m" for u using tail [of u] w(5) [OF that] c(1) by simp
    qed (use w in simp_all)
    have last2: "rs_last ?m2 u = (if u = d then Some (rc_pos (rs_cell ?m1 t)) else rs_last ?m1 u)" for u
    proof (cases "u < rs_size m \<and> 0 \<le> rs_tail ?m2 u")
      case True
      have "nat (rs_tail ?m2 u) < rs_size m" using rs_tail_cell(1) [OF wf2, of u] True sz by simp
      then show ?thesis using True seq(2) [of "nat (rs_tail ?m2 u)"] tail [of u] sz dr(2)
        by (cases "u = d") (auto simp: rs_last_def simp del: rs_upd_simps(9))
    next
      case False
      then have "u \<noteq> d" using n tail by auto
      then show ?thesis using False tail [of u] sz dr(2) by (auto simp: rs_last_def)
    qed
    moreover have "rs_last m q = Some (rc_pos (rs_cell ?m1 t))"
    proof -
      have "rc_seq (rs_cell ?m1 t) \<noteq> {}" using c(2) by blast
      then show ?thesis using dr(9) [OF c(1)] t n(4) by (simp add: rs_last_def)
    qed
    ultimately have "rs_last ?m2 = (rs_last m)(d := rs_last m q)" using l1 by (auto simp: fun_eq_iff)
    then show ?thesis using e wf2 sz by simp
  qed
qed

lemma rs_keep_effect:
  assumes "rs_wf m"
  shows "rs_wf (rs_seq_keep k m) \<and> rs_last (rs_seq_keep k m) = (\<lambda>u. if int u = k then rs_last m u else None) \<and>
    rs_size (rs_seq_keep k m) = rs_size m"
proof -
  let ?new = "\<lambda>i c. (if k \<notin> rc_seq c then (rc_free c)\<lparr>rc_seq := {}\<rparr> else c\<lparr>rc_seq := {k}\<rparr>)
      \<lparr>rc_tail := if int i \<noteq> k then -1 else rc_tail c\<rparr>"
  let ?left = "\<lambda>i. {j. j < rs_size m \<and> rc_seq (rs_cell m j) \<noteq> {} \<and> (i \<le> j \<or> k \<in> rc_seq (rs_cell m j))}"
  define P where "P = (\<lambda>i (mh :: rs_memory \<times> nat). let m' = fst mh in rs_size m' = rs_size m \<and> rm_head m' = rm_head m \<and> rm_rs_idx m' = rm_rs_idx m \<and>
      rm_n_seq_max m' = rm_n_seq_max m \<and>
      (\<forall>j < rs_size m. rs_cell m' j = (if j < i then ?new j (rs_cell m j) else rs_cell m j)) \<and> rm_used m' = card (?left i))"
  note w = rs_wfD [OF assms]
  have "P (rs_size m) (fold (rs_keep_cell k) [0..<rs_size m] (m, rs_size m))"
  proof (rule fold_upt_invariant)
    have "?left 0 = rs_busy m" by (auto simp: rs_busy_def)
    then show "P 0 (m, rs_size m)" using w(10) by (simp add: P_def)
  next
    fix i mh assume i: "i < rs_size m" and I: "P i mh"
    obtain m' h where mh: "mh = (m', h)" by fastforce
    have p: "rs_size m' = rs_size m" "rm_head m' = rm_head m" "rm_rs_idx m' = rm_rs_idx m" "rm_n_seq_max m' = rm_n_seq_max m"
      "\<And>j. j < rs_size m \<Longrightarrow> rs_cell m' j = (if j < i then ?new j (rs_cell m j) else rs_cell m j)" "rm_used m' = card (?left i)"
      using I unfolding P_def mh by (simp_all add: Let_def)
    let ?c = "rs_cell m i"
    have c: "rs_cell m' i = ?c" using p(5) [OF i] by simp
    let ?t = "rs_upd i (\<lambda>c. c\<lparr>rc_tail := -1\<rparr>)"
    define m1 where "m1 = (if int i \<noteq> k then ?t m' else m')"
    have m1: "rs_size m1 = rs_size m" "rm_head m1 = rm_head m" "rm_rs_idx m1 = rm_rs_idx m" "rm_n_seq_max m1 = rm_n_seq_max m"
      "rm_used m1 = card (?left i)" "\<And>j. rs_cell m1 j = (if j = i then ?c\<lparr>rc_tail := if int i \<noteq> k then -1 else rc_tail ?c\<rparr> else rs_cell m' j)"
      using p c i by (auto simp: m1_def)
    have step: "\<exists>m2. fst (rs_keep_cell k i mh) = m2 \<and> rs_size m2 = rs_size m \<and> rm_head m2 = rm_head m \<and> rm_rs_idx m2 = rm_rs_idx m \<and>
        rm_n_seq_max m2 = rm_n_seq_max m \<and> rs_cell m2 i = ?new i ?c \<and> (\<forall>j. j \<noteq> i \<longrightarrow> rs_cell m2 j = rs_cell m' j) \<and>
        rm_used m2 = (if k \<notin> rc_seq ?c \<and> 0 \<le> rc_pos ?c then u32_sub (rm_used m1) 1 else rm_used m1)"
      unfolding mh rs_keep_cell_def case_prod_conv m1_def [symmetric] using m1 i
      by (auto simp: rc_free_def Let_def)
    have busy: "0 \<le> rc_pos ?c \<longleftrightarrow> rc_seq ?c \<noteq> {}" using w(8,9) [OF i] by auto
    have left: "?left (Suc i) = (if k \<notin> rc_seq ?c \<and> rc_seq ?c \<noteq> {} then ?left i - {i} else ?left i)"
      by (auto simp: Suc_le_eq le_less)
    have fin: "finite (?left i)" by simp
    have "card (?left i) \<le> card (rs_busy m)" by (rule card_mono) (auto simp: rs_busy_def)
    then have le: "card (?left i) < 2 ^ 32" using rs_busy_less [OF assms] by simp
    have "(if k \<notin> rc_seq ?c \<and> 0 \<le> rc_pos ?c then u32_sub (rm_used m1) 1 else rm_used m1) = card (?left (Suc i))"
    proof (cases "k \<notin> rc_seq ?c \<and> rc_seq ?c \<noteq> {}")
      case True
      then have in': "i \<in> ?left i" using i by simp
      then have "0 < card (?left i)" using fin by (auto simp: card_gt_0_iff)
      moreover have "card (?left (Suc i)) = card (?left i) - 1" unfolding left if_P [OF True] using in' fin by simp
      ultimately show ?thesis using True busy m1(5) le by simp
    next
      case False
      then show ?thesis using busy m1(5) left by auto
    qed
    then show "P (Suc i) (rs_keep_cell k i mh)"
      using step p(5) by (auto simp: P_def Let_def less_Suc_eq)
  qed
  then obtain m1 h where f: "fold (rs_keep_cell k) [0..<rs_size m] (m, rs_size m) = (m1, h)" "P (rs_size m) (m1, h)"
    by (metis surj_pair)
  have p: "rs_size m1 = rs_size m" "rm_head m1 = rm_head m" "rm_rs_idx m1 = rm_rs_idx m" "rm_n_seq_max m1 = rm_n_seq_max m"
    "\<And>j. j < rs_size m \<Longrightarrow> rs_cell m1 j = ?new j (rs_cell m j)" "rm_used m1 = card (?left (rs_size m))"
    using f(2) unfolding P_def by (simp_all add: Let_def)
  have tail: "rs_tail m1 u = (if int u = k then rs_tail m u else -1)" if "u < rs_size m" for u
    using p(5) [OF that] by (simp add: rs_tail_def)
  have occ: "rs_occ m1 i = {u \<in> rs_occ m i. int u = k}" if "i < rs_size m" for i
    using tail p(1) by (auto simp: rs_occ_def split: if_splits)
  have seq: "rc_seq (rs_cell m1 i) = int ` rs_occ m1 i" if i: "i < rs_size m" for i
    using p(5) [OF i] w(6) [OF i] occ [OF i] by auto
  have wf1: "rs_wf m1"
    unfolding rs_wf_def p(1)
  proof (intro conjI allI impI)
    show "rm_used m1 = card (rs_busy m1)"
    proof -
      have "rs_busy m1 = ?left (rs_size m)" using p(1,5) by (auto simp: rs_busy_def split: if_splits)
      then show ?thesis using p(6) by simp
    qed
    show "rc_src (rs_cell m1 i) \<in> {-1, int i}" if "i < rs_size m" for i using p(5) [OF that] w(7) [OF that] by auto
    show "if rc_seq (rs_cell m1 i) = {} then rc_pos (rs_cell m1 i) = -1 else 0 \<le> rc_pos (rs_cell m1 i)" if "i < rs_size m" for i
      using p(5) [OF that] w(9) [OF that] by auto
  qed (use w p tail seq in auto)
  have last1: "rs_last m1 u = (if int u = k then rs_last m u else None)" for u
  proof (cases "u < rs_size m \<and> int u = k \<and> 0 \<le> rs_tail m u")
    case True
    note c = rs_tail_cell [OF assms, of u]
    show ?thesis using True c p(1) p(5) [of "nat (rs_tail m u)"] tail [of u] by (simp add: rs_last_def)
  qed (use tail p(1) in \<open>auto simp: rs_last_def\<close>)
  show ?thesis
    using rs_wf_move_head [OF wf1] last1 p(1) by (simp add: rs_seq_keep_def f(1) fun_eq_iff)
qed

lemma rs_on_pos_effect:
  assumes "rs_wf m" "q < rs_size m" "\<And>p. rs_last m q = Some p \<Longrightarrow> 0 \<le> f p"
  shows "rs_wf (rs_on_pos (int q) p0 p1 f m) \<and>
    rs_last (rs_on_pos (int q) p0 p1 f m) =
      (\<lambda>u. if u < rs_size m \<and> rs_tail m u = rs_tail m q
           then map_option (\<lambda>p. if max p0 0 \<le> p \<and> p < rs_end p1 then f p else p) (rs_last m u) else rs_last m u)"
proof (cases "rs_last m q")
  case None
  then have t: "\<not> 0 \<le> rs_tail m q" using assms(2) by (auto simp: rs_last_def split: if_splits)
  then have "rs_on_pos (int q) p0 p1 f m = m" by (simp add: rs_on_pos_def Let_def rs_tail_def)
  moreover have "rs_last m u = None" if "rs_tail m u = rs_tail m q" for u using t that by (simp add: rs_last_def)
  ultimately show ?thesis using assms(1) by (auto simp: fun_eq_iff)
next
  case (Some p)
  note c = rs_last_shared [OF assms(1) Some] and tc = rs_tail_cell [OF assms(1,2)]
  have e: "rs_on_pos (int q) p0 p1 f m =
      (if max p0 0 \<noteq> rs_end p1 \<and> max p0 0 \<le> p \<and> p < rs_end p1 then rs_upd (nat (rs_tail m q)) (\<lambda>c. c\<lparr>rc_pos := f p\<rparr>) m else m)"
    using c tc(2) assms(2) by (auto simp: rs_on_pos_def Let_def rs_tail_def rs_upd_def rs_cell_def)
  have same: "rs_last m u = Some p" if "u < rs_size m" "rs_tail m u = rs_tail m q" for u
    using c that by (simp add: rs_last_def)
  show ?thesis
  proof (cases "max p0 0 \<le> p \<and> p < rs_end p1")
    case True
    then have e': "rs_on_pos (int q) p0 p1 f m = rs_upd (nat (rs_tail m q)) (\<lambda>c. c\<lparr>rc_pos := f p\<rparr>) m" unfolding e by auto
    have "rs_wf (rs_upd (nat (rs_tail m q)) (\<lambda>c. c\<lparr>rc_pos := f p\<rparr>) m)"
      by (rule rs_wf_set_pos [OF assms(1)]) (use tc c assms(3) [OF Some] in auto)
    then show ?thesis using rs_rm_rollback_last [OF assms(1,2)] c same True unfolding e' by (auto simp: fun_eq_iff)
  next
    case False
    then have "rs_on_pos (int q) p0 p1 f m = m" unfolding e by auto
    then show ?thesis using False same assms(1) by (auto simp: fun_eq_iff)
  qed
qed

lemma rs_clear_effect:
  assumes "rs_wf m"
  shows "rs_wf (rs_clear m) \<and> rs_last (rs_clear m) = (\<lambda>_. None) \<and> rs_size (rs_clear m) = rs_size m"
proof -
  let ?m = "rs_clear m"
  have sz: "rs_size ?m = rs_size m" by (simp add: rs_clear_def rs_size_def)
  have c: "rs_cell ?m i = (rs_cell m i)\<lparr>rc_pos := -1, rc_seq := {}, rc_src := -1, rc_tail := -1\<rparr>" if "i < rs_size m" for i
    using that by (simp add: rs_clear_def rs_cell_def rs_size_def)
  have t: "rs_tail ?m i = -1" if "i < rs_size m" for i using c [OF that] by (simp add: rs_tail_def)
  have o: "rs_occ ?m i = {}" for i using t sz by (auto simp: rs_occ_def)
  have b: "rs_busy ?m = {}" using c sz by (auto simp: rs_busy_def)
  have "rm_used ?m = 0" "rm_head ?m = 0" "length (rm_rs_idx ?m) = length (rm_rs_idx m)" "rm_n_seq_max ?m = rm_n_seq_max m"
    by (simp_all add: rs_clear_def)
  then have "rs_wf ?m" unfolding rs_wf_def sz o b using c t rs_wfD(1,2) [OF assms] by simp
  then show ?thesis using t sz by (auto simp: rs_last_def fun_eq_iff)
qed

lemma rs_wf_new: "mem_size < 2 ^ 31 \<Longrightarrow> rs_wf (rs_new mem_size n_seq_max n_rs_seq)"
proof -
  assume l: "mem_size < 2 ^ 31"
  let ?m = "rs_new mem_size n_seq_max n_rs_seq"
  have sz: "rs_size ?m = mem_size" by (simp add: rs_new_def rs_size_def)
  have c: "rs_cell ?m i = mem_cell_new" if "i < mem_size" for i using that by (simp add: rs_new_def rs_cell_def)
  have t: "rs_tail ?m i = -1" if "i < mem_size" for i using c [OF that] by (simp add: rs_tail_def mem_cell_new_def)
  have o: "rs_occ ?m i = {}" for i using t sz by (auto simp: rs_occ_def)
  have b: "rs_busy ?m = {}" using c sz by (auto simp: rs_busy_def mem_cell_new_def)
  show ?thesis unfolding rs_wf_def sz o b using l c t by (simp add: mem_cell_new_def) (simp add: rs_new_def)
qed

lemma rs_pos_fold:
  assumes "rs_wf m" "q < rs_size m"
  shows "fold (\<lambda>i r. if int q \<in> rc_seq (rs_cell m i) then g r (rc_pos (rs_cell m i)) else r) [0..<rs_size m] s =
    (case rs_last m q of None \<Rightarrow> s | Some p \<Rightarrow> g s p)"
proof (cases "rs_last m q")
  case None
  then have t: "\<not> 0 \<le> rs_tail m q" using assms(2) by (auto simp: rs_last_def split: if_splits)
  have "int q \<notin> rc_seq (rs_cell m i)" if "i < rs_size m" for i
    using rs_seq_tail(3) [OF assms(1) that, of "int q"] t by auto
  then show ?thesis using None by (simp add: fold_upt_id)
next
  case (Some p)
  note c = rs_last_shared [OF assms(1) Some]
  let ?t = "nat (rs_tail m q)"
  have tq: "?t < rs_size m" "int q \<in> rc_seq (rs_cell m ?t)" using rs_tail_cell [OF assms] c by blast+
  have o: "int q \<notin> rc_seq (rs_cell m i)" if "i < rs_size m" "i \<noteq> ?t" for i
    using rs_seq_tail(3) [OF assms(1) that(1), of "int q"] that(2) by auto
  show ?thesis by (subst fold_upt_only [OF tq(1)]) (use o tq c Some in auto)
qed

lemma rs_pos_eq:
  assumes "rs_wf m" "q < rs_size m"
  shows "rs_seq_pos_max m (int q) = (case rs_last m q of None \<Rightarrow> -1 | Some p \<Rightarrow> p)"
    "rs_seq_pos_min m (int q) = (case rs_last m q of None \<Rightarrow> -1 | Some p \<Rightarrow> if p \<ge> INT32_MAX then -1 else p)"
  using rs_last_shared [OF assms(1), of q] unfolding rs_seq_pos_max_def rs_seq_pos_min_def rs_pos_fold [OF assms, of max] rs_pos_fold [OF assms, of min]
  by (auto simp: Let_def max_def split: option.split)

text \<open>C21. The sequence operations of a recurrent memory act on the last positions of the sequences
  as their names say: \<open>clear\<close> forgets all, \<open>seq_cp\<close> gives the target what the source has, \<open>seq_keep\<close>
  forgets all but one; the queries return what is there. The range given to \<open>seq_cp\<close> is ignored, although
  \<open>include/llama.h\<close> documents for \<open>llama_memory_seq_cp\<close> that the tokens of \<open>[p0, p1)\<close> are copied.\<close>

theorem rs_seq_ops_refine:
  assumes "rs_wf m" "q < rs_size m" "d < rs_size m" "q \<noteq> d"
  shows "rs_last (rs_clear m) = (\<lambda>_. None) \<and>
    rs_last (rs_seq_cp (int q) (int d) p0 p1 m) = (rs_last m)(d := rs_last m q) \<and>
    rs_last (rs_seq_keep (int q) m) = (\<lambda>u. if u = q then rs_last m u else None) \<and>
    rs_seq_pos_max m (int q) = (case rs_last m q of None \<Rightarrow> -1 | Some p \<Rightarrow> p) \<and>
    rs_seq_pos_min m (int q) = (case rs_last m q of None \<Rightarrow> -1 | Some p \<Rightarrow> if p \<ge> INT32_MAX then -1 else p) \<and>
    rs_wf (rs_clear m) \<and> rs_wf (rs_seq_cp (int q) (int d) p0 p1 m) \<and> rs_wf (rs_seq_keep (int q) m)"
  using rs_clear_effect [OF assms(1)] rs_cp_effect [OF assms, of p0 p1] rs_keep_effect [OF assms(1), of "int q"]
    rs_pos_eq [OF assms(1,2)] by simp

text \<open>\<open>seq_add\<close> and \<open>seq_div\<close> of a recurrent memory change the last position of a sequence when it
  is in the range, and with it that of every sequence that shares the cell.\<close>

theorem rs_seq_add_shared:
  assumes "rs_wf m" "q < rs_size m" "0 < n" "\<And>p. rs_last m q = Some p \<Longrightarrow> 0 \<le> p + shift"
  shows "rs_last (rs_seq_add (int q) p0 p1 shift m) = (\<lambda>u. if u < rs_size m \<and> rs_tail m u = rs_tail m q
      then map_option (\<lambda>p. if max p0 0 \<le> p \<and> p < rs_end p1 then p + shift else p) (rs_last m u) else rs_last m u) \<and>
    rs_last (rs_seq_div (int q) p0 p1 n m) = (\<lambda>u. if u < rs_size m \<and> rs_tail m u = rs_tail m q
      then map_option (\<lambda>p. if max p0 0 \<le> p \<and> p < rs_end p1 then p div n else p) (rs_last m u) else rs_last m u)"
proof -
  have nn: "0 \<le> p" if "rs_last m q = Some p" for p using rs_last_shared [OF assms(1) that] by simp
  have same: "rs_last m u = rs_last m q" if "u < rs_size m" "rs_tail m u = rs_tail m q" for u using that assms(2) by (simp add: rs_last_def)
  have "0 \<le> c_div p n" if "rs_last m q = Some p" for p using nn [OF that] assms(3) by (simp add: pos_imp_zdiv_nonneg_iff)
  note a = rs_on_pos_effect [OF assms(1,2), of "\<lambda>p. p + shift" p0 p1, OF assms(4)]
    and d = rs_on_pos_effect [OF assms(1,2), of "\<lambda>p. c_div p n" p0 p1, OF this]
  have z: "map_option (\<lambda>p. if max p0 0 \<le> p \<and> p < rs_end p1 then p + 0 else p) x = x" for x :: "llama_pos option" by (cases x) auto
  have z': "map_option (\<lambda>p. if max p0 0 \<le> p \<and> p < rs_end p1 then p div 1 else p) x = x" for x :: "llama_pos option" by (cases x) auto
  have dv: "map_option (\<lambda>p. if max p0 0 \<le> p \<and> p < rs_end p1 then c_div p n else p) (rs_last m u) =
      map_option (\<lambda>p. if max p0 0 \<le> p \<and> p < rs_end p1 then p div n else p) (rs_last m u)"
    if "u < rs_size m" "rs_tail m u = rs_tail m q" for u
    using same [OF that] nn assms(3) by (cases "rs_last m q") auto
  have "rs_last (rs_seq_add (int q) p0 p1 shift m) = (\<lambda>u. if u < rs_size m \<and> rs_tail m u = rs_tail m q
      then map_option (\<lambda>p. if max p0 0 \<le> p \<and> p < rs_end p1 then p + shift else p) (rs_last m u) else rs_last m u)"
  proof (cases "shift = 0")
    case True show ?thesis unfolding True rs_seq_add_def z by simp
  qed (use a in \<open>simp add: rs_seq_add_def\<close>)
  moreover have "rs_last (rs_seq_div (int q) p0 p1 n m) = (\<lambda>u. if u < rs_size m \<and> rs_tail m u = rs_tail m q
      then map_option (\<lambda>p. if max p0 0 \<le> p \<and> p < rs_end p1 then p div n else p) (rs_last m u) else rs_last m u)"
  proof (cases "n = 1")
    case True show ?thesis unfolding True rs_seq_div_def z' by simp
  qed (use d dv in \<open>auto simp: rs_seq_div_def fun_eq_iff\<close>)
  ultimately show ?thesis by blast
qed

subsection \<open>The memory as the batch splitter sees it\<close>

definition rs_memory_pos :: "rs_memory \<Rightarrow> memory_pos" where
  "rs_memory_pos m = \<lparr>mem_seq_pos_min = (\<lambda>s. rs_seq_pos_min m (int s)), mem_seq_pos_max = (\<lambda>s. rs_seq_pos_max m (int s))\<rparr>"

interpretation rs: memory_view rs_wf rs_memory_pos "\<lambda>m s. set_option (rs_last m s)" rs_size
proof
  show "finite (set_option (rs_last m s))" for m s by (cases "rs_last m s") auto
  show "0 \<le> p" if "rs_wf m" "p \<in> set_option (rs_last m s)" for m s p using rs_last_shared [OF that(1), of s p] that(2) by simp
  show "mem_seq_pos_max (rs_memory_pos m) s = (if set_option (rs_last m s) = {} then -1 else Max (set_option (rs_last m s)))"
    if "rs_wf m" "s < rs_size m" for m s
    using rs_pos_eq(1) [OF that] by (cases "rs_last m s") (auto simp: rs_memory_pos_def)
qed

subsection \<open>Well-formed micro-batches\<close>

definition set_last :: "llama_ubatch \<Rightarrow> nat \<Rightarrow> llama_pos" where
  "set_last ub s = ub_pos ub ! (s * ub_n_seq_tokens ub + ub_n_seq_tokens ub - 1)"

definition set_first :: "llama_ubatch \<Rightarrow> nat \<Rightarrow> nat" where
  "set_first ub s = nat (hd (set_ids ub s))"

definition rs_ub_ok :: "nat \<Rightarrow> llama_ubatch \<Rightarrow> bool" where
  \<comment> \<open>equally long sequence sets that have no sequence in common, of sequences the memory has cells for\<close>
  "rs_ub_ok sz ub \<longleftrightarrow> ub_equal_seqs ub \<and> 0 < ub_n_seqs ub \<and>
     (\<forall>s < ub_n_seqs ub. set_ids ub s \<noteq> [] \<and> distinct (set_ids ub s) \<and> 0 \<le> set_last ub s \<and>
        (\<forall>q \<in> set (set_ids ub s). 0 \<le> q \<and> q < int sz)) \<and>
     (\<forall>s s'. s < s' \<longrightarrow> s' < ub_n_seqs ub \<longrightarrow> set (set_ids ub s) \<inter> set (set_ids ub s') = {})"

lemma rs_ub_okD:
  assumes "rs_ub_ok sz ub"
  shows "ub_equal_seqs ub" "0 < ub_n_seqs ub" "s < ub_n_seqs ub \<Longrightarrow> set_ids ub s \<noteq> []" "s < ub_n_seqs ub \<Longrightarrow> distinct (set_ids ub s)"
    "s < ub_n_seqs ub \<Longrightarrow> 0 \<le> set_last ub s" "s < ub_n_seqs ub \<Longrightarrow> q \<in> set (set_ids ub s) \<Longrightarrow> 0 \<le> q"
    "s < ub_n_seqs ub \<Longrightarrow> q \<in> set (set_ids ub s) \<Longrightarrow> q < int sz"
    "s < ub_n_seqs ub \<Longrightarrow> s' < ub_n_seqs ub \<Longrightarrow> q \<in> set (set_ids ub s) \<Longrightarrow> q \<in> set (set_ids ub s') \<Longrightarrow> s = s'"
    "s < ub_n_seqs ub \<Longrightarrow> int (set_first ub s) = hd (set_ids ub s)" "s < ub_n_seqs ub \<Longrightarrow> int (set_first ub s) \<in> set (set_ids ub s)"
    "s < ub_n_seqs ub \<Longrightarrow> set_first ub s < sz"
    "s < ub_n_seqs ub \<Longrightarrow> s' < ub_n_seqs ub \<Longrightarrow> int (set_first ub s) \<notin> set (tl (set_ids ub s'))"
proof -
  have A: "\<And>s. s < ub_n_seqs ub \<Longrightarrow> set_ids ub s \<noteq> [] \<and> distinct (set_ids ub s) \<and> 0 \<le> set_last ub s \<and>
      (\<forall>q \<in> set (set_ids ub s). 0 \<le> q \<and> q < int sz)"
    "\<And>s s'. s < s' \<Longrightarrow> s' < ub_n_seqs ub \<Longrightarrow> set (set_ids ub s) \<inter> set (set_ids ub s') = {}"
    using assms unfolding rs_ub_ok_def by blast+
  show "ub_equal_seqs ub" "0 < ub_n_seqs ub" using assms unfolding rs_ub_ok_def by blast+
  show "s < ub_n_seqs ub \<Longrightarrow> set_ids ub s \<noteq> []" "s < ub_n_seqs ub \<Longrightarrow> distinct (set_ids ub s)"
    "s < ub_n_seqs ub \<Longrightarrow> 0 \<le> set_last ub s" "s < ub_n_seqs ub \<Longrightarrow> q \<in> set (set_ids ub s) \<Longrightarrow> 0 \<le> q"
    "s < ub_n_seqs ub \<Longrightarrow> q \<in> set (set_ids ub s) \<Longrightarrow> q < int sz"
    using A(1) by blast+
  have uniq: "s < ub_n_seqs ub \<Longrightarrow> s' < ub_n_seqs ub \<Longrightarrow> q \<in> set (set_ids ub s) \<Longrightarrow> q \<in> set (set_ids ub s') \<Longrightarrow> s = s'" for s s' q
    using A(2) [of s s'] A(2) [of s' s] by (cases s s' rule: linorder_cases) auto
  then show "s < ub_n_seqs ub \<Longrightarrow> s' < ub_n_seqs ub \<Longrightarrow> q \<in> set (set_ids ub s) \<Longrightarrow> q \<in> set (set_ids ub s') \<Longrightarrow> s = s'" .
  have f: "int (set_first ub s) = hd (set_ids ub s) \<and> int (set_first ub s) \<in> set (set_ids ub s)" if "s < ub_n_seqs ub" for s
    using A(1) [OF that] by (cases "set_ids ub s") (auto simp: set_first_def)
  then show "s < ub_n_seqs ub \<Longrightarrow> int (set_first ub s) = hd (set_ids ub s)" "s < ub_n_seqs ub \<Longrightarrow> int (set_first ub s) \<in> set (set_ids ub s)"
    by blast+
  show "s < ub_n_seqs ub \<Longrightarrow> set_first ub s < sz" using f A(1) by force
  show "int (set_first ub s) \<notin> set (tl (set_ids ub s'))" if "s < ub_n_seqs ub" "s' < ub_n_seqs ub"
  proof
    assume a: "int (set_first ub s) \<in> set (tl (set_ids ub s'))"
    then have "s = s'" using uniq [OF that] f [OF that(1)] list.set_sel(2) [of "set_ids ub s'"] A(1) [OF that(2)] by blast
    then show False using a f [OF that(1)] A(1) [OF that(1)] by (cases "set_ids ub s") auto
  qed
qed

subsection \<open>Giving up shared cells\<close>

lemma rs_drop_size [simp]: "rs_size (rs_drop q m) = rs_size m"
  by (simp add: rs_drop_def Let_def)

lemma rs_drops_effect:
  assumes "rs_wf m" "\<And>q. q \<in> set qs \<Longrightarrow> 0 \<le> q \<and> q < int (rs_size m)"
  shows "rs_wf (fold rs_drop qs m) \<and> rs_size (fold rs_drop qs m) = rs_size m \<and>
    rm_head (fold rs_drop qs m) = rm_head m \<and> rm_n_rs_seq (fold rs_drop qs m) = rm_n_rs_seq m \<and>
    rm_rs_idx (fold rs_drop qs m) = rm_rs_idx m \<and> rm_n_seq_max (fold rs_drop qs m) = rm_n_seq_max m \<and>
    (\<forall>u. rs_tail (fold rs_drop qs m) u = (if int u \<in> set qs then -1 else rs_tail m u)) \<and>
    (\<forall>i < rs_size m. rc_seq (rs_cell (fold rs_drop qs m) i) \<noteq> {} \<longrightarrow>
       rc_pos (rs_cell (fold rs_drop qs m) i) = rc_pos (rs_cell m i) \<and> rc_src (rs_cell (fold rs_drop qs m) i) = rc_src (rs_cell m i)) \<and>
    (\<forall>i < rs_size m. rc_seq (rs_cell (fold rs_drop qs m) i) = rc_seq (rs_cell m i) - set qs)"
  using assms
proof (induction qs arbitrary: m)
  case (Cons q qs)
  have q: "int (nat q) = q" "nat q < rs_size m" using Cons.prems(2) [of q] by auto
  note d = rs_drop_effect [OF Cons.prems(1) q(2), unfolded q(1)]
  note IH = Cons.IH [OF d(1)]
  have pre: "0 \<le> u \<and> u < int (rs_size (rs_drop q m))" if "u \<in> set qs" for u using Cons.prems(2) [of u] that by simp
  note I = IH [OF pre, unfolded rs_drop_size]
  have t: "rs_tail (rs_drop q m) u = (if int u = q then -1 else rs_tail m u)" for u
    using d(7) [of u] q(1) by auto
  have c: "rc_pos (rs_cell (fold rs_drop qs (rs_drop q m)) i) = rc_pos (rs_cell m i) \<and>
      rc_src (rs_cell (fold rs_drop qs (rs_drop q m)) i) = rc_src (rs_cell m i)"
    if i: "i < rs_size m" and ne: "rc_seq (rs_cell (fold rs_drop qs (rs_drop q m)) i) \<noteq> {}" for i
  proof -
    have "rc_seq (rs_cell (rs_drop q m) i) \<noteq> {}" using I i ne by auto
    then show ?thesis using d(9) [OF i] I i ne by auto
  qed
  show ?case using I d(2-6) d(8) t c by auto
qed simp

lemma rs_unshare_rest:
  assumes "\<And>q. q \<in> set qs \<Longrightarrow> 0 \<le> q \<and> q < int (rs_size m)"
  shows "rs_unshare qs (Suc j) m = (fold rs_drop qs m, True)"
  using assms by (induction qs arbitrary: j m) (auto simp: not_le not_less)

lemma rs_unshare_all_eq:
  assumes "\<And>s q. s \<in> set ss \<Longrightarrow> q \<in> set (set_ids ub s) \<Longrightarrow> 0 \<le> q \<and> q < int (rs_size m)"
  shows "rs_unshare_all ub ss m = (fold rs_drop (concat (map (\<lambda>s. tl (set_ids ub s)) ss)) m, True)"
  using assms
proof (induction ss arbitrary: m)
  case (Cons s ss)
  have sz: "rs_size (fold rs_drop qs m) = rs_size m" for qs by (induction qs arbitrary: m) auto
  have "rs_unshare (set_ids ub s) 0 m = (fold rs_drop (tl (set_ids ub s)) m, True)"
  proof (cases "set_ids ub s")
    case (Cons q qs)
    have "\<not> (q < 0 \<or> q \<ge> int (rs_size m))" using Cons.prems [of s q] \<open>set_ids ub s = q # qs\<close> by auto
    moreover have "rs_unshare qs (Suc 0) m = (fold rs_drop qs m, True)"
      by (rule rs_unshare_rest) (use Cons.prems [of s] \<open>set_ids ub s = q # qs\<close> in auto)
    ultimately show ?thesis using \<open>set_ids ub s = q # qs\<close> by simp
  qed simp
  moreover have "rs_unshare_all ub ss (fold rs_drop (tl (set_ids ub s)) m) =
      (fold rs_drop (concat (map (\<lambda>s. tl (set_ids ub s)) ss)) (fold rs_drop (tl (set_ids ub s)) m), True)"
    by (rule Cons.IH) (use Cons.prems sz in auto)
  ultimately show ?case by simp
qed simp

subsection \<open>Searching an empty cell\<close>

definition rs_off :: "nat \<Rightarrow> nat \<Rightarrow> nat \<Rightarrow> nat" where
  \<comment> \<open>how far cell \<open>x\<close> is from cell \<open>h\<close>, going round\<close>
  "rs_off h sz x = (if h \<le> x then x - h else x + sz - h)"

definition rs_step :: "nat \<Rightarrow> nat \<Rightarrow> nat" where
  "rs_step sz x = (if x + 1 \<ge> sz then x + 1 - sz else x + 1)"

lemma rs_off_facts:
  assumes "h < sz" "x < sz"
  shows "rs_off h sz x < sz" "rs_step sz x < sz" "y < sz \<Longrightarrow> rs_off h sz x = rs_off h sz y \<Longrightarrow> x = y"
    "y < sz \<Longrightarrow> rs_off h sz x < rs_off h sz y \<Longrightarrow> rs_off h sz (rs_step sz x) = rs_off h sz x + 1"
    "rs_off h sz h = 0"
  using assms by (auto simp: rs_off_def rs_step_def split: if_splits)

lemma rs_probe_step: "x < rs_size m \<Longrightarrow> 0 < k \<Longrightarrow> rs_probe m (x + 1) k = rs_probe m (rs_step (rs_size m) x) k"
  by (cases k) (auto simp: rs_step_def Let_def)

definition rs_first_empty :: "rs_memory \<Rightarrow> nat \<Rightarrow> nat \<Rightarrow> nat \<Rightarrow> bool" where
  \<comment> \<open>\<open>r\<close> is the first empty cell at distance \<open>o\<close> or more\<close>
  "rs_first_empty m h d r \<longleftrightarrow> r < rs_size m \<and> rc_seq (rs_cell m r) = {} \<and> d \<le> rs_off h (rs_size m) r \<and>
     (\<forall>z < rs_size m. rc_seq (rs_cell m z) = {} \<longrightarrow> d \<le> rs_off h (rs_size m) z \<longrightarrow> rs_off h (rs_size m) r \<le> rs_off h (rs_size m) z)"

lemma rs_probe_first:
  assumes "h < rs_size m" "x < rs_size m" "y < rs_size m" "rc_seq (rs_cell m y) = {}"
    and "rs_off h (rs_size m) x \<le> rs_off h (rs_size m) y" "rs_off h (rs_size m) y - rs_off h (rs_size m) x < k"
  shows "rs_first_empty m h (rs_off h (rs_size m) x) (rs_probe m x k)"
  using assms(2,5,6)
proof (induction k arbitrary: x)
  case (Suc k)
  let ?off = "rs_off h (rs_size m)"
  show ?case
  proof (cases "rc_seq (rs_cell m x) = {}")
    case True
    then show ?thesis using Suc.prems(1) by (simp add: rs_first_empty_def Let_def)
  next
    case False
    then have lt: "?off x < ?off y" using assms(4) Suc.prems(2) rs_off_facts(3) [OF assms(1) Suc.prems(1) assms(3)] by (cases "x = y") auto
    note f = rs_off_facts(4) [OF assms(1) Suc.prems(1) assms(3) lt] rs_off_facts(2) [OF assms(1) Suc.prems(1)]
    have k: "0 < k" using Suc.prems(3) lt by linarith
    have I: "rs_first_empty m h (?off (rs_step (rs_size m) x)) (rs_probe m (rs_step (rs_size m) x) k)"
      by (rule Suc.IH) (use f lt Suc.prems(3) in auto)
    have "?off x + 1 \<le> ?off z" if "?off x \<le> ?off z" "z < rs_size m" "rc_seq (rs_cell m z) = {}" for z
      using that False rs_off_facts(3) [OF assms(1) Suc.prems(1) that(2)] by (cases "?off x = ?off z") auto
    then have "rs_first_empty m h (?off x) (rs_probe m (rs_step (rs_size m) x) k)"
      using I unfolding rs_first_empty_def f(1) by auto
    then show ?thesis using False Suc.prems(1) rs_probe_step [OF Suc.prems(1) k] by (simp add: Let_def)
  qed
qed simp

lemma rs_probe_Suc: "x < rs_size m \<Longrightarrow> rs_probe m x (Suc k) = (if rc_seq (rs_cell m x) = {} then x else rs_probe m (x + 1) k)"
  by (simp add: Let_def)

lemma rs_probe_next_Suc:
  "rs_probe_next m x (Suc k) = (if rc_seq (rs_cell m (rs_step (rs_size m) x)) = {} then rs_step (rs_size m) x
     else rs_probe_next m (rs_step (rs_size m) x) k)"
  by (simp add: Let_def rs_step_def)

lemma rs_probe_next_eq:
  assumes "h < rs_size m" "x < rs_size m" "y < rs_size m" "rc_seq (rs_cell m y) = {}"
    and "rs_off h (rs_size m) x < rs_off h (rs_size m) y" "rs_off h (rs_size m) y - rs_off h (rs_size m) x \<le> k"
  shows "rs_probe_next m x k = rs_probe m (rs_step (rs_size m) x) k"
  using assms(2,5,6)
proof (induction k arbitrary: x)
  case (Suc k)
  let ?off = "rs_off h (rs_size m)" and ?s = "rs_step (rs_size m) x"
  note f = rs_off_facts(4) [OF assms(1) Suc.prems(1) assms(3) Suc.prems(2)] rs_off_facts(2) [OF assms(1) Suc.prems(1)]
  show ?case
  proof (cases "rc_seq (rs_cell m ?s) = {}")
    case True
    then show ?thesis using f(2) by (simp only: rs_probe_next_Suc rs_probe_Suc if_True refl)
  next
    case False
    then have "?off ?s < ?off y"
      using assms(4) Suc.prems(2) f(1) rs_off_facts(3) [OF assms(1) f(2) assms(3)] by (cases "?s = y") auto
    then have "rs_probe_next m ?s k = rs_probe m (rs_step (rs_size m) ?s) k" "0 < k"
      using Suc.IH [OF f(2)] Suc.prems(3) f(1) by auto
    then show ?thesis using False rs_probe_step [OF f(2) \<open>0 < k\<close>] f(2)
      by (simp only: rs_probe_next_Suc rs_probe_Suc if_False)
  qed
qed simp

subsection \<open>Giving every set a cell of its own\<close>

definition rs_st :: "rs_memory \<Rightarrow> nat \<Rightarrow> (llama_pos \<times> int) option" where
  \<comment> \<open>the last position of a sequence and the row of its state\<close>
  "rs_st m q = (if q < rs_size m \<and> 0 \<le> rs_tail m q
     then Some (rc_pos (rs_cell m (nat (rs_tail m q))), rc_src (rs_cell m (nat (rs_tail m q)))) else None)"

definition rs_mid :: "nat set \<Rightarrow> rs_memory \<Rightarrow> bool" where
  \<comment> \<open>the invariant while cells are assigned: each sequence of \<open>F\<close> has a cell of its own, which may not list it yet\<close>
  "rs_mid F m \<longleftrightarrow>
     (\<forall>q < rs_size m. -1 \<le> rs_tail m q \<and> rs_tail m q < int (rs_size m)) \<and>
     (\<forall>i < rs_size m. rc_seq (rs_cell m i) = int ` rs_occ m i \<or> (\<exists>q \<in> F. rs_occ m i = {q} \<and> rc_seq (rs_cell m i) = {})) \<and>
     (\<forall>q \<in> F. q < rs_size m \<and> 0 \<le> rs_tail m q \<and> rs_occ m (nat (rs_tail m q)) = {q}) \<and>
     (\<forall>i < rs_size m. if rc_seq (rs_cell m i) = {} then rc_pos (rs_cell m i) = -1 else 0 \<le> rc_pos (rs_cell m i)) \<and>
     (\<forall>i < rs_size m. -1 \<le> rc_src (rs_cell m i) \<and> rc_src (rs_cell m i) < int (rs_size m))"

lemma rs_midD:
  assumes "rs_mid F m"
  shows "q < rs_size m \<Longrightarrow> -1 \<le> rs_tail m q" "q < rs_size m \<Longrightarrow> rs_tail m q < int (rs_size m)"
    "i < rs_size m \<Longrightarrow> rc_seq (rs_cell m i) = int ` rs_occ m i \<or> (\<exists>q \<in> F. rs_occ m i = {q} \<and> rc_seq (rs_cell m i) = {})"
    "q \<in> F \<Longrightarrow> q < rs_size m" "q \<in> F \<Longrightarrow> 0 \<le> rs_tail m q" "q \<in> F \<Longrightarrow> rs_occ m (nat (rs_tail m q)) = {q}"
    "i < rs_size m \<Longrightarrow> rc_seq (rs_cell m i) = {} \<Longrightarrow> rc_pos (rs_cell m i) = -1"
    "i < rs_size m \<Longrightarrow> rc_seq (rs_cell m i) \<noteq> {} \<Longrightarrow> 0 \<le> rc_pos (rs_cell m i)"
    "i < rs_size m \<Longrightarrow> -1 \<le> rc_src (rs_cell m i)" "i < rs_size m \<Longrightarrow> rc_src (rs_cell m i) < int (rs_size m)"
  using assms unfolding rs_mid_def by (auto split: if_splits)

lemma rs_wf_mid: "rs_wf m \<Longrightarrow> rs_mid {} m"
proof -
  assume wf: "rs_wf m"
  note w = rs_wfD [OF wf]
  show ?thesis
    unfolding rs_mid_def
  proof (intro conjI allI impI ballI)
    show "if rc_seq (rs_cell m i) = {} then rc_pos (rs_cell m i) = -1 else 0 \<le> rc_pos (rs_cell m i)" if "i < rs_size m" for i
      using w(8,9) [OF that] by simp
    show "-1 \<le> rc_src (rs_cell m i)" "rc_src (rs_cell m i) < int (rs_size m)" if "i < rs_size m" for i
      using w(7) [OF that] that by auto
  qed (use w(4-6) in simp_all)
qed

definition rs_own :: "nat set \<Rightarrow> rs_memory \<Rightarrow> bool" where
  \<comment> \<open>outside of \<open>A\<close> the state of a cell is in its own row\<close>
  "rs_own A m \<longleftrightarrow> (\<forall>i < rs_size m. i \<notin> A \<longrightarrow> rc_src (rs_cell m i) = -1 \<or> rc_src (rs_cell m i) = int i)"

lemma rs_free_seq: "rs_mid F m \<Longrightarrow> i < rs_size m \<Longrightarrow> rs_occ m i = {} \<Longrightarrow> rc_seq (rs_cell m i) = {}"
  using rs_midD(3) [of F m i] by auto

lemma rs_member:
  assumes "rs_mid F m" "q < rs_size m" "q \<notin> F" "0 \<le> rs_tail m q"
  shows "int q \<in> rc_seq (rs_cell m (nat (rs_tail m q)))" "nat (rs_tail m q) < rs_size m"
    "rc_seq (rs_cell m (nat (rs_tail m q))) = int ` rs_occ m (nat (rs_tail m q))"
proof -
  show t: "nat (rs_tail m q) < rs_size m" using rs_midD(2) [OF assms(1,2)] assms(4) by linarith
  have o: "q \<in> rs_occ m (nat (rs_tail m q))" using assms(2,4) by (simp add: rs_occ_def)
  then show "rc_seq (rs_cell m (nat (rs_tail m q))) = int ` rs_occ m (nat (rs_tail m q))"
    using rs_midD(3) [OF assms(1) t] assms(3) by auto
  then show "int q \<in> rc_seq (rs_cell m (nat (rs_tail m q)))" using o by simp
qed

text \<open>There is an empty cell for a sequence that has none of its own.\<close>

lemma rs_free_exists:
  assumes "q < rs_size m" "0 \<le> rs_tail m q \<Longrightarrow> rs_occ m (nat (rs_tail m q)) \<noteq> {q}"
  shows "\<exists>x < rs_size m. rs_occ m x = {}"
proof (rule ccontr)
  assume "\<not> ?thesis"
  then have ne: "rs_occ m x \<noteq> {}" if "x < rs_size m" for x using that by blast
  define g where "g = (\<lambda>x. SOME u. u \<in> rs_occ m x \<and> u \<noteq> q)"
  have g: "g x \<in> rs_occ m x \<and> g x \<noteq> q" if x: "x < rs_size m" for x
    unfolding g_def
  proof (rule someI_ex)
    show "\<exists>u. u \<in> rs_occ m x \<and> u \<noteq> q"
    proof (cases "rs_tail m q = int x")
      case True
      then have "q \<in> rs_occ m x" "rs_occ m x \<noteq> {q}" using assms by (auto simp: rs_occ_def)
      then show ?thesis by blast
    next
      case False
      then have "q \<notin> rs_occ m x" by (simp add: rs_occ_def)
      then show ?thesis using ne [OF x] by blast
    qed
  qed
  have "inj_on g {..<rs_size m}"
  proof (rule inj_onI)
    fix x y assume "x \<in> {..<rs_size m}" "y \<in> {..<rs_size m}" "g x = g y"
    then show "x = y" using g [of x] g [of y] by (auto simp: rs_occ_def)
  qed
  moreover have "g ` {..<rs_size m} \<subseteq> {..<rs_size m} - {q}" using g by (auto simp: rs_occ_def)
  ultimately have "card {..<rs_size m} \<le> card ({..<rs_size m} - {q})"
    by (rule card_inj_on_le) simp
  then show False using assms(1) by simp
qed

lemma rs_owns_eq:
  assumes "rs_mid F m" "q < rs_size m" "q \<notin> F"
  shows "rs_owns m (int q) = Some (0 \<le> rs_tail m q \<and> rs_occ m (nat (rs_tail m q)) = {q})"
proof (cases "0 \<le> rs_tail m q")
  case True
  note r = rs_member [OF assms True]
  have "q \<in> rs_occ m (nat (rs_tail m q))" using r(1,3) by auto
  then have "card (rs_occ m (nat (rs_tail m q))) = 1 \<longleftrightarrow> rs_occ m (nat (rs_tail m q)) = {q}"
    by (auto simp: card_1_singleton_iff)
  then show ?thesis using True r(1,3) by (auto simp: rs_owns_def Let_def rs_tail_def card_image)
qed (simp add: rs_owns_def Let_def rs_tail_def)

lemma rs_take_effect:
  assumes "rs_mid F m" "rs_own A m" "q < rs_size m" "q \<notin> F" "0 \<le> rs_tail m q \<longrightarrow> rs_occ m (nat (rs_tail m q)) \<noteq> {q}"
    and "e < rs_size m" "rs_occ m e = {}"
  shows "\<exists>m'. rs_take_cell (int q) e m = Some m' \<and> rs_size m' = rs_size m \<and> rs_mid (insert q F) m' \<and> rs_own (insert e A) m' \<and>
    (\<forall>u. rs_tail m' u = (if u = q then int e else rs_tail m u)) \<and>
    (\<forall>i. i \<noteq> e \<longrightarrow> (rc_seq (rs_cell m' i) = {} \<longleftrightarrow> rc_seq (rs_cell m i) = {})) \<and>
    (\<forall>i. rs_occ m' i = (if i = e then {q} else rs_occ m i - {q})) \<and>
    (\<forall>u. u \<noteq> q \<longrightarrow> rs_st m' u = rs_st m u) \<and> (rs_st m q \<noteq> None \<longrightarrow> rs_st m' q = rs_st m q) \<and>
    rm_rs_idx m' = rm_rs_idx m \<and> rm_n_seq_max m' = rm_n_seq_max m \<and> rm_n_rs_seq m' = rm_n_rs_seq m"
proof (cases "0 \<le> rs_tail m q")
  case True
  then obtain t where t: "rs_tail m q = int t" using nonneg_int_cases by blast
  note r = rs_member [OF assms(1,3,4) True, unfolded t nat_int]
  have ne: "t \<noteq> e" using assms(7) r(1,3) by auto
  have e: "rc_seq (rs_cell m e) = {}" by (rule rs_free_seq [OF assms(1,6,7)])
  have more: "\<exists>u \<in> rs_occ m t. u \<noteq> q" 
  proof -
    have "q \<in> rs_occ m t" using assms(3) t by (simp add: rs_occ_def)
    moreover have "rs_occ m t \<noteq> {q}" using assms(5) True t by simp
    ultimately show ?thesis by blast
  qed
  then have left: "rc_seq (rs_cell m t) - {int q} \<noteq> {}" unfolding r(3) by force
  have tl: "rc_tail (rs_cell m q) = int t" using t by (simp add: rs_tail_def)
  define m' where "m' = rs_upd q (\<lambda>c. c\<lparr>rc_tail := int e\<rparr>) (rs_upd e (\<lambda>c. c\<lparr>rc_seq := insert (int q) (rc_seq c)\<rparr>)
      (rs_upd t (\<lambda>c. c\<lparr>rc_seq := rc_seq c - {int q}\<rparr>)
      (rs_upd e (\<lambda>c. c\<lparr>rc_pos := rc_pos (rs_cell m t), rc_src := rc_src (rs_cell m t)\<rparr>) m)))"
  have take: "rs_take_cell (int q) e m = Some m'"
  proof -
    have "rc_seq (rs_cell (rs_upd e (\<lambda>c. c\<lparr>rc_seq := insert (int q) (rc_seq c)\<rparr>) (rs_upd t (\<lambda>c. c\<lparr>rc_seq := rc_seq c - {int q}\<rparr>)
        (rs_upd e (\<lambda>c. c\<lparr>rc_pos := rc_pos (rs_cell m t), rc_src := rc_src (rs_cell m t)\<rparr>) m))) t) = rc_seq (rs_cell m t) - {int q}"
      using ne r(2) by simp
    moreover have "\<not> (e \<ge> rs_size m \<or> rc_seq (rs_cell m e) \<noteq> {})" "int t \<ge> 0" using e assms(6) by simp_all
    ultimately show ?thesis
      using left unfolding rs_take_cell_def Let_def nat_int tl m'_def by (simp only: if_False if_True)
  qed
  have sz: "rs_size m' = rs_size m" by (simp add: m'_def)
  have c: "rc_tail (rs_cell m' i) = (if i = q then int e else rc_tail (rs_cell m i))"
    "rc_seq (rs_cell m' i) = (if i = e then {int q} else if i = t then rc_seq (rs_cell m t) - {int q} else rc_seq (rs_cell m i))"
    "rc_pos (rs_cell m' i) = (if i = e then rc_pos (rs_cell m t) else rc_pos (rs_cell m i))"
    "rc_src (rs_cell m' i) = (if i = e then rc_src (rs_cell m t) else rc_src (rs_cell m i))" for i
    using assms(3,6) r(2) ne e by (auto simp: m'_def)
  have tail: "rs_tail m' u = (if u = q then int e else rs_tail m u)" for u using c(1) by (simp add: rs_tail_def)
  have occ: "rs_occ m' i = (if i = e then {q} else rs_occ m i - {q})" for i
    using assms(3,7) by (auto simp: rs_occ_def sz tail)
  have occ_q: "q \<notin> rs_occ m i" if "i \<noteq> t" for i using t that by (auto simp: rs_occ_def)
  have st: "rs_st m' u = rs_st m u" if "u < rs_size m" for u
  proof (cases "0 \<le> rs_tail m' u")
    case T: True
    show ?thesis
    proof (cases "u = q")
      case True
      then show ?thesis using t c(3,4) sz tail that by (simp add: rs_st_def)
    next
      case False
      have "nat (rs_tail m u) \<noteq> e" if "0 \<le> rs_tail m u"
      proof
        assume "nat (rs_tail m u) = e"
        then have "u \<in> rs_occ m e" using \<open>u < rs_size m\<close> that by (simp add: rs_occ_def)
        then show False using assms(7) by simp
      qed
      then show ?thesis using False c(3,4) sz tail by (simp add: rs_st_def)
    qed
  next
    case False
    then show ?thesis using tail [of u] t sz by (auto simp: rs_st_def split: if_splits)
  qed
  have st': "rs_st m' u = rs_st m u" for u using st [of u] sz by (cases "u < rs_size m") (auto simp: rs_st_def)
  have pos_t: "0 \<le> rc_pos (rs_cell m t)" using rs_midD(8) [OF assms(1) r(2)] r(1) by blast
  have "rs_mid (insert q F) m'"
    unfolding rs_mid_def sz
  proof (intro conjI allI impI ballI)
    show "-1 \<le> rs_tail m' u" "rs_tail m' u < int (rs_size m)" if "u < rs_size m" for u
      using rs_midD(1,2) [OF assms(1) that] assms(6) by (simp_all add: tail)
    show "rc_seq (rs_cell m' i) = int ` rs_occ m' i \<or> (\<exists>u \<in> insert q F. rs_occ m' i = {u} \<and> rc_seq (rs_cell m' i) = {})"
      if i: "i < rs_size m" for i
    proof -
      consider (e) "i = e" | (t) "i = t" "i \<noteq> e" | (o) "i \<noteq> e" "i \<noteq> t" by blast
      then show ?thesis
      proof cases
        case e then show ?thesis by (simp add: c(2) occ)
      next
        case t
        have "int ` rs_occ m t - {int q} = int ` (rs_occ m t - {q})" by (simp add: image_set_diff)
        then show ?thesis using t r(3) by (simp add: c(2) occ)
      next
        case o
        then have "rs_occ m' i = rs_occ m i" "rc_seq (rs_cell m' i) = rc_seq (rs_cell m i)"
          using occ_q [OF o(2)] by (simp_all add: occ c(2))
        then show ?thesis using rs_midD(3) [OF assms(1) i] by auto
      qed
    qed
    show "u < rs_size m" if "u \<in> insert q F" for u using that assms(3) rs_midD(4) [OF assms(1)] by auto
    show "0 \<le> rs_tail m' u" if "u \<in> insert q F" for u using that rs_midD(5) [OF assms(1)] by (auto simp: tail)
    show "rs_occ m' (nat (rs_tail m' u)) = {u}" if u: "u \<in> insert q F" for u
    proof (cases "u = q")
      case True then show ?thesis by (simp add: tail occ)
    next
      case False
      then have f: "rs_occ m (nat (rs_tail m u)) = {u}" using u rs_midD(6) [OF assms(1)] by auto
      then have "nat (rs_tail m u) \<noteq> e" using assms(7) by auto
      then show ?thesis using f False by (simp add: tail occ)
    qed
    show "if rc_seq (rs_cell m' i) = {} then rc_pos (rs_cell m' i) = -1 else 0 \<le> rc_pos (rs_cell m' i)" if i: "i < rs_size m" for i
      using rs_midD(7,8) [OF assms(1) i] pos_t left ne by (auto simp: c(2,3))
    show "-1 \<le> rc_src (rs_cell m' i)" "rc_src (rs_cell m' i) < int (rs_size m)" if i: "i < rs_size m" for i
      using rs_midD(9,10) [OF assms(1) i] rs_midD(9,10) [OF assms(1) r(2)] by (simp_all add: c(4))
  qed
  moreover have "rs_own (insert e A) m'" using assms(2) by (auto simp: rs_own_def sz c(4))
  moreover have "rc_seq (rs_cell m' i) = {} \<longleftrightarrow> rc_seq (rs_cell m i) = {}" if "i \<noteq> e" for i
    using that left by (auto simp: c(2))
  ultimately show ?thesis using take sz tail occ st' by (intro exI [of _ m']) (auto simp: m'_def)
next
  case False
  have e: "rc_seq (rs_cell m e) = {}" by (rule rs_free_seq [OF assms(1,6,7)])
  define m' where "m' = rs_upd q (\<lambda>c. c\<lparr>rc_tail := int e\<rparr>) m"
  have take: "rs_take_cell (int q) e m = Some m'"
    using False e assms(6) by (simp add: rs_take_cell_def Let_def m'_def rs_tail_def)
  have sz: "rs_size m' = rs_size m" by (simp add: m'_def)
  have c: "rc_tail (rs_cell m' i) = (if i = q then int e else rc_tail (rs_cell m i))"
    "rc_seq (rs_cell m' i) = rc_seq (rs_cell m i)" "rc_pos (rs_cell m' i) = rc_pos (rs_cell m i)"
    "rc_src (rs_cell m' i) = rc_src (rs_cell m i)" for i
    using assms(3) by (auto simp: m'_def)
  have tail: "rs_tail m' u = (if u = q then int e else rs_tail m u)" for u using c(1) by (simp add: rs_tail_def)
  have occ: "rs_occ m' i = (if i = e then {q} else rs_occ m i - {q})" for i
    using assms(3,7) False by (auto simp: rs_occ_def sz tail)
  have occ_q: "q \<notin> rs_occ m i" for i using False by (auto simp: rs_occ_def)
  have st: "rs_st m' u = rs_st m u" if "u \<noteq> q" for u using that c(3,4) sz tail by (simp add: rs_st_def)
  have "rs_mid (insert q F) m'"
    unfolding rs_mid_def sz
  proof (intro conjI allI impI ballI)
    show "-1 \<le> rs_tail m' u" "rs_tail m' u < int (rs_size m)" if "u < rs_size m" for u
      using rs_midD(1,2) [OF assms(1) that] assms(6) by (simp_all add: tail)
    show "rc_seq (rs_cell m' i) = int ` rs_occ m' i \<or> (\<exists>u \<in> insert q F. rs_occ m' i = {u} \<and> rc_seq (rs_cell m' i) = {})"
      if i: "i < rs_size m" for i
      using rs_midD(3) [OF assms(1) i] e occ_q [of i] by (auto simp: c(2) occ)
    show "u < rs_size m" if "u \<in> insert q F" for u using that assms(3) rs_midD(4) [OF assms(1)] by auto
    show "0 \<le> rs_tail m' u" if "u \<in> insert q F" for u using that rs_midD(5) [OF assms(1)] by (auto simp: tail)
    show "rs_occ m' (nat (rs_tail m' u)) = {u}" if u: "u \<in> insert q F" for u
    proof (cases "u = q")
      case True then show ?thesis by (simp add: tail occ)
    next
      case False
      then have f: "rs_occ m (nat (rs_tail m u)) = {u}" using u rs_midD(6) [OF assms(1)] by auto
      then have "nat (rs_tail m u) \<noteq> e" using assms(7) by auto
      then show ?thesis using f False by (simp add: tail occ)
    qed
    show "if rc_seq (rs_cell m' i) = {} then rc_pos (rs_cell m' i) = -1 else 0 \<le> rc_pos (rs_cell m' i)" if i: "i < rs_size m" for i
      using rs_midD(7,8) [OF assms(1) i] by (simp add: c(2,3))
    show "-1 \<le> rc_src (rs_cell m' i)" "rc_src (rs_cell m' i) < int (rs_size m)" if i: "i < rs_size m" for i
      using rs_midD(9,10) [OF assms(1) i] by (simp_all add: c(4))
  qed
  moreover have "rs_own (insert e A) m'" using assms(2) by (auto simp: rs_own_def sz c(4))
  moreover have "rs_st m q = None" using False by (simp add: rs_st_def)
  ultimately show ?thesis using take sz tail occ st by (intro exI [of _ m']) (auto simp: c(2) m'_def)
qed

definition rs_next_ok :: "nat \<Rightarrow> rs_memory \<Rightarrow> nat \<Rightarrow> bool" where
  \<comment> \<open>going round from \<open>h\<close>, \<open>next\<close> is the first unassigned empty cell, after all assigned empty ones\<close>
  "rs_next_ok h m nxt \<longleftrightarrow> nxt < rs_size m \<and> rs_occ m nxt = {} \<and>
     (\<forall>z < rs_size m. rc_seq (rs_cell m z) = {} \<longrightarrow> rs_occ m z \<noteq> {} \<longrightarrow> rs_off h (rs_size m) z < rs_off h (rs_size m) nxt) \<and>
     (\<forall>z < rs_size m. rs_occ m z = {} \<longrightarrow> rs_off h (rs_size m) nxt \<le> rs_off h (rs_size m) z)"

definition rs_same :: "nat set \<Rightarrow> rs_memory \<Rightarrow> rs_memory \<Rightarrow> bool" where
  \<comment> \<open>the states of the sequences are kept; those of \<open>F\<close> may have moved or begun\<close>
  "rs_same F m0 m \<longleftrightarrow> rs_size m = rs_size m0 \<and> rm_rs_idx m = rm_rs_idx m0 \<and> rm_n_seq_max m = rm_n_seq_max m0 \<and>
     rm_n_rs_seq m = rm_n_rs_seq m0 \<and>
     (\<forall>u. u \<notin> F \<longrightarrow> rs_st m u = rs_st m0 u) \<and> (\<forall>u. rs_st m0 u \<noteq> None \<longrightarrow> rs_st m u = rs_st m0 u)"

definition assign_inv :: "llama_ubatch \<Rightarrow> rs_memory \<Rightarrow> nat \<Rightarrow> nat \<Rightarrow> assign_state \<Rightarrow> bool" where
  "assign_inv ub m0 h s st \<longleftrightarrow>
     (let m = as_m st; F = set_first ub ` {..<s} in
      rs_same F m0 m \<and> rs_mid F m \<and> rs_own ((\<lambda>q. nat (rs_tail m q)) ` F) m \<and> (\<forall>u. u \<notin> F \<longrightarrow> rs_tail m u = rs_tail m0 u) \<and>
      0 \<le> as_min st \<and> as_min st < int (rs_size m) \<and> 0 \<le> as_max st \<and> as_max st < int (rs_size m) \<and>
      (\<forall>q \<in> F. as_min st \<le> rs_tail m q \<and> rs_tail m q \<le> as_max st) \<and>
      (s < ub_n_seqs ub \<longrightarrow> (\<exists>x < rs_size m. rs_occ m x = {}) \<longrightarrow> rs_next_ok h m (as_next st)))"

lemma rs_own_mono: "rs_own A m \<Longrightarrow> A \<subseteq> B \<Longrightarrow> rs_own B m"
  unfolding rs_own_def by blast

lemma rs_next_taken:
  assumes "h < rs_size m" "rs_next_ok h m e" "rs_mid F m'" "rs_size m' = rs_size m"
    and seq: "\<And>i. i \<noteq> e \<Longrightarrow> rc_seq (rs_cell m' i) = {} \<longleftrightarrow> rc_seq (rs_cell m i) = {}"
    and occ: "\<And>i. rs_occ m' i = (if i = e then {q} else rs_occ m i - {q})"
    and own: "\<And>i. i < rs_size m \<Longrightarrow> rs_occ m i \<noteq> {q}"
    and free: "\<exists>x < rs_size m'. rs_occ m' x = {}"
  shows "rs_next_ok h m' (rs_probe_next m' e (rs_size m'))"
proof -
  let ?off = "rs_off h (rs_size m)"
  have e: "e < rs_size m" "rs_occ m e = {}"
    "\<And>z. z < rs_size m \<Longrightarrow> rc_seq (rs_cell m z) = {} \<Longrightarrow> rs_occ m z \<noteq> {} \<Longrightarrow> ?off z < ?off e"
    "\<And>z. z < rs_size m \<Longrightarrow> rs_occ m z = {} \<Longrightarrow> ?off e \<le> ?off z"
    using assms(2) unfolding rs_next_ok_def by blast+
  have h': "h < rs_size m'" "e < rs_size m'" using assms(1,4) e(1) by simp_all
  have free_z: "?off e < ?off z \<and> rc_seq (rs_cell m' z) = {}" if "z < rs_size m" "rs_occ m' z = {}" for z
  proof -
    have ne: "z \<noteq> e" using occ that by auto
    then have "rs_occ m z = {}" using occ [of z] own [OF that(1)] that(2) by auto
    then have "?off e \<le> ?off z" using e(4) that(1) by blast
    moreover have "?off e \<noteq> ?off z" using rs_off_facts(3) [OF assms(1) e(1) that(1)] ne by blast
    moreover have "rc_seq (rs_cell m' z) = {}" using rs_free_seq [OF assms(3)] that assms(4) by simp
    ultimately show ?thesis by simp
  qed
  obtain y where y: "y < rs_size m" "rs_occ m' y = {}" using free assms(4) by auto
  note fy = free_z [OF y]
  have st: "?off (rs_step (rs_size m) e) = ?off e + 1" "rs_step (rs_size m) e < rs_size m"
    using rs_off_facts(4) [OF assms(1) e(1) y(1)] rs_off_facts(2) [OF assms(1) e(1)] fy by blast+
  define r where "r = rs_probe_next m' e (rs_size m')"
  have oy: "?off y < rs_size m" using rs_off_facts(1) [OF assms(1) y(1)] .
  have eq: "r = rs_probe m' (rs_step (rs_size m') e) (rs_size m')"
    unfolding r_def by (rule rs_probe_next_eq [OF h']) (use y fy oy assms(4) in auto)
  have "rs_first_empty m' h (rs_off h (rs_size m') (rs_step (rs_size m') e)) (rs_probe m' (rs_step (rs_size m') e) (rs_size m'))"
    by (rule rs_probe_first [OF h'(1)]) (use y fy oy st assms(4) in auto)
  then have "rs_first_empty m' h (?off e + 1) r" unfolding eq using st(1) assms(4) by simp
  then have r: "r < rs_size m" "rc_seq (rs_cell m' r) = {}" "?off e + 1 \<le> ?off r"
    "\<And>z. z < rs_size m \<Longrightarrow> rc_seq (rs_cell m' z) = {} \<Longrightarrow> ?off e + 1 \<le> ?off z \<Longrightarrow> ?off r \<le> ?off z"
    unfolding rs_first_empty_def assms(4) by blast+
  have assigned: "?off z \<le> ?off e" if "z < rs_size m" "rc_seq (rs_cell m' z) = {}" "rs_occ m' z \<noteq> {}" for z
  proof (cases "z = e")
    case False
    then have "rc_seq (rs_cell m z) = {}" "rs_occ m z \<noteq> {}" using seq [OF False] occ [of z] that by auto
    then show ?thesis using e(3) [OF that(1)] by simp
  qed simp
  have "rs_next_ok h m' r"
    unfolding rs_next_ok_def assms(4)
  proof (intro conjI allI impI)
    show "r < rs_size m" by (rule r(1))
    show "rs_occ m' r = {}" using assigned [OF r(1,2)] r(3) by linarith
    show "?off z < ?off r" if "z < rs_size m" "rc_seq (rs_cell m' z) = {}" "rs_occ m' z \<noteq> {}" for z
      using assigned [OF that] r(3) by simp
    show "?off r \<le> ?off z" if "z < rs_size m" "rs_occ m' z = {}" for z
      using r(4) [OF that(1)] free_z [OF that] by simp
  qed
  then show ?thesis by (simp only: r_def)
qed

lemma rs_assign_step:
  assumes ub: "rs_ub_ok (rs_size m0) ub" and h: "h < rs_size m0" and s: "s < ub_n_seqs ub" and inv: "assign_inv ub m0 h s st"
  shows "\<exists>st'. rs_assign ub s st = Some st' \<and> assign_inv ub m0 h (Suc s) st'"
proof -
  let ?m = "as_m st" and ?F = "set_first ub ` {..<s}" and ?q = "set_first ub s"
  note u = rs_ub_okD [OF ub]
  have I: "rs_same ?F m0 ?m" "rs_mid ?F ?m" "rs_own ((\<lambda>q. nat (rs_tail ?m q)) ` ?F) ?m" "\<And>u. u \<notin> ?F \<Longrightarrow> rs_tail ?m u = rs_tail m0 u"
    "0 \<le> as_min st" "as_min st < int (rs_size ?m)" "0 \<le> as_max st" "as_max st < int (rs_size ?m)"
    "\<And>q. q \<in> ?F \<Longrightarrow> as_min st \<le> rs_tail ?m q \<and> rs_tail ?m q \<le> as_max st"
    "\<exists>x < rs_size ?m. rs_occ ?m x = {} \<Longrightarrow> rs_next_ok h ?m (as_next st)"
    using inv s unfolding assign_inv_def Let_def by blast+
  have sz: "rs_size ?m = rs_size m0" using I(1) by (simp add: rs_same_def)
  have q: "?q < rs_size ?m" using u(11) [OF s] sz by simp
  have qF: "?q \<notin> ?F"
  proof
    assume "?q \<in> ?F"
    then obtain k where k: "k < s" "?q = set_first ub k" by auto
    then have "int ?q \<in> set (set_ids ub k)" using u(10) [of k] s by simp
    then have "s = k" using u(8) [OF s _ u(10) [OF s]] k(1) s by simp
    then show False using k(1) by simp
  qed
  have F: "set_first ub ` {..<Suc s} = insert ?q ?F" by (simp add: lessThan_Suc)
  have hd: "hd (set_ids ub s) = int ?q" using u(9) [OF s] by simp
  note owns = rs_owns_eq [OF I(2) q qF]
  show ?thesis
  proof (cases "0 \<le> rs_tail ?m ?q \<and> rs_occ ?m (nat (rs_tail ?m ?q)) = {?q}")
    case True
    let ?t = "rs_tail ?m ?q"
    define st' where "st' = st\<lparr>as_min := min (as_min st) ?t, as_max := max (as_max st) ?t\<rparr>"
    have m': "as_m st' = ?m" "as_next st' = as_next st" by (simp_all add: st'_def)
    have t: "?t < int (rs_size ?m)" using rs_midD(2) [OF I(2) q] .
    have step: "rs_assign ub s st = Some st'"
      unfolding rs_assign_def Let_def hd owns using True by (simp add: st'_def rs_tail_def)
    have "rs_mid (insert ?q ?F) ?m"
      using I(2) True q unfolding rs_mid_def by auto
    moreover have "rs_same (insert ?q ?F) m0 ?m" using I(1) unfolding rs_same_def by blast
    moreover have "rs_own ((\<lambda>q. nat (rs_tail ?m q)) ` insert ?q ?F) ?m" by (rule rs_own_mono [OF I(3)]) auto
    moreover have "0 \<le> as_min st'" "as_min st' < int (rs_size ?m)" "0 \<le> as_max st'" "as_max st' < int (rs_size ?m)"
      using I(5-8) True t by (auto simp: st'_def)
    moreover have "as_min st' \<le> rs_tail ?m q \<and> rs_tail ?m q \<le> as_max st'" if "q \<in> insert ?q ?F" for q
      using that I(9) [of q] by (auto simp: st'_def)
    ultimately have "assign_inv ub m0 h (Suc s) st'"
      unfolding assign_inv_def Let_def m' F using I(4,10) by blast
    then show ?thesis using step by blast
  next
    case False
    have no: "0 \<le> rs_tail ?m ?q \<longrightarrow> rs_occ ?m (nat (rs_tail ?m ?q)) \<noteq> {?q}" using False by blast
    have free: "\<exists>x < rs_size ?m. rs_occ ?m x = {}" by (rule rs_free_exists [OF q]) (use no in blast)
    let ?e = "as_next st"
    note nx = I(10) [OF free]
    have e: "?e < rs_size ?m" "rs_occ ?m ?e = {}" using nx by (simp_all add: rs_next_ok_def)
    obtain m' where m': "rs_take_cell (int ?q) ?e ?m = Some m'" "rs_size m' = rs_size ?m" "rs_mid (insert ?q ?F) m'"
      "rs_own (insert ?e ((\<lambda>q. nat (rs_tail ?m q)) ` ?F)) m'" "\<forall>u. rs_tail m' u = (if u = ?q then int ?e else rs_tail ?m u)"
      "\<forall>i. i \<noteq> ?e \<longrightarrow> (rc_seq (rs_cell m' i) = {} \<longleftrightarrow> rc_seq (rs_cell ?m i) = {})"
      "\<forall>i. rs_occ m' i = (if i = ?e then {?q} else rs_occ ?m i - {?q})"
      "\<forall>u. u \<noteq> ?q \<longrightarrow> rs_st m' u = rs_st ?m u" "rs_st ?m ?q \<noteq> None \<longrightarrow> rs_st m' ?q = rs_st ?m ?q"
      "rm_rs_idx m' = rm_rs_idx ?m" "rm_n_seq_max m' = rm_n_seq_max ?m" "rm_n_rs_seq m' = rm_n_rs_seq ?m"
      using rs_take_effect [OF I(2,3) q qF no e] by (elim exE conjE) (rule that; assumption)
    have tq: "rs_tail m' ?q = int ?e" using m'(5) by simp
    define nxt where "nxt = (if s + 1 < ub_n_seqs ub then rs_probe_next m' ?e (rs_size ?m) else ?e)"
    define st' where "st' = st\<lparr>as_m := m', as_next := nxt, as_min := min (as_min st) (int ?e), as_max := max (as_max st) (int ?e)\<rparr>"
    have s': "as_m st' = m'" "as_next st' = nxt" by (simp_all add: st'_def)
    have tq': "rc_tail (rs_cell m' ?q) = int ?e" using tq by (simp add: rs_tail_def)
    have no': "(0 \<le> rs_tail ?m ?q \<and> rs_occ ?m (nat (rs_tail ?m ?q)) = {?q}) = False" using False by blast
    have step: "rs_assign ub s st = Some st'"
      unfolding rs_assign_def Let_def hd owns no' using m'(1,2) tq'
      by (simp add: st'_def nxt_def)
    have st_same: "\<forall>u. rs_st m0 u \<noteq> None \<longrightarrow> rs_st m' u = rs_st m0 u" "\<forall>u. u \<notin> insert ?q ?F \<longrightarrow> rs_st m' u = rs_st m0 u"
      using I(1) m'(8,9) unfolding rs_same_def by (metis, metis insertI1 insertI2)
    have "rs_same (insert ?q ?F) m0 m'"
      using I(1) m'(2,10-12) st_same unfolding rs_same_def by simp
    moreover have "rs_own ((\<lambda>q. nat (rs_tail m' q)) ` insert ?q ?F) m'"
    proof (rule rs_own_mono [OF m'(4)])
      have "nat (rs_tail m' u) = nat (rs_tail ?m u)" if "u \<in> ?F" for u
      proof -
        have "u \<noteq> ?q" using that qF by blast
        then show ?thesis using m'(5) by simp
      qed
      then show "insert ?e ((\<lambda>q. nat (rs_tail ?m q)) ` ?F) \<subseteq> (\<lambda>q. nat (rs_tail m' q)) ` insert ?q ?F"
        using tq by force
    qed
    moreover have "rs_tail m' u = rs_tail m0 u" if "u \<notin> insert ?q ?F" for u using m'(5) I(4) that by auto
    moreover have "0 \<le> as_min st'" "as_min st' < int (rs_size m')" "0 \<le> as_max st'" "as_max st' < int (rs_size m')"
      using I(5-8) e(1) m'(2) by (auto simp: st'_def)
    moreover have "as_min st' \<le> rs_tail m' u \<and> rs_tail m' u \<le> as_max st'" if "u \<in> insert ?q ?F" for u
    proof (cases "u = ?q")
      case True then show ?thesis using m'(5) by (simp add: st'_def)
    next
      case False
      then have "as_min st \<le> rs_tail ?m u \<and> rs_tail ?m u \<le> as_max st" using that I(9) by blast
      then show ?thesis using False m'(5) by (auto simp: st'_def)
    qed
    moreover have "rs_next_ok h m' nxt" if more: "Suc s < ub_n_seqs ub" and free': "\<exists>x < rs_size m'. rs_occ m' x = {}"
    proof -
      have "rs_occ ?m i \<noteq> {?q}" if "i < rs_size ?m" for i
      proof
        assume a: "rs_occ ?m i = {?q}"
        then have "?q \<in> rs_occ ?m i" by simp
        then have "rs_tail ?m ?q = int i" by (simp add: rs_occ_def)
        then show False using no a by simp
      qed
      note own = this
      have "rs_next_ok h m' (rs_probe_next m' ?e (rs_size m'))"
      proof (rule rs_next_taken [OF _ nx m'(3,2)])
        show "h < rs_size ?m" using h sz by simp
        show "rc_seq (rs_cell m' i) = {} \<longleftrightarrow> rc_seq (rs_cell ?m i) = {}" if "i \<noteq> ?e" for i using m'(6) that by blast
        show "rs_occ m' i = (if i = ?e then {?q} else rs_occ ?m i - {?q})" for i using m'(7) by blast
        show "rs_occ ?m i \<noteq> {?q}" if "i < rs_size ?m" for i by (rule own [OF that])
        show "\<exists>x < rs_size m'. rs_occ m' x = {}" by (rule free')
      qed
      then show ?thesis using more m'(2) by (simp add: nxt_def)
    qed
    ultimately have "assign_inv ub m0 h (Suc s) st'"
      unfolding assign_inv_def Let_def s' F using m'(3) by blast
    then show ?thesis using step by blast
  qed
qed

lemma rs_assign_all:
  assumes wf: "rs_wf m0" and ub: "rs_ub_ok (rs_size m0) ub"
  shows "\<exists>st h. fold_opt (rs_assign ub) [0..<ub_n_seqs ub]
      \<lparr>as_m = m0, as_next = rs_probe m0 (rm_head m0) (rs_size m0), as_min = int (rs_size m0) - 1, as_max = 0\<rparr> = Some st \<and>
    assign_inv ub m0 h (ub_n_seqs ub) st"
proof -
  let ?h = "if rm_head m0 \<ge> rs_size m0 then rm_head m0 - rs_size m0 else rm_head m0"
  let ?st = "\<lparr>as_m = m0, as_next = rs_probe m0 (rm_head m0) (rs_size m0), as_min = int (rs_size m0) - 1, as_max = 0\<rparr>"
  have n0: "0 < rs_size m0" using rs_ub_okD(2) [OF ub] rs_ub_okD(11) [OF ub, of 0] by auto
  have h: "?h < rs_size m0" using n0 rs_wfD(3) [OF wf] by auto
  note mid = rs_wf_mid [OF wf]
  have occ: "rs_occ m0 i = {} \<longleftrightarrow> rc_seq (rs_cell m0 i) = {}" if "i < rs_size m0" for i
    using rs_wfD(6) [OF wf that] by auto
  have nx: "rs_next_ok ?h m0 (rs_probe m0 (rm_head m0) (rs_size m0))" if free: "\<exists>x < rs_size m0. rs_occ m0 x = {}"
  proof -
    obtain y where y: "y < rs_size m0" "rs_occ m0 y = {}" using free by blast
    have "rs_probe m0 (rm_head m0) (rs_size m0) = rs_probe m0 ?h (rs_size m0)"
      using n0 rs_wfD(3) [OF wf] by (cases "rs_size m0") (auto simp: Let_def)
    moreover have "rs_first_empty m0 ?h (rs_off ?h (rs_size m0) ?h) (rs_probe m0 ?h (rs_size m0))"
      by (rule rs_probe_first [OF h h y(1)]) (use y occ rs_off_facts(1) [OF h y(1)] rs_off_facts(5) [OF h h] in auto)
    ultimately have r: "rs_first_empty m0 ?h 0 (rs_probe m0 (rm_head m0) (rs_size m0))" using rs_off_facts(5) [OF h h] by simp
    then show ?thesis using occ unfolding rs_first_empty_def rs_next_ok_def by auto
  qed
  have "rs_own {} m0" using rs_wfD(7) [OF wf] by (auto simp: rs_own_def)
  then have "assign_inv ub m0 ?h 0 ?st"
    using mid nx n0 by (simp add: assign_inv_def Let_def rs_same_def)
  then show ?thesis
    using fold_opt_upt_invariant [of "assign_inv ub m0 ?h" ?st "ub_n_seqs ub" "rs_assign ub"] rs_assign_step [OF ub h] by blast
qed

subsection \<open>Moving the cells together\<close>

definition rs_exchange :: "'a \<Rightarrow> 'a \<Rightarrow> 'a \<Rightarrow> 'a" where
  "rs_exchange a b x = (if x = a then b else if x = b then a else x)"

lemma rs_exchange_twice [simp]: "rs_exchange a b (rs_exchange a b x) = x"
  by (simp add: rs_exchange_def)

lemma rs_exchange_in: "a \<in> A \<Longrightarrow> b \<in> A \<Longrightarrow> rs_exchange a b x \<in> A \<longleftrightarrow> x \<in> A"
  by (simp add: rs_exchange_def)

lemma rs_swap_cells:
  assumes "a < rs_size m" "b < rs_size m" "a \<noteq> b"
  shows "rs_size (rs_swap a b m) = rs_size m" "rm_rs_idx (rs_swap a b m) = rm_rs_idx m"
    "rm_n_seq_max (rs_swap a b m) = rm_n_seq_max m" "rm_n_rs_seq (rs_swap a b m) = rm_n_rs_seq m"
    "i < rs_size m \<Longrightarrow> rc_pos (rs_cell (rs_swap a b m) i) = rc_pos (rs_cell m (rs_exchange a b i))"
    "i < rs_size m \<Longrightarrow> rc_src (rs_cell (rs_swap a b m) i) = rc_src (rs_cell m (rs_exchange a b i))"
    "i < rs_size m \<Longrightarrow> rc_seq (rs_cell (rs_swap a b m) i) = rc_seq (rs_cell m (rs_exchange a b i))"
    "u < rs_size m \<Longrightarrow> rs_tail (rs_swap a b m) u = rs_exchange (int b) (int a) (rs_tail m u)"
  using assms
  by (auto simp: rs_swap_def Let_def rs_upd_def rs_size_def rs_cell_def rs_tail_def rs_exchange_def nth_upd)

lemma rs_exchange_int: "rs_exchange (int b) (int a) (int i) = int (rs_exchange a b i)"
  by (simp add: rs_exchange_def)

lemma rs_swap_effect:
  assumes "a < rs_size m" "b < rs_size m" "a \<noteq> b" "rs_mid F m"
  shows "rs_mid F (rs_swap a b m)" "rs_st (rs_swap a b m) = rs_st m"
    "rs_own A m \<Longrightarrow> a \<in> A \<Longrightarrow> b \<in> A \<Longrightarrow> rs_own A (rs_swap a b m)"
    "i < rs_size m \<Longrightarrow> rs_occ (rs_swap a b m) i = rs_occ m (rs_exchange a b i)"
proof -
  let ?m = "rs_swap a b m"
  note c = rs_swap_cells [OF assms(1-3)] and d = rs_midD [OF assms(4)]
  have x: "rs_exchange a b i < rs_size m" if "i < rs_size m" for i using assms(1,2) that by (simp add: rs_exchange_def)
  have tail: "0 \<le> rs_tail ?m u \<longleftrightarrow> 0 \<le> rs_tail m u"
    "0 \<le> rs_tail m u \<Longrightarrow> nat (rs_tail ?m u) = rs_exchange a b (nat (rs_tail m u))"
    "0 \<le> rs_tail m u \<Longrightarrow> nat (rs_tail m u) < rs_size m" if "u < rs_size m" for u
    using c(8) [OF that] d(2) [OF that] by (auto simp: rs_exchange_def)
  show occ: "rs_occ ?m i = rs_occ m (rs_exchange a b i)" if i: "i < rs_size m" for i
  proof -
    have "rs_tail ?m u = int i \<longleftrightarrow> rs_tail m u = int (rs_exchange a b i)" if "u < rs_size m" for u
      using c(8) [OF that] by (auto simp: rs_exchange_def split: if_splits)
    then show ?thesis by (auto simp: rs_occ_def c(1))
  qed
  show "rs_st ?m = rs_st m"
  proof
    show "rs_st ?m u = rs_st m u" for u
      using tail [of u] c(5) [of "nat (rs_tail ?m u)"] c(6) [of "nat (rs_tail ?m u)"] x
      by (cases "u < rs_size m \<and> 0 \<le> rs_tail m u") (auto simp: rs_st_def c(1))
  qed
  show "rs_own A m \<Longrightarrow> a \<in> A \<Longrightarrow> b \<in> A \<Longrightarrow> rs_own A ?m"
    unfolding rs_own_def c(1) by (auto simp: c(6) rs_exchange_def)
  show "rs_mid F ?m"
    unfolding rs_mid_def c(1)
  proof (intro conjI allI impI ballI)
    show "-1 \<le> rs_tail ?m u" "rs_tail ?m u < int (rs_size m)" if "u < rs_size m" for u
      using c(8) [OF that] d(1,2) [OF that] assms(1,2) by (auto simp: rs_exchange_def)
    show "rc_seq (rs_cell ?m i) = int ` rs_occ ?m i \<or> (\<exists>q \<in> F. rs_occ ?m i = {q} \<and> rc_seq (rs_cell ?m i) = {})"
      if i: "i < rs_size m" for i
      using d(3) [OF x [OF i]] by (simp add: occ [OF i] c(7) [OF i])
    show "q < rs_size m" if "q \<in> F" for q by (rule d(4) [OF that])
    show "0 \<le> rs_tail ?m q" if "q \<in> F" for q using tail(1) [OF d(4) [OF that]] d(5) [OF that] by simp
    show "rs_occ ?m (nat (rs_tail ?m q)) = {q}" if q: "q \<in> F" for q
      using tail [OF d(4) [OF q]] d(5,6) [OF q] occ x by simp
    show "if rc_seq (rs_cell ?m i) = {} then rc_pos (rs_cell ?m i) = -1 else 0 \<le> rc_pos (rs_cell ?m i)" if i: "i < rs_size m" for i
      using d(7,8) [OF x [OF i]] by (simp add: c(5,7) [OF i])
    show "-1 \<le> rc_src (rs_cell ?m i)" "rc_src (rs_cell ?m i) < int (rs_size m)" if i: "i < rs_size m" for i
      using d(9,10) [OF x [OF i]] by (simp_all add: c(6) [OF i])
  qed
qed

definition gather_inv :: "llama_ubatch \<Rightarrow> nat \<Rightarrow> nat \<Rightarrow> rs_memory \<Rightarrow> nat \<Rightarrow> rs_memory \<Rightarrow> bool" where
  "gather_inv ub mn mx m0 s m \<longleftrightarrow>
     rs_size m = rs_size m0 \<and> rm_rs_idx m = rm_rs_idx m0 \<and> rm_n_seq_max m = rm_n_seq_max m0 \<and> rm_n_rs_seq m = rm_n_rs_seq m0 \<and>
     rs_mid (set_first ub ` {..<ub_n_seqs ub}) m \<and> rs_own {mn..mx} m \<and> rs_st m = rs_st m0 \<and>
     (\<forall>k < ub_n_seqs ub. int mn \<le> rs_tail m (set_first ub k) \<and> rs_tail m (set_first ub k) \<le> int mx) \<and>
     (\<forall>k < s. rs_tail m (set_first ub k) = int (k + mn)) \<and>
     (\<forall>u < rs_size m0. rs_tail m u = rs_tail m0 u \<or> (int mn \<le> rs_tail m u \<and> rs_tail m u \<le> int mx \<and>
        int mn \<le> rs_tail m0 u \<and> rs_tail m0 u \<le> int mx))"

lemma rs_gather_step:
  assumes ub: "rs_ub_ok (rs_size m0) ub" and s: "s < ub_n_seqs ub" and mx: "mx < rs_size m0" "ub_n_seqs ub + mn \<le> mx + 1"
    and inv: "gather_inv ub mn mx m0 s m"
  shows "gather_inv ub mn mx m0 (Suc s) (rs_gather ub mn s m)"
proof -
  let ?q = "set_first ub s" and ?a = "s + mn"
  note u = rs_ub_okD [OF ub]
  obtain I: "rs_size m = rs_size m0" "rm_rs_idx m = rm_rs_idx m0" "rm_n_seq_max m = rm_n_seq_max m0" "rm_n_rs_seq m = rm_n_rs_seq m0"
    "rs_mid (set_first ub ` {..<ub_n_seqs ub}) m" "rs_own {mn..mx} m" "rs_st m = rs_st m0"
    "\<forall>k < ub_n_seqs ub. int mn \<le> rs_tail m (set_first ub k) \<and> rs_tail m (set_first ub k) \<le> int mx"
    "\<forall>k < s. rs_tail m (set_first ub k) = int (k + mn)"
    "\<forall>u < rs_size m0. rs_tail m u = rs_tail m0 u \<or> (int mn \<le> rs_tail m u \<and> rs_tail m u \<le> int mx \<and>
        int mn \<le> rs_tail m0 u \<and> rs_tail m0 u \<le> int mx)"
    using inv unfolding gather_inv_def by (elim conjE) (rule that; assumption)
  note I8 = I(8) [rule_format, THEN conjunct1] and I9 = I(8) [rule_format, THEN conjunct2] and I10 = I(9) [rule_format]
    and I11 = I(10) [rule_format]
  have ql: "?q < rs_size m" using u(11) [OF s] I(1) by simp
  have "0 \<le> rs_tail m ?q" using I8 [OF s] by linarith
  then obtain b where b1: "rs_tail m ?q = int b" by (rule nonneg_int_cases)
  then have b: "rs_tail m ?q = int b" "mn \<le> b" "b \<le> mx" using I8 [OF s] I9 [OF s] by simp_all
  have a: "mn \<le> ?a" "?a \<le> mx" using mx(2) s by auto
  have sz: "?a < rs_size m" "b < rs_size m" using a b mx(1) I(1) by simp_all
  have hd: "nat (hd (set_ids ub s)) = ?q" by (simp add: set_first_def)
  have src: "nat (rc_tail (rs_cell m (nat (hd (set_ids ub s))))) = b" using b1 by (simp add: hd rs_tail_def)
  have first: "rs_tail m (set_first ub k) \<noteq> rs_tail m ?q" if "k < s" for k
  proof
    assume t: "rs_tail m (set_first ub k) = rs_tail m ?q"
    have k: "k < ub_n_seqs ub" using that s by simp
    have "set_first ub k \<in> rs_occ m b" using u(11) [OF k] I(1) t b(1) by (simp add: rs_occ_def)
    moreover have "rs_occ m b = {?q}"
    proof -
      have "?q \<in> set_first ub ` {..<ub_n_seqs ub}" using s by (rule imageI [OF lessThan_iff [THEN iffD2]])
      from rs_midD(6) [OF I(5) this] show ?thesis unfolding b1 nat_int .
    qed
    ultimately have e: "set_first ub k = ?q" by simp
    have "int ?q \<in> set (set_ids ub k)" using u(10) [OF k] unfolding e .
    then have "s = k" by (rule u(8) [OF s k u(10) [OF s]])
    then show False using that by simp
  qed
  show ?thesis
  proof (cases "?a = b")
    case True
    then have "rs_gather ub mn s m = m" by (simp add: rs_gather_def Let_def src)
    moreover have "rs_tail m (set_first ub k) = int (k + mn)" if "k < Suc s" for k
      using that I10 True b(1) by (cases "k = s") auto
    ultimately show ?thesis unfolding gather_inv_def using I by simp
  next
    case False
    let ?m = "rs_swap ?a b m"
    have out: "int mn \<le> rs_exchange (int b) (int ?a) t \<and> rs_exchange (int b) (int ?a) t \<le> int mx" if "int mn \<le> t" "t \<le> int mx" for t
      using that a b by (auto simp: rs_exchange_def)
    have out': "rs_exchange (int b) (int ?a) t = t \<or> int mn \<le> t \<and> t \<le> int mx" for t
      using a b by (auto simp: rs_exchange_def)
    have e: "rs_gather ub mn s m = ?m" using False by (simp add: rs_gather_def Let_def src)
    note c = rs_swap_cells [OF sz False] and w = rs_swap_effect [OF sz False I(5)]
    have tail: "rs_tail ?m v = rs_exchange (int b) (int ?a) (rs_tail m v)" if "v < rs_size m0" for v
      using c(8) [of v] that I(1) by simp
    show ?thesis
      unfolding gather_inv_def e
    proof (intro conjI allI impI)
      show "rs_size ?m = rs_size m0" "rm_rs_idx ?m = rm_rs_idx m0" "rm_n_seq_max ?m = rm_n_seq_max m0" "rm_n_rs_seq ?m = rm_n_rs_seq m0"
        using c(1-4) I(1-4) by simp_all
      show "rs_mid (set_first ub ` {..<ub_n_seqs ub}) ?m" by (rule w(1))
      show "rs_own {mn..mx} ?m" by (rule w(3) [OF I(6)]) (use a b in auto)
      show "rs_st ?m = rs_st m0" using w(2) I(7) by simp
      show "int mn \<le> rs_tail ?m (set_first ub k)" "rs_tail ?m (set_first ub k) \<le> int mx" if k: "k < ub_n_seqs ub" for k
        using tail [OF u(11) [OF k]] out [OF I8 [OF k] I9 [OF k]] by simp_all
      show "rs_tail ?m (set_first ub k) = int (k + mn)" if k: "k < Suc s" for k
      proof (cases "k = s")
        case True
        then show ?thesis using tail [OF u(11) [OF s]] b(1) by (simp add: rs_exchange_def)
      next
        case False
        then have k': "k < s" using k by simp
        have "rs_tail m (set_first ub k) \<noteq> int b" using first [OF k'] b(1) by simp
        moreover have "rs_tail m (set_first ub k) \<noteq> int ?a" using I10 [OF k'] k' by simp
        ultimately show ?thesis using tail [OF u(11), of k] I10 [OF k'] k' s by (simp add: rs_exchange_def)
      qed
      show "rs_tail ?m v = rs_tail m0 v \<or> (int mn \<le> rs_tail ?m v \<and> rs_tail ?m v \<le> int mx \<and>
          int mn \<le> rs_tail m0 v \<and> rs_tail m0 v \<le> int mx)" if v: "v < rs_size m0" for v
        using tail [OF v] I11 [OF v] out [of "rs_tail m v"] out' [of "rs_tail m v"] by (elim disjE) metis+
    qed
  qed
qed

subsection \<open>Entering the micro-batch\<close>

lemma rs_place_fold:
  assumes "c < rs_size m" "\<And>q. q \<in> set qs \<Longrightarrow> 0 \<le> q \<and> q < int (rs_size m)"
  shows "let m' = fold (\<lambda>q m. rs_upd (nat q) (\<lambda>c'. c'\<lparr>rc_tail := int c\<rparr>) (rs_upd c (\<lambda>c. c\<lparr>rc_seq := insert q (rc_seq c)\<rparr>) m)) qs m in
    rs_size m' = rs_size m \<and> rm_rs_idx m' = rm_rs_idx m \<and> rm_n_seq_max m' = rm_n_seq_max m \<and> rm_n_rs_seq m' = rm_n_rs_seq m \<and>
    (\<forall>i. rc_pos (rs_cell m' i) = rc_pos (rs_cell m i) \<and> rc_src (rs_cell m' i) = rc_src (rs_cell m i) \<and>
       rc_seq (rs_cell m' i) = (if i = c then set qs \<union> rc_seq (rs_cell m i) else rc_seq (rs_cell m i))) \<and>
    (\<forall>u. rs_tail m' u = (if int u \<in> set qs then int c else rs_tail m u))"
  using assms
proof (induction qs arbitrary: m)
  case (Cons q qs)
  let ?m = "rs_upd (nat q) (\<lambda>c'. c'\<lparr>rc_tail := int c\<rparr>) (rs_upd c (\<lambda>c. c\<lparr>rc_seq := insert q (rc_seq c)\<rparr>) m)"
  have q: "0 \<le> q" "nat q < rs_size m" using Cons.prems(2) [of q] by auto
  have one: "rc_pos (rs_cell ?m i) = rc_pos (rs_cell m i)" "rc_src (rs_cell ?m i) = rc_src (rs_cell m i)"
    "rc_seq (rs_cell ?m i) = (if i = c then insert q (rc_seq (rs_cell m i)) else rc_seq (rs_cell m i))"
    "rs_tail ?m u = (if int u = q then int c else rs_tail m u)" for i u
    using Cons.prems(1) q by (auto simp: rs_tail_def)
  have I: "let m' = fold (\<lambda>q m. rs_upd (nat q) (\<lambda>c'. c'\<lparr>rc_tail := int c\<rparr>) (rs_upd c (\<lambda>c. c\<lparr>rc_seq := insert q (rc_seq c)\<rparr>) m)) qs ?m in
    rs_size m' = rs_size ?m \<and> rm_rs_idx m' = rm_rs_idx ?m \<and> rm_n_seq_max m' = rm_n_seq_max ?m \<and> rm_n_rs_seq m' = rm_n_rs_seq ?m \<and>
    (\<forall>i. rc_pos (rs_cell m' i) = rc_pos (rs_cell ?m i) \<and> rc_src (rs_cell m' i) = rc_src (rs_cell ?m i) \<and>
       rc_seq (rs_cell m' i) = (if i = c then set qs \<union> rc_seq (rs_cell ?m i) else rc_seq (rs_cell ?m i))) \<and>
    (\<forall>u. rs_tail m' u = (if int u \<in> set qs then int c else rs_tail ?m u))"
    by (rule Cons.IH) (use Cons.prems in auto)
  show ?case using I unfolding Let_def one fold.simps comp_def by auto
qed simp

lemma rs_place_effect:
  assumes "s + mn < rs_size m" "\<forall>q \<in> set (set_ids ub s). 0 \<le> q \<and> q < int (rs_size m)"
  shows "rs_size (rs_place ub mn s m) = rs_size m" "rm_rs_idx (rs_place ub mn s m) = rm_rs_idx m"
    "rm_n_seq_max (rs_place ub mn s m) = rm_n_seq_max m" "rm_n_rs_seq (rs_place ub mn s m) = rm_n_rs_seq m"
    "rc_pos (rs_cell (rs_place ub mn s m) i) = (if i = s + mn then set_last ub s else rc_pos (rs_cell m i))"
    "rc_src (rs_cell (rs_place ub mn s m) i) = rc_src (rs_cell m i)"
    "rc_seq (rs_cell (rs_place ub mn s m) i) = (if i = s + mn then set (set_ids ub s) else rc_seq (rs_cell m i))"
    "rs_tail (rs_place ub mn s m) u = (if int u \<in> set (set_ids ub s) then int (s + mn) else rs_tail m u)"
proof -
  let ?m = "rs_upd (s + mn) (\<lambda>c. c\<lparr>rc_pos := set_last ub s, rc_seq := {}\<rparr>) m"
  have e: "rs_place ub mn s m = fold (\<lambda>q m. rs_upd (nat q) (\<lambda>c'. c'\<lparr>rc_tail := int (s + mn)\<rparr>)
      (rs_upd (s + mn) (\<lambda>c. c\<lparr>rc_seq := insert q (rc_seq c)\<rparr>) m)) (set_ids ub s) ?m"
    by (simp only: rs_place_def Let_def set_last_def)
  have f: "rc_pos (rs_cell ?m i) = (if i = s + mn then set_last ub s else rc_pos (rs_cell m i))"
    "rc_src (rs_cell ?m i) = rc_src (rs_cell m i)" "rc_seq (rs_cell ?m i) = (if i = s + mn then {} else rc_seq (rs_cell m i))"
    "rs_tail ?m u = rs_tail m u" for i u
    using assms(1) by (auto simp: rs_tail_def)
  note p = rs_place_fold [where c = "s + mn" and qs = "set_ids ub s" and m = ?m, folded e, unfolded Let_def f]
  show "rs_size (rs_place ub mn s m) = rs_size m" "rm_rs_idx (rs_place ub mn s m) = rm_rs_idx m"
    "rm_n_seq_max (rs_place ub mn s m) = rm_n_seq_max m" "rm_n_rs_seq (rs_place ub mn s m) = rm_n_rs_seq m"
    "rc_pos (rs_cell (rs_place ub mn s m) i) = (if i = s + mn then set_last ub s else rc_pos (rs_cell m i))"
    "rc_src (rs_cell (rs_place ub mn s m) i) = rc_src (rs_cell m i)"
    "rc_seq (rs_cell (rs_place ub mn s m) i) = (if i = s + mn then set (set_ids ub s) else rc_seq (rs_cell m i))"
    "rs_tail (rs_place ub mn s m) u = (if int u \<in> set (set_ids ub s) then int (s + mn) else rs_tail m u)"
    using p assms by (simp_all del: of_nat_add)
qed

definition place_inv :: "llama_ubatch \<Rightarrow> nat \<Rightarrow> rs_memory \<Rightarrow> nat \<Rightarrow> rs_memory \<Rightarrow> bool" where
  "place_inv ub mn m0 k m \<longleftrightarrow>
     rs_size m = rs_size m0 \<and> rm_rs_idx m = rm_rs_idx m0 \<and> rm_n_seq_max m = rm_n_seq_max m0 \<and> rm_n_rs_seq m = rm_n_rs_seq m0 \<and>
     (\<forall>i. rc_pos (rs_cell m i) = (if mn \<le> i \<and> i < mn + k then set_last ub (i - mn) else rc_pos (rs_cell m0 i))) \<and>
     (\<forall>i. rc_src (rs_cell m i) = rc_src (rs_cell m0 i)) \<and>
     (\<forall>i. rc_seq (rs_cell m i) = (if mn \<le> i \<and> i < mn + k then set (set_ids ub (i - mn)) else rc_seq (rs_cell m0 i))) \<and>
     (\<forall>s u. s < k \<longrightarrow> int u \<in> set (set_ids ub s) \<longrightarrow> rs_tail m u = int (s + mn)) \<and>
     (\<forall>u. (\<forall>s < k. int u \<notin> set (set_ids ub s)) \<longrightarrow> rs_tail m u = rs_tail m0 u)"

lemma place_inv_step:
  assumes ub: "rs_ub_ok (rs_size m0) ub" and k: "k < ub_n_seqs ub" "mn + ub_n_seqs ub \<le> rs_size m0" and inv: "place_inv ub mn m0 k m"
  shows "place_inv ub mn m0 (Suc k) (rs_place ub mn k m)"
proof -
  note u = rs_ub_okD [OF ub]
  obtain I: "rs_size m = rs_size m0" "rm_rs_idx m = rm_rs_idx m0" "rm_n_seq_max m = rm_n_seq_max m0" "rm_n_rs_seq m = rm_n_rs_seq m0"
     "\<forall>i. rc_pos (rs_cell m i) = (if mn \<le> i \<and> i < mn + k then set_last ub (i - mn) else rc_pos (rs_cell m0 i))"
     "\<forall>i. rc_src (rs_cell m i) = rc_src (rs_cell m0 i)"
     "\<forall>i. rc_seq (rs_cell m i) = (if mn \<le> i \<and> i < mn + k then set (set_ids ub (i - mn)) else rc_seq (rs_cell m0 i))"
     "\<forall>s u. s < k \<longrightarrow> int u \<in> set (set_ids ub s) \<longrightarrow> rs_tail m u = int (s + mn)"
     "\<forall>u. (\<forall>s < k. int u \<notin> set (set_ids ub s)) \<longrightarrow> rs_tail m u = rs_tail m0 u"
    using inv unfolding place_inv_def by (elim conjE) (rule that; assumption)
  have c: "k + mn < rs_size m" using k I(1) by simp
  have r: "\<forall>q \<in> set (set_ids ub k). 0 \<le> q \<and> q < int (rs_size m)"
    using u(6,7) [OF k(1)] unfolding I(1) by blast
  note p = rs_place_effect [OF c r]
  show ?thesis
    unfolding place_inv_def
  proof (intro conjI allI impI)
    show "rs_size (rs_place ub mn k m) = rs_size m0" "rm_rs_idx (rs_place ub mn k m) = rm_rs_idx m0"
      "rm_n_seq_max (rs_place ub mn k m) = rm_n_seq_max m0" "rm_n_rs_seq (rs_place ub mn k m) = rm_n_rs_seq m0"
      using p(1-4) I(1-4) by simp_all
    show "rc_pos (rs_cell (rs_place ub mn k m) i) =
        (if mn \<le> i \<and> i < mn + Suc k then set_last ub (i - mn) else rc_pos (rs_cell m0 i))" for i
      unfolding p(5) I(5) [rule_format] by auto
    show "rc_src (rs_cell (rs_place ub mn k m) i) = rc_src (rs_cell m0 i)" for i unfolding p(6) by (rule I(6) [rule_format])
    show "rc_seq (rs_cell (rs_place ub mn k m) i) =
        (if mn \<le> i \<and> i < mn + Suc k then set (set_ids ub (i - mn)) else rc_seq (rs_cell m0 i))" for i
      unfolding p(7) I(7) [rule_format] by auto
    show "rs_tail (rs_place ub mn k m) q = int (s + mn)" if s: "s < Suc k" and q: "int q \<in> set (set_ids ub s)" for s q
    proof (cases "s = k")
      case True then show ?thesis using q unfolding p(8) by simp
    next
      case False
      then have s': "s < k" using s by simp
      have "int q \<notin> set (set_ids ub k)" using u(8) [of s k, OF _ k(1) q] s' k(1) by auto
      then show ?thesis unfolding p(8) using I(8) s' q by simp
    qed
    show "rs_tail (rs_place ub mn k m) q = rs_tail m0 q" if "\<forall>s < Suc k. int q \<notin> set (set_ids ub s)" for q
      unfolding p(8) using that I(9) by simp
  qed
qed

lemma place_inv_all:
  assumes "rs_ub_ok (rs_size m) ub" "mn + ub_n_seqs ub \<le> rs_size m"
  shows "place_inv ub mn m (ub_n_seqs ub) (fold (rs_place ub mn) [0..<ub_n_seqs ub] m)"
proof (rule fold_upt_invariant [where P = "place_inv ub mn m"])
  show "place_inv ub mn m 0 m" unfolding place_inv_def by auto
qed (rule place_inv_step [OF assms(1) _ assms(2)])

lemma rs_gather_all:
  assumes "rs_ub_ok (rs_size m0) ub" "mx < rs_size m0" "ub_n_seqs ub + mn \<le> mx + 1" "gather_inv ub mn mx m0 0 m0"
  shows "gather_inv ub mn mx m0 (ub_n_seqs ub) (fold (rs_gather ub mn) [0..<ub_n_seqs ub] m0)"
  by (rule fold_upt_invariant [where P = "gather_inv ub mn mx m0"]) (use assms rs_gather_step in blast)+


subsection \<open>The rows\<close>

lemma refcount_0: "refcount m i = 0 \<longleftrightarrow> (\<forall>j < rs_size m. rc_src (rs_cell m j) \<noteq> int i)"
  unfolding refcount_def length_0_conv filter_empty_conv rs_size_def rs_cell_def by (metis in_set_conv_nth nth_mem)

lemma rs_spare_row:
  assumes own: "rs_own {mn..mx} m" and mx: "mx < rs_size m" and i: "i \<in> {mn..mx}" "rc_src (rs_cell m i) < 0"
  shows "\<exists>z \<in> {mn..mx}. refcount m z = 0"
proof (rule ccontr)
  assume "\<not> ?thesis"
  then have ref: "\<exists>j < rs_size m. rc_src (rs_cell m j) = int z" if "z \<in> {mn..mx}" for z
    using that unfolding refcount_0 by blast
  let ?A = "{j \<in> {mn..mx}. 0 \<le> rc_src (rs_cell m j)}"
  have "{mn..mx} \<subseteq> (\<lambda>j. nat (rc_src (rs_cell m j))) ` ?A"
  proof
    fix z assume z: "z \<in> {mn..mx}"
    obtain j where j: "j < rs_size m" "rc_src (rs_cell m j) = int z" using ref [OF z] by blast
    have "j \<in> {mn..mx}"
    proof (rule ccontr)
      assume "j \<notin> {mn..mx}"
      then have "rc_src (rs_cell m j) = -1 \<or> rc_src (rs_cell m j) = int j" using own j(1) unfolding rs_own_def by blast
      then have "j = z" using j(2) by auto
      then show False using \<open>j \<notin> {mn..mx}\<close> z by simp
    qed
    then have "j \<in> ?A" using j(2) by simp
    moreover have "z = nat (rc_src (rs_cell m j))" using j(2) by simp
    ultimately show "z \<in> (\<lambda>j. nat (rc_src (rs_cell m j))) ` ?A" by (rule rev_image_eqI)
  qed
  then have "card {mn..mx} \<le> card ?A" by (rule surj_card_le [rotated]) simp
  moreover have "i \<notin> ?A" using i(2) by simp
  then have "?A \<subset> {mn..mx}" using i(1) by blast
  then have "card ?A < card {mn..mx}" by (intro psubset_card_mono) simp
  ultimately show False by simp
qed

lemma rs_stage_all:
  assumes "\<And>i. i \<in> set is \<Longrightarrow> rc_src (rs_cell m i) < 0 \<Longrightarrow> 0 \<le> z" "distinct is" "\<And>i. i \<in> set is \<Longrightarrow> i < rs_size m"
  shows "\<exists>m'. fold_opt (rs_stage z) is m = Some m' \<and> rs_size m' = rs_size m \<and> rm_rs_idx m' = rm_rs_idx m \<and>
    rm_n_seq_max m' = rm_n_seq_max m \<and> rm_n_rs_seq m' = rm_n_rs_seq m \<and> rm_rs_z m' = rm_rs_z m \<and>
    (\<forall>i. rs_cell m' i = (if i \<in> set is then (rs_cell m i)\<lparr>rc_src0 := if rc_src (rs_cell m i) < 0 then z else rc_src (rs_cell m i), rc_src := int i\<rparr>
       else rs_cell m i))"
  using assms
proof (induction "is" arbitrary: m)
  case (Cons i "is")
  let ?m = "rs_upd i (\<lambda>c. c\<lparr>rc_src0 := if rc_src c < 0 then z else rc_src c, rc_src := int i\<rparr>) m"
  have st: "rs_stage z i m = Some ?m" using Cons.prems(1) [of i] by (auto simp: rs_stage_def)
  have i: "i < rs_size m" "i \<notin> set is" using Cons.prems(2,3) by auto
  have other: "rs_cell ?m j = rs_cell m j" if "j \<in> set is" for j using that i by auto
  have "\<exists>m'. fold_opt (rs_stage z) is ?m = Some m' \<and> rs_size m' = rs_size ?m \<and> rm_rs_idx m' = rm_rs_idx ?m \<and>
    rm_n_seq_max m' = rm_n_seq_max ?m \<and> rm_n_rs_seq m' = rm_n_rs_seq ?m \<and> rm_rs_z m' = rm_rs_z ?m \<and>
    (\<forall>i. rs_cell m' i = (if i \<in> set is then (rs_cell ?m i)\<lparr>rc_src0 := if rc_src (rs_cell ?m i) < 0 then z else rc_src (rs_cell ?m i), rc_src := int i\<rparr>
       else rs_cell ?m i))"
  proof (rule Cons.IH)
    show "0 \<le> z" if "j \<in> set is" "rc_src (rs_cell ?m j) < 0" for j
      by (rule Cons.prems(1) [of j]) (use that other [OF that(1)] in simp_all)
  qed (use Cons.prems in auto)
  then obtain m' where m': "fold_opt (rs_stage z) is ?m = Some m'" "rs_size m' = rs_size ?m" "rm_rs_idx m' = rm_rs_idx ?m"
    "rm_n_seq_max m' = rm_n_seq_max ?m" "rm_n_rs_seq m' = rm_n_rs_seq ?m" "rm_rs_z m' = rm_rs_z ?m"
    "\<forall>i. rs_cell m' i = (if i \<in> set is then (rs_cell ?m i)\<lparr>rc_src0 := if rc_src (rs_cell ?m i) < 0 then z else rc_src (rs_cell ?m i), rc_src := int i\<rparr>
       else rs_cell ?m i)"
    by (elim exE conjE) (rule that; assumption)
  have "rs_cell m' j = (if j \<in> set (i # is) then (rs_cell m j)\<lparr>rc_src0 := if rc_src (rs_cell m j) < 0 then z else rc_src (rs_cell m j), rc_src := int j\<rparr>
       else rs_cell m j)" for j
    using m'(7) [rule_format, of j] other [of j] i by (cases "j \<in> set is"; cases "j = i") auto
  then show ?case using st m'(1-6) by simp
qed simp

subsection \<open>The slot of a micro-batch\<close>

definition in_sets :: "llama_ubatch \<Rightarrow> nat \<Rightarrow> bool" where
  "in_sets ub u \<longleftrightarrow> (\<exists>s < ub_n_seqs ub. int u \<in> set (set_ids ub s))"

definition later_in_set :: "llama_ubatch \<Rightarrow> nat \<Rightarrow> bool" where
  \<comment> \<open>a sequence that is not the first one of its set\<close>
  "later_in_set ub u \<longleftrightarrow> (\<exists>s < ub_n_seqs ub. int u \<in> set (tl (set_ids ub s)))"

lemma later_in_sets: "later_in_set ub u \<Longrightarrow> in_sets ub u"
  unfolding later_in_set_def in_sets_def using list.set_sel(2) [of "set_ids ub _" "int u"] by (metis list.sel(2))

lemma in_sets_first: 
  assumes "rs_ub_ok sz ub" "in_sets ub u" "\<not> later_in_set ub u"
  obtains s where "s < ub_n_seqs ub" "u = set_first ub s"
proof -
  obtain s where s: "s < ub_n_seqs ub" "int u \<in> set (set_ids ub s)" using assms(2) unfolding in_sets_def by blast
  have "int u \<notin> set (tl (set_ids ub s))" using assms(3) s(1) unfolding later_in_set_def by blast
  moreover have "set_ids ub s \<noteq> []" by (rule rs_ub_okD(3) [OF assms(1) s(1)])
  ultimately have "int u = hd (set_ids ub s)" using s(2) by (cases "set_ids ub s") auto
  then have "u = set_first ub s" unfolding set_first_def by (metis nat_int)
  then show thesis by (rule that [OF s(1)])
qed

lemma rs_st_last: "rs_last m u = map_option fst (rs_st m u)"
  by (simp add: rs_last_def rs_st_def)

definition unshared :: "llama_ubatch \<Rightarrow> rs_memory \<Rightarrow> rs_memory" where
  "unshared ub m = fold rs_drop (concat (map (\<lambda>s. tl (set_ids ub s)) [0..<ub_n_seqs ub])) m"

lemma rs_unshared:
  assumes wf: "rs_wf m" and ub: "rs_ub_ok (rs_size m) ub"
  shows "rs_unshare_all ub [0..<ub_n_seqs ub] m = (unshared ub m, True)" "rs_wf (unshared ub m)" "rs_size (unshared ub m) = rs_size m"
    "rm_n_rs_seq (unshared ub m) = rm_n_rs_seq m" "rm_rs_idx (unshared ub m) = rm_rs_idx m"
    "rm_n_seq_max (unshared ub m) = rm_n_seq_max m" "rm_head (unshared ub m) = rm_head m"
    "later_in_set ub u \<Longrightarrow> rs_tail (unshared ub m) u = -1"
    "\<not> later_in_set ub u \<Longrightarrow> rs_st (unshared ub m) u = rs_st m u"
proof -
  let ?qs = "concat (map (\<lambda>s. tl (set_ids ub s)) [0..<ub_n_seqs ub])"
  have tl: "set (tl xs) \<subseteq> set xs" for xs :: "int list" by (cases xs) auto
  have r: "0 \<le> q \<and> q < int (rs_size m)" if "s < ub_n_seqs ub" "q \<in> set (set_ids ub s)" for s q
    using rs_ub_okD(6,7) [OF ub that] by blast
  show "rs_unshare_all ub [0..<ub_n_seqs ub] m = (unshared ub m, True)"
    unfolding unshared_def by (rule rs_unshare_all_eq) (use r in simp)
  have q: "0 \<le> q \<and> q < int (rs_size m)" if "q \<in> set ?qs" for q
    using that r tl by fastforce
  note d = rs_drops_effect [OF wf, of ?qs, folded unshared_def]
  have D: "rs_wf (unshared ub m)" "rs_size (unshared ub m) = rs_size m" "rm_head (unshared ub m) = rm_head m"
    "rm_n_rs_seq (unshared ub m) = rm_n_rs_seq m" "rm_rs_idx (unshared ub m) = rm_rs_idx m"
    "rm_n_seq_max (unshared ub m) = rm_n_seq_max m"
    "\<forall>u. rs_tail (unshared ub m) u = (if int u \<in> set ?qs then -1 else rs_tail m u)"
    "\<forall>i < rs_size m. rc_seq (rs_cell (unshared ub m) i) \<noteq> {} \<longrightarrow>
       rc_pos (rs_cell (unshared ub m) i) = rc_pos (rs_cell m i) \<and> rc_src (rs_cell (unshared ub m) i) = rc_src (rs_cell m i)"
    using d q by blast+
  show "rs_wf (unshared ub m)" "rs_size (unshared ub m) = rs_size m"
    "rm_n_rs_seq (unshared ub m) = rm_n_rs_seq m" "rm_rs_idx (unshared ub m) = rm_rs_idx m"
    "rm_n_seq_max (unshared ub m) = rm_n_seq_max m" "rm_head (unshared ub m) = rm_head m" using D(1-6) by blast+
  have later: "later_in_set ub u \<longleftrightarrow> int u \<in> set ?qs" for u unfolding later_in_set_def by auto
  show "later_in_set ub u \<Longrightarrow> rs_tail (unshared ub m) u = -1" using D(7) later by simp
  show "rs_st (unshared ub m) u = rs_st m u" if u: "\<not> later_in_set ub u"
  proof -
    have t: "rs_tail (unshared ub m) u = rs_tail m u" using D(7) later u by simp
    show ?thesis
    proof (cases "u < rs_size m \<and> 0 \<le> rs_tail m u")
      case True
      then have u': "u < rs_size (unshared ub m)" "0 \<le> rs_tail (unshared ub m) u" using D(2) t by simp_all
      note c = rs_tail_cell(1,2) [OF D(1) u', unfolded t D(2)]
      have "rc_seq (rs_cell (unshared ub m) (nat (rs_tail m u))) \<noteq> {}" using c(2) by blast
      then show ?thesis using D(8) c(1) by (simp add: rs_st_def t D(2))
    qed (auto simp: rs_st_def t D(2))
  qed
qed

definition located :: "llama_ubatch \<Rightarrow> nat \<Rightarrow> nat \<Rightarrow> rs_memory \<Rightarrow> rs_memory \<Rightarrow> bool" where
  "located ub mn mx m0 m \<longleftrightarrow>
     rs_size m = rs_size m0 \<and> rm_rs_idx m = rm_rs_idx m0 \<and> rm_n_seq_max m = rm_n_seq_max m0 \<and> rm_n_rs_seq m = rm_n_rs_seq m0 \<and>
     (\<forall>u < rs_size m. -1 \<le> rs_tail m u \<and> rs_tail m u < int (rs_size m)) \<and>
     (\<forall>i < rs_size m. rc_seq (rs_cell m i) = int ` rs_occ m i) \<and>
     (\<forall>i < rs_size m. if rc_seq (rs_cell m i) = {} then rc_pos (rs_cell m i) = -1 else 0 \<le> rc_pos (rs_cell m i)) \<and>
     (\<forall>i < rs_size m. -1 \<le> rc_src (rs_cell m i) \<and> rc_src (rs_cell m i) < int (rs_size m)) \<and>
     rs_own {mn..mx} m \<and> (\<forall>s < ub_n_seqs ub. rc_seq (rs_cell m (mn + s)) = set (set_ids ub s)) \<and>
     (\<forall>s u. s < ub_n_seqs ub \<longrightarrow> int u \<in> set (set_ids ub s) \<longrightarrow> rs_last m u = Some (set_last ub s)) \<and>
     (\<forall>u. \<not> in_sets ub u \<longrightarrow> rs_last m u = rs_last m0 u) \<and>
     (\<forall>u p r. \<not> later_in_set ub u \<longrightarrow> rs_st m0 u = Some (p, r) \<longrightarrow> (\<exists>p'. rs_st m u = Some (p', r)))"

lemma placed_located:
  assumes ub: "rs_ub_ok (rs_size m0) ub" and mx: "mx < rs_size m0" "ub_n_seqs ub + mn \<le> mx + 1"
    and later: "\<And>u. later_in_set ub u \<Longrightarrow> rs_tail m1 u = -1"
    and m1: "rs_same (set_first ub ` {..<ub_n_seqs ub}) m0 m1"
    and g: "gather_inv ub mn mx m1 (ub_n_seqs ub) m2" and p: "place_inv ub mn m2 (ub_n_seqs ub) m3"
  shows "located ub mn mx m0 m3"
proof -
  let ?n = "ub_n_seqs ub" and ?F = "set_first ub ` {..<ub_n_seqs ub}"
  note u = rs_ub_okD [OF ub]
  obtain S: "rs_size m1 = rs_size m0" "rm_rs_idx m1 = rm_rs_idx m0" "rm_n_seq_max m1 = rm_n_seq_max m0" "rm_n_rs_seq m1 = rm_n_rs_seq m0"
     "\<forall>u. u \<notin> ?F \<longrightarrow> rs_st m1 u = rs_st m0 u" "\<forall>u. rs_st m0 u \<noteq> None \<longrightarrow> rs_st m1 u = rs_st m0 u"
    using m1 unfolding rs_same_def by (elim conjE) (rule that; assumption)
  obtain G: "rs_size m2 = rs_size m1" "rm_rs_idx m2 = rm_rs_idx m1" "rm_n_seq_max m2 = rm_n_seq_max m1" "rm_n_rs_seq m2 = rm_n_rs_seq m1"
    "rs_mid ?F m2" "rs_own {mn..mx} m2" "rs_st m2 = rs_st m1"
    "\<forall>k < ?n. rs_tail m2 (set_first ub k) = int (k + mn)"
    "\<forall>u < rs_size m1. rs_tail m2 u = rs_tail m1 u \<or> (int mn \<le> rs_tail m2 u \<and> rs_tail m2 u \<le> int mx \<and>
        int mn \<le> rs_tail m1 u \<and> rs_tail m1 u \<le> int mx)"
    using g unfolding gather_inv_def by (elim conjE) (rule that; assumption)
  obtain P: "rs_size m3 = rs_size m2" "rm_rs_idx m3 = rm_rs_idx m2" "rm_n_seq_max m3 = rm_n_seq_max m2" "rm_n_rs_seq m3 = rm_n_rs_seq m2"
     "\<forall>i. rc_pos (rs_cell m3 i) = (if mn \<le> i \<and> i < mn + ?n then set_last ub (i - mn) else rc_pos (rs_cell m2 i))"
     "\<forall>i. rc_src (rs_cell m3 i) = rc_src (rs_cell m2 i)"
     "\<forall>i. rc_seq (rs_cell m3 i) = (if mn \<le> i \<and> i < mn + ?n then set (set_ids ub (i - mn)) else rc_seq (rs_cell m2 i))"
     "\<forall>s u. s < ?n \<longrightarrow> int u \<in> set (set_ids ub s) \<longrightarrow> rs_tail m3 u = int (s + mn)"
     "\<forall>u. (\<forall>s < ?n. int u \<notin> set (set_ids ub s)) \<longrightarrow> rs_tail m3 u = rs_tail m2 u"
    using p unfolding place_inv_def by (elim conjE) (rule that; assumption)
  have sz: "rs_size m3 = rs_size m0" "rs_size m2 = rs_size m0" using P(1) G(1) S(1) by simp_all
  have P9: "rs_tail m3 q = rs_tail m2 q" if "\<not> in_sets ub q" for q using P(9) that unfolding in_sets_def by blast
  have first: "rs_tail m2 (set_first ub k) = int (k + mn)" "rs_occ m2 (k + mn) = {set_first ub k}" if "k < ?n" for k
  proof -
    show t: "rs_tail m2 (set_first ub k) = int (k + mn)" using G(8) that by blast
    have "set_first ub k \<in> ?F" using that by blast
    from rs_midD(6) [OF G(5) this] show "rs_occ m2 (k + mn) = {set_first ub k}" unfolding t nat_int .
  qed
  have at_first: "rs_tail m2 q \<noteq> int (k + mn)" if "k < ?n" "\<not> in_sets ub q" "q < rs_size m0" for k q
  proof
    assume "rs_tail m2 q = int (k + mn)"
    then have "q \<in> rs_occ m2 (k + mn)" using that(3) sz(2) by (simp add: rs_occ_def)
    then have e: "q = set_first ub k" using first(2) [OF that(1)] by simp
    have "in_sets ub q" unfolding in_sets_def e using u(10) that(1) by blast
    then show False using that(2) by contradiction
  qed
  have late: "rs_tail m2 q = -1" if "later_in_set ub q" "q < rs_size m0" for q
    using G(9) [rule_format, of q] later [OF that(1)] that(2) S(1) by auto
  have idx: "\<exists>k < ?n. i = k + mn" if "mn \<le> i" "i < mn + ?n" for i
    by (rule exI [of _ "i - mn"]) (use that in auto)
  have range: "rs_tail m2 q \<noteq> int i" if qs: "in_sets ub q" and "q < rs_size m0" "\<not> (mn \<le> i \<and> i < mn + ?n)" for q i
  proof (cases "later_in_set ub q")
    case True
    then show ?thesis using late that(2) by simp
  next
    case False
    obtain k where k: "k < ?n" "q = set_first ub k" by (rule in_sets_first [OF ub qs False])
    then have "rs_tail m2 q = int (k + mn)" using first(1) by simp
    then show ?thesis using that(3) k(1) by auto
  qed
  have occ_in: "rs_occ m3 (k + mn) = {q. q < rs_size m0 \<and> int q \<in> set (set_ids ub k)}" if k: "k < ?n" for k
  proof -
    have "rs_tail m3 q = int (k + mn) \<longleftrightarrow> int q \<in> set (set_ids ub k)" if q: "q < rs_size m0" for q
    proof (cases "in_sets ub q")
      case True
      then obtain s where s: "s < ?n" "int q \<in> set (set_ids ub s)" unfolding in_sets_def by blast
      then have t: "rs_tail m3 q = int (s + mn)" using P(8) by blast
      show ?thesis unfolding t using u(8) [OF s(1) k s(2)] s(2) by auto
    next
      case False
      then show ?thesis using P9 at_first [OF k False q] k unfolding in_sets_def by auto
    qed
    then show ?thesis unfolding rs_occ_def sz by blast
  qed
  have occ_out: "rs_occ m3 i = rs_occ m2 i" if i: "\<not> (mn \<le> i \<and> i < mn + ?n)" for i
  proof -
    have "rs_tail m3 q = int i \<longleftrightarrow> rs_tail m2 q = int i" if q: "q < rs_size m0" for q
    proof (cases "in_sets ub q")
      case True
      then obtain s where s: "s < ?n" "int q \<in> set (set_ids ub s)" unfolding in_sets_def by blast
      then have t: "rs_tail m3 q = int (s + mn)" using P(8) by blast
      show ?thesis using range [OF True q i] i s(1) unfolding t by auto
    qed (simp add: P9)
    then show ?thesis unfolding rs_occ_def sz by blast
  qed
  have ids: "set (set_ids ub k) = int ` {q. q < rs_size m0 \<and> int q \<in> set (set_ids ub k)}" if k: "k < ?n" for k
  proof -
    have "x \<in> int ` {q. q < rs_size m0 \<and> int q \<in> set (set_ids ub k)}" if "x \<in> set (set_ids ub k)" for x
      by (rule image_eqI [of _ _ "nat x"]) (use that u(6,7) [OF k that] in auto)
    then show ?thesis by blast
  qed
  have st3: "rs_st m3 q = map_option (\<lambda>(p, r). (rc_pos (rs_cell m3 (nat (rs_tail m2 q))), r)) (rs_st m2 q)"
    if "rs_tail m3 q = rs_tail m2 q" for q
    using P(6) that by (simp add: rs_st_def sz)
  show ?thesis
    unfolding located_def sz
  proof (intro conjI allI impI)
    show "rm_rs_idx m3 = rm_rs_idx m0" "rm_n_seq_max m3 = rm_n_seq_max m0" "rm_n_rs_seq m3 = rm_n_rs_seq m0"
      using P(2-4) G(2-4) S(2-4) by simp_all
    show "-1 \<le> rs_tail m3 q" "rs_tail m3 q < int (rs_size m0)" if q: "q < rs_size m0" for q
    proof -
      have "-1 \<le> rs_tail m3 q \<and> rs_tail m3 q < int (rs_size m0)"
      proof (cases "in_sets ub q")
        case True
        then obtain s where s: "s < ?n" "int q \<in> set (set_ids ub s)" unfolding in_sets_def by blast
        then have t: "rs_tail m3 q = int (s + mn)" using P(8) by blast
        show ?thesis unfolding t using s(1) mx by simp
      next
        case False
        then show ?thesis using P9 rs_midD(1,2) [OF G(5), of q] q sz(2) by simp
      qed
      then show "-1 \<le> rs_tail m3 q" "rs_tail m3 q < int (rs_size m0)" by blast+
    qed
    show "rc_seq (rs_cell m3 i) = int ` rs_occ m3 i" if i: "i < rs_size m0" for i
    proof (cases "mn \<le> i \<and> i < mn + ?n")
      case True
      then obtain k where k: "k < ?n" "i = k + mn" using idx by blast
      then have "rc_seq (rs_cell m3 i) = set (set_ids ub k)" using P(7) by simp
      also have "\<dots> = int ` rs_occ m3 i" unfolding k(2) occ_in [OF k(1)] by (rule ids [OF k(1)])
      finally show ?thesis .
    next
      case False
      have "\<not> (q \<in> ?F \<and> rs_occ m2 i = {q})" for q
      proof
        assume q: "q \<in> ?F \<and> rs_occ m2 i = {q}"
        then obtain k where k: "k < ?n" "q = set_first ub k" by blast
        have "rs_tail m2 q = int i" using q by (auto simp: rs_occ_def)
        then have "i = k + mn" using first(1) [OF k(1)] k(2) by simp
        then show False using False k(1) by simp
      qed
      then have "rc_seq (rs_cell m2 i) = int ` rs_occ m2 i" using rs_midD(3) [OF G(5), of i] i sz(2) by auto
      then show ?thesis unfolding occ_out [OF False] P(7) [rule_format] if_not_P [OF False] .
    qed
    show "if rc_seq (rs_cell m3 i) = {} then rc_pos (rs_cell m3 i) = -1 else 0 \<le> rc_pos (rs_cell m3 i)" if i: "i < rs_size m0" for i
    proof (cases "mn \<le> i \<and> i < mn + ?n")
      case True
      then obtain k where k: "k < ?n" "i = k + mn" using idx by blast
      then have "rc_seq (rs_cell m3 i) = set (set_ids ub k)" "rc_pos (rs_cell m3 i) = set_last ub k" using P(5,7) by simp_all
      then show ?thesis using u(3,5) [OF k(1)] by simp
    next
      case False
      show ?thesis unfolding P(5,7) [rule_format] if_not_P [OF False] using rs_midD(7,8) [OF G(5), of i] i sz(2) by simp
    qed
    show "-1 \<le> rc_src (rs_cell m3 i)" "rc_src (rs_cell m3 i) < int (rs_size m0)" if i: "i < rs_size m0" for i
      using rs_midD(9,10) [OF G(5), of i] i sz(2) P(6) by simp_all
    show "rs_own {mn..mx} m3" using G(6) P(6) unfolding rs_own_def sz by simp
    show "rc_seq (rs_cell m3 (mn + s)) = set (set_ids ub s)" if "s < ?n" for s using P(7) that by simp
    show "rs_last m3 q = Some (set_last ub s)" if s: "s < ?n" and q: "int q \<in> set (set_ids ub s)" for s q
    proof -
      have t: "rs_tail m3 q = int (s + mn)" using P(8) that by blast
      have "q < rs_size m0" using u(7) [OF s q] by simp
      then show ?thesis using P(5) s by (simp add: rs_last_def t sz nat_int_add)
    qed
    show "rs_last m3 q = rs_last m0 q" if q: "\<not> in_sets ub q" for q
    proof -
      have "q \<notin> ?F"
      proof
        assume "q \<in> ?F"
        then obtain k where "k < ?n" "q = set_first ub k" by blast
        then have "in_sets ub q" unfolding in_sets_def using u(10) by blast
        then show False using q by contradiction
      qed
      then have "rs_last m0 q = rs_last m2 q" using S(5) G(7) by (simp add: rs_st_last)
      moreover have "rs_last m3 q = rs_last m2 q"
      proof (cases "q < rs_size m0 \<and> 0 \<le> rs_tail m2 q")
        case True
        then obtain t where t: "rs_tail m2 q = int t" using nonneg_int_cases by blast
        have out: "\<not> (mn \<le> t \<and> t < mn + ?n)"
        proof
          assume "mn \<le> t \<and> t < mn + ?n"
          then obtain k where k: "k < ?n" "t = k + mn" using idx by blast
          then show False using at_first [OF k(1) q] True t by blast
        qed
        show ?thesis using P(5) [rule_format, of t, unfolded if_not_P [OF out]] by (simp add: rs_last_def P9 [OF q] t sz)
      qed (auto simp: rs_last_def P9 [OF q] sz)
      ultimately show ?thesis by simp
    qed
    show "\<exists>p'. rs_st m3 q = Some (p', r)" if q: "\<not> later_in_set ub q" and st: "rs_st m0 q = Some (p, r)" for q p r
    proof -
      have s2: "rs_st m2 q = Some (p, r)" using S(6) G(7) st by simp
      have "rs_tail m3 q = rs_tail m2 q"
      proof (cases "in_sets ub q")
        case True
        obtain k where k: "k < ?n" "q = set_first ub k" by (rule in_sets_first [OF ub True q])
        then show ?thesis using first(1) [OF k(1)] P(8) u(10) [OF k(1)] by simp
      qed (rule P9)
      then show ?thesis using st3 [of q] s2 by simp
    qed
  qed simp
qed


lemma rs_assign_range:
  assumes ub: "rs_ub_ok (rs_size m0) ub" and a: "assign_inv ub m0 h (ub_n_seqs ub) st"
  shows "\<exists>mn mx. as_min st = int mn \<and> as_max st = int mx \<and> mx < rs_size m0 \<and> ub_n_seqs ub + mn \<le> mx + 1 \<and>
    rs_same (set_first ub ` {..<ub_n_seqs ub}) m0 (as_m st) \<and> gather_inv ub mn mx (as_m st) 0 (as_m st) \<and>
    (\<forall>u. u \<notin> set_first ub ` {..<ub_n_seqs ub} \<longrightarrow> rs_tail (as_m st) u = rs_tail m0 u)"
proof -
  let ?m = "as_m st" and ?n = "ub_n_seqs ub" and ?F = "set_first ub ` {..<ub_n_seqs ub}"
  note u = rs_ub_okD [OF ub]
  obtain A: "rs_same ?F m0 ?m" "rs_mid ?F ?m" "rs_own ((\<lambda>q. nat (rs_tail ?m q)) ` ?F) ?m"
      "\<forall>u. u \<notin> ?F \<longrightarrow> rs_tail ?m u = rs_tail m0 u"
      "0 \<le> as_min st" "as_min st < int (rs_size ?m)" "0 \<le> as_max st" "as_max st < int (rs_size ?m)"
      "\<forall>q \<in> ?F. as_min st \<le> rs_tail ?m q \<and> rs_tail ?m q \<le> as_max st"
    using a unfolding assign_inv_def Let_def by (elim conjE) (rule that; assumption)
  have sz: "rs_size ?m = rs_size m0" using A(1) unfolding rs_same_def by blast
  obtain mn where mn: "as_min st = int mn" using A(5) by (rule nonneg_int_cases)
  obtain mx where mx: "as_max st = int mx" using A(7) by (rule nonneg_int_cases)
  let ?g = "\<lambda>k. nat (rs_tail ?m (set_first ub k))"
  have F: "set_first ub k \<in> ?F" if "k < ?n" for k using that by blast
  have rg: "int mn \<le> rs_tail ?m (set_first ub k)" "rs_tail ?m (set_first ub k) \<le> int mx" if "k < ?n" for k
    using A(9) F [OF that] unfolding mn mx by blast+
  have g: "int (?g k) = rs_tail ?m (set_first ub k)" "?g k \<in> {mn..mx}" if "k < ?n" for k
    using rg [OF that] by (auto simp: nat_le_iff le_nat_iff)
  have inj: "inj_on ?g {..<?n}"
  proof (rule inj_onI)
    fix k k' assume k: "k \<in> {..<?n}" "k' \<in> {..<?n}" "?g k = ?g k'"
    then have kn: "k < ?n" "k' < ?n" by simp_all
    have "set_first ub k' \<in> rs_occ ?m (?g k)" using u(11) [OF kn(2)] g(1) [OF kn(2)] k(3) by (simp add: rs_occ_def sz)
    moreover have "rs_occ ?m (?g k) = {set_first ub k}" by (rule rs_midD(6) [OF A(2) F [OF kn(1)]])
    ultimately have e: "set_first ub k' = set_first ub k" by simp
    have "int (set_first ub k) \<in> set (set_ids ub k')" using u(10) [OF kn(2)] unfolding e .
    then show "k = k'" by (rule u(8) [OF kn u(10) [OF kn(1)]])
  qed
  have "card (?g ` {..<?n}) \<le> card {mn..mx}" by (rule card_mono) (use g(2) in auto)
  then have "?n \<le> Suc mx - mn" using card_image [OF inj] by simp
  moreover have "mn \<le> mx" using g(2) [OF u(2)] by simp
  ultimately have len: "?n + mn \<le> mx + 1" by simp
  have "rs_own {mn..mx} ?m" by (rule rs_own_mono [OF A(3)]) (use g(2) in auto)
  then have "gather_inv ub mn mx ?m 0 ?m" unfolding gather_inv_def using A(2) rg by simp
  moreover have "mx < rs_size m0" using A(8) sz mx by simp
  ultimately show ?thesis using mn mx len A(1,4) by blast
qed

lemma rs_located:
  assumes wf: "rs_wf m0" and ub: "rs_ub_ok (rs_size m0) ub" and later: "\<forall>u. later_in_set ub u \<longrightarrow> rs_tail m0 u = -1"
  shows "\<exists>st mn mx. fold_opt (rs_assign ub) [0..<ub_n_seqs ub]
      \<lparr>as_m = m0, as_next = rs_probe m0 (rm_head m0) (rs_size m0), as_min = int (rs_size m0) - 1, as_max = 0\<rparr> = Some st \<and>
    as_min st = int mn \<and> as_max st = int mx \<and> mx < rs_size m0 \<and> ub_n_seqs ub + mn \<le> mx + 1 \<and>
    located ub mn mx m0 (fold (rs_place ub mn) [0..<ub_n_seqs ub] (fold (rs_gather ub mn) [0..<ub_n_seqs ub] (as_m st)))"
proof -
  obtain st h where st: "fold_opt (rs_assign ub) [0..<ub_n_seqs ub]
      \<lparr>as_m = m0, as_next = rs_probe m0 (rm_head m0) (rs_size m0), as_min = int (rs_size m0) - 1, as_max = 0\<rparr> = Some st"
    "assign_inv ub m0 h (ub_n_seqs ub) st"
    using rs_assign_all [OF wf ub] by blast
  obtain mn mx where r: "as_min st = int mn" "as_max st = int mx" "mx < rs_size m0" "ub_n_seqs ub + mn \<le> mx + 1"
    "rs_same (set_first ub ` {..<ub_n_seqs ub}) m0 (as_m st)" "gather_inv ub mn mx (as_m st) 0 (as_m st)"
    "\<forall>u. u \<notin> set_first ub ` {..<ub_n_seqs ub} \<longrightarrow> rs_tail (as_m st) u = rs_tail m0 u"
    using rs_assign_range [OF ub st(2)] by (elim exE conjE) (rule that; assumption)
  let ?m1 = "as_m st" and ?m2 = "fold (rs_gather ub mn) [0..<ub_n_seqs ub] (as_m st)"
  have s1: "rs_size ?m1 = rs_size m0" using r(5) unfolding rs_same_def by blast
  have g: "gather_inv ub mn mx ?m1 (ub_n_seqs ub) ?m2" by (rule rs_gather_all) (use ub r s1 in simp_all)
  have s2: "rs_size ?m2 = rs_size m0" using g s1 unfolding gather_inv_def by simp
  have p: "place_inv ub mn ?m2 (ub_n_seqs ub) (fold (rs_place ub mn) [0..<ub_n_seqs ub] ?m2)"
    by (rule place_inv_all) (use ub r(3,4) s2 in simp_all)
  have "rs_tail ?m1 u = -1" if l: "later_in_set ub u" for u
  proof -
    have "u \<noteq> set_first ub k" if "k < ub_n_seqs ub" for k
      using rs_ub_okD(12) [OF ub that] l unfolding later_in_set_def by blast
    then have "u \<notin> set_first ub ` {..<ub_n_seqs ub}" by blast
    then show ?thesis using r(7) later [rule_format, OF l] by simp
  qed
  then have "located ub mn mx m0 (fold (rs_place ub mn) [0..<ub_n_seqs ub] ?m2)"
    by (rule placed_located [OF ub r(3,4) _ r(5) g p])
  then show ?thesis using st(1) r(1-4) by blast
qed


definition rs_source :: "rs_memory \<Rightarrow> nat \<Rightarrow> int" where
  \<comment> \<open>the row the state of a sequence is read from when the micro-batch is computed\<close>
  "rs_source m u = (let c = rs_cell m (nat (rs_tail m u)) in
     if int (rm_head m) \<le> rs_tail m u \<and> rs_tail m u < int (rm_head m + rm_n m) then rc_src0 c else rc_src c)"

definition slot_found :: "llama_ubatch \<Rightarrow> rs_memory \<Rightarrow> rs_memory \<Rightarrow> bool" where
  "slot_found ub m m' \<longleftrightarrow> rs_wf m' \<and> rs_size m' = rs_size m \<and> rm_rs_idx m' = rm_rs_idx m \<and>
     rm_n_seq_max m' = rm_n_seq_max m \<and> rm_n_rs_seq m' = rm_n_rs_seq m \<and>
     ub_n_seqs ub \<le> rm_n m' \<and> rm_head m' + rm_n m' \<le> rs_size m' \<and>
     (\<forall>s < ub_n_seqs ub. rc_seq (rs_cell m' (rm_head m' + s)) = set (set_ids ub s)) \<and>
     (\<forall>s u. s < ub_n_seqs ub \<longrightarrow> int u \<in> set (set_ids ub s) \<longrightarrow> rs_last m' u = Some (set_last ub s)) \<and>
     (\<forall>u. \<not> in_sets ub u \<longrightarrow> rs_last m' u = rs_last m u) \<and>
     (\<forall>u p r. \<not> later_in_set ub u \<longrightarrow> rs_st m u = Some (p, r) \<longrightarrow> 0 \<le> r \<longrightarrow> rs_source m' u = r \<and> rm_rs_z m' \<noteq> r)"

lemma rs_busy_card: "length (filter (\<lambda>c. rc_seq c \<noteq> {}) (rm_cells m)) = card (rs_busy m)"
  unfolding rs_busy_def rs_size_def rs_cell_def by (rule length_filter_conv_card)

lemma rs_zero_row:
  assumes "rs_own {mn..mx} m" "mx < rs_size m" and z: "z = (case find (\<lambda>i. refcount m i = 0) [mn..<mx + 1] of None \<Rightarrow> -1 | Some i \<Rightarrow> int i)"
  shows "i \<in> set [mn..<mx + 1] \<Longrightarrow> rc_src (rs_cell m i) < 0 \<Longrightarrow> 0 \<le> z" "j < rs_size m \<Longrightarrow> 0 \<le> rc_src (rs_cell m j) \<Longrightarrow> z \<noteq> rc_src (rs_cell m j)"
proof -
  show "0 \<le> z" if i: "i \<in> set [mn..<mx + 1]" "rc_src (rs_cell m i) < 0"
  proof -
    have "i \<in> {mn..mx}" using i(1) by auto
    then obtain y where "y \<in> {mn..mx}" "refcount m y = 0" using rs_spare_row [OF assms(1,2) _ i(2)] by blast
    then have "find (\<lambda>i. refcount m i = 0) [mn..<mx + 1] \<noteq> None" by (auto simp: find_None_iff)
    then show ?thesis unfolding z by (cases "find (\<lambda>i. refcount m i = 0) [mn..<mx + 1]") (simp_all del: upt_Suc)
  qed
  show "z \<noteq> rc_src (rs_cell m j)" if "j < rs_size m" "0 \<le> rc_src (rs_cell m j)"
  proof (cases "find (\<lambda>i. refcount m i = 0) [mn..<mx + 1]")
    case (Some i)
    then have "refcount m i = 0" unfolding find_Some_iff by blast
    then show ?thesis using Some z that unfolding refcount_0 by auto
  qed (use z that in auto)
qed

lemma rs_staged:
  assumes l: "located ub mn mx m0 m3" and mx: "mx < rs_size m0" "ub_n_seqs ub + mn \<le> mx + 1" and wf: "rs_wf m0"
    and n: "0 < ub_n_seqs ub"
    and z: "z = (case find (\<lambda>i. refcount m3 i = 0) [mn..<mx + 1] of None \<Rightarrow> -1 | Some i \<Rightarrow> int i)"
  shows "\<exists>m4. fold_opt (rs_stage z) [mn..<mx + 1] (m3\<lparr>rm_rs_z := z\<rparr>) = Some m4 \<and>
    slot_found ub m0 (m4\<lparr>rm_head := mn, rm_n := mx + 1 - mn, rm_used := length (filter (\<lambda>c. rc_seq c \<noteq> {}) (rm_cells m4))\<rparr>)"
proof -
  obtain L: "rs_size m3 = rs_size m0" "rm_rs_idx m3 = rm_rs_idx m0" "rm_n_seq_max m3 = rm_n_seq_max m0" "rm_n_rs_seq m3 = rm_n_rs_seq m0"
     "\<forall>u < rs_size m3. -1 \<le> rs_tail m3 u \<and> rs_tail m3 u < int (rs_size m3)"
     "\<forall>i < rs_size m3. rc_seq (rs_cell m3 i) = int ` rs_occ m3 i"
     "\<forall>i < rs_size m3. if rc_seq (rs_cell m3 i) = {} then rc_pos (rs_cell m3 i) = -1 else 0 \<le> rc_pos (rs_cell m3 i)"
     "rs_own {mn..mx} m3" "\<forall>s < ub_n_seqs ub. rc_seq (rs_cell m3 (mn + s)) = set (set_ids ub s)"
     "\<forall>s u. s < ub_n_seqs ub \<longrightarrow> int u \<in> set (set_ids ub s) \<longrightarrow> rs_last m3 u = Some (set_last ub s)"
     "\<forall>u. \<not> in_sets ub u \<longrightarrow> rs_last m3 u = rs_last m0 u"
     "\<forall>u p r. \<not> later_in_set ub u \<longrightarrow> rs_st m0 u = Some (p, r) \<longrightarrow> (\<exists>p'. rs_st m3 u = Some (p', r))"
    using l unfolding located_def by (elim conjE) (rule that; assumption)
  have mx3: "mx < rs_size m3" using mx(1) L(1) by simp
  note Z = rs_zero_row [OF L(8) mx3 z]
  let ?m3 = "m3\<lparr>rm_rs_z := z\<rparr>"
  have "\<exists>m'. fold_opt (rs_stage z) [mn..<mx + 1] ?m3 = Some m' \<and> rs_size m' = rs_size ?m3 \<and> rm_rs_idx m' = rm_rs_idx ?m3 \<and>
    rm_n_seq_max m' = rm_n_seq_max ?m3 \<and> rm_n_rs_seq m' = rm_n_rs_seq ?m3 \<and> rm_rs_z m' = rm_rs_z ?m3 \<and>
    (\<forall>i. rs_cell m' i = (if i \<in> set [mn..<mx + 1] then (rs_cell ?m3 i)\<lparr>rc_src0 := if rc_src (rs_cell ?m3 i) < 0 then z else rc_src (rs_cell ?m3 i), rc_src := int i\<rparr>
       else rs_cell ?m3 i))"
  proof (rule rs_stage_all)
    show "0 \<le> z" if "i \<in> set [mn..<mx + 1]" "rc_src (rs_cell ?m3 i) < 0" for i using Z(1) [OF that(1)] that(2) by simp
  qed (use mx3 in auto)
  then obtain m4 where m4: "fold_opt (rs_stage z) [mn..<mx + 1] ?m3 = Some m4" "rs_size m4 = rs_size ?m3" "rm_rs_idx m4 = rm_rs_idx ?m3"
    "rm_n_seq_max m4 = rm_n_seq_max ?m3" "rm_n_rs_seq m4 = rm_n_rs_seq ?m3" "rm_rs_z m4 = rm_rs_z ?m3"
    "\<forall>i. rs_cell m4 i = (if i \<in> set [mn..<mx + 1] then (rs_cell ?m3 i)\<lparr>rc_src0 := if rc_src (rs_cell ?m3 i) < 0 then z else rc_src (rs_cell ?m3 i), rc_src := int i\<rparr>
       else rs_cell ?m3 i)"
    by (elim exE conjE) (rule that; assumption)
  define m' where m': "m' = m4\<lparr>rm_head := mn, rm_n := mx + 1 - mn, rm_used := length (filter (\<lambda>c. rc_seq c \<noteq> {}) (rm_cells m4))\<rparr>"
  have f: "rm_cells m' = rm_cells m4" "rm_rs_idx m' = rm_rs_idx m4" "rm_n_seq_max m' = rm_n_seq_max m4" "rm_n_rs_seq m' = rm_n_rs_seq m4"
    "rm_rs_z m' = rm_rs_z m4" "rm_head m' = mn" "rm_n m' = mx + 1 - mn" "rm_used m' = length (filter (\<lambda>c. rc_seq c \<noteq> {}) (rm_cells m4))"
    by (simp_all add: m')
  have sz: "rs_size m4 = rs_size m0" "rs_size m' = rs_size m0" using m4(2) L(1) f(1) by (simp_all add: rs_size_def)
  have cell4: "rs_cell m4 i = (if mn \<le> i \<and> i \<le> mx then (rs_cell m3 i)\<lparr>rc_src0 := if rc_src (rs_cell m3 i) < 0 then z else rc_src (rs_cell m3 i), rc_src := int i\<rparr>
       else rs_cell m3 i)" for i
    using m4(7) [rule_format, of i] by auto
  have cm: "rs_cell m' = rs_cell m4" using f(1) by (simp add: rs_cell_def fun_eq_iff)
  have same: "rc_pos (rs_cell m' i) = rc_pos (rs_cell m3 i)" "rc_seq (rs_cell m' i) = rc_seq (rs_cell m3 i)" "rs_tail m' q = rs_tail m3 q" for i q
    unfolding rs_tail_def cm cell4 by auto
  have occ: "rs_occ m' = rs_occ m3" by (simp add: rs_occ_def fun_eq_iff same sz L(1))
  have last: "rs_last m' q = rs_last m3 q" for q by (simp add: rs_last_def same sz L(1))
  have "rs_wf m'"
    unfolding rs_wf_def
  proof (intro conjI allI impI)
    show "length (rm_rs_idx m') = rm_n_seq_max m'" using m4(3,4) L(2,3) rs_wfD(1) [OF wf] f by simp
    show "rs_size m' < 2 ^ 31" using rs_wfD(2) [OF wf] sz(2) by simp
    show "rm_head m' \<le> rs_size m'" using mx sz n f by simp
    show "-1 \<le> rs_tail m' q" "rs_tail m' q < int (rs_size m')" if "q < rs_size m'" for q
      using L(5) that unfolding same sz L(1) by simp_all
    show "rc_seq (rs_cell m' i) = int ` rs_occ m' i" if "i < rs_size m'" for i
      using L(6) that unfolding same sz L(1) occ by simp
    show "if rc_seq (rs_cell m' i) = {} then rc_pos (rs_cell m' i) = -1 else 0 \<le> rc_pos (rs_cell m' i)" if "i < rs_size m'" for i
      using L(7) that unfolding same sz L(1) by simp
    show "rc_src (rs_cell m' i) \<in> {-1, int i}" if "i < rs_size m'" for i
      using L(8) that unfolding rs_own_def cm cell4 sz L(1) by auto
    have "rs_busy m4 = rs_busy m'" using f(1) by (simp add: rs_busy_def rs_size_def rs_cell_def)
    then show "rm_used m' = card (rs_busy m')" using rs_busy_card [of m4] f(8) by simp
  qed
  moreover have "rs_source m' q = r \<and> rm_rs_z m' \<noteq> r"
    if q: "\<not> later_in_set ub q" and st: "rs_st m0 q = Some (p, r)" and r: "0 \<le> r" for q p r
  proof -
    obtain p' where "rs_st m3 q = Some (p', r)" using L(12) q st by blast
    then have s3: "q < rs_size m3" "0 \<le> rs_tail m3 q" "rc_src (rs_cell m3 (nat (rs_tail m3 q))) = r"
      unfolding rs_st_def by (auto split: if_splits)
    obtain t where t: "rs_tail m3 q = int t" using s3(2) by (rule nonneg_int_cases)
    have tr: "t < rs_size m3" "rc_src (rs_cell m3 t) = r" using L(5) s3 t by auto
    have "rm_rs_z m' \<noteq> r" using Z(2) [OF tr(1)] tr(2) r m4(6) f by simp
    moreover have "rs_source m' q = (if mn \<le> t \<and> t \<le> mx then rc_src0 (rs_cell m4 t) else rc_src (rs_cell m4 t))"
      using mx n f(6,7) by (auto simp: rs_source_def Let_def same t cm)
    then have "rs_source m' q = r" using cell4 [of t] tr(2) r by (cases "mn \<le> t \<and> t \<le> mx") auto
    ultimately show ?thesis by blast
  qed
  moreover have "ub_n_seqs ub \<le> rm_n m'" "rm_head m' + rm_n m' \<le> rs_size m'" using mx sz n f by simp_all
  ultimately have "slot_found ub m0 m'"
    unfolding slot_found_def using sz(2) m4(3-5) L(2-4) L(9-11) f by (simp add: same last)
  then show ?thesis using m4(1) unfolding m' by blast
qed


lemma rs_find_slot_effect:
  assumes wf: "rs_wf m" and ub: "rs_ub_ok (rs_size m) ub"
  shows "\<exists>m'. rs_find_slot ub m = Some (m', True) \<and> slot_found ub m m'"
proof -
  let ?n = "ub_n_seqs ub"
  define M where M: "M = (if rm_head m > rm_used m + 2 * ?n then m\<lparr>rm_head := 0\<rparr> else m)"
  have f: "rs_size M = rs_size m" "rs_cell M = rs_cell m" "rm_rs_idx M = rm_rs_idx m" "rm_n_seq_max M = rm_n_seq_max m"
    "rm_n_rs_seq M = rm_n_rs_seq m" "rm_used M = rm_used m" "rm_head M \<le> rm_head m"
    by (simp_all add: M)
  have t: "rs_tail M = rs_tail m" by (rule ext) (simp only: rs_tail_def f)
  have o: "rs_occ M = rs_occ m" "rs_busy M = rs_busy m" by (rule ext, simp only: rs_occ_def f t) (simp only: rs_busy_def f)
  have st: "rs_st M u = rs_st m u" for u by (simp only: rs_st_def f t)
  have head: "rm_head M \<le> rs_size m" using f(7) rs_wfD(3) [OF wf] by (rule order_trans)
  have wf1: "rs_wf M"
    using wf head unfolding rs_wf_def f t o by blast
  have ub1: "rs_ub_ok (rs_size M) ub" using ub unfolding f .
  note U = rs_unshared [OF wf1 ub1]
  let ?u = "unshared ub M"
  have ubu: "rs_ub_ok (rs_size ?u) ub" using ub1 unfolding U(3) .
  have late: "\<forall>u. later_in_set ub u \<longrightarrow> rs_tail ?u u = -1" using U(8) by blast
  obtain st mn mx where A: "fold_opt (rs_assign ub) [0..<?n]
      \<lparr>as_m = ?u, as_next = rs_probe ?u (rm_head ?u) (rs_size ?u), as_min = int (rs_size ?u) - 1, as_max = 0\<rparr> = Some st"
    "as_min st = int mn" "as_max st = int mx" "mx < rs_size ?u" "?n + mn \<le> mx + 1"
    "located ub mn mx ?u (fold (rs_place ub mn) [0..<?n] (fold (rs_gather ub mn) [0..<?n] (as_m st)))"
    using rs_located [OF U(2) ubu late] by (elim exE conjE) (rule that; assumption)
  let ?m3 = "fold (rs_place ub mn) [0..<?n] (fold (rs_gather ub mn) [0..<?n] (as_m st))"
  let ?z = "case find (\<lambda>i. refcount ?m3 i = 0) [mn..<mx + 1] of None \<Rightarrow> -1 | Some i \<Rightarrow> int i"
  obtain m4 where m4: "fold_opt (rs_stage ?z) [mn..<mx + 1] (?m3\<lparr>rm_rs_z := ?z\<rparr>) = Some m4"
    "slot_found ub ?u (m4\<lparr>rm_head := mn, rm_n := mx + 1 - mn, rm_used := length (filter (\<lambda>c. rc_seq c \<noteq> {}) (rm_cells m4))\<rparr>)"
    using rs_staged [OF A(6) A(4,5) U(2) rs_ub_okD(2) [OF ub] refl] by blast
  let ?m' = "m4\<lparr>rm_head := mn, rm_n := mx + 1 - mn, rm_used := length (filter (\<lambda>c. rc_seq c \<noteq> {}) (rm_cells m4))\<rparr>"
  have mx: "mx < 2 ^ 31" using A(4) rs_wfD(2) [OF wf] unfolding U(3) f by simp
  have n: "nat ((int mx - int mn + 1) mod 2 ^ 32) = mx + 1 - mn" using A(5) mx by simp
  have le: "?n \<le> mx + 1 - mn" using A(5) by simp
  have "rs_find_slot ub m = Some (?m', True)"
    unfolding rs_find_slot_def Let_def M [symmetric] U(1) prod.case A(1) option.case A(2,3) nat_int m4(1) n
    using rs_ub_okD(1) [OF ub] le by (simp only: not_True_eq_False not_not if_True if_False simp_thms A(1) option.case A(2,3) nat_int m4(1) n)
  moreover have "slot_found ub m ?m'"
  proof -
    have st': "rs_st ?u q = rs_st m q" if "\<not> later_in_set ub q" for q using U(9) [OF that] st by simp
    have last': "rs_last ?u q = rs_last m q" if "\<not> in_sets ub q" for q
    proof -
      have "\<not> later_in_set ub q" using later_in_sets that by blast
      from st' [OF this] show ?thesis by (simp only: rs_st_last)
    qed
    show ?thesis
      using m4(2) unfolding slot_found_def U(3-6) f
      by (elim conjE, intro conjI; (assumption | use st' last' in simp))
  qed
  ultimately show ?thesis by blast
qed

subsection \<open>All micro-batches of a batch\<close>

definition ub_lasts :: "llama_ubatch \<Rightarrow> (nat \<Rightarrow> llama_pos option) \<Rightarrow> nat \<Rightarrow> llama_pos option" where
  \<comment> \<open>the last positions once a micro-batch is in the memory\<close>
  "ub_lasts ub L u = (case find (\<lambda>s. int u \<in> set (set_ids ub s)) [0..<ub_n_seqs ub] of
     None \<Rightarrow> L u | Some s \<Rightarrow> Some (set_last ub s))"

lemma slot_found_lasts:
  assumes "slot_found ub m m'"
  shows "rs_last m' = ub_lasts ub (rs_last m)"
proof
  fix u
  show "rs_last m' u = ub_lasts ub (rs_last m) u"
  proof (cases "find (\<lambda>s. int u \<in> set (set_ids ub s)) [0..<ub_n_seqs ub]")
    case None
    then have "\<not> in_sets ub u" by (auto simp: find_None_iff in_sets_def)
    then show ?thesis using assms None unfolding slot_found_def ub_lasts_def by simp
  next
    case (Some s)
    then have "s < ub_n_seqs ub" "int u \<in> set (set_ids ub s)" by (auto simp: find_Some_iff)
    then show ?thesis using assms Some unfolding slot_found_def ub_lasts_def by simp
  qed
qed

lemma rs_place_all_effect:
  assumes "rs_wf m" "\<forall>ub \<in> set ubs. rs_ub_ok (rs_size m) ub"
  shows "\<exists>m'. rs_place_all ubs m = Some (m', True) \<and> rs_wf m' \<and> rs_size m' = rs_size m \<and> rm_rs_idx m' = rm_rs_idx m \<and>
    rm_n_seq_max m' = rm_n_seq_max m \<and> rm_n_rs_seq m' = rm_n_rs_seq m \<and> rs_last m' = fold ub_lasts ubs (rs_last m)"
  using assms
proof (induction ubs arbitrary: m)
  case (Cons ub ubs)
  obtain m1 where m1: "rs_find_slot ub m = Some (m1, True)" "slot_found ub m m1"
    using rs_find_slot_effect [OF Cons.prems(1), of ub] Cons.prems(2) by auto
  have f: "rs_wf m1" "rs_size m1 = rs_size m" "rm_rs_idx m1 = rm_rs_idx m"
    "rm_n_seq_max m1 = rm_n_seq_max m" "rm_n_rs_seq m1 = rm_n_rs_seq m"
    using m1(2) unfolding slot_found_def by blast+
  have "\<forall>ub \<in> set ubs. rs_ub_ok (rs_size m1) ub" using Cons.prems(2) f(2) by simp
  from Cons.IH [OF f(1) this] obtain m' where m': "rs_place_all ubs m1 = Some (m', True)" "rs_wf m'" "rs_size m' = rs_size m1"
    "rm_rs_idx m' = rm_rs_idx m1" "rm_n_seq_max m' = rm_n_seq_max m1" "rm_n_rs_seq m' = rm_n_rs_seq m1"
    "rs_last m' = fold ub_lasts ubs (rs_last m1)" by blast
  then show ?case using m1(1) f slot_found_lasts [OF m1(2)] by simp
qed simp

lemma rs_wf_cells:
  assumes "rs_wf m" "rm_cells m' = rm_cells m" "rm_used m' = rm_used m" "rm_head m' = rm_head m" "rm_rs_idx m' = rm_rs_idx m"
    "rm_n_seq_max m' = rm_n_seq_max m"
  shows "rs_wf m'" "rs_last m' = rs_last m"
proof -
  have f: "rs_size m' = rs_size m" "rs_cell m' = rs_cell m" using assms(2) by (simp_all add: rs_size_def rs_cell_def fun_eq_iff)
  have t: "rs_tail m' = rs_tail m" by (rule ext) (simp only: rs_tail_def f)
  have o: "rs_occ m' = rs_occ m" "rs_busy m' = rs_busy m" by (rule ext, simp only: rs_occ_def f t) (simp only: rs_busy_def f)
  show "rs_wf m'" using assms(1) unfolding rs_wf_def f t o assms(3-6) .
  show "rs_last m' = rs_last m" by (rule ext) (simp only: rs_last_def f t)
qed

lemma rs_prepare_effect:
  assumes "rs_wf m" "\<forall>ub \<in> set ubs. rs_ub_ok (rs_size m) ub"
  shows "\<exists>m'. rs_prepare ubs m = Some (m', True) \<and> rs_wf m' \<and> rm_cells m' = rm_cells m \<and> rm_used m' = rm_used m \<and>
    rm_head m' = rm_head m \<and> rm_rs_idx m' = rm_rs_idx m \<and> rm_n_seq_max m' = rm_n_seq_max m \<and> rm_n_rs_seq m' = rm_n_rs_seq m"
proof -
  obtain m1 where m1: "rs_place_all ubs m = Some (m1, True)" "rm_rs_idx m1 = rm_rs_idx m"
    "rm_n_seq_max m1 = rm_n_seq_max m" "rm_n_rs_seq m1 = rm_n_rs_seq m"
    using rs_place_all_effect [OF assms] by blast
  let ?m = "m1\<lparr>rm_cells := rm_cells m, rm_used := rm_used m, rm_head := rm_head m\<rparr>"
  have "rs_prepare ubs m = Some (?m, True)" using m1(1) by (simp add: rs_prepare_def)
  moreover have "rs_wf ?m" by (rule rs_wf_cells [OF assms(1)]) (use m1 in simp_all)
  ultimately show ?thesis using m1 by simp
qed

text \<open>C3. A recurrent memory has a slot for every micro-batch of equally long, disjoint sequence
  sets: \<open>find_slot\<close> succeeds, keeps the invariant, and gives the sets one cell each, in order, from
  \<open>head\<close> on; the sequences of the batch are then at the last position of their set and all others
  where they were. Every sequence that had a state reads it from the row it is in, and the row
  that gets zeroed is not the row of any of them.\<close>

theorem rs_find_slot_correct:
  assumes "rs_wf m" "rs_ub_ok (rs_size m) ub"
  shows "\<exists>m'. rs_find_slot ub m = Some (m', True) \<and> rs_wf m' \<and> rs_size m' = rs_size m \<and>
    ub_n_seqs ub \<le> rm_n m' \<and> rm_head m' + rm_n m' \<le> rs_size m' \<and>
    (\<forall>s < ub_n_seqs ub. rc_seq (rs_cell m' (rm_head m' + s)) = set (set_ids ub s)) \<and>
    (\<forall>s u. s < ub_n_seqs ub \<longrightarrow> int u \<in> set (set_ids ub s) \<longrightarrow> rs_last m' u = Some (set_last ub s)) \<and>
    (\<forall>u. \<not> in_sets ub u \<longrightarrow> rs_last m' u = rs_last m u) \<and>
    (\<forall>u p r. \<not> later_in_set ub u \<longrightarrow> rs_st m u = Some (p, r) \<longrightarrow> 0 \<le> r \<longrightarrow> rs_source m' u = r \<and> rm_rs_z m' \<noteq> r)"
  using rs_find_slot_effect [OF assms] unfolding slot_found_def by blast

text \<open>C37. Trying out the micro-batches of a batch on a recurrent memory succeeds and leaves the
  cells, their count and the head as they were, so that placing the same micro-batches afterwards
  succeeds as well; the sequences are then at the last positions the batch gives them.\<close>

theorem rs_prepare_correct:
  assumes "rs_wf m" "\<forall>ub \<in> set ubs. rs_ub_ok (rs_size m) ub"
  shows "\<exists>m' m''. rs_prepare ubs m = Some (m', True) \<and> rm_cells m' = rm_cells m \<and> rm_used m' = rm_used m \<and>
    rm_head m' = rm_head m \<and> rs_wf m' \<and> rs_place_all ubs m' = Some (m'', True) \<and> rs_wf m'' \<and>
    rs_last m'' = fold ub_lasts ubs (rs_last m)"
proof -
  obtain m' where m': "rs_prepare ubs m = Some (m', True)" "rs_wf m'" "rm_cells m' = rm_cells m" "rm_used m' = rm_used m"
    "rm_head m' = rm_head m" "rm_rs_idx m' = rm_rs_idx m" "rm_n_seq_max m' = rm_n_seq_max m"
    using rs_prepare_effect [OF assms] by blast
  have "\<forall>ub \<in> set ubs. rs_ub_ok (rs_size m') ub" using assms(2) m'(3) by (simp add: rs_size_def)
  from rs_place_all_effect [OF m'(2) this] obtain m'' where "rs_place_all ubs m' = Some (m'', True)" "rs_wf m''"
    "rs_last m'' = fold ub_lasts ubs (rs_last m')" by blast
  then show ?thesis using m' rs_wf_cells(2) [OF assms(1) m'(3-7)] by auto
qed

definition batch_for_rs :: "rs_memory \<Rightarrow> batch_allocr \<Rightarrow> bool" where
  \<comment> \<open>the tokens of the batch are ones the memory can take\<close>
  "batch_for_rs m al \<longleftrightarrow> 0 < ba_n_pos_per_embd al \<and> ba_n_seq_max al \<le> rs_size m \<and>
     (\<forall>i < batch_n al. 0 \<le> the (b_pos (ba_batch al)) ! i \<and> distinct (b_seqs (ba_batch al) i) \<and>
        the (b_n_seq_id (ba_batch al)) ! i = int (length (b_seqs (ba_batch al) i)) \<and>
        (\<forall>q \<in> set (b_seqs (ba_batch al) i). 0 \<le> q \<and> q < int (ba_n_seq_max al)))"

lemma made_by_sets:
  assumes mb: "made_by al n True ub" and al: "batch_for_rs m al" "allocr_wf al" and idx: "set (ub_batch_idxs ub) \<subseteq> {..<batch_n al}"
    and len: "length (ub_batch_idxs ub) = n * len" "0 < len" "s < n"
  shows "ub_equal_seqs ub" "ub_n_seqs ub = n" "ub_n_seq_tokens ub = len" "set_ids ub s = b_seqs (ba_batch al) (ub_batch_idxs ub ! (s * len))"
    "set_ids ub s \<noteq> []" "distinct (set_ids ub s)" "\<forall>q \<in> set (set_ids ub s). 0 \<le> q \<and> q < int (rs_size m)" "0 \<le> set_last ub s"
    "nat ` set (set_ids ub s) = ba_seq_set al ! (ub_batch_idxs ub ! (s * len))"
proof -
  have B: "0 < ba_n_pos_per_embd al" "ba_n_seq_max al \<le> rs_size m"
    "\<And>i. i < batch_n al \<Longrightarrow> 0 \<le> the (b_pos (ba_batch al)) ! i \<and> distinct (b_seqs (ba_batch al) i) \<and>
        the (b_n_seq_id (ba_batch al)) ! i = int (length (b_seqs (ba_batch al) i)) \<and>
        (\<forall>q \<in> set (b_seqs (ba_batch al) i). 0 \<le> q \<and> q < int (ba_n_seq_max al))"
    using al(1) unfolding batch_for_rs_def by blast+
  note f = made_by_fields [OF mb B(1)]
  obtain idxs where e: "ub = snd (ubatch_add idxs n True al)" "ub_batch_idxs ub = idxs" using mb by (auto simp: made_by_def)
  show "ub_equal_seqs ub" "ub_n_seqs ub = n" unfolding e(1) by (simp_all add: ubatch_add_def case_prod_unfold Let_def)
  have "ub_n_seq_tokens ub = length idxs div n" unfolding e(1) by (simp add: ubatch_add_def case_prod_unfold Let_def)
  then show nt: "ub_n_seq_tokens ub = len" using len e(2) by simp
  have "s * len + len = Suc s * len" by simp
  also have "\<dots> \<le> n * len" using len(3) by (intro mult_le_mono1) simp
  finally have le: "s * len + len \<le> n * len" .
  then have k: "s * len < length (ub_batch_idxs ub)" "s * len + len - 1 < length (ub_batch_idxs ub)" using len by linarith+
  have i: "ub_batch_idxs ub ! (s * len) < batch_n al" "ub_batch_idxs ub ! (s * len + len - 1) < batch_n al"
    using nth_mem [OF k(1)] nth_mem [OF k(2)] idx by blast+
  show ids: "set_ids ub s = b_seqs (ba_batch al) (ub_batch_idxs ub ! (s * len))"
    using B(3) [OF i(1)] by (simp add: set_ids_def Let_def nt f(3,4) [OF k(1)] map_nth)
  show "distinct (set_ids ub s)" "\<forall>q \<in> set (set_ids ub s). 0 \<le> q \<and> q < int (rs_size m)"
    unfolding ids using B(3) [OF i(1)] B(2) by auto
  show "nat ` set (set_ids ub s) = ba_seq_set al ! (ub_batch_idxs ub ! (s * len))"
    unfolding ids using allocr_wfD(4) [OF al(2) i(1)] by simp
  then show "set_ids ub s \<noteq> []" using allocr_wfD(5) [OF al(2) i(1)] by auto
  show "0 \<le> set_last ub s" unfolding set_last_def nt using f(2) [OF k(2)] B(3) [OF i(2)] by simp
qed

lemma recurrent_ub_ok:
  assumes al: "batch_for_rs m al" "allocr_wf al" and good: "if embd_all then seq_good n_ubatch al ub else equal_good n_ubatch True 0 al ub"
    and idx: "ub_batch_idxs ub \<noteq> []" "set (ub_batch_idxs ub) \<subseteq> {..<batch_n al}"
  shows "rs_ub_ok (rs_size m) ub"
proof (cases embd_all)
  case True
  then have mb: "made_by al 1 True ub" using good by (simp add: seq_good_def)
  note s = made_by_sets [OF mb al idx(2), of "length (ub_batch_idxs ub)" 0]
  then show ?thesis unfolding rs_ub_ok_def using idx(1) by simp
next
  case False
  then obtain blocks len where b: "equal_blocks n_ubatch 0 al ub blocks len" using good unfolding equal_good_def by auto
  have B: "ub_batch_idxs ub = concat blocks" "blocks \<noteq> []" "0 < len" "made_by al (length blocks) True ub"
    "\<forall>bl \<in> set blocks. length bl = len"
    "\<forall>k k'. k < k' \<longrightarrow> k' < length blocks \<longrightarrow>
        (\<forall>i \<in> set (blocks ! k). \<forall>j \<in> set (blocks ! k'). ba_seq_set al ! i \<inter> ba_seq_set al ! j = {})"
    using b unfolding equal_blocks_def by blast+
  have len: "length (ub_batch_idxs ub) = length blocks * len" unfolding B(1) using B(5) by (intro length_concat_equal)
  have first: "ub_batch_idxs ub ! (s * len) \<in> set (blocks ! s)" if s: "s < length blocks" for s
  proof -
    have "s * len < length blocks * len" using s B(3) by simp
    then have "ub_batch_idxs ub ! (s * len) = blocks ! s ! 0" unfolding B(1) using nth_concat_equal [OF B(5)] B(3) by simp
    then show ?thesis using B(3,5) s by simp
  qed
  note sets = made_by_sets [OF B(4) al idx(2) len B(3)]
  have disj: "set (set_ids ub s) \<inter> set (set_ids ub s') = {}" if ss: "s < s'" "s' < length blocks" for s s'
  proof -
    have "s < length blocks" using ss by simp
    then have "nat ` set (set_ids ub s) \<inter> nat ` set (set_ids ub s') = {}"
      unfolding sets(9) [OF ss(2)] sets(9) [OF \<open>s < length blocks\<close>] using B(6) ss first by blast
    then show ?thesis by blast
  qed
  have "0 < length blocks" using B(2) by simp
  then show ?thesis
    unfolding rs_ub_ok_def sets(2) [OF \<open>0 < length blocks\<close>] using sets(1,5-8) disj by blast
qed


subsection \<open>Reading the states\<close>

text \<open>C38. Once a micro-batch has its slot, \<open>s_copy\<close> reads the state of a sequence from the row it
  is in, or, after a rollback, from the snapshot the rollback asked for, which is then used up.\<close>

theorem rs_s_copy_reads:
  assumes "rs_wf m" "rs_ub_ok (rs_size m) ub" "s < ub_n_seqs ub" "set_ids ub s = [int q]" "q < rm_n_seq_max m"
    and "rs_st m q = Some (p, r)" "0 \<le> r"
  shows "\<exists>m'. rs_find_slot ub m = Some (m', True) \<and>
    rs_s_copy s m' = (if rm_n_rs_seq m = 0 then (m', r)
      else (m'\<lparr>rm_rs_idx := (rm_rs_idx m)[q := 0]\<rparr>, int (rm_rs_idx m ! q * rs_size m) + r))"
proof -
  obtain m' where m': "rs_find_slot ub m = Some (m', True)" "slot_found ub m m'"
    using rs_find_slot_effect [OF assms(1,2)] by blast
  have first: "set_first ub s = q" using assms(4) by (simp add: set_first_def)
  have "\<not> later_in_set ub q"
    using rs_ub_okD(12) [OF assms(2,3)] unfolding later_in_set_def first by blast
  then have F: "rs_wf m'" "rs_size m' = rs_size m" "rm_rs_idx m' = rm_rs_idx m" "rm_n_rs_seq m' = rm_n_rs_seq m"
    "ub_n_seqs ub \<le> rm_n m'" "rm_head m' + rm_n m' \<le> rs_size m'" "rc_seq (rs_cell m' (rm_head m' + s)) = {int q}" "rs_source m' q = r"
    using m'(2) assms(3,4,6,7) unfolding slot_found_def by auto
  have i: "rm_head m' + s < rs_size m'" using F(5,6) assms(3) by simp
  have t: "rs_tail m' q = int (rm_head m' + s)" using rs_seq_tail(3) [OF F(1) i, of "int q"] F(7) by simp
  have src: "rc_src0 (rs_cell m' (rm_head m' + s)) = r" using F(8) F(5) assms(3) by (simp add: rs_source_def t nat_int_add)
  have len: "q < length (rm_rs_idx m')" using F(3) rs_wfD(1) [OF assms(1)] assms(5) by simp
  show ?thesis
    using m'(1) F(2-4,7) src len by (simp add: rs_s_copy_def Let_def add.commute [of s])
qed

subsection \<open>Concrete instances\<close>

definition rs_demo :: rs_memory where
  \<comment> \<open>two sequences share the state at position 5; snapshots of two more positions\<close>
  "rs_demo = \<lparr>rm_head = 0, rm_used = 1, rm_n_rs_seq = 2, rm_rs_idx = [0, 0], rm_n = 1, rm_rs_z = 0,
     rm_cells = [\<lparr>rc_pos = 5, rc_src = 0, rc_src0 = 0, rc_tail = 0, rc_seq = {0, 1}\<rparr>,
       \<lparr>rc_pos = -1, rc_src = -1, rc_src0 = -1, rc_tail = 0, rc_seq = {}\<rparr>], rm_n_seq_max = 2\<rparr>"

definition rs_demo_ub :: llama_ubatch where
  \<comment> \<open>the next token of the first sequence\<close>
  "rs_demo_ub = \<lparr>ub_equal_seqs = True, ub_n_tokens = 1, ub_n_seq_tokens = 1, ub_n_seqs = 1, ub_n_seqs_unq = 1, ub_n_pos = 1,
     ub_token = Some [7], ub_pos = [6], ub_n_seq_id = [1], ub_seq_id = [[0]], ub_seq_id_unq = [0], ub_seq_idx = [0], ub_output = [1],
     ub_embd = None, ub_batch_idxs = [0]\<rparr>"

lemma rs_demo_facts:
  "rs_wf rs_demo" "rs_size rs_demo = 2" "rs_last rs_demo 0 = Some 5" "rs_last rs_demo (Suc 0) = Some 5" "rs_ub_ok 2 rs_demo_ub"
  "rs_tail rs_demo 0 = 0" "rs_tail rs_demo (Suc 0) = 0" "rs_st rs_demo 0 = Some (5, 0)" "set_ids rs_demo_ub 0 = [0]"
  "rm_n_seq_max rs_demo = 2" "rm_n_rs_seq rs_demo = 2" "rm_rs_idx rs_demo = [0, 0]"
proof -
  show sz: "rs_size rs_demo = 2" by (simp add: rs_size_def rs_demo_def)
  show t: "rs_tail rs_demo 0 = 0" "rs_tail rs_demo (Suc 0) = 0" by (simp_all add: rs_tail_def rs_cell_def rs_demo_def)
  show "rs_last rs_demo 0 = Some 5" "rs_last rs_demo (Suc 0) = Some 5" "rs_st rs_demo 0 = Some (5, 0)"
    using t by (simp_all add: rs_last_def rs_st_def sz) (simp_all add: rs_cell_def rs_demo_def)
  show ids: "set_ids rs_demo_ub 0 = [0]" by (simp add: set_ids_def rs_demo_ub_def)
  show "rs_ub_ok 2 rs_demo_ub" unfolding rs_ub_ok_def using ids by (simp add: rs_demo_ub_def set_last_def)
  show "rm_n_seq_max rs_demo = 2" "rm_n_rs_seq rs_demo = 2" "rm_rs_idx rs_demo = [0, 0]" by (simp_all add: rs_demo_def)
  have two: "i = 0 \<or> i = Suc 0" if "i < 2" for i :: nat using that by auto
  have occ: "rs_occ rs_demo 0 = {0, Suc 0}" "rs_occ rs_demo (Suc 0) = {}"
    using t two unfolding rs_occ_def sz by (auto dest!: two)
  have busy: "rs_busy rs_demo = {0}" unfolding rs_busy_def sz by (auto simp: rs_cell_def rs_demo_def dest!: two)
  show "rs_wf rs_demo"
    unfolding rs_wf_def sz busy
  proof (intro conjI allI impI)
    show "rc_seq (rs_cell rs_demo i) = int ` rs_occ rs_demo i" if "i < 2" for i
      using two [OF that] occ by (auto simp: rs_cell_def rs_demo_def)
    show "rc_src (rs_cell rs_demo i) \<in> {-1, int i}" if "i < 2" for i
      using two [OF that] by (auto simp: rs_cell_def rs_demo_def)
    show "if rc_seq (rs_cell rs_demo i) = {} then rc_pos (rs_cell rs_demo i) = -1 else 0 \<le> rc_pos (rs_cell rs_demo i)" if "i < 2" for i
      using two [OF that] by (auto simp: rs_cell_def rs_demo_def)
    show "-1 \<le> rs_tail rs_demo q" "rs_tail rs_demo q < int 2" if "q < 2" for q using two [OF that] t by auto
  qed (simp_all add: rs_demo_def)
qed

theorem rs_seq_rm_correct_witness:
  "\<exists>m' ok. rs_seq_rm (int 0) 4 (-1) rs_demo = Some (m', ok) \<and> ok \<and> rs_last m' 1 = Some 3"
  using rs_seq_rm_correct [of rs_demo 0 4 "-1"] rs_demo_facts by (auto simp: rs_end_def INT32_MAX_def)

theorem rs_seq_ops_refine_witness:
  "rs_last (rs_seq_keep (int 0) rs_demo) 0 = Some 5 \<and> rs_last (rs_clear rs_demo) 0 = None"
  using rs_seq_ops_refine [of rs_demo 0 1] rs_demo_facts by simp

theorem rs_seq_add_shared_witness: "rs_last (rs_seq_add (int 0) 0 (-1) 2 rs_demo) 1 = Some 7"
  using rs_seq_add_shared [of rs_demo 0 2 2 0 "-1"] rs_demo_facts by (auto simp: rs_end_def INT32_MAX_def)

theorem rs_find_slot_correct_witness: "\<exists>m'. rs_find_slot rs_demo_ub rs_demo = Some (m', True) \<and> rs_last m' 1 = Some 5"
proof -
  have "\<not> in_sets rs_demo_ub 1" using rs_demo_facts(9) by (simp add: in_sets_def rs_demo_ub_def)
  then show ?thesis using rs_find_slot_correct [of rs_demo rs_demo_ub] rs_demo_facts by auto
qed

theorem rs_prepare_correct_witness:
  "\<exists>m' m''. rs_prepare [rs_demo_ub] rs_demo = Some (m', True) \<and> rm_cells m' = rm_cells rs_demo \<and> rs_place_all [rs_demo_ub] m' = Some (m'', True)"
  using rs_prepare_correct [of rs_demo "[rs_demo_ub]"] rs_demo_facts by auto

theorem rs_s_copy_reads_witness: "\<exists>m'. rs_find_slot rs_demo_ub rs_demo = Some (m', True) \<and> snd (rs_s_copy 0 m') = 0"
  using rs_s_copy_reads [of rs_demo rs_demo_ub 0 0 5 0] rs_demo_facts by (auto simp: rs_demo_ub_def)


end
