(* ===== verification/StateIo.thy ===== *)
theory StateIo
  imports Prelude
begin

text \<open>
  Saved states, for every memory: the bytes of numbers and tensors, and readers. The stream is a list of bytes;
  integers are written as they are in memory, little-endian. The data of a tensor is a list of bytes too. A reader is
  a function on the rest of the bytes and the state: an exception or an abort keeps what had been changed before it.
\<close>

subsection \<open>Integers as bytes\<close>

type_synonym byte = "8 word"

fun le_bytes :: "nat \<Rightarrow> nat \<Rightarrow> byte list" where
  "le_bytes 0 x = []"
| "le_bytes (Suc n) x = word_of_nat x # le_bytes n (x div 256)"

fun le_val :: "byte list \<Rightarrow> nat" where
  "le_val [] = 0"
| "le_val (b # bs) = unat b + 256 * le_val bs"

lemma length_le_bytes [simp]: "length (le_bytes n x) = n"
  by (induction n arbitrary: x) auto

lemma le_val_bytes: "le_val (le_bytes n x) = x mod 256 ^ n"
proof (induction n arbitrary: x)
  case (Suc n)
  have "unat (word_of_nat x :: byte) = x mod 256" by (simp add: unat_of_nat)
  then show ?case by (simp add: Suc mod_mult2_eq)
qed simp

definition u32_out :: "nat \<Rightarrow> byte list" where
  "u32_out x = le_bytes 4 x"

definition u64_out :: "nat \<Rightarrow> byte list" where
  "u64_out x = le_bytes 8 x"

definition i32_out :: "int \<Rightarrow> byte list" where
  "i32_out x = le_bytes 4 (nat (x mod 2 ^ 32))"

definition i32_of :: "nat \<Rightarrow> int" where
  "i32_of n = (if n < 2 ^ 31 then int n else int n - 2 ^ 32)"

definition i32_ok :: "int \<Rightarrow> bool" where
  "i32_ok x \<longleftrightarrow> - (2 ^ 31) \<le> x \<and> x < 2 ^ 31"

lemma u32_in_out: "x < 2 ^ 32 \<Longrightarrow> le_val (u32_out x) = x"
  by (simp add: u32_out_def le_val_bytes)

lemma u64_in_out: "x < 2 ^ 64 \<Longrightarrow> le_val (u64_out x) = x"
  by (simp add: u64_out_def le_val_bytes)

lemma i32_in_out:
  assumes "i32_ok x"
  shows "i32_of (le_val (i32_out x)) = x"
proof -
  have v: "le_val (i32_out x) = nat (x mod 2 ^ 32)" by (simp add: i32_out_def le_val_bytes nat_less_iff)
  show ?thesis
  proof (cases "0 \<le> x")
    case True
    then have "x mod 2 ^ 32 = x" using assms by (simp add: i32_ok_def)
    then show ?thesis using True assms by (simp add: v i32_of_def i32_ok_def nat_less_iff)
  next
    case False
    have "x mod 2 ^ 32 = (x + 2 ^ 32) mod 2 ^ 32" by simp
    also have "\<dots> = x + 2 ^ 32" by (rule mod_pos_pos_trivial) (use False assms in \<open>simp_all add: i32_ok_def\<close>)
    finally have "x mod 2 ^ 32 = x + 2 ^ 32" .
    then show ?thesis using False assms by (simp add: v i32_of_def i32_ok_def nat_less_iff)
  qed
qed

lemma length_out [simp]: "length (u32_out x) = 4" "length (u64_out x) = 8" "length (i32_out y) = 4"
  by (simp_all add: u32_out_def u64_out_def i32_out_def)

subsection \<open>Tensors and ranges of cells\<close>

definition tensor_get :: "'a list \<Rightarrow> nat \<Rightarrow> nat \<Rightarrow> 'a list" where
  "tensor_get t off n = take n (drop off t)"

definition tensor_set :: "'a list \<Rightarrow> nat \<Rightarrow> 'a list \<Rightarrow> 'a list" where
  "tensor_set t off bs = take off t @ bs @ drop (off + length bs) t"

definition range_step :: "(nat \<Rightarrow> bool) \<Rightarrow> nat \<Rightarrow> nat \<Rightarrow> (nat \<times> nat) list \<times> nat \<times> nat \<Rightarrow> (nat \<times> nat) list \<times> nat \<times> nat" where
  \<comment> \<open>ranges so far, number of cells, begin of the open range (or \<open>n\<close>)\<close>
  "range_step add n i = (\<lambda>(cr, cnt, b).
     if add i then (cr, cnt + 1, if b = n then i else b)
     else if b \<noteq> n then (cr @ [(b, i)], cnt, n) else (cr, cnt, b))"

definition cell_ranges :: "(nat \<Rightarrow> bool) \<Rightarrow> nat \<Rightarrow> (nat \<times> nat) list \<times> nat" where
  "cell_ranges add n = (case fold (range_step add n) [0..<n] ([], 0, n) of
     (cr, cnt, b) \<Rightarrow> (if b \<noteq> n then cr @ [(b, n)] else cr, cnt))"

definition write_rows :: "'a list \<Rightarrow> nat \<Rightarrow> (nat \<times> nat) list \<Rightarrow> 'a list" where
  "write_rows t row rs = concat (map (\<lambda>(a, b). tensor_get t (a * row) ((b - a) * row)) rs)"

definition shift_ranges :: "nat \<Rightarrow> (nat \<times> nat) list \<Rightarrow> (nat \<times> nat) list" where
  "shift_ranges d rs = map (\<lambda>(a, b). (a + d, b + d)) rs"

subsection \<open>Readers\<close>

datatype io_fail = IoThrow | IoAbort

record 'st io_in =
  in_bytes :: "byte list"
  in_st :: 'st

type_synonym ('st, 'a) io_reader = "'st io_in \<Rightarrow> (io_fail + 'a) \<times> 'st io_in"

definition io_ret :: "'a \<Rightarrow> ('st, 'a) io_reader" where
  "io_ret x r = (Inr x, r)"

definition io_stop :: "io_fail \<Rightarrow> ('st, 'a) io_reader" where
  "io_stop e r = (Inl e, r)"

definition io_bind :: "('st, 'a) io_reader \<Rightarrow> ('a \<Rightarrow> ('st, 'b) io_reader) \<Rightarrow> ('st, 'b) io_reader" where
  "io_bind m f r = (case m r of (Inl e, r) \<Rightarrow> (Inl e, r) | (Inr x, r) \<Rightarrow> f x r)"

definition io_read :: "nat \<Rightarrow> ('st, byte list) io_reader" where
  \<comment> \<open>\<open>read\<close> of the readers: an exception at the end of the bytes\<close>
  "io_read n r = (if n > length (in_bytes r) then (Inl IoThrow, r)
     else (Inr (take n (in_bytes r)), r\<lparr>in_bytes := drop n (in_bytes r)\<rparr>))"

definition io_get :: "('st, 'st) io_reader" where
  "io_get r = (Inr (in_st r), r)"

definition io_put :: "'st \<Rightarrow> ('st, unit) io_reader" where
  "io_put st r = (Inr (), r\<lparr>in_st := st\<rparr>)"

definition io_upd :: "('st \<Rightarrow> 'st) \<Rightarrow> ('st, unit) io_reader" where
  "io_upd f r = (Inr (), r\<lparr>in_st := f (in_st r)\<rparr>)"

definition io_u32 :: "('st, nat) io_reader" where
  "io_u32 = io_bind (io_read 4) (\<lambda>bs. io_ret (le_val bs))"

definition io_u64 :: "('st, nat) io_reader" where
  "io_u64 = io_bind (io_read 8) (\<lambda>bs. io_ret (le_val bs))"

definition io_i32 :: "('st, int) io_reader" where
  "io_i32 = io_bind (io_read 4) (\<lambda>bs. io_ret (i32_of (le_val bs)))"

fun io_loop :: "('a \<Rightarrow> 's \<Rightarrow> ('st, bool \<times> 's) io_reader) \<Rightarrow> 'a list \<Rightarrow> 's \<Rightarrow> ('st, bool \<times> 's) io_reader" where
  \<comment> \<open>a loop whose body may \<open>return false\<close>\<close>
  "io_loop f [] s = io_ret (True, s)"
| "io_loop f (x # xs) s = io_bind (f x s) (\<lambda>(ok, s). if ok then io_loop f xs s else io_ret (False, s))"

fun io_while :: "('a \<Rightarrow> ('st, unit) io_reader) \<Rightarrow> 'a list \<Rightarrow> ('st, unit) io_reader" where
  "io_while f [] = io_ret ()"
| "io_while f (x # xs) = io_bind (f x) (\<lambda>_. io_while f xs)"

definition read_rows :: "((byte list \<Rightarrow> byte list) \<Rightarrow> 'st \<Rightarrow> 'st) \<Rightarrow> nat \<Rightarrow> (nat \<times> nat) list \<Rightarrow> ('st, unit) io_reader" where
  "read_rows upd row rs = io_while (\<lambda>(a, b). io_bind (io_read ((b - a) * row)) (\<lambda>bs. io_upd (upd (\<lambda>t. tensor_set t (a * row) bs)))) rs"

definition io_catch :: "('st, bool) io_reader \<Rightarrow> ('st, bool) io_reader" where
  \<comment> \<open>\<open>try\<close> ... \<open>catch (...) { res = false; }\<close>\<close>
  "io_catch m r = (case m r of (Inl IoThrow, r) \<Rightarrow> (Inr False, r) | res \<Rightarrow> res)"

subsection \<open>Ranges and rows\<close>

definition expand :: "(nat \<times> nat) list \<Rightarrow> nat list" where
  \<comment> \<open>the cells of a list of ranges\<close>
  "expand rs = concat (map (\<lambda>(a, b). [a..<b]) rs)"

lemma expand_simps [simp]:
  "expand [] = []" "expand ((a, b) # rs) = [a..<b] @ expand rs" "expand (rs @ rs') = expand rs @ expand rs'"
  by (simp_all add: expand_def)

lemma cell_ranges_all:
  assumes "cell_ranges add n = (cr, cnt)"
  shows "expand cr = filter add [0..<n]" "cnt = length (filter add [0..<n])" "\<forall>(a, b) \<in> set cr. a < b \<and> b \<le> n"
proof -
  let ?P = "\<lambda>i (cr, cnt, b). expand cr @ (if b = n then [] else [b..<i]) = filter add [0..<i] \<and> cnt = length (filter add [0..<i]) \<and>
    (b \<noteq> n \<longrightarrow> b < i) \<and> (\<forall>(a, b) \<in> set cr. a < b \<and> b \<le> i)"
  have "?P n (fold (range_step add n) [0..<n] ([], 0, n))"
  proof (rule fold_upt_invariant [where P = ?P])
    fix i st assume i: "i < n" and P: "?P i st"
    obtain cr cnt b where st: "st = (cr, cnt, b)" by (cases st)
    have p: "expand cr @ (if b = n then [] else [b..<i]) = filter add [0..<i]" "cnt = length (filter add [0..<i])"
      "b \<noteq> n \<longrightarrow> b < i" "\<forall>(a, b) \<in> set cr. a < b \<and> b \<le> i"
      using P st by auto
    show "?P (Suc i) (range_step add n i st)"
    proof (cases "add i")
      case True
      then show ?thesis using p i by (auto simp: range_step_def st simp flip: append_assoc)
    next
      case False
      then show ?thesis using p i by (auto simp: range_step_def st)
    qed
  qed simp
  then show "expand cr = filter add [0..<n]" "cnt = length (filter add [0..<n])" "\<forall>(a, b) \<in> set cr. a < b \<and> b \<le> n"
    using assms by (auto simp: cell_ranges_def split: prod.splits if_splits)
qed

lemma length_expand: "\<forall>(a, b) \<in> set cr. a < b \<and> b \<le> n \<Longrightarrow> length (expand cr) = sum_list (map (\<lambda>(a, b). b - a) cr)"
  by (induction cr) auto

definition row_of :: "'a list \<Rightarrow> nat \<Rightarrow> nat \<Rightarrow> 'a list" where
  "row_of t row i = take row (drop (i * row) t)"

lemma tensor_get_rows:
  assumes "a \<le> b" "b * row \<le> length t"
  shows "tensor_get t (a * row) ((b - a) * row) = concat (map (row_of t row) [a..<b])"
  using assms
proof (induction b)
  case (Suc b)
  show ?case
  proof (cases "a = Suc b")
    case False
    then have le: "a \<le> b" using Suc.prems by simp
    have e: "(Suc b - a) * row = (b - a) * row + row" using le by (simp add: Suc_diff_le)
    have f: "(b - a) * row + a * row = b * row" using le by (metis add_mult_distrib le_add_diff_inverse2)
    have "tensor_get t (a * row) ((Suc b - a) * row) = tensor_get t (a * row) ((b - a) * row) @ row_of t row b"
      unfolding tensor_get_def row_of_def e take_add drop_drop f ..
    then show ?thesis using Suc.IH [OF le] Suc.prems le by simp
  qed (simp add: tensor_get_def)
qed (simp add: tensor_get_def)

lemma length_row [simp]: "(i + 1) * row \<le> length t \<Longrightarrow> length (row_of t row i) = row"
  by (simp add: row_of_def algebra_simps)

lemma write_rows_eq:
  assumes "\<forall>(a, b) \<in> set rs. a < b \<and> b * row \<le> length t"
  shows "write_rows t row rs = concat (map (row_of t row) (expand rs))"
  using assms by (induction rs) (auto simp: write_rows_def tensor_get_rows)

lemma tensor_set_rows:
  assumes "a \<le> b" "b * row \<le> length t" "length bs = (b - a) * row"
  shows "length (tensor_set t (a * row) bs) = length t"
    "row_of (tensor_set t (a * row) bs) row i = (if a \<le> i \<and> i < b then row_of bs row (i - a) else row_of t row i)"
proof -
  have ab: "a * row + length bs = b * row" using assms(1,3) by (metis add_mult_distrib le_add_diff_inverse)
  then have al: "a * row \<le> length t" using assms(2) by simp
  show "length (tensor_set t (a * row) bs) = length t" using ab al assms(2) by (simp add: tensor_set_def)
  let ?t = "take (a * row) t @ bs @ drop (b * row) t"
  have t: "tensor_set t (a * row) bs = ?t" by (simp add: tensor_set_def ab)
  show "row_of (tensor_set t (a * row) bs) row i = (if a \<le> i \<and> i < b then row_of bs row (i - a) else row_of t row i)"
  proof (cases "i < a")
    case True
    then have "i * row + row \<le> a * row" by (metis add.commute mult_Suc mult_le_mono1 Suc_leI)
    then show ?thesis using True al unfolding t row_of_def by (simp add: take_drop)
  next
    case ia: False
    then have ial: "a * row \<le> i * row" by simp
    show ?thesis
    proof (cases "i < b")
      case True
      have "i * row + row \<le> b * row" using True by (metis add.commute mult_Suc mult_le_mono1 Suc_leI)
      moreover have "(i - a) * row = i * row - a * row" by (simp add: diff_mult_distrib)
      ultimately show ?thesis using True ia ial al ab unfolding t row_of_def by (simp add: take_drop)
    next
      case False
      then have "b * row \<le> i * row" by (intro mult_le_mono1) simp
      then have "length bs \<le> i * row - a * row" "i * row - (a * row + length bs) + b * row = i * row" using ab by linarith+
      then have "drop (i * row) ?t = drop (i * row) t" using al ial by (simp add: drop_append del: diff_diff_left add_diff_assoc2) (simp only: diff_diff_left)
      then show ?thesis using False ia unfolding t row_of_def by simp
    qed
  qed
qed

fun set_rows :: "byte list \<Rightarrow> nat \<Rightarrow> (nat \<times> nat) list \<Rightarrow> byte list \<Rightarrow> byte list" where
  \<comment> \<open>the rows of the ranges are replaced, one after the other\<close>
  "set_rows t row [] bs = t"
| "set_rows t row ((a, b) # rs) bs =
     set_rows (tensor_set t (a * row) (take ((b - a) * row) bs)) row rs (drop ((b - a) * row) bs)"

lemma set_rows_spec:
  assumes "distinct (expand rs)" "\<forall>(a, b) \<in> set rs. a < b \<and> b * row \<le> length t" "length bs = length (expand rs) * row"
  shows "length (set_rows t row rs bs) = length t \<and>
    (\<forall>k < length (expand rs). row_of (set_rows t row rs bs) row (expand rs ! k) = row_of bs row k) \<and>
    (\<forall>i. i \<notin> set (expand rs) \<longrightarrow> row_of (set_rows t row rs bs) row i = row_of t row i)"
  using assms
proof (induction rs arbitrary: t bs)
  case (Cons r rs)
  obtain a b where r: "r = (a, b)" by (cases r)
  let ?n = "(b - a) * row" and ?t = "tensor_set t (a * row) (take ((b - a) * row) bs)"
  have ab: "a < b" "b * row \<le> length t" using Cons.prems(2) r by auto
  have len: "length bs = ?n + length (expand rs) * row" using Cons.prems(3) r by (simp add: add_mult_distrib)
  note s = tensor_set_rows [of a b row t "take ?n bs"]
  have lt: "length ?t = length t" by (rule s(1)) (use ab len in simp_all)
  have rt: "row_of ?t row i = (if a \<le> i \<and> i < b then row_of (take ?n bs) row (i - a) else row_of t row i)" for i
    by (rule s(2)) (use ab len in simp_all)
  have IH: "length (set_rows ?t row rs (drop ?n bs)) = length ?t \<and>
    (\<forall>k < length (expand rs). row_of (set_rows ?t row rs (drop ?n bs)) row (expand rs ! k) = row_of (drop ?n bs) row k) \<and>
    (\<forall>i. i \<notin> set (expand rs) \<longrightarrow> row_of (set_rows ?t row rs (drop ?n bs)) row i = row_of ?t row i)"
    by (rule Cons.IH) (use Cons.prems r lt len in auto)
  have first: "row_of (take ?n bs) row k = row_of bs row k" if "k < b - a" for k
  proof -
    have "k * row + row \<le> ?n" using that by (metis add.commute mult_Suc mult_le_mono1 Suc_leI)
    then show ?thesis by (simp add: row_of_def take_drop)
  qed
  have later: "row_of (drop ?n bs) row k = row_of bs row (b - a + k)" for k
    by (simp add: row_of_def add_mult_distrib add.commute)
  have "row_of (set_rows t row (r # rs) bs) row (expand (r # rs) ! k) = row_of bs row k" if k: "k < length (expand (r # rs))" for k
  proof (cases "k < b - a")
    case True
    then have e: "expand (r # rs) ! k = a + k" by (simp add: r nth_append)
    moreover have "a + k \<in> {a..<b}" using True by simp
    then have "a + k \<notin> set (expand rs)" using Cons.prems(1) unfolding r expand_simps distinct_append set_upt by blast
    moreover have lt2: "a + k < b" using True ab by arith
    ultimately show ?thesis using IH rt [of "a + k"] first [OF True] lt2 by (simp add: r)
  next
    case False
    then have "expand (r # rs) ! k = expand rs ! (k - (b - a))" "k - (b - a) < length (expand rs)" using k by (simp_all add: r nth_append)
    then show ?thesis using IH later [of "k - (b - a)"] False by (simp add: r)
  qed
  moreover have "row_of (set_rows t row (r # rs) bs) row i = row_of t row i" if "i \<notin> set (expand (r # rs))" for i
  proof -
    have out: "\<not> (a \<le> i \<and> i < b)" "i \<notin> set (expand rs)" using that by (auto simp: r)
    show ?thesis using IH rt [of i, unfolded if_not_P [OF out(1)]] out(2) by (simp add: r)
  qed
  ultimately show ?case using IH lt by (simp add: r)
qed simp

lemma row_of_concat:
  assumes "\<And>i. i \<in> set I \<Longrightarrow> length (f i) = row" "k < length I"
  shows "row_of (concat (map f I)) row k = f (I ! k)"
  using assms
proof (induction I arbitrary: k)
  case (Cons i I)
  show ?case
  proof (cases k)
    case 0 then show ?thesis using Cons.prems(1) by (simp add: row_of_def)
  next
    case (Suc k')
    then have "row_of (concat (map f I)) row k' = f (I ! k')" by (intro Cons.IH) (use Cons.prems in auto)
    then show ?thesis using Suc Cons.prems(1) by (simp add: row_of_def)
  qed
qed simp

subsection \<open>Running the readers\<close>

named_theorems io_run \<open>readers on bytes that a writer wrote\<close>

abbreviation (input) rd :: "byte list \<Rightarrow> 'st \<Rightarrow> 'st io_in" where
  "rd bs st \<equiv> \<lparr>in_bytes = bs, in_st = st\<rparr>"

lemma io_bind_run [io_run]:
  "io_bind (io_ret x) f = f x" "io_bind (io_bind m g) f = io_bind m (\<lambda>x. io_bind (g x) f)"
  "io_bind io_get h (rd bs st) = h st (rd bs st)" "io_bind (io_put st') u (rd bs st) = u () (rd bs st')"
  "io_bind (io_upd k) u (rd bs st) = u () (rd bs (k st))"
  "io_bind (io_stop e) f = io_stop e"
  by (auto simp: io_bind_def io_ret_def io_get_def io_put_def io_upd_def io_stop_def fun_eq_iff split: prod.splits sum.splits)

lemma io_bind_Inr: "m r = (Inr x, r') \<Longrightarrow> io_bind m f r = f x r'"
  by (simp add: io_bind_def)

lemma io_read_run [io_run]: "length bs = n \<Longrightarrow> io_bind (io_read n) f (rd (bs @ zs) st) = f bs (rd zs st)"
  by (simp add: io_bind_def io_read_def)

lemma io_int_run [io_run]:
  "x < 2 ^ 32 \<Longrightarrow> io_bind io_u32 f (rd (u32_out x @ bs) st) = f x (rd bs st)"
  "x < 2 ^ 64 \<Longrightarrow> io_bind io_u64 f (rd (u64_out x @ bs) st) = f x (rd bs st)"
  "i32_ok y \<Longrightarrow> io_bind io_i32 g (rd (i32_out y @ bs) st) = g y (rd bs st)"
  by (simp_all add: io_u32_def io_u64_def io_i32_def io_run u32_in_out u64_in_out i32_in_out)

lemma io_while_append: "io_while f (xs @ ys) = io_bind (io_while f xs) (\<lambda>_. io_while f ys)"
  by (induction xs) (simp_all add: io_run)

lemma io_loop_chunks:
  \<comment> \<open>every round reads what the writer wrote for it\<close>
  assumes "P 0 st s" and "\<And>i st s bs. i < n \<Longrightarrow> P i st s \<Longrightarrow> \<exists>st' s'. f i s (rd (chunk i @ bs) st) = (Inr (True, s'), rd bs st') \<and> P (Suc i) st' s'"
  shows "\<exists>st' s'. io_loop f [0..<n] s (rd (concat (map chunk [0..<n]) @ bs) st) = (Inr (True, s'), rd bs st') \<and> P n st' s'"
proof -
  have "\<exists>st' s'. io_loop f [k..<n] s (rd (concat (map chunk [k..<n]) @ bs) st) = (Inr (True, s'), rd bs st') \<and> P n st' s'"
    if "k \<le> n" "P k st s" for k st s
    using that
  proof (induction "n - k" arbitrary: k st s)
    case 0
    then show ?case by (simp add: io_ret_def)
  next
    case (Suc d)
    then have kn: "k < n" by simp
    obtain st1 s1 where r: "f k s (rd (chunk k @ concat (map chunk [Suc k..<n]) @ bs) st) =
        (Inr (True, s1), rd (concat (map chunk [Suc k..<n]) @ bs) st1)" "P (Suc k) st1 s1"
      using assms(2) [OF kn Suc.prems(2)] by blast
    have "\<exists>st' s'. io_loop f [Suc k..<n] s1 (rd (concat (map chunk [Suc k..<n]) @ bs) st1) = (Inr (True, s'), rd bs st') \<and> P n st' s'"
      by (rule Suc.hyps(1)) (use Suc.hyps(2) kn r(2) in simp_all)
    then show ?case using kn r(1) by (simp add: upt_conv_Cons io_bind_Inr)
  qed
  from this [of 0 st s] show ?thesis using assms(1) by simp
qed

definition upd_laws :: "((byte list \<Rightarrow> byte list) \<Rightarrow> 'st \<Rightarrow> 'st) \<Rightarrow> bool" where
  "upd_laws upd \<longleftrightarrow> (\<forall>f g st. upd f (upd g st) = upd (\<lambda>t. f (g t)) st) \<and> (\<forall>st. upd (\<lambda>t. t) st = st)"

lemma read_rows_run:
  assumes "upd_laws upd" "\<forall>(a, b) \<in> set rs. a < b" "length bs = length (expand rs) * row"
  shows "read_rows upd row rs (rd (bs @ zs) st) = (Inr (), rd zs (upd (\<lambda>t. set_rows t row rs bs) st))"
  using assms(2,3)
proof (induction rs arbitrary: bs st)
  case Nil
  then show ?case using assms(1) by (simp add: read_rows_def upd_laws_def io_ret_def)
next
  case (Cons r rs)
  obtain a b where r: "r = (a, b)" by (cases r)
  let ?n = "(b - a) * row"
  have len: "length bs = ?n + length (expand rs) * row" using Cons.prems(2) r by (simp add: add_mult_distrib)
  have bs: "bs @ zs = take ?n bs @ drop ?n bs @ zs" by simp
  have "read_rows upd row (r # rs) (rd (bs @ zs) st) =
      read_rows upd row rs (rd (drop ?n bs @ zs) (upd (\<lambda>t. tensor_set t (a * row) (take ?n bs)) st))"
    unfolding bs using len by (simp add: read_rows_def r io_run)
  also have "\<dots> = (Inr (), rd zs (upd (\<lambda>t. set_rows t row rs (drop ?n bs)) (upd (\<lambda>t. tensor_set t (a * row) (take ?n bs)) st)))"
    by (rule Cons.IH) (use Cons.prems(1) len in auto)
  finally show ?case using assms(1) by (simp add: upd_laws_def r)
qed

lemma read_rows_while:
  "io_while (\<lambda>j. read_rows upd row (g j)) js = read_rows upd row (concat (map g js))"
  by (induction js) (simp_all add: read_rows_def io_while_append)

lemma expand_shift: "expand (shift_ranges d rs) = map (\<lambda>i. i + d) (expand rs)"
proof (induction rs)
  case (Cons r rs)
  have "map (\<lambda>i. i + d) [a..<b] = [a + d..<b + d]" for a b by (induction b) auto
  then show ?case using Cons by (cases r) (simp add: shift_ranges_def)
qed (simp add: shift_ranges_def)

lemma expand_concat: "expand (concat xss) = concat (map expand xss)"
  by (induction xss) simp_all

subsection \<open>Copying rows\<close>

definition in_ranges :: "nat \<Rightarrow> (nat \<times> nat) list \<Rightarrow> bool" where
  "in_ranges n rs \<longleftrightarrow> (\<forall>(a, b) \<in> set rs. a < b \<and> b \<le> n)"

lemma in_rangesD: "in_ranges n rs \<Longrightarrow> n * row \<le> m \<Longrightarrow> \<forall>(a, b) \<in> set rs. a < b \<and> b * row \<le> m"
proof clarify
  fix a b assume r: "in_ranges n rs" "n * row \<le> m" "(a, b) \<in> set rs"
  then have "a < b" "b \<le> n" unfolding in_ranges_def by blast+
  then show "a < b \<and> b * row \<le> m" using mult_le_mono1 [of b n row] r(2) by linarith
qed

lemma in_ranges_less: "in_ranges n rs \<Longrightarrow> i \<in> set (expand rs) \<Longrightarrow> i < n"
  unfolding in_ranges_def by (induction rs) auto

lemma write_rows_length:
  assumes "in_ranges n rs" "n * row \<le> length t"
  shows "length (write_rows t row rs) = length (expand rs) * row"
proof -
  have "length (row_of t row i) = row" if "i \<in> set (expand rs)" for i
    by (rule length_row) (use in_ranges_less [OF assms(1) that] assms(2) mult_le_mono1 [of "i + 1" n row] in linarith)
  then show ?thesis unfolding write_rows_eq [OF in_rangesD [OF assms]]
    by (simp add: length_concat comp_def sum_list_triv cong: map_cong)
qed

lemma rows_copied:
  assumes "in_ranges n0 rs0" "n0 * row \<le> length t0" "in_ranges n rs" "n * row \<le> length t" "distinct (expand rs)"
    and "length (expand rs) = length (expand rs0)"
  shows "length (set_rows t row rs (write_rows t0 row rs0)) = length t"
    "k < length (expand rs) \<Longrightarrow> row_of (set_rows t row rs (write_rows t0 row rs0)) row (expand rs ! k) = row_of t0 row (expand rs0 ! k)"
    "i \<notin> set (expand rs) \<Longrightarrow> row_of (set_rows t row rs (write_rows t0 row rs0)) row i = row_of t row i"
proof -
  have len: "length (write_rows t0 row rs0) = length (expand rs) * row" using write_rows_length [OF assms(1,2)] assms(6) by simp
  note s = set_rows_spec [OF assms(5) in_rangesD [OF assms(3,4)] len]
  show "length (set_rows t row rs (write_rows t0 row rs0)) = length t"
    "i \<notin> set (expand rs) \<Longrightarrow> row_of (set_rows t row rs (write_rows t0 row rs0)) row i = row_of t row i" using s by blast+
  show "row_of (set_rows t row rs (write_rows t0 row rs0)) row (expand rs ! k) = row_of t0 row (expand rs0 ! k)" if k: "k < length (expand rs)"
  proof -
    have "row_of (write_rows t0 row rs0) row k = row_of t0 row (expand rs0 ! k)"
      unfolding write_rows_eq [OF in_rangesD [OF assms(1,2)]]
    proof (rule row_of_concat)
      show "length (row_of t0 row i) = row" if "i \<in> set (expand rs0)" for i
        by (rule length_row) (use in_ranges_less [OF assms(1) that] assms(2) mult_le_mono1 [of "i + 1" n0 row] in linarith)
      show "k < length (expand rs0)" using k assms(6) by simp
    qed
    then show ?thesis using s k by simp
  qed
qed

end
