(* ===== verification/RecState.thy ===== *)
theory RecState
  imports Recurrent StateIo
begin

text \<open>
  Saving and restoring a recurrent memory: \<open>state_write\<close> and \<open>state_read\<close> of \<open>src/llama-memory-recurrent.cpp\<close>.
  A tensor has a row for every cell, and after them the rows of the snapshots a rollback goes back to. Row sizes and
  types, which the source gets from ggml and the model, are fields of the tensor. The branch for a transposed \<open>s\<close> is
  dead code: \<open>s_trans\<close> is the constant 0.
\<close>

subsection \<open>State\<close>

record rs_tensor =
  rt_type :: int
  rt_row :: nat
  rt_data :: "byte list"

record rs_layer =
  rl_r :: "rs_tensor option" \<comment> \<open>\<open>None\<close>: no tensor\<close>
  rl_p :: "rs_tensor option"
  rl_s :: "rs_tensor option"

record rs_store =
  rt_mem :: rs_memory
  rt_n_pos :: nat \<comment> \<open>\<open>hparams.n_pos_per_embd()\<close>\<close>
  rt_layers :: "rs_layer list"

subsection \<open>Writing\<close>

fun same_rs_idx :: "nat list \<Rightarrow> int list \<Rightarrow> nat option \<Rightarrow> nat option option" where
  \<comment> \<open>the loop over the sequences of a cell, with \<open>rs_idx_cur\<close> once there is one\<close>
  "same_rs_idx idx [] cur = Some cur"
| "same_rs_idx idx (q # qs) cur =
     (if q < 0 \<or> nat q \<ge> length idx then None
      else case cur of None \<Rightarrow> same_rs_idx idx qs (Some (idx ! nat q))
        | Some k \<Rightarrow> if k \<noteq> idx ! nat q then None else same_rs_idx idx qs cur)"

definition rs_write_idx :: "rs_memory \<Rightarrow> int \<Rightarrow> mem_cell \<Rightarrow> nat option" where
  "rs_write_idx m seq_id c =
     (if rm_n_rs_seq m = 0 then Some 0
      else if seq_id \<noteq> -1
      then (if 0 \<le> seq_id \<and> nat seq_id < length (rm_rs_idx m) then Some (rm_rs_idx m ! nat seq_id) else None)
      else map_option (\<lambda>cur. case cur of None \<Rightarrow> 0 | Some k \<Rightarrow> k) (same_rs_idx (rm_rs_idx m) (sorted_list_of_set (rc_seq c)) None))"

definition rs_picked :: "rs_memory \<Rightarrow> int \<Rightarrow> nat \<Rightarrow> bool" where
  "rs_picked m seq_id i = (seq_id = -1 \<and> rc_seq (rs_cell m i) \<noteq> {} \<or> seq_id \<in> rc_seq (rs_cell m i))"

definition add_data_row :: "nat \<Rightarrow> (nat \<times> nat) list \<Rightarrow> (nat \<times> nat) list" where
  "add_data_row k rs = (if rs = [] \<or> snd (last rs) \<noteq> k then rs @ [(k, k + 1)] else butlast rs @ [(fst (last rs), snd (last rs) + 1)])"

definition rs_data_cell :: "rs_memory \<Rightarrow> int \<Rightarrow> nat \<Rightarrow> (nat \<times> nat) list \<Rightarrow> (nat \<times> nat) list option" where
  "rs_data_cell m seq_id i rs =
     (if rs_picked m seq_id i
      then map_option (\<lambda>idx. add_data_row (idx * rs_size m + (if rc_src (rs_cell m i) \<ge> 0 then nat (rc_src (rs_cell m i)) else i)) rs)
             (rs_write_idx m seq_id (rs_cell m i))
      else Some rs)"

definition rs_write_cell :: "rs_memory \<Rightarrow> int \<Rightarrow> nat \<Rightarrow> byte list" where
  "rs_write_cell m seq_id i =
     (let c = rs_cell m i; qs = (if seq_id = -1 then sorted_list_of_set (rc_seq c) else []) in
      i32_out (rc_pos c) @ u32_out (length qs) @ concat (map i32_out qs))"

definition rs_state_write_meta :: "rs_memory \<Rightarrow> (nat \<times> nat) list \<Rightarrow> int \<Rightarrow> byte list" where
  "rs_state_write_meta m cr seq_id = concat (map (\<lambda>(a, b). concat (map (rs_write_cell m seq_id) [a..<b])) cr)"

definition write_r :: "(nat \<times> nat) list \<Rightarrow> rs_layer \<Rightarrow> byte list" where
  "write_r rs l = (case rl_r l of None \<Rightarrow> []
     | Some t \<Rightarrow> i32_out (rt_type t) @ u64_out (rt_row t) @ write_rows (rt_data t) (rt_row t) rs @
         (case rl_p l of None \<Rightarrow> [] | Some p \<Rightarrow> u64_out (rt_row p) @ write_rows (rt_data p) (rt_row p) rs))"

definition write_s :: "(nat \<times> nat) list \<Rightarrow> rs_layer \<Rightarrow> byte list" where
  "write_s rs l = (case rl_s l of None \<Rightarrow> []
     | Some t \<Rightarrow> i32_out (rt_type t) @ u64_out (rt_row t) @ write_rows (rt_data t) (rt_row t) rs)"

definition rs_state_write_data :: "rs_store \<Rightarrow> (nat \<times> nat) list \<Rightarrow> byte list" where
  "rs_state_write_data st rs =
     u32_out 0 @ u32_out (length (rt_layers st)) @ concat (map (write_r rs) (rt_layers st)) @ concat (map (write_s rs) (rt_layers st))"

definition rs_state_write :: "bool \<Rightarrow> int \<Rightarrow> rs_store \<Rightarrow> byte list option" where
  "rs_state_write on_device seq_id st =
     (let m = rt_mem st; (cr, cell_count) = cell_ranges (rs_picked m seq_id) (rs_size m) in
      case fold_opt (rs_data_cell m seq_id) [0..<rs_size m] [] of None \<Rightarrow> None
      | Some rs \<Rightarrow>
          if on_device \<and> length cr > 1 then None
          else if cell_count \<noteq> sum_list (map (\<lambda>(a, b). b - a) cr) \<or> cell_count \<noteq> sum_list (map (\<lambda>(a, b). b - a) rs) then None
          else Some (u32_out cell_count @ rs_state_write_meta m cr seq_id @ rs_state_write_data st rs))"

subsection \<open>Reading\<close>

type_synonym 'a rs_reader = "(rs_store, 'a) io_reader"

definition on_mem :: "(rs_memory \<Rightarrow> rs_memory) \<Rightarrow> unit rs_reader" where
  "on_mem f = io_upd (\<lambda>st. st\<lparr>rt_mem := f (rt_mem st)\<rparr>)"

definition lift_mem :: "(rs_memory \<Rightarrow> (rs_memory \<times> 'a) option) \<Rightarrow> 'a rs_reader" where
  "lift_mem f = io_bind io_get (\<lambda>st. case f (rt_mem st) of None \<Rightarrow> io_stop IoAbort
     | Some (m, x) \<Rightarrow> io_bind (io_put (st\<lparr>rt_mem := m\<rparr>)) (\<lambda>_. io_ret x))"

definition rs_read_pos :: "nat \<Rightarrow> llama_pos list \<Rightarrow> (bool \<times> llama_pos list) rs_reader" where
  "rs_read_pos i ps = io_bind io_i32 (\<lambda>pos. io_bind io_u32 (\<lambda>n_seq_id.
     if n_seq_id \<noteq> 0 then io_ret (False, ps) else io_ret (True, ps[i := pos])))"

definition rs_block_ok :: "nat \<Rightarrow> int \<Rightarrow> llama_ubatch \<Rightarrow> rs_memory \<Rightarrow> bool" where
  \<comment> \<open>the assertions after \<open>find_slot\<close>\<close>
  "rs_block_ok n dest ub m \<longleftrightarrow> rm_head m + n \<le> rs_size m \<and>
     (\<forall>k \<in> {0, n - 1}. rc_pos (rs_cell m (rm_head m + k)) = ub_pos ub ! k \<and> dest \<in> rc_seq (rs_cell m (rm_head m + k)))"

definition rs_read_meta_seq :: "nat \<Rightarrow> int \<Rightarrow> bool rs_reader" where
  "rs_read_meta_seq n dest =
     io_bind (lift_mem (rs_seq_rm dest (-1) (-1))) (\<lambda>_.
     if n = 0 then io_ret True
     else io_bind io_get (\<lambda>st.
       let ub = snd (ubatch_reserve n 1 (allocr_new (rt_n_pos st))) in
       io_bind (io_loop rs_read_pos [0..<n] (ub_pos ub)) (\<lambda>(ok, ps).
       if \<not> ok then io_ret False
       else let ub = ub\<lparr>ub_pos := ps, ub_n_seq_id := (ub_n_seq_id ub)[0 := 1], ub_seq_id := (ub_seq_id ub)[0 := [dest]]\<rparr> in
         io_bind (lift_mem (rs_find_slot ub)) (\<lambda>ok.
         if \<not> ok then io_ret False
         else io_bind io_get (\<lambda>st. if \<not> rs_block_ok n dest ub (rt_mem st) then io_stop IoAbort else io_ret True)))))"

definition rs_read_seq_id :: "nat \<Rightarrow> nat \<Rightarrow> unit \<Rightarrow> (bool \<times> unit) rs_reader" where
  \<comment> \<open>a sequence without a cell of its number is an access out of bounds\<close>
  "rs_read_seq_id i j u = io_bind io_i32 (\<lambda>q. io_bind io_get (\<lambda>st.
     if q < 0 \<or> nat q \<ge> rm_n_seq_max (rt_mem st) then io_ret (False, ())
     else io_bind (on_mem (rs_upd i (\<lambda>c. c\<lparr>rc_seq := insert q (rc_seq c)\<rparr>))) (\<lambda>_.
       if nat q \<ge> rs_size (rt_mem st) then io_stop IoAbort
       else if rc_tail (rs_cell (rt_mem st) (nat q)) \<noteq> -1 then io_ret (False, ())
       else io_bind (on_mem (rs_upd (nat q) (\<lambda>c. c\<lparr>rc_tail := int i\<rparr>))) (\<lambda>_. io_ret (True, ())))))"

definition rs_read_cell :: "nat \<Rightarrow> unit \<Rightarrow> (bool \<times> unit) rs_reader" where
  "rs_read_cell i u = io_bind io_i32 (\<lambda>pos. io_bind io_u32 (\<lambda>n_seq_id.
     io_bind (on_mem (rs_upd i (\<lambda>c. c\<lparr>rc_pos := pos\<rparr>))) (\<lambda>_. io_loop (rs_read_seq_id i) [0..<n_seq_id] ())))"

definition rs_zero :: "rs_layer \<Rightarrow> rs_layer" where
  "rs_zero l = (let z = map_option (\<lambda>t. t\<lparr>rt_data := replicate (length (rt_data t)) 0\<rparr>) in
     \<lparr>rl_r = z (rl_r l), rl_p = z (rl_p l), rl_s = z (rl_s l)\<rparr>)"

definition rs_clear_data :: "rs_store \<Rightarrow> rs_store" where
  \<comment> \<open>\<open>clear(true)\<close>\<close>
  "rs_clear_data st = st\<lparr>rt_mem := rs_clear (rt_mem st), rt_layers := map rs_zero (rt_layers st)\<rparr>"

definition rs_read_meta_all :: "nat \<Rightarrow> bool rs_reader" where
  "rs_read_meta_all n = io_bind io_get (\<lambda>st.
     if n > rs_size (rt_mem st) then io_ret False
     else io_bind (io_upd rs_clear_data) (\<lambda>_. io_bind (io_loop rs_read_cell [0..<n] ()) (\<lambda>(ok, _).
       if \<not> ok then io_ret False
       else io_bind (on_mem (\<lambda>m. m\<lparr>rm_head := 0, rm_used := n\<rparr>)) (\<lambda>_. io_ret True))))"

definition rs_keep_rows :: "nat \<Rightarrow> rs_memory \<Rightarrow> rs_memory" where
  \<comment> \<open>the restored cells have their state in their own row\<close>
  "rs_keep_rows n m = fold (\<lambda>i. rs_upd (rm_head m + i) (\<lambda>c. c\<lparr>rc_src := int (rm_head m + i)\<rparr>)) [0..<n] m"

definition rs_state_read_meta :: "nat \<Rightarrow> int \<Rightarrow> bool rs_reader" where
  "rs_state_read_meta n dest = io_bind (if dest \<noteq> -1 then rs_read_meta_seq n dest else rs_read_meta_all n) (\<lambda>ok.
     if \<not> ok then io_ret False else io_bind (on_mem (rs_keep_rows n)) (\<lambda>_. io_ret True))"

definition tensor_upd :: "rs_tensor option \<Rightarrow> nat \<Rightarrow> byte list \<Rightarrow> rs_tensor option" where
  "tensor_upd t off bs = map_option (\<lambda>t. t\<lparr>rt_data := tensor_set (rt_data t) off bs\<rparr>) t"

definition upd_layer :: "nat \<Rightarrow> (rs_layer \<Rightarrow> rs_layer) \<Rightarrow> rs_store \<Rightarrow> rs_store" where
  "upd_layer il f st = st\<lparr>rt_layers := (rt_layers st)[il := f (rt_layers st ! il)]\<rparr>"

definition read_block :: "(rs_layer \<Rightarrow> rs_tensor option) \<Rightarrow> ((rs_tensor option \<Rightarrow> rs_tensor option) \<Rightarrow> rs_layer \<Rightarrow> rs_layer) \<Rightarrow> nat \<Rightarrow> nat \<Rightarrow> nat \<Rightarrow> bool rs_reader" where
  \<comment> \<open>row size and rows of one tensor; \<open>get\<close> and \<open>upd\<close> say which\<close>
  "read_block get upd n h il = io_bind io_get (\<lambda>st. let row = rt_row (the (get (rt_layers st ! il))) in
     io_bind io_u64 (\<lambda>row_ref. if row \<noteq> row_ref then io_ret False
     else if n = 0 then io_ret True
     else io_bind (io_read (n * row)) (\<lambda>bs. io_bind (io_upd (upd_layer il (upd (\<lambda>t. tensor_upd t (h * row) bs)))) (\<lambda>_. io_ret True))))"

definition read_r :: "nat \<Rightarrow> nat \<Rightarrow> nat \<Rightarrow> unit \<Rightarrow> (bool \<times> unit) rs_reader" where
  "read_r n h il u = io_bind io_get (\<lambda>st. let l = rt_layers st ! il in
     case rl_r l of None \<Rightarrow> io_ret (True, ())
     | Some t \<Rightarrow> io_bind io_i32 (\<lambda>ty. if rt_type t \<noteq> ty then io_ret (False, ())
         else io_bind (read_block rl_r rl_r_update n h il) (\<lambda>ok.
           if \<not> ok then io_ret (False, ())
           else if rl_p l = None then io_ret (True, ())
           else io_bind (read_block rl_p rl_p_update n h il) (\<lambda>ok. io_ret (ok, ())))))"

definition read_s :: "nat \<Rightarrow> nat \<Rightarrow> nat \<Rightarrow> unit \<Rightarrow> (bool \<times> unit) rs_reader" where
  "read_s n h il u = io_bind io_get (\<lambda>st. let l = rt_layers st ! il in
     case rl_s l of None \<Rightarrow> io_ret (True, ())
     | Some t \<Rightarrow> io_bind io_i32 (\<lambda>ty. if rt_type t \<noteq> ty then io_ret (False, ())
         else io_bind (read_block rl_s rl_s_update n h il) (\<lambda>ok. io_ret (ok, ()))))"

definition rs_state_read_data :: "nat \<Rightarrow> bool rs_reader" where
  "rs_state_read_data n = io_bind io_u32 (\<lambda>s_trans. io_bind io_u32 (\<lambda>n_layer. io_bind io_get (\<lambda>st.
     let n_l = length (rt_layers st); h = rm_head (rt_mem st) in
     if n_layer \<noteq> n_l \<or> n > rs_size (rt_mem st) \<or> s_trans \<noteq> 0 then io_ret False
     else io_bind (io_loop (read_r n h) [0..<n_l] ()) (\<lambda>(ok, _).
       if \<not> ok then io_ret False
       else io_bind (io_loop (read_s n h) [0..<n_l] ()) (\<lambda>(ok, _). io_ret ok)))))"

definition rs_read_failed :: "int \<Rightarrow> unit rs_reader" where
  "rs_read_failed seq_id = io_bind
     (if seq_id = -1 then io_upd rs_clear_data
      else io_bind (lift_mem (rs_seq_rm seq_id (-1) (-1))) (\<lambda>_. io_ret ())) (\<lambda>_. io_stop IoThrow)"

definition rs_state_read :: "int \<Rightarrow> unit rs_reader" where
  "rs_state_read seq_id = io_bind io_u32 (\<lambda>cell_count.
     io_bind (rs_state_read_meta cell_count seq_id) (\<lambda>ok.
     io_bind (io_catch (if ok then rs_state_read_data cell_count else io_ret False)) (\<lambda>res.
     if \<not> res then rs_read_failed seq_id
     else io_bind io_get (\<lambda>st.
       if rm_n_rs_seq (rt_mem st) \<noteq> 0
       then lift_mem (\<lambda>m. map_option (\<lambda>m. (m, ())) (set_rs_idx seq_id 0 m))
       else io_ret ()))))"

subsection \<open>Rows of tensors\<close>

definition tensor_row :: "nat \<Rightarrow> rs_tensor \<Rightarrow> byte list" where
  "tensor_row k t = row_of (rt_data t) (rt_row t) k"

definition tensor_ok :: "nat \<Rightarrow> rs_tensor option \<Rightarrow> bool" where
  \<comment> \<open>room for \<open>n\<close> rows, and numbers that fit their types\<close>
  "tensor_ok n t \<longleftrightarrow> (\<forall>t'. t = Some t' \<longrightarrow> i32_ok (rt_type t') \<and> rt_row t' < 2 ^ 64 \<and> n * rt_row t' \<le> length (rt_data t'))"

definition tensor_like :: "rs_tensor option \<Rightarrow> rs_tensor option \<Rightarrow> bool" where
  "tensor_like t0 t \<longleftrightarrow> (case (t0, t) of (None, None) \<Rightarrow> True
     | (Some t0, Some t) \<Rightarrow> rt_type t = rt_type t0 \<and> rt_row t = rt_row t0 | _ \<Rightarrow> False)"

definition copied :: "(nat \<times> nat) list \<Rightarrow> nat \<Rightarrow> rs_tensor option \<Rightarrow> rs_tensor option \<Rightarrow> rs_tensor option" where
  \<comment> \<open>the rows of the ranges, one after the other from row \<open>h\<close> on\<close>
  "copied rs h t0 t = (case t0 of None \<Rightarrow> t | Some t' \<Rightarrow> tensor_upd t (h * rt_row t') (write_rows (rt_data t') (rt_row t') rs))"

lemma copied_none [simp]: "copied rs h None t = t"
  by (simp add: copied_def)

lemma tensor_set_nil [simp]: "tensor_set t off [] = t"
  by (simp add: tensor_set_def)

lemma copied_nil: "copied [] h t0 t = t"
  by (cases t) (auto simp: copied_def tensor_upd_def write_rows_def split: option.splits)

lemma copied_like: "tensor_like t0 t \<Longrightarrow> tensor_like t0' t \<Longrightarrow> tensor_like t0' (copied rs h t0 t)"
  by (auto simp: tensor_like_def copied_def tensor_upd_def split: option.splits)

lemma copied_rows:
  assumes "tensor_like (Some t0) t" "tensor_ok n0 (Some t0)" "tensor_ok n t" "in_ranges n0 rs" "h + length (expand rs) \<le> n"
  shows "\<exists>t'. copied rs h (Some t0) t = Some t' \<and> rt_type t' = rt_type (the t) \<and> rt_row t' = rt_row t0 \<and> length (rt_data t') = length (rt_data (the t)) \<and>
    (\<forall>i. tensor_row i t' = (if h \<le> i \<and> i < h + length (expand rs) then tensor_row (expand rs ! (i - h)) t0 else tensor_row i (the t)))"
proof -
  obtain t1 where t: "t = Some t1" "rt_row t1 = rt_row t0" using assms(1) by (auto simp: tensor_like_def split: option.splits)
  let ?row = "rt_row t0" and ?bs = "write_rows (rt_data t0) (rt_row t0) rs" and ?n = "length (expand rs)"
  have f0: "n0 * ?row \<le> length (rt_data t0)" using assms(2) by (simp add: tensor_ok_def)
  have f1: "(h + ?n) * ?row \<le> length (rt_data t1)"
  proof -
    have "(h + ?n) * ?row \<le> n * ?row" by (rule mult_le_mono1 [OF assms(5)])
    also have "\<dots> \<le> length (rt_data t1)" using assms(3) t by (simp add: tensor_ok_def)
    finally show ?thesis .
  qed
  have len: "length ?bs = ?n * ?row" by (rule write_rows_length [OF assms(4) f0])
  have rows: "row_of ?bs ?row k = row_of (rt_data t0) ?row (expand rs ! k)" if "k < ?n" for k
    unfolding write_rows_eq [OF in_rangesD [OF assms(4) f0]]
  proof (rule row_of_concat)
    show "length (row_of (rt_data t0) ?row i) = ?row" if "i \<in> set (expand rs)" for i
      by (rule length_row) (use in_ranges_less [OF assms(4) that] f0 mult_le_mono1 [of "i + 1" n0 ?row] in linarith)
  qed (rule that)
  note s = tensor_set_rows [of h "h + ?n" ?row "rt_data t1" ?bs, OF _ f1]
  have s1: "length (tensor_set (rt_data t1) (h * ?row) ?bs) = length (rt_data t1)" by (rule s(1)) (simp_all add: len)
  have s2: "row_of (tensor_set (rt_data t1) (h * ?row) ?bs) ?row i = (if h \<le> i \<and> i < h + ?n then row_of ?bs ?row (i - h) else row_of (rt_data t1) ?row i)" for i
    by (rule s(2)) (simp_all add: len)
  show ?thesis using t s1 s2 rows by (auto simp: copied_def tensor_upd_def tensor_row_def)
qed

definition rs_layer_ok :: "nat \<Rightarrow> rs_layer \<Rightarrow> bool" where
  "rs_layer_ok n l \<longleftrightarrow> tensor_ok n (rl_r l) \<and> tensor_ok n (rl_p l) \<and> tensor_ok n (rl_s l) \<and> (rl_r l = None \<longrightarrow> rl_p l = None)"

definition rs_layer_like :: "rs_layer \<Rightarrow> rs_layer \<Rightarrow> bool" where
  "rs_layer_like l0 l \<longleftrightarrow> tensor_like (rl_r l0) (rl_r l) \<and> tensor_like (rl_p l0) (rl_p l) \<and> tensor_like (rl_s l0) (rl_s l)"

definition copy_r :: "(nat \<times> nat) list \<Rightarrow> nat \<Rightarrow> rs_layer \<Rightarrow> rs_layer \<Rightarrow> rs_layer" where
  "copy_r rs h l0 l = l\<lparr>rl_r := copied rs h (rl_r l0) (rl_r l), rl_p := copied rs h (rl_p l0) (rl_p l)\<rparr>"

definition copy_s :: "(nat \<times> nat) list \<Rightarrow> nat \<Rightarrow> rs_layer \<Rightarrow> rs_layer \<Rightarrow> rs_layer" where
  "copy_s rs h l0 l = l\<lparr>rl_s := copied rs h (rl_s l0) (rl_s l)\<rparr>"

lemma upd_layer_comp: "upd_layer il f (upd_layer il g st) = upd_layer il (\<lambda>l. f (g l)) st"
  by (cases "il < length (rt_layers st)") (simp_all add: upd_layer_def list_update_beyond)

lemma upd_layer_id: "upd_layer il (\<lambda>l. l) st = st"
  by (simp add: upd_layer_def)

lemma upd_layer_nth: "il < length (rt_layers st) \<Longrightarrow> rt_layers (upd_layer il f st) ! il = f (rt_layers st ! il)"
  by (simp add: upd_layer_def)

lemma read_block_run:
  assumes "il < length (rt_layers st)" "get (rt_layers st ! il) = Some t" "rt_row t = rt_row t0" "rt_row t0 < 2 ^ 64" "length (expand rs) = n"
    and "length (write_rows (rt_data t0) (rt_row t0) rs) = n * rt_row t0" "upd (\<lambda>t. t) = (\<lambda>l. l)"
  shows "read_block get upd n h il (rd (u64_out (rt_row t0) @ write_rows (rt_data t0) (rt_row t0) rs @ zs) st) =
    (Inr True, rd zs (upd_layer il (upd (copied rs h (Some t0))) st))"
proof (cases "n = 0")
  case True
  then have w: "write_rows (rt_data t0) (rt_row t0) rs = []" using assms(6) by simp
  then have "copied rs h (Some t0) t' = t'" for t' by (cases t') (auto simp: copied_def tensor_upd_def)
  then have "copied rs h (Some t0) = (\<lambda>t. t)" by (simp add: fun_eq_iff)
  then show ?thesis using assms True w by (simp add: read_block_def Let_def io_run io_ret_def upd_layer_id)
next
  case False
  have "copied rs h (Some t0) = (\<lambda>t. tensor_upd t (h * rt_row t0) (write_rows (rt_data t0) (rt_row t0) rs))" by (simp add: fun_eq_iff copied_def)
  then show ?thesis using assms False by (simp add: read_block_def Let_def io_run io_ret_def)
qed

lemma rows_length: "tensor_ok n0 (Some t0) \<Longrightarrow> in_ranges n0 rs \<Longrightarrow> length (write_rows (rt_data t0) (rt_row t0) rs) = length (expand rs) * rt_row t0"
  by (intro write_rows_length) (auto simp: tensor_ok_def)

lemma read_r_run:
  assumes "il < length (rt_layers st)" "rs_layer_like l0 (rt_layers st ! il)" "rs_layer_ok n0 l0" "in_ranges n0 rs" "length (expand rs) = n"
  shows "read_r n h il () (rd (write_r rs l0 @ zs) st) = (Inr (True, ()), rd zs (upd_layer il (copy_r rs h l0) st))"
proof (cases "rl_r l0")
  case None
  then have "rl_p l0 = None" "rl_r (rt_layers st ! il) = None" using assms(2,3) by (auto simp: rs_layer_ok_def rs_layer_like_def tensor_like_def split: option.splits)
  then have "copy_r rs h l0 = (\<lambda>l. l)" using None by (simp add: copy_r_def fun_eq_iff)
  then show ?thesis using None \<open>rl_r (rt_layers st ! il) = None\<close> by (simp add: read_r_def write_r_def io_run io_ret_def upd_layer_id)
next
  case (Some t0)
  then obtain t where t: "rl_r (rt_layers st ! il) = Some t" "rt_type t = rt_type t0" "rt_row t = rt_row t0"
    using assms(2) by (auto simp: rs_layer_like_def tensor_like_def split: option.splits)
  have ok: "tensor_ok n0 (Some t0)" "i32_ok (rt_type t0)" "rt_row t0 < 2 ^ 64" using assms(3) Some by (auto simp: rs_layer_ok_def tensor_ok_def)
  define st1 where "st1 = upd_layer il (rl_r_update (copied rs h (Some t0))) st"
  have b1: "io_bind (read_block rl_r rl_r_update n h il) f (rd (u64_out (rt_row t0) @ write_rows (rt_data t0) (rt_row t0) rs @ ys) st) = f True (rd ys st1)"
    for ys and f :: "bool \<Rightarrow> (bool \<times> unit) rs_reader"
    unfolding st1_def by (rule io_bind_Inr, rule read_block_run [where get = rl_r, OF assms(1) t(1,3) ok(3) assms(5)]) (use rows_length [OF ok(1) assms(4)] assms(5) in \<open>simp_all add: fun_eq_iff\<close>)
  show ?thesis
  proof (cases "rl_p l0")
    case None
    then have p: "rl_p (rt_layers st ! il) = None" using assms(2) by (auto simp: rs_layer_like_def tensor_like_def split: option.splits)
    have "copy_r rs h l0 = rl_r_update (copied rs h (Some t0))" using Some None by (simp add: copy_r_def fun_eq_iff)
    then show ?thesis using Some None t ok p by (simp add: read_r_def write_r_def Let_def io_run b1 io_ret_def st1_def)
  next
    case p0: (Some p0)
    then obtain p where p: "rl_p (rt_layers st ! il) = Some p" "rt_row p = rt_row p0"
      using assms(2) by (auto simp: rs_layer_like_def tensor_like_def split: option.splits)
    have pok: "tensor_ok n0 (Some p0)" "rt_row p0 < 2 ^ 64" using assms(3) p0 by (auto simp: rs_layer_ok_def tensor_ok_def)
    have l1: "il < length (rt_layers st1)" "rl_p (rt_layers st1 ! il) = Some p" using assms(1) p by (simp_all add: st1_def upd_layer_def)
    have b2: "io_bind (read_block rl_p rl_p_update n h il) f (rd (u64_out (rt_row p0) @ write_rows (rt_data p0) (rt_row p0) rs @ ys) st1) =
        f True (rd ys (upd_layer il (rl_p_update (copied rs h (Some p0))) st1))" for ys and f :: "bool \<Rightarrow> (bool \<times> unit) rs_reader"
      by (rule io_bind_Inr, rule read_block_run [where get = rl_p, OF l1 p(2) pok(2) assms(5)]) (use rows_length [OF pok(1) assms(4)] assms(5) in \<open>simp_all add: fun_eq_iff\<close>)
    have "copy_r rs h l0 = (\<lambda>l. rl_p_update (copied rs h (Some p0)) (rl_r_update (copied rs h (Some t0)) l))" by (simp add: fun_eq_iff copy_r_def Some p0)
    then have "upd_layer il (rl_p_update (copied rs h (Some p0))) st1 = upd_layer il (copy_r rs h l0) st"
      unfolding st1_def upd_layer_comp by simp
    then show ?thesis using Some p0 t ok p by (simp add: read_r_def write_r_def Let_def io_run b1 b2 io_ret_def)
  qed
qed

lemma read_s_run:
  assumes "il < length (rt_layers st)" "rs_layer_like l0 (rt_layers st ! il)" "rs_layer_ok n0 l0" "in_ranges n0 rs" "length (expand rs) = n"
  shows "read_s n h il () (rd (write_s rs l0 @ zs) st) = (Inr (True, ()), rd zs (upd_layer il (copy_s rs h l0) st))"
proof (cases "rl_s l0")
  case None
  then have s: "rl_s (rt_layers st ! il) = None" using assms(2) by (auto simp: rs_layer_like_def tensor_like_def split: option.splits)
  have "copy_s rs h l0 = (\<lambda>l. l)" using None by (simp add: copy_s_def fun_eq_iff)
  then show ?thesis using None s by (simp add: read_s_def write_s_def io_run io_ret_def upd_layer_id)
next
  case (Some t0)
  then obtain t where t: "rl_s (rt_layers st ! il) = Some t" "rt_type t = rt_type t0" "rt_row t = rt_row t0"
    using assms(2) by (auto simp: rs_layer_like_def tensor_like_def split: option.splits)
  have ok: "tensor_ok n0 (Some t0)" "i32_ok (rt_type t0)" "rt_row t0 < 2 ^ 64" using assms(3) Some by (auto simp: rs_layer_ok_def tensor_ok_def)
  have b1: "io_bind (read_block rl_s rl_s_update n h il) f (rd (u64_out (rt_row t0) @ write_rows (rt_data t0) (rt_row t0) rs @ ys) st) =
      f True (rd ys (upd_layer il (rl_s_update (copied rs h (Some t0))) st))" for ys and f :: "bool \<Rightarrow> (bool \<times> unit) rs_reader"
    by (rule io_bind_Inr, rule read_block_run [where get = rl_s, OF assms(1) t(1,3) ok(3) assms(5)]) (use rows_length [OF ok(1) assms(4)] assms(5) in \<open>simp_all add: fun_eq_iff\<close>)
  have "copy_s rs h l0 = rl_s_update (copied rs h (Some t0))" using Some by (simp add: copy_s_def fun_eq_iff)
  then show ?thesis using Some t ok by (simp add: read_s_def write_s_def Let_def io_run b1 io_ret_def)
qed

subsection \<open>The data of a memory\<close>

definition first_layers :: "(nat \<Rightarrow> rs_layer \<Rightarrow> rs_layer) \<Rightarrow> nat \<Rightarrow> rs_store \<Rightarrow> rs_store" where
  \<comment> \<open>the first \<open>i\<close> layers are changed\<close>
  "first_layers F i st = st\<lparr>rt_layers := map (\<lambda>j. if j < i then F j (rt_layers st ! j) else rt_layers st ! j) [0..<length (rt_layers st)]\<rparr>"

lemma first_layers_0: "first_layers F 0 st = st"
proof -
  have "map (\<lambda>j. if j < 0 then F j (rt_layers st ! j) else rt_layers st ! j) [0..<length (rt_layers st)] = rt_layers st"
    by (rule nth_equalityI) simp_all
  then show ?thesis by (simp add: first_layers_def)
qed

lemma first_layers_Suc: "i < length (rt_layers st) \<Longrightarrow> upd_layer i (F i) (first_layers F i st) = first_layers F (Suc i) st"
proof -
  assume i: "i < length (rt_layers st)"
  have "(map (\<lambda>j. if j < i then F j (rt_layers st ! j) else rt_layers st ! j) [0..<length (rt_layers st)])[i := F i (rt_layers st ! i)] =
      map (\<lambda>j. if j < Suc i then F j (rt_layers st ! j) else rt_layers st ! j) [0..<length (rt_layers st)]"
    by (rule nth_equalityI) (auto simp: nth_list_update less_Suc_eq)
  then show ?thesis using i by (simp add: upd_layer_def first_layers_def)
qed

lemma first_layers_simps [simp]: "length (rt_layers (first_layers F i st)) = length (rt_layers st)" "rt_mem (first_layers F i st) = rt_mem st"
  "j < length (rt_layers st) \<Longrightarrow> rt_layers (first_layers F i st) ! j = (if j < i then F j (rt_layers st ! j) else rt_layers st ! j)"
  by (simp_all add: first_layers_def)

lemma layer_loop:
  assumes "length (rt_layers st) = N"
    and "\<And>i st1 zs. i < N \<Longrightarrow> length (rt_layers st1) = N \<Longrightarrow> rt_layers st1 ! i = rt_layers st ! i \<Longrightarrow>
      f i () (rd (w i @ zs) st1) = (Inr (True, ()), rd zs (upd_layer i (F i) st1))"
  shows "io_loop f [0..<N] () (rd (concat (map w [0..<N]) @ zs) st) = (Inr (True, ()), rd zs (first_layers F N st))"
proof -
  have "\<exists>st' s'. io_loop f [0..<N] () (rd (concat (map w [0..<N]) @ zs) st) = (Inr (True, s'), rd zs st') \<and> st' = first_layers F N st"
  proof (rule io_loop_chunks [where P = "\<lambda>i st' (u :: unit). st' = first_layers F i st"])
    fix i st1 and u :: unit and bs assume i: "i < N" "st1 = first_layers F i st"
    have "f i () (rd (w i @ bs) st1) = (Inr (True, ()), rd bs (upd_layer i (F i) st1))"
      using i assms(1) by (intro assms(2)) simp_all
    then show "\<exists>st' s'. f i u (rd (w i @ bs) st1) = (Inr (True, s'), rd bs st') \<and> st' = first_layers F (Suc i) st"
      using i assms(1) by (simp add: first_layers_Suc)
  qed (simp add: first_layers_0)
  then show ?thesis by auto
qed

definition copy_layer :: "(nat \<times> nat) list \<Rightarrow> nat \<Rightarrow> rs_layer \<Rightarrow> rs_layer \<Rightarrow> rs_layer" where
  "copy_layer rs h l0 l = copy_s rs h l0 (copy_r rs h l0 l)"

lemma copy_r_like: "rs_layer_like l0 l \<Longrightarrow> rs_layer_like l0 (copy_r rs h l0 l)"
  by (simp add: rs_layer_like_def copy_r_def copied_like)

lemma concat_map_nth: "concat (map f xs) = concat (map (\<lambda>i. f (xs ! i)) [0..<length xs])"
proof -
  have "map f xs = map (\<lambda>i. f (xs ! i)) [0..<length xs]" by (rule nth_equalityI) simp_all
  then show ?thesis by (rule arg_cong)
qed

definition stores_like :: "rs_store \<Rightarrow> rs_store \<Rightarrow> bool" where
  \<comment> \<open>memories of the same model\<close>
  "stores_like st0 st \<longleftrightarrow> length (rt_layers st) = length (rt_layers st0) \<and> length (rt_layers st0) < 2 ^ 32 \<and>
     (\<forall>j < length (rt_layers st0). rs_layer_like (rt_layers st0 ! j) (rt_layers st ! j))"

lemma rs_read_data_run:
  assumes "stores_like st0 st" "\<forall>l \<in> set (rt_layers st0). rs_layer_ok n0 l" "in_ranges n0 rs" "length (expand rs) = n" "n \<le> rs_size (rt_mem st)"
  shows "rs_state_read_data n (rd (rs_state_write_data st0 rs @ zs) st) =
    (Inr True, rd zs (st\<lparr>rt_layers := map (\<lambda>j. copy_layer rs (rm_head (rt_mem st)) (rt_layers st0 ! j) (rt_layers st ! j)) [0..<length (rt_layers st)]\<rparr>))"
proof -
  define N h where "N = length (rt_layers st)" and "h = rm_head (rt_mem st)"
  have N: "length (rt_layers st0) = N" "N < 2 ^ 32" and like: "\<And>j. j < N \<Longrightarrow> rs_layer_like (rt_layers st0 ! j) (rt_layers st ! j)"
    using assms(1) by (auto simp: stores_like_def N_def)
  have ok: "rs_layer_ok n0 (rt_layers st0 ! j)" if "j < N" for j using assms(2) that N(1) by simp
  define R where "R j = copy_r rs h (rt_layers st0 ! j)" for j
  define S where "S j = copy_s rs h (rt_layers st0 ! j)" for j
  let ?st1 = "first_layers R N st"
  have r: "io_loop (read_r n h) [0..<N] () (rd (concat (map (\<lambda>i. write_r rs (rt_layers st0 ! i)) [0..<N]) @ ys) st) = (Inr (True, ()), rd ys ?st1)" for ys
  proof (rule layer_loop)
    fix i zs and st1 :: rs_store assume i: "i < N" "length (rt_layers st1) = N" "rt_layers st1 ! i = rt_layers st ! i"
    show "read_r n h i () (rd (write_r rs (rt_layers st0 ! i) @ zs) st1) = (Inr (True, ()), rd zs (upd_layer i (R i) st1))"
      unfolding R_def by (rule read_r_run [OF _ _ ok [OF i(1)] assms(3,4)]) (use i like in simp_all)
  qed (simp add: N_def)
  have s: "io_loop (read_s n h) [0..<N] () (rd (concat (map (\<lambda>i. write_s rs (rt_layers st0 ! i)) [0..<N]) @ ys) ?st1) = (Inr (True, ()), rd ys (first_layers S N ?st1))" for ys
  proof (rule layer_loop)
    fix i zs and st1 :: rs_store assume i: "i < N" "length (rt_layers st1) = N" "rt_layers st1 ! i = rt_layers ?st1 ! i"
    have "rs_layer_like (rt_layers st0 ! i) (rt_layers st1 ! i)" using i like by (simp add: R_def copy_r_like N_def)
    then show "read_s n h i () (rd (write_s rs (rt_layers st0 ! i) @ zs) st1) = (Inr (True, ()), rd zs (upd_layer i (S i) st1))"
      unfolding S_def by (intro read_s_run [OF _ _ ok [OF i(1)] assms(3,4)]) (use i in simp_all)
  qed (simp add: N_def)
  have rb: "io_bind (io_loop (read_r n h) [0..<N] ()) f (rd (concat (map (\<lambda>i. write_r rs (rt_layers st0 ! i)) [0..<N]) @ ys) st) = f (True, ()) (rd ys ?st1)"
    for ys and f :: "bool \<times> unit \<Rightarrow> bool rs_reader" using r [of ys] by (simp add: io_bind_def)
  have sb: "io_bind (io_loop (read_s n h) [0..<N] ()) f (rd (concat (map (\<lambda>i. write_s rs (rt_layers st0 ! i)) [0..<N]) @ ys) ?st1) = f (True, ()) (rd ys (first_layers S N ?st1))"
    for ys and f :: "bool \<times> unit \<Rightarrow> bool rs_reader" using s [of ys] by (simp add: io_bind_def)
  have e: "first_layers S N ?st1 = st\<lparr>rt_layers := map (\<lambda>j. copy_layer rs h (rt_layers st0 ! j) (rt_layers st ! j)) [0..<N]\<rparr>"
    by (simp add: first_layers_def R_def S_def copy_layer_def N_def cong: map_cong)
  have w: "rs_state_write_data st0 rs = u32_out 0 @ u32_out N @ concat (map (\<lambda>i. write_r rs (rt_layers st0 ! i)) [0..<N]) @ concat (map (\<lambda>i. write_s rs (rt_layers st0 ! i)) [0..<N])"
    by (simp add: rs_state_write_data_def N(1) concat_map_nth [of "write_r rs"] concat_map_nth [of "write_s rs"])
  show ?thesis unfolding w rs_state_read_data_def
    using assms(5) N(2) by (simp add: io_run Let_def N_def [symmetric] h_def [symmetric] rb sb io_ret_def e)
qed

subsection \<open>The rows that are written\<close>

lemma add_data_row_spec:
  assumes "\<forall>(a, b) \<in> set rs. a < b \<and> b \<le> N" "k < N"
  shows "expand (add_data_row k rs) = expand rs @ [k]" "\<forall>(a, b) \<in> set (add_data_row k rs). a < b \<and> b \<le> N"
proof -
  have "expand (add_data_row k rs) = expand rs @ [k] \<and> (\<forall>(a, b) \<in> set (add_data_row k rs). a < b \<and> b \<le> N)"
  proof (cases "rs = [] \<or> snd (last rs) \<noteq> k")
    case True
    then show ?thesis using assms by (auto simp: add_data_row_def)
  next
    case False
    then obtain rs' a where rs: "rs = rs' @ [(a, k)]" by (cases rs rule: rev_cases) (auto simp: prod_eq_iff)
    then have "a < k" using assms(1) by simp
    then show ?thesis using assms rs by (auto simp: add_data_row_def)
  qed
  then show "expand (add_data_row k rs) = expand rs @ [k]" "\<forall>(a, b) \<in> set (add_data_row k rs). a < b \<and> b \<le> N" by auto
qed

lemma data_rows:
  assumes "rs_wf m" "\<And>i. i < rs_size m \<Longrightarrow> rs_picked m seq_id i \<Longrightarrow> rs_write_idx m seq_id (rs_cell m i) = Some (g i) \<and> g i \<le> rm_n_rs_seq m"
  shows "\<exists>rs. fold_opt (rs_data_cell m seq_id) [0..<rs_size m] [] = Some rs \<and>
    expand rs = map (\<lambda>i. g i * rs_size m + i) (filter (rs_picked m seq_id) [0..<rs_size m]) \<and> in_ranges ((rm_n_rs_seq m + 1) * rs_size m) rs"
proof -
  let ?N = "(rm_n_rs_seq m + 1) * rs_size m"
  let ?P = "\<lambda>n rs. expand rs = map (\<lambda>i. g i * rs_size m + i) (filter (rs_picked m seq_id) [0..<n]) \<and> (\<forall>(a, b) \<in> set rs. a < b \<and> b \<le> ?N)"
  have "\<exists>rs. fold_opt (rs_data_cell m seq_id) [0..<rs_size m] [] = Some rs \<and> ?P (rs_size m) rs"
  proof (rule fold_opt_upt_invariant [where P = ?P])
    fix i rs assume i: "i < rs_size m" "?P i rs"
    show "\<exists>rs'. rs_data_cell m seq_id i rs = Some rs' \<and> ?P (Suc i) rs'"
    proof (cases "rs_picked m seq_id i")
      case True
      note g = assms(2) [OF i(1) True]
      have "(if rc_src (rs_cell m i) \<ge> 0 then nat (rc_src (rs_cell m i)) else i) = i" using rs_wfD(7) [OF assms(1) i(1)] by auto
      moreover have "g i * rs_size m + i < ?N"
      proof -
        have "(g i + 1) * rs_size m \<le> ?N" using g by (intro mult_le_mono1) simp
        moreover have "(g i + 1) * rs_size m = g i * rs_size m + rs_size m" by simp
        ultimately show ?thesis using i(1) by linarith
      qed
      ultimately show ?thesis using True g i(2) add_data_row_spec [of rs ?N "g i * rs_size m + i"] by (simp add: rs_data_cell_def)
    next
      case False
      then show ?thesis using i(2) by (simp add: rs_data_cell_def)
    qed
  qed simp
  then show ?thesis unfolding in_ranges_def by blast
qed

lemma sum_expand: "in_ranges n rs \<Longrightarrow> sum_list (map (\<lambda>(a, b). b - a) rs) = length (expand rs)"
  using length_expand [of rs n] by (simp add: in_ranges_def)

lemma write_meta_expand: "rs_state_write_meta m cr seq_id = concat (map (rs_write_cell m seq_id) (expand cr))"
  by (induction cr) (auto simp: rs_state_write_meta_def)

lemma rs_write_all:
  assumes "rs_wf (rt_mem st)" "\<And>i. i < rs_size (rt_mem st) \<Longrightarrow> rs_picked (rt_mem st) seq_id i \<Longrightarrow>
      rs_write_idx (rt_mem st) seq_id (rs_cell (rt_mem st) i) = Some (g i) \<and> g i \<le> rm_n_rs_seq (rt_mem st)"
  defines "us \<equiv> filter (rs_picked (rt_mem st) seq_id) [0..<rs_size (rt_mem st)]"
  shows "\<exists>rs. rs_state_write False seq_id st = Some (u32_out (length us) @ concat (map (rs_write_cell (rt_mem st) seq_id) us) @ rs_state_write_data st rs) \<and>
    expand rs = map (\<lambda>i. g i * rs_size (rt_mem st) + i) us \<and> in_ranges ((rm_n_rs_seq (rt_mem st) + 1) * rs_size (rt_mem st)) rs"
proof -
  obtain rs where rs: "fold_opt (rs_data_cell (rt_mem st) seq_id) [0..<rs_size (rt_mem st)] [] = Some rs"
    "expand rs = map (\<lambda>i. g i * rs_size (rt_mem st) + i) us" "in_ranges ((rm_n_rs_seq (rt_mem st) + 1) * rs_size (rt_mem st)) rs"
    using data_rows [OF assms(1), of seq_id g] assms(2) unfolding us_def by blast
  obtain cr cnt where cr: "cell_ranges (rs_picked (rt_mem st) seq_id) (rs_size (rt_mem st)) = (cr, cnt)" by fastforce
  note c = cell_ranges_all [OF cr]
  have "sum_list (map (\<lambda>(a, b). b - a) cr) = cnt" using length_expand [OF c(3)] c(1,2) by simp
  moreover have "sum_list (map (\<lambda>(a, b). b - a) rs) = cnt" using sum_expand [OF rs(3)] rs(2) c(2) by (simp add: us_def)
  ultimately have "rs_state_write False seq_id st = Some (u32_out (length us) @ concat (map (rs_write_cell (rt_mem st) seq_id) us) @ rs_state_write_data st rs)"
    unfolding rs_state_write_def Let_def cr using rs(1) c(1,2) by (simp add: write_meta_expand us_def)
  then show ?thesis using rs(2,3) by blast
qed

subsection \<open>What is saved of a sequence\<close>

definition layer_rows :: "nat \<Rightarrow> rs_layer \<Rightarrow> byte list option \<times> byte list option \<times> byte list option" where
  "layer_rows k l = (map_option (tensor_row k) (rl_r l), map_option (tensor_row k) (rl_p l), map_option (tensor_row k) (rl_s l))"

definition rs_idx_of :: "rs_memory \<Rightarrow> nat \<Rightarrow> nat" where
  "rs_idx_of m q = (if rm_n_rs_seq m = 0 then 0 else rm_rs_idx m ! q)"

definition rs_row :: "rs_memory \<Rightarrow> nat \<Rightarrow> nat" where
  \<comment> \<open>the row of the state of a sequence, a snapshot when a rollback is pending\<close>
  "rs_row m q = rs_idx_of m q * rs_size m + nat (rs_tail m q)"

definition rs_state_of :: "rs_store \<Rightarrow> nat \<Rightarrow> (byte list option \<times> byte list option \<times> byte list option) list" where
  "rs_state_of st q = map (layer_rows (rs_row (rt_mem st) q)) (rt_layers st)"

definition rs_rows :: "rs_memory \<Rightarrow> nat" where
  "rs_rows m = (rm_n_rs_seq m + 1) * rs_size m"

definition rs_store_ok :: "rs_store \<Rightarrow> bool" where
  \<comment> \<open>the memory keeps its invariant, numbers fit their types, and the tensors have their rows\<close>
  "rs_store_ok st \<longleftrightarrow> (let m = rt_mem st in rs_wf m \<and> rm_n_seq_max m < 2 ^ 31 \<and> (\<forall>i < rs_size m. i32_ok (rc_pos (rs_cell m i))) \<and>
     (\<forall>q. rs_last m q \<noteq> None \<longrightarrow> q < rm_n_seq_max m) \<and> (\<forall>q < rm_n_seq_max m. rm_rs_idx m ! q \<le> rm_n_rs_seq m) \<and>
     (\<forall>l \<in> set (rt_layers st). rs_layer_ok (rs_rows m) l))"

definition planes_agree :: "rs_memory \<Rightarrow> bool" where
  \<comment> \<open>sequences that share a cell have the same pending rollback\<close>
  "planes_agree m \<longleftrightarrow> (\<forall>q u. rs_last m q \<noteq> None \<longrightarrow> rs_last m u \<noteq> None \<longrightarrow> rs_tail m q = rs_tail m u \<longrightarrow> rs_idx_of m q = rs_idx_of m u)"

lemma rs_store_okD:
  assumes "rs_store_ok st"
  shows "rs_wf (rt_mem st)" "rm_n_seq_max (rt_mem st) < 2 ^ 31" "i < rs_size (rt_mem st) \<Longrightarrow> i32_ok (rc_pos (rs_cell (rt_mem st) i))"
    "rs_last (rt_mem st) q = Some p \<Longrightarrow> q < rm_n_seq_max (rt_mem st)" "q < rm_n_seq_max (rt_mem st) \<Longrightarrow> rm_rs_idx (rt_mem st) ! q \<le> rm_n_rs_seq (rt_mem st)"
    "l \<in> set (rt_layers st) \<Longrightarrow> rs_layer_ok (rs_rows (rt_mem st)) l"
  using assms unfolding rs_store_ok_def Let_def by auto

lemma in_cell_last:
  assumes "rs_wf m" "i < rs_size m" "int q \<in> rc_seq (rs_cell m i)"
  shows "rs_last m q = Some (rc_pos (rs_cell m i))" "rs_tail m q = int i"
  using rs_seq_tail [OF assms] by (simp_all add: rs_last_def)

lemma last_in_cell:
  assumes "rs_wf m" "rs_last m q = Some p"
  shows "nat (rs_tail m q) < rs_size m" "int q \<in> rc_seq (rs_cell m (nat (rs_tail m q)))" "p = rc_pos (rs_cell m (nat (rs_tail m q)))" "0 \<le> rs_tail m q" "q < rs_size m"
proof -
  show q: "0 \<le> rs_tail m q" "q < rs_size m" "p = rc_pos (rs_cell m (nat (rs_tail m q)))" using assms(2) by (auto simp: rs_last_def split: if_splits)
  show "nat (rs_tail m q) < rs_size m" "int q \<in> rc_seq (rs_cell m (nat (rs_tail m q)))" using rs_tail_cell [OF assms(1) q(2,1)] by auto
qed

lemma finite_rc_seq: "rs_wf m \<Longrightarrow> i < rs_size m \<Longrightarrow> finite (rc_seq (rs_cell m i))"
  by (simp add: rs_wfD(6) rs_occ_def)

lemma same_rs_idx_eq:
  "\<forall>q \<in> set qs. 0 \<le> q \<and> nat q < length idx \<and> idx ! nat q = k \<Longrightarrow> cur = None \<or> cur = Some k \<Longrightarrow>
   same_rs_idx idx qs cur = Some (if qs = [] then cur else Some k)"
  by (induction qs arbitrary: cur) (auto simp: not_le)

lemma write_idx_all:
  assumes "rs_store_ok st" "planes_agree (rt_mem st)" "i < rs_size (rt_mem st)" "int q \<in> rc_seq (rs_cell (rt_mem st) i)"
  shows "rs_write_idx (rt_mem st) (-1) (rs_cell (rt_mem st) i) = Some (rs_idx_of (rt_mem st) q)"
proof (cases "rm_n_rs_seq (rt_mem st) = 0")
  case True then show ?thesis by (simp add: rs_write_idx_def rs_idx_of_def)
next
  case False
  let ?m = "rt_mem st"
  note w = rs_store_okD(1) [OF assms(1)]
  let ?qs = "sorted_list_of_set (rc_seq (rs_cell ?m i))"
  have s: "set ?qs = rc_seq (rs_cell ?m i)" using finite_rc_seq [OF w assms(3)] by simp
  have "0 \<le> u \<and> nat u < length (rm_rs_idx ?m) \<and> rm_rs_idx ?m ! nat u = rm_rs_idx ?m ! q" if u: "u \<in> set ?qs" for u
  proof -
    have n: "0 \<le> u" "int (nat u) \<in> rc_seq (rs_cell ?m i)" using rs_seq_tail(1) [OF w assms(3)] u s by auto
    note a = in_cell_last [OF w assms(3) n(2)] and b = in_cell_last [OF w assms(3,4)]
    have "rs_idx_of ?m (nat u) = rs_idx_of ?m q" using assms(2) a b unfolding planes_agree_def by (metis option.distinct(1))
    then show ?thesis using n(1) rs_store_okD(4) [OF assms(1) a(1)] rs_wfD(1) [OF w] False by (simp add: rs_idx_of_def)
  qed
  moreover have "?qs \<noteq> []" using s assms(4) by auto
  ultimately show ?thesis using same_rs_idx_eq [of ?qs "rm_rs_idx ?m" "rm_rs_idx ?m ! q" None] False
    by (simp add: rs_write_idx_def rs_idx_of_def)
qed

lemma idx_le: "rs_store_ok st \<Longrightarrow> rs_last (rt_mem st) q = Some p \<Longrightarrow> rs_idx_of (rt_mem st) q \<le> rm_n_rs_seq (rt_mem st)"
  using rs_store_okD(4,5) by (auto simp: rs_idx_of_def)

lemma layer_rows_copied:
  assumes "rs_layer_like l0 l" "rs_layer_ok n0 l0" "rs_layer_ok n l" "in_ranges n0 rs" "h + length (expand rs) \<le> n"
  shows "layer_rows k (copy_layer rs h l0 l) = (if h \<le> k \<and> k < h + length (expand rs) then layer_rows (expand rs ! (k - h)) l0 else layer_rows k l)"
proof -
  have one: "map_option (tensor_row k) (copied rs h t0 t) =
      (if h \<le> k \<and> k < h + length (expand rs) then map_option (tensor_row (expand rs ! (k - h))) t0 else map_option (tensor_row k) t)"
    if a: "tensor_like t0 t" "tensor_ok n0 t0" "tensor_ok n t" for t0 t
  proof (cases t0)
    case None
    then show ?thesis using a(1) by (auto simp: tensor_like_def split: option.splits)
  next
    case (Some t1)
    then obtain t2 where "t = Some t2" using a(1) by (auto simp: tensor_like_def split: option.splits)
    then show ?thesis using copied_rows [OF a(1) [unfolded Some] a(2) [unfolded Some] a(3) assms(4,5)] Some by auto
  qed
  show ?thesis using assms(1-3) by (auto simp: layer_rows_def copy_layer_def copy_s_def copy_r_def rs_layer_like_def rs_layer_ok_def one)
qed

subsection \<open>Reading all cells\<close>

definition cells_are :: "nat \<Rightarrow> (nat \<Rightarrow> llama_pos) \<Rightarrow> (nat \<Rightarrow> int set) \<Rightarrow> rs_memory \<Rightarrow> bool" where
  \<comment> \<open>positions, sequences and tails of the cells\<close>
  "cells_are sz P S m \<longleftrightarrow> rs_size m = sz \<and> (\<forall>i < sz. rc_pos (rs_cell m i) = P i \<and> rc_seq (rs_cell m i) = S i \<and> rc_src (rs_cell m i) = -1) \<and>
     (\<forall>q < sz. -1 \<le> rs_tail m q \<and> (\<forall>j. rs_tail m q = int j \<longleftrightarrow> j < sz \<and> int q \<in> S j))"

lemma cells_are_pos: "cells_are sz P S m \<Longrightarrow> i < sz \<Longrightarrow> cells_are sz (P(i := p)) S (rs_upd i (\<lambda>c. c\<lparr>rc_pos := p\<rparr>) m)"
  by (auto simp: cells_are_def rs_tail_def)

lemma cells_are_seq:
  assumes "cells_are sz P S m" "i < sz" "q < sz" "\<forall>j < sz. int q \<notin> S j"
  shows "cells_are sz P (S(i := insert (int q) (S i))) (rs_upd q (\<lambda>c. c\<lparr>rc_tail := int i\<rparr>) (rs_upd i (\<lambda>c. c\<lparr>rc_seq := insert (int q) (rc_seq c)\<rparr>) m))"
  using assms by (auto simp: cells_are_def rs_tail_def)

definition mem_frame :: "rs_memory \<Rightarrow> rs_memory \<Rightarrow> bool" where
  "mem_frame m m' \<longleftrightarrow> rm_n_seq_max m' = rm_n_seq_max m \<and> rm_n_rs_seq m' = rm_n_rs_seq m \<and> rm_rs_idx m' = rm_rs_idx m"

lemma read_ids_run:
  assumes "cells_are sz P S (rt_mem st)" "i < sz" "distinct qs" "\<forall>q \<in> set qs. 0 \<le> q \<and> nat q < sz \<and> nat q < rm_n_seq_max (rt_mem st) \<and> (\<forall>j < sz. q \<notin> S j)"
    and "\<forall>q \<in> set qs. i32_ok q"
  shows "\<exists>m'. io_loop (rs_read_seq_id i) [0..<length qs] () (rd (concat (map i32_out qs) @ zs) st) = (Inr (True, ()), rd zs (st\<lparr>rt_mem := m'\<rparr>)) \<and>
    cells_are sz P (S(i := S i \<union> set qs)) m' \<and> mem_frame (rt_mem st) m'"
proof -
  let ?P = "\<lambda>a st' (u :: unit). \<exists>m'. st' = st\<lparr>rt_mem := m'\<rparr> \<and> cells_are sz P (S(i := S i \<union> set (take a qs))) m' \<and> mem_frame (rt_mem st) m'"
  have c: "concat (map i32_out qs) = concat (map (\<lambda>a. i32_out (qs ! a)) [0..<length qs])"
    by (rule arg_cong [where f = concat], rule nth_equalityI) simp_all
  have "\<exists>st' s'. io_loop (rs_read_seq_id i) [0..<length qs] () (rd (concat (map (\<lambda>a. i32_out (qs ! a)) [0..<length qs]) @ zs) st) = (Inr (True, s'), rd zs st') \<and> ?P (length qs) st' s'"
  proof (rule io_loop_chunks [where P = ?P])
    show "\<exists>m'. st = st\<lparr>rt_mem := m'\<rparr> \<and> cells_are sz P (S(i := S i \<union> set (take 0 qs))) m' \<and> mem_frame (rt_mem st) m'"
      by (rule exI [of _ "rt_mem st"]) (simp add: assms(1) mem_frame_def)
    fix a st1 bs and u :: unit assume a: "a < length qs" "\<exists>m'. st1 = st\<lparr>rt_mem := m'\<rparr> \<and> cells_are sz P (S(i := S i \<union> set (take a qs))) m' \<and> mem_frame (rt_mem st) m'"
    then obtain m1 where m1: "st1 = st\<lparr>rt_mem := m1\<rparr>" "cells_are sz P (S(i := S i \<union> set (take a qs))) m1" "mem_frame (rt_mem st) m1" by blast
    let ?q = "qs ! a"
    have mem: "?q \<in> set qs" using a(1) by simp
    obtain q where q: "?q = int q" using assms(4) mem nonneg_int_cases by metis
    have new: "\<forall>j < sz. int q \<notin> (S(i := S i \<union> set (take a qs))) j"
    proof -
      have "?q \<notin> set (take a qs)" using assms(3) a(1) by (auto simp: in_set_conv_nth nth_eq_iff_index_eq)
      then show ?thesis using assms(4) mem q by auto
    qed
    have lt: "q < sz" "q < rm_n_seq_max m1" using assms(4) mem q m1(3) by (auto simp: mem_frame_def)
    let ?m2 = "rs_upd q (\<lambda>c. c\<lparr>rc_tail := int i\<rparr>) (rs_upd i (\<lambda>c. c\<lparr>rc_seq := insert (int q) (rc_seq c)\<rparr>) m1)"
    have c2: "cells_are sz P ((S(i := S i \<union> set (take a qs)))(i := insert (int q) ((S(i := S i \<union> set (take a qs))) i))) ?m2"
      by (rule cells_are_seq [OF m1(2) assms(2) lt(1) new])
    have s: "(S(i := S i \<union> set (take a qs)))(i := insert (int q) ((S(i := S i \<union> set (take a qs))) i)) = S(i := S i \<union> set (take (Suc a) qs))"
      using a(1) q by (simp add: take_Suc_conv_app_nth fun_eq_iff)
    have tail: "rc_tail (rs_cell m1 q) = -1"
    proof (rule ccontr)
      assume "rc_tail (rs_cell m1 q) \<noteq> -1"
      moreover have "-1 \<le> rc_tail (rs_cell m1 q)" using m1(2) lt(1) unfolding cells_are_def rs_tail_def by blast
      ultimately obtain j where "rc_tail (rs_cell m1 q) = int j" using nonneg_int_cases [of "rc_tail (rs_cell m1 q)"] by auto
      then have "j < sz \<and> int q \<in> (S(i := S i \<union> set (take a qs))) j" using m1(2) lt(1) unfolding cells_are_def rs_tail_def by blast
      then show False using new by blast
    qed
    have sz: "rs_size m1 = sz" using m1(2) by (simp add: cells_are_def)
    have "rs_read_seq_id i a u (rd (i32_out ?q @ bs) st1) = (Inr (True, ()), rd bs (st\<lparr>rt_mem := ?m2\<rparr>))"
      using assms(5) mem lt tail sz by (simp add: rs_read_seq_id_def q io_run on_mem_def m1(1) io_ret_def not_le)
    moreover have "mem_frame (rt_mem st) ?m2" using m1(3) by (simp add: mem_frame_def)
    ultimately show "\<exists>st' s'. rs_read_seq_id i a u (rd (i32_out ?q @ bs) st1) = (Inr (True, s'), rd bs st') \<and>
        (\<exists>m'. st' = st\<lparr>rt_mem := m'\<rparr> \<and> cells_are sz P (S(i := S i \<union> set (take (Suc a) qs))) m' \<and> mem_frame (rt_mem st) m')"
      using c2 unfolding s by blast
  qed
  then show ?thesis unfolding c by auto
qed

lemma rs_read_cell_run:
  assumes "cells_are sz P S (rt_mem st)" "i < sz" "S i = {}" "rs_wf m0" "k < rs_size m0" "i32_ok (rc_pos (rs_cell m0 k))" "rs_size m0 \<le> 2 ^ 31"
    and "\<forall>q \<in> rc_seq (rs_cell m0 k). 0 \<le> q \<and> nat q < sz \<and> nat q < rm_n_seq_max (rt_mem st) \<and> (\<forall>j < sz. q \<notin> S j)"
  shows "\<exists>m'. rs_read_cell i () (rd (rs_write_cell m0 (-1) k @ zs) st) = (Inr (True, ()), rd zs (st\<lparr>rt_mem := m'\<rparr>)) \<and>
    cells_are sz (P(i := rc_pos (rs_cell m0 k))) (S(i := rc_seq (rs_cell m0 k))) m' \<and> mem_frame (rt_mem st) m'"
proof -
  let ?c = "rs_cell m0 k" and ?m1 = "rs_upd i (\<lambda>c. c\<lparr>rc_pos := rc_pos (rs_cell m0 k)\<rparr>) (rt_mem st)"
  define qs where "qs = sorted_list_of_set (rc_seq ?c)"
  have qs: "set qs = rc_seq ?c" "distinct qs" using finite_rc_seq [OF assms(4,5)] by (simp_all add: qs_def)
  have r: "0 \<le> q \<and> nat q < rs_size m0" if "q \<in> set qs" for q using rs_seq_tail(1,2) [OF assms(4,5)] qs(1) that by simp
  have ok: "\<forall>q \<in> set qs. i32_ok q" using r assms(7) by (fastforce simp: i32_ok_def)
  have len: "length qs < 2 ^ 32"
  proof -
    have "set qs \<subseteq> int ` {..<rs_size m0}" using r by (metis (no_types, lifting) image_eqI lessThan_iff nonneg_int_cases nat_int subsetI)
    then have "card (set qs) \<le> rs_size m0" using card_mono [of "int ` {..<rs_size m0}" "set qs"] card_image_le [of "{..<rs_size m0}" int] by (simp add: card_image)
    then show ?thesis using assms(7) qs(2) by (simp add: distinct_card)
  qed
  have c1: "cells_are sz (P(i := rc_pos ?c)) S (rt_mem (st\<lparr>rt_mem := ?m1\<rparr>))" using cells_are_pos [OF assms(1,2)] by simp
  have "\<forall>q \<in> set qs. 0 \<le> q \<and> nat q < sz \<and> nat q < rm_n_seq_max (rt_mem (st\<lparr>rt_mem := ?m1\<rparr>)) \<and> (\<forall>j < sz. q \<notin> S j)" using assms(8) qs(1) by simp
  from read_ids_run [OF c1 assms(2) qs(2) this ok, of zs] obtain m' where
    m': "io_loop (rs_read_seq_id i) [0..<length qs] () (rd (concat (map i32_out qs) @ zs) (st\<lparr>rt_mem := ?m1\<rparr>)) = (Inr (True, ()), rd zs (st\<lparr>rt_mem := m'\<rparr>))"
    "cells_are sz (P(i := rc_pos ?c)) (S(i := S i \<union> set qs)) m'" "mem_frame ?m1 m'" by auto
  have w: "rs_write_cell m0 (-1) k = i32_out (rc_pos ?c) @ u32_out (length qs) @ concat (map i32_out qs)" by (simp add: rs_write_cell_def qs_def Let_def)
  have "rs_read_cell i () (rd (rs_write_cell m0 (-1) k @ zs) st) = (Inr (True, ()), rd zs (st\<lparr>rt_mem := m'\<rparr>))"
    unfolding w rs_read_cell_def using assms(6) len m'(1) by (simp add: io_run on_mem_def)
  then show ?thesis using m'(2,3) assms(3) qs(1) by (auto simp: mem_frame_def)
qed

definition used_cells :: "rs_memory \<Rightarrow> nat list" where
  "used_cells m = filter (\<lambda>i. rc_seq (rs_cell m i) \<noteq> {}) [0..<rs_size m]"

lemma used_cells_nth: "k < length (used_cells m) \<Longrightarrow> used_cells m ! k < rs_size m \<and> rc_seq (rs_cell m (used_cells m ! k)) \<noteq> {}"
  using nth_mem [of k "used_cells m"] by (simp add: used_cells_def)

lemma used_cells_distinct: "distinct (used_cells m)"
  by (simp add: used_cells_def)

lemma clear_cells: "cells_are (rs_size m) (\<lambda>_. -1) (\<lambda>_. {}) (rs_clear m)"
  by (auto simp: cells_are_def rs_clear_def rs_size_def rs_cell_def rs_tail_def)

definition loaded_pos :: "rs_memory \<Rightarrow> nat \<Rightarrow> nat \<Rightarrow> llama_pos" where
  "loaded_pos m0 k i = (if i < k then rc_pos (rs_cell m0 (used_cells m0 ! i)) else -1)"

definition loaded_seq :: "rs_memory \<Rightarrow> nat \<Rightarrow> nat \<Rightarrow> int set" where
  "loaded_seq m0 k i = (if i < k then rc_seq (rs_cell m0 (used_cells m0 ! i)) else {})"

lemma loaded_Suc: "loaded_pos m0 (Suc k) = (loaded_pos m0 k)(k := rc_pos (rs_cell m0 (used_cells m0 ! k)))"
  "loaded_seq m0 (Suc k) = (loaded_seq m0 k)(k := rc_seq (rs_cell m0 (used_cells m0 ! k)))"
  by (auto simp: loaded_pos_def loaded_seq_def fun_eq_iff)

lemma cell_unique: "rs_wf m \<Longrightarrow> i < rs_size m \<Longrightarrow> j < rs_size m \<Longrightarrow> q \<in> rc_seq (rs_cell m i) \<Longrightarrow> q \<in> rc_seq (rs_cell m j) \<Longrightarrow> i = j"
  using rs_seq_tail(3) [of m i q] rs_seq_tail(3) [of m j q] by simp

lemma read_cells_run:
  assumes "rs_store_ok st0" "length (used_cells (rt_mem st0)) \<le> rs_size (rt_mem st)" "rt_mem st = rs_clear m1"
    and "\<forall>q. rs_last (rt_mem st0) q \<noteq> None \<longrightarrow> q < rs_size m1 \<and> q < rm_n_seq_max m1"
  defines "us \<equiv> used_cells (rt_mem st0)"
  shows "\<exists>m'. io_loop rs_read_cell [0..<length us] () (rd (concat (map (rs_write_cell (rt_mem st0) (-1)) us) @ zs) st) = (Inr (True, ()), rd zs (st\<lparr>rt_mem := m'\<rparr>)) \<and>
    cells_are (rs_size m1) (loaded_pos (rt_mem st0) (length us)) (loaded_seq (rt_mem st0) (length us)) m' \<and> mem_frame (rs_clear m1) m'"
proof -
  let ?m0 = "rt_mem st0" and ?sz = "rs_size m1"
  note w = rs_store_okD(1) [OF assms(1)]
  have sz: "rs_size (rs_clear m1) = ?sz" by (simp add: rs_clear_def rs_size_def)
  let ?P = "\<lambda>k st' (u :: unit). \<exists>m'. st' = st\<lparr>rt_mem := m'\<rparr> \<and> cells_are ?sz (loaded_pos ?m0 k) (loaded_seq ?m0 k) m' \<and> mem_frame (rs_clear m1) m'"
  have c: "concat (map (rs_write_cell ?m0 (-1)) us) = concat (map (\<lambda>k. rs_write_cell ?m0 (-1) (us ! k)) [0..<length us])" by (rule concat_map_nth)
  have "\<exists>st' s'. io_loop rs_read_cell [0..<length us] () (rd (concat (map (\<lambda>k. rs_write_cell ?m0 (-1) (us ! k)) [0..<length us]) @ zs) st) = (Inr (True, s'), rd zs st') \<and> ?P (length us) st' s'"
  proof (rule io_loop_chunks [where P = ?P])
    have "loaded_pos ?m0 0 = (\<lambda>_. -1)" "loaded_seq ?m0 0 = (\<lambda>_. {})" by (simp_all add: loaded_pos_def loaded_seq_def fun_eq_iff)
    then show "\<exists>m'. st = st\<lparr>rt_mem := m'\<rparr> \<and> cells_are ?sz (loaded_pos ?m0 0) (loaded_seq ?m0 0) m' \<and> mem_frame (rs_clear m1) m'"
      using clear_cells [of m1] assms(3) by (intro exI [of _ "rt_mem st"]) (simp add: mem_frame_def)
    fix k st1 bs and u :: unit
    assume k: "k < length us" "\<exists>m'. st1 = st\<lparr>rt_mem := m'\<rparr> \<and> cells_are ?sz (loaded_pos ?m0 k) (loaded_seq ?m0 k) m' \<and> mem_frame (rs_clear m1) m'"
    then obtain m2 where m2: "st1 = st\<lparr>rt_mem := m2\<rparr>" "cells_are ?sz (loaded_pos ?m0 k) (loaded_seq ?m0 k) m2" "mem_frame (rs_clear m1) m2" by blast
    have uk: "us ! k < rs_size ?m0" "k < ?sz" using used_cells_nth [of k ?m0] k(1) assms(2,3) sz by (simp_all add: us_def)
    have q: "0 \<le> q \<and> nat q < ?sz \<and> nat q < rm_n_seq_max (rt_mem st1) \<and> (\<forall>j < ?sz. q \<notin> loaded_seq ?m0 k j)" if q: "q \<in> rc_seq (rs_cell ?m0 (us ! k))" for q
    proof -
      have n: "0 \<le> q" using rs_seq_tail(1) [OF w uk(1) q] .
      then have l: "rs_last ?m0 (nat q) \<noteq> None" using in_cell_last(1) [OF w uk(1), of "nat q"] q by simp
      have "q \<notin> loaded_seq ?m0 k j" for j
      proof
        assume a: "q \<in> loaded_seq ?m0 k j"
        then have j: "j < k" "q \<in> rc_seq (rs_cell ?m0 (us ! j))" by (auto simp: loaded_seq_def us_def split: if_splits)
        have "us ! j < rs_size ?m0" using used_cells_nth [of j ?m0] j(1) k(1) by (simp add: us_def)
        then have "us ! j = us ! k" using cell_unique [OF w _ uk(1) j(2) q] by blast
        then show False using used_cells_distinct [of ?m0] j(1) k(1) by (simp add: nth_eq_iff_index_eq us_def)
      qed
      then show ?thesis using n assms(4) l m2(1,3) by (auto simp: mem_frame_def rs_clear_def)
    qed
    have c1: "cells_are ?sz (loaded_pos ?m0 k) (loaded_seq ?m0 k) (rt_mem st1)" using m2(1,2) by simp
    have e: "loaded_seq ?m0 k k = {}" by (simp add: loaded_seq_def)
    have s31: "rs_size ?m0 \<le> 2 ^ 31" using rs_wfD(2) [OF w] by simp
    obtain m' where m': "rs_read_cell k () (rd (rs_write_cell ?m0 (-1) (us ! k) @ bs) st1) = (Inr (True, ()), rd bs (st1\<lparr>rt_mem := m'\<rparr>))"
      "cells_are ?sz ((loaded_pos ?m0 k)(k := rc_pos (rs_cell ?m0 (us ! k)))) ((loaded_seq ?m0 k)(k := rc_seq (rs_cell ?m0 (us ! k)))) m'" "mem_frame (rt_mem st1) m'"
      using rs_read_cell_run [OF c1 uk(2) e w uk(1) rs_store_okD(3) [OF assms(1) uk(1)] s31, of bs] q by blast
    show "\<exists>st' s'. rs_read_cell k u (rd (rs_write_cell ?m0 (-1) (us ! k) @ bs) st1) = (Inr (True, s'), rd bs st') \<and>
        (\<exists>m'. st' = st\<lparr>rt_mem := m'\<rparr> \<and> cells_are ?sz (loaded_pos ?m0 (Suc k)) (loaded_seq ?m0 (Suc k)) m' \<and> mem_frame (rs_clear m1) m')"
      using m' m2(1,3) unfolding loaded_Suc us_def [symmetric] by (auto simp: mem_frame_def)
  qed
  then show ?thesis unfolding c by auto
qed

subsection \<open>A memory whose cells have been loaded\<close>

lemma keep_rows_cell:
  "n + h \<le> rs_size m \<Longrightarrow> rm_head m = h \<Longrightarrow> rs_size (rs_keep_rows n m) = rs_size m \<and> rm_head (rs_keep_rows n m) = h \<and> rm_used (rs_keep_rows n m) = rm_used m \<and>
     mem_frame m (rs_keep_rows n m) \<and>
     (\<forall>i. rs_cell (rs_keep_rows n m) i = (if h \<le> i \<and> i < h + n then (rs_cell m i)\<lparr>rc_src := int i\<rparr> else rs_cell m i))"
proof (induction n)
  case (Suc n)
  have e: "rs_keep_rows (Suc n) m = rs_upd (h + n) (\<lambda>c. c\<lparr>rc_src := int (h + n)\<rparr>) (rs_keep_rows n m)"
    using Suc.prems(2) by (simp add: rs_keep_rows_def)
  show ?case unfolding e using Suc by (auto simp: mem_frame_def)
qed (simp add: rs_keep_rows_def mem_frame_def)

lemma loaded_memory:
  assumes "cells_are sz (loaded_pos m0 n) (loaded_seq m0 n) m" "rs_wf m0" "n = length (used_cells m0)" "n \<le> sz" "sz < 2 ^ 31" "length (rm_rs_idx m) = rm_n_seq_max m"
    and "\<forall>q. rs_last m0 q \<noteq> None \<longrightarrow> q < sz"
  defines "m' \<equiv> rs_keep_rows n (m\<lparr>rm_head := 0, rm_used := n\<rparr>)"
  shows "rs_wf m'" "rs_last m' = rs_last m0" "rs_last m0 q = Some p \<Longrightarrow> \<exists>k < n. rs_tail m' q = int k \<and> rs_tail m0 q = int (used_cells m0 ! k)"
    "rm_head m' = 0" "rs_size m' = sz" "mem_frame m m'"
proof -
  let ?m = "m\<lparr>rm_head := 0, rm_used := n\<rparr>"
  have sz: "rs_size ?m = sz" "\<And>i. rs_cell ?m i = rs_cell m i" "rs_size m = sz" using assms(1) by (auto simp: cells_are_def rs_size_def rs_cell_def)
  have k: "rs_size m' = sz" "rm_head m' = 0" "rm_used m' = n" "mem_frame ?m m'" "\<And>i. rs_cell m' i = (if i < n then (rs_cell m i)\<lparr>rc_src := int i\<rparr> else rs_cell m i)"
    using keep_rows_cell [of n 0 ?m] assms(4) sz by (auto simp: m'_def)
  then show "rm_head m' = 0" "rs_size m' = sz" "mem_frame m m'" by (auto simp: mem_frame_def)
  have c: "\<And>i. i < sz \<Longrightarrow> rc_pos (rs_cell m' i) = loaded_pos m0 n i \<and> rc_seq (rs_cell m' i) = loaded_seq m0 n i \<and> rc_src (rs_cell m' i) \<in> {-1, int i}"
    using assms(1) k(5) by (auto simp: cells_are_def)
  have t: "\<And>q. q < sz \<Longrightarrow> -1 \<le> rs_tail m' q \<and> (\<forall>j. rs_tail m' q = int j \<longleftrightarrow> j < sz \<and> int q \<in> loaded_seq m0 n j)"
    using assms(1) k(5) by (auto simp: cells_are_def rs_tail_def)
  have u: "used_cells m0 ! i < rs_size m0" "rc_seq (rs_cell m0 (used_cells m0 ! i)) \<noteq> {}" if "i < n" for i using used_cells_nth [of i m0] that assms(3) by simp_all
  have nat_seq: "q \<in> loaded_seq m0 n i \<Longrightarrow> 0 \<le> q \<and> nat q < sz" for q i
  proof -
    assume a: "q \<in> loaded_seq m0 n i"
    then have i: "i < n" "q \<in> rc_seq (rs_cell m0 (used_cells m0 ! i))" by (auto simp: loaded_seq_def split: if_splits)
    have "0 \<le> q" using rs_seq_tail(1) [OF assms(2) u(1) [OF i(1)] i(2)] .
    then show ?thesis using in_cell_last(1) [OF assms(2) u(1) [OF i(1)], of "nat q"] i(2) assms(7) by auto
  qed
  have occ: "rc_seq (rs_cell m' i) = int ` rs_occ m' i" if i: "i < sz" for i
  proof -
    have "q \<in> loaded_seq m0 n i \<longleftrightarrow> q \<in> int ` rs_occ m' i" for q
    proof
      assume a: "q \<in> loaded_seq m0 n i"
      then have "nat q \<in> rs_occ m' i" using nat_seq [OF a] t [of "nat q"] i by (simp add: rs_occ_def k(1))
      then show "q \<in> int ` rs_occ m' i" using nat_seq [OF a] by (metis image_eqI int_nat_eq)
    next
      assume "q \<in> int ` rs_occ m' i"
      then show "q \<in> loaded_seq m0 n i" using t by (auto simp: rs_occ_def k(1))
    qed
    then show ?thesis using c [OF i] by blast
  qed
  have ne: "loaded_seq m0 n i \<noteq> {} \<longleftrightarrow> i < n" for i using u(2) by (auto simp: loaded_seq_def)
  have tl: "rs_tail m' q < int sz" if "q < sz" for q using t [OF that] by (metis int_nat_eq linorder_not_less nat_int nonneg_int_cases of_nat_0_le_iff order.trans zless_nat_conj)
  have "i \<in> rs_busy m' \<longleftrightarrow> i < n" for i using c [of i] ne [of i] assms(4) unfolding rs_busy_def k(1) by auto
  then have busy: "rs_busy m' = {..<n}" by blast
  have pos: "if rc_seq (rs_cell m' i) = {} then rc_pos (rs_cell m' i) = -1 else 0 \<le> rc_pos (rs_cell m' i)" if i: "i < sz" for i
    using c [OF i] ne [of i] rs_wfD(9) [OF assms(2) u(1) u(2)] by (auto simp: loaded_pos_def)
  show wf: "rs_wf m'"
  proof -
    have "length (rm_rs_idx m') = rm_n_seq_max m'" using assms(6) k(4) by (simp add: mem_frame_def)
    moreover have "\<forall>q < sz. -1 \<le> rs_tail m' q \<and> rs_tail m' q < int sz" using t tl by blast
    moreover have "\<forall>i < sz. rc_seq (rs_cell m' i) = int ` rs_occ m' i" using occ by blast
    moreover have "\<forall>i < sz. rc_src (rs_cell m' i) \<in> {-1, int i}" using c by blast
    moreover have "\<forall>i < sz. if rc_seq (rs_cell m' i) = {} then rc_pos (rs_cell m' i) = -1 else 0 \<le> rc_pos (rs_cell m' i)" using pos by blast
    moreover have "n = card {..<n}" "0 \<le> sz" by simp_all
    ultimately show ?thesis unfolding rs_wf_def k(1,2,3) busy using assms(5) by blast
  qed
  show last: "rs_last m0 q = Some p \<Longrightarrow> \<exists>k < n. rs_tail m' q = int k \<and> rs_tail m0 q = int (used_cells m0 ! k)" for q p
  proof -
    assume a: "rs_last m0 q = Some p"
    note l = last_in_cell [OF assms(2) a]
    have "nat (rs_tail m0 q) \<in> set (used_cells m0)" using l(1,2) by (auto simp: used_cells_def)
    then obtain k where kk: "k < n" "used_cells m0 ! k = nat (rs_tail m0 q)" using assms(3) by (metis in_set_conv_nth)
    then have "int q \<in> loaded_seq m0 n k" using l(2) by (simp add: loaded_seq_def)
    then have "rs_tail m' q = int k" using t [of q] assms(7) a kk(1) assms(4) by auto
    then show ?thesis using kk l(4) by auto
  qed
  show "rs_last m' = rs_last m0"
  proof
    fix q
    show "rs_last m' q = rs_last m0 q"
    proof (cases "rs_last m0 q")
      case (Some p)
      obtain k where kk: "k < n" "rs_tail m' q = int k" "rs_tail m0 q = int (used_cells m0 ! k)" using last [OF Some] by blast
      have "q < sz" using assms(7) Some by simp
      then have "rs_last m' q = Some (loaded_pos m0 n k)" using kk(1,2) c [of k] assms(4) by (simp add: rs_last_def k(1))
      then show ?thesis using last_in_cell(3) [OF assms(2) Some] kk(1,3) Some by (simp add: loaded_pos_def)
    next
      case None
      have "rs_last m' q = None"
      proof (rule ccontr)
        assume "rs_last m' q \<noteq> None"
        then obtain p where l: "rs_last m' q = Some p" by blast
        note lc = last_in_cell [OF wf l]
        have "int q \<in> loaded_seq m0 n (nat (rs_tail m' q))" using lc(2) c [of "nat (rs_tail m' q)"] lc(1) k(1) by simp
        then have i: "nat (rs_tail m' q) < n" "int q \<in> rc_seq (rs_cell m0 (used_cells m0 ! nat (rs_tail m' q)))" by (auto simp: loaded_seq_def split: if_splits)
        then show False using in_cell_last(1) [OF assms(2) u(1) [OF i(1)] i(2)] None by simp
      qed
      then show ?thesis using None by simp
    qed
  qed
qed

subsection \<open>The round trip of a memory\<close>

lemma lift_mem_run: "f (rt_mem st) = Some (m, x) \<Longrightarrow> lift_mem f (rd bs st) = (Inr x, rd bs (st\<lparr>rt_mem := m\<rparr>))"
  by (simp add: lift_mem_def io_run io_ret_def)

lemma lift_mem_bind: "f (rt_mem st) = Some (m, x) \<Longrightarrow> io_bind (lift_mem f) g (rd bs st) = g x (rd bs (st\<lparr>rt_mem := m\<rparr>))"
  using lift_mem_run [of f st m x bs] by (simp add: io_bind_def)

lemma used_cells_card: "rs_wf m \<Longrightarrow> length (used_cells m) = rm_used m"
proof -
  assume w: "rs_wf m"
  have "set (used_cells m) = rs_busy m" by (auto simp: used_cells_def rs_busy_def)
  then show ?thesis using distinct_card [OF used_cells_distinct [of m]] rs_wfD(10) [OF w] by simp
qed

lemma picked_all: "rs_wf m \<Longrightarrow> filter (rs_picked m (-1)) [0..<rs_size m] = used_cells m"
  unfolding used_cells_def rs_picked_def using rs_seq_tail(1) [of m _ "-1"] by (intro filter_cong) auto

definition some_seq :: "rs_memory \<Rightarrow> nat \<Rightarrow> nat" where
  "some_seq m i = (LEAST q. int q \<in> rc_seq (rs_cell m i))"

lemma some_seq_in: "rs_wf m \<Longrightarrow> i < rs_size m \<Longrightarrow> rc_seq (rs_cell m i) \<noteq> {} \<Longrightarrow> int (some_seq m i) \<in> rc_seq (rs_cell m i)"
proof -
  assume a: "rs_wf m" "i < rs_size m" "rc_seq (rs_cell m i) \<noteq> {}"
  then obtain q where "q \<in> rc_seq (rs_cell m i)" by blast
  then have "int (nat q) \<in> rc_seq (rs_cell m i)" using rs_seq_tail(1) [OF a(1,2)] by simp
  then show ?thesis unfolding some_seq_def by (rule LeastI)
qed

lemma zero_like: "rs_layer_like l0 l \<Longrightarrow> rs_layer_like l0 (rs_zero l)"
  by (auto simp: rs_layer_like_def rs_zero_def tensor_like_def Let_def split: option.splits)

lemma zero_ok: "rs_layer_ok n l \<Longrightarrow> rs_layer_ok n (rs_zero l)"
  by (auto simp: rs_layer_ok_def rs_zero_def tensor_ok_def Let_def)

lemma write_all_bytes:
  assumes "rs_store_ok st" "planes_agree (rt_mem st)"
  defines "m \<equiv> rt_mem st" and "us \<equiv> used_cells (rt_mem st)"
  shows "\<exists>rs. rs_state_write False (-1) st = Some (u32_out (length us) @ concat (map (rs_write_cell m (-1)) us) @ rs_state_write_data st rs) \<and>
    length (expand rs) = length us \<and> in_ranges (rs_rows m) rs \<and>
    (\<forall>k q p. k < length us \<longrightarrow> rs_last m q = Some p \<longrightarrow> rs_tail m q = int (us ! k) \<longrightarrow> expand rs ! k = rs_row m q)"
proof -
  note w = rs_store_okD(1) [OF assms(1), folded m_def]
  define g where "g i = rs_idx_of m (some_seq m i)" for i
  have g: "rs_write_idx m (-1) (rs_cell m i) = Some (g i) \<and> g i \<le> rm_n_rs_seq m" if i: "i < rs_size m" "rs_picked m (-1) i" for i
  proof -
    have ne: "rc_seq (rs_cell m i) \<noteq> {}" using i(2) by (auto simp: rs_picked_def)
    note s = some_seq_in [OF w i(1) ne]
    show ?thesis using write_idx_all [OF assms(1,2), folded m_def, OF i(1) s] idx_le [OF assms(1), folded m_def, OF in_cell_last(1) [OF w i(1) s]] by (simp add: g_def)
  qed
  obtain rs where rs: "rs_state_write False (-1) st = Some (u32_out (length us) @ concat (map (rs_write_cell m (-1)) us) @ rs_state_write_data st rs)"
    "expand rs = map (\<lambda>i. g i * rs_size m + i) us" "in_ranges (rs_rows m) rs"
    using rs_write_all [of st "-1" g] w g picked_all [OF w] unfolding m_def us_def rs_rows_def by auto
  have "expand rs ! k = rs_row m q" if k: "k < length us" and q: "rs_last m q = Some p" "rs_tail m q = int (us ! k)" for k q p
  proof -
    have u: "us ! k < rs_size m" "rc_seq (rs_cell m (us ! k)) \<noteq> {}" using used_cells_nth [of k m] k by (simp_all add: us_def m_def)
    note s = some_seq_in [OF w u]
    have "rs_idx_of m (some_seq m (us ! k)) = rs_idx_of m q"
      using assms(2) in_cell_last [OF w u(1) s] q unfolding planes_agree_def m_def [symmetric] by (metis option.distinct(1))
    then show ?thesis using k q(2) by (simp add: rs(2) g_def rs_row_def)
  qed
  then show ?thesis using rs by auto
qed

lemma read_all_bytes:
  assumes "rs_store_ok st0" "rs_store_ok st" "stores_like st0 st" "rm_used (rt_mem st0) \<le> rs_size (rt_mem st)"
    and "\<forall>q. rs_last (rt_mem st0) q \<noteq> None \<longrightarrow> q < rs_size (rt_mem st) \<and> q < rm_n_seq_max (rt_mem st)"
    and rs: "length (expand rs) = length (used_cells (rt_mem st0))" "in_ranges (rs_rows (rt_mem st0)) rs"
  defines "us \<equiv> used_cells (rt_mem st0)"
  shows "\<exists>m'. rs_state_read (-1) (rd (u32_out (length us) @ concat (map (rs_write_cell (rt_mem st0) (-1)) us) @ rs_state_write_data st0 rs @ zs) st) =
      (Inr (), rd zs \<lparr>rt_mem = m', rt_n_pos = rt_n_pos st, rt_layers = map (\<lambda>j. copy_layer rs 0 (rt_layers st0 ! j) (rs_zero (rt_layers st ! j))) [0..<length (rt_layers st)]\<rparr>) \<and>
    rs_wf m' \<and> rs_last m' = rs_last (rt_mem st0) \<and> rs_size m' = rs_size (rt_mem st) \<and> rm_n_rs_seq m' = rm_n_rs_seq (rt_mem st) \<and>
    rm_rs_idx m' = map (\<lambda>_. 0) (rm_rs_idx (rt_mem st)) \<and>
    (\<forall>q p. rs_last (rt_mem st0) q = Some p \<longrightarrow> (\<exists>k < length us. rs_tail m' q = int k \<and> rs_tail (rt_mem st0) q = int (us ! k)))"
proof -
  let ?m0 = "rt_mem st0" and ?m1 = "rt_mem st"
  note w0 = rs_store_okD(1) [OF assms(1)] and w1 = rs_store_okD(1) [OF assms(2)]
  define st1 where "st1 = rs_clear_data st"
  have mem1: "rt_mem st1 = rs_clear ?m1" by (simp add: st1_def rs_clear_data_def)
  have sz: "rs_size (rs_clear ?m1) = rs_size ?m1" by (simp add: rs_clear_def rs_size_def)
  have n: "length us \<le> rs_size ?m1" using assms(4) used_cells_card [OF w0] by (simp add: us_def)
  have n32: "length us < 2 ^ 32" using n rs_wfD(2) [OF w1] by simp
  obtain m2 where m2: "io_loop rs_read_cell [0..<length us] () (rd (concat (map (rs_write_cell ?m0 (-1)) us) @ rs_state_write_data st0 rs @ zs) st1) =
      (Inr (True, ()), rd (rs_state_write_data st0 rs @ zs) (st1\<lparr>rt_mem := m2\<rparr>))"
    "cells_are (rs_size ?m1) (loaded_pos ?m0 (length us)) (loaded_seq ?m0 (length us)) m2" "mem_frame (rs_clear ?m1) m2"
    using read_cells_run [OF assms(1) _ mem1, of "rs_state_write_data st0 rs @ zs"] n sz mem1 assms(5) unfolding us_def by auto
  define m' where "m' = rs_keep_rows (length us) (m2\<lparr>rm_head := 0, rm_used := length us\<rparr>)"
  have idx: "length (rm_rs_idx m2) = rm_n_seq_max m2" using m2(3) rs_wfD(1) [OF w1] by (simp add: mem_frame_def rs_clear_def)
  have l7: "\<forall>q. rs_last ?m0 q \<noteq> None \<longrightarrow> q < rs_size ?m1" using assms(5) by blast
  note ld = loaded_memory [OF m2(2) w0 _ n rs_wfD(2) [OF w1] idx l7, folded m'_def, unfolded us_def, OF refl, folded us_def]
  have fr: "rm_n_rs_seq m' = rm_n_rs_seq ?m1" "rm_rs_idx m' = map (\<lambda>_. 0) (rm_rs_idx ?m1)" using ld(6) m2(3) by (auto simp: mem_frame_def rs_clear_def)
  define st2 where "st2 = st1\<lparr>rt_mem := m'\<rparr>"
  have loopb: "io_bind (io_loop rs_read_cell [0..<length us] ()) f (rd (concat (map (rs_write_cell ?m0 (-1)) us) @ rs_state_write_data st0 rs @ zs) st1) =
      f (True, ()) (rd (rs_state_write_data st0 rs @ zs) (st1\<lparr>rt_mem := m2\<rparr>))" for f :: "bool \<times> unit \<Rightarrow> bool rs_reader"
    using m2(1) by (simp add: io_bind_def)
  have meta: "rs_state_read_meta (length us) (-1) (rd (concat (map (rs_write_cell ?m0 (-1)) us) @ rs_state_write_data st0 rs @ zs) st) =
      (Inr True, rd (rs_state_write_data st0 rs @ zs) st2)"
    using n by (simp add: rs_state_read_meta_def rs_read_meta_all_def io_run not_less st1_def [symmetric] loopb on_mem_def io_ret_def st2_def m'_def)
  have lay: "rt_layers st2 = map rs_zero (rt_layers st)" "rt_n_pos st2 = rt_n_pos st" by (simp_all add: st2_def st1_def rs_clear_data_def)
  have like: "stores_like st0 st2" using assms(3) by (simp add: stores_like_def lay zero_like)
  have ok0: "\<forall>l \<in> set (rt_layers st0). rs_layer_ok (rs_rows ?m0) l" using rs_store_okD(6) [OF assms(1)] by blast
  define st3 where "st3 = st2\<lparr>rt_layers := map (\<lambda>j. copy_layer rs 0 (rt_layers st0 ! j) (rt_layers st2 ! j)) [0..<length (rt_layers st2)]\<rparr>"
  have data: "rs_state_read_data (length us) (rd (rs_state_write_data st0 rs @ zs) st2) = (Inr True, rd zs st3)"
    using rs_read_data_run [OF like ok0 rs(2) rs(1), of zs] n ld(4,5) unfolding st3_def us_def by (simp add: st2_def)
  have st3: "st3 = \<lparr>rt_mem = m', rt_n_pos = rt_n_pos st, rt_layers = map (\<lambda>j. copy_layer rs 0 (rt_layers st0 ! j) (rs_zero (rt_layers st ! j))) [0..<length (rt_layers st)]\<rparr>"
    by (cases st) (simp add: st3_def st2_def st1_def rs_clear_data_def cong: map_cong)
  have setidx: "set_rs_idx (-1) 0 m' = Some m'" using fr(2) by (simp add: set_rs_idx_def comp_def)
  have catch: "io_bind (io_catch (rs_state_read_data (length us))) f (rd (rs_state_write_data st0 rs @ zs) st2) = f True (rd zs st3)" for f :: "bool \<Rightarrow> unit rs_reader"
    using data by (simp add: io_bind_def io_catch_def)
  have metab: "io_bind (rs_state_read_meta (length us) (-1)) f (rd (concat (map (rs_write_cell ?m0 (-1)) us) @ rs_state_write_data st0 rs @ zs) st) =
      f True (rd (rs_state_write_data st0 rs @ zs) st2)" for f :: "bool \<Rightarrow> unit rs_reader"
    using meta by (simp add: io_bind_def)
  have m3: "rt_mem st3 = m'" by (simp add: st3)
  have "rs_state_read (-1) (rd (u32_out (length us) @ concat (map (rs_write_cell ?m0 (-1)) us) @ rs_state_write_data st0 rs @ zs) st) = (Inr (), rd zs st3)"
    unfolding rs_state_read_def using n32 by (simp add: io_run metab catch m3 setidx lift_mem_run io_ret_def)
  then show ?thesis using ld fr unfolding st3 by blast
qed

lemma rs_restored:
  assumes "rs_store_ok st" "planes_agree (rt_mem st)" "rs_store_ok st'" "stores_like st st'" "rm_used (rt_mem st) \<le> rs_size (rt_mem st')"
    and "\<forall>q. rs_last (rt_mem st) q \<noteq> None \<longrightarrow> q < rs_size (rt_mem st') \<and> q < rm_n_seq_max (rt_mem st')"
  shows "\<exists>bytes st''. rs_state_write False (-1) st = Some bytes \<and> rs_state_read (-1) (rd (bytes @ zs) st') = (Inr (), rd zs st'') \<and>
    rs_wf (rt_mem st'') \<and> rs_last (rt_mem st'') = rs_last (rt_mem st) \<and> (\<forall>q. rs_last (rt_mem st) q \<noteq> None \<longrightarrow> rs_state_of st'' q = rs_state_of st q)"
proof -
  let ?m = "rt_mem st" and ?us = "used_cells (rt_mem st)"
  obtain rs where rs: "rs_state_write False (-1) st = Some (u32_out (length ?us) @ concat (map (rs_write_cell ?m (-1)) ?us) @ rs_state_write_data st rs)"
    "length (expand rs) = length ?us" "in_ranges (rs_rows ?m) rs"
    "\<And>k q p. k < length ?us \<Longrightarrow> rs_last ?m q = Some p \<Longrightarrow> rs_tail ?m q = int (?us ! k) \<Longrightarrow> expand rs ! k = rs_row ?m q"
    using write_all_bytes [OF assms(1,2)] by blast
  obtain m' where m': "rs_state_read (-1) (rd (u32_out (length ?us) @ concat (map (rs_write_cell ?m (-1)) ?us) @ rs_state_write_data st rs @ zs) st') =
      (Inr (), rd zs \<lparr>rt_mem = m', rt_n_pos = rt_n_pos st', rt_layers = map (\<lambda>j. copy_layer rs 0 (rt_layers st ! j) (rs_zero (rt_layers st' ! j))) [0..<length (rt_layers st')]\<rparr>)"
    "rs_wf m'" "rs_last m' = rs_last ?m" "rs_size m' = rs_size (rt_mem st')" "rm_rs_idx m' = map (\<lambda>_. 0) (rm_rs_idx (rt_mem st'))"
    "\<And>q p. rs_last ?m q = Some p \<Longrightarrow> \<exists>k < length ?us. rs_tail m' q = int k \<and> rs_tail ?m q = int (?us ! k)"
    using read_all_bytes [OF assms(1,3,4,5,6) rs(2,3), of zs] by blast
  define st'' where "st'' = \<lparr>rt_mem = m', rt_n_pos = rt_n_pos st', rt_layers = map (\<lambda>j. copy_layer rs 0 (rt_layers st ! j) (rs_zero (rt_layers st' ! j))) [0..<length (rt_layers st')]\<rparr>"
  have len: "length (rt_layers st') = length (rt_layers st)" using assms(4) by (simp add: stores_like_def)
  have le: "length ?us \<le> rs_rows (rt_mem st')" using assms(5) used_cells_card [OF rs_store_okD(1) [OF assms(1)]] by (simp add: rs_rows_def)
  have "rs_state_of st'' q = rs_state_of st q" if q: "rs_last ?m q = Some p" for q p
  proof -
    obtain k where k: "k < length ?us" "rs_tail m' q = int k" "rs_tail ?m q = int (?us ! k)" using m'(6) [OF q] by blast
    have "q < length (rm_rs_idx (rt_mem st'))" using assms(6) q rs_wfD(1) [OF rs_store_okD(1) [OF assms(3)]] by simp
    then have row: "rs_row m' q = k" using k(2) m'(5) by (simp add: rs_row_def rs_idx_of_def)
    have "layer_rows k (copy_layer rs 0 (rt_layers st ! j) (rs_zero (rt_layers st' ! j))) = layer_rows (rs_row ?m q) (rt_layers st ! j)" if j: "j < length (rt_layers st)" for j
    proof -
      have "rs_layer_like (rt_layers st ! j) (rs_zero (rt_layers st' ! j))" "rs_layer_ok (rs_rows ?m) (rt_layers st ! j)" "rs_layer_ok (rs_rows (rt_mem st')) (rs_zero (rt_layers st' ! j))"
        using assms(4) j len rs_store_okD(6) [OF assms(1)] rs_store_okD(6) [OF assms(3)] by (auto simp: stores_like_def intro: zero_like zero_ok)
      from layer_rows_copied [OF this rs(3), of 0 k] show ?thesis using k(1) rs(2) le rs(4) [OF k(1) q k(3)] by simp
    qed
    then show ?thesis unfolding rs_state_of_def st''_def by (intro nth_equalityI) (simp_all add: row len)
  qed
  then show ?thesis using rs(1) m'(1-3) unfolding st''_def [symmetric] by (intro exI [of _ _] exI [of _ st'']) (auto simp: st''_def)
qed

subsection \<open>A slot for one sequence\<close>

lemma probe_empty:
  assumes "rs_wf m" "q < rs_size m" "rs_tail m q = -1"
  shows "rs_probe m (rm_head m) (rs_size m) < rs_size m \<and> rc_seq (rs_cell m (rs_probe m (rm_head m) (rs_size m))) = {}"
proof -
  let ?h = "if rm_head m \<ge> rs_size m then rm_head m - rs_size m else rm_head m"
  have h: "?h < rs_size m" using assms(2) rs_wfD(3) [OF assms(1)] by auto
  obtain y where y: "y < rs_size m" "rs_occ m y = {}" using rs_free_exists [OF assms(2)] assms(3) by auto
  then have e: "rc_seq (rs_cell m y) = {}" using rs_wfD(6) [OF assms(1) y(1)] by simp
  have "rs_probe m (rm_head m) (rs_size m) = rs_probe m ?h (rs_size m)"
    using assms(2) rs_wfD(3) [OF assms(1)] by (cases "rs_size m") (auto simp: Let_def)
  moreover have "rs_first_empty m ?h (rs_off ?h (rs_size m) ?h) (rs_probe m ?h (rs_size m))"
    by (rule rs_probe_first [OF h h y(1) e]) (use rs_off_facts(1) [OF h y(1)] rs_off_facts(5) [OF h h] in auto)
  ultimately show ?thesis unfolding rs_first_empty_def by simp
qed

lemma find_slot_single:
  assumes "rs_wf m" "d < rs_size m" "rs_tail m d = -1" "ub_equal_seqs ub" "ub_n_seqs ub = 1" "set_ids ub 0 = [int d]"
  shows "\<exists>m' ok. rs_find_slot ub m = Some (m', ok) \<and> rm_head m' < rs_size m \<and> rc_seq (rs_cell m (rm_head m')) = {} \<and>
    (\<forall>u. rs_tail m' u = (if u = d then int (rm_head m') else rs_tail m u))"
proof -
  define M where "M = (if rm_head m > rm_used m + 2 * 1 then m\<lparr>rm_head := 0\<rparr> else m)"
  have f: "rs_size M = rs_size m" "rs_cell M = rs_cell m" "rm_used M = rm_used m" by (simp_all add: M_def)
  have t: "rs_tail M = rs_tail m" by (rule ext) (simp only: rs_tail_def f)
  have o: "rs_occ M = rs_occ m" "rs_busy M = rs_busy m" by (rule ext, simp only: rs_occ_def f t) (simp only: rs_busy_def f)
  have "rm_head M \<le> rs_size m" "length (rm_rs_idx M) = rm_n_seq_max M" using rs_wfD(1,3) [OF assms(1)] by (simp_all add: M_def)
  then have wf: "rs_wf M" using assms(1) unfolding rs_wf_def f t o by blast
  define e where "e = rs_probe M (rm_head M) (rs_size M)"
  have e: "e < rs_size m" "rc_seq (rs_cell m e) = {}" using probe_empty [OF wf] assms(2,3) by (simp_all add: f t e_def)
  have un: "rs_unshare_all ub [0..<1] M = (M, True)" using assms(2,6) f by (simp add: not_le)
  have tl: "rc_tail (rs_cell m d) = -1" using assms(3) by (simp add: rs_tail_def)
  define m2 where "m2 = rs_upd d (\<lambda>c. c\<lparr>rc_tail := int e\<rparr>) M"
  define st where "st = \<lparr>as_m = m2, as_next = e, as_min = int e, as_max = int e\<rparr>"
  have asg: "fold_opt (rs_assign ub) [0..<1] \<lparr>as_m = M, as_next = e, as_min = int (rs_size M) - 1, as_max = 0\<rparr> = Some st"
    using e assms(2,5,6) by (simp add: rs_assign_def rs_owns_def rs_take_cell_def f tl Let_def m2_def st_def)
  have ga: "fold (rs_gather ub e) [0..<1] m2 = m2" using assms(2,6) by (simp add: rs_gather_def Let_def m2_def f)
  define m3 where "m3 = fold (rs_place ub e) [0..<1] m2"
  have m3: "rs_size m3 = rs_size m" "\<And>i. rc_src (rs_cell m3 i) = rc_src (rs_cell m i)" "\<And>u. rc_tail (rs_cell m3 u) = (if u = d then int e else rc_tail (rs_cell m u))"
    using assms(2,6) e(1) by (auto simp: m3_def rs_place_def Let_def m2_def f)
  define z where "z = (case find (\<lambda>i. refcount m3 i = 0) [e..<e + 1] of None \<Rightarrow> -1 | Some i \<Rightarrow> int i)"
  have z: "\<not> (rc_src (rs_cell m3 e) < 0 \<and> z < 0)"
  proof (cases "rc_src (rs_cell m3 e) < 0")
    case True
    have "rc_src (rs_cell m3 j) \<noteq> int e" if j: "j < rs_size m" for j
    proof
      assume a: "rc_src (rs_cell m3 j) = int e"
      then have "int e = -1 \<or> int e = int j" using rs_wfD(7) [OF assms(1) j] m3(2) by simp
      then show False using a True by simp
    qed
    then have "refcount m3 e = 0" unfolding refcount_0 m3(1) by blast
    then show ?thesis by (simp add: z_def)
  qed simp
  have sta: "fold_opt (rs_stage z) [e..<e + 1] (m3\<lparr>rm_rs_z := z\<rparr>) =
      Some (rs_upd e (\<lambda>c. c\<lparr>rc_src0 := if rc_src c < 0 then z else rc_src c, rc_src := int e\<rparr>) (m3\<lparr>rm_rs_z := z\<rparr>))"
    using z by (simp add: rs_stage_def)
  define m4 where "m4 = rs_upd e (\<lambda>c. c\<lparr>rc_src0 := if rc_src c < 0 then z else rc_src c, rc_src := int e\<rparr>) (m3\<lparr>rm_rs_z := z\<rparr>)"
  let ?m' = "m4\<lparr>rm_head := e, rm_n := nat ((int e - int e + 1) mod 2 ^ 32), rm_used := length (filter (\<lambda>c. rc_seq c \<noteq> {}) (rm_cells m4))\<rparr>"
  have "rs_find_slot ub m = Some (?m', rm_n ?m' \<ge> 1)"
    unfolding rs_find_slot_def Let_def assms(5) M_def [symmetric] un prod.case e_def [symmetric] asg option.case st_def assign_state.simps nat_int ga m3_def [symmetric] z_def [symmetric] sta m4_def [symmetric]
    using assms(4) asg [unfolded st_def] by (simp add: ga m3_def [symmetric] z_def [symmetric] sta m4_def [symmetric])
  moreover have "rs_tail ?m' u = (if u = d then int e else rs_tail m u)" for u
    using m3(3) by (simp add: rs_tail_def m4_def)
  ultimately show ?thesis using e by (intro exI [of _ ?m'] exI [of _ "rm_n ?m' \<ge> 1"]) auto
qed

subsection \<open>One sequence\<close>

lemma rm_whole:
  assumes "rs_wf m" "q < rs_size m" "q < rm_n_seq_max m" "rm_n_seq_max m < 2 ^ 31" "\<forall>p. rs_last m q = Some p \<longrightarrow> p < INT32_MAX"
  shows "\<exists>m'. rs_seq_rm (int q) (-1) (-1) m = Some (m', True) \<and> rs_wf m' \<and> rs_size m' = rs_size m \<and> rm_n_seq_max m' = rm_n_seq_max m \<and>
    rm_n_rs_seq m' = rm_n_rs_seq m \<and> rm_rs_idx m' = (rm_rs_idx m)[q := 0] \<and> rs_tail m' = (rs_tail m)(q := -1) \<and> rs_last m' = (rs_last m)(q := None)"
proof -
  define m1 where "m1 = m\<lparr>rm_rs_idx := (rm_rs_idx m)[q := 0]\<rparr>"
  have m1: "rs_size m1 = rs_size m" "rs_cell m1 = rs_cell m" "rs_tail m1 = rs_tail m" "rs_last m1 = rs_last m" "rm_n_rs_seq m1 = rm_n_rs_seq m"
    "rm_n_seq_max m1 = rm_n_seq_max m" "rm_rs_idx m1 = (rm_rs_idx m)[q := 0]"
    by (auto simp: m1_def rs_tail_def rs_last_def fun_eq_iff)
  have w1: "rs_wf m1" using rs_wf_rs_idx [OF assms(1)] rs_wfD(1) [OF assms(1)] by (simp add: m1_def)
  have q: "nat (int q mod 2 ^ 32) = q" "\<not> int q \<ge> int (rs_size m1)" using assms(2-4) by (simp_all add: m1)
  have start: "set_rs_idx (int q) 0 m = Some m1" using assms(3) by (simp add: set_rs_idx_def m1_def)
  have tail: "rc_tail (rs_cell m1 q) = rs_tail m q" by (simp add: m1 rs_tail_def)
  have e: "max (-1) 0 = (0 :: int)" "rs_end (-1) = INT32_MAX" by (simp_all add: rs_end_def)
  show ?thesis
  proof (cases "rs_last m q")
    case None
    then have nt: "\<not> 0 \<le> rs_tail m q" using assms(2) by (auto simp: rs_last_def split: if_splits)
    then have "rs_seq_rm (int q) (-1) (-1) m = Some (rs_rm_loop (int q) 0 INT32_MAX m1, True)"
      using q start assms(3) tail by (simp add: rs_seq_rm_def Let_def e)
    also have "rs_rm_loop (int q) 0 INT32_MAX m1 = m1"
      by (rule rs_rm_loop_none [OF w1]) (use None assms(2) m1 in auto)
    finally have r: "rs_seq_rm (int q) (-1) (-1) m = Some (m1, True)" .
    have "rs_tail m q = -1" using nt rs_wfD(4) [OF assms(1,2)] by simp
    then have "rs_tail m1 = (rs_tail m)(q := -1)" using m1(3) by (simp add: fun_eq_iff)
    moreover have "rs_last m1 = (rs_last m)(q := None)" using m1(4) None by (simp add: fun_eq_iff)
    ultimately show ?thesis using r w1 m1 by blast
  next
    case (Some p)
    note c = rs_last_shared [OF assms(1) Some]
    have l: "rs_last m1 q = Some p" "q < rs_size m1" "0 \<le> p" "p < INT32_MAX" using Some assms(2) m1 c assms(5) by simp_all
    have pos: "rc_pos (rs_cell m1 (nat (rs_tail m q))) = p" using c by (simp add: m1)
    obtain h where h: "rs_rm_loop (int q) 0 INT32_MAX (rs_upd q (\<lambda>c. c\<lparr>rc_tail := -1\<rparr>) m1) = rs_move_head h (rs_drop (int q) m1)"
      using rs_rm_loop_some [OF w1 l(2,1,3,4)] by blast
    have r: "rs_seq_rm (int q) (-1) (-1) m = Some (rs_move_head h (rs_drop (int q) m1), True)"
      unfolding rs_seq_rm_def Let_def using start q assms(3) tail pos c m1(5) l by (simp add: e h)
    note d = rs_drop_effect [OF w1 l(2)]
    have "rs_tail (rs_drop (int q) m1) = (rs_tail m)(q := -1)" using d m1(3) by (auto simp: fun_eq_iff)
    moreover have "rm_n_seq_max (rs_move_head h m') = rm_n_seq_max m'" for m' by (simp add: rs_move_head_def)
    moreover have "rs_last (rs_drop (int q) m1) = (rs_last m)(q := None)" using rs_last_drop [OF w1 l(2)] m1(4) by simp
    ultimately show ?thesis using r rs_wf_move_head [OF d(1), of h] d(2,4,5,6) m1 by (intro exI [of _ "rs_move_head h (rs_drop (int q) m1)"]) simp
  qed
qed

lemma rs_wf_set_src:
  assumes "rs_wf m" "i < rs_size m"
  shows "rs_wf (rs_upd i (\<lambda>c. c\<lparr>rc_src := int i\<rparr>) m)" "rs_last (rs_upd i (\<lambda>c. c\<lparr>rc_src := int i\<rparr>) m) = rs_last m"
    "rs_tail (rs_upd i (\<lambda>c. c\<lparr>rc_src := int i\<rparr>) m) = rs_tail m"
proof -
  let ?m = "rs_upd i (\<lambda>c. c\<lparr>rc_src := int i\<rparr>) m"
  have s: "rs_tail ?m = rs_tail m" "rs_occ ?m = rs_occ m" "rs_busy ?m = rs_busy m" "rs_size ?m = rs_size m" "rm_rs_idx ?m = rm_rs_idx m"
    "rm_n_seq_max ?m = rm_n_seq_max m" "rm_head ?m = rm_head m" "rm_used ?m = rm_used m"
    by (auto simp: rs_tail_def rs_occ_def rs_busy_def fun_eq_iff split: if_splits)
  have c: "rc_seq (rs_cell ?m k) = rc_seq (rs_cell m k)" "rc_pos (rs_cell ?m k) = rc_pos (rs_cell m k)" for k by simp_all
  have src: "rc_src (rs_cell ?m k) \<in> {-1, int k}" if "k < rs_size m" for k using rs_wfD(7) [OF assms(1) that] by auto
  show "rs_tail ?m = rs_tail m" by (rule s(1))
  show "rs_last ?m = rs_last m" unfolding rs_last_def s c by simp
  show "rs_wf ?m" using assms(1) src unfolding rs_wf_def s c by blast
qed

lemma load_one:
  assumes "rs_wf m" "d < rs_size m" "d < rm_n_seq_max m" "rm_n_seq_max m < 2 ^ 31" "\<forall>p. rs_last m d = Some p \<longrightarrow> p < INT32_MAX" "0 \<le> p"
    and ub: "ub_equal_seqs ub" "ub_n_seqs ub = 1" "set_ids ub 0 = [int d]" "set_last ub 0 = p" "ub_pos ub ! 0 = p"
  shows "\<exists>m1 m2. rs_seq_rm (int d) (-1) (-1) m = Some (m1, True) \<and> rs_find_slot ub m1 = Some (m2, True) \<and> rs_block_ok 1 (int d) ub m2 \<and>
    rm_head (rs_keep_rows 1 m2) < rs_size m \<and> rs_wf (rs_keep_rows 1 m2) \<and> rs_size (rs_keep_rows 1 m2) = rs_size m \<and>
    mem_frame (m\<lparr>rm_rs_idx := (rm_rs_idx m)[d := 0]\<rparr>) (rs_keep_rows 1 m2) \<and> rs_last (rs_keep_rows 1 m2) = (rs_last m)(d := Some p) \<and>
    rs_tail (rs_keep_rows 1 m2) = (rs_tail m)(d := int (rm_head (rs_keep_rows 1 m2))) \<and>
    (\<forall>u < rs_size m. u \<noteq> d \<longrightarrow> rs_tail m u \<noteq> int (rm_head (rs_keep_rows 1 m2)))"
proof -
  obtain m1 where m1: "rs_seq_rm (int d) (-1) (-1) m = Some (m1, True)" "rs_wf m1" "rs_size m1 = rs_size m" "rm_n_seq_max m1 = rm_n_seq_max m"
    "rm_n_rs_seq m1 = rm_n_rs_seq m" "rm_rs_idx m1 = (rm_rs_idx m)[d := 0]" "rs_tail m1 = (rs_tail m)(d := -1)" "rs_last m1 = (rs_last m)(d := None)"
    using rm_whole [OF assms(1-5)] by blast
  have ok: "rs_ub_ok (rs_size m1) ub" using ub assms(2,6) m1(3) by (simp add: rs_ub_ok_def)
  obtain m2 where m2: "rs_find_slot ub m1 = Some (m2, True)" "slot_found ub m1 m2" using rs_find_slot_effect [OF m1(2) ok] by blast
  have f: "rm_head m2 < rs_size m" "rc_seq (rs_cell m1 (rm_head m2)) = {}" "\<And>u. rs_tail m2 u = (if u = d then int (rm_head m2) else rs_tail m1 u)"
    using find_slot_single [OF m1(2), of d ub] assms(2) ub(1-3) m1(3,7) m2(1) by auto
  have s: "rs_wf m2" "rs_size m2 = rs_size m" "mem_frame m1 m2" "rc_seq (rs_cell m2 (rm_head m2)) = {int d}" "rs_last m2 d = Some p"
    "\<And>u. u \<noteq> d \<Longrightarrow> rs_last m2 u = rs_last m1 u"
  proof -
    have i: "in_sets ub u \<longleftrightarrow> u = d" for u using ub(2,3) by (auto simp: in_sets_def)
    show "rs_wf m2" "rs_size m2 = rs_size m" "mem_frame m1 m2" using m2(2) m1(3) unfolding slot_found_def mem_frame_def by auto
    have "rc_seq (rs_cell m2 (rm_head m2 + 0)) = set (set_ids ub 0)" using m2(2) ub(2) unfolding slot_found_def by simp
    then show "rc_seq (rs_cell m2 (rm_head m2)) = {int d}" using ub(3) by simp
    have "rs_last m2 d = Some (set_last ub 0)" using m2(2) ub(2,3) unfolding slot_found_def by force
    then show "rs_last m2 d = Some p" using ub(4) by simp
    show "rs_last m2 u = rs_last m1 u" if "u \<noteq> d" for u using m2(2) that i unfolding slot_found_def by blast
  qed
  have e: "rs_keep_rows 1 m2 = rs_upd (rm_head m2) (\<lambda>c. c\<lparr>rc_src := int (rm_head m2)\<rparr>) m2" by (simp add: rs_keep_rows_def)
  have h: "rm_head m2 < rs_size m2" using f(1) s(2) by simp
  have pos: "rc_pos (rs_cell m2 (rm_head m2)) = p" using s(5) f(3) [of d] by (simp add: rs_last_def split: if_splits)
  have block: "rs_block_ok 1 (int d) ub m2" using h pos s(4) ub(5) by (simp add: rs_block_ok_def)
  have last: "rs_last m2 = (rs_last m)(d := Some p)" using s(5,6) m1(8) by (auto simp: fun_eq_iff)
  have tail: "rs_tail m2 = (rs_tail m)(d := int (rm_head m2))" using f(3) m1(7) by (auto simp: fun_eq_iff)
  have other: "\<forall>u < rs_size m. u \<noteq> d \<longrightarrow> rs_tail m u \<noteq> int (rm_head m2)"
  proof (intro allI impI notI)
    fix u assume u: "u < rs_size m" "u \<noteq> d" "rs_tail m u = int (rm_head m2)"
    then have "rs_tail m1 u = int (rm_head m2)" using m1(7) by simp
    then have "int u \<in> rc_seq (rs_cell m1 (rm_head m2))" using rs_tail_cell(2) [OF m1(2), of u] u(1) m1(3) by simp
    then show False using f(2) by simp
  qed
  have frame: "mem_frame (m\<lparr>rm_rs_idx := (rm_rs_idx m)[d := 0]\<rparr>) (rs_keep_rows 1 m2)" unfolding e using s(3) m1(4-6) by (simp add: mem_frame_def)
  have hd: "rm_head (rs_keep_rows 1 m2) = rm_head m2" "rs_size (rs_keep_rows 1 m2) = rs_size m" unfolding e using s(2) by simp_all
  have w: "rs_wf (rs_keep_rows 1 m2)" "rs_last (rs_keep_rows 1 m2) = (rs_last m)(d := Some p)" "rs_tail (rs_keep_rows 1 m2) = (rs_tail m)(d := int (rm_head m2))"
    unfolding e using rs_wf_set_src [OF s(1) h] last tail by simp_all
  have "rm_head (rs_keep_rows 1 m2) < rs_size m" unfolding hd by (rule f(1))
  moreover have "rs_tail (rs_keep_rows 1 m2) = (rs_tail m)(d := int (rm_head (rs_keep_rows 1 m2)))" unfolding hd(1) by (rule w(3))
  moreover have "\<forall>u < rs_size m. u \<noteq> d \<longrightarrow> rs_tail m u \<noteq> int (rm_head (rs_keep_rows 1 m2))" unfolding hd(1) by (rule other)
  ultimately show ?thesis using m1(1) m2(1) block w(1,2) frame hd(2) by blast
qed

lemma picked_one: "rs_wf m \<Longrightarrow> rs_last m q = Some p \<Longrightarrow> filter (rs_picked m (int q)) [0..<rs_size m] = [nat (rs_tail m q)]"
proof -
  assume a: "rs_wf m" "rs_last m q = Some p"
  note l = last_in_cell [OF a]
  have "rs_picked m (int q) i \<longleftrightarrow> i = nat (rs_tail m q)" if "i < rs_size m" for i
    using rs_seq_tail(3) [OF a(1) that, of "int q"] l(2,4) by (auto simp: rs_picked_def)
  then have "filter (rs_picked m (int q)) [0..<rs_size m] = filter (\<lambda>i. i = nat (rs_tail m q)) [0..<rs_size m]" by (intro filter_cong) auto
  also have "filter (\<lambda>i. i = nat (rs_tail m q)) [0..<n] = (if nat (rs_tail m q) < n then [nat (rs_tail m q)] else [])" for n by (induction n) auto
  ultimately show ?thesis using l(1) by simp
qed

lemma write_one_bytes:
  assumes "rs_store_ok st" "rs_last (rt_mem st) q = Some p"
  shows "\<exists>rs. rs_state_write False (int q) st = Some (u32_out 1 @ i32_out p @ u32_out 0 @ rs_state_write_data st rs) \<and>
    expand rs = [rs_row (rt_mem st) q] \<and> in_ranges (rs_rows (rt_mem st)) rs"
proof -
  let ?m = "rt_mem st"
  note w = rs_store_okD(1) [OF assms(1)] and l = last_in_cell [OF rs_store_okD(1) [OF assms(1)] assms(2)]
  have g: "rs_write_idx ?m (int q) c = Some (rs_idx_of ?m q) \<and> rs_idx_of ?m q \<le> rm_n_rs_seq ?m" for c
    using idx_le [OF assms] rs_store_okD(4) [OF assms] rs_wfD(1) [OF w] by (simp add: rs_write_idx_def rs_idx_of_def)
  have c: "rs_write_cell ?m (int q) (nat (rs_tail ?m q)) = i32_out p @ u32_out 0" using l(3) by (simp add: rs_write_cell_def)
  show ?thesis using rs_write_all [of st "int q" "\<lambda>_. rs_idx_of ?m q"] w g c picked_one [OF w assms(2)] by (auto simp: rs_rows_def rs_row_def)
qed

definition one_ubatch :: "nat \<Rightarrow> int \<Rightarrow> llama_pos \<Rightarrow> llama_ubatch" where
  \<comment> \<open>the micro-batch that \<open>state_read_meta\<close> fills in for one cell\<close>
  "one_ubatch n_pos dest p = (let ub = snd (ubatch_reserve 1 1 (allocr_new n_pos)) in
     ub\<lparr>ub_pos := (ub_pos ub)[0 := p], ub_n_seq_id := (ub_n_seq_id ub)[0 := 1], ub_seq_id := (ub_seq_id ub)[0 := [dest]]\<rparr>)"

lemma one_ubatch_facts:
  assumes "0 < n_pos"
  shows "ub_equal_seqs (one_ubatch n_pos dest p)" "ub_n_seqs (one_ubatch n_pos dest p) = 1" "set_ids (one_ubatch n_pos dest p) 0 = [dest]"
    "set_last (one_ubatch n_pos dest p) 0 = p" "ub_pos (one_ubatch n_pos dest p) ! 0 = p"
  using assms by (simp_all add: one_ubatch_def ubatch_reserve_def Let_def set_ids_def set_last_def allocr_clear_def split_reset_def allocr_new_def)

lemma read_meta_one:
  assumes "rs_seq_rm dest (-1) (-1) (rt_mem st) = Some (m1, True)" "rs_find_slot (one_ubatch (rt_n_pos st) dest p) m1 = Some (m2, True)"
    "rs_block_ok 1 dest (one_ubatch (rt_n_pos st) dest p) m2" "i32_ok p" "dest \<noteq> -1"
  shows "rs_state_read_meta 1 dest (rd (i32_out p @ u32_out 0 @ zs) st) = (Inr True, rd zs (st\<lparr>rt_mem := rs_keep_rows 1 m2\<rparr>))"
proof -
  let ?ub = "snd (ubatch_reserve 1 1 (allocr_new (rt_n_pos st)))"
  have loop: "io_loop rs_read_pos [0..<1] ps (rd (i32_out p @ u32_out 0 @ zs) st') = (Inr (True, ps[0 := p]), rd zs st')" for ps st' zs
    using assms(4) by (simp add: rs_read_pos_def io_run io_ret_def)
  have loopb: "io_bind (io_loop rs_read_pos [0..<1] ps) f (rd (i32_out p @ u32_out 0 @ zs) st') = f (True, ps[0 := p]) (rd zs st')"
    for ps st' zs and f :: "bool \<times> llama_pos list \<Rightarrow> bool rs_reader" using loop by (simp add: io_bind_def)
  have "rs_read_meta_seq 1 dest (rd (i32_out p @ u32_out 0 @ zs) st) = (Inr True, rd zs (st\<lparr>rt_mem := m2\<rparr>))"
    unfolding rs_read_meta_seq_def
    using assms(1-3) by (simp add: lift_mem_bind io_run loopb Let_def io_ret_def one_ubatch_def del: One_nat_def upt_Suc upt_rec)
  then show ?thesis using assms(5) by (simp add: rs_state_read_meta_def io_bind_def on_mem_def io_upd_def io_ret_def)
qed

lemma rs_seq_restored:
  assumes "rs_store_ok st" "rs_last (rt_mem st) q = Some p" "rs_store_ok st'" "stores_like st st'" "0 < rt_n_pos st'"
    and "dest < rs_size (rt_mem st')" "dest < rm_n_seq_max (rt_mem st')" "rs_last (rt_mem st') dest \<noteq> Some INT32_MAX"
  shows "\<exists>bytes st''. rs_state_write False (int q) st = Some bytes \<and> rs_state_read (int dest) (rd (bytes @ zs) st') = (Inr (), rd zs st'') \<and>
    rs_wf (rt_mem st'') \<and> rs_last (rt_mem st'') = (rs_last (rt_mem st'))(dest := Some p) \<and> rs_state_of st'' dest = rs_state_of st q \<and>
    (\<forall>u. u \<noteq> dest \<longrightarrow> rs_last (rt_mem st') u \<noteq> None \<longrightarrow> rs_state_of st'' u = rs_state_of st' u)"
proof -
  let ?src = "rt_mem st" and ?m = "rt_mem st'"
  note w0 = rs_store_okD(1) [OF assms(1)] and w = rs_store_okD(1) [OF assms(3)]
  obtain rs where rs: "rs_state_write False (int q) st = Some (u32_out 1 @ i32_out p @ u32_out 0 @ rs_state_write_data st rs)"
    "expand rs = [rs_row ?src q]" "in_ranges (rs_rows ?src) rs" using write_one_bytes [OF assms(1,2)] by (elim exE conjE)
  have pos_ok: "i32_ok x" if "rs_store_ok s" "rs_last (rt_mem s) u = Some x" for s u x
    using rs_store_okD(3) [OF that(1) last_in_cell(1) [OF rs_store_okD(1) [OF that(1)] that(2)]] last_in_cell(3) [OF rs_store_okD(1) [OF that(1)] that(2)] by simp
  have p: "i32_ok p" by (rule pos_ok [OF assms(1,2)])
  have p0: "0 \<le> p" using rs_last_shared [OF w0 assms(2)] by blast
  have lt: "\<forall>x. rs_last ?m dest = Some x \<longrightarrow> x < INT32_MAX"
  proof (intro allI impI)
    fix x assume that: "rs_last ?m dest = Some x"
    have "i32_ok x" by (rule pos_ok [OF assms(3) that])
    then show "x < INT32_MAX" using assms(8) that by (auto simp: i32_ok_def INT32_MAX_def order_le_less)
  qed
  let ?ub = "one_ubatch (rt_n_pos st') (int dest) p"
  obtain m1 m2 where m: "rs_seq_rm (int dest) (-1) (-1) ?m = Some (m1, True)" "rs_find_slot ?ub m1 = Some (m2, True)" "rs_block_ok 1 (int dest) ?ub m2"
    "rm_head (rs_keep_rows 1 m2) < rs_size ?m" "rs_wf (rs_keep_rows 1 m2)" "rs_size (rs_keep_rows 1 m2) = rs_size ?m"
    "mem_frame (?m\<lparr>rm_rs_idx := (rm_rs_idx ?m)[dest := 0]\<rparr>) (rs_keep_rows 1 m2)" "rs_last (rs_keep_rows 1 m2) = (rs_last ?m)(dest := Some p)"
    "rs_tail (rs_keep_rows 1 m2) = (rs_tail ?m)(dest := int (rm_head (rs_keep_rows 1 m2)))"
    "\<forall>u < rs_size ?m. u \<noteq> dest \<longrightarrow> rs_tail ?m u \<noteq> int (rm_head (rs_keep_rows 1 m2))"
    using load_one [OF w assms(6,7) rs_store_okD(2) [OF assms(3)] lt p0 one_ubatch_facts [OF assms(5)]] by (elim exE conjE)
  define m3 h where "m3 = rs_keep_rows 1 m2" and "h = rm_head m3"
  have fr: "rm_n_rs_seq m3 = rm_n_rs_seq ?m" "rm_n_seq_max m3 = rm_n_seq_max ?m" "rm_rs_idx m3 = (rm_rs_idx ?m)[dest := 0]" "rs_size m3 = rs_size ?m"
    using m(6,7) by (simp_all add: mem_frame_def m3_def)
  define st2 where "st2 = st'\<lparr>rt_mem := m3\<rparr>"
  have meta: "io_bind (rs_state_read_meta 1 (int dest)) f (rd (i32_out p @ u32_out 0 @ ys) st') = f True (rd ys st2)" for ys and f :: "bool \<Rightarrow> unit rs_reader"
    unfolding st2_def m3_def by (rule io_bind_Inr, rule read_meta_one [OF m(1-3) p]) simp
  define st3 where "st3 = st2\<lparr>rt_layers := map (\<lambda>j. copy_layer rs h (rt_layers st ! j) (rt_layers st' ! j)) [0..<length (rt_layers st')]\<rparr>"
  have like: "stores_like st st2" using assms(4) by (simp add: stores_like_def st2_def)
  have ok0: "\<forall>l \<in> set (rt_layers st). rs_layer_ok (rs_rows ?src) l" using rs_store_okD(6) [OF assms(1)] by blast
  have data: "rs_state_read_data 1 (rd (rs_state_write_data st rs @ zs) st2) = (Inr True, rd zs st3)"
    using rs_read_data_run [OF like ok0 rs(3), of 1 zs] rs(2) assms(6) fr(4) unfolding st3_def h_def by (simp add: st2_def)
  have catch: "io_bind (io_catch (rs_state_read_data 1)) f (rd (rs_state_write_data st rs @ zs) st2) = f True (rd zs st3)" for f :: "bool \<Rightarrow> unit rs_reader"
    using data by (simp add: io_bind_def io_catch_def)
  have mem3: "rt_mem st3 = m3" by (simp add: st3_def st2_def)
  have setidx: "set_rs_idx (int dest) 0 m3 = Some m3" using fr(2,3) assms(7) by (simp add: set_rs_idx_def)
  have same: "st3\<lparr>rt_mem := m3\<rparr> = st3" using mem3 by (cases st3) simp
  have read: "rs_state_read (int dest) (rd ((u32_out 1 @ i32_out p @ u32_out 0 @ rs_state_write_data st rs) @ zs) st') = (Inr (), rd zs st3)"
    unfolding rs_state_read_def by (simp add: io_run meta catch mem3 setidx lift_mem_run io_ret_def same del: One_nat_def)
  have len: "length (rt_layers st') = length (rt_layers st)" using assms(4) by (simp add: stores_like_def)
  have hrow: "h + length (expand rs) \<le> rs_rows ?m" using rs(2) m(4) by (simp add: rs_rows_def h_def m3_def)
  have rows: "layer_rows k (copy_layer rs h (rt_layers st ! j) (rt_layers st' ! j)) = (if k = h then layer_rows (rs_row ?src q) (rt_layers st ! j) else layer_rows k (rt_layers st' ! j))"
    if j: "j < length (rt_layers st)" for j k
  proof -
    have "rs_layer_like (rt_layers st ! j) (rt_layers st' ! j)" "rs_layer_ok (rs_rows ?src) (rt_layers st ! j)" "rs_layer_ok (rs_rows ?m) (rt_layers st' ! j)"
      using assms(4) j len rs_store_okD(6) [OF assms(1)] rs_store_okD(6) [OF assms(3)] by (auto simp: stores_like_def)
    from layer_rows_copied [OF this rs(3) hrow, of k] show ?thesis using rs(2) by auto
  qed
  have dl: "dest < length (rm_rs_idx ?m)" using assms(7) rs_wfD(1) [OF w] by simp
  have tl: "rs_tail m3 = (rs_tail ?m)(dest := int h)" using m(9) unfolding m3_def [symmetric] h_def [symmetric] .
  have rowd: "rs_row m3 dest = h" using dl by (simp add: rs_row_def rs_idx_of_def fr tl)
  have "rs_state_of st3 dest = rs_state_of st q"
    unfolding rs_state_of_def mem3 rowd by (rule nth_equalityI) (simp_all add: st3_def len rows)
  moreover have "rs_state_of st3 u = rs_state_of st' u" if u: "u \<noteq> dest" "rs_last ?m u \<noteq> None" for u
  proof -
    have ul: "u < rs_size ?m" "0 \<le> rs_tail ?m u" using u(2) by (auto simp: rs_last_def split: if_splits)
    have r: "rs_row m3 u = rs_row ?m u" using u(1) by (simp add: rs_row_def rs_idx_of_def fr tl)
    have "rs_row ?m u \<noteq> h"
    proof (cases "rs_idx_of ?m u = 0")
      case True
      then show ?thesis using m(10) u(1) ul unfolding rs_row_def h_def m3_def by auto
    next
      case False
      then have "rs_size ?m \<le> rs_idx_of ?m u * rs_size ?m" by simp
      then show ?thesis using m(4) unfolding rs_row_def h_def m3_def by linarith
    qed
    then show ?thesis unfolding rs_state_of_def mem3 r by (intro nth_equalityI) (simp_all add: st3_def st2_def len rows)
  qed
  moreover have "rs_wf (rt_mem st3)" "rs_last (rt_mem st3) = (rs_last ?m)(dest := Some p)" unfolding mem3 m3_def by (rule m(5), rule m(8))
  ultimately show ?thesis
    by (intro exI [of _ "u32_out 1 @ i32_out p @ u32_out 0 @ rs_state_write_data st rs"] exI [of _ st3] conjI allI impI) (rule rs(1) read; assumption | assumption)+
qed

subsection \<open>Properties\<close>

text \<open>C9. Saving and restoring a recurrent memory: what \<open>state_write\<close> writes of all sequences, \<open>state_read\<close>
  accepts in any memory of the same model that has cells and sequence ids enough, whatever it holds. It
  reads exactly the bytes written, and then the memory keeps its invariant and every sequence has the last
  position and, layer for layer, the rows of state it had in the saved memory; for a sequence with a pending rollback
  these are the rows of the snapshot.\<close>

theorem rs_state_save_restore:
  assumes "rs_store_ok st" "planes_agree (rt_mem st)" "rs_store_ok st'" "stores_like st st'" "rm_used (rt_mem st) \<le> rs_size (rt_mem st')"
    and "\<forall>q. rs_last (rt_mem st) q \<noteq> None \<longrightarrow> q < rs_size (rt_mem st') \<and> q < rm_n_seq_max (rt_mem st')"
  shows "\<exists>bytes st''. rs_state_write False (-1) st = Some bytes \<and>
    rs_state_read (-1) \<lparr>in_bytes = bytes @ rest_of_file, in_st = st'\<rparr> = (Inr (), \<lparr>in_bytes = rest_of_file, in_st = st''\<rparr>) \<and>
    rs_wf (rt_mem st'') \<and> rs_last (rt_mem st'') = rs_last (rt_mem st) \<and>
    (\<forall>q. rs_last (rt_mem st) q \<noteq> None \<longrightarrow> rs_state_of st'' q = rs_state_of st q)"
  by (rule rs_restored [OF assms])

text \<open>C12. Saving one sequence of a recurrent memory and restoring it as sequence \<open>dest\<close> of another
  memory of the same model: \<open>state_read\<close> finds it a cell, reads exactly the bytes written, and then
  \<open>dest\<close> has the last position and the rows of state of the saved sequence, while every other
  sequence has its own position and rows still.\<close>

theorem rs_seq_save_restore:
  assumes "rs_store_ok st" "rs_last (rt_mem st) q = Some p" "rs_store_ok st'" "stores_like st st'" "0 < rt_n_pos st'"
    and "dest < rs_size (rt_mem st')" "dest < rm_n_seq_max (rt_mem st')" "rs_last (rt_mem st') dest \<noteq> Some INT32_MAX"
  shows "\<exists>bytes st''. rs_state_write False (int q) st = Some bytes \<and>
    rs_state_read (int dest) \<lparr>in_bytes = bytes @ rest_of_file, in_st = st'\<rparr> = (Inr (), \<lparr>in_bytes = rest_of_file, in_st = st''\<rparr>) \<and>
    rs_wf (rt_mem st'') \<and> rs_last (rt_mem st'') = (rs_last (rt_mem st'))(dest := Some p) \<and> rs_state_of st'' dest = rs_state_of st q \<and>
    (\<forall>u. u \<noteq> dest \<longrightarrow> rs_last (rt_mem st') u \<noteq> None \<longrightarrow> rs_state_of st'' u = rs_state_of st' u)"
  by (rule rs_seq_restored [OF assms])

definition rs_demo_store :: rs_store where
  \<comment> \<open>one layer: two cells and two snapshots of each, in rows of two bytes\<close>
  "rs_demo_store = \<lparr>rt_mem = rs_demo, rt_n_pos = 1, rt_layers =
     [\<lparr>rl_r = Some \<lparr>rt_type = 0, rt_row = 2, rt_data = map word_of_nat [0..<12]\<rparr>, rl_p = None,
       rl_s = Some \<lparr>rt_type = 1, rt_row = 1, rt_data = map word_of_nat [20..<26]\<rparr>\<rparr>]\<rparr>"

lemma rs_demo_store_ok: "rs_store_ok rs_demo_store" "planes_agree rs_demo" "stores_like rs_demo_store rs_demo_store"
proof -
  have two: "i = 0 \<or> i = Suc 0" if "i < 2" for i :: nat using that by auto
  have r: "rs_rows rs_demo = 6" by (simp add: rs_rows_def rs_demo_facts)
  have l: "rs_last rs_demo q \<noteq> None \<Longrightarrow> q < 2" for q by (simp add: rs_last_def rs_demo_facts split: if_splits)
  show "stores_like rs_demo_store rs_demo_store" by (simp add: stores_like_def rs_demo_store_def rs_layer_like_def tensor_like_def)
  have z: "rs_idx_of rs_demo q = 0" if "rs_last rs_demo q \<noteq> None" for q using two [OF l [OF that]] by (auto simp: rs_idx_of_def rs_demo_facts)
  show "planes_agree rs_demo" unfolding planes_agree_def using z by simp
  have "\<forall>i < 2. i32_ok (rc_pos (rs_cell rs_demo i))" by (auto simp: i32_ok_def rs_cell_def rs_demo_def dest!: two)
  moreover have "\<forall>q < 2. [0, 0] ! q \<le> (2 :: nat)" by (auto dest!: two)
  moreover have "\<forall>l \<in> set (rt_layers rs_demo_store). rs_layer_ok 6 l" by (simp add: rs_demo_store_def rs_layer_ok_def tensor_ok_def i32_ok_def)
  moreover have "rt_mem rs_demo_store = rs_demo" by (simp add: rs_demo_store_def)
  ultimately show "rs_store_ok rs_demo_store" unfolding rs_store_ok_def Let_def using l r by (simp add: rs_demo_facts)
qed

theorem rs_state_save_restore_witness:
  "\<exists>bytes st''. rs_state_write False (-1) rs_demo_store = Some bytes \<and> rs_state_read (-1) \<lparr>in_bytes = bytes @ [7], in_st = rs_demo_store\<rparr> =
    (Inr (), \<lparr>in_bytes = [7], in_st = st''\<rparr>) \<and> rs_last (rt_mem st'') 1 = Some 5"
proof -
  have m: "rt_mem rs_demo_store = rs_demo" "rm_used rs_demo = 1" by (simp_all add: rs_demo_store_def rs_demo_def)
  have l: "\<forall>q. rs_last rs_demo q \<noteq> None \<longrightarrow> q < 2" by (simp add: rs_last_def rs_demo_facts)
  show ?thesis using rs_state_save_restore [of rs_demo_store rs_demo_store "[7]"] rs_demo_store_ok l rs_demo_facts(4) by (auto simp: m rs_demo_facts(2,10))
qed

theorem rs_seq_save_restore_witness:
  "\<exists>bytes st''. rs_state_write False 0 rs_demo_store = Some bytes \<and> rs_state_read 1 \<lparr>in_bytes = bytes, in_st = rs_demo_store\<rparr> =
    (Inr (), \<lparr>in_bytes = [], in_st = st''\<rparr>) \<and> rs_state_of st'' 1 = rs_state_of rs_demo_store 0"
proof -
  have m: "rt_mem rs_demo_store = rs_demo" "0 < rt_n_pos rs_demo_store" by (simp_all add: rs_demo_store_def)
  show ?thesis using rs_seq_save_restore [of rs_demo_store 0 5 rs_demo_store 1 "[]"] rs_demo_store_ok rs_demo_facts(2,3,4,10)
    by (auto simp: m INT32_MAX_def)
qed

end
