(* ===== verification/RecMachine.thy ===== *)
theory RecMachine
  imports RecState
begin

text \<open>
  The recurrent memory as a state machine: a memory is built by the constructor and changed by the
  operations of \<open>llama_memory_i\<close>, by micro-batches being tried and placed, by the graph reading
  \<open>s_copy\<close>, and by restoring what \<open>state_write\<close> wrote. The state is the memory with its tensors.
\<close>

subsection \<open>Every reachable memory\<close>

datatype rs_op = RClear | RSeqRm nat llama_pos llama_pos | RSeqCp nat nat llama_pos llama_pos | RSeqKeep int
  | RSeqAdd nat llama_pos llama_pos llama_pos | RSeqDiv nat llama_pos llama_pos int | RPrepare "llama_ubatch list" | RApply llama_ubatch
  | RCopy nat | RReadAll rs_store | RReadSeq rs_store nat nat

definition rs_op_ok :: "rs_op \<Rightarrow> rs_store \<Rightarrow> bool" where
  \<comment> \<open>what the callers have to see to: ids the memory has, shifts that leave the position at zero or above,
     micro-batches of the splitter, and bytes of a memory of the same model\<close>
  "rs_op_ok oper st = (let m = rt_mem st in case oper of
     RSeqRm q p0 p1 \<Rightarrow> q < rs_size m \<and> q < rm_n_seq_max m \<and> rm_n_seq_max m < 2 ^ 31
   | RSeqCp q d p0 p1 \<Rightarrow> q < rs_size m \<and> d < rs_size m
   | RSeqAdd q p0 p1 shift \<Rightarrow> q < rs_size m \<and> (\<forall>p \<in> set_option (rs_last m q). 0 \<le> p + shift)
   | RSeqDiv q p0 p1 d \<Rightarrow> q < rs_size m \<and> 0 < d
   | RPrepare ubs \<Rightarrow> \<forall>ub \<in> set ubs. rs_ub_ok (rs_size m) ub
   | RApply ub \<Rightarrow> rs_ub_ok (rs_size m) ub
   | RReadAll src \<Rightarrow> rs_store_ok src \<and> planes_agree (rt_mem src) \<and> rs_store_ok st \<and> stores_like src st \<and>
       rm_used (rt_mem src) \<le> rs_size m \<and>
       (\<forall>q. rs_last (rt_mem src) q \<noteq> None \<longrightarrow> q < rs_size m \<and> q < rm_n_seq_max m)
   | RReadSeq src q dest \<Rightarrow> rs_store_ok src \<and> rs_last (rt_mem src) q \<noteq> None \<and> rs_store_ok st \<and> stores_like src st \<and>
       0 < rt_n_pos st \<and> dest < rs_size m \<and> dest < rm_n_seq_max m \<and> rs_last m dest \<noteq> Some INT32_MAX
   | _ \<Rightarrow> True)"

definition rs_restore :: "int \<Rightarrow> rs_store \<Rightarrow> int \<Rightarrow> rs_store \<Rightarrow> rs_store option" where
  \<comment> \<open>write sequence \<open>q\<close> of the first store and read the bytes as sequence \<open>dest\<close> of the second\<close>
  "rs_restore q src dest st = (case rs_state_write False q src of None \<Rightarrow> None
     | Some bytes \<Rightarrow> (case rs_state_read dest \<lparr>in_bytes = bytes, in_st = st\<rparr> of
         (Inr _, r) \<Rightarrow> Some (in_st r) | (Inl _, _) \<Rightarrow> None))"

definition rs_exec :: "rs_op \<Rightarrow> rs_store \<Rightarrow> rs_store option" where
  "rs_exec oper st = (let m = rt_mem st; put = (\<lambda>m. st\<lparr>rt_mem := m\<rparr>) in case oper of
     RClear \<Rightarrow> Some (put (rs_clear m))
   | RSeqRm q p0 p1 \<Rightarrow> map_option (put \<circ> fst) (rs_seq_rm (int q) p0 p1 m)
   | RSeqCp q d p0 p1 \<Rightarrow> Some (put (rs_seq_cp (int q) (int d) p0 p1 m))
   | RSeqKeep k \<Rightarrow> Some (put (rs_seq_keep k m))
   | RSeqAdd q p0 p1 shift \<Rightarrow> Some (put (rs_seq_add (int q) p0 p1 shift m))
   | RSeqDiv q p0 p1 d \<Rightarrow> Some (put (rs_seq_div (int q) p0 p1 d m))
   | RPrepare ubs \<Rightarrow> map_option (put \<circ> fst) (rs_prepare ubs m)
   | RApply ub \<Rightarrow> map_option (put \<circ> fst) (rs_find_slot ub m)
   | RCopy i \<Rightarrow> Some (put (fst (rs_s_copy i m)))
   | RReadAll src \<Rightarrow> rs_restore (-1) src (-1) st
   | RReadSeq src q dest \<Rightarrow> rs_restore (int q) src (int dest) st)"

inductive rs_reachable :: "rs_store \<Rightarrow> bool" where
  init: "mem_size < 2 ^ 31 \<Longrightarrow> rt_mem st = rs_new mem_size n_seq_max n_rs_seq \<Longrightarrow> rs_reachable st"
| step: "rs_reachable st \<Longrightarrow> rs_op_ok oper st \<Longrightarrow> rs_exec oper st = Some st' \<Longrightarrow> rs_reachable st'"

lemma rs_exec_wf:
  assumes wf: "rs_wf (rt_mem st)" and ok: "rs_op_ok oper st"
  shows "\<exists>st'. rs_exec oper st = Some st' \<and> rs_wf (rt_mem st')"
proof (cases oper)
  case RClear
  then show ?thesis using rs_clear_effect [OF wf] by (simp add: rs_exec_def [unfolded Let_def])
next
  case (RSeqRm q p0 p1)
  then obtain m' ok' where "rs_seq_rm (int q) p0 p1 (rt_mem st) = Some (m', ok')" "rs_wf m'"
    using rs_seq_rm_effect [OF wf, of q p0 p1] ok [unfolded rs_op_ok_def Let_def] by auto
  then show ?thesis using RSeqRm by (simp add: rs_exec_def [unfolded Let_def])
next
  case (RSeqCp q d p0 p1)
  then show ?thesis
    using rs_cp_effect [OF wf, of q d p0 p1] ok [unfolded rs_op_ok_def Let_def] wf by (cases "q = d") (auto simp: rs_exec_def [unfolded Let_def] rs_seq_cp_def)
next
  case (RSeqKeep k)
  then show ?thesis using rs_keep_effect [OF wf, of k] by (simp add: rs_exec_def [unfolded Let_def])
next
  case (RSeqAdd q p0 p1 shift)
  then have "q < rs_size (rt_mem st)" "\<And>p. rs_last (rt_mem st) q = Some p \<Longrightarrow> 0 \<le> p + shift" using ok [unfolded rs_op_ok_def Let_def] by auto
  then have "rs_wf (rs_on_pos (int q) p0 p1 (\<lambda>p. p + shift) (rt_mem st))" by (rule rs_on_pos_effect [OF wf, THEN conjunct1])
  then show ?thesis using RSeqAdd wf by (simp add: rs_exec_def [unfolded Let_def] rs_seq_add_def)
next
  case (RSeqDiv q p0 p1 d)
  then have q: "q < rs_size (rt_mem st)" "0 < d" using ok [unfolded rs_op_ok_def Let_def] by auto
  have "0 \<le> c_div p d" if "rs_last (rt_mem st) q = Some p" for p
    using rs_last_shared [OF wf that] q(2) by (simp add: pos_imp_zdiv_nonneg_iff)
  then have "rs_wf (rs_on_pos (int q) p0 p1 (\<lambda>p. c_div p d) (rt_mem st))" by (rule rs_on_pos_effect [OF wf q(1), THEN conjunct1])
  then show ?thesis using RSeqDiv wf by (simp add: rs_exec_def [unfolded Let_def] rs_seq_div_def)
next
  case (RPrepare ubs)
  then show ?thesis using rs_prepare_effect [OF wf, of ubs] ok [unfolded rs_op_ok_def Let_def] by (auto simp: rs_exec_def [unfolded Let_def])
next
  case (RApply ub)
  then obtain m' where "rs_find_slot ub (rt_mem st) = Some (m', True)" "slot_found ub (rt_mem st) m'"
    using rs_find_slot_effect [OF wf, of ub] ok [unfolded rs_op_ok_def Let_def] by auto
  then show ?thesis using RApply by (simp add: rs_exec_def [unfolded Let_def] slot_found_def)
next
  case (RCopy i)
  have "rs_wf ((rt_mem st)\<lparr>rm_rs_idx := (rm_rs_idx (rt_mem st))[q := 0]\<rparr>)" for q
    by (rule rs_wf_rs_idx [OF wf]) (use rs_wfD(1) [OF wf] in simp)
  then show ?thesis using RCopy wf by (simp add: rs_exec_def [unfolded Let_def] rs_s_copy_def Let_def)
next
  case (RReadAll src)
  then have o: "rs_store_ok src" "planes_agree (rt_mem src)" "rs_store_ok st" "stores_like src st" "rm_used (rt_mem src) \<le> rs_size (rt_mem st)"
    "\<forall>q. rs_last (rt_mem src) q \<noteq> None \<longrightarrow> q < rs_size (rt_mem st) \<and> q < rm_n_seq_max (rt_mem st)"
    using ok [unfolded rs_op_ok_def Let_def] by simp_all
  obtain bytes st'' where "rs_state_write False (-1) src = Some bytes" "rs_state_read (-1) (rd (bytes @ []) st) = (Inr (), rd [] st'')"
    "rs_wf (rt_mem st'')"
    using rs_restored [OF o, of "[]"] by blast
  then show ?thesis using RReadAll by (simp add: rs_exec_def [unfolded Let_def] rs_restore_def)
next
  case (RReadSeq src q dest)
  then obtain p where o: "rs_store_ok src" "rs_last (rt_mem src) q = Some p" "rs_store_ok st" "stores_like src st" "0 < rt_n_pos st"
    "dest < rs_size (rt_mem st)" "dest < rm_n_seq_max (rt_mem st)" "rs_last (rt_mem st) dest \<noteq> Some INT32_MAX"
    using ok [unfolded rs_op_ok_def Let_def] by auto
  obtain bytes st'' where "rs_state_write False (int q) src = Some bytes" "rs_state_read (int dest) (rd (bytes @ []) st) = (Inr (), rd [] st'')"
    "rs_wf (rt_mem st'')"
    using rs_seq_restored [OF o, of "[]"] by blast
  then show ?thesis using RReadSeq by (simp add: rs_exec_def [unfolded Let_def] rs_restore_def)
qed

lemma rs_reachable_wf: "rs_reachable st \<Longrightarrow> rs_wf (rt_mem st)"
proof (induction rule: rs_reachable.induct)
  case (step st oper st') then show ?case using rs_exec_wf by fastforce
qed (simp add: rs_wf_new)

text \<open>C19. Start from a new recurrent memory and apply the operations in any order, with ids that the memory
  has, shifts that leave positions at zero or above, micro-batches of the splitter, and complete states that a
  memory of the same model wrote (\<open>rs_op_ok\<close> has these conditions in full). In every memory on the way the sequences of a cell are
  exactly those whose tail it is, so every sequence is in one cell at most, \<open>used\<close> counts the
  cells in use, and every such operation that may come next returns, with no assertion failed and no bytes refused. The bound on shifts is needed:
  \<open>seq_add\<close> does not check the position it makes (theorem \<open>negative_shift_stays\<close>).\<close>

theorem rs_reachable_ok:
  assumes "rs_reachable st"
  shows "rs_wf (rt_mem st) \<and>
    (\<forall>i < rs_size (rt_mem st). \<forall>j < rs_size (rt_mem st). i \<noteq> j \<longrightarrow> rc_seq (rs_cell (rt_mem st) i) \<inter> rc_seq (rs_cell (rt_mem st) j) = {}) \<and>
    rm_used (rt_mem st) = card (rs_busy (rt_mem st)) \<and> (\<forall>oper. rs_op_ok oper st \<longrightarrow> (\<exists>st'. rs_exec oper st = Some st'))"
proof -
  have wf: "rs_wf (rt_mem st)" by (rule rs_reachable_wf [OF assms])
  have "rc_seq (rs_cell (rt_mem st) i) \<inter> rc_seq (rs_cell (rt_mem st) j) = {}"
    if "i < rs_size (rt_mem st)" "j < rs_size (rt_mem st)" "i \<noteq> j" for i j
    using rs_seq_tail(3) [OF wf that(1)] rs_seq_tail(3) [OF wf that(2)] that(3) by fastforce
  then show ?thesis using wf rs_exec_wf [OF wf] rs_wfD(10) [OF wf] by blast
qed

theorem rs_reachable_ok_witness:
  "rs_wf (rs_seq_cp 0 1 (-1) (-1) (rs_new 2 2 1))"
proof -
  let ?st = "rs_demo_store\<lparr>rt_mem := rs_new 2 2 1\<rparr>"
  have "rs_reachable ?st" by (rule rs_reachable.init [of 2 _ 2 1]) simp_all
  then have "rs_reachable (?st\<lparr>rt_mem := rs_seq_cp (int 0) (int 1) (-1) (-1) (rs_new 2 2 1)\<rparr>)"
    by (rule rs_reachable.step [of _ "RSeqCp 0 1 (-1) (-1)"])
      (simp_all add: rs_op_ok_def rs_exec_def rs_new_def rs_size_def)
  from rs_reachable_ok [OF this] show ?thesis by simp
qed

text \<open>A sequence that \<open>seq_add\<close> moves below zero cannot be removed any more: \<open>seq_rm\<close> of all its
  positions returns true and leaves it where it is. And \<open>seq_keep\<close> of another sequence empties its cell
  without counting it out.\<close>

theorem negative_shift_stays:
  "(\<exists>m. rs_seq_rm 0 (-1) (-1) (rs_seq_add 0 (-1) (-1) (-6) rs_demo) = Some (m, True) \<and> rs_last m 0 = Some (-1)) \<and>
   rs_busy (rs_seq_keep 5 (rs_seq_add 0 (-1) (-1) (-6) rs_demo)) = {} \<and>
   rm_used (rs_seq_keep 5 (rs_seq_add 0 (-1) (-1) (-6) rs_demo)) = 1"
proof -
  have up: "[0..<2] = [0, Suc 0]" by (simp add: upt_rec)
  let ?m = "rs_demo\<lparr>rm_cells := [\<lparr>rc_pos = -1, rc_src = 0, rc_src0 = 0, rc_tail = 0, rc_seq = {0, 1}\<rparr>,
       \<lparr>rc_pos = -1, rc_src = -1, rc_src0 = -1, rc_tail = 0, rc_seq = {}\<rparr>]\<rparr>"
  have m: "rs_seq_add 0 (-1) (-1) (-6) rs_demo = ?m"
    by (simp add: rs_seq_add_def rs_on_pos_def rs_demo_def rs_end_def INT32_MAX_def rs_size_def rs_cell_def rs_upd_def)
  have loop: "rs_rm_loop 0 0 INT32_MAX m = m" if "rm_cells m = rm_cells ?m" for m
    using that by (simp add: rs_rm_loop_def rs_size_def up rs_rm_cell_def rs_cell_def rs_move_head_def numeral_2_eq_2)
  have "rs_seq_rm 0 (-1) (-1) ?m = Some (?m\<lparr>rm_rs_idx := [0, 0]\<rparr>, True)"
    by (simp add: rs_seq_rm_def rs_end_def set_rs_idx_def loop Let_def rs_size_def rs_cell_def) (simp add: rs_demo_def INT32_MAX_def)
  moreover have "rs_last (?m\<lparr>rm_rs_idx := [0, 0]\<rparr>) 0 = Some (-1)" by (simp add: rs_last_def rs_tail_def rs_size_def rs_cell_def)
  moreover have "rs_busy (rs_seq_keep 5 ?m) = {} \<and> rm_used (rs_seq_keep 5 ?m) = 1"
    by (simp add: rs_seq_keep_def rs_size_def up rs_keep_cell_def rs_cell_def rs_upd_def rc_free_def rs_move_head_def rs_busy_def
        rs_demo_def numeral_2_eq_2 less_Suc_eq Let_def nth_Cons')
  ultimately show ?thesis unfolding m by blast
qed

end
