(* ===== verification/KvState.thy ===== *)
theory KvState
  imports BatchCache KvMachine StateIo
begin

text \<open>
  Saving and restoring a KV cache: \<open>state_write\<close> and \<open>state_read\<close> of \<open>src/llama-kv-cache.cpp\<close>.
  The stream is a list of bytes; integers are written as they are in memory, little-endian. The
  data of a tensor is a list of bytes too. A reader is a function on the rest of the bytes and
  the cache: an exception or an abort keeps what had been changed before it. The numbers the
  source gets from \<open>ggml_row_size\<close>, \<open>ggml_type_size\<close> and the model (type, row size, width) are
  fields of the layer.
\<close>

subsection \<open>State\<close>

record kv_layer =
  kl_k_type :: int
  kl_k_row :: nat \<comment> \<open>\<open>ggml_row_size(k->type, n_embd_k_gqa)\<close>\<close>
  kl_k :: "byte list list" \<comment> \<open>one tensor per stream\<close>
  kl_v_type :: int
  kl_v_row :: nat
  kl_v_el :: nat \<comment> \<open>\<open>ggml_type_size(v->type)\<close>\<close>
  kl_v_embd :: nat
  kl_v :: "byte list option list" \<comment> \<open>\<open>None\<close>: no tensor\<close>

record kv_store =
  ks_kc :: kv_cache
  ks_n_seq_max :: nat
  ks_v_trans :: bool
  ks_layers :: "kv_layer list"

definition has_cell_ext :: "kv_cache \<Rightarrow> bool" where
  "has_cell_ext kc \<longleftrightarrow> kc_n_pos_per_embd kc > 1 \<or> kc_ple_n_heads kc > 0"

subsection \<open>Writing\<close>

definition add_cell :: "kv_cache \<Rightarrow> nat \<Rightarrow> int \<Rightarrow> nat \<Rightarrow> bool" where
  "add_cell kc s seq_id i =
     (let c = kc_cells kc ! s in
      \<not> cells_is_empty c i \<and> (seq_id = -1 \<or> cells_seq_has c i (nat seq_id)) \<and>
      (seq_id \<noteq> -1 \<longrightarrow> \<not> is_masked_swa (kc_n_swa kc) (kc_swa_type kc) (kv_pos c ! i) (cells_seq_pos_max c (nat seq_id))))"

definition write_cell :: "kv_store \<Rightarrow> nat \<Rightarrow> int \<Rightarrow> nat \<Rightarrow> byte list" where
  "write_cell st s seq_id i =
     (let c = kc_cells (ks_kc st) ! s;
          seq_ids = filter (\<lambda>cur. (int cur = seq_id \<or> seq_id = -1) \<and> cells_seq_has c i cur) [0..<ks_n_seq_max st];
          e = kv_ext c ! i
      in i32_out (kv_pos c ! i) @ u32_out (length seq_ids) @
         (if has_cell_ext (ks_kc st) then i32_out (ext_x e) @ i32_out (ext_y e) @ i32_out (ext_tok e) else []) @
         concat (map (\<lambda>q. i32_out (int q)) seq_ids))"

definition state_write_meta :: "kv_store \<Rightarrow> nat \<Rightarrow> (nat \<times> nat) list \<Rightarrow> int \<Rightarrow> byte list" where
  "state_write_meta st s cr seq_id = concat (map (\<lambda>(a, b). concat (map (write_cell st s seq_id) [a..<b])) cr)"

definition write_k :: "nat \<Rightarrow> (nat \<times> nat) list \<Rightarrow> kv_layer \<Rightarrow> byte list" where
  "write_k s cr l = i32_out (kl_k_type l) @ u64_out (kl_k_row l) @ write_rows (kl_k l ! s) (kl_k_row l) cr"

definition write_v :: "nat \<Rightarrow> (nat \<times> nat) list \<Rightarrow> kv_layer \<Rightarrow> byte list" where
  "write_v s cr l = (case kl_v l ! s of None \<Rightarrow> []
     | Some v \<Rightarrow> i32_out (kl_v_type l) @ u64_out (kl_v_row l) @ write_rows v (kl_v_row l) cr)"

definition write_v_dim :: "nat \<Rightarrow> (nat \<times> nat) list \<Rightarrow> nat \<Rightarrow> byte list \<Rightarrow> nat \<Rightarrow> byte list" where
  \<comment> \<open>\<open>src_offset\<close> is computed in \<open>uint32_t\<close>\<close>
  "write_v_dim kv_size cr el v j = concat (map (\<lambda>(a, b). tensor_get v ((a + j * kv_size) * el mod 2 ^ 32) ((b - a) * el)) cr)"

definition write_v_trans :: "nat \<Rightarrow> nat \<Rightarrow> (nat \<times> nat) list \<Rightarrow> kv_layer \<Rightarrow> byte list" where
  "write_v_trans kv_size s cr l = (case kl_v l ! s of None \<Rightarrow> []
     | Some v \<Rightarrow> i32_out (kl_v_type l) @ u32_out (kl_v_el l) @ u32_out (kl_v_embd l) @
         concat (map (write_v_dim kv_size cr (kl_v_el l) v) [0..<kl_v_embd l]))"

definition state_write_data :: "kv_store \<Rightarrow> nat \<Rightarrow> (nat \<times> nat) list \<Rightarrow> byte list" where
  "state_write_data st s cr =
     u32_out (if ks_v_trans st then 1 else 0) @ u32_out (length (ks_layers st)) @
     concat (map (write_k s cr) (ks_layers st)) @
     concat (map (if \<not> ks_v_trans st then write_v s cr
       else write_v_trans (cells_size (kc_cells (ks_kc st) ! s)) s cr) (ks_layers st))"

definition write_stream :: "kv_store \<Rightarrow> int \<Rightarrow> nat \<Rightarrow> byte list option" where
  "write_stream st seq_id s =
     (let (cr, cell_count) = cell_ranges (add_cell (ks_kc st) s seq_id) (cells_size (kc_cells (ks_kc st) ! s)) in
      if cell_count \<noteq> sum_list (map (\<lambda>(a, b). b - a) cr) then None
      else Some (u32_out cell_count @
        (if cell_count = 0 then [] else state_write_meta st s cr seq_id @ state_write_data st s cr)))"

definition state_write :: "int \<Rightarrow> kv_store \<Rightarrow> byte list option" where
  "state_write seq_id st =
     (if kc_other (ks_kc st) then Some []
      else fold_opt (\<lambda>s out. map_option (\<lambda>bs. out @ bs) (write_stream st seq_id s)) [0..<kc_n_stream (ks_kc st)]
             (u32_out (kc_n_stream (ks_kc st))))"

subsection \<open>Reading\<close>

type_synonym 'a reader = "(kv_store, 'a) io_reader"

definition io_ext :: "kv_cell_ext reader" where
  "io_ext = io_bind io_i32 (\<lambda>x. io_bind io_i32 (\<lambda>y. io_bind io_i32 (\<lambda>tok. io_ret \<lparr>ext_x = x, ext_y = y, ext_tok = tok\<rparr>)))"

definition lift_kc :: "(kv_cache \<Rightarrow> kv_cache option) \<Rightarrow> unit reader" where
  "lift_kc f = io_bind io_get (\<lambda>st. case f (ks_kc st) of None \<Rightarrow> io_stop IoAbort | Some kc \<Rightarrow> io_put (st\<lparr>ks_kc := kc\<rparr>))"

definition on_cells :: "nat \<Rightarrow> (kv_cells \<Rightarrow> kv_cells) \<Rightarrow> unit reader" where
  "on_cells t f = io_upd (\<lambda>st. st\<lparr>ks_kc := (ks_kc st)\<lparr>kc_cells := (kc_cells (ks_kc st))[t := f (kc_cells (ks_kc st) ! t)]\<rparr>\<rparr>)"

definition read_seq_cell :: "int \<Rightarrow> nat \<Rightarrow> nat \<Rightarrow> llama_ubatch \<times> kv_cell_ext list \<Rightarrow> (bool \<times> llama_ubatch \<times> kv_cell_ext list) reader" where
  \<comment> \<open>cell \<open>i\<close> of the saved sequence goes to the micro-batch\<close>
  "read_seq_cell dest n_pos i = (\<lambda>(ub, exts).
     io_bind io_i32 (\<lambda>pos. io_bind io_u32 (\<lambda>n_seq_id.
     if n_seq_id \<noteq> 1 then io_ret (False, ub, exts)
     else io_bind io_get (\<lambda>st.
       io_bind (if has_cell_ext (ks_kc st)
           then io_bind io_ext (\<lambda>e. io_ret
             (let ub = (if n_pos > 1 then ub\<lparr>ub_pos := (ub_pos ub)[i + ub_n_tokens ub := ext_y e, i + ub_n_tokens ub * 2 := ext_x e]\<rparr> else ub)
              in (ub\<lparr>ub_token := map_option (\<lambda>ts. ts[i := ext_tok e]) (ub_token ub)\<rparr>, exts[i := e])))
           else io_ret (ub, exts)) (\<lambda>(ub, exts).
       io_bind io_i32 (\<lambda>_. io_ret (True,
         ub\<lparr>ub_pos := (ub_pos ub)[i := pos], ub_n_seq_id := (ub_n_seq_id ub)[i := int n_seq_id], ub_seq_id := (ub_seq_id ub)[i := [dest]]\<rparr>,
         exts)))))))"

definition mirror_ok :: "slot_info option \<Rightarrow> nat \<Rightarrow> bool" where
  "mirror_ok sinfo_in cell_count = (case sinfo_in of None \<Rightarrow> True
     | Some si \<Rightarrow> \<not> slot_is_empty si \<and> slot_n_stream si = 1 \<and> length (si_idxs si ! 0) = cell_count)"

definition seq_slot :: "nat \<Rightarrow> nat \<Rightarrow> llama_ubatch \<Rightarrow> slot_info option \<Rightarrow> slot_info option reader" where
  \<comment> \<open>the cells for a restored sequence: those of the cache this one mirrors, or a free slot\<close>
  "seq_slot strm cell_count ub sinfo_in = io_bind io_get (\<lambda>st.
     case sinfo_in of
       Some si \<Rightarrow>
         (if \<not> mirror_ok sinfo_in cell_count then io_ret None
          else let c = kc_cells (ks_kc st) ! strm in
            if \<exists>i < cell_count. si_idxs si ! 0 ! i \<ge> cells_size c \<or> \<not> cells_is_empty c (si_idxs si ! 0 ! i) then io_ret None
            else io_ret (Some (si\<lparr>si_s0 := strm, si_s1 := strm, si_strm := (si_strm si)[0 := strm]\<rparr>)))
     | None \<Rightarrow>
         (case kvc_find_slot (ks_kc st) ub False of
            None \<Rightarrow> io_stop IoAbort
          | Some si \<Rightarrow> io_ret (if slot_is_empty si then None else Some si)))"

definition read_meta_seq :: "nat \<Rightarrow> nat \<Rightarrow> int \<Rightarrow> slot_info option \<Rightarrow> slot_info option reader" where
  "read_meta_seq strm cell_count dest sinfo_in =
     io_bind (lift_kc (\<lambda>kc. map_option fst (kvc_seq_rm dest (-1) (-1) kc))) (\<lambda>_.
     io_bind io_get (\<lambda>st.
     let n_pos = kc_n_pos_per_embd (ks_kc st);
         ub = snd (ubatch_reserve cell_count 1 (allocr_new n_pos));
         ub = ub\<lparr>ub_seq_id_unq := (ub_seq_id_unq ub)[0 := dest]\<rparr>;
         exts = (if has_cell_ext (ks_kc st) then replicate cell_count ext_default else [])
     in io_bind (io_loop (read_seq_cell dest n_pos) [0..<cell_count] (ub, exts)) (\<lambda>(ok, ub, exts).
     if \<not> ok then io_ret None
     else io_bind (seq_slot strm cell_count ub sinfo_in) (\<lambda>slot. case slot of
         None \<Rightarrow> io_ret None
       | Some si \<Rightarrow>
           io_bind (lift_kc (kvc_apply_ubatch si ub)) (\<lambda>_.
           io_bind (on_cells strm (\<lambda>c. fold (\<lambda>i. cells_ext_set (si_idxs si ! 0 ! i) (exts ! i)) [0..<length exts] c)) (\<lambda>_.
           io_bind io_get (\<lambda>st. let c = kc_cells (ks_kc st) ! strm in
           if slot_n_stream si = 1 \<and> length (si_idxs si ! 0) = cell_count \<and>
              (\<forall>i < cell_count. kv_pos c ! (si_idxs si ! 0 ! i) = ub_pos ub ! i \<and> cells_seq_has c (si_idxs si ! 0 ! i) (nat dest))
           then io_ret (Some si) else io_stop IoAbort)))))))"

definition read_seq_id :: "nat \<Rightarrow> nat \<Rightarrow> nat \<Rightarrow> unit \<Rightarrow> (bool \<times> unit) reader" where
  "read_seq_id strm i j u = io_bind io_i32 (\<lambda>q. io_bind io_get (\<lambda>st.
     if q < 0 \<or> nat q \<ge> ks_n_seq_max st then io_ret (False, ())
     else io_bind (on_cells strm (cells_seq_add i (nat q))) (\<lambda>_. io_ret (True, ()))))"

definition read_cell :: "nat \<Rightarrow> nat \<Rightarrow> unit \<Rightarrow> (bool \<times> unit) reader" where
  \<comment> \<open>a saved cell goes to cell \<open>i\<close>\<close>
  "read_cell strm i u =
     io_bind io_i32 (\<lambda>pos. io_bind io_u32 (\<lambda>n_seq_id.
     io_bind (on_cells strm (cells_pos_set i pos)) (\<lambda>_.
     io_bind io_get (\<lambda>st.
     io_bind (if has_cell_ext (ks_kc st) then io_bind io_ext (\<lambda>e. on_cells strm (cells_ext_set i e)) else io_ret ()) (\<lambda>_.
     io_loop (read_seq_id strm i) [0..<n_seq_id] ())))))"

definition read_meta_all :: "nat \<Rightarrow> nat \<Rightarrow> slot_info option \<Rightarrow> slot_info option reader" where
  "read_meta_all strm cell_count sinfo_in = io_bind io_get (\<lambda>st.
     if cell_count > cells_size (kc_cells (ks_kc st) ! strm) \<or> \<not> mirror_ok sinfo_in cell_count then io_ret None
     else io_bind (io_loop (read_cell strm) [0..<cell_count] ()) (\<lambda>(ok, _).
       if \<not> ok then io_ret None
       else io_bind (io_upd (\<lambda>st. st\<lparr>ks_kc := (ks_kc st)\<lparr>kc_heads := (kc_heads (ks_kc st))[strm := 0]\<rparr>\<rparr>)) (\<lambda>_.
         io_ret (Some \<lparr>si_s0 = strm, si_s1 = strm, si_strm = [strm], si_idxs = [[0..<cell_count]]\<rparr>))))"

definition state_read_meta :: "nat \<Rightarrow> nat \<Rightarrow> int \<Rightarrow> slot_info option \<Rightarrow> slot_info option reader" where
  \<comment> \<open>\<open>None\<close> for \<open>return false\<close>\<close>
  "state_read_meta strm cell_count dest sinfo_in =
     (if dest \<noteq> -1 then read_meta_seq strm cell_count dest sinfo_in else read_meta_all strm cell_count sinfo_in)"

fun run_end :: "nat \<Rightarrow> nat list \<Rightarrow> nat \<times> nat list" where
  \<comment> \<open>the end of the run of neighbouring cells, and the cells after it\<close>
  "run_end x [] = (x + 1, [])"
| "run_end x (y # ys) = (if y = x + 1 then run_end y ys else (x + 1, y # ys))"

lemma run_end_shorter: "length (snd (run_end x ys)) \<le> length ys"
  by (induction x ys rule: run_end.induct) auto

function cell_runs :: "nat list \<Rightarrow> (nat \<times> nat) list" where
  "cell_runs [] = []"
| "cell_runs (x # xs) = (case run_end x xs of (e, zs) \<Rightarrow> (x, e) # cell_runs zs)"
  by pat_completeness auto

termination
  by (relation "measure length") (auto, metis run_end_shorter le_imp_less_Suc snd_conv)

definition upd_k :: "nat \<Rightarrow> nat \<Rightarrow> (byte list \<Rightarrow> byte list) \<Rightarrow> kv_store \<Rightarrow> kv_store" where
  "upd_k il s f st = (let l = ks_layers st ! il in
     st\<lparr>ks_layers := (ks_layers st)[il := l\<lparr>kl_k := (kl_k l)[s := f (kl_k l ! s)]\<rparr>]\<rparr>)"

definition upd_v :: "nat \<Rightarrow> nat \<Rightarrow> (byte list \<Rightarrow> byte list) \<Rightarrow> kv_store \<Rightarrow> kv_store" where
  "upd_v il s f st = (let l = ks_layers st ! il in
     st\<lparr>ks_layers := (ks_layers st)[il := l\<lparr>kl_v := (kl_v l)[s := map_option f (kl_v l ! s)]\<rparr>]\<rparr>)"

definition read_k :: "nat \<Rightarrow> (nat \<times> nat) list \<Rightarrow> nat \<Rightarrow> unit \<Rightarrow> (bool \<times> unit) reader" where
  "read_k s runs il u = io_bind io_get (\<lambda>st. let l = ks_layers st ! il in
     io_bind io_i32 (\<lambda>ty. if ty \<noteq> kl_k_type l then io_ret (False, ())
     else io_bind io_u64 (\<lambda>row. if row \<noteq> kl_k_row l then io_ret (False, ())
     else io_bind (read_rows (upd_k il s) row runs) (\<lambda>_. io_ret (True, ())))))"

definition read_v :: "nat \<Rightarrow> (nat \<times> nat) list \<Rightarrow> nat \<Rightarrow> unit \<Rightarrow> (bool \<times> unit) reader" where
  "read_v s runs il u = io_bind io_get (\<lambda>st. let l = ks_layers st ! il in
     if kl_v l ! s = None then io_ret (True, ())
     else io_bind io_i32 (\<lambda>ty. if ty \<noteq> kl_v_type l then io_ret (False, ())
     else io_bind io_u64 (\<lambda>row. if row \<noteq> kl_v_row l then io_ret (False, ())
     else io_bind (read_rows (upd_v il s) row runs) (\<lambda>_. io_ret (True, ())))))"

definition read_v_trans :: "nat \<Rightarrow> nat \<Rightarrow> (nat \<times> nat) list \<Rightarrow> nat \<Rightarrow> unit \<Rightarrow> (bool \<times> unit) reader" where
  "read_v_trans kv_size s runs il u = io_bind io_get (\<lambda>st. let l = ks_layers st ! il in
     if kl_v l ! s = None then io_ret (True, ())
     else io_bind io_i32 (\<lambda>ty. if ty \<noteq> kl_v_type l then io_ret (False, ())
     else io_bind io_u32 (\<lambda>el. if el \<noteq> kl_v_el l then io_ret (False, ())
     else io_bind io_u32 (\<lambda>emb. if emb \<noteq> kl_v_embd l then io_ret (False, ())
     else io_bind (io_while (\<lambda>j. read_rows (upd_v il s) el (shift_ranges (j * kv_size mod 2 ^ 32) runs)) [0..<emb]) (\<lambda>_. io_ret (True, ()))))))"

definition state_read_data :: "nat \<Rightarrow> nat \<Rightarrow> slot_info \<Rightarrow> bool reader" where
  "state_read_data strm cell_count si = io_bind io_get (\<lambda>st.
     let runs = (if cell_count > 0 then cell_runs (take cell_count (si_idxs si ! 0)) else []);
         kv_size = cells_size (kc_cells (ks_kc st) ! strm); n = length (ks_layers st)
     in io_bind io_u32 (\<lambda>v_trans. io_bind io_u32 (\<lambda>n_layer.
       if n_layer \<noteq> n \<or> cell_count > kv_size \<or> ks_v_trans st \<noteq> (v_trans \<noteq> 0) then io_ret False
       else io_bind (io_loop (read_k strm runs) [0..<n] ()) (\<lambda>(ok, _).
         if \<not> ok then io_ret False
         else io_bind (io_loop (if \<not> ks_v_trans st then read_v strm runs else read_v_trans kv_size strm runs) [0..<n] ())
                (\<lambda>(ok, _). io_ret ok)))))"

definition layer_zero :: "kv_layer \<Rightarrow> kv_layer" where
  "layer_zero l = l\<lparr>kl_k := map (\<lambda>t. replicate (length t) 0) (kl_k l), kl_v := map (map_option (\<lambda>t. replicate (length t) 0)) (kl_v l)\<rparr>"

definition kvs_clear :: "bool \<Rightarrow> kv_store \<Rightarrow> kv_store" where
  \<comment> \<open>\<open>clear\<close>; with \<open>data\<close> the buffers of the tensors are zeroed too\<close>
  "kvs_clear data st = (let st = st\<lparr>ks_kc := kvc_clear (ks_kc st)\<rparr> in
     if data then st\<lparr>ks_layers := map layer_zero (ks_layers st)\<rparr> else st)"

definition read_failed :: "int \<Rightarrow> (bool \<times> slot_info list) reader" where
  "read_failed seq_id = io_bind
     (if seq_id = -1 then io_upd (kvs_clear True)
      else lift_kc (\<lambda>kc. map_option fst (kvc_seq_rm seq_id (-1) (-1) kc))) (\<lambda>_. io_stop IoThrow)"

definition read_stream :: "int \<Rightarrow> slot_info list option \<Rightarrow> nat \<Rightarrow> slot_info list \<Rightarrow> (bool \<times> slot_info list) reader" where
  "read_stream seq_id sinfos_in s out =
     io_bind io_u32 (\<lambda>cell_count.
     if cell_count = 0
     then (case sinfos_in of None \<Rightarrow> io_ret (True, out)
           | Some sis \<Rightarrow> if \<not> slot_is_empty (sis ! s) then io_stop IoThrow else io_ret (True, out))
     else io_bind io_get (\<lambda>st.
       let strm = (if seq_id = -1 then s else stream_of (ks_kc st) (nat seq_id)) in
       io_bind (state_read_meta strm cell_count seq_id (map_option (\<lambda>sis. sis ! s) sinfos_in)) (\<lambda>slot. case slot of
         None \<Rightarrow> read_failed seq_id
       | Some si \<Rightarrow> io_bind (io_catch (state_read_data strm cell_count si)) (\<lambda>res.
           if \<not> res then read_failed seq_id else io_ret (True, out[s := si])))))"

definition state_read :: "int \<Rightarrow> slot_info list option \<Rightarrow> slot_info list reader" where
  \<comment> \<open>\<open>state_read_sinfo\<close>; the result are the slots it reports\<close>
  "state_read seq_id sinfos_in = io_bind io_get (\<lambda>st. let kc = ks_kc st in
     if kc_other kc then io_ret []
     else if \<not> (seq_id = -1 \<or> seq_ok kc seq_id) then io_stop IoAbort
     else if (case sinfos_in of None \<Rightarrow> False | Some sis \<Rightarrow> length sis \<noteq> kc_n_stream kc) then io_stop IoThrow
     else io_bind io_u32 (\<lambda>n. if n \<noteq> kc_n_stream kc then io_stop IoThrow
     else io_bind (if seq_id = -1 then io_upd (kvs_clear True) else io_ret ()) (\<lambda>_.
     io_bind (io_loop (read_stream seq_id sinfos_in) [0..<kc_n_stream kc] (replicate (kc_n_stream kc) slot_empty)) (\<lambda>(_, out).
     io_ret out))))"

subsection \<open>Ranges, runs and rows\<close>

lemma run_end_spec: "run_end x ys = (e, zs) \<Longrightarrow> x < e \<and> x # ys = [x..<e] @ zs"
proof (induction x ys rule: run_end.induct)
  case (2 x y ys)
  show ?case
  proof (cases "y = x + 1")
    case True
    then have "y < e \<and> y # ys = [y..<e] @ zs" using 2 by simp
    then show ?thesis using True by (simp add: upt_conv_Cons)
  qed (use 2 in auto)
qed auto

lemma cell_runs_spec: "expand (cell_runs xs) = xs" "(a, b) \<in> set (cell_runs xs) \<Longrightarrow> a < b \<and> b - 1 \<in> set xs"
proof (induction xs rule: cell_runs.induct)
  case (2 x xs)
  obtain e zs where e: "run_end x xs = (e, zs)" by (cases "run_end x xs")
  note r = run_end_spec [OF e]
  note IH = "2.IH" [OF e [symmetric]]
  { case 1
    have "expand (cell_runs (x # xs)) = [x..<e] @ expand (cell_runs zs)" by (simp add: e)
    then show ?case using r IH(1) by simp }
  { case 2
    have "x < e" using r by blast
    then have "e - 1 \<in> set [x..<e]" by (cases e) auto
    then have "e - 1 \<in> set (x # xs)" using r by (metis Un_iff set_append)
    moreover have "set zs \<subseteq> set (x # xs)" using r by (metis Un_upper2 set_append)
    moreover have "(a, b) = (x, e) \<or> (a, b) \<in> set (cell_runs zs)" using 2 by (simp add: e)
    ultimately show ?case using \<open>x < e\<close> IH(2) by blast }
qed auto

subsection \<open>Running the readers\<close>

lemma io_ext_run [io_run]:
  assumes "i32_ok (ext_x e)" "i32_ok (ext_y e)" "i32_ok (ext_tok e)"
  shows "io_bind io_ext f (rd (i32_out (ext_x e) @ i32_out (ext_y e) @ i32_out (ext_tok e) @ bs) st) = f e (rd bs st)"
  using assms by (cases e) (simp add: io_ext_def io_run)

lemma upd_laws_k: "upd_laws (upd_k il s)"
proof -
  have "upd_k il s f (upd_k il s g st) = upd_k il s (\<lambda>t. f (g t)) st" for f g st
  proof (cases "il < length (ks_layers st)")
    case True
    then show ?thesis by (cases "s < length (kl_k (ks_layers st ! il))") (simp_all add: upd_k_def Let_def list_update_beyond)
  qed (simp add: upd_k_def Let_def list_update_beyond not_less)
  then show ?thesis by (simp add: upd_laws_def upd_k_def)
qed

lemma upd_laws_v: "upd_laws (upd_v il s)"
proof -
  have "upd_v il s f (upd_v il s g st) = upd_v il s (\<lambda>t. f (g t)) st" for f g st
  proof (cases "il < length (ks_layers st)")
    case True
    then show ?thesis by (cases "s < length (kl_v (ks_layers st ! il))") (simp_all add: upd_v_def Let_def option.map_comp comp_def list_update_beyond)
  qed (simp add: upd_v_def Let_def list_update_beyond not_less)
  then show ?thesis by (simp add: upd_laws_def upd_v_def option.map_ident)
qed

subsection \<open>The data of a stream\<close>

definition layer_like :: "kv_layer \<Rightarrow> kv_layer \<Rightarrow> bool" where
  \<comment> \<open>layers of the same model and types\<close>
  "layer_like l0 l \<longleftrightarrow> kl_k_type l = kl_k_type l0 \<and> kl_k_row l = kl_k_row l0 \<and> kl_v_type l = kl_v_type l0 \<and> kl_v_row l = kl_v_row l0 \<and>
     kl_v_el l = kl_v_el l0 \<and> kl_v_embd l = kl_v_embd l0 \<and> (\<forall>v0 \<in> set (kl_v l0). \<forall>v \<in> set (kl_v l). v = None \<longleftrightarrow> v0 = None)"

definition layer_fits :: "nat \<Rightarrow> nat \<Rightarrow> kv_layer \<Rightarrow> bool" where
  \<comment> \<open>a tensor per stream, with a row for every cell, and numbers that fit their types\<close>
  "layer_fits n sz l \<longleftrightarrow> i32_ok (kl_k_type l) \<and> i32_ok (kl_v_type l) \<and> kl_k_row l < 2 ^ 64 \<and> kl_v_row l < 2 ^ 64 \<and>
     kl_v_el l < 2 ^ 32 \<and> kl_v_embd l < 2 ^ 32 \<and> length (kl_k l) = n \<and> length (kl_v l) = n \<and>
     (\<forall>t \<in> set (kl_k l). sz * kl_k_row l \<le> length t) \<and>
     (\<forall>t. Some t \<in> set (kl_v l) \<longrightarrow> sz * kl_v_row l \<le> length t \<and> kl_v_embd l * sz * kl_v_el l \<le> length t)"

definition with_k :: "nat \<Rightarrow> (byte list \<Rightarrow> byte list) \<Rightarrow> kv_layer \<Rightarrow> kv_layer" where
  "with_k s f l = l\<lparr>kl_k := (kl_k l)[s := f (kl_k l ! s)]\<rparr>"

definition with_v :: "nat \<Rightarrow> (byte list \<Rightarrow> byte list) \<Rightarrow> kv_layer \<Rightarrow> kv_layer" where
  "with_v s f l = l\<lparr>kl_v := (kl_v l)[s := map_option f (kl_v l ! s)]\<rparr>"

lemma with_simps [simp]:
  "kl_k_type (with_k s f l) = kl_k_type l" "kl_k_row (with_k s f l) = kl_k_row l" "kl_v_type (with_k s f l) = kl_v_type l"
  "kl_v_row (with_k s f l) = kl_v_row l" "kl_v_el (with_k s f l) = kl_v_el l" "kl_v_embd (with_k s f l) = kl_v_embd l" "kl_v (with_k s f l) = kl_v l"
  "kl_k (with_k s f l) = (kl_k l)[s := f (kl_k l ! s)]"
  "kl_k_type (with_v s f l) = kl_k_type l" "kl_k_row (with_v s f l) = kl_k_row l" "kl_v_type (with_v s f l) = kl_v_type l"
  "kl_v_row (with_v s f l) = kl_v_row l" "kl_v_el (with_v s f l) = kl_v_el l" "kl_v_embd (with_v s f l) = kl_v_embd l" "kl_k (with_v s f l) = kl_k l"
  "kl_v (with_v s f l) = (kl_v l)[s := map_option f (kl_v l ! s)]"
  by (simp_all add: with_k_def with_v_def)

definition layers_done :: "(nat \<Rightarrow> kv_layer \<Rightarrow> kv_layer) \<Rightarrow> nat \<Rightarrow> kv_store \<Rightarrow> kv_store \<Rightarrow> bool" where
  \<comment> \<open>the first \<open>i\<close> layers are changed\<close>
  "layers_done F i st st' \<longleftrightarrow> ks_kc st' = ks_kc st \<and> ks_n_seq_max st' = ks_n_seq_max st \<and> ks_v_trans st' = ks_v_trans st \<and>
     length (ks_layers st') = length (ks_layers st) \<and>
     (\<forall>j < length (ks_layers st). ks_layers st' ! j = (if j < i then F j (ks_layers st ! j) else ks_layers st ! j))"

lemma layers_done_k:
  assumes "layers_done (\<lambda>j. with_k s (f j)) i st st'" "i < length (ks_layers st)"
  shows "layers_done (\<lambda>j. with_k s (f j)) (Suc i) st (upd_k i s (f i) st')"
  using assms by (auto simp: layers_done_def upd_k_def with_k_def Let_def nth_list_update)

lemma layers_done_v:
  assumes "layers_done (\<lambda>j. with_v s (f j)) i st st'" "i < length (ks_layers st)"
  shows "layers_done (\<lambda>j. with_v s (f j)) (Suc i) st (upd_v i s (f i) st')"
  using assms by (auto simp: layers_done_def upd_v_def with_v_def Let_def nth_list_update)

lemma layers_done_v_none:
  assumes "layers_done (\<lambda>j. with_v s (f j)) i st st'" "i < length (ks_layers st)" "kl_v (ks_layers st ! i) ! s = None"
  shows "layers_done (\<lambda>j. with_v s (f j)) (Suc i) st st'"
proof -
  have "(kl_v (ks_layers st ! i))[s := None] = kl_v (ks_layers st ! i)" using assms(3) list_update_id [of "kl_v (ks_layers st ! i)" s] by simp
  then have "with_v s (f i) (ks_layers st ! i) = ks_layers st ! i" using assms(3) by (simp add: with_v_def)
  then show ?thesis using assms(1,2) by (auto simp: layers_done_def less_Suc_eq)
qed

definition trans_ranges :: "nat \<Rightarrow> nat \<Rightarrow> (nat \<times> nat) list \<Rightarrow> (nat \<times> nat) list" where
  "trans_ranges n d rs = concat (map (\<lambda>j. shift_ranges (j * n) rs) [0..<d])"

lemma trans_ranges:
  assumes "in_ranges n rs"
  shows "in_ranges (d * n) (trans_ranges n d rs)" "expand (trans_ranges n d rs) = concat (map (\<lambda>j. map (\<lambda>i. i + j * n) (expand rs)) [0..<d])"
    "length (expand (trans_ranges n d rs)) = d * length (expand rs)"
    "distinct (expand rs) \<Longrightarrow> distinct (expand (trans_ranges n d rs))"
    "j < d \<Longrightarrow> k < length (expand rs) \<Longrightarrow> expand (trans_ranges n d rs) ! (j * length (expand rs) + k) = expand rs ! k + j * n"
proof -
  show "in_ranges (d * n) (trans_ranges n d rs)"
  proof -
    have "a < b \<and> b \<le> d * n" if j: "j < d" and ab: "(a, b) \<in> set (shift_ranges (j * n) rs)" for j a b
    proof -
      obtain a' b' where e: "(a', b') \<in> set rs" "a = a' + j * n" "b = b' + j * n" using ab by (auto simp: shift_ranges_def)
      have "n + j * n \<le> d * n" using mult_le_mono1 [of "Suc j" d n] j by simp
      moreover have "a' < b'" "b' \<le> n" using assms e(1) unfolding in_ranges_def by blast+
      ultimately show ?thesis using e(2,3) by simp
    qed
    then show ?thesis unfolding in_ranges_def trans_ranges_def by auto
  qed
  show e: "expand (trans_ranges n d rs) = concat (map (\<lambda>j. map (\<lambda>i. i + j * n) (expand rs)) [0..<d])"
    by (simp add: trans_ranges_def expand_concat expand_shift comp_def)
  show "length (expand (trans_ranges n d rs)) = d * length (expand rs)"
    unfolding e by (simp add: length_concat comp_def sum_list_triv)
  show "distinct (expand (trans_ranges n d rs))" if dist: "distinct (expand rs)"
    unfolding e
  proof (induction d)
    case (Suc d)
    have "x + d * n \<noteq> y + j * n" if "j < d" "x \<in> set (expand rs)" "y \<in> set (expand rs)" for x y j
    proof -
      have "y + j * n < d * n" using in_ranges_less [OF assms that(3)] mult_le_mono1 [of "Suc j" d n] that(1) by simp
      then show ?thesis by linarith
    qed
    moreover have "inj_on (\<lambda>i. i + d * n) (set (expand rs))" by (simp add: inj_on_def)
    ultimately show ?case using Suc dist by (auto simp: distinct_map)
  qed simp
  show "expand (trans_ranges n d rs) ! (j * length (expand rs) + k) = expand rs ! k + j * n" if "j < d" "k < length (expand rs)"
  proof -
    have all: "\<forall>bl \<in> set (map (\<lambda>j. map (\<lambda>i. i + j * n) (expand rs)) [0..<d]). length bl = length (expand rs)" by auto
    have "j * length (expand rs) + k < d * length (expand rs)"
      using that mult_le_mono1 [of "Suc j" d "length (expand rs)"] by simp
    then have "concat (map (\<lambda>j. map (\<lambda>i. i + j * n) (expand rs)) [0..<d]) ! (j * length (expand rs) + k) =
        map (\<lambda>j. map (\<lambda>i. i + j * n) (expand rs)) [0..<d] ! ((j * length (expand rs) + k) div length (expand rs)) !
          ((j * length (expand rs) + k) mod length (expand rs))"
      by (intro nth_concat_equal [OF all]) simp
    moreover have "(j * length (expand rs) + k) div length (expand rs) = j" "(j * length (expand rs) + k) mod length (expand rs) = k"
      using that(2) by (simp_all add: div_nat_eqI)
    ultimately show ?thesis unfolding e using that by simp
  qed
qed


definition offsets_fit :: "nat \<Rightarrow> kv_layer \<Rightarrow> bool" where
  \<comment> \<open>the offsets into a transposed value tensor are 32-bit numbers\<close>
  "offsets_fit sz l \<longleftrightarrow> 0 < kl_v_el l \<and> kl_v_embd l * sz * kl_v_el l \<le> 2 ^ 32"

lemma write_v_dim_fits:
  assumes "in_ranges n cr" "j < d" "0 < el" "d * n * el \<le> 2 ^ 32"
  shows "write_v_dim n cr el v j = write_rows v el (shift_ranges (j * n) cr)"
proof -
  have "(a + j * n) * el mod 2 ^ 32 = (a + j * n) * el" if "(a, b) \<in> set cr" for a b
  proof -
    have "a < n" using assms(1) that unfolding in_ranges_def by fastforce
    then have "a + j * n < Suc j * n" by simp
    also have "\<dots> \<le> d * n" using assms(2) by (intro mult_le_mono1) simp
    finally have "(a + j * n) * el < d * n * el" using assms(3) by simp
    then have "(a + j * n) * el < 2 ^ 32" using assms(4) by (rule less_le_trans)
    then show ?thesis by (rule mod_less)
  qed
  then show ?thesis by (auto simp: write_v_dim_def write_rows_def shift_ranges_def comp_def intro!: arg_cong [where f = concat])
qed

lemma read_shift_fits:
  fixes j n d el :: nat
  assumes "0 < el" "d * n * el \<le> 2 ^ 32" "j < d" "0 < n"
  shows "j * n mod 2 ^ 32 = j * n"
proof -
  have "j * n < d * n" by (rule mult_strict_right_mono [OF assms(3,4)])
  also have "\<dots> \<le> d * n * el" using assms(1) by (cases el) simp_all
  finally have "j * n < 2 ^ 32" using assms(2) by (rule less_le_trans)
  then show ?thesis by (rule mod_less)
qed

lemma write_v_trans_eq:
  "concat (map (\<lambda>j. write_rows v el (shift_ranges (j * n) cr)) [0..<d]) = write_rows v el (trans_ranges n d cr)"
  by (induction d) (simp_all add: trans_ranges_def write_rows_def)

text \<open>Reading the data of a stream.\<close>

definition k_data :: "nat \<Rightarrow> (nat \<times> nat) list \<Rightarrow> (nat \<times> nat) list \<Rightarrow> kv_layer \<Rightarrow> byte list \<Rightarrow> byte list" where
  "k_data s0 cr runs l0 t = set_rows t (kl_k_row l0) runs (write_rows (kl_k l0 ! s0) (kl_k_row l0) cr)"

definition v_data :: "bool \<Rightarrow> nat \<Rightarrow> nat \<Rightarrow> nat \<Rightarrow> (nat \<times> nat) list \<Rightarrow> (nat \<times> nat) list \<Rightarrow> kv_layer \<Rightarrow> byte list \<Rightarrow> byte list" where
  "v_data tr n0 n s0 cr runs l0 t =
     (if \<not> tr then set_rows t (kl_v_row l0) runs (write_rows (the (kl_v l0 ! s0)) (kl_v_row l0) cr)
      else set_rows t (kl_v_el l0) (trans_ranges n (kl_v_embd l0) runs)
             (write_rows (the (kl_v l0 ! s0)) (kl_v_el l0) (trans_ranges n0 (kl_v_embd l0) cr)))"

definition same_cells :: "nat \<Rightarrow> nat \<Rightarrow> (nat \<times> nat) list \<Rightarrow> (nat \<times> nat) list \<Rightarrow> bool" where
  \<comment> \<open>as many cells, each of them once, inside their tensors\<close>
  "same_cells n0 n cr runs \<longleftrightarrow> in_ranges n0 cr \<and> in_ranges n runs \<and> distinct (expand runs) \<and> length (expand runs) = length (expand cr)"

lemma layer_fitsD:
  assumes "layer_fits n sz l"
  shows "i32_ok (kl_k_type l)" "i32_ok (kl_v_type l)" "kl_k_row l < 2 ^ 64" "kl_v_row l < 2 ^ 64" "kl_v_el l < 2 ^ 32" "kl_v_embd l < 2 ^ 32"
    "length (kl_k l) = n" "length (kl_v l) = n" "s < n \<Longrightarrow> sz * kl_k_row l \<le> length (kl_k l ! s)"
    "s < n \<Longrightarrow> kl_v l ! s = Some t \<Longrightarrow> sz * kl_v_row l \<le> length t" "s < n \<Longrightarrow> kl_v l ! s = Some t \<Longrightarrow> kl_v_embd l * sz * kl_v_el l \<le> length t"
  using assms nth_mem [of s "kl_k l"] nth_mem [of s "kl_v l"] unfolding layer_fits_def by metis+

lemma layer_likeD:
  assumes "layer_like l0 l"
  shows "kl_k_type l = kl_k_type l0" "kl_k_row l = kl_k_row l0" "kl_v_type l = kl_v_type l0" "kl_v_row l = kl_v_row l0"
    "kl_v_el l = kl_v_el l0" "kl_v_embd l = kl_v_embd l0"
    "s < length (kl_v l) \<Longrightarrow> s0 < length (kl_v l0) \<Longrightarrow> kl_v l ! s = None \<longleftrightarrow> kl_v l0 ! s0 = None"
  using assms nth_mem [of s "kl_v l"] nth_mem [of s0 "kl_v l0"] unfolding layer_like_def by metis+

lemma read_k_run:
  assumes "i < length (ks_layers st)" "layer_like l0 (ks_layers st ! i)" "layer_fits n0 sz0 l0" "s0 < n0" "same_cells sz0 sz cr runs"
  shows "read_k s runs i () (rd (write_k s0 cr l0 @ bs) st) = (Inr (True, ()), rd bs (upd_k i s (k_data s0 cr runs l0) st))"
proof -
  note f = layer_fitsD [OF assms(3)] and k = layer_likeD [OF assms(2)]
  have c: "in_ranges sz0 cr" "in_ranges sz runs" "length (expand runs) = length (expand cr)" using assms(5) by (auto simp: same_cells_def)
  have "length (write_rows (kl_k l0 ! s0) (kl_k_row l0) cr) = length (expand runs) * kl_k_row l0"
    using write_rows_length [OF c(1) f(9) [OF assms(4)]] c(3) by simp
  then have "read_rows (upd_k i s) (kl_k_row l0) runs (rd (write_rows (kl_k l0 ! s0) (kl_k_row l0) cr @ bs) st) =
      (Inr (), rd bs (upd_k i s (k_data s0 cr runs l0) st))"
    unfolding k_data_def by (intro read_rows_run upd_laws_k) (use c(2) in \<open>auto simp: in_ranges_def\<close>)
  then show ?thesis using f(1,3) k(1,2) by (simp add: read_k_def write_k_def Let_def io_run io_bind_Inr io_ret_def)
qed

lemma read_v_run:
  assumes "i < length (ks_layers st)" "layer_like l0 (ks_layers st ! i)" "layer_fits n0 sz0 l0" "s0 < n0" "same_cells sz0 sz cr runs"
    and "s < length (kl_v (ks_layers st ! i))" and offs: "tr \<longrightarrow> offsets_fit sz0 l0 \<and> offsets_fit sz (ks_layers st ! i)"
  shows "(if \<not> tr then read_v s runs else read_v_trans sz s runs) i ()
      (rd ((if \<not> tr then write_v s0 cr else write_v_trans sz0 s0 cr) l0 @ bs) st) =
    (Inr (True, ()), rd bs (if kl_v l0 ! s0 = None then st else upd_v i s (v_data tr sz0 sz s0 cr runs l0) st))"
proof -
  note f = layer_fitsD [OF assms(3)] and k = layer_likeD [OF assms(2)]
  have c: "in_ranges sz0 cr" "in_ranges sz runs" "length (expand runs) = length (expand cr)" using assms(5) by (auto simp: same_cells_def)
  have none: "kl_v (ks_layers st ! i) ! s = None \<longleftrightarrow> kl_v l0 ! s0 = None" using k(7) [OF assms(6)] assms(4) f(8) by simp
  show ?thesis
  proof (cases "kl_v l0 ! s0")
    case None
    then show ?thesis using none by (simp add: read_v_def read_v_trans_def write_v_def write_v_trans_def Let_def io_run io_ret_def)
  next
    case (Some v)
    obtain v' where ne: "kl_v (ks_layers st ! i) ! s = Some v'" using none Some by auto
    show ?thesis
    proof (cases tr)
      case False
      have "length (write_rows v (kl_v_row l0) cr) = length (expand runs) * kl_v_row l0"
        using write_rows_length [OF c(1) f(10) [OF assms(4) Some]] c(3) by simp
      then have "read_rows (upd_v i s) (kl_v_row l0) runs (rd (write_rows v (kl_v_row l0) cr @ bs) st) =
          (Inr (), rd bs (upd_v i s (v_data tr sz0 sz s0 cr runs l0) st))"
        unfolding v_data_def using False Some
        by (simp, intro read_rows_run upd_laws_v) (use c(2) in \<open>auto simp: in_ranges_def\<close>)
      then show ?thesis using f(2,4) k(3,4) ne Some False
        by (simp add: read_v_def write_v_def Let_def io_run io_bind_Inr io_ret_def)
    next
      case True
      note t0 = trans_ranges [OF c(1), where d = "kl_v_embd l0"] and t1 = trans_ranges [OF c(2), where d = "kl_v_embd l0"]
      have fv: "kl_v_embd l0 * sz0 * kl_v_el l0 \<le> length v" using f(11) [OF assms(4) Some] .
      have "length (write_rows v (kl_v_el l0) (trans_ranges sz0 (kl_v_embd l0) cr)) =
          length (expand (trans_ranges sz (kl_v_embd l0) runs)) * kl_v_el l0"
        using write_rows_length [OF t0(1) fv] t0(3) t1(3) c(3) by simp
      then have "read_rows (upd_v i s) (kl_v_el l0) (trans_ranges sz (kl_v_embd l0) runs)
          (rd (write_rows v (kl_v_el l0) (trans_ranges sz0 (kl_v_embd l0) cr) @ bs) st) =
          (Inr (), rd bs (upd_v i s (v_data tr sz0 sz s0 cr runs l0) st))"
        unfolding v_data_def using True Some
        by (simp, intro read_rows_run upd_laws_v) (use t1(1) in \<open>auto simp: in_ranges_def\<close>)
      moreover have "concat (map (write_v_dim sz0 cr (kl_v_el l0) v) [0..<kl_v_embd l0]) = write_rows v (kl_v_el l0) (trans_ranges sz0 (kl_v_embd l0) cr)"
      proof -
        have "map (write_v_dim sz0 cr (kl_v_el l0) v) [0..<kl_v_embd l0] =
            map (\<lambda>j. write_rows v (kl_v_el l0) (shift_ranges (j * sz0) cr)) [0..<kl_v_embd l0]"
          using offs True write_v_dim_fits [OF c(1)] by (auto simp: offsets_fit_def)
        then show ?thesis by (simp only: write_v_trans_eq)
      qed
      moreover have "io_while (\<lambda>j. read_rows (upd_v i s) (kl_v_el l0) (shift_ranges (j * sz mod 2 ^ 32) runs)) [0..<kl_v_embd l0] =
          read_rows (upd_v i s) (kl_v_el l0) (trans_ranges sz (kl_v_embd l0) runs)"
      proof -
        have "shift_ranges (j * sz mod 2 ^ 32) runs = shift_ranges (j * sz) runs" if "j < kl_v_embd l0" for j
        proof (cases "sz = 0")
          case False
          then show ?thesis using offs True k(5,6) read_shift_fits [of "kl_v_el l0" "kl_v_embd l0" sz j] that by (simp add: offsets_fit_def)
        qed simp
        then have "map (\<lambda>j. shift_ranges (j * sz mod 2 ^ 32) runs) [0..<kl_v_embd l0] = map (\<lambda>j. shift_ranges (j * sz) runs) [0..<kl_v_embd l0]" by simp
        then show ?thesis by (simp only: read_rows_while trans_ranges_def)
      qed
      ultimately show ?thesis using f(2,5,6) k(3,5,6) ne Some True
        by (simp add: read_v_trans_def write_v_trans_def Let_def io_run io_bind_Inr io_ret_def)
    qed
  qed
qed


definition cell_data :: "bool \<Rightarrow> nat \<Rightarrow> kv_layer \<Rightarrow> nat \<Rightarrow> nat \<Rightarrow> byte list \<times> byte list list option" where
  \<comment> \<open>the key and the value of cell \<open>i\<close> of a stream\<close>
  "cell_data tr sz l s i = (row_of (kl_k l ! s) (kl_k_row l) i,
     map_option (\<lambda>v. if \<not> tr then [row_of v (kl_v_row l) i] else map (\<lambda>d. row_of v (kl_v_el l) (i + d * sz)) [0..<kl_v_embd l]) (kl_v l ! s))"

definition load_layer :: "bool \<Rightarrow> nat \<Rightarrow> nat \<Rightarrow> nat \<Rightarrow> (nat \<times> nat) list \<Rightarrow> nat \<Rightarrow> (nat \<times> nat) list \<Rightarrow> kv_layer \<Rightarrow> kv_layer \<Rightarrow> kv_layer" where
  "load_layer tr sz0 sz s0 cr s runs l0 l = with_v s (v_data tr sz0 sz s0 cr runs l0) (with_k s (k_data s0 cr runs l0) l)"

lemma load_layer_effect:
  fixes tr :: bool
  assumes "layer_like l0 l" "layer_fits n0 sz0 l0" "layer_fits n sz l" "s0 < n0" "s < n" "same_cells sz0 sz cr runs"
  defines "l' \<equiv> load_layer tr sz0 sz s0 cr s runs l0 l"
  shows "layer_like l0 l'" "layer_fits n sz l'" "s' \<noteq> s \<Longrightarrow> cell_data tr sz l' s' i = cell_data tr sz l s' i"
    "k < length (expand runs) \<Longrightarrow> cell_data tr sz l' s (expand runs ! k) = cell_data tr sz0 l0 s0 (expand cr ! k)"
    "i < sz \<Longrightarrow> i \<notin> set (expand runs) \<Longrightarrow> cell_data tr sz l' s i = cell_data tr sz l s i"
proof -
  note f0 = layer_fitsD [OF assms(2)] and f = layer_fitsD [OF assms(3)] and lk = layer_likeD [OF assms(1)]
  have c: "in_ranges sz0 cr" "in_ranges sz runs" "distinct (expand runs)" "length (expand runs) = length (expand cr)"
    using assms(6) by (auto simp: same_cells_def)
  have len: "s < length (kl_k l)" "s < length (kl_v l)" using f(7,8) assms(5) by simp_all
  have none: "kl_v l ! s = None \<longleftrightarrow> kl_v l0 ! s0 = None" by (rule lk(7) [OF len(2)]) (use f0(8) assms(4) in simp)
  have fk: "sz * kl_k_row l0 \<le> length (kl_k l ! s)" using f(9) [OF assms(5)] lk(2) by simp
  note kd = rows_copied [OF c(1) f0(9) [OF assms(4)] c(2) fk c(3,4), folded k_data_def]
  have vd: "length (v_data tr sz0 sz s0 cr runs l0 v) = length v"
      "k < length (expand runs) \<Longrightarrow> cell_data tr sz l' s (expand runs ! k) = cell_data tr sz0 l0 s0 (expand cr ! k)"
      "i < sz \<Longrightarrow> i \<notin> set (expand runs) \<Longrightarrow> cell_data tr sz l' s i = cell_data tr sz l s i"
    if v: "kl_v l ! s = Some v" and v0: "kl_v l0 ! s0 = Some v0" for v v0 k i
  proof -
    have l's: "kl_v l' ! s = Some (v_data tr sz0 sz s0 cr runs l0 v)" "kl_k l' ! s = k_data s0 cr runs l0 (kl_k l ! s)"
      "kl_k_row l' = kl_k_row l0" "kl_v_row l' = kl_v_row l0" "kl_v_el l' = kl_v_el l0" "kl_v_embd l' = kl_v_embd l0"
      using len v lk by (simp_all add: l'_def load_layer_def)
    have "length (v_data tr sz0 sz s0 cr runs l0 v) = length v \<and>
      (k < length (expand runs) \<longrightarrow> cell_data tr sz l' s (expand runs ! k) = cell_data tr sz0 l0 s0 (expand cr ! k)) \<and>
      (i < sz \<longrightarrow> i \<notin> set (expand runs) \<longrightarrow> cell_data tr sz l' s i = cell_data tr sz l s i)"
    proof (cases tr)
      case False
      have e: "v_data tr sz0 sz s0 cr runs l0 v = set_rows v (kl_v_row l0) runs (write_rows v0 (kl_v_row l0) cr)"
        using False v0 by (simp add: v_data_def)
      have fv: "sz * kl_v_row l0 \<le> length v" using f(10) [OF assms(5) v] lk(4) by simp
      note r = rows_copied [OF c(1) f0(10) [OF assms(4) v0] c(2) fv c(3,4), folded e]
      show ?thesis using r kd l's v v0 lk False by (simp add: cell_data_def)
    next
      case True
      note t0 = trans_ranges [OF c(1), where d = "kl_v_embd l0"] and t1 = trans_ranges [OF c(2), where d = "kl_v_embd l0"]
      have e: "v_data tr sz0 sz s0 cr runs l0 v =
          set_rows v (kl_v_el l0) (trans_ranges sz (kl_v_embd l0) runs) (write_rows v0 (kl_v_el l0) (trans_ranges sz0 (kl_v_embd l0) cr))"
        using True v0 by (simp add: v_data_def)
      have fv: "kl_v_embd l0 * sz * kl_v_el l0 \<le> length v" using f(11) [OF assms(5) v] lk(5,6) by simp
      have lens: "length (expand (trans_ranges sz (kl_v_embd l0) runs)) = length (expand (trans_ranges sz0 (kl_v_embd l0) cr))"
        using t0(3) t1(3) c(4) by simp
      note r = rows_copied [OF t0(1) f0(11) [OF assms(4) v0] t1(1) fv t1(4) [OF c(3)] lens, folded e]
      have at: "row_of (v_data tr sz0 sz s0 cr runs l0 v) (kl_v_el l0) (expand runs ! k + d * sz) = row_of v0 (kl_v_el l0) (expand cr ! k + d * sz0)"
        if d: "d < kl_v_embd l0" and k: "k < length (expand runs)" for d
      proof -
        have "d * length (expand runs) + k < kl_v_embd l0 * length (expand runs)"
          using k mult_le_mono1 [of "Suc d" "kl_v_embd l0" "length (expand runs)"] d by simp
        from r(2) [unfolded t1(3), OF this] show ?thesis
          using t1(5) [OF d k] t0(5) [OF d, of k] k c(4) by simp
      qed
      have out: "i + d * sz \<notin> set (expand (trans_ranges sz (kl_v_embd l0) runs))" if i: "i < sz" "i \<notin> set (expand runs)" for d
      proof
        assume "i + d * sz \<in> set (expand (trans_ranges sz (kl_v_embd l0) runs))"
        then obtain x j where x: "x \<in> set (expand runs)" "i + d * sz = x + j * sz" unfolding t1(2) by auto
        have "x < sz" by (rule in_ranges_less [OF c(2) x(1)])
        then have "i = x" using x(2) i(1) by (metis mod_less mod_mult_self1)
        then show False using x(1) i(2) by simp
      qed
      show ?thesis using r(1,3) at out kd l's v v0 lk True by (simp add: cell_data_def)
    qed
    then show "length (v_data tr sz0 sz s0 cr runs l0 v) = length v"
      "k < length (expand runs) \<Longrightarrow> cell_data tr sz l' s (expand runs ! k) = cell_data tr sz0 l0 s0 (expand cr ! k)"
      "i < sz \<Longrightarrow> i \<notin> set (expand runs) \<Longrightarrow> cell_data tr sz l' s i = cell_data tr sz l s i" by blast+
  qed
  have cn: "cell_data tr sz l' s (expand runs ! k) = cell_data tr sz0 l0 s0 (expand cr ! k)" "i \<notin> set (expand runs) \<Longrightarrow> cell_data tr sz l' s i = cell_data tr sz l s i"
    if "kl_v l ! s = None" "k < length (expand runs)" for k i
    using that none kd len lk by (simp_all add: cell_data_def l'_def load_layer_def)
  show "k < length (expand runs) \<Longrightarrow> cell_data tr sz l' s (expand runs ! k) = cell_data tr sz0 l0 s0 (expand cr ! k)"
    using vd(2) cn(1) none by (cases "kl_v l ! s"; cases "kl_v l0 ! s0") auto
  show "i < sz \<Longrightarrow> i \<notin> set (expand runs) \<Longrightarrow> cell_data tr sz l' s i = cell_data tr sz l s i"
  proof (cases "kl_v l ! s")
    case None
    then show "i \<notin> set (expand runs) \<Longrightarrow> ?thesis" using kd(3) len by (simp add: cell_data_def l'_def load_layer_def lk)
  next
    case (Some v)
    then obtain v0 where "kl_v l0 ! s0 = Some v0" using none by auto
    then show "i < sz \<Longrightarrow> i \<notin> set (expand runs) \<Longrightarrow> ?thesis" using vd(3) [OF Some] by blast
  qed
  show "s' \<noteq> s \<Longrightarrow> cell_data tr sz l' s' i = cell_data tr sz l s' i"
    unfolding cell_data_def l'_def load_layer_def with_simps by simp
  have mem: "x \<in> set (xs[s := y]) \<Longrightarrow> x = y \<or> x \<in> set xs" for x y :: 'a and xs using set_update_subset_insert [of xs s y] by blast
  show "layer_like l0 l'"
    unfolding layer_like_def
  proof (intro conjI ballI)
    fix v0 v assume v0: "v0 \<in> set (kl_v l0)" and "v \<in> set (kl_v l')"
    then obtain i where i: "i < length (kl_v l)" "v = kl_v l' ! i" by (auto simp: l'_def load_layer_def in_set_conv_nth)
    have "kl_v l' ! i = None \<longleftrightarrow> kl_v l ! i = None" using i by (cases "i = s") (auto simp: l'_def load_layer_def)
    then show "v = None \<longleftrightarrow> v0 = None" using assms(1) v0 i nth_mem [OF i(1)] unfolding layer_like_def by metis
  qed (use lk in \<open>simp_all add: l'_def load_layer_def\<close>)
  show "layer_fits n sz l'"
    unfolding layer_fits_def
  proof (intro conjI ballI allI impI)
    fix t assume "t \<in> set (kl_k l')"
    then obtain i where i: "i < n" "t = kl_k l' ! i" using f(7) by (auto simp: l'_def load_layer_def in_set_conv_nth)
    show "sz * kl_k_row l' \<le> length t"
      using i f(9) [OF i(1)] kd(1) len by (cases "i = s") (auto simp: l'_def load_layer_def)
  next
    fix t assume "Some t \<in> set (kl_v l')"
    then obtain i where i: "i < n" "Some t = kl_v l' ! i" using f(8) by (auto simp: l'_def load_layer_def in_set_conv_nth)
    have "\<exists>t'. kl_v l ! i = Some t' \<and> length t = length t'"
    proof (cases "i = s")
      case True
      then obtain v where v: "kl_v l ! s = Some v" "t = v_data tr sz0 sz s0 cr runs l0 v" using i(2) len by (cases "kl_v l ! s") (auto simp: l'_def load_layer_def)
      then obtain v0 where "kl_v l0 ! s0 = Some v0" using none by auto
      then show ?thesis using v vd(1) [OF v(1)] True by simp
    next
      case False
      then have "kl_v l ! i = Some t" using i(2) by (simp add: l'_def load_layer_def)
      then show ?thesis by simp
    qed
    then show "sz * kl_v_row l' \<le> length t" "kl_v_embd l' * sz * kl_v_el l' \<le> length t"
      using f(10,11) [OF i(1)] by (auto simp: l'_def load_layer_def)
  qed (use f in \<open>simp_all add: l'_def load_layer_def\<close>)
qed


definition data_from :: "kv_store \<Rightarrow> nat \<Rightarrow> nat list \<Rightarrow> kv_store \<Rightarrow> nat \<Rightarrow> nat list \<Rightarrow> nat \<Rightarrow> nat \<Rightarrow> kv_store \<Rightarrow> bool" where
  \<comment> \<open>in \<open>st'\<close> the cells \<open>I\<close> of stream \<open>s\<close> have the data of the cells \<open>I0\<close> of \<open>st0\<close>, all others that of \<open>st\<close>\<close>
  "data_from st0 s0 I0 st s I sz0 sz st' \<longleftrightarrow> (\<forall>j < length (ks_layers st').
     (\<forall>k < length I. cell_data (ks_v_trans st') sz (ks_layers st' ! j) s (I ! k) = cell_data (ks_v_trans st0) sz0 (ks_layers st0 ! j) s0 (I0 ! k)) \<and>
     (\<forall>i < sz. i \<notin> set I \<longrightarrow> cell_data (ks_v_trans st') sz (ks_layers st' ! j) s i = cell_data (ks_v_trans st) sz (ks_layers st ! j) s i) \<and>
     (\<forall>s' i. s' \<noteq> s \<longrightarrow> cell_data (ks_v_trans st') sz (ks_layers st' ! j) s' i = cell_data (ks_v_trans st) sz (ks_layers st ! j) s' i))"

definition store_fits :: "nat \<Rightarrow> nat \<Rightarrow> kv_store \<Rightarrow> bool" where
  "store_fits n sz st \<longleftrightarrow> length (ks_layers st) < 2 ^ 32 \<and> (\<forall>l \<in> set (ks_layers st). layer_fits n sz l \<and> (ks_v_trans st \<longrightarrow> offsets_fit sz l))"

definition store_like :: "kv_store \<Rightarrow> kv_store \<Rightarrow> bool" where
  \<comment> \<open>stores of the same model\<close>
  "store_like st0 st \<longleftrightarrow> ks_v_trans st = ks_v_trans st0 \<and> list_all2 layer_like (ks_layers st0) (ks_layers st)"

lemma state_read_data_run:
  assumes like: "store_like st0 st" and fits: "store_fits n0 sz0 st0" "store_fits n sz st" and s: "s0 < n0" "s < n"
    and sz: "cells_size (kc_cells (ks_kc st0) ! s0) = sz0" "cells_size (kc_cells (ks_kc st) ! s) = sz"
    and I: "distinct I" "\<And>i. i \<in> set I \<Longrightarrow> i < sz" "length I = cnt" "0 < cnt" "in_ranges sz0 cr" "length (expand cr) = cnt" "si_idxs si ! 0 = I"
  shows "\<exists>st'. state_read_data s cnt si (rd (state_write_data st0 s0 cr @ bs) st) = (Inr True, rd bs st') \<and>
    ks_kc st' = ks_kc st \<and> ks_n_seq_max st' = ks_n_seq_max st \<and> store_like st0 st' \<and> store_fits n sz st' \<and>
    data_from st0 s0 (expand cr) st s I sz0 sz st'"
proof -
  let ?n = "length (ks_layers st)" and ?tr = "ks_v_trans st0" and ?ls = "ks_layers st" and ?l0 = "\<lambda>j. ks_layers st0 ! j"
  have trs: "ks_v_trans st = ?tr" and all: "list_all2 layer_like (ks_layers st0) ?ls" using like by (auto simp: store_like_def)
  have len: "length (ks_layers st0) = ?n" using list_all2_lengthD [OF all] by simp
  have lk: "layer_like (?l0 j) (?ls ! j)" "layer_fits n0 sz0 (?l0 j)" "layer_fits n sz (?ls ! j)" if "j < ?n" for j
    using list_all2_nthD [OF all, of j] fits that len by (auto simp: store_fits_def)
  have off: "?tr \<longrightarrow> offsets_fit sz0 (?l0 j) \<and> offsets_fit sz (?ls ! j)" if "j < ?n" for j
    using fits trs that len by (simp add: store_fits_def)
  define runs where "runs = cell_runs I"
  have same: "same_cells sz0 sz cr runs"
    unfolding same_cells_def runs_def cell_runs_spec(1) in_ranges_def
    using I(1,3,5,6) cell_runs_spec(2) [of _ _ I] I(2) by (fastforce simp: in_ranges_def)
  let ?cr = "if cnt > 0 then cell_runs (take cnt (si_idxs si ! 0)) else []"
  have cr: "?cr = runs" using I(3,4,7) by (simp add: runs_def)
  let ?K = "\<lambda>j. with_k s (k_data s0 cr runs (?l0 j))" and ?V = "\<lambda>j. with_v s (v_data ?tr sz0 sz s0 cr runs (?l0 j))"
  have chunks: "concat (map f (ks_layers st0)) = concat (map (\<lambda>j. f (?l0 j)) [0..<?n])" for f :: "kv_layer \<Rightarrow> byte list"
    by (rule arg_cong [where f = concat]) (rule nth_equalityI, use len in auto)
  have K: "\<exists>st' s'. io_loop (read_k s runs) [0..<?n] () (rd (concat (map (\<lambda>j. write_k s0 cr (?l0 j)) [0..<?n]) @ zs) st) = (Inr (True, s'), rd zs st') \<and>
      layers_done ?K ?n st st'" for zs
  proof (rule io_loop_chunks [where P = "\<lambda>i st' _. layers_done ?K i st st'"])
    show "layers_done ?K 0 st st" by (simp add: layers_done_def)
    fix i st' u bs assume i: "i < ?n" and d: "layers_done ?K i st st'"
    have l: "ks_layers st' ! i = ?ls ! i" "i < length (ks_layers st')" using d i by (auto simp: layers_done_def)
    have "read_k s runs i () (rd (write_k s0 cr (?l0 i) @ bs) st') = (Inr (True, ()), rd bs (upd_k i s (k_data s0 cr runs (?l0 i)) st'))"
      by (rule read_k_run [OF l(2) _ lk(2) [OF i] s(1) same]) (use lk(1) [OF i] l(1) in simp)
    moreover have "layers_done ?K (Suc i) st (upd_k i s (k_data s0 cr runs (?l0 i)) st')"
      using layers_done_k [OF d i] .
    ultimately show "\<exists>st'' s'. read_k s runs i u (rd (write_k s0 cr (?l0 i) @ bs) st') = (Inr (True, s'), rd bs st'') \<and> layers_done ?K (Suc i) st st''"
      by simp
  qed
  obtain st1 where st1: "\<And>zs. True \<Longrightarrow> io_loop (read_k s runs) [0..<?n] () (rd (concat (map (write_k s0 cr) (ks_layers st0)) @
      concat (map (if \<not> ?tr then write_v s0 cr else write_v_trans sz0 s0 cr) (ks_layers st0)) @ bs) st) =
      (Inr (True, ()), rd (concat (map (if \<not> ?tr then write_v s0 cr else write_v_trans sz0 s0 cr) (ks_layers st0)) @ bs) st1)"
    "layers_done ?K ?n st st1"
    using K [of "concat (map (if \<not> ?tr then write_v s0 cr else write_v_trans sz0 s0 cr) (ks_layers st0)) @ bs"] unfolding chunks by auto
  have d1: "length (ks_layers st1) = ?n" "\<And>j. j < ?n \<Longrightarrow> ks_layers st1 ! j = ?K j (?ls ! j)" "ks_kc st1 = ks_kc st"
    "ks_n_seq_max st1 = ks_n_seq_max st" "ks_v_trans st1 = ?tr"
    using st1(2) trs by (auto simp: layers_done_def)
  let ?rv = "if \<not> ?tr then read_v s runs else read_v_trans sz s runs"
  have V: "\<exists>st' s'. io_loop ?rv [0..<?n] () (rd (concat (map (\<lambda>j. (if \<not> ?tr then write_v s0 cr else write_v_trans sz0 s0 cr) (?l0 j)) [0..<?n]) @ bs) st1) =
      (Inr (True, s'), rd bs st') \<and> layers_done ?V ?n st1 st'"
  proof (rule io_loop_chunks [where P = "\<lambda>i st' _. layers_done ?V i st1 st'"])
    show "layers_done ?V 0 st1 st1" by (simp add: layers_done_def)
    fix i st' u bs assume i: "i < ?n" and d: "layers_done ?V i st1 st'"
    have l: "ks_layers st' ! i = ?K i (?ls ! i)" "i < length (ks_layers st')" using d d1 i by (auto simp: layers_done_def)
    have lks: "layer_like (?l0 i) (ks_layers st' ! i)" using lk(1) [OF i] unfolding l(1) layer_like_def by simp
    have sv: "s < length (kl_v (ks_layers st' ! i))" using layer_fitsD(8) [OF lk(3) [OF i]] s(2) unfolding l(1) by simp
    have r: "?rv i () (rd ((if \<not> ?tr then write_v s0 cr else write_v_trans sz0 s0 cr) (?l0 i) @ bs) st') =
        (Inr (True, ()), rd bs (if kl_v (?l0 i) ! s0 = None then st' else upd_v i s (v_data ?tr sz0 sz s0 cr runs (?l0 i)) st'))"
      by (rule read_v_run [OF l(2) lks lk(2) [OF i] s(1) same sv]) (use off [OF i] l(1) in \<open>simp add: offsets_fit_def\<close>)
    have i1: "i < length (ks_layers st1)" using i d1(1) by simp
    have "layers_done ?V (Suc i) st1 (if kl_v (?l0 i) ! s0 = None then st' else upd_v i s (v_data ?tr sz0 sz s0 cr runs (?l0 i)) st')"
    proof (cases "kl_v (?l0 i) ! s0 = None")
      case True
      have "kl_v (ks_layers st1 ! i) ! s = None"
        using True layer_likeD(7) [OF lk(1) [OF i], of s s0] layer_fitsD(8) [OF lk(2) [OF i]] layer_fitsD(8) [OF lk(3) [OF i]] s d1(2) [OF i] by simp
      then show ?thesis using layers_done_v_none [OF d i1] True by simp
    next
      case False
      show ?thesis unfolding if_not_P [OF False] by (rule layers_done_v [OF d i1])
    qed
    then show "\<exists>st'' s'. ?rv i u (rd ((if \<not> ?tr then write_v s0 cr else write_v_trans sz0 s0 cr) (?l0 i) @ bs) st') = (Inr (True, s'), rd bs st'') \<and> layers_done ?V (Suc i) st1 st''"
      using r by (cases u) blast
  qed
  then obtain st2 where st2: "io_loop ?rv [0..<?n] () (rd (concat (map (if \<not> ?tr then write_v s0 cr else write_v_trans sz0 s0 cr) (ks_layers st0)) @ bs) st1) =
      (Inr (True, ()), rd bs st2)" "layers_done ?V ?n st1 st2"
    unfolding chunks by auto
  have d2: "length (ks_layers st2) = ?n" "\<And>j. j < ?n \<Longrightarrow> ks_layers st2 ! j = load_layer ?tr sz0 sz s0 cr s runs (?l0 j) (?ls ! j)"
    "ks_kc st2 = ks_kc st" "ks_n_seq_max st2 = ks_n_seq_max st" "ks_v_trans st2 = ?tr"
    using st2(2) d1 by (auto simp: layers_done_def load_layer_def)
  have cnt: "cnt \<le> sz"
  proof -
    have "card (set I) \<le> card {..<sz}" by (rule card_mono) (use I(2) in auto)
    then show ?thesis using I(1,3) by (simp add: distinct_card)
  qed
  have "state_read_data s cnt si (rd (state_write_data st0 s0 cr @ bs) st) = (Inr True, rd bs st2)"
    unfolding state_read_data_def state_write_data_def Let_def cr
    using len fits(1) st1(1) st2(1) cnt trs sz
    by (cases ?tr) (simp_all add: io_run io_bind_Inr io_ret_def store_fits_def)
  moreover note L = load_layer_effect [OF lk s same, where tr = "?tr"]
  have "store_like st0 st2" unfolding store_like_def list_all2_conv_all_nth using L(1) len d2 by simp
  moreover have "offsets_fit sz (load_layer ?tr sz0 sz s0 cr s runs (?l0 j) (?ls ! j)) = offsets_fit sz (?ls ! j)" for j
    by (simp add: offsets_fit_def load_layer_def)
  then have "store_fits n sz st2" using L(2) fits(2) d2 off by (auto simp: store_fits_def in_set_conv_nth)
  moreover have "data_from st0 s0 (expand cr) st s I sz0 sz st2"
    unfolding data_from_def d2(1,5) trs using L(3-5) d2(2) by (simp add: runs_def cell_runs_spec(1))
  ultimately show ?thesis using d2(3,4) by blast
qed

subsection \<open>Restoring all cells\<close>

definition on_store :: "nat \<Rightarrow> (kv_cells \<Rightarrow> kv_cells) \<Rightarrow> kv_store \<Rightarrow> kv_store" where
  "on_store t f st = st\<lparr>ks_kc := (ks_kc st)\<lparr>kc_cells := (kc_cells (ks_kc st))[t := f (kc_cells (ks_kc st) ! t)]\<rparr>\<rparr>"

lemma on_cells_store: "on_cells t f = io_upd (on_store t f)"
  by (simp add: on_cells_def on_store_def fun_eq_iff io_upd_def)

lemma on_store_comp: "on_store t f (on_store t g st) = on_store t (\<lambda>c. f (g c)) st"
  by (cases "t < length (kc_cells (ks_kc st))") (simp_all add: on_store_def list_update_beyond not_less)

lemma on_store_id: "on_store t (\<lambda>c. c) st = st"
  by (simp add: on_store_def)

lemma on_store_simps [simp]:
  "ks_n_seq_max (on_store t f st) = ks_n_seq_max st" "has_cell_ext (ks_kc (on_store t f st)) = has_cell_ext (ks_kc st)"
  "ks_layers (on_store t f st) = ks_layers st" "ks_v_trans (on_store t f st) = ks_v_trans st"
  by (simp_all add: on_store_def has_cell_ext_def)

definition put_cell :: "nat \<Rightarrow> llama_pos \<Rightarrow> kv_cell_ext option \<Rightarrow> nat list \<Rightarrow> kv_cells \<Rightarrow> kv_cells" where
  "put_cell i p eo qs c = fold (\<lambda>j. cells_seq_add i (qs ! j)) [0..<length qs]
     (case eo of None \<Rightarrow> cells_pos_set i p c | Some e \<Rightarrow> cells_ext_set i e (cells_pos_set i p c))"

lemma seq_adds_ext: "kv_ext (fold (\<lambda>j. cells_seq_add i (f j)) xs c) = kv_ext c"
  by (induction xs arbitrary: c) (simp_all add: cells_seq_add_def seq_pos_inc_def)

lemma put_cell_effect:
  assumes "cells_wf c" "i < length (kv_pos c)" "cells_view c i = None" "0 \<le> p" "\<forall>q \<in> set qs. q < LLAMA_MAX_SEQ"
  shows "cells_wf (put_cell i p eo qs c)" "length (kv_pos (put_cell i p eo qs c)) = length (kv_pos c)"
    "cells_view (put_cell i p eo qs c) j = (if j = i then Some \<lparr>cell_pos = p, cell_shift = kv_shift c ! i,
       cell_ext = (case eo of None \<Rightarrow> kv_ext c ! i | Some e \<Rightarrow> e), cell_seq = set qs\<rparr> else cells_view c j)"
    "kv_shift (put_cell i p eo qs c) = kv_shift c" "j \<noteq> i \<Longrightarrow> kv_ext (put_cell i p eo qs c) ! j = kv_ext c ! j"
proof -
  have e: "kv_pos c ! i = -1" using assms(3) by (auto simp: cells_view_def split: if_splits)
  have p: "p \<noteq> -1" using assms(4) by simp
  let ?c1 = "cells_pos_set i p c"
  have c1: "cells_wf ?c1" "i < length (kv_pos ?c1)" using cells_wf_pos_set [OF assms(1,2) e assms(4)] assms(2) by (simp_all add: cell_simps)
  note v1 = cells_view_pos_set [OF assms(1,2) e p]
  define c2 where "c2 = (case eo of None \<Rightarrow> ?c1 | Some x \<Rightarrow> cells_ext_set i x ?c1)"
  have c2: "cells_wf c2" "kv_pos c2 = (kv_pos c)[i := p]" "kv_shift c2 = kv_shift c" "j \<noteq> i \<Longrightarrow> kv_ext c2 ! j = kv_ext c ! j" for j
    using c1(1) by (auto simp: c2_def cells_wf_ext_set split: option.split) (simp_all add: cells_ext_set_def cells_pos_set_def)
  have v2: "cells_view c2 j = (if j = i then Some \<lparr>cell_pos = p, cell_shift = kv_shift c ! i,
       cell_ext = (case eo of None \<Rightarrow> kv_ext c ! i | Some e \<Rightarrow> e), cell_seq = {}\<rparr> else cells_view c j)" for j
    using v1 cells_view_ext_set [OF c1] by (auto simp: c2_def split: option.split)
  have pc: "put_cell i p eo qs c = fold (\<lambda>j. cells_seq_add i (qs ! j)) [0..<length qs] c2"
    by (simp add: put_cell_def c2_def)
  have i2: "i < length (kv_pos c2)" "kv_pos c2 ! i \<noteq> -1" using c2(2) assms(2) p by simp_all
  note f = seq_add_loop [where c = c2 and idx = i and f = "(!) qs" and n = "length qs", OF c2(1) i2]
  have q: "qs ! k < LLAMA_MAX_SEQ" if "k < length qs" for k using assms(5) nth_mem [OF that] by blast
  have img: "(!) qs ` {..<length qs} = set qs" by (auto simp: set_conv_nth)
  show "cells_wf (put_cell i p eo qs c)" "length (kv_pos (put_cell i p eo qs c)) = length (kv_pos c)"
    "kv_shift (put_cell i p eo qs c) = kv_shift c"
    unfolding pc using f(1-3) q c2(2,3) by simp_all
  show "j \<noteq> i \<Longrightarrow> kv_ext (put_cell i p eo qs c) ! j = kv_ext c ! j"
    unfolding pc seq_adds_ext by (rule c2(4))
  show "cells_view (put_cell i p eo qs c) j = (if j = i then Some \<lparr>cell_pos = p, cell_shift = kv_shift c ! i,
       cell_ext = (case eo of None \<Rightarrow> kv_ext c ! i | Some e \<Rightarrow> e), cell_seq = set qs\<rparr> else cells_view c j)"
    unfolding pc using f(4) q by (simp add: v2 img)
qed

definition cell_seqs :: "kv_store \<Rightarrow> nat \<Rightarrow> nat \<Rightarrow> nat list" where
  "cell_seqs st s i = filter (cells_seq_has (kc_cells (ks_kc st) ! s) i) [0..<ks_n_seq_max st]"

definition cell_ok :: "kv_store \<Rightarrow> nat \<Rightarrow> nat \<Rightarrow> bool" where
  \<comment> \<open>numbers that fit their types, sequences below \<open>n_seq_max\<close>\<close>
  "cell_ok st s i \<longleftrightarrow> (let c = kc_cells (ks_kc st) ! s; e = kv_ext c ! i in
     i32_ok (kv_pos c ! i) \<and> i32_ok (ext_x e) \<and> i32_ok (ext_y e) \<and> i32_ok (ext_tok e) \<and> kv_seq c ! i \<subseteq> {..<ks_n_seq_max st})"

lemma cell_okD:
  assumes "cell_ok st s i"
  shows "i32_ok (kv_pos (kc_cells (ks_kc st) ! s) ! i)" "i32_ok (ext_x (kv_ext (kc_cells (ks_kc st) ! s) ! i))"
    "i32_ok (ext_y (kv_ext (kc_cells (ks_kc st) ! s) ! i))" "i32_ok (ext_tok (kv_ext (kc_cells (ks_kc st) ! s) ! i))"
    "set (cell_seqs st s i) = kv_seq (kc_cells (ks_kc st) ! s) ! i"
  using assms by (auto simp: cell_ok_def Let_def cell_seqs_def cells_seq_has_def)

lemma read_cell_run:
  assumes ok: "cell_ok st0 s0 x" and n: "ks_n_seq_max st0 \<le> ks_n_seq_max st" "ks_n_seq_max st0 < 2 ^ 31"
    and ext: "has_cell_ext (ks_kc st) = has_cell_ext (ks_kc st0)"
  defines "c0 \<equiv> kc_cells (ks_kc st0) ! s0"
  shows "read_cell t i u (rd (write_cell st0 s0 (-1) x @ bs) st) = (Inr (True, ()),
    rd bs (on_store t (put_cell i (kv_pos c0 ! x) (if has_cell_ext (ks_kc st0) then Some (kv_ext c0 ! x) else None) (cell_seqs st0 s0 x)) st))"
proof -
  let ?qs = "cell_seqs st0 s0 x"
  have q: "q < ks_n_seq_max st0" if "q \<in> set ?qs" for q using that by (simp add: cell_seqs_def)
  have "length ?qs \<le> ks_n_seq_max st0" unfolding cell_seqs_def by (rule order_trans [OF length_filter_le]) simp
  then have lq: "length ?qs < 2 ^ 32" using n(2) by simp
  have w: "write_cell st0 s0 (-1) x = i32_out (kv_pos c0 ! x) @ u32_out (length ?qs) @
      (if has_cell_ext (ks_kc st0) then i32_out (ext_x (kv_ext c0 ! x)) @ i32_out (ext_y (kv_ext c0 ! x)) @ i32_out (ext_tok (kv_ext c0 ! x)) else []) @
      concat (map (\<lambda>q. i32_out (int q)) ?qs)"
    by (simp add: write_cell_def Let_def c0_def cell_seqs_def)
  have L: "io_loop (read_seq_id t i) [0..<length ?qs] () (rd (concat (map (\<lambda>q. i32_out (int q)) ?qs) @ bs) st') =
      (Inr (True, ()), rd bs (on_store t (fold (\<lambda>j. cells_seq_add i (?qs ! j)) [0..<length ?qs]) st'))"
    if st': "ks_n_seq_max st' = ks_n_seq_max st" for st'
  proof -
    have "\<exists>st'' s'. io_loop (read_seq_id t i) [0..<length ?qs] () (rd (concat (map (\<lambda>j. i32_out (int (?qs ! j))) [0..<length ?qs]) @ bs) st') =
        (Inr (True, s'), rd bs st'') \<and> st'' = on_store t (fold (\<lambda>j. cells_seq_add i (?qs ! j)) [0..<length ?qs]) st'"
    proof (rule io_loop_chunks [where P = "\<lambda>k st'' _. st'' = on_store t (fold (\<lambda>j. cells_seq_add i (?qs ! j)) [0..<k]) st'"])
      show "st' = on_store t (fold (\<lambda>j. cells_seq_add i (?qs ! j)) [0..<0]) st'" by (simp add: on_store_id id_def)
      fix k st'' u bs assume k: "k < length ?qs" and P: "st'' = on_store t (fold (\<lambda>j. cells_seq_add i (?qs ! j)) [0..<k]) st'"
      have qk: "?qs ! k < ks_n_seq_max st0" by (rule q [OF nth_mem [OF k]])
      have "i32_ok (int (?qs ! k))" using qk n(2) by (simp add: i32_ok_def)
      then have "read_seq_id t i k u (rd (i32_out (int (?qs ! k)) @ bs) st'') = (Inr (True, ()), rd bs (on_store t (cells_seq_add i (?qs ! k)) st''))"
        using qk n(1) st' by (simp add: read_seq_id_def io_run on_cells_store P io_ret_def)
      then show "\<exists>st3 s'. read_seq_id t i k u (rd (i32_out (int (?qs ! k)) @ bs) st'') = (Inr (True, s'), rd bs st3) \<and>
          st3 = on_store t (fold (\<lambda>j. cells_seq_add i (?qs ! j)) [0..<Suc k]) st'"
        unfolding P by (simp add: on_store_comp comp_def)
    qed
    moreover have "map (\<lambda>j. i32_out (int (?qs ! j))) [0..<length ?qs] = map (\<lambda>q. i32_out (int q)) ?qs"
      by (rule nth_equalityI) auto
    ultimately show ?thesis by auto
  qed
  note o = cell_okD(1-4) [OF ok, folded c0_def]
  show ?thesis
  proof (cases "has_cell_ext (ks_kc st0)")
    case True
    have "read_cell t i u (rd (write_cell st0 s0 (-1) x @ bs) st) =
        io_loop (read_seq_id t i) [0..<length ?qs] () (rd (concat (map (\<lambda>q. i32_out (int q)) ?qs) @ bs)
          (on_store t (cells_ext_set i (kv_ext c0 ! x)) (on_store t (cells_pos_set i (kv_pos c0 ! x)) st)))"
      unfolding w using True o lq ext by (simp add: read_cell_def io_run on_cells_store)
    then show ?thesis using L True by (simp add: on_store_comp put_cell_def [abs_def])
  next
    case False
    have "read_cell t i u (rd (write_cell st0 s0 (-1) x @ bs) st) =
        io_loop (read_seq_id t i) [0..<length ?qs] () (rd (concat (map (\<lambda>q. i32_out (int q)) ?qs) @ bs)
          (on_store t (cells_pos_set i (kv_pos c0 ! x)) st))"
      unfolding w using False o lq ext by (simp add: read_cell_def io_run on_cells_store)
    then show ?thesis using L False by (simp add: on_store_comp put_cell_def [abs_def])
  qed
qed

definition saved_cell :: "bool \<Rightarrow> abs_cell \<Rightarrow> abs_cell" where
  \<comment> \<open>what the stream keeps of a cell: not the pending shift, and the extension only when the model has one\<close>
  "saved_cell ext k = k\<lparr>cell_shift := 0, cell_ext := if ext then cell_ext k else ext_default\<rparr>"

lemma read_meta_all_run:
  assumes wf0: "kvc_wf (ks_kc st0)" "s0 < kc_n_stream (ks_kc st0)" and wf: "kvc_wf (ks_kc st)" "s < kc_n_stream (ks_kc st)"
    and ok: "\<And>i. i \<in> set I0 \<Longrightarrow> i < kvc_get_size (ks_kc st0) \<and> kvc_view (ks_kc st0) s0 i \<noteq> None \<and> cell_ok st0 s0 i"
    and n: "ks_n_seq_max st0 \<le> ks_n_seq_max st" "ks_n_seq_max st0 < 2 ^ 31"
    and ext: "has_cell_ext (ks_kc st) = has_cell_ext (ks_kc st0)"
    and empty: "kc_cells (ks_kc st) ! s = cells_reset c" and len: "length I0 \<le> kvc_get_size (ks_kc st)"
  shows "\<exists>c'. read_meta_all s (length I0) None (rd (concat (map (write_cell st0 s0 (-1)) I0) @ bs) st) =
      (Inr (Some \<lparr>si_s0 = s, si_s1 = s, si_strm = [s], si_idxs = [[0..<length I0]]\<rparr>), rd bs (st\<lparr>ks_kc := kvc_put s c' 0 (ks_kc st)\<rparr>)) \<and>
    cells_wf c' \<and> cells_size c' = kvc_get_size (ks_kc st) \<and>
    (\<forall>j < kvc_get_size (ks_kc st). cells_view c' j = (if j < length I0
       then map_option (saved_cell (has_cell_ext (ks_kc st0))) (kvc_view (ks_kc st0) s0 (I0 ! j)) else None))"
proof -
  let ?n = "kvc_get_size (ks_kc st)" and ?c0 = "kc_cells (ks_kc st0) ! s0" and ?e = "has_cell_ext (ks_kc st0)"
  note w = kvc_wfD [OF wf(1)] and w0 = kvc_wfD [OF wf0(1)]
  have sz: "cells_size (cells_reset c) = ?n" using w(8) [OF wf(2)] empty by simp
  then have lc: "length (kv_pos (cells_reset c)) = ?n" by (simp add: cells_size_def)
  have cwf: "cells_wf (cells_reset c)" using w(7) [OF wf(2)] empty by simp
  let ?V = "\<lambda>j. map_option (saved_cell ?e) (kvc_view (ks_kc st0) s0 (I0 ! j))"
  let ?P = "\<lambda>i st' (u::unit). \<exists>c'. st' = on_store s (\<lambda>_. c') st \<and> cells_wf c' \<and> length (kv_pos c') = ?n \<and>
    (\<forall>j < ?n. cells_view c' j = (if j < i then ?V j else None)) \<and>
    (\<forall>j < ?n. i \<le> j \<longrightarrow> kv_shift c' ! j = 0 \<and> kv_ext c' ! j = ext_default)"
  have "\<exists>st' u. io_loop (read_cell s) [0..<length I0] () (rd (concat (map (\<lambda>i. write_cell st0 s0 (-1) (I0 ! i)) [0..<length I0]) @ bs) st) =
      (Inr (True, u), rd bs st') \<and> ?P (length I0) st' u"
  proof (rule io_loop_chunks [where P = ?P])
    have "st = on_store s (\<lambda>_. cells_reset c) st" unfolding on_store_def empty [symmetric] by simp
    moreover have "cells_view (cells_reset c) j = None" if "j < ?n" for j
      using that lc by (intro cells_view_reset) (simp add: cells_reset_def)
    moreover have "kv_shift (cells_reset c) ! j = 0 \<and> kv_ext (cells_reset c) ! j = ext_default" if "j < ?n" for j
      using that lc cells_wfD(1,2) [OF cwf] by (simp add: cells_reset_def)
    ultimately show "?P 0 st ()" using cwf lc by (intro exI [of _ "cells_reset c"]) auto
  next
    fix i st' u bs assume i: "i < length I0" and "?P i st' u"
    then obtain c' where P: "st' = on_store s (\<lambda>_. c') st" "cells_wf c'" "length (kv_pos c') = ?n"
      "\<forall>j < ?n. cells_view c' j = (if j < i then ?V j else None)"
      "\<forall>j < ?n. i \<le> j \<longrightarrow> kv_shift c' ! j = 0 \<and> kv_ext c' ! j = ext_default"
      by (elim exE conjE) (rule that; assumption)
    let ?x = "I0 ! i"
    have x: "?x < kvc_get_size (ks_kc st0)" "kvc_view (ks_kc st0) s0 ?x \<noteq> None" "cell_ok st0 s0 ?x" using ok [OF nth_mem [OF i]] by blast+
    have ilt: "i < length (kv_pos c')" "i < ?n" using i len P(3) by simp_all
    have c0: "cells_wf ?c0" "?x < length (kv_pos ?c0)" using w0(7,8) [OF wf0(2)] x(1) by (simp_all add: cells_size_def)
    have pos: "0 \<le> kv_pos ?c0 ! ?x"
      using x(2) cells_wf_cellD(1) [OF c0] by (auto simp: kvc_view_def cells_view_def split: if_splits)
    have seqs: "\<forall>q \<in> set (cell_seqs st0 s0 ?x). q < LLAMA_MAX_SEQ"
      using cell_okD(5) [OF x(3)] cells_wf_cellD(3) [OF c0] by simp
    let ?eo = "if ?e then Some (kv_ext ?c0 ! ?x) else None"
    let ?c'' = "put_cell i (kv_pos ?c0 ! ?x) ?eo (cell_seqs st0 s0 ?x) c'"
    have "cells_view c' i = None" using P(4) ilt(2) by simp
    note e = put_cell_effect [OF P(2) ilt(1) this pos seqs, where eo = ?eo]
    have r: "read_cell s i u (rd (write_cell st0 s0 (-1) ?x @ bs) st') = (Inr (True, ()), rd bs (on_store s (\<lambda>_. ?c'') st))"
    proof -
      have "read_cell s i u (rd (write_cell st0 s0 (-1) ?x @ bs) (on_store s (\<lambda>_. c') st)) =
          (Inr (True, ()), rd bs (on_store s (put_cell i (kv_pos ?c0 ! ?x) ?eo (cell_seqs st0 s0 ?x)) (on_store s (\<lambda>_. c') st)))"
        by (rule read_cell_run [OF x(3)]) (use n ext in simp_all)
      then show ?thesis unfolding P(1) by (simp add: on_store_comp)
    qed
    have "cells_view ?c'' j = (if j < Suc i then ?V j else None)" if j: "j < ?n" for j
    proof (cases "j = i")
      case True
      have "cells_view ?c'' i = ?V i"
        using e(3) [where j = i] x(2) P(5) ilt(2) cell_okD(5) [OF x(3)]
        by (auto simp: kvc_view_def cells_view_def saved_cell_def split: if_splits)
      then show ?thesis using True by simp
    next
      case False
      then show ?thesis using e(3) [where j = j] P(4) j by auto
    qed
    then have "?P (Suc i) (on_store s (\<lambda>_. ?c'') st) ()"
      using e(1,2,4,5) P(3,5) by (intro exI [of _ ?c'']) auto
    then show "\<exists>st'' s'. read_cell s i u (rd (write_cell st0 s0 (-1) ?x @ bs) st') = (Inr (True, s'), rd bs st'') \<and> ?P (Suc i) st'' s'"
      using r by blast
  qed
  moreover have "map (\<lambda>i. write_cell st0 s0 (-1) (I0 ! i)) [0..<length I0] = map (write_cell st0 s0 (-1)) I0"
    by (rule nth_equalityI) auto
  ultimately obtain c' where c': "io_loop (read_cell s) [0..<length I0] () (rd (concat (map (write_cell st0 s0 (-1)) I0) @ bs) st) =
      (Inr (True, ()), rd bs (on_store s (\<lambda>_. c') st))" "cells_wf c'" "length (kv_pos c') = ?n"
    "\<forall>j < ?n. cells_view c' j = (if j < length I0 then ?V j else None)"
    by auto
  have "read_meta_all s (length I0) None (rd (concat (map (write_cell st0 s0 (-1)) I0) @ bs) st) =
      (Inr (Some \<lparr>si_s0 = s, si_s1 = s, si_strm = [s], si_idxs = [[0..<length I0]]\<rparr>), rd bs (st\<lparr>ks_kc := kvc_put s c' 0 (ks_kc st)\<rparr>))"
    using c'(1) len w(8) [OF wf(2)]
    by (simp add: read_meta_all_def mirror_ok_def io_run io_bind_Inr io_ret_def kvc_put_def on_store_def)
  then show ?thesis using c'(2-4) by (auto simp: cells_size_def)
qed


subsection \<open>A stream, and the whole cache\<close>

definition used_cells :: "kv_store \<Rightarrow> nat \<Rightarrow> nat list" where
  "used_cells st s = filter (\<lambda>i. \<not> cells_is_empty (kc_cells (ks_kc st) ! s) i) [0..<cells_size (kc_cells (ks_kc st) ! s)]"

lemma write_stream_some: "write_stream st q s \<noteq> None"
proof -
  obtain cr cnt where cr: "cell_ranges (add_cell (ks_kc st) s q) (cells_size (kc_cells (ks_kc st) ! s)) = (cr, cnt)" by fastforce
  note r = cell_ranges_all [OF cr]
  show ?thesis unfolding write_stream_def cr using length_expand [OF r(3)] r(1,2) by (simp add: Let_def)
qed

lemma state_write_chunks:
  assumes "\<not> kc_other (ks_kc st)"
  shows "state_write q st = Some (u32_out (kc_n_stream (ks_kc st)) @ concat (map (\<lambda>s. the (write_stream st q s)) [0..<kc_n_stream (ks_kc st)]))"
proof -
  have "fold_opt (\<lambda>s out. map_option (\<lambda>bs. out @ bs) (write_stream st q s)) xs o0 = Some (o0 @ concat (map (\<lambda>s. the (write_stream st q s)) xs))" for xs o0
  proof (induction xs arbitrary: o0)
    case (Cons s xs)
    obtain bs where "write_stream st q s = Some bs" using write_stream_some by blast
    then show ?case using Cons by simp
  qed simp
  then show ?thesis using assms by (simp add: state_write_def)
qed

lemma state_write_meta_expand: "state_write_meta st s cr q = concat (map (write_cell st s q) (expand cr))"
  by (induction cr) (auto simp: state_write_meta_def)

lemma write_stream_all:
  "\<exists>cr. in_ranges (cells_size (kc_cells (ks_kc st) ! s)) cr \<and> expand cr = used_cells st s \<and>
     write_stream st (-1) s = Some (u32_out (length (used_cells st s)) @ (if used_cells st s = [] then []
       else concat (map (write_cell st s (-1)) (used_cells st s)) @ state_write_data st s cr))"
proof -
  let ?n = "cells_size (kc_cells (ks_kc st) ! s)"
  obtain cr cnt where cr: "cell_ranges (add_cell (ks_kc st) s (-1)) ?n = (cr, cnt)" by fastforce
  note r = cell_ranges_all [OF cr]
  have add: "add_cell (ks_kc st) s (-1) = (\<lambda>i. \<not> cells_is_empty (kc_cells (ks_kc st) ! s) i)" by (simp add: add_cell_def fun_eq_iff)
  have e: "expand cr = used_cells st s" "cnt = length (used_cells st s)" using r(1,2) unfolding add used_cells_def by simp_all
  have "write_stream st (-1) s = Some (u32_out cnt @ (if cnt = 0 then [] else state_write_meta st s cr (-1) @ state_write_data st s cr))"
    unfolding write_stream_def cr using length_expand [OF r(3)] r(1,2) by (simp add: Let_def)
  then show ?thesis using e r(3) by (intro exI [of _ cr]) (simp add: state_write_meta_expand in_ranges_def)
qed

definition cells_ready :: "kv_store \<Rightarrow> kv_store \<Rightarrow> bool" where
  \<comment> \<open>the cells of the first store can be restored into the second: the same streams, and room for every cell\<close>
  "cells_ready st0 st \<longleftrightarrow> kvc_wf (ks_kc st) \<and> kc_n_stream (ks_kc st) = kc_n_stream (ks_kc st0) \<and>
     kc_seq_to_stream (ks_kc st) = kc_seq_to_stream (ks_kc st0) \<and> kvc_get_size (ks_kc st0) \<le> kvc_get_size (ks_kc st) \<and>
     ks_n_seq_max st0 \<le> ks_n_seq_max st \<and> has_cell_ext (ks_kc st) = has_cell_ext (ks_kc st0)"

definition stores_ready :: "kv_store \<Rightarrow> kv_store \<Rightarrow> bool" where
  \<comment> \<open>the tensors are those of the same model too\<close>
  "stores_ready st0 st \<longleftrightarrow> cells_ready st0 st \<and>
     store_like st0 st \<and> store_fits (kc_n_stream (ks_kc st)) (kvc_get_size (ks_kc st)) st"

definition store_savable :: "kv_store \<Rightarrow> bool" where
  \<comment> \<open>an invariant of the cache, and numbers that fit the types they are written with\<close>
  "store_savable st \<longleftrightarrow> kvc_wf (ks_kc st) \<and> \<not> kc_other (ks_kc st) \<and> kc_n_stream (ks_kc st) < 2 ^ 32 \<and> kvc_get_size (ks_kc st) < 2 ^ 32 \<and>
     ks_n_seq_max st < 2 ^ 31 \<and> store_fits (kc_n_stream (ks_kc st)) (kvc_get_size (ks_kc st)) st \<and>
     (\<forall>s < kc_n_stream (ks_kc st). \<forall>i < kvc_get_size (ks_kc st). kvc_view (ks_kc st) s i \<noteq> None \<longrightarrow> cell_ok st s i)"

definition stream_restored :: "kv_store \<Rightarrow> nat \<Rightarrow> kv_store \<Rightarrow> bool" where
  \<comment> \<open>cell \<open>j\<close> of the stream has the metadata and the data of the \<open>j\<close>-th saved cell, the other cells are empty\<close>
  "stream_restored st0 s st \<longleftrightarrow>
     (\<forall>j < kvc_get_size (ks_kc st). kvc_view (ks_kc st) s j = (if j < length (used_cells st0 s)
        then map_option (saved_cell (has_cell_ext (ks_kc st0))) (kvc_view (ks_kc st0) s (used_cells st0 s ! j)) else None)) \<and>
     (\<forall>l < length (ks_layers st). \<forall>j < length (used_cells st0 s).
        cell_data (ks_v_trans st) (kvc_get_size (ks_kc st)) (ks_layers st ! l) s j =
        cell_data (ks_v_trans st0) (kvc_get_size (ks_kc st0)) (ks_layers st0 ! l) s (used_cells st0 s ! j))"

lemma cells_readyD:
  assumes "cells_ready st0 st"
  shows "kvc_wf (ks_kc st)" "kc_n_stream (ks_kc st) = kc_n_stream (ks_kc st0)" "kc_seq_to_stream (ks_kc st) = kc_seq_to_stream (ks_kc st0)"
    "kvc_get_size (ks_kc st0) \<le> kvc_get_size (ks_kc st)" "ks_n_seq_max st0 \<le> ks_n_seq_max st"
    "has_cell_ext (ks_kc st) = has_cell_ext (ks_kc st0)"
  using assms unfolding cells_ready_def by blast+

lemma stores_readyD:
  assumes "stores_ready st0 st"
  shows "cells_ready st0 st" "store_like st0 st" "store_fits (kc_n_stream (ks_kc st)) (kvc_get_size (ks_kc st)) st"
  using assms unfolding stores_ready_def by blast+

lemma store_savableD:
  assumes "store_savable st"
  shows "kvc_wf (ks_kc st)" "\<not> kc_other (ks_kc st)" "kc_n_stream (ks_kc st) < 2 ^ 32" "kvc_get_size (ks_kc st) < 2 ^ 32"
    "ks_n_seq_max st < 2 ^ 31" "store_fits (kc_n_stream (ks_kc st)) (kvc_get_size (ks_kc st)) st"
    "s < kc_n_stream (ks_kc st) \<Longrightarrow> i < kvc_get_size (ks_kc st) \<Longrightarrow> kvc_view (ks_kc st) s i \<noteq> None \<Longrightarrow> cell_ok st s i"
  using assms unfolding store_savable_def by blast+

lemma used_cells_props:
  assumes "kvc_wf (ks_kc st)" "s < kc_n_stream (ks_kc st)"
  shows "distinct (used_cells st s)" "length (used_cells st s) \<le> kvc_get_size (ks_kc st)"
    "i \<in> set (used_cells st s) \<longleftrightarrow> i < kvc_get_size (ks_kc st) \<and> kvc_view (ks_kc st) s i \<noteq> None"
proof -
  have sz: "cells_size (kc_cells (ks_kc st) ! s) = kvc_get_size (ks_kc st)" using kvc_wfD(8) [OF assms] .
  show "distinct (used_cells st s)" by (simp add: used_cells_def)
  show "length (used_cells st s) \<le> kvc_get_size (ks_kc st)"
    unfolding used_cells_def sz by (rule order_trans [OF length_filter_le]) simp
  show "i \<in> set (used_cells st s) \<longleftrightarrow> i < kvc_get_size (ks_kc st) \<and> kvc_view (ks_kc st) s i \<noteq> None"
    by (auto simp: used_cells_def sz cells_is_empty_view kvc_view_def)
qed

lemma stream_views_put:
  assumes "kvc_wf (ks_kc st)" "t < kc_n_stream (ks_kc st)"
  shows "kc_cells (kvc_put t c h (ks_kc st)) ! u = (if u = t then c else kc_cells (ks_kc st) ! u)"
  using kvc_wfD(2) [OF assms(1)] assms(2) by (simp add: nth_upd)

lemma stream_meta_run:
  assumes sv: "store_savable st0" and rd: "cells_ready st0 st" and s: "s < kc_n_stream (ks_kc st0)"
    and empty: "kc_cells (ks_kc st) ! s = cells_reset c"
  defines "U \<equiv> used_cells st0 s" and "n \<equiv> kvc_get_size (ks_kc st)"
  shows "\<exists>c'. read_meta_all s (length U) None (rd (concat (map (write_cell st0 s (-1)) U) @ bs) st) =
      (Inr (Some \<lparr>si_s0 = s, si_s1 = s, si_strm = [s], si_idxs = [[0..<length U]]\<rparr>), rd bs (st\<lparr>ks_kc := kvc_put s c' 0 (ks_kc st)\<rparr>)) \<and>
    cells_size c' = n \<and>
    (\<forall>j < n. cells_view c' j = (if j < length U then map_option (saved_cell (has_cell_ext (ks_kc st0))) (kvc_view (ks_kc st0) s (U ! j)) else None)) \<and>
    cells_ready st0 (st\<lparr>ks_kc := kvc_put s c' 0 (ks_kc st)\<rparr>) \<and> kvc_get_size (kvc_put s c' 0 (ks_kc st)) = n"
proof -
  note v = store_savableD [OF sv] and r = cells_readyD [OF rd]
  note U = used_cells_props [OF v(1) s, folded U_def]
  have s1: "s < kc_n_stream (ks_kc st)" using s r(2) by simp
  have "\<And>i. i \<in> set U \<Longrightarrow> i < kvc_get_size (ks_kc st0) \<and> kvc_view (ks_kc st0) s i \<noteq> None \<and> cell_ok st0 s i" using U(3) v(7) [OF s] by blast
  from read_meta_all_run [OF v(1) s r(1) s1 this r(5) v(5) r(6) empty, of U bs]
  obtain c' where c': "read_meta_all s (length U) None (rd (concat (map (write_cell st0 s (-1)) U) @ bs) st) =
      (Inr (Some \<lparr>si_s0 = s, si_s1 = s, si_strm = [s], si_idxs = [[0..<length U]]\<rparr>), rd bs (st\<lparr>ks_kc := kvc_put s c' 0 (ks_kc st)\<rparr>))"
    "cells_wf c'" "cells_size c' = n"
    "\<forall>j < n. cells_view c' j = (if j < length U then map_option (saved_cell (has_cell_ext (ks_kc st0))) (kvc_view (ks_kc st0) s (U ! j)) else None)"
    unfolding n_def using U(2) r(4) by auto
  have sz1: "kvc_get_size (kvc_put s c' 0 (ks_kc st)) = n" using kvc_put_size [OF r(1) s1] c'(3) by (simp add: n_def)
  have "q < length (kc_seq_to_stream (ks_kc st)) \<and> stream_of (ks_kc st) q = s"
    if i: "i < n" "cell_has_seq q (cells_view c' i)" for i q
  proof -
    have iU: "i < length U" "cell_has_seq q (kvc_view (ks_kc st0) s (U ! i))"
      using i c'(4) by (auto simp: cell_has_seq_def saved_cell_def split: if_splits option.splits)
    have "q < length (kc_seq_to_stream (ks_kc st0)) \<and> stream_of (ks_kc st0) q = s"
      using kvc_wfD(10) [OF v(1) s _ iU(2)] U(3) nth_mem [OF iU(1)] by blast
    then show ?thesis using r(3) by (simp add: stream_of_def)
  qed
  then have "kvc_wf (kvc_put s c' 0 (ks_kc st))" using kvc_wf_put [OF r(1) s1 c'(2)] c'(3) by (simp add: n_def)
  then have "cells_ready st0 (st\<lparr>ks_kc := kvc_put s c' 0 (ks_kc st)\<rparr>)"
    using sz1 r unfolding cells_ready_def by (simp add: has_cell_ext_def kvc_put_def n_def)
  then show ?thesis using c' sz1 by blast
qed

lemma read_stream_run:
  assumes sv: "store_savable st0" and rd: "stores_ready st0 st" and s: "s < kc_n_stream (ks_kc st0)"
    and empty: "kc_cells (ks_kc st) ! s = cells_reset c"
  shows "\<exists>st' out'. read_stream (-1) None s out (rd (the (write_stream st0 (-1) s) @ bs) st) = (Inr (True, out'), rd bs st') \<and>
    stores_ready st0 st' \<and> kvc_get_size (ks_kc st') = kvc_get_size (ks_kc st) \<and> stream_restored st0 s st' \<and>
    (\<forall>u. u \<noteq> s \<longrightarrow> kc_cells (ks_kc st') ! u = kc_cells (ks_kc st) ! u \<and>
       (\<forall>l < length (ks_layers st'). \<forall>i. cell_data (ks_v_trans st') (kvc_get_size (ks_kc st)) (ks_layers st' ! l) u i =
          cell_data (ks_v_trans st) (kvc_get_size (ks_kc st)) (ks_layers st ! l) u i)) \<and>
    ks_v_trans st' = ks_v_trans st \<and> length (ks_layers st') = length (ks_layers st)"
proof -
  note v = store_savableD [OF sv] and r = stores_readyD [OF rd]
  note k = cells_readyD [OF r(1)]
  let ?U = "used_cells st0 s" and ?n = "kvc_get_size (ks_kc st)" and ?m = "kvc_get_size (ks_kc st0)"
  note U = used_cells_props [OF v(1) s]
  have s1: "s < kc_n_stream (ks_kc st)" using s k(2) by simp
  have sz: "cells_size (kc_cells (ks_kc st) ! s) = ?n" "cells_size (kc_cells (ks_kc st0) ! s) = ?m"
    by (rule kvc_wfD(8) [OF k(1) s1], rule kvc_wfD(8) [OF v(1) s])
  obtain cr where cr: "in_ranges ?m cr" "expand cr = ?U"
    "write_stream st0 (-1) s = Some (u32_out (length ?U) @ (if ?U = [] then [] else concat (map (write_cell st0 s (-1)) ?U) @ state_write_data st0 s cr))"
    using write_stream_all [where st = st0 and s = s] unfolding sz(2) by blast
  have cnt: "length ?U < 2 ^ 32" using U(2) v(4) by simp
  show ?thesis
  proof (cases "?U = []")
    case True
    have "kvc_view (ks_kc st) s j = None" if "j < ?n" for j
    proof -
      have "length (kv_pos c) = ?n" using sz(1) unfolding empty by (simp add: cells_size_def cells_reset_def)
      then show ?thesis using that empty by (simp add: kvc_view_def cells_view_reset)
    qed
    then have "stream_restored st0 s st" using True by (simp add: stream_restored_def)
    moreover have "read_stream (-1) None s out (rd (the (write_stream st0 (-1) s) @ bs) st) = (Inr (True, out), rd bs st)"
      using True by (simp add: cr(3) read_stream_def io_run io_ret_def)
    ultimately show ?thesis using rd by blast
  next
    case False
    let ?si = "\<lparr>si_s0 = s, si_s1 = s, si_strm = [s], si_idxs = [[0..<length ?U]]\<rparr>"
    from stream_meta_run [OF sv r(1) s empty, where bs = "state_write_data st0 s cr @ bs"]
    obtain c' where c': "read_meta_all s (length ?U) None (rd (concat (map (write_cell st0 s (-1)) ?U) @ state_write_data st0 s cr @ bs) st) =
        (Inr (Some ?si), rd (state_write_data st0 s cr @ bs) (st\<lparr>ks_kc := kvc_put s c' 0 (ks_kc st)\<rparr>))"
      "cells_size c' = ?n"
      "\<forall>j < ?n. cells_view c' j = (if j < length ?U then map_option (saved_cell (has_cell_ext (ks_kc st0))) (kvc_view (ks_kc st0) s (?U ! j)) else None)"
      "cells_ready st0 (st\<lparr>ks_kc := kvc_put s c' 0 (ks_kc st)\<rparr>)" "kvc_get_size (kvc_put s c' 0 (ks_kc st)) = ?n"
      by (elim exE conjE) (rule that; assumption)
    let ?st1 = "st\<lparr>ks_kc := kvc_put s c' 0 (ks_kc st)\<rparr>"
    have cells1: "kc_cells (ks_kc ?st1) ! u = (if u = s then c' else kc_cells (ks_kc st) ! u)" for u
      using stream_views_put [OF k(1) s1] by simp
    have "\<exists>st'. state_read_data s (length ?U) ?si (rd (state_write_data st0 s cr @ bs) ?st1) = (Inr True, rd bs st') \<and>
        ks_kc st' = ks_kc ?st1 \<and> ks_n_seq_max st' = ks_n_seq_max ?st1 \<and> store_like st0 st' \<and> store_fits (kc_n_stream (ks_kc st)) ?n st' \<and>
        data_from st0 s (expand cr) ?st1 s [0..<length ?U] ?m ?n st'"
    proof (rule state_read_data_run)
      show "store_like st0 ?st1" using r(2) by (simp add: store_like_def)
      show "store_fits (kc_n_stream (ks_kc st0)) ?m st0" by (rule v(6))
      show "store_fits (kc_n_stream (ks_kc st)) ?n ?st1" using r(3) by (simp add: store_fits_def)
      show "s < kc_n_stream (ks_kc st0)" "s < kc_n_stream (ks_kc st)" by (rule s, rule s1)
      show "cells_size (kc_cells (ks_kc ?st1) ! s) = ?n" using cells1 c'(2) by simp
      show "i < ?n" if "i \<in> set [0..<length ?U]" for i using that U(2) k(4) by simp
    qed (use sz cr False in simp_all)
    then obtain st' where st': "state_read_data s (length ?U) ?si (rd (state_write_data st0 s cr @ bs) ?st1) = (Inr True, rd bs st')"
      "ks_kc st' = ks_kc ?st1" "ks_n_seq_max st' = ks_n_seq_max st" "store_like st0 st'" "store_fits (kc_n_stream (ks_kc st)) ?n st'"
      "data_from st0 s ?U ?st1 s [0..<length ?U] ?m ?n st'"
      unfolding cr(2) by auto
    have "read_stream (-1) None s out (rd (the (write_stream st0 (-1) s) @ bs) st) =
        (Inr (True, out[s := ?si]), rd bs st')"
      using False cnt c'(1) st'(1)
      by (simp add: cr(3) read_stream_def state_read_meta_def io_run io_bind_Inr io_ret_def io_catch_def Let_def)
    moreover have "stores_ready st0 st'"
      using c'(4,5) st'(2-5) unfolding stores_ready_def cells_ready_def by simp
    moreover have "stream_restored st0 s st'"
    proof -
      have v: "kvc_view (ks_kc st') s j = cells_view c' j" for j using cells1 [of s] st'(2) by (simp add: kvc_view_def)
      have "cell_data (ks_v_trans st') ?n (ks_layers st' ! l) s j = cell_data (ks_v_trans st0) ?m (ks_layers st0 ! l) s (?U ! j)"
        if "l < length (ks_layers st')" "j < length ?U" for l j
        using st'(6) that unfolding data_from_def by fastforce
      then show ?thesis unfolding stream_restored_def v using c'(3,5) st'(2) by simp
    qed
    moreover have "ks_v_trans st' = ks_v_trans st" "length (ks_layers st') = length (ks_layers st)"
      using st'(4) r(2) by (auto simp: store_like_def dest!: list_all2_lengthD)
    moreover have "kc_cells (ks_kc st') ! u = kc_cells (ks_kc st) ! u \<and>
       (\<forall>l < length (ks_layers st'). \<forall>i. cell_data (ks_v_trans st') ?n (ks_layers st' ! l) u i = cell_data (ks_v_trans st) ?n (ks_layers st ! l) u i)"
      if "u \<noteq> s" for u
      using that cells1 [of u] st'(2,6) unfolding data_from_def by simp
    ultimately show ?thesis using c'(5) st'(2) by (intro exI [of _ st'] exI conjI) (assumption | simp)+
  qed
qed

lemma kvc_clear_eq:
  assumes "length (kc_cells kc) = kc_n_stream kc" "length (kc_heads kc) = kc_n_stream kc"
  shows "kvc_clear kc = kc\<lparr>kc_cells := map cells_reset (kc_cells kc), kc_heads := replicate (kc_n_stream kc) 0\<rparr>"
proof -
  have "fold (\<lambda>s kc. kc\<lparr>kc_cells := (kc_cells kc)[s := cells_reset (kc_cells kc ! s)], kc_heads := (kc_heads kc)[s := 0]\<rparr>) [0..<n] kc =
      kc\<lparr>kc_cells := map cells_reset (take n (kc_cells kc)) @ drop n (kc_cells kc), kc_heads := replicate n 0 @ drop n (kc_heads kc)\<rparr>"
    if "n \<le> kc_n_stream kc" for n
    using that
  proof (induction n)
    case (Suc n)
    have a: "(map cells_reset (take n xs) @ drop n xs)[n := cells_reset ((map cells_reset (take n xs) @ drop n xs) ! n)] =
        map cells_reset (take (Suc n) xs) @ drop (Suc n) xs" if "n < length xs" for xs
      using that by (simp add: list_update_append nth_append take_Suc_conv_app_nth Cons_nth_drop_Suc [symmetric])
    have b: "(replicate n 0 @ drop n xs)[n := 0] = replicate (Suc n) 0 @ drop (Suc n) xs" if "n < length xs" for xs :: "nat list"
      using that by (simp add: list_update_append replicate_append_same [symmetric] Cons_nth_drop_Suc [symmetric])
    show ?case using Suc a [of "kc_cells kc"] b [of "kc_heads kc"] assms by simp
  qed simp
  from this [of "kc_n_stream kc"] show ?thesis using assms by (simp add: kvc_clear_def)
qed

lemma layer_zero_like: "layer_like l0 l \<Longrightarrow> layer_like l0 (layer_zero l)" "layer_fits n sz l \<Longrightarrow> layer_fits n sz (layer_zero l)"
proof -
  have m: "Some t = map_option f x \<longleftrightarrow> (\<exists>u. x = Some u \<and> t = f u)" for t x and f :: "byte list \<Rightarrow> byte list" by (cases x) auto
  show "layer_like l0 l \<Longrightarrow> layer_like l0 (layer_zero l)" by (auto simp: layer_like_def layer_zero_def)
  show "layer_fits n sz l \<Longrightarrow> layer_fits n sz (layer_zero l)" by (auto simp: layer_fits_def layer_zero_def m)
qed

lemma kvs_clear_effect:
  assumes "kvc_wf (ks_kc st)"
  shows "kvc_wf (ks_kc (kvs_clear b st))" "kvc_get_size (ks_kc (kvs_clear b st)) = kvc_get_size (ks_kc st)"
    "kc_n_stream (ks_kc (kvs_clear b st)) = kc_n_stream (ks_kc st)" "kc_seq_to_stream (ks_kc (kvs_clear b st)) = kc_seq_to_stream (ks_kc st)"
    "has_cell_ext (ks_kc (kvs_clear b st)) = has_cell_ext (ks_kc st)"
    "s < kc_n_stream (ks_kc st) \<Longrightarrow> kc_cells (ks_kc (kvs_clear b st)) ! s = cells_reset (kc_cells (ks_kc st) ! s)"
    "s < kc_n_stream (ks_kc st) \<Longrightarrow> i < kvc_get_size (ks_kc st) \<Longrightarrow> kvc_view (ks_kc (kvs_clear b st)) s i = None"
proof -
  note w = kvc_wfD [OF assms] and e = kvc_clear_effect [OF assms]
  have c: "kvc_clear (ks_kc st) = (ks_kc st)\<lparr>kc_cells := map cells_reset (kc_cells (ks_kc st)), kc_heads := replicate (kc_n_stream (ks_kc st)) 0\<rparr>"
    by (rule kvc_clear_eq [OF w(2,3)])
  have k: "ks_kc (kvs_clear b st) = kvc_clear (ks_kc st)" by (simp add: kvs_clear_def Let_def)
  show "kvc_wf (ks_kc (kvs_clear b st))" "kvc_get_size (ks_kc (kvs_clear b st)) = kvc_get_size (ks_kc st)"
    unfolding k using e(1) kvc_frameD [OF e(2)] by simp_all
  show "kc_n_stream (ks_kc (kvs_clear b st)) = kc_n_stream (ks_kc st)" "kc_seq_to_stream (ks_kc (kvs_clear b st)) = kc_seq_to_stream (ks_kc st)"
    "has_cell_ext (ks_kc (kvs_clear b st)) = has_cell_ext (ks_kc st)"
    "s < kc_n_stream (ks_kc st) \<Longrightarrow> kc_cells (ks_kc (kvs_clear b st)) ! s = cells_reset (kc_cells (ks_kc st) ! s)"
    unfolding k by (simp_all add: c has_cell_ext_def w(2))
  show "s < kc_n_stream (ks_kc st) \<Longrightarrow> i < kvc_get_size (ks_kc st) \<Longrightarrow> kvc_view (ks_kc (kvs_clear b st)) s i = None"
    unfolding k by (rule e(3))
qed

lemma clear_ready:
  assumes "stores_ready st0 st"
  shows "stores_ready st0 (kvs_clear b st)"
proof -
  note r = stores_readyD [OF assms]
  note k = cells_readyD [OF r(1)]
  note e = kvs_clear_effect [OF k(1), where b = b]
  have "store_like st0 (kvs_clear b st)"
    using r(2) by (auto simp: store_like_def kvs_clear_def Let_def list_all2_conv_all_nth intro: layer_zero_like)
  moreover have "store_fits (kc_n_stream (ks_kc st)) (kvc_get_size (ks_kc st)) (kvs_clear b st)"
    using r(3) by (auto simp: store_fits_def kvs_clear_def Let_def offsets_fit_def intro: layer_zero_like) (simp_all add: layer_zero_def)
  moreover have "ks_n_seq_max (kvs_clear b st) = ks_n_seq_max st" by (simp add: kvs_clear_def Let_def)
  ultimately show ?thesis using e(1-5) k(2-6) by (simp add: stores_ready_def cells_ready_def)
qed

lemma stream_restored_keep:
  assumes "stream_restored st0 s st" "kvc_get_size (ks_kc st') = kvc_get_size (ks_kc st)" "kc_cells (ks_kc st') ! s = kc_cells (ks_kc st) ! s"
    "\<forall>l < length (ks_layers st'). \<forall>i. cell_data (ks_v_trans st') (kvc_get_size (ks_kc st)) (ks_layers st' ! l) s i =
       cell_data (ks_v_trans st) (kvc_get_size (ks_kc st)) (ks_layers st ! l) s i"
    "length (ks_layers st') = length (ks_layers st)"
  shows "stream_restored st0 s st'"
  using assms by (simp add: stream_restored_def kvc_view_def)

lemma state_restored:
  assumes sv: "store_savable st0" and rd: "stores_ready st0 st" and other: "\<not> kc_other (ks_kc st)"
  shows "\<exists>out bytes st'. state_write (-1) st0 = Some bytes \<and> state_read (-1) None (rd (bytes @ bs) st) = (Inr out, rd bs st') \<and>
    stores_ready st0 st' \<and> kvc_get_size (ks_kc st') = kvc_get_size (ks_kc st) \<and> (\<forall>s < kc_n_stream (ks_kc st0). stream_restored st0 s st')"
proof -
  note v = store_savableD [OF sv] and r = cells_readyD [OF stores_readyD(1) [OF rd]]
  let ?n = "kc_n_stream (ks_kc st0)" and ?st1 = "kvs_clear True st"
  note c = clear_ready [OF rd, where b = True] kvs_clear_effect(2,6) [OF r(1), where b = True]
  let ?chunk = "\<lambda>s. the (write_stream st0 (-1) s)"
  let ?P = "\<lambda>k st' out. stores_ready st0 st' \<and> kvc_get_size (ks_kc st') = kvc_get_size (ks_kc st) \<and> (\<forall>s < k. stream_restored st0 s st') \<and>
    (\<forall>s. k \<le> s \<longrightarrow> kc_cells (ks_kc st') ! s = kc_cells (ks_kc ?st1) ! s)"
  have "\<exists>st' out. io_loop (read_stream (-1) None) [0..<?n] (replicate ?n slot_empty) (rd (concat (map ?chunk [0..<?n]) @ bs) ?st1) =
      (Inr (True, out), rd bs st') \<and> ?P ?n st' out"
  proof (rule io_loop_chunks [where P = ?P])
    show "?P 0 ?st1 (replicate ?n slot_empty)" using c by simp
  next
    fix s st' out bs assume s: "s < ?n" and P: "?P s st' out"
    have empty: "kc_cells (ks_kc st') ! s = cells_reset (kc_cells (ks_kc st) ! s)" using P c(3) [of s] s r(2) by simp
    have ready: "stores_ready st0 st'" using P by (rule conjunct1)
    from read_stream_run [OF sv ready s empty, where out = out and bs = bs]
    obtain st2 out2 where st2: "read_stream (-1) None s out (rd (?chunk s @ bs) st') = (Inr (True, out2), rd bs st2)"
      "stores_ready st0 st2" "kvc_get_size (ks_kc st2) = kvc_get_size (ks_kc st')" "stream_restored st0 s st2"
      "\<forall>u. u \<noteq> s \<longrightarrow> kc_cells (ks_kc st2) ! u = kc_cells (ks_kc st') ! u \<and>
         (\<forall>l < length (ks_layers st2). \<forall>i. cell_data (ks_v_trans st2) (kvc_get_size (ks_kc st')) (ks_layers st2 ! l) u i =
            cell_data (ks_v_trans st') (kvc_get_size (ks_kc st')) (ks_layers st' ! l) u i)"
      "length (ks_layers st2) = length (ks_layers st')"
      by (elim exE conjE) (rule that; assumption)
    have "stream_restored st0 u st2" if u: "u < Suc s" for u
    proof (cases "u = s")
      case False
      then have "stream_restored st0 u st'" using P u less_Suc_eq by blast
      moreover have "kc_cells (ks_kc st2) ! u = kc_cells (ks_kc st') ! u" using st2(5) False by blast
      moreover have "\<forall>l < length (ks_layers st2). \<forall>i. cell_data (ks_v_trans st2) (kvc_get_size (ks_kc st')) (ks_layers st2 ! l) u i =
            cell_data (ks_v_trans st') (kvc_get_size (ks_kc st')) (ks_layers st' ! l) u i" using st2(5) False by blast
      ultimately show ?thesis using st2(3,6) stream_restored_keep by blast
    qed (use st2(4) in simp)
    moreover have "kc_cells (ks_kc st2) ! u = kc_cells (ks_kc ?st1) ! u" if "Suc s \<le> u" for u
      using P st2(5) that by (metis Suc_leD Suc_n_not_le_n)
    moreover have "kvc_get_size (ks_kc st2) = kvc_get_size (ks_kc st)" using P st2(3) by (metis (no_types))
    ultimately have "?P (Suc s) st2 out2" using st2(2) by blast
    then show "\<exists>st'' out'. read_stream (-1) None s out (rd (?chunk s @ bs) st') = (Inr (True, out'), rd bs st'') \<and> ?P (Suc s) st'' out'"
      using st2(1) by blast
  qed
  then obtain st' out where L: "io_loop (read_stream (-1) None) [0..<?n] (replicate ?n slot_empty) (rd (concat (map ?chunk [0..<?n]) @ bs) ?st1) =
      (Inr (True, out), rd bs st')" "?P ?n st' out" by blast
  have "state_read (-1) None (rd (u32_out ?n @ concat (map ?chunk [0..<?n]) @ bs) st) = (Inr out, rd bs st')"
    using L(1) other v(3) r(2) by (simp add: state_read_def lift_kc_def Let_def io_run io_bind_Inr io_ret_def)
  then show ?thesis using state_write_chunks [OF v(2), of "-1"] L(2) by auto
qed

lemma restored_positions:
  assumes "store_savable st0" "stores_ready st0 st" "\<forall>s < kc_n_stream (ks_kc st0). stream_restored st0 s st" "q < length (kc_seq_to_stream (ks_kc st0))"
  shows "kvc_positions (ks_kc st) q = kvc_positions (ks_kc st0) q"
proof -
  note v = store_savableD [OF assms(1)] and r = cells_readyD [OF stores_readyD(1) [OF assms(2)]]
  let ?t = "stream_of (ks_kc st0) q"
  have t: "?t < kc_n_stream (ks_kc st0)" using kvc_wfD(6) [OF v(1) assms(4)] .
  have tq: "stream_of (ks_kc st) q = ?t" using r(3) by (simp add: stream_of_def)
  note U = used_cells_props [OF v(1) t]
  let ?U = "used_cells st0 ?t"
  have view: "kvc_view (ks_kc st) ?t j = (if j < length ?U then map_option (saved_cell (has_cell_ext (ks_kc st0))) (kvc_view (ks_kc st0) ?t (?U ! j)) else None)"
    if "j < kvc_get_size (ks_kc st)" for j
    using assms(3) t that unfolding stream_restored_def by blast
  have sc: "cell_seq (saved_cell b k) = cell_seq k" "cell_pos (saved_cell b k) = cell_pos k" for b k by (simp_all add: saved_cell_def)
  have "p \<in> kvc_positions (ks_kc st) q \<longleftrightarrow> p \<in> kvc_positions (ks_kc st0) q" for p
  proof
    assume "p \<in> kvc_positions (ks_kc st) q"
    then obtain j k where j: "j < kvc_get_size (ks_kc st)" "kvc_view (ks_kc st) ?t j = Some k" "q \<in> cell_seq k" "p = cell_pos k"
      using kvc_positions_view [OF r(1)] assms(4) r(3) tq by auto
    then obtain k0 where "j < length ?U" "kvc_view (ks_kc st0) ?t (?U ! j) = Some k0" "k = saved_cell (has_cell_ext (ks_kc st0)) k0"
      using view [OF j(1)] by (auto split: if_splits)
    then show "p \<in> kvc_positions (ks_kc st0) q"
      using kvc_positions_view [OF v(1) assms(4)] j(3,4) U(3) nth_mem [of j ?U] sc by metis
  next
    assume "p \<in> kvc_positions (ks_kc st0) q"
    then obtain i k where i: "i < kvc_get_size (ks_kc st0)" "kvc_view (ks_kc st0) ?t i = Some k" "q \<in> cell_seq k" "p = cell_pos k"
      using kvc_positions_view [OF v(1) assms(4)] by auto
    then obtain j where j: "j < length ?U" "?U ! j = i" using U(3) by (metis in_set_conv_nth option.distinct(1))
    have jn: "j < kvc_get_size (ks_kc st)" using j(1) U(2) r(4) by simp
    have "kvc_view (ks_kc st) ?t j = Some (saved_cell (has_cell_ext (ks_kc st0)) k)" using view [OF jn] j i(2) by simp
    then show "p \<in> kvc_positions (ks_kc st) q"
      using kvc_positions_view [OF r(1)] assms(4) r(3) tq jn i(3,4) sc by metis
  qed
  then show ?thesis by blast
qed


subsection \<open>What a restore does\<close>

text \<open>The examples save \<open>demo_kc\<close>, with one layer whose values are transposed, and restore it into an
  empty cache of six cells.\<close>

definition demo_layer :: "nat \<Rightarrow> byte list \<Rightarrow> kv_layer" where
  "demo_layer sz bs = \<lparr>kl_k_type = 1, kl_k_row = 2, kl_k = [bs], kl_v_type = 1, kl_v_row = 2, kl_v_el = 1, kl_v_embd = 2, kl_v = [Some (rev bs)]\<rparr>"

definition demo_store :: kv_store where
  "demo_store = \<lparr>ks_kc = demo_kc, ks_n_seq_max = 2, ks_v_trans = True, ks_layers = [demo_layer 4 [1, 2, 3, 4, 5, 6, 7, 8]]\<rparr>"

definition demo_target :: kv_store where
  "demo_target = \<lparr>ks_kc = kvc_new True 6 2 demo_settings, ks_n_seq_max = 2, ks_v_trans = True, ks_layers = [demo_layer 6 (replicate 12 0)]\<rparr>"

lemma demo_store_savable: "store_savable demo_store"
proof -
  have n: "kc_n_stream demo_kc = 1" "kc_cells demo_kc = [demo_cells]"
    by (simp_all add: demo_kc_def kvc_new_def demo_settings_def Let_def)
  have ok: "cell_ok demo_store 0 i" if "i < 4" "kvc_view demo_kc 0 i \<noteq> None" for i
    using that demo_view n(2)
    by (auto simp: less_4 cell_ok_def demo_store_def n demo_cells_fields i32_ok_def ext_default_def kvc_view_def LLAMA_TOKEN_NULL_def)
  show ?thesis
    unfolding store_savable_def
    using demo_kc_wf ok by (auto simp: demo_store_def n store_fits_def layer_fits_def offsets_fit_def demo_layer_def i32_ok_def)
qed

lemma demo_target_ready: "stores_ready demo_store demo_target" "\<not> kc_other (ks_kc demo_target)"
proof -
  let ?kc = "kvc_new True 6 2 demo_settings"
  have s: "length (kc_seq_to_stream ?kc) = 256" "\<And>s. s < 256 \<Longrightarrow> stream_of ?kc s = 0" "kc_seq_to_stream ?kc = kc_seq_to_stream demo_kc"
    by (simp_all add: kvc_new_def Let_def stream_of_def vec_resize_def LLAMA_MAX_SEQ_def demo_kc_def)
  have g: "kvc_get_size ?kc = 6" "kc_n_stream ?kc = 1"
    using s(2) [of 0] by (simp_all add: kvc_get_size_def kvc_new_def cells_size_def cells_resize_def cells_reset_def
        Let_def vec_resize_def LLAMA_MAX_SEQ_def)
  have n: "kc_n_stream demo_kc = 1" by (simp add: demo_kc_def kvc_new_def demo_settings_def Let_def)
  have "kvc_wf ?kc" by (rule kvc_wf_new) simp_all
  moreover have "has_cell_ext ?kc = has_cell_ext demo_kc"
    by (simp add: has_cell_ext_def demo_kc_def kvc_new_def demo_settings_def kvc_put_def Let_def)
  ultimately show "stores_ready demo_store demo_target"
    using s g n demo_kc_wf(5)
    by (simp add: stores_ready_def cells_ready_def demo_target_def demo_store_def store_like_def store_fits_def
        layer_like_def layer_fits_def offsets_fit_def demo_layer_def i32_ok_def)
  show "\<not> kc_other (ks_kc demo_target)" by (simp add: demo_target_def kvc_new_def Let_def)
qed

text \<open>C8. Saving a whole cache and restoring the bytes into a cache of the same model reads exactly
  what was written and succeeds. In every stream the saved cells come back in order, with their
  positions, sequences, extension and their key and value data, all other cells are empty,
  and every sequence has the positions it had; only pending position shifts are lost.\<close>

theorem state_save_restore:
  assumes "store_savable st0" "stores_ready st0 st" "\<not> kc_other (ks_kc st)"
  shows "\<exists>out bytes st'. state_write (-1) st0 = Some bytes \<and> state_read (-1) None (rd (bytes @ bs) st) = (Inr out, rd bs st') \<and>
    kvc_wf (ks_kc st') \<and> kvc_get_size (ks_kc st') = kvc_get_size (ks_kc st) \<and>
    (\<forall>s < kc_n_stream (ks_kc st0). stream_restored st0 s st') \<and>
    (\<forall>q < length (kc_seq_to_stream (ks_kc st0)). kvc_positions (ks_kc st') q = kvc_positions (ks_kc st0) q)"
proof -
  obtain out bytes st' where st': "state_write (-1) st0 = Some bytes" "state_read (-1) None (rd (bytes @ bs) st) = (Inr out, rd bs st')"
    "stores_ready st0 st'" "kvc_get_size (ks_kc st') = kvc_get_size (ks_kc st)" "\<forall>s < kc_n_stream (ks_kc st0). stream_restored st0 s st'"
    using state_restored [OF assms] by blast
  then show ?thesis
    using restored_positions [OF assms(1) st'(3,5)] cells_readyD(1) [OF stores_readyD(1) [OF st'(3)]] by blast
qed

theorem state_save_restore_witness:
  "\<exists>out bytes st'. state_write (-1) demo_store = Some bytes \<and> state_read (-1) None (rd (bytes @ [7]) demo_target) = (Inr out, rd [7] st') \<and>
    kvc_get_size (ks_kc st') = kvc_get_size (ks_kc demo_target) \<and> stream_restored demo_store 0 st' \<and>
    kvc_positions (ks_kc st') 0 = {5, 6} \<and> kvc_positions (ks_kc st') 1 = {5}"
proof -
  have "0 < kc_n_stream (ks_kc demo_store)" using kvc_wfD(1) [OF demo_kc_wf(1)] by (simp add: demo_store_def)
  moreover have "kvc_positions (ks_kc demo_store) 0 = {5, 6}" "kvc_positions (ks_kc demo_store) 1 = {5}" "length (kc_seq_to_stream (ks_kc demo_store)) = 256"
    using demo_positions demo_kc_wf(3) by (simp_all add: demo_store_def)
  moreover obtain out bytes st' where "state_write (-1) demo_store = Some bytes" "state_read (-1) None (rd (bytes @ [7]) demo_target) = (Inr out, rd [7] st')"
    "kvc_get_size (ks_kc st') = kvc_get_size (ks_kc demo_target)" "\<forall>s < kc_n_stream (ks_kc demo_store). stream_restored demo_store s st'"
    "\<forall>q < length (kc_seq_to_stream (ks_kc demo_store)). kvc_positions (ks_kc st') q = kvc_positions (ks_kc demo_store) q"
    using state_save_restore [OF demo_store_savable demo_target_ready, of "[7]"] by (elim exE conjE) (rule that; assumption)
  ultimately show ?thesis by (intro exI [of _ out] exI [of _ bytes] exI [of _ st'] conjI) simp_all
qed

lemma cells_clear_ready: "cells_ready st0 st \<Longrightarrow> cells_ready st0 (kvs_clear b st)"
  using kvs_clear_effect(1-5) [of st b] by (simp add: cells_ready_def kvs_clear_def Let_def)

lemma state_read_data_mismatch:
  assumes "length (ks_layers st0) < 2 ^ 32" "ks_v_trans st \<noteq> ks_v_trans st0 \<or> length (ks_layers st) \<noteq> length (ks_layers st0)"
  shows "\<exists>ys. state_read_data s cnt si (rd (state_write_data st0 s0 cr @ zs) st) = (Inr False, rd ys st)"
  using assms
  by (cases "ks_v_trans st0"; cases "ks_v_trans st") (auto simp: state_read_data_def state_write_data_def io_run io_ret_def Let_def)

text \<open>C29. Restoring into a cache whose model has another number of layers, or another layout of the
  values, fails: an exception is thrown, after the cells that had been restored are cleared again.
  The cache is left empty, not with the cells it had.\<close>

theorem state_read_other_model:
  assumes "store_savable st0" "cells_ready st0 st" "\<not> kc_other (ks_kc st)" "used_cells st0 0 \<noteq> []"
    and "ks_v_trans st \<noteq> ks_v_trans st0 \<or> length (ks_layers st) \<noteq> length (ks_layers st0)"
  shows "\<exists>bytes r. state_write (-1) st0 = Some bytes \<and> state_read (-1) None (rd (bytes @ bs) st) = (Inl IoThrow, r) \<and>
    kvc_wf (ks_kc (in_st r)) \<and>
    (\<forall>s < kc_n_stream (ks_kc st). \<forall>i < kvc_get_size (ks_kc st). kvc_view (ks_kc (in_st r)) s i = None)"
proof -
  note v = store_savableD [OF assms(1)] and k = cells_readyD [OF assms(2)]
  let ?n = "kc_n_stream (ks_kc st0)" and ?st1 = "kvs_clear True st" and ?chunk = "\<lambda>s. the (write_stream st0 (-1) s)"
  let ?U = "used_cells st0 0" and ?zs = "concat (map ?chunk [1..<?n]) @ bs"
  have r1: "cells_ready st0 ?st1" by (rule cells_clear_ready [OF assms(2)])
  note e = kvs_clear_effect [OF k(1), where b = True]
  have n: "0 < ?n" by (rule kvc_wfD(1) [OF v(1)])
  obtain cr where cr: "write_stream st0 (-1) 0 = Some (u32_out (length ?U) @ concat (map (write_cell st0 0 (-1)) ?U) @ state_write_data st0 0 cr)"
    using write_stream_all [where st = st0 and s = 0] assms(4) by auto
  obtain c' where c': "read_meta_all 0 (length ?U) None (rd (concat (map (write_cell st0 0 (-1)) ?U) @ state_write_data st0 0 cr @ ?zs) ?st1) =
      (Inr (Some \<lparr>si_s0 = 0, si_s1 = 0, si_strm = [0], si_idxs = [[0..<length ?U]]\<rparr>), rd (state_write_data st0 0 cr @ ?zs) (?st1\<lparr>ks_kc := kvc_put 0 c' 0 (ks_kc ?st1)\<rparr>))"
    "cells_ready st0 (?st1\<lparr>ks_kc := kvc_put 0 c' 0 (ks_kc ?st1)\<rparr>)" "kvc_get_size (kvc_put 0 c' 0 (ks_kc ?st1)) = kvc_get_size (ks_kc ?st1)"
    using stream_meta_run [OF assms(1) r1 n e(6), where bs = "state_write_data st0 0 cr @ ?zs"] n k(2) by auto
  let ?st2 = "?st1\<lparr>ks_kc := kvc_put 0 c' 0 (ks_kc ?st1)\<rparr>"
  have lay: "length (ks_layers ?st2) = length (ks_layers st)" "ks_v_trans ?st2 = ks_v_trans st" by (simp_all add: kvs_clear_def Let_def)
  have "length (ks_layers st0) < 2 ^ 32" using v(6) by (simp add: store_fits_def)
  then obtain ys where ys: "state_read_data 0 (length ?U) \<lparr>si_s0 = 0, si_s1 = 0, si_strm = [0], si_idxs = [[0..<length ?U]]\<rparr>
      (rd (state_write_data st0 0 cr @ ?zs) ?st2) = (Inr False, rd ys ?st2)"
    using state_read_data_mismatch [of st0 ?st2] assms(5) lay by metis
  have "length ?U < 2 ^ 32" using used_cells_props(2) [OF v(1) n] v(4) by simp
  then have "read_stream (-1) None 0 out (rd (?chunk 0 @ ?zs) ?st1) = (Inl IoThrow, rd ys (kvs_clear True ?st2))" for out
    using assms(4) c'(1) ys
    by (simp add: cr read_stream_def state_read_meta_def io_run io_bind_Inr io_ret_def io_catch_def read_failed_def io_stop_def Let_def)
  moreover have "concat (map ?chunk [0..<?n]) @ bs = ?chunk 0 @ ?zs" "[0..<?n] = 0 # [1..<?n]" using n by (simp_all add: upt_conv_Cons)
  ultimately have "state_read (-1) None (rd (u32_out ?n @ concat (map ?chunk [0..<?n]) @ bs) st) = (Inl IoThrow, rd ys (kvs_clear True ?st2))"
    using assms(3) v(3) k(2) by (simp add: state_read_def Let_def io_run) (simp add: io_bind_def)
  moreover note e2 = kvs_clear_effect [OF cells_readyD(1) [OF c'(2)], where b = True]
  ultimately show ?thesis
    using state_write_chunks [OF v(2), of "-1"] e2(1,7) cells_readyD(2) [OF c'(2)] c'(3) k(2) e(2) by simp
qed

theorem state_read_other_model_witness:
  "\<exists>bytes r. state_write (-1) demo_store = Some bytes \<and> state_read (-1) None (rd (bytes @ []) (demo_target\<lparr>ks_v_trans := False\<rparr>)) = (Inl IoThrow, r) \<and>
    kvc_view (ks_kc (in_st r)) 0 0 = None"
proof -
  let ?st = "demo_target\<lparr>ks_v_trans := False\<rparr>"
  have r: "cells_ready demo_store ?st" using demo_target_ready(1) by (simp add: stores_ready_def cells_ready_def)
  note k = cells_readyD [OF r] and v = store_savableD [OF demo_store_savable]
  have n: "0 < kc_n_stream (ks_kc demo_store)" by (rule kvc_wfD(1) [OF v(1)])
  have "kvc_view (ks_kc demo_store) 0 0 \<noteq> None" using demo_view(1)
    by (simp add: demo_store_def kvc_view_def demo_kc_def kvc_new_def demo_settings_def Let_def)
  moreover have sz: "kvc_get_size (ks_kc demo_store) = 4" using demo_kc_wf(5) by (simp add: demo_store_def)
  ultimately have "0 \<in> set (used_cells demo_store 0)" using used_cells_props(3) [OF v(1) n] by simp
  then have u: "used_cells demo_store 0 \<noteq> []" by auto
  have t: "ks_v_trans ?st \<noteq> ks_v_trans demo_store \<or> length (ks_layers ?st) \<noteq> length (ks_layers demo_store)" by (simp add: demo_store_def)
  have o: "\<not> kc_other (ks_kc ?st)" using demo_target_ready(2) by simp
  show ?thesis using state_read_other_model [OF demo_store_savable r o u t, of "[]"] n k(2,4) sz by fastforce
qed

text \<open>C40. A stream of bytes that ends inside the metadata of a cell: the exception leaves
  \<open>state_read\<close> without clearing the cells restored so far, and the last one is used by a position but
  belongs to no sequence.\<close>

theorem state_read_cut_short:
  assumes "kvc_wf (ks_kc st)" "\<not> kc_other (ks_kc st)" "\<not> has_cell_ext (ks_kc st)" "kc_n_stream (ks_kc st) < 2 ^ 32"
    and "0 < kvc_get_size (ks_kc st)" "0 \<le> p" "i32_ok p" "0 < n" "n < 2 ^ 32"
  shows "\<exists>st'. state_read (-1) None (rd (u32_out (kc_n_stream (ks_kc st)) @ u32_out 1 @ i32_out p @ u32_out n) st) = (Inl IoThrow, rd [] st') \<and>
    kvc_view (ks_kc st') 0 0 = Some \<lparr>cell_pos = p, cell_shift = 0, cell_ext = ext_default, cell_seq = {}\<rparr>"
proof -
  let ?st1 = "kvs_clear True st" and ?n = "kc_n_stream (ks_kc st)"
  note e = kvs_clear_effect [OF assms(1), where b = True]
  have n: "0 < ?n" by (rule kvc_wfD(1) [OF assms(1)])
  let ?c = "cells_reset (kc_cells (ks_kc st) ! 0)"
  have sz: "cells_size ?c = kvc_get_size (ks_kc st)" "cells_wf ?c"
    using kvc_wfD(7,8) [OF e(1), of 0] e(2,3) e(6) [OF n] n by simp_all
  have len: "0 < length (kv_pos ?c)" using sz(1) assms(5) by (simp add: cells_size_def)
  let ?st2 = "on_store 0 (cells_pos_set 0 p) ?st1"
  have loop: "[0..<n] = 0 # [1..<n]" using assms(8) by (simp add: upt_conv_Cons)
  have "\<And>out. read_stream (-1) None 0 out (rd (u32_out 1 @ i32_out p @ u32_out n) ?st1) = (Inl IoThrow, rd [] ?st2)"
  proof -
    have i: "io_bind io_i32 f (rd [] st) = (Inl IoThrow, rd [] st)" for f :: "int \<Rightarrow> (bool \<times> unit) reader" and st
      by (simp add: io_bind_def io_i32_def io_read_def)
    have u: "io_bind io_u32 f (rd (u32_out n) st') = f n (rd [] st')" for f :: "nat \<Rightarrow> (bool \<times> unit) reader" and st'
      using io_int_run(1) [OF assms(9), of f "[]"] by simp
    have c: "read_cell 0 0 () (rd (i32_out p @ u32_out n) ?st1) = (Inl IoThrow, rd [] ?st2)"
      using assms(3,7) e(5) loop
      by (simp add: read_cell_def io_run u on_cells_store read_seq_id_def) (simp add: io_bind_def [of "\<lambda>_. _"] i)
    show "read_stream (-1) None 0 out (rd (u32_out 1 @ i32_out p @ u32_out n) ?st1) = (Inl IoThrow, rd [] ?st2)" for out
      using c sz(1) assms(5) e(6) [OF n]
      by (simp add: read_stream_def state_read_meta_def read_meta_all_def mirror_ok_def io_run) (simp add: io_bind_def)
  qed
  moreover have "[0..<?n] = 0 # [1..<?n]" using n by (simp add: upt_conv_Cons)
  ultimately have "state_read (-1) None (rd (u32_out ?n @ u32_out 1 @ i32_out p @ u32_out n) st) = (Inl IoThrow, rd [] ?st2)"
    using assms(2,4) by (simp add: state_read_def Let_def io_run) (simp add: io_bind_def)
  moreover have "kvc_view (ks_kc ?st2) 0 0 = Some \<lparr>cell_pos = p, cell_shift = 0, cell_ext = ext_default, cell_seq = {}\<rparr>"
  proof -
    have "kc_cells (ks_kc ?st2) ! 0 = cells_pos_set 0 p ?c"
      using e(6) [OF n] kvc_wfD(2) [OF e(1)] e(3) n by (simp add: on_store_def)
    moreover have "cells_view (cells_pos_set 0 p ?c) 0 = Some \<lparr>cell_pos = p, cell_shift = kv_shift ?c ! 0, cell_ext = kv_ext ?c ! 0, cell_seq = {}\<rparr>"
      using cells_view_pos_set [OF sz(2) len _ , of p 0] assms(6) len by (simp add: cells_reset_def)
    moreover have "kv_shift ?c ! 0 = 0" "kv_ext ?c ! 0 = ext_default" using len cells_wfD(1,2) [OF sz(2)] by (simp_all add: cells_reset_def)
    ultimately show ?thesis by (simp add: kvc_view_def)
  qed
  ultimately show ?thesis by blast
qed

theorem state_read_cut_short_witness:
  "\<exists>st'. state_read (-1) None (rd (u32_out 1 @ u32_out 1 @ i32_out 9 @ u32_out 1) demo_store) = (Inl IoThrow, rd [] st') \<and>
    kvc_view (ks_kc st') 0 0 = Some \<lparr>cell_pos = 9, cell_shift = 0, cell_ext = ext_default, cell_seq = {}\<rparr>"
proof -
  have n: "kc_n_stream (ks_kc demo_store) = 1" "\<not> has_cell_ext (ks_kc demo_store)" "ks_kc demo_store = demo_kc"
    by (simp_all add: demo_store_def demo_kc_def kvc_new_def demo_settings_def Let_def has_cell_ext_def kvc_put_def)
  show ?thesis using state_read_cut_short [of demo_store 9 1] n demo_kc_wf by (simp add: i32_ok_def)
qed

text \<open>The offset of a row of a transposed value tensor is computed in 32 bits when it is
  written: from 4 GiB on, the row that is saved for a dimension is that of a dimension far below it.\<close>

theorem write_v_dim_wraps:
  assumes "d * kv_size * el = 2 ^ 32"
  shows "write_v_dim kv_size cr el v (j + d) = write_v_dim kv_size cr el v j"
proof -
  have "(a + (j + d) * kv_size) * el mod 2 ^ 32 = (a + j * kv_size) * el mod 2 ^ 32" for a
  proof -
    have "(a + (j + d) * kv_size) * el = (a + j * kv_size) * el + 2 ^ 32" unfolding assms [symmetric] by (simp add: algebra_simps)
    then show ?thesis by simp
  qed
  then show ?thesis by (simp only: write_v_dim_def)
qed

theorem write_v_dim_wraps_witness:
  "write_v_dim 262144 [(0, 1)] 2 [1, 2, 3, 4] 8192 = [1, 2]"
  using write_v_dim_wraps [of 8192 262144 2 "[(0, 1)]" "[1, 2, 3, 4]" 0] by (simp add: write_v_dim_def tensor_get_def)

end
