(* ===== verification/KvSeqState.thy ===== *)
theory KvSeqState
  imports KvState
begin

text \<open>
  Saving one sequence of a KV cache and restoring it as a sequence of another one: the parts of
  \<open>state_write\<close> and \<open>state_read\<close> of \<open>src/llama-kv-cache.cpp\<close> for a sequence id that is not -1. The
  definitions are those of \<open>KvState\<close>; here are what the single-sequence branch does with \<open>seq_rm\<close>,
  \<open>find_slot\<close> and \<open>apply_ubatch\<close>, and the round trip.
\<close>

subsection \<open>Settings are kept\<close>

definition kvc_config :: "kv_cache \<Rightarrow> kv_cache" where
  \<comment> \<open>everything but the cells and the heads\<close>
  "kvc_config kc = kc\<lparr>kc_cells := [], kc_heads := []\<rparr>"

lemma kvc_configD:
  assumes "kvc_config kc' = kvc_config kc"
  shows "has_cell_ext kc' = has_cell_ext kc" "kc_swa_type kc' = kc_swa_type kc" "kc_n_pos_per_embd kc' = kc_n_pos_per_embd kc"
  using assms by (cases kc; cases kc'; simp add: kvc_config_def has_cell_ext_def)+

lemma seq_rm_config: "kvc_seq_rm q p0 p1 kc = Some (kc', b) \<Longrightarrow> kvc_config kc' = kvc_config kc"
proof -
  have l: "kvc_config (loop_stream f g t kc) = kvc_config kc" for f g t kc
    by (simp add: loop_stream_def kvc_config_def Let_def split_beta)
  have "kvc_config (fold (\<lambda>s. loop_stream f g s) xs kc) = kvc_config kc" for f g xs kc
    by (induction xs arbitrary: kc) (simp_all add: l)
  then show "kvc_seq_rm q p0 p1 kc = Some (kc', b) \<Longrightarrow> kvc_config kc' = kvc_config kc"
    using l by (auto simp: kvc_seq_rm_def Let_def split: if_splits)
qed

lemma apply_ubatch_config:
  assumes "kvc_apply_ubatch si ub kc = Some kc'"
  shows "kvc_config kc' = kvc_config kc"
proof -
  have a: "kvc_config (fst (fold (place_stream si n ub) xs (kc, rm))) = kvc_config kc" for n xs kc rm
  proof (induction xs arbitrary: kc rm)
    case (Cons x xs)
    obtain kc1 rm1 where p: "place_stream si n ub x (kc, rm) = (kc1, rm1)" by fastforce
    then have "kvc_config kc1 = kvc_config kc" by (auto simp: place_stream_def kvc_config_def Let_def split: prod.splits)
    then show ?case using Cons p by simp
  qed simp
  have b: "fold (purge_seq rm) xs (Some kc) = Some kc2 \<Longrightarrow> kvc_config kc2 = kvc_config kc" for rm xs kc kc2
  proof (induction xs arbitrary: kc)
    case (Cons x xs)
    have none: "fold (purge_seq rm) ys None = None" for ys by (induction ys) (simp_all add: purge_seq_def)
    obtain kc1 where p: "purge_seq rm x (Some kc) = Some kc1"
      using Cons.prems none by (cases "purge_seq rm x (Some kc)") auto
    then have "kvc_config kc1 = kvc_config kc"
      using seq_rm_config by (auto simp: purge_seq_def Let_def split: if_splits)
    then show ?case using Cons p by simp
  qed simp
  have c: "kvc_config (fold (\<lambda>s kc. kc\<lparr>kc_heads := (kc_heads kc)[f s := g s]\<rparr>) xs kc) = kvc_config kc" for f g xs kc
    by (induction xs arbitrary: kc) (simp_all add: kvc_config_def)
  show ?thesis
  proof (cases "kc_other kc \<or> slot_n_stream si = 0")
    case False
    obtain n where n: "slot_size si = Some n" using assms False by (auto simp: kvc_apply_ubatch_def split: option.splits)
    obtain kc1 rm where p: "fold (place_stream si n ub) [0..<slot_n_stream si] (kc, replicate LLAMA_MAX_SEQ (-1)) = (kc1, rm)" by fastforce
    obtain kc2 where g: "fold (purge_seq rm) [0..<LLAMA_MAX_SEQ] (Some kc1) = Some kc2"
      "kc' = fold (\<lambda>s kc. kc\<lparr>kc_heads := (kc_heads kc)[si_strm si ! s := last (si_idxs si ! s) + 1]\<rparr>) [0..<slot_n_stream si] kc2"
      using assms False n p by (auto simp: kvc_apply_ubatch_def split: option.splits)
    have "kvc_config kc1 = kvc_config kc" using a [of n "[0..<slot_n_stream si]" kc "replicate LLAMA_MAX_SEQ (-1)"] p by simp
    moreover have "kvc_config kc' = kvc_config kc2" unfolding g(2) by (rule c)
    ultimately show ?thesis using b [OF g(1)] by simp
  next
    case True
    then have "kvc_apply_ubatch si ub kc = Some kc" by (cases "kc_other kc") (simp_all add: kvc_apply_ubatch_def)
    then show ?thesis using assms by simp
  qed
qed

lemma drop_seq_effect:
  assumes "kvc_wf kc" "\<not> kc_other kc" "d < length (kc_seq_to_stream kc)" "\<forall>p \<in> kvc_positions kc d. p < INT32_MAX"
  obtains kc' where "kvc_seq_rm (int d) (-1) (-1) kc = Some (kc', True)" "kvc_wf kc'" "kvc_frame kc kc'" "kvc_config kc' = kvc_config kc"
    "kvc_positions kc' d = {}" "\<And>u. u < length (kc_seq_to_stream kc) \<Longrightarrow> u \<noteq> d \<Longrightarrow> kvc_positions kc' u = kvc_positions kc u"
proof -
  obtain kc' where k: "kvc_seq_rm (int d) (-1) (-1) kc = Some (kc', True)" "kvc_wf kc'" "kvc_frame kc kc'"
    "\<And>t i. i < kvc_get_size kc \<Longrightarrow> kvc_view kc' t i =
       (if t = stream_of kc d then seq_rm_trans d (clip_p0 (-1)) (clip_p1 (-1)) (kvc_view kc t i) else kvc_view kc t i)"
    using kvc_seq_rm_one [OF assms(1-3), of "-1" "-1"] by blast
  have pos: "kvc_positions kc' u = (if u = d then {p \<in> kvc_positions kc d. \<not> (clip_p0 (-1) \<le> p \<and> p < clip_p1 (-1))}
      else kvc_positions kc u)" if u: "u < length (kc_seq_to_stream kc)" for u
    using k(4) by (auto simp: set_eq_iff positions_after [OF k(2,3) u] at_pos_if at_pos_trans positions_at [OF assms(1)] assms(3) u cong: conj_cong)
  have "kvc_positions kc' d = {}"
    using pos [OF assms(3)] assms(4) seq_pos_min_bound [OF assms(1,3)] by (auto simp: clip_p0_def clip_p1_def)
  then show thesis using that [OF k(1-3) seq_rm_config [OF k(1)]] pos by auto
qed


definition seq_room :: "kv_cache \<Rightarrow> nat \<Rightarrow> nat" where
  \<comment> \<open>the cells that \<open>find_slot\<close> can use in the stream of a sequence once the sequence is removed\<close>
  "seq_room kc d = (case kvc_seq_rm (int d) (-1) (-1) kc of None \<Rightarrow> 0
     | Some (kc, _) \<Rightarrow> card {i. i < kvc_get_size kc \<and> cell_can_use (kc_n_swa kc) (kc_swa_type kc) (kc_cells kc ! stream_of kc d) i})"

lemma seq_room_free:
  \<comment> \<open>without a window these are the empty cells and those that only the sequence is in\<close>
  assumes "kvc_wf kc" "\<not> kc_other kc" "d < length (kc_seq_to_stream kc)" "\<forall>p \<in> kvc_positions kc d. p < INT32_MAX"
    and "kc_swa_type kc = SWA_TYPE_NONE"
  shows "seq_room kc d = card {i. i < kvc_get_size kc \<and> (\<forall>k. kvc_view kc (stream_of kc d) i = Some k \<longrightarrow> cell_seq k = {d})}"
proof -
  let ?t = "stream_of kc d"
  obtain kc' where k: "kvc_seq_rm (int d) (-1) (-1) kc = Some (kc', True)" "kvc_wf kc'" "kvc_frame kc kc'"
    "\<And>t i. i < kvc_get_size kc \<Longrightarrow> kvc_view kc' t i =
       (if t = stream_of kc d then seq_rm_trans d (clip_p0 (-1)) (clip_p1 (-1)) (kvc_view kc t i) else kvc_view kc t i)"
    using kvc_seq_rm_one [OF assms(1-3), of "-1" "-1"] by blast
  note f = kvc_frameD [OF k(3)] and g = kvc_configD [OF seq_rm_config [OF k(1)]]
  have t: "?t < kc_n_stream kc" by (rule kvc_wfD(6) [OF assms(1,3)])
  have use: "cell_can_use (kc_n_swa kc') (kc_swa_type kc') (kc_cells kc' ! ?t) i \<longleftrightarrow> kvc_view kc' ?t i = None" for i
    using g(2) assms(5) by (auto simp: cell_can_use_def kvc_view_def cells_is_empty_view split: if_splits)
  have "kvc_view kc' ?t i = None \<longleftrightarrow> (\<forall>a. kvc_view kc ?t i = Some a \<longrightarrow> cell_seq a = {d})" if i: "i < kvc_get_size kc" for i
  proof (cases "kvc_view kc ?t i")
    case (Some a)
    have "cell_seq a = {d} \<Longrightarrow> 0 \<le> cell_pos a \<and> cell_pos a < INT32_MAX"
    proof -
      assume "cell_seq a = {d}"
      then have "cell_pos a \<in> kvc_positions kc d"
        using i Some by (auto simp: kvc_positions_view [OF assms(1,3)])
      then show ?thesis using assms(4) seq_pos_min_bound [OF assms(1,3)] by auto
    qed
    then show ?thesis
      using k(4) [OF i, of ?t] Some
      by (auto simp: seq_rm_trans_def cell_pos_in_def cell_has_seq_def cell_drop_seq_def clip_p0_def clip_p1_def split: if_splits)
  qed (use k(4) [OF i, of ?t] in \<open>simp add: seq_rm_trans_def\<close>)
  then have "{i. i < kvc_get_size kc' \<and> cell_can_use (kc_n_swa kc') (kc_swa_type kc') (kc_cells kc' ! ?t) i} =
      {i. i < kvc_get_size kc \<and> (\<forall>k. kvc_view kc ?t i = Some k \<longrightarrow> cell_seq k = {d})}"
    unfolding use f(4) by blast
  then show ?thesis using k(1) f(5) by (simp add: seq_room_def)
qed

text \<open>The cells of one sequence are written without the other sequences they belong to.\<close>

definition seq_cells :: "kv_store \<Rightarrow> nat \<Rightarrow> nat list" where
  \<comment> \<open>the cells that are saved for sequence \<open>q\<close>\<close>
  "seq_cells st q = filter (add_cell (ks_kc st) (stream_of (ks_kc st) q) (int q)) [0..<kvc_get_size (ks_kc st)]"

definition ub_reads :: "nat \<Rightarrow> int \<Rightarrow> nat \<Rightarrow> llama_ubatch \<Rightarrow> bool" where
  \<comment> \<open>the micro-batch a sequence is read into\<close>
  "ub_reads cnt dest n_pos ub \<longleftrightarrow> ub_n_tokens ub = cnt \<and> ub_n_seqs_unq ub = 1 \<and> ub_seq_id_unq ub = [dest] \<and>
     length (ub_pos ub) = cnt * n_pos \<and> length (ub_n_seq_id ub) = cnt \<and> length (ub_seq_id ub) = cnt"

lemma write_cell_seq:
  assumes "cells_seq_has (kc_cells (ks_kc st0) ! s) i q" "q < ks_n_seq_max st0"
  defines "c \<equiv> kc_cells (ks_kc st0) ! s"
  shows "write_cell st0 s (int q) i = i32_out (kv_pos c ! i) @ u32_out 1 @
     (if has_cell_ext (ks_kc st0) then i32_out (ext_x (kv_ext c ! i)) @ i32_out (ext_y (kv_ext c ! i)) @ i32_out (ext_tok (kv_ext c ! i)) else []) @
     i32_out (int q)"
proof -
  have "filter (\<lambda>cur. cur = q \<and> cells_seq_has c i cur) [0..<n] = (if q < n then [q] else [])" for n
    using assms(1) by (induction n) (auto simp: c_def less_Suc_eq)
  then show ?thesis using assms(2) by (simp add: write_cell_def Let_def c_def)
qed

lemma read_seq_cell_run:
  assumes has: "cells_seq_has (kc_cells (ks_kc st0) ! s) x q" "q < ks_n_seq_max st0" "ks_n_seq_max st0 < 2 ^ 31"
    and ok: "cell_ok st0 s x" and ext: "has_cell_ext (ks_kc st) = has_cell_ext (ks_kc st0)"
    and ub: "ub_reads cnt dest n_pos ub" "0 < n_pos" "i < cnt" "length exts = (if has_cell_ext (ks_kc st0) then cnt else 0)"
  defines "c \<equiv> kc_cells (ks_kc st0) ! s"
  shows "\<exists>ub' exts'. read_seq_cell dest n_pos i (ub, exts) (rd (write_cell st0 s (int q) x @ bs) st) = (Inr (True, ub', exts'), rd bs st) \<and>
    ub_reads cnt dest n_pos ub' \<and> length exts' = length exts \<and>
    (\<forall>j < cnt. ub_pos ub' ! j = (if j = i then kv_pos c ! x else ub_pos ub ! j) \<and>
       ub_n_seq_id ub' ! j = (if j = i then 1 else ub_n_seq_id ub ! j) \<and> ub_seq_id ub' ! j = (if j = i then [dest] else ub_seq_id ub ! j)) \<and>
    (\<forall>j < length exts. exts' ! j = (if j = i then kv_ext c ! x else exts ! j))"
proof -
  note o = cell_okD(1-4) [OF ok, folded c_def]
  note u = ub(1) [unfolded ub_reads_def]
  have len: "i < length (ub_pos ub)" "i < length (ub_n_seq_id ub)" "i < length (ub_seq_id ub)"
  proof -
    have "cnt \<le> cnt * n_pos" using ub(2) by (cases n_pos) simp_all
    then show "i < length (ub_pos ub)" using u ub(3) by linarith
  qed (use u ub(3) in simp_all)
  have q: "i32_ok (int q)" using has(2,3) by (simp add: i32_ok_def)
  note w = write_cell_seq [OF has(1,2), folded c_def]
  let ?set = "\<lambda>ub::llama_ubatch. ub\<lparr>ub_pos := (ub_pos ub)[i := kv_pos c ! x], ub_n_seq_id := (ub_n_seq_id ub)[i := 1], ub_seq_id := (ub_seq_id ub)[i := [dest]]\<rparr>"
  have tail: "ub_reads cnt dest n_pos (?set ux) \<and> (\<forall>j < cnt. ub_pos (?set ux) ! j = (if j = i then kv_pos c ! x else ub_pos ub ! j) \<and>
      ub_n_seq_id (?set ux) ! j = (if j = i then 1 else ub_n_seq_id ub ! j) \<and> ub_seq_id (?set ux) ! j = (if j = i then [dest] else ub_seq_id ub ! j))"
    if "ub_reads cnt dest n_pos ux" "\<forall>j < cnt. ub_pos ux ! j = ub_pos ub ! j" "ub_n_seq_id ux = ub_n_seq_id ub" "ub_seq_id ux = ub_seq_id ub"
      "length (ub_pos ux) = length (ub_pos ub)" for ux
    using that len by (simp add: ub_reads_def nth_list_update)
  show ?thesis
  proof (cases "has_cell_ext (ks_kc st0)")
    case True
    let ?e = "kv_ext c ! x"
    let ?ub = "if n_pos > 1 then ub\<lparr>ub_pos := (ub_pos ub)[i + ub_n_tokens ub := ext_y ?e, i + ub_n_tokens ub * 2 := ext_x ?e]\<rparr> else ub"
    define ux where "ux = ?ub\<lparr>ub_token := map_option (\<lambda>ts. ts[i := ext_tok ?e]) (ub_token ?ub)\<rparr>"
    have r: "read_seq_cell dest n_pos i (ub, exts) (rd (write_cell st0 s (int q) x @ bs) st) = (Inr (True, ?set ux, exts[i := ?e]), rd bs st)"
      unfolding w ux_def using True ext o q by (simp add: read_seq_cell_def io_run io_ret_def Let_def)
    have "ub_reads cnt dest n_pos ux" "ub_n_seq_id ux = ub_n_seq_id ub" "ub_seq_id ux = ub_seq_id ub" "length (ub_pos ux) = length (ub_pos ub)"
      using u by (simp_all add: ub_reads_def ux_def)
    moreover have "\<forall>j < cnt. ub_pos ux ! j = ub_pos ub ! j" using u by (simp add: ux_def)
    moreover have "length (exts[i := ?e]) = length exts \<and> (\<forall>j < length exts. exts[i := ?e] ! j = (if j = i then ?e else exts ! j))"
      by (simp add: nth_list_update)
    ultimately show ?thesis using r tail [of ux] by blast
  next
    case False
    have r: "read_seq_cell dest n_pos i (ub, exts) (rd (write_cell st0 s (int q) x @ bs) st) = (Inr (True, ?set ub, exts), rd bs st)"
      unfolding w using False ext o q by (simp add: read_seq_cell_def io_run io_ret_def Let_def)
    moreover have "length exts = 0" using ub(4) False by simp
    ultimately show ?thesis using tail [of ub] ub(1) by fastforce
  qed
qed

lemma read_seq_cells_run:
  assumes S: "\<forall>x \<in> set S. cells_seq_has (kc_cells (ks_kc st0) ! s) x q \<and> cell_ok st0 s x" and q: "q < ks_n_seq_max st0" "ks_n_seq_max st0 < 2 ^ 31"
    and ext: "has_cell_ext (ks_kc st) = has_cell_ext (ks_kc st0)" and n_pos: "0 < n_pos"
    and ub: "ub_reads (length S) dest n_pos ub" "length exts = (if has_cell_ext (ks_kc st0) then length S else 0)"
  defines "c \<equiv> kc_cells (ks_kc st0) ! s"
  shows "\<exists>ub' exts'. io_loop (read_seq_cell dest n_pos) [0..<length S] (ub, exts) (rd (concat (map (write_cell st0 s (int q)) S) @ bs) st) =
      (Inr (True, ub', exts'), rd bs st) \<and>
    ub_reads (length S) dest n_pos ub' \<and> length exts' = length exts \<and>
    (\<forall>j < length S. ub_pos ub' ! j = kv_pos c ! (S ! j) \<and> ub_n_seq_id ub' ! j = 1 \<and> ub_seq_id ub' ! j = [dest]) \<and>
    (\<forall>j < length exts. exts' ! j = kv_ext c ! (S ! j))"
proof -
  let ?P = "\<lambda>k st' (ub', exts'). st' = st \<and> ub_reads (length S) dest n_pos ub' \<and> length exts' = length exts \<and>
    (\<forall>j < k. ub_pos ub' ! j = kv_pos c ! (S ! j) \<and> ub_n_seq_id ub' ! j = 1 \<and> ub_seq_id ub' ! j = [dest]) \<and>
    (\<forall>j < length exts. j < k \<longrightarrow> exts' ! j = kv_ext c ! (S ! j))"
  have "\<exists>st' r. io_loop (read_seq_cell dest n_pos) [0..<length S] (ub, exts) (rd (concat (map (\<lambda>j. write_cell st0 s (int q) (S ! j)) [0..<length S]) @ bs) st) =
      (Inr (True, r), rd bs st') \<and> ?P (length S) st' r"
  proof (rule io_loop_chunks [where P = ?P])
    show "?P 0 st (ub, exts)" using ub(1) by simp
  next
    fix i st' r bs assume i: "i < length S" and P: "?P i st' r"
    obtain ub1 exts1 where r: "r = (ub1, exts1)" by (cases r)
    have x: "cells_seq_has (kc_cells (ks_kc st0) ! s) (S ! i) q" "cell_ok st0 s (S ! i)" using S nth_mem [OF i] by blast+
    have P1: "st' = st" "ub_reads (length S) dest n_pos ub1" "length exts1 = length exts"
      "\<forall>j < i. ub_pos ub1 ! j = kv_pos c ! (S ! j) \<and> ub_n_seq_id ub1 ! j = 1 \<and> ub_seq_id ub1 ! j = [dest]"
      "\<forall>j < length exts. j < i \<longrightarrow> exts1 ! j = kv_ext c ! (S ! j)"
      using P r by simp_all
    obtain ub2 exts2 where s: "read_seq_cell dest n_pos i (ub1, exts1) (rd (write_cell st0 s (int q) (S ! i) @ bs) st) = (Inr (True, ub2, exts2), rd bs st)"
      "ub_reads (length S) dest n_pos ub2" "length exts2 = length exts1"
      "\<forall>j < length S. ub_pos ub2 ! j = (if j = i then kv_pos c ! (S ! i) else ub_pos ub1 ! j) \<and>
         ub_n_seq_id ub2 ! j = (if j = i then 1 else ub_n_seq_id ub1 ! j) \<and> ub_seq_id ub2 ! j = (if j = i then [dest] else ub_seq_id ub1 ! j)"
      "\<forall>j < length exts1. exts2 ! j = (if j = i then kv_ext c ! (S ! i) else exts1 ! j)"
      using read_seq_cell_run [OF x(1) q x(2) ext P1(2) n_pos i, of exts1 bs] P1(3) ub(2) unfolding c_def by auto
    have "?P (Suc i) st (ub2, exts2)" using s(2-5) P1(3-5) i by (auto simp: less_Suc_eq)
    then show "\<exists>st'' r'. read_seq_cell dest n_pos i r (rd (write_cell st0 s (int q) (S ! i) @ bs) st') = (Inr (True, r'), rd bs st'') \<and> ?P (Suc i) st'' r'"
      using s(1) r P1(1) by blast
  qed
  moreover have "map (\<lambda>j. write_cell st0 s (int q) (S ! j)) [0..<length S] = map (write_cell st0 s (int q)) S"
    by (rule nth_equalityI) auto
  ultimately show ?thesis using ub(2) by auto
qed


definition strip_ext :: "abs_cell option \<Rightarrow> abs_cell option" where
  "strip_ext v = map_option (\<lambda>k. k\<lparr>cell_ext := ext_default\<rparr>) v"

lemma at_pos_strip: "strip_ext v = strip_ext w \<Longrightarrow> at_pos u p v \<longleftrightarrow> at_pos u p w"
  by (cases v; cases w) (auto simp: strip_ext_def at_pos_def dest!: arg_cong [where f = "\<lambda>k. (cell_seq k, cell_pos k)"])

lemma ext_sets_effect:
  assumes "cells_wf c" "distinct is" "\<forall>i \<in> set is. i < length (kv_pos c)" "length es \<le> length is"
  defines "c' \<equiv> (fold (\<lambda>i. cells_ext_set (is ! i) (es ! i)) [0..<length es] c)"
  shows "cells_wf c'" "kv_pos c' = kv_pos c" "strip_ext (cells_view c' j) = strip_ext (cells_view c j)"
    "k < length es \<Longrightarrow> cells_view c' (is ! k) = map_option (\<lambda>a. a\<lparr>cell_ext := es ! k\<rparr>) (cells_view c (is ! k))"
proof -
  let ?P = "\<lambda>n c'. cells_wf c' \<and> kv_pos c' = kv_pos c \<and> (\<forall>j. strip_ext (cells_view c' j) = strip_ext (cells_view c j)) \<and>
    (\<forall>k < n. cells_view c' (is ! k) = map_option (\<lambda>a. a\<lparr>cell_ext := es ! k\<rparr>) (cells_view c (is ! k))) \<and>
    (\<forall>j. (\<forall>k < n. j \<noteq> is ! k) \<longrightarrow> cells_view c' j = cells_view c j)"
  have "?P (length es) c'" unfolding c'_def
  proof (rule fold_upt_invariant [where P = ?P])
    show "?P 0 c" using assms(1) by simp
  next
    fix n e assume n: "n < length es" and P: "?P n e"
    have ni: "n < length is" "is ! n < length (kv_pos e)" using n assms(3,4) P by (auto simp: nth_mem)
    note v = cells_view_ext_set [OF conjunct1 [OF P] ni(2), of "es ! n"]
    have d: "is ! n \<noteq> is ! k" "is ! k \<noteq> is ! n" if "k < n" for k using assms(2) ni(1) that by (simp_all add: nth_eq_iff_index_eq)
    have vn: "cells_view e (is ! n) = cells_view c (is ! n)" using P d by blast
    show "?P (Suc n) (cells_ext_set (is ! n) (es ! n) e)"
      using P d vn by (auto simp: v cells_wf_ext_set less_Suc_eq strip_ext_def option.map_comp comp_def) (simp_all add: cells_ext_set_def)
  qed
  then show "cells_wf c'" "kv_pos c' = kv_pos c" "strip_ext (cells_view c' j) = strip_ext (cells_view c j)"
    "k < length es \<Longrightarrow> cells_view c' (is ! k) = map_option (\<lambda>a. a\<lparr>cell_ext := es ! k\<rparr>) (cells_view c (is ! k))" by blast+
qed

lemma on_store_put: "on_store t f st = st\<lparr>ks_kc := kvc_put t (f (kc_cells (ks_kc st) ! t)) (kc_heads (ks_kc st) ! t) (ks_kc st)\<rparr>"
  by (simp add: on_store_def kvc_put_def)

definition seq_loaded :: "kv_store \<Rightarrow> nat \<Rightarrow> nat list \<Rightarrow> nat \<Rightarrow> kv_cache \<Rightarrow> nat list \<Rightarrow> kv_cache \<Rightarrow> bool" where
  \<comment> \<open>the cells \<open>I\<close> hold the saved cells \<open>S\<close> of stream \<open>s\<close> as those of sequence \<open>d\<close>\<close>
  "seq_loaded st0 s S d kc I kc' \<longleftrightarrow> kvc_wf kc' \<and> kvc_frame kc kc' \<and> kvc_config kc' = kvc_config kc \<and>
     length I = length S \<and> distinct I \<and> (\<forall>i \<in> set I. i < kvc_get_size kc) \<and>
     (\<forall>k < length S. \<exists>a. kvc_view kc' (stream_of kc d) (I ! k) = Some a \<and> cell_pos a = kv_pos (kc_cells (ks_kc st0) ! s) ! (S ! k) \<and> cell_seq a = {d} \<and>
        (has_cell_ext kc \<longrightarrow> cell_ext a = kv_ext (kc_cells (ks_kc st0) ! s) ! (S ! k))) \<and>
     kvc_positions kc' d = (\<lambda>x. kv_pos (kc_cells (ks_kc st0) ! s) ! x) ` set S \<and>
     (kc_swa_type kc = SWA_TYPE_NONE \<longrightarrow> (\<forall>u < length (kc_seq_to_stream kc). u \<noteq> d \<longrightarrow> kvc_positions kc' u = kvc_positions kc u))"

lemma read_ub_ok:
  assumes "kvc_wf kc" "d < length (kc_seq_to_stream kc)" "ub_reads n (int d) n_pos ub" "0 < n"
    and "\<forall>j < n. 0 \<le> ub_pos ub ! j \<and> ub_n_seq_id ub ! j = 1 \<and> ub_seq_id ub ! j = [int d]"
  shows "ub_ok kc ub" "ub_n_slots kc ub = 1" "ub_per_slot kc ub = n" "ub_stream kc ub 0 = stream_of kc d"
    "j < n \<Longrightarrow> ub_seqs ub j = {d}"
  using assms by (auto simp: ub_ok_def ub_reads_def seq_ok_def ub_n_slots_def ub_per_slot_def ub_stream_def ub_seqs_def)

lemma load_seq_effect:
  assumes wf: "kvc_wf kc" "\<not> kc_other kc" and d: "d < length (kc_seq_to_stream kc)" "kvc_positions kc d = {}"
    and ub: "ub_reads n (int d) n_pos ub" "0 < n"
      "\<forall>j < n. 0 \<le> ub_pos ub ! j \<and> ub_n_seq_id ub ! j = 1 \<and> ub_seq_id ub ! j = [int d]"
    and si: "slot_ok kc ub si" and es: "length exts \<le> n"
  obtains kc1 c' kc' where "kvc_apply_ubatch si ub kc = Some kc1" "kvc_wf kc'" "kvc_frame kc kc'" "kvc_config kc' = kvc_config kc"
    "kc' = kvc_put (stream_of kc d) c' (kc_heads kc1 ! stream_of kc d) kc1"
    "c' = fold (\<lambda>i. cells_ext_set (si_idxs si ! 0 ! i) (exts ! i)) [0..<length exts] (kc_cells kc1 ! stream_of kc d)"
    "\<And>k. k < n \<Longrightarrow> \<exists>a. kvc_view kc' (stream_of kc d) (si_idxs si ! 0 ! k) = Some a \<and> cell_pos a = ub_pos ub ! k \<and> cell_seq a = {d} \<and>
       (k < length exts \<longrightarrow> cell_ext a = exts ! k)"
    "kvc_positions kc' d = (!) (ub_pos ub) ` {..<n}"
    "\<And>u. kc_swa_type kc = SWA_TYPE_NONE \<Longrightarrow> u < length (kc_seq_to_stream kc) \<Longrightarrow> u \<noteq> d \<Longrightarrow> kvc_positions kc' u = kvc_positions kc u"
proof -
  note ok = read_ub_ok [OF wf(1) d(1) ub]
  let ?t = "stream_of kc d" and ?I = "si_idxs si ! 0"
  have app: "ub_appends kc ub"
    using ok(5) d(2) ub(1) unfolding ub_appends_def ub_reads_def by auto
  obtain kc1 where kc1: "kvc_apply_ubatch si ub kc = Some kc1" "kvc_wf kc1" "kvc_frame kc kc1"
    "\<And>s ii. s < ub_n_slots kc ub \<Longrightarrow> ii < ub_per_slot kc ub \<Longrightarrow>
       placed kc ub (s * ub_per_slot kc ub + ii) (kvc_view kc1 (ub_stream kc ub s) (si_idxs si ! s ! ii))"
    "\<And>q. q < length (kc_seq_to_stream kc) \<Longrightarrow> kvc_positions kc1 q =
       ub_new ub q \<union> {p \<in> kvc_positions kc q. \<forall>o' \<in> overwritten kc si (ub_n_slots kc ub) q. o' < p}"
    by (rule apply_ubatch_effect [OF wf ok(1) si app]) iprover
  note f1 = kvc_frameD [OF kc1(3)]
  have t: "?t < kc_n_stream kc" by (rule kvc_wfD(6) [OF wf(1) d(1)])
  then have t1: "?t < kc_n_stream kc1" using f1(1) by simp
  have I: "length ?I = n" "distinct ?I" "\<forall>i \<in> set ?I. i < kvc_get_size kc"
    using slot_okD [OF si, of 0] ok(2,3) by auto
  define c where "c = kc_cells kc1 ! ?t"
  have c: "cells_wf c" "length (kv_pos c) = kvc_get_size kc"
    using kvc_wfD(7,8) [OF kc1(2) t1] f1(4) by (simp_all add: c_def cells_size_def)
  define c' where "c' = fold (\<lambda>i. cells_ext_set (?I ! i) (exts ! i)) [0..<length exts] c"
  have c': "cells_wf c'" "kv_pos c' = kv_pos c" "\<And>j. strip_ext (cells_view c' j) = strip_ext (cells_view c j)"
    "\<And>k. k < length exts \<Longrightarrow> cells_view c' (?I ! k) = map_option (\<lambda>a. a\<lparr>cell_ext := exts ! k\<rparr>) (cells_view c (?I ! k))"
    using ext_sets_effect [OF c(1) I(2), where es = exts] I(1,3) c(2) es unfolding c'_def by auto
  define kc' where "kc' = kvc_put ?t c' (kc_heads kc1 ! ?t) kc1"
  have sz: "cells_size c' = kvc_get_size kc1" using c'(2) c(2) f1(4) by (simp add: cells_size_def)
  have at: "at_pos u p (kvc_view kc' s j) \<longleftrightarrow> at_pos u p (kvc_view kc1 s j)" for u p s j
    unfolding kc'_def kvc_put_view [OF kc1(2) t1] using at_pos_strip [OF c'(3)] by (simp add: c_def kvc_view_def)
  have wf': "kvc_wf kc'" unfolding kc'_def
  proof (rule kvc_wf_put [OF kc1(2) t1 c'(1) sz])
    show "kc_heads kc1 ! ?t \<le> kvc_get_size kc1" by (rule kvc_wfD(9) [OF kc1(2) t1])
    fix i s assume i: "i < kvc_get_size kc1" "cell_has_seq s (cells_view c' i)"
    have "cell_has_seq s v \<longleftrightarrow> (\<exists>p. at_pos s p v)" for v by (cases v) (auto simp: cell_has_seq_def at_pos_def)
    then have "cell_has_seq s (kvc_view kc1 ?t i)"
      using i(2) at_pos_strip [OF c'(3)] by (simp add: c_def kvc_view_def)
    then show "s < length (kc_seq_to_stream kc1) \<and> stream_of kc1 s = ?t" using kvc_wfD(10) [OF kc1(2) t1 i(1)] by blast
  qed
  have fr: "kvc_frame kc kc'" unfolding kc'_def by (rule kvc_frame_trans [OF kc1(3) kvc_frame_put [OF kc1(2) t1 sz]])
  have cf: "kvc_config kc' = kvc_config kc" using apply_ubatch_config [OF kc1(1)] by (simp add: kc'_def kvc_config_def kvc_put_def)
  have pos: "kvc_positions kc' u = kvc_positions kc1 u" if "u < length (kc_seq_to_stream kc)" for u
    using positions_after [OF wf' fr that] positions_after [OF kc1(2,3) that] at by blast
  show thesis
  proof (rule that [of kc1 kc' c'])
    show "\<exists>a. kvc_view kc' ?t (?I ! k) = Some a \<and> cell_pos a = ub_pos ub ! k \<and> cell_seq a = {d} \<and> (k < length exts \<longrightarrow> cell_ext a = exts ! k)"
      if k: "k < n" for k
    proof -
      have "placed kc ub k (kvc_view kc1 ?t (?I ! k))" using kc1(4) [of 0 k] ok(2-4) k by simp
      then obtain a where a: "cells_view c (?I ! k) = Some a" "cell_pos a = ub_pos ub ! k" "cell_seq a = {d}"
        using ok(5) [OF k] unfolding placed_def by (auto simp: c_def kvc_view_def)
      have v: "kvc_view kc' ?t (?I ! k) = cells_view c' (?I ! k)" unfolding kc'_def kvc_put_view [OF kc1(2) t1] by simp
      show ?thesis
      proof (cases "k < length exts")
        case True
        then show ?thesis using a c'(4) unfolding v by simp
      next
        case False
        obtain a' where "cells_view c' (?I ! k) = Some a'" "a'\<lparr>cell_ext := ext_default\<rparr> = a\<lparr>cell_ext := ext_default\<rparr>"
          using c'(3) [of "?I ! k"] a(1) by (cases "cells_view c' (?I ! k)") (auto simp: strip_ext_def)
        then show ?thesis using False a(2,3) unfolding v by (cases a; cases a') auto
      qed
    qed
    have "ub_new ub d = (!) (ub_pos ub) ` {..<n}" using ok(5) ub(1) by (auto simp: ub_new_def ub_reads_def)
    then show "kvc_positions kc' d = (!) (ub_pos ub) ` {..<n}" using pos [OF d(1)] kc1(5) [OF d(1)] d(2) by simp
    show "kvc_positions kc' u = kvc_positions kc u"
      if u: "kc_swa_type kc = SWA_TYPE_NONE" "u < length (kc_seq_to_stream kc)" "u \<noteq> d" for u
    proof -
      have "overwritten kc si (ub_n_slots kc ub) u = {}"
        using overwritten_in_positions(3) [OF wf(1) ok(1) si] u(1) by auto
      moreover have "ub_new ub u = {}" using ok(5) ub(1) u(3) by (auto simp: ub_new_def ub_reads_def)
      ultimately show ?thesis using pos [OF u(2)] kc1(5) [OF u(2)] by simp
    qed
  qed (use kc1(1) wf' fr cf in \<open>simp_all add: kc'_def c'_def c_def\<close>)
qed


lemma lift_kc_run [io_run]:
  "f (ks_kc st) = Some kc \<Longrightarrow> io_bind (lift_kc f) u (rd bs st) = u () (rd bs (st\<lparr>ks_kc := kc\<rparr>))"
  by (simp add: lift_kc_def io_run)

lemma read_meta_seq_run:
  assumes wf: "kvc_wf (ks_kc st)" "\<not> kc_other (ks_kc st)" and d: "d < length (kc_seq_to_stream (ks_kc st))" "\<forall>p \<in> kvc_positions (ks_kc st) d. p < INT32_MAX"
    and n_pos: "0 < kc_n_pos_per_embd (ks_kc st)"
    and S: "\<forall>x \<in> set S. cells_seq_has (kc_cells (ks_kc st0) ! s) x q \<and> cell_ok st0 s x \<and> 0 \<le> kv_pos (kc_cells (ks_kc st0) ! s) ! x" "S \<noteq> []"
    and q: "q < ks_n_seq_max st0" "ks_n_seq_max st0 < 2 ^ 31"
    and ext: "has_cell_ext (ks_kc st) = has_cell_ext (ks_kc st0)"
  defines "t \<equiv> stream_of (ks_kc st) d" and "bytes \<equiv> concat (map (write_cell st0 s (int q)) S)"
  shows "if length S \<le> seq_room (ks_kc st) d
    then \<exists>si kc'. read_meta_seq t (length S) (int d) None (rd (bytes @ bs) st) = (Inr (Some si), rd bs (st\<lparr>ks_kc := kc'\<rparr>)) \<and>
      seq_loaded st0 s S d (ks_kc st) (si_idxs si ! 0) kc'
    else \<exists>kc'. read_meta_seq t (length S) (int d) None (rd (bytes @ bs) st) = (Inr None, rd bs (st\<lparr>ks_kc := kc'\<rparr>)) \<and>
      kvc_wf kc' \<and> kvc_frame (ks_kc st) kc' \<and> kvc_config kc' = kvc_config (ks_kc st) \<and> kvc_positions kc' d = {} \<and>
      (\<forall>u < length (kc_seq_to_stream (ks_kc st)). u \<noteq> d \<longrightarrow> kvc_positions kc' u = kvc_positions (ks_kc st) u)"
proof -
  let ?n = "length S" and ?np = "kc_n_pos_per_embd (ks_kc st)" and ?c = "kc_cells (ks_kc st0) ! s"
  obtain kc1 where kc1: "kvc_seq_rm (int d) (-1) (-1) (ks_kc st) = Some (kc1, True)" "kvc_wf kc1" "kvc_frame (ks_kc st) kc1"
    "kvc_config kc1 = kvc_config (ks_kc st)" "kvc_positions kc1 d = {}"
    "\<And>u. u < length (kc_seq_to_stream (ks_kc st)) \<Longrightarrow> u \<noteq> d \<Longrightarrow> kvc_positions kc1 u = kvc_positions (ks_kc st) u"
    by (rule drop_seq_effect [OF wf d]) iprover
  note f1 = kvc_frameD [OF kc1(3)] and g1 = kvc_configD [OF kc1(4)]
  define st1 where "st1 = st\<lparr>ks_kc := kc1\<rparr>"
  have k1: "ks_kc st1 = kc1" by (simp add: st1_def)
  define ub0 where "ub0 = (snd (ubatch_reserve ?n 1 (allocr_new ?np)))\<lparr>ub_seq_id_unq := (ub_seq_id_unq (snd (ubatch_reserve ?n 1 (allocr_new ?np))))[0 := int d]\<rparr>"
  define ex0 where "ex0 = (if has_cell_ext (ks_kc st) then replicate ?n ext_default else [])"
  have "ub_reads ?n (int d) ?np ub0"
    by (simp add: ub0_def ub_reads_def ubatch_reserve_def Let_def allocr_new_def allocr_clear_def split_reset_def)
  moreover have "length ex0 = (if has_cell_ext (ks_kc st0) then ?n else 0)" by (simp add: ex0_def ext)
  moreover have "has_cell_ext (ks_kc st1) = has_cell_ext (ks_kc st0)" using g1(1) ext by (simp add: st1_def)
  moreover have "\<forall>x \<in> set S. cells_seq_has ?c x q \<and> cell_ok st0 s x" using S(1) by blast
  ultimately obtain ub exts where L: "io_loop (read_seq_cell (int d) ?np) [0..<?n] (ub0, ex0) (rd (bytes @ bs) st1) = (Inr (True, ub, exts), rd bs st1)"
    "ub_reads ?n (int d) ?np ub" "length exts = length ex0"
    "\<forall>j < ?n. ub_pos ub ! j = kv_pos ?c ! (S ! j) \<and> ub_n_seq_id ub ! j = 1 \<and> ub_seq_id ub ! j = [int d]"
    "\<forall>j < length ex0. exts ! j = kv_ext ?c ! (S ! j)"
    using read_seq_cells_run [of S st0 s q st1 ?np "int d" ub0 ex0 bs] q n_pos unfolding bytes_def by blast
  have d1: "d < length (kc_seq_to_stream kc1)" using d(1) f1(2) by simp
  have o1: "\<not> kc_other kc1" using wf(2) f1(3) by simp
  have ub: "\<forall>j < ?n. 0 \<le> ub_pos ub ! j \<and> ub_n_seq_id ub ! j = 1 \<and> ub_seq_id ub ! j = [int d]" using L(4) S(1) by simp
  have n: "0 < ?n" using S(2) by simp
  note ok = read_ub_ok [OF kc1(2) d1 L(2) n ub]
  have start: "read_meta_seq t ?n (int d) None (rd (bytes @ bs) st) =
      io_bind (seq_slot t ?n ub None) (\<lambda>slot. case slot of None \<Rightarrow> io_ret None
       | Some si \<Rightarrow>
           io_bind (lift_kc (kvc_apply_ubatch si ub)) (\<lambda>_.
           io_bind (on_cells t (\<lambda>c. fold (\<lambda>i. cells_ext_set (si_idxs si ! 0 ! i) (exts ! i)) [0..<length exts] c)) (\<lambda>_.
           io_bind io_get (\<lambda>st. 
           if slot_n_stream si = 1 \<and> length (si_idxs si ! 0) = ?n \<and>
              (\<forall>i < ?n. kv_pos (kc_cells (ks_kc st) ! t) ! (si_idxs si ! 0 ! i) = ub_pos ub ! i \<and>
                 cells_seq_has (kc_cells (ks_kc st) ! t) (si_idxs si ! 0 ! i) d)
           then io_ret (Some si) else io_stop IoAbort)))) (rd bs st1)"
    using kc1(1) L(1) g1(1,3) unfolding read_meta_seq_def
    by (simp add: io_run io_bind_Inr st1_def [symmetric] k1 ub0_def [symmetric] ex0_def [symmetric] Let_def del: One_nat_def)
  show ?thesis
  proof (rule find_slot_cases [OF kc1(2) ok(1)])
    assume "kvc_find_slot kc1 ub False = Some slot_empty"
    then have none: "read_meta_seq t ?n (int d) None (rd (bytes @ bs) st) = (Inr None, rd bs (st\<lparr>ks_kc := kc1\<rparr>))"
      "kvc_find_slot kc1 ub False = Some slot_empty"
      unfolding start by (simp_all add: seq_slot_def io_run st1_def slot_is_empty_def slot_empty_def io_ret_def)
    have "\<not> ?n \<le> seq_room (ks_kc st) d"
      using no_slot_no_room [OF kc1(2) ok(1) none(2)] kc1(1) ok(2-4) by (auto simp: seq_room_def)
    then show ?thesis using none(1) kc1(2-6) by auto
  next
    fix si assume si: "kvc_find_slot kc1 ub False = Some si" "slot_ok kc1 ub si" "\<not> slot_is_empty si"
    have le: "length exts \<le> ?n" using L(3) by (simp add: ex0_def)
    obtain kc2 c' kc' where e: "kvc_apply_ubatch si ub kc1 = Some kc2" "kvc_wf kc'" "kvc_frame kc1 kc'" "kvc_config kc' = kvc_config kc1"
      "kc' = kvc_put (stream_of kc1 d) c' (kc_heads kc2 ! stream_of kc1 d) kc2"
      "c' = fold (\<lambda>i. cells_ext_set (si_idxs si ! 0 ! i) (exts ! i)) [0..<length exts] (kc_cells kc2 ! stream_of kc1 d)"
      "\<And>k. k < ?n \<Longrightarrow> \<exists>a. kvc_view kc' (stream_of kc1 d) (si_idxs si ! 0 ! k) = Some a \<and> cell_pos a = ub_pos ub ! k \<and> cell_seq a = {d} \<and>
         (k < length exts \<longrightarrow> cell_ext a = exts ! k)"
      "kvc_positions kc' d = (!) (ub_pos ub) ` {..<?n}"
      "\<And>u. kc_swa_type kc1 = SWA_TYPE_NONE \<Longrightarrow> u < length (kc_seq_to_stream kc1) \<Longrightarrow> u \<noteq> d \<Longrightarrow> kvc_positions kc' u = kvc_positions kc1 u"
      by (rule load_seq_effect [OF kc1(2) o1 d1 kc1(5) L(2) n ub si(2) le]) (rule that)
    have t1: "stream_of kc1 d = t" using f1(5) by (simp add: t_def)
    have I: "length (si_idxs si ! 0) = ?n" "distinct (si_idxs si ! 0)" "\<forall>i \<in> set (si_idxs si ! 0). i < kvc_get_size (ks_kc st)" "slot_n_stream si = 1"
      using slot_okD [OF si(2), of 0] ok(2,3) si(2) f1(4) by (auto simp: slot_ok_def slot_n_stream_def)
    have chk: "kv_pos (kc_cells kc' ! t) ! (si_idxs si ! 0 ! i) = ub_pos ub ! i \<and> cells_seq_has (kc_cells kc' ! t) (si_idxs si ! 0 ! i) d" if "i < ?n" for i
      using e(7) [OF that] by (auto simp: t1 kvc_view_def cells_view_def cells_seq_has_def split: if_splits)
    have put: "on_store t (\<lambda>c. fold (\<lambda>i. cells_ext_set (si_idxs si ! 0 ! i) (exts ! i)) [0..<length exts] c) (st\<lparr>ks_kc := kc2\<rparr>) = st\<lparr>ks_kc := kc'\<rparr>"
      using e(5,6) by (simp add: on_store_put t1)
    have slot: "io_bind (seq_slot t ?n ub None) f (rd bs st1) = f (Some si) (rd bs st1)" for f :: "slot_info option \<Rightarrow> slot_info option reader"
      using si(1,3) by (simp add: seq_slot_def io_run st1_def)
    have "read_meta_seq t ?n (int d) None (rd (bytes @ bs) st) = (Inr (Some si), rd bs (st\<lparr>ks_kc := kc'\<rparr>))"
      unfolding start slot using e(1) I(1,4) chk
      by (simp add: io_run on_cells_store st1_def put io_ret_def)
    moreover have "seq_loaded st0 s S d (ks_kc st) (si_idxs si ! 0) kc'"
    proof -
      have "\<exists>a. kvc_view kc' (stream_of (ks_kc st) d) (si_idxs si ! 0 ! k) = Some a \<and> cell_pos a = kv_pos ?c ! (S ! k) \<and> cell_seq a = {d} \<and>
          (has_cell_ext (ks_kc st) \<longrightarrow> cell_ext a = kv_ext ?c ! (S ! k))" if k: "k < ?n" for k
        using e(7) [OF k] L(3,4,5) k by (auto simp: f1(5) ex0_def)
      moreover have "(!) (ub_pos ub) ` {..<?n} = (\<lambda>x. kv_pos ?c ! x) ` set S"
        using L(4) by (auto simp: set_conv_nth image_iff Bex_def)
      ultimately show ?thesis
        using e(2,8,9) kvc_frame_trans [OF kc1(3) e(3)] e(4) kc1(4,6) I g1(2) f1(2) unfolding seq_loaded_def by simp
    qed
    moreover have "?n \<le> seq_room (ks_kc st) d"
    proof -
      have "set (si_idxs si ! 0) \<subseteq> {i. i < kvc_get_size kc1 \<and>
          cell_can_use (kc_n_swa kc1) (kc_swa_type kc1) (kc_cells kc1 ! stream_of kc1 d) i}"
        using slot_okD(4) [OF si(2), of 0] ok(2-4) by auto
      then have "card (set (si_idxs si ! 0)) \<le> seq_room (ks_kc st) d"
        using kc1(1) by (auto simp: seq_room_def intro!: card_mono)
      then show ?thesis using distinct_card [OF I(2)] I(1) by simp
    qed
    ultimately show ?thesis by auto
  qed
qed


lemma seq_cells_props:
  assumes "kvc_wf (ks_kc st)" "q < length (kc_seq_to_stream (ks_kc st))" "x \<in> set (seq_cells st q)"
  defines "c \<equiv> kc_cells (ks_kc st) ! stream_of (ks_kc st) q"
  shows "x < kvc_get_size (ks_kc st)" "cells_seq_has c x q" "0 \<le> kv_pos c ! x" "kvc_view (ks_kc st) (stream_of (ks_kc st) q) x \<noteq> None"
proof -
  note t = kvc_wfD(6) [OF assms(1,2)]
  have c: "cells_wf c" "length (kv_pos c) = kvc_get_size (ks_kc st)"
    using kvc_wfD(7,8) [OF assms(1) t] by (simp_all add: c_def cells_size_def)
  show x: "x < kvc_get_size (ks_kc st)" using assms(3) by (simp add: seq_cells_def)
  show h: "cells_seq_has c x q" using assms(3) by (simp add: seq_cells_def add_cell_def Let_def c_def)
  show "0 \<le> kv_pos c ! x" using cells_wf_cellD(5) [OF c(1), of x q] c(2) x h by (simp add: cells_seq_has_def)
  show "kvc_view (ks_kc st) (stream_of (ks_kc st) q) x \<noteq> None"
    using assms(3) by (simp add: seq_cells_def add_cell_def Let_def kvc_view_def cells_is_empty_view)
qed

lemma write_stream_seq:
  assumes "kvc_wf (ks_kc st)" "s = stream_of (ks_kc st) q" "q < length (kc_seq_to_stream (ks_kc st))"
  shows "\<exists>cr. in_ranges (kvc_get_size (ks_kc st)) cr \<and> expand cr = seq_cells st q \<and>
     write_stream st (int q) s = Some (u32_out (length (seq_cells st q)) @ (if seq_cells st q = [] then []
       else concat (map (write_cell st s (int q)) (seq_cells st q)) @ state_write_data st s cr))"
proof -
  have t: "s < kc_n_stream (ks_kc st)" using kvc_wfD(6) [OF assms(1,3)] assms(2) by simp
  have sz: "cells_size (kc_cells (ks_kc st) ! s) = kvc_get_size (ks_kc st)" by (rule kvc_wfD(8) [OF assms(1) t])
  obtain cr cnt where cr: "cell_ranges (add_cell (ks_kc st) s (int q)) (kvc_get_size (ks_kc st)) = (cr, cnt)" by fastforce
  note r = cell_ranges_all [OF cr]
  have e: "expand cr = seq_cells st q" "cnt = length (seq_cells st q)" using r(1,2) assms(2) unfolding seq_cells_def by simp_all
  have "write_stream st (int q) s = Some (u32_out cnt @ (if cnt = 0 then [] else state_write_meta st s cr (int q) @ state_write_data st s cr))"
    unfolding write_stream_def sz cr using length_expand [OF r(3)] r(1,2) by (simp add: Let_def)
  then show ?thesis using e r(3) by (intro exI [of _ cr]) (simp add: state_write_meta_expand in_ranges_def)
qed

lemma write_stream_other:
  assumes "kvc_wf (ks_kc st)" "s \<noteq> stream_of (ks_kc st) q" "s < kc_n_stream (ks_kc st)"
  shows "write_stream st (int q) s = Some (u32_out 0)"
proof -
  have sz: "cells_size (kc_cells (ks_kc st) ! s) = kvc_get_size (ks_kc st)" by (rule kvc_wfD(8) [OF assms(1,3)])
  have "\<not> add_cell (ks_kc st) s (int q) i" if i: "i < kvc_get_size (ks_kc st)" for i
  proof
    assume "add_cell (ks_kc st) s (int q) i"
    then have "cell_has_seq q (kvc_view (ks_kc st) s i)"
      by (auto simp: add_cell_def Let_def cell_has_seq_def kvc_view_def cells_view_def cells_is_empty_def cells_seq_has_def)
    then show False using kvc_wfD(10) [OF assms(1,3) i] assms(2) by blast
  qed
  then have none: "filter (add_cell (ks_kc st) s (int q)) [0..<kvc_get_size (ks_kc st)] = []" by simp
  obtain cr cnt where cr: "cell_ranges (add_cell (ks_kc st) s (int q)) (kvc_get_size (ks_kc st)) = (cr, cnt)" by fastforce
  note r = cell_ranges_all [OF cr]
  show ?thesis unfolding write_stream_def sz cr using length_expand [OF r(3)] r(1,2) none by (simp add: Let_def)
qed

lemma read_failed_seq:
  assumes "kvc_wf (ks_kc st)" "\<not> kc_other (ks_kc st)" "d < length (kc_seq_to_stream (ks_kc st))" "\<forall>p \<in> kvc_positions (ks_kc st) d. p < INT32_MAX"
  shows "\<exists>st'. read_failed (int d) (rd bs st) = (Inl IoThrow, rd bs st') \<and> kvc_wf (ks_kc st') \<and> kvc_positions (ks_kc st') d = {} \<and>
    (\<forall>u < length (kc_seq_to_stream (ks_kc st)). u \<noteq> d \<longrightarrow> kvc_positions (ks_kc st') u = kvc_positions (ks_kc st) u)"
proof -
  obtain kc' where kc': "kvc_seq_rm (int d) (-1) (-1) (ks_kc st) = Some (kc', True)" "kvc_wf kc'" "kvc_positions kc' d = {}"
    "\<And>u. u < length (kc_seq_to_stream (ks_kc st)) \<Longrightarrow> u \<noteq> d \<Longrightarrow> kvc_positions kc' u = kvc_positions (ks_kc st) u"
    by (rule drop_seq_effect [OF assms]) iprover
  then show ?thesis
    by (intro exI [of _ "st\<lparr>ks_kc := kc'\<rparr>"]) (simp add: read_failed_def io_run io_stop_def)
qed

definition seq_saved :: "kv_store \<Rightarrow> nat \<Rightarrow> kv_store \<Rightarrow> nat \<Rightarrow> bool" where
  \<comment> \<open>sequence \<open>q\<close> of the first store can be restored as sequence \<open>d\<close> of the second\<close>
  "seq_saved st0 q st d \<longleftrightarrow> store_savable st0 \<and> stores_ready st0 st \<and> \<not> kc_other (ks_kc st) \<and>
     q < length (kc_seq_to_stream (ks_kc st0)) \<and> q < ks_n_seq_max st0 \<and> d < length (kc_seq_to_stream (ks_kc st)) \<and>
     (\<forall>p \<in> kvc_positions (ks_kc st) d. p < INT32_MAX) \<and> 0 < kc_n_pos_per_embd (ks_kc st)"

lemma seq_savedD:
  assumes "seq_saved st0 q st d"
  shows "store_savable st0" "stores_ready st0 st" "\<not> kc_other (ks_kc st)" "q < length (kc_seq_to_stream (ks_kc st0))" "q < ks_n_seq_max st0"
    "d < length (kc_seq_to_stream (ks_kc st))" "\<forall>p \<in> kvc_positions (ks_kc st) d. p < INT32_MAX" "0 < kc_n_pos_per_embd (ks_kc st)"
  using assms unfolding seq_saved_def by blast+

definition seq_data_restored :: "kv_store \<Rightarrow> nat \<Rightarrow> kv_store \<Rightarrow> nat \<Rightarrow> nat list \<Rightarrow> bool" where
  "seq_data_restored st0 q st d I \<longleftrightarrow> (\<forall>l < length (ks_layers st). \<forall>k < length I.
     cell_data (ks_v_trans st) (kvc_get_size (ks_kc st)) (ks_layers st ! l) (stream_of (ks_kc st) d) (I ! k) =
     cell_data (ks_v_trans st0) (kvc_get_size (ks_kc st0)) (ks_layers st0 ! l) (stream_of (ks_kc st0) q) (seq_cells st0 q ! k))"

definition seq_dropped :: "kv_cache \<Rightarrow> nat \<Rightarrow> kv_cache \<Rightarrow> bool" where
  \<comment> \<open>sequence \<open>d\<close> is gone, the others have the positions they had\<close>
  "seq_dropped kc d kc' \<longleftrightarrow> kvc_wf kc' \<and> kvc_positions kc' d = {} \<and>
     (\<forall>u < length (kc_seq_to_stream kc). u \<noteq> d \<longrightarrow> kvc_positions kc' u = kvc_positions kc u)"

lemma seq_read_stream:
  assumes sv: "seq_saved st0 q st d" and ne: "seq_cells st0 q \<noteq> []"
  defines "s \<equiv> stream_of (ks_kc st0) q"
  shows "if length (seq_cells st0 q) \<le> seq_room (ks_kc st) d
    then \<exists>si st'. read_stream (int d) None s out (rd (the (write_stream st0 (int q) s) @ bs) st) = (Inr (True, out[s := si]), rd bs st') \<and>
      seq_loaded st0 s (seq_cells st0 q) d (ks_kc st) (si_idxs si ! 0) (ks_kc st') \<and> seq_data_restored st0 q st' d (si_idxs si ! 0)
    else \<exists>r. read_stream (int d) None s out (rd (the (write_stream st0 (int q) s) @ bs) st) = (Inl IoThrow, r) \<and>
      seq_dropped (ks_kc st) d (ks_kc (in_st r))"
proof -
  note v = store_savableD [OF seq_savedD(1) [OF sv]] and r = stores_readyD [OF seq_savedD(2) [OF sv]] and a = seq_savedD(3-8) [OF sv]
  note k = cells_readyD [OF r(1)]
  let ?S = "seq_cells st0 q" and ?kc = "ks_kc st" and ?m = "kvc_get_size (ks_kc st0)" and ?n = "kvc_get_size (ks_kc st)"
  let ?t = "stream_of ?kc d"
  have s: "s < kc_n_stream (ks_kc st0)" using kvc_wfD(6) [OF v(1) a(2)] by (simp add: s_def)
  have t: "?t < kc_n_stream ?kc" by (rule kvc_wfD(6) [OF k(1) a(4)])
  note p = seq_cells_props [OF v(1) a(2), folded s_def]
  have S: "\<forall>x \<in> set ?S. cells_seq_has (kc_cells (ks_kc st0) ! s) x q \<and> cell_ok st0 s x \<and> 0 \<le> kv_pos (kc_cells (ks_kc st0) ! s) ! x"
    using p v(7) [OF s] by blast
  obtain cr where cr: "in_ranges ?m cr" "expand cr = ?S"
    "write_stream st0 (int q) s = Some (u32_out (length ?S) @ concat (map (write_cell st0 s (int q)) ?S) @ state_write_data st0 s cr)"
    using write_stream_seq [OF v(1) s_def [THEN meta_eq_to_obj_eq] a(2)] ne by auto
  have "length ?S \<le> ?m" unfolding seq_cells_def by (rule order_trans [OF length_filter_le]) simp
  then have cnt: "length ?S < 2 ^ 32" "0 < length ?S" using v(4) ne by simp_all
  let ?bytes = "concat (map (write_cell st0 s (int q)) ?S)" and ?zs = "state_write_data st0 s cr @ bs"
  from read_meta_seq_run [OF k(1) a(1,4,5,6) S ne a(3) v(5) k(6), where bs = ?zs]
  consider (ok) si kc' where "length ?S \<le> seq_room ?kc d" "read_meta_seq ?t (length ?S) (int d) None (rd (?bytes @ ?zs) st) = (Inr (Some si), rd ?zs (st\<lparr>ks_kc := kc'\<rparr>))"
      "seq_loaded st0 s ?S d ?kc (si_idxs si ! 0) kc'"
    | (no) kc' where "\<not> length ?S \<le> seq_room ?kc d"
      "read_meta_seq ?t (length ?S) (int d) None (rd (?bytes @ ?zs) st) = (Inr None, rd ?zs (st\<lparr>ks_kc := kc'\<rparr>))"
      "kvc_wf kc'" "kvc_frame ?kc kc'" "kvc_positions kc' d = {}"
      "\<forall>u < length (kc_seq_to_stream ?kc). u \<noteq> d \<longrightarrow> kvc_positions kc' u = kvc_positions ?kc u"
    by (auto split: if_splits)
  then show ?thesis
  proof cases
    case no
    note f = kvc_frameD [OF no(4)]
    obtain st' where st': "read_failed (int d) (rd ?zs (st\<lparr>ks_kc := kc'\<rparr>)) = (Inl IoThrow, rd ?zs st')" "kvc_wf (ks_kc st')" "kvc_positions (ks_kc st') d = {}"
      "\<forall>u < length (kc_seq_to_stream kc'). u \<noteq> d \<longrightarrow> kvc_positions (ks_kc st') u = kvc_positions kc' u"
      using read_failed_seq [of "st\<lparr>ks_kc := kc'\<rparr>" d ?zs] no(3,5) f(2,3) a(1,4) by auto
    have "seq_dropped ?kc d (ks_kc st')" using st'(2-4) no(6) f(2) by (simp add: seq_dropped_def)
    moreover have "read_stream (int d) None s out (rd (the (write_stream st0 (int q) s) @ bs) st) = (Inl IoThrow, rd ?zs st')"
      using no(2) cnt st'(1) by (simp add: cr(3) read_stream_def state_read_meta_def io_run io_bind_Inr Let_def)
    ultimately show ?thesis using no(1) by auto
  next
    case ok
    let ?I = "si_idxs si ! 0" and ?st1 = "st\<lparr>ks_kc := kc'\<rparr>"
    have l: "kvc_wf kc'" "kvc_frame ?kc kc'" "length ?I = length ?S" "distinct ?I" "\<forall>i \<in> set ?I. i < ?n"
      using ok(3) unfolding seq_loaded_def by blast+
    note f = kvc_frameD [OF l(2)]
    have "\<exists>st'. state_read_data ?t (length ?S) si (rd ?zs ?st1) = (Inr True, rd bs st') \<and>
        ks_kc st' = ks_kc ?st1 \<and> ks_n_seq_max st' = ks_n_seq_max ?st1 \<and> store_like st0 st' \<and> store_fits (kc_n_stream ?kc) ?n st' \<and>
        data_from st0 s (expand cr) ?st1 ?t ?I ?m ?n st'"
    proof (rule state_read_data_run)
      show "store_like st0 ?st1" using r(2) by (simp add: store_like_def)
      show "store_fits (kc_n_stream (ks_kc st0)) ?m st0" by (rule v(6))
      show "store_fits (kc_n_stream ?kc) ?n ?st1" using r(3) by (simp add: store_fits_def)
      show "s < kc_n_stream (ks_kc st0)" "?t < kc_n_stream ?kc" by (rule s, rule t)
      show "cells_size (kc_cells (ks_kc st0) ! s) = ?m" by (rule kvc_wfD(8) [OF v(1) s])
      show "cells_size (kc_cells (ks_kc ?st1) ! ?t) = ?n" using kvc_wfD(8) [OF l(1), of ?t] f(1,4) t by simp
      show "i < ?n" if "i \<in> set ?I" for i using l(5) that by blast
    qed (use l cr cnt in simp_all)
    then obtain st' where st': "state_read_data ?t (length ?S) si (rd ?zs ?st1) = (Inr True, rd bs st')" "ks_kc st' = kc'"
      "data_from st0 s ?S ?st1 ?t ?I ?m ?n st'"
      unfolding cr(2) by auto
    have "read_stream (int d) None s out (rd (the (write_stream st0 (int q) s) @ bs) st) = (Inr (True, out[s := si]), rd bs st')"
      using ok(2) st'(1) cnt
      by (simp add: cr(3) read_stream_def state_read_meta_def io_run io_bind_Inr Let_def io_catch_def io_ret_def)
    moreover have "seq_data_restored st0 q st' d ?I"
      using st'(2,3) f(4,5) l(3) unfolding seq_data_restored_def data_from_def s_def by simp
    ultimately show ?thesis using ok(1,3) st'(2) by auto
  qed
qed

lemma read_stream_none: "read_stream d None s out (rd (u32_out 0 @ bs) st) = (Inr (True, out), rd bs st)"
  by (simp add: read_stream_def io_run io_ret_def)

lemma io_loop_append: "io_loop f (xs @ ys) s = io_bind (io_loop f xs s) (\<lambda>(ok, s). if ok then io_loop f ys s else io_ret (False, s))"
proof (induction xs arbitrary: s)
  case (Cons x xs)
  have "io_bind (if ok then io_loop f xs s' else io_ret (False, s')) g =
      (if ok then io_bind (io_loop f xs s') g else g (False, s'))" for ok s' g by (simp add: io_run)
  then show ?case by (auto simp: Cons io_run fun_eq_iff io_bind_def io_ret_def split: sum.splits prod.splits)
qed (simp add: io_run)

lemma read_streams_none:
  "io_loop (read_stream d None) ss out (rd (concat (map (\<lambda>_. u32_out 0) ss) @ bs) st) = (Inr (True, out), rd bs st)"
  by (induction ss arbitrary: out) (simp_all add: io_ret_def io_bind_Inr read_stream_none)

lemma seq_state_write:
  assumes "store_savable st0" "q < length (kc_seq_to_stream (ks_kc st0))"
  defines "n \<equiv> kc_n_stream (ks_kc st0)" and "s \<equiv> stream_of (ks_kc st0) q"
  shows "s < n" "state_write (int q) st0 = Some (u32_out n @ concat (map (\<lambda>_. u32_out 0) [0..<s]) @
    the (write_stream st0 (int q) s) @ concat (map (\<lambda>_. u32_out 0) [Suc s..<n]))"
proof -
  note v = store_savableD [OF assms(1)]
  show s: "s < n" unfolding s_def n_def by (rule kvc_wfD(6) [OF v(1) assms(2)])
  have o: "the (write_stream st0 (int q) s') = u32_out 0" if "s' < n" "s' \<noteq> s" for s'
    using write_stream_other [OF v(1), of s' q] that by (simp add: n_def s_def)
  have up: "[0..<n] = [0..<s] @ s # [Suc s..<n]" using s by (metis le_add1 less_imp_add_positive upt_add_eq_append upt_rec zero_le)
  have m: "map (\<lambda>s. the (write_stream st0 (int q) s)) [0..<s] = map (\<lambda>_. u32_out 0) [0..<s]"
    "map (\<lambda>s. the (write_stream st0 (int q) s)) [Suc s..<n] = map (\<lambda>_. u32_out 0) [Suc s..<n]"
    using o s by auto
  show "state_write (int q) st0 = Some (u32_out n @ concat (map (\<lambda>_. u32_out 0) [0..<s]) @
    the (write_stream st0 (int q) s) @ concat (map (\<lambda>_. u32_out 0) [Suc s..<n]))"
    unfolding state_write_chunks [OF v(2), of "int q"] n_def [symmetric] up map_append list.map concat_append concat.simps m append_assoc ..
qed

lemma seq_state_read:
  assumes sv: "seq_saved st0 q st d"
  defines "n \<equiv> kc_n_stream (ks_kc st0)" and "s \<equiv> stream_of (ks_kc st0) q"
  assumes bytes: "bytes = u32_out n @ concat (map (\<lambda>_. u32_out 0) [0..<s]) @ zs @ concat (map (\<lambda>_. u32_out 0) [Suc s..<n])"
  shows "read_stream (int d) None s (replicate n slot_empty) (rd (zs @ concat (map (\<lambda>_. u32_out 0) [Suc s..<n]) @ bs) st) =
      (Inr (True, out), rd (concat (map (\<lambda>_. u32_out 0) [Suc s..<n]) @ bs) st') \<Longrightarrow>
    state_read (int d) None (rd (bytes @ bs) st) = (Inr out, rd bs st')"
    "read_stream (int d) None s (replicate n slot_empty) (rd (zs @ concat (map (\<lambda>_. u32_out 0) [Suc s..<n]) @ bs) st) = (Inl IoThrow, r) \<Longrightarrow>
    state_read (int d) None (rd (bytes @ bs) st) = (Inl IoThrow, r)"
proof -
  note v = store_savableD [OF seq_savedD(1) [OF sv]] and a = seq_savedD(3-8) [OF sv]
  note k = cells_readyD [OF stores_readyD(1) [OF seq_savedD(2) [OF sv]]]
  have s: "s < n" unfolding s_def n_def by (rule kvc_wfD(6) [OF v(1) a(2)])
  have up: "[0..<n] = [0..<s] @ s # [Suc s..<n]" using s by (metis le_add1 less_imp_add_positive upt_add_eq_append upt_rec zero_le)
  have n: "n < 2 ^ 32" "kc_n_stream (ks_kc st) = n" using v(3) k(2) by (simp_all add: n_def)
  have dok: "seq_ok (ks_kc st) (int d)" using a(4) by (simp add: seq_ok_def)
  let ?f = "read_stream (int d) None" and ?tl = "concat (map (\<lambda>_. u32_out 0) [Suc s..<n]) @ bs"
  have st: "state_read (int d) None (rd (bytes @ bs) st) =
      io_bind (io_loop ?f [0..<n] (replicate n slot_empty)) (\<lambda>(_, out). io_ret out) (rd (concat (map (\<lambda>_. u32_out 0) [0..<s]) @ zs @ ?tl) st)"
    using a(1) dok n by (simp add: state_read_def bytes io_run Let_def)
  have loop: "io_loop ?f [0..<n] (replicate n slot_empty) (rd (concat (map (\<lambda>_. u32_out 0) [0..<s]) @ zs @ ?tl) st) =
      io_loop ?f (s # [Suc s..<n]) (replicate n slot_empty) (rd (zs @ ?tl) st)"
    unfolding up io_loop_append using read_streams_none [of "int d" "[0..<s]" "replicate n slot_empty" "zs @ ?tl" st] by (simp add: io_bind_def)
  show "state_read (int d) None (rd (bytes @ bs) st) = (Inr out, rd bs st')"
    if "?f s (replicate n slot_empty) (rd (zs @ ?tl) st) = (Inr (True, out), rd ?tl st')"
    unfolding st using that read_streams_none [of "int d" "[Suc s..<n]" out bs st'] by (simp add: io_bind_def loop io_ret_def)
  show "state_read (int d) None (rd (bytes @ bs) st) = (Inl IoThrow, r)"
    if "?f s (replicate n slot_empty) (rd (zs @ ?tl) st) = (Inl IoThrow, r)"
    unfolding st using that by (simp add: io_bind_def loop)
qed


text \<open>C11. Saving one sequence and restoring it as a sequence of a cache of the same model succeeds exactly when
  the stream of the new sequence has room: at least as many cells that \<open>find_slot\<close> can use, once the
  sequence that was there is removed, as cells were saved. Then every saved
  cell comes back in a cell of its own, with its position, its extension and its data, as a cell of the new sequence alone,
  which then has exactly the saved positions (and no other sequence changes, without a
  sliding window). Without room an exception is thrown, the sequence is left empty and every other sequence
  keeps its positions.\<close>

theorem seq_save_restore:
  assumes "seq_saved st0 q st d" "seq_cells st0 q \<noteq> []"
  shows "\<exists>bytes. state_write (int q) st0 = Some bytes \<and>
    (if length (seq_cells st0 q) \<le> seq_room (ks_kc st) d
     then \<exists>out I st'. state_read (int d) None (rd (bytes @ bs) st) = (Inr out, rd bs st') \<and>
        seq_loaded st0 (stream_of (ks_kc st0) q) (seq_cells st0 q) d (ks_kc st) I (ks_kc st') \<and> seq_data_restored st0 q st' d I
     else \<exists>r. state_read (int d) None (rd (bytes @ bs) st) = (Inl IoThrow, r) \<and> seq_dropped (ks_kc st) d (ks_kc (in_st r)))"
proof -
  let ?n = "kc_n_stream (ks_kc st0)" and ?s = "stream_of (ks_kc st0) q"
  let ?tl = "concat (map (\<lambda>_. u32_out 0) [Suc ?s..<?n])"
  note w = seq_state_write [OF seq_savedD(1,4) [OF assms(1)]]
  note rs = seq_read_stream [OF assms, where out = "replicate ?n slot_empty" and bs = "?tl @ bs"]
  show ?thesis
  proof (cases "length (seq_cells st0 q) \<le> seq_room (ks_kc st) d")
    case True
    then obtain si st' where "read_stream (int d) None ?s (replicate ?n slot_empty) (rd (the (write_stream st0 (int q) ?s) @ ?tl @ bs) st) =
        (Inr (True, (replicate ?n slot_empty)[?s := si]), rd (?tl @ bs) st')"
      "seq_loaded st0 ?s (seq_cells st0 q) d (ks_kc st) (si_idxs si ! 0) (ks_kc st')" "seq_data_restored st0 q st' d (si_idxs si ! 0)"
      using rs by auto
    then show ?thesis using seq_state_read(1) [OF assms(1) refl] w(2) True by (simp only: if_True) blast
  next
    case False
    then obtain r where "read_stream (int d) None ?s (replicate ?n slot_empty) (rd (the (write_stream st0 (int q) ?s) @ ?tl @ bs) st) = (Inl IoThrow, r)"
      "seq_dropped (ks_kc st) d (ks_kc (in_st r))"
      using rs by auto
    then show ?thesis using seq_state_read(2) [OF assms(1) refl] w(2) False by (simp only: if_False) blast
  qed
qed

text \<open>A sequence without cells is saved too, but restoring it does nothing: the
  sequence it is restored as keeps the cells it had.\<close>

theorem seq_restore_nothing:
  assumes "seq_saved st0 q st d" "seq_cells st0 q = []"
  shows "\<exists>bytes out. state_write (int q) st0 = Some bytes \<and> state_read (int d) None (rd (bytes @ bs) st) = (Inr out, rd bs st)"
proof -
  note v = store_savableD [OF seq_savedD(1) [OF assms(1)]]
  have "the (write_stream st0 (int q) (stream_of (ks_kc st0) q)) = u32_out 0"
    using write_stream_seq [OF v(1) refl seq_savedD(4) [OF assms(1)]] assms(2) by auto
  then show ?thesis
    using seq_state_write(2) [OF seq_savedD(1,4) [OF assms(1)]] seq_state_read(1) [OF assms(1) refl read_stream_none] by auto
qed

lemma demo_fresh:
  "kvc_get_size (kvc_new True 6 2 demo_settings) = 6"
  "i < 6 \<Longrightarrow> kvc_view (kvc_new True 6 2 demo_settings) (stream_of (kvc_new True 6 2 demo_settings) 1) i = None"
proof -
  let ?kc = "kvc_new True 6 2 demo_settings"
  note k = cells_readyD [OF stores_readyD(1) [OF demo_target_ready(1)]]
  have l: "ks_kc demo_store = demo_kc" "ks_kc demo_target = ?kc" by (simp_all add: demo_store_def demo_target_def)
  have t: "stream_of ?kc 1 = 0" using demo_kc_wf(4) [of 1] k(3) l by (simp add: stream_of_def)
  show "kvc_get_size ?kc = 6"
    by (simp add: kvc_get_size_def kvc_new_def cells_size_def cells_resize_def cells_reset_def
        Let_def vec_resize_def LLAMA_MAX_SEQ_def)
  show "kvc_view ?kc (stream_of ?kc 1) i = None" if "i < 6"
    using that unfolding t by (simp add: kvc_view_def kvc_new_def cells_view_def cells_resize_def cells_reset_def vec_resize_def cells_empty_def Let_def)
qed

lemma demo_seq_saved: "seq_saved demo_store 0 demo_target 1" "seq_cells demo_store 0 \<noteq> []"
  "seq_saved demo_target 0 demo_target 1" "seq_cells demo_target 0 = []"
proof -
  let ?kc = "kvc_new True 6 2 demo_settings"
  note r = demo_target_ready and k = cells_readyD [OF stores_readyD(1) [OF demo_target_ready(1)]]
  have l: "length (kc_seq_to_stream demo_kc) = 256" "ks_kc demo_store = demo_kc" "ks_kc demo_target = ?kc" "stream_of demo_kc 0 = 0" "kvc_get_size demo_kc = 4"
    using demo_kc_wf(3-5) by (simp_all add: demo_store_def demo_target_def)
  have l2: "length (kc_seq_to_stream ?kc) = 256" using k(3) l by simp
  have t: "stream_of ?kc q = 0" if "q < 256" for q using demo_kc_wf(4) [OF that] k(3) l by (simp add: stream_of_def)
  have none: "kvc_view ?kc 0 i = None" if "i < 6" for i
    using that by (simp add: kvc_view_def kvc_new_def cells_view_def cells_resize_def cells_reset_def vec_resize_def cells_empty_def Let_def)
  have sz: "kvc_get_size ?kc = 6" "kc_n_stream ?kc = 1"
    using t [of 0] by (simp_all add: kvc_get_size_def kvc_new_def cells_size_def cells_resize_def cells_reset_def
        Let_def vec_resize_def LLAMA_MAX_SEQ_def)
  have pos: "kvc_positions ?kc d = {}" if "d < 256" for d
    using positions_at [of ?kc d] k(1) l l2 t [OF that] none sz that by (auto simp: at_pos_def)
  have np: "0 < kc_n_pos_per_embd ?kc" by (simp add: kvc_new_def demo_settings_def Let_def)
  show "seq_saved demo_store 0 demo_target 1"
    using demo_store_savable r l l2 pos np by (simp add: seq_saved_def demo_store_def)
  have "store_savable demo_target"
    unfolding store_savable_def
    using k(1) r(2) stores_readyD(3) [OF r(1)] none by (simp add: l sz demo_target_def)
  moreover have "stores_ready demo_target demo_target"
    using stores_readyD [OF r(1)] k(1) by (simp add: stores_ready_def cells_ready_def store_like_def demo_target_def layer_like_def demo_layer_def)
  ultimately show "seq_saved demo_target 0 demo_target 1"
    using r(2) l l2 pos np by (simp add: seq_saved_def demo_target_def)
  show "seq_cells demo_target 0 = []"
    using none t [of 0] by (simp add: seq_cells_def l sz add_cell_def Let_def cells_is_empty_view kvc_view_def [symmetric] filter_empty_conv)
  have "add_cell demo_kc 0 0 0"
    using demo_view(1) by (simp add: add_cell_def Let_def cells_is_empty_view demo_kc_def kvc_new_def demo_settings_def cells_seq_has_def demo_cells_fields kvc_put_def)
  then have "0 \<in> set (seq_cells demo_store 0)" by (simp add: seq_cells_def l)
  then show "seq_cells demo_store 0 \<noteq> []" by auto
qed

lemma demo_seq_room: "length (seq_cells demo_store 0) \<le> seq_room (ks_kc demo_target) 1"
proof -
  note sv = demo_seq_saved(3) and f = demo_fresh
  note k = cells_readyD [OF stores_readyD(1) [OF demo_target_ready(1)]]
  have "length (seq_cells demo_store 0) \<le> length [0..<kvc_get_size demo_kc]"
    unfolding seq_cells_def by (rule order_trans [OF length_filter_le]) (simp add: demo_store_def)
  then have "length (seq_cells demo_store 0) \<le> 4" by (simp add: demo_kc_wf(5))
  moreover have "seq_room (ks_kc demo_target) 1 = 6"
  proof -
    have "seq_room (ks_kc demo_target) 1 =
        card {i. i < kvc_get_size (ks_kc demo_target) \<and> (\<forall>k. kvc_view (ks_kc demo_target) (stream_of (ks_kc demo_target) 1) i = Some k \<longrightarrow> cell_seq k = {1})}"
      by (rule seq_room_free) (use seq_savedD(3,6,7) [OF sv] k(1) in \<open>simp_all add: demo_target_def kvc_new_def demo_settings_def Let_def\<close>)
    also have "{i. i < kvc_get_size (ks_kc demo_target) \<and> (\<forall>k. kvc_view (ks_kc demo_target) (stream_of (ks_kc demo_target) 1) i = Some k \<longrightarrow> cell_seq k = {1})} = {..<6}"
      using f by (auto simp: demo_target_def)
    finally show ?thesis by simp
  qed
  ultimately show ?thesis by simp
qed

theorem seq_save_restore_witness:
  "\<exists>bytes out I st'. state_write 0 demo_store = Some bytes \<and> state_read 1 None (rd (bytes @ []) demo_target) = (Inr out, rd [] st') \<and>
    seq_loaded demo_store (stream_of demo_kc 0) (seq_cells demo_store 0) 1 (ks_kc demo_target) I (ks_kc st')"
  using seq_save_restore [OF demo_seq_saved(1,2), of "[]"] demo_seq_room by (auto simp: demo_store_def)

theorem seq_restore_nothing_witness:
  "\<exists>bytes out. state_write 0 demo_target = Some bytes \<and> state_read 1 None (rd (bytes @ [5]) demo_target) = (Inr out, rd [5] demo_target)"
  using seq_restore_nothing [OF demo_seq_saved(3,4), of "[5]"] by simp

end
