(* ===== verification/Outputs.thy ===== *)
theory Outputs
  imports StateIo
begin

text \<open>
  Where the results of a decoded batch are: the end of \<open>llama_context::decode\<close>, \<open>output_reorder\<close>, and the
  access to the results by the index of a token, in \<open>src/llama-context.cpp\<close>. Rows are computed in the order of the
  micro-batches; \<open>decode\<close> remembers the swaps that sort them, and the first access carries them out. Buffers with a
  row for every output (logits, embeddings, sampling results) are treated alike, and so are those with a
  row for every token (inputs of layers, unmasked next-token embeddings). A buffer is its row size and its data.
\<close>

subsection \<open>State\<close>

record 'a outputs =
  co_rows :: "(nat \<times> 'a list) list"
  co_tokens :: "(nat \<times> 'a list) list"
  co_n_outputs :: nat
  co_output_ids :: "int list"
  co_swaps :: "(nat \<times> nat) list"
  co_batch_idxs :: "int list" \<comment> \<open>\<open>embd_batch_idxs\<close>\<close>

definition swap_elems :: "nat \<Rightarrow> nat \<Rightarrow> 'a list \<Rightarrow> 'a list" where
  "swap_elems i j xs = xs[i := xs ! j, j := xs ! i]"

definition swap_rows :: "nat \<Rightarrow> nat \<Rightarrow> nat \<times> 'a list \<Rightarrow> nat \<times> 'a list" where
  "swap_rows i0 i1 = (\<lambda>(w, d). (w, fold (\<lambda>k. swap_elems (i0 * w + k) (i1 * w + k)) [0..<w] d))"

subsection \<open>The end of \<open>decode\<close>\<close>

definition min_from :: "nat list \<Rightarrow> nat \<Rightarrow> nat" where
  "min_from ids i = fold (\<lambda>j j_min. if ids ! j < ids ! j_min then j else j_min) [i + 1..<length ids] i"

definition sort_step :: "nat \<Rightarrow> nat list \<times> (nat \<times> nat) list \<Rightarrow> nat list \<times> (nat \<times> nat) list" where
  "sort_step i = (\<lambda>(ids, swaps). let j_min = min_from ids i in
     if j_min = i then (ids, swaps) else (swap_elems i j_min ids, swaps @ [(i, j_min)]))"

definition sort_outputs :: "nat list \<Rightarrow> nat list \<times> (nat \<times> nat) list" where
  "sort_outputs ids = fold sort_step [0..<length ids - 1] (ids, [])"

definition number_rows :: "nat list \<Rightarrow> int list \<Rightarrow> int list" where
  "number_rows out_ids ids = fold (\<lambda>i ids. ids[out_ids ! i := int i]) [0..<length out_ids] ids"

definition output_mapping :: "nat \<Rightarrow> nat list \<Rightarrow> 'a outputs \<Rightarrow> (nat list \<times> 'a outputs) option" where
  \<comment> \<open>the outputs of the batch in the order they were computed; with the new \<open>out_ids\<close>\<close>
  "output_mapping n_outputs out_ids co =
     (let co = co\<lparr>co_n_outputs := n_outputs\<rparr> in
      if n_outputs = 0 then Some (out_ids, co)
      else if length out_ids \<noteq> n_outputs then None
      else let ids = number_rows out_ids (co_output_ids co); sorted_output = list_all (\<lambda>i. out_ids ! i = i) [0..<n_outputs]
        in if \<not> sorted_output \<and> n_outputs > 1
           then let (out_ids, swaps) = sort_outputs out_ids
             in Some (out_ids, co\<lparr>co_output_ids := number_rows out_ids (map (\<lambda>_. -1) ids), co_swaps := co_swaps co @ swaps\<rparr>)
           else Some (out_ids, co\<lparr>co_output_ids := ids\<rparr>))"

subsection \<open>Access\<close>

datatype row_error = NegativeIndex | IndexOutOfRange | NoOutput | CorruptBuffer

definition output_resolve_row :: "int \<Rightarrow> 'a outputs \<Rightarrow> row_error + nat" where
  \<comment> \<open>\<open>n_outputs + i\<close> is a sum of 32-bit unsigned integers\<close>
  "output_resolve_row i co =
     (if 0 \<le> i \<and> nat i \<ge> length (co_output_ids co) then Inl IndexOutOfRange
      else let j = (if i < 0 then (int (co_n_outputs co) + i) mod 2 ^ 32 else co_output_ids co ! nat i) in
        if i < 0 \<and> j < 0 then Inl NegativeIndex
        else if j < 0 then Inl NoOutput
        else if j \<ge> int (co_n_outputs co) then Inl CorruptBuffer
        else Inr (nat j))"

partial_function (option) reorder_at :: "nat \<Rightarrow> int list \<times> (nat \<times> 'a list) list \<Rightarrow> (int list \<times> (nat \<times> 'a list) list) option" where
  \<comment> \<open>\<open>None\<close>: a failed assertion, or no end\<close>
  "reorder_at i st =
     (if fst st ! i = int i then Some st
      else let j = fst st ! i in
        if \<not> (0 \<le> j \<and> nat j < length (fst st)) then None
        else reorder_at i (swap_elems i (nat j) (fst st), map (swap_rows i (nat j)) (snd st)))"

definition output_reorder :: "'a outputs \<Rightarrow> 'a outputs option" where
  "output_reorder co =
     (let co = co\<lparr>co_rows := fold (\<lambda>(i0, i1). map (swap_rows i0 i1)) (co_swaps co) (co_rows co), co_swaps := []\<rparr> in
      case fold_opt reorder_at [0..<length (co_batch_idxs co)] (co_batch_idxs co, co_tokens co) of
        None \<Rightarrow> None
      | Some (idxs, toks) \<Rightarrow> Some (co\<lparr>co_tokens := toks, co_batch_idxs := []\<rparr>))"

definition get_row_ith :: "nat \<Rightarrow> int \<Rightarrow> 'a outputs \<Rightarrow> ('a outputs \<times> 'a list option) option" where
  \<comment> \<open>\<open>get_logits_ith\<close>, \<open>get_embeddings_ith\<close> and, if masked, \<open>get_embeddings_nextn_ith\<close>, for the \<open>b\<close>-th buffer; a null
     pointer when there is no such buffer or the index is refused, in a release build (a debug build aborts then)\<close>
  "get_row_ith b i co = map_option (\<lambda>co. (co,
     if b \<ge> length (co_rows co) then None
     else case output_resolve_row i co of Inl e \<Rightarrow> None
       | Inr j \<Rightarrow> Some (row_of (snd (co_rows co ! b)) (fst (co_rows co ! b)) j))) (output_reorder co)"

subsection \<open>Swapping rows\<close>

lemma swap_elems_nth: "i < length xs \<Longrightarrow> j < length xs \<Longrightarrow> swap_elems i j xs ! k = xs ! (if k = i then j else if k = j then i else k)"
  by (auto simp: swap_elems_def nth_upd)

lemma length_swap_elems [simp]: "length (swap_elems i j xs) = length xs"
  by (simp add: swap_elems_def)

lemma swap_elems_map: "i < length xs \<Longrightarrow> j < length xs \<Longrightarrow> swap_elems i j (map f xs) = map f (swap_elems i j xs)"
  by (simp add: swap_elems_def map_update)

lemma mset_swap_elems: "i < length xs \<Longrightarrow> j < length xs \<Longrightarrow> set (swap_elems i j xs) = set xs \<and> distinct (swap_elems i j xs) = distinct xs"
  by (simp add: swap_elems_def set_swap distinct_swap)

lemma row_nth: "k < w \<Longrightarrow> (i + 1) * w \<le> length d \<Longrightarrow> row_of d w i ! k = d ! (i * w + k)"
  by (simp add: row_of_def algebra_simps)

lemma swap_blocks:
  assumes "a + w \<le> b \<or> b + w \<le> a" "a + w \<le> length d" "b + w \<le> length d" "n \<le> w"
  shows "length (fold (\<lambda>k. swap_elems (a + k) (b + k)) [0..<n] d) = length d \<and>
    (\<forall>p < length d. fold (\<lambda>k. swap_elems (a + k) (b + k)) [0..<n] d ! p =
      d ! (if a \<le> p \<and> p < a + n then b + (p - a) else if b \<le> p \<and> p < b + n then a + (p - b) else p))"
  using assms(4)
proof (induction n)
  case (Suc n)
  let ?d = "fold (\<lambda>k. swap_elems (a + k) (b + k)) [0..<n] d"
  have ih: "length ?d = length d" "\<And>p. p < length d \<Longrightarrow> ?d ! p =
      d ! (if a \<le> p \<and> p < a + n then b + (p - a) else if b \<le> p \<and> p < b + n then a + (p - b) else p)"
    using Suc by auto
  have r: "a + n < length d" "b + n < length d" using assms(2,3) Suc.prems by auto
  have far: "\<not> (a \<le> b + n \<and> b + n < a + n)" "\<not> (b \<le> a + n \<and> a + n < b + n)" using assms(1) Suc.prems by linarith+
  have "swap_elems (a + n) (b + n) ?d ! p =
      d ! (if a \<le> p \<and> p < a + Suc n then b + (p - a) else if b \<le> p \<and> p < b + Suc n then a + (p - b) else p)" if p: "p < length d" for p
  proof -
    consider "p = a + n" | "p = b + n" "p \<noteq> a + n" | "p \<noteq> a + n" "p \<noteq> b + n" by blast
    then show ?thesis
    proof cases
      case 1
      have "?d ! (b + n) = d ! (b + n)" by (subst ih(2) [OF r(2)], rule arg_cong [where f = "(!) d"]) (use far(1) in auto)
      then show ?thesis using 1 r ih(1) by (simp add: swap_elems_nth)
    next
      case 2
      have "?d ! (a + n) = d ! (a + n)" by (subst ih(2) [OF r(1)], rule arg_cong [where f = "(!) d"]) (use far(2) in auto)
      moreover have "(if a \<le> p \<and> p < a + Suc n then b + (p - a) else if b \<le> p \<and> p < b + Suc n then a + (p - b) else p) = a + n"
        using 2 far(1) by auto
      ultimately show ?thesis using 2 r ih(1) by (simp only: swap_elems_nth) simp
    next
      case 3
      then have "swap_elems (a + n) (b + n) ?d ! p = ?d ! p" using r ih(1) by (simp add: swap_elems_nth)
      moreover have "(p < a + Suc n) = (p < a + n)" "(p < b + Suc n) = (p < b + n)" using 3 by linarith+
      ultimately show ?thesis using ih(2) [OF p] by simp
    qed
  qed
  then show ?case using ih(1) by simp
qed auto

lemma swap_rows_row:
  assumes "i0 < n" "i1 < n" "n * w \<le> length d" "k < n"
  shows "row_of (snd (swap_rows i0 i1 (w, d))) w k = row_of d w (if k = i0 then i1 else if k = i1 then i0 else k)"
    "length (snd (swap_rows i0 i1 (w, d))) = length d" "fst (swap_rows i0 i1 (w, d)) = w"
proof -
  have le: "(i + 1) * w \<le> length d" if "i < n" for i
  proof -
    have "(i + 1) * w \<le> n * w" using that by (intro mult_le_mono1) simp
    then show ?thesis using assms(3) by simp
  qed
  let ?d = "snd (swap_rows i0 i1 (w, d))"
  show "fst (swap_rows i0 i1 (w, d)) = w" by (simp add: swap_rows_def)
  have same: "swap_elems a a xs = xs" if "a < length xs" for a and xs :: "'a list" using that by (simp add: swap_elems_def)
  have "row_of ?d w k = row_of d w (if k = i0 then i1 else if k = i1 then i0 else k) \<and> length ?d = length d"
  proof (cases "i0 = i1")
    case True
    have "fold (\<lambda>k. swap_elems (i1 * w + k) (i1 * w + k)) [0..<w] d = d"
    proof -
      have "fold (\<lambda>k. swap_elems (i1 * w + k) (i1 * w + k)) [0..<m] d = d" if "m \<le> w" for m
        using that le [OF assms(2)] by (induction m) (simp_all add: same algebra_simps)
      then show ?thesis by simp
    qed
    then show ?thesis using True by (simp add: swap_rows_def)
  next
    case False
    have far: "i0 * w + w \<le> i1 * w \<or> i1 * w + w \<le> i0 * w"
    proof (cases "i0 < i1")
      case True
      then have "(i0 + 1) * w \<le> i1 * w" by (intro mult_le_mono1) simp
      then show ?thesis by (simp add: algebra_simps)
    next
      case c: False
      then have "(i1 + 1) * w \<le> i0 * w" using False by (intro mult_le_mono1) simp
      then show ?thesis by (simp add: algebra_simps)
    qed
    have "i0 * w + w \<le> length d" "i1 * w + w \<le> length d" using le [OF assms(1)] le [OF assms(2)] by (simp_all add: algebra_simps)
    note e = swap_blocks [OF far this le_refl]
    have len: "length ?d = length d" using e by (simp add: swap_rows_def)
    let ?k = "if k = i0 then i1 else if k = i1 then i0 else k"
    have kk: "?k < n" using assms by simp
    have "row_of ?d w k = row_of d w ?k"
    proof (rule nth_equalityI)
      show "length (row_of ?d w k) = length (row_of d w ?k)" using le [OF assms(4)] le [OF kk] len by simp
      fix x assume "x < length (row_of ?d w k)"
      then have x: "x < w" using le [OF assms(4)] len by simp
      have p: "k * w + x < length d" using le [OF assms(4)] x by (simp add: algebra_simps)
      have other: "\<not> (i * w \<le> k * w + x \<and> k * w + x < i * w + w)" if "i \<noteq> k" for i
      proof (cases "i < k")
        case True
        then have "(i + 1) * w \<le> k * w" by (intro mult_le_mono1) simp
        then show ?thesis by (simp add: algebra_simps)
      next
        case False
        then have "(k + 1) * w \<le> i * w" using that by (intro mult_le_mono1) simp
        then show ?thesis using x by (simp add: algebra_simps)
      qed
      have "row_of ?d w k ! x = ?d ! (k * w + x)" by (rule row_nth [OF x]) (use le [OF assms(4)] len in simp)
      also have "\<dots> = d ! (?k * w + x)"
        using e p x other [of i0] other [of i1] by (auto simp: swap_rows_def)
      finally show "row_of ?d w k ! x = row_of d w ?k ! x" by (simp only: row_nth [OF x le [OF kk]])
    qed
    then show ?thesis using len by simp
  qed
  then show "row_of ?d w k = row_of d w (if k = i0 then i1 else if k = i1 then i0 else k)" "length ?d = length d" by blast+
qed

subsection \<open>Sorting the outputs\<close>

lemma min_from_least:
  assumes "i < length ids"
  shows "i \<le> min_from ids i" "min_from ids i < length ids" "i \<le> j \<Longrightarrow> j < length ids \<Longrightarrow> ids ! min_from ids i \<le> ids ! j"
proof -
  let ?f = "\<lambda>j j_min. if ids ! j < ids ! j_min then j else j_min"
  have "i \<le> fold ?f [i + 1..<n] i \<and> fold ?f [i + 1..<n] i < length ids \<and> (\<forall>j. i \<le> j \<and> j < n \<longrightarrow> ids ! fold ?f [i + 1..<n] i \<le> ids ! j)"
    if "i < n" "n \<le> length ids" for n
    using that
  proof (induction n)
    case (Suc n)
    show ?case
    proof (cases "i < n")
      case True
      then have "fold ?f [i + 1..<Suc n] i = ?f n (fold ?f [i + 1..<n] i)" by simp
      then show ?thesis using Suc True by (auto simp: less_Suc_eq not_less intro: order_trans less_imp_le)
    next
      case False
      then have "n = i" using Suc.prems by simp
      then show ?thesis using assms by (auto simp: less_Suc_eq)
    qed
  qed simp
  from this [OF assms le_refl] show "i \<le> min_from ids i" "min_from ids i < length ids" "i \<le> j \<Longrightarrow> j < length ids \<Longrightarrow> ids ! min_from ids i \<le> ids ! j"
    by (auto simp: min_from_def)
qed

definition replay :: "(nat \<times> nat) list \<Rightarrow> 'a list \<Rightarrow> 'a list" where
  "replay swaps xs = fold (\<lambda>(i, j). swap_elems i j) swaps xs"

definition sorting :: "nat list \<Rightarrow> nat \<Rightarrow> nat list \<times> (nat \<times> nat) list \<Rightarrow> bool" where
  \<comment> \<open>after \<open>i\<close> rounds\<close>
  "sorting ids0 i = (\<lambda>(ids, swaps). length ids = length ids0 \<and> set ids = set ids0 \<and> distinct ids \<and> replay swaps ids0 = ids \<and>
     (\<forall>(a, b) \<in> set swaps. a < length ids0 \<and> b < length ids0) \<and> (\<forall>k < i. \<forall>j < length ids0. k < j \<longrightarrow> ids ! k < ids ! j))"

lemma sorting_step:
  assumes "sorting ids0 i st" "i < length ids0"
  shows "sorting ids0 (Suc i) (sort_step i st)"
proof -
  obtain ids swaps where st: "st = (ids, swaps)" by (cases st)
  let ?n = "length ids0"
  have s: "length ids = ?n" "set ids = set ids0" "distinct ids" "replay swaps ids0 = ids" "\<forall>(a, b) \<in> set swaps. a < ?n \<and> b < ?n"
    "\<And>k j. k < i \<Longrightarrow> j < ?n \<Longrightarrow> k < j \<Longrightarrow> ids ! k < ids ! j"
    using assms(1) by (auto simp: sorting_def st)
  let ?m = "min_from ids i"
  have il: "i < length ids" using assms(2) s(1) by simp
  note m = min_from_least [OF il]
  have less: "ids ! ?m < ids ! j" if "i \<le> j" "j < ?n" "j \<noteq> ?m" for j
  proof -
    have "ids ! ?m \<noteq> ids ! j" using s(1,3) that m(2) by (simp add: nth_eq_iff_index_eq)
    then show ?thesis using m(3) [OF that(1)] that(2) s(1) by simp
  qed
  show ?thesis
  proof (cases "?m = i")
    case True
    then have "\<forall>k < Suc i. \<forall>j < ?n. k < j \<longrightarrow> ids ! k < ids ! j" using s(6) less by (auto simp: less_Suc_eq)
    then show ?thesis using True s(1-5) by (simp add: sorting_def st sort_step_def)
  next
    case False
    let ?ids = "swap_elems i ?m ids"
    have nth: "?ids ! k = ids ! (if k = i then ?m else if k = ?m then i else k)" for k using swap_elems_nth [OF il m(2)] .
    have "?ids ! k < ?ids ! j" if k: "k < Suc i" "j < ?n" "k < j" for k j
    proof (cases "k = i")
      case True
      then show ?thesis using k(2,3) less [of j] less [of i] False il s(1) by (auto simp: nth)
    next
      case c: False
      then have "k < i" "k \<noteq> ?m" using k(1) m(1) by auto
      then show ?thesis using s(6) [of k ?m] s(6) [of k i] s(6) [of k j] k m(1,2) il s(1) by (auto simp: nth)
    qed
    moreover have "replay (swaps @ [(i, ?m)]) ids0 = ?ids" using s(4) by (simp add: replay_def)
    moreover have "set ?ids = set ids0" "distinct ?ids" using mset_swap_elems [OF il m(2)] s(2,3) by auto
    ultimately show ?thesis using False s(1,5) assms(2) m(2) by (auto simp: sorting_def st sort_step_def Let_def)
  qed
qed

lemma sort_outputs_sorted:
  assumes "distinct ids0" "sort_outputs ids0 = (ids, swaps)"
  shows "length ids = length ids0" "set ids = set ids0" "sorted_wrt (<) ids" "replay swaps ids0 = ids" "\<forall>(a, b) \<in> set swaps. a < length ids0 \<and> b < length ids0"
proof -
  have "sorting ids0 (length ids0 - 1) (fold sort_step [0..<length ids0 - 1] (ids0, []))"
    by (rule fold_upt_invariant) (use assms(1) in \<open>auto simp: replay_def intro!: sorting_step\<close>, simp add: sorting_def replay_def)
  then have s: "sorting ids0 (length ids0 - 1) (ids, swaps)" using assms(2) by (simp add: sort_outputs_def)
  then show "length ids = length ids0" "set ids = set ids0" "replay swaps ids0 = ids" "\<forall>(a, b) \<in> set swaps. a < length ids0 \<and> b < length ids0"
    by (auto simp: sorting_def)
  show "sorted_wrt (<) ids" using s by (auto simp: sorting_def sorted_wrt_iff_nth_less)
qed

lemma replay_rows:
  assumes "\<forall>(a, b) \<in> set swaps. a < length xs \<and> b < length xs" "length xs * w \<le> length d" "\<And>k. k < length xs \<Longrightarrow> row_of d w k = F (xs ! k)"
  shows "length (replay swaps xs) = length xs \<and> (\<exists>d'. fold (\<lambda>(i, j). swap_rows i j) swaps (w, d) = (w, d') \<and> length d' = length d \<and>
    (\<forall>k < length xs. row_of d' w k = F (replay swaps xs ! k)))"
  using assms
proof (induction swaps arbitrary: xs d)
  case (Cons s swaps)
  obtain i j where sw: "s = (i, j)" by (cases s)
  have ij: "i < length xs" "j < length xs" using Cons.prems(1) sw by auto
  note r = swap_rows_row [OF ij Cons.prems(2)]
  obtain d1 where d1: "swap_rows i j (w, d) = (w, d1)" using r(3) [OF ij(1)] by (cases "swap_rows i j (w, d)") simp
  have rows: "row_of d1 w k = F (swap_elems i j xs ! k)" if "k < length (swap_elems i j xs)" for k
    using r(1) [of k] that Cons.prems(3) ij by (simp add: swap_elems_nth d1)
  have bounds: "\<forall>(a, b) \<in> set swaps. a < length (swap_elems i j xs) \<and> b < length (swap_elems i j xs)" using Cons.prems(1) by simp
  have len: "length d1 = length d" using r(2) [OF ij(1)] d1 by simp
  then have "length (swap_elems i j xs) * w \<le> length d1" using Cons.prems(2) by simp
  from Cons.IH [OF bounds this rows] show ?case using len by (simp add: replay_def sw d1)
qed (simp add: replay_def)

lemma number_rows_nth:
  assumes "distinct xs" "\<forall>x \<in> set xs. x < length ids"
  shows "length (number_rows xs ids) = length ids" "k < length xs \<Longrightarrow> number_rows xs ids ! (xs ! k) = int k" "x \<notin> set xs \<Longrightarrow> number_rows xs ids ! x = ids ! x"
proof -
  have "length (fold (\<lambda>i ids. ids[xs ! i := int i]) [0..<n] ids) = length ids \<and>
      (\<forall>k < n. fold (\<lambda>i ids. ids[xs ! i := int i]) [0..<n] ids ! (xs ! k) = int k) \<and>
      (\<forall>x. x \<notin> set xs \<longrightarrow> fold (\<lambda>i ids. ids[xs ! i := int i]) [0..<n] ids ! x = ids ! x)" if "n \<le> length xs" for n
    using that
  proof (induction n)
    case (Suc n)
    then show ?case using assms by (auto simp: nth_upd less_Suc_eq nth_eq_iff_index_eq)
  qed simp
  from this [OF le_refl] show "length (number_rows xs ids) = length ids" "k < length xs \<Longrightarrow> number_rows xs ids ! (xs ! k) = int k"
    "x \<notin> set xs \<Longrightarrow> number_rows xs ids ! x = ids ! x" by (auto simp: number_rows_def)
qed

subsection \<open>Following the cycles\<close>

definition perm_idxs :: "nat \<Rightarrow> int list \<Rightarrow> bool" where
  "perm_idxs m idxs \<longleftrightarrow> length idxs = m \<and> distinct idxs \<and> set idxs = int ` {..<m}"

definition rows_are :: "nat \<Rightarrow> int list \<Rightarrow> (nat \<times> 'a list) list \<Rightarrow> (int \<Rightarrow> 'a list) list \<Rightarrow> bool" where
  \<comment> \<open>row \<open>k\<close> of a buffer is what its function says of the token that \<open>idxs\<close> names\<close>
  "rows_are m idxs toks Fs \<longleftrightarrow> list_all2 (\<lambda>b F. m * fst b \<le> length (snd b) \<and> (\<forall>k < m. row_of (snd b) (fst b) k = F (idxs ! k))) toks Fs"

lemma rows_are_swap:
  assumes "rows_are m idxs toks Fs" "i < m" "j < m" "length idxs = m"
  shows "rows_are m (swap_elems i j idxs) (map (swap_rows i j) toks) Fs"
proof -
  have "m * fst (swap_rows i j b) \<le> length (snd (swap_rows i j b)) \<and>
      (\<forall>k < m. row_of (snd (swap_rows i j b)) (fst (swap_rows i j b)) k = F (swap_elems i j idxs ! k))"
    if b: "m * fst b \<le> length (snd b) \<and> (\<forall>k < m. row_of (snd b) (fst b) k = F (idxs ! k))" for b and F :: "int \<Rightarrow> 'a list"
  proof -
    have "m * fst b \<le> length (snd b)" using b by blast
    note r = swap_rows_row [OF assms(2,3) this]
    show ?thesis using r b assms(2-4) by (simp add: swap_elems_nth)
  qed
  then show ?thesis
    unfolding rows_are_def list_all2_map1 by (rule list_all2_mono [OF assms(1) [unfolded rows_are_def]])
qed

lemma reorder_at_run:
  assumes "perm_idxs m idxs" "rows_are m idxs toks Fs" "i < m"
  shows "\<exists>idxs' toks'. reorder_at i (idxs, toks) = Some (idxs', toks') \<and> perm_idxs m idxs' \<and> rows_are m idxs' toks' Fs \<and>
    idxs' ! i = int i \<and> (\<forall>k < m. idxs ! k = int k \<longrightarrow> idxs' ! k = int k) \<and> map fst toks' = map fst toks"
  using assms
proof (induction "card {k. k < m \<and> idxs ! k \<noteq> int k}" arbitrary: idxs toks rule: less_induct)
  case less
  have p: "length idxs = m" "distinct idxs" "set idxs = int ` {..<m}" using less.prems(1) by (simp_all add: perm_idxs_def)
  show ?case
  proof (cases "idxs ! i = int i")
    case True
    then show ?thesis using less.prems by (subst reorder_at.simps) simp
  next
    case False
    have "idxs ! i \<in> int ` {..<m}" using p(1,3) nth_mem [of i idxs] less.prems(3) by simp
    then obtain j where j: "idxs ! i = int j" "j < m" by auto
    let ?idxs = "swap_elems i j idxs" and ?toks = "map (swap_rows i j) toks"
    have ne: "j \<noteq> i" "idxs ! j \<noteq> int j"
      using False j p(1,2) less.prems(3) nth_eq_iff_index_eq [of idxs i j] by auto
    have nth: "?idxs ! k = idxs ! (if k = i then j else if k = j then i else k)" for k
      using p(1) less.prems(3) j(2) by (simp add: swap_elems_nth)
    have step: "reorder_at i (idxs, toks) = reorder_at i (?idxs, ?toks)"
      using False j p(1) by (subst reorder_at.simps) simp
    have perm: "perm_idxs m ?idxs" using p mset_swap_elems [of i idxs j] less.prems(3) j(2) by (simp add: perm_idxs_def)
    have rows: "rows_are m ?idxs ?toks Fs" by (rule rows_are_swap [OF less.prems(2,3) j(2) p(1)])
    have keep: "?idxs ! k = int k" if "k < m" "idxs ! k = int k" for k using that False ne(2) by (auto simp: nth)
    have "{k. k < m \<and> ?idxs ! k \<noteq> int k} \<subset> {k. k < m \<and> idxs ! k \<noteq> int k}"
    proof (rule psubsetI)
      show "{k. k < m \<and> ?idxs ! k \<noteq> int k} \<subseteq> {k. k < m \<and> idxs ! k \<noteq> int k}" using keep by blast
      have "?idxs ! j = int j" using ne(1) j(1) by (simp add: nth)
      then show "{k. k < m \<and> ?idxs ! k \<noteq> int k} \<noteq> {k. k < m \<and> idxs ! k \<noteq> int k}" using ne(2) j(2) by blast
    qed
    then have "card {k. k < m \<and> ?idxs ! k \<noteq> int k} < card {k. k < m \<and> idxs ! k \<noteq> int k}" by (intro psubset_card_mono) simp
    from less.hyps [OF this perm rows less.prems(3)] obtain idxs' toks' where
      "reorder_at i (?idxs, ?toks) = Some (idxs', toks')" "perm_idxs m idxs'" "rows_are m idxs' toks' Fs" "idxs' ! i = int i"
      "\<forall>k < m. ?idxs ! k = int k \<longrightarrow> idxs' ! k = int k" "map fst toks' = map fst ?toks" by blast
    moreover have "map fst ?toks = map fst toks" by (simp add: swap_rows_def case_prod_unfold comp_def)
    ultimately show ?thesis using step keep by auto
  qed
qed

lemma reorder_all:
  assumes "perm_idxs m idxs" "rows_are m idxs toks Fs"
  shows "\<exists>toks' idxs'. fold_opt reorder_at [0..<m] (idxs, toks) = Some (idxs', toks') \<and> map fst toks' = map fst toks \<and>
    list_all2 (\<lambda>b F. m * fst b \<le> length (snd b) \<and> (\<forall>k < m. row_of (snd b) (fst b) k = F (int k))) toks' Fs"
proof -
  let ?P = "\<lambda>n (idxs', toks'). perm_idxs m idxs' \<and> rows_are m idxs' toks' Fs \<and> (\<forall>k < n. idxs' ! k = int k) \<and> map fst toks' = map fst toks"
  have "\<exists>st. fold_opt reorder_at [0..<m] (idxs, toks) = Some st \<and> ?P m st"
  proof (rule fold_opt_upt_invariant [where P = ?P])
    show "?P 0 (idxs, toks)" using assms by simp
  next
    fix i st assume i: "i < m" and P: "?P i st"
    obtain idxs1 toks1 where st: "st = (idxs1, toks1)" by (cases st)
    have "perm_idxs m idxs1" "rows_are m idxs1 toks1 Fs" using P st by auto
    from reorder_at_run [OF this i] obtain idxs2 toks2 where r: "reorder_at i (idxs1, toks1) = Some (idxs2, toks2)" "perm_idxs m idxs2"
      "rows_are m idxs2 toks2 Fs" "idxs2 ! i = int i" "\<forall>k < m. idxs1 ! k = int k \<longrightarrow> idxs2 ! k = int k" "map fst toks2 = map fst toks1" by blast
    have "?P (Suc i) (idxs2, toks2)" using r P i st by (auto simp: less_Suc_eq)
    then show "\<exists>st'. reorder_at i st = Some st' \<and> ?P (Suc i) st'" using r(1) st by blast
  qed
  then obtain idxs' toks' where f: "fold_opt reorder_at [0..<m] (idxs, toks) = Some (idxs', toks')" "rows_are m idxs' toks' Fs" "\<forall>k < m. idxs' ! k = int k"
    "map fst toks' = map fst toks" by auto
  have "list_all2 (\<lambda>b F. m * fst b \<le> length (snd b) \<and> (\<forall>k < m. row_of (snd b) (fst b) k = F (int k))) toks' Fs"
    using f(2,3) unfolding rows_are_def by (auto elim!: list_all2_mono)
  then show ?thesis using f(1,4) by blast
qed

subsection \<open>Properties\<close>

definition outputs_ready :: "nat list \<Rightarrow> 'a outputs \<Rightarrow> bool" where
  \<comment> \<open>what \<open>decode\<close> has when the graphs have run: no output has a row yet, every buffer has the rows, and
     \<open>embd_batch_idxs\<close> names every token once\<close>
  "outputs_ready out_ids co \<longleftrightarrow> (\<forall>x \<in> set (co_output_ids co). x = -1) \<and> co_swaps co = [] \<and>
     distinct out_ids \<and> (\<forall>t \<in> set out_ids. t < length (co_output_ids co)) \<and> length out_ids < 2 ^ 31 \<and>
     (\<forall>b \<in> set (co_rows co). length out_ids * fst b \<le> length (snd b)) \<and>
     perm_idxs (length (co_batch_idxs co)) (co_batch_idxs co) \<and>
     (\<forall>b \<in> set (co_tokens co). length (co_batch_idxs co) * fst b \<le> length (snd b))"

lemma mapping_run:
  assumes "distinct out_ids" "co_swaps co = []"
  shows "\<exists>ids swaps ids0. output_mapping (length out_ids) out_ids co =
      Some (ids, co\<lparr>co_n_outputs := length out_ids, co_output_ids := number_rows ids ids0, co_swaps := swaps\<rparr>) \<and>
    ids0 \<in> {co_output_ids co, map (\<lambda>_. -1) (number_rows out_ids (co_output_ids co))} \<and>
    length ids = length out_ids \<and> set ids = set out_ids \<and> sorted_wrt (<) ids \<and> replay swaps out_ids = ids \<and>
    (\<forall>(a, b) \<in> set swaps. a < length out_ids \<and> b < length out_ids)"
proof -
  let ?n = "length out_ids"
  show ?thesis
  proof (cases "\<not> list_all (\<lambda>i. out_ids ! i = i) [0..<?n] \<and> ?n > 1")
    case True
    obtain ids swaps where s: "sort_outputs out_ids = (ids, swaps)" by fastforce
    note f = sort_outputs_sorted [OF assms(1) s]
    have "output_mapping ?n out_ids co = Some (ids, co\<lparr>co_n_outputs := ?n,
        co_output_ids := number_rows ids (map (\<lambda>_. -1) (number_rows out_ids (co_output_ids co))), co_swaps := swaps\<rparr>)"
      using True s assms(2) by (cases "out_ids = []") (simp_all add: output_mapping_def Let_def)
    then show ?thesis using f by blast
  next
    case False
    have "sorted_wrt (<) out_ids"
    proof (cases "?n > 1")
      case True
      then show ?thesis using False by (simp add: sorted_wrt_iff_nth_less list_all_iff)
    next
      case c: False
      then show ?thesis by (cases out_ids) auto
    qed
    moreover have "output_mapping ?n out_ids co = Some (out_ids, co\<lparr>co_n_outputs := ?n,
        co_output_ids := number_rows out_ids (co_output_ids co), co_swaps := []\<rparr>)"
      using False assms(2) by (auto simp: output_mapping_def Let_def number_rows_def)
    ultimately show ?thesis
      by (intro exI [of _ out_ids] exI [of _ "[]"] exI [of _ "co_output_ids co"]) (simp add: replay_def)
  qed
qed

lemma fold_map_swaps: "fold (\<lambda>(i, j). map (swap_rows i j)) swaps rows = map (fold (\<lambda>(i, j). swap_rows i j) swaps) rows"
  by (induction swaps arbitrary: rows) (auto simp: comp_def)

lemma reorder_run:
  assumes "outputs_ready out_ids co" "replay swaps out_ids = ids" "\<forall>(a, b) \<in> set swaps. a < length out_ids \<and> b < length out_ids"
    and "co_rows co' = co_rows co" "co_tokens co' = co_tokens co" "co_batch_idxs co' = co_batch_idxs co" "co_swaps co' = swaps"
    and "length ids = length out_ids"
  shows "\<exists>rows toks. output_reorder co' = Some (co'\<lparr>co_rows := rows, co_swaps := [], co_tokens := toks, co_batch_idxs := []\<rparr>) \<and>
    length rows = length (co_rows co) \<and>
    (\<forall>b < length rows. fst (rows ! b) = fst (co_rows co ! b) \<and> (\<forall>k < length ids. \<forall>j < length out_ids. ids ! k = out_ids ! j \<longrightarrow>
       row_of (snd (rows ! b)) (fst (rows ! b)) k = row_of (snd (co_rows co ! b)) (fst (co_rows co ! b)) j)) \<and>
    (\<forall>b < length (co_tokens co). \<forall>k < length (co_batch_idxs co).
       row_of (snd (toks ! b)) (fst (toks ! b)) (nat (co_batch_idxs co ! k)) = row_of (snd (co_tokens co ! b)) (fst (co_tokens co ! b)) k)"
proof -
  let ?swap = "fold (\<lambda>(i, j). swap_rows i j) swaps" and ?m = "length (co_batch_idxs co)"
  have r: "distinct out_ids" "\<forall>b \<in> set (co_rows co). length out_ids * fst b \<le> length (snd b)" "perm_idxs ?m (co_batch_idxs co)"
    "\<forall>b \<in> set (co_tokens co). ?m * fst b \<le> length (snd b)"
    using assms(1) by (simp_all add: outputs_ready_def)
  have swapped: "fst (?swap b) = fst b \<and> (\<forall>k < length ids. \<forall>j < length out_ids. ids ! k = out_ids ! j \<longrightarrow>
      row_of (snd (?swap b)) (fst (?swap b)) k = row_of (snd b) (fst b) j)" if b: "length out_ids * fst b \<le> length (snd b)" for b :: "nat \<times> 'a list"
  proof -
    define F where "F x = row_of (snd b) (fst b) (THE j. j < length out_ids \<and> out_ids ! j = x)" for x
    have F: "F (out_ids ! j) = row_of (snd b) (fst b) j" if "j < length out_ids" for j
    proof -
      have "(THE j'. j' < length out_ids \<and> out_ids ! j' = out_ids ! j) = j"
        by (rule the_equality) (use that r(1) in \<open>auto simp: nth_eq_iff_index_eq\<close>)
      then show ?thesis by (simp add: F_def)
    qed
    obtain d' where d': "?swap (fst b, snd b) = (fst b, d')" "\<forall>k < length out_ids. row_of d' (fst b) k = F (replay swaps out_ids ! k)"
      using replay_rows [OF assms(3) b, of F] F by auto
    then show ?thesis using F assms(2,8) by auto
  qed
  define G where "G b x = row_of (snd b) (fst b) (THE k. k < ?m \<and> co_batch_idxs co ! k = x)" for b :: "nat \<times> 'a list" and x
  have G: "G b (co_batch_idxs co ! k) = row_of (snd b) (fst b) k" if "k < ?m" for b k
  proof -
    have "(THE k'. k' < ?m \<and> co_batch_idxs co ! k' = co_batch_idxs co ! k) = k"
      by (rule the_equality) (use that r(3) in \<open>auto simp: nth_eq_iff_index_eq perm_idxs_def\<close>)
    then show ?thesis by (simp add: G_def)
  qed
  have "rows_are ?m (co_batch_idxs co) (co_tokens co) (map G (co_tokens co))"
    unfolding rows_are_def list_all2_map2 by (rule list.rel_refl_strong) (use r(4) G in auto)
  from reorder_all [OF r(3) this] obtain toks idxs where t: "fold_opt reorder_at [0..<?m] (co_batch_idxs co, co_tokens co) = Some (idxs, toks)"
    "map fst toks = map fst (co_tokens co)"
    "list_all2 (\<lambda>b F. ?m * fst b \<le> length (snd b) \<and> (\<forall>k < ?m. row_of (snd b) (fst b) k = F (int k))) toks (map G (co_tokens co))" by blast
  have run: "output_reorder co' = Some (co'\<lparr>co_rows := map ?swap (co_rows co), co_swaps := [], co_tokens := toks, co_batch_idxs := []\<rparr>)"
    using t(1) assms(4-7) by (simp add: output_reorder_def Let_def fold_map_swaps)
  have tok: "row_of (snd (toks ! b)) (fst (toks ! b)) (nat (co_batch_idxs co ! k)) = row_of (snd (co_tokens co ! b)) (fst (co_tokens co ! b)) k"
    if "b < length (co_tokens co)" "k < ?m" for b k
  proof -
    have "co_batch_idxs co ! k \<in> int ` {..<?m}" using r(3) nth_mem [OF that(2)] by (simp add: perm_idxs_def)
    then obtain x where x: "co_batch_idxs co ! k = int x" "x < ?m" by auto
    have "row_of (snd (toks ! b)) (fst (toks ! b)) x = G (co_tokens co ! b) (int x)"
      using t(3) that(1) x(2) by (simp add: list_all2_conv_all_nth)
    then show ?thesis using G [OF that(2)] x(1) by simp
  qed
  have rows: "fst (map ?swap (co_rows co) ! b) = fst (co_rows co ! b) \<and> (\<forall>k < length ids. \<forall>j < length out_ids. ids ! k = out_ids ! j \<longrightarrow>
      row_of (snd (map ?swap (co_rows co) ! b)) (fst (map ?swap (co_rows co) ! b)) k = row_of (snd (co_rows co ! b)) (fst (co_rows co ! b)) j)"
    if "b < length (map ?swap (co_rows co))" for b
  proof -
    have b: "b < length (co_rows co)" using that by simp
    then have "length out_ids * fst (co_rows co ! b) \<le> length (snd (co_rows co ! b))" using r(2) nth_mem by blast
    from swapped [OF this] show ?thesis unfolding nth_map [OF b] .
  qed
  show ?thesis
    by (rule exI [of _ "map ?swap (co_rows co)"], rule exI [of _ toks]) (intro conjI allI impI run length_map; (rule tok | rule rows [THEN conjunct1] | rule rows [THEN conjunct2, rule_format]); assumption)
qed

text \<open>C15. The results of a decoded batch are found by the index of the token they belong to, whatever
  the order the micro-batches computed them in. The outputs are numbered in the order of the batch; the first access
  returns, and for a token with an output, it and every later access give the row that was computed for
  it, in every buffer; for any other token, and for an index out of range, the access is refused. A negative index
  counts from the last output of the batch. A buffer with a row for every token has the row of a token at
  its index.\<close>

theorem outputs_in_order:
  assumes "outputs_ready out_ids co"
  shows "\<exists>ids co' co''. output_mapping (length out_ids) out_ids co = Some (ids, co') \<and> sorted_wrt (<) ids \<and> set ids = set out_ids \<and>
    output_reorder co' = Some co'' \<and> output_reorder co'' = Some co'' \<and>
    (\<forall>b < length (co_rows co).
       (\<forall>k < length out_ids. get_row_ith b (int (out_ids ! k)) co' = Some (co'', Some (row_of (snd (co_rows co ! b)) (fst (co_rows co ! b)) k))) \<and>
       (\<forall>t. t \<notin> set out_ids \<longrightarrow> get_row_ith b (int t) co' = Some (co'', None)) \<and>
       (\<forall>k < length ids. get_row_ith b (int k - int (length ids)) co' = get_row_ith b (int (ids ! k)) co') \<and>
       (\<forall>k. length ids < k \<longrightarrow> k \<le> 2 ^ 31 \<longrightarrow> get_row_ith b (- int k) co' = Some (co'', None))) \<and>
    (\<forall>b < length (co_tokens co). \<forall>k < length (co_batch_idxs co). row_of (snd (co_tokens co'' ! b)) (fst (co_tokens co'' ! b))
       (nat (co_batch_idxs co ! k)) = row_of (snd (co_tokens co ! b)) (fst (co_tokens co ! b)) k)"
proof -
  let ?n = "length out_ids" and ?L = "length (co_output_ids co)"
  have r: "\<forall>x \<in> set (co_output_ids co). x = -1" "co_swaps co = []" "distinct out_ids" "\<forall>t \<in> set out_ids. t < ?L" "?n < 2 ^ 31"
    using assms by (simp_all add: outputs_ready_def)
  obtain ids swaps ids0 where m: "output_mapping ?n out_ids co =
      Some (ids, co\<lparr>co_n_outputs := ?n, co_output_ids := number_rows ids ids0, co_swaps := swaps\<rparr>)"
    "ids0 \<in> {co_output_ids co, map (\<lambda>_. -1) (number_rows out_ids (co_output_ids co))}"
    "length ids = ?n" "set ids = set out_ids" "sorted_wrt (<) ids" "replay swaps out_ids = ids"
    "\<forall>(a, b) \<in> set swaps. a < ?n \<and> b < ?n"
    using mapping_run [OF r(3,2)] by blast
  have len0: "length ids0 = ?L" using m(2) number_rows_nth(1) [OF r(3,4)] by auto
  have "\<forall>x \<in> set ids0. x = -1" using m(2) r(1) by auto
  then have minus: "t < ?L \<Longrightarrow> ids0 ! t = -1" for t using len0 by simp
  have ids: "distinct ids" "\<forall>t \<in> set ids. t < length ids0" using m(3,4) r(3,4) card_distinct distinct_card len0 by metis+
  note num = number_rows_nth [OF ids]
  define co' where "co' = co\<lparr>co_n_outputs := ?n, co_output_ids := number_rows ids ids0, co_swaps := swaps\<rparr>"
  have c: "co_rows co' = co_rows co" "co_tokens co' = co_tokens co" "co_batch_idxs co' = co_batch_idxs co" "co_swaps co' = swaps"
    by (simp_all add: co'_def)
  obtain rows toks where ro: "output_reorder co' = Some (co'\<lparr>co_rows := rows, co_swaps := [], co_tokens := toks, co_batch_idxs := []\<rparr>)"
    "length rows = length (co_rows co)"
    "\<forall>b < length rows. fst (rows ! b) = fst (co_rows co ! b) \<and> (\<forall>k < length ids. \<forall>j < ?n. ids ! k = out_ids ! j \<longrightarrow>
       row_of (snd (rows ! b)) (fst (rows ! b)) k = row_of (snd (co_rows co ! b)) (fst (co_rows co ! b)) j)"
    "\<forall>b < length (co_tokens co). \<forall>k < length (co_batch_idxs co).
       row_of (snd (toks ! b)) (fst (toks ! b)) (nat (co_batch_idxs co ! k)) = row_of (snd (co_tokens co ! b)) (fst (co_tokens co ! b)) k"
    using reorder_run [OF assms m(6,7) c m(3)] by (elim exE conjE) (rule that)
  define co'' where "co'' = co'\<lparr>co_rows := rows, co_swaps := [], co_tokens := toks, co_batch_idxs := []\<rparr>"
  have again: "output_reorder co'' = Some co''" by (simp add: output_reorder_def co''_def)
  have get: "get_row_ith b i co' = Some (co'', case output_resolve_row i co'' of Inl e \<Rightarrow> None
      | Inr j \<Rightarrow> Some (row_of (snd (rows ! b)) (fst (rows ! b)) j))" if "b < length (co_rows co)" for b i
  proof -
    have "co_rows co'' = rows" by (simp add: co''_def)
    then show ?thesis using that ro(2) unfolding get_row_ith_def ro(1) [folded co''_def] by (simp split: sum.splits)
  qed
  have o: "co_output_ids co'' = number_rows ids ids0" "co_n_outputs co'' = ?n" by (simp_all add: co''_def co'_def)
  have at: "output_resolve_row (int (ids ! k)) co'' = Inr k" if "k < length ids" for k
  proof -
    have "ids ! k < length ids0" using ids(2) nth_mem [OF that] by blast
    then show ?thesis using that num(1) num(2) [OF that] m(3) by (simp add: output_resolve_row_def o)
  qed
  have absent: "\<exists>e. output_resolve_row (int t) co'' = Inl e" if "t \<notin> set out_ids" for t
    using num(1) num(3) [of t] minus [of t] that m(4) len0 by (auto simp: output_resolve_row_def o Let_def)
  have neg: "output_resolve_row (int k - int (length ids)) co'' = Inr k" if "k < length ids" for k
    using that m(3) r(5) by (simp add: output_resolve_row_def o)
  have out: "\<exists>e. output_resolve_row (- int k) co'' = Inl e" if "length ids < k" "k \<le> 2 ^ 31" for k
  proof -
    have "(int ?n - int k) mod 2 ^ 32 = int ?n - int k + 2 ^ 32"
      using that m(3) by (subst mod_add_self2 [symmetric], subst mod_pos_pos_trivial) simp_all
    then show ?thesis using that m(3) by (simp add: output_resolve_row_def o)
  qed
  have find: "\<exists>k < length ids. ids ! k = out_ids ! j" if "j < ?n" for j
    using nth_mem [OF that] m(4) by (metis in_set_conv_nth)
  have "get_row_ith b (int (out_ids ! j)) co' = Some (co'', Some (row_of (snd (co_rows co ! b)) (fst (co_rows co ! b)) j))"
    if b: "b < length (co_rows co)" and j: "j < ?n" for b j
  proof -
    obtain k where k: "k < length ids" "ids ! k = out_ids ! j" using find [OF j] by blast
    have "b < length rows" using b ro(2) by simp
    then have "row_of (snd (rows ! b)) (fst (rows ! b)) k = row_of (snd (co_rows co ! b)) (fst (co_rows co ! b)) j"
      using ro(3) k j by blast
    then show ?thesis using get [OF b, of "int (out_ids ! j)"] at [OF k(1)] k(2) by simp
  qed
  moreover have "get_row_ith b (int t) co' = Some (co'', None)" if "b < length (co_rows co)" "t \<notin> set out_ids" for b t
    using get [OF that(1), of "int t"] absent [OF that(2)] by auto
  moreover have "get_row_ith b (int k - int (length ids)) co' = get_row_ith b (int (ids ! k)) co'"
    if "b < length (co_rows co)" "k < length ids" for b k
    unfolding get [OF that(1)] at [OF that(2)] neg [OF that(2)] ..
  moreover have "get_row_ith b (- int k) co' = Some (co'', None)" if "b < length (co_rows co)" "length ids < k" "k \<le> 2 ^ 31" for b k
    using get [OF that(1), of "- int k"] out [OF that(2,3)] by auto
  moreover have "co_tokens co'' = toks" by (simp add: co''_def)
  ultimately show ?thesis
    using m(1,4,5) ro(1,4) again unfolding co'_def [symmetric] co''_def [symmetric] by blast
qed

definition demo_outputs :: "int outputs" where
  \<comment> \<open>of three tokens, the last and the first have an output, computed in this order\<close>
  "demo_outputs = \<lparr>co_rows = [(1, [20, 10])], co_tokens = [(2, [3, 33, 1, 11, 2, 22])], co_n_outputs = 0, co_output_ids = [-1, -1, -1],
     co_swaps = [], co_batch_idxs = [2, 0, 1]\<rparr>"

theorem outputs_in_order_witness:
  "\<exists>ids co' co''. output_mapping 2 [2, 0] demo_outputs = Some (ids, co') \<and> get_row_ith 0 0 co' = Some (co'', Some [10]) \<and>
     get_row_ith 0 2 co' = Some (co'', Some [20]) \<and> get_row_ith 0 1 co' = Some (co'', None)"
proof -
  have "perm_idxs 3 [2, 0, 1]" by (auto simp: perm_idxs_def numeral_3_eq_3 lessThan_Suc)
  then have "outputs_ready [2, 0] demo_outputs" by (simp add: outputs_ready_def demo_outputs_def numeral_3_eq_3)
  from outputs_in_order [OF this] obtain ids co' co'' where o: "output_mapping 2 [2, 0] demo_outputs = Some (ids, co')"
    "\<forall>k < 2. get_row_ith 0 (int ([2, 0] ! k)) co' = Some (co'', Some (row_of [20, 10] 1 k))"
    "\<forall>t. t \<notin> set [2, 0] \<longrightarrow> get_row_ith 0 (int t) co' = Some (co'', None)"
    by (auto simp: demo_outputs_def numeral_2_eq_2)
  have "get_row_ith 0 2 co' = Some (co'', Some [20])" "get_row_ith 0 0 co' = Some (co'', Some [10])" "get_row_ith 0 1 co' = Some (co'', None)"
    using spec [OF o(2), of 0] spec [OF o(2), of 1] spec [OF o(3), of 1] by (simp_all add: row_of_def)
  then show ?thesis using o(1) by blast
qed

end
