(* ===== verification/Grammar.thy ===== *)
theory Grammar
  imports Prelude
begin

text \<open>
  Sampling constrained by a grammar: the engine of \<open>src/llama-grammar.cpp\<close>. A grammar is a list of
  rules, a rule a list of elements that ends with \<open>END\<close>, its alternatives separated by \<open>ALT\<close>. A
  pointer to an element is a rule and an index here, a stack is a list of pointers with the back of
  the vector first. \<open>GGML_ASSERT\<close> and \<open>GGML_ABORT\<close> give \<open>Aborted\<close>, and \<open>None\<close> is a loop that
  does not end. The vocabulary and the regular expressions of the triggers are parameters of the operations that
  use them.
\<close>

unbundle bit_operations_syntax

subsection \<open>Data\<close>

datatype gretype = GT_END | GT_ALT | GT_RULE_REF | GT_CHAR | GT_CHAR_NOT | GT_CHAR_RNG_UPPER | GT_CHAR_ALT
  | GT_CHAR_ANY | GT_TOKEN | GT_TOKEN_NOT

record gelem =
  ge_type :: gretype
  ge_value :: nat

type_synonym grules = "gelem list list"
type_synonym gpos = "nat \<times> nat"
type_synonym gstack = "gpos list"

record partial_utf8 =
  pu_value :: nat
  pu_n_remain :: int

record gcand =
  gc_index :: nat
  gc_cps :: "nat list" \<comment> \<open>the decoded piece with its terminating 0\<close>
  gc_at :: nat \<comment> \<open>where \<open>code_points\<close> points to\<close>
  gc_partial :: partial_utf8
  gc_id :: llama_token

datatype 'a gout = Aborted | Done 'a

type_synonym 'a gres = "'a gout option"

definition g_ret :: "'a \<Rightarrow> 'a gres" where
  "g_ret x = Some (Done x)"

definition g_bind :: "'a gres \<Rightarrow> ('a \<Rightarrow> 'b gres) \<Rightarrow> 'b gres" where
  "g_bind m f = (case m of None \<Rightarrow> None | Some Aborted \<Rightarrow> Some Aborted | Some (Done x) \<Rightarrow> f x)"

fun g_fold :: "('x \<Rightarrow> 's \<Rightarrow> 's gres) \<Rightarrow> 'x list \<Rightarrow> 's \<Rightarrow> 's gres" where
  "g_fold f [] s = g_ret s"
| "g_fold f (x # xs) s = g_bind (f x s) (g_fold f xs)"

definition elem_at :: "grules \<Rightarrow> gpos \<Rightarrow> gelem" where
  "elem_at rules p = rules ! fst p ! snd p"

abbreviation type_at :: "grules \<Rightarrow> gpos \<Rightarrow> gretype" where
  "type_at rules p \<equiv> ge_type (elem_at rules p)"

definition pos_add :: "gpos \<Rightarrow> nat \<Rightarrow> gpos" where
  "pos_add p n = (fst p, snd p + n)"

subsection \<open>UTF-8\<close>

definition utf8_lookup :: "int list" where
  "utf8_lookup = [1, 1, 1, 1, 1, 1, 1, 1, 0, 0, 0, 0, 2, 2, 3, 4]"

definition utf8_cont :: "nat \<Rightarrow> 8 word \<Rightarrow> nat" where
  \<comment> \<open>\<open>(value << 6) + (byte & 0x3F)\<close>\<close>
  "utf8_cont v b = (v * 64 + unat (b AND 0x3F)) mod 2 ^ 32"

fun utf8_resume :: "8 word list \<Rightarrow> nat \<Rightarrow> int \<Rightarrow> (8 word list \<times> nat \<times> int) option" where
  \<comment> \<open>the first loop; \<open>None\<close> for an invalid sequence\<close>
  "utf8_resume [] v n = Some ([], v, n)"
| "utf8_resume (b # bs) v n = (if n > 0
     then if drop_bit 6 b \<noteq> 2 then None else utf8_resume bs (utf8_cont v b) (n - 1)
     else Some (b # bs, v, n))"

fun utf8_tail :: "8 word list \<Rightarrow> nat \<Rightarrow> int \<Rightarrow> 8 word list \<times> nat \<times> int" where
  \<comment> \<open>the inner loop\<close>
  "utf8_tail [] v n = ([], v, n)"
| "utf8_tail (b # bs) v n = (if n > 0 then utf8_tail bs (utf8_cont v b) (n - 1) else (b # bs, v, n))"

lemma utf8_tail_shorter: "length (fst (utf8_tail bs v n)) \<le> length bs"
  by (induction bs v n rule: utf8_tail.induct) auto

function utf8_rest :: "8 word list \<Rightarrow> nat list \<Rightarrow> nat \<Rightarrow> int \<Rightarrow> nat list \<times> partial_utf8" where
  \<comment> \<open>the outer loop, with the code points so far\<close>
  "utf8_rest [] cps v n = (cps @ [0], \<lparr>pu_value = v, pu_n_remain = n\<rparr>)"
| "utf8_rest (b # bs) cps v n =
     (let n = utf8_lookup ! unat (drop_bit 4 b) - 1 in
      if n < 0 then ([0], \<lparr>pu_value = 0, pu_n_remain = n\<rparr>)
      else case utf8_tail bs (unat b mod 2 ^ nat (7 - n)) n of
        (bs, v, n) \<Rightarrow> utf8_rest bs (if n = 0 then cps @ [v] else cps) v n)"
  by pat_completeness auto

termination
  by (relation "measure (\<lambda>(bs, _). length bs)") (auto, metis utf8_tail_shorter fst_conv le_imp_less_Suc)

definition c_str :: "8 word list \<Rightarrow> 8 word list" where
  "c_str bs = takeWhile (\<lambda>b. b \<noteq> 0) bs"

definition decode_utf8 :: "8 word list \<Rightarrow> partial_utf8 \<Rightarrow> nat list \<times> partial_utf8" where
  "decode_utf8 src start =
     (case utf8_resume (c_str src) (pu_value start) (pu_n_remain start) of
        None \<Rightarrow> ([0], \<lparr>pu_value = 0, pu_n_remain = -1\<rparr>)
      | Some (bs, v, n) \<Rightarrow> utf8_rest bs (if pu_n_remain start > 0 \<and> n = 0 then [v] else []) v n)"

subsection \<open>Matching\<close>

definition is_end_of_sequence :: "grules \<Rightarrow> gpos \<Rightarrow> bool" where
  "is_end_of_sequence rules p \<longleftrightarrow> type_at rules p = GT_END \<or> type_at rules p = GT_ALT"

fun match_loop :: "bool \<Rightarrow> gelem list \<Rightarrow> nat \<Rightarrow> bool \<Rightarrow> nat \<Rightarrow> bool \<times> nat" where
  \<comment> \<open>the elements from \<open>pos\<close> on; the result is \<open>found\<close> and how far \<open>pos\<close> has moved\<close>
  "match_loop first (e # u # es) chr found n =
     (if \<not> first \<and> ge_type e \<noteq> GT_CHAR_ALT then (found, n)
      else if ge_type u = GT_CHAR_RNG_UPPER then match_loop False es chr (found \<or> (ge_value e \<le> chr \<and> chr \<le> ge_value u)) (n + 2)
      else if ge_type e = GT_CHAR_ANY then match_loop False (u # es) chr True (n + 1)
      else match_loop False (u # es) chr (found \<or> ge_value e = chr) (n + 1))"
| "match_loop first es chr found n = (found, n)"

definition positive_char :: "gretype \<Rightarrow> bool" where
  "positive_char t \<longleftrightarrow> t = GT_CHAR \<or> t = GT_CHAR_ANY"

definition match_char :: "grules \<Rightarrow> gpos \<Rightarrow> nat \<Rightarrow> (bool \<times> gpos) option" where
  "match_char rules p chr =
     (if \<not> (positive_char (type_at rules p) \<or> type_at rules p = GT_CHAR_NOT) then None
      else case match_loop True (drop (snd p) (rules ! fst p)) chr False 0 of
        (found, n) \<Rightarrow> Some (found = positive_char (type_at rules p), pos_add p n))"

fun match_partial_loop :: "bool \<Rightarrow> gelem list \<Rightarrow> nat \<Rightarrow> nat \<Rightarrow> bool \<Rightarrow> bool" where
  "match_partial_loop first (e # u # es) low high positive =
     (if \<not> first \<and> ge_type e \<noteq> GT_CHAR_ALT then \<not> positive
      else if ge_type u = GT_CHAR_RNG_UPPER
      then if ge_value e \<le> high \<and> low \<le> ge_value u then positive else match_partial_loop False es low high positive
      else if ge_type e = GT_CHAR_ANY then True
      else if low \<le> ge_value e \<and> ge_value e \<le> high then positive
      else match_partial_loop False (u # es) low high positive)"
| "match_partial_loop first es low high positive = (\<not> positive)"

definition match_partial_char :: "grules \<Rightarrow> gpos \<Rightarrow> partial_utf8 \<Rightarrow> bool option" where
  "match_partial_char rules p pu =
     (let positive = positive_char (type_at rules p); v = pu_value pu; n = pu_n_remain pu in
      if \<not> (positive \<or> type_at rules p = GT_CHAR_NOT) then None
      else if n < 0 \<or> (n = 1 \<and> v < 2) then Some False
      else let low = v * 2 ^ nat (n * 6) mod 2 ^ 32; high = low OR (2 ^ nat (n * 6) - 1);
               low = (if low = 0 then if n = 2 then 2 ^ 11 else if n = 3 then 2 ^ 16 else low else low)
        in Some (match_partial_loop True (drop (snd p) (rules ! fst p)) low high positive))"

definition match_token :: "grules \<Rightarrow> gpos \<Rightarrow> llama_token \<Rightarrow> bool option" where
  "match_token rules p tok =
     (if type_at rules p = GT_TOKEN then Some (int (ge_value (elem_at rules p)) = tok mod 2 ^ 32)
      else if type_at rules p = GT_TOKEN_NOT then Some (int (ge_value (elem_at rules p)) \<noteq> tok mod 2 ^ 32)
      else None)"

subsection \<open>Stacks\<close>

fun later_alternates :: "gelem list \<Rightarrow> nat \<Rightarrow> nat list" where
  \<comment> \<open>the scan over a rule; \<open>i\<close> is the index of the first element\<close>
  "later_alternates [] i = []"
| "later_alternates (e # es) i = (if ge_type e = GT_END then []
     else if ge_type e = GT_ALT then (i + 1) # later_alternates es (i + 1) else later_alternates es (i + 1))"

definition alternates :: "grules \<Rightarrow> nat \<Rightarrow> gpos list" where
  \<comment> \<open>the values of \<open>subpos\<close>: where the definitions of a rule start\<close>
  "alternates rules r = map (Pair r) (0 # later_alternates (rules ! r) 0)"

definition push_pos :: "grules \<Rightarrow> gpos \<Rightarrow> gstack \<Rightarrow> gstack" where
  "push_pos rules p s = (if \<not> is_end_of_sequence rules p then p # s else s)"

definition expand_ref :: "grules \<Rightarrow> gpos \<Rightarrow> gstack \<Rightarrow> gstack list" where
  "expand_ref rules p s = map (\<lambda>sub. push_pos rules sub (push_pos rules (pos_add p 1) s)) (alternates rules (ge_value (elem_at rules p)))"

definition add_stack :: "gstack \<Rightarrow> gstack list \<Rightarrow> gstack list" where
  "add_stack s new = (if s \<in> set new then new else new @ [s])"

definition is_terminal :: "gretype \<Rightarrow> bool" where
  "is_terminal t \<longleftrightarrow> t \<in> {GT_CHAR, GT_CHAR_NOT, GT_CHAR_ANY, GT_TOKEN, GT_TOKEN_NOT}"

partial_function (option) advance_loop :: "grules \<Rightarrow> gstack list \<Rightarrow> gstack set \<Rightarrow> gstack list \<Rightarrow> gstack list gres" where
  \<comment> \<open>\<open>todo\<close> with its back first\<close>
  "advance_loop rules todo seen new = (case todo of [] \<Rightarrow> g_ret new
     | s # todo \<Rightarrow>
         if s \<in> seen then advance_loop rules todo seen new
         else (case s of [] \<Rightarrow> advance_loop rules todo (insert s seen) (add_stack s new)
           | p # ps \<Rightarrow>
               if type_at rules p = GT_RULE_REF then advance_loop rules (rev (expand_ref rules p ps) @ todo) (insert s seen) new
               else if is_terminal (type_at rules p) then advance_loop rules todo (insert s seen) (add_stack s new)
               else Some Aborted))"

definition advance_stack :: "grules \<Rightarrow> gstack \<Rightarrow> gstack list \<Rightarrow> gstack list gres" where
  "advance_stack rules s new = advance_loop rules [s] {} new"

definition is_token_type :: "gretype \<Rightarrow> bool" where
  "is_token_type t \<longleftrightarrow> t = GT_TOKEN \<or> t = GT_TOKEN_NOT"

definition accept_chr :: "grules \<Rightarrow> nat \<Rightarrow> gstack \<Rightarrow> gstack list \<Rightarrow> gstack list gres" where
  "accept_chr rules chr s new = (case s of [] \<Rightarrow> g_ret new
     | p # ps \<Rightarrow> if is_token_type (type_at rules p) then g_ret new
         else case match_char rules p chr of None \<Rightarrow> Some Aborted
         | Some (ok, after) \<Rightarrow> if ok then advance_stack rules (push_pos rules after ps) new else g_ret new)"

definition accept_stacks :: "grules \<Rightarrow> nat \<Rightarrow> gstack list \<Rightarrow> gstack list gres" where
  "accept_stacks rules chr stacks = g_fold (accept_chr rules chr) stacks []"

subsection \<open>Candidates\<close>

definition cand_chr :: "gcand \<Rightarrow> nat" where
  "cand_chr c = gc_cps c ! gc_at c"

definition reject_all :: "(gstack \<Rightarrow> gcand list \<Rightarrow> gcand list gres) \<Rightarrow> gstack list \<Rightarrow> gcand list \<Rightarrow> gcand list gres" where
  \<comment> \<open>\<open>llama_grammar_reject_candidates\<close>, given the function for one stack\<close>
  "reject_all f stacks cands = (if stacks = [] then Some Aborted else if cands = [] then g_ret [] else g_fold f stacks cands)"

definition reject_ended :: "gcand list \<Rightarrow> gcand list" where
  "reject_ended cands = filter (\<lambda>c. cand_chr c \<noteq> 0 \<or> pu_n_remain (gc_partial c) \<noteq> 0) cands"

definition reject_tokens :: "grules \<Rightarrow> gpos \<Rightarrow> gcand list \<Rightarrow> gcand list" where
  "reject_tokens rules p cands = filter (\<lambda>c. if cand_chr c = 0 then pu_n_remain (gc_partial c) \<noteq> 0
     else match_token rules p (gc_id c) \<noteq> Some True) cands"

definition split_cand :: "grules \<Rightarrow> gpos \<Rightarrow> gcand \<Rightarrow> gcand list \<times> gcand list \<Rightarrow> (gcand list \<times> gcand list) gres" where
  \<comment> \<open>rejects and next candidates\<close>
  "split_cand rules p c = (\<lambda>(rejects, next_cands).
     if cand_chr c = 0
     then if pu_n_remain (gc_partial c) \<noteq> 0
          then case match_partial_char rules p (gc_partial c) of None \<Rightarrow> Some Aborted
               | Some m \<Rightarrow> g_ret (if \<not> m then rejects @ [c] else rejects, next_cands)
          else g_ret (rejects, next_cands)
     else case match_char rules p (cand_chr c) of None \<Rightarrow> Some Aborted
       | Some (m, _) \<Rightarrow> g_ret (if m then (rejects, next_cands @ [c\<lparr>gc_at := gc_at c + 1\<rparr>]) else (rejects @ [c], next_cands)))"

fun reject_stack :: "nat \<Rightarrow> grules \<Rightarrow> gstack \<Rightarrow> gcand list \<Rightarrow> gcand list gres" where
  \<comment> \<open>\<open>llama_grammar_reject_candidates_for_stack\<close>; the first argument bounds the depth\<close>
  "reject_stack 0 rules s cands = None"
| "reject_stack (Suc d) rules s cands = (case s of [] \<Rightarrow> g_ret (reject_ended cands)
     | p # ps \<Rightarrow>
         if is_token_type (type_at rules p) then g_ret (reject_tokens rules p cands)
         else g_bind (g_fold (split_cand rules p) cands ([], [])) (\<lambda>(rejects, next_cands).
           case match_char rules p 0 of None \<Rightarrow> Some Aborted
           | Some (_, after) \<Rightarrow>
               g_bind (advance_stack rules (push_pos rules after ps) []) (\<lambda>next_stacks.
               g_bind (reject_all (\<lambda>s cs. reject_stack d rules s cs) next_stacks next_cands) (\<lambda>next_rejects.
               g_ret (rejects @ map (\<lambda>c. c\<lparr>gc_at := gc_at c - 1\<rparr>) next_rejects)))))"

definition reject_candidates :: "grules \<Rightarrow> gstack list \<Rightarrow> gcand list \<Rightarrow> gcand list gres" where
  "reject_candidates rules stacks cands =
     reject_all (reject_stack (Suc (Max (insert 0 ((\<lambda>c. length (gc_cps c)) ` set cands)))) rules) stacks cands"

subsection \<open>Building a grammar\<close>

record lr_state =
  lr_visited :: "bool list"
  lr_in_progress :: "bool list"
  lr_may_be_empty :: "bool list"

fun has_empty_alt :: "bool \<Rightarrow> gelem list \<Rightarrow> bool" where
  \<comment> \<open>the first loop, with \<open>at_rule_start\<close>\<close>
  "has_empty_alt start [] = False"
| "has_empty_alt start (e # es) = (if ge_type e = GT_END \<or> ge_type e = GT_ALT then start \<or> has_empty_alt True es else has_empty_alt False es)"

fun detect_left_recursion :: "nat \<Rightarrow> grules \<Rightarrow> nat \<Rightarrow> lr_state \<Rightarrow> (bool \<times> lr_state) option"
  and detect_elems :: "nat \<Rightarrow> grules \<Rightarrow> gelem list \<Rightarrow> bool \<Rightarrow> lr_state \<Rightarrow> (bool \<times> lr_state) option" where
  \<comment> \<open>the first argument bounds the depth of the calls; the second function is the second loop\<close>
  "detect_left_recursion 0 rules r st = None"
| "detect_left_recursion (Suc d) rules r st =
     (if lr_in_progress st ! r then Some (True, st)
      else let st = st\<lparr>lr_in_progress := (lr_in_progress st)[r := True]\<rparr>;
               st = (if has_empty_alt True (rules ! r) then st\<lparr>lr_may_be_empty := (lr_may_be_empty st)[r := True]\<rparr> else st)
           in case detect_elems d rules (rules ! r) True st of None \<Rightarrow> None
              | Some (True, st) \<Rightarrow> Some (True, st)
              | Some (False, st) \<Rightarrow> Some (False, st\<lparr>lr_in_progress := (lr_in_progress st)[r := False], lr_visited := (lr_visited st)[r := True]\<rparr>))"
| "detect_elems d rules [] recurse st = Some (False, st)"
| "detect_elems d rules (e # es) recurse st =
     (if ge_type e = GT_RULE_REF \<and> recurse
      then case detect_left_recursion d rules (ge_value e) st of None \<Rightarrow> None
           | Some (True, st) \<Rightarrow> Some (True, st)
           | Some (False, st) \<Rightarrow> detect_elems d rules es (lr_may_be_empty st ! ge_value e) st
      else detect_elems d rules es (ge_type e = GT_END \<or> ge_type e = GT_ALT) st)"

fun detect_all :: "grules \<Rightarrow> nat list \<Rightarrow> lr_state \<Rightarrow> bool option" where
  "detect_all rules [] st = Some False"
| "detect_all rules (r # rs) st = (if lr_visited st ! r then detect_all rules rs st
     else case detect_left_recursion (Suc (length rules)) rules r st of None \<Rightarrow> None
       | Some (True, st) \<Rightarrow> Some True | Some (False, st) \<Rightarrow> detect_all rules rs st)"

definition left_recursive :: "grules \<Rightarrow> bool option" where
  "left_recursive rules = (let no = replicate (length rules) False in
     detect_all rules [0..<length rules] \<lparr>lr_visited = no, lr_in_progress = no, lr_may_be_empty = no\<rparr>)"

definition refs_defined :: "grules \<Rightarrow> bool" where
  "refs_defined rules \<longleftrightarrow> (\<forall>rule \<in> set rules. \<forall>e \<in> set rule. ge_type e = GT_RULE_REF \<longrightarrow> ge_value e < length rules \<and> rules ! ge_value e \<noteq> [])"

definition copy_rule :: "gelem list \<Rightarrow> gelem list" where
  "copy_rule rule = takeWhile (\<lambda>e. ge_type e \<noteq> GT_END) rule @ [\<lparr>ge_type = GT_END, ge_value = 0\<rparr>]"

definition start_stacks :: "grules \<Rightarrow> nat \<Rightarrow> gstack list gres" where
  "start_stacks rules start = g_fold (\<lambda>p. advance_stack rules (push_pos rules p [])) (alternates rules start) []"

record grammar =
  gm_rules :: grules
  gm_stacks :: "gstack list"
  gm_partial :: partial_utf8
  gm_awaiting_trigger :: bool
  gm_trigger_buffer :: "8 word list"
  gm_trigger_positions :: "(llama_token \<times> nat \<times> nat) list"
  gm_trigger_tokens :: "llama_token list"

definition grammar_init :: "grules \<Rightarrow> nat \<Rightarrow> grammar option gres" where
  \<comment> \<open>\<open>Done None\<close> for a null pointer\<close>
  "grammar_init rules start =
     (let rules = map copy_rule rules in
      if \<not> refs_defined rules then g_ret None
      else case left_recursive rules of None \<Rightarrow> None
        | Some True \<Rightarrow> g_ret None
        | Some False \<Rightarrow> g_bind (start_stacks rules start) (\<lambda>stacks. g_ret (Some
            \<lparr>gm_rules = rules, gm_stacks = stacks, gm_partial = \<lparr>pu_value = 0, pu_n_remain = 0\<rparr>, gm_awaiting_trigger = False,
             gm_trigger_buffer = [], gm_trigger_positions = [], gm_trigger_tokens = []\<rparr>)))"

subsection \<open>The operations of a grammar\<close>

definition grammar_accept :: "nat \<Rightarrow> grammar \<Rightarrow> grammar gres" where
  "grammar_accept chr g = g_bind (accept_stacks (gm_rules g) chr (gm_stacks g)) (\<lambda>st. g_ret (g\<lparr>gm_stacks := st\<rparr>))"

definition grammar_accept_str :: "8 word list \<Rightarrow> grammar \<Rightarrow> (bool \<times> grammar) gres" where
  \<comment> \<open>the first component says whether an exception is thrown at the end\<close>
  "grammar_accept_str piece g = (case decode_utf8 piece (gm_partial g) of (cps, pu) \<Rightarrow>
     g_bind (g_fold grammar_accept (butlast cps) g) (\<lambda>g. let g = g\<lparr>gm_partial := pu\<rparr> in g_ret (gm_stacks g = [], g)))"

fun accept_cps :: "grules \<Rightarrow> nat list \<Rightarrow> gstack list \<Rightarrow> gstack list gres" where
  \<comment> \<open>the code points of a piece, from \<open>current_stacks\<close> on\<close>
  "accept_cps rules [] current = g_ret current"
| "accept_cps rules (c # cs) current = g_bind (accept_stacks rules c current) (\<lambda>next_stacks.
     if next_stacks = [] then g_ret [] else accept_cps rules cs next_stacks)"

definition accept_token_stack :: "grules \<Rightarrow> llama_token \<Rightarrow> nat list \<Rightarrow> gstack \<Rightarrow> gstack list \<Rightarrow> gstack list gres" where
  "accept_token_stack rules tok cps s new = (case s of [] \<Rightarrow> g_ret new
     | p # ps \<Rightarrow>
         if is_token_type (type_at rules p)
         then if match_token rules p tok = Some True then advance_stack rules (push_pos rules (pos_add p 1) ps) new else g_ret new
         else g_bind (accept_cps rules cps [s]) (\<lambda>current. g_ret (fold add_stack current new)))"

definition grammar_accept_token :: "llama_token \<Rightarrow> 8 word list \<Rightarrow> grammar \<Rightarrow> (bool \<times> grammar) gres" where
  "grammar_accept_token tok piece g = (case decode_utf8 piece (gm_partial g) of (cps, pu) \<Rightarrow>
     g_bind (g_fold (accept_token_stack (gm_rules g) tok (butlast cps)) (gm_stacks g) []) (\<lambda>st.
     g_ret (st = [], g\<lparr>gm_stacks := st, gm_partial := pu\<rparr>)))"


record token_data =
  td_id :: llama_token
  td_logit :: "32 word" \<comment> \<open>the bits of a \<open>float\<close>\<close>

definition neg_infinity :: "32 word" where
  "neg_infinity = 0xFF800000"

definition mask_token :: "nat \<Rightarrow> token_data list \<Rightarrow> token_data list" where
  "mask_token i data = data[i := (data ! i)\<lparr>td_logit := neg_infinity\<rparr>]"

definition apply_token :: "(llama_token \<Rightarrow> 8 word list) \<Rightarrow> (llama_token \<Rightarrow> bool) \<Rightarrow> bool \<Rightarrow> partial_utf8 \<Rightarrow> nat \<Rightarrow>
    token_data list \<times> gcand list \<Rightarrow> token_data list \<times> gcand list" where
  "apply_token token_to_piece is_eog allow_eog pu i = (\<lambda>(data, cands).
     let tok = td_id (data ! i); piece = token_to_piece tok in
     if is_eog tok then (if \<not> allow_eog then mask_token i data else data, cands)
     else if piece = [] \<or> piece ! 0 = 0 then (mask_token i data, cands)
     else case decode_utf8 piece pu of (cps, pu) \<Rightarrow>
       (data, cands @ [\<lparr>gc_index = i, gc_cps = cps, gc_at = 0, gc_partial = pu, gc_id = tok\<rparr>]))"

definition grammar_apply :: "(llama_token \<Rightarrow> 8 word list) \<Rightarrow> (llama_token \<Rightarrow> bool) \<Rightarrow> grammar \<Rightarrow> token_data list \<Rightarrow> token_data list gres" where
  "grammar_apply token_to_piece is_eog g data =
     (if gm_awaiting_trigger g then g_ret data
      else case fold (apply_token token_to_piece is_eog ([] \<in> set (gm_stacks g)) (gm_partial g)) [0..<length data] (data, []) of
        (data, cands) \<Rightarrow> g_bind (reject_candidates (gm_rules g) (gm_stacks g) cands) (\<lambda>rejects.
          g_ret (fold (\<lambda>c. mask_token (gc_index c)) rejects data)))"

fun replay_tokens :: "nat \<Rightarrow> (llama_token \<times> nat \<times> nat) list \<Rightarrow> grammar \<Rightarrow> (bool \<times> grammar) gres" where
  \<comment> \<open>the buffered tokens that reach past \<open>start\<close>\<close>
  "replay_tokens start [] g = g_ret (False, g)"
| "replay_tokens start ((tok, tok_start, tok_end) # ts) g =
     (if tok_end \<le> start then replay_tokens start ts g
      else let piece_start = (if tok_start < start then start else tok_start) in
        g_bind (grammar_accept_token tok (take (tok_end - piece_start) (drop piece_start (gm_trigger_buffer g))) g) (\<lambda>(threw, g).
          if threw then g_ret (True, g) else replay_tokens start ts g))"

fun find_trigger :: "('p \<Rightarrow> 8 word list \<Rightarrow> nat option) \<Rightarrow> 'p list \<Rightarrow> 8 word list \<Rightarrow> nat option" where
  "find_trigger find_in [] buf = None"
| "find_trigger find_in (pt # pts) buf = (case find_in pt buf of None \<Rightarrow> find_trigger find_in pts buf | Some start \<Rightarrow> Some start)"

definition grammar_accept_impl :: "(llama_token \<Rightarrow> 8 word list) \<Rightarrow> (llama_token \<Rightarrow> bool) \<Rightarrow> ('p \<Rightarrow> 8 word list \<Rightarrow> nat option) \<Rightarrow> 'p list \<Rightarrow>
    llama_token \<Rightarrow> grammar \<Rightarrow> (bool \<times> grammar) gres" where
  "grammar_accept_impl token_to_piece is_eog find_in patterns tok g =
     (let piece = token_to_piece tok in
      if gm_awaiting_trigger g
      then if tok \<in> set (gm_trigger_tokens g)
        then grammar_accept_token tok piece (g\<lparr>gm_awaiting_trigger := False, gm_trigger_buffer := []\<rparr>)
        else let n = length (gm_trigger_buffer g);
                 g = g\<lparr>gm_trigger_positions := gm_trigger_positions g @ [(tok, n, n + length piece)], gm_trigger_buffer := gm_trigger_buffer g @ piece\<rparr>
          in case find_trigger find_in patterns (gm_trigger_buffer g) of
               None \<Rightarrow> g_ret (False, g)
             | Some start \<Rightarrow> g_bind (replay_tokens start (gm_trigger_positions g) (g\<lparr>gm_awaiting_trigger := False\<rparr>)) (\<lambda>(threw, g).
                 g_ret (if threw then (True, g) else (False, g\<lparr>gm_trigger_buffer := [], gm_trigger_positions := []\<rparr>)))
      else if is_eog tok then (if [] \<in> set (gm_stacks g) then g_ret (False, g) else Some Aborted)
      else grammar_accept_token tok piece g)"

end
