(* ===== verification/GrammarLang.thy ===== *)
theory GrammarLang
  imports Grammar
begin

text \<open>
  What the stacks of a grammar mean. The first part says which rules and pointers are well formed and that
  matching and expanding keep pointers at the beginning of an element. The second gives the language of a
  rule by derivations, independent of the stacks, and shows that the stacks after a text derive exactly
  what may follow it.
\<close>

subsection \<open>Well-formed rules\<close>

definition may_follow :: "gretype \<Rightarrow> gretype \<Rightarrow> bool" where
  \<comment> \<open>the rest of a character class comes after its beginning\<close>
  "may_follow prev t \<longleftrightarrow> (t = GT_CHAR_RNG_UPPER \<longrightarrow> prev \<in> {GT_CHAR, GT_CHAR_NOT, GT_CHAR_ALT}) \<and>
     (t = GT_CHAR_ALT \<longrightarrow> prev \<in> {GT_CHAR, GT_CHAR_NOT, GT_CHAR_ALT, GT_CHAR_RNG_UPPER})"

fun chain_ok :: "gretype \<Rightarrow> gelem list \<Rightarrow> bool" where
  \<comment> \<open>the rest of a rule after an element of type \<open>prev\<close>\<close>
  "chain_ok prev [] = False"
| "chain_ok prev (e # es) = (may_follow prev (ge_type e) \<and> (if ge_type e = GT_END then es = [] else chain_ok (ge_type e) es))"

definition rules_wf :: "grules \<Rightarrow> bool" where
  "rules_wf rules \<longleftrightarrow> (\<forall>rule \<in> set rules. chain_ok GT_END rule \<and> (\<forall>e \<in> set rule. ge_type e = GT_RULE_REF \<longrightarrow> ge_value e < length rules))"

definition pos_ok :: "grules \<Rightarrow> gpos \<Rightarrow> bool" where
  \<comment> \<open>a pointer into a rule, not into the middle of a character class\<close>
  "pos_ok rules p \<longleftrightarrow> fst p < length rules \<and> snd p < length (rules ! fst p) \<and>
     type_at rules p \<noteq> GT_CHAR_RNG_UPPER \<and> type_at rules p \<noteq> GT_CHAR_ALT"

definition stack_ok :: "grules \<Rightarrow> gstack \<Rightarrow> bool" where
  "stack_ok rules s \<longleftrightarrow> (\<forall>p \<in> set s. pos_ok rules p \<and> \<not> is_end_of_sequence rules p)"

lemma chain_ok_drop:
  "chain_ok prev es \<Longrightarrow> i < length es \<Longrightarrow> \<exists>prev'. chain_ok prev' (drop i es) \<and> (0 < i \<longrightarrow> prev' = ge_type (es ! (i - 1)) \<and> prev' \<noteq> GT_END)"
proof (induction es arbitrary: prev i)
  case (Cons e es)
  show ?case
  proof (cases i)
    case 0 then show ?thesis using Cons.prems(1) by auto
  next
    case (Suc j)
    then have ne: "ge_type e \<noteq> GT_END" "chain_ok (ge_type e) es" "j < length es" using Cons.prems by (auto split: if_splits)
    show ?thesis
    proof (cases j)
      case 0 then show ?thesis using ne Suc by auto
    next
      case (Suc k)
      then show ?thesis using Cons.IH [OF ne(2,3)] \<open>i = Suc j\<close> by auto
    qed
  qed
qed simp

lemma rules_wf_chain:
  assumes "rules_wf rules" "fst p < length rules" "snd p < length (rules ! fst p)"
  shows "\<exists>prev. chain_ok prev (drop (snd p) (rules ! fst p)) \<and> (0 < snd p \<longrightarrow> prev = type_at rules (fst p, snd p - 1) \<and> prev \<noteq> GT_END) \<and> (snd p = 0 \<longrightarrow> prev = GT_END)"
proof -
  have "chain_ok GT_END (rules ! fst p)" using assms(1,2) by (simp add: rules_wf_def)
  then show ?thesis using chain_ok_drop [of GT_END "rules ! fst p" "snd p"] assms(3)
    by (cases "snd p") (auto simp: elem_at_def)
qed

lemma match_loop_end:
  assumes "match_loop first es chr f n = (f', n')" "chain_ok prev es"
    and "first \<longrightarrow> ge_type (hd es) \<notin> {GT_END, GT_CHAR_RNG_UPPER}" "\<not> first \<longrightarrow> ge_type (hd es) \<noteq> GT_CHAR_RNG_UPPER"
  shows "n \<le> n' \<and> n' - n < length es \<and> ge_type (es ! (n' - n)) \<notin> {GT_CHAR_RNG_UPPER, GT_CHAR_ALT} \<and> (first \<longrightarrow> n < n')"
  using assms
proof (induction first es chr f n arbitrary: prev rule: match_loop.induct)
  case (1 first e u es chr f n)
  show ?case
  proof (cases "\<not> first \<and> ge_type e \<noteq> GT_CHAR_ALT")
    case True then show ?thesis using "1.prems" by auto
  next
    case False
    have ne: "ge_type e \<noteq> GT_END" using False "1.prems"(3) by auto
    then have c: "chain_ok (ge_type e) (u # es)" using "1.prems"(2) by simp
    show ?thesis
    proof (cases "ge_type u = GT_CHAR_RNG_UPPER")
      case True
      then have c2: "chain_ok GT_CHAR_RNG_UPPER es" using c by simp
      then obtain x xs where es: "es = x # xs" by (cases es) auto
      have "ge_type (hd es) \<noteq> GT_CHAR_RNG_UPPER" using c2 es by (auto simp: may_follow_def)
      moreover have "match_loop False es chr (f \<or> (ge_value e \<le> chr \<and> chr \<le> ge_value u)) (n + 2) = (f', n')"
        using "1.prems"(1) False True by simp
      ultimately have "n + 2 \<le> n' \<and> n' - (n + 2) < length es \<and> ge_type (es ! (n' - (n + 2))) \<notin> {GT_CHAR_RNG_UPPER, GT_CHAR_ALT}"
        using "1.IH"(1) [OF False True _ c2] by simp
      moreover have "(e # u # es) ! (n' - n) = es ! (n' - (n + 2))" if "n + 2 \<le> n'"
      proof -
        have "n' - n = Suc (Suc (n' - (n + 2)))" using that by simp
        then show ?thesis by simp
      qed
      ultimately show ?thesis by auto
    next
      case nr: False
      define f2 where "f2 = (if ge_type e = GT_CHAR_ANY then True else f \<or> ge_value e = chr)"
      have m: "match_loop False (u # es) chr f2 (n + 1) = (f', n')"
        using "1.prems"(1) False nr by (cases "ge_type e = GT_CHAR_ANY") (simp_all add: f2_def)
      have "n + 1 \<le> n' \<and> n' - (n + 1) < length (u # es) \<and> ge_type ((u # es) ! (n' - (n + 1))) \<notin> {GT_CHAR_RNG_UPPER, GT_CHAR_ALT}"
      proof (cases "ge_type e = GT_CHAR_ANY")
        case True
        then show ?thesis using "1.IH"(2) [OF False nr True _ c] m nr by (simp add: f2_def)
      next
        case na: False
        then show ?thesis using "1.IH"(3) [OF False nr na _ c] m nr by (simp add: f2_def)
      qed
      moreover have "(e # u # es) ! (n' - n) = (u # es) ! (n' - (n + 1))" if "n + 1 \<le> n'"
      proof -
        have "n' - n = Suc (n' - (n + 1))" using that by simp
        then show ?thesis by simp
      qed
      ultimately show ?thesis by auto
    qed
  qed
qed (auto split: if_splits)

lemma match_loop_len: "snd (match_loop first es chr f n) = snd (match_loop first es chr' f2 n)"
  by (induction first es chr f n arbitrary: f2 rule: match_loop.induct) simp_all

lemma match_char_pos:
  assumes "rules_wf rules" "pos_ok rules p" "match_char rules p c = Some (b, p')"
  shows "pos_ok rules p'" "fst p' = fst p" "snd p < snd p'" "match_char rules p c' = Some (b', p'') \<Longrightarrow> p'' = p'"
proof -
  let ?es = "drop (snd p) (rules ! fst p)"
  obtain f n where m: "match_loop True ?es c False 0 = (f, n)" by fastforce
  have t: "type_at rules p \<in> {GT_CHAR, GT_CHAR_ANY, GT_CHAR_NOT}" "p' = pos_add p n"
    using assms(3) m by (auto simp: match_char_def positive_char_def split: if_splits)
  have "\<exists>prev. chain_ok prev ?es" using rules_wf_chain [OF assms(1), of p] assms(2) by (auto simp only: pos_ok_def)
  then obtain prev where c: "chain_ok prev ?es" ..
  have hd: "hd ?es = elem_at rules p" using assms(2) by (simp add: pos_ok_def elem_at_def hd_drop_conv_nth)
  have e: "n < length ?es" "ge_type (?es ! n) \<notin> {GT_CHAR_RNG_UPPER, GT_CHAR_ALT}" "0 < n"
    using match_loop_end [OF m c] t(1) hd by auto
  show "pos_ok rules p'" "fst p' = fst p" "snd p < snd p'" using e assms(2) t(2) by (auto simp: pos_ok_def pos_add_def elem_at_def)
  show "match_char rules p c' = Some (b', p'') \<Longrightarrow> p'' = p'"
    using match_loop_len [of True ?es c' False 0 c False] m t(2) by (auto simp: match_char_def split: if_splits prod.splits)
qed

lemma match_char_some:
  "type_at rules p \<in> {GT_CHAR, GT_CHAR_ANY, GT_CHAR_NOT} \<Longrightarrow> \<exists>b p'. match_char rules p c = Some (b, p')"
  by (auto simp: match_char_def positive_char_def split: prod.splits)

lemma later_alternates_pos:
  "j \<in> set (later_alternates es i) \<Longrightarrow> chain_ok prev es \<Longrightarrow> i < j \<and> j - i < length es \<and> ge_type (es ! (j - i - 1)) = GT_ALT"
proof (induction es arbitrary: i prev)
  case (Cons e es)
  have ne: "ge_type e \<noteq> GT_END" using Cons.prems(1) by (auto split: if_splits)
  then have c: "chain_ok (ge_type e) es" using Cons.prems(2) by simp
  have rec: ?case if "j \<in> set (later_alternates es (i + 1))"
  proof -
    have "i + 1 < j \<and> j - (i + 1) < length es \<and> ge_type (es ! (j - (i + 1) - 1)) = GT_ALT" by (rule Cons.IH [OF that c])
    moreover have "(e # es) ! (j - i - 1) = es ! (j - (i + 1) - 1)" if "i + 1 < j"
    proof -
      have "j - i - 1 = Suc (j - (i + 1) - 1)" using that by simp
      then show ?thesis by simp
    qed
    ultimately show ?thesis by auto
  qed
  have "es \<noteq> []" using c by auto
  show ?case
  proof (cases "ge_type e = GT_ALT \<and> j = i + 1")
    case True then show ?thesis using \<open>es \<noteq> []\<close> by simp
  next
    case False then show ?thesis using rec Cons.prems(1) ne by (auto split: if_splits)
  qed
qed simp

lemma alternates_ok:
  assumes "rules_wf rules" "r < length rules" "p \<in> set (alternates rules r)"
  shows "pos_ok rules p" "fst p = r"
proof -
  have c: "chain_ok GT_END (rules ! r)" using assms(1,2) by (simp add: rules_wf_def)
  then have ne: "rules ! r \<noteq> []" by auto
  show "fst p = r" using assms(3) by (auto simp: alternates_def)
  show "pos_ok rules p"
  proof (cases "p = (r, 0)")
    case True
    have "may_follow GT_END (ge_type (hd (rules ! r)))" using c by (cases "rules ! r") auto
    then show ?thesis using True assms(2) ne by (auto simp: pos_ok_def elem_at_def may_follow_def hd_conv_nth)
  next
    case False
    then obtain j where j: "p = (r, j)" "j \<in> set (later_alternates (rules ! r) 0)" using assms(3) by (auto simp: alternates_def)
    have l: "0 < j" "j < length (rules ! r)" "ge_type (rules ! r ! (j - 1)) = GT_ALT" using later_alternates_pos [OF j(2) c] by auto
    obtain prev where "chain_ok prev (drop j (rules ! r))" "prev = GT_ALT"
      using rules_wf_chain [of rules "(r, j)"] assms(1,2) l by (auto simp: elem_at_def)
    then have "may_follow GT_ALT (ge_type (rules ! r ! j))" using l(2) by (simp add: Cons_nth_drop_Suc [symmetric])
    then show ?thesis using l(2) assms(2) j(1) by (auto simp: pos_ok_def elem_at_def may_follow_def)
  qed
qed

lemma next_pos_ok:
  assumes "rules_wf rules" "pos_ok rules p" "type_at rules p \<in> {GT_RULE_REF, GT_TOKEN, GT_TOKEN_NOT}"
  shows "pos_ok rules (pos_add p 1)"
proof -
  have "\<exists>prev. chain_ok prev (drop (snd p) (rules ! fst p))" using rules_wf_chain [OF assms(1), of p] assms(2) by (auto simp only: pos_ok_def)
  then obtain prev where c: "chain_ok prev (drop (snd p) (rules ! fst p))" ..
  have d: "drop (snd p) (rules ! fst p) = elem_at rules p # drop (Suc (snd p)) (rules ! fst p)"
    using assms(2) by (simp add: pos_ok_def elem_at_def Cons_nth_drop_Suc)
  then have c2: "chain_ok (type_at rules p) (drop (Suc (snd p)) (rules ! fst p))" using c assms(3) by auto
  then have l: "Suc (snd p) < length (rules ! fst p)" by (cases "Suc (snd p) < length (rules ! fst p)") auto
  then have "may_follow (type_at rules p) (ge_type (rules ! fst p ! Suc (snd p)))"
    using c2 by (simp add: Cons_nth_drop_Suc [symmetric])
  then show ?thesis using l assms(2,3) by (auto simp: pos_ok_def pos_add_def elem_at_def may_follow_def)
qed

lemma push_ok: "pos_ok rules p \<Longrightarrow> stack_ok rules s \<Longrightarrow> stack_ok rules (push_pos rules p s)"
  by (simp add: push_pos_def stack_ok_def)

lemma stack_okD: "stack_ok rules (p # s) \<Longrightarrow> pos_ok rules p \<and> \<not> is_end_of_sequence rules p \<and> stack_ok rules s"
  by (simp add: stack_ok_def)

lemma expand_ok:
  assumes "rules_wf rules" "stack_ok rules (p # s)" "type_at rules p = GT_RULE_REF" "t \<in> set (expand_ref rules p s)"
  shows "stack_ok rules t"
proof -
  note k = stack_okD [OF assms(2)]
  have "elem_at rules p \<in> set (rules ! fst p)" using k by (simp add: pos_ok_def elem_at_def)
  then have "ge_value (elem_at rules p) < length rules" using assms(1,3) k by (auto simp: rules_wf_def pos_ok_def)
  moreover have "pos_ok rules (pos_add p 1)" using next_pos_ok [OF assms(1)] k assms(3) by simp
  ultimately show ?thesis
    using assms(4) k alternates_ok [OF assms(1)] by (auto simp: expand_ref_def simp del: One_nat_def intro!: push_ok)
qed

subsection \<open>The language of a grammar\<close>

inductive derives :: "grules \<Rightarrow> gpos \<Rightarrow> nat list \<Rightarrow> bool" for rules where
  \<comment> \<open>the code points from an element to the end of its alternative\<close>
  d_end: "is_end_of_sequence rules p \<Longrightarrow> derives rules p []"
| d_char: "match_char rules p c = Some (True, p') \<Longrightarrow> derives rules p' w \<Longrightarrow> derives rules p (c # w)"
| d_ref: "type_at rules p = GT_RULE_REF \<Longrightarrow> sub \<in> set (alternates rules (ge_value (elem_at rules p))) \<Longrightarrow>
    derives rules sub u \<Longrightarrow> derives rules (pos_add p 1) v \<Longrightarrow> derives rules p (u @ v)"

definition rule_derives :: "grules \<Rightarrow> nat \<Rightarrow> nat list \<Rightarrow> bool" where
  "rule_derives rules r w \<longleftrightarrow> (\<exists>sub \<in> set (alternates rules r). derives rules sub w)"

fun stack_derives :: "grules \<Rightarrow> gstack \<Rightarrow> nat list \<Rightarrow> bool" where
  "stack_derives rules [] w = (w = [])"
| "stack_derives rules (p # s) w = (\<exists>u v. w = u @ v \<and> derives rules p u \<and> stack_derives rules s v)"

definition gstep :: "grules \<Rightarrow> gstack \<Rightarrow> gstack \<Rightarrow> bool" where
  "gstep rules s t \<longleftrightarrow> (\<exists>p ps. s = p # ps \<and> type_at rules p = GT_RULE_REF \<and> t \<in> set (expand_ref rules p ps))"

definition final :: "grules \<Rightarrow> gstack \<Rightarrow> bool" where
  "final rules s \<longleftrightarrow> (case s of [] \<Rightarrow> True | p # _ \<Rightarrow> is_terminal (type_at rules p))"

inductive runs :: "grules \<Rightarrow> gstack \<Rightarrow> nat list \<Rightarrow> bool" for rules where
  r_empty: "runs rules [] []"
| r_char: "match_char rules p c = Some (True, p') \<Longrightarrow> runs rules (push_pos rules p' s) w \<Longrightarrow> runs rules (p # s) (c # w)"
| r_ref: "gstep rules s t \<Longrightarrow> runs rules t w \<Longrightarrow> runs rules s w"

lemma match_char_type:
  "match_char rules p c = Some r \<Longrightarrow> type_at rules p \<in> {GT_CHAR, GT_CHAR_ANY, GT_CHAR_NOT}"
  by (auto simp: match_char_def positive_char_def split: if_splits)

lemma char_not_end: "match_char rules p c = Some r \<Longrightarrow> push_pos rules p s = p # s"
  using match_char_type [of rules p c r] by (auto simp: push_pos_def is_end_of_sequence_def)

lemma ref_not_end: "type_at rules p = GT_RULE_REF \<Longrightarrow> push_pos rules p s = p # s"
  by (simp add: push_pos_def is_end_of_sequence_def)

lemma push_append: "push_pos rules p (s @ t) = push_pos rules p s @ t"
  by (simp add: push_pos_def)

lemma expand_append: "expand_ref rules p (s @ t) = map (\<lambda>x. x @ t) (expand_ref rules p s)"
  by (simp add: expand_ref_def push_append)

lemma end_type: "is_end_of_sequence rules p \<Longrightarrow> type_at rules p \<in> {GT_END, GT_ALT}"
  by (auto simp: is_end_of_sequence_def)

lemma derives_end: "is_end_of_sequence rules p \<Longrightarrow> derives rules p w \<longleftrightarrow> w = []"
proof
  assume e: "is_end_of_sequence rules p" and "derives rules p w"
  from this(2) show "w = []"
  proof (cases rule: derives.cases)
    case (d_char c p' w) then show ?thesis using match_char_type [OF d_char(2)] end_type [OF e] by auto
  next
    case (d_ref sub u v) then show ?thesis using end_type [OF e] by auto
  qed
qed (simp add: d_end)

lemma push_derives:
  "stack_derives rules (push_pos rules p s) w \<longleftrightarrow> (\<exists>u v. w = u @ v \<and> derives rules p u \<and> stack_derives rules s v)"
  by (simp add: push_pos_def derives_end)

lemma expand_mem:
  "t \<in> set (expand_ref rules p s) \<longleftrightarrow>
     (\<exists>sub \<in> set (alternates rules (ge_value (elem_at rules p))). t = push_pos rules sub (push_pos rules (pos_add p 1) s))"
  by (auto simp: expand_ref_def)

lemma derives_runs: "derives rules p u \<Longrightarrow> runs rules s v \<Longrightarrow> runs rules (push_pos rules p s) (u @ v)"
proof (induction arbitrary: s v rule: derives.induct)
  case (d_end p) then show ?case by (simp add: push_pos_def)
next
  case (d_char p c p' w)
  then show ?case using r_char [OF d_char.hyps(1) d_char.IH [OF d_char.prems]] by (simp add: char_not_end)
next
  case (d_ref p sub u v' s v)
  have "runs rules (push_pos rules sub (push_pos rules (pos_add p 1) s)) (u @ v' @ v)"
    by (rule d_ref.IH(1) [OF d_ref.IH(2) [OF d_ref.prems]])
  moreover have "gstep rules (p # s) (push_pos rules sub (push_pos rules (pos_add p 1) s))"
    using d_ref.hyps(1,2) by (auto simp: gstep_def expand_mem)
  ultimately show ?case using d_ref.hyps(1) by (simp add: ref_not_end r_ref)
qed

lemma stack_derives_runs: "stack_derives rules s w \<Longrightarrow> \<forall>p \<in> set s. \<not> is_end_of_sequence rules p \<Longrightarrow> runs rules s w"
proof (induction s arbitrary: w)
  case Nil then show ?case by (simp add: r_empty)
next
  case (Cons p s)
  then obtain u v where w: "w = u @ v" "derives rules p u" "runs rules s v" by auto
  show ?case using derives_runs [OF w(2,3)] w(1) Cons.prems(2) by (simp add: push_pos_def)
qed

lemma runs_stack_derives: "runs rules s w \<Longrightarrow> stack_derives rules s w"
proof (induction rule: runs.induct)
  case (r_char p c p' s w)
  then obtain u v where "w = u @ v" "derives rules p' u" "stack_derives rules s v" by (auto simp: push_derives)
  then have "c # w = (c # u) @ v \<and> derives rules p (c # u) \<and> stack_derives rules s v" using d_char [OF r_char.hyps(1)] by simp
  then show ?case unfolding stack_derives.simps by blast
next
  case (r_ref s t w)
  then obtain p ps sub where s: "s = p # ps" "type_at rules p = GT_RULE_REF" "sub \<in> set (alternates rules (ge_value (elem_at rules p)))"
    "t = push_pos rules sub (push_pos rules (pos_add p 1) ps)" by (auto simp: gstep_def expand_mem)
  then obtain u v x where w: "w = u @ v @ x" "derives rules sub u" "derives rules (pos_add p 1) v" "stack_derives rules ps x"
    using r_ref.IH by (auto simp: push_derives)
  have "derives rules p (u @ v)" by (rule d_ref [OF s(2,3) w(2,3)])
  then have "\<exists>y z. w = y @ z \<and> derives rules p y \<and> stack_derives rules ps z" using w(1,4) by (intro exI [of _ "u @ v"] exI [of _ x]) simp
  then show ?case using s(1) by simp
qed simp

lemma push_single: "stack_derives rules (push_pos rules p []) w \<longleftrightarrow> derives rules p w"
  by (simp add: push_derives)


subsection \<open>What the loop over the stacks computes\<close>

abbreviation reach :: "grules \<Rightarrow> gstack \<Rightarrow> gstack \<Rightarrow> bool" where
  "reach rules \<equiv> (gstep rules)\<^sup>*\<^sup>*"

lemma set_add_stack: "set (add_stack s new) = insert s (set new)"
  by (auto simp: add_stack_def)

lemma final_no_step: "final rules s \<Longrightarrow> \<not> gstep rules s t"
  by (auto simp: final_def gstep_def is_terminal_def split: list.splits)

lemma ref_not_terminal: "type_at rules p = GT_RULE_REF \<Longrightarrow> \<not> is_terminal (type_at rules p)"
  by (simp add: is_terminal_def)

definition loop_post :: "grules \<Rightarrow> gstack list \<Rightarrow> gstack set \<Rightarrow> gstack list \<Rightarrow> gstack list \<Rightarrow> gstack set \<Rightarrow> bool" where
  \<comment> \<open>\<open>all\<close> is \<open>seen\<close> at the end\<close>
  "loop_post rules todo seen new r all \<longleftrightarrow> finite all \<and> seen \<union> set todo \<subseteq> all \<and> (\<forall>s t. s \<in> all \<longrightarrow> s \<notin> seen \<longrightarrow> gstep rules s t \<longrightarrow> t \<in> all) \<and>
     set r = set new \<union> {t \<in> all. t \<notin> seen \<and> final rules t} \<and> (\<forall>t \<in> all. t \<in> seen \<or> (\<exists>s \<in> set todo. reach rules s t))"

lemma loop_postD:
  assumes "loop_post rules todo seen new r all"
  shows "finite all" "seen \<union> set todo \<subseteq> all" "\<And>s t. s \<in> all \<Longrightarrow> s \<notin> seen \<Longrightarrow> gstep rules s t \<Longrightarrow> t \<in> all"
    "set r = set new \<union> {t \<in> all. t \<notin> seen \<and> final rules t}" "\<And>t. t \<in> all \<Longrightarrow> t \<in> seen \<or> (\<exists>s \<in> set todo. reach rules s t)"
  using assms unfolding loop_post_def by (elim conjE, (blast | assumption))+

lemma loop_postI:
  "finite all \<Longrightarrow> seen \<union> set todo \<subseteq> all \<Longrightarrow> (\<And>s t. s \<in> all \<Longrightarrow> s \<notin> seen \<Longrightarrow> gstep rules s t \<Longrightarrow> t \<in> all) \<Longrightarrow>
   set r = set new \<union> {t \<in> all. t \<notin> seen \<and> final rules t} \<Longrightarrow> (\<And>t. t \<in> all \<Longrightarrow> t \<in> seen \<or> (\<exists>s \<in> set todo. reach rules s t)) \<Longrightarrow>
   loop_post rules todo seen new r all"
  unfolding loop_post_def by blast

lemma post_nil: "finite seen \<Longrightarrow> loop_post rules [] seen new new seen"
  by (auto simp: loop_post_def)

lemma post_seen: "s \<in> seen \<Longrightarrow> loop_post rules todo seen new r all \<Longrightarrow> loop_post rules (s # todo) seen new r all"
  unfolding loop_post_def by auto

lemma post_final:
  assumes "s \<notin> seen" "final rules s" "loop_post rules todo (insert s seen) (add_stack s new) r all"
  shows "loop_post rules (s # todo) seen new r all"
proof (rule loop_postI)
  note h = loop_postD [OF assms(3)]
  show "finite all" by (rule h(1))
  show "seen \<union> set (s # todo) \<subseteq> all" using h(2) by auto
  show "t \<in> all" if "x \<in> all" "x \<notin> seen" "gstep rules x t" for x t
    using h(3) [of x t] that final_no_step [OF assms(2), of t] by (cases "x = s") auto
  show "set r = set new \<union> {t \<in> all. t \<notin> seen \<and> final rules t}" using h(2,4) assms(1,2) by (auto simp: set_add_stack)
  show "t \<in> seen \<or> (\<exists>x \<in> set (s # todo). reach rules x t)" if "t \<in> all" for t using h(5) [OF that] by auto
qed

lemma post_ref:
  assumes "p # ps \<notin> seen" "type_at rules p = GT_RULE_REF" "loop_post rules (rev (expand_ref rules p ps) @ todo) (insert (p # ps) seen) new r all"
  shows "loop_post rules ((p # ps) # todo) seen new r all"
proof (rule loop_postI)
  have e: "gstep rules (p # ps) t \<longleftrightarrow> t \<in> set (expand_ref rules p ps)" for t using assms(2) by (simp add: gstep_def)
  have nf: "\<not> final rules (p # ps)" using assms(2) by (simp add: final_def is_terminal_def)
  have r: "reach rules (p # ps) t" if "s \<in> set (expand_ref rules p ps)" "reach rules s t" for s t
    using that e by (meson converse_rtranclp_into_rtranclp)
  note h = loop_postD [OF assms(3)]
  show "finite all" by (rule h(1))
  show "seen \<union> set ((p # ps) # todo) \<subseteq> all" using h(2) by auto
  show "t \<in> all" if "x \<in> all" "x \<notin> seen" "gstep rules x t" for x t
    using h(3) [of x t] that h(2) e by (cases "x = p # ps") auto
  show "set r = set new \<union> {t \<in> all. t \<notin> seen \<and> final rules t}"
  proof -
    have "{t \<in> all. t \<notin> insert (p # ps) seen \<and> final rules t} = {t \<in> all. t \<notin> seen \<and> final rules t}" using nf by blast
    then show ?thesis using h(4) by simp
  qed
  show "t \<in> seen \<or> (\<exists>x \<in> set ((p # ps) # todo). reach rules x t)" if "t \<in> all" for t using h(5) [OF that] r by auto
qed

lemma advance_loop_post:
  assumes "advance_loop rules todo seen new = Some y"
  shows "\<forall>r. y = Done r \<longrightarrow> finite seen \<longrightarrow> (\<exists>all. loop_post rules todo seen new r all)"
proof (rule advance_loop.raw_induct [OF _ assms], intro allI impI)
  fix f rules todo seen new y r
  assume IH0: "\<And>rules todo seen new y. f rules todo seen new = Some y \<Longrightarrow> \<forall>r. y = Done r \<longrightarrow> finite seen \<longrightarrow> (\<exists>all. loop_post rules todo seen new r all)"
    and y: "(case todo of [] \<Rightarrow> g_ret new
     | s # todo \<Rightarrow> if s \<in> seen then f rules todo seen new
         else case s of [] \<Rightarrow> f rules todo (insert s seen) (add_stack s new)
           | p # ps \<Rightarrow> if type_at rules p = GT_RULE_REF then f rules (rev (expand_ref rules p ps) @ todo) (insert s seen) new
               else if is_terminal (type_at rules p) then f rules todo (insert s seen) (add_stack s new) else Some Aborted) = Some y"
    and r: "y = Done r" "finite seen"
  have IH: "\<exists>all. loop_post rules todo seen new r all" if "f rules todo seen new = Some y" "y = Done r" "finite seen" for rules todo seen new y r
    using IH0 [OF that(1)] that(2,3) by blast
  show "\<exists>all. loop_post rules todo seen new r all"
  proof (cases todo)
    case Nil
    then show ?thesis using y r post_nil [OF r(2)] by (auto simp: g_ret_def)
  next
    case (Cons s rest)
    show ?thesis
    proof (cases "s \<in> seen")
      case True
      then have "f rules rest seen new = Some y" using y Cons by simp
      then show ?thesis using IH [OF _ r] post_seen [OF True] Cons by blast
    next
      case ns: False
      have fin: "\<exists>all. loop_post rules todo seen new r all" if "f rules rest (insert s seen) (add_stack s new) = Some y" "final rules s"
        using IH [OF that(1) r(1)] r(2) post_final [OF ns that(2)] Cons by (metis finite_insert)
      show ?thesis
      proof (cases s)
        case Nil then show ?thesis using fin y Cons ns by (simp add: final_def)
      next
        case s: (Cons p ps)
        show ?thesis
        proof (cases "type_at rules p = GT_RULE_REF")
          case True
          then have "f rules (rev (expand_ref rules p ps) @ rest) (insert s seen) new = Some y" using y Cons s ns by simp
          then show ?thesis using IH [OF _ r(1)] r(2) post_ref [OF _ True] Cons s ns by (metis finite_insert)
        next
          case False
          then have "is_terminal (type_at rules p)" "f rules rest (insert s seen) (add_stack s new) = Some y"
            using y r(1) Cons s ns by (simp_all split: if_splits)
          then show ?thesis using fin s by (simp add: final_def)
        qed
      qed
    qed
  qed
qed

lemma advance_stack_reach:
  assumes "advance_stack rules s new = Some (Done r)"
  shows "set r = set new \<union> {t. reach rules s t \<and> final rules t}" "finite {t. reach rules s t}"
proof -
  obtain all where "loop_post rules [s] {} new r all"
    using advance_loop_post [OF assms [unfolded advance_stack_def]] by blast
  note h = loop_postD [OF this]
  have "t \<in> all" if "reach rules s t" for t
    using that by (induction rule: rtranclp_induct) (use h(2,3) in auto)
  moreover have "reach rules s t" if "t \<in> all" for t using h(5) [OF that] by simp
  ultimately have "all = {t. reach rules s t}" by blast
  then show "set r = set new \<union> {t. reach rules s t \<and> final rules t}" "finite {t. reach rules s t}" using h(1,4) by auto
qed

lemma g_bind_Done: "g_bind m f = Some (Done y) \<longleftrightarrow> (\<exists>x. m = Some (Done x) \<and> f x = Some (Done y))"
  by (auto simp: g_bind_def split: option.splits gout.splits)

lemma g_ret_Done [simp]: "g_ret x = Some (Done y) \<longleftrightarrow> x = y"
  by (simp add: g_ret_def)

lemma g_fold_union:
  assumes "\<And>x s r. x \<in> set xs \<Longrightarrow> f x s = Some (Done r) \<Longrightarrow> set r = set s \<union> A x"
  shows "g_fold f xs s = Some (Done r) \<Longrightarrow> set r = set s \<union> (\<Union>x \<in> set xs. A x)"
  using assms
proof (induction xs arbitrary: s)
  case (Cons x xs)
  then obtain s' where "f x s = Some (Done s')" "g_fold f xs s' = Some (Done r)" by (auto simp: g_bind_Done)
  then show ?case using Cons.IH [of s'] Cons.prems(2) [of x s s'] Cons.prems(2) by auto
qed simp

definition after_chr :: "grules \<Rightarrow> nat \<Rightarrow> gstack \<Rightarrow> gstack set" where
  "after_chr rules c s = {t. final rules t \<and> (\<exists>p ps p'. s = p # ps \<and> match_char rules p c = Some (True, p') \<and> reach rules (push_pos rules p' ps) t)}"

lemma token_no_match: "is_token_type (type_at rules p) \<Longrightarrow> match_char rules p c = None"
  by (auto simp: is_token_type_def match_char_def positive_char_def)

lemma accept_chr_set:
  assumes "accept_chr rules c s new = Some (Done r)"
  shows "set r = set new \<union> after_chr rules c s"
proof (cases s)
  case Nil then show ?thesis using assms by (simp add: accept_chr_def after_chr_def)
next
  case (Cons p ps)
  show ?thesis
  proof (cases "match_char rules p c")
    case None
    then show ?thesis using assms Cons by (simp add: accept_chr_def after_chr_def split: if_splits)
  next
    case (Some m)
    obtain ok p' where m: "m = (ok, p')" by (cases m)
    have nt: "\<not> is_token_type (type_at rules p)" using token_no_match Some by fastforce
    show ?thesis
    proof (cases ok)
      case True
      then have "advance_stack rules (push_pos rules p' ps) new = Some (Done r)" using assms Cons Some m nt by (simp add: accept_chr_def)
      from advance_stack_reach(1) [OF this] show ?thesis using Cons Some m True by (cases p') (auto simp: after_chr_def)
    next
      case False then show ?thesis using assms Cons Some m nt by (simp add: accept_chr_def after_chr_def)
    qed
  qed
qed

lemma accept_stacks_set:
  "accept_stacks rules c stacks = Some (Done r) \<Longrightarrow> set r = (\<Union>s \<in> set stacks. after_chr rules c s)"
  using g_fold_union [of stacks "accept_chr rules c" "after_chr rules c" "[]" r] accept_chr_set by (auto simp: accept_stacks_def)

lemma start_stacks_set:
  "start_stacks rules r0 = Some (Done r) \<Longrightarrow> set r = (\<Union>p \<in> set (alternates rules r0). {t. reach rules (push_pos rules p []) t \<and> final rules t})"
  using g_fold_union [of "alternates rules r0" "\<lambda>p. advance_stack rules (push_pos rules p [])"
      "\<lambda>p. {t. reach rules (push_pos rules p []) t \<and> final rules t}" "[]" r] advance_stack_reach(1)
  by (auto simp: start_stacks_def)

subsection \<open>The stacks after a text derive what may follow it\<close>

lemma runs_reach: "runs rules s w \<longleftrightarrow> (\<exists>t. reach rules s t \<and> final rules t \<and> runs rules t w)"
proof
  show "runs rules s w \<Longrightarrow> \<exists>t. reach rules s t \<and> final rules t \<and> runs rules t w"
  proof (induction rule: runs.induct)
    case r_empty then show ?case by (intro exI [of _ "[]"]) (simp add: final_def runs.r_empty)
  next
    case (r_char p c p' s w)
    then have "final rules (p # s)" using match_char_type [OF r_char.hyps(1)] by (auto simp: final_def is_terminal_def)
    then show ?case using runs.r_char [OF r_char.hyps] by blast
  next
    case (r_ref s t w) then show ?case by (meson converse_rtranclp_into_rtranclp)
  qed
  show "\<exists>t. reach rules s t \<and> final rules t \<and> runs rules t w \<Longrightarrow> runs rules s w"
  proof (elim exE conjE)
    fix t assume "reach rules s t" "runs rules t w"
    then show "runs rules s w" by (induction rule: converse_rtranclp_induct) (auto intro: r_ref)
  qed
qed

lemma runs_chr:
  assumes "final rules s"
  shows "runs rules s (c # w) \<longleftrightarrow> (\<exists>t \<in> after_chr rules c s. runs rules t w)"
proof -
  have "runs rules s (c # w) \<longleftrightarrow> (\<exists>p ps p'. s = p # ps \<and> match_char rules p c = Some (True, p') \<and> runs rules (push_pos rules p' ps) w)"
    using final_no_step [OF assms] by (auto elim: runs.cases intro: r_char)
  also have "\<dots> \<longleftrightarrow> (\<exists>p ps p'. s = p # ps \<and> match_char rules p c = Some (True, p') \<and>
      (\<exists>t. reach rules (push_pos rules p' ps) t \<and> final rules t \<and> runs rules t w))" by (subst runs_reach) blast
  also have "\<dots> \<longleftrightarrow> (\<exists>t \<in> after_chr rules c s. runs rules t w)" by (auto simp: after_chr_def)
  finally show ?thesis .
qed

definition no_ends :: "grules \<Rightarrow> gstack \<Rightarrow> bool" where
  "no_ends rules s \<longleftrightarrow> (\<forall>p \<in> set s. \<not> is_end_of_sequence rules p)"

lemma no_ends_push: "no_ends rules s \<Longrightarrow> no_ends rules (push_pos rules p s)"
  by (simp add: no_ends_def push_pos_def)

lemma no_ends_step: "gstep rules s t \<Longrightarrow> no_ends rules s \<Longrightarrow> no_ends rules t"
  by (auto simp: gstep_def expand_mem intro!: no_ends_push) (simp add: no_ends_def)

lemma no_ends_reach: "reach rules s t \<Longrightarrow> no_ends rules s \<Longrightarrow> no_ends rules t"
  by (induction rule: rtranclp_induct) (auto intro: no_ends_step)

lemma no_ends_after: "t \<in> after_chr rules c s \<Longrightarrow> no_ends rules s \<Longrightarrow> no_ends rules t"
proof -
  assume a: "t \<in> after_chr rules c s" "no_ends rules s"
  then obtain p ps p' where s: "s = p # ps" "reach rules (push_pos rules p' ps) t" unfolding after_chr_def by blast
  have "no_ends rules ps" using a(2) s(1) by (simp add: no_ends_def)
  then show ?thesis by (rule no_ends_reach [OF s(2) no_ends_push])
qed

lemma after_final: "t \<in> after_chr rules c s \<Longrightarrow> final rules t"
  by (simp add: after_chr_def)

lemma runs_iff: "no_ends rules s \<Longrightarrow> runs rules s w \<longleftrightarrow> stack_derives rules s w"
  using stack_derives_runs runs_stack_derives by (auto simp: no_ends_def)

definition stacks_sound :: "grules \<Rightarrow> nat \<Rightarrow> nat list \<Rightarrow> gstack list \<Rightarrow> bool" where
  \<comment> \<open>the stacks after the text \<open>cs\<close> derive exactly what may follow it\<close>
  "stacks_sound rules start cs stacks \<longleftrightarrow> (\<forall>s \<in> set stacks. no_ends rules s \<and> final rules s) \<and>
     (\<forall>w. (\<exists>s \<in> set stacks. stack_derives rules s w) \<longleftrightarrow> rule_derives rules start (cs @ w))"

lemma start_stacks_sound:
  assumes "start_stacks rules start = Some (Done stacks)"
  shows "stacks_sound rules start [] stacks"
proof -
  have ne: "no_ends rules (push_pos rules p [])" for p by (rule no_ends_push) (simp add: no_ends_def)
  have a: "no_ends rules s \<and> final rules s" if "s \<in> set stacks" for s
    using that no_ends_reach [OF _ ne] by (auto simp: start_stacks_set [OF assms])
  have "(\<exists>s \<in> set stacks. stack_derives rules s w) \<longleftrightarrow> rule_derives rules start w" for w
  proof -
    have "(\<exists>s \<in> set stacks. stack_derives rules s w) \<longleftrightarrow> (\<exists>s \<in> set stacks. runs rules s w)" using a runs_iff by blast
    also have "\<dots> \<longleftrightarrow> (\<exists>p \<in> set (alternates rules start). runs rules (push_pos rules p []) w)"
      unfolding start_stacks_set [OF assms] by (subst (2) runs_reach) blast
    also have "\<dots> \<longleftrightarrow> rule_derives rules start w" by (simp add: runs_iff [OF ne] push_single rule_derives_def)
    finally show ?thesis .
  qed
  then show ?thesis using a by (simp add: stacks_sound_def)
qed

lemma accept_stacks_sound:
  assumes "accept_stacks rules c stacks = Some (Done stacks')" "stacks_sound rules start cs stacks"
  shows "stacks_sound rules start (cs @ [c]) stacks'"
proof -
  have h: "\<And>s. s \<in> set stacks \<Longrightarrow> no_ends rules s \<and> final rules s"
    "\<And>w. (\<exists>s \<in> set stacks. stack_derives rules s w) \<longleftrightarrow> rule_derives rules start (cs @ w)"
    using assms(2) by (auto simp: stacks_sound_def)
  have a: "no_ends rules s \<and> final rules s" if "s \<in> set stacks'" for s
    using that h(1) no_ends_after after_final unfolding accept_stacks_set [OF assms(1)] by blast
  have "(\<exists>s \<in> set stacks'. stack_derives rules s w) \<longleftrightarrow> rule_derives rules start ((cs @ [c]) @ w)" for w
  proof -
    have "(\<exists>s \<in> set stacks'. stack_derives rules s w) \<longleftrightarrow> (\<exists>s \<in> set stacks'. runs rules s w)" using a runs_iff by blast
    also have "\<dots> \<longleftrightarrow> (\<exists>s \<in> set stacks. runs rules s (c # w))"
    proof -
      have "runs rules s (c # w) \<longleftrightarrow> (\<exists>t \<in> after_chr rules c s. runs rules t w)" if "s \<in> set stacks" for s
        using h(1) [OF that] runs_chr by simp
      then show ?thesis unfolding accept_stacks_set [OF assms(1)] UN_iff by blast
    qed
    also have "\<dots> \<longleftrightarrow> (\<exists>s \<in> set stacks. stack_derives rules s (c # w))"
      by (rule bex_cong) (use h(1) runs_iff in auto)
    finally show ?thesis using h(2) by simp
  qed
  then show ?thesis using a by (simp add: stacks_sound_def)
qed


lemma grammar_accept_Done:
  "grammar_accept c g = Some (Done g') \<longleftrightarrow> (\<exists>st. accept_stacks (gm_rules g) c (gm_stacks g) = Some (Done st) \<and> g' = g\<lparr>gm_stacks := st\<rparr>)"
  by (auto simp: grammar_accept_def g_bind_Done)

lemma grammar_accept_sound:
  "g_fold grammar_accept ts g = Some (Done g') \<Longrightarrow> stacks_sound (gm_rules g) start cs (gm_stacks g) \<Longrightarrow>
   gm_rules g' = gm_rules g \<and> stacks_sound (gm_rules g) start (cs @ ts) (gm_stacks g')"
proof (induction ts arbitrary: g cs)
  case (Cons t ts)
  then obtain st where st: "accept_stacks (gm_rules g) t (gm_stacks g) = Some (Done st)" "g_fold grammar_accept ts (g\<lparr>gm_stacks := st\<rparr>) = Some (Done g')"
    by (auto simp: g_bind_Done grammar_accept_Done)
  show ?case using Cons.IH [OF st(2), of "cs @ [t]"] accept_stacks_sound [OF st(1) Cons.prems(2)] by simp
qed simp

lemma grammar_init_sound:
  "grammar_init rules start = Some (Done (Some g)) \<Longrightarrow> gm_rules g = map copy_rule rules \<and> stacks_sound (gm_rules g) start [] (gm_stacks g)"
  by (auto simp: grammar_init_def Let_def g_bind_Done start_stacks_sound split: if_splits option.splits bool.splits)

lemma stacks_sound_empty: "stacks_sound rules start cs stacks \<Longrightarrow> [] \<in> set stacks \<longleftrightarrow> rule_derives rules start cs"
proof -
  assume a: "stacks_sound rules start cs stacks"
  have "s = []" if "s \<in> set stacks" "stack_derives rules s []" for s
  proof (cases s)
    case (Cons p ps)
    then have "runs rules s []" "final rules s" using a that stack_derives_runs by (auto simp: stacks_sound_def no_ends_def)
    then show ?thesis using final_no_step by (auto elim: runs.cases)
  qed simp
  moreover have "(\<exists>s \<in> set stacks. stack_derives rules s []) \<longleftrightarrow> rule_derives rules start cs" using a by (auto simp: stacks_sound_def)
  ultimately show ?thesis by force
qed

end
