(* ===== verification/GrammarUtf8.thy ===== *)
theory GrammarUtf8
  imports GrammarLang
begin

text \<open>
  Pieces of text: decoding a text piece by piece, and matching a sequence that is not complete yet.
\<close>

unbundle bit_operations_syntax

subsection \<open>Decoding in parts\<close>

lemma resume_append:
  "utf8_resume bs v n = Some (bs', v', n') \<Longrightarrow>
   utf8_resume (bs @ cs) v n = (if bs' = [] then utf8_resume cs v' n' else Some (bs' @ cs, v', n'))"
  by (induction bs v n rule: utf8_resume.induct) (auto split: if_splits)

lemma resume_tail: "utf8_resume bs v n = Some r \<Longrightarrow> utf8_tail bs v n = r"
  by (induction bs v n rule: utf8_resume.induct) (auto split: if_splits)

lemma tail_append:
  "utf8_tail bs v n = (bs', v', n') \<Longrightarrow> utf8_tail (bs @ cs) v n = (if bs' = [] then utf8_tail cs v' n' else (bs' @ cs, v', n'))"
  by (induction bs v n rule: utf8_tail.induct) (auto split: if_splits)

lemma tail_stop: "n \<le> 0 \<Longrightarrow> utf8_tail bs v n = (bs, v, n)"
  by (cases bs) auto

definition valid_end :: "nat list \<times> partial_utf8 \<Rightarrow> bool" where
  \<comment> \<open>no invalid sequence was found\<close>
  "valid_end r \<longleftrightarrow> 0 \<le> pu_n_remain (snd r)"

lemma rest_prefix:
  "valid_end (utf8_rest bs cps v n) \<Longrightarrow> utf8_rest bs (xs @ cps) v n = (xs @ fst (utf8_rest bs cps v n), snd (utf8_rest bs cps v n))"
proof (induction bs cps v n rule: utf8_rest.induct)
  case (2 b bs cps v n)
  define n1 where "n1 = utf8_lookup ! unat (drop_bit 4 b) - 1"
  obtain bs' v' n' where t: "utf8_tail bs (unat b mod 2 ^ nat (7 - n1)) n1 = (bs', v', n')" by (metis prod_cases3)
  show ?case
  proof (cases "n1 < 0")
    case True then show ?thesis using "2.prems" by (simp add: Let_def valid_end_def flip: n1_def)
  next
    case False
    have e: "utf8_rest (b # bs) ys v n = utf8_rest bs' (if n' = 0 then ys @ [v'] else ys) v' n'" for ys
      using False t by (simp add: Let_def flip: n1_def)
    have "utf8_rest bs' (xs @ (if n' = 0 then cps @ [v'] else cps)) v' n' =
        (xs @ fst (utf8_rest bs' (if n' = 0 then cps @ [v'] else cps) v' n'), snd (utf8_rest bs' (if n' = 0 then cps @ [v'] else cps) v' n'))"
      using "2.IH" [OF n1_def False t [symmetric] refl] "2.prems" unfolding e by simp
    then show ?thesis unfolding e by (simp split: if_splits)
  qed
qed simp

lemma tail_complete: "utf8_tail bs v n = (bs', v', n') \<Longrightarrow> 0 \<le> n \<Longrightarrow> 0 \<le> n' \<and> (0 < n' \<longrightarrow> bs' = [])"
  by (induction bs v n rule: utf8_tail.induct) (auto split: if_splits)

lemma rest_append:
  "utf8_rest bs cps v n = (c1, p1) \<Longrightarrow> 0 \<le> pu_n_remain p1 \<Longrightarrow> bs = [] \<longrightarrow> n = 0 \<Longrightarrow>
   utf8_resume cs (pu_value p1) (pu_n_remain p1) = Some (cs', w, m) \<Longrightarrow>
   utf8_rest (bs @ cs) cps v n = utf8_rest cs' (butlast c1 @ (if 0 < pu_n_remain p1 \<and> m = 0 then [w] else [])) w m"
proof (induction bs cps v n rule: utf8_rest.induct)
  case (1 cps v n)
  then have "n = 0" "p1 = \<lparr>pu_value = v, pu_n_remain = 0\<rparr>" "c1 = cps @ [0]" by auto
  moreover have "utf8_resume cs v 0 = Some (cs, v, 0)" by (cases cs) auto
  ultimately show ?case using "1.prems"(4) by auto
next
  case (2 b bs cps v n)
  define n1 where "n1 = utf8_lookup ! unat (drop_bit 4 b) - 1"
  obtain bs' v' n' where t: "utf8_tail bs (unat b mod 2 ^ nat (7 - n1)) n1 = (bs', v', n')" by (metis prod_cases3)
  show ?case
  proof (cases "n1 < 0")
    case True then show ?thesis using "2.prems"(1,2) by (auto simp flip: n1_def)
  next
    case False
    have e: "utf8_rest (b # xs) ys v n = (case utf8_tail xs (unat b mod 2 ^ nat (7 - n1)) n1 of (xs, v, n) \<Rightarrow> utf8_rest xs (if n = 0 then ys @ [v] else ys) v n)" for xs ys
      using False by (simp add: Let_def flip: n1_def)
    have r: "utf8_rest bs' (if n' = 0 then cps @ [v'] else cps) v' n' = (c1, p1)" using "2.prems"(1) unfolding e t by simp
    have n': "0 \<le> n'" "0 < n' \<longrightarrow> bs' = []" using tail_complete [OF t] False by auto
    show ?thesis
    proof (cases "n' = 0")
      case True
      have "utf8_tail (bs @ cs) (unat b mod 2 ^ nat (7 - n1)) n1 = (bs' @ cs, v', n')"
        using tail_append [OF t, of cs] tail_stop [of n' cs v'] True by auto
      then have "utf8_rest ((b # bs) @ cs) cps v n = utf8_rest (bs' @ cs) (if n' = 0 then cps @ [v'] else cps) v' n'" by (simp only: append_Cons e prod.case)
      also have "\<dots> = utf8_rest cs' (butlast c1 @ (if 0 < pu_n_remain p1 \<and> m = 0 then [w] else [])) w m"
        by (rule "2.IH" [OF n1_def False t [symmetric] refl r "2.prems"(2) _ "2.prems"(4)]) (simp add: True)
      finally show ?thesis .
    next
      case nz: False
      then have bs': "bs' = []" using n' by simp
      then have p: "p1 = \<lparr>pu_value = v', pu_n_remain = n'\<rparr>" "c1 = cps @ [0]" using r nz by auto
      then have "utf8_tail cs v' n' = (cs', w, m)" using resume_tail "2.prems"(4) by simp
      then have "utf8_tail (bs @ cs) (unat b mod 2 ^ nat (7 - n1)) n1 = (cs', w, m)" using tail_append [OF t, of cs] bs' by simp
      then show ?thesis using p n'(1) nz by (simp only: append_Cons e prod.case) (simp add: if_distrib)
    qed
  qed
qed

lemma resume_start: "n \<le> 0 \<Longrightarrow> utf8_resume bs v n = Some (bs, v, n)"
  by (cases bs) auto

lemma resume_complete: "utf8_resume bs v n = Some (bs', v', n') \<Longrightarrow> 0 \<le> n \<Longrightarrow> 0 \<le> n' \<and> (0 < n' \<longrightarrow> bs' = [])"
  using resume_tail tail_complete by blast

lemma c_str_append: "0 \<notin> set bs \<Longrightarrow> c_str (bs @ cs) = bs @ c_str cs"
  by (induction bs) (auto simp: c_str_def)

lemma decode_append:
  assumes d1: "decode_utf8 bs pu = (c1, p1)" and d2: "decode_utf8 cs p1 = (c2, p2)"
    and v: "0 \<le> pu_n_remain pu" "0 \<le> pu_n_remain p1" "0 \<le> pu_n_remain p2" and z: "0 \<notin> set bs"
  shows "decode_utf8 (bs @ cs) pu = (butlast c1 @ c2, p2)"
proof -
  have str: "c_str bs = bs" "c_str (bs @ cs) = bs @ c_str cs" using z c_str_append [of bs "[]"] c_str_append [of bs cs] by (simp_all add: c_str_def)
  obtain bs' a n where r1: "utf8_resume bs (pu_value pu) (pu_n_remain pu) = Some (bs', a, n)"
    using d1 v(2) str by (auto simp: decode_utf8_def split: option.splits)
  obtain cs' w m where r2: "utf8_resume (c_str cs) (pu_value p1) (pu_n_remain p1) = Some (cs', w, m)"
    using d2 v(3) by (auto simp: decode_utf8_def split: option.splits)
  define cps where "cps = (if 0 < pu_n_remain pu \<and> n = 0 then [a] else [])"
  have o1: "utf8_rest bs' cps a n = (c1, p1)" using d1 r1 str by (simp add: decode_utf8_def cps_def)
  define cps2 where "cps2 = (if 0 < pu_n_remain p1 \<and> m = 0 then [w] else [])"
  have o2: "utf8_rest cs' cps2 w m = (c2, p2)" using d2 r2 by (simp add: decode_utf8_def cps2_def)
  have pre: "utf8_rest cs' (butlast c1 @ cps2) w m = (butlast c1 @ c2, p2)"
    using rest_prefix [of cs' cps2 w m "butlast c1"] o2 v(3) by (simp add: valid_end_def)
  have n: "0 \<le> n" "0 < n \<longrightarrow> bs' = []" using resume_complete [OF r1 v(1)] by auto
  show ?thesis
  proof (cases "n = 0")
    case True
    have "utf8_resume (bs @ c_str cs) (pu_value pu) (pu_n_remain pu) = Some (bs' @ c_str cs, a, n)"
      using resume_append [OF r1, of "c_str cs"] resume_start [of n "c_str cs" a] True by auto
    then have "decode_utf8 (bs @ cs) pu = utf8_rest (bs' @ c_str cs) cps a n" using str by (simp add: decode_utf8_def cps_def)
    also have "\<dots> = utf8_rest cs' (butlast c1 @ cps2) w m"
      unfolding cps2_def by (rule rest_append [OF o1 v(2) _ r2]) (simp add: True)
    finally show ?thesis using pre by simp
  next
    case False
    then have bs': "bs' = []" using n by simp
    then have p: "p1 = \<lparr>pu_value = a, pu_n_remain = n\<rparr>" "c1 = [0]" using o1 False by (auto simp: cps_def)
    have np: "0 < pu_n_remain pu" using False r1 resume_start [of "pu_n_remain pu" bs "pu_value pu"] v(1) by (cases "pu_n_remain pu = 0") auto
    have "utf8_resume (bs @ c_str cs) (pu_value pu) (pu_n_remain pu) = Some (cs', w, m)"
      using resume_append [OF r1, of "c_str cs"] bs' r2 p by simp
    then have "decode_utf8 (bs @ cs) pu = utf8_rest cs' cps2 w m" using str np False n p by (simp add: decode_utf8_def cps2_def)
    then show ?thesis using o2 p by simp
  qed
qed

text \<open>C31. Decoding a text in two parts gives the same code points and the same rest as decoding it at once, when no part has an invalid
  sequence.\<close>

theorem decode_in_parts:
  assumes "decode_utf8 bs pu = (c1, p1)" "decode_utf8 cs p1 = (c2, p2)" "0 \<le> pu_n_remain pu" "0 \<le> pu_n_remain p1" "0 \<le> pu_n_remain p2" "0 \<notin> set bs"
  shows "decode_utf8 (bs @ cs) pu = (butlast c1 @ c2, p2)"
  using assms by (rule decode_append)

lemmas decode_eval = decode_utf8_def c_str_def utf8_lookup_def utf8_cont_def

theorem decode_in_parts_witness:
  "decode_utf8 ([0x61, 0xC3] @ [0xA9, 0x62]) \<lparr>pu_value = 0, pu_n_remain = 0\<rparr> = (butlast [97, 0] @ [0xE9, 0x62, 0], \<lparr>pu_value = 0x62, pu_n_remain = 0\<rparr>)"
  by (rule decode_in_parts [of _ _ _ "\<lparr>pu_value = 3, pu_n_remain = 1\<rparr>"]) (simp_all add: decode_eval)

lemma decode_unchecked:
  "decode_utf8 [0xC3, 0x41] \<lparr>pu_value = 0, pu_n_remain = 0\<rparr> = ([0xC1, 0], \<lparr>pu_value = 0xC1, pu_n_remain = 0\<rparr>) \<and>
   decode_utf8 [0x41] (snd (decode_utf8 [0xC3] \<lparr>pu_value = 0, pu_n_remain = 0\<rparr>)) = ([0], \<lparr>pu_value = 0, pu_n_remain = -1\<rparr>)"
  by (simp add: decode_eval)

subsection \<open>Matching a sequence that is not complete\<close>

definition partial_low :: "partial_utf8 \<Rightarrow> nat" where
  \<comment> \<open>the least code point the sequence can complete to, without overlong ones\<close>
  "partial_low pu = (let low = pu_value pu * 2 ^ nat (pu_n_remain pu * 6) mod 2 ^ 32 in
     if low = 0 then if pu_n_remain pu = 2 then 2 ^ 11 else if pu_n_remain pu = 3 then 2 ^ 16 else low else low)"

definition partial_high :: "partial_utf8 \<Rightarrow> nat" where
  "partial_high pu = (pu_value pu * 2 ^ nat (pu_n_remain pu * 6) mod 2 ^ 32) OR (2 ^ nat (pu_n_remain pu * 6) - 1)"

lemma match_partial_pos:
  "low \<le> c \<Longrightarrow> c \<le> high \<Longrightarrow> fst (match_loop first es c f n) \<Longrightarrow> f \<or> match_partial_loop first es low high True"
  by (induction first es c f n rule: match_loop.induct) (auto split: if_splits)

lemma match_partial_neg:
  "low \<le> c \<Longrightarrow> c \<le> high \<Longrightarrow> match_partial_loop first es low high False \<Longrightarrow> (first \<longrightarrow> ge_type (hd es) \<noteq> GT_CHAR_ANY) \<Longrightarrow>
   fst (match_loop first es c f n) = f"
proof (induction first es c f n rule: match_loop.induct)
  case (1 first e u es chr f n)
  have "ge_type e \<noteq> GT_CHAR_ANY" if "first \<or> ge_type e = GT_CHAR_ALT" using that "1.prems"(4) by auto
  then show ?case using 1 by (auto split: if_splits)
qed auto

lemma match_partial_eq:
  "type_at rules p \<in> {GT_CHAR, GT_CHAR_ANY, GT_CHAR_NOT} \<Longrightarrow> 0 \<le> pu_n_remain pu \<Longrightarrow> \<not> (pu_n_remain pu = 1 \<and> pu_value pu < 2) \<Longrightarrow>
   match_partial_char rules p pu = Some (match_partial_loop True (drop (snd p) (rules ! fst p)) (partial_low pu) (partial_high pu) (positive_char (type_at rules p)))"
  by (auto simp: match_partial_char_def partial_low_def partial_high_def Let_def positive_char_def)

text \<open>A class that matches some completion of an incomplete sequence matches the sequence when it is positive; when it is negated
  and matches the sequence, it matches every completion.\<close>

theorem match_partial_bounds:
  assumes "pos_ok rules p" "type_at rules p \<in> {GT_CHAR, GT_CHAR_ANY, GT_CHAR_NOT}" "0 \<le> pu_n_remain pu" "\<not> (pu_n_remain pu = 1 \<and> pu_value pu < 2)"
    and "partial_low pu \<le> c" "c \<le> partial_high pu"
  shows "if type_at rules p = GT_CHAR_NOT
    then match_partial_char rules p pu = Some True \<longrightarrow> (\<exists>p'. match_char rules p c = Some (True, p'))
    else (\<exists>p'. match_char rules p c = Some (True, p')) \<longrightarrow> match_partial_char rules p pu = Some True"
proof -
  let ?es = "drop (snd p) (rules ! fst p)"
  obtain f n where m: "match_loop True ?es c False 0 = (f, n)" by fastforce
  have hd: "hd ?es = elem_at rules p" using assms(1) by (simp add: pos_ok_def elem_at_def hd_drop_conv_nth)
  have mc: "match_char rules p c = Some (f = positive_char (type_at rules p), pos_add p n)" using assms(2) m by (auto simp: match_char_def positive_char_def)
  note eq = match_partial_eq [OF assms(2,3,4)]
  show ?thesis
  proof (cases "type_at rules p = GT_CHAR_NOT")
    case True
    then have np: "positive_char (type_at rules p) = False" by (simp add: positive_char_def)
    have "f = False" if "match_partial_char rules p pu = Some True"
      using match_partial_neg [OF assms(5,6), of True ?es False 0] that eq np m hd True by simp
    then show ?thesis using mc np True by simp
  next
    case False
    then have np: "positive_char (type_at rules p) = True" using assms(2) by (auto simp: positive_char_def)
    have "match_partial_char rules p pu = Some True" if f
      using match_partial_pos [OF assms(5,6), of True ?es False 0] that eq np m by simp
    then show ?thesis using mc np False by simp
  qed
qed

definition not_rules :: grules where
  \<comment> \<open>\<open>root ::= [^\<close> U+00E9 \<open>]\<close>\<close>
  "not_rules = [[\<lparr>ge_type = GT_CHAR_NOT, ge_value = 0xE9\<rparr>, \<lparr>ge_type = GT_END, ge_value = 0\<rparr>]]"

lemma low_high: "partial_low \<lparr>pu_value = 3, pu_n_remain = 1\<rparr> = 0xC0" "partial_high \<lparr>pu_value = 3, pu_n_remain = 1\<rparr> = 0xFF"
  by (simp_all add: partial_low_def partial_high_def)

lemmas match_eval = match_char_def match_partial_char_def elem_at_def positive_char_def pos_add_def is_end_of_sequence_def not_rules_def

theorem match_partial_bounds_witness:
  "match_partial_char not_rules (0, 0) \<lparr>pu_value = 4, pu_n_remain = 1\<rparr> = Some True \<and> match_char not_rules (0, 0) 0x100 = Some (True, (0, 1))"
proof -
  have "match_partial_char not_rules (0, 0) \<lparr>pu_value = 4, pu_n_remain = 1\<rparr> = Some True \<longrightarrow> (\<exists>p'. match_char not_rules (0, 0) 0x100 = Some (True, p'))"
    using match_partial_bounds [where rules = not_rules and p = "(0, 0)" and pu = "\<lparr>pu_value = 4, pu_n_remain = 1\<rparr>" and c = "0x100"]
    by (simp add: pos_ok_def not_rules_def elem_at_def partial_low_def partial_high_def)
  then show ?thesis by (simp add: match_eval Let_def)
qed

text \<open>A negated class rejects an incomplete sequence as soon as one of its completions is excluded: the first byte of U+00E0
  is rejected by the class of everything but U+00E9.\<close>

theorem match_partial_negated:
  "match_partial_char not_rules (0, 0) \<lparr>pu_value = 3, pu_n_remain = 1\<rparr> = Some False \<and> match_char not_rules (0, 0) 0xE0 = Some (True, (0, 1)) \<and>
   decode_utf8 [0xC3] \<lparr>pu_value = 0, pu_n_remain = 0\<rparr> = ([0], \<lparr>pu_value = 3, pu_n_remain = 1\<rparr>) \<and>
   decode_utf8 [0xC3, 0xA0] \<lparr>pu_value = 0, pu_n_remain = 0\<rparr> = ([0xE0, 0], \<lparr>pu_value = 0xE0, pu_n_remain = 0\<rparr>)"
  by (simp add: match_eval decode_eval Let_def)

end
