(* ===== verification/GrammarHalt.thy ===== *)
theory GrammarHalt
  imports GrammarLang
begin

text \<open>
  Termination. The loop over the stacks ends when no rule calls itself at its left edge: the check for
  left recursion establishes this, provided that a rule that derives the empty text has an empty
  alternative of its own. The check itself always ends.
\<close>

subsection \<open>Stacks from which the loop ends\<close>

inductive halts :: "grules \<Rightarrow> gstack \<Rightarrow> bool" for rules where
  haltsI: "\<forall>t. gstep rules s t \<longrightarrow> halts rules t \<Longrightarrow> halts rules s"

inductive_simps halts_simp: "halts rules s"

lemma halts_append:
  "halts rules s1 \<Longrightarrow> (reach rules s1 [] \<longrightarrow> halts rules s2) \<Longrightarrow> halts rules (s1 @ s2)"
proof (induction rule: halts.induct)
  case (haltsI s1)
  show ?case
  proof (cases s1)
    case Nil then show ?thesis using haltsI.prems by simp
  next
    case (Cons p ps)
    show ?thesis
    proof (rule halts.haltsI, intro allI impI)
      fix t assume "gstep rules (s1 @ s2) t"
      then obtain t1 where t: "t = t1 @ s2" "gstep rules s1 t1" using Cons by (auto simp: gstep_def expand_append)
      have "reach rules t1 [] \<longrightarrow> halts rules s2" using haltsI.prems t(2) by (meson converse_rtranclp_into_rtranclp)
      then show "halts rules t" using haltsI t by blast
    qed
  qed
qed

lemma reach_nil_derives: "reach rules (push_pos rules p []) [] \<Longrightarrow> derives rules p []"
proof -
  assume "reach rules (push_pos rules p []) []"
  then have "runs rules (push_pos rules p []) []" by (intro runs_reach [THEN iffD2] exI [of _ "[]"]) (simp add: final_def r_empty)
  then show ?thesis using runs_stack_derives push_single by blast
qed

lemma halts_pos:
  assumes "rules_wf rules" and Q: "\<forall>p. Q p \<longrightarrow> pos_ok rules p"
    and step: "\<forall>p. Q p \<longrightarrow> type_at rules p = GT_RULE_REF \<longrightarrow>
      (\<forall>sub \<in> set (alternates rules (ge_value (elem_at rules p))). halts rules (push_pos rules sub [])) \<and>
      (rule_derives rules (ge_value (elem_at rules p)) [] \<longrightarrow> Q (pos_add p 1))"
  shows "Q p \<Longrightarrow> halts rules (push_pos rules p [])"
proof (induction "length (rules ! fst p) - snd p" arbitrary: p rule: less_induct)
  case less
  have ok: "pos_ok rules p" using Q less.prems by blast
  show ?case
  proof (cases "type_at rules p = GT_RULE_REF")
    case False
    then show ?thesis by (subst halts_simp) (auto simp: push_pos_def gstep_def)
  next
    case True
    let ?r = "ge_value (elem_at rules p)"
    have "halts rules t" if "gstep rules [p] t" for t
    proof -
      obtain sub where sub: "sub \<in> set (alternates rules ?r)" "t = push_pos rules sub [] @ push_pos rules (pos_add p 1) []"
      proof -
        obtain sub where "sub \<in> set (alternates rules ?r)" "t = push_pos rules sub ([] @ push_pos rules (pos_add p 1) [])"
          using \<open>gstep rules [p] t\<close> unfolding gstep_def expand_mem by fastforce
        then show thesis using that unfolding push_append by blast
      qed
      have "halts rules (push_pos rules (pos_add p 1) [])" if "reach rules (push_pos rules sub []) []"
      proof -
        have q: "Q (pos_add p 1)" 
        proof -
          have "rule_derives rules ?r []" using sub(1) reach_nil_derives [OF that] unfolding rule_derives_def by blast
          then show ?thesis using step less.prems True by blast
        qed
        have "snd p < length (rules ! fst p)" using ok by (simp add: pos_ok_def)
        then show ?thesis using less.hyps [OF _ q] by (simp add: pos_add_def)
      qed
      then show ?thesis unfolding sub(2) using step less.prems True sub(1) by (intro halts_append) blast+
    qed
    then show ?thesis by (subst halts_simp) (simp add: ref_not_end [OF True])
  qed
qed


subsection \<open>Calls at the left edge of a rule\<close>

inductive left_pos :: "grules \<Rightarrow> nat \<Rightarrow> gpos \<Rightarrow> bool" for rules r where
  \<comment> \<open>only references to rules with an empty alternative stand before the element\<close>
  lp_start: "sub \<in> set (alternates rules r) \<Longrightarrow> left_pos rules r sub"
| lp_next: "left_pos rules r p \<Longrightarrow> type_at rules p = GT_RULE_REF \<Longrightarrow> has_empty_alt True (rules ! ge_value (elem_at rules p)) \<Longrightarrow>
    left_pos rules r (pos_add p 1)"

definition left_call :: "grules \<Rightarrow> nat \<Rightarrow> nat \<Rightarrow> bool" where
  "left_call rules r r' \<longleftrightarrow> (\<exists>p. left_pos rules r p \<and> type_at rules p = GT_RULE_REF \<and> ge_value (elem_at rules p) = r')"

inductive left_safe :: "grules \<Rightarrow> nat \<Rightarrow> bool" for rules where
  \<comment> \<open>every chain of calls at the left edge ends\<close>
  left_safeI: "\<forall>r'. left_call rules r r' \<longrightarrow> left_safe rules r' \<Longrightarrow> left_safe rules r"

definition empties_direct :: "grules \<Rightarrow> bool" where
  "empties_direct rules \<longleftrightarrow> (\<forall>r < length rules. rule_derives rules r [] \<longrightarrow> has_empty_alt True (rules ! r))"

lemma left_pos_ok: "left_pos rules r p \<Longrightarrow> rules_wf rules \<Longrightarrow> r < length rules \<Longrightarrow> pos_ok rules p \<and> fst p = r"
  by (induction rule: left_pos.induct) (auto simp: alternates_ok next_pos_ok pos_add_def dest: alternates_ok(2) simp del: One_nat_def split: prod.splits intro: next_pos_ok [unfolded pos_add_def])

lemma ref_bound: "rules_wf rules \<Longrightarrow> pos_ok rules p \<Longrightarrow> type_at rules p = GT_RULE_REF \<Longrightarrow> ge_value (elem_at rules p) < length rules"
  unfolding rules_wf_def pos_ok_def elem_at_def by (meson nth_mem)

lemma left_safe_halts:
  "left_safe rules r \<Longrightarrow> rules_wf rules \<Longrightarrow> empties_direct rules \<Longrightarrow> r < length rules \<Longrightarrow> left_pos rules r p \<Longrightarrow> halts rules (push_pos rules p [])"
proof (induction arbitrary: p rule: left_safe.induct)
  case (left_safeI r)
  show ?case
  proof (rule halts_pos [OF left_safeI.prems(1), where Q = "left_pos rules r"])
    show "\<forall>p. left_pos rules r p \<longrightarrow> pos_ok rules p" using left_pos_ok left_safeI.prems(1,3) by blast
    show "\<forall>p. left_pos rules r p \<longrightarrow> type_at rules p = GT_RULE_REF \<longrightarrow>
      (\<forall>sub \<in> set (alternates rules (ge_value (elem_at rules p))). halts rules (push_pos rules sub [])) \<and>
      (rule_derives rules (ge_value (elem_at rules p)) [] \<longrightarrow> left_pos rules r (pos_add p 1))"
    proof (intro allI impI conjI ballI)
      fix p sub assume p: "left_pos rules r p" "type_at rules p = GT_RULE_REF"
      let ?r = "ge_value (elem_at rules p)"
      have b: "?r < length rules" using ref_bound left_pos_ok p left_safeI.prems(1,3) by blast
      show "halts rules (push_pos rules sub [])" if "sub \<in> set (alternates rules ?r)"
      proof -
        have "left_call rules r ?r" using p unfolding left_call_def by blast
        then show ?thesis using left_safeI.IH left_safeI.prems(1,2) b lp_start [OF that] by blast
      qed
      show "left_pos rules r (pos_add p 1)" if "rule_derives rules ?r []"
        using that left_safeI.prems(2) b by (intro lp_next p) (simp add: empties_direct_def)
    qed
    show "left_pos rules r p" by (rule left_safeI.prems(4))
  qed
qed

definition left_safe_rules :: "grules \<Rightarrow> bool" where
  "left_safe_rules rules \<longleftrightarrow> rules_wf rules \<and> empties_direct rules \<and> (\<forall>r < length rules. left_safe rules r)"

lemma pos_halts:
  assumes "left_safe_rules rules"
  shows "pos_ok rules p \<Longrightarrow> halts rules (push_pos rules p [])"
proof (rule halts_pos [where Q = "pos_ok rules"])
  have a: "rules_wf rules" "empties_direct rules" "\<And>r. r < length rules \<Longrightarrow> left_safe rules r"
    using assms by (auto simp: left_safe_rules_def)
  show "rules_wf rules" by (rule a(1))
  show "\<forall>p. pos_ok rules p \<longrightarrow> type_at rules p = GT_RULE_REF \<longrightarrow>
      (\<forall>sub \<in> set (alternates rules (ge_value (elem_at rules p))). halts rules (push_pos rules sub [])) \<and>
      (rule_derives rules (ge_value (elem_at rules p)) [] \<longrightarrow> pos_ok rules (pos_add p 1))"
    using left_safe_halts [OF a(3) a(1,2) _ lp_start] ref_bound [OF a(1)] next_pos_ok [OF a(1)] by blast
qed simp

lemma stack_halts: "left_safe_rules rules \<Longrightarrow> stack_ok rules s \<Longrightarrow> halts rules s"
proof (induction s)
  case Nil then show ?case by (intro haltsI) (simp add: gstep_def)
next
  case (Cons p ps)
  have "halts rules [p]" using pos_halts [OF Cons.prems(1), of p] stack_okD [OF Cons.prems(2)] by (simp add: push_pos_def)
  then show ?case using halts_append [of rules "[p]" ps] Cons stack_okD by fastforce
qed


subsection \<open>The loop returns\<close>

definition returns :: "'a gres \<Rightarrow> bool" where
  "returns m \<longleftrightarrow> (\<exists>x. m = Some (Done x))"

lemma returns_bind: "returns m \<Longrightarrow> (\<And>x. m = Some (Done x) \<Longrightarrow> returns (f x)) \<Longrightarrow> returns (g_bind m f)"
  by (auto simp: returns_def g_bind_def)

lemma returns_ret [simp]: "returns (g_ret x)"
  by (simp add: returns_def)

lemma returns_fold: "(\<And>x s. x \<in> set xs \<Longrightarrow> returns (f x s)) \<Longrightarrow> returns (g_fold f xs s)"
  by (induction xs arbitrary: s) (auto intro!: returns_bind)

lemma stack_ok_type:
  "stack_ok rules (p # ps) \<Longrightarrow> type_at rules p = GT_RULE_REF \<or> is_terminal (type_at rules p)"
  by (cases "type_at rules p") (auto simp: stack_ok_def pos_ok_def is_end_of_sequence_def is_terminal_def)

lemma step_ok: "rules_wf rules \<Longrightarrow> stack_ok rules s \<Longrightarrow> gstep rules s t \<Longrightarrow> stack_ok rules t"
  using expand_ok by (auto simp: gstep_def)

lemma advance_loop_returns:
  "halts rules s \<Longrightarrow> rules_wf rules \<Longrightarrow> stack_ok rules s \<Longrightarrow> \<forall>seen new. returns (advance_loop rules todo seen new) \<Longrightarrow>
   returns (advance_loop rules (s # todo) seen new)"
proof (induction arbitrary: todo seen new rule: halts.induct)
  case (haltsI s)
  have list: "\<forall>seen new. returns (advance_loop rules (xs @ todo) seen new)" if "\<forall>t \<in> set xs. gstep rules s t" for xs
    using that
  proof (induction xs)
    case Nil then show ?case using haltsI.prems(3) by simp
  next
    case (Cons t xs)
    have i: "\<forall>seen new. returns (advance_loop rules (xs @ todo) seen new)" using Cons by simp
    have "stack_ok rules t" using step_ok haltsI.prems(1,2) Cons.prems by simp
    moreover have "gstep rules s t" using Cons.prems by simp
    ultimately show ?case using haltsI.IH haltsI.prems(1) i by simp
  qed
  show ?case
  proof (cases "s \<in> seen")
    case True then show ?thesis using haltsI.prems(3) by (subst advance_loop.simps) simp
  next
    case ns: False
    show ?thesis
    proof (cases s)
      case Nil then show ?thesis using haltsI.prems(3) ns by (subst advance_loop.simps) simp
    next
      case (Cons p ps)
      show ?thesis
      proof (cases "type_at rules p = GT_RULE_REF")
        case True
        then have "\<forall>t \<in> set (rev (expand_ref rules p ps)). gstep rules s t" using Cons by (simp add: gstep_def)
        then show ?thesis using list ns Cons True by (subst advance_loop.simps) simp
      next
        case False
        then have "is_terminal (type_at rules p)" using stack_ok_type haltsI.prems(2) Cons by blast
        then show ?thesis using haltsI.prems(3) ns Cons False by (subst advance_loop.simps) simp
      qed
    qed
  qed
qed

lemma advance_stack_returns:
  assumes "left_safe_rules rules" "stack_ok rules s"
  shows "returns (advance_stack rules s new)"
proof -
  have "\<forall>seen new. returns (advance_loop rules [] seen new)" by (subst advance_loop.simps) simp
  then show ?thesis using advance_loop_returns stack_halts [OF assms] assms by (auto simp: advance_stack_def left_safe_rules_def)
qed

lemma reach_ok: "reach rules s t \<Longrightarrow> rules_wf rules \<Longrightarrow> stack_ok rules s \<Longrightarrow> stack_ok rules t"
  by (induction rule: rtranclp_induct) (auto intro: step_ok)

lemma after_chr_ok: "t \<in> after_chr rules c s \<Longrightarrow> rules_wf rules \<Longrightarrow> stack_ok rules s \<Longrightarrow> stack_ok rules t"
proof -
  assume a: "t \<in> after_chr rules c s" "rules_wf rules" "stack_ok rules s"
  then obtain p ps p' where s: "s = p # ps" "match_char rules p c = Some (True, p')" "reach rules (push_pos rules p' ps) t"
    unfolding after_chr_def by blast
  have "stack_ok rules (push_pos rules p' ps)" using match_char_pos(1) [OF a(2) _ s(2)] stack_okD a(3) s(1) by (intro push_ok) auto
  then show ?thesis using reach_ok s(3) a(2) by blast
qed

lemma accept_chr_returns:
  assumes "left_safe_rules rules" "stack_ok rules s" "final rules s"
  shows "returns (accept_chr rules c s new)"
proof (cases s)
  case Nil then show ?thesis by (simp add: accept_chr_def)
next
  case (Cons p ps)
  have wf: "rules_wf rules" using assms(1) by (simp add: left_safe_rules_def)
  show ?thesis
  proof (cases "is_token_type (type_at rules p)")
    case True then show ?thesis using Cons by (simp add: accept_chr_def)
  next
    case False
    then have "type_at rules p \<in> {GT_CHAR, GT_CHAR_ANY, GT_CHAR_NOT}" using assms(3) Cons by (auto simp: final_def is_terminal_def is_token_type_def)
    then obtain b p' where m: "match_char rules p c = Some (b, p')" using match_char_some by blast
    have "stack_ok rules (push_pos rules p' ps)" using match_char_pos(1) [OF wf _ m] stack_okD assms(2) Cons by (intro push_ok) auto
    then show ?thesis using advance_stack_returns [OF assms(1)] Cons False m by (simp add: accept_chr_def)
  qed
qed

definition stacks_ok :: "grules \<Rightarrow> gstack list \<Rightarrow> bool" where
  "stacks_ok rules stacks \<longleftrightarrow> (\<forall>s \<in> set stacks. stack_ok rules s \<and> final rules s)"

lemma accept_stacks_returns:
  assumes "left_safe_rules rules" "stacks_ok rules stacks"
  shows "\<exists>r. accept_stacks rules c stacks = Some (Done r) \<and> stacks_ok rules r"
proof -
  have "returns (accept_stacks rules c stacks)"
    unfolding accept_stacks_def using assms accept_chr_returns by (intro returns_fold) (simp add: stacks_ok_def)
  then obtain r where r: "accept_stacks rules c stacks = Some (Done r)" by (auto simp: returns_def)
  have "stacks_ok rules r" using accept_stacks_set [OF r] after_chr_ok after_final assms
    unfolding stacks_ok_def left_safe_rules_def by blast
  then show ?thesis using r by blast
qed

lemma start_stacks_returns:
  assumes "left_safe_rules rules" "start < length rules"
  shows "\<exists>r. start_stacks rules start = Some (Done r) \<and> stacks_ok rules r"
proof -
  have wf: "rules_wf rules" using assms(1) by (simp add: left_safe_rules_def)
  have p: "stack_ok rules (push_pos rules p [])" if "p \<in> set (alternates rules start)" for p
    using alternates_ok(1) [OF wf assms(2) that] by (intro push_ok) (simp_all add: stack_ok_def)
  have "returns (start_stacks rules start)"
    unfolding start_stacks_def using advance_stack_returns [OF assms(1) p] by (intro returns_fold)
  then obtain r where r: "start_stacks rules start = Some (Done r)" by (auto simp: returns_def)
  have "stacks_ok rules r" using start_stacks_set [OF r] p reach_ok wf unfolding stacks_ok_def by blast
  then show ?thesis using r by blast
qed

subsection \<open>The check for left recursion\<close>

fun left_refs :: "grules \<Rightarrow> bool \<Rightarrow> gelem list \<Rightarrow> nat set" where
  "left_refs rules recurse [] = {}"
| "left_refs rules recurse (e # es) =
     (if ge_type e = GT_RULE_REF \<and> recurse then insert (ge_value e) (left_refs rules (has_empty_alt True (rules ! ge_value e)) es)
      else left_refs rules (ge_type e = GT_END \<or> ge_type e = GT_ALT) es)"

lemma left_refs_later:
  "j \<in> set (later_alternates es i) \<Longrightarrow> i < j \<and> left_refs rules True (drop (j - i) es) \<subseteq> left_refs rules recurse es"
proof (induction es arbitrary: i recurse)
  case (Cons e es)
  have nr: "ge_type e \<noteq> GT_END" using Cons.prems by (auto split: if_splits)
  show ?case
  proof (cases "ge_type e = GT_ALT \<and> j = i + 1")
    case True then show ?thesis by simp
  next
    case False
    then have m: "j \<in> set (later_alternates es (i + 1))" using Cons.prems nr by (auto split: if_splits)
    have "drop (j - i) (e # es) = drop (j - (i + 1)) es" 
    proof -
      have "i + 1 < j" using Cons.IH [OF m, of True] by simp
      then have "j - i = Suc (j - (i + 1))" by simp
      then show ?thesis by simp
    qed
    moreover have "left_refs rules r es \<subseteq> left_refs rules recurse (e # es)" if "r = (if ge_type e = GT_RULE_REF \<and> recurse then has_empty_alt True (rules ! ge_value e) else ge_type e = GT_END \<or> ge_type e = GT_ALT)" for r
      using that by auto
    ultimately show ?thesis using Cons.IH [OF m] by (metis add_lessD1 subset_trans)
  qed
qed simp

lemma left_pos_refs:
  "left_pos rules r p \<Longrightarrow> rules_wf rules \<Longrightarrow> r < length rules \<Longrightarrow>
   left_refs rules True (drop (snd p) (rules ! r)) \<subseteq> left_refs rules True (rules ! r)"
proof (induction rule: left_pos.induct)
  case (lp_start sub)
  then consider "sub = (r, 0)" | j where "sub = (r, j)" "j \<in> set (later_alternates (rules ! r) 0)" by (auto simp: alternates_def)
  then show ?case
  proof cases
    case 2 then show ?thesis using left_refs_later [OF 2(2), of rules True] by simp
  qed simp
next
  case (lp_next p)
  have ok: "pos_ok rules p" "fst p = r" using left_pos_ok lp_next by blast+
  then have d: "drop (snd p) (rules ! r) = elem_at rules p # drop (Suc (snd p)) (rules ! r)"
    by (simp add: pos_ok_def elem_at_def Cons_nth_drop_Suc)
  have "left_refs rules True (drop (Suc (snd p)) (rules ! r)) \<subseteq> left_refs rules True (drop (snd p) (rules ! r))"
    unfolding d using lp_next.hyps(2,3) by auto
  then show ?case using lp_next.IH lp_next.prems by (simp add: pos_add_def)
qed

lemma left_call_refs:
  assumes "left_call rules r r'" "rules_wf rules" "r < length rules"
  shows "r' \<in> left_refs rules True (rules ! r)"
proof -
  obtain p where p: "left_pos rules r p" "type_at rules p = GT_RULE_REF" "ge_value (elem_at rules p) = r'"
    using assms(1) by (auto simp: left_call_def)
  have ok: "pos_ok rules p" "fst p = r" using left_pos_ok p(1) assms by blast+
  then have "drop (snd p) (rules ! r) = elem_at rules p # drop (Suc (snd p)) (rules ! r)"
    by (simp add: pos_ok_def elem_at_def Cons_nth_drop_Suc)
  then have "r' \<in> left_refs rules True (drop (snd p) (rules ! r))" using p(2,3) by simp
  then show ?thesis using left_pos_refs [OF p(1) assms(2,3)] by blast
qed

lemma left_refs_mono: "(rec' \<longrightarrow> recurse) \<Longrightarrow> left_refs rules rec' es \<subseteq> left_refs rules recurse es"
proof (induction es arbitrary: rec' recurse)
  case (Cons e es)
  have "left_refs rules False es \<subseteq> left_refs rules (has_empty_alt True (rules ! ge_value e)) es" by (rule Cons.IH) simp
  then show ?case using Cons.prems by auto
qed simp

definition lr_ok :: "grules \<Rightarrow> lr_state \<Rightarrow> bool" where
  "lr_ok rules st \<longleftrightarrow> length (lr_may_be_empty st) = length rules \<and> length (lr_in_progress st) = length rules \<and> length (lr_visited st) = length rules \<and>
     (\<forall>r < length rules. lr_visited st ! r \<longrightarrow> left_safe rules r)"

definition empty_le :: "lr_state \<Rightarrow> lr_state \<Rightarrow> bool" where
  "empty_le st st' \<longleftrightarrow> (\<forall>r. lr_may_be_empty st ! r \<longrightarrow> lr_may_be_empty st' ! r)"

lemma detect_safe:
  "rules_wf rules \<Longrightarrow> detect_left_recursion d rules r st = Some (False, st') \<Longrightarrow> lr_ok rules st \<Longrightarrow> r < length rules \<Longrightarrow>
     left_safe rules r \<and> (has_empty_alt True (rules ! r) \<longrightarrow> lr_may_be_empty st' ! r) \<and> empty_le st st' \<and> lr_ok rules st'"
  "rules_wf rules \<Longrightarrow> detect_elems d rules es recurse st = Some (False, st') \<Longrightarrow> lr_ok rules st \<Longrightarrow> 
     \<forall>e \<in> set es. ge_type e = GT_RULE_REF \<longrightarrow> ge_value e < length rules \<Longrightarrow>
     (\<forall>r \<in> left_refs rules recurse es. left_safe rules r) \<and> empty_le st st' \<and> lr_ok rules st'"
proof (induction d rules r st and d rules es recurse st arbitrary: st' and st' rule: detect_left_recursion_detect_elems.induct)
  case (1 rules r st)
  then show ?case by simp
next
  case (2 d rules r st)
  define st1 where "st1 = st\<lparr>lr_in_progress := (lr_in_progress st)[r := True]\<rparr>"
  define st2 where "st2 = (if has_empty_alt True (rules ! r) then st1\<lparr>lr_may_be_empty := (lr_may_be_empty st1)[r := True]\<rparr> else st1)"
  have np: "\<not> lr_in_progress st ! r" using "2.prems"(2) by auto
  obtain st3 where st3: "detect_elems d rules (rules ! r) True st2 = Some (False, st3)"
    "st' = st3\<lparr>lr_in_progress := (lr_in_progress st3)[r := False], lr_visited := (lr_visited st3)[r := True]\<rparr>"
    using "2.prems"(2) np by (auto simp: Let_def st1_def st2_def split: option.splits prod.splits bool.splits if_splits)
  have ok2: "lr_ok rules st2" using "2.prems"(3) by (simp add: lr_ok_def st1_def st2_def)
  have le2: "empty_le st st2" "has_empty_alt True (rules ! r) \<longrightarrow> lr_may_be_empty st2 ! r"
    using "2.prems"(3,4) by (auto simp: empty_le_def lr_ok_def st1_def st2_def nth_list_update)
  have vals: "\<forall>e \<in> set (rules ! r). ge_type e = GT_RULE_REF \<longrightarrow> ge_value e < length rules" using "2.prems"(1,4) nth_mem unfolding rules_wf_def by blast
  have IH: "(\<forall>r \<in> left_refs rules True (rules ! r). left_safe rules r) \<and> empty_le st2 st3 \<and> lr_ok rules st3"
    using "2.IH" [OF np st1_def st2_def "2.prems"(1) st3(1) ok2 vals] .
  have safe: "left_safe rules r"
    using IH left_call_refs [OF _ "2.prems"(1,4)] by (intro left_safeI) blast
  have "left_safe rules x" if "x < length rules" "(lr_visited st3)[r := True] ! x" for x
    using that IH safe by (cases "x = r") (auto simp: lr_ok_def)
  then have "lr_ok rules st'" using IH st3(2) by (simp add: lr_ok_def)
  moreover have "empty_le st st'" "has_empty_alt True (rules ! r) \<longrightarrow> lr_may_be_empty st' ! r" using IH le2 st3(2) by (simp_all add: empty_le_def)
  ultimately show ?case using safe by blast
next
  case (3 d rules recurse st)
  then show ?case by (simp add: empty_le_def)
next
  case (4 d rules e es recurse st)
  show ?case
  proof (cases "ge_type e = GT_RULE_REF \<and> recurse")
    case True
    then obtain st1 where st1: "detect_left_recursion d rules (ge_value e) st = Some (False, st1)"
      "detect_elems d rules es (lr_may_be_empty st1 ! ge_value e) st1 = Some (False, st')"
      using "4.prems"(2) by (auto split: option.splits prod.splits bool.splits)
    have v: "ge_value e < length rules" using "4.prems"(4) True by simp
    have a: "left_safe rules (ge_value e)" "has_empty_alt True (rules ! ge_value e) \<longrightarrow> lr_may_be_empty st1 ! ge_value e" "empty_le st st1" "lr_ok rules st1"
      using "4.IH"(1) [OF True "4.prems"(1) st1(1) "4.prems"(3) v] by auto
    have b: "(\<forall>r \<in> left_refs rules (lr_may_be_empty st1 ! ge_value e) es. left_safe rules r) \<and> empty_le st1 st' \<and> lr_ok rules st'"
      using "4.IH"(2) [OF True st1(1) refl refl "4.prems"(1) st1(2) a(4)] "4.prems"(4) by simp
    show ?thesis using a b left_refs_mono [OF a(2), of rules es] True by (auto simp: empty_le_def)
  next
    case False
    then have "detect_elems d rules es (ge_type e = GT_END \<or> ge_type e = GT_ALT) st = Some (False, st')" using "4.prems"(2) by auto
    from "4.IH"(3) [OF False "4.prems"(1) this "4.prems"(3)] show ?thesis using "4.prems"(4) False by auto
  qed
qed


lemma detect_all_safe:
  "detect_all rules rs st = Some False \<Longrightarrow> rules_wf rules \<Longrightarrow> lr_ok rules st \<Longrightarrow> \<forall>r \<in> set rs. r < length rules \<Longrightarrow> \<forall>r \<in> set rs. left_safe rules r"
proof (induction rs arbitrary: st)
  case (Cons r rs)
  show ?case
  proof (cases "lr_visited st ! r")
    case True
    then show ?thesis using Cons by (auto simp: lr_ok_def)
  next
    case False
    then obtain st' where st': "detect_left_recursion (Suc (length rules)) rules r st = Some (False, st')" "detect_all rules rs st' = Some False"
      using Cons.prems(1) by (auto split: option.splits prod.splits bool.splits simp del: detect_left_recursion.simps)
    have "left_safe rules r" "lr_ok rules st'" using detect_safe(1) [OF Cons.prems(2) st'(1) Cons.prems(3)] Cons.prems(4) by auto
    then show ?thesis using Cons.IH [OF st'(2) Cons.prems(2)] Cons.prems(4) by simp
  qed
qed simp

lemma left_recursive_safe:
  assumes "left_recursive rules = Some False" "rules_wf rules" "empties_direct rules"
  shows "left_safe_rules rules"
proof -
  have "\<forall>r \<in> set [0..<length rules]. left_safe rules r"
    using assms(1,2) by (intro detect_all_safe) (auto simp: left_recursive_def Let_def lr_ok_def)
  then show ?thesis using assms by (simp add: left_safe_rules_def)
qed

definition free_rules :: "lr_state \<Rightarrow> nat set" where
  "free_rules st = {r. r < length (lr_in_progress st) \<and> \<not> lr_in_progress st ! r}"

lemma detect_fuel:
  "card (free_rules st) < d \<Longrightarrow> length (lr_in_progress st) = length rules \<Longrightarrow> r < length rules \<Longrightarrow> refs_defined rules \<Longrightarrow>
     \<exists>b st'. detect_left_recursion d rules r st = Some (b, st') \<and> (\<not> b \<longrightarrow> lr_in_progress st' = lr_in_progress st)"
  "card (free_rules st) < d \<Longrightarrow> length (lr_in_progress st) = length rules \<Longrightarrow> refs_defined rules \<Longrightarrow>
     \<forall>e \<in> set es. ge_type e = GT_RULE_REF \<longrightarrow> ge_value e < length rules \<Longrightarrow>
     \<exists>b st'. detect_elems d rules es recurse st = Some (b, st') \<and> (\<not> b \<longrightarrow> lr_in_progress st' = lr_in_progress st)"
proof (induction d rules r st and d rules es recurse st rule: detect_left_recursion_detect_elems.induct)
  case (1 rules r st)
  then show ?case by simp
next
  case (2 d rules r st)
  define st1 where "st1 = st\<lparr>lr_in_progress := (lr_in_progress st)[r := True]\<rparr>"
  define st2 where "st2 = (if has_empty_alt True (rules ! r) then st1\<lparr>lr_may_be_empty := (lr_may_be_empty st1)[r := True]\<rparr> else st1)"
  show ?case
  proof (cases "lr_in_progress st ! r")
    case np: False
    have ip: "lr_in_progress st2 = (lr_in_progress st)[r := True]" by (simp add: st2_def st1_def)
    have r: "r < length (lr_in_progress st)" using "2.prems"(2,3) by simp
    have "free_rules st = insert r (free_rules st2)" "r \<notin> free_rules st2" using np r ip by (auto simp: free_rules_def nth_list_update split: if_splits)
    then have c: "card (free_rules st2) < d" using "2.prems"(1) by (simp add: free_rules_def)
    have vals: "\<forall>e \<in> set (rules ! r). ge_type e = GT_RULE_REF \<longrightarrow> ge_value e < length rules"
      using "2.prems"(3,4) nth_mem unfolding refs_defined_def by blast
    have l: "length (lr_in_progress st2) = length rules" using ip "2.prems"(2) by simp
    obtain b st3 where st3: "detect_elems d rules (rules ! r) True st2 = Some (b, st3)" "\<not> b \<longrightarrow> lr_in_progress st3 = lr_in_progress st2"
      using "2.IH" [OF np st1_def st2_def c l "2.prems"(4) vals] by blast
    have restored: "((lr_in_progress st)[r := True])[r := False] = lr_in_progress st" using np by (metis list_update_id list_update_overwrite)
    have eq: "detect_left_recursion (Suc d) rules r st = (case detect_elems d rules (rules ! r) True st2 of None \<Rightarrow> None
        | Some (True, st) \<Rightarrow> Some (True, st)
        | Some (False, st) \<Rightarrow> Some (False, st\<lparr>lr_in_progress := (lr_in_progress st)[r := False], lr_visited := (lr_visited st)[r := True]\<rparr>))"
      by (simp only: detect_left_recursion.simps np if_False Let_def st1_def st2_def)
    show ?thesis
    proof (cases b)
      case True then show ?thesis unfolding eq using st3(1) by auto
    next
      case False
      then have "lr_in_progress st3 = (lr_in_progress st)[r := True]" using st3(2) ip by simp
      then show ?thesis unfolding eq using st3(1) restored False by auto
    qed
  qed auto
next
  case (3 d rules recurse st)
  then show ?case by auto
next
  case (4 d rules e es recurse st)
  show ?case
  proof (cases "ge_type e = GT_RULE_REF \<and> recurse")
    case True
    have v: "ge_value e < length rules" using "4.prems"(4) True by simp
    obtain b st1 where st1: "detect_left_recursion d rules (ge_value e) st = Some (b, st1)" "\<not> b \<longrightarrow> lr_in_progress st1 = lr_in_progress st"
      using "4.IH"(1) [OF True "4.prems"(1,2) v "4.prems"(3)] by blast
    show ?thesis
    proof (cases b)
      case b: True then show ?thesis using st1 True by auto
    next
      case b: False
      then have i: "lr_in_progress st1 = lr_in_progress st" using st1(2) by simp
      have "card (free_rules st1) < d" "length (lr_in_progress st1) = length rules" using i "4.prems"(1,2) by (simp_all add: free_rules_def)
      from "4.IH"(2) [OF True st1(1) refl _ this "4.prems"(3)] show ?thesis using b st1(1) True "4.prems"(4) i by simp
    qed
  next
    case False
    then have "detect_elems d rules (e # es) recurse st = detect_elems d rules es (ge_type e = GT_END \<or> ge_type e = GT_ALT) st" by auto
    then show ?thesis using "4.IH"(3) [OF False "4.prems"(1,2,3)] "4.prems"(4) by simp
  qed
qed

lemma detect_all_total:
  "length (lr_in_progress st) = length rules \<Longrightarrow> \<forall>r \<in> set rs. r < length rules \<Longrightarrow> refs_defined rules \<Longrightarrow> detect_all rules rs st \<noteq> None"
proof (induction rs arbitrary: st)
  case (Cons r rs)
  have "free_rules st \<subseteq> {..<length rules}" using Cons.prems(1) by (auto simp: free_rules_def)
  then have "card (free_rules st) < Suc (length rules)" using card_mono [OF finite_lessThan, of "free_rules st" "length rules"] by simp
  moreover have "r < length rules" using Cons.prems(2) by simp
  ultimately obtain b st' where d: "detect_left_recursion (Suc (length rules)) rules r st = Some (b, st')" "\<not> b \<longrightarrow> lr_in_progress st' = lr_in_progress st"
    using detect_fuel(1) [OF _ Cons.prems(1) _ Cons.prems(3)] by blast
  show ?case using d Cons by (cases b) (auto simp del: detect_left_recursion.simps)
qed simp


lemma left_recursive_total: "refs_defined rules \<Longrightarrow> left_recursive rules \<noteq> None"
  unfolding left_recursive_def Let_def by (intro detect_all_total) auto

subsection \<open>A grammar from its rules on\<close>

definition rules_ready :: "grules \<Rightarrow> nat \<Rightarrow> bool" where
  \<comment> \<open>what the caller and the parser see to\<close>
  "rules_ready rules start \<longleftrightarrow> rules_wf (map copy_rule rules) \<and> empties_direct (map copy_rule rules) \<and> start < length rules"

definition grammar_ok :: "grammar \<Rightarrow> bool" where
  "grammar_ok g \<longleftrightarrow> left_safe_rules (gm_rules g) \<and> stacks_ok (gm_rules g) (gm_stacks g)"

lemma grammar_init_returns:
  assumes "rules_ready rules start"
  shows "\<exists>g. grammar_init rules start = Some (Done g) \<and> (\<forall>g'. g = Some g' \<longrightarrow> grammar_ok g')"
proof (cases "refs_defined (map copy_rule rules)")
  case False then show ?thesis by (auto simp: grammar_init_def g_ret_def)
next
  case True
  obtain b where b: "left_recursive (map copy_rule rules) = Some b" using left_recursive_total [OF True] by auto
  show ?thesis
  proof (cases b)
    case bt: True then show ?thesis using b True by (auto simp: grammar_init_def g_ret_def)
  next
    case bf: False
    then have s: "left_safe_rules (map copy_rule rules)" using left_recursive_safe b assms by (auto simp: rules_ready_def)
    obtain r where "start_stacks (map copy_rule rules) start = Some (Done r)" "stacks_ok (map copy_rule rules) r"
      using start_stacks_returns [OF s, of start] assms by (auto simp: rules_ready_def)
    then show ?thesis using b bf True s by (simp add: grammar_init_def Let_def g_bind_def g_ret_def grammar_ok_def)
  qed
qed

lemma grammar_accept_returns:
  "grammar_ok g \<Longrightarrow> \<exists>g'. grammar_accept c g = Some (Done g') \<and> grammar_ok g'"
  using accept_stacks_returns [of "gm_rules g" "gm_stacks g" c] by (auto simp: grammar_ok_def grammar_accept_Done)

lemma grammar_accepts_return:
  "grammar_ok g \<Longrightarrow> \<exists>g'. g_fold grammar_accept cs g = Some (Done g') \<and> grammar_ok g'"
proof (induction cs arbitrary: g)
  case (Cons c cs)
  obtain g1 where "grammar_accept c g = Some (Done g1)" "grammar_ok g1" using grammar_accept_returns [OF Cons.prems] by blast
  then show ?case using Cons.IH by (simp add: g_bind_def)
qed simp


lemma advance_loop_no_abort:
  assumes "advance_loop rules todo seen new = Some y"
  shows "rules_wf rules \<longrightarrow> (\<forall>s \<in> set todo. stack_ok rules s) \<longrightarrow> y \<noteq> Aborted"
proof (rule advance_loop.raw_induct [OF _ assms], intro impI)
  fix f rules todo seen new y
  assume IH: "\<And>rules todo seen new y. f rules todo seen new = Some y \<Longrightarrow> rules_wf rules \<longrightarrow> (\<forall>s \<in> set todo. stack_ok rules s) \<longrightarrow> y \<noteq> Aborted"
    and y: "(case todo of [] \<Rightarrow> g_ret new
     | s # todo \<Rightarrow> if s \<in> seen then f rules todo seen new
         else case s of [] \<Rightarrow> f rules todo (insert s seen) (add_stack s new)
           | p # ps \<Rightarrow> if type_at rules p = GT_RULE_REF then f rules (rev (expand_ref rules p ps) @ todo) (insert s seen) new
               else if is_terminal (type_at rules p) then f rules todo (insert s seen) (add_stack s new) else Some Aborted) = Some y"
    and wf: "rules_wf rules" and ok: "\<forall>s \<in> set todo. stack_ok rules s"
  show "y \<noteq> Aborted"
  proof (cases todo)
    case Nil then show ?thesis using y by (auto simp: g_ret_def)
  next
    case (Cons s rest)
    have ok2: "\<forall>s \<in> set rest. stack_ok rules s" "stack_ok rules s" using ok Cons by auto
    note IH2 = IH [rule_format, OF _ wf]
    show ?thesis
    proof (cases s)
      case Nil then show ?thesis using y Cons IH2 ok2(1) by (simp split: if_splits)
    next
      case s: (Cons p ps)
      have "\<forall>t \<in> set (rev (expand_ref rules p ps) @ rest). stack_ok rules t" if "type_at rules p = GT_RULE_REF"
        using expand_ok [OF wf _ that] ok2 s by auto
      then show ?thesis
        using y Cons s IH2 [of rest] IH2 [of "rev (expand_ref rules p ps) @ rest"] ok2(1) stack_ok_type [of rules p ps] ok2(2)
        by (simp split: if_splits)
    qed
  qed
qed

lemma advance_stack_diverges:
  assumes "rules_wf rules" "stack_ok rules s" "infinite {t. reach rules s t}"
  shows "advance_stack rules s new = None"
proof (rule ccontr)
  assume "advance_stack rules s new \<noteq> None"
  then obtain y where y: "advance_stack rules s new = Some y" by auto
  then have "y \<noteq> Aborted" using advance_loop_no_abort assms(1,2) by (auto simp: advance_stack_def)
  then obtain r where "y = Done r" by (cases y) auto
  then show False using advance_stack_reach(2) y assms(3) by blast
qed

definition hidden_rules :: grules where
  \<comment> \<open>\<open>root ::= a root "x" | "c"\<close>, \<open>a ::= b\<close>, \<open>b ::= "b" |\<close>\<close>
  "hidden_rules =
    [[\<lparr>ge_type = GT_RULE_REF, ge_value = 1\<rparr>, \<lparr>ge_type = GT_RULE_REF, ge_value = 0\<rparr>, \<lparr>ge_type = GT_CHAR, ge_value = 120\<rparr>,
      \<lparr>ge_type = GT_ALT, ge_value = 0\<rparr>, \<lparr>ge_type = GT_CHAR, ge_value = 99\<rparr>, \<lparr>ge_type = GT_END, ge_value = 0\<rparr>],
     [\<lparr>ge_type = GT_RULE_REF, ge_value = 2\<rparr>, \<lparr>ge_type = GT_END, ge_value = 0\<rparr>],
     [\<lparr>ge_type = GT_CHAR, ge_value = 98\<rparr>, \<lparr>ge_type = GT_ALT, ge_value = 0\<rparr>, \<lparr>ge_type = GT_END, ge_value = 0\<rparr>]]"

lemma hidden_step:
  "gstep hidden_rules ((0, 0) # s) ((1, 0) # (0, 1) # s)"
  "gstep hidden_rules ((1, 0) # (0, 1) # s) ((0, 1) # s)"
  "gstep hidden_rules ((0, 1) # s) ((0, 0) # (0, 2) # s)"
  by (simp_all add: gstep_def expand_ref_def alternates_def hidden_rules_def elem_at_def push_pos_def is_end_of_sequence_def pos_add_def)

lemma hidden_reach: "reach hidden_rules [(0, 0)] ((0, 0) # replicate n (0, 2))"
proof (induction n)
  case (Suc n)
  note h = hidden_step [of "replicate n (0, 2)"]
  have "reach hidden_rules ((0, 0) # replicate n (0, 2)) ((0, 0) # (0, 2) # replicate n (0, 2))"
    using h by (meson converse_rtranclp_into_rtranclp r_into_rtranclp)
  then show ?case using Suc by simp
qed simp

lemma hidden_infinite: "infinite {t. reach hidden_rules [(0, 0)] t}"
proof -
  have "inj (\<lambda>n :: nat. (0 :: nat, 0 :: nat) # replicate n (0 :: nat, 2 :: nat))" by (rule injI) (metis length_Cons length_replicate nat.inject)
  then have "infinite (range (\<lambda>n :: nat. (0 :: nat, 0 :: nat) # replicate n (0 :: nat, 2 :: nat)))" using finite_imageD infinite_UNIV_nat by blast
  moreover have "range (\<lambda>n :: nat. (0 :: nat, 0 :: nat) # replicate n (0 :: nat, 2 :: nat)) \<subseteq> {t. reach hidden_rules [(0, 0)] t}" using hidden_reach by auto
  ultimately show ?thesis using finite_subset by blast
qed

lemma hidden_checks: "map copy_rule hidden_rules = hidden_rules" "rules_wf hidden_rules" "refs_defined hidden_rules" "left_recursive hidden_rules = Some False"
     apply (simp add: hidden_rules_def copy_rule_def)
    apply (simp add: rules_wf_def hidden_rules_def may_follow_def)
   apply (simp add: refs_defined_def hidden_rules_def)
  apply (simp add: left_recursive_def hidden_rules_def Let_def upt_rec eval_nat_numeral)
  done

lemma hidden_start: "start_stacks hidden_rules 0 = None"
proof -
  have "stack_ok hidden_rules [(0, 0)]" by (simp add: stack_ok_def pos_ok_def hidden_rules_def elem_at_def is_end_of_sequence_def)
  then have "advance_stack hidden_rules [(0, 0)] [] = None" using advance_stack_diverges hidden_checks(2) hidden_infinite by blast
  moreover have "alternates hidden_rules 0 = [(0, 0), (0, 4)]" by (simp add: alternates_def hidden_rules_def)
  moreover have "push_pos hidden_rules (0, 0) [] = [(0, 0)]" by (simp add: push_pos_def hidden_rules_def elem_at_def is_end_of_sequence_def)
  ultimately show ?thesis by (simp add: start_stacks_def g_bind_def)
qed


lemma derives_char_first: "type_at rules p = GT_CHAR \<Longrightarrow> \<not> derives rules p []"
  by (auto elim: derives.cases simp: is_end_of_sequence_def)

definition letter_rules :: grules where
  \<comment> \<open>\<open>root ::= "a" root | "b"\<close>\<close>
  "letter_rules = [[\<lparr>ge_type = GT_CHAR, ge_value = 97\<rparr>, \<lparr>ge_type = GT_RULE_REF, ge_value = 0\<rparr>, \<lparr>ge_type = GT_ALT, ge_value = 0\<rparr>,
     \<lparr>ge_type = GT_CHAR, ge_value = 98\<rparr>, \<lparr>ge_type = GT_END, ge_value = 0\<rparr>]]"

definition letter_grammar :: grammar where
  "letter_grammar = \<lparr>gm_rules = letter_rules, gm_stacks = [[(0, 0)], [(0, 3)]], gm_partial = \<lparr>pu_value = 0, pu_n_remain = 0\<rparr>,
     gm_awaiting_trigger = False, gm_trigger_buffer = [], gm_trigger_positions = [], gm_trigger_tokens = []\<rparr>"

lemma letter_ready: "rules_ready letter_rules 0"
proof -
  have c: "map copy_rule letter_rules = letter_rules" by (simp add: letter_rules_def copy_rule_def)
  have "\<not> derives letter_rules (0, 0) []" "\<not> derives letter_rules (0, 3) []"
    by (rule derives_char_first, simp add: letter_rules_def elem_at_def)+
  moreover have "alternates letter_rules 0 = [(0, 0), (0, 3)]" by (simp add: alternates_def letter_rules_def)
  ultimately have "empties_direct letter_rules" by (simp add: empties_direct_def rule_derives_def letter_rules_def)
  moreover have "rules_wf letter_rules" by (simp add: rules_wf_def letter_rules_def may_follow_def)
  ultimately show ?thesis by (simp add: rules_ready_def c) (simp add: letter_rules_def)
qed

lemma letter_init: "grammar_init letter_rules 0 = Some (Done (Some letter_grammar))"
proof -
  have c: "map copy_rule letter_rules = letter_rules" by (simp add: letter_rules_def copy_rule_def)
  have l: "left_recursive letter_rules = Some False" by (simp add: left_recursive_def letter_rules_def Let_def)
  have r: "refs_defined letter_rules" by (simp add: refs_defined_def letter_rules_def)
  have "start_stacks letter_rules 0 = Some (Done [[(0, 0)], [(0, 3)]])"
    by (simp add: start_stacks_def alternates_def letter_rules_def advance_stack_def advance_loop.simps g_bind_def g_ret_def push_pos_def
        is_end_of_sequence_def elem_at_def is_terminal_def add_stack_def)
  then show ?thesis by (simp add: grammar_init_def c l r g_bind_def g_ret_def letter_grammar_def)
qed

subsection \<open>Properties\<close>

text \<open>C5. After a text, the stacks of a grammar derive exactly the texts that may follow it, and the empty stack is
  among them exactly when the text is in the language of the start rule; accepting always returns.\<close>

theorem grammar_language:
  assumes "rules_ready rules start" "grammar_init rules start = Some (Done (Some g))"
  shows "\<exists>g'. g_fold grammar_accept cs g = Some (Done g') \<and> ([] \<in> set (gm_stacks g') \<longleftrightarrow> rule_derives (gm_rules g) start cs) \<and>
    (\<forall>w. (\<exists>s \<in> set (gm_stacks g'). stack_derives (gm_rules g) s w) \<longleftrightarrow> rule_derives (gm_rules g) start (cs @ w))"
proof -
  have "grammar_ok g" using grammar_init_returns [OF assms(1)] assms(2) by auto
  then obtain g' where g': "g_fold grammar_accept cs g = Some (Done g')" using grammar_accepts_return by blast
  have s: "stacks_sound (gm_rules g) start cs (gm_stacks g')"
    using grammar_accept_sound [OF g' conjunct2 [OF grammar_init_sound [OF assms(2)]]] by simp
  then have "(\<exists>s \<in> set (gm_stacks g'). stack_derives (gm_rules g) s w) \<longleftrightarrow> rule_derives (gm_rules g) start (cs @ w)" for w
    by (simp add: stacks_sound_def)
  then show ?thesis using g' stacks_sound_empty [OF s] by blast
qed

theorem grammar_language_witness:
  "\<exists>g'. g_fold grammar_accept [97, 98] letter_grammar = Some (Done g') \<and>
     ([] \<in> set (gm_stacks g') \<longleftrightarrow> rule_derives (gm_rules letter_grammar) 0 [97, 98]) \<and>
     (\<forall>w. (\<exists>s \<in> set (gm_stacks g'). stack_derives (gm_rules letter_grammar) s w) \<longleftrightarrow> rule_derives (gm_rules letter_grammar) 0 ([97, 98] @ w))"
  by (rule grammar_language [OF letter_ready letter_init])

text \<open>C17. Building a grammar ends, with a grammar or with the report of an error, and so does every accept after it, when
  each rule that derives the empty text has an empty alternative of its own.\<close>

theorem grammar_init_ends:
  assumes "rules_ready rules start"
  shows "\<exists>og. grammar_init rules start = Some (Done og) \<and> (\<forall>g cs. og = Some g \<longrightarrow> g_fold grammar_accept cs g \<noteq> None)"
proof -
  obtain og where og: "grammar_init rules start = Some (Done og)" "\<forall>g. og = Some g \<longrightarrow> grammar_ok g"
    using grammar_init_returns [OF assms] by blast
  have "g_fold grammar_accept cs g \<noteq> None" if "og = Some g" for g cs using grammar_accepts_return [of g cs] og(2) that by auto
  then show ?thesis using og(1) by blast
qed

theorem grammar_init_ends_witness:
  "\<exists>og. grammar_init letter_rules 0 = Some (Done og) \<and> (\<forall>g cs. og = Some g \<longrightarrow> g_fold grammar_accept cs g \<noteq> None)"
  by (rule grammar_init_ends [OF letter_ready])

text \<open>C39. A left recursion behind a rule that is empty only through another rule passes the check, and the loop over
  the stacks then never ends.\<close>

theorem hidden_left_recursion:
  "left_recursive (map copy_rule hidden_rules) = Some False \<and> grammar_init hidden_rules 0 = None"
  using hidden_checks hidden_start by (simp add: grammar_init_def g_bind_def)

end
