(* ===== verification/GrammarSample.thy ===== *)
theory GrammarSample
  imports GrammarHalt
begin

text \<open>
  Sampling with a grammar: what is rejected among the candidates, and that masking (\<open>llama_grammar_apply_impl\<close>) and
  accepting (\<open>llama_grammar_accept_token\<close>) agree where the code has them agree.
\<close>

subsection \<open>Texts of several code points\<close>

fun after_cps :: "grules \<Rightarrow> nat list \<Rightarrow> gstack \<Rightarrow> gstack set" where
  "after_cps rules [] s = {s}"
| "after_cps rules (c # cs) s = (\<Union>t \<in> after_chr rules c s. after_cps rules cs t)"

lemma accept_cps_set:
  "accept_cps rules cs current = Some (Done r) \<Longrightarrow> set r = (\<Union>s \<in> set current. after_cps rules cs s)"
proof (induction cs arbitrary: current)
  case (Cons c cs)
  then obtain st where st: "accept_stacks rules c current = Some (Done st)"
    "(if st = [] then g_ret [] else accept_cps rules cs st) = Some (Done r)" by (auto simp: g_bind_Done)
  then have "set r = (\<Union>s \<in> set st. after_cps rules cs s)" using Cons.IH [of st] by (cases "st = []") auto
  then show ?case using accept_stacks_set [OF st(1)] by auto
qed auto

lemma accept_cps_returns:
  "left_safe_rules rules \<Longrightarrow> stacks_ok rules current \<Longrightarrow> \<exists>r. accept_cps rules cs current = Some (Done r)"
proof (induction cs arbitrary: current)
  case (Cons c cs)
  obtain st where "accept_stacks rules c current = Some (Done st)" "stacks_ok rules st"
    using accept_stacks_returns [OF Cons.prems] by blast
  then show ?case using Cons.IH [OF Cons.prems(1)] by (auto simp: g_bind_Done)
qed simp

definition token_free :: "grules \<Rightarrow> bool" where
  "token_free rules \<longleftrightarrow> (\<forall>rule \<in> set rules. \<forall>e \<in> set rule. \<not> is_token_type (ge_type e))"

lemma token_free_at: "token_free rules \<Longrightarrow> pos_ok rules p \<Longrightarrow> \<not> is_token_type (type_at rules p)"
  unfolding token_free_def pos_ok_def elem_at_def by (meson nth_mem)

lemma reach_final:
  "halts rules s \<Longrightarrow> rules_wf rules \<Longrightarrow> stack_ok rules s \<Longrightarrow> \<exists>t. reach rules s t \<and> final rules t"
proof (induction rule: halts.induct)
  case (haltsI s)
  show ?case
  proof (cases "final rules s")
    case False
    then obtain p ps where s: "s = p # ps" "type_at rules p = GT_RULE_REF"
      using stack_ok_type haltsI.prems(2) by (cases s) (auto simp: final_def)
    have "expand_ref rules p ps \<noteq> []" by (simp add: expand_ref_def alternates_def)
    then obtain t where t: "gstep rules s t" using s by (cases "expand_ref rules p ps") (auto simp: gstep_def)
    then have "\<exists>u. reach rules t u \<and> final rules u" using haltsI step_ok by blast
    then show ?thesis using t by (meson converse_rtranclp_into_rtranclp)
  qed auto
qed

lemma advance_stack_result:
  assumes "left_safe_rules rules" "stack_ok rules s"
  shows "\<exists>r. advance_stack rules s [] = Some (Done r) \<and> set r = {t. reach rules s t \<and> final rules t} \<and> r \<noteq> [] \<and> stacks_ok rules r"
proof -
  have wf: "rules_wf rules" using assms(1) by (simp add: left_safe_rules_def)
  obtain r where r: "advance_stack rules s [] = Some (Done r)" using advance_stack_returns [OF assms, of "[]"] by (auto simp: returns_def)
  have e: "set r = {t. reach rules s t \<and> final rules t}" using advance_stack_reach(1) [OF r] by simp
  have "set r \<noteq> {}" unfolding e using reach_final [OF stack_halts [OF assms] wf assms(2)] by auto
  moreover have "stacks_ok rules r" using e reach_ok wf assms(2) by (auto simp: stacks_ok_def)
  ultimately show ?thesis using r e by auto
qed

subsection \<open>Rejecting candidates\<close>

definition cand_text :: "gcand \<Rightarrow> nat list" where
  "cand_text c = takeWhile (\<lambda>x. x \<noteq> 0) (drop (gc_at c) (gc_cps c))"

definition cand_ok :: "gcand \<Rightarrow> bool" where
  "cand_ok c \<longleftrightarrow> gc_at c < length (gc_cps c) \<and> last (gc_cps c) = 0"

definition partial_ok :: "grules \<Rightarrow> partial_utf8 \<Rightarrow> gstack \<Rightarrow> bool" where
  "partial_ok rules pu s \<longleftrightarrow> pu_n_remain pu = 0 \<or> (case s of [] \<Rightarrow> False | p # _ \<Rightarrow> match_partial_char rules p pu = Some True)"

definition cand_fits :: "grules \<Rightarrow> gstack \<Rightarrow> gcand \<Rightarrow> bool" where
  "cand_fits rules s c \<longleftrightarrow> (\<exists>t \<in> after_cps rules (cand_text c) s. partial_ok rules (gc_partial c) t)"

abbreviation next_cand :: "gcand \<Rightarrow> gcand" where
  "next_cand c \<equiv> c\<lparr>gc_at := gc_at c + 1\<rparr>"

lemma drop_cand: "cand_ok c \<Longrightarrow> drop (gc_at c) (gc_cps c) = cand_chr c # drop (Suc (gc_at c)) (gc_cps c)"
  by (simp add: cand_ok_def cand_chr_def Cons_nth_drop_Suc)

lemma cand_text_nil: "cand_ok c \<Longrightarrow> cand_text c = [] \<longleftrightarrow> cand_chr c = 0"
  by (simp add: cand_text_def drop_cand)

lemma cand_text_cons: "cand_ok c \<Longrightarrow> cand_chr c \<noteq> 0 \<Longrightarrow> cand_text c = cand_chr c # cand_text (next_cand c)"
  by (simp add: cand_text_def drop_cand)

lemma next_cand_ok: "cand_ok c \<Longrightarrow> cand_chr c \<noteq> 0 \<Longrightarrow> cand_ok (next_cand c)"
proof -
  assume a: "cand_ok c" "cand_chr c \<noteq> 0"
  then have "gc_cps c \<noteq> []" by (auto simp: cand_ok_def)
  then have "gc_cps c ! (length (gc_cps c) - 1) = 0" using a(1) by (simp add: cand_ok_def last_conv_nth)
  then have "gc_at c \<noteq> length (gc_cps c) - 1" using a(2) by (auto simp: cand_chr_def)
  moreover have "gc_at c < length (gc_cps c)" "last (gc_cps c) = 0" using a(1) by (simp_all add: cand_ok_def)
  ultimately show ?thesis by (simp add: cand_ok_def)
qed

lemma after_chr_nil: "after_chr rules c [] = {}"
  by (simp add: after_chr_def)

lemma fits_empty_stack: "cand_ok c \<Longrightarrow> cand_fits rules [] c \<longleftrightarrow> cand_chr c = 0 \<and> pu_n_remain (gc_partial c) = 0"
  by (cases "cand_chr c = 0") (simp_all add: cand_fits_def cand_text_nil [THEN iffD2] cand_text_cons after_chr_nil partial_ok_def)

definition matches :: "grules \<Rightarrow> gpos \<Rightarrow> nat \<Rightarrow> bool" where
  "matches rules p c \<longleftrightarrow> (\<exists>p'. match_char rules p c = Some (True, p'))"

lemma split_fold:
  assumes "type_at rules p \<in> {GT_CHAR, GT_CHAR_ANY, GT_CHAR_NOT}"
  shows "g_fold (split_cand rules p) cands (rej, nxt) = Some (Done
    (rej @ filter (\<lambda>c. if cand_chr c = 0 then pu_n_remain (gc_partial c) \<noteq> 0 \<and> match_partial_char rules p (gc_partial c) \<noteq> Some True else \<not> matches rules p (cand_chr c)) cands,
     nxt @ map next_cand (filter (\<lambda>c. cand_chr c \<noteq> 0 \<and> matches rules p (cand_chr c)) cands)))"
proof (induction cands arbitrary: rej nxt)
  case Nil then show ?case by (simp add: g_ret_def)
next
  case (Cons c cands)
  obtain b p' where m: "match_char rules p (cand_chr c) = Some (b, p')" using match_char_some [OF assms] by blast
  have "match_partial_char rules p (gc_partial c) \<noteq> None"
    using assms by (auto simp: match_partial_char_def positive_char_def Let_def)
  then obtain b2 where m2: "match_partial_char rules p (gc_partial c) = Some b2" by blast
  have mm: "matches rules p (cand_chr c) = b" using m by (auto simp: matches_def)
  show ?case using m m2 mm Cons.IH by (simp add: split_cand_def g_bind_def g_ret_def)
qed


lemma fits_at_char:
  assumes "cand_ok c"
  shows "cand_fits rules (p # ps) c \<longleftrightarrow>
    (if cand_chr c = 0 then pu_n_remain (gc_partial c) = 0 \<or> match_partial_char rules p (gc_partial c) = Some True
     else \<exists>t \<in> after_chr rules (cand_chr c) (p # ps). cand_fits rules t (next_cand c))"
proof (cases "cand_chr c = 0")
  case True then show ?thesis using cand_text_nil [OF assms] by (simp add: cand_fits_def partial_ok_def)
next
  case False then show ?thesis using cand_text_cons [OF assms False] by (auto simp: cand_fits_def)
qed

lemma reject_all_result:
  assumes "\<And>s cs. cands \<noteq> [] \<Longrightarrow> s \<in> set stacks \<Longrightarrow> set cs \<subseteq> set cands \<Longrightarrow> \<exists>r. f s cs = Some (Done r) \<and> set r = {c \<in> set cs. \<not> fits s c}"
    and "stacks \<noteq> []"
  shows "\<exists>r. reject_all f stacks cands = Some (Done r) \<and> set r = {c \<in> set cands. \<forall>s \<in> set stacks. \<not> fits s c}"
proof (cases "cands = []")
  case True then show ?thesis using assms(2) by (simp add: reject_all_def)
next
  case False
  have "\<exists>r. g_fold f stacks cs = Some (Done r) \<and> set r = {c \<in> set cs. \<forall>s \<in> set stacks. \<not> fits s c}" if "set cs \<subseteq> set cands" for cs
    using assms(1) [OF False] that
  proof (induction stacks arbitrary: cs)
    case (Cons s stacks)
    obtain r1 where r1: "f s cs = Some (Done r1)" "set r1 = {c \<in> set cs. \<not> fits s c}" using Cons.prems(1) [of s cs] Cons.prems(2) by auto
    have sub: "set r1 \<subseteq> set cands" using r1(2) Cons.prems(2) by auto
    have "\<exists>r. g_fold f stacks r1 = Some (Done r) \<and> set r = {c \<in> set r1. \<forall>s \<in> set stacks. \<not> fits s c}"
      by (rule Cons.IH [OF _ sub]) (use Cons.prems(1) in auto)
    then show ?case using r1 by (auto simp: g_bind_Done)
  qed simp
  then show ?thesis using assms(2) False by (simp add: reject_all_def)
qed

lemma after_chr_same:
  assumes "rules_wf rules" "pos_ok rules p" "match_char rules p 0 = Some (b, p')"
  shows "after_chr rules c (p # ps) = (if matches rules p c then {t. reach rules (push_pos rules p' ps) t \<and> final rules t} else {})"
proof (cases "matches rules p c")
  case True
  then obtain p'' where m: "match_char rules p c = Some (True, p'')" by (auto simp: matches_def)
  then have "p'' = p'" using match_char_pos(4) [OF assms m] by simp
  then show ?thesis using True m by (cases p') (auto simp: after_chr_def)
next
  case False then show ?thesis by (auto simp: after_chr_def matches_def)
qed

lemma reject_stack_result:
  "left_safe_rules rules \<Longrightarrow> token_free rules \<Longrightarrow> stack_ok rules s \<Longrightarrow> final rules s \<Longrightarrow> 0 < d \<Longrightarrow>
   \<forall>c \<in> set cands. cand_ok c \<and> length (cand_text c) < d \<Longrightarrow>
   \<exists>r. reject_stack d rules s cands = Some (Done r) \<and> set r = {c \<in> set cands. \<not> cand_fits rules s c}"
proof (induction d arbitrary: s cands)
  case 0 then show ?case by simp
next
  case (Suc d)
  have wf: "rules_wf rules" using Suc.prems(1) by (simp add: left_safe_rules_def)
  show ?case
  proof (cases s)
    case Nil
    have "set (reject_ended cands) = {c \<in> set cands. \<not> cand_fits rules [] c}"
      using Suc.prems(6) fits_empty_stack by (auto simp: reject_ended_def)
    then show ?thesis using Nil by simp
  next
    case (Cons p ps)
    have ok: "pos_ok rules p" "stack_ok rules ps" using stack_okD Suc.prems(3) Cons by auto
    have nt: "\<not> is_token_type (type_at rules p)" by (rule token_free_at [OF Suc.prems(2) ok(1)])
    have ty: "type_at rules p \<in> {GT_CHAR, GT_CHAR_ANY, GT_CHAR_NOT}"
      using Suc.prems(4) Cons nt by (auto simp: final_def is_terminal_def is_token_type_def)
    obtain b p' where m: "match_char rules p 0 = Some (b, p')" using match_char_some [OF ty] by blast
    have okp: "stack_ok rules (push_pos rules p' ps)" using match_char_pos(1) [OF wf ok(1) m] ok(2) by (rule push_ok)
    obtain nx where nx: "advance_stack rules (push_pos rules p' ps) [] = Some (Done nx)"
      "set nx = {t. reach rules (push_pos rules p' ps) t \<and> final rules t}" "nx \<noteq> []" "stacks_ok rules nx"
      using advance_stack_result [OF Suc.prems(1) okp] by blast
    let ?rej = "filter (\<lambda>c. if cand_chr c = 0 then pu_n_remain (gc_partial c) \<noteq> 0 \<and> match_partial_char rules p (gc_partial c) \<noteq> Some True
      else \<not> matches rules p (cand_chr c)) cands"
    let ?nxt = "map next_cand (filter (\<lambda>c. cand_chr c \<noteq> 0 \<and> matches rules p (cand_chr c)) cands)"
    have okn: "\<forall>c \<in> set ?nxt. cand_ok c \<and> length (cand_text c) < d"
      using Suc.prems(6) next_cand_ok cand_text_cons by fastforce
    have "\<exists>r. reject_all (reject_stack d rules) nx ?nxt = Some (Done r) \<and> set r = {c \<in> set ?nxt. \<forall>t \<in> set nx. \<not> cand_fits rules t c}"
    proof (rule reject_all_result [OF _ nx(3)])
      fix t cs assume h: "?nxt \<noteq> []" "t \<in> set nx" "set cs \<subseteq> set ?nxt"
      have "length (cand_text (hd ?nxt)) < d" using okn hd_in_set [OF h(1)] by blast
      then have "0 < d" by simp
      with h show "\<exists>r. reject_stack d rules t cs = Some (Done r) \<and> set r = {c \<in> set cs. \<not> cand_fits rules t c}"
        using okn nx(4) by (intro Suc.IH [OF Suc.prems(1,2)]) (auto simp: stacks_ok_def)
    qed
    then obtain nr where nr: "reject_all (reject_stack d rules) nx ?nxt = Some (Done nr)" "set nr = {c \<in> set ?nxt. \<forall>t \<in> set nx. \<not> cand_fits rules t c}" by blast
    have res: "reject_stack (Suc d) rules s cands = Some (Done (?rej @ map (\<lambda>c. c\<lparr>gc_at := gc_at c - 1\<rparr>) nr))"
      using Cons nt split_fold [OF ty, of cands "[]" "[]"] m nx(1) nr(1) by (simp add: g_bind_def g_ret_def)
    have a: "after_chr rules c (p # ps) = (if matches rules p c then set nx else {})" for c
      unfolding nx(2) by (rule after_chr_same [OF wf ok(1) m])
    let ?later = "\<lambda>c. cand_chr c \<noteq> 0 \<and> matches rules p (cand_chr c) \<and> (\<forall>t \<in> set nx. \<not> cand_fits rules t (next_cand c))"
    have i: "set (map (\<lambda>c. c\<lparr>gc_at := gc_at c - 1\<rparr>) nr) = {c \<in> set cands. ?later c}"
      unfolding set_map nr(2) by force
    have ii: "\<not> cand_fits rules s c \<longleftrightarrow> c \<in> set ?rej \<or> ?later c" if "c \<in> set cands" for c
      using fits_at_char [of c rules p ps] Suc.prems(6) that a [of "cand_chr c"] unfolding Cons by (cases "matches rules p (cand_chr c)") auto
    have iii: "set ?rej \<subseteq> set cands" by auto
    have "set (?rej @ map (\<lambda>c. c\<lparr>gc_at := gc_at c - 1\<rparr>) nr) = {c \<in> set cands. \<not> cand_fits rules s c}"
      unfolding set_append i using ii iii by blast
    then show ?thesis using res by blast
  qed
qed


lemma cand_text_length: "cand_ok c \<Longrightarrow> length (cand_text c) < length (gc_cps c)"
proof -
  assume a: "cand_ok c"
  then have "0 \<in> set (drop (gc_at c) (gc_cps c))" by (metis cand_ok_def drop_eq_Nil2 last_drop last_in_set linorder_not_le)
  then have "length (cand_text c) < length (drop (gc_at c) (gc_cps c))" 
  proof -
    let ?xs = "drop (gc_at c) (gc_cps c)"
    have "dropWhile (\<lambda>x. x \<noteq> 0) ?xs \<noteq> []" using \<open>0 \<in> set ?xs\<close> by (auto simp: dropWhile_eq_Nil_conv)
    moreover have "length ?xs = length (takeWhile (\<lambda>x. x \<noteq> 0) ?xs) + length (dropWhile (\<lambda>x. x \<noteq> 0) ?xs)"
      by (metis length_append takeWhile_dropWhile_id)
    ultimately show ?thesis by (simp add: cand_text_def)
  qed
  then show ?thesis by simp
qed

lemma reject_candidates_result:
  assumes "left_safe_rules rules" "token_free rules" "stacks_ok rules stacks" "stacks \<noteq> []" "\<forall>c \<in> set cands. cand_ok c"
  shows "\<exists>r. reject_candidates rules stacks cands = Some (Done r) \<and> set r = {c \<in> set cands. \<forall>s \<in> set stacks. \<not> cand_fits rules s c}"
  unfolding reject_candidates_def
proof (rule reject_all_result [OF _ assms(4)])
  let ?m = "Max (insert 0 ((\<lambda>c. length (gc_cps c)) ` set cands))"
  fix s cs assume h: "s \<in> set stacks" "set cs \<subseteq> set cands"
  have "length (cand_text c) < Suc ?m" if "c \<in> set cs" for c
  proof -
    have "length (gc_cps c) \<le> ?m" using that h(2) by (intro Max_ge) auto
    then show ?thesis using cand_text_length [of c] assms(5) that h(2) by fastforce
  qed
  then show "\<exists>r. reject_stack (Suc ?m) rules s cs = Some (Done r) \<and> set r = {c \<in> set cs. \<not> cand_fits rules s c}"
    using h assms(3,5) by (intro reject_stack_result [OF assms(1,2)]) (auto simp: stacks_ok_def)
qed

subsection \<open>Masking and accepting agree\<close>

lemma utf8_rest_last: "fst (utf8_rest bs cps v n) \<noteq> [] \<and> last (fst (utf8_rest bs cps v n)) = 0"
  by (induction bs cps v n rule: utf8_rest.induct) (auto simp: Let_def split: prod.splits)

lemma decode_last: "fst (decode_utf8 bs pu) \<noteq> [] \<and> last (fst (decode_utf8 bs pu)) = 0"
  using utf8_rest_last by (auto simp: decode_utf8_def split: option.splits prod.splits)

definition text_of :: "8 word list \<Rightarrow> partial_utf8 \<Rightarrow> nat list" where
  "text_of piece pu = butlast (fst (decode_utf8 piece pu))"

lemma accept_token_stack_set:
  assumes "left_safe_rules rules" "token_free rules" "stack_ok rules s" "final rules s"
  shows "\<exists>r. accept_token_stack rules tok cps s new = Some (Done r) \<and> set r = set new \<union> (if s = [] then {} else after_cps rules cps s)"
proof (cases s)
  case Nil then show ?thesis by (simp add: accept_token_stack_def)
next
  case (Cons p ps)
  have nt: "\<not> is_token_type (type_at rules p)" using token_free_at [OF assms(2)] stack_okD assms(3) Cons by blast
  obtain r where r: "accept_cps rules cps [s] = Some (Done r)"
    using accept_cps_returns [OF assms(1), of "[s]" cps] assms(3,4) by (auto simp: stacks_ok_def)
  have f: "set (fold add_stack xs ys) = set ys \<union> set xs" for xs ys by (induction xs arbitrary: ys) (auto simp: set_add_stack)
  have "set r = after_cps rules cps s" using accept_cps_set [OF r] by simp
  then show ?thesis using Cons nt r f by (simp add: accept_token_stack_def g_bind_def g_ret_def)
qed

lemma accept_token_stacks:
  assumes "left_safe_rules rules" "token_free rules" "stacks_ok rules stacks"
  shows "\<exists>r. g_fold (accept_token_stack rules tok cps) stacks new = Some (Done r) \<and>
    set r = set new \<union> (\<Union>s \<in> {s \<in> set stacks. s \<noteq> []}. after_cps rules cps s)"
  using assms(3)
proof (induction stacks arbitrary: new)
  case (Cons s stacks)
  obtain r1 where r1: "accept_token_stack rules tok cps s new = Some (Done r1)" "set r1 = set new \<union> (if s = [] then {} else after_cps rules cps s)"
    using accept_token_stack_set [OF assms(1,2), of s tok cps new] Cons.prems unfolding stacks_ok_def by auto
  obtain r where r: "g_fold (accept_token_stack rules tok cps) stacks r1 = Some (Done r)"
    "set r = set r1 \<union> (\<Union>s \<in> {s \<in> set stacks. s \<noteq> []}. after_cps rules cps s)"
    using Cons.IH [of r1] Cons.prems by (auto simp: stacks_ok_def)
  show ?case using r r1 by (auto simp: g_bind_Done)
qed simp

lemma accept_token_result:
  assumes "grammar_ok g" "token_free (gm_rules g)"
  shows "\<exists>threw g'. grammar_accept_token tok piece g = Some (Done (threw, g')) \<and> gm_rules g' = gm_rules g \<and>
    (threw \<longleftrightarrow> (\<forall>s \<in> set (gm_stacks g). s \<noteq> [] \<longrightarrow> after_cps (gm_rules g) (text_of piece (gm_partial g)) s = {}))"
proof -
  obtain r where r: "g_fold (accept_token_stack (gm_rules g) tok (text_of piece (gm_partial g))) (gm_stacks g) [] = Some (Done r)"
    "set r = (\<Union>s \<in> {s \<in> set (gm_stacks g). s \<noteq> []}. after_cps (gm_rules g) (text_of piece (gm_partial g)) s)"
    using accept_token_stacks [of "gm_rules g" "gm_stacks g" tok "text_of piece (gm_partial g)" "[]"] assms by (auto simp: grammar_ok_def)
  have "r = [] \<longleftrightarrow> (\<forall>s \<in> set (gm_stacks g). s \<noteq> [] \<longrightarrow> after_cps (gm_rules g) (text_of piece (gm_partial g)) s = {})"
    using r(2) by (cases "r = []") (auto simp flip: set_empty)
  moreover obtain cps pu where "decode_utf8 piece (gm_partial g) = (cps, pu)" by (cases "decode_utf8 piece (gm_partial g)")
  ultimately show ?thesis using r(1) by (simp add: grammar_accept_token_def text_of_def g_bind_def g_ret_def)
qed


lemma utf8_tail_end: "utf8_tail bs v n = (bs', v', n') \<Longrightarrow> 0 < n' \<Longrightarrow> bs' = []"
  by (induction bs v n rule: utf8_tail.induct) (auto split: if_splits)

lemma utf8_tail_nonneg: "utf8_tail bs v n = (bs', v', n') \<Longrightarrow> 0 \<le> n \<Longrightarrow> 0 \<le> n'"
  by (induction bs v n rule: utf8_tail.induct) (auto split: if_splits)

lemma utf8_rest_nonempty:
  "utf8_rest bs cps v n = (c, pu) \<Longrightarrow> pu_n_remain pu = 0 \<Longrightarrow> bs \<noteq> [] \<or> cps \<noteq> [] \<Longrightarrow> butlast c \<noteq> []"
proof (induction bs cps v n rule: utf8_rest.induct)
  case (1 cps v n) then show ?case by auto
next
  case (2 b bs cps v n)
  define n1 where "n1 = utf8_lookup ! unat (drop_bit 4 b) - 1"
  obtain bs' v' n' where t: "utf8_tail bs (unat b mod 2 ^ nat (7 - n1)) n1 = (bs', v', n')" by (metis prod_cases3)
  show ?case
  proof (cases "n1 < 0")
    case True then show ?thesis using "2.prems"(1,2) by (auto simp flip: n1_def)
  next
    case False
    then have r: "utf8_rest bs' (if n' = 0 then cps @ [v'] else cps) v' n' = (c, pu)"
      using "2.prems"(1) t by (simp add: Let_def flip: n1_def)
    show ?thesis
    proof (cases "n' = 0")
      case True
      show ?thesis using "2.IH" [OF n1_def False t [symmetric] refl r "2.prems"(2)] True by simp
    next
      case nz: False
      then have "bs' = []" using utf8_tail_end [OF t] utf8_tail_nonneg [OF t] False by simp
      then show ?thesis using r nz "2.prems"(2) by auto
    qed
  qed
qed

lemma utf8_resume_end: "utf8_resume bs v n = Some (bs', v', n') \<Longrightarrow> 0 < n' \<Longrightarrow> bs' = []"
  by (induction bs v n rule: utf8_resume.induct) (auto split: if_splits)

lemma utf8_resume_nonneg: "utf8_resume bs v n = Some (bs', v', n') \<Longrightarrow> 0 \<le> n \<Longrightarrow> 0 \<le> n'"
  by (induction bs v n rule: utf8_resume.induct) (auto split: if_splits)

lemma utf8_resume_none: "n \<le> 0 \<Longrightarrow> utf8_resume bs v n = Some (bs, v, n)"
  by (cases bs) auto

lemma decode_nonempty:
  assumes "piece \<noteq> []" "piece ! 0 \<noteq> 0" "pu_n_remain (snd (decode_utf8 piece pu)) = 0"
  shows "text_of piece pu \<noteq> []"
proof -
  have c: "c_str piece \<noteq> []" using assms(1,2) by (cases piece) (auto simp: c_str_def)
  obtain bs v n where r: "utf8_resume (c_str piece) (pu_value pu) (pu_n_remain pu) = Some (bs, v, n)"
    using assms(3) by (auto simp: decode_utf8_def split: option.splits)
  define cps where "cps = (if pu_n_remain pu > 0 \<and> n = 0 then [v] else [])"
  obtain out pu' where o: "utf8_rest bs cps v n = (out, pu')" by (cases "utf8_rest bs cps v n")
  have d: "decode_utf8 piece pu = (out, pu')" using r o by (simp add: decode_utf8_def cps_def)
  show ?thesis
  proof (cases "pu_n_remain pu > 0")
    case True
    show ?thesis
    proof (cases "n = 0")
      case n0: True
      then show ?thesis using utf8_rest_nonempty [OF o] True d assms(3) by (simp add: cps_def text_of_def)
    next
      case False
      then have "bs = []" using utf8_resume_end [OF r] utf8_resume_nonneg [OF r] True by simp
      then show ?thesis using False o d assms(3) by auto
    qed
  next
    case False
    then have "bs = c_str piece" using utf8_resume_none [of "pu_n_remain pu" "c_str piece" "pu_value pu"] r by simp
    then show ?thesis using utf8_rest_nonempty [OF o] c d assms(3) by (simp add: text_of_def)
  qed
qed

definition masked :: "token_data \<Rightarrow> token_data" where
  "masked t = t\<lparr>td_logit := neg_infinity\<rparr>"

definition usable :: "8 word list \<Rightarrow> bool" where
  "usable piece \<longleftrightarrow> piece \<noteq> [] \<and> piece ! 0 \<noteq> 0"

definition piece_cand :: "(llama_token \<Rightarrow> 8 word list) \<Rightarrow> partial_utf8 \<Rightarrow> token_data list \<Rightarrow> nat \<Rightarrow> gcand" where
  "piece_cand token_to_piece pu data i = (case decode_utf8 (token_to_piece (td_id (data ! i))) pu of (cps, pu') \<Rightarrow>
     \<lparr>gc_index = i, gc_cps = cps, gc_at = 0, gc_partial = pu', gc_id = td_id (data ! i)\<rparr>)"

definition always_masked :: "(llama_token \<Rightarrow> 8 word list) \<Rightarrow> (llama_token \<Rightarrow> bool) \<Rightarrow> bool \<Rightarrow> llama_token \<Rightarrow> bool" where
  "always_masked tp eog allow tok \<longleftrightarrow> (if eog tok then \<not> allow else \<not> usable (tp tok))"

lemma apply_token_eq:
  "apply_token tp eog allow pu i (data, cands) =
     (if always_masked tp eog allow (td_id (data ! i)) then mask_token i data else data,
      if \<not> eog (td_id (data ! i)) \<and> usable (tp (td_id (data ! i))) then cands @ [piece_cand tp pu data i] else cands)"
  by (simp add: apply_token_def Let_def usable_def always_masked_def piece_cand_def split: prod.splits)

lemma apply_tokens_result:
  "n \<le> length data \<Longrightarrow> \<exists>data'. fold (apply_token tp eog allow pu) [0..<n] (data, []) =
     (data', map (piece_cand tp pu data) (filter (\<lambda>i. \<not> eog (td_id (data ! i)) \<and> usable (tp (td_id (data ! i)))) [0..<n])) \<and>
     length data' = length data \<and>
     (\<forall>i < length data. data' ! i = (if i < n \<and> always_masked tp eog allow (td_id (data ! i)) then masked (data ! i) else data ! i))"
proof (induction n)
  case (Suc n)
  then obtain data' where d: "fold (apply_token tp eog allow pu) [0..<n] (data, []) =
     (data', map (piece_cand tp pu data) (filter (\<lambda>i. \<not> eog (td_id (data ! i)) \<and> usable (tp (td_id (data ! i)))) [0..<n]))"
    "length data' = length data"
    "\<forall>i < length data. data' ! i = (if i < n \<and> always_masked tp eog allow (td_id (data ! i)) then masked (data ! i) else data ! i)"
    by auto
  have n: "data' ! n = data ! n" using d(3) Suc.prems by simp
  then have p: "piece_cand tp pu data' n = piece_cand tp pu data n" by (simp add: piece_cand_def)
  let ?data = "if always_masked tp eog allow (td_id (data ! n)) then mask_token n data' else data'"
  have "\<forall>i < length data. ?data ! i = (if i < Suc n \<and> always_masked tp eog allow (td_id (data ! i)) then masked (data ! i) else data ! i)"
    using d(2,3) n Suc.prems by (auto simp: mask_token_def masked_def nth_list_update less_Suc_eq)
  moreover have "length ?data = length data" using d(2) by (simp add: mask_token_def)
  ultimately show ?case using d(1) n p by (intro exI [of _ ?data]) (simp add: apply_token_eq)
qed simp

lemma mask_fold:
  "length (fold (\<lambda>c. mask_token (gc_index c)) cs data) = length data \<and>
   (\<forall>i < length data. fold (\<lambda>c. mask_token (gc_index c)) cs data ! i = (if i \<in> gc_index ` set cs then masked (data ! i) else data ! i))"
proof (induction cs arbitrary: data)
  case (Cons c cs)
  have l: "length (mask_token (gc_index c) data) = length data" by (simp add: mask_token_def)
  have "mask_token (gc_index c) data ! i = (if i = gc_index c then masked (data ! i) else data ! i)" if "i < length data" for i
    using that by (auto simp: mask_token_def masked_def)
  then show ?case using Cons [of "mask_token (gc_index c) data"] l by (auto simp: masked_def)
qed simp


lemma grammar_apply_result:
  assumes "grammar_ok g" "token_free (gm_rules g)" "gm_stacks g \<noteq> []" "\<not> gm_awaiting_trigger g"
  shows "\<exists>data'. grammar_apply tp eog g data = Some (Done data') \<and> length data' = length data \<and>
    (\<forall>i < length data. data' ! i = (if always_masked tp eog ([] \<in> set (gm_stacks g)) (td_id (data ! i)) \<or>
       \<not> eog (td_id (data ! i)) \<and> usable (tp (td_id (data ! i))) \<and>
       (\<forall>s \<in> set (gm_stacks g). \<not> cand_fits (gm_rules g) s (piece_cand tp (gm_partial g) data i)) then masked (data ! i) else data ! i))"
proof -
  let ?allow = "[] \<in> set (gm_stacks g)" and ?cand = "piece_cand tp (gm_partial g) data"
  let ?ok = "\<lambda>i. \<not> eog (td_id (data ! i)) \<and> usable (tp (td_id (data ! i)))"
  let ?cands = "map ?cand (filter ?ok [0..<length data])"
  obtain d1 where d1: "fold (apply_token tp eog ?allow (gm_partial g)) [0..<length data] (data, []) = (d1, ?cands)"
    "length d1 = length data" "\<forall>i < length data. d1 ! i = (if always_masked tp eog ?allow (td_id (data ! i)) then masked (data ! i) else data ! i)"
    using apply_tokens_result [of "length data" data tp eog ?allow "gm_partial g"] by auto
  have ok: "\<forall>c \<in> set ?cands. cand_ok c" using decode_last by (auto simp: cand_ok_def piece_cand_def split: prod.splits) (metis fst_conv)+
  obtain rej where rej: "reject_candidates (gm_rules g) (gm_stacks g) ?cands = Some (Done rej)"
    "set rej = {c \<in> set ?cands. \<forall>s \<in> set (gm_stacks g). \<not> cand_fits (gm_rules g) s c}"
    using reject_candidates_result [of "gm_rules g" "gm_stacks g" ?cands] assms ok by (auto simp: grammar_ok_def)
  define d2 where "d2 = fold (\<lambda>c. mask_token (gc_index c)) rej d1"
  have idx: "gc_index (?cand i) = i" for i by (simp add: piece_cand_def split: prod.splits)
  have r: "i \<in> gc_index ` set rej \<longleftrightarrow> ?ok i \<and> (\<forall>s \<in> set (gm_stacks g). \<not> cand_fits (gm_rules g) s (?cand i))" if "i < length data" for i
    unfolding rej(2) using idx that by (force simp: image_iff)
  have "length d2 = length data" using mask_fold [of rej d1] d1(2) by (simp add: d2_def)
  moreover have "d2 ! i = (if always_masked tp eog ?allow (td_id (data ! i)) \<or> ?ok i \<and> (\<forall>s \<in> set (gm_stacks g). \<not> cand_fits (gm_rules g) s (?cand i)) then masked (data ! i) else data ! i)"
    if "i < length data" for i
    using mask_fold [of rej d1] d1(2,3) that r [OF that] by (simp add: d2_def masked_def)
  moreover have "grammar_apply tp eog g data = Some (Done d2)"
    using assms(4) d1(1) rej(1) by (simp add: grammar_apply_def g_bind_def g_ret_def d2_def)
  ultimately show ?thesis by auto
qed

lemma takeWhile_zero: "(0 :: nat) \<notin> set xs \<Longrightarrow> takeWhile (\<lambda>x. x \<noteq> 0) (xs @ [0]) = xs"
  by (induction xs) auto

lemma fits_text:
  assumes "0 \<notin> set (text_of (tp (td_id (data ! i))) pu)"
  shows "cand_fits rules s (piece_cand tp pu data i) \<longleftrightarrow>
    (\<exists>t \<in> after_cps rules (text_of (tp (td_id (data ! i))) pu) s. partial_ok rules (snd (decode_utf8 (tp (td_id (data ! i))) pu)) t)"
proof -
  let ?piece = "tp (td_id (data ! i))"
  obtain cps pu' where d: "decode_utf8 ?piece pu = (cps, pu')" by (cases "decode_utf8 ?piece pu")
  have l: "cps \<noteq> []" "last cps = 0" using decode_last [of ?piece pu] d by simp_all
  have "cps = text_of ?piece pu @ [0]" using l d by (simp add: text_of_def) (metis append_butlast_last_id)
  then have "takeWhile (\<lambda>x. x \<noteq> 0) cps = text_of ?piece pu" using takeWhile_zero [OF assms] by simp
  then show ?thesis using d by (simp add: cand_fits_def cand_text_def piece_cand_def)
qed

subsection \<open>Properties of sampling\<close>

text \<open>C10. Masking and accepting agree in a grammar without token elements: it returns, a token whose logit is not masked is then accepted
  without an exception, and a token with a complete text that would be accepted keeps its logit.\<close>

theorem apply_accept_agree:
  assumes "grammar_ok g" "token_free (gm_rules g)" "gm_stacks g \<noteq> []" "\<not> gm_awaiting_trigger g"
  shows "\<exists>data'. grammar_apply tp eog g data = Some (Done data') \<and> length data' = length data \<and>
    (\<forall>i < length data. let tok = td_id (data ! i) in \<not> eog tok \<longrightarrow> 0 \<notin> set (text_of (tp tok) (gm_partial g)) \<longrightarrow>
      (\<exists>threw g'. grammar_accept_token tok (tp tok) g = Some (Done (threw, g')) \<and>
         (td_logit (data' ! i) \<noteq> neg_infinity \<longrightarrow> \<not> threw) \<and>
         (\<not> threw \<and> usable (tp tok) \<and> pu_n_remain (snd (decode_utf8 (tp tok) (gm_partial g))) = 0 \<longrightarrow> data' ! i = data ! i)))"
proof -
  let ?allow = "[] \<in> set (gm_stacks g)" and ?cand = "piece_cand tp (gm_partial g) data"
  obtain data' where d: "grammar_apply tp eog g data = Some (Done data')" "length data' = length data"
    "\<forall>i < length data. data' ! i = (if always_masked tp eog ?allow (td_id (data ! i)) \<or>
       \<not> eog (td_id (data ! i)) \<and> usable (tp (td_id (data ! i))) \<and> (\<forall>s \<in> set (gm_stacks g). \<not> cand_fits (gm_rules g) s (?cand i))
       then masked (data ! i) else data ! i)"
    using grammar_apply_result [OF assms, of tp eog data] by blast
  have "\<exists>threw g'. grammar_accept_token (td_id (data ! i)) (tp (td_id (data ! i))) g = Some (Done (threw, g')) \<and>
      (td_logit (data' ! i) \<noteq> neg_infinity \<longrightarrow> \<not> threw) \<and>
      (\<not> threw \<and> usable (tp (td_id (data ! i))) \<and> pu_n_remain (snd (decode_utf8 (tp (td_id (data ! i))) (gm_partial g))) = 0 \<longrightarrow> data' ! i = data ! i)"
    if i: "i < length data" "\<not> eog (td_id (data ! i))" "0 \<notin> set (text_of (tp (td_id (data ! i))) (gm_partial g))" for i
  proof -
    define tok piece where "tok = td_id (data ! i)" and "piece = tp tok"
    define fits where "fits s \<longleftrightarrow> (\<exists>t \<in> after_cps (gm_rules g) (text_of piece (gm_partial g)) s. partial_ok (gm_rules g) (snd (decode_utf8 piece (gm_partial g))) t)" for s
    obtain threw g' where a: "grammar_accept_token tok piece g = Some (Done (threw, g'))"
      "threw \<longleftrightarrow> (\<forall>s \<in> set (gm_stacks g). s \<noteq> [] \<longrightarrow> after_cps (gm_rules g) (text_of piece (gm_partial g)) s = {})"
      using accept_token_result [OF assms(1,2), of tok piece] by blast
    have m: "data' ! i = (if \<not> usable piece \<or> (\<forall>s \<in> set (gm_stacks g). \<not> fits s) then masked (data ! i) else data ! i)"
      using d(3) i(1,2) fits_text [of tp data i "gm_partial g", OF i(3)] by (simp add: always_masked_def fits_def tok_def piece_def)
    have e: "\<not> fits []" if "usable piece"
      using decode_nonempty [of piece "gm_partial g"] that
      by (cases "text_of piece (gm_partial g)") (auto simp: fits_def usable_def partial_ok_def after_chr_nil)
    have "\<not> threw" if "td_logit (data' ! i) \<noteq> neg_infinity"
    proof -
      have "usable piece" "\<exists>s \<in> set (gm_stacks g). fits s" using m that by (auto simp: masked_def split: if_splits)
      then show ?thesis using a(2) e by (auto simp: fits_def)
    qed
    moreover have "data' ! i = data ! i" if "\<not> threw" "usable piece" "pu_n_remain (snd (decode_utf8 piece (gm_partial g))) = 0"
      using m that a(2) by (auto simp: fits_def partial_ok_def)
    ultimately show ?thesis using a(1) by (auto simp: tok_def piece_def)
  qed
  then show ?thesis using d(1,2) by (auto simp: Let_def)
qed


lemma letter_ok: "grammar_ok letter_grammar"
  using grammar_init_returns [OF letter_ready] letter_init by auto

theorem apply_accept_agree_witness:
  "\<exists>data'. grammar_apply (\<lambda>tok. [97]) (\<lambda>tok. False) letter_grammar [\<lparr>td_id = 1, td_logit = 0\<rparr>] = Some (Done data') \<and> length data' = 1"
proof -
  have "token_free (gm_rules letter_grammar)" "gm_stacks letter_grammar \<noteq> []" "\<not> gm_awaiting_trigger letter_grammar"
    by (simp_all add: letter_grammar_def letter_rules_def token_free_def is_token_type_def)
  from apply_accept_agree [OF letter_ok this, of "\<lambda>tok. [97]" "\<lambda>tok. False" "[\<lparr>td_id = 1, td_logit = 0\<rparr>]"] show ?thesis by auto
qed

definition token_grammar :: grammar where
  \<comment> \<open>\<open>root ::= "a" <[5]>\<close>\<close>
  "token_grammar = \<lparr>gm_rules = [[\<lparr>ge_type = GT_CHAR, ge_value = 97\<rparr>, \<lparr>ge_type = GT_TOKEN, ge_value = 5\<rparr>, \<lparr>ge_type = GT_END, ge_value = 0\<rparr>]],
     gm_stacks = [[(0, 0)]], gm_partial = \<lparr>pu_value = 0, pu_n_remain = 0\<rparr>, gm_awaiting_trigger = False,
     gm_trigger_buffer = [], gm_trigger_positions = [], gm_trigger_tokens = []\<rparr>"

definition char_grammar :: grammar where
  \<comment> \<open>\<open>root ::= "a"\<close>\<close>
  "char_grammar = token_grammar\<lparr>gm_rules := [[\<lparr>ge_type = GT_CHAR, ge_value = 97\<rparr>, \<lparr>ge_type = GT_END, ge_value = 0\<rparr>]]\<rparr>"

lemmas grammar_eval = grammar_accept_token_def grammar_apply_def apply_token_def decode_utf8_def c_str_def utf8_lookup_def utf8_cont_def accept_token_stack_def
  reject_candidates_def reject_all_def reject_ended_def reject_tokens_def split_cand_def cand_chr_def match_char_def match_token_def match_partial_char_def
  positive_char_def is_token_type_def advance_stack_def advance_loop.simps add_stack_def is_terminal_def push_pos_def is_end_of_sequence_def
  accept_stacks_def accept_chr_def pos_add_def elem_at_def g_bind_def g_ret_def mask_token_def Let_def

text \<open>Masking and accepting disagree in two cases: a token element that is reached in the middle of a piece, and an overlong encoding
  of zero inside a piece. Both tokens keep their logit, and accepting them throws.\<close>

theorem apply_accept_differ:
  "grammar_apply (\<lambda>tok. [97, 98]) (\<lambda>tok. False) token_grammar [\<lparr>td_id = 5, td_logit = 0\<rparr>] = Some (Done [\<lparr>td_id = 5, td_logit = 0\<rparr>]) \<and>
   map_option (map_gout fst) (grammar_accept_token 5 [97, 98] token_grammar) = Some (Done True) \<and>
   grammar_apply (\<lambda>tok. [0xC0, 0x80]) (\<lambda>tok. False) char_grammar [\<lparr>td_id = 5, td_logit = 0\<rparr>] = Some (Done [\<lparr>td_id = 5, td_logit = 0\<rparr>]) \<and>
   map_option (map_gout fst) (grammar_accept_token 5 [0xC0, 0x80] char_grammar) = Some (Done True)"
  apply (intro conjI)
     apply (simp add: grammar_eval token_grammar_def)
    apply (simp add: grammar_eval token_grammar_def)
   apply (simp add: grammar_eval token_grammar_def char_grammar_def)
  apply (simp add: grammar_eval token_grammar_def char_grammar_def)
  done

end
