(* ===== verification/GrammarTrigger.thy ===== *)
theory GrammarTrigger
  imports GrammarSample
begin

text \<open>
  A grammar over its life: what every operation keeps, that a text can always be completed, and the
  tokens that are buffered until a trigger is found.
\<close>

subsection \<open>Pointers stay inside the rules\<close>

lemma stacks_ok_set: "set r \<subseteq> set a \<union> set b \<Longrightarrow> stacks_ok rules a \<Longrightarrow> stacks_ok rules b \<Longrightarrow> stacks_ok rules r"
  unfolding stacks_ok_def by blast

lemma advance_stack_ok:
  assumes "left_safe_rules rules" "stack_ok rules s" "stacks_ok rules new"
  shows "\<exists>r. advance_stack rules s new = Some (Done r) \<and> stacks_ok rules r"
proof -
  have wf: "rules_wf rules" using assms(1) by (simp add: left_safe_rules_def)
  obtain r where r: "advance_stack rules s new = Some (Done r)" using advance_stack_returns [OF assms(1,2), of new] by (auto simp: returns_def)
  have "stacks_ok rules r" using advance_stack_reach(1) [OF r] reach_ok [OF _ wf assms(2)] assms(3) by (auto simp: stacks_ok_def)
  then show ?thesis using r by blast
qed

lemma accept_cps_ok:
  "left_safe_rules rules \<Longrightarrow> stacks_ok rules current \<Longrightarrow> \<exists>r. accept_cps rules cs current = Some (Done r) \<and> stacks_ok rules r"
proof (induction cs arbitrary: current)
  case (Cons c cs)
  obtain st where "accept_stacks rules c current = Some (Done st)" "stacks_ok rules st"
    using accept_stacks_returns [OF Cons.prems] by blast
  then show ?case using Cons.IH [OF Cons.prems(1)] by (auto simp: g_bind_def g_ret_def stacks_ok_def)
qed (simp add: g_ret_def)

lemma set_fold_add: "set (fold add_stack xs ys) = set ys \<union> set xs"
  by (induction xs arbitrary: ys) (auto simp: set_add_stack)

lemma accept_token_stack_ok:
  assumes "left_safe_rules rules" "stack_ok rules s" "final rules s" "stacks_ok rules new"
  shows "\<exists>r. accept_token_stack rules tok cps s new = Some (Done r) \<and> stacks_ok rules r"
proof (cases s)
  case Nil then show ?thesis using assms(4) by (simp add: accept_token_stack_def g_ret_def)
next
  case (Cons p ps)
  have wf: "rules_wf rules" using assms(1) by (simp add: left_safe_rules_def)
  show ?thesis
  proof (cases "is_token_type (type_at rules p)")
    case True
    then have "pos_ok rules (pos_add p 1)" using next_pos_ok [OF wf] stack_okD assms(2) Cons by (auto simp: is_token_type_def)
    then have "stack_ok rules (push_pos rules (pos_add p 1) ps)" using stack_okD assms(2) Cons by (intro push_ok) auto
    then show ?thesis using advance_stack_ok [OF assms(1) _ assms(4)] assms(4) Cons True by (auto simp: accept_token_stack_def g_ret_def)
  next
    case False
    obtain r where "accept_cps rules cps [s] = Some (Done r)" "stacks_ok rules r"
      using accept_cps_ok [OF assms(1), of "[s]" cps] assms(2,3) by (auto simp: stacks_ok_def)
    then show ?thesis using stacks_ok_set [of "fold add_stack r new" new r rules] assms(4) Cons False
      by (simp add: accept_token_stack_def g_bind_def g_ret_def set_fold_add)
  qed
qed

lemma accept_token_ok:
  assumes "grammar_ok g"
  shows "\<exists>threw g'. grammar_accept_token tok piece g = Some (Done (threw, g')) \<and> grammar_ok g' \<and>
    gm_rules g' = gm_rules g \<and> gm_trigger_buffer g' = gm_trigger_buffer g"
proof -
  have h: "\<exists>r. g_fold (accept_token_stack (gm_rules g) tok cps) st new = Some (Done r) \<and> stacks_ok (gm_rules g) r"
    if "stacks_ok (gm_rules g) st" "stacks_ok (gm_rules g) new" for cps st new
    using that
  proof (induction st arbitrary: new)
    case (Cons s st)
    obtain r where "accept_token_stack (gm_rules g) tok cps s new = Some (Done r)" "stacks_ok (gm_rules g) r"
      using accept_token_stack_ok [of "gm_rules g" s new tok cps] assms Cons.prems by (auto simp: grammar_ok_def stacks_ok_def)
    then show ?case using Cons.IH [of r] Cons.prems(1) by (simp add: g_bind_def stacks_ok_def)
  qed (simp add: g_ret_def)
  then obtain r where "g_fold (accept_token_stack (gm_rules g) tok (butlast (fst (decode_utf8 piece (gm_partial g))))) (gm_stacks g) [] = Some (Done r)"
    "stacks_ok (gm_rules g) r"
  proof -
    have "stacks_ok (gm_rules g) (gm_stacks g)" "stacks_ok (gm_rules g) []" using assms by (simp_all add: grammar_ok_def stacks_ok_def)
    from h [OF this] show thesis using that by blast
  qed
  moreover obtain cps pu where "decode_utf8 piece (gm_partial g) = (cps, pu)" by (cases "decode_utf8 piece (gm_partial g)")
  ultimately show ?thesis using assms by (simp add: grammar_accept_token_def g_bind_def g_ret_def grammar_ok_def)
qed

subsection \<open>Buffered tokens\<close>

fun slices :: "nat \<Rightarrow> nat \<Rightarrow> (llama_token \<times> nat \<times> nat) list \<Rightarrow> bool" where
  \<comment> \<open>the positions cover the buffer from \<open>n\<close> to its end without gaps\<close>
  "slices n m [] \<longleftrightarrow> n = m"
| "slices n m ((_, a, b) # ps) \<longleftrightarrow> a = n \<and> a \<le> b \<and> slices b m ps"

definition buffer_ok :: "grammar \<Rightarrow> bool" where
  "buffer_ok g \<longleftrightarrow> slices 0 (length (gm_trigger_buffer g)) (gm_trigger_positions g)"

fun replayed :: "nat \<Rightarrow> 8 word list \<Rightarrow> (llama_token \<times> nat \<times> nat) list \<Rightarrow> (llama_token \<times> 8 word list) list" where
  "replayed start buf [] = []"
| "replayed start buf ((tok, a, b) # ps) = (if b \<le> start then replayed start buf ps
     else (tok, take (b - max a start) (drop (max a start) buf)) # replayed start buf ps)"

fun accept_pieces :: "(llama_token \<times> 8 word list) list \<Rightarrow> grammar \<Rightarrow> (bool \<times> grammar) gres" where
  "accept_pieces [] g = g_ret (False, g)"
| "accept_pieces ((tok, piece) # ps) g = g_bind (grammar_accept_token tok piece g) (\<lambda>(threw, g). if threw then g_ret (True, g) else accept_pieces ps g)"

lemma slices_append: "slices n m (ps @ [(tok, a, b)]) \<longleftrightarrow> slices n a ps \<and> a \<le> b \<and> b = m"
  by (induction n m ps rule: slices.induct) auto

lemma slices_le: "slices n m ps \<Longrightarrow> n \<le> m"
  by (induction n m ps rule: slices.induct) auto

lemma replayed_bytes:
  "slices n (length buf) ps \<Longrightarrow> concat (map snd (replayed start buf ps)) = drop (max n start) buf"
proof (induction n "length buf" ps rule: slices.induct)
  case (2 n tok a b ps)
  show ?case
  proof (cases "b \<le> start")
    case True then show ?thesis using 2 by (auto simp: max_def)
  next
    case False
    then have m: "max b start = b" "max a start \<le> b" using "2.prems" by auto
    have "take (b - max a start) (drop (max a start) buf) @ drop b buf = drop (max a start) buf"
      using append_take_drop_id [of "b - max a start" "drop (max a start) buf"] m(2) by simp
    then show ?thesis using 2 False m by simp
  qed
qed simp

lemma replay_pieces:
  "grammar_ok g \<Longrightarrow> replay_tokens start ps g = accept_pieces (replayed start (gm_trigger_buffer g) ps) g"
proof (induction start ps g rule: replay_tokens.induct)
  case (2 start tok a b ts g)
  show ?case
  proof (cases "b \<le> start")
    case True then show ?thesis using 2 by simp
  next
    case False
    have m: "max a start = (if a < start then start else a)" by simp
    obtain threw g' where g': "grammar_accept_token tok (take (b - max a start) (drop (max a start) (gm_trigger_buffer g))) g = Some (Done (threw, g'))"
      "grammar_ok g'" "gm_trigger_buffer g' = gm_trigger_buffer g"
      using accept_token_ok [OF "2.prems"] by blast
    show ?thesis
    proof (cases threw)
      case True then show ?thesis using False g'(1) by (simp add: g_bind_def Let_def m [symmetric])
    next
      case nt: False
      have "replay_tokens start ts g' = accept_pieces (replayed start (gm_trigger_buffer g') ts) g'"
        using "2.IH"(2) [OF False refl] nt g'(2) by simp
      then show ?thesis using False nt g'(1,3) by (simp add: g_bind_def Let_def m [symmetric])
    qed
  qed
qed simp


definition buffer_token :: "llama_token \<Rightarrow> 8 word list \<Rightarrow> grammar \<Rightarrow> grammar" where
  "buffer_token tok piece g = g\<lparr>gm_trigger_positions := gm_trigger_positions g @
     [(tok, length (gm_trigger_buffer g), length (gm_trigger_buffer g) + length piece)], gm_trigger_buffer := gm_trigger_buffer g @ piece\<rparr>"

lemma buffer_token_ok: "buffer_ok g \<Longrightarrow> buffer_ok (buffer_token tok piece g)"
proof -
  assume "buffer_ok g"
  moreover have "slices n m ps \<Longrightarrow> slices n (m + length piece) (ps @ [(tok, m, m + length piece)])" for n m ps by (simp add: slices_append)
  ultimately show ?thesis by (simp add: buffer_ok_def buffer_token_def)
qed

definition triggered :: "bool \<times> grammar \<Rightarrow> bool \<times> grammar" where
  "triggered = (\<lambda>(threw, g). if threw then (True, g) else (False, g\<lparr>gm_trigger_buffer := [], gm_trigger_positions := []\<rparr>))"

lemma accept_impl_waiting:
  "gm_awaiting_trigger g \<Longrightarrow> tok \<notin> set (gm_trigger_tokens g) \<Longrightarrow>
   grammar_accept_impl tp eog find_in pats tok g =
     (case find_trigger find_in pats (gm_trigger_buffer (buffer_token tok (tp tok) g)) of
        None \<Rightarrow> g_ret (False, buffer_token tok (tp tok) g)
      | Some start \<Rightarrow> g_bind (replay_tokens start (gm_trigger_positions (buffer_token tok (tp tok) g)) ((buffer_token tok (tp tok) g)\<lparr>gm_awaiting_trigger := False\<rparr>))
          (\<lambda>r. g_ret (triggered r)))"
  by (simp add: grammar_accept_impl_def Let_def buffer_token_def triggered_def case_prod_unfold split: option.splits)

subsection \<open>Properties\<close>

text \<open>C30. While a grammar waits for its trigger, tokens are only buffered; when a pattern is found at \<open>start\<close>, the pieces that are
  accepted spell exactly the buffered bytes from there on.\<close>

theorem trigger_replay:
  assumes "grammar_ok g" "buffer_ok g" "gm_awaiting_trigger g" "tok \<notin> set (gm_trigger_tokens g)"
  shows "case find_trigger find_in pats (gm_trigger_buffer g @ tp tok) of
      None \<Rightarrow> \<exists>g'. grammar_accept_impl tp eog find_in pats tok g = Some (Done (False, g')) \<and> buffer_ok g' \<and>
        gm_trigger_buffer g' = gm_trigger_buffer g @ tp tok \<and> gm_stacks g' = gm_stacks g \<and> gm_awaiting_trigger g'
    | Some start \<Rightarrow> \<exists>ps. concat (map snd ps) = drop start (gm_trigger_buffer g @ tp tok) \<and>
        grammar_accept_impl tp eog find_in pats tok g =
          g_bind (accept_pieces ps ((buffer_token tok (tp tok) g)\<lparr>gm_awaiting_trigger := False\<rparr>)) (\<lambda>r. g_ret (triggered r))"
proof -
  let ?g = "buffer_token tok (tp tok) g"
  have b: "gm_trigger_buffer ?g = gm_trigger_buffer g @ tp tok" by (simp add: buffer_token_def)
  have ok: "buffer_ok ?g" by (rule buffer_token_ok [OF assms(2)])
  note impl = accept_impl_waiting [OF assms(3,4), of tp eog find_in pats, unfolded b]
  show ?thesis
  proof (cases "find_trigger find_in pats (gm_trigger_buffer g @ tp tok)")
    case None then show ?thesis using impl ok assms(3) by (simp add: g_ret_def buffer_token_def)
  next
    case (Some start)
    let ?ps = "replayed start (gm_trigger_buffer ?g) (gm_trigger_positions ?g)"
    have c: "concat (map snd ?ps) = drop start (gm_trigger_buffer ?g)" using replayed_bytes [of 0 "gm_trigger_buffer ?g"] ok by (simp add: buffer_ok_def)
    have "grammar_ok (?g\<lparr>gm_awaiting_trigger := False\<rparr>)" using assms(1) by (simp add: grammar_ok_def buffer_token_def)
    from replay_pieces [OF this, of start "gm_trigger_positions ?g"]
    have "replay_tokens start (gm_trigger_positions ?g) (?g\<lparr>gm_awaiting_trigger := False\<rparr>) = accept_pieces ?ps (?g\<lparr>gm_awaiting_trigger := False\<rparr>)" by simp
    then have "grammar_accept_impl tp eog find_in pats tok g = g_bind (accept_pieces ?ps (?g\<lparr>gm_awaiting_trigger := False\<rparr>)) (\<lambda>r. g_ret (triggered r))"
      using impl Some by simp
    then show ?thesis using Some c b by auto
  qed
qed

theorem trigger_replay_witness:
  "\<exists>ps. concat (map snd ps) = [98] \<and>
     grammar_accept_impl (\<lambda>tok. [97, 98]) (\<lambda>tok. False) (\<lambda>p buf. Some 1) [()] 3 (letter_grammar\<lparr>gm_awaiting_trigger := True\<rparr>) =
       g_bind (accept_pieces ps ((buffer_token 3 [97, 98] (letter_grammar\<lparr>gm_awaiting_trigger := True\<rparr>))\<lparr>gm_awaiting_trigger := False\<rparr>)) (\<lambda>r. g_ret (triggered r))"
proof -
  let ?g = "letter_grammar\<lparr>gm_awaiting_trigger := True\<rparr>"
  have "grammar_ok ?g" "buffer_ok ?g" "gm_awaiting_trigger ?g" "3 \<notin> set (gm_trigger_tokens ?g)"
    using letter_ok by (simp_all add: grammar_ok_def buffer_ok_def letter_grammar_def)
  from trigger_replay [OF this, where find_in = "\<lambda>p buf. Some 1" and pats = "[()]" and tp = "\<lambda>tok. [97, 98]" and eog = "\<lambda>tok. False"]
  show ?thesis by (simp add: letter_grammar_def)
qed

text \<open>C25. Accepting a token returns and keeps every pointer of every stack at an element inside its rule, with a terminal on
  top, whether or not an exception reports that no stack is left.\<close>

theorem accept_token_keeps:
  assumes "grammar_ok g"
  shows "\<exists>threw g'. grammar_accept_token tok piece g = Some (Done (threw, g')) \<and> gm_rules g' = gm_rules g \<and> (threw \<longleftrightarrow> gm_stacks g' = []) \<and>
    (\<forall>s \<in> set (gm_stacks g'). \<forall>p \<in> set s. pos_ok (gm_rules g) p \<and> \<not> is_end_of_sequence (gm_rules g) p)"
proof -
  obtain threw g' where g': "grammar_accept_token tok piece g = Some (Done (threw, g'))" "grammar_ok g'" "gm_rules g' = gm_rules g"
    using accept_token_ok [OF assms] by blast
  have "threw \<longleftrightarrow> gm_stacks g' = []" using g'(1) by (auto simp: grammar_accept_token_def g_bind_Done split: prod.splits)
  then show ?thesis using g' by (auto simp: grammar_ok_def stacks_ok_def stack_ok_def)
qed

theorem accept_token_keeps_witness:
  "\<exists>threw g'. grammar_accept_token 1 [97] letter_grammar = Some (Done (threw, g')) \<and> gm_rules g' = gm_rules letter_grammar \<and> (threw \<longleftrightarrow> gm_stacks g' = []) \<and>
    (\<forall>s \<in> set (gm_stacks g'). \<forall>p \<in> set s. pos_ok (gm_rules letter_grammar) p \<and> \<not> is_end_of_sequence (gm_rules letter_grammar) p)"
  by (rule accept_token_keeps [OF letter_ok])

definition productive :: "grules \<Rightarrow> bool" where
  "productive rules \<longleftrightarrow> (\<forall>p. pos_ok rules p \<longrightarrow> (\<exists>w. derives rules p w))"

text \<open>C26. As long as a stack is left, a text can be completed: some continuation leads to the empty stack, when every element of the
  grammar derives some text.\<close>

theorem text_completable:
  assumes "rules_ready rules start" "grammar_init rules start = Some (Done (Some g))" "productive (gm_rules g)"
    and "g_fold grammar_accept cs g = Some (Done g')" "gm_stacks g' \<noteq> []"
  shows "\<exists>w g''. g_fold grammar_accept w g' = Some (Done g'') \<and> [] \<in> set (gm_stacks g'')"
proof -
  have ok: "grammar_ok g" using grammar_init_returns [OF assms(1)] assms(2) by auto
  have ok': "grammar_ok g'" using grammar_accepts_return [OF ok, of cs] assms(4) by auto
  have s: "gm_rules g' = gm_rules g" "stacks_sound (gm_rules g') start cs (gm_stacks g')"
    using grammar_accept_sound [OF assms(4) conjunct2 [OF grammar_init_sound [OF assms(2)]]] by simp_all
  obtain st where st: "st \<in> set (gm_stacks g')" using assms(5) by (meson last_in_set)
  have "stack_ok (gm_rules g) st" using ok' s(1) st by (auto simp: grammar_ok_def stacks_ok_def)
  then have "\<exists>w. stack_derives (gm_rules g) st w"
  proof (induction st)
    case (Cons p ps)
    then obtain u v where "derives (gm_rules g) p u" "stack_derives (gm_rules g) ps v"
      using assms(3) stack_okD [OF Cons.prems] unfolding productive_def by blast
    then have "stack_derives (gm_rules g) (p # ps) (u @ v)" by auto
    then show ?case by blast
  next
    case Nil show ?case by (rule exI [of _ "[]"]) simp
  qed
  then obtain w where w: "rule_derives (gm_rules g) start (cs @ w)" using s st unfolding stacks_sound_def by auto
  obtain g'' where g'': "g_fold grammar_accept w g' = Some (Done g'')" using grammar_accepts_return [OF ok'] by blast
  have "stacks_sound (gm_rules g) start (cs @ w) (gm_stacks g'')" using grammar_accept_sound [OF g'' s(2)] s(1) by simp
  then show ?thesis using stacks_sound_empty w g'' by blast
qed


lemma letter_productive: "productive letter_rules"
proof -
  note e = letter_rules_def elem_at_def
  have "derives letter_rules (0, 2) []" "derives letter_rules (0, 4) []" by (rule d_end, simp add: is_end_of_sequence_def e)+
  note ends = this
  have "match_char letter_rules (0, 3) 98 = Some (True, (0, 4))" "match_char letter_rules (0, 0) 97 = Some (True, (0, 1))"
    by (simp_all add: match_char_def positive_char_def e pos_add_def)
  note m = this
  have b: "derives letter_rules (0, 3) [98]" by (rule d_char [OF m(1) ends(2)])
  have r: "derives letter_rules (0, 1) ([98] @ [])"
  proof (rule d_ref [where sub = "(0, 3)"])
    show "type_at letter_rules (0, 1) = GT_RULE_REF" "(0, 3) \<in> set (alternates letter_rules (ge_value (elem_at letter_rules (0, 1))))"
      by (simp_all add: e alternates_def)
    show "derives letter_rules (0, 3) [98]" by (rule b)
    show "derives letter_rules (pos_add (0, 1) 1) []" using ends(1) by (simp add: pos_add_def numeral_2_eq_2)
  qed
  have a: "derives letter_rules (0, 0) (97 # [98] @ [])" by (rule d_char [OF m(2) r])
  show ?thesis unfolding productive_def
  proof (intro allI impI)
    fix p assume "pos_ok letter_rules p"
    then have "fst p = 0" "snd p < 5" by (auto simp: pos_ok_def letter_rules_def)
    then have "p \<in> {(0, 0), (0, 1), (0, 2), (0, 3), (0, 4)}" by (cases p) auto
    then show "\<exists>w. derives letter_rules p w" using a r b ends by blast
  qed
qed

theorem text_completable_witness:
  "\<exists>w g''. g_fold grammar_accept w letter_grammar = Some (Done g'') \<and> [] \<in> set (gm_stacks g'')"
proof (rule text_completable [OF letter_ready letter_init])
  show "productive (gm_rules letter_grammar)" using letter_productive by (simp add: letter_grammar_def)
  show "g_fold grammar_accept [] letter_grammar = Some (Done letter_grammar)" by simp
  show "gm_stacks letter_grammar \<noteq> []" by (simp add: letter_grammar_def)
qed

end
