(* ===== verification/GrammarParse.thy ===== *)
theory GrammarParse
  imports GrammarHalt
begin

text \<open>
  The parser of grammar texts, \<open>llama_grammar_parser\<close> of \<open>src/llama-grammar.cpp\<close>. A pointer into the text is
  the rest of the text, without its terminating 0. Exceptions give \<open>P_throws\<close>, failed assertions \<open>P_aborts\<close>.
  The functions that call each other have an argument that bounds their depth; \<open>None\<close> means that it was too small.
  The tokenizer of the vocabulary is a parameter, \<open>None\<close> for a null pointer.
\<close>

unbundle bit_operations_syntax

subsection \<open>Results and characters\<close>

datatype 'a pout = P_throws | P_aborts | P_done 'a

type_synonym 'a pres = "'a pout option"

definition p_bind :: "'a pres \<Rightarrow> ('a \<Rightarrow> 'b pres) \<Rightarrow> 'b pres" where
  "p_bind m f = (case m of None \<Rightarrow> None | Some P_throws \<Rightarrow> Some P_throws | Some P_aborts \<Rightarrow> Some P_aborts | Some (P_done x) \<Rightarrow> f x)"

definition p_ret :: "'a \<Rightarrow> 'a pres" where
  "p_ret x = Some (P_done x)"

definition p_throw :: "'a pres" where
  "p_throw = Some P_throws"

type_synonym bytes = "8 word list"

definition at_pos :: "bytes \<Rightarrow> nat \<Rightarrow> 8 word" where
  \<comment> \<open>\<open>pos[i]\<close>, with the terminating 0\<close>
  "at_pos src i = (if i < length src then src ! i else 0)"

abbreviation cur :: "bytes \<Rightarrow> 8 word" where
  "cur src \<equiv> at_pos src 0"

definition is_digit_char :: "8 word \<Rightarrow> bool" where
  "is_digit_char c \<longleftrightarrow> 0x30 \<le> c \<and> c \<le> 0x39"

definition is_word_char :: "8 word \<Rightarrow> bool" where
  "is_word_char c \<longleftrightarrow> (0x61 \<le> c \<and> c \<le> 0x7A) \<or> (0x41 \<le> c \<and> c \<le> 0x5A) \<or> c = 0x2D \<or> is_digit_char c"

definition max_repetition :: nat where
  "max_repetition = 2000"

definition uint64_max :: nat where
  "uint64_max = 2 ^ 64 - 1"

subsection \<open>Words of the text\<close>

definition decode_char :: "bytes \<Rightarrow> nat \<times> bytes" where
  \<comment> \<open>the \<open>decode_utf8\<close> for one character\<close>
  "decode_char src =
     (let len = [1, 1, 1, 1, 1, 1, 1, 1, 1, 1, 1, 1, 2, 2, 3, 4] ! unat (drop_bit 4 (cur src))
      in (fold (\<lambda>b v. utf8_cont v b) (take (len - 1) (drop 1 src)) (unat (cur src) mod 2 ^ (8 - len)), drop len src))"

definition hex_digit :: "8 word \<Rightarrow> nat option" where
  "hex_digit c = (if 0x61 \<le> c \<and> c \<le> 0x66 then Some (unat c - 0x61 + 10)
     else if 0x41 \<le> c \<and> c \<le> 0x46 then Some (unat c - 0x41 + 10)
     else if 0x30 \<le> c \<and> c \<le> 0x39 then Some (unat c - 0x30) else None)"

fun parse_hex :: "nat \<Rightarrow> bytes \<Rightarrow> nat \<Rightarrow> (nat \<times> bytes) pres" where
  "parse_hex 0 src value = p_ret (value, src)"
| "parse_hex (Suc n) src value = (case src of [] \<Rightarrow> p_throw
     | c # src \<Rightarrow> case hex_digit c of None \<Rightarrow> p_throw | Some d \<Rightarrow> parse_hex n src (value * 16 mod 2 ^ 32 + d))"

lemma dropWhile_le: "length (dropWhile P xs) \<le> length xs"
  by (induction xs) auto

function parse_space :: "bytes \<Rightarrow> bool \<Rightarrow> bytes" where
  "parse_space [] newline_ok = []"
| "parse_space (c # src) newline_ok =
     (if c = 0x23 then parse_space (dropWhile (\<lambda>c. c \<noteq> 0x0D \<and> c \<noteq> 0x0A) src) newline_ok
      else if c = 0x20 \<or> c = 0x09 \<or> newline_ok \<and> (c = 0x0D \<or> c = 0x0A) then parse_space src newline_ok
      else c # src)"
  by pat_completeness auto

termination
  by (relation "measure (length \<circ> fst)") (auto simp: le_imp_less_Suc dropWhile_le)

definition parse_name :: "bytes \<Rightarrow> (bytes \<times> bytes) pres" where
  \<comment> \<open>the name and the text after it\<close>
  "parse_name src = (let name = takeWhile is_word_char src in if name = [] then p_throw else p_ret (name, dropWhile is_word_char src))"

definition digits_value :: "bytes \<Rightarrow> nat" where
  "digits_value ds = fold (\<lambda>c v. v * 10 + (unat c - 0x30)) ds 0"

definition parse_int :: "bytes \<Rightarrow> (nat \<times> bytes) pres" where
  \<comment> \<open>with \<open>std::stoull\<close> of the digits\<close>
  "parse_int src = (let ds = takeWhile is_digit_char src in
     if ds = [] then p_throw else if digits_value ds > uint64_max then p_throw else p_ret (digits_value ds, dropWhile is_digit_char src))"

definition parse_char :: "bytes \<Rightarrow> (nat \<times> bytes) pres" where
  "parse_char src =
     (if cur src = 0x5C
      then let c = at_pos src 1 in
        if c = 0x78 then parse_hex 2 (drop 2 src) 0
        else if c = 0x75 then parse_hex 4 (drop 2 src) 0
        else if c = 0x55 then parse_hex 8 (drop 2 src) 0
        else if c = 0x74 then p_ret (0x09, drop 2 src)
        else if c = 0x72 then p_ret (0x0D, drop 2 src)
        else if c = 0x6E then p_ret (0x0A, drop 2 src)
        else if c = 0x5C \<or> c = 0x22 \<or> c = 0x5B \<or> c = 0x5D \<or> c = 0x2D then p_ret (unat c, drop 2 src)
        else p_throw
      else if src \<noteq> [] then p_ret (decode_char src)
      else p_throw)"

definition parse_token :: "(bytes \<Rightarrow> llama_token list) option \<Rightarrow> bytes \<Rightarrow> (nat \<times> bytes) pres" where
  "parse_token vocab src =
     (if cur src \<noteq> 0x3C then p_throw
      else if at_pos src 1 = 0x5B
      then p_bind (parse_int (drop 2 src)) (\<lambda>(id, pos).
        if cur pos \<noteq> 0x5D then p_throw else if at_pos pos 1 \<noteq> 0x3E then p_throw else p_ret (id mod 2 ^ 32, drop 2 pos))
      else case vocab of None \<Rightarrow> p_throw
        | Some tokenize \<Rightarrow>
            (let body = takeWhile (\<lambda>c. c \<noteq> 0x3E) (drop 1 src); pos = dropWhile (\<lambda>c. c \<noteq> 0x3E) (drop 1 src) in
             if pos = [] then p_throw
             else case tokenize (take 1 src @ body @ take 1 pos) of [t] \<Rightarrow> p_ret (nat (t mod 2 ^ 32), drop 1 pos) | _ \<Rightarrow> p_throw))"

subsection \<open>Symbols and rules\<close>

record parser =
  ps_symbols :: "(bytes \<times> nat) list" \<comment> \<open>the map \<open>symbol_ids\<close>\<close>
  ps_rules :: grules

definition get_symbol_id :: "bytes \<Rightarrow> parser \<Rightarrow> nat \<times> parser" where
  "get_symbol_id name ps = (case map_of (ps_symbols ps) name of Some i \<Rightarrow> (i, ps)
     | None \<Rightarrow> let i = length (ps_symbols ps) mod 2 ^ 32 in (i, ps\<lparr>ps_symbols := ps_symbols ps @ [(name, i)]\<rparr>))"

fun decimal :: "nat \<Rightarrow> bytes" where
  "decimal n = (if n < 10 then [of_nat (n + 0x30)] else decimal (n div 10) @ [of_nat (n mod 10 + 0x30)])"

definition sym_set :: "bytes \<Rightarrow> nat \<Rightarrow> (bytes \<times> nat) list \<Rightarrow> (bytes \<times> nat) list" where
  "sym_set name i syms = (if name \<in> fst ` set syms then map (\<lambda>(k, v). (k, if k = name then i else v)) syms else syms @ [(name, i)])"

definition generate_symbol_id :: "bytes \<Rightarrow> parser \<Rightarrow> nat \<times> parser" where
  "generate_symbol_id base ps = (let i = length (ps_symbols ps) mod 2 ^ 32 in
     (i, ps\<lparr>ps_symbols := sym_set (base @ [0x5F] @ decimal i) i (ps_symbols ps)\<rparr>))"

definition add_rule :: "nat \<Rightarrow> gelem list \<Rightarrow> parser \<Rightarrow> parser" where
  \<comment> \<open>\<open>rule_id + 1\<close> is a \<open>uint32_t\<close>: for the last id it is 0, the table is emptied and the rule is written past
     its end, which an update of a list ignores\<close>
  "add_rule i rule ps =
     (let rules = (if length (ps_rules ps) \<le> i then vec_resize ((i + 1) mod 2 ^ 32) [] (ps_rules ps) else ps_rules ps)
      in ps\<lparr>ps_rules := rules[i := rule]\<rparr>)"

abbreviation ge :: "gretype \<Rightarrow> nat \<Rightarrow> gelem" where
  "ge t v \<equiv> \<lparr>ge_type = t, ge_value = v\<rparr>"

subsection \<open>Repetitions\<close>

fun rec_rules :: "bool \<Rightarrow> bytes \<Rightarrow> gelem list \<Rightarrow> nat \<Rightarrow> bool \<Rightarrow> nat \<Rightarrow> parser \<Rightarrow> nat \<times> parser" where
  \<comment> \<open>the loop over \<open>n_opt\<close>; \<open>later\<close> is \<open>i > 0\<close>\<close>
  "rec_rules no_max name prev 0 later last_id ps = (last_id, ps)"
| "rec_rules no_max name prev (Suc n) later last_id ps =
     (case generate_symbol_id name ps of (i, ps) \<Rightarrow>
        rec_rules no_max name prev n True i
          (add_rule i (prev @ (if later \<or> no_max then [ge GT_RULE_REF (if no_max then i else last_id)] else []) @ [ge GT_ALT 0, ge GT_END 0]) ps))"

record pseq =
  sq_rule :: "gelem list"
  sq_last :: nat \<comment> \<open>\<open>last_sym_start\<close>\<close>
  sq_n_prev :: nat
  sq_ps :: parser

definition handle_repetitions :: "bytes \<Rightarrow> nat \<Rightarrow> nat \<Rightarrow> pseq \<Rightarrow> pseq pres" where
  "handle_repetitions name min_times max_times sq =
     (let no_max = (max_times = uint64_max); rule = sq_rule sq; prev = drop (sq_last sq) rule;
          total = (if \<not> no_max \<and> max_times > 0 then max_times else if min_times > 0 then min_times else 1) in
      if sq_last sq = length rule then p_throw
      else if sq_n_prev sq * total > max_repetition then p_throw
      else let rule = (if min_times = 0 then take (sq_last sq) rule else rule @ concat (replicate (min_times - 1) prev));
               n_opt = (if no_max then 1 else nat ((int max_times - int min_times) mod 2 ^ 64))
        in case rec_rules no_max name prev n_opt False 0 (sq_ps sq) of (last_id, ps) \<Rightarrow>
             if sq_n_prev sq * total < 1 then Some P_aborts
             else p_ret \<lparr>sq_rule = (if n_opt > 0 then rule @ [ge GT_RULE_REF last_id] else rule), sq_last = sq_last sq,
               sq_n_prev = sq_n_prev sq * total, sq_ps = ps\<rparr>)"

subsection \<open>Sequences\<close>

lemma p_bind_cong [fundef_cong]:
  "m = m' \<Longrightarrow> (\<And>x. m' = Some (P_done x) \<Longrightarrow> f x = f' x) \<Longrightarrow> p_bind m f = p_bind m' f'"
  by (simp add: p_bind_def split: option.splits pout.splits)

lemma p_bind_done: "p_bind m f = Some (P_done y) \<longleftrightarrow> (\<exists>x. m = Some (P_done x) \<and> f x = Some (P_done y))"
  by (auto simp: p_bind_def split: option.splits pout.splits)

lemma p_ret_done [simp]: "p_ret x = Some (P_done y) \<longleftrightarrow> x = y"
  by (simp add: p_ret_def)

lemma p_throw_done [simp]: "p_throw \<noteq> Some (P_done y)"
  by (simp add: p_throw_def)

lemma parse_hex_length: "parse_hex n src v = Some (P_done (w, pos)) \<Longrightarrow> length pos \<le> length src"
proof (induction n arbitrary: src v)
  case (Suc n)
  then obtain c cs d where s: "src = c # cs" "parse_hex n cs (v * 16 mod 2 ^ 32 + d) = Some (P_done (w, pos))"
    by (cases src) (auto split: option.splits)
  then show ?case using Suc.IH [OF s(2)] by simp
qed simp

lemma decode_char_length: "src \<noteq> [] \<Longrightarrow> length (snd (decode_char src)) < length src"
proof -
  assume a: "src \<noteq> []"
  let ?l = "[1, 1, 1, 1, 1, 1, 1, 1, 1, 1, 1, 1, 2, 2, 3, 4] :: nat list"
  have "unat (cur src) < 256" using unsigned_less [of "cur src"] by simp
  then have "unat (drop_bit 4 (cur src)) < 16" by (simp add: drop_bit_eq_div unat_div)
  moreover have "\<forall>i < 16. 1 \<le> ?l ! i" by (simp add: numeral_eq_Suc All_less_Suc)
  ultimately have "1 \<le> ?l ! unat (drop_bit 4 (cur src))" by blast
  then show ?thesis using a by (simp add: decode_char_def Let_def)
qed

lemma parse_char_length: "parse_char src = Some (P_done (v, pos)) \<Longrightarrow> length pos < length src"
proof -
  assume a: "parse_char src = Some (P_done (v, pos))"
  have ne: "src \<noteq> []" using a by (auto simp: parse_char_def at_pos_def split: if_splits)
  then have d: "length (drop 2 src) < length src" by simp
  show ?thesis using a d decode_char_length [OF ne] parse_hex_length
    unfolding parse_char_def Let_def by (auto split: if_splits dest!: parse_hex_length)
qed


function parse_literal :: "bytes \<Rightarrow> gelem list \<Rightarrow> (bytes \<times> gelem list) pres" where
  \<comment> \<open>the characters up to the closing quote\<close>
  "parse_literal src rule =
     (if cur src = 0x22 then p_ret (src, rule) else if src = [] then p_throw
      else p_bind (parse_char src) (\<lambda>(c, pos). parse_literal pos (rule @ [ge GT_CHAR c])))"
  by pat_completeness auto

termination
  by (relation "measure (length \<circ> fst)") (auto dest: parse_char_length)

function parse_class :: "gretype \<Rightarrow> nat \<Rightarrow> bytes \<Rightarrow> gelem list \<Rightarrow> (bytes \<times> gelem list) pres" where
  \<comment> \<open>the characters up to the closing bracket; \<open>start\<close> is \<open>last_sym_start\<close>\<close>
  "parse_class start_type start src rule =
     (if cur src = 0x5D then p_ret (src, rule) else if src = [] then p_throw
      else p_bind (parse_char src) (\<lambda>(c, pos).
        let rule = rule @ [ge (if start < length rule then GT_CHAR_ALT else start_type) c] in
        if cur pos = 0x2D \<and> at_pos pos 1 \<noteq> 0x5D
        then if at_pos pos 1 = 0 then p_throw
             else p_bind (parse_char (drop 1 pos)) (\<lambda>(e, pos'). parse_class start_type start pos' (rule @ [ge GT_CHAR_RNG_UPPER e]))
        else parse_class start_type start pos rule))"
  by pat_completeness auto

termination
  by (relation "measure (\<lambda>(_, _, src, _). length src)") (auto dest!: parse_char_length)

definition parse_braces :: "bytes \<Rightarrow> bool \<Rightarrow> (nat \<times> nat \<times> bytes) pres" where
  \<comment> \<open>the numbers of a repetition, after the opening brace\<close>
  "parse_braces src nested =
     (if \<not> is_digit_char (cur src) then p_throw
      else p_bind (parse_int src) (\<lambda>(min_times, int_end).
        p_bind (let pos = parse_space int_end nested in
          if cur pos = 0x7D then p_ret (min_times, parse_space (drop 1 pos) nested)
          else if cur pos = 0x2C
          then let pos = parse_space (drop 1 pos) nested in
            p_bind (if is_digit_char (cur pos) then p_bind (parse_int pos) (\<lambda>(m, int_end). p_ret (m, parse_space int_end nested)) else p_ret (uint64_max, pos))
              (\<lambda>(m, pos). if cur pos \<noteq> 0x7D then p_throw else p_ret (m, parse_space (drop 1 pos) nested))
          else p_throw) (\<lambda>(max_times, pos).
        if min_times > max_repetition then p_throw
        else p_ret (min_times, if max_times \<noteq> uint64_max \<and> max_times > max_repetition then uint64_max else max_times, pos))))"

definition new_item :: "gelem list \<Rightarrow> pseq \<Rightarrow> pseq" where
  \<comment> \<open>a symbol is added to the rule\<close>
  "new_item es sq = sq\<lparr>sq_rule := sq_rule sq @ es, sq_last := length (sq_rule sq), sq_n_prev := 1\<rparr>"

definition parse_item :: "(bytes \<Rightarrow> llama_token list) option \<Rightarrow> bytes \<Rightarrow> bool \<Rightarrow> bytes \<Rightarrow> pseq \<Rightarrow> (bytes \<times> pseq) pres option" where
  \<comment> \<open>the branches of the loop without the one for groups; \<open>None\<close> leaves the loop\<close>
  "parse_item vocab name nested pos sq =
     (if cur pos = 0x22
      then Some (p_bind (parse_literal (drop 1 pos) (sq_rule sq)) (\<lambda>(pos, rule).
        p_ret (parse_space (drop 1 pos) nested, sq\<lparr>sq_rule := rule, sq_last := length (sq_rule sq), sq_n_prev := 1\<rparr>)))
      else if cur pos = 0x5B
      then let inverse = (at_pos pos 1 = 0x5E) in
        Some (p_bind (parse_class (if inverse then GT_CHAR_NOT else GT_CHAR) (length (sq_rule sq)) (drop (if inverse then 2 else 1) pos) (sq_rule sq))
          (\<lambda>(pos, rule). p_ret (parse_space (drop 1 pos) nested, sq\<lparr>sq_rule := rule, sq_last := length (sq_rule sq), sq_n_prev := 1\<rparr>)))
      else if cur pos = 0x3C \<or> cur pos = 0x21
      then let inverse = (cur pos = 0x21) in
        Some (p_bind (parse_token vocab (if inverse then drop 1 pos else pos)) (\<lambda>(tok, pos).
          p_ret (parse_space pos nested, new_item [ge (if inverse then GT_TOKEN_NOT else GT_TOKEN) tok] sq)))
      else if is_word_char (cur pos)
      then Some (p_bind (parse_name pos) (\<lambda>(ref, pos). case get_symbol_id ref (sq_ps sq) of (i, ps) \<Rightarrow>
          p_ret (parse_space pos nested, new_item [ge GT_RULE_REF i] (sq\<lparr>sq_ps := ps\<rparr>))))
      else if cur pos = 0x2E then Some (p_ret (parse_space (drop 1 pos) nested, new_item [ge GT_CHAR_ANY 0] sq))
      else if cur pos = 0x2A then Some (p_bind (handle_repetitions name 0 uint64_max sq) (\<lambda>sq. p_ret (parse_space (drop 1 pos) nested, sq)))
      else if cur pos = 0x2B then Some (p_bind (handle_repetitions name 1 uint64_max sq) (\<lambda>sq. p_ret (parse_space (drop 1 pos) nested, sq)))
      else if cur pos = 0x3F then Some (p_bind (handle_repetitions name 0 1 sq) (\<lambda>sq. p_ret (parse_space (drop 1 pos) nested, sq)))
      else if cur pos = 0x7B
      then Some (p_bind (parse_braces (parse_space (drop 1 pos) nested) nested) (\<lambda>(min_times, max_times, pos).
          p_bind (handle_repetitions name min_times max_times sq) (\<lambda>sq. p_ret (pos, sq))))
      else None)"

declare p_bind_cong [fundef_cong del]

function (sequential) parse_sequence :: "nat \<Rightarrow> (bytes \<Rightarrow> llama_token list) option \<Rightarrow> bytes \<Rightarrow> bool \<Rightarrow> bytes \<Rightarrow> pseq \<Rightarrow> (bytes \<times> pseq) pres"
  and parse_alternates :: "nat \<Rightarrow> (bytes \<Rightarrow> llama_token list) option \<Rightarrow> bytes \<Rightarrow> nat \<Rightarrow> bool \<Rightarrow> bytes \<Rightarrow> parser \<Rightarrow> (bytes \<times> parser) pres"
  and parse_more :: "nat \<Rightarrow> (bytes \<Rightarrow> llama_token list) option \<Rightarrow> bytes \<Rightarrow> nat \<Rightarrow> bool \<Rightarrow> bytes \<Rightarrow> pseq \<Rightarrow> (bytes \<times> parser) pres" where
  \<comment> \<open>the loop of \<open>parse_sequence\<close>; \<open>parse_alternates\<close> and its loop\<close>
  "parse_sequence 0 vocab name nested pos sq = None"
| "parse_sequence (Suc d) vocab name nested pos sq =
     (if cur pos = 0x28
      then case generate_symbol_id name (sq_ps sq) of (sub, ps) \<Rightarrow>
        p_bind (parse_alternates d vocab name sub True (parse_space (drop 1 pos) True) ps) (\<lambda>(pos, ps').
          let sq = \<lparr>sq_rule = sq_rule sq @ [ge GT_RULE_REF sub], sq_last = length (sq_rule sq),
                sq_n_prev = max 1 ((length (ps_symbols ps') - length (ps_symbols (sq_ps sq))) mod 2 ^ 32), sq_ps = ps'\<rparr> in
          if cur pos \<noteq> 0x29 then p_throw else parse_sequence d vocab name nested (parse_space (drop 1 pos) nested) sq)
      else case parse_item vocab name nested pos sq of None \<Rightarrow> p_ret (pos, sq)
        | Some m \<Rightarrow> p_bind m (\<lambda>(pos, sq). parse_sequence d vocab name nested pos sq))"
| "parse_alternates 0 vocab name i nested pos ps = None"
| "parse_alternates (Suc d) vocab name i nested pos ps =
     p_bind (parse_sequence d vocab name nested pos \<lparr>sq_rule = [], sq_last = 0, sq_n_prev = 1, sq_ps = ps\<rparr>)
       (\<lambda>(pos, sq). parse_more d vocab name i nested pos sq)"
| "parse_more 0 vocab name i nested pos sq = None"
| "parse_more (Suc d) vocab name i nested pos sq =
     (if cur pos = 0x7C
      then let rule = sq_rule sq @ [ge GT_ALT 0] in
        p_bind (parse_sequence d vocab name nested (parse_space (drop 1 pos) True) \<lparr>sq_rule = rule, sq_last = length rule, sq_n_prev = 1, sq_ps = sq_ps sq\<rparr>)
          (\<lambda>(pos, sq). parse_more d vocab name i nested pos sq)
      else p_ret (pos, add_rule i (sq_rule sq @ [ge GT_END 0]) (sq_ps sq)))"
  by pat_completeness simp_all

termination
  by (relation "measure (case_sum fst (case_sum fst fst))") simp_all

subsection \<open>A grammar text\<close>

definition parse_rule :: "nat \<Rightarrow> (bytes \<Rightarrow> llama_token list) option \<Rightarrow> bytes \<Rightarrow> parser \<Rightarrow> (bytes \<times> parser) pres" where
  "parse_rule d vocab src ps =
     p_bind (parse_name src) (\<lambda>(name, name_end).
       let pos = parse_space name_end False in
       case get_symbol_id name ps of (i, ps) \<Rightarrow>
       if \<not> (cur pos = 0x3A \<and> at_pos pos 1 = 0x3A \<and> at_pos pos 2 = 0x3D) then p_throw
       else p_bind (parse_alternates d vocab name i False (parse_space (drop 3 pos) True) ps) (\<lambda>(pos, ps).
         if cur pos = 0x0D then p_ret (parse_space (drop (if at_pos pos 1 = 0x0A then 2 else 1) pos) True, ps)
         else if cur pos = 0x0A then p_ret (parse_space (drop 1 pos) True, ps)
         else if pos \<noteq> [] then p_throw else p_ret (parse_space pos True, ps)))"

fun parse_rules :: "nat \<Rightarrow> (bytes \<Rightarrow> llama_token list) option \<Rightarrow> bytes \<Rightarrow> parser \<Rightarrow> parser pres" where
  "parse_rules 0 vocab src ps = None"
| "parse_rules (Suc d) vocab src ps = (if src = [] then p_ret ps
     else p_bind (parse_rule d vocab src ps) (\<lambda>(src, ps). parse_rules d vocab src ps))"

definition rules_defined :: "parser \<Rightarrow> bool" where
  \<comment> \<open>the loop at the end does not throw\<close>
  "rules_defined ps \<longleftrightarrow> (\<forall>rule \<in> set (ps_rules ps). rule \<noteq> [] \<and> (\<forall>e \<in> set rule.
     ge_type e = GT_RULE_REF \<and> (ge_value e \<ge> length (ps_rules ps) \<or> ps_rules ps ! ge_value e = []) \<longrightarrow> ge_value e \<notin> snd ` set (ps_symbols ps)))"

definition parse_grammar :: "(bytes \<Rightarrow> llama_token list) option \<Rightarrow> bytes \<Rightarrow> parser option pres" where
  \<comment> \<open>\<open>parse\<close>; \<open>None\<close> when it returns false\<close>
  "parse_grammar vocab text =
     (let src = parse_space (c_str text) True in
      case parse_rules (2 * length src + 2) vocab src \<lparr>ps_symbols = [], ps_rules = []\<rparr> of
        None \<Rightarrow> None
      | Some P_aborts \<Rightarrow> Some P_aborts
      | Some P_throws \<Rightarrow> p_ret None
      | Some (P_done ps) \<Rightarrow> p_ret (if rules_defined ps then Some ps else None))"

definition grammar_init_str :: "(bytes \<Rightarrow> llama_token list) option \<Rightarrow> bytes \<Rightarrow> bytes \<Rightarrow> bool \<Rightarrow> llama_token list \<Rightarrow> grammar option gres" where
  \<comment> \<open>\<open>llama_grammar_init_impl\<close> for a text; a start rule without a definition is an access out of bounds, \<open>Aborted\<close> here\<close>
  "grammar_init_str vocab text root lazy trigger_tokens = (case parse_grammar vocab text of
       None \<Rightarrow> None
     | Some P_throws \<Rightarrow> g_ret None
     | Some P_aborts \<Rightarrow> Some Aborted
     | Some (P_done None) \<Rightarrow> g_ret None
     | Some (P_done (Some ps)) \<Rightarrow>
         if ps_rules ps = [] then g_ret None
         else case map_of (ps_symbols ps) root of None \<Rightarrow> g_ret None
         | Some start \<Rightarrow> let rules = map copy_rule (ps_rules ps) in
             case left_recursive rules of None \<Rightarrow> None
             | Some True \<Rightarrow> g_ret None
             | Some False \<Rightarrow> if start \<ge> length rules then Some Aborted
                 else g_bind (start_stacks rules start) (\<lambda>stacks. g_ret (Some
                   \<lparr>gm_rules = rules, gm_stacks = stacks, gm_partial = \<lparr>pu_value = 0, pu_n_remain = 0\<rparr>, gm_awaiting_trigger = lazy,
                    gm_trigger_buffer = [], gm_trigger_positions = [], gm_trigger_tokens = trigger_tokens\<rparr>)))"

end
