(* ===== verification/GrammarText.thy ===== *)
theory GrammarText
  imports GrammarParse
begin

text \<open>
  What a grammar text that parses gives: rules that are well formed, symbols with ids of their own. With the
  theorems on the engine this goes from the text to the language that is accepted.
\<close>

subsection \<open>Names of symbols\<close>

lemma digits_value_snoc: "digits_value (ds @ [d]) = digits_value ds * 10 + (unat d - 0x30)"
  by (simp add: digits_value_def)

lemma digit_unat: "k < 10 \<Longrightarrow> unat (of_nat (k + 0x30) :: 8 word) = k + 0x30"
  using unat_of_nat [of "k + 0x30", where 'a = 8] by (simp del: of_nat_add)

declare decimal.simps [simp del]

lemma decimal_value: "digits_value (decimal n) = n"
proof (induction n rule: decimal.induct)
  case (1 n)
  show ?case
  proof (cases "n < 10")
    case True
    then show ?thesis using digit_unat [OF True] by (subst decimal.simps) (simp add: digits_value_def)
  next
    case False
    have "n mod 10 < 10" by simp
    then show ?thesis using 1 [OF False] digit_unat [of "n mod 10"] False by (subst decimal.simps) (simp only: if_False digits_value_snoc, simp)
  qed
qed

lemma decimal_inj: "decimal m = decimal n \<Longrightarrow> m = n"
  by (metis decimal_value)

definition word_name :: "bytes \<Rightarrow> bool" where
  "word_name k \<longleftrightarrow> (\<forall>c \<in> set k. is_word_char c)"

lemma underscore: "\<not> is_word_char 0x5F"
  by (simp add: is_word_char_def is_digit_char_def word_le_nat_alt)

lemma word_name_split: "word_name b \<Longrightarrow> word_name b' \<Longrightarrow> b @ 0x5F # x = b' @ 0x5F # y \<Longrightarrow> b = b' \<and> x = y"
proof (induction b arbitrary: b')
  case Nil then show ?case using underscore by (cases b') (auto simp: word_name_def)
next
  case (Cons c b) then show ?case using underscore by (cases b') (auto simp: word_name_def)
qed

definition symbols_ok :: "(bytes \<times> nat) list \<Rightarrow> bool" where
  "symbols_ok syms \<longleftrightarrow> map snd syms = [0..<length syms] \<and>
     (\<forall>(k, i) \<in> set syms. word_name k \<or> (\<exists>b. word_name b \<and> k = b @ [0x5F] @ decimal i))"

lemma symbols_ok_value: "symbols_ok syms \<Longrightarrow> (k, i) \<in> set syms \<Longrightarrow> i < length syms"
proof -
  assume a: "symbols_ok syms" "(k, i) \<in> set syms"
  then have "i \<in> set (map snd syms)" by force
  moreover have "map snd syms = [0..<length syms]" using a(1) by (simp add: symbols_ok_def)
  ultimately show ?thesis by (simp del: set_map)
qed

lemma symbols_ok_fresh: "symbols_ok syms \<Longrightarrow> word_name b \<Longrightarrow> b @ [0x5F] @ decimal (length syms) \<notin> fst ` set syms"
proof
  assume a: "symbols_ok syms" "word_name b" "b @ [0x5F] @ decimal (length syms) \<in> fst ` set syms"
  then obtain i where i: "(b @ [0x5F] @ decimal (length syms), i) \<in> set syms" by force
  have "\<not> word_name (b @ [0x5F] @ decimal (length syms))" using underscore by (simp add: word_name_def)
  moreover have "case (b @ [0x5F] @ decimal (length syms), i) of (k, i) \<Rightarrow> word_name k \<or> (\<exists>b. word_name b \<and> k = b @ [0x5F] @ decimal i)"
    using a(1) i unfolding symbols_ok_def by blast
  ultimately obtain b' where "word_name b'" "b @ 0x5F # decimal (length syms) = b' @ 0x5F # decimal i" by auto
  then have "decimal (length syms) = decimal i" using word_name_split [OF a(2)] by blast
  then show False using decimal_inj symbols_ok_value [OF a(1) i] by blast
qed

lemma get_symbol_ok:
  assumes "symbols_ok (ps_symbols ps)" "word_name name" "length (ps_symbols ps) < 2 ^ 32" "get_symbol_id name ps = (i, ps')"
  shows "symbols_ok (ps_symbols ps')" "i < length (ps_symbols ps')"
proof -
  have "symbols_ok (ps_symbols ps') \<and> i < length (ps_symbols ps')"
  proof (cases "map_of (ps_symbols ps) name")
    case None
    then show ?thesis using assms by (auto simp: get_symbol_id_def Let_def symbols_ok_def)
  next
    case (Some j)
    then show ?thesis using assms symbols_ok_value [OF assms(1) map_of_SomeD [OF Some]] by (simp add: get_symbol_id_def)
  qed
  then show "symbols_ok (ps_symbols ps')" "i < length (ps_symbols ps')" by auto
qed

lemma generate_symbol_ok:
  assumes "symbols_ok (ps_symbols ps)" "word_name name" "length (ps_symbols ps) < 2 ^ 32" "generate_symbol_id name ps = (i, ps')"
  shows "symbols_ok (ps_symbols ps')" "i = length (ps_symbols ps)" "length (ps_symbols ps') = Suc (length (ps_symbols ps))"
proof -
  have "name @ [0x5F] @ decimal (length (ps_symbols ps)) \<notin> fst ` set (ps_symbols ps)" by (rule symbols_ok_fresh [OF assms(1,2)])
  then show "symbols_ok (ps_symbols ps')" "i = length (ps_symbols ps)" "length (ps_symbols ps') = Suc (length (ps_symbols ps))"
    using assms by (auto simp: generate_symbol_id_def Let_def sym_set_def symbols_ok_def)
qed

lemma get_symbol_mono: "get_symbol_id name ps = (i, ps') \<Longrightarrow> length (ps_symbols ps) \<le> length (ps_symbols ps') \<and> ps_rules ps' = ps_rules ps"
  by (auto simp: get_symbol_id_def Let_def split: option.splits)

lemma generate_symbol_mono: "generate_symbol_id name ps = (i, ps') \<Longrightarrow> length (ps_symbols ps) \<le> length (ps_symbols ps') \<and> ps_rules ps' = ps_rules ps"
  by (auto simp: generate_symbol_id_def Let_def sym_set_def)

lemma add_rule_symbols [simp]: "ps_symbols (add_rule i rule ps) = ps_symbols ps"
  by (simp add: add_rule_def Let_def)

subsection \<open>Rules under construction\<close>

fun open_ok :: "gretype \<Rightarrow> gelem list \<Rightarrow> bool" where
  \<comment> \<open>the beginning of a rule, without its end\<close>
  "open_ok prev [] = True"
| "open_ok prev (e # es) = (may_follow prev (ge_type e) \<and> ge_type e \<noteq> GT_END \<and> open_ok (ge_type e) es)"

definition item_start :: "gelem list \<Rightarrow> bool" where
  "item_start es \<longleftrightarrow> es = [] \<or> ge_type (hd es) \<notin> {GT_CHAR_RNG_UPPER, GT_CHAR_ALT}"

definition refs :: "gelem list \<Rightarrow> nat set" where
  "refs es = ge_value ` {e \<in> set es. ge_type e = GT_RULE_REF}"

lemma refs_simps [simp]: "refs [] = {}" "refs (xs @ ys) = refs xs \<union> refs ys"
  "refs (e # es) = (if ge_type e = GT_RULE_REF then insert (ge_value e) (refs es) else refs es)"
  by (auto simp: refs_def)

lemma open_close: "open_ok prev es \<Longrightarrow> chain_ok prev (es @ [ge GT_END v])"
  by (induction es arbitrary: prev) (auto simp: may_follow_def)

lemma open_start: "open_ok prev es \<Longrightarrow> item_start es \<Longrightarrow> open_ok prev' es"
  by (cases es) (auto simp: item_start_def may_follow_def)

lemma open_append: "open_ok prev xs \<Longrightarrow> open_ok p ys \<Longrightarrow> item_start ys \<Longrightarrow> open_ok prev (xs @ ys)"
  by (induction xs arbitrary: prev) (auto intro: open_start)

lemma open_take: "open_ok prev es \<Longrightarrow> open_ok prev (take n es)"
  by (induction es arbitrary: prev n) (auto simp: take_Cons')

lemma open_drop: "open_ok prev es \<Longrightarrow> \<exists>p. open_ok p (drop n es)"
proof (induction es arbitrary: prev n)
  case (Cons e es)
  show ?case
  proof (cases n)
    case 0 then show ?thesis using Cons.prems by (intro exI [of _ prev]) (simp only: drop0)
  next
    case (Suc m) then show ?thesis using Cons.IH [of "ge_type e" m] Cons.prems by simp
  qed
qed simp

lemma open_snoc: "open_ok prev (xs @ [e]) \<longleftrightarrow> open_ok prev xs \<and> may_follow (if xs = [] then prev else ge_type (last xs)) (ge_type e) \<and> ge_type e \<noteq> GT_END"
  by (induction xs arbitrary: prev) auto

lemma open_repeat: "open_ok p xs \<Longrightarrow> item_start xs \<Longrightarrow> open_ok prev ys \<Longrightarrow> open_ok prev (ys @ concat (replicate n xs))"
proof (induction n arbitrary: ys)
  case (Suc n)
  have "open_ok prev (ys @ xs)" by (rule open_append [OF Suc.prems(3,1,2)])
  then show ?case using Suc.IH [OF Suc.prems(1,2), of "ys @ xs"] by simp
qed simp

lemma refs_take: "refs (take n es) \<subseteq> refs es"
  using set_take_subset by (fastforce simp: refs_def)

lemma refs_drop: "refs (drop n es) \<subseteq> refs es"
  using set_drop_subset by (fastforce simp: refs_def)

lemma refs_repeat: "refs (concat (replicate n xs)) \<subseteq> refs xs"
  by (induction n) auto


subsection \<open>The invariant of the parser\<close>

abbreviation n_syms :: "parser \<Rightarrow> nat" where
  "n_syms ps \<equiv> length (ps_symbols ps)"

definition in_range :: "parser \<Rightarrow> gelem list \<Rightarrow> bool" where
  "in_range ps es \<longleftrightarrow> (n_syms ps < 2 ^ 32 \<longrightarrow> refs es \<subseteq> {..<n_syms ps})"

definition rules_closed :: "parser \<Rightarrow> bool" where
  "rules_closed ps \<longleftrightarrow> (\<forall>rule \<in> set (ps_rules ps). rule = [] \<or> chain_ok GT_END rule \<and> in_range ps rule)"

definition ps_inv :: "parser \<Rightarrow> bool" where
  \<comment> \<open>as long as the ids do not wrap\<close>
  "ps_inv ps \<longleftrightarrow> (n_syms ps < 2 ^ 32 \<longrightarrow> symbols_ok (ps_symbols ps)) \<and> rules_closed ps"

definition seq_inv :: "pseq \<Rightarrow> bool" where
  "seq_inv sq \<longleftrightarrow> ps_inv (sq_ps sq) \<and> open_ok GT_END (sq_rule sq) \<and> sq_last sq \<le> length (sq_rule sq) \<and>
     item_start (drop (sq_last sq) (sq_rule sq)) \<and> in_range (sq_ps sq) (sq_rule sq)"

definition grows :: "parser \<Rightarrow> parser \<Rightarrow> bool" where
  "grows ps ps' \<longleftrightarrow> n_syms ps \<le> n_syms ps'"

lemma grows_refl [simp]: "grows ps ps"
  by (simp add: grows_def)

lemma grows_trans: "grows a b \<Longrightarrow> grows b c \<Longrightarrow> grows a c"
  by (simp add: grows_def)

lemma in_range_grows: "in_range ps es \<Longrightarrow> grows ps ps' \<Longrightarrow> in_range ps' es"
  by (auto simp: in_range_def grows_def)

lemma rules_closed_grows: "rules_closed ps \<Longrightarrow> grows ps ps' \<Longrightarrow> ps_rules ps' = ps_rules ps \<Longrightarrow> rules_closed ps'"
  using in_range_grows unfolding rules_closed_def by metis

lemma in_range_simps [simp]: "in_range ps []" "in_range ps (xs @ ys) \<longleftrightarrow> in_range ps xs \<and> in_range ps ys"
  "in_range ps (e # es) \<longleftrightarrow> (ge_type e = GT_RULE_REF \<longrightarrow> n_syms ps < 2 ^ 32 \<longrightarrow> ge_value e < n_syms ps) \<and> in_range ps es"
  by (auto simp: in_range_def)

lemma get_symbol_inv:
  assumes "get_symbol_id name ps = (i, ps')" "ps_inv ps" "word_name name"
  shows "ps_inv ps'" "grows ps ps'" "n_syms ps' < 2 ^ 32 \<longrightarrow> i < n_syms ps'"
proof -
  have m: "n_syms ps \<le> n_syms ps'" "ps_rules ps' = ps_rules ps" using get_symbol_mono [OF assms(1)] by auto
  then show g: "grows ps ps'" by (simp add: grows_def)
  show "ps_inv ps'" "n_syms ps' < 2 ^ 32 \<longrightarrow> i < n_syms ps'"
    using get_symbol_ok [OF _ assms(3) _ assms(1)] rules_closed_grows [OF _ g m(2)] m(1) assms(2) by (auto simp: ps_inv_def)
qed

lemma generate_symbol_inv:
  assumes "generate_symbol_id name ps = (i, ps')" "ps_inv ps" "word_name name"
  shows "ps_inv ps'" "grows ps ps'" "n_syms ps' < 2 ^ 32 \<longrightarrow> i < n_syms ps'"
proof -
  have m: "n_syms ps \<le> n_syms ps'" "ps_rules ps' = ps_rules ps" using generate_symbol_mono [OF assms(1)] by auto
  then show g: "grows ps ps'" by (simp add: grows_def)
  show "ps_inv ps'" "n_syms ps' < 2 ^ 32 \<longrightarrow> i < n_syms ps'"
    using generate_symbol_ok [OF _ assms(3) _ assms(1)] rules_closed_grows [OF _ g m(2)] m(1) assms(2) by (auto simp: ps_inv_def)
qed

lemma add_rule_inv:
  assumes "ps_inv ps" "chain_ok GT_END rule" "in_range ps rule"
  shows "ps_inv (add_rule i rule ps)"
proof -
  define rules where "rules = (if length (ps_rules ps) \<le> i then vec_resize ((i + 1) mod 2 ^ 32) [] (ps_rules ps) else ps_rules ps)"
  have "set rules \<subseteq> insert [] (set (ps_rules ps))"
    by (auto simp: rules_def vec_resize_def dest: in_set_takeD split: if_splits)
  moreover have "ps_rules (add_rule i rule ps) = rules[i := rule]" by (simp add: add_rule_def rules_def)
  ultimately have "set (ps_rules (add_rule i rule ps)) \<subseteq> insert rule (insert [] (set (ps_rules ps)))"
    using set_update_subset_insert [of rules i rule] by auto
  then show ?thesis using assms unfolding ps_inv_def rules_closed_def in_range_def by auto
qed

lemma rec_rule_closed:
  assumes "open_ok p prev" "item_start prev"
  shows "chain_ok GT_END (prev @ (if b then [ge GT_RULE_REF v] else []) @ [ge GT_ALT 0, ge GT_END 0])"
proof -
  have "open_ok GT_END prev" by (rule open_start [OF assms])
  then have "open_ok GT_END (prev @ ((if b then [ge GT_RULE_REF v] else []) @ [ge GT_ALT 0]))"
    by (rule open_append [where p = GT_END]) (auto simp: may_follow_def item_start_def)
  from open_close [OF this, of 0] show ?thesis by simp
qed

lemma rec_rules_inv:
  "rec_rules no_max name prev n later last_id ps = (j, ps') \<Longrightarrow> ps_inv ps \<Longrightarrow> word_name name \<Longrightarrow> open_ok p prev \<Longrightarrow> item_start prev \<Longrightarrow>
   in_range ps prev \<Longrightarrow> (later \<longrightarrow> n_syms ps < 2 ^ 32 \<longrightarrow> last_id < n_syms ps) \<Longrightarrow>
   ps_inv ps' \<and> grows ps ps' \<and> (later \<or> n > 0 \<longrightarrow> n_syms ps' < 2 ^ 32 \<longrightarrow> j < n_syms ps')"
proof (induction no_max name prev n later last_id ps rule: rec_rules.induct)
  case (1 no_max name prev later last_id ps)
  then show ?case by auto
next
  case (2 no_max name prev n later last_id ps)
  obtain i ps1 where g: "generate_symbol_id name ps = (i, ps1)" by (cases "generate_symbol_id name ps")
  note inv = generate_symbol_inv [OF g "2.prems"(2,3)]
  define rule where "rule = prev @ (if later \<or> no_max then [ge GT_RULE_REF (if no_max then i else last_id)] else []) @ [ge GT_ALT 0, ge GT_END 0]"
  have c: "chain_ok GT_END rule" unfolding rule_def by (rule rec_rule_closed [OF "2.prems"(4,5)])
  have last: "later \<longrightarrow> n_syms ps1 < 2 ^ 32 \<longrightarrow> last_id < n_syms ps1" using "2.prems"(7) inv(2) by (auto simp: grows_def)
  have r: "in_range ps1 rule" using in_range_grows [OF "2.prems"(6) inv(2)] inv(3) last by (auto simp: rule_def)
  let ?ps = "add_rule i rule ps1"
  have a: "ps_inv ?ps" "n_syms ?ps = n_syms ps1" using add_rule_inv [OF inv(1) c r] by simp_all
  have gr: "grows ps ?ps" using inv(2) by (simp add: grows_def)
  have "rec_rules no_max name prev n True i ?ps = (j, ps')" using "2.prems"(1) g by (simp add: rule_def)
  from "2.IH" [OF g [symmetric], folded rule_def, OF this a(1) "2.prems"(3-5) in_range_grows [OF "2.prems"(6) gr]]
  have "ps_inv ps' \<and> grows ?ps ps' \<and> (n_syms ps' < 2 ^ 32 \<longrightarrow> j < n_syms ps')" using inv(3) by simp
  then show ?case using grows_trans [OF gr] by blast
qed

lemma handle_repetitions_inv:
  assumes "handle_repetitions name mn mx sq = Some (P_done sq')" "seq_inv sq" "word_name name"
  shows "seq_inv sq' \<and> grows (sq_ps sq) (sq_ps sq')"
proof -
  define no_max prev where "no_max = (mx = uint64_max)" and "prev = drop (sq_last sq) (sq_rule sq)"
  define n_opt where "n_opt = (if no_max then 1 else nat ((int mx - int mn) mod 2 ^ 64))"
  define rule where "rule = (if mn = 0 then take (sq_last sq) (sq_rule sq) else sq_rule sq @ concat (replicate (mn - 1) prev))"
  obtain j ps where rr: "rec_rules no_max name prev n_opt False 0 (sq_ps sq) = (j, ps)" by fastforce
  have sq': "sq_rule sq' = (if n_opt > 0 then rule @ [ge GT_RULE_REF j] else rule)" "sq_last sq' = sq_last sq" "sq_ps sq' = ps"
    using assms(1) rr by (auto simp: handle_repetitions_def Let_def no_max_def prev_def n_opt_def rule_def split: if_splits)
  have s: "ps_inv (sq_ps sq)" "open_ok GT_END (sq_rule sq)" "sq_last sq \<le> length (sq_rule sq)" "item_start prev" "in_range (sq_ps sq) (sq_rule sq)"
    using assms(2) by (simp_all add: seq_inv_def prev_def)
  obtain p where p: "open_ok p prev" using open_drop [OF s(2)] unfolding prev_def by blast
  have rp: "in_range (sq_ps sq) prev" "in_range (sq_ps sq) rule"
    using s(5) refs_drop [of "sq_last sq" "sq_rule sq"] refs_take [of "sq_last sq" "sq_rule sq"] refs_repeat [of "mn - 1" prev]
    by (auto simp: in_range_def prev_def rule_def)
  have inv: "ps_inv ps" "grows (sq_ps sq) ps" "n_opt > 0 \<longrightarrow> n_syms ps < 2 ^ 32 \<longrightarrow> j < n_syms ps"
    using rec_rules_inv [OF rr s(1) assms(3) p s(4) rp(1)] by auto
  have o: "open_ok GT_END rule" using open_take [OF s(2)] open_repeat [OF p s(4) s(2)] by (simp add: rule_def)
  have len: "sq_last sq \<le> length rule" using s(3) by (simp add: rule_def)
  have st: "item_start (drop (sq_last sq) rule)" using s(3,4) by (auto simp: rule_def prev_def item_start_def hd_append split: if_splits)
  have "open_ok GT_END (sq_rule sq')" unfolding sq' using open_append [OF o, of GT_END "[ge GT_RULE_REF j]"] o by (auto simp: may_follow_def item_start_def)
  moreover have "item_start (drop (sq_last sq) (sq_rule sq'))" unfolding sq' using st len by (auto simp: item_start_def hd_append)
  moreover have "in_range ps (sq_rule sq')" unfolding sq' using in_range_grows [OF rp(2) inv(2)] inv(3) by auto
  ultimately show ?thesis using inv(1,2) sq'(2,3) len by (auto simp: seq_inv_def sq'(1))
qed


lemma refs_none: "\<forall>e \<in> set es. ge_type e \<noteq> GT_RULE_REF \<Longrightarrow> refs es = {}"
  by (auto simp: refs_def)

declare parse_literal.simps [simp del] parse_class.simps [simp del]

lemma parse_literal_adds:
  "parse_literal src rule = Some (P_done (pos, rule')) \<Longrightarrow> \<exists>es. rule' = rule @ es \<and> (\<forall>e \<in> set es. ge_type e = GT_CHAR) \<and> length pos \<le> length src"
proof (induction src rule rule: parse_literal.induct)
  case (1 src rule)
  show ?case
  proof (cases "cur src = 0x22")
    case True then show ?thesis using "1.prems" by (subst (asm) parse_literal.simps) simp
  next
    case False
    then have ns: "src \<noteq> []" using "1.prems" by (subst (asm) parse_literal.simps) auto
    obtain c p where c: "parse_char src = Some (P_done (c, p))" "parse_literal p (rule @ [ge GT_CHAR c]) = Some (P_done (pos, rule'))"
      using "1.prems" False ns by (subst (asm) parse_literal.simps) (auto simp: p_bind_done)
    obtain es where "rule' = (rule @ [ge GT_CHAR c]) @ es" "\<forall>e \<in> set es. ge_type e = GT_CHAR" "length pos \<le> length p"
      using "1.IH" [OF False ns c(1) refl c(2)] by blast
    then show ?thesis using parse_char_length [OF c(1)] by (intro exI [of _ "ge GT_CHAR c # es"]) auto
  qed
qed

lemma chars_open: "\<forall>e \<in> set es. ge_type e = GT_CHAR \<Longrightarrow> open_ok prev es"
  by (induction es arbitrary: prev) (auto simp: may_follow_def)

definition class_ok :: "gelem list \<Rightarrow> bool" where
  "class_ok es \<longleftrightarrow> open_ok GT_END es \<and> item_start es \<and> (\<forall>e \<in> set es. ge_type e \<in> {GT_CHAR, GT_CHAR_NOT, GT_CHAR_ALT, GT_CHAR_RNG_UPPER})"

lemma class_add:
  assumes "class_ok es" "t \<in> {GT_CHAR, GT_CHAR_NOT}"
  shows "class_ok (es @ [ge (if es \<noteq> [] then GT_CHAR_ALT else t) c])" (is "class_ok (es @ [?e])")
    and "class_ok (es @ [ge (if es \<noteq> [] then GT_CHAR_ALT else t) c] @ [ge GT_CHAR_RNG_UPPER d])"
proof -
  have l: "es \<noteq> [] \<longrightarrow> ge_type (last es) \<in> {GT_CHAR, GT_CHAR_NOT, GT_CHAR_ALT, GT_CHAR_RNG_UPPER}" using assms(1) last_in_set unfolding class_ok_def by blast
  show a: "class_ok (es @ [?e])" using assms l by (cases "es = []") (auto simp: class_ok_def open_snoc may_follow_def item_start_def)
  have "open_ok GT_END ((es @ [?e]) @ [ge GT_CHAR_RNG_UPPER d])" using a assms(2) unfolding open_snoc class_ok_def by (auto simp: may_follow_def)
  then show "class_ok (es @ [ge (if es \<noteq> [] then GT_CHAR_ALT else t) c] @ [ge GT_CHAR_RNG_UPPER d])"
    using a by (auto simp: class_ok_def item_start_def hd_append)
qed

lemma p_bind_pair: "p_bind m (\<lambda>(a, b). f a b) = Some (P_done y) \<Longrightarrow> \<exists>a b. m = Some (P_done (a, b)) \<and> f a b = Some (P_done y)"
  by (auto simp: p_bind_done)

lemma parse_class_adds:
  "parse_class t (length rule0) src (rule0 @ es) = Some (P_done (pos, rule')) \<Longrightarrow> class_ok es \<Longrightarrow> t \<in> {GT_CHAR, GT_CHAR_NOT} \<Longrightarrow>
   \<exists>es'. rule' = rule0 @ es' \<and> class_ok es' \<and> length pos \<le> length src"
proof (induction "length src" arbitrary: src es rule: less_induct)
  case less
  show ?case
  proof (cases "cur src = 0x5D")
    case True then show ?thesis using less.prems by (subst (asm) parse_class.simps) auto
  next
    case False
    define e where "e = ge (if es \<noteq> [] then GT_CHAR_ALT else t)"
    have ns: "src \<noteq> []" using False less.prems by (subst (asm) parse_class.simps) (auto split: if_splits)
    obtain c p where c: "parse_char src = Some (P_done (c, p))"
      "(let rule = (rule0 @ es) @ [ge (if length rule0 < length (rule0 @ es) then GT_CHAR_ALT else t) c] in
        if cur p = 0x2D \<and> at_pos p 1 \<noteq> 0x5D
        then if at_pos p 1 = 0 then p_throw
             else p_bind (parse_char (drop 1 p)) (\<lambda>(d, p'). parse_class t (length rule0) p' (rule @ [ge GT_CHAR_RNG_UPPER d]))
        else parse_class t (length rule0) p rule) = Some (P_done (pos, rule'))"
      using p_bind_pair [OF less.prems(1) [unfolded parse_class.simps [of t "length rule0" src] if_not_P [OF False] if_not_P [OF ns]]] by blast
    note l = parse_char_length [OF c(1)]
    have ok: "class_ok (es @ [e c])" "class_ok (es @ [e c] @ [ge GT_CHAR_RNG_UPPER d])" for d
      unfolding e_def by (rule class_add [OF less.prems(2,3)])+
    show ?thesis
    proof (cases "cur p = 0x2D \<and> at_pos p 1 \<noteq> 0x5D")
      case True
      then obtain d p' where d: "parse_char (drop 1 p) = Some (P_done (d, p'))"
        "parse_class t (length rule0) p' (rule0 @ (es @ [e c] @ [ge GT_CHAR_RNG_UPPER d])) = Some (P_done (pos, rule'))"
        using c(2) by (auto simp: Let_def e_def p_bind_done split: if_splits)
      have l2: "length p' < length src" using parse_char_length [OF d(1)] l by simp
      show ?thesis using less.hyps [OF l2 d(2) ok(2) less.prems(3)] l2 by auto
    next
      case nr: False
      then have "parse_class t (length rule0) p (rule0 @ (es @ [e c])) = Some (P_done (pos, rule'))" using c(2) by (auto simp: Let_def e_def)
      from less.hyps [OF l this ok(1) less.prems(3)] show ?thesis using l by auto
    qed
  qed
qed


lemma parse_space_length: "length (parse_space src nl) \<le> length src"
proof (induction src nl rule: parse_space.induct)
  case (2 c src nl)
  then show ?case using dropWhile_le [of "\<lambda>c. c \<noteq> 0x0D \<and> c \<noteq> 0x0A" src] by (auto simp del: dropWhile_le intro: le_trans le_SucI)
qed simp

lemma parse_name_word: "parse_name src = Some (P_done (name, pos)) \<Longrightarrow> word_name name \<and> length pos < length src"
proof -
  assume a: "parse_name src = Some (P_done (name, pos))"
  then have n: "name = takeWhile is_word_char src" "pos = dropWhile is_word_char src" "name \<noteq> []"
    by (auto simp: parse_name_def Let_def split: if_splits)
  have "length src = length name + length pos" unfolding n(1,2) by (metis length_append takeWhile_dropWhile_id)
  moreover have "word_name name" unfolding n(1) word_name_def using set_takeWhileD by metis
  ultimately show ?thesis using n(3) by simp
qed

lemma parse_int_length: "parse_int src = Some (P_done (v, pos)) \<Longrightarrow> length pos < length src"
proof -
  assume a: "parse_int src = Some (P_done (v, pos))"
  then have n: "takeWhile is_digit_char src \<noteq> []" "pos = dropWhile is_digit_char src"
    by (auto simp: parse_int_def Let_def split: if_splits)
  have "length src = length (takeWhile is_digit_char src) + length pos" unfolding n(2) by (metis length_append takeWhile_dropWhile_id)
  then show ?thesis using n(1) by simp
qed

lemma parse_token_length: "parse_token vocab src = Some (P_done (v, pos)) \<Longrightarrow> length pos < length src"
proof -
  assume a: "parse_token vocab src = Some (P_done (v, pos))"
  have ne: "src \<noteq> []" using a by (auto simp: parse_token_def at_pos_def split: if_splits)
  show ?thesis
  proof (cases "at_pos src 1 = 0x5B")
    case True
    then obtain i p where "parse_int (drop 2 src) = Some (P_done (i, p))" "pos = drop 2 p"
      using a by (auto simp: parse_token_def p_bind_done split: if_splits)
    then show ?thesis using parse_int_length [of "drop 2 src" i p] by simp
  next
    case False
    then have "pos = drop 1 (dropWhile (\<lambda>c. c \<noteq> 0x3E) (drop 1 src))"
      using a by (auto simp: parse_token_def Let_def split: if_splits option.splits list.splits)
    then show ?thesis using dropWhile_le [of "\<lambda>c. c \<noteq> 0x3E" "drop 1 src"] ne by (cases src) auto
  qed
qed

lemma parse_braces_length: "parse_braces src nested = Some (P_done (mn, mx, pos)) \<Longrightarrow> length pos \<le> length src"
proof -
  assume "parse_braces src nested = Some (P_done (mn, mx, pos))"
  then obtain e m where e: "parse_int src = Some (P_done (mn, e))" and
    r: "(let p = parse_space e nested in
          if cur p = 0x7D then p_ret (mn, parse_space (drop 1 p) nested)
          else if cur p = 0x2C
          then let p = parse_space (drop 1 p) nested in
            p_bind (if is_digit_char (cur p) then p_bind (parse_int p) (\<lambda>(m, int_end). p_ret (m, parse_space int_end nested)) else p_ret (uint64_max, p))
              (\<lambda>(m, p). if cur p \<noteq> 0x7D then p_throw else p_ret (m, parse_space (drop 1 p) nested))
          else p_throw) = Some (P_done (m, pos))"
    by (auto simp: parse_braces_def p_bind_done split: if_splits)
  have l: "length (parse_space (drop 1 x) nested) \<le> length x" for x using parse_space_length [of "drop 1 x" nested] by simp
  have "length pos \<le> length (parse_space e nested)"
  proof (cases "cur (parse_space e nested) = 0x7D")
    case True then show ?thesis using r l by (auto simp: Let_def)
  next
    case False
    let ?q = "parse_space (drop 1 (parse_space e nested)) nested"
    have "\<exists>x. length x \<le> length ?q \<and> pos = parse_space (drop 1 x) nested"
    proof (cases "is_digit_char (cur ?q)")
      case True
      then obtain v q where q: "parse_int ?q = Some (P_done (v, q))" "pos = parse_space (drop 1 (parse_space q nested)) nested"
        using r False by (auto simp: Let_def p_bind_done split: if_splits)
      then show ?thesis using parse_int_length [OF q(1)] parse_space_length [of q nested] by (intro exI [of _ "parse_space q nested"]) auto
    next
      case nd: False
      then show ?thesis using r False by (intro exI [of _ ?q]) (auto simp: Let_def p_bind_done split: if_splits)
    qed
    then show ?thesis using l le_trans by blast
  qed
  then show ?thesis using parse_int_length [OF e] parse_space_length [of e nested] by simp
qed


subsection \<open>Every part keeps the invariant and consumes text\<close>

lemma new_symbols_inv:
  assumes "seq_inv sq" "open_ok GT_END es" "item_start es" "in_range (sq_ps sq) es" "sq_rule sq' = sq_rule sq @ es" "sq_last sq' = length (sq_rule sq)" "sq_ps sq' = sq_ps sq"
  shows "seq_inv sq'"
  using assms open_append [of GT_END "sq_rule sq" GT_END es] by (simp add: seq_inv_def)

lemma item_start_single: "t \<notin> {GT_CHAR_RNG_UPPER, GT_CHAR_ALT} \<Longrightarrow> item_start [ge t v]"
  by (simp add: item_start_def)

lemma new_item_inv:
  assumes "seq_inv sq" "t \<notin> {GT_CHAR_RNG_UPPER, GT_CHAR_ALT, GT_END}" "t = GT_RULE_REF \<longrightarrow> n_syms (sq_ps sq) < 2 ^ 32 \<longrightarrow> v < n_syms (sq_ps sq)"
  shows "seq_inv (new_item [ge t v] sq)"
  by (rule new_symbols_inv [OF assms(1), of "[ge t v]"]) (use assms in \<open>auto simp: new_item_def may_follow_def item_start_def\<close>)

definition consumes :: "bytes \<Rightarrow> pseq \<Rightarrow> bytes \<times> pseq \<Rightarrow> bool" where
  "consumes pos sq r \<longleftrightarrow> length (fst r) < length pos \<and> (seq_inv sq \<longrightarrow> seq_inv (snd r)) \<and> grows (sq_ps sq) (sq_ps (snd r))"

lemma cur_nonempty: "cur pos = c \<Longrightarrow> c \<noteq> 0 \<Longrightarrow> pos \<noteq> []"
  by (auto simp: at_pos_def)

lemma space_drop: "pos \<noteq> [] \<Longrightarrow> 0 < n \<Longrightarrow> length (parse_space (drop n pos) nl) < length pos"
  using parse_space_length [of "drop n pos" nl] by (cases pos) (auto simp: le_less_trans)

lemma rec_rules_grows: "rec_rules no_max name prev n later last_id ps = (j, ps') \<Longrightarrow> grows ps ps'"
proof (induction no_max name prev n later last_id ps rule: rec_rules.induct)
  case (2 no_max name prev n later last_id ps)
  obtain i ps1 where g: "generate_symbol_id name ps = (i, ps1)" by (cases "generate_symbol_id name ps")
  then have "grows ps ps1" using generate_symbol_mono [OF g] by (simp add: grows_def)
  moreover have "grows ps1 ps'" using "2.IH" [OF g [symmetric]] "2.prems" g by (simp add: grows_def)
  ultimately show ?case by (rule grows_trans)
qed simp

lemma handle_grows: "handle_repetitions name mn mx sq = Some (P_done sq') \<Longrightarrow> grows (sq_ps sq) (sq_ps sq')"
  using rec_rules_grows by (auto simp: handle_repetitions_def Let_def simp del: rec_rules.simps One_nat_def split: if_splits prod.splits)

lemma handle_consumes:
  assumes "handle_repetitions name mn mx sq = Some (P_done sq')" "word_name name" "length pos' < length pos"
  shows "consumes pos sq (pos', sq')"
  using handle_repetitions_inv [OF assms(1) _ assms(2)] handle_grows [OF assms(1)] assms(3) by (auto simp: consumes_def)

lemma literal_consumes:
  assumes "cur pos = 0x22" "parse_literal (drop 1 pos) (sq_rule sq) = Some (P_done (pos1, rule))"
  shows "consumes pos sq (parse_space (drop 1 pos1) nested, sq\<lparr>sq_rule := rule, sq_last := length (sq_rule sq), sq_n_prev := 1\<rparr>)"
proof -
  obtain es where es: "rule = sq_rule sq @ es" "\<forall>e \<in> set es. ge_type e = GT_CHAR" "length pos1 \<le> length (drop 1 pos)"
    using parse_literal_adds [OF assms(2)] by blast
  have "refs es = {}" using es(2) by (intro refs_none) auto
  then have r: "in_range ps es" for ps by (simp add: in_range_def)
  have st: "item_start es" using es(2) by (cases es) (auto simp: item_start_def)
  have "length (parse_space (drop 1 pos1) nested) < length pos"
    using parse_space_length [of "drop 1 pos1" nested] es(3) cur_nonempty [OF assms(1)] by (cases pos) auto
  then show ?thesis using new_symbols_inv [of sq es] chars_open [OF es(2)] st r by (auto simp: consumes_def es(1))
qed

lemma class_consumes:
  assumes "cur pos = 0x5B" "parse_class t (length (sq_rule sq)) (drop n pos) (sq_rule sq) = Some (P_done (pos1, rule))" "0 < n" "t \<in> {GT_CHAR, GT_CHAR_NOT}"
  shows "consumes pos sq (parse_space (drop 1 pos1) nested, sq\<lparr>sq_rule := rule, sq_last := length (sq_rule sq), sq_n_prev := 1\<rparr>)"
proof -
  have "class_ok []" by (simp add: class_ok_def item_start_def)
  then obtain es where es: "rule = sq_rule sq @ es" "class_ok es" "length pos1 \<le> length (drop n pos)"
    using parse_class_adds [of t "sq_rule sq" "drop n pos" "[]"] assms(2,4) by auto
  have "refs es = {}" using es(2) by (intro refs_none) (auto simp: class_ok_def)
  then have r: "in_range ps es" for ps by (simp add: in_range_def)
  have "length (parse_space (drop 1 pos1) nested) < length pos"
    using parse_space_length [of "drop 1 pos1" nested] es(3) cur_nonempty [OF assms(1)] assms(3) by (cases pos) auto
  then show ?thesis using new_symbols_inv [of sq es] r es(2) by (auto simp: consumes_def class_ok_def es(1))
qed

lemma new_item_consumes:
  assumes "length pos' < length pos" "t \<notin> {GT_CHAR_RNG_UPPER, GT_CHAR_ALT, GT_END, GT_RULE_REF}"
  shows "consumes pos sq (pos', new_item [ge t v] sq)"
  using new_item_inv [of sq t v] assms by (auto simp: consumes_def) (simp add: new_item_def)

lemma reference_consumes:
  assumes "length pos' < length pos" "get_symbol_id r (sq_ps sq) = (i, ps)" "word_name r"
  shows "consumes pos sq (pos', new_item [ge GT_RULE_REF i] (sq\<lparr>sq_ps := ps\<rparr>))"
proof -
  have g: "grows (sq_ps sq) ps" using get_symbol_mono [OF assms(2)] by (simp add: grows_def)
  have "seq_inv (new_item [ge GT_RULE_REF i] (sq\<lparr>sq_ps := ps\<rparr>))" if s: "seq_inv sq"
  proof (rule new_item_inv)
    have i: "ps_inv ps" "n_syms ps < 2 ^ 32 \<longrightarrow> i < n_syms ps" using get_symbol_inv [OF assms(2) _ assms(3)] s by (auto simp: seq_inv_def)
    then show "seq_inv (sq\<lparr>sq_ps := ps\<rparr>)" using s in_range_grows [OF _ g] by (simp add: seq_inv_def)
    show "GT_RULE_REF = GT_RULE_REF \<longrightarrow> n_syms (sq_ps (sq\<lparr>sq_ps := ps\<rparr>)) < 2 ^ 32 \<longrightarrow> i < n_syms (sq_ps (sq\<lparr>sq_ps := ps\<rparr>))" using i(2) by simp
  qed simp
  then show ?thesis using assms(1) g by (simp add: consumes_def new_item_def)
qed

lemma parse_item_consumes:
  assumes "parse_item vocab name nested pos sq = Some (Some (P_done r))" "word_name name"
  shows "consumes pos sq r"
proof -
  have d: "length (parse_space (drop 1 pos) nested) < length pos" if "pos \<noteq> []" using space_drop [OF that] by simp
  consider (lit) "cur pos = 0x22" | (cls) "cur pos = 0x5B" | (tok) "cur pos = 0x3C \<or> cur pos = 0x21"
    | (ref) "is_word_char (cur pos)" "cur pos \<noteq> 0x22" "cur pos \<noteq> 0x5B" "cur pos \<noteq> 0x3C" "cur pos \<noteq> 0x21"
    | (oth) "\<not> is_word_char (cur pos)" "cur pos \<noteq> 0x22" "cur pos \<noteq> 0x5B" "cur pos \<noteq> 0x3C" "cur pos \<noteq> 0x21" by blast
  then show ?thesis
  proof cases
    case lit
    then show ?thesis using assms(1) literal_consumes [OF lit] by (auto simp: parse_item_def p_bind_done)
  next
    case cls
    then show ?thesis using assms(1) class_consumes [OF cls, of "if at_pos pos 1 = 0x5E then GT_CHAR_NOT else GT_CHAR" _ "if at_pos pos 1 = 0x5E then 2 else 1"]
      by (auto simp: parse_item_def p_bind_done Let_def)
  next
    case tok
    then have ne: "pos \<noteq> []" using cur_nonempty by fastforce
    let ?p = "if cur pos = 0x21 then drop 1 pos else pos"
    obtain v p where v: "parse_token vocab ?p = Some (P_done (v, p))"
      "r = (parse_space p nested, new_item [ge (if cur pos = 0x21 then GT_TOKEN_NOT else GT_TOKEN) v] sq)"
      using assms(1) tok by (auto simp: parse_item_def p_bind_done Let_def)
    have "length ?p \<le> length pos" by simp
    then have "length (parse_space p nested) < length pos" using parse_token_length [OF v(1)] parse_space_length [of p nested] by linarith
    then show ?thesis unfolding v(2) by (intro new_item_consumes) auto
  next
    case ref
    then obtain n p where n: "parse_name pos = Some (P_done (n, p))"
      "(case get_symbol_id n (sq_ps sq) of (i, ps) \<Rightarrow> p_ret (parse_space p nested, new_item [ge GT_RULE_REF i] (sq\<lparr>sq_ps := ps\<rparr>))) = Some (P_done r)"
      using assms(1) by (auto simp: parse_item_def p_bind_done)
    obtain i ps where g: "get_symbol_id n (sq_ps sq) = (i, ps)" by (cases "get_symbol_id n (sq_ps sq)")
    have "length (parse_space p nested) < length pos" "word_name n" using parse_name_word [OF n(1)] parse_space_length [of p nested] by auto
    then show ?thesis using n(2) g reference_consumes [OF _ g] by auto
  next
    case oth
    have ne: "pos \<noteq> []" using assms(1) oth by (auto simp: parse_item_def at_pos_def)
    note h = handle_consumes [OF _ assms(2)]
    have b: "consumes pos sq (p, sq')" if "parse_braces (parse_space (drop 1 pos) nested) nested = Some (P_done (mn, mx, p))"
      "handle_repetitions name mn mx sq = Some (P_done sq')" for mn mx p sq'
      using h [OF that(2)] parse_braces_length [OF that(1)] d [OF ne] by auto
    show ?thesis using assms(1) oth d [OF ne] h b
      by (auto simp: parse_item_def p_bind_done intro: new_item_consumes split: if_splits)
  qed
qed


definition seq_keeps :: "bytes \<Rightarrow> pseq \<Rightarrow> bytes \<times> pseq \<Rightarrow> bool" where
  "seq_keeps pos sq r \<longleftrightarrow> length (fst r) \<le> length pos \<and> (seq_inv sq \<longrightarrow> seq_inv (snd r)) \<and> grows (sq_ps sq) (sq_ps (snd r))"

definition alt_keeps :: "bytes \<Rightarrow> parser \<Rightarrow> bool \<Rightarrow> bytes \<times> parser \<Rightarrow> bool" where
  "alt_keeps pos ps ok r \<longleftrightarrow> length (fst r) \<le> length pos \<and> (ok \<longrightarrow> ps_inv (snd r)) \<and> grows ps (snd r)"

lemma seq_keeps_trans: "consumes pos sq (pos1, sq1) \<Longrightarrow> seq_keeps pos1 sq1 r \<Longrightarrow> seq_keeps pos sq r"
  using grows_trans by (auto simp: consumes_def seq_keeps_def)

lemma alternative_inv: "seq_inv sq \<Longrightarrow> seq_inv \<lparr>sq_rule = sq_rule sq @ [ge GT_ALT 0], sq_last = length (sq_rule sq @ [ge GT_ALT 0]), sq_n_prev = n, sq_ps = sq_ps sq\<rparr>"
  using open_append [of GT_END "sq_rule sq" GT_END "[ge GT_ALT 0]"] by (auto simp: seq_inv_def may_follow_def item_start_def)

lemma close_inv: "seq_inv sq \<Longrightarrow> ps_inv (add_rule i (sq_rule sq @ [ge GT_END 0]) (sq_ps sq))"
  by (intro add_rule_inv open_close) (auto simp: seq_inv_def)

lemma empty_seq_inv: "ps_inv ps \<Longrightarrow> seq_inv \<lparr>sq_rule = [], sq_last = 0, sq_n_prev = 1, sq_ps = ps\<rparr>"
  by (simp add: seq_inv_def item_start_def)

lemma group_inv:
  assumes "seq_inv sq" "ps_inv ps'" "grows (sq_ps sq) ps'" "n_syms ps' < 2 ^ 32 \<longrightarrow> sub < n_syms ps'"
  shows "seq_inv \<lparr>sq_rule = sq_rule sq @ [ge GT_RULE_REF sub], sq_last = length (sq_rule sq), sq_n_prev = n, sq_ps = ps'\<rparr>"
  using assms in_range_grows [OF _ assms(3)] open_append [of GT_END "sq_rule sq" GT_END "[ge GT_RULE_REF sub]"]
  by (auto simp: seq_inv_def may_follow_def item_start_def)

lemma parse_keeps:
  "word_name name \<Longrightarrow> parse_sequence d vocab name nested pos sq = Some (P_done r) \<Longrightarrow> seq_keeps pos sq r"
  "word_name name \<Longrightarrow> parse_alternates d vocab name i nested pos ps = Some (P_done q) \<Longrightarrow> alt_keeps pos ps (ps_inv ps) q"
  "word_name name \<Longrightarrow> parse_more d vocab name i nested pos sq = Some (P_done q) \<Longrightarrow> alt_keeps pos (sq_ps sq) (seq_inv sq) q"
proof (induction d arbitrary: nested pos sq r i ps q)
  case (Suc d)
  {
    case 1
    show ?case
    proof (cases "cur pos = 0x28")
      case True
      obtain sub ps where g: "generate_symbol_id name (sq_ps sq) = (sub, ps)" by (cases "generate_symbol_id name (sq_ps sq)")
      define sq2 where "sq2 ps' = \<lparr>sq_rule = sq_rule sq @ [ge GT_RULE_REF sub], sq_last = length (sq_rule sq),
        sq_n_prev = max 1 ((length (ps_symbols ps') - length (ps_symbols (sq_ps sq))) mod 2 ^ 32), sq_ps = ps'\<rparr>" for ps'
      obtain pos1 ps' where a: "parse_alternates d vocab name sub True (parse_space (drop 1 pos) True) ps = Some (P_done (pos1, ps'))"
        "parse_sequence d vocab name nested (parse_space (drop 1 pos1) nested) (sq2 ps') = Some (P_done r)"
        using "1.prems"(2) True g by (auto simp: p_bind_done Let_def sq2_def split: if_splits)
      note k = Suc.IH(2) [OF "1.prems"(1) a(1)]
      have l: "length (parse_space (drop 1 pos1) nested) \<le> length pos"
      proof -
        have "length pos1 \<le> length (parse_space (drop 1 pos) True)" using k by (simp add: alt_keeps_def)
        then show ?thesis using parse_space_length [of "drop 1 pos1" nested] parse_space_length [of "drop 1 pos" True] unfolding length_drop by linarith
      qed
      have gr: "grows (sq_ps sq) ps" "grows ps ps'" using generate_symbol_mono [OF g] k by (auto simp: grows_def alt_keeps_def)
      have inv: "seq_inv (sq2 ps')" if s: "seq_inv sq"
      proof -
        have p: "ps_inv (sq_ps sq)" using s by (simp add: seq_inv_def)
        note gi = generate_symbol_inv [OF g p "1.prems"(1)]
        have "n_syms ps' < 2 ^ 32 \<longrightarrow> sub < n_syms ps'" using gi(3) gr(2) by (auto simp: grows_def)
        then show ?thesis unfolding sq2_def using group_inv [OF s _ grows_trans [OF gr]] k gi(1) by (simp add: alt_keeps_def)
      qed
      have "seq_keeps (parse_space (drop 1 pos1) nested) (sq2 ps') r" by (rule Suc.IH(1) [OF "1.prems"(1) a(2)])
      then show ?thesis using l inv grows_trans [OF gr] by (auto simp: seq_keeps_def sq2_def intro: grows_trans)
    next
      case False
      show ?thesis
      proof (cases "parse_item vocab name nested pos sq")
        case None then show ?thesis using "1.prems"(2) False by (auto simp: seq_keeps_def)
      next
        case (Some m)
        then obtain pos1 sq1 where m: "m = Some (P_done (pos1, sq1))" "parse_sequence d vocab name nested pos1 sq1 = Some (P_done r)"
          using "1.prems"(2) False by (auto simp: p_bind_done)
        show ?thesis using parse_item_consumes [OF Some [unfolded m(1)] "1.prems"(1)] Suc.IH(1) [OF "1.prems"(1) m(2)] by (rule seq_keeps_trans)
      qed
    qed
  next
    case 2
    then obtain pos1 sq1 where a: "parse_sequence d vocab name nested pos \<lparr>sq_rule = [], sq_last = 0, sq_n_prev = 1, sq_ps = ps\<rparr> = Some (P_done (pos1, sq1))"
      "parse_more d vocab name i nested pos1 sq1 = Some (P_done q)" by (auto simp: p_bind_done)
    show ?case using Suc.IH(1) [OF "2.prems"(1) a(1)] Suc.IH(3) [OF "2.prems"(1) a(2)] empty_seq_inv [of ps]
      by (auto simp: seq_keeps_def alt_keeps_def intro: grows_trans)
  next
    case 3
    show ?case
    proof (cases "cur pos = 0x7C")
      case True
      define sq2 where "sq2 = \<lparr>sq_rule = sq_rule sq @ [ge GT_ALT 0], sq_last = length (sq_rule sq @ [ge GT_ALT 0]), sq_n_prev = 1, sq_ps = sq_ps sq\<rparr>"
      obtain pos1 sq1 where a: "parse_sequence d vocab name nested (parse_space (drop 1 pos) True) sq2 = Some (P_done (pos1, sq1))"
        "parse_more d vocab name i nested pos1 sq1 = Some (P_done q)" using "3.prems"(2) True by (auto simp: p_bind_done Let_def sq2_def)
      have "seq_inv sq \<longrightarrow> seq_inv sq2" "sq_ps sq2 = sq_ps sq" using alternative_inv by (simp_all add: sq2_def)
      moreover have "length (parse_space (drop 1 pos) True) \<le> length pos" using parse_space_length [of "drop 1 pos" True] by simp
      ultimately show ?thesis using Suc.IH(1) [OF "3.prems"(1) a(1)] Suc.IH(3) [OF "3.prems"(1) a(2)]
        by (auto simp: seq_keeps_def alt_keeps_def intro: grows_trans)
    next
      case False
      then show ?thesis using "3.prems"(2) close_inv [of sq i] by (auto simp: alt_keeps_def grows_def)
    qed
  }
qed simp_all


subsection \<open>The depth is enough\<close>

definition decided :: "'a pres \<Rightarrow> bool" where
  "decided m \<longleftrightarrow> m \<noteq> None"

lemma decided_bind: "decided m \<Longrightarrow> (\<And>x. m = Some (P_done x) \<Longrightarrow> decided (f x)) \<Longrightarrow> decided (p_bind m f)"
  by (auto simp: decided_def p_bind_def split: option.splits pout.splits)

lemma decided_simps [simp]: "decided (p_ret x)" "decided p_throw" "decided (Some y)"
  by (simp_all add: decided_def p_ret_def p_throw_def)

lemma decided_if: "decided a \<Longrightarrow> decided b \<Longrightarrow> decided (if c then a else b)"
  by simp

lemma parse_hex_decided [simp]: "decided (parse_hex n src v)"
  by (induction n src v rule: parse_hex.induct) (auto split: option.splits list.splits)

lemma parse_char_decided [simp]: "decided (parse_char src)"
  unfolding parse_char_def Let_def by (intro decided_if) simp_all

lemma parse_literal_decided [simp]: "decided (parse_literal src rule)"
proof (induction src rule rule: parse_literal.induct)
  case (1 src rule)
  then show ?case by (subst parse_literal.simps) (auto intro!: decided_bind)
qed

lemma parse_class_decided [simp]: "decided (parse_class t n src rule)"
proof (induction t n src rule rule: parse_class.induct)
  case (1 t n src rule)
  have "decided (let rule = rule @ [ge (if n < length rule then GT_CHAR_ALT else t) c] in
        if cur pos = 0x2D \<and> at_pos pos 1 \<noteq> 0x5D
        then if at_pos pos 1 = 0 then p_throw
             else p_bind (parse_char (drop 1 pos)) (\<lambda>(e, pos'). parse_class t n pos' (rule @ [ge GT_CHAR_RNG_UPPER e]))
        else parse_class t n pos rule)" if a: "cur src \<noteq> 0x5D" "src \<noteq> []" "parse_char src = Some (P_done (c, pos))" for c pos
  proof (cases "cur pos = 0x2D \<and> at_pos pos 1 \<noteq> 0x5D")
    case True
    have "decided (parse_class t n p (rule @ [ge (if n < length rule then GT_CHAR_ALT else t) c] @ [ge GT_CHAR_RNG_UPPER e]))"
      if "at_pos pos 1 \<noteq> 0" "parse_char (drop 1 pos) = Some (P_done (e, p))" for e p
      using "1.IH"(1) [OF a(1,2) a(3) refl refl True that(1) that(2) refl] by simp
    then show ?thesis using True by (auto simp: Let_def intro!: decided_bind)
  next
    case False
    show ?thesis using "1.IH"(2) [OF a(1,2) a(3) refl refl False] False by (simp only: Let_def if_False)
  qed
  note inner = this
  show ?case
  proof (cases "cur src = 0x5D \<or> src = []")
    case True
    then show ?thesis by (subst parse_class.simps) auto
  next
    case False
    then have ne: "cur src \<noteq> 0x5D" "src \<noteq> []" by auto
    show ?thesis unfolding parse_class.simps [of t n src] if_not_P [OF ne(1)] if_not_P [OF ne(2)]
      by (rule decided_bind) (use inner [OF ne] in \<open>auto simp del: One_nat_def\<close>)
  qed
qed

lemma parse_token_decided [simp]: "decided (parse_token vocab src)"
  by (auto simp: parse_token_def Let_def parse_int_def split: option.splits list.splits intro!: decided_bind)

lemma parse_int_decided [simp]: "decided (parse_int src)"
  by (simp add: parse_int_def Let_def)

lemma parse_name_decided [simp]: "decided (parse_name src)"
  by (simp add: parse_name_def Let_def)

lemma parse_braces_decided [simp]: "decided (parse_braces src nested)"
  unfolding parse_braces_def Let_def case_prod_unfold by (intro decided_if decided_bind) auto

lemma handle_decided [simp]: "decided (handle_repetitions name mn mx sq)"
  by (simp add: handle_repetitions_def Let_def split: prod.splits)

lemma parse_item_decided: "parse_item vocab name nested pos sq = Some m \<Longrightarrow> decided m"
  by (auto simp: parse_item_def Let_def case_prod_unfold split: if_splits intro!: decided_bind)

lemma parse_decided:
  "word_name name \<Longrightarrow> 2 * length pos < d \<Longrightarrow> decided (parse_sequence d vocab name nested pos sq)"
  "word_name name \<Longrightarrow> 2 * length pos + 1 < d \<Longrightarrow> decided (parse_alternates d vocab name i nested pos ps)"
  "word_name name \<Longrightarrow> 2 * length pos < d \<Longrightarrow> decided (parse_more d vocab name i nested pos sq)"
proof (induction d arbitrary: nested pos sq i ps)
  case (Suc d)
  {
    case 1
    show ?case
    proof (cases "cur pos = 0x28")
      case True
      then have ne: "pos \<noteq> []" by (rule cur_nonempty) simp
      obtain sub ps where g: "generate_symbol_id name (sq_ps sq) = (sub, ps)" by (cases "generate_symbol_id name (sq_ps sq)")
      have l: "length (parse_space (drop 1 pos) True) < length pos" using space_drop [OF ne] by simp
      have "decided (parse_alternates d vocab name sub True (parse_space (drop 1 pos) True) ps)"
        using "1.prems" l by (intro Suc.IH(2)) linarith+
      moreover have "decided (parse_sequence d vocab name nested (parse_space (drop 1 pos1) nested) sq')"
        if "parse_alternates d vocab name sub True (parse_space (drop 1 pos) True) ps = Some (P_done (pos1, ps'))" for pos1 ps' sq'
      proof (rule Suc.IH(1) [OF "1.prems"(1)])
        have "length pos1 \<le> length (parse_space (drop 1 pos) True)" using parse_keeps(2) [OF "1.prems"(1) that] by (simp add: alt_keeps_def)
        moreover have "length (parse_space (drop 1 pos1) nested) \<le> length pos1" using parse_space_length [of "drop 1 pos1" nested] by simp
        ultimately show "2 * length (parse_space (drop 1 pos1) nested) < d" using l "1.prems"(2) by linarith
      qed
      ultimately show ?thesis using True g by (auto simp: Let_def intro!: decided_bind)
    next
      case False
      show ?thesis
      proof (cases "parse_item vocab name nested pos sq")
        case None then show ?thesis using False by simp
      next
        case (Some m)
        have "decided (parse_sequence d vocab name nested pos1 sq1)" if "m = Some (P_done (pos1, sq1))" for pos1 sq1
          using parse_item_consumes [OF Some [unfolded that] "1.prems"(1)] "1.prems" by (intro Suc.IH(1)) (auto simp: consumes_def)
        then show ?thesis using False Some parse_item_decided [OF Some] by (auto intro!: decided_bind)
      qed
    qed
  next
    case 2
    have "decided (parse_sequence d vocab name nested pos sq)" for sq using "2.prems" by (intro Suc.IH(1)) linarith+
    moreover have "decided (parse_more d vocab name i nested pos1 sq1)" if "parse_sequence d vocab name nested pos sq = Some (P_done (pos1, sq1))" for sq pos1 sq1
      using parse_keeps(1) [OF "2.prems"(1) that] "2.prems" by (intro Suc.IH(3)) (auto simp: seq_keeps_def)
    ultimately show ?case by (auto intro!: decided_bind)
  next
    case 3
    show ?case
    proof (cases "cur pos = 0x7C")
      case True
      then have ne: "pos \<noteq> []" by (rule cur_nonempty) simp
      have l: "length (parse_space (drop 1 pos) True) < length pos" using space_drop [OF ne] by simp
      have "decided (parse_sequence d vocab name nested (parse_space (drop 1 pos) True) sq)" for sq
        using "3.prems" l by (intro Suc.IH(1)) linarith+
      moreover have "decided (parse_more d vocab name i nested pos1 sq1)"
        if "parse_sequence d vocab name nested (parse_space (drop 1 pos) True) sq = Some (P_done (pos1, sq1))" for sq pos1 sq1
        using parse_keeps(1) [OF "3.prems"(1) that] "3.prems" l by (intro Suc.IH(3)) (auto simp: seq_keeps_def)
      ultimately show ?thesis using True by (auto simp: Let_def intro!: decided_bind)
    next
      case False then show ?thesis by simp
    qed
  }
qed simp_all

end
