(* ===== verification/GrammarInit.thy ===== *)
theory GrammarInit
  imports GrammarText
begin

text \<open>
  The whole way from a grammar text to a grammar: the parser always ends, the rules it gives are well formed, and
  the grammar made of them accepts the language of its start rule. At the end the texts that break this.
\<close>

subsection \<open>Rules of a text\<close>

definition rules_keep :: "bytes \<Rightarrow> parser \<Rightarrow> bytes \<times> parser \<Rightarrow> bool" where
  "rules_keep src ps r \<longleftrightarrow> length (fst r) < length src \<and> (ps_inv ps \<longrightarrow> ps_inv (snd r))"

lemma parse_rule_keeps:
  assumes "parse_rule d vocab src ps = Some (P_done r)"
  shows "rules_keep src ps r"
proof -
  obtain name e where n: "parse_name src = Some (P_done (name, e))" using assms by (auto simp: parse_rule_def p_bind_done)
  obtain i ps1 where g: "get_symbol_id name ps = (i, ps1)" by (cases "get_symbol_id name ps")
  have l: "length (parse_space (drop k pos) True) \<le> length pos" for k pos using parse_space_length [of "drop k pos" True] by simp
  obtain pos ps2 where a: "parse_alternates d vocab name i False (parse_space (drop 3 (parse_space e False)) True) ps1 = Some (P_done (pos, ps2))"
    "(if cur pos = 0x0D then p_ret (parse_space (drop (if at_pos pos 1 = 0x0A then 2 else 1) pos) True, ps2)
         else if cur pos = 0x0A then p_ret (parse_space (drop 1 pos) True, ps2)
         else if pos \<noteq> [] then p_throw else p_ret (parse_space pos True, ps2)) = Some (P_done r)"
    using assms n g by (auto simp: parse_rule_def p_bind_done Let_def split: if_splits)
  have r: "snd r = ps2" "length (fst r) \<le> length pos" using a(2) l [of _ pos] parse_space_length [of pos True] by (auto split: if_splits simp del: One_nat_def)
  have w: "word_name name" "length e < length src" using parse_name_word [OF n] by auto
  have k: "alt_keeps (parse_space (drop 3 (parse_space e False)) True) ps1 (ps_inv ps1) (pos, ps2)" by (rule parse_keeps(2) [OF w(1) a(1)])
  have "length (fst r) \<le> length pos" by (rule r(2))
  also have "\<dots> \<le> length (drop 3 (parse_space e False))" using k parse_space_length [of "drop 3 (parse_space e False)" True] by (simp add: alt_keeps_def)
  also have "\<dots> \<le> length e" using parse_space_length [of e False] by simp
  finally show ?thesis using w get_symbol_inv(1) [OF g _ w(1)] k r(1) by (auto simp: rules_keep_def alt_keeps_def)
qed

lemma parse_rule_decided: "2 * length src \<le> d \<Longrightarrow> decided (parse_rule d vocab src ps)"
  unfolding parse_rule_def
proof (rule decided_bind)
  fix x assume d: "2 * length src \<le> d" and n: "parse_name src = Some (P_done x)"
  obtain name e where x: "x = (name, e)" by (cases x)
  obtain i ps1 where g: "get_symbol_id name ps = (i, ps1)" by (cases "get_symbol_id name ps")
  have w: "word_name name" "length e < length src" using parse_name_word [OF n [unfolded x]] by auto
  have "length (parse_space (drop 3 (parse_space e False)) True) \<le> length e"
    using parse_space_length [of "drop 3 (parse_space e False)" True] parse_space_length [of e False] by simp
  then have "decided (parse_alternates d vocab name i False (parse_space (drop 3 (parse_space e False)) True) ps1)"
    using d w(2) by (intro parse_decided(2) [OF w(1)]) linarith
  then show "decided (case x of (name, name_end) \<Rightarrow> let pos = parse_space name_end False in case get_symbol_id name ps of (i, ps) \<Rightarrow>
       if \<not> (cur pos = 0x3A \<and> at_pos pos 1 = 0x3A \<and> at_pos pos 2 = 0x3D) then p_throw
       else p_bind (parse_alternates d vocab name i False (parse_space (drop 3 pos) True) ps) (\<lambda>(pos, ps).
         if cur pos = 0x0D then p_ret (parse_space (drop (if at_pos pos 1 = 0x0A then 2 else 1) pos) True, ps)
         else if cur pos = 0x0A then p_ret (parse_space (drop 1 pos) True, ps)
         else if pos \<noteq> [] then p_throw else p_ret (parse_space pos True, ps)))"
    unfolding x Let_def by (simp add: g decided_bind split: prod.splits)
qed simp

lemma parse_rules_keep: "parse_rules d vocab src ps = Some (P_done ps') \<Longrightarrow> ps_inv ps \<Longrightarrow> ps_inv ps'"
proof (induction d arbitrary: src ps)
  case (Suc d)
  show ?case
  proof (cases "src = []")
    case False
    then obtain src1 ps1 where s: "parse_rule d vocab src ps = Some (P_done (src1, ps1))" "parse_rules d vocab src1 ps1 = Some (P_done ps')"
      using Suc.prems(1) by (auto simp: p_bind_done)
    then show ?thesis using Suc.IH [OF s(2)] parse_rule_keeps [OF s(1)] Suc.prems(2) by (simp add: rules_keep_def)
  qed (use Suc.prems in simp)
qed simp

lemma parse_rules_decided: "2 * length src + 1 \<le> d \<Longrightarrow> decided (parse_rules d vocab src ps)"
proof (induction d arbitrary: src ps)
  case (Suc d)
  show ?case
  proof (cases "src = []")
    case False
    have r: "decided (parse_rule d vocab src ps)" using Suc.prems by (intro parse_rule_decided) simp
    have "decided (parse_rules d vocab src1 ps1)" if "parse_rule d vocab src ps = Some (P_done (src1, ps1))" for src1 ps1
      using parse_rule_keeps [OF that] Suc.prems by (intro Suc.IH) (simp add: rules_keep_def)
    then show ?thesis using False r by (auto intro!: decided_bind)
  qed simp
qed simp

lemma no_rules_inv: "ps_inv \<lparr>ps_symbols = [], ps_rules = []\<rparr>"
  by (simp add: ps_inv_def symbols_ok_def rules_closed_def)

lemma parse_grammar_inv: "parse_grammar vocab text = Some (P_done (Some ps)) \<Longrightarrow> ps_inv ps \<and> rules_defined ps"
  using parse_rules_keep [OF _ no_rules_inv] by (auto simp: parse_grammar_def Let_def simp del: parse_rules.simps split: option.splits pout.splits if_splits)

subsection \<open>The rules are well formed\<close>

lemma copy_rule_chain: "chain_ok prev rule \<Longrightarrow> chain_ok prev (copy_rule rule) \<and> refs (copy_rule rule) = refs rule"
proof (induction rule arbitrary: prev)
  case (Cons e es)
  then show ?case by (cases "ge_type e = GT_END") (auto simp: copy_rule_def)
qed simp

lemma parsed_rules_wf:
  assumes "ps_inv ps" "rules_defined ps" "n_syms ps < 2 ^ 32"
  shows "rules_wf (map copy_rule (ps_rules ps))"
proof -
  have sy: "snd ` set (ps_symbols ps) = {..<n_syms ps}"
  proof -
    have "map snd (ps_symbols ps) = [0..<n_syms ps]" using assms(1,3) by (simp add: ps_inv_def symbols_ok_def)
    then have "set (map snd (ps_symbols ps)) = set [0..<n_syms ps]" by (rule arg_cong)
    then show ?thesis by auto
  qed
  have "chain_ok GT_END (copy_rule rule) \<and> refs (copy_rule rule) \<subseteq> {..<length (ps_rules ps)}" if r: "rule \<in> set (ps_rules ps)" for rule
  proof -
    have "rule \<noteq> []" using assms(2) r unfolding rules_defined_def by blast
    then have c: "chain_ok GT_END rule" "refs rule \<subseteq> {..<n_syms ps}" using assms(1,3) r by (auto simp: ps_inv_def rules_closed_def in_range_def)
    have "ge_value e < length (ps_rules ps)" if e: "e \<in> set rule" "ge_type e = GT_RULE_REF" for e
    proof (rule ccontr)
      assume "\<not> ?thesis"
      then have "ge_value e \<notin> snd ` set (ps_symbols ps)" using assms(2) r e unfolding rules_defined_def by (meson not_less)
      then show False using c(2) e unfolding sy refs_def by blast
    qed
    then have "refs rule \<subseteq> {..<length (ps_rules ps)}" by (auto simp: refs_def)
    then show ?thesis using copy_rule_chain [OF c(1)] by simp
  qed
  then show ?thesis by (fastforce simp: rules_wf_def refs_def)
qed

lemma map_of_symbol: "symbols_ok syms \<Longrightarrow> map_of syms root = Some i \<Longrightarrow> i < length syms"
  using symbols_ok_value map_of_SomeD by metis

subsection \<open>Grammars of a text\<close>

definition text_rules :: "parser \<Rightarrow> grules" where
  "text_rules ps = map copy_rule (ps_rules ps)"

lemma grammar_init_str_returns:
  assumes "parse_grammar vocab text = Some (P_done (Some ps))" "n_syms ps < 2 ^ 32" "map_of (ps_symbols ps) root = Some start"
    and "start < length (ps_rules ps)" "empties_direct (text_rules ps)"
  shows "\<exists>og. grammar_init_str vocab text root lazy tts = Some (Done og) \<and> (og = None \<longleftrightarrow> left_recursive (text_rules ps) = Some True) \<and>
    (\<forall>g. og = Some g \<longrightarrow> grammar_ok g \<and> gm_rules g = text_rules ps \<and> stacks_sound (text_rules ps) start [] (gm_stacks g))"
proof -
  have i: "ps_inv ps" "rules_defined ps" using parse_grammar_inv [OF assms(1)] by auto
  have wf: "rules_wf (text_rules ps)" unfolding text_rules_def by (rule parsed_rules_wf [OF i assms(2)])
  have ne: "rule \<noteq> []" if "rule \<in> set (text_rules ps)" for rule using that by (auto simp: text_rules_def copy_rule_def)
  have rd: "refs_defined (text_rules ps)" using wf ne unfolding refs_defined_def rules_wf_def by (meson nth_mem)
  obtain b where b: "left_recursive (text_rules ps) = Some b" using left_recursive_total [OF rd] by auto
  have l: "start < length (text_rules ps)" "ps_rules ps \<noteq> []" using assms(4) by (auto simp: text_rules_def)
  show ?thesis
  proof (cases b)
    case True
    then show ?thesis using assms(1,3) b l by (simp add: grammar_init_str_def Let_def text_rules_def g_ret_def)
  next
    case False
    then have s: "left_safe_rules (text_rules ps)" using left_recursive_safe [OF _ wf assms(5)] b by simp
    obtain r where r: "start_stacks (text_rules ps) start = Some (Done r)" "stacks_ok (text_rules ps) r"
      using start_stacks_returns [OF s l(1)] by blast
    then show ?thesis using assms(1,3) b l s False start_stacks_sound [OF r(1)]
      by (simp add: grammar_init_str_def Let_def text_rules_def [symmetric] g_bind_def g_ret_def grammar_ok_def)
  qed
qed

subsection \<open>Evaluation of the parser\<close>

lemma p_bind_weak: "m = m' \<Longrightarrow> p_bind m f = p_bind m' f"
  by simp

lemma p_bind_simps [simp]: "p_bind (p_ret x) f = f x" "p_bind p_throw f = p_throw" "p_bind (Some P_aborts) f = Some P_aborts"
  by (simp_all add: p_bind_def p_ret_def p_throw_def)

lemmas numeral_steps = parse_sequence.simps(2) [of "pred_numeral k" for k, folded numeral_eq_Suc] parse_alternates.simps(2) [of "pred_numeral k" for k, folded numeral_eq_Suc]
  parse_more.simps(2) [of "pred_numeral k" for k, folded numeral_eq_Suc] parse_rules.simps(2) [of "pred_numeral k" for k, folded numeral_eq_Suc]

lemmas parse_eval = parse_grammar_def c_str_def parse_rule_def parse_name_def at_pos_def
  get_symbol_id_def generate_symbol_id_def sym_set_def add_rule_def vec_resize_def is_word_char_def is_digit_char_def parse_item_def
  parse_braces_def parse_int_def digits_value_def handle_repetitions_def new_item_def max_repetition_def uint64_max_def
  word_le_nat_alt Let_def numeral_steps

declare parse_sequence.simps [simp del] parse_alternates.simps [simp del] parse_more.simps [simp del] parse_rules.simps [simp del]

definition letter_text :: bytes where
  \<comment> \<open>\<open>r::="a"r|"b"\<close>\<close>
  "letter_text = [0x72, 0x3A, 0x3A, 0x3D, 0x22, 0x61, 0x22, 0x72, 0x7C, 0x22, 0x62, 0x22]"

lemma parse_char_eval: "parse_char (0x61 # pos) = p_ret (97, pos)" "parse_char (0x62 # pos) = p_ret (98, pos)"
  by (simp_all add: parse_char_def at_pos_def decode_char_def utf8_cont_def drop_bit_eq_div unat_div)

lemma parse_literal_char: "cur src \<noteq> 0x22 \<Longrightarrow> src \<noteq> [] \<Longrightarrow> parse_literal src rule = p_bind (parse_char src) (\<lambda>(c, pos). parse_literal pos (rule @ [ge GT_CHAR c]))"
  by (subst parse_literal.simps) simp

lemma parse_literal_end: "parse_literal (0x22 # src) rule = p_ret (0x22 # src, rule)"
  by (subst parse_literal.simps) (simp add: at_pos_def)

lemma letter_parse: "parse_grammar None letter_text = p_ret (Some \<lparr>ps_symbols = [([0x72], 0)], ps_rules = letter_rules\<rparr>)"
proof -
  have l: "parse_literal [0x61, 0x22, 0x72, 0x7C, 0x22, 0x62, 0x22] es = p_ret ([0x22, 0x72, 0x7C, 0x22, 0x62, 0x22], es @ [ge GT_CHAR 97])"
    "parse_literal [0x62, 0x22] es = p_ret ([0x22], es @ [ge GT_CHAR 98])" for es
    by (simp_all add: parse_literal_char parse_literal_end parse_char_eval at_pos_def)
  have p: "parse_rules 26 None letter_text \<lparr>ps_symbols = [], ps_rules = []\<rparr> = p_ret \<lparr>ps_symbols = [([0x72], 0)], ps_rules = letter_rules\<rparr>"
    by (simp add: letter_text_def parse_eval l letter_rules_def cong: p_bind_weak)
  have "parse_space (c_str letter_text) True = letter_text" by (simp add: letter_text_def c_str_def)
  moreover have "length letter_text = 12" by (simp add: letter_text_def)
  moreover have "rules_defined \<lparr>ps_symbols = [([0x72], 0)], ps_rules = letter_rules\<rparr>" by (simp add: rules_defined_def letter_rules_def)
  ultimately show ?thesis using p by (simp add: parse_grammar_def Let_def p_ret_def)
qed

definition missing_text :: bytes where
  \<comment> \<open>\<open>a ::= root{0}\<close>\<close>
  "missing_text = [0x61, 0x20, 0x3A, 0x3A, 0x3D, 0x20, 0x72, 0x6F, 0x6F, 0x74, 0x7B, 0x30, 0x7D]"

lemma missing_parse:
  "parse_grammar None missing_text = p_ret (Some \<lparr>ps_symbols = [([0x61], 0), ([0x72, 0x6F, 0x6F, 0x74], 1)], ps_rules = [[ge GT_END 0]]\<rparr>)"
proof -
  have p: "parse_rules 28 None missing_text \<lparr>ps_symbols = [], ps_rules = []\<rparr> =
      p_ret \<lparr>ps_symbols = [([0x61], 0), ([0x72, 0x6F, 0x6F, 0x74], 1)], ps_rules = [[ge GT_END 0]]\<rparr>"
    by (simp add: missing_text_def parse_eval cong: p_bind_weak)
  have "parse_space (c_str missing_text) True = missing_text" "length missing_text = 13" by (simp_all add: missing_text_def c_str_def)
  moreover have "rules_defined \<lparr>ps_symbols = [([0x61], 0), ([0x72, 0x6F, 0x6F, 0x74], 1)], ps_rules = [[ge GT_END 0]]\<rparr>" by (simp add: rules_defined_def)
  ultimately show ?thesis using p by (simp add: parse_grammar_def Let_def p_ret_def)
qed

lemma rec_rules_many: "(n_syms ps < 2 ^ 32 \<longrightarrow> symbols_ok (ps_symbols ps)) \<Longrightarrow> word_name name \<Longrightarrow> min (n_syms ps + n) (2 ^ 32) \<le> n_syms (snd (rec_rules no_max name prev n later last_id ps))"
proof (induction n arbitrary: later last_id ps)
  case (Suc n)
  obtain i ps1 where g: "generate_symbol_id name ps = (i, ps1)" by (cases "generate_symbol_id name ps")
  define rule where "rule = prev @ (if later \<or> no_max then [ge GT_RULE_REF (if no_max then i else last_id)] else []) @ [ge GT_ALT 0, ge GT_END 0]"
  let ?r = "rec_rules no_max name prev n True i (add_rule i rule ps1)"
  have e: "rec_rules no_max name prev (Suc n) later last_id ps = ?r" by (simp add: g rule_def)
  show ?case
  proof (cases "n_syms ps < 2 ^ 32")
    case True
    then have s: "symbols_ok (ps_symbols ps1)" "n_syms ps1 = Suc (n_syms ps)" using generate_symbol_ok [OF _ Suc.prems(2) True g] Suc.prems(1) by auto
    have "min (n_syms (add_rule i rule ps1) + n) (2 ^ 32) \<le> n_syms (snd ?r)" by (rule Suc.IH) (simp_all add: s(1) Suc.prems(2))
    then show ?thesis unfolding e using s(2) by simp
  next
    case False
    have "grows ps ps1" using generate_symbol_mono [OF g] by (simp add: grows_def)
    moreover have "grows (add_rule i rule ps1) (snd ?r)" by (rule rec_rules_grows) (rule prod.collapse [symmetric])
    ultimately have "n_syms ps \<le> n_syms (snd ?r)" by (simp add: grows_def)
    then show ?thesis using False unfolding e by linarith
  qed
qed simp

subsection \<open>Properties\<close>

text \<open>C18. Parsing a grammar text always ends: with the rules, with a report that the text is wrong, or with a failed assertion.\<close>

theorem parse_grammar_ends:
  "parse_grammar vocab text \<noteq> None"
proof -
  have "decided (parse_rules (2 * length (parse_space (c_str text) True) + 2) vocab (parse_space (c_str text) True) \<lparr>ps_symbols = [], ps_rules = []\<rparr>)"
    by (rule parse_rules_decided) simp
  then show ?thesis
    unfolding decided_def parse_grammar_def Let_def by (simp del: parse_rules.simps add: p_ret_def split: option.splits pout.splits)
qed

text \<open>C14. The rules of a text that parses are well formed: each ends with its only end, ranges and alternatives of a
  character class follow its beginning, and every reference is to a rule that there is.\<close>

theorem parsed_grammar_wf:
  assumes "parse_grammar vocab text = Some (P_done (Some ps))" "length (ps_symbols ps) < 2 ^ 32"
  shows "rules_wf (map copy_rule (ps_rules ps)) \<and> map snd (ps_symbols ps) = [0..<length (ps_symbols ps)]"
proof -
  have "ps_inv ps" "rules_defined ps" using parse_grammar_inv [OF assms(1)] by auto
  then show ?thesis using parsed_rules_wf [OF _ _ assms(2)] assms(2) by (simp add: ps_inv_def symbols_ok_def)
qed

theorem parsed_grammar_wf_witness:
  "rules_wf (map copy_rule letter_rules) \<and> map snd [([0x72 :: 8 word], 0)] = [0..<1]"
  using parsed_grammar_wf [OF letter_parse [unfolded p_ret_def]] by simp

text \<open>C6. The whole way from a grammar text: the grammar of its rules is built, unless left recursion is found, and after
  every text the empty stack is there exactly when the text is in the language of the start rule.\<close>

theorem text_grammar_language:
  assumes "parse_grammar vocab text = Some (P_done (Some ps))" "length (ps_symbols ps) < 2 ^ 32" "map_of (ps_symbols ps) root = Some start"
    and "start < length (ps_rules ps)" "empties_direct (map copy_rule (ps_rules ps))"
  shows "\<exists>og. grammar_init_str vocab text root lazy tts = Some (Done og) \<and> (og = None \<longleftrightarrow> left_recursive (map copy_rule (ps_rules ps)) = Some True) \<and>
    (\<forall>g cs. og = Some g \<longrightarrow> (\<exists>g'. g_fold grammar_accept cs g = Some (Done g') \<and>
      ([] \<in> set (gm_stacks g') \<longleftrightarrow> rule_derives (map copy_rule (ps_rules ps)) start cs)))"
proof -
  note t = text_rules_def [symmetric]
  obtain og where og: "grammar_init_str vocab text root lazy tts = Some (Done og)" "og = None \<longleftrightarrow> left_recursive (text_rules ps) = Some True"
    "\<And>g. og = Some g \<Longrightarrow> grammar_ok g \<and> gm_rules g = text_rules ps \<and> stacks_sound (text_rules ps) start [] (gm_stacks g)"
    using grammar_init_str_returns [OF assms(1-4) assms(5) [unfolded t]] by blast
  have "\<exists>g'. g_fold grammar_accept cs g = Some (Done g') \<and> ([] \<in> set (gm_stacks g') \<longleftrightarrow> rule_derives (text_rules ps) start cs)" if g: "og = Some g" for g cs
  proof -
    obtain g' where g': "g_fold grammar_accept cs g = Some (Done g')" using grammar_accepts_return og(3) [OF g] by blast
    have "stacks_sound (gm_rules g) start [] (gm_stacks g)" using og(3) [OF g] by simp
    then have "stacks_sound (gm_rules g) start cs (gm_stacks g')" using grammar_accept_sound [OF g'] by (metis append_Nil)
    then show ?thesis using g' stacks_sound_empty og(3) [OF g] by metis
  qed
  then show ?thesis using og(1,2) unfolding t by blast
qed

theorem text_grammar_language_witness:
  "\<exists>og. grammar_init_str None letter_text [0x72] False [] = Some (Done og) \<and> (og = None \<longleftrightarrow> left_recursive (map copy_rule letter_rules) = Some True) \<and>
    (\<forall>g cs. og = Some g \<longrightarrow> (\<exists>g'. g_fold grammar_accept cs g = Some (Done g') \<and>
      ([] \<in> set (gm_stacks g') \<longleftrightarrow> rule_derives (map copy_rule letter_rules) 0 cs)))"
  using text_grammar_language [OF letter_parse [unfolded p_ret_def], of "[0x72]" 0 False "[]"] letter_ready by (simp add: rules_ready_def)

text \<open>A rule that is only referred to inside a repetition of zero is not missed by the check, and as a start rule it
  is read out of bounds.\<close>

theorem missing_start_rule:
  "grammar_init_str None missing_text [0x72, 0x6F, 0x6F, 0x74] lazy tts = Some Aborted"
proof -
  have r: "left_recursive [[ge GT_END 0]] = Some False" by (simp add: left_recursive_def Let_def)
  have "map copy_rule [[ge GT_END 0]] = [[ge GT_END 0]]" by (simp add: copy_rule_def)
  then show ?thesis using r missing_parse by (simp add: grammar_init_str_def p_ret_def Let_def)
qed

end
