(* ===== verification/GrammarRepeat.thy ===== *)
theory GrammarRepeat
  imports GrammarInit
begin

text \<open>
  What a repetition means. The parser rewrites the items before a repetition to copies of them and references to
  rules that it makes; here this is shown to derive the powers of their language between the two bounds.
\<close>

subsection \<open>Matching does not look past the items\<close>

definition stops :: "gelem \<Rightarrow> bool" where
  "stops e \<longleftrightarrow> ge_type e \<noteq> GT_CHAR_RNG_UPPER \<and> ge_type e \<noteq> GT_CHAR_ALT"

lemma match_loop_stop_first: "stops t \<Longrightarrow> match_loop False (t # ts) c f n = (f, n)"
  by (cases ts) (auto simp: stops_def)

lemma match_loop_stops:
  "stops t \<Longrightarrow> stops t' \<Longrightarrow> (first \<longrightarrow> xs \<noteq> []) \<Longrightarrow> match_loop first (xs @ t # ts) c f n = match_loop first (xs @ t' # ts') c f n"
proof (induction xs arbitrary: first f n rule: length_induct)
  case (1 xs)
  note IH = "1.IH" [rule_format, OF _ "1.prems"(1,2)]
  consider "xs = []" | e where "xs = [e]" | e u zs where "xs = e # u # zs" by (cases xs; cases "tl xs") auto
  then show ?case
  proof cases
    case 1 then show ?thesis using "1.prems" by (simp add: match_loop_stop_first)
  next
    case 2
    have nr: "ge_type t \<noteq> GT_CHAR_RNG_UPPER" "ge_type t' \<noteq> GT_CHAR_RNG_UPPER" using "1.prems"(1,2) by (auto simp: stops_def)
    show ?thesis unfolding 2 using nr by (simp add: match_loop_stop_first [OF "1.prems"(1)] match_loop_stop_first [OF "1.prems"(2)])
  next
    case 3
    have "match_loop False (zs @ t # ts) c f n = match_loop False (zs @ t' # ts') c f n" for f n by (rule IH) (simp_all add: 3)
    moreover have "match_loop False ((u # zs) @ t # ts) c f n = match_loop False ((u # zs) @ t' # ts') c f n" for f n by (rule IH) (simp_all add: 3)
    ultimately show ?thesis by (simp add: 3)
  qed
qed

lemma match_loop_le: "stops t \<Longrightarrow> (first \<longrightarrow> xs \<noteq> []) \<Longrightarrow> snd (match_loop first (xs @ t # ts) c f n) \<le> n + length xs"
proof (induction xs arbitrary: first f n rule: length_induct)
  case (1 xs)
  note IH = "1.IH" [rule_format, OF _ "1.prems"(1)]
  consider "xs = []" | e where "xs = [e]" | e u zs where "xs = e # u # zs" by (cases xs; cases "tl xs") auto
  then show ?case
  proof cases
    case 1 then show ?thesis using "1.prems" by (simp add: match_loop_stop_first)
  next
    case 2
    have "ge_type t \<noteq> GT_CHAR_RNG_UPPER" using "1.prems"(1) by (simp add: stops_def)
    then show ?thesis by (simp add: 2 match_loop_stop_first [OF "1.prems"(1)])
  next
    case 3
    have "snd (match_loop False (zs @ t # ts) c f (n + 2)) \<le> n + 2 + length zs" for f by (rule IH) (simp_all add: 3)
    moreover have "snd (match_loop False ((u # zs) @ t # ts) c f (n + 1)) \<le> n + 1 + length (u # zs)" for f by (rule IH) (simp_all add: 3)
    ultimately show ?thesis by (simp add: 3)
  qed
qed

subsection \<open>The language of items\<close>

inductive items_derive :: "grules \<Rightarrow> gelem list \<Rightarrow> nat list \<Rightarrow> bool" for rules where
  i_nil: "items_derive rules [] []"
| i_char: "es \<noteq> [] \<Longrightarrow> positive_char (ge_type (hd es)) \<or> ge_type (hd es) = GT_CHAR_NOT \<Longrightarrow>
    match_loop True (es @ [ge GT_END 0]) c False 0 = (positive_char (ge_type (hd es)), n) \<Longrightarrow>
    items_derive rules (drop n es) w \<Longrightarrow> items_derive rules es (c # w)"
| i_ref: "ge_type e = GT_RULE_REF \<Longrightarrow> rule_derives rules (ge_value e) u \<Longrightarrow> items_derive rules es v \<Longrightarrow> items_derive rules (e # es) (u @ v)"

lemma stops_simps [simp]: "stops (ge GT_END v)" "stops (ge GT_ALT v)" "stops (ge GT_RULE_REF v)"
  by (simp_all add: stops_def)

lemma item_start_stops: "item_start es \<longleftrightarrow> es = [] \<or> stops (hd es)"
  by (auto simp: item_start_def stops_def)

lemma match_loop_append:
  assumes "item_start ys" "xs \<noteq> []"
  shows "match_loop True ((xs @ ys) @ [ge GT_END 0]) c False 0 = match_loop True (xs @ [ge GT_END 0]) c False 0"
proof (cases ys)
  case (Cons y zs)
  then show ?thesis using match_loop_stops [of y "ge GT_END 0" True xs "zs @ [ge GT_END 0]" c False 0 "[]"] assms by (simp add: item_start_stops)
qed simp

lemma items_append_intro:
  "items_derive rules xs u \<Longrightarrow> item_start ys \<Longrightarrow> items_derive rules ys v \<Longrightarrow> items_derive rules (xs @ ys) (u @ v)"
proof (induction rule: items_derive.induct)
  case (i_char es c n w)
  have "n \<le> length es" using match_loop_le [of "ge GT_END 0" True es "[]" c False 0] i_char.hyps(1,3) by simp
  then have "items_derive rules (drop n (es @ ys)) (w @ v)" using i_char by simp
  then show ?case using items_derive.i_char [of "es @ ys" c n rules "w @ v"] i_char.hyps match_loop_append [OF i_char.prems(1) i_char.hyps(1)] by simp
qed (auto intro: items_derive.intros)

lemma items_append_split:
  "items_derive rules es w \<Longrightarrow> es = xs @ ys \<Longrightarrow> item_start ys \<Longrightarrow> \<exists>u v. w = u @ v \<and> items_derive rules xs u \<and> items_derive rules ys v"
proof (induction arbitrary: xs rule: items_derive.induct)
  case i_nil then show ?case by (auto intro: items_derive.i_nil)
next
  case (i_char es c n w)
  show ?case
  proof (cases "xs = []")
    case True
    then show ?thesis using items_derive.i_char [OF i_char.hyps] i_char.prems by (auto intro: items_derive.i_nil)
  next
    case False
    have m: "match_loop True (xs @ [ge GT_END 0]) c False 0 = (positive_char (ge_type (hd es)), n)"
      using match_loop_append [OF i_char.prems(2) False, of c] i_char.hyps(3) i_char.prems(1) by simp
    then have le: "n \<le> length xs" using match_loop_le [of "ge GT_END 0" True xs "[]" c False 0] False by simp
    then obtain u v where "w = u @ v" "items_derive rules (drop n xs) u" "items_derive rules ys v"
      using i_char.IH [of "drop n xs"] i_char.prems by auto
    moreover have "hd xs = hd es" using False i_char.prems(1) by simp
    ultimately show ?thesis using items_derive.i_char [OF False, of c n rules u] i_char.hyps(2) m by (intro exI [of _ "c # u"] exI [of _ v]) simp
  qed
next
  case (i_ref e u es v)
  show ?case
  proof (cases xs)
    case Nil
    then show ?thesis using items_derive.i_ref [OF i_ref.hyps(1-3)] i_ref.prems by (auto intro: items_derive.i_nil)
  next
    case (Cons x zs)
    then obtain a b where "v = a @ b" "items_derive rules zs a" "items_derive rules ys b" "x = e"
      using i_ref.IH [of zs] i_ref.prems by auto
    then show ?thesis using items_derive.i_ref [OF i_ref.hyps(1,2)] Cons by (metis append_assoc)
  qed
qed

lemma items_append: "item_start ys \<Longrightarrow> items_derive rules (xs @ ys) w \<longleftrightarrow> (\<exists>u v. w = u @ v \<and> items_derive rules xs u \<and> items_derive rules ys v)"
  using items_append_split items_append_intro by blast

inductive_cases items_nilE: "items_derive rules [] w"
inductive_cases items_consE: "items_derive rules (e # es) w"

lemma items_nil [simp]: "items_derive rules [] w \<longleftrightarrow> w = []"
  by (auto intro: i_nil elim: items_nilE)

lemma items_ref: "ge_type e = GT_RULE_REF \<Longrightarrow> items_derive rules (e # es) w \<longleftrightarrow> (\<exists>u v. w = u @ v \<and> rule_derives rules (ge_value e) u \<and> items_derive rules es v)"
  by (auto intro: i_ref elim!: items_consE simp: positive_char_def)

subsection \<open>Items inside a rule\<close>

definition inner :: "gelem list \<Rightarrow> bool" where
  \<comment> \<open>no end of an alternative\<close>
  "inner es \<longleftrightarrow> (\<forall>e \<in> set es. ge_type e \<noteq> GT_ALT \<and> ge_type e \<noteq> GT_END)"

lemma inner_simps [simp]: "inner []" "inner (e # es) \<longleftrightarrow> ge_type e \<noteq> GT_ALT \<and> ge_type e \<noteq> GT_END \<and> inner es"
  "inner (xs @ ys) \<longleftrightarrow> inner xs \<and> inner ys"
  by (auto simp: inner_def)

lemma inner_drop: "inner es \<Longrightarrow> inner (drop n es)"
  using set_drop_subset by (fastforce simp: inner_def)

definition seq_at :: "grules \<Rightarrow> gpos \<Rightarrow> gelem list \<Rightarrow> bool" where
  \<comment> \<open>the items from a pointer to the end of its alternative\<close>
  "seq_at rules p es \<longleftrightarrow> inner es \<and> (\<exists>e post. drop (snd p) (rules ! fst p) = es @ e # post \<and> (ge_type e = GT_ALT \<or> ge_type e = GT_END))"

lemma seq_at_elem: "seq_at rules p es \<Longrightarrow> es \<noteq> [] \<Longrightarrow> elem_at rules p = hd es"
  unfolding seq_at_def elem_at_def by (metis append_Cons hd_append2 hd_drop_conv_nth drop_all append_is_Nil_conv not_less list.distinct(1))

lemma seq_at_end: "seq_at rules p es \<Longrightarrow> is_end_of_sequence rules p \<longleftrightarrow> es = []"
proof -
  assume a: "seq_at rules p es"
  show ?thesis
  proof (cases es)
    case Nil
    obtain e post where e: "drop (snd p) (rules ! fst p) = e # post" "ge_type e = GT_ALT \<or> ge_type e = GT_END" using a by (auto simp: seq_at_def Nil)
    then have "elem_at rules p = e" unfolding elem_at_def by (metis hd_drop_conv_nth drop_all list.sel(1) list.distinct(1) not_less)
    then show ?thesis using e(2) Nil by (auto simp: is_end_of_sequence_def)
  next
    case (Cons x xs)
    then show ?thesis using a seq_at_elem [OF a] by (auto simp: is_end_of_sequence_def seq_at_def)
  qed
qed

lemma seq_at_drop: "seq_at rules p es \<Longrightarrow> n \<le> length es \<Longrightarrow> seq_at rules (pos_add p n) (drop n es)"
proof -
  assume a: "seq_at rules p es" "n \<le> length es"
  then obtain e post where "drop (snd p) (rules ! fst p) = es @ e # post" "ge_type e = GT_ALT \<or> ge_type e = GT_END" by (auto simp: seq_at_def)
  then have "drop (snd p + n) (rules ! fst p) = drop n es @ e # post" using a(2) by (metis drop_append drop_drop add.commute diff_is_0_eq drop0)
  then show ?thesis using a \<open>ge_type e = GT_ALT \<or> ge_type e = GT_END\<close> inner_drop by (auto simp: seq_at_def pos_add_def)
qed

lemma seq_at_match:
  assumes "seq_at rules p es" "es \<noteq> []"
  shows "match_loop True (drop (snd p) (rules ! fst p)) c False 0 = match_loop True (es @ [ge GT_END 0]) c False 0"
    "snd (match_loop True (es @ [ge GT_END 0]) c False 0) \<le> length es"
proof -
  obtain e post where e: "drop (snd p) (rules ! fst p) = es @ e # post" "stops e" using assms(1) by (auto simp: seq_at_def stops_def)
  show "match_loop True (drop (snd p) (rules ! fst p)) c False 0 = match_loop True (es @ [ge GT_END 0]) c False 0"
    unfolding e(1) using assms(2) e(2) by (intro match_loop_stops) simp_all
  show "snd (match_loop True (es @ [ge GT_END 0]) c False 0) \<le> length es"
    using match_loop_le [of "ge GT_END 0" True es "[]" c False 0] assms(2) by simp
qed

lemma derives_items: "derives rules p w \<Longrightarrow> seq_at rules p es \<Longrightarrow> items_derive rules es w"
proof (induction arbitrary: es rule: derives.induct)
  case (d_end p)
  then show ?case using seq_at_end [of rules p es] by simp
next
  case (d_char p c p' w)
  have ne: "es \<noteq> []" using seq_at_end [OF d_char.prems] match_char_type [OF d_char.hyps(1)] by (auto simp: is_end_of_sequence_def)
  obtain f n where m: "match_loop True (es @ [ge GT_END 0]) c False 0 = (f, n)" by fastforce
  have r: "f = positive_char (ge_type (hd es))" "p' = pos_add p n" "positive_char (ge_type (hd es)) \<or> ge_type (hd es) = GT_CHAR_NOT"
    using d_char.hyps(1) seq_at_match(1) [OF d_char.prems ne, of c] m seq_at_elem [OF d_char.prems ne] by (auto simp: match_char_def split: if_splits)
  have "n \<le> length es" using seq_at_match(2) [OF d_char.prems ne, of c] m by simp
  then have "items_derive rules (drop n es) w" using d_char.IH [of "drop n es"] seq_at_drop [OF d_char.prems] r(2) by simp
  then show ?case using i_char [OF ne r(3), of c n rules w] m r(1) by simp
next
  case (d_ref p sub u v)
  have ne: "es \<noteq> []" using seq_at_end [OF d_ref.prems] d_ref.hyps(1) by (auto simp: is_end_of_sequence_def)
  then obtain e es' where es: "es = e # es'" "elem_at rules p = e" using seq_at_elem [OF d_ref.prems] by (cases es) auto
  have "items_derive rules es' v" using d_ref.IH(2) [of es'] seq_at_drop [OF d_ref.prems, of 1] es by simp
  moreover have "rule_derives rules (ge_value e) u" using d_ref.hyps(2,3) es(2) by (auto simp: rule_derives_def)
  ultimately show ?case using i_ref [of e rules u es' v] d_ref.hyps(1) es by simp
qed

lemma items_derives: "items_derive rules es w \<Longrightarrow> seq_at rules p es \<Longrightarrow> derives rules p w"
proof (induction arbitrary: p rule: items_derive.induct)
  case i_nil then show ?case using seq_at_end [of rules p "[]"] by (simp add: d_end)
next
  case (i_char es c n w)
  have "n \<le> length es" using seq_at_match(2) [OF i_char.prems i_char.hyps(1), of c] i_char.hyps(3) by simp
  then have "derives rules (pos_add p n) w" by (intro i_char.IH seq_at_drop i_char.prems)
  moreover have "match_char rules p c = Some (True, pos_add p n)"
    using i_char.hyps(2,3) seq_at_match(1) [OF i_char.prems i_char.hyps(1), of c] seq_at_elem [OF i_char.prems i_char.hyps(1)] by (auto simp: match_char_def)
  ultimately show ?case by (rule d_char [rotated])
next
  case (i_ref e u es v)
  have e: "elem_at rules p = e" using seq_at_elem [OF i_ref.prems] by simp
  obtain sub where "sub \<in> set (alternates rules (ge_value e))" "derives rules sub u" using i_ref.hyps(2) by (auto simp: rule_derives_def)
  moreover have "derives rules (pos_add p 1) v" by (rule i_ref.IH) (use seq_at_drop [OF i_ref.prems, of 1] in simp)
  ultimately show ?case using d_ref [of rules p sub u v] i_ref.hyps(1) e by simp
qed

lemma derives_iff: "seq_at rules p es \<Longrightarrow> derives rules p w \<longleftrightarrow> items_derive rules es w"
  using derives_items items_derives by blast

subsection \<open>The rules of a repetition\<close>

fun times_lang :: "(nat list \<Rightarrow> bool) \<Rightarrow> nat \<Rightarrow> nat list \<Rightarrow> bool" where
  "times_lang L 0 w = (w = [])"
| "times_lang L (Suc k) w = (\<exists>u v. w = u @ v \<and> L u \<and> times_lang L k v)"

lemma times_add: "times_lang L (a + b) w \<longleftrightarrow> (\<exists>u v. w = u @ v \<and> times_lang L a u \<and> times_lang L b v)"
proof (induction a arbitrary: w)
  case (Suc a)
  then show ?case by simp (metis append_assoc)
qed simp

lemma later_inner: "inner es \<Longrightarrow> later_alternates (es @ r) k = later_alternates r (k + length es)"
  by (induction es arbitrary: k) simp_all

lemma option_alternates: "rules ! i = es @ [ge GT_ALT 0, ge GT_END 0] \<Longrightarrow> inner es \<Longrightarrow> alternates rules i = [(i, 0), (i, Suc (length es))]"
  by (simp add: alternates_def later_inner)

lemma option_at:
  assumes "rules ! i = es @ [ge GT_ALT 0, ge GT_END 0]" "inner es"
  shows "seq_at rules (i, 0) es" "seq_at rules (i, Suc (length es)) []"
  using assms by (auto simp: seq_at_def)

lemma option_derives: "rules ! i = es @ [ge GT_ALT 0, ge GT_END 0] \<Longrightarrow> inner es \<Longrightarrow> rule_derives rules i w \<longleftrightarrow> items_derive rules es w \<or> w = []"
  using derives_iff [OF option_at(1)] derives_iff [OF option_at(2)] by (simp add: rule_derives_def option_alternates)

lemma prev_ref_derives: "items_derive rules (prev @ [ge GT_RULE_REF r]) w \<longleftrightarrow> (\<exists>u v. w = u @ v \<and> items_derive rules prev u \<and> rule_derives rules r v)"
  by (simp add: items_append item_start_def items_ref)

lemma chain_derives:
  assumes "inner prev" "\<And>m. m < n \<Longrightarrow> rules ! (base + m) = prev @ (if m = 0 then [] else [ge GT_RULE_REF (base + m - 1)]) @ [ge GT_ALT 0, ge GT_END 0]"
  shows "m < n \<Longrightarrow> rule_derives rules (base + m) w \<longleftrightarrow> (\<exists>k \<le> Suc m. times_lang (items_derive rules prev) k w)"
proof (induction m arbitrary: w)
  case 0
  have "rule_derives rules base w \<longleftrightarrow> items_derive rules prev w \<or> w = []"
    using assms(2) [of 0] 0 assms(1) by (intro option_derives) simp_all
  then show ?case by (auto simp: le_Suc_eq)
next
  case (Suc m)
  let ?L = "items_derive rules prev"
  have "rule_derives rules (base + Suc m) w \<longleftrightarrow> items_derive rules (prev @ [ge GT_RULE_REF (base + m)]) w \<or> w = []"
    using assms(2) [of "Suc m"] Suc.prems assms(1) by (intro option_derives) simp_all
  also have "\<dots> \<longleftrightarrow> (\<exists>u v. w = u @ v \<and> ?L u \<and> (\<exists>k \<le> Suc m. times_lang ?L k v)) \<or> w = []"
    using Suc.IH Suc.prems by (simp add: prev_ref_derives)
  also have "\<dots> \<longleftrightarrow> (\<exists>k \<le> Suc m. times_lang ?L (Suc k) w) \<or> times_lang ?L 0 w" by auto
  also have "\<dots> \<longleftrightarrow> (\<exists>k \<le> Suc (Suc m). times_lang ?L k w)"
    by (metis Suc_le_mono le0 not0_implies_Suc)
  finally show ?case .
qed

lemma star_rule:
  assumes "rules ! i = (prev @ [ge GT_RULE_REF i]) @ [ge GT_ALT 0, ge GT_END 0]" "inner prev"
  shows "derives rules p w \<Longrightarrow> seq_at rules p (es @ [ge GT_RULE_REF i]) \<Longrightarrow>
    \<exists>u v k. w = u @ v \<and> items_derive rules es u \<and> times_lang (items_derive rules prev) k v"
proof (induction arbitrary: es rule: derives.induct)
  case (d_end p)
  then show ?case using seq_at_end [OF d_end.prems] by simp
next
  case (d_char p c p' w)
  have e: "elem_at rules p = hd (es @ [ge GT_RULE_REF i])" using seq_at_elem [OF d_char.prems] by simp
  have ne: "es \<noteq> []" using e match_char_type [OF d_char.hyps(1)] by auto
  have h: "elem_at rules p = hd es" using e ne by simp
  obtain f n where m: "match_loop True (es @ [ge GT_END 0]) c False 0 = (f, n)" by fastforce
  have m2: "match_loop True (drop (snd p) (rules ! fst p)) c False 0 = (f, n)"
    using seq_at_match(1) [OF d_char.prems, of c] match_loop_append [OF item_start_single [of GT_RULE_REF i] ne, of c] m by simp
  have r: "f = positive_char (ge_type (hd es))" "p' = pos_add p n" "positive_char (ge_type (hd es)) \<or> ge_type (hd es) = GT_CHAR_NOT"
    using d_char.hyps(1) m2 h by (auto simp: match_char_def split: if_splits)
  have n: "n \<le> length es" using match_loop_le [of "ge GT_END 0" True es "[]" c False 0] ne m by simp
  have "seq_at rules p' (drop n es @ [ge GT_RULE_REF i])" using seq_at_drop [OF d_char.prems, of n] n r(2) by simp
  then obtain u v k where u: "w = u @ v" "items_derive rules (drop n es) u" "times_lang (items_derive rules prev) k v" using d_char.IH by blast
  have "items_derive rules es (c # u)" using i_char [OF ne r(3), of c n rules u] m r(1) u(2) by simp
  then show ?case using u(1,3) by (intro exI [of _ "c # u"] exI [of _ v]) auto
next
  case (d_ref p sub u v)
  have e: "elem_at rules p = hd (es @ [ge GT_RULE_REF i])" using seq_at_elem [OF d_ref.prems] by simp
  have nx: "seq_at rules (pos_add p 1) (drop 1 (es @ [ge GT_RULE_REF i]))" by (rule seq_at_drop [OF d_ref.prems]) simp
  show ?case
  proof (cases es)
    case Nil
    then have v: "v = []" using derives_iff [OF nx] d_ref.hyps(4) by simp
    have "sub = (i, 0) \<or> sub = (i, Suc (length (prev @ [ge GT_RULE_REF i])))" using d_ref.hyps(2) e Nil option_alternates [OF assms(1)] assms(2) by simp
    then have "\<exists>k. times_lang (items_derive rules prev) k u"
    proof
      assume s: "sub = (i, 0)"
      then obtain a b k where "u = a @ b" "items_derive rules prev a" "times_lang (items_derive rules prev) k b"
        using d_ref.IH(1) [of prev] option_at(1) [OF assms(1)] assms(2) by auto
      then have "times_lang (items_derive rules prev) (Suc k) u" by auto
      then show ?thesis ..
    next
      assume s: "sub = (i, Suc (length (prev @ [ge GT_RULE_REF i])))"
      have "seq_at rules sub []" unfolding s by (rule option_at(2) [OF assms(1)]) (simp add: assms(2))
      then have "times_lang (items_derive rules prev) 0 u" using derives_iff [OF \<open>seq_at rules sub []\<close>] d_ref.hyps(3) by simp
      then show ?thesis ..
    qed
    then show ?thesis using v Nil by auto
  next
    case (Cons x zs)
    then obtain a b k where "v = a @ b" "items_derive rules zs a" "times_lang (items_derive rules prev) k b" using d_ref.IH(2) [of zs] nx by auto
    moreover have "rule_derives rules (ge_value x) u" "ge_type x = GT_RULE_REF" using d_ref.hyps e Cons by (auto simp: rule_derives_def)
    ultimately show ?thesis using i_ref [of x rules u zs a] Cons by (intro exI [of _ "u @ a"] exI [of _ b]) auto
  qed
qed

lemma star_derives:
  assumes "rules ! i = (prev @ [ge GT_RULE_REF i]) @ [ge GT_ALT 0, ge GT_END 0]" "inner prev"
  shows "rule_derives rules i w \<longleftrightarrow> (\<exists>k. times_lang (items_derive rules prev) k w)"
proof
  have o: "rule_derives rules i w \<longleftrightarrow> items_derive rules (prev @ [ge GT_RULE_REF i]) w \<or> w = []" for w
    using assms by (intro option_derives) simp_all
  show "\<exists>k. times_lang (items_derive rules prev) k w" if "rule_derives rules i w"
  proof (cases "w = []")
    case True then show ?thesis by (intro exI [of _ 0]) simp
  next
    case False
    have a: "seq_at rules (i, 0) (prev @ [ge GT_RULE_REF i])" by (rule option_at(1) [OF assms(1)]) (simp add: assms(2))
    then have "derives rules (i, 0) w" using that False o derives_iff [OF a] by simp
    from star_rule [OF assms this a] obtain u v k where "w = u @ v" "items_derive rules prev u" "times_lang (items_derive rules prev) k v" by blast
    then have "times_lang (items_derive rules prev) (Suc k) w" by auto
    then show ?thesis ..
  qed
  have "times_lang (items_derive rules prev) k w \<Longrightarrow> rule_derives rules i w" for k
  proof (induction k arbitrary: w)
    case (Suc k)
    then have "items_derive rules (prev @ [ge GT_RULE_REF i]) w" unfolding prev_ref_derives by auto
    then show ?case using o [of w] by blast
  next
    case 0
    then show ?case using o [of w] by simp
  qed
  then show "rule_derives rules i w" if "\<exists>k. times_lang (items_derive rules prev) k w" using that by blast
qed


abbreviation rep_rule :: "bool \<Rightarrow> gelem list \<Rightarrow> bool \<Rightarrow> nat \<Rightarrow> nat \<Rightarrow> gelem list" where
  "rep_rule no_max prev later last_id i \<equiv> prev @ (if later \<or> no_max then [ge GT_RULE_REF (if no_max then i else last_id)] else []) @ [ge GT_ALT 0, ge GT_END 0]"

lemma add_rule_nth:
  assumes "i + 1 < 2 ^ 32"
  shows "ps_rules (add_rule i rule ps) ! i = rule" "j \<noteq> i \<Longrightarrow> j < length (ps_rules ps) \<Longrightarrow> ps_rules (add_rule i rule ps) ! j = ps_rules ps ! j"
    "i < length (ps_rules (add_rule i rule ps))" "length (ps_rules ps) \<le> length (ps_rules (add_rule i rule ps))"
  using assms by (auto simp: add_rule_def Let_def vec_resize_nth)

lemma rec_rules_shape:
  "rec_rules no_max name prev n later last_id ps = (j, ps') \<Longrightarrow> symbols_ok (ps_symbols ps) \<Longrightarrow> word_name name \<Longrightarrow> n_syms ps + n < 2 ^ 32 \<Longrightarrow>
   n_syms ps' = n_syms ps + n \<and> j = (if n = 0 then last_id else n_syms ps + n - 1) \<and>
   (\<forall>k < n. ps_rules ps' ! (n_syms ps + k) = rep_rule no_max prev (later \<or> k > 0) (if k = 0 then last_id else n_syms ps + k - 1) (n_syms ps + k)) \<and>
   (\<forall>i < min (n_syms ps) (length (ps_rules ps)). ps_rules ps' ! i = ps_rules ps ! i)"
proof (induction no_max name prev n later last_id ps rule: rec_rules.induct)
  case (2 no_max name prev n later last_id ps)
  obtain i ps1 where g: "generate_symbol_id name ps = (i, ps1)" by (cases "generate_symbol_id name ps")
  have lt: "n_syms ps < 2 ^ 32" using "2.prems"(4) by simp
  note gs = generate_symbol_ok [OF "2.prems"(2,3) lt g]
  define rule where "rule = rep_rule no_max prev later last_id i"
  define ps2 where "ps2 = add_rule i rule ps1"
  have rr: "rec_rules no_max name prev n True i ps2 = (j, ps')" using "2.prems"(1) g by (simp add: ps2_def rule_def)
  have r1: "ps_rules ps1 = ps_rules ps" using generate_symbol_mono [OF g] by simp
  have small: "i + 1 < 2 ^ 32" using gs(2) "2.prems"(4) by simp
  have p2: "n_syms ps2 = Suc (n_syms ps)" "i < length (ps_rules ps2)" "ps_rules ps2 ! i = rule" "\<forall>j < min (n_syms ps) (length (ps_rules ps)). ps_rules ps2 ! j = ps_rules ps ! j"
    "length (ps_rules ps) \<le> length (ps_rules ps2)"
    using add_rule_nth [OF small, where rule = rule and ps = ps1] gs(2,3) by (auto simp: ps2_def r1)
  have "symbols_ok (ps_symbols ps2)" "n_syms ps2 + n < 2 ^ 32" using gs(1) p2(1) "2.prems"(4) by (simp_all add: ps2_def)
  from "2.IH" [OF g [symmetric] rr [unfolded ps2_def rule_def], folded rule_def, folded ps2_def, OF this(1) "2.prems"(3) this(2)]
  have IH: "n_syms ps' = n_syms ps2 + n" "j = (if n = 0 then i else n_syms ps2 + n - 1)"
    "\<forall>k < n. ps_rules ps' ! (n_syms ps2 + k) = rep_rule no_max prev True (if k = 0 then i else n_syms ps2 + k - 1) (n_syms ps2 + k)"
    "\<forall>j < min (n_syms ps2) (length (ps_rules ps2)). ps_rules ps' ! j = ps_rules ps2 ! j" by auto
  have "ps_rules ps' ! (n_syms ps + k) = rep_rule no_max prev (later \<or> k > 0) (if k = 0 then last_id else n_syms ps + k - 1) (n_syms ps + k)" if "k < Suc n" for k
  proof (cases k)
    case 0
    then show ?thesis using IH(4) p2(1-3) gs(2) by (simp add: rule_def)
  next
    case (Suc m)
    then show ?thesis using IH(3) that p2(1) gs(2) by (cases m) auto
  qed
  moreover have "ps_rules ps' ! j = ps_rules ps ! j" if "j < min (n_syms ps) (length (ps_rules ps))" for j
    using IH(4) p2(1,4,5) that by simp
  ultimately show ?case using IH(1,2) p2(1) gs(2) by simp
qed simp

subsection \<open>Repetitions\<close>

lemma start_repeat: "item_start prev \<Longrightarrow> item_start (concat (replicate n prev))"
  by (induction n) (auto simp: item_start_def hd_append)

lemma repeat_derives: "item_start prev \<Longrightarrow> items_derive rules (concat (replicate n prev)) w \<longleftrightarrow> times_lang (items_derive rules prev) n w"
  by (induction n arbitrary: w) (simp_all add: items_append start_repeat)

definition rep_count :: "nat \<Rightarrow> nat \<Rightarrow> nat" where
  "rep_count mn mx = (if mx = uint64_max then 1 else mx - mn)"

lemma handle_shape:
  assumes "handle_repetitions name mn mx sq = Some (P_done sq')" "sq_last sq \<le> length (sq_rule sq)" "mn \<le> mx" "mx \<le> max_repetition \<or> mx = uint64_max"
  defines "prev \<equiv> drop (sq_last sq) (sq_rule sq)"
  obtains j where "rec_rules (mx = uint64_max) name prev (rep_count mn mx) False 0 (sq_ps sq) = (j, sq_ps sq')" "sq_last sq' = sq_last sq"
    "drop (sq_last sq) (sq_rule sq') = concat (replicate mn prev) @ (if rep_count mn mx > 0 then [ge GT_RULE_REF j] else [])"
proof -
  have n: "(if mx = uint64_max then 1 else nat ((int mx - int mn) mod 2 ^ 64)) = rep_count mn mx"
    using assms(3,4) by (auto simp: rep_count_def max_repetition_def nat_diff_distrib mod_pos_pos_trivial)
  define rule where "rule = (if mn = 0 then take (sq_last sq) (sq_rule sq) else sq_rule sq @ concat (replicate (mn - 1) prev))"
  obtain j ps where r: "rec_rules (mx = uint64_max) name prev (rep_count mn mx) False 0 (sq_ps sq) = (j, ps)" by fastforce
  have sq': "sq_rule sq' = (if rep_count mn mx > 0 then rule @ [ge GT_RULE_REF j] else rule)" "sq_last sq' = sq_last sq" "sq_ps sq' = ps"
    using assms(1) r unfolding handle_repetitions_def Let_def n prev_def [symmetric] rule_def by (auto simp del: rec_rules.simps split: if_splits)
  have "length rule \<ge> sq_last sq" "drop (sq_last sq) rule = concat (replicate mn prev)"
    using assms(2) by (cases mn; simp add: rule_def prev_def)+
  then have "drop (sq_last sq) (sq_rule sq') = concat (replicate mn prev) @ (if rep_count mn mx > 0 then [ge GT_RULE_REF j] else [])" by (simp add: sq'(1))
  then show ?thesis using that r sq'(2,3) by blast
qed

lemma rep_rules_derive:
  assumes "rec_rules (mx = uint64_max) name prev (rep_count mn mx) False 0 ps = (j, ps')" "symbols_ok (ps_symbols ps)" "word_name name"
    and "n_syms ps + rep_count mn mx < 2 ^ 32" "inner prev" "\<forall>i. n_syms ps \<le> i \<and> i < n_syms ps' \<longrightarrow> rules ! i = ps_rules ps' ! i" "0 < rep_count mn mx"
  shows "rule_derives rules j w \<longleftrightarrow> (\<exists>k. (mx = uint64_max \<or> k \<le> mx - mn) \<and> times_lang (items_derive rules prev) k w)"
proof -
  have sh: "n_syms ps' = n_syms ps + rep_count mn mx" "j = n_syms ps + rep_count mn mx - 1"
    "\<And>k. k < rep_count mn mx \<Longrightarrow> rules ! (n_syms ps + k) = rep_rule (mx = uint64_max) prev (k > 0) (if k = 0 then 0 else n_syms ps + k - 1) (n_syms ps + k)"
    using rec_rules_shape [OF assms(1-4)] assms(6,7) by simp_all
  show ?thesis
  proof (cases "mx = uint64_max")
    case True
    then have j: "j = n_syms ps" "0 < rep_count mn mx" using sh(2) by (simp_all add: rep_count_def)
    have "rules ! j = (prev @ [ge GT_RULE_REF j]) @ [ge GT_ALT 0, ge GT_END 0]" using sh(3) [OF j(2)] True j(1) by simp
    then show ?thesis using star_derives [OF _ assms(5)] True by simp
  next
    case False
    then have c: "rep_count mn mx = mx - mn" by (simp add: rep_count_def)
    have "rule_derives rules (n_syms ps + (mx - mn - 1)) w \<longleftrightarrow> (\<exists>k \<le> Suc (mx - mn - 1). times_lang (items_derive rules prev) k w)"
      by (rule chain_derives [where n = "mx - mn", OF assms(5)]) (use sh(3) False c assms(7) in auto)
    moreover have "n_syms ps + (mx - mn - 1) = j" "Suc (mx - mn - 1) = mx - mn" using sh(2) c assms(7) by simp_all
    ultimately show ?thesis using False by simp
  qed
qed

text \<open>C13. The items that a repetition leaves derive exactly the texts that the items before it derive a number of times
  between the two bounds, once the rules that it makes are in the table.\<close>

theorem repetition_language:
  assumes "handle_repetitions name mn mx sq = Some (P_done sq')" "seq_inv sq" "word_name name" "length (ps_symbols (sq_ps sq')) < 2 ^ 32"
    and "mn \<le> mx" "mx \<le> max_repetition \<or> mx = uint64_max" "inner (drop (sq_last sq) (sq_rule sq))"
    and "\<forall>i. length (ps_symbols (sq_ps sq)) \<le> i \<and> i < length (ps_symbols (sq_ps sq')) \<longrightarrow> rules ! i = ps_rules (sq_ps sq') ! i"
  shows "items_derive rules (drop (sq_last sq') (sq_rule sq')) w \<longleftrightarrow>
    (\<exists>k. mn \<le> k \<and> (mx = uint64_max \<or> k \<le> mx) \<and> times_lang (items_derive rules (drop (sq_last sq) (sq_rule sq))) k w)"
proof -
  define prev where "prev = drop (sq_last sq) (sq_rule sq)"
  let ?L = "items_derive rules prev" and ?n = "rep_count mn mx"
  have s: "sq_last sq \<le> length (sq_rule sq)" "ps_inv (sq_ps sq)" "item_start prev" using assms(2) by (auto simp: seq_inv_def prev_def)
  obtain j where j: "rec_rules (mx = uint64_max) name prev ?n False 0 (sq_ps sq) = (j, sq_ps sq')" "sq_last sq' = sq_last sq"
    "drop (sq_last sq) (sq_rule sq') = concat (replicate mn prev) @ (if ?n > 0 then [ge GT_RULE_REF j] else [])"
    using handle_shape [OF assms(1) s(1) assms(5,6)] unfolding prev_def by blast
  have ok: "symbols_ok (ps_symbols (sq_ps sq))" "n_syms (sq_ps sq) + ?n < 2 ^ 32"
  proof -
    have "grows (sq_ps sq) (sq_ps sq')" by (rule rec_rules_grows [OF j(1)])
    then show o: "symbols_ok (ps_symbols (sq_ps sq))" using s(2) assms(4) by (simp add: ps_inv_def grows_def)
    have "min (n_syms (sq_ps sq) + ?n) (2 ^ 32) \<le> n_syms (sq_ps sq')" using rec_rules_many [of "sq_ps sq" name ?n "mx = uint64_max" prev False 0] o assms(3) j(1) by simp
    then show "n_syms (sq_ps sq) + ?n < 2 ^ 32" using assms(4) by linarith
  qed
  have "items_derive rules (drop (sq_last sq') (sq_rule sq')) w \<longleftrightarrow> (\<exists>u v. w = u @ v \<and> times_lang ?L mn u \<and> items_derive rules (if ?n > 0 then [ge GT_RULE_REF j] else []) v)"
    unfolding j(2,3) by (subst items_append) (simp_all add: repeat_derives [OF s(3)] item_start_def)
  also have "\<dots> \<longleftrightarrow> (\<exists>u v. w = u @ v \<and> times_lang ?L mn u \<and> (\<exists>k. (mx = uint64_max \<or> k \<le> mx - mn) \<and> times_lang ?L k v))"
  proof (cases "?n > 0")
    case True
    then show ?thesis using rep_rules_derive [OF j(1) ok(1) assms(3) ok(2) _ assms(8) True] assms(7) by (simp add: prev_def [symmetric] items_ref)
  next
    case False
    then have "mx \<noteq> uint64_max" "mx - mn = 0" by (auto simp: rep_count_def split: if_splits)
    then show ?thesis using False by simp
  qed
  also have "\<dots> \<longleftrightarrow> (\<exists>k. (mx = uint64_max \<or> k \<le> mx - mn) \<and> times_lang ?L (mn + k) w)" unfolding times_add by blast
  also have "\<dots> \<longleftrightarrow> (\<exists>k. mn \<le> k \<and> (mx = uint64_max \<or> k \<le> mx) \<and> times_lang ?L k w)"
    using assms(5) by (metis add_le_cancel_left le_add1 le_add_diff_inverse)
  finally show ?thesis unfolding prev_def .
qed

lemma decimal_digit: "n < 10 \<Longrightarrow> decimal n = [of_nat (n + 0x30)]"
  by (subst decimal.simps) simp

lemmas rec_rules_numeral = rec_rules.simps(2) [of no_max name prev "pred_numeral k" for no_max name prev k, folded numeral_eq_Suc]

lemma repeat_sample:
  "handle_repetitions [0x72] 1 3 \<lparr>sq_rule = [ge GT_CHAR 97], sq_last = 0, sq_n_prev = 1, sq_ps = \<lparr>ps_symbols = [([0x72], 0)], ps_rules = []\<rparr>\<rparr> =
     Some (P_done \<lparr>sq_rule = [ge GT_CHAR 97, ge GT_RULE_REF 2], sq_last = 0, sq_n_prev = 3,
       sq_ps = \<lparr>ps_symbols = [([0x72], 0), ([0x72, 0x5F, 0x31], 1), ([0x72, 0x5F, 0x32], 2)],
         ps_rules = [[], [ge GT_CHAR 97, ge GT_ALT 0, ge GT_END 0], [ge GT_CHAR 97, ge GT_RULE_REF 1, ge GT_ALT 0, ge GT_END 0]]\<rparr>\<rparr>)"
  by (simp add: handle_repetitions_def Let_def max_repetition_def uint64_max_def p_ret_def generate_symbol_id_def sym_set_def decimal_digit add_rule_def vec_resize_def rec_rules_numeral)

theorem repetition_language_witness:
  "items_derive [[ge GT_CHAR 97, ge GT_RULE_REF 2, ge GT_END 0], [ge GT_CHAR 97, ge GT_ALT 0, ge GT_END 0], [ge GT_CHAR 97, ge GT_RULE_REF 1, ge GT_ALT 0, ge GT_END 0]]
     [ge GT_CHAR 97, ge GT_RULE_REF 2] [97, 97, 97, 97] \<longleftrightarrow>
   (\<exists>k. 1 \<le> k \<and> (3 = uint64_max \<or> k \<le> 3) \<and>
     times_lang (items_derive [[ge GT_CHAR 97, ge GT_RULE_REF 2, ge GT_END 0], [ge GT_CHAR 97, ge GT_ALT 0, ge GT_END 0], [ge GT_CHAR 97, ge GT_RULE_REF 1, ge GT_ALT 0, ge GT_END 0]]
       [ge GT_CHAR 97]) k [97, 97, 97, 97])"
proof -
  have i: "\<forall>i. 1 \<le> i \<and> i < 3 \<longrightarrow> i = 1 \<or> i = (2 :: nat)" by auto
  have inv: "ps_inv \<lparr>ps_symbols = [([0x72], 0)], ps_rules = []\<rparr>"
    by (simp add: ps_inv_def symbols_ok_def rules_closed_def word_name_def is_word_char_def word_le_nat_alt)
  show ?thesis
    using repetition_language [OF repeat_sample, of "[[ge GT_CHAR 97, ge GT_RULE_REF 2, ge GT_END 0], [ge GT_CHAR 97, ge GT_ALT 0, ge GT_END 0],
      [ge GT_CHAR 97, ge GT_RULE_REF 1, ge GT_ALT 0, ge GT_END 0]]" "[97, 97, 97, 97]"] inv i
    by (auto simp: seq_inv_def may_follow_def item_start_def word_name_def is_word_char_def word_le_nat_alt max_repetition_def)
qed

end
