(* ===== verification/Spec2Isabelle.thy ===== *)
theory Spec2Isabelle
  imports KqMask KvMachine RecMachine KvSeqState Outputs GrammarUtf8 GrammarTrigger GrammarRepeat
begin

text \<open>
  A verification library for llama.cpp in this repository. Its first part is the memory subsystem: what a
  decoder keeps of the tokens it has seen, and how a batch of new tokens is put into it. Its second part is
  the grammar that constrains which token may come next.

  \<^bold>\<open>The program.\<close> A caller hands \<open>llama_decode\<close> a batch of tokens with positions and sequence
  ids. \<open>llama_batch_allocr\<close> checks it and fills in what is missing (\<open>init\<close>), and splits it into
  micro-batches (\<open>split_simple\<close>, \<open>split_equal\<close>, \<open>split_seq\<close>). A memory module implements
  \<open>llama_memory_i\<close>: \<open>init_batch\<close> splits a batch and finds room for every micro-batch, \<open>apply\<close> puts
  one of them in place before it is computed, \<open>seq_rm\<close>, \<open>seq_cp\<close>, \<open>seq_keep\<close>, \<open>seq_add\<close>,
  \<open>seq_div\<close> and \<open>clear\<close> change what is kept of sequences, \<open>seq_pos_min\<close> and \<open>seq_pos_max\<close> tell the
  splitter what there is, and \<open>state_write\<close> and \<open>state_read\<close> save and restore it. There are two
  memories of their own: the KV cache of attention layers and the recurrent memory; the other
  memories combine them. The compute graph gets from a memory the indices it writes, the attention
  mask, and the rows it reads. The results of a batch are kept per output and found by the index of a token. When the next token is sampled, \<open>llama_grammar_apply_impl\<close> masks the tokens that a grammar does
  not allow, and \<open>llama_grammar_accept_impl\<close> moves the grammar on over the token that was chosen.

  \<^bold>\<open>Theories, in the order they import each other.\<close>

  \<^item> \<open>Prelude\<close>: types that are named in many places (\<open>llama_pos\<close>, \<open>llama_token\<close>), C++ division,
    \<open>std::vector::resize\<close>, loops that may abort (\<open>fold_opt\<close>) and the induction rules for loops
    over \<open>[0..<n]\<close>.
  \<^item> \<open>KvCells\<close>: \<open>llama_kv_cells\<close> of \<open>src/llama-kv-cells.h\<close>, all operations. \<open>kv_cells\<close> has the vectors
    of the class and its two indexes (\<open>used\<close>, \<open>seq_pos\<close>); \<open>cells_wf\<close> says that the indexes agree
    with the vectors, and every operation keeps it. \<open>cells_view\<close> is the abstract cell.
  \<^item> \<open>CellLoop\<close>: the locales of loops over the cells of a stream that change one cell in each step.
  \<^item> \<open>KvCache\<close>: \<open>llama_kv_cache\<close> of \<open>src/llama-kv-cache.cpp\<close>, the sequence operations; \<open>kvc_wf\<close> is its
    invariant, \<open>kvc_view\<close> and \<open>kvc_positions\<close> what it holds. The loops of the operations are
    interpretations of the locales of \<open>CellLoop\<close>.
  \<^item> \<open>Ubatch\<close>, \<open>KvSlot\<close>: micro-batches, \<open>find_slot\<close>, \<open>apply_ubatch\<close>, \<open>prepare\<close> and the index inputs.
    \<open>slot_choice\<close> is the specification of the search (first free cells in ring order) and the loop
    of the source is shown equal to it; \<open>ub_ok\<close> is what the splitter promises.
  \<^item> \<open>KvContext\<close>: \<open>llama_kv_cache_context\<close>, a prepared batch that is run with \<open>apply\<close> and \<open>next\<close>; \<open>slots_work\<close> says
    that the slots can be filled one after the other, and \<open>prepare\<close> is shown to find such slots exactly when the cells are enough.
  \<^item> \<open>KvMachine\<close>: the KV cache as an inductive step relation over all its operations, and what holds in
    every reachable cache.
  \<^item> \<open>KqMask\<close>: \<open>set_input_kq_mask\<close> with the rows that are shared, against the mask by its
    definition, and the token history \<open>get_prev_tokens\<close>.
  \<^item> \<open>Batch\<close>, \<open>BatchInit\<close>: \<open>llama_batch_allocr\<close> of \<open>src/llama-batch.cpp\<close>. The locale \<open>splitter\<close> is
    the contract of a split (tokens are taken once, in order); each of the three splits is an
    interpretation. \<open>allocr_ok\<close> is what \<open>init\<close> guarantees.
  \<^item> \<open>BatchCache\<close>: the locale \<open>memory_view\<close> is what the splitter needs from a memory; the KV cache
    is an interpretation of it. Here are the \<open>init_batch\<close> loops and the theorem that goes from the
    batch to the cache.
  \<^item> \<open>Recurrent\<close>: \<open>llama_memory_recurrent\<close> of \<open>src/llama-memory-recurrent.cpp\<close>: cells with shared
    states, rollback, \<open>find_slot\<close>, \<open>prepare\<close>, \<open>init_batch\<close>, \<open>s_copy\<close>; it is the other
    interpretation of \<open>memory_view\<close>. \<open>RecMachine\<close> has the operations, with save and restore, as an inductive step relation.
  \<^item> \<open>StateIo\<close>: what saved states have in common: numbers as bytes, ranges of rows, tensors, and readers that fail
    or abort. \<open>KvState\<close>, \<open>KvSeqState\<close>: \<open>state_write\<close> and \<open>state_read\<close> of the KV cache, byte by byte; \<open>RecState\<close>: the same of
    the recurrent memory, whose rows may be those of a snapshot (\<open>rs_row\<close>).
  \<^item> \<open>Outputs\<close>: the end of \<open>llama_context::decode\<close>, which numbers the outputs, and the accesses by the index of a token in
    \<open>src/llama-context.cpp\<close>.
  \<^item> \<open>Grammar\<close>: the engine of \<open>src/llama-grammar.cpp\<close> that constrains sampling: UTF-8 decoding, matching, the stacks,
    candidates, the check for left recursion, triggers. \<open>GrammarLang\<close> gives the language of a rule by derivations
    (\<open>derives\<close>) and shows what the stacks mean; \<open>GrammarHalt\<close> that the loops end; \<open>GrammarSample\<close> that masking and
    accepting agree; \<open>GrammarUtf8\<close> is about text in pieces and \<open>GrammarTrigger\<close> about the life of a grammar.
  \<^item> \<open>GrammarParse\<close>: the parser of grammar texts, \<open>llama_grammar_parser\<close>. \<open>GrammarText\<close> has its invariant (\<open>ps_inv\<close>,
    \<open>seq_inv\<close>) and shows that the bound on its depth is enough; \<open>GrammarInit\<close> goes from a text to a grammar and its language; \<open>GrammarRepeat\<close> says what
    the rules made for a repetition derive.
  \<^bold>\<open>How the code is rendered.\<close> Structs and classes are records. \<open>GGML_ASSERT\<close>
  aborts in every build, so an operation with an assertion returns an option and \<open>None\<close> is the
  abort; \<open>std::runtime_error\<close> and an abort are the values \<open>IoThrow\<close> and \<open>IoAbort\<close> of a sum where
  both happen; an operation that returns false or an empty slot returns it here. Pointers to
  arrays are lists, and null is \<open>None\<close>. A \<open>std::map\<close> of positions with counts is a function to counts. Loops are
  \<open>fold\<close>s over index lists or recursive functions with the loop variables as arguments; the two
  loops whose end is not obvious (the splits of a recurrent memory and the search of \<open>find_slot\<close>)
  have termination proofs, so no fuel is used there. In the grammar, \<open>advance_loop\<close> is a partial function, because
  there are grammars on which the loop does not end, and so is \<open>reorder_at\<close>, which is shown to end (\<open>reorder_run\<close>); the recursion of the left recursion check and of the rejection of candidates
  is bounded by the number of rules and the length of the longest candidate, and the bounds are shown to be enough
  (\<open>detect_fuel\<close>, \<open>reject_candidates_result\<close>). The depth of the parser is bounded by twice the length of the text, which is enough
  too (\<open>parse_decided\<close>). Positions, sequence ids and sizes are
  mathematical integers: the code does not rely on their wrap-around, and the theorems
  about saved states name the bounds under which a number fits its type. Where an overflow of 32 bits can be reached it is modelled: the
  offset of a row (\<open>write_v_dim\<close>), the number of rules (\<open>add_rule\<close>), the counters of used cells (\<open>u32_sub\<close>) and the negative index of an output (\<open>output_resolve_row\<close>). An access out of range is
  excluded by the invariants of each operation.

  \<^bold>\<open>What the theorems show.\<close> For the KV cache: the invariant is kept by every operation and holds in every reachable cache;
  each sequence operation has its exact effect on the positions of every sequence;
  \<open>find_slot\<close> returns free cells, exactly when there are enough; \<open>apply_ubatch\<close> puts every token in
  place and leaves no gap in a sequence; \<open>prepare\<close> gives the cache back; the mask is the mask of its
  definition; saving and restoring is the identity up to the order of the cells. For batches: \<open>init\<close>
  accepts exactly the valid batches; every split ends, takes each token once and
  makes micro-batches the memory can place; \<open>init_batch\<close> composes all of it: it succeeds exactly when every stream has empty cells
  enough, and then running the slots places the batch. A saved sequence is restored exactly when there is room for it. For the recurrent
  memory: cells and tails agree in every state that is reached with shifts that stay at zero or above, \<open>find_slot\<close> always succeeds, every sequence
  keeps reading its state, the operations refine those on a map from sequences to positions, and a
  sequence that is saved and restored has its position and its rows again.
  After a batch every output is found by the index of its token.
  For the grammar: the stacks after a text derive exactly what may follow it; building and accepting end under a condition that the
  check for left recursion lacks; a token that is not masked is accepted. The parser ends on every text and gives well-formed rules
  with no reference to a missing rule, so the same holds from the text on; a repetition derives the powers
  between its bounds.
  Where the code does not do what its comments or its
  callers expect, a theorem states what it does: the theorems on \<open>seq_div\<close>,
  the heads after a failed \<open>prepare\<close>, equal splits that are one token too large, batches with partial sets, rollback
  of a shared state, the 32-bit offset, the truncated state, ranges that a recurrent memory
  ignores, shifts below zero, hidden left recursion, token elements inside a piece and a start rule without definition are of this kind.

  \<^bold>\<open>Not modelled, and why.\<close> The tensors and buffers of the memories beyond the bytes of
  saved states, the printing of grammars, the graphs built on the memories and every floating-point computation (the only
  number of that kind that matters is the mask minus infinity); the
  memories that combine a KV cache with another one (their operations call the two in turn);
  the model loader, the
  vocabulary, the samplers, the server and the tools; the ggml library and its back ends,
  which are a tensor library of their own. Logging and timing are left out everywhere.
\<close>

end
